(* ===== verification/Prelude.thy ===== *)
theory Prelude
  imports Main "HOL-Library.Word"
begin

text \<open>
  Shared vocabulary of the development: bytes and the big-endian integer codec of Go's
  \<open>encoding/binary\<close>, buffers filled by successive writes, files read and written at
  absolute offsets, errors as values, and byte-wise key comparison (\<open>bytes.Compare\<close>).

  A Go string and a \<open>[]byte\<close> are both sequences of bytes, so both are \<open>bytes\<close> here.
  A file is its contents. \<open>ReadAt\<close> fails with \<open>io.EOF\<close> when it cannot fill the
  buffer, \<open>WriteAt\<close> past the end fills the gap with zero bytes; device errors of the
  operating system are outside the model.
\<close>

named_theorems bytes_simps \<open>lengths and inverses of the byte encodings\<close>
named_theorems file_simps \<open>reading and writing files at offsets\<close>

unbundle bit_operations_syntax

type_synonym byte = "8 word"
type_synonym bytes = "byte list"
type_synonym u16 = "16 word"
type_synonym u32 = "32 word"
type_synonym u64 = "64 word"

text \<open>
  Errors: \<open>EOF\<close> is \<open>io.EOF\<close>, \<open>Err m\<close> an error made with message \<open>m\<close>,
  \<open>Wrap m e\<close> is \<open>fmt.Errorf("m: %w", e)\<close>, \<open>Panic\<close> a run-time panic.
\<close>

datatype go_error = EOF | Err string | Wrap string go_error | Panic

type_synonym 'a result = "go_error + 'a"

text \<open>A panic is not an error value: it passes through every caller unwrapped.\<close>

definition wrap_error :: "string \<Rightarrow> go_error \<Rightarrow> go_error" where
  "wrap_error m e = (if e = Panic then Panic else Wrap m e)"

lemma wrap_error_simps [simp]:
  "wrap_error m Panic = Panic" "wrap_error m EOF = Wrap m EOF" "wrap_error m (Err s) = Wrap m (Err s)"
  "wrap_error m (Wrap n e) = Wrap m (Wrap n e)"
  by (simp_all add: wrap_error_def)

definition wrap_err :: "string \<Rightarrow> 'a result \<Rightarrow> 'a result" where
  "wrap_err m r = (case r of Inl e \<Rightarrow> Inl (wrap_error m e) | Inr x \<Rightarrow> Inr x)"

lemma wrap_err_Inr [simp]: "wrap_err m r = Inr x \<longleftrightarrow> r = Inr x"
  by (simp add: wrap_err_def split: sum.split)

lemma wrap_err_simps [simp]: "wrap_err m (Inr x) = Inr x" "wrap_err m (Inl e) = Inl (wrap_error m e)"
  by (simp_all add: wrap_err_def)

text \<open>The bytes of an ASCII string literal.\<close>

definition lit :: "string \<Rightarrow> bytes" where
  "lit s = map of_char s"

subsection \<open>Big-endian integers\<close>

text \<open>\<open>be_bytes n x\<close>: the \<open>n\<close> low bytes of \<open>x\<close>, most significant first.\<close>

fun be_bytes :: "nat \<Rightarrow> nat \<Rightarrow> bytes" where
  "be_bytes 0 x = []"
| "be_bytes (Suc n) x = word_of_nat (x div 256 ^ n) # be_bytes n x"

definition be_nat :: "bytes \<Rightarrow> nat" where
  "be_nat bs = foldl (\<lambda>a b. a * 256 + unat b) 0 bs"

definition put_u16 :: "u16 \<Rightarrow> bytes" where "put_u16 w = be_bytes 2 (unat w)"
definition put_u32 :: "u32 \<Rightarrow> bytes" where "put_u32 w = be_bytes 4 (unat w)"
definition put_u64 :: "u64 \<Rightarrow> bytes" where "put_u64 w = be_bytes 8 (unat w)"

text \<open>The readers look at the first 2, 4 or 8 bytes of their argument.\<close>

definition get_u16 :: "bytes \<Rightarrow> u16" where "get_u16 bs = word_of_nat (be_nat (take 2 bs))"
definition get_u32 :: "bytes \<Rightarrow> u32" where "get_u32 bs = word_of_nat (be_nat (take 4 bs))"
definition get_u64 :: "bytes \<Rightarrow> u64" where "get_u64 bs = word_of_nat (be_nat (take 8 bs))"

lemma length_be_bytes [simp, bytes_simps]: "length (be_bytes n x) = n"
  by (induction n) auto

lemma length_put [simp, bytes_simps]:
  "length (put_u16 a) = 2" "length (put_u32 b) = 4" "length (put_u64 c) = 8"
  by (simp_all add: put_u16_def put_u32_def put_u64_def)

text \<open>The encodings written out, for evaluation.\<close>

lemma put_eval:
  "put_u16 a = [word_of_nat (unat a div 256), word_of_nat (unat a)]"
  "put_u32 b = [word_of_nat (unat b div 16777216), word_of_nat (unat b div 65536),
     word_of_nat (unat b div 256), word_of_nat (unat b)]"
proof -
  have two: "(2 :: nat) = Suc (Suc 0)" and four: "(4 :: nat) = Suc (Suc (Suc (Suc 0)))" by simp_all
  show "put_u16 a = [word_of_nat (unat a div 256), word_of_nat (unat a)]"
    unfolding put_u16_def two by simp
  show "put_u32 b = [word_of_nat (unat b div 16777216), word_of_nat (unat b div 65536),
      word_of_nat (unat b div 256), word_of_nat (unat b)]"
    unfolding put_u32_def four by simp
qed

lemma be_nat_foldl: "foldl (\<lambda>a b. a * 256 + unat b) z bs = z * 256 ^ length bs + be_nat bs"
proof (induction bs arbitrary: z)
  case Nil
  then show ?case by (simp add: be_nat_def)
next
  case (Cons b bs)
  have "be_nat (b # bs) = unat b * 256 ^ length bs + be_nat bs"
    using Cons.IH [of "unat b"] by (simp add: be_nat_def)
  then show ?case using Cons.IH [of "z * 256 + unat b"] by (simp add: algebra_simps)
qed

lemma be_nat_simps [simp]:
  "be_nat [] = 0"
  "be_nat (b # bs) = unat b * 256 ^ length bs + be_nat bs"
  using be_nat_foldl [of "unat b" bs] by (simp_all add: be_nat_def)

lemma unat_bounds:
  "unat (b :: byte) < 256" "unat (w :: u16) < 65536" "unat (x :: u32) < 4294967296"
  "unat (y :: u64) < 18446744073709551616"
  using unsigned_less [of b, where ?'a = nat] unsigned_less [of w, where ?'a = nat]
    unsigned_less [of x, where ?'a = nat] unsigned_less [of y, where ?'a = nat] by simp_all

lemma unat_ucast_up [simp]:
  "unat (ucast (w :: u16) :: u32) = unat w" "unat (ucast (w :: u16) :: u64) = unat w"
  "unat (ucast (x :: u32) :: u64) = unat x" "unat (ucast (y :: byte) :: u64) = unat y"
  using unat_bounds(1) [of y] unat_bounds(2) [of w] unat_bounds(3) [of x]
  by (simp_all add: unsigned_ucast_eq take_bit_nat_eq_self)

lemma unat_sub_le: "unat b \<le> unat (a :: 'a :: len word) \<Longrightarrow> unat (a - b) = unat a - unat b"
  by (simp add: unat_sub word_le_nat_alt)

lemma unat_add_small:
  "unat a + unat b < 2 ^ LENGTH('a) \<Longrightarrow> unat (a + b :: 'a :: len word) = unat a + unat b"
  by (simp add: unat_word_ariths)

lemma unat_byte_of_nat [simp]: "unat (word_of_nat x :: byte) = x mod 256"
  by (simp add: unat_of_nat)

lemma be_nat_be_bytes [simp]: "be_nat (be_bytes n x) = x mod 256 ^ n"
proof (induction n)
  case (Suc n)
  have "x mod 256 ^ Suc n = (x div 256 ^ n mod 256) * 256 ^ n + x mod 256 ^ n"
    using mod_mult2_eq [of x "256 ^ n" 256] by (simp add: mult.commute)
  with Suc show ?case by simp
qed simp

lemma be_nat_less: "be_nat bs < 256 ^ length bs"
proof (induction bs)
  case (Cons b bs)
  have "unat b \<le> 255" using unat_bounds(1) [of b] by simp
  then have "unat b * 256 ^ length bs + be_nat bs < 255 * 256 ^ length bs + 256 ^ length bs"
    using Cons by (intro add_le_less_mono mult_le_mono1)
  then show ?case by simp
qed simp

lemma be_bytes_be_nat: "be_bytes (length bs) (be_nat bs + k * 256 ^ length bs) = bs"
proof (induction bs arbitrary: k)
  case (Cons b bs)
  let ?m = "256 ^ length bs :: nat"
  have eq: "be_nat (b # bs) + k * 256 ^ length (b # bs) = be_nat bs + (unat b + k * 256) * ?m"
    by (simp add: algebra_simps)
  have "(be_nat bs + (unat b + k * 256) * ?m) div ?m = unat b + k * 256"
    using be_nat_less [of bs] by simp
  then have hd: "(word_of_nat ((be_nat bs + (unat b + k * 256) * ?m) div ?m) :: byte) = b"
    using unat_bounds(1) [of b] by (simp add: word_unat_eq_iff unat_of_nat unat_word_ariths)
  show ?case using Cons.IH [of "unat b + k * 256"] hd unfolding eq by simp
qed simp

lemma get_put_u16 [simp, bytes_simps]: "get_u16 (put_u16 w @ bs) = w"
  using unat_bounds(2) [of w] by (simp add: get_u16_def put_u16_def)

lemma get_put_u32 [simp, bytes_simps]: "get_u32 (put_u32 w @ bs) = w"
  using unat_bounds(3) [of w] by (simp add: get_u32_def put_u32_def)

lemma get_put_u64 [simp, bytes_simps]: "get_u64 (put_u64 w @ bs) = w"
  using unat_bounds(4) [of w] by (simp add: get_u64_def put_u64_def)

lemma get_put_nil [simp]:
  "get_u16 (put_u16 a) = a" "get_u32 (put_u32 b) = b" "get_u64 (put_u64 c) = c"
  using get_put_u16 [of a "[]"] get_put_u32 [of b "[]"] get_put_u64 [of c "[]"] by simp_all

lemma put_get_u16: "length bs = 2 \<Longrightarrow> put_u16 (get_u16 bs) = bs"
  using be_bytes_be_nat [of bs 0] be_nat_less [of bs]
  by (simp add: put_u16_def get_u16_def unat_of_nat)

lemma put_get_u32: "length bs = 4 \<Longrightarrow> put_u32 (get_u32 bs) = bs"
  using be_bytes_be_nat [of bs 0] be_nat_less [of bs]
  by (simp add: put_u32_def get_u32_def unat_of_nat)

lemma put_get_u64: "length bs = 8 \<Longrightarrow> put_u64 (get_u64 bs) = bs"
  using be_bytes_be_nat [of bs 0] be_nat_less [of bs]
  by (simp add: put_u64_def get_u64_def unat_of_nat)

subsection \<open>Slices and buffers\<close>

text \<open>Go's \<open>xs[lo:hi]\<close> for bounds already checked.\<close>

definition gslice :: "'a list \<Rightarrow> nat \<Rightarrow> nat \<Rightarrow> 'a list" where
  "gslice xs lo hi = take (hi - lo) (drop lo xs)"

lemma length_gslice [simp]: "hi \<le> length xs \<Longrightarrow> length (gslice xs lo hi) = hi - lo"
  by (simp add: gslice_def)

lemma gslice_append_left [simp]: "hi \<le> length xs \<Longrightarrow> gslice (xs @ ys) lo hi = gslice xs lo hi"
  by (cases "lo \<le> hi") (simp_all add: gslice_def)

lemma gslice_append_right:
  "length xs \<le> lo \<Longrightarrow> gslice (xs @ ys) lo hi = gslice ys (lo - length xs) (hi - length xs)"
  by (simp add: gslice_def)

lemma gslice_exact: "lo = length xs \<Longrightarrow> hi = length xs + length ys \<Longrightarrow> gslice (xs @ ys @ zs) lo hi = ys"
  by (simp add: gslice_def)

lemma gslice_all [simp]: "gslice xs 0 (length xs) = xs"
  by (simp add: gslice_def)

text \<open>
  \<open>fill_buffer n chunks\<close>: a buffer \<open>make([]byte, n)\<close> into which the chunks are written one
  after the other at a running offset that starts at 0. Writing past the end panics; bytes not
  written stay 0.
\<close>

definition fill_buffer :: "nat \<Rightarrow> bytes list \<Rightarrow> bytes result" where
  "fill_buffer n chunks =
     (let d = concat chunks
      in if length d \<le> n then Inr (d @ replicate (n - length d) 0) else Inl Panic)"

lemma fill_buffer_exact: "length (concat chunks) = n \<Longrightarrow> fill_buffer n chunks = Inr (concat chunks)"
  by (simp add: fill_buffer_def)

text \<open>Go's \<open>copy(buf[off:], src)\<close>: as many bytes as fit; slicing past the end panics.\<close>

definition copy_into :: "bytes \<Rightarrow> nat \<Rightarrow> bytes \<Rightarrow> bytes result" where
  "copy_into buf off src =
     (if off \<le> length buf
      then Inr (take off buf @ take (length buf - off) src @ drop (off + length src) buf)
      else Inl Panic)"

lemma copy_into_front:
  "off = length xs \<Longrightarrow> length src \<le> n \<Longrightarrow>
   copy_into (xs @ replicate n 0) off src = Inr (xs @ src @ replicate (n - length src) 0)"
  by (simp add: copy_into_def)

subsection \<open>Files\<close>

definition pad_to :: "nat \<Rightarrow> bytes \<Rightarrow> bytes" where
  "pad_to n f = f @ replicate (n - length f) 0"

definition read_at :: "bytes \<Rightarrow> nat \<Rightarrow> nat \<Rightarrow> bytes result" where
  "read_at f n off = (if off + n \<le> length f then Inr (gslice f off (off + n)) else Inl EOF)"

definition write_at :: "bytes \<Rightarrow> bytes \<Rightarrow> nat \<Rightarrow> bytes" where
  "write_at f d off = take off (pad_to off f) @ d @ drop (off + length d) f"

lemma length_pad_to [simp, file_simps]: "length (pad_to n f) = max n (length f)"
  by (simp add: pad_to_def)

lemma pad_to_id [simp, file_simps]: "n \<le> length f \<Longrightarrow> pad_to n f = f"
  by (simp add: pad_to_def)

lemma pad_to_pad_to: "m \<le> n \<Longrightarrow> pad_to n (pad_to m f) = pad_to n f"
  by (cases "length f \<le> m") (auto simp: pad_to_def simp flip: replicate_add)

lemma pad_to_append: "length xs \<le> n \<Longrightarrow> pad_to n (xs @ ys) = xs @ pad_to (n - length xs) ys"
  by (simp add: pad_to_def)

lemma write_at_end [file_simps]: "length f \<le> off \<Longrightarrow> write_at f d off = pad_to off f @ d"
  by (simp add: write_at_def)

lemma write_at_inside [file_simps]:
  "off + length d \<le> length f \<Longrightarrow> write_at f d off = take off f @ d @ drop (off + length d) f"
  by (simp add: write_at_def)

lemma length_write_at [simp]: "length (write_at f d off) = max (length f) (off + length d)"
  by (auto simp: write_at_def)

lemma write_at_append_left [file_simps]:
  "off + length d \<le> length xs \<Longrightarrow> write_at (xs @ ys) d off = write_at xs d off @ ys"
  by (simp add: write_at_inside)

lemma read_at_pad:
  "off + n \<le> length f \<Longrightarrow> read_at f n off = Inr (gslice (pad_to m f) off (off + n))"
  by (simp add: read_at_def pad_to_def)

subsection \<open>Lexicographic comparison of byte strings\<close>

text \<open>\<open>bytes.Compare\<close>: -1, 0 or 1.\<close>

fun bytes_compare :: "bytes \<Rightarrow> bytes \<Rightarrow> int" where
  "bytes_compare [] [] = 0"
| "bytes_compare [] (b # bs) = -1"
| "bytes_compare (a # as) [] = 1"
| "bytes_compare (a # as) (b # bs) =
     (if a < b then -1 else if b < a then 1 else bytes_compare as bs)"

lemma bytes_compare_eq_0 [simp]: "bytes_compare a b = 0 \<longleftrightarrow> a = b"
  by (induction a b rule: bytes_compare.induct) auto

lemma bytes_compare_refl [simp]: "bytes_compare a a = 0"
  by simp

lemma bytes_compare_range: "bytes_compare a b \<in> {-1, 0, 1}"
  by (induction a b rule: bytes_compare.induct) auto

lemma bytes_compare_antisym: "bytes_compare b a = - bytes_compare a b"
  by (induction a b rule: bytes_compare.induct) auto

lemma bytes_compare_trans:
  "bytes_compare a b \<le> 0 \<Longrightarrow> bytes_compare b c \<le> 0 \<Longrightarrow> bytes_compare a c \<le> 0"
proof (induction a c arbitrary: b rule: bytes_compare.induct)
  case (3 a as b)
  then show ?case by (cases b) auto
next
  case (4 a as c cs)
  then show ?case by (cases b) (auto split: if_splits)
qed auto

text \<open>The strict order that \<open>bytes.Compare\<close> decides.\<close>

abbreviation bytes_le :: "bytes \<Rightarrow> bytes \<Rightarrow> bool" where
  "bytes_le a b \<equiv> bytes_compare a b \<le> 0"

lemma bytes_compare_append [simp]: "bytes_compare (xs @ as) (xs @ bs) = bytes_compare as bs"
  by (induction xs) auto

lemma bytes_compare_prefix:
  "length as = length bs \<Longrightarrow>
   bytes_compare (as @ xs) (bs @ ys) = (if as = bs then bytes_compare xs ys else bytes_compare as bs)"
  by (induction as bs rule: list_induct2) auto

text \<open>Big-endian encodings compare as the numbers do.\<close>

lemma bytes_compare_be_nat:
  "length as = length bs \<Longrightarrow> bytes_compare as bs < 0 \<longleftrightarrow> be_nat as < be_nat bs"
proof (induction as bs rule: list_induct2)
  case (Cons a as b bs)
  let ?m = "256 ^ length bs :: nat"
  have lt: "be_nat (x # xs) < be_nat (y # ys)" if "x < y" "length xs = length ys" for x y :: byte and xs ys
  proof -
    have "unat x + 1 \<le> unat y" using that(1) by (simp add: word_less_nat_alt)
    then have "(unat x + 1) * 256 ^ length ys \<le> unat y * 256 ^ length ys" by (rule mult_le_mono1)
    then show ?thesis using be_nat_less [of xs] that(2) by simp
  qed
  consider "a < b" | "b < a" | "a = b" by (metis less_linear)
  then show ?case
  proof cases
    case 1
    then show ?thesis using lt [of a b as bs] Cons.hyps by simp
  next
    case 2
    then show ?thesis using lt [of b a bs as] Cons.hyps by (simp add: not_less_iff_gr_or_eq)
  next
    case 3
    then show ?thesis using Cons by simp
  qed
qed simp

lemma bytes_compare_be_bytes:
  "x < 256 ^ n \<Longrightarrow> y < 256 ^ n \<Longrightarrow> bytes_compare (be_bytes n x) (be_bytes n y) < 0 \<longleftrightarrow> x < y"
  by (simp add: bytes_compare_be_nat)

subsection \<open>Counting up without wrapping\<close>

lemma word_less_plus_1:
  fixes x :: "'a :: len word"
  assumes "x \<noteq> - 1"
  shows "x < x + 1" and "unat (x + 1) = Suc (unat x)"
proof -
  have "1 + x \<noteq> 0" using assms max_word_wrap [of x] by (auto simp: add.commute)
  then show "unat (x + 1) = Suc (unat x)" by (simp add: unatSuc add.commute [of _ 1])
  then show "x < x + 1" by (simp add: word_less_nat_alt)
qed

subsection \<open>Bisection\<close>

text \<open>\<open>sort.Search\<close>: the bisection of the standard library on the interval from \<open>i\<close> to \<open>j\<close>.\<close>

function go_search :: "(nat \<Rightarrow> bool) \<Rightarrow> nat \<Rightarrow> nat \<Rightarrow> nat" where
  "go_search f i j =
     (if i < j then let h = (i + j) div 2 in if \<not> f h then go_search f (h + 1) j else go_search f i h else i)"
  by pat_completeness auto
termination
  by (relation "measure (\<lambda>(f, i, j). j - i)") auto

declare go_search.simps [simp del]

lemma go_search_boundary:
  "i \<le> j \<Longrightarrow> i \<le> go_search f i j \<and> go_search f i j \<le> j \<and>
    (go_search f i j = i \<or> \<not> f (go_search f i j - 1)) \<and> (go_search f i j = j \<or> f (go_search f i j))"
proof (induction "j - i" arbitrary: i j rule: less_induct)
  case less
  show ?case
  proof (cases "i < j")
    case True
    define h where "h = (i + j) div 2"
    have h: "i \<le> h" "h < j" using True by (simp_all add: h_def)
    show ?thesis
    proof (cases "f h")
      case fh: True
      have eq: "go_search f i j = go_search f i h" using True fh by (simp add: go_search.simps [of f i j] h_def)
      have "h - i < j - i" using h by arith
      note IH = less.hyps [OF this h(1)]
      show ?thesis unfolding eq using IH h fh by (cases "go_search f i h = h") simp_all
    next
      case fh: False
      have eq: "go_search f i j = go_search f (h + 1) j" using True fh by (simp add: go_search.simps [of f i j] h_def)
      have m: "j - (h + 1) < j - i" and l: "h + 1 \<le> j" using h by arith+
      note IH = less.hyps [OF m l]
      show ?thesis unfolding eq using IH h fh by (cases "go_search f (h + 1) j = h + 1") simp_all
    qed
  next
    case False
    then show ?thesis using less.prems by (subst (1 2 3 4 5 6) go_search.simps) simp
  qed
qed

lemma go_search_sorted:
  fixes h :: "'a :: linorder"
  assumes "sorted hs"
  defines "k \<equiv> go_search (\<lambda>i. h \<le> hs ! i) 0 (length hs)"
  shows "k \<le> length hs" and "i < k \<Longrightarrow> hs ! i < h" and "k \<le> i \<Longrightarrow> i < length hs \<Longrightarrow> h \<le> hs ! i"
proof -
  have b: "k \<le> length hs" "k = 0 \<or> hs ! (k - 1) < h" "k = length hs \<or> h \<le> hs ! k"
    using go_search_boundary [of 0 "length hs" "\<lambda>i. h \<le> hs ! i"] by (auto simp: k_def not_le)
  show "k \<le> length hs" by (rule b(1))
  show "hs ! i < h" if "i < k"
  proof -
    have "hs ! i \<le> hs ! (k - 1)" using that b(1) by (intro sorted_nth_mono [OF assms(1)]) auto
    then show ?thesis using b(2) that by auto
  qed
  show "h \<le> hs ! i" if "k \<le> i" "i < length hs"
    using sorted_nth_mono [OF assms(1) that] b(3) that by auto
qed

subsection \<open>Decimal numbers\<close>

text \<open>The verbs \<open>%d\<close> and \<open>%06d\<close> of \<open>fmt\<close>, and \<open>strconv.ParseUint\<close> in base 10 with 32 bits.\<close>

fun decimal :: "nat \<Rightarrow> bytes" where
  "decimal n = (if n < 10 then [word_of_nat (48 + n)] else decimal (n div 10) @ [word_of_nat (48 + n mod 10)])"

declare decimal.simps [simp del]

definition decimal6 :: "nat \<Rightarrow> bytes" where
  "decimal6 n = replicate (6 - length (decimal n)) 48 @ decimal n"

fun parse_digits :: "nat \<Rightarrow> bytes \<Rightarrow> nat option" where
  "parse_digits a [] = Some a"
| "parse_digits a (d # ds) = (if 48 \<le> d \<and> d \<le> 57 then parse_digits (a * 10 + (unat d - 48)) ds else None)"

definition parse_uint32 :: "bytes \<Rightarrow> u32 option" where
  "parse_uint32 s =
     (if s = [] then None
      else case parse_digits 0 s of
        None \<Rightarrow> None
      | Some n \<Rightarrow> if n < 2 ^ 32 then Some (word_of_nat n) else None)"

lemma parse_digits_append:
  "parse_digits a (ds @ es) = (case parse_digits a ds of None \<Rightarrow> None | Some b \<Rightarrow> parse_digits b es)"
  by (induction a ds rule: parse_digits.induct) auto

lemma parse_digit:
  "k < 10 \<Longrightarrow> parse_digits a [word_of_nat (48 + k)] = Some (a * 10 + k)"
proof -
  assume "k < 10"
  then have "unat (word_of_nat (48 + k) :: byte) = 48 + k" by (simp add: unat_of_nat del: of_nat_add)
  then show ?thesis using \<open>k < 10\<close> by (simp add: word_le_nat_alt del: of_nat_add)
qed

lemma parse_digits_decimal: "parse_digits 0 (decimal n) = Some n"
proof (induction n rule: decimal.induct)
  case (1 n)
  show ?case
  proof (cases "n < 10")
    case True
    then show ?thesis using parse_digit [of n 0] by (simp add: decimal.simps [of n])
  next
    case False
    then show ?thesis
      using 1 parse_digit [of "n mod 10" "n div 10"] by (simp add: decimal.simps [of n] parse_digits_append)
  qed
qed

lemma parse_digits_zeros: "parse_digits 0 (replicate k 48 @ ds) = parse_digits 0 ds"
  by (induction k) simp_all

lemma decimal_not_Nil [simp]: "decimal n \<noteq> []"
  by (simp add: decimal.simps)

lemma parse_uint32_decimal6 [simp]: "parse_uint32 (decimal6 (unat w)) = Some w"
  using unat_bounds(3) [of w] by (simp add: parse_uint32_def decimal6_def parse_digits_zeros parse_digits_decimal)

end
