(* ===== verification/Events.thy ===== *)
theory Events
  imports Prelude "HOL-Library.AList"
begin

text \<open>
  The data model of \<open>src/types/event.go\<close>: events, record locations, record flags, the
  replaceable kinds and query filters with their convenience setters.

  Go arrays \<open>[32]byte\<close> and \<open>[64]byte\<close> are byte lists whose length is part of
  \<open>event_wf\<close>. A Go map \<open>map[string][]string\<close> is an association list in some iteration
  order; \<open>filter_wf\<close> says that its keys are distinct.
\<close>

section \<open>Records\<close>

record event =
  ev_id :: bytes
  pubkey :: bytes
  created_at :: u32
  kind :: u16
  tags :: "bytes list list"
  content :: bytes
  sig :: bytes
  ev_flags :: byte

definition event_wf :: "event \<Rightarrow> bool" where
  "event_wf e \<longleftrightarrow> length (ev_id e) = 32 \<and> length (pubkey e) = 32 \<and> length (sig e) = 64"

record location =
  segment_id :: u32
  loc_offset :: u32

section \<open>Record flags\<close>

definition flag_deleted :: byte where "flag_deleted = 1"
definition flag_replaced :: byte where "flag_replaced = 2"
definition flag_continued :: byte where "flag_continued = 128"

definition is_deleted :: "byte \<Rightarrow> bool" where "is_deleted f \<longleftrightarrow> f AND flag_deleted \<noteq> 0"
definition is_replaced :: "byte \<Rightarrow> bool" where "is_replaced f \<longleftrightarrow> f AND flag_replaced \<noteq> 0"
definition is_continued :: "byte \<Rightarrow> bool" where "is_continued f \<longleftrightarrow> f AND flag_continued \<noteq> 0"

definition set_deleted :: "bool \<Rightarrow> byte \<Rightarrow> byte" where
  "set_deleted b f = (if b then f OR flag_deleted else f AND NOT flag_deleted)"

definition set_replaced :: "bool \<Rightarrow> byte \<Rightarrow> byte" where
  "set_replaced b f = (if b then f OR flag_replaced else f AND NOT flag_replaced)"

definition set_continued :: "bool \<Rightarrow> byte \<Rightarrow> byte" where
  "set_continued b f = (if b then f OR flag_continued else f AND NOT flag_continued)"

lemmas flag_defs = flag_deleted_def flag_replaced_def flag_continued_def
  is_deleted_def is_replaced_def is_continued_def set_deleted_def set_replaced_def set_continued_def

text \<open>Each flag is one bit; the setters write that bit and no other.\<close>

lemma and_exp_neq_0: "(w :: 'a :: len word) AND 2 ^ n \<noteq> 0 \<longleftrightarrow> bit w n"
  by (simp add: bit_iff_and_push_bit_not_eq_0 push_bit_of_1)

lemma flag_bits:
  "is_deleted f \<longleftrightarrow> bit f 0" "is_replaced f \<longleftrightarrow> bit f 1" "is_continued f \<longleftrightarrow> bit f 7"
  using and_exp_neq_0 [of f 0] and_exp_neq_0 [of f 1] and_exp_neq_0 [of f 7]
  by (simp_all add: flag_defs)

lemma bit_flag_masks [simp]:
  "bit flag_deleted n \<longleftrightarrow> n = 0" "bit flag_replaced n \<longleftrightarrow> n = 1" "bit flag_continued n \<longleftrightarrow> n = 7"
  using bit_exp_iff [where 'a = byte, of 0 n] bit_exp_iff [where 'a = byte, of 1 n]
    bit_exp_iff [where 'a = byte, of 7 n]
  by (auto simp: flag_defs)

lemma bit_set_flag:
  "n < 8 \<Longrightarrow> bit (set_deleted b f) n = (if n = 0 then b else bit f n)"
  "n < 8 \<Longrightarrow> bit (set_replaced b f) n = (if n = 1 then b else bit f n)"
  "n < 8 \<Longrightarrow> bit (set_continued b f) n = (if n = 7 then b else bit f n)"
  by (auto simp: set_deleted_def set_replaced_def set_continued_def bit_simps)

lemma is_set_flag [simp]:
  "is_deleted (set_deleted b f) = b" "is_replaced (set_deleted b f) = is_replaced f"
  "is_continued (set_deleted b f) = is_continued f"
  "is_deleted (set_replaced b f) = is_deleted f" "is_replaced (set_replaced b f) = b"
  "is_continued (set_replaced b f) = is_continued f"
  "is_deleted (set_continued b f) = is_deleted f" "is_replaced (set_continued b f) = is_replaced f"
  "is_continued (set_continued b f) = b"
  by (simp_all add: flag_bits bit_set_flag)

lemma is_flag_or [simp]:
  "is_deleted (f OR g) \<longleftrightarrow> is_deleted f \<or> is_deleted g"
  "is_replaced (f OR g) \<longleftrightarrow> is_replaced f \<or> is_replaced g"
  "is_continued (f OR g) \<longleftrightarrow> is_continued f \<or> is_continued g"
  by (simp_all add: flag_bits bit_simps)

lemma is_flag_0 [simp]: "\<not> is_deleted 0" "\<not> is_replaced 0" "\<not> is_continued 0"
  by (simp_all add: flag_bits)

section \<open>Replaceable kinds\<close>

record replacement_key =
  rk_pubkey :: bytes
  rk_kind :: u16
  rk_dtag :: bytes

definition is_replaceable :: "u16 \<Rightarrow> bool" where
  "is_replaceable k =
     (if k = 0 \<or> k = 3 then True
      else if k \<ge> 10000 \<and> k < 20000 then True
      else if k \<ge> 30000 \<and> k < 40000 then True
      else False)"

definition is_parameterized_replaceable :: "u16 \<Rightarrow> bool" where
  "is_parameterized_replaceable k \<longleftrightarrow> k \<ge> 30000 \<and> k < 40000"

section \<open>Query filters\<close>

type_synonym tag_map = "(bytes \<times> bytes list) list"

record query_filter =
  kinds :: "u16 list"
  authors :: "bytes list"
  since :: u32
  until :: u32
  limit :: int
  ftags :: tag_map
  fsearch :: bytes

definition filter_wf :: "query_filter \<Rightarrow> bool" where
  "filter_wf f \<longleftrightarrow> distinct (map fst (ftags f))"

text \<open>Reading a Go map at an absent key gives the zero value, here the empty slice.\<close>

definition get_tag :: "query_filter \<Rightarrow> bytes \<Rightarrow> bytes list" where
  "get_tag f name = (case map_of (ftags f) name of None \<Rightarrow> [] | Some vs \<Rightarrow> vs)"

definition add_tag :: "query_filter \<Rightarrow> bytes \<Rightarrow> bytes list \<Rightarrow> query_filter" where
  "add_tag f name vs = f\<lparr>ftags := AList.update name (get_tag f name @ vs) (ftags f)\<rparr>"

text \<open>\<open>hex.EncodeToString\<close>: two lower-case digits per byte.\<close>

definition hex_digit :: "nat \<Rightarrow> byte" where
  "hex_digit n = (if n < 10 then word_of_nat (48 + n) else word_of_nat (87 + n))"

definition hex_encode :: "bytes \<Rightarrow> bytes" where
  "hex_encode bs = concat (map (\<lambda>b. [hex_digit (unat b div 16), hex_digit (unat b mod 16)]) bs)"

definition set_etags :: "query_filter \<Rightarrow> bytes list \<Rightarrow> query_filter" where
  "set_etags f etags =
     (if etags = [] then f
      else f\<lparr>ftags := AList.update (lit ''e'') (map hex_encode etags) (ftags f)\<rparr>)"

definition set_ptags :: "query_filter \<Rightarrow> bytes list \<Rightarrow> query_filter" where
  "set_ptags f ptags =
     (if ptags = [] then f
      else f\<lparr>ftags := AList.update (lit ''p'') (map hex_encode ptags) (ftags f)\<rparr>)"

definition set_hashtags :: "query_filter \<Rightarrow> bytes list \<Rightarrow> query_filter" where
  "set_hashtags f hashtags =
     (if hashtags = [] then f
      else f\<lparr>ftags := AList.update (lit ''t'') hashtags (ftags f)\<rparr>)"

lemma filter_wf_setters [simp]:
  "filter_wf f \<Longrightarrow> filter_wf (add_tag f n vs)" "filter_wf f \<Longrightarrow> filter_wf (set_etags f es)"
  "filter_wf f \<Longrightarrow> filter_wf (set_ptags f ps)" "filter_wf f \<Longrightarrow> filter_wf (set_hashtags f hs)"
  by (simp_all add: filter_wf_def add_tag_def set_etags_def set_ptags_def set_hashtags_def
      AList.distinct_update)

lemma get_tag_update [simp]:
  "get_tag (f\<lparr>ftags := AList.update n vs (ftags f)\<rparr>) m = (if m = n then vs else get_tag f m)"
  by (simp add: get_tag_def update_conv')

lemma get_tag_add_tag: "get_tag (add_tag f n vs) m = (if m = n then get_tag f n @ vs else get_tag f m)"
  by (simp add: add_tag_def)

text \<open>Hex encoding loses nothing: two bytes per input byte, and it is injective.\<close>

lemma unat_hex_digit: "n < 16 \<Longrightarrow> unat (hex_digit n) = (if n < 10 then 48 + n else 87 + n)"
  unfolding hex_digit_def if_distrib [where f = unat] unat_byte_of_nat by simp

lemma hex_digit_inj: "m < 16 \<Longrightarrow> n < 16 \<Longrightarrow> hex_digit m = hex_digit n \<longleftrightarrow> m = n"
  by (auto simp: word_unat_eq_iff unat_hex_digit)

lemma length_hex_encode [simp]: "length (hex_encode bs) = 2 * length bs"
  by (induction bs) (auto simp: hex_encode_def)

lemma hex_encode_inj: "hex_encode as = hex_encode bs \<longleftrightarrow> as = bs"
proof (induction as arbitrary: bs)
  case Nil
  then show ?case by (cases bs) (auto simp: hex_encode_def)
next
  case (Cons a as)
  show ?case
  proof (cases bs)
    case (Cons b bs')
    have "a = b" if "unat a div 16 = unat b div 16" "unat a mod 16 = unat b mod 16"
      using that by (metis mult_div_mod_eq word_unat_eq_iff)
    moreover have "unat x div 16 < 16" for x :: byte using unat_bounds(1) [of x] by simp
    ultimately show ?thesis using Cons.IH [of bs'] Cons
      by (auto simp: hex_encode_def hex_digit_inj)
  qed (auto simp: hex_encode_def)
qed

end
