(* ===== verification/Index_Keys.thy ===== *)
theory Index_Keys
  imports Events "HOL-Library.List_Lexorder"
begin

text \<open>
  The index keys of \<open>src/index/index.go\<close>: \<open>KeyBuilderImpl\<close> and the default search type codes. Keys
  are byte strings that the indexes compare with \<open>bytes.Compare\<close>; the library's lexicographic order
  on lists is that order (\<open>bytes_compare_order\<close>), so the results are stated with \<open>\<le>\<close>. They show
  that a key orders entries by its fields and that a range of keys holds exactly the entries asked
  for.
\<close>

section \<open>Key builder\<close>

type_synonym search_type = byte

definition default_search_type_codes :: "(bytes \<times> search_type) list" where
  "default_search_type_codes =
     [(lit ''e'', 1), (lit ''p'', 2), (lit ''a'', 3), (lit ''d'', 4), (lit ''P'', 5), (lit ''E'', 6),
      (lit ''A'', 7), (lit ''g'', 8), (lit ''t'', 9), (lit ''h'', 10), (lit ''i'', 11), (lit ''I'', 12),
      (lit ''k'', 13), (lit ''K'', 14)]"

definition build_primary_key :: "bytes \<Rightarrow> bytes" where
  "build_primary_key ident = pad_to 32 (take 32 ident)"

definition build_author_time_key :: "bytes \<Rightarrow> u16 \<Rightarrow> u32 \<Rightarrow> bytes" where
  "build_author_time_key pk k t = pad_to 32 (take 32 pk) @ put_u16 k @ put_u32 t"

definition build_search_key :: "u16 \<Rightarrow> search_type \<Rightarrow> bytes \<Rightarrow> u32 \<Rightarrow> bytes" where
  "build_search_key k st tagValue t =
     (let v = (if length tagValue > 255 then take 255 tagValue else tagValue)
      in put_u16 k @ [st] @ [word_of_nat (length v)] @ v @ put_u32 t)"

definition build_search_key_range :: "u16 \<Rightarrow> search_type \<Rightarrow> bytes \<Rightarrow> bytes \<times> bytes" where
  "build_search_key_range k st tagValuePrefix =
     (let v = (if length tagValuePrefix > 255 then take 255 tagValuePrefix else tagValuePrefix)
      in (build_search_key k st v 0, build_search_key k st v (NOT 0)))"

definition build_kind_time_key :: "u16 \<Rightarrow> u32 \<Rightarrow> bytes" where
  "build_kind_time_key k t = put_u16 k @ put_u32 t"

section \<open>The order of keys\<close>

lemma bytes_compare_order:
  "bytes_compare a b < 0 \<longleftrightarrow> a < b" "bytes_compare a b \<le> 0 \<longleftrightarrow> a \<le> b"
  "bytes_compare a b > 0 \<longleftrightarrow> b < a" "bytes_compare a b \<ge> 0 \<longleftrightarrow> b \<le> a"
  by (induction a b rule: bytes_compare.induct) auto

lemma list_le_prefix:
  fixes as :: bytes
  assumes "length as = length bs"
  shows "as @ xs \<le> bs @ ys \<longleftrightarrow> as < bs \<or> as = bs \<and> xs \<le> ys"
    and "as @ xs < bs @ ys \<longleftrightarrow> as < bs \<or> as = bs \<and> xs < ys"
  using assms by (induction as bs rule: list_induct2) auto

lemma be_bytes_order:
  assumes "x < 256 ^ n" and "y < 256 ^ n"
  shows "be_bytes n x < be_bytes n y \<longleftrightarrow> x < y" and "be_bytes n x \<le> be_bytes n y \<longleftrightarrow> x \<le> y"
    and "be_bytes n x = be_bytes n y \<longleftrightarrow> x = y"
proof -
  show eq: "be_bytes n x = be_bytes n y \<longleftrightarrow> x = y" using assms by (metis be_nat_be_bytes mod_less)
  show lt: "be_bytes n x < be_bytes n y \<longleftrightarrow> x < y"
    using bytes_compare_be_bytes [OF assms] by (simp add: bytes_compare_order)
  show "be_bytes n x \<le> be_bytes n y \<longleftrightarrow> x \<le> y" using eq lt by (auto simp: order_le_less)
qed

lemma put_order [simp]:
  "put_u16 a < put_u16 b \<longleftrightarrow> a < b" "put_u16 a \<le> put_u16 b \<longleftrightarrow> a \<le> b" "put_u16 a = put_u16 b \<longleftrightarrow> a = b"
  "put_u32 c < put_u32 d \<longleftrightarrow> c < d" "put_u32 c \<le> put_u32 d \<longleftrightarrow> c \<le> d" "put_u32 c = put_u32 d \<longleftrightarrow> c = d"
  using unat_bounds(2) [of a] unat_bounds(2) [of b] unat_bounds(3) [of c] unat_bounds(3) [of d]
  by (simp_all add: put_u16_def put_u32_def be_bytes_order word_less_nat_alt word_le_nat_alt word_unat_eq_iff)

lemma build_search_key_take [simp]: "build_search_key k st (take 255 v) t = build_search_key k st v t"
  by (auto simp: build_search_key_def min_def Let_def)

lemma search_key_split:
  "build_search_key k st v t = (put_u16 k @ [st, word_of_nat (length (take 255 v))]) @ take 255 v @ put_u32 t"
  by (auto simp: build_search_key_def Let_def min_def)

lemma search_key_range_eq:
  "build_search_key_range k st v = (build_search_key k st v 0, build_search_key k st v (- 1))"
  by (simp add: build_search_key_range_def Let_def)

text \<open>Everything between two extensions of a prefix of the same length starts with that prefix.\<close>

lemma list_prefix_between:
  fixes as :: bytes
  assumes "length as = length bs" and "as @ xs \<le> bs @ ys" and "bs @ ys \<le> as @ zs"
  shows "bs = as"
  using assms(2,3) assms(1) by (auto simp: list_le_prefix)

lemma search_key_between:
  assumes "build_search_key k st v lo \<le> build_search_key k' st' v' t'"
    and "build_search_key k' st' v' t' \<le> build_search_key k st v hi"
  shows "k' = k \<and> st' = st \<and> take 255 v' = take 255 v \<and> lo \<le> t' \<and> t' \<le> hi"
proof -
  let ?pre = "\<lambda>k st v. put_u16 k @ [st, word_of_nat (length (take 255 v))] :: bytes"
  have "?pre k' st' v' = ?pre k st v"
    using assms unfolding search_key_split by (intro list_prefix_between [where as = "?pre k st v"]) simp_all
  then have pre: "k' = k" "st' = st" "(word_of_nat (length (take 255 v')) :: byte) = word_of_nat (length (take 255 v))"
    by simp_all
  have "unat (word_of_nat (length (take 255 x)) :: byte) = length (take 255 x)" for x :: bytes
    by (simp add: unat_of_nat min_def)
  then have len: "length (take 255 v') = length (take 255 v)" using pre(3) by metis
  have tail: "take 255 v @ put_u32 lo \<le> take 255 v' @ put_u32 t'" "take 255 v' @ put_u32 t' \<le> take 255 v @ put_u32 hi"
    using assms unfolding search_key_split pre by (simp_all add: list_le_prefix)
  then have v: "take 255 v' = take 255 v" using len by (intro list_prefix_between [where as = "take 255 v"]) simp_all
  with tail pre show ?thesis by (simp add: list_le_prefix)
qed

lemma search_key_time_order:
  "build_search_key k st v t \<le> build_search_key k st v t' \<longleftrightarrow> t \<le> t'"
  "build_search_key k st v t = build_search_key k st v t' \<longleftrightarrow> t = t'"
  by (simp_all add: search_key_split list_le_prefix)

lemma length_author_key: "length (pad_to 32 (take 32 pk)) = 32"
  by (simp add: pad_to_def min_def)

text \<open>
  Author keys order entries first by author, then by kind, then by time, as the comparison of
  the tuples does.
\<close>

theorem author_time_key_order:
  assumes "length pk = 32" and "length pk' = 32"
  shows "bytes_compare (build_author_time_key pk k t) (build_author_time_key pk' k' t') < 0 \<longleftrightarrow>
    pk < pk' \<or> pk = pk' \<and> (k < k' \<or> k = k' \<and> t < t')"
  using assms by (simp add: build_author_time_key_def bytes_compare_order list_le_prefix pad_to_def)

theorem author_time_key_order_witness:
  "bytes_compare (build_author_time_key (replicate 32 1) 7 100) (build_author_time_key (replicate 32 1) 7 256) < 0 \<longleftrightarrow>
    (100 :: u32) < 256"
  using author_time_key_order [of "replicate 32 1" "replicate 32 1" 7 100 7 256] by simp

text \<open>
  The range built for a tag value holds exactly the search keys of that kind, type and value
  (values are compared by their first 255 bytes), whatever their time.
\<close>

theorem search_key_range_exact:
  assumes "build_search_key_range k st v = (lo, hi)"
  shows "bytes_compare lo (build_search_key k' st' v' t) \<le> 0 \<and> bytes_compare (build_search_key k' st' v' t) hi \<le> 0 \<longleftrightarrow>
    k' = k \<and> st' = st \<and> take 255 v' = take 255 v"
proof -
  have lh: "lo = build_search_key k st v 0" "hi = build_search_key k st v (- 1)"
    using assms by (simp_all add: search_key_range_eq)
  have "build_search_key k st v' t = build_search_key k st v t" if "take 255 v' = take 255 v"
    using that by (metis build_search_key_take)
  then show ?thesis
    using search_key_between [of k st v 0 k' st' v' t "- 1"]
    by (auto simp: bytes_compare_order lh search_key_time_order)
qed

theorem search_key_range_exact_witness:
  "bytes_compare (build_search_key 1 9 (lit ''go'') 0) (build_search_key 1 9 (lit ''go'') 77) \<le> 0 \<and>
   bytes_compare (build_search_key 1 9 (lit ''go'') 77) (build_search_key 1 9 (lit ''go'') (- 1)) \<le> 0"
  using search_key_range_exact [OF search_key_range_eq, of 1 9 "lit ''go''" 1 9 "lit ''go''" 77] by simp

end
