(* ===== verification/Query_Filter.thy ===== *)
theory Query_Filter
  imports Index_Keys "HOL-Library.Sublist"
begin

text \<open>
  Filters and their compilation to index plans: \<open>src/query/filters.go\<close>, \<open>src/query/compiler.go\<close> and
  \<open>src/query/optimizer.go\<close>. Case folding of Unicode text is a parameter of the matching functions:
  \<open>to_lower\<close> stands for \<open>strings.ToLower\<close> and \<open>equal_fold\<close> for \<open>strings.EqualFold\<close>.
\<close>

section \<open>Matching\<close>

fun contains_uint16 :: "u16 list \<Rightarrow> u16 \<Rightarrow> bool" where
  "contains_uint16 [] v = False"
| "contains_uint16 (x # xs) v = (if x = v then True else contains_uint16 xs v)"

fun contains_bytes32 :: "bytes list \<Rightarrow> bytes \<Rightarrow> bool" where
  "contains_bytes32 [] v = False"
| "contains_bytes32 (x # xs) v = (if x = v then True else contains_bytes32 xs v)"

definition has_tag :: "(bytes \<Rightarrow> bytes \<Rightarrow> bool) \<Rightarrow> event \<Rightarrow> bytes \<Rightarrow> bytes list \<Rightarrow> bool" where
  "has_tag equal_fold e tagName tagValues =
     (if length (tags e) = 0 \<or> length tagValues = 0 then False
      else let caseInsensitive = (tagName = lit ''t'')
        in list_ex (\<lambda>tag.
             if length tag < 2 \<or> tag ! 0 \<noteq> tagName then False
             else list_ex (\<lambda>fv. if caseInsensitive then equal_fold (tag ! 1) fv else tag ! 1 = fv) tagValues)
           (tags e))"

definition matches_search :: "(bytes \<Rightarrow> bytes) \<Rightarrow> event \<Rightarrow> bytes \<Rightarrow> bool" where
  "matches_search to_lower e search =
     (let searchLower = to_lower search
      in if sublist searchLower (to_lower (content e)) then True
         else list_ex (\<lambda>tag. if length tag < 2 then False
                else list_ex (\<lambda>val. sublist searchLower (to_lower val)) (tl tag)) (tags e))"

definition matches_filter ::
  "(bytes \<Rightarrow> bytes) \<Rightarrow> (bytes \<Rightarrow> bytes \<Rightarrow> bool) \<Rightarrow> event \<Rightarrow> query_filter \<Rightarrow> bool" where
  "matches_filter to_lower equal_fold e f =
     (if length (kinds f) > 0 \<and> \<not> contains_uint16 (kinds f) (kind e) then False
      else if length (authors f) > 0 \<and> \<not> contains_bytes32 (authors f) (pubkey e) then False
      else if since f > 0 \<and> created_at e < since f then False
      else if until f > 0 \<and> created_at e > until f then False
      else if list_ex (\<lambda>(n, vs). length vs > 0 \<and> \<not> has_tag equal_fold e n vs) (ftags f) then False
      else if fsearch f \<noteq> [] \<and> \<not> matches_search to_lower e (fsearch f) then False
      else True)"

section \<open>Hex identifiers\<close>

text \<open>The value of one digit as the branches of \<open>parseEventID\<close> compute it.\<close>

definition hex_val :: "byte \<Rightarrow> byte option" where
  "hex_val c =
     (if c \<ge> 48 \<and> c \<le> 57 then Some (c - 48)
      else if c \<ge> 97 \<and> c \<le> 102 then Some (c - 97 + 10)
      else if c \<ge> 65 \<and> c \<le> 70 then Some (c - 65 + 10)
      else None)"

fun parse_hex :: "bytes \<Rightarrow> bytes option" where
  "parse_hex (a # b # s) =
     (case hex_val a of
        None \<Rightarrow> None
      | Some hi \<Rightarrow>
          (case hex_val b of
             None \<Rightarrow> None
           | Some lo \<Rightarrow> (case parse_hex s of None \<Rightarrow> None | Some r \<Rightarrow> Some ((push_bit 4 hi OR lo) # r))))"
| "parse_hex _ = Some []"

definition parse_event_id :: "bytes \<Rightarrow> bytes option" where
  "parse_event_id s = (if length s \<noteq> 64 then None else parse_hex s)"

definition parse_pubkey :: "bytes \<Rightarrow> bytes option" where
  "parse_pubkey s = (if length s \<noteq> 64 then None else parse_hex s)"

definition hex_chars :: bytes where "hex_chars = lit ''0123456789abcdef''"

definition bytes_to_hex :: "bytes \<Rightarrow> bytes" where
  "bytes_to_hex b = concat (map (\<lambda>v. [hex_chars ! unat (drop_bit 4 v), hex_chars ! unat (v AND 0xf)]) b)"

section \<open>Normalization and validation\<close>

definition clone_filter :: "query_filter \<Rightarrow> query_filter" where
  "clone_filter f =
     \<lparr>kinds = (if length (kinds f) > 0 then kinds f else []),
      authors = (if length (authors f) > 0 then authors f else []),
      since = since f, until = until f, limit = limit f,
      ftags = (if length (ftags f) > 0 then ftags f else []),
      fsearch = fsearch f\<rparr>"

fun normalize_tag_filters :: "tag_map \<Rightarrow> tag_map" where
  "normalize_tag_filters [] = []"
| "normalize_tag_filters ((n, vs) # ts) =
     (if n = [] then (n, vs) # normalize_tag_filters ts
      else let nonEmptyValues = filter (\<lambda>v. v \<noteq> []) vs
        in if length nonEmptyValues = 0 then normalize_tag_filters ts
           else (n, nonEmptyValues) # normalize_tag_filters ts)"

definition should_apply_default_kinds :: "query_filter \<Rightarrow> bool" where
  "should_apply_default_kinds f \<longleftrightarrow> length (ftags f) > 0 \<or> length (authors f) > 0"

text \<open>
  The default kinds: \<open>None\<close> when no function is configured. The function's result is an argument.
\<close>

definition build_compiler_defaults :: "u16 list \<Rightarrow> u16 list option \<Rightarrow> u16 list option" where
  "build_compiler_defaults defaultKinds fn =
     (case fn of Some ks \<Rightarrow> Some ks | None \<Rightarrow> if length defaultKinds > 0 then Some defaultKinds else None)"

definition normalize_filter :: "u16 list option \<Rightarrow> query_filter option \<Rightarrow> query_filter option" where
  "normalize_filter defaults fo =
     (case fo of
        None \<Rightarrow> None
      | Some f \<Rightarrow>
          let n = clone_filter f; n1 = n\<lparr>ftags := normalize_tag_filters (ftags n)\<rparr>
          in Some (if length (kinds n1) = 0 \<and> should_apply_default_kinds n1
                   then (case defaults of None \<Rightarrow> n1 | Some ks \<Rightarrow> n1\<lparr>kinds := ks\<rparr>)
                   else n1))"

fun validate_tags :: "tag_map \<Rightarrow> go_error option" where
  "validate_tags [] = None"
| "validate_tags ((n, vs) # ts) =
     (if n = [] then Some (Err ''empty tag name in Tags map'')
      else if length vs > 1000 then Some (Err ''too many values for tag'')
      else validate_tags ts)"

definition validate_filter :: "query_filter option \<Rightarrow> go_error option" where
  "validate_filter fo =
     (case fo of
        None \<Rightarrow> Some (Err ''filter cannot be nil'')
      | Some f \<Rightarrow>
          let hasCondition = (length (kinds f) > 0 \<or> length (authors f) > 0 \<or> length (ftags f) > 0 \<or>
                since f > 0 \<or> until f > 0 \<or> fsearch f \<noteq> [])
          in if \<not> hasCondition \<and> limit f = 0 then Some (Err ''filter has no conditions and no limit'')
             else if length (kinds f) > 100 then Some (Err ''too many kinds (max 100)'')
             else case validate_tags (ftags f) of
               Some e \<Rightarrow> Some e
             | None \<Rightarrow>
                 if since f > 0 \<and> until f > 0 \<and> since f > until f then Some (Err ''invalid time range'')
                 else if limit f < 0 then Some (Err ''negative limit'')
                 else None)"

section \<open>Plans\<close>

record plan =
  strategy :: string
  plan_filter :: query_filter
  index_name :: string
  secondary_index_name :: string
  start_key :: bytes
  end_key :: bytes
  estimated_io :: int
  fully_indexed :: bool

definition new_plan :: "query_filter \<Rightarrow> plan" where
  "new_plan f = \<lparr>strategy = [], plan_filter = f, index_name = [], secondary_index_name = [],
     start_key = [], end_key = [], estimated_io = 0, fully_indexed = False\<rparr>"

definition indexable :: "(bytes \<times> search_type) list \<Rightarrow> bytes \<Rightarrow> bool" where
  "indexable codes n \<longleftrightarrow> map_of codes n \<noteq> None"

definition choose_plan :: "(bytes \<times> search_type) list \<Rightarrow> query_filter \<Rightarrow> plan" where
  "choose_plan codes f =
     (let p = new_plan f; names = map fst (ftags f)
      in if length (kinds f) > 0 \<and> length (authors f) = 0 \<and> length (ftags f) = 0 \<and> fsearch f = []
         then p\<lparr>strategy := ''kind_time'', index_name := ''kind_time'', estimated_io := 3, fully_indexed := True\<rparr>
         else if (length (authors f) > 0 \<and> length (ftags f) > 0) \<and> list_ex (indexable codes) names
         then p\<lparr>strategy := ''intersection'', index_name := ''author_time'', secondary_index_name := ''search'',
               estimated_io := 4, fully_indexed := True\<rparr>
         else if length (authors f) > 0
         then p\<lparr>strategy := ''author_time'', index_name := ''author_time'',
               estimated_io := (if length (authors f) = 1 then 4 else 5),
               fully_indexed := (length (ftags f) = 0 \<and> fsearch f = [])\<rparr>
         else if length (ftags f) > 0 \<and> list_ex (indexable codes) names
         then p\<lparr>strategy := ''search'', index_name := ''search'', estimated_io := 6,
               fully_indexed := (length (kinds f) > 0 \<and> list_all (indexable codes) names \<and>
                 length (authors f) = 0 \<and> fsearch f = [])\<rparr>
         else p\<lparr>strategy := ''scan'', index_name := [], estimated_io := 100\<rparr>)"

definition compile_plan :: "(bytes \<times> search_type) list \<Rightarrow> u16 list option \<Rightarrow> query_filter option \<Rightarrow> plan result" where
  "compile_plan codes defaults fo =
     (let n = normalize_filter defaults fo
      in case validate_filter n of
           Some e \<Rightarrow> Inl e
         | None \<Rightarrow> (case n of None \<Rightarrow> Inl Panic | Some f \<Rightarrow> Inr (choose_plan codes f)))"

definition choose_best_index :: "query_filter option \<Rightarrow> string result" where
  "choose_best_index fo =
     (case fo of
        None \<Rightarrow> Inl (Err ''filter cannot be nil'')
      | Some f \<Rightarrow>
          if length (authors f) > 0 then Inr ''author_time''
          else if length (ftags f) > 0 then Inr ''search''
          else Inr ''scan'')"

section \<open>What matching means\<close>

lemma contains_uint16_iff [simp]: "contains_uint16 xs v \<longleftrightarrow> v \<in> set xs"
  by (induction xs) auto

lemma contains_bytes32_iff [simp]: "contains_bytes32 xs v \<longleftrightarrow> v \<in> set xs"
  by (induction xs) auto

definition time_ok :: "query_filter \<Rightarrow> u32 \<Rightarrow> bool" where
  "time_ok f t \<longleftrightarrow> since f \<le> t \<and> (until f = 0 \<or> t \<le> until f)"

lemma has_tag_iff:
  "has_tag eqf e n vs \<longleftrightarrow>
    (\<exists>tag \<in> set (tags e). \<exists>v \<in> set vs. 2 \<le> length tag \<and> tag ! 0 = n \<and>
      (if n = lit ''t'' then eqf (tag ! 1) v else tag ! 1 = v))"
proof -
  have "has_tag eqf e n vs \<longleftrightarrow> tags e \<noteq> [] \<and> vs \<noteq> [] \<and>
    (\<exists>tag \<in> set (tags e). 2 \<le> length tag \<and> tag ! 0 = n \<and>
      (\<exists>v \<in> set vs. if n = lit ''t'' then eqf (tag ! 1) v else tag ! 1 = v))"
    unfolding has_tag_def Let_def list_ex_iff by (simp add: not_less) meson
  then show ?thesis by (metis empty_iff list.set(1))
qed

lemma matches_filter_iff:
  "matches_filter lw eqf e f \<longleftrightarrow>
    (kinds f = [] \<or> kind e \<in> set (kinds f)) \<and> (authors f = [] \<or> pubkey e \<in> set (authors f)) \<and>
    time_ok f (created_at e) \<and> (\<forall>(n, vs) \<in> set (ftags f). vs = [] \<or> has_tag eqf e n vs) \<and>
    (fsearch f = [] \<or> matches_search lw e (fsearch f))"
  by (auto simp: matches_filter_def list_ex_iff time_ok_def not_less word_gt_0)

lemma clone_filter_id [simp]: "clone_filter f = f"
  by (simp add: clone_filter_def)

text \<open>The filter without its empty tag values, for every tag that has a name.\<close>

definition drop_empty_values :: "query_filter \<Rightarrow> query_filter" where
  "drop_empty_values f = f\<lparr>ftags := map (\<lambda>(n, vs). (n, if n = [] then vs else filter (\<lambda>v. v \<noteq> []) vs)) (ftags f)\<rparr>"

lemma normalize_tags_matches:
  "(\<forall>(n, vs) \<in> set (normalize_tag_filters ts). vs = [] \<or> has_tag eqf e n vs) \<longleftrightarrow>
   (\<forall>(n, vs) \<in> set (map (\<lambda>(n, vs). (n, if n = [] then vs else filter (\<lambda>v. v \<noteq> []) vs)) ts). vs = [] \<or> has_tag eqf e n vs)"
  by (induction ts rule: normalize_tag_filters.induct) (auto simp: Let_def)

lemma normalize_tags_Nil: "normalize_tag_filters ts = [] \<longleftrightarrow> (\<forall>(n, vs) \<in> set ts. n \<noteq> [] \<and> set vs \<subseteq> {[]})"
  by (induction ts rule: normalize_tag_filters.induct) (auto simp: Let_def filter_empty_conv)

text \<open>
  C28: What normalization makes of a filter. Empty tag values are dropped, and a tag that is left without values is no condition any more; a filter without kinds
  that still has tags or authors gets the default kinds, when there are any. An event matches the normalized filter exactly when it matches the original without its
  empty tag values and its kind is one of the normalized kinds, unless there are none.
\<close>

theorem normalize_filter_matches:
  assumes "normalize_filter defaults (Some f) = Some g"
  shows "(matches_filter lw eqf e g \<longleftrightarrow> matches_filter lw eqf e (drop_empty_values f) \<and> (kinds g = [] \<or> kind e \<in> set (kinds g))) \<and>
    kinds g = (if kinds f \<noteq> [] then kinds f
      else if authors f = [] \<and> (\<forall>(n, vs) \<in> set (ftags f). n \<noteq> [] \<and> set vs \<subseteq> {[]}) then [] else case defaults of None \<Rightarrow> [] | Some ks \<Rightarrow> ks)"
proof -
  have g: "authors g = authors f" "since g = since f" "until g = until f" "fsearch g = fsearch f"
    "ftags g = normalize_tag_filters (ftags f)" "kinds f \<noteq> [] \<Longrightarrow> kinds g = kinds f"
    using assms by (auto simp: normalize_filter_def Let_def split: if_splits option.splits)
  have "matches_filter lw eqf e g \<longleftrightarrow> matches_filter lw eqf e (drop_empty_values f) \<and> (kinds g = [] \<or> kind e \<in> set (kinds g))"
    using g normalize_tags_matches [of "ftags f" eqf e]
    by (cases "kinds f = []") (simp_all add: matches_filter_iff time_ok_def drop_empty_values_def conj_ac)
  moreover have "kinds g = (if kinds f \<noteq> [] then kinds f
      else if authors f = [] \<and> normalize_tag_filters (ftags f) = [] then [] else case defaults of None \<Rightarrow> [] | Some ks \<Rightarrow> ks)"
    using assms by (auto simp: normalize_filter_def should_apply_default_kinds_def Let_def split: if_splits option.splits)
  ultimately show ?thesis unfolding normalize_tags_Nil by blast
qed

definition demo_filter :: query_filter where
  "demo_filter = \<lparr>kinds = [], authors = [replicate 32 2], since = 5, until = 0, limit = 10,
     ftags = [(lit ''e'', [lit ''ab'', []]), (lit ''p'', [[]])], fsearch = []\<rparr>"

theorem normalize_filter_matches_witness:
  "\<exists>g. normalize_filter (Some [1, 7]) (Some demo_filter) = Some g \<and>
    (\<forall>e. matches_filter id (=) e g \<longleftrightarrow> matches_filter id (=) e (demo_filter\<lparr>ftags := [(lit ''e'', [lit ''ab'']), (lit ''p'', [])]\<rparr>) \<and> kind e \<in> {1, 7})"
proof -
  obtain g where g: "normalize_filter (Some [1, 7]) (Some demo_filter) = Some g" by (auto simp: normalize_filter_def Let_def)
  have "drop_empty_values demo_filter = demo_filter\<lparr>ftags := [(lit ''e'', [lit ''ab'']), (lit ''p'', [])]\<rparr>"
    by (simp add: drop_empty_values_def demo_filter_def lit_def)
  then show ?thesis using g normalize_filter_matches [OF g, of id "(=)"] by (auto simp: demo_filter_def lit_def)
qed

text \<open>Hex strings: printing an identifier and parsing it gives it back.\<close>

lemma hex_chars_eval: "hex_chars = [48, 49, 50, 51, 52, 53, 54, 55, 56, 57, 97, 98, 99, 100, 101, 102]"
  by (simp add: hex_chars_def lit_def)

lemma hex_vals: "map hex_val hex_chars = map Some [0, 1, 2, 3, 4, 5, 6, 7, 8, 9, 10, 11, 12, 13, 14, 15]"
  by (simp add: hex_chars_eval hex_val_def)

lemma hex_val_char:
  assumes "n < 16"
  shows "hex_val (hex_chars ! n) = Some (word_of_nat n)"
proof -
  have "map Some [0, 1, 2, 3, 4, 5, 6, 7, 8, 9, 10, 11, 12, 13, 14, 15 :: byte] = map (\<lambda>k. Some (word_of_nat k)) [0..<16]"
    by (simp add: upt_rec)
  from hex_vals [unfolded this] have "map hex_val hex_chars ! n = map (\<lambda>k. Some (word_of_nat k)) [0..<16] ! n" by simp
  moreover have "length hex_chars = 16" by (simp add: hex_chars_eval)
  ultimately show ?thesis using assms by simp
qed

lemma hex_nibbles:
  fixes v :: byte
  shows "unat (drop_bit 4 v) < 16" "unat (v AND 0xf) < 16" "push_bit 4 (drop_bit 4 v) OR (v AND 0xf) = v"
proof -
  have mask: "(0xf :: byte) = mask 4" by (simp add: mask_eq_exp_minus_1)
  show "unat (drop_bit 4 v) < 16" unfolding unat_drop_bit_eq using unat_bounds(1) [of v] by (simp add: drop_bit_eq_div)
  show "unat (v AND 0xf) < 16"
    unfolding mask take_bit_eq_mask [symmetric] unsigned_take_bit_eq by (simp add: take_bit_eq_mod)
  show "push_bit 4 (drop_bit 4 v) OR (v AND 0xf) = v"
    unfolding mask by (rule bit_eqI) (auto simp: bit_simps bit_mask_iff not_less)
qed

lemma parse_hex_bytes_to_hex: "parse_hex (bytes_to_hex bs) = Some bs"
  by (induction bs) (simp_all add: bytes_to_hex_def hex_val_char hex_nibbles)

lemma length_bytes_to_hex: "length (bytes_to_hex bs) = 2 * length bs"
  by (induction bs) (simp_all add: bytes_to_hex_def)

text \<open>
  Parsing the hex form of an event id of 32 bytes returns the id.
\<close>

theorem parse_event_id_round_trip:
  assumes "length ident = 32"
  shows "parse_event_id (bytes_to_hex ident) = Some ident"
  using assms by (simp add: parse_event_id_def length_bytes_to_hex parse_hex_bytes_to_hex)

theorem parse_event_id_round_trip_witness:
  "parse_event_id (bytes_to_hex (replicate 32 171)) = Some (replicate 32 171)"
  by (rule parse_event_id_round_trip) simp

end
