(* ===== verification/Query_Exec.thy ===== *)
theory Query_Exec
  imports Query_Filter
begin

text \<open>
  The key ranges that a plan scans, \<open>buildAuthorTimeRanges\<close>, \<open>buildSearchRanges\<close> and \<open>buildKindTimeRanges\<close> of \<open>src/query/executor.go\<close>, against \<open>MatchesFilter\<close>.

  The question is whether the scanned ranges and the \<open>fullyIndexed\<close> mark of a plan agree with the filter: a fully indexed plan skips it. The predicate \<open>plan_scans\<close> says
  which events have a key between the bounds, both included, as the in-memory index scans them; kind plans and author plans with kinds agree with the filter
  (\<open>plan_scans_exact\<close>), and for intersections and author plans without kinds there are events that are scanned and do not match.
\<close>

section \<open>Key ranges\<close>

record key_range =
  kr_start :: bytes
  kr_end :: bytes

definition end_time :: "query_filter \<Rightarrow> u32" where
  "end_time f = (if until f = 0 then NOT 0 else until f)"

definition build_author_time_ranges :: "query_filter \<Rightarrow> key_range list" where
  "build_author_time_ranges f =
     concat (map (\<lambda>author.
       if length (kinds f) = 0
       then [\<lparr>kr_start = build_author_time_key author 0 (since f),
              kr_end = build_author_time_key author (NOT 0) (end_time f)\<rparr>]
       else map (\<lambda>k. \<lparr>kr_start = build_author_time_key author k (since f),
                      kr_end = build_author_time_key author k (end_time f)\<rparr>) (kinds f)) (authors f))"

definition build_search_ranges :: "(bytes \<times> search_type) list \<Rightarrow> query_filter \<Rightarrow> key_range list" where
  "build_search_ranges codes f =
     (if length (kinds f) = 0 then []
      else concat (map (\<lambda>(tagName, tagValues).
        (case map_of codes tagName of
           None \<Rightarrow> []
         | Some st \<Rightarrow>
             concat (map (\<lambda>v.
               map (\<lambda>k. \<lparr>kr_start = build_search_key k st v (since f),
                         kr_end = build_search_key k st v (end_time f)\<rparr>) (kinds f)) tagValues))) (ftags f)))"

definition build_kind_time_ranges :: "query_filter \<Rightarrow> key_range list" where
  "build_kind_time_ranges f =
     map (\<lambda>k. \<lparr>kr_start = build_kind_time_key k (since f), kr_end = build_kind_time_key k (end_time f)\<rparr>)
       (if length (kinds f) = 0 then [0] else kinds f)"

definition extract_timestamp_from_key :: "bytes \<Rightarrow> u32" where
  "extract_timestamp_from_key key = (if length key < 4 then 0 else get_u32 (drop (length key - 4) key))"

definition in_ranges :: "key_range list \<Rightarrow> bytes \<Rightarrow> bool" where
  "in_ranges rs key \<longleftrightarrow> list_ex (\<lambda>r. bytes_compare (kr_start r) key \<le> 0 \<and> bytes_compare key (kr_end r) \<le> 0) rs"

text \<open>
  The search keys under which an event is indexed, as \<open>WriteEvent\<close> of the event store builds them:
  one for each tag with a value and a configured name, without repetition.
\<close>

fun event_search_keys :: "(bytes \<times> search_type) list \<Rightarrow> event \<Rightarrow> bytes list \<Rightarrow> bytes list list \<Rightarrow> bytes list" where
  "event_search_keys codes e seen [] = []"
| "event_search_keys codes e seen (tag # ts) =
     (if length tag < 2 then event_search_keys codes e seen ts
      else case map_of codes (tag ! 0) of
        None \<Rightarrow> event_search_keys codes e seen ts
      | Some st \<Rightarrow>
          let tagKey = tag ! 0 @ [0] @ tag ! 1
          in if tagKey \<in> set seen then event_search_keys codes e seen ts
             else build_search_key (kind e) st (tag ! 1) (created_at e)
               # event_search_keys codes e (tagKey # seen) ts)"

text \<open>Whether the index scan of a plan delivers an event that is in the indexes.\<close>

definition author_scan :: "query_filter \<Rightarrow> event \<Rightarrow> bool" where
  "author_scan f e \<longleftrightarrow> in_ranges (build_author_time_ranges f) (build_author_time_key (pubkey e) (kind e) (created_at e))"

definition kind_scan :: "query_filter \<Rightarrow> event \<Rightarrow> bool" where
  "kind_scan f e \<longleftrightarrow> in_ranges (build_kind_time_ranges f) (build_kind_time_key (kind e) (created_at e))"

definition search_scan :: "(bytes \<times> search_type) list \<Rightarrow> query_filter \<Rightarrow> event \<Rightarrow> bool" where
  "search_scan codes f e \<longleftrightarrow> list_ex (in_ranges (build_search_ranges codes f)) (event_search_keys codes e [] (tags e))"

definition plan_scans :: "(bytes \<times> search_type) list \<Rightarrow> plan \<Rightarrow> event \<Rightarrow> bool" where
  "plan_scans codes p e =
     (if strategy p = ''author_time'' then author_scan (plan_filter p) e
      else if strategy p = ''search'' then search_scan codes (plan_filter p) e
      else if strategy p = ''kind_time'' then kind_scan (plan_filter p) e
      else if strategy p = ''intersection'' then author_scan (plan_filter p) e \<and> search_scan codes (plan_filter p) e
      else False)"

section \<open>Which keys the ranges hold\<close>

lemma in_ranges_iff: "in_ranges rs key \<longleftrightarrow> (\<exists>r \<in> set rs. kr_start r \<le> key \<and> key \<le> kr_end r)"
  by (simp add: in_ranges_def list_ex_iff bytes_compare_order)

lemma time_ok_end: "time_ok f t \<longleftrightarrow> since f \<le> t \<and> t \<le> end_time f"
  by (simp add: time_ok_def end_time_def)

lemma author_key_between:
  assumes "length pk = 32" "length pk' = 32"
  shows "build_author_time_key pk k lo \<le> build_author_time_key pk' k' t \<and>
      build_author_time_key pk' k' t \<le> build_author_time_key pk k hi \<longleftrightarrow>
    pk' = pk \<and> k' = k \<and> lo \<le> t \<and> t \<le> hi"
  using assms by (auto simp: build_author_time_key_def list_le_prefix pad_to_def)

lemma author_scan_iff:
  assumes "kinds f \<noteq> []" and "\<forall>a \<in> set (authors f). length a = 32" and "length (pubkey e) = 32"
  shows "author_scan f e \<longleftrightarrow>
    pubkey e \<in> set (authors f) \<and> kind e \<in> set (kinds f) \<and> time_ok f (created_at e)"
proof -
  have "author_scan f e \<longleftrightarrow> (\<exists>a \<in> set (authors f). \<exists>k \<in> set (kinds f).
      build_author_time_key a k (since f) \<le> build_author_time_key (pubkey e) (kind e) (created_at e) \<and>
      build_author_time_key (pubkey e) (kind e) (created_at e) \<le> build_author_time_key a k (end_time f))"
    using assms(1) by (auto simp: author_scan_def in_ranges_iff build_author_time_ranges_def)
  also have "\<dots> \<longleftrightarrow> (\<exists>a \<in> set (authors f). \<exists>k \<in> set (kinds f).
      pubkey e = a \<and> kind e = k \<and> since f \<le> created_at e \<and> created_at e \<le> end_time f)"
    using assms(2,3) by (intro bex_cong refl author_key_between) auto
  finally show ?thesis by (auto simp: time_ok_end)
qed

lemma kind_scan_iff:
  assumes "kinds f \<noteq> []"
  shows "kind_scan f e \<longleftrightarrow> kind e \<in> set (kinds f) \<and> time_ok f (created_at e)"
  using assms by (auto simp: kind_scan_def in_ranges_iff build_kind_time_ranges_def build_kind_time_key_def
      list_le_prefix time_ok_end)

lemma event_search_keys_sound:
  "key \<in> set (event_search_keys codes e seen ts) \<Longrightarrow>
    \<exists>tag st. key = build_search_key (kind e) st (tag ! 1) (created_at e) \<and>
      tag \<in> set ts \<and> 2 \<le> length tag \<and> map_of codes (tag ! 0) = Some st"
proof (induction ts arbitrary: seen)
  case (Cons tag ts)
  show ?case
  proof (cases "key \<in> set (event_search_keys codes e seen ts) \<or>
      key \<in> set (event_search_keys codes e ((tag ! 0 @ [0] @ tag ! 1) # seen) ts)")
    case True
    then show ?thesis using Cons.IH by (meson list.set_intros(2))
  next
    case False
    then show ?thesis
      using Cons.prems by (intro exI [of _ tag]) (auto simp: Let_def split: if_splits option.splits)
  qed
qed simp

lemma tag_key_inj:
  assumes "(0 :: byte) \<notin> set a" "0 \<notin> set a'" "a @ [0] @ b = a' @ [0] @ b'"
  shows "a = a' \<and> b = b'"
proof -
  have "takeWhile (\<lambda>c. c \<noteq> 0) (x @ [0 :: byte] @ y) = x" if "0 \<notin> set x" for x y
    using that by (subst takeWhile_append2) auto
  then have "a = a'" using assms by metis
  then show ?thesis using assms(3) by simp
qed

lemma event_search_keys_complete:
  assumes codes: "\<forall>n \<in> fst ` set codes. 0 \<notin> set n"
    and "tag \<in> set ts" "2 \<le> length tag" "map_of codes (tag ! 0) = Some st"
    and "tag ! 0 @ [0] @ tag ! 1 \<notin> set seen"
  shows "build_search_key (kind e) st (tag ! 1) (created_at e) \<in> set (event_search_keys codes e seen ts)"
  using assms(2-)
proof (induction ts arbitrary: seen)
  case (Cons t ts)
  have nz: "0 \<notin> set n" if "map_of codes n = Some st'" for n st'
    using codes map_of_SomeD [OF that] by force
  show ?case
  proof (cases "length t < 2 \<or> map_of codes (t ! 0) = None \<or> t ! 0 @ [0] @ t ! 1 \<in> set seen")
    case True
    then have "tag \<noteq> t" using Cons.prems by auto
    then show ?thesis using Cons True by (auto simp: Let_def split: option.split)
  next
    case False
    then obtain st' where st': "map_of codes (t ! 0) = Some st'" by auto
    have eq: "event_search_keys codes e seen (t # ts) =
        build_search_key (kind e) st' (t ! 1) (created_at e) # event_search_keys codes e ((t ! 0 @ [0] @ t ! 1) # seen) ts"
      using False st' by (simp add: Let_def)
    show ?thesis
    proof (cases "t ! 0 @ [0] @ t ! 1 = tag ! 0 @ [0] @ tag ! 1")
      case True
      then have "t ! 0 = tag ! 0 \<and> t ! 1 = tag ! 1"
        using nz [OF st'] nz [OF Cons.prems(3)] by (intro tag_key_inj) simp_all
      then show ?thesis using eq st' Cons.prems(3) by simp
    next
      case False
      then have "tag \<in> set ts" "tag ! 0 @ [0] @ tag ! 1 \<notin> set ((t ! 0 @ [0] @ t ! 1) # seen)"
        using Cons.prems by auto
      then show ?thesis using Cons.IH [OF _ Cons.prems(2,3)] eq by simp
    qed
  qed
qed simp

text \<open>
  What the search ranges of a filter select: events of a filtered kind and time with a tag whose
  code and value (its first 255 bytes) belong to some filtered tag.
\<close>

definition tag_selected :: "(bytes \<times> search_type) list \<Rightarrow> query_filter \<Rightarrow> bytes list \<Rightarrow> bool" where
  "tag_selected codes f tag \<longleftrightarrow> 2 \<le> length tag \<and> map_of codes (tag ! 0) \<noteq> None \<and>
     (\<exists>(n, vs) \<in> set (ftags f). map_of codes n = map_of codes (tag ! 0) \<and>
        (\<exists>v \<in> set vs. take 255 v = take 255 (tag ! 1)))"

lemma set_case_option: "r \<in> set (case opt of None \<Rightarrow> [] | Some x \<Rightarrow> g x) \<longleftrightarrow> (\<exists>x. opt = Some x \<and> r \<in> set (g x))"
  by (cases opt) auto

lemma set_search_ranges:
  "r \<in> set (build_search_ranges codes f) \<longleftrightarrow>
    (\<exists>n vs st w k. (n, vs) \<in> set (ftags f) \<and> map_of codes n = Some st \<and> w \<in> set vs \<and> k \<in> set (kinds f) \<and>
      r = \<lparr>kr_start = build_search_key k st w (since f), kr_end = build_search_key k st w (end_time f)\<rparr>)"
proof -
  have "r \<in> set (build_search_ranges codes f) \<longleftrightarrow> kinds f \<noteq> [] \<and>
      (\<exists>(n, vs) \<in> set (ftags f). \<exists>st. map_of codes n = Some st \<and> (\<exists>w \<in> set vs. \<exists>k \<in> set (kinds f).
        r = \<lparr>kr_start = build_search_key k st w (since f), kr_end = build_search_key k st w (end_time f)\<rparr>))"
    by (simp add: build_search_ranges_def set_case_option case_prod_unfold image_iff eq_commute [of "Some _" "map_of _ _"])
  then show ?thesis by force
qed

lemma search_ranges_iff:
  "in_ranges (build_search_ranges codes f) (build_search_key k st v t) \<longleftrightarrow>
    k \<in> set (kinds f) \<and> time_ok f t \<and>
    (\<exists>(n, vs) \<in> set (ftags f). map_of codes n = Some st \<and> (\<exists>w \<in> set vs. take 255 w = take 255 v))"
proof -
  have btw: "build_search_key k' st' w lo \<le> build_search_key k st v t \<and> build_search_key k st v t \<le> build_search_key k' st' w hi
      \<longleftrightarrow> k' = k \<and> st' = st \<and> take 255 w = take 255 v \<and> lo \<le> t \<and> t \<le> hi" for k' st' w lo hi
    using search_key_between [of k' st' w lo k st v t hi] search_key_time_order(1) [of k st v]
      build_search_key_take [of k st v] build_search_key_take [of k st w] by metis
  have "in_ranges (build_search_ranges codes f) (build_search_key k st v t) \<longleftrightarrow>
      (\<exists>(n, vs) \<in> set (ftags f). \<exists>st'. map_of codes n = Some st' \<and> (\<exists>w \<in> set vs. \<exists>k' \<in> set (kinds f).
        build_search_key k' st' w (since f) \<le> build_search_key k st v t \<and>
        build_search_key k st v t \<le> build_search_key k' st' w (end_time f)))"
    unfolding in_ranges_iff Bex_def set_search_ranges by fastforce
  then show ?thesis unfolding btw time_ok_end by fastforce
qed

lemma search_scan_iff:
  assumes "\<forall>n \<in> fst ` set codes. 0 \<notin> set n"
  shows "search_scan codes f e \<longleftrightarrow> kind e \<in> set (kinds f) \<and> time_ok f (created_at e) \<and>
    (\<exists>tag \<in> set (tags e). tag_selected codes f tag)"
proof
  assume "search_scan codes f e"
  then obtain key where key: "key \<in> set (event_search_keys codes e [] (tags e))" "in_ranges (build_search_ranges codes f) key"
    by (auto simp: search_scan_def list_ex_iff)
  from event_search_keys_sound [OF key(1)] obtain tag st where
    "key = build_search_key (kind e) st (tag ! 1) (created_at e)" "tag \<in> set (tags e)" "2 \<le> length tag"
    "map_of codes (tag ! 0) = Some st" by blast
  then show "kind e \<in> set (kinds f) \<and> time_ok f (created_at e) \<and> (\<exists>tag \<in> set (tags e). tag_selected codes f tag)"
    using key(2) by (fastforce simp: search_ranges_iff tag_selected_def)
next
  assume a: "kind e \<in> set (kinds f) \<and> time_ok f (created_at e) \<and> (\<exists>tag \<in> set (tags e). tag_selected codes f tag)"
  then obtain tag where sel: "tag \<in> set (tags e)" "tag_selected codes f tag" by blast
  then obtain st where tag: "tag \<in> set (tags e)" "2 \<le> length tag" "map_of codes (tag ! 0) = Some st"
    by (auto simp: tag_selected_def)
  with sel have tag4: "\<exists>(n, vs) \<in> set (ftags f). map_of codes n = Some st \<and> (\<exists>v \<in> set vs. take 255 v = take 255 (tag ! 1))"
    by (simp add: tag_selected_def)
  have "build_search_key (kind e) st (tag ! 1) (created_at e) \<in> set (event_search_keys codes e [] (tags e))"
    by (rule event_search_keys_complete [OF assms tag(1-3)]) simp
  moreover have "in_ranges (build_search_ranges codes f) (build_search_key (kind e) st (tag ! 1) (created_at e))"
    using a tag4 by (simp add: search_ranges_iff)
  ultimately show "search_scan codes f e" by (auto simp: search_scan_def list_ex_iff)
qed

section \<open>Plans and filters\<close>

lemma compile_plan_ok:
  "compile_plan codes defaults (Some f) = Inr p \<longleftrightarrow>
    (\<exists>g. normalize_filter defaults (Some f) = Some g \<and> validate_filter (Some g) = None \<and> p = choose_plan codes g)"
  by (auto simp: compile_plan_def normalize_filter_def Let_def split: option.splits)

lemma choose_plan_filter [simp]: "plan_filter (choose_plan codes g) = g"
  by (simp add: choose_plan_def new_plan_def Let_def)

lemma choose_plan_kind_time:
  "strategy (choose_plan codes g) = ''kind_time'' \<longleftrightarrow> kinds g \<noteq> [] \<and> authors g = [] \<and> ftags g = [] \<and> fsearch g = []"
  by (auto simp: choose_plan_def new_plan_def Let_def)

lemma choose_plan_author_time:
  "strategy (choose_plan codes g) = ''author_time'' \<Longrightarrow> authors g \<noteq> [] \<and>
    (fully_indexed (choose_plan codes g) \<longleftrightarrow> ftags g = [] \<and> fsearch g = [])"
  by (auto simp: choose_plan_def new_plan_def Let_def split: if_splits)

lemma choose_plan_search:
  "strategy (choose_plan codes g) = ''search'' \<Longrightarrow> authors g = [] \<and>
    (fully_indexed (choose_plan codes g) \<longleftrightarrow>
      kinds g \<noteq> [] \<and> list_all (indexable codes) (map fst (ftags g)) \<and> fsearch g = [])"
  by (auto simp: choose_plan_def new_plan_def Let_def split: if_splits)

lemma choose_plan_intersection:
  "strategy (choose_plan codes g) = ''intersection'' \<longleftrightarrow>
    authors g \<noteq> [] \<and> ftags g \<noteq> [] \<and> list_ex (indexable codes) (map fst (ftags g))"
  "strategy (choose_plan codes g) = ''intersection'' \<Longrightarrow> fully_indexed (choose_plan codes g)"
  by (auto simp: choose_plan_def new_plan_def Let_def split: if_splits)

lemma plan_scans_exact:
  assumes "compile_plan codes defaults (Some f) = Inr p" and "fully_indexed p"
    and "strategy p = ''kind_time'' \<or> strategy p = ''author_time''" and "kinds (plan_filter p) \<noteq> []"
    and "\<forall>a \<in> set (authors (plan_filter p)). length a = 32" and "length (pubkey e) = 32"
  shows "plan_scans codes p e \<longleftrightarrow> matches_filter lw eqf e (plan_filter p)"
proof -
  obtain g where g: "p = choose_plan codes g" using assms(1) by (auto simp: compile_plan_ok)
  have nt: "ftags g = []" "fsearch g = []"
    using assms(2,3) g choose_plan_kind_time [of codes g] choose_plan_author_time [of codes g] by auto
  show ?thesis
  proof (cases "strategy p = ''kind_time''")
    case True
    then show ?thesis
      using g nt assms(4) choose_plan_kind_time [of codes g] by (simp add: plan_scans_def kind_scan_iff matches_filter_iff)
  next
    case False
    then have st: "strategy p = ''author_time''" using assms(3) by simp
    then have "authors g \<noteq> []" using g choose_plan_author_time [of codes g] by simp
    then show ?thesis
      using st g nt author_scan_iff [of g e] assms(4-6) by (auto simp: plan_scans_def matches_filter_iff)
  qed
qed

definition demo_kind_filter :: query_filter where
  "demo_kind_filter = \<lparr>kinds = [1, 7], authors = [], since = 5, until = 90, limit = 0, ftags = [], fsearch = []\<rparr>"

definition plain_event :: "u16 \<Rightarrow> u32 \<Rightarrow> bytes list list \<Rightarrow> event" where
  "plain_event k t ts = \<lparr>ev_id = replicate 32 1, pubkey = replicate 32 2, created_at = t, kind = k, tags = ts,
     content = [], sig = replicate 64 3, ev_flags = 0\<rparr>"

lemmas plan_eval = compile_plan_def normalize_filter_def should_apply_default_kinds_def validate_filter_def
  choose_plan_def new_plan_def indexable_def default_search_type_codes_def lit_def Let_def

definition demo_codes :: "(bytes \<times> search_type) list" where
  "demo_codes = [(lit ''e'', 1), (lit ''p'', 2)]"

definition demo_tag_filter :: "tag_map \<Rightarrow> query_filter" where
  "demo_tag_filter ts = \<lparr>kinds = [1], authors = [], since = 0, until = 0, limit = 5, ftags = ts, fsearch = []\<rparr>"

lemma demo_codes_ok: "\<forall>n \<in> fst ` set demo_codes. 0 \<notin> set n" "inj_on (map_of demo_codes) (fst ` set demo_codes)"
  by (simp_all add: demo_codes_def lit_def)

text \<open>
  An intersection plan always counts as fully indexed. A filter with authors, an indexed tag
  and a search text, or a tag that is not indexed, returns events of the author with that tag that
  do not satisfy the rest of the filter.
\<close>

theorem intersection_plan_unsound:
  assumes "compile_plan codes defaults (Some f) = Inr p" and "strategy p = ''intersection''"
    and "kind e \<in> set (kinds (plan_filter p))" and "time_ok (plan_filter p) (created_at e)"
    and "pubkey e \<in> set (authors (plan_filter p))" and "\<forall>a \<in> set (authors (plan_filter p)). length a = 32"
    and "tag \<in> set (tags e)" and "tag_selected codes (plan_filter p) tag"
    and "fsearch (plan_filter p) \<noteq> []" and "\<not> matches_search lw e (fsearch (plan_filter p))"
    and "\<forall>n \<in> fst ` set codes. 0 \<notin> set n"
  shows "fully_indexed p \<and> plan_scans codes p e \<and> \<not> matches_filter lw eqf e (plan_filter p)"
proof -
  have "kinds (plan_filter p) \<noteq> []" "length (pubkey e) = 32" using assms(3,5,6) by auto
  then have "author_scan (plan_filter p) e" using author_scan_iff assms(3-6) by blast
  moreover have "search_scan codes (plan_filter p) e" using assms(3,4,7,8) search_scan_iff [OF assms(11)] by blast
  moreover have "fully_indexed p" using assms(1,2) choose_plan_intersection(2) by (auto simp: compile_plan_ok)
  ultimately show ?thesis using assms(2,9,10) by (simp add: plan_scans_def matches_filter_iff)
qed

theorem intersection_plan_unsound_witness:
  "\<exists>f p e. compile_plan demo_codes None (Some f) = Inr p \<and> fully_indexed p \<and> plan_scans demo_codes p e \<and>
    \<not> matches_filter id (=) e (plan_filter p)"
proof -
  let ?f = "(demo_tag_filter [(lit ''e'', [lit ''ab''])])\<lparr>authors := [replicate 32 2], fsearch := lit ''xyz''\<rparr>"
  let ?e = "plain_event 1 60 [[lit ''e'', lit ''ab'']]"
  obtain p where p: "compile_plan demo_codes None (Some ?f) = Inr p"
    "strategy p = ''intersection''" "plan_filter p = ?f"
    by (auto simp: plan_eval demo_tag_filter_def demo_codes_def)
  have "tag_selected demo_codes ?f [lit ''e'', lit ''ab'']"
    by (simp add: tag_selected_def demo_codes_def demo_tag_filter_def lit_def)
  moreover have "\<not> matches_search id ?e (lit ''xyz'')" by (auto simp: matches_search_def plain_event_def lit_def dest: sublist_length_le)
  ultimately have "fully_indexed p \<and> plan_scans demo_codes p ?e \<and> \<not> matches_filter id (=) ?e (plan_filter p)"
    using intersection_plan_unsound [OF p(1,2), of ?e "[lit ''e'', lit ''ab'']" id "(=)"] p(3) demo_codes_ok(1)
    by (auto simp: demo_tag_filter_def plain_event_def time_ok_def lit_def)
  with p(1) show ?thesis by blast
qed

text \<open>
  An author plan without kinds scans all keys of the author between the first kind at \<open>since\<close>
  and the last kind at \<open>until\<close>. Every event of a kind strictly between is returned whatever its time,
  although the plan counts as fully indexed.
\<close>

theorem author_plan_ignores_time:
  assumes "compile_plan codes defaults (Some f) = Inr p" and "strategy p = ''author_time''"
    and "kinds (plan_filter p) = []" and "ftags (plan_filter p) = []" and "fsearch (plan_filter p) = []"
    and "pubkey e \<in> set (authors (plan_filter p))" and "length (pubkey e) = 32"
    and "0 < kind e" and "kind e < 65535" and "\<not> time_ok (plan_filter p) (created_at e)"
  shows "fully_indexed p \<and> plan_scans codes p e \<and> \<not> matches_filter lw eqf e (plan_filter p)"
proof -
  let ?f = "plan_filter p"
  have max: "(65535 :: u16) = - 1" by simp
  have "author_scan ?f e"
    unfolding author_scan_def in_ranges_iff
  proof (rule bexI)
    show "\<lparr>kr_start = build_author_time_key (pubkey e) 0 (since ?f),
        kr_end = build_author_time_key (pubkey e) (NOT 0) (end_time ?f)\<rparr> \<in> set (build_author_time_ranges ?f)"
      using assms(3,6) by (auto simp: build_author_time_ranges_def)
  qed (use assms(7-9) [unfolded max] in \<open>simp add: build_author_time_key_def list_le_prefix\<close>)
  moreover have "fully_indexed p"
    using assms(1,2,4,5) choose_plan_author_time by (auto simp: compile_plan_ok)
  ultimately show ?thesis using assms(2,10) by (simp add: plan_scans_def matches_filter_iff)
qed

theorem author_plan_ignores_time_witness:
  "\<exists>f p e. compile_plan demo_codes None (Some f) = Inr p \<and> since f = 1000 \<and> created_at e = 60 \<and>
    fully_indexed p \<and> plan_scans demo_codes p e"
proof -
  let ?f = "\<lparr>kinds = [], authors = [replicate 32 2], since = 1000, until = 0, limit = 5, ftags = [], fsearch = []\<rparr> :: query_filter"
  let ?e = "plain_event 1 60 []"
  obtain p where p: "compile_plan demo_codes None (Some ?f) = Inr p"
    "strategy p = ''author_time''" "plan_filter p = ?f"
    by (auto simp: plan_eval)
  have "\<not> time_ok ?f (created_at ?e)" by (simp add: time_ok_def plain_event_def)
  then have "fully_indexed p \<and> plan_scans demo_codes p ?e"
    using author_plan_ignores_time [OF p(1,2), of ?e id "(=)"] p(3) by (auto simp: plain_event_def)
  with p(1) show ?thesis
    by (intro exI [of _ ?f] exI [of _ p] exI [of _ ?e]) (simp add: plain_event_def)
qed

end
