(* ===== verification/Range_Index.thy ===== *)
theory Range_Index
  imports Index_Keys
begin

text \<open>
  The \<open>Index\<close> interface of \<open>src/index/index.go\<close> as its clients use it, and those clients: the
  wrappers \<open>PrimaryIndex\<close>, \<open>AuthorTimeIndex\<close> and \<open>SearchIndex\<close> of \<open>primary.go\<close>, \<open>author_time.go\<close> and
  \<open>search.go\<close>. A wrapper holds an index as an interface value, so its operations take the index
  operation they call as an argument.

  The contract says what an insertion changes and what a range returns. It does not say whether a
  key can have several entries: the in-memory index keeps one, the persistent tree keeps all. What
  the wrappers return is proved here once from the contract.
\<close>

type_synonym entry = "bytes \<times> location"

section \<open>Wrappers\<close>

definition insert_event_primary :: "(bytes \<Rightarrow> location \<Rightarrow> 'a) \<Rightarrow> bytes \<Rightarrow> location \<Rightarrow> 'a" where
  "insert_event_primary idx_insert ident loc = idx_insert (build_primary_key ident) loc"

definition get_location :: "(bytes \<Rightarrow> 'a) \<Rightarrow> bytes \<Rightarrow> 'a" where
  "get_location idx_get ident = idx_get (build_primary_key ident)"

definition delete_event_primary :: "(bytes \<Rightarrow> location option \<Rightarrow> 'a) \<Rightarrow> bytes \<Rightarrow> 'a" where
  "delete_event_primary idx_delete ident = idx_delete (build_primary_key ident) None"

definition insert_event_author :: "(bytes \<Rightarrow> location \<Rightarrow> 'a) \<Rightarrow> bytes \<Rightarrow> u16 \<Rightarrow> u32 \<Rightarrow> location \<Rightarrow> 'a" where
  "insert_event_author idx_insert pk k t loc = idx_insert (build_author_time_key pk k t) loc"

definition range_by_author ::
  "(bytes \<Rightarrow> bytes \<Rightarrow> 'a) \<Rightarrow> (bytes \<Rightarrow> bytes \<Rightarrow> 'a) \<Rightarrow> bytes \<Rightarrow> u16 \<Rightarrow> u32 \<Rightarrow> u32 \<Rightarrow> bool \<Rightarrow> 'a" where
  "range_by_author idx_range idx_range_desc pk k from to desc =
     (let minKey = build_author_time_key pk k from; maxKey = build_author_time_key pk k to
      in if desc then idx_range_desc minKey maxKey else idx_range minKey maxKey)"

definition insert_search_entry ::
  "(bytes \<Rightarrow> location \<Rightarrow> 'a) \<Rightarrow> u16 \<Rightarrow> search_type \<Rightarrow> bytes \<Rightarrow> u32 \<Rightarrow> location \<Rightarrow> 'a" where
  "insert_search_entry idx_insert k st v t loc = idx_insert (build_search_key k st v t) loc"

definition range_search ::
  "(bytes \<Rightarrow> bytes \<Rightarrow> 'a) \<Rightarrow> (bytes \<Rightarrow> bytes \<Rightarrow> 'a) \<Rightarrow> u16 \<Rightarrow> search_type \<Rightarrow> bytes \<Rightarrow> bool \<Rightarrow> 'a" where
  "range_search idx_range idx_range_desc k st v desc =
     (case build_search_key_range k st v of
        (minKey, maxKey) \<Rightarrow> if desc then idx_range_desc minKey maxKey else idx_range minKey maxKey)"

section \<open>The contract\<close>

definition in_order :: "bool \<Rightarrow> entry list \<Rightarrow> bool" where
  "in_order desc es \<longleftrightarrow> sorted (map fst (if desc then rev es else es))"

text \<open>Every key of an index was made by the key builder of its wrapper.\<close>

definition search_keyed :: "entry set \<Rightarrow> bool" where
  "search_keyed es \<longleftrightarrow> (\<forall>e \<in> es. \<exists>k st v t. fst e = build_search_key k st v t)"

definition author_keyed :: "entry set \<Rightarrow> bool" where
  "author_keyed es \<longleftrightarrow> (\<forall>e \<in> es. \<exists>pk k t. length pk = 32 \<and> fst e = build_author_time_key pk k t)"

locale range_index =
  fixes inv :: "'s \<Rightarrow> bool"
    and entries :: "'s \<Rightarrow> entry set"
    and insert_key :: "'s \<Rightarrow> bytes \<Rightarrow> location \<Rightarrow> 's result"
    and range_asc :: "'s \<Rightarrow> bytes \<Rightarrow> bytes \<Rightarrow> entry list result"
    and range_desc :: "'s \<Rightarrow> bytes \<Rightarrow> bytes \<Rightarrow> entry list result"
  assumes insert_law: "inv s \<Longrightarrow> \<exists>s'. insert_key s key loc = Inr s' \<and> inv s' \<and> (key, loc) \<in> entries s' \<and>
      {e \<in> entries s'. fst e \<noteq> key} = {e \<in> entries s. fst e \<noteq> key}"
    and asc_law: "inv s \<Longrightarrow> \<exists>es. range_asc s lo hi = Inr es \<and>
      set es = {e \<in> entries s. lo \<le> fst e \<and> fst e \<le> hi} \<and> in_order False es"
    and desc_law: "inv s \<Longrightarrow> \<exists>es. range_desc s lo hi = Inr es \<and>
      set es = {e \<in> entries s. lo \<le> fst e \<and> fst e \<le> hi} \<and> in_order True es"
begin

lemma search_keyed_insert:
  assumes "inv s" and "search_keyed (entries s)"
  shows "\<exists>s'. insert_search_entry (insert_key s) k st v t loc = Inr s' \<and> inv s' \<and> search_keyed (entries s') \<and>
    (build_search_key k st v t, loc) \<in> entries s' \<and>
    (\<forall>k' st' v' t' l. (k', st', take 255 v', t') \<noteq> (k, st, take 255 v, t) \<longrightarrow>
      ((build_search_key k' st' v' t', l) \<in> entries s' \<longleftrightarrow> (build_search_key k' st' v' t', l) \<in> entries s))"
proof -
  let ?key = "build_search_key k st v t"
  obtain s' where s': "insert_key s ?key loc = Inr s'" "inv s'" "(?key, loc) \<in> entries s'"
    "{e \<in> entries s'. fst e \<noteq> ?key} = {e \<in> entries s. fst e \<noteq> ?key}"
    using insert_law [OF assms(1)] by blast
  have mem: "(key', l) \<in> entries s' \<longleftrightarrow> (key', l) \<in> entries s" if "key' \<noteq> ?key" for key' l
    using s'(4) that by (auto simp: set_eq_iff)
  then have "search_keyed (entries s')" using assms(2) by (metis fst_conv search_keyed_def surj_pair)
  moreover have "build_search_key k' st' v' t' \<noteq> ?key" if "(k', st', take 255 v', t') \<noteq> (k, st, take 255 v, t)" for k' st' v' t'
    using search_key_between [of k st v t k' st' v' t' t] that by auto
  ultimately show ?thesis using s'(1-3) mem by (auto simp: insert_search_entry_def)
qed

lemma range_dir:
  assumes "inv s"
  shows "\<exists>es. (if desc then range_desc s lo hi else range_asc s lo hi) = Inr es \<and>
    set es = {e \<in> entries s. lo \<le> fst e \<and> fst e \<le> hi} \<and> in_order desc es"
  using asc_law [OF assms, of lo hi] desc_law [OF assms, of lo hi] by (cases desc) auto

lemma range_search_exact:
  assumes "inv s" and "search_keyed (entries s)"
  shows "\<exists>es. range_search (range_asc s) (range_desc s) k st v desc = Inr es \<and> in_order desc es \<and>
    set es = {e \<in> entries s. \<exists>t. fst e = build_search_key k st v t}"
proof -
  let ?lo = "build_search_key k st v 0" and ?hi = "build_search_key k st v (- 1)"
  obtain es where es: "(if desc then range_desc s ?lo ?hi else range_asc s ?lo ?hi) = Inr es"
    "set es = {e \<in> entries s. ?lo \<le> fst e \<and> fst e \<le> ?hi}" "in_order desc es"
    using range_dir [OF assms(1)] by blast
  have "?lo \<le> fst e \<and> fst e \<le> ?hi \<longleftrightarrow> (\<exists>t. fst e = build_search_key k st v t)" if e: "e \<in> entries s" for e
  proof -
    obtain k' st' v' t' where e': "fst e = build_search_key k' st' v' t'"
      using assms(2) e by (auto simp: search_keyed_def)
    then show ?thesis
      using search_key_between [of k st v 0 k' st' v' t' "- 1"]
      by (auto simp: search_key_time_order) (metis build_search_key_take)
  qed
  then have "set es = {e \<in> entries s. \<exists>t. fst e = build_search_key k st v t}" using es(2) by auto
  with es(1,3) show ?thesis by (simp add: range_search_def search_key_range_eq)
qed

lemma range_by_author_exact:
  assumes "inv s" and "author_keyed (entries s)" and "length pk = 32"
  shows "\<exists>es. range_by_author (range_asc s) (range_desc s) pk k from to desc = Inr es \<and> in_order desc es \<and>
    set es = {e \<in> entries s. \<exists>t. from \<le> t \<and> t \<le> to \<and> fst e = build_author_time_key pk k t}"
proof -
  let ?lo = "build_author_time_key pk k from" and ?hi = "build_author_time_key pk k to"
  obtain es where es: "(if desc then range_desc s ?lo ?hi else range_asc s ?lo ?hi) = Inr es"
    "set es = {e \<in> entries s. ?lo \<le> fst e \<and> fst e \<le> ?hi}" "in_order desc es"
    using range_dir [OF assms(1)] by blast
  have "?lo \<le> fst e \<and> fst e \<le> ?hi \<longleftrightarrow>
      (\<exists>t. from \<le> t \<and> t \<le> to \<and> fst e = build_author_time_key pk k t)" if e: "e \<in> entries s" for e
  proof -
    obtain pk' k' t' where "length pk' = 32" "fst e = build_author_time_key pk' k' t'"
      using assms(2) e by (auto simp: author_keyed_def)
    then show ?thesis using assms(3) by (auto simp: build_author_time_key_def list_le_prefix pad_to_def)
  qed
  then have "set es = {e \<in> entries s. \<exists>t. from \<le> t \<and> t \<le> to \<and> fst e = build_author_time_key pk k t}"
    using es(2) by auto
  with es(1,3) show ?thesis by (simp add: range_by_author_def Let_def)
qed

end

end
