(* ===== verification/Memory_Index.thy ===== *)
theory Memory_Index
  imports Range_Index "HOL-Library.AList"
begin

text \<open>
  The in-memory index of \<open>src/index/btree.go\<close>: \<open>BTreeIndex\<close>, a map from keys to locations, and the
  \<open>sliceIterator\<close> its range queries return. An operation first looks at its context, which holds the
  error to report when it has been cancelled.
\<close>

section \<open>State and operations\<close>

type_synonym ctx = "go_error option"

record btree_index =
  bt_data :: "entry list"

definition zero_location :: location where
  "zero_location = \<lparr>segment_id = 0, loc_offset = 0\<rparr>"

definition new_btree_index :: btree_index where
  "new_btree_index = \<lparr>bt_data = []\<rparr>"

definition bt_put :: "bytes \<Rightarrow> location \<Rightarrow> btree_index \<Rightarrow> btree_index" where
  "bt_put key loc i = i\<lparr>bt_data := AList.update key loc (bt_data i)\<rparr>"

definition bt_insert :: "ctx \<Rightarrow> btree_index \<Rightarrow> bytes \<Rightarrow> location \<Rightarrow> btree_index result" where
  "bt_insert ctx i key loc = (case ctx of Some e \<Rightarrow> Inl e | None \<Rightarrow> Inr (bt_put key loc i))"

definition bt_insert_batch :: "ctx \<Rightarrow> btree_index \<Rightarrow> bytes list \<Rightarrow> location list \<Rightarrow> btree_index result" where
  "bt_insert_batch ctx i ks vs =
     (if length ks \<noteq> length vs then Inl (Err ''keys and values length mismatch'')
      else if ks = [] then Inr i
      else case ctx of Some e \<Rightarrow> Inl e | None \<Rightarrow> Inr (fold (\<lambda>(k, v). bt_put k v) (zip ks vs) i))"

text \<open>The comma-ok lookup of a Go map: the zero value and \<open>False\<close> for a missing key.\<close>

definition bt_lookup :: "btree_index \<Rightarrow> bytes \<Rightarrow> location \<times> bool" where
  "bt_lookup i key = (case map_of (bt_data i) key of Some loc \<Rightarrow> (loc, True) | None \<Rightarrow> (zero_location, False))"

definition bt_get :: "ctx \<Rightarrow> btree_index \<Rightarrow> bytes \<Rightarrow> (location \<times> bool) result" where
  "bt_get ctx i key = (case ctx of Some e \<Rightarrow> Inl e | None \<Rightarrow> Inr (bt_lookup i key))"

definition bt_get_batch :: "ctx \<Rightarrow> btree_index \<Rightarrow> bytes list \<Rightarrow> (location list \<times> bool list) result" where
  "bt_get_batch ctx i ks =
     (if ks = [] then Inr ([], [])
      else case ctx of
        Some e \<Rightarrow> Inl e
      | None \<Rightarrow> Inr (map (fst \<circ> bt_lookup i) ks, map (snd \<circ> bt_lookup i) ks))"

text \<open>The body shared by \<open>Delete\<close> and \<open>DeleteBatch\<close>.\<close>

definition bt_remove :: "bytes \<Rightarrow> location option \<Rightarrow> btree_index \<Rightarrow> btree_index" where
  "bt_remove key lo i =
     (case lo of
        Some loc \<Rightarrow> if map_of (bt_data i) key \<noteq> Some loc then i else i\<lparr>bt_data := AList.delete key (bt_data i)\<rparr>
      | None \<Rightarrow> i\<lparr>bt_data := AList.delete key (bt_data i)\<rparr>)"

definition bt_delete :: "ctx \<Rightarrow> btree_index \<Rightarrow> bytes \<Rightarrow> location option \<Rightarrow> btree_index result" where
  "bt_delete ctx i key lo = (case ctx of Some e \<Rightarrow> Inl e | None \<Rightarrow> Inr (bt_remove key lo i))"

fun bt_delete_loop :: "bytes list \<Rightarrow> location option list \<Rightarrow> btree_index \<Rightarrow> btree_index" where
  "bt_delete_loop [] locs i = i"
| "bt_delete_loop (k # ks) locs i =
     (case locs of
        [] \<Rightarrow> bt_delete_loop ks [] (bt_remove k None i)
      | lo # los \<Rightarrow> bt_delete_loop ks los (bt_remove k lo i))"

definition bt_delete_batch :: "ctx \<Rightarrow> btree_index \<Rightarrow> bytes list \<Rightarrow> location option list \<Rightarrow> btree_index result" where
  "bt_delete_batch ctx i ks locs =
     (if ks = [] then Inr i
      else case ctx of Some e \<Rightarrow> Inl e | None \<Rightarrow> Inr (bt_delete_loop ks locs i))"

definition bt_delete_range :: "ctx \<Rightarrow> btree_index \<Rightarrow> bytes \<Rightarrow> bytes \<Rightarrow> btree_index result" where
  "bt_delete_range ctx i minKey maxKey =
     (case ctx of
        Some e \<Rightarrow> Inl e
      | None \<Rightarrow> Inr (i\<lparr>bt_data := filter (\<lambda>e. \<not> (bytes_compare (fst e) minKey \<ge> 0 \<and> bytes_compare (fst e) maxKey \<le> 0))
                        (bt_data i)\<rparr>))"

definition bt_entry_count :: "btree_index \<Rightarrow> u64" where
  "bt_entry_count i = word_of_nat (length (bt_data i))"

section \<open>Iterators\<close>

record slice_iterator =
  it_entries :: "entry list"
  it_idx :: int

definition it_valid :: "slice_iterator \<Rightarrow> bool" where
  "it_valid it \<longleftrightarrow> it_idx it \<ge> 0 \<and> it_idx it < int (length (it_entries it))"

definition it_key :: "slice_iterator \<Rightarrow> bytes" where
  "it_key it = (if \<not> it_valid it then [] else fst (it_entries it ! nat (it_idx it)))"

definition it_value :: "slice_iterator \<Rightarrow> location" where
  "it_value it = (if \<not> it_valid it then zero_location else snd (it_entries it ! nat (it_idx it)))"

definition it_next :: "slice_iterator \<Rightarrow> slice_iterator" where
  "it_next it = (if it_idx it < int (length (it_entries it)) then it\<lparr>it_idx := it_idx it + 1\<rparr> else it)"

definition it_prev :: "slice_iterator \<Rightarrow> slice_iterator" where
  "it_prev it = (if it_idx it \<ge> 0 then it\<lparr>it_idx := it_idx it - 1\<rparr> else it)"

text \<open>The loop every user of an iterator runs: while it is valid, take the entry and advance.\<close>

function it_collect :: "slice_iterator \<Rightarrow> entry list" where
  "it_collect it = (if it_valid it then (it_key it, it_value it) # it_collect (it_next it) else [])"
  by pat_completeness auto
termination
  by (relation "measure (\<lambda>it. nat (int (length (it_entries it)) - it_idx it))") (auto simp: it_valid_def it_next_def)

declare it_collect.simps [simp del]

definition bt_build_iterator :: "ctx \<Rightarrow> btree_index \<Rightarrow> bytes \<Rightarrow> bytes \<Rightarrow> bool \<Rightarrow> slice_iterator result" where
  "bt_build_iterator ctx i minKey maxKey desc =
     (case ctx of
        Some e \<Rightarrow> Inl e
      | None \<Rightarrow>
          let ks = sort (map fst (bt_data i));
              sel = filter (\<lambda>k. \<not> (bytes_compare k minKey < 0 \<or> bytes_compare k maxKey > 0)) ks;
              es = map (\<lambda>k. (k, fst (bt_lookup i k))) sel
          in Inr \<lparr>it_entries = (if desc then rev es else es), it_idx = 0\<rparr>)"

definition bt_range :: "ctx \<Rightarrow> btree_index \<Rightarrow> bytes \<Rightarrow> bytes \<Rightarrow> slice_iterator result" where
  "bt_range ctx i minKey maxKey = bt_build_iterator ctx i minKey maxKey False"

definition bt_range_desc :: "ctx \<Rightarrow> btree_index \<Rightarrow> bytes \<Rightarrow> bytes \<Rightarrow> slice_iterator result" where
  "bt_range_desc ctx i minKey maxKey = bt_build_iterator ctx i minKey maxKey True"

section \<open>The in-memory index meets the contract\<close>

definition bt_inv :: "btree_index \<Rightarrow> bool" where
  "bt_inv i \<longleftrightarrow> distinct (map fst (bt_data i))"

definition drain :: "slice_iterator result \<Rightarrow> entry list result" where
  "drain r = (case r of Inl e \<Rightarrow> Inl e | Inr it \<Rightarrow> Inr (it_collect it))"

lemma it_collect_from: "it_collect \<lparr>it_entries = es, it_idx = int n\<rparr> = drop n es"
proof (induction "length es - n" arbitrary: n)
  case 0
  then show ?case by (simp add: it_collect.simps it_valid_def)
next
  case (Suc d)
  then have n: "n < length es" by simp
  have "it_collect \<lparr>it_entries = es, it_idx = int (Suc n)\<rparr> = drop (Suc n) es" using Suc by (intro Suc.hyps) simp
  with n show ?case
    by (subst it_collect.simps)
      (simp add: it_valid_def it_key_def it_value_def it_next_def Cons_nth_drop_Suc [symmetric] add.commute)
qed

lemma drain_start: "drain (Inr \<lparr>it_entries = es, it_idx = 0\<rparr>) = Inr es"
  using it_collect_from [of es 0] by (simp add: drain_def)

lemma bt_put_inv: "bt_inv i \<Longrightarrow> bt_inv (bt_put k v i)"
  by (simp add: bt_inv_def bt_put_def AList.distinct_update)

lemma bt_entries: "bt_inv i \<Longrightarrow> (k, v) \<in> set (bt_data i) \<longleftrightarrow> map_of (bt_data i) k = Some v"
  by (auto simp: bt_inv_def)

text \<open>The entries of a range: those of the map, by ascending key.\<close>

definition bt_range_list :: "btree_index \<Rightarrow> bytes \<Rightarrow> bytes \<Rightarrow> entry list" where
  "bt_range_list i lo hi =
     map (\<lambda>k. (k, fst (bt_lookup i k))) (filter (\<lambda>k. lo \<le> k \<and> k \<le> hi) (sort (map fst (bt_data i))))"

lemma bt_range_drain:
  "drain (bt_range None i lo hi) = Inr (bt_range_list i lo hi)"
  "drain (bt_range_desc None i lo hi) = Inr (rev (bt_range_list i lo hi))"
  by (simp_all add: bt_range_def bt_range_desc_def bt_build_iterator_def drain_start bt_range_list_def
      bytes_compare_order not_less Let_def)

lemma bt_range_list_set:
  assumes "bt_inv i"
  shows "set (bt_range_list i lo hi) = {e \<in> set (bt_data i). lo \<le> fst e \<and> fst e \<le> hi}"
proof -
  have "fst (bt_lookup i k) = v" if "(k, v) \<in> set (bt_data i)" for k v
    using that bt_entries [OF assms] by (simp add: bt_lookup_def)
  then show ?thesis by (force simp: bt_range_list_def)
qed

lemma bt_range_list_sorted: "sorted (map fst (bt_range_list i lo hi))"
  by (simp add: bt_range_list_def comp_def sorted_wrt_filter)

interpretation bt: range_index bt_inv "\<lambda>i. set (bt_data i)" "bt_insert None"
  "\<lambda>i lo hi. drain (bt_range None i lo hi)" "\<lambda>i lo hi. drain (bt_range_desc None i lo hi)"
proof
  fix i key loc assume "bt_inv i"
  note inv = bt_put_inv [OF this, of key loc] this
  have "(k, v) \<in> set (bt_data (bt_put key loc i)) \<longleftrightarrow> (if k = key then v = loc else (k, v) \<in> set (bt_data i))" for k v
    using bt_entries [OF inv(1), of k v] bt_entries [OF inv(2), of k v] by (auto simp: bt_put_def AList.update_conv')
  then show "\<exists>s'. bt_insert None i key loc = Inr s' \<and> bt_inv s' \<and> (key, loc) \<in> set (bt_data s') \<and>
      {e \<in> set (bt_data s'). fst e \<noteq> key} = {e \<in> set (bt_data i). fst e \<noteq> key}"
    using inv(1) by (auto simp: bt_insert_def)
qed (simp_all add: bt_range_drain bt_range_list_set bt_range_list_sorted in_order_def)

section \<open>Properties\<close>

text \<open>
  A tag search on the in-memory index returns exactly the entries of that kind, search type and
  tag value, in ascending or descending order of time, for any index that was filled with search
  keys.
\<close>

theorem memory_range_search:
  assumes "bt_inv i" and "search_keyed (set (bt_data i))"
  shows "\<exists>it. range_search (bt_range None i) (bt_range_desc None i) k st v desc = Inr it \<and>
    set (it_collect it) = {e \<in> set (bt_data i). \<exists>t. fst e = build_search_key k st v t} \<and>
    in_order desc (it_collect it)"
proof -
  obtain es where "range_search (\<lambda>lo hi. drain (bt_range None i lo hi)) (\<lambda>lo hi. drain (bt_range_desc None i lo hi)) k st v desc = Inr es"
    "in_order desc es" "set es = {e \<in> set (bt_data i). \<exists>t. fst e = build_search_key k st v t}"
    using bt.range_search_exact [OF assms] by blast
  then show ?thesis
    by (auto simp: range_search_def drain_def split: prod.splits if_splits sum.splits)
qed

definition demo_index :: btree_index where
  "demo_index = bt_put (build_search_key 1 9 (lit ''go'') 5) zero_location new_btree_index"

lemma demo_index_ok: "bt_inv demo_index" "search_keyed (set (bt_data demo_index))"
  "set (bt_data demo_index) = {(build_search_key 1 9 (lit ''go'') 5, zero_location)}"
  by (auto simp: demo_index_def bt_put_def new_btree_index_def bt_inv_def search_keyed_def)

theorem memory_range_search_witness:
  "\<exists>it. range_search (bt_range None demo_index) (bt_range_desc None demo_index) 1 9 (lit ''go'') True = Inr it \<and>
    set (it_collect it) = {(build_search_key 1 9 (lit ''go'') 5, zero_location)}"
proof -
  have "{e \<in> set (bt_data demo_index). \<exists>t. fst e = build_search_key 1 9 (lit ''go'') t} =
      {(build_search_key 1 9 (lit ''go'') 5, zero_location)}" unfolding demo_index_ok(3) by force
  then show ?thesis using memory_range_search [OF demo_index_ok(1,2), of 1 9 "lit ''go''" True] by auto
qed

text \<open>
  After a search entry has been inserted a search for its tag finds it, and the entries of
  every other kind, type, value or time are those the index had before.
\<close>

theorem memory_insert_search:
  assumes "bt_inv i" and "search_keyed (set (bt_data i))"
  shows "\<exists>i' it. insert_search_entry (bt_insert None i) k st v t loc = Inr i' \<and> bt_inv i' \<and>
    range_search (bt_range None i') (bt_range_desc None i') k st v desc = Inr it \<and>
    (build_search_key k st v t, loc) \<in> set (it_collect it) \<and>
    (\<forall>k' st' v' t' l. (k', st', take 255 v', t') \<noteq> (k, st, take 255 v, t) \<longrightarrow>
      ((build_search_key k' st' v' t', l) \<in> set (bt_data i') \<longleftrightarrow> (build_search_key k' st' v' t', l) \<in> set (bt_data i)))"
proof -
  obtain i' where i': "insert_search_entry (bt_insert None i) k st v t loc = Inr i'" "bt_inv i'"
    "search_keyed (set (bt_data i'))" "(build_search_key k st v t, loc) \<in> set (bt_data i')"
    "\<forall>k' st' v' t' l. (k', st', take 255 v', t') \<noteq> (k, st, take 255 v, t) \<longrightarrow>
      ((build_search_key k' st' v' t', l) \<in> set (bt_data i') \<longleftrightarrow> (build_search_key k' st' v' t', l) \<in> set (bt_data i))"
    using bt.search_keyed_insert [OF assms, of k st v t loc] by blast
  obtain es where "range_search (\<lambda>lo hi. drain (bt_range None i' lo hi)) (\<lambda>lo hi. drain (bt_range_desc None i' lo hi)) k st v desc = Inr es"
    "set es = {e \<in> set (bt_data i'). \<exists>t. fst e = build_search_key k st v t}"
    using bt.range_search_exact [OF i'(2,3)] by blast
  then have "\<exists>it. range_search (bt_range None i') (bt_range_desc None i') k st v desc = Inr it \<and> it_collect it = es"
    by (auto simp: range_search_def drain_def split: prod.splits if_splits sum.splits)
  moreover have "(build_search_key k st v t, loc) \<in> set es" using i'(4) \<open>set es = _\<close> by auto
  ultimately show ?thesis using i' by blast
qed

theorem memory_insert_search_witness:
  "\<exists>i' it. insert_search_entry (bt_insert None demo_index) 1 9 (lit ''go'') 8 zero_location = Inr i' \<and>
    range_search (bt_range None i') (bt_range_desc None i') 1 9 (lit ''go'') True = Inr it \<and>
    (build_search_key 1 9 (lit ''go'') 8, zero_location) \<in> set (it_collect it)"
  using memory_insert_search [OF demo_index_ok(1,2), of 1 9 "lit ''go''" 8 zero_location True] by blast

text \<open>
  A time-range query for an author and a kind returns exactly that author's entries of that
  kind whose time lies between the bounds, in the order asked for.
\<close>

theorem memory_range_by_author:
  assumes "bt_inv i" and "author_keyed (set (bt_data i))" and "length pk = 32"
  shows "\<exists>it. range_by_author (bt_range None i) (bt_range_desc None i) pk k from to desc = Inr it \<and>
    set (it_collect it) =
      {e \<in> set (bt_data i). \<exists>t. from \<le> t \<and> t \<le> to \<and> fst e = build_author_time_key pk k t} \<and>
    in_order desc (it_collect it)"
proof -
  obtain es where "range_by_author (\<lambda>lo hi. drain (bt_range None i lo hi)) (\<lambda>lo hi. drain (bt_range_desc None i lo hi)) pk k from to desc = Inr es"
    "in_order desc es"
    "set es = {e \<in> set (bt_data i). \<exists>t. from \<le> t \<and> t \<le> to \<and> fst e = build_author_time_key pk k t}"
    using bt.range_by_author_exact [OF assms] by blast
  then show ?thesis
    by (auto simp: range_by_author_def drain_def Let_def split: if_splits sum.splits)
qed

theorem memory_range_by_author_witness:
  "\<exists>it. range_by_author (bt_range None new_btree_index) (bt_range_desc None new_btree_index)
    (replicate 32 7) 1 0 100 False = Inr it \<and> set (it_collect it) = {}"
  using memory_range_by_author [of new_btree_index "replicate 32 7" 1 0 100 False]
  by (auto simp: new_btree_index_def bt_inv_def author_keyed_def)

text \<open>
  The in-memory index keeps one location per key. Two events with the same kind, tag value and
  second have the same search key, and a search then returns only the one inserted last.
\<close>

theorem memory_insert_collision:
  assumes "bt_inv i" and "search_keyed (set (bt_data i))"
    and "insert_search_entry (bt_insert None i) k st v t loc1 = Inr i1"
    and "insert_search_entry (bt_insert None i1) k st v t loc2 = Inr i2"
  shows "(build_search_key k st v t, loc) \<in> set (bt_data i2) \<longleftrightarrow> loc = loc2"
proof -
  have "i2 = bt_put (build_search_key k st v t) loc2 i1" "i1 = bt_put (build_search_key k st v t) loc1 i"
    using assms(3,4) by (simp_all add: insert_search_entry_def bt_insert_def)
  then show ?thesis
    using bt_entries [of i2 "build_search_key k st v t" loc] bt_put_inv assms(1)
    by (auto simp: bt_put_def AList.update_conv')
qed

theorem memory_insert_collision_witness:
  "\<exists>i1 i2. insert_search_entry (bt_insert None demo_index) 1 9 (lit ''go'') 8 zero_location = Inr i1 \<and>
    insert_search_entry (bt_insert None i1) 1 9 (lit ''go'') 8 (zero_location\<lparr>loc_offset := 4096\<rparr>) = Inr i2 \<and>
    (build_search_key 1 9 (lit ''go'') 8, zero_location) \<notin> set (bt_data i2)"
proof -
  obtain i1 where i1: "insert_search_entry (bt_insert None demo_index) 1 9 (lit ''go'') 8 zero_location = Inr i1"
    by (simp add: insert_search_entry_def bt_insert_def)
  obtain i2 where i2: "insert_search_entry (bt_insert None i1) 1 9 (lit ''go'') 8 (zero_location\<lparr>loc_offset := 4096\<rparr>) = Inr i2"
    by (simp add: insert_search_entry_def bt_insert_def)
  from i1 i2 memory_insert_collision [OF demo_index_ok(1,2) i1 i2, of zero_location] show ?thesis
    by (auto simp: zero_location_def)
qed

end
