(* ===== verification/Go_Heap.thy ===== *)
theory Go_Heap
  imports Main "HOL-Library.Multiset"
begin

text \<open>
  Binary heaps in arrays: \<open>Push\<close> and \<open>Pop\<close> of Go's package \<open>container/heap\<close>, with the ordering of
  \<open>mergeHeap\<close> in \<open>src/query/executor.go\<close>: an element comes first when its key is greater. The slice is a list; \<open>up\<close> and
  \<open>down\<close> are the loops of the package.

  Result: they implement a priority queue of the elements (locale \<open>prio_queue\<close>).
\<close>

section \<open>The interface\<close>

locale prio_queue =
  fixes key :: "'a \<Rightarrow> 'k :: linorder" and ok :: "'q \<Rightarrow> bool" and elems :: "'q \<Rightarrow> 'a multiset"
    and none :: 'q and push :: "'a \<Rightarrow> 'q \<Rightarrow> 'q" and pop :: "'q \<Rightarrow> 'a \<times> 'q"
  assumes none_ok: "ok none" "elems none = {#}"
    and push_ok: "ok q \<Longrightarrow> ok (push x q)" "ok q \<Longrightarrow> elems (push x q) = add_mset x (elems q)"
    and pop_ok: "ok q \<Longrightarrow> elems q \<noteq> {#} \<Longrightarrow> pop q = (x, q') \<Longrightarrow> ok q'"
      "ok q \<Longrightarrow> elems q \<noteq> {#} \<Longrightarrow> pop q = (x, q') \<Longrightarrow> elems q = add_mset x (elems q')"
    and pop_max: "ok q \<Longrightarrow> elems q \<noteq> {#} \<Longrightarrow> pop q = (x, q') \<Longrightarrow> y \<in># elems q \<Longrightarrow> key y \<le> key x"

section \<open>The operations\<close>

definition heap_swap :: "nat \<Rightarrow> nat \<Rightarrow> 'a list \<Rightarrow> 'a list" where
  "heap_swap i j xs = xs[i := xs ! j, j := xs ! i]"

function heap_up :: "('a \<Rightarrow> 'k :: linorder) \<Rightarrow> nat \<Rightarrow> 'a list \<Rightarrow> 'a list" where
  "heap_up f j xs =
     (let i = (j - 1) div 2
      in if i = j \<or> \<not> f (xs ! j) > f (xs ! i) then xs else heap_up f i (heap_swap i j xs))"
  by pat_completeness auto
termination
  by (relation "measure (\<lambda>(f, j, xs). j)") auto

function heap_down :: "('a \<Rightarrow> 'k :: linorder) \<Rightarrow> nat \<Rightarrow> nat \<Rightarrow> 'a list \<Rightarrow> 'a list" where
  "heap_down f i n xs =
     (let j1 = 2 * i + 1
      in if j1 \<ge> n then xs
         else let j = (if j1 + 1 < n \<and> f (xs ! (j1 + 1)) > f (xs ! j1) then j1 + 1 else j1)
           in if \<not> f (xs ! j) > f (xs ! i) then xs else heap_down f j n (heap_swap i j xs))"
  by pat_completeness auto
termination
  by (relation "measure (\<lambda>(f, i, n, xs). n - i)") (auto simp: Let_def split: if_splits)

declare heap_up.simps [simp del] heap_down.simps [simp del]

definition heap_push :: "('a \<Rightarrow> 'k :: linorder) \<Rightarrow> 'a \<Rightarrow> 'a list \<Rightarrow> 'a list" where
  "heap_push f x xs = heap_up f (length xs) (xs @ [x])"

definition heap_pop :: "('a \<Rightarrow> 'k :: linorder) \<Rightarrow> 'a list \<Rightarrow> 'a \<times> 'a list" where
  "heap_pop f xs =
     (let n = length xs - 1; ys = heap_down f 0 n (heap_swap 0 n xs)
      in (last ys, butlast ys))"

section \<open>The invariant\<close>

definition heap_ok :: "('a \<Rightarrow> 'k :: linorder) \<Rightarrow> nat \<Rightarrow> 'a list \<Rightarrow> bool" where
  "heap_ok f n xs \<longleftrightarrow> (\<forall>i < n. f (xs ! i) \<le> f (xs ! ((i - 1) div 2)))"

text \<open>Out of order at one index at most: towards its parent, and towards its children.\<close>

definition heap_up_ok :: "('a \<Rightarrow> 'k :: linorder) \<Rightarrow> nat \<Rightarrow> nat \<Rightarrow> 'a list \<Rightarrow> bool" where
  "heap_up_ok f n k xs \<longleftrightarrow> (\<forall>i < n. (i \<noteq> k \<longrightarrow> f (xs ! i) \<le> f (xs ! ((i - 1) div 2))) \<and>
     (0 < i \<and> (i - 1) div 2 = k \<longrightarrow> f (xs ! i) \<le> f (xs ! ((k - 1) div 2))))"

definition heap_down_ok :: "('a \<Rightarrow> 'k :: linorder) \<Rightarrow> nat \<Rightarrow> nat \<Rightarrow> 'a list \<Rightarrow> bool" where
  "heap_down_ok f n k xs \<longleftrightarrow> (\<forall>i < n. (0 < i \<and> (i - 1) div 2 \<noteq> k \<longrightarrow> f (xs ! i) \<le> f (xs ! ((i - 1) div 2))) \<and>
     (0 < i \<and> (i - 1) div 2 = k \<and> 0 < k \<longrightarrow> f (xs ! i) \<le> f (xs ! ((k - 1) div 2))))"

lemma heap_swap_facts:
  "length (heap_swap i j xs) = length xs"
  "i < length xs \<Longrightarrow> j < length xs \<Longrightarrow> k < length xs \<Longrightarrow> heap_swap i j xs ! k = (if k = j then xs ! i else if k = i then xs ! j else xs ! k)"
  "i < length xs \<Longrightarrow> j < length xs \<Longrightarrow> mset (heap_swap i j xs) = mset xs"
  by (auto simp: heap_swap_def nth_list_update mset_swap)

lemma heap_root:
  assumes "heap_ok f n xs" "i < n"
  shows "f (xs ! i) \<le> f (xs ! 0)"
  using assms(2)
proof (induction i rule: less_induct)
  case (less i)
  show ?case
  proof (cases "i = 0")
    case False
    have "f (xs ! i) \<le> f (xs ! ((i - 1) div 2))" using assms(1) less.prems by (simp add: heap_ok_def)
    also have "\<dots> \<le> f (xs ! 0)" using less False by (intro less.IH) auto
    finally show ?thesis .
  qed simp
qed

lemma heap_up_keeps:
  assumes "heap_up_ok f (length xs) j xs" "j < length xs"
  shows "heap_ok f (length xs) (heap_up f j xs)" "mset (heap_up f j xs) = mset xs"
proof -
  have "heap_ok f (length xs) (heap_up f j xs) \<and> mset (heap_up f j xs) = mset xs"
    using assms
  proof (induction f j xs rule: heap_up.induct)
    case (1 f j xs)
    define i where "i = (j - 1) div 2"
    show ?case
    proof (cases "i = j \<or> \<not> f (xs ! j) > f (xs ! i)")
      case True
      then have e: "heap_up f j xs = xs" by (subst heap_up.simps) (auto simp: i_def)
      have "f (xs ! j) \<le> f (xs ! i)" using True by (cases "i = j") auto
      then have "heap_ok f (length xs) xs" using 1(2) unfolding heap_ok_def heap_up_ok_def i_def by metis
      then show ?thesis using e by simp
    next
      case False
      then have e: "heap_up f j xs = heap_up f i (heap_swap i j xs)" by (subst heap_up.simps) (simp add: i_def Let_def)
      have ij: "i < j" "0 < j" using False by (auto simp: i_def)
      have il: "i < length xs" using ij 1(3) by simp
      note sw = heap_swap_facts(2) [OF il 1(3)]
      have h: "\<And>k. k < length xs \<Longrightarrow> k \<noteq> j \<Longrightarrow> f (xs ! k) \<le> f (xs ! ((k - 1) div 2))"
        "\<And>k. k < length xs \<Longrightarrow> 0 < k \<Longrightarrow> (k - 1) div 2 = j \<Longrightarrow> f (xs ! k) \<le> f (xs ! i)"
        using 1(2) by (auto simp: heap_up_ok_def i_def)
      have "heap_up_ok f (length xs) i (heap_swap i j xs)"
        unfolding heap_up_ok_def
      proof (intro allI impI conjI)
        fix k
        assume k: "k < length xs" "k \<noteq> i"
        let ?p = "(k - 1) div 2"
        have p: "?p < length xs" using k by auto
        show "f (heap_swap i j xs ! k) \<le> f (heap_swap i j xs ! ?p)"
        proof (cases "k = j")
          case True
          then show ?thesis using ij False sw [OF k(1)] sw [OF p] by (simp add: i_def)
        next
          case kj: False
          have hk: "f (xs ! k) \<le> f (xs ! ?p)" by (rule h(1) [OF k(1) kj])
          show ?thesis
          proof (cases "?p = j")
            case True
            then have "0 < k" using ij by (cases k) auto
            then show ?thesis using h(2) [OF k(1) _ True] True kj k(2) sw [OF k(1)] sw [OF p] by simp
          next
            case False
            then show ?thesis using hk kj k(2) sw [OF k(1)] sw [OF p] \<open>\<not> (i = j \<or> \<not> f (xs ! j) > f (xs ! i))\<close> by auto
          qed
        qed
      next
        fix k
        assume k: "k < length xs" "0 < k \<and> (k - 1) div 2 = i"
        let ?q = "(i - 1) div 2"
        have q: "?q < length xs" "?q \<noteq> j" using il ij by auto
        have ki: "k \<noteq> i" using k(2) by auto
        have gi: "f (xs ! i) \<le> f (xs ! ?q)" using h(1) [OF il] ij by simp
        have "heap_swap i j xs ! ?q = (if ?q = i then xs ! j else xs ! ?q)" using sw [OF q(1)] q(2) by simp
        moreover have "f (heap_swap i j xs ! k) \<le> f (xs ! i)"
        proof (cases "k = j")
          case True
          then show ?thesis using sw [OF k(1)] by simp
        next
          case False
          then show ?thesis using sw [OF k(1)] ki h(1) [OF k(1) False] k(2) by simp
        qed
        ultimately show "f (heap_swap i j xs ! k) \<le> f (heap_swap i j xs ! ?q)" using gi False by auto
      qed
      then have "heap_ok f (length xs) (heap_up f i (heap_swap i j xs)) \<and> mset (heap_up f i (heap_swap i j xs)) = mset (heap_swap i j xs)"
        using 1(1) [OF i_def] False il by (simp add: heap_swap_facts(1))
      then show ?thesis using e heap_swap_facts(3) [OF il 1(3)] by simp
    qed
  qed
  then show "heap_ok f (length xs) (heap_up f j xs)" "mset (heap_up f j xs) = mset xs" by simp_all
qed

lemma heap_down_keeps:
  assumes "heap_down_ok f n i xs" "i < n" "n \<le> length xs"
  shows "heap_ok f n (heap_down f i n xs)" "mset (heap_down f i n xs) = mset xs" "drop n (heap_down f i n xs) = drop n xs"
proof -
  have "heap_ok f n (heap_down f i n xs) \<and> mset (heap_down f i n xs) = mset xs \<and> drop n (heap_down f i n xs) = drop n xs"
    using assms
  proof (induction f i n xs rule: heap_down.induct)
    case (1 f i n xs)
    define j1 where "j1 = 2 * i + 1"
    define j where "j = (if j1 + 1 < n \<and> f (xs ! (j1 + 1)) > f (xs ! j1) then j1 + 1 else j1)"
    have step: "heap_down f i n xs = (if j1 \<ge> n then xs else if \<not> f (xs ! j) > f (xs ! i) then xs else heap_down f j n (heap_swap i j xs))"
      unfolding j_def j1_def by (subst heap_down.simps) (simp only: Let_def)
    have child: "0 < k \<and> (k - 1) div 2 = i \<longleftrightarrow> k = j1 \<or> k = j1 + 1" for k by (auto simp: j1_def)
    show ?case
    proof (cases "j1 \<ge> n \<or> \<not> f (xs ! j) > f (xs ! i)")
      case True
      then have e: "heap_down f i n xs = xs" using step by auto
      have "heap_ok f n xs" unfolding heap_ok_def
      proof (intro allI impI)
        fix k
        assume k: "k < n"
        show "f (xs ! k) \<le> f (xs ! ((k - 1) div 2))"
        proof (cases "k = j1 \<or> k = j1 + 1")
          case kj: True
          then have "f (xs ! k) \<le> f (xs ! j)" using k by (auto simp: j_def)
          then show ?thesis using True kj k child [of k] by auto
        next
          case False
          then show ?thesis using 1(2) k child [of k] by (cases "k = 0") (auto simp: heap_down_ok_def)
        qed
      qed
      then show ?thesis using e by simp
    next
      case False
      then have e: "heap_down f i n xs = heap_down f j n (heap_swap i j xs)" using step by auto
      have jn: "j < n" "i < j" "j = j1 \<or> j = j1 + 1" using False by (auto simp: j_def j1_def)
      have pj: "(j - 1) div 2 = i" "0 < j" using jn child by auto
      have il: "i < length xs" "j < length xs" using jn 1(3,4) by auto
      note sw = heap_swap_facts(2) [OF il]
      have h: "\<And>k. k < n \<Longrightarrow> 0 < k \<Longrightarrow> (k - 1) div 2 \<noteq> i \<Longrightarrow> f (xs ! k) \<le> f (xs ! ((k - 1) div 2))"
        "\<And>k. k < n \<Longrightarrow> k = j1 \<or> k = j1 + 1 \<Longrightarrow> 0 < i \<Longrightarrow> f (xs ! k) \<le> f (xs ! ((i - 1) div 2))"
        using 1(2) child by (auto simp: heap_down_ok_def)
      have sib: "f (xs ! k) \<le> f (xs ! j)" if "k < n" "k = j1 \<or> k = j1 + 1" for k using that False by (auto simp: j_def)
      have "heap_down_ok f n j (heap_swap i j xs)" unfolding heap_down_ok_def
      proof (intro allI impI conjI)
        fix k
        assume k: "k < n" "0 < k \<and> (k - 1) div 2 \<noteq> j"
        let ?p = "(k - 1) div 2"
        have kp: "k < length xs" "?p < length xs" "?p < k" using k 1(4) by auto
        show "f (heap_swap i j xs ! k) \<le> f (heap_swap i j xs ! ?p)"
        proof (cases "?p = i")
          case True
          then have "k = j1 \<or> k = j1 + 1" using child k(2) by blast
          then have "f (xs ! k) \<le> f (xs ! j)" using sib k(1) by blast
          moreover have "heap_swap i j xs ! ?p = xs ! j" using sw [OF kp(2)] True jn by simp
          ultimately show ?thesis using sw [OF kp(1)] True kp(3) False by (cases "k = j") auto
        next
          case pi: False
          have "f (xs ! k) \<le> f (xs ! ?p)" using h(1) k pi by blast
          moreover have "k \<noteq> j" using pi pj by auto
          moreover have "0 < i \<Longrightarrow> f (xs ! j) \<le> f (xs ! ((i - 1) div 2))" using h(2) jn by blast
          ultimately show ?thesis using sw [OF kp(1)] sw [OF kp(2)] pi k(2) by (cases "k = i") auto
        qed
      next
        fix k
        assume k: "k < n" "0 < k \<and> (k - 1) div 2 = j \<and> 0 < j"
        have kl: "k < length xs" "k \<noteq> j" "k \<noteq> i" using k 1(4) jn by auto
        have "f (xs ! k) \<le> f (xs ! j)" using h(1) [of k] k jn by auto
        then show "f (heap_swap i j xs ! k) \<le> f (heap_swap i j xs ! ((j - 1) div 2))"
          using sw [OF kl(1)] sw [OF il(1)] kl jn pj by simp
      qed
      then have "heap_ok f n (heap_down f j n (heap_swap i j xs)) \<and> mset (heap_down f j n (heap_swap i j xs)) = mset (heap_swap i j xs) \<and>
          drop n (heap_down f j n (heap_swap i j xs)) = drop n (heap_swap i j xs)"
        using 1(1) [OF j1_def] False jn 1(4) by (simp add: heap_swap_facts(1) j_def)
      moreover have "drop n (heap_swap i j xs) = drop n xs" using jn 1(3) by (simp add: heap_swap_def)
      ultimately show ?thesis using e heap_swap_facts(3) [OF il] by simp
    qed
  qed
  then show "heap_ok f n (heap_down f i n xs)" "mset (heap_down f i n xs) = mset xs" "drop n (heap_down f i n xs) = drop n xs" by simp_all
qed

lemma heap_push_ok:
  assumes "heap_ok f (length xs) xs"
  shows "heap_ok f (length (heap_push f x xs)) (heap_push f x xs)" "mset (heap_push f x xs) = add_mset x (mset xs)"
proof -
  have "heap_up_ok f (length (xs @ [x])) (length xs) (xs @ [x])"
    using assms unfolding heap_up_ok_def heap_ok_def by (auto simp: nth_append)
  from heap_up_keeps [OF this] have h: "heap_ok f (length (xs @ [x])) (heap_push f x xs)" "mset (heap_push f x xs) = mset (xs @ [x])"
    by (simp_all add: heap_push_def)
  have "length (heap_push f x xs) = length (xs @ [x])" using h(2) by (metis size_mset)
  then show "heap_ok f (length (heap_push f x xs)) (heap_push f x xs)" "mset (heap_push f x xs) = add_mset x (mset xs)" using h by simp_all
qed

lemma heap_pop_ok:
  assumes "heap_ok f (length xs) xs" "xs \<noteq> []" "heap_pop f xs = (x, ys)"
  shows "heap_ok f (length ys) ys" "mset xs = add_mset x (mset ys)" "y \<in> set xs \<Longrightarrow> f y \<le> f x"
proof -
  define n where "n = length xs - 1"
  have n: "length xs = Suc n" using assms(2) by (cases xs) (auto simp: n_def)
  define zs where "zs = heap_down f 0 n (heap_swap 0 n xs)"
  note sw = heap_swap_facts(2) [of 0 xs n]
  have z: "heap_ok f n zs \<and> mset zs = mset xs \<and> drop n zs = [xs ! 0]"
  proof (cases "n = 0")
    case True
    then have "heap_swap 0 n xs = xs" "zs = heap_swap 0 n xs" unfolding zs_def by (simp_all add: heap_swap_def heap_down.simps)
    moreover have "drop n xs = [xs ! 0]" using True n by (cases xs) auto
    ultimately show ?thesis using True by (simp add: heap_ok_def)
  next
    case False
    have d: "heap_down_ok f n 0 (heap_swap 0 n xs)" unfolding heap_down_ok_def
    proof (intro allI impI conjI)
      fix k
      assume k: "k < n" "0 < k \<and> (k - 1) div 2 \<noteq> 0"
      then show "f (heap_swap 0 n xs ! k) \<le> f (heap_swap 0 n xs ! ((k - 1) div 2))"
        using assms(1) n by (auto simp: sw heap_ok_def)
    next
      fix k
      assume k: "k < n" "0 < k \<and> (k - 1) div 2 = 0 \<and> 0 < (0 :: nat)"
      then show "f (heap_swap 0 n xs ! k) \<le> f (heap_swap 0 n xs ! ((0 - 1) div 2))" by simp
    qed
    have "n \<le> length (heap_swap 0 n xs)" "0 < n" using n False by (simp_all add: heap_swap_facts(1))
    note k = heap_down_keeps [OF d this(2,1), folded zs_def]
    have "drop n (heap_swap 0 n xs) = [xs ! 0]" using n by (intro nth_equalityI) (auto simp: heap_swap_facts(1) sw)
    then show ?thesis using k heap_swap_facts(3) [of 0 xs n] n by simp
  qed
  have len: "length zs = Suc n" using z n by (metis size_mset)
  then have ze: "zs = take n zs @ [xs ! 0]" using z by (metis append_take_drop_id)
  have r: "x = xs ! 0" "ys = take n zs"
  proof -
    have "x = last zs" "ys = butlast zs" using assms(3) by (simp_all add: heap_pop_def Let_def n_def zs_def)
    then show "x = xs ! 0" "ys = take n zs" using ze len by (metis last_snoc, metis butlast_snoc)
  qed
  show "heap_ok f (length ys) ys" using z len unfolding r heap_ok_def by auto
  have "mset xs = mset zs" using z by simp
  also have "\<dots> = add_mset (xs ! 0) (mset (take n zs))" by (subst ze) simp
  finally show "mset xs = add_mset x (mset ys)" by (simp add: r)
  show "f y \<le> f x" if "y \<in> set xs" using heap_root [OF assms(1)] that by (auto simp: r in_set_conv_nth)
qed

interpretation heap: prio_queue f "\<lambda>xs. heap_ok f (length xs) xs" mset "[]" "heap_push f" "heap_pop f"
proof (unfold_locales, goal_cases)
  case 1
  show ?case by (simp add: heap_ok_def)
qed (auto dest: heap_push_ok heap_pop_ok)

end
