(* ===== verification/Merge_Iterator.thy ===== *)
theory Merge_Iterator
  imports Query_Exec Memory_Index Go_Heap
begin

text \<open>
  Merging the ranges of a plan: \<open>advanceIteratorSafely\<close>, \<open>mergeHeap\<close> and \<open>mergeLocationIterator\<close> of
  \<open>src/query/executor.go\<close>. The iterator over a range of an index is an interface value, so the definitions take its operations as an
  argument (\<open>iter_ops\<close>); an iterator is held by one item of the heap only, and its state is kept there. The position of an iterator, which the
  code prints to a string, is the pair of its key and location here; the keys of the maps of seen locations are the locations.
  The counters of dropped iterators are only logged and left out. The loop takes fuel, as an iterator need not end.

  What the merge relies on is the contract of the locale \<open>iter_source\<close>: an iterator runs through a list of entries. Result: when every
  range is in order of time, the merged locations are those of all ranges, without repetition, the most recent first.
\<close>

section \<open>Iterators\<close>

record 'i iter_ops =
  io_valid :: "'i \<Rightarrow> bool"
  io_key :: "'i \<Rightarrow> bytes"
  io_value :: "'i \<Rightarrow> location"
  io_next :: "'i \<Rightarrow> go_error option \<times> 'i"

definition iterator_position_signature :: "'i iter_ops \<Rightarrow> 'i \<Rightarrow> (bytes \<times> location) option" where
  "iterator_position_signature ops it = (if \<not> io_valid ops it then None else Some (io_key ops it, io_value ops it))"

text \<open>The results are \<open>stillValid\<close>, \<open>advanced\<close> and the error.\<close>

fun advance_attempts :: "nat \<Rightarrow> 'i iter_ops \<Rightarrow> (bytes \<times> location) option \<Rightarrow> 'i \<Rightarrow> (bool \<times> bool \<times> go_error option) \<times> 'i" where
  "advance_attempts 0 ops prev it = ((False, False, None), it)"
| "advance_attempts (Suc n) ops prev it =
     (case io_next ops it of
        (Some e, it1) \<Rightarrow> ((False, False, Some e), it1)
      | (None, it1) \<Rightarrow>
          if \<not> io_valid ops it1 then ((False, True, None), it1)
          else if iterator_position_signature ops it1 \<noteq> prev then ((True, True, None), it1)
          else advance_attempts n ops prev it1)"

definition advance_iterator_safely :: "'i iter_ops \<Rightarrow> 'i \<Rightarrow> nat \<Rightarrow> (bool \<times> bool \<times> go_error option) \<times> 'i" where
  "advance_iterator_safely ops it maxAttempts =
     (if \<not> io_valid ops it then ((False, False, None), it)
      else advance_attempts maxAttempts ops (iterator_position_signature ops it) it)"

section \<open>The merging iterator\<close>

record location_with_time =
  lw_loc :: location
  lw_created_at :: u32

record 'i heap_item =
  hi_created_at :: u32
  hi_location :: location_with_time
  hi_iterator :: 'i
  hi_range_index :: nat

record 'i merge_iter =
  mi_heap :: "'i heap_item list"
  mi_seen :: "location set"
  mi_range_seen :: "nat \<Rightarrow> location \<Rightarrow> nat"
  mi_current :: location_with_time
  mi_valid :: bool
  mi_closed :: bool

definition zero_lwt :: location_with_time where
  "zero_lwt = \<lparr>lw_loc = zero_location, lw_created_at = 0\<rparr>"

definition heap_item_of :: "'i iter_ops \<Rightarrow> nat \<Rightarrow> 'i \<Rightarrow> 'i heap_item" where
  "heap_item_of ops i it =
     (let createdAt = extract_timestamp_from_key (io_key ops it)
      in \<lparr>hi_created_at = createdAt, hi_location = \<lparr>lw_loc = io_value ops it, lw_created_at = createdAt\<rparr>, hi_iterator = it, hi_range_index = i\<rparr>)"

definition mi_is_valid :: "'i merge_iter \<Rightarrow> bool" where
  "mi_is_valid m \<longleftrightarrow> mi_valid m \<and> \<not> mi_closed m"

definition mi_value :: "'i merge_iter \<Rightarrow> location_with_time" where
  "mi_value m = (if \<not> mi_is_valid m then zero_lwt else mi_current m)"

fun merge_advance :: "nat \<Rightarrow> 'i iter_ops \<Rightarrow> go_error option \<Rightarrow> nat \<Rightarrow> 'i merge_iter \<Rightarrow> (go_error option \<times> 'i merge_iter) option" where
  "merge_advance 0 ops ctx iterCount m = None"
| "merge_advance (Suc n) ops ctx iterCount m =
     (if mi_heap m = [] then Some (None, m\<lparr>mi_valid := False\<rparr>)
      else if (iterCount + 1) mod 1000 = 0 \<and> ctx \<noteq> None then Some (ctx, m)
      else let (item, h) = heap_pop hi_created_at (mi_heap m);
               l = lw_loc (hi_location item); r = hi_range_index item;
               isUnique = (l \<notin> mi_seen m);
               m1 = m\<lparr>mi_heap := h, mi_seen := insert l (mi_seen m),
                      mi_range_seen := (mi_range_seen m)(r := (mi_range_seen m r)(l := mi_range_seen m r l + 1))\<rparr>
        in if mi_range_seen m1 r l > 8 then merge_advance n ops ctx (iterCount + 1) m1
           else case advance_iterator_safely ops (hi_iterator item) 3 of
             ((stillValid, advanced, err), it) \<Rightarrow>
               let m2 = (if err = None \<and> stillValid then m1\<lparr>mi_heap := heap_push hi_created_at (heap_item_of ops r it) h\<rparr> else m1)
               in if isUnique then Some (None, m2\<lparr>mi_current := hi_location item, mi_valid := True\<rparr>)
                  else merge_advance n ops ctx (iterCount + 1) m2)"

declare merge_advance.simps [simp del]

definition merge_next :: "nat \<Rightarrow> 'i iter_ops \<Rightarrow> go_error option \<Rightarrow> 'i merge_iter \<Rightarrow> (go_error option \<times> 'i merge_iter) option" where
  "merge_next n ops ctx m = (if mi_closed m then Some (Some (Err ''iterator is closed''), m) else merge_advance n ops ctx 0 m)"

definition merge_close :: "'i merge_iter \<Rightarrow> 'i merge_iter" where
  "merge_close m = (if mi_closed m then m
     else m\<lparr>mi_closed := True, mi_heap := [], mi_seen := {}, mi_range_seen := (\<lambda>_ _. 0)\<rparr>)"

text \<open>The ranges whose iterator cannot be made are skipped.\<close>

definition new_merge_location_iterator ::
  "nat \<Rightarrow> 'i iter_ops \<Rightarrow> go_error option \<Rightarrow> (bytes \<Rightarrow> bytes \<Rightarrow> 'i result) \<Rightarrow> key_range list \<Rightarrow> 'i merge_iter result option" where
  "new_merge_location_iterator n ops ctx rangeDesc ranges =
     (let its = concat (map (\<lambda>r. case rangeDesc (kr_start r) (kr_end r) of Inl _ \<Rightarrow> [] | Inr it \<Rightarrow> [it]) ranges);
          h = fold (\<lambda>(i, it) h. if io_valid ops it then heap_push hi_created_at (heap_item_of ops i it) h else h) (enumerate 0 its) [];
          m = \<lparr>mi_heap = h, mi_seen = {}, mi_range_seen = (\<lambda>_ _. 0), mi_current = zero_lwt, mi_valid = False, mi_closed = False\<rparr>
      in if its = [] then Some (Inr m)
         else case merge_advance n ops ctx 0 m of
           None \<Rightarrow> None
         | Some (Some e, m1) \<Rightarrow> Some (Inl e)
         | Some (None, m1) \<Rightarrow> Some (Inr m1))"

text \<open>What a client sees that takes the value and goes on until the iterator ends.\<close>

inductive delivers :: "nat \<Rightarrow> 'i iter_ops \<Rightarrow> 'i merge_iter \<Rightarrow> location_with_time list \<Rightarrow> bool" for n ops where
  delivers_end: "\<not> mi_is_valid m \<Longrightarrow> delivers n ops m []"
| delivers_step: "mi_is_valid m \<Longrightarrow> merge_next n ops None m = Some (None, m') \<Longrightarrow> delivers n ops m' xs \<Longrightarrow> delivers n ops m (mi_value m # xs)"

inductive_cases delivers_cases: "delivers n ops m xs"

section \<open>The invariant of the merge\<close>

text \<open>The entries of a range in order of time, and what the merge has still to deliver.\<close>

abbreviation entry_time :: "bytes \<times> location \<Rightarrow> u32" where
  "entry_time e \<equiv> extract_timestamp_from_key (fst e)"

definition stamped :: "bytes \<times> location \<Rightarrow> location_with_time" where
  "stamped e = \<lparr>lw_loc = snd e, lw_created_at = entry_time e\<rparr>"

definition newest_first :: "location_with_time list \<Rightarrow> bool" where
  "newest_first xs \<longleftrightarrow> sorted_wrt (\<lambda>a b. lw_created_at b \<le> lw_created_at a) xs"

definition range_ok :: "(bytes \<times> location) list \<Rightarrow> bool" where
  "range_ok es \<longleftrightarrow> distinct es \<and> newest_first (map stamped es)"

definition merge_entries :: "('i \<Rightarrow> (bytes \<times> location) list) \<Rightarrow> 'i heap_item list \<Rightarrow> location_with_time set" where
  "merge_entries rest h = (\<Union>x \<in> set h. stamped ` set (rest (hi_iterator x)))"

definition merge_size :: "('i \<Rightarrow> (bytes \<times> location) list) \<Rightarrow> 'i heap_item list \<Rightarrow> nat" where
  "merge_size rest h = sum_mset (image_mset (\<lambda>x. length (rest (hi_iterator x))) (mset h))"

text \<open>A location occurs at most eight times in a range, counting those that were taken already.\<close>

definition item_ok :: "'i iter_ops \<Rightarrow> ('i \<Rightarrow> bool) \<Rightarrow> ('i \<Rightarrow> (bytes \<times> location) list) \<Rightarrow> (nat \<Rightarrow> location \<Rightarrow> nat) \<Rightarrow> 'i heap_item \<Rightarrow> bool" where
  "item_ok ops ok rest rs x \<longleftrightarrow> ok (hi_iterator x) \<and> rest (hi_iterator x) \<noteq> [] \<and> x = heap_item_of ops (hi_range_index x) (hi_iterator x) \<and>
     range_ok (rest (hi_iterator x)) \<and> (\<forall>l. rs (hi_range_index x) l + count_list (map snd (rest (hi_iterator x))) l \<le> 8)"

definition merge_inv :: "'i iter_ops \<Rightarrow> ('i \<Rightarrow> bool) \<Rightarrow> ('i \<Rightarrow> (bytes \<times> location) list) \<Rightarrow> 'i merge_iter \<Rightarrow> bool" where
  "merge_inv ops ok rest m \<longleftrightarrow> \<not> mi_closed m \<and> heap_ok hi_created_at (length (mi_heap m)) (mi_heap m) \<and>
     (\<forall>x \<in> set (mi_heap m). item_ok ops ok rest (mi_range_seen m) x) \<and> distinct (map hi_range_index (mi_heap m))"

text \<open>What is delivered from a merge on its current location, with the locations of \<open>S\<close> delivered before.\<close>

definition merged :: "location_with_time set \<Rightarrow> location set \<Rightarrow> location_with_time list \<Rightarrow> bool" where
  "merged E S xs \<longleftrightarrow> newest_first xs \<and> distinct (map lw_loc xs) \<and> set xs \<subseteq> E \<and> lw_loc ` set xs = lw_loc ` E - S"

lemma distinct_map_mset:
  assumes "mset xs = add_mset x (mset ys)"
  shows "distinct (map f xs) \<longleftrightarrow> f x \<notin> f ` set ys \<and> distinct (map f ys)"
proof -
  have "mset (map f xs) = mset (map f (x # ys))" using assms by (simp add: mset_map)
  then show ?thesis using mset_eq_imp_distinct_iff by fastforce
qed

section \<open>The contract of an iterator\<close>

locale iter_source =
  fixes ops :: "'i iter_ops" and ok :: "'i \<Rightarrow> bool" and rest :: "'i \<Rightarrow> (bytes \<times> location) list"
  assumes valid_law: "ok it \<Longrightarrow> io_valid ops it \<longleftrightarrow> rest it \<noteq> []"
    and head_law: "ok it \<Longrightarrow> rest it = (k, l) # es \<Longrightarrow> io_key ops it = k \<and> io_value ops it = l"
    and next_law: "ok it \<Longrightarrow> rest it = e # es \<Longrightarrow> \<exists>it'. io_next ops it = (None, it') \<and> ok it' \<and> rest it' = es"
begin

lemma advance_ok:
  assumes "ok it" "rest it = e # es" "e \<notin> set es"
  shows "\<exists>it'. advance_iterator_safely ops it 3 = ((es \<noteq> [], True, None), it') \<and> ok it' \<and> rest it' = es"
proof -
  obtain it' where n: "io_next ops it = (None, it')" "ok it'" "rest it' = es" using next_law [OF assms(1,2)] by blast
  have sig: "iterator_position_signature ops it = Some e"
    using valid_law [OF assms(1)] head_law [OF assms(1), of "fst e" "snd e" es] assms(2) by (simp add: iterator_position_signature_def)
  show ?thesis
  proof (cases es)
    case Nil
    then show ?thesis using n valid_law [OF assms(1)] valid_law [OF n(2)] assms(2) by (simp add: advance_iterator_safely_def numeral_3_eq_3)
  next
    case (Cons e' es')
    have "iterator_position_signature ops it' = Some e'"
      using valid_law [OF n(2)] head_law [OF n(2), of "fst e'" "snd e'" es'] n(3) Cons by (simp add: iterator_position_signature_def)
    moreover have "e' \<noteq> e" using assms(3) Cons by auto
    ultimately show ?thesis using n sig assms(2) valid_law [OF assms(1)] valid_law [OF n(2)] Cons
      by (simp add: advance_iterator_safely_def numeral_3_eq_3)
  qed
qed

lemma item_head:
  assumes "item_ok ops ok rest rs x"
  obtains e es where "rest (hi_iterator x) = e # es" "hi_location x = stamped e" "hi_created_at x = entry_time e" "e \<notin> set es" "range_ok es"
    "\<forall>y \<in> set es. entry_time y \<le> entry_time e"
proof -
  obtain e es where e: "rest (hi_iterator x) = e # es" using assms by (cases "rest (hi_iterator x)") (auto simp: item_ok_def)
  have x: "ok (hi_iterator x)" "x = heap_item_of ops (hi_range_index x) (hi_iterator x)" "range_ok (e # es)" using assms e by (simp_all add: item_ok_def)
  have "io_key ops (hi_iterator x) = fst e" "io_value ops (hi_iterator x) = snd e" using head_law [OF x(1), of "fst e" "snd e" es] e by simp_all
  then have "heap_item_of ops (hi_range_index x) (hi_iterator x) =
      \<lparr>hi_created_at = entry_time e, hi_location = stamped e, hi_iterator = hi_iterator x, hi_range_index = hi_range_index x\<rparr>"
    by (simp add: heap_item_of_def stamped_def Let_def)
  then have "hi_location x = stamped e" "hi_created_at x = entry_time e" using x(2) by (metis heap_item.select_convs(2), metis heap_item.select_convs(1))
  then show thesis using that [OF e] x(3) by (auto simp: range_ok_def newest_first_def stamped_def)
qed

text \<open>One round: an item is taken, and its iterator goes back to the heap when it has more.\<close>

lemma merge_round:
  assumes inv: "merge_inv ops ok rest m" and ne: "mi_heap m \<noteq> []"
  obtains e m2 where "\<And>n k. merge_advance (Suc n) ops None k m =
      (if snd e \<notin> mi_seen m then Some (None, m2\<lparr>mi_current := stamped e, mi_valid := True\<rparr>) else merge_advance n ops None (k + 1) m2)"
    "merge_inv ops ok rest m2" "mi_seen m2 = insert (snd e) (mi_seen m)"
    "merge_entries rest (mi_heap m) = insert (stamped e) (merge_entries rest (mi_heap m2))"
    "Suc (merge_size rest (mi_heap m2)) = merge_size rest (mi_heap m)"
    "\<forall>y \<in> merge_entries rest (mi_heap m). lw_created_at y \<le> entry_time e"
proof -
  obtain x h where pop: "heap_pop hi_created_at (mi_heap m) = (x, h)" by fastforce
  have ho: "heap_ok hi_created_at (length (mi_heap m)) (mi_heap m)" using inv by (simp add: merge_inv_def)
  note p = heap.pop_ok [OF ho _ pop] heap.pop_max [OF ho _ pop]
  have ms: "mset (mi_heap m) = add_mset x (mset h)" and hh: "heap_ok hi_created_at (length h) h" using p ne by auto
  then have hs: "set (mi_heap m) = insert x (set h)" by (metis set_mset_add_mset_insert set_mset_mset)
  have items: "item_ok ops ok rest (mi_range_seen m) y" if "y \<in> insert x (set h)" for y using inv that hs by (auto simp: merge_inv_def)
  obtain e es where e: "rest (hi_iterator x) = e # es" "hi_location x = stamped e" "hi_created_at x = entry_time e" "e \<notin> set es" "range_ok es"
    "\<forall>y \<in> set es. entry_time y \<le> entry_time e" using item_head [OF items [of x]] by blast
  let ?r = "hi_range_index x" and ?l = "snd e"
  have okx: "ok (hi_iterator x)" using items by (simp add: item_ok_def)
  obtain it where it: "advance_iterator_safely ops (hi_iterator x) 3 = ((es \<noteq> [], True, None), it)" "ok it" "rest it = es"
    using advance_ok [OF okx e(1,4)] by blast
  define rs where "rs = (mi_range_seen m)(?r := (mi_range_seen m ?r)(?l := mi_range_seen m ?r ?l + 1))"
  have cnt: "mi_range_seen m ?r l + count_list (map snd (e # es)) l \<le> 8" for l using items [of x] e(1) by (simp add: item_ok_def)
  have "rs ?r ?l \<le> 8" using cnt [of ?l] by (simp add: rs_def)
  have d: "distinct (map hi_range_index h)" "?r \<notin> hi_range_index ` set h"
    using inv distinct_map_mset [OF ms, of hi_range_index] by (simp_all add: merge_inv_def)
  define y where "y = heap_item_of ops ?r it"
  have yf: "hi_iterator y = it" "hi_range_index y = ?r" by (simp_all add: y_def heap_item_of_def Let_def)
  define h2 where "h2 = (if es \<noteq> [] then heap_push hi_created_at y h else h)"
  define m2 where "m2 = m\<lparr>mi_heap := h2, mi_seen := insert ?l (mi_seen m), mi_range_seen := rs\<rparr>"
  have h2: "heap_ok hi_created_at (length h2) h2" "mset h2 = (if es \<noteq> [] then add_mset y (mset h) else mset h)"
    using heap_push_ok [OF hh] hh by (auto simp: h2_def)
  then have h2s: "set h2 = (if es \<noteq> [] then insert y (set h) else set h)" by (metis set_mset_add_mset_insert set_mset_mset)
  have cnt2: "rs ?r l + count_list (map snd es) l \<le> 8" for l using cnt [of l] by (simp add: rs_def split: if_splits)
  have "y = heap_item_of ops ?r it" by (simp add: y_def)
  then have iy: "item_ok ops ok rest rs y" if "es \<noteq> []"
    unfolding item_ok_def yf using it(2,3) that e(5) cnt2 by simp
  have ih: "item_ok ops ok rest rs z" if "z \<in> set h" for z
  proof -
    have "hi_range_index z \<noteq> ?r" using that d(2) by (metis image_eqI)
    then show ?thesis using items [of z] that by (simp add: item_ok_def rs_def)
  qed
  have d2: "distinct (map hi_range_index h2)"
  proof (cases "es = []")
    case False
    then have "mset h2 = add_mset y (mset h)" using h2(2) by simp
    from distinct_map_mset [OF this, of hi_range_index] show ?thesis using d yf by simp
  qed (use d h2_def in simp)
  have "merge_inv ops ok rest m2" using inv h2(1) h2s iy ih d2 by (auto simp: merge_inv_def m2_def)
  moreover have "merge_advance (Suc n) ops None k m =
      (if snd e \<notin> mi_seen m then Some (None, m2\<lparr>mi_current := stamped e, mi_valid := True\<rparr>) else merge_advance n ops None (k + 1) m2)" for n k
    using ne pop it(1) \<open>rs ?r ?l \<le> 8\<close> e(2)
    by (cases m) (simp add: merge_advance.simps Let_def stamped_def m2_def h2_def y_def rs_def)
  moreover have "merge_entries rest (mi_heap m) = insert (stamped e) (merge_entries rest (mi_heap m2))"
    using hs h2s e(1) it(3) yf by (auto simp: merge_entries_def m2_def)
  moreover have "Suc (merge_size rest (mi_heap m2)) = merge_size rest (mi_heap m)"
    using ms h2(2) e(1) it(3) yf by (auto simp: merge_size_def m2_def)
  moreover have "\<forall>z \<in> merge_entries rest (mi_heap m). lw_created_at z \<le> entry_time e"
  proof
    fix z
    assume "z \<in> merge_entries rest (mi_heap m)"
    then obtain w a where w: "w \<in> set (mi_heap m)" "a \<in> set (rest (hi_iterator w))" "z = stamped a" by (auto simp: merge_entries_def)
    obtain e' es' where e': "rest (hi_iterator w) = e' # es'" "hi_created_at w = entry_time e'" "\<forall>y \<in> set es'. entry_time y \<le> entry_time e'"
      by (rule item_head [OF items [of w]]) (use w(1) hs in simp)
    have "entry_time a \<le> hi_created_at w" using w(2) e' by auto
    also have "\<dots> \<le> hi_created_at x" using p(3) w(1) ne by simp
    finally show "lw_created_at z \<le> entry_time e" using w(3) e(3) by (simp add: stamped_def)
  qed
  ultimately show thesis using that [of e m2] by (simp add: m2_def)
qed

text \<open>An advance ends at the first location that was not seen, or when there is none.\<close>

lemma merge_advance_ok:
  assumes "merge_inv ops ok rest m" "merge_size rest (mi_heap m) < n"
  shows "\<exists>m'. merge_advance n ops None k m = Some (None, m') \<and> merge_inv ops ok rest m' \<and>
    (if mi_valid m'
     then lw_loc (mi_current m') \<notin> mi_seen m \<and> mi_current m' \<in> merge_entries rest (mi_heap m) \<and> lw_loc (mi_current m') \<in> mi_seen m' \<and>
       mi_seen m \<subseteq> mi_seen m' \<and> merge_entries rest (mi_heap m') \<subseteq> merge_entries rest (mi_heap m) \<and>
       merge_size rest (mi_heap m') < merge_size rest (mi_heap m) \<and>
       mi_seen m' \<subseteq> insert (lw_loc (mi_current m')) (mi_seen m) \<and>
       lw_loc ` merge_entries rest (mi_heap m) \<subseteq> mi_seen m' \<union> lw_loc ` merge_entries rest (mi_heap m') \<and>
       (\<forall>y \<in> merge_entries rest (mi_heap m'). lw_created_at y \<le> lw_created_at (mi_current m'))
     else lw_loc ` merge_entries rest (mi_heap m) \<subseteq> mi_seen m)"
  using assms
proof (induction n arbitrary: m k)
  case (Suc n)
  show ?case
  proof (cases "mi_heap m = []")
    case True
    then have "merge_advance (Suc n) ops None k m = Some (None, m\<lparr>mi_valid := False\<rparr>)" by (simp add: merge_advance.simps)
    moreover have "merge_inv ops ok rest (m\<lparr>mi_valid := False\<rparr>)" using Suc.prems(1) by (simp add: merge_inv_def)
    ultimately show ?thesis using True by (simp add: merge_entries_def)
  next
    case False
    obtain e m2 where r: "\<And>n k. merge_advance (Suc n) ops None k m =
      (if snd e \<notin> mi_seen m then Some (None, m2\<lparr>mi_current := stamped e, mi_valid := True\<rparr>) else merge_advance n ops None (k + 1) m2)"
    "merge_inv ops ok rest m2" "mi_seen m2 = insert (snd e) (mi_seen m)"
    "merge_entries rest (mi_heap m) = insert (stamped e) (merge_entries rest (mi_heap m2))"
    "Suc (merge_size rest (mi_heap m2)) = merge_size rest (mi_heap m)"
    "\<forall>y \<in> merge_entries rest (mi_heap m). lw_created_at y \<le> entry_time e" using merge_round [OF Suc.prems(1) False] by blast
    show ?thesis
    proof (cases "snd e \<in> mi_seen m")
      case True
      have "merge_size rest (mi_heap m2) < n" using r(5) Suc.prems(2) by simp
      from Suc.IH [OF r(2) this, of "k + 1"] obtain m' where m': "merge_advance n ops None (k + 1) m2 = Some (None, m')" "merge_inv ops ok rest m'"
        "if mi_valid m'
     then lw_loc (mi_current m') \<notin> mi_seen m2 \<and> mi_current m' \<in> merge_entries rest (mi_heap m2) \<and> lw_loc (mi_current m') \<in> mi_seen m' \<and>
       mi_seen m2 \<subseteq> mi_seen m' \<and> merge_entries rest (mi_heap m') \<subseteq> merge_entries rest (mi_heap m2) \<and>
       merge_size rest (mi_heap m') < merge_size rest (mi_heap m2) \<and>
       mi_seen m' \<subseteq> insert (lw_loc (mi_current m')) (mi_seen m2) \<and>
       lw_loc ` merge_entries rest (mi_heap m2) \<subseteq> mi_seen m' \<union> lw_loc ` merge_entries rest (mi_heap m') \<and>
       (\<forall>y \<in> merge_entries rest (mi_heap m'). lw_created_at y \<le> lw_created_at (mi_current m'))
     else lw_loc ` merge_entries rest (mi_heap m2) \<subseteq> mi_seen m2" by blast
      have s: "mi_seen m2 = mi_seen m" "lw_loc (stamped e) \<in> mi_seen m" using r(3) True by (auto simp: stamped_def)
      show ?thesis
      proof (cases "mi_valid m'")
        case v: True
        then show ?thesis using m' s r(1,4,5) True by (intro exI [of _ m']) auto
      next
        case False
        then show ?thesis using m' s r(1,4) True by (intro exI [of _ m']) auto
      qed
    next
      case False
      let ?m' = "m2\<lparr>mi_current := stamped e, mi_valid := True\<rparr>"
      have "merge_advance (Suc n) ops None k m = Some (None, ?m')" using r(1) False by simp
      moreover have "merge_inv ops ok rest ?m'" using r(2) by (simp add: merge_inv_def)
      ultimately show ?thesis using r(3-6) False by (intro exI [of _ ?m']) (auto simp: stamped_def)
    qed
  qed
qed simp

lemma merge_delivers:
  assumes "merge_inv ops ok rest m" "merge_size rest (mi_heap m) < n"
  shows "\<exists>m' xs. merge_advance n ops None k m = Some (None, m') \<and> delivers n ops m' xs \<and> merged (merge_entries rest (mi_heap m)) (mi_seen m) xs"
  using assms
proof (induction "merge_size rest (mi_heap m)" arbitrary: m k rule: less_induct)
  case less
  obtain m' where m': "merge_advance n ops None k m = Some (None, m')" "merge_inv ops ok rest m'"
    "mi_valid m' \<Longrightarrow> lw_loc (mi_current m') \<notin> mi_seen m \<and> mi_current m' \<in> merge_entries rest (mi_heap m) \<and> lw_loc (mi_current m') \<in> mi_seen m' \<and>
       mi_seen m \<subseteq> mi_seen m' \<and> merge_entries rest (mi_heap m') \<subseteq> merge_entries rest (mi_heap m) \<and>
       merge_size rest (mi_heap m') < merge_size rest (mi_heap m) \<and>
       mi_seen m' \<subseteq> insert (lw_loc (mi_current m')) (mi_seen m) \<and>
       lw_loc ` merge_entries rest (mi_heap m) \<subseteq> mi_seen m' \<union> lw_loc ` merge_entries rest (mi_heap m') \<and>
       (\<forall>y \<in> merge_entries rest (mi_heap m'). lw_created_at y \<le> lw_created_at (mi_current m'))"
    "\<not> mi_valid m' \<Longrightarrow> lw_loc ` merge_entries rest (mi_heap m) \<subseteq> mi_seen m"
    using merge_advance_ok [OF less.prems, of k] by (auto split: if_splits)
  have cl: "\<not> mi_closed m'" using m'(2) by (simp add: merge_inv_def)
  show ?case
  proof (cases "mi_valid m'")
    case True
    note v = m'(3) [OF True]
    have "merge_size rest (mi_heap m') < n" using v less.prems(2) by simp
    from less.hyps [OF _ m'(2) this, of 0] v obtain m2 xs where
      n: "merge_advance n ops None 0 m' = Some (None, m2)" "delivers n ops m2 xs" "merged (merge_entries rest (mi_heap m')) (mi_seen m') xs" by blast
    have iv: "mi_is_valid m'" "mi_value m' = mi_current m'" using True cl by (simp_all add: mi_is_valid_def mi_value_def)
    have "delivers n ops m' (mi_current m' # xs)" using delivers_step [of m' n ops m2 xs] iv n(1,2) cl by (simp add: merge_next_def)
    moreover have "merged (merge_entries rest (mi_heap m)) (mi_seen m) (mi_current m' # xs)"
      using n(3) v unfolding merged_def newest_first_def by auto
    ultimately show ?thesis using m'(1) by blast
  next
    case False
    then have "delivers n ops m' []" by (intro delivers_end) (simp add: mi_is_valid_def)
    then show ?thesis using m'(1) m'(4) [OF False] by (intro exI [of _ m'] exI [of _ "[]"]) (auto simp: merged_def newest_first_def)
  qed
qed

lemma heap_item_fields: "hi_iterator (heap_item_of ops j it) = it" "hi_range_index (heap_item_of ops j it) = j"
  by (simp_all add: heap_item_of_def Let_def)

lemma first_items:
  assumes "\<forall>it \<in> set its. ok it \<and> range_ok (rest it) \<and> (\<forall>l. count_list (map snd (rest it)) l \<le> 8)"
    and "heap_ok hi_created_at (length h) h" "\<forall>x \<in> set h. item_ok ops ok rest (\<lambda>_ _. 0) x" "distinct (map hi_range_index h)"
    and "\<forall>x \<in> set h. hi_range_index x < k"
  defines "h' \<equiv> fold (\<lambda>(i, it) h. if io_valid ops it then heap_push hi_created_at (heap_item_of ops i it) h else h) (enumerate k its) h"
  shows "heap_ok hi_created_at (length h') h' \<and> (\<forall>x \<in> set h'. item_ok ops ok rest (\<lambda>_ _. 0) x) \<and> distinct (map hi_range_index h') \<and>
    merge_entries rest h' = merge_entries rest h \<union> (\<Union>it \<in> set its. stamped ` set (rest it)) \<and>
    merge_size rest h' = merge_size rest h + sum_list (map (\<lambda>it. length (rest it)) its)"
  using assms(1-5) unfolding h'_def
proof (induction its arbitrary: h k)
  case (Cons it its)
  show ?case
  proof (cases "rest it = []")
    case True
    then have "\<not> io_valid ops it" using valid_law [of it] Cons.prems(1) by simp
    then show ?thesis using Cons.IH [of h "Suc k"] Cons.prems True by (simp add: less_Suc_eq)
  next
    case False
    define x where "x = heap_item_of ops k it"
    define h1 where "h1 = heap_push hi_created_at x h"
    have v: "io_valid ops it" using valid_law [of it] Cons.prems(1) False by simp
    have xf: "hi_iterator x = it" "hi_range_index x = k" by (simp_all add: x_def heap_item_fields)
    have h1: "heap_ok hi_created_at (length h1) h1" "mset h1 = add_mset x (mset h)" using heap_push_ok [OF Cons.prems(2)] by (simp_all add: h1_def)
    then have s1: "set h1 = insert x (set h)" by (metis set_mset_add_mset_insert set_mset_mset)
    have "item_ok ops ok rest (\<lambda>_ _. 0) x" using Cons.prems(1) False by (simp add: item_ok_def xf) (simp add: x_def)
    moreover have "distinct (map hi_range_index h1)" using distinct_map_mset [OF h1(2), of hi_range_index] Cons.prems(4,5) xf by auto
    moreover have "\<forall>y \<in> set h1. hi_range_index y < Suc k" using Cons.prems(5) s1 xf by (auto simp: less_Suc_eq)
    ultimately have ih: "let h' = fold (\<lambda>(i, it) h. if io_valid ops it then heap_push hi_created_at (heap_item_of ops i it) h else h) (enumerate (Suc k) its) h1
      in heap_ok hi_created_at (length h') h' \<and> (\<forall>x \<in> set h'. item_ok ops ok rest (\<lambda>_ _. 0) x) \<and> distinct (map hi_range_index h') \<and>
        merge_entries rest h' = merge_entries rest h1 \<union> (\<Union>it \<in> set its. stamped ` set (rest it)) \<and>
        merge_size rest h' = merge_size rest h1 + sum_list (map (\<lambda>it. length (rest it)) its)"
      unfolding Let_def by (intro Cons.IH) (use Cons.prems(1,3) h1(1) s1 in auto)
    have "merge_entries rest h1 = merge_entries rest h \<union> stamped ` set (rest it)" using s1 xf by (auto simp: merge_entries_def)
    moreover have "merge_size rest h1 = merge_size rest h + length (rest it)" using h1(2) xf by (simp add: merge_size_def)
    ultimately show ?thesis using ih v by (simp add: Let_def x_def [symmetric] h1_def [symmetric] Un_assoc)
  qed
qed simp

lemma new_merge_ok:
  fixes ranges rangeDesc
  defines "its \<equiv> concat (map (\<lambda>r. case rangeDesc (kr_start r) (kr_end r) of Inl _ \<Rightarrow> [] | Inr it \<Rightarrow> [it]) ranges)"
  assumes its: "\<forall>it \<in> set its. ok it \<and> range_ok (rest it) \<and> (\<forall>l. count_list (map snd (rest it)) l \<le> 8)"
    and n: "sum_list (map (\<lambda>it. length (rest it)) its) < n"
  shows "\<exists>m xs. new_merge_location_iterator n ops None rangeDesc ranges = Some (Inr m) \<and> delivers n ops m xs \<and>
    merged (\<Union>it \<in> set its. stamped ` set (rest it)) {} xs"
proof -
  define h where "h = fold (\<lambda>(i, it) h. if io_valid ops it then heap_push hi_created_at (heap_item_of ops i it) h else h) (enumerate 0 its) []"
  define m where "m = \<lparr>mi_heap = h, mi_seen = {}, mi_range_seen = (\<lambda>_ _. 0), mi_current = zero_lwt, mi_valid = False, mi_closed = False\<rparr>"
  have h: "heap_ok hi_created_at (length h) h" "\<forall>x \<in> set h. item_ok ops ok rest (\<lambda>_ _. 0) x" "distinct (map hi_range_index h)"
    "merge_entries rest h = (\<Union>it \<in> set its. stamped ` set (rest it))" "merge_size rest h = sum_list (map (\<lambda>it. length (rest it)) its)"
    using first_items [OF its, of "[]" 0] by (simp_all add: h_def heap_ok_def merge_entries_def merge_size_def)
  show ?thesis
  proof (cases "its = []")
    case True
    have "\<not> mi_is_valid m" by (simp add: m_def mi_is_valid_def)
    then have "delivers n ops m []" by (rule delivers_end)
    moreover have "new_merge_location_iterator n ops None rangeDesc ranges = Some (Inr m)"
      using True unfolding new_merge_location_iterator_def its_def [symmetric] by (simp add: Let_def m_def h_def)
    ultimately show ?thesis using True by (intro exI [of _ m] exI [of _ "[]"]) (simp add: merged_def newest_first_def)
  next
    case False
    have "merge_inv ops ok rest m" using h(1-3) by (simp add: merge_inv_def m_def)
    moreover have "merge_size rest (mi_heap m) < n" using h(5) n by (simp add: m_def)
    ultimately obtain m' xs where "merge_advance n ops None 0 m = Some (None, m')" "delivers n ops m' xs" "merged (merge_entries rest (mi_heap m)) (mi_seen m) xs"
      using merge_delivers [of m n 0] by blast
    then show ?thesis using False h(4) unfolding new_merge_location_iterator_def its_def [symmetric]
      by (simp add: Let_def m_def [symmetric] h_def [symmetric]) (auto simp: m_def)
  qed
qed

end

section \<open>The iterators of the in-memory index\<close>

definition slice_ops :: "slice_iterator iter_ops" where
  "slice_ops = \<lparr>io_valid = it_valid, io_key = it_key, io_value = it_value, io_next = (\<lambda>it. (None, it_next it))\<rparr>"

interpretation slice: iter_source slice_ops "\<lambda>_. True" it_collect
proof
  fix it k l e es
  have u: "it_collect it = (if it_valid it then (it_key it, it_value it) # it_collect (it_next it) else [])" by (rule it_collect.simps)
  show "io_valid slice_ops it \<longleftrightarrow> it_collect it \<noteq> []" using u by (simp add: slice_ops_def)
  show "io_key slice_ops it = k \<and> io_value slice_ops it = l" if "it_collect it = (k, l) # es" using u that by (auto simp: slice_ops_def split: if_splits)
  show "\<exists>it'. io_next slice_ops it = (None, it') \<and> True \<and> it_collect it' = es" if "it_collect it = e # es" using u that by (auto simp: slice_ops_def split: if_splits)
qed

end
