(* ===== verification/Intersection_Iterator.thy ===== *)
theory Intersection_Iterator
  imports Merge_Iterator
begin

text \<open>
  Intersecting two merged scans: \<open>intersectionLocationIterator\<close> of \<open>src/query/executor.go\<close>. The buckets of one timestamp are
  association lists from locations; Go visits the entries of a map in any order, which is the argument \<open>ord\<close>. The loops take fuel.

  Result: of two scans that are in order of time and agree on the time of a location, exactly the common locations are delivered, the most recent first.
\<close>

section \<open>The iterator\<close>

record 'i isect_iter =
  ii_iter1 :: "'i merge_iter"
  ii_iter2 :: "'i merge_iter"
  ii_pending :: "location_with_time list"
  ii_current :: location_with_time
  ii_valid :: bool
  ii_closed :: bool

definition ii_is_valid :: "'i isect_iter \<Rightarrow> bool" where
  "ii_is_valid i \<longleftrightarrow> \<not> ii_closed i \<and> ii_valid i"

definition ii_value :: "'i isect_iter \<Rightarrow> location_with_time" where
  "ii_value i = (if \<not> ii_is_valid i then zero_lwt else ii_current i)"

definition same_record_location :: "location_with_time \<Rightarrow> location_with_time \<Rightarrow> bool" where
  "same_record_location a b \<longleftrightarrow> segment_id (lw_loc a) = segment_id (lw_loc b) \<and> loc_offset (lw_loc a) = loc_offset (lw_loc b)"

definition emit_pending :: "'i isect_iter \<Rightarrow> bool \<times> 'i isect_iter" where
  "emit_pending i = (case ii_pending i of [] \<Rightarrow> (False, i) | x # xs \<Rightarrow> (True, i\<lparr>ii_current := x, ii_pending := xs, ii_valid := True\<rparr>))"

type_synonym bucket = "(location \<times> location_with_time) list"

fun collect_timestamp_bucket ::
  "nat \<Rightarrow> nat \<Rightarrow> 'i iter_ops \<Rightarrow> go_error option \<Rightarrow> u32 \<Rightarrow> bucket \<Rightarrow> 'i merge_iter \<Rightarrow> (bucket result \<times> 'i merge_iter) option" where
  "collect_timestamp_bucket 0 n ops ctx ts bucket iter = None"
| "collect_timestamp_bucket (Suc k) n ops ctx ts bucket iter =
     (if \<not> mi_is_valid iter \<or> lw_created_at (mi_value iter) \<noteq> ts then Some (Inr bucket, iter)
      else case merge_next n ops ctx iter of
        None \<Rightarrow> None
      | Some (Some e, iter1) \<Rightarrow> Some (Inl e, iter1)
      | Some (None, iter1) \<Rightarrow>
          collect_timestamp_bucket k n ops ctx ts (AList.update (lw_loc (mi_value iter)) (mi_value iter) bucket) iter1)"

definition bucket_intersection :: "(bucket \<Rightarrow> bucket) \<Rightarrow> bucket \<Rightarrow> bucket \<Rightarrow> location_with_time list" where
  "bucket_intersection ord b1 b2 =
     (if length b1 \<le> length b2
      then concat (map (\<lambda>(key, loc). case map_of b2 key of None \<Rightarrow> [] | Some _ \<Rightarrow> [loc]) (ord b1))
      else concat (map (\<lambda>(key, _). case map_of b1 key of None \<Rightarrow> [] | Some loc \<Rightarrow> [loc]) (ord b2)))"

fun isect_loop ::
  "nat \<Rightarrow> nat \<Rightarrow> (bucket \<Rightarrow> bucket) \<Rightarrow> 'i iter_ops \<Rightarrow> go_error option \<Rightarrow> 'i isect_iter \<Rightarrow> (go_error option \<times> 'i isect_iter) option" where
  "isect_loop 0 n ord ops ctx i = None"
| "isect_loop (Suc k) n ord ops ctx i =
     (let m1 = ii_iter1 i; m2 = ii_iter2 i; a = mi_value m1; b = mi_value m2
      in if \<not> (mi_is_valid m1 \<and> mi_is_valid m2) then Some (None, i\<lparr>ii_valid := False\<rparr>)
         else if ctx \<noteq> None then Some (ctx, i)
         else if same_record_location a b
         then let i1 = i\<lparr>ii_current := a, ii_valid := True\<rparr>
           in case merge_next n ops ctx m1 of
                None \<Rightarrow> None
              | Some (Some e, m1') \<Rightarrow> Some (Some e, i1\<lparr>ii_iter1 := m1'\<rparr>)
              | Some (None, m1') \<Rightarrow>
                  (case merge_next n ops ctx m2 of
                     None \<Rightarrow> None
                   | Some (x, m2') \<Rightarrow> Some (x, i1\<lparr>ii_iter1 := m1', ii_iter2 := m2'\<rparr>))
         else if lw_created_at a > lw_created_at b
         then (case merge_next n ops ctx m1 of
                 None \<Rightarrow> None
               | Some (Some e, m1') \<Rightarrow> Some (Some e, i\<lparr>ii_iter1 := m1'\<rparr>)
               | Some (None, m1') \<Rightarrow> isect_loop k n ord ops ctx (i\<lparr>ii_iter1 := m1'\<rparr>))
         else if lw_created_at b > lw_created_at a
         then (case merge_next n ops ctx m2 of
                 None \<Rightarrow> None
               | Some (Some e, m2') \<Rightarrow> Some (Some e, i\<lparr>ii_iter2 := m2'\<rparr>)
               | Some (None, m2') \<Rightarrow> isect_loop k n ord ops ctx (i\<lparr>ii_iter2 := m2'\<rparr>))
         else case collect_timestamp_bucket n n ops ctx (lw_created_at a) [] m1 of
                None \<Rightarrow> None
              | Some (Inl e, m1') \<Rightarrow> Some (Some e, i\<lparr>ii_iter1 := m1'\<rparr>)
              | Some (Inr b1, m1') \<Rightarrow>
                  (case collect_timestamp_bucket n n ops ctx (lw_created_at a) [] m2 of
                     None \<Rightarrow> None
                   | Some (Inl e, m2') \<Rightarrow> Some (Some e, i\<lparr>ii_iter1 := m1', ii_iter2 := m2'\<rparr>)
                   | Some (Inr b2, m2') \<Rightarrow>
                       let i1 = i\<lparr>ii_iter1 := m1', ii_iter2 := m2'\<rparr>
                       in if b1 = [] \<or> b2 = [] then isect_loop k n ord ops ctx i1
                          else case emit_pending (i1\<lparr>ii_pending := ii_pending i @ bucket_intersection ord b1 b2\<rparr>) of
                            (True, i2) \<Rightarrow> Some (None, i2)
                          | (False, i2) \<Rightarrow> isect_loop k n ord ops ctx i2))"

declare isect_loop.simps [simp del]

definition isect_advance ::
  "nat \<Rightarrow> (bucket \<Rightarrow> bucket) \<Rightarrow> 'i iter_ops \<Rightarrow> go_error option \<Rightarrow> 'i isect_iter \<Rightarrow> (go_error option \<times> 'i isect_iter) option" where
  "isect_advance n ord ops ctx i =
     (if ii_closed i then Some (Some (Err ''iterator is closed''), i)
      else case emit_pending i of (True, i1) \<Rightarrow> Some (None, i1) | (False, i1) \<Rightarrow> isect_loop (2 * n) n ord ops ctx i1)"

definition isect_close :: "'i isect_iter \<Rightarrow> 'i isect_iter" where
  "isect_close i = (if ii_closed i then i
     else i\<lparr>ii_closed := True, ii_pending := [], ii_valid := False, ii_iter1 := merge_close (ii_iter1 i), ii_iter2 := merge_close (ii_iter2 i)\<rparr>)"

definition new_intersection_location_iterator ::
  "nat \<Rightarrow> (bucket \<Rightarrow> bucket) \<Rightarrow> 'i iter_ops \<Rightarrow> go_error option \<Rightarrow> (bytes \<Rightarrow> bytes \<Rightarrow> 'i result) \<Rightarrow> key_range list \<Rightarrow>
   (bytes \<Rightarrow> bytes \<Rightarrow> 'i result) \<Rightarrow> key_range list \<Rightarrow> 'i isect_iter result option" where
  "new_intersection_location_iterator n ord ops ctx rangeDesc1 ranges1 rangeDesc2 ranges2 =
     (case new_merge_location_iterator n ops ctx rangeDesc1 ranges1 of
        None \<Rightarrow> None
      | Some (Inl e) \<Rightarrow> Some (Inl (wrap_error ''failed to create first index iterator'' e))
      | Some (Inr m1) \<Rightarrow>
          (case new_merge_location_iterator n ops ctx rangeDesc2 ranges2 of
             None \<Rightarrow> None
           | Some (Inl e) \<Rightarrow> Some (Inl (wrap_error ''failed to create second index iterator'' e))
           | Some (Inr m2) \<Rightarrow>
               (case isect_advance n ord ops ctx
                   \<lparr>ii_iter1 = m1, ii_iter2 = m2, ii_pending = [], ii_current = zero_lwt, ii_valid = False, ii_closed = False\<rparr> of
                  None \<Rightarrow> None
                | Some (Some e, i) \<Rightarrow> Some (Inl e)
                | Some (None, i) \<Rightarrow> Some (Inr i))))"

inductive isect_delivers :: "nat \<Rightarrow> (bucket \<Rightarrow> bucket) \<Rightarrow> 'i iter_ops \<Rightarrow> 'i isect_iter \<Rightarrow> location_with_time list \<Rightarrow> bool" for n ord ops where
  isect_end: "\<not> ii_is_valid i \<Longrightarrow> isect_delivers n ord ops i []"
| isect_step: "ii_is_valid i \<Longrightarrow> isect_advance n ord ops None i = Some (None, i') \<Longrightarrow> isect_delivers n ord ops i' xs \<Longrightarrow>
    isect_delivers n ord ops i (ii_value i # xs)"

section \<open>Buckets\<close>

lemma delivers_Cons:
  assumes "delivers n ops m (x # xs)"
  shows "mi_is_valid m" "mi_value m = x" "\<exists>m'. merge_next n ops None m = Some (None, m') \<and> delivers n ops m' xs"
  using assms by (auto elim: delivers_cases)

lemma delivers_valid: "delivers n ops m xs \<Longrightarrow> mi_is_valid m \<longleftrightarrow> xs \<noteq> []"
  by (auto elim: delivers_cases)

lemma alist_update_fresh: "k \<notin> fst ` set b \<Longrightarrow> AList.update k v b = b @ [(k, v)]"
  by (induction b) auto

lemma collect_bucket_ok:
  assumes "delivers n ops m xs" "length xs < k" "distinct (map fst b @ map lw_loc xs)"
  shows "\<exists>m'. collect_timestamp_bucket k n ops None ts b m =
      Some (Inr (b @ map (\<lambda>x. (lw_loc x, x)) (takeWhile (\<lambda>x. lw_created_at x = ts) xs)), m') \<and>
    delivers n ops m' (dropWhile (\<lambda>x. lw_created_at x = ts) xs)"
  using assms
proof (induction k arbitrary: m xs b)
  case (Suc k)
  show ?case
  proof (cases xs)
    case Nil
    then show ?thesis using Suc.prems(1) delivers_valid by fastforce
  next
    case (Cons x xs')
    note d = delivers_Cons [OF Suc.prems(1) [unfolded Cons]]
    obtain m' where m': "merge_next n ops None m = Some (None, m')" "delivers n ops m' xs'" using d(3) by blast
    show ?thesis
    proof (cases "lw_created_at x = ts")
      case True
      have "AList.update (lw_loc x) x b = b @ [(lw_loc x, x)]" using Suc.prems(3) Cons by (intro alist_update_fresh) auto
      moreover have "distinct (map fst (b @ [(lw_loc x, x)]) @ map lw_loc xs')" using Suc.prems(3) Cons by auto
      moreover have "length xs' < k" using Suc.prems(2) Cons by simp
      ultimately show ?thesis using Suc.IH [OF m'(2), of "b @ [(lw_loc x, x)]"] d(1,2) m'(1) True Cons by simp
    next
      case False
      then show ?thesis using d Suc.prems(1) Cons by simp
    qed
  qed
qed simp

section \<open>The intersection\<close>

definition isect_inv ::
  "nat \<Rightarrow> 'i iter_ops \<Rightarrow> 'i isect_iter \<Rightarrow> location_with_time list \<Rightarrow> location_with_time list \<Rightarrow> location_with_time list \<Rightarrow> bool" where
  "isect_inv n ops i ps xs ys \<longleftrightarrow> \<not> ii_closed i \<and> ii_pending i = ps \<and> delivers n ops (ii_iter1 i) xs \<and> delivers n ops (ii_iter2 i) ys \<and>
     length xs < n \<and> length ys < n \<and> newest_first (ps @ xs) \<and> newest_first (ps @ ys) \<and>
     distinct (map lw_loc (ps @ xs)) \<and> distinct (map lw_loc (ps @ ys)) \<and> (\<forall>x \<in> set xs. \<forall>y \<in> set ys. lw_loc x = lw_loc y \<longrightarrow> x = y)"

text \<open>What an advance does to the locations still to come.\<close>

definition isect_advanced ::
  "nat \<Rightarrow> 'i iter_ops \<Rightarrow> location_with_time set \<Rightarrow> nat \<Rightarrow> 'i isect_iter \<Rightarrow> bool" where
  "isect_advanced n ops R sz i' \<longleftrightarrow> (\<exists>ps xs ys. isect_inv n ops i' ps xs ys \<and>
     (if ii_valid i'
      then length ps + length xs + length ys < sz \<and> R = insert (ii_current i') (set ps \<union> set xs \<inter> set ys) \<and>
        (\<forall>x \<in> set ps \<union> set xs \<inter> set ys. lw_loc x \<noteq> lw_loc (ii_current i') \<and> lw_created_at x \<le> lw_created_at (ii_current i'))
      else R = {}))"

lemma newest_takeWhile:
  assumes "newest_first (x # xs)" "t = lw_created_at x"
  shows "set (takeWhile (\<lambda>x. lw_created_at x = t) (x # xs)) = {y \<in> set (x # xs). lw_created_at y = t}"
    "set (dropWhile (\<lambda>x. lw_created_at x = t) (x # xs)) = {y \<in> set (x # xs). lw_created_at y < t}"
proof -
  have "set (takeWhile (\<lambda>x. lw_created_at x = t) zs) = {y \<in> set zs. lw_created_at y = t} \<and>
      set (dropWhile (\<lambda>x. lw_created_at x = t) zs) = {y \<in> set zs. lw_created_at y < t}"
    if "newest_first zs" "\<forall>z \<in> set zs. lw_created_at z \<le> t" for zs
    using that
  proof (induction zs)
    case (Cons z zs)
    show ?case
    proof (cases "lw_created_at z = t")
      case True
      then show ?thesis using Cons by (auto simp: newest_first_def)
    next
      case False
      then have lt: "lw_created_at z < t" using Cons.prems(2) by (simp add: le_less)
      then have "lw_created_at y < t" if "y \<in> set zs" for y using Cons.prems(1) that by (auto simp: newest_first_def intro: le_less_trans)
      then show ?thesis using False lt by auto
    qed
  qed simp
  then show "set (takeWhile (\<lambda>x. lw_created_at x = t) (x # xs)) = {y \<in> set (x # xs). lw_created_at y = t}"
    "set (dropWhile (\<lambda>x. lw_created_at x = t) (x # xs)) = {y \<in> set (x # xs). lw_created_at y < t}"
    using assms by (auto simp: newest_first_def)
qed

lemma bucket_intersection_ok:
  assumes ord: "\<And>b. mset (ord b) = mset b" and d: "distinct (map lw_loc xs)" "distinct (map lw_loc ys)"
    and eq: "\<forall>x \<in> set xs. \<forall>y \<in> set ys. lw_loc x = lw_loc y \<longrightarrow> x = y"
  defines "zs \<equiv> bucket_intersection ord (map (\<lambda>x. (lw_loc x, x)) xs) (map (\<lambda>x. (lw_loc x, x)) ys)"
  shows "set zs = set xs \<inter> set ys" "distinct (map lw_loc zs)" "length zs \<le> length xs"
proof -
  have sel: "concat (map (\<lambda>x. if P x then [f x] else []) ws) = map f (filter P ws)" for P f and ws :: "(location \<times> location_with_time) list" by (induction ws) auto
  have o: "set (ord b) = set b" "distinct (map fst (ord b)) \<longleftrightarrow> distinct (map fst b)" "length (ord b) = length b" for b
    using ord [of b] mset_eq_setD mset_eq_imp_distinct_iff [of "map fst (ord b)" "map fst b"] by (auto simp: mset_map dest: mset_eq_length)
  let ?b = "map (\<lambda>x. (lw_loc x, x))"
  have m: "map_of (?b ws) l = None \<longleftrightarrow> l \<notin> lw_loc ` set ws" for ws l by (force simp: map_of_eq_None_iff)
  have dm: "distinct (map fst (?b ws)) \<longleftrightarrow> distinct (map lw_loc ws)" for ws by (simp add: comp_def)
  have com: "x \<in> set ys \<longleftrightarrow> lw_loc x \<in> lw_loc ` set ys" if "x \<in> set xs" for x using eq that by blast
  have com': "y \<in> set xs \<longleftrightarrow> lw_loc y \<in> lw_loc ` set xs" if "y \<in> set ys" for y using eq that by (metis (no_types, lifting) image_iff)
  show "set zs = set xs \<inter> set ys" "distinct (map lw_loc zs)" "length zs \<le> length xs"
  proof -
    have "set zs = set xs \<inter> set ys \<and> distinct (map lw_loc zs) \<and> length zs \<le> length xs"
    proof (cases "length (?b xs) \<le> length (?b ys)")
      case True
      let ?w = "filter (\<lambda>p. fst p \<in> lw_loc ` set ys) (ord (?b xs))"
      have "(case p of (key, loc) \<Rightarrow> case map_of (?b ys) key of None \<Rightarrow> [] | Some _ \<Rightarrow> [loc]) = (if fst p \<in> lw_loc ` set ys then [snd p] else [])" for p
        using m [of ys "fst p"] by (auto split: option.split prod.split)
      then have "map (\<lambda>(key, loc). case map_of (?b ys) key of None \<Rightarrow> [] | Some _ \<Rightarrow> [loc]) (ord (?b xs)) =
          map (\<lambda>p. if fst p \<in> lw_loc ` set ys then [snd p] else []) (ord (?b xs))" by (intro map_cong refl)
      then have "zs = concat (map (\<lambda>p. if fst p \<in> lw_loc ` set ys then [snd p] else []) (ord (?b xs)))"
        unfolding zs_def bucket_intersection_def if_P [OF True] by (rule arg_cong)
      then have z: "zs = map snd ?w" by (simp add: sel)
      have loc: "lw_loc (snd p) = fst p" if "p \<in> set ?w" for p using that o(1) by auto
      have "map lw_loc zs = map fst ?w" unfolding z using loc by simp
      moreover have "distinct (map fst (ord (?b xs)))" using o(2) [of "?b xs"] d(1) dm by blast
      ultimately have "distinct (map lw_loc zs)" by (simp only: distinct_map_filter)
      moreover have "set zs = set xs \<inter> set ys" unfolding z set_map set_filter o(1) using com by force
      moreover have "length zs \<le> length xs" using order_trans [OF length_filter_le eq_imp_le [OF o(3)], of _ "?b xs"] unfolding z by simp
      ultimately show ?thesis by simp
    next
      case False
      let ?w = "filter (\<lambda>p. fst p \<in> lw_loc ` set xs) (ord (?b ys))"
      have "(case p of (key, _) \<Rightarrow> case map_of (?b xs) key of None \<Rightarrow> [] | Some loc \<Rightarrow> [loc]) = (if fst p \<in> lw_loc ` set xs then [snd p] else [])"
        if "p \<in> set (ord (?b ys))" for p
      proof -
        have "p \<in> set (?b ys)" using that unfolding o(1) .
        then obtain y where y: "y \<in> set ys" "p = (lw_loc y, y)" by auto
        show ?thesis
        proof (cases "lw_loc y \<in> lw_loc ` set xs")
          case True
          then have "y \<in> set xs" using com' [OF y(1)] by simp
          then have "map_of (?b xs) (lw_loc y) = Some y" using d(1) by (auto simp: comp_def intro!: map_of_is_SomeI)
          then show ?thesis using y(2) True by simp
        next
          case False
          then have "map_of (?b xs) (lw_loc y) = None" using m by blast
          then show ?thesis using y(2) False by simp
        qed
      qed
      then have "zs = concat (map (\<lambda>p. if fst p \<in> lw_loc ` set xs then [snd p] else []) (ord (?b ys)))"
        using False unfolding zs_def bucket_intersection_def by (auto intro!: arg_cong [where f = concat])
      then have z: "zs = map snd ?w" by (simp add: sel)
      have loc: "lw_loc (snd p) = fst p" if "p \<in> set ?w" for p using that o(1) by auto
      have "map lw_loc zs = map fst ?w" unfolding z using loc by simp
      moreover have "distinct (map fst (ord (?b ys)))" using o(2) [of "?b ys"] d(2) dm by blast
      ultimately have "distinct (map lw_loc zs)" by (simp only: distinct_map_filter)
      moreover have "set zs = set xs \<inter> set ys" unfolding z set_map set_filter o(1) using com' by force
      moreover have "length zs \<le> length xs" using order_trans [OF length_filter_le eq_imp_le [OF o(3)], of "\<lambda>p. fst p \<in> lw_loc ` set xs" "?b ys"] False unfolding z by simp
      ultimately show ?thesis by simp
    qed
    then show "set zs = set xs \<inter> set ys" "distinct (map lw_loc zs)" "length zs \<le> length xs" by simp_all
  qed
qed

lemma newest_append: "newest_first (xs @ ys) \<longleftrightarrow> newest_first xs \<and> newest_first ys \<and> (\<forall>x \<in> set xs. \<forall>y \<in> set ys. lw_created_at y \<le> lw_created_at x)"
  by (simp add: newest_first_def sorted_wrt_append)

lemma distinct_prefix_subset:
  assumes "distinct (map f (xs @ ys))" "distinct (map f zs)" "set zs \<subseteq> set xs"
  shows "distinct (map f (zs @ ys))"
  using assms by (simp add: image_Un) (meson disjoint_iff image_mono subsetD)

lemma emit_ok:
  assumes "isect_inv n ops i (p # ps) xs ys"
  shows "emit_pending i = (True, i\<lparr>ii_current := p, ii_pending := ps, ii_valid := True\<rparr>)"
    "isect_advanced n ops (set (p # ps) \<union> set xs \<inter> set ys) (Suc (length ps) + length xs + length ys) (i\<lparr>ii_current := p, ii_pending := ps, ii_valid := True\<rparr>)"
proof -
  show "emit_pending i = (True, i\<lparr>ii_current := p, ii_pending := ps, ii_valid := True\<rparr>)" using assms by (simp add: emit_pending_def isect_inv_def)
  have "isect_inv n ops (i\<lparr>ii_current := p, ii_pending := ps, ii_valid := True\<rparr>) ps xs ys" using assms by (simp add: isect_inv_def newest_first_def)
  moreover have "\<forall>x \<in> set ps \<union> set xs \<inter> set ys. lw_loc x \<noteq> lw_loc p \<and> lw_created_at x \<le> lw_created_at p"
  proof -
    have "lw_loc p \<notin> lw_loc ` (set ps \<union> set xs)" "\<forall>x \<in> set ps \<union> set xs. lw_created_at x \<le> lw_created_at p"
      using assms by (simp_all add: isect_inv_def newest_first_def image_Un)
    then show ?thesis by (metis IntE Un_iff image_eqI)
  qed
  ultimately show "isect_advanced n ops (set (p # ps) \<union> set xs \<inter> set ys) (Suc (length ps) + length xs + length ys) (i\<lparr>ii_current := p, ii_pending := ps, ii_valid := True\<rparr>)"
    unfolding isect_advanced_def by (intro exI [of _ ps] exI [of _ xs] exI [of _ ys]) auto
qed

lemma isect_advanced_mono:
  assumes "isect_advanced n ops R sz i" "sz \<le> sz'"
  shows "isect_advanced n ops R sz' i"
proof -
  obtain ps xs ys where "isect_inv n ops i ps xs ys" "if ii_valid i
      then length ps + length xs + length ys < sz \<and> R = insert (ii_current i) (set ps \<union> set xs \<inter> set ys) \<and>
        (\<forall>x \<in> set ps \<union> set xs \<inter> set ys. lw_loc x \<noteq> lw_loc (ii_current i) \<and> lw_created_at x \<le> lw_created_at (ii_current i))
      else R = {}" using assms(1) unfolding isect_advanced_def by blast
  then show ?thesis using assms(2) unfolding isect_advanced_def by (intro exI [of _ ps] exI [of _ xs] exI [of _ ys]) (auto split: if_splits)
qed

lemma isect_loop_ok:
  assumes ord: "\<And>b. mset (ord b) = mset b"
  shows "isect_inv n ops i [] xs ys \<Longrightarrow> length xs + length ys < k \<Longrightarrow>
    \<exists>i'. isect_loop k n ord ops None i = Some (None, i') \<and> isect_advanced n ops (set xs \<inter> set ys) (length xs + length ys) i'"
proof (induction k arbitrary: i xs ys)
  case (Suc k)
  note inv = Suc.prems(1) [unfolded isect_inv_def]
  have v: "mi_is_valid (ii_iter1 i) \<longleftrightarrow> xs \<noteq> []" "mi_is_valid (ii_iter2 i) \<longleftrightarrow> ys \<noteq> []" using inv delivers_valid by blast+
  show ?case
  proof (cases "xs = [] \<or> ys = []")
    case True
    then have "isect_loop (Suc k) n ord ops None i = Some (None, i\<lparr>ii_valid := False\<rparr>)" using v by (auto simp: isect_loop.simps)
    moreover have "isect_inv n ops (i\<lparr>ii_valid := False\<rparr>) [] xs ys" using Suc.prems(1) by (simp add: isect_inv_def)
    ultimately show ?thesis using True unfolding isect_advanced_def
      by (intro exI [of _ "i\<lparr>ii_valid := False\<rparr>"] conjI exI [of _ "[]"] exI [of _ xs] exI [of _ ys]) auto
  next
    case False
    then obtain a xs' b ys' where e: "xs = a # xs'" "ys = b # ys'" by (meson neq_Nil_conv)
    have d1: "delivers n ops (ii_iter1 i) (a # xs')" and d2: "delivers n ops (ii_iter2 i) (b # ys')" using inv e by simp_all
    obtain m1 where m1: "merge_next n ops None (ii_iter1 i) = Some (None, m1)" "delivers n ops m1 xs'" using delivers_Cons(3) [OF d1] by blast
    obtain m2 where m2: "merge_next n ops None (ii_iter2 i) = Some (None, m2)" "delivers n ops m2 ys'" using delivers_Cons(3) [OF d2] by blast
    have val: "mi_value (ii_iter1 i) = a" "mi_value (ii_iter2 i) = b" using delivers_Cons(2) [OF d1] delivers_Cons(2) [OF d2] by simp_all
    have same: "same_record_location a b \<longleftrightarrow> lw_loc a = lw_loc b" by (auto simp: same_record_location_def)
    have cons: "lw_loc x = lw_loc y \<Longrightarrow> x = y" if "x \<in> set xs" "y \<in> set ys" for x y using inv that by blast
    have nf: "newest_first xs" "newest_first ys" "distinct (map lw_loc xs)" "distinct (map lw_loc ys)" using inv by simp_all
    have old: "\<forall>x \<in> set xs'. lw_created_at x \<le> lw_created_at a" "\<forall>y \<in> set ys'. lw_created_at y \<le> lw_created_at b"
      using nf(1,2) e by (simp_all add: newest_first_def)
    consider (same) "lw_loc a = lw_loc b" | (left) "lw_loc a \<noteq> lw_loc b" "lw_created_at a > lw_created_at b"
      | (right) "lw_loc a \<noteq> lw_loc b" "lw_created_at b > lw_created_at a" | (tie) "lw_loc a \<noteq> lw_loc b" "lw_created_at a = lw_created_at b"
      using linorder_neqE by blast
    then show ?thesis
    proof cases
      case same
      let ?i = "i\<lparr>ii_current := a, ii_valid := True, ii_iter1 := m1, ii_iter2 := m2\<rparr>"
      have ab: "a = b" using cons same e by simp
      have "isect_loop (Suc k) n ord ops None i = Some (None, ?i)"
        using same v e val m1(1) m2(1) by (simp add: isect_loop.simps Let_def \<open>same_record_location a b \<longleftrightarrow> lw_loc a = lw_loc b\<close>)
      moreover have "isect_inv n ops ?i [] xs' ys'" using inv e m1(2) m2(2) by (simp add: isect_inv_def newest_first_def)
      moreover have "set xs \<inter> set ys = insert a (set xs' \<inter> set ys')" using e ab nf(3,4) by auto
      moreover have "\<forall>x \<in> set xs' \<inter> set ys'. lw_loc x \<noteq> lw_loc a \<and> lw_created_at x \<le> lw_created_at a"
      proof -
        have "lw_loc a \<notin> lw_loc ` set xs'" using e nf(3) by simp
        then show ?thesis using old(1) by (metis IntE image_eqI)
      qed
      ultimately show ?thesis unfolding isect_advanced_def
        by (intro exI [of _ ?i] conjI exI [of _ "[]"] exI [of _ xs'] exI [of _ ys']) (auto simp: e)
    next
      case left
      have na: "a \<notin> set ys" using left e old(2) by auto
      have "isect_inv n ops (i\<lparr>ii_iter1 := m1\<rparr>) [] xs' ys" using inv e m1(2) by (simp add: isect_inv_def newest_first_def)
      moreover have "length xs' + length ys < k" using Suc.prems(2) e by simp
      ultimately obtain i' where i': "isect_loop k n ord ops None (i\<lparr>ii_iter1 := m1\<rparr>) = Some (None, i')"
        "isect_advanced n ops (set xs' \<inter> set ys) (length xs' + length ys) i'" using Suc.IH by blast
      have "isect_loop (Suc k) n ord ops None i = Some (None, i')"
        using left v e val m1(1) i'(1) by (simp add: isect_loop.simps Let_def same)
      moreover have "set xs \<inter> set ys = set xs' \<inter> set ys" using e na by auto
      ultimately show ?thesis using isect_advanced_mono [OF i'(2), of "length xs + length ys"] e by auto
    next
      case right
      have nb: "b \<notin> set xs" using right e old(1) by auto
      have "isect_inv n ops (i\<lparr>ii_iter2 := m2\<rparr>) [] xs ys'" using inv e m2(2) by (simp add: isect_inv_def newest_first_def)
      moreover have "length xs + length ys' < k" using Suc.prems(2) e by simp
      ultimately obtain i' where i': "isect_loop k n ord ops None (i\<lparr>ii_iter2 := m2\<rparr>) = Some (None, i')"
        "isect_advanced n ops (set xs \<inter> set ys') (length xs + length ys') i'" using Suc.IH by blast
      have "isect_loop (Suc k) n ord ops None i = Some (None, i')"
        using right v e val m2(1) i'(1) less_not_sym [OF right(2)] by (simp add: isect_loop.simps Let_def same)
      moreover have "set xs \<inter> set ys = set xs \<inter> set ys'" using e nb by auto
      ultimately show ?thesis using isect_advanced_mono [OF i'(2), of "length xs + length ys"] e by auto
    next
      case tie
      define t where "t = lw_created_at a"
      let ?P = "\<lambda>x. lw_created_at x = t" and ?b = "map (\<lambda>x. (lw_loc x, x))"
      let ?S = "takeWhile ?P xs" and ?T = "takeWhile ?P ys" and ?X = "dropWhile ?P xs" and ?Y = "dropWhile ?P ys"
      have tb: "t = lw_created_at b" using tie t_def by simp
      note tx = newest_takeWhile [OF nf(1) [unfolded e(1)] t_def, folded e(1)] and ty = newest_takeWhile [OF nf(2) [unfolded e(2)] tb, folded e(2)]
      have le: "\<forall>x \<in> set xs. lw_created_at x \<le> t" "\<forall>y \<in> set ys. lw_created_at y \<le> t" using old e t_def tb by auto
      have dxs: "distinct (map fst ([] :: bucket) @ map lw_loc xs)" "distinct (map fst ([] :: bucket) @ map lw_loc ys)" using nf(3,4) by simp_all
      have del: "delivers n ops (ii_iter1 i) xs" "delivers n ops (ii_iter2 i) ys" "length xs < n" "length ys < n" using inv by simp_all
      obtain m1' where c1: "collect_timestamp_bucket n n ops None t [] (ii_iter1 i) = Some (Inr (?b ?S), m1')" "delivers n ops m1' ?X"
        using collect_bucket_ok [OF del(1,3) dxs(1), of t] by auto
      obtain m2' where c2: "collect_timestamp_bucket n n ops None t [] (ii_iter2 i) = Some (Inr (?b ?T), m2')" "delivers n ops m2' ?Y"
        using collect_bucket_ok [OF del(2,4) dxs(2), of t] by auto
      have split: "xs = ?S @ ?X" "ys = ?T @ ?Y" by simp_all
      have dS: "distinct (map lw_loc (?S @ ?X))" "distinct (map lw_loc (?T @ ?Y))" using nf(3,4) by simp_all
      then have d2: "distinct (map lw_loc ?S)" "distinct (map lw_loc ?T)" by (simp_all only: map_append distinct_append)
      define zs where "zs = bucket_intersection ord (?b ?S) (?b ?T)"
      have eqS: "\<forall>x \<in> set ?S. \<forall>y \<in> set ?T. lw_loc x = lw_loc y \<longrightarrow> x = y" using cons by (auto dest: set_takeWhileD)
      note z = bucket_intersection_ok [OF ord d2 eqS, folded zs_def]
      define i1 where "i1 = i\<lparr>ii_iter1 := m1', ii_iter2 := m2', ii_pending := zs\<rparr>"
      have nX: "newest_first ?X" "newest_first ?Y" using nf(1,2) split newest_append by metis+
      have zt: "\<forall>x \<in> set zs. lw_created_at x = t" using z(1) tx(1) by auto
      then have "newest_first zs" by (auto simp: newest_first_def sorted_wrt_iff_nth_less)
      then have nz: "newest_first (zs @ ?X)" "newest_first (zs @ ?Y)" using nX zt tx(2) ty(2) by (auto simp: newest_append)
      have dz: "distinct (map lw_loc (zs @ ?X))" "distinct (map lw_loc (zs @ ?Y))"
        using z(1,2) distinct_prefix_subset [OF dS(1), of zs] distinct_prefix_subset [OF dS(2), of zs] by simp_all
      have inv1: "isect_inv n ops i1 zs ?X ?Y" unfolding isect_inv_def
        using inv c1(2) c2(2) nz dz cons length_dropWhile_le [of ?P xs] length_dropWhile_le [of ?P ys]
        by (auto simp: i1_def dest: set_dropWhileD)
      have R: "set xs \<inter> set ys = set zs \<union> set ?X \<inter> set ?Y" unfolding z(1) tx ty using le by (auto simp: le_less)
      have len: "length zs + length ?X \<le> length xs" "length ?X < length xs" "length ?Y < length ys"
      proof -
        show "length zs + length ?X \<le> length xs" using z(3) arg_cong [OF split(1), of length] by (simp only: length_append)
        show "length ?X < length xs" "length ?Y < length ys" using e t_def tb length_dropWhile_le [of ?P xs'] length_dropWhile_le [of ?P ys'] by auto
      qed
      have ne: "?b ?S \<noteq> []" "?b ?T \<noteq> []" using e t_def tb by auto
      have pend: "ii_pending i = []" using inv by simp
      have step: "isect_loop (Suc k) n ord ops None i = (case emit_pending i1 of (True, i2) \<Rightarrow> Some (None, i2) | (False, i2) \<Rightarrow> isect_loop k n ord ops None i2)"
      proof -
        have up: "i\<lparr>ii_iter1 := m1', ii_iter2 := m2', ii_pending := ii_pending i @ bucket_intersection ord (?b ?S) (?b ?T)\<rparr> = i1"
          unfolding i1_def zs_def pend by simp
        have ct: "lw_created_at a = t" "lw_created_at b = t" using t_def tb by simp_all
        show ?thesis
          apply (subst isect_loop.simps)
          unfolding Let_def val same ct c1(1) c2(1) option.case prod.case sum.case up
          using v e tie ne by (simp del: takeWhile.simps)
      qed
      show ?thesis
      proof (cases zs)
        case Nil
        have "isect_inv n ops i1 [] ?X ?Y" using inv1 Nil by simp
        moreover have "length ?X + length ?Y < k" using len Suc.prems(2) by linarith
        ultimately obtain i' where i': "isect_loop k n ord ops None i1 = Some (None, i')" "isect_advanced n ops (set ?X \<inter> set ?Y) (length ?X + length ?Y) i'"
          using Suc.IH by blast
        have "emit_pending i1 = (False, i1)" using Nil by (simp add: emit_pending_def i1_def)
        then have "isect_loop (Suc k) n ord ops None i = Some (None, i')" using step i'(1) by simp
        moreover have "isect_advanced n ops (set xs \<inter> set ys) (length xs + length ys) i'"
          using isect_advanced_mono [OF i'(2), of "length xs + length ys"] len R Nil by simp
        ultimately show ?thesis by blast
      next
        case (Cons p ps)
        note em = emit_ok [OF inv1 [unfolded Cons]]
        have "isect_loop (Suc k) n ord ops None i = Some (None, i1\<lparr>ii_current := p, ii_pending := ps, ii_valid := True\<rparr>)" using step em(1) by simp
        moreover have "Suc (length ps) + length ?X + length ?Y \<le> length xs + length ys" using len Cons by simp
        ultimately show ?thesis using isect_advanced_mono [OF em(2)] R Cons by auto
      qed
    qed
  qed
qed simp

lemma isect_advance_ok:
  assumes ord: "\<And>b. mset (ord b) = mset b" and inv: "isect_inv n ops i ps xs ys"
  shows "\<exists>i'. isect_advance n ord ops None i = Some (None, i') \<and>
    isect_advanced n ops (set ps \<union> set xs \<inter> set ys) (length ps + length xs + length ys) i'"
proof -
  have c: "\<not> ii_closed i" "ii_pending i = ps" "length xs < n" "length ys < n" using inv by (simp_all add: isect_inv_def)
  show ?thesis
  proof (cases ps)
    case Nil
    have "length xs + length ys < 2 * n" using c by simp
    from isect_loop_ok [OF ord, OF inv [unfolded Nil] this] show ?thesis using c Nil by (simp add: isect_advance_def emit_pending_def)
  next
    case (Cons p ps')
    from emit_ok [OF inv [unfolded Cons]] show ?thesis using c Cons by (simp add: isect_advance_def)
  qed
qed

lemma isect_drain:
  assumes ord: "\<And>b. mset (ord b) = mset b" and inv: "isect_inv n ops i ps xs ys"
  shows "\<exists>i' zs. isect_advance n ord ops None i = Some (None, i') \<and> isect_delivers n ord ops i' zs \<and>
    newest_first zs \<and> distinct (map lw_loc zs) \<and> set zs = set ps \<union> set xs \<inter> set ys"
  using inv
proof (induction "length ps + length xs + length ys" arbitrary: i ps xs ys rule: less_induct)
  case less
  obtain i' ps' xs' ys' where a: "isect_advance n ord ops None i = Some (None, i')" "isect_inv n ops i' ps' xs' ys'"
    "ii_valid i' \<Longrightarrow> length ps' + length xs' + length ys' < length ps + length xs + length ys \<and>
      set ps \<union> set xs \<inter> set ys = insert (ii_current i') (set ps' \<union> set xs' \<inter> set ys') \<and>
      (\<forall>x \<in> set ps' \<union> set xs' \<inter> set ys'. lw_loc x \<noteq> lw_loc (ii_current i') \<and> lw_created_at x \<le> lw_created_at (ii_current i'))"
    "\<not> ii_valid i' \<Longrightarrow> set ps \<union> set xs \<inter> set ys = {}"
    using isect_advance_ok [OF ord less.prems] unfolding isect_advanced_def by (auto split: if_splits)
  have cl: "\<not> ii_closed i'" using a(2) by (simp add: isect_inv_def)
  show ?case
  proof (cases "ii_valid i'")
    case True
    note v = a(3) [OF True]
    from less.hyps [OF _ a(2)] v obtain i2 zs where z: "isect_advance n ord ops None i' = Some (None, i2)" "isect_delivers n ord ops i2 zs"
      "newest_first zs" "distinct (map lw_loc zs)" "set zs = set ps' \<union> set xs' \<inter> set ys'" by blast
    have iv: "ii_is_valid i'" "ii_value i' = ii_current i'" using True cl by (simp_all add: ii_is_valid_def ii_value_def)
    have "isect_delivers n ord ops i' (ii_current i' # zs)" using isect_step [of i' n ord ops i2 zs] iv z(1,2) by simp
    moreover have "newest_first (ii_current i' # zs)" "distinct (map lw_loc (ii_current i' # zs))" "set (ii_current i' # zs) = set ps \<union> set xs \<inter> set ys"
      using z(3-5) v by (auto simp: newest_first_def)
    ultimately show ?thesis using a(1) by blast
  next
    case False
    then have "isect_delivers n ord ops i' []" by (intro isect_end) (simp add: ii_is_valid_def)
    then show ?thesis using a(1) a(4) [OF False] by (intro exI [of _ i'] exI [of _ "[]"]) (simp add: newest_first_def)
  qed
qed

end
