(* ===== verification/Executor.thy ===== *)
theory Executor
  imports Intersection_Iterator
begin

text \<open>
  The executor over real location iterators: \<open>getPrimaryIndexResults\<close>, \<open>getLocationIterator\<close>, \<open>ExecutePlan\<close> and \<open>CountPlan\<close>
  of \<open>src/query/executor.go\<close>, its \<open>lazyEventIterator\<close> and \<open>resultIteratorImpl\<close>, and \<open>Query\<close>, \<open>QueryEvents\<close> and \<open>Count\<close> of
  \<open>src/query/engine.go\<close>. The record \<open>executor\<close> holds what an executor was made with: the indexes of the manager (absent where the
  manager returns nil), the store's \<open>ReadEvent\<close>, and the parameters of the model: the fuel of the loops, the operations of the index iterators and
  the order in which Go visits a map. After \<open>Close\<close> no operation reads the location iterator, so it is kept where the code sets nil.

  Result: whatever locations an iterator delivers before it ends or fails, the lazy iterator read to its end gives the readable, undeleted
  and matching events at them, in their order, cut at the limit (\<open>lazy_result_spec\<close>), and the loops of \<open>CountPlan\<close> count them up to their bounds.
\<close>

section \<open>Location iterators\<close>

datatype 'i location_iter =
    SortedIter "location_with_time list" nat
  | MergeIter "'i merge_iter"
  | IntersectIter "'i isect_iter"

record 'i executor =
  ex_fuel :: nat
  ex_ord :: "bucket \<Rightarrow> bucket"
  ex_ops :: "'i iter_ops"
  ex_read :: "location \<Rightarrow> event result"
  ex_match :: "event \<Rightarrow> query_filter \<Rightarrow> bool"
  ex_codes :: "(bytes \<times> search_type) list"
  ex_primary :: "(go_error option \<Rightarrow> bytes \<Rightarrow> (location \<times> bool) result) option"
  ex_author_time :: "(go_error option \<Rightarrow> bytes \<Rightarrow> bytes \<Rightarrow> 'i result) option"
  ex_search :: "(go_error option \<Rightarrow> bytes \<Rightarrow> bytes \<Rightarrow> 'i result) option"
  ex_kind_time :: "(go_error option \<Rightarrow> bytes \<Rightarrow> bytes \<Rightarrow> 'i result) option"

fun loc_valid :: "'i location_iter \<Rightarrow> bool" where
  "loc_valid (SortedIter ls k) \<longleftrightarrow> k < length ls"
| "loc_valid (MergeIter m) \<longleftrightarrow> mi_is_valid m"
| "loc_valid (IntersectIter i) \<longleftrightarrow> ii_is_valid i"

fun loc_value :: "'i location_iter \<Rightarrow> location_with_time" where
  "loc_value (SortedIter ls k) = (if k < length ls then ls ! k else zero_lwt)"
| "loc_value (MergeIter m) = mi_value m"
| "loc_value (IntersectIter i) = ii_value i"

fun loc_next :: "'i executor \<Rightarrow> go_error option \<Rightarrow> 'i location_iter \<Rightarrow> (go_error option \<times> 'i location_iter) option" where
  "loc_next ex ctx (SortedIter ls k) = Some (None, SortedIter ls (if k < length ls then k + 1 else k))"
| "loc_next ex ctx (MergeIter m) = map_option (\<lambda>(e, m'). (e, MergeIter m')) (merge_next (ex_fuel ex) (ex_ops ex) ctx m)"
| "loc_next ex ctx (IntersectIter i) = map_option (\<lambda>(e, i'). (e, IntersectIter i')) (isect_advance (ex_fuel ex) (ex_ord ex) (ex_ops ex) ctx i)"

fun loc_close :: "'i location_iter \<Rightarrow> 'i location_iter" where
  "loc_close (SortedIter ls k) = SortedIter [] k"
| "loc_close (MergeIter m) = MergeIter (merge_close m)"
| "loc_close (IntersectIter i) = IntersectIter (isect_close i)"

text \<open>The results of the constructors, as iterators of the interface type.\<close>

definition located :: "('a \<Rightarrow> 'i location_iter) \<Rightarrow> 'a result option \<Rightarrow> 'i location_iter result option" where
  "located f r = map_option (\<lambda>x. case x of Inl e \<Rightarrow> Inl e | Inr a \<Rightarrow> Inr (f a)) r"

definition get_primary_index_results :: "'i executor \<Rightarrow> go_error option \<Rightarrow> plan \<Rightarrow> location list result" where
  "get_primary_index_results ex ctx p =
     (case ex_primary ex of
        None \<Rightarrow> Inl (Err ''primary index not available'')
      | Some get \<Rightarrow> (case get ctx (start_key p) of Inl _ \<Rightarrow> Inr [] | Inr (loc, ok) \<Rightarrow> Inr (if ok then [loc] else [])))"

definition get_location_iterator :: "'i executor \<Rightarrow> go_error option \<Rightarrow> plan \<Rightarrow> 'i location_iter result option" where
  "get_location_iterator ex ctx p =
     (let f = plan_filter p; mk = new_merge_location_iterator (ex_fuel ex) (ex_ops ex) ctx
      in if strategy p = ''author_time''
         then (case ex_author_time ex of
                 None \<Rightarrow> Some (Inl (Err ''author_time index not available''))
               | Some rd \<Rightarrow> located MergeIter (mk (rd ctx) (build_author_time_ranges f)))
         else if strategy p = ''search''
         then (case ex_search ex of
                 None \<Rightarrow> Some (Inl (Err ''search index not available''))
               | Some rd \<Rightarrow> located MergeIter (mk (rd ctx) (build_search_ranges (ex_codes ex) f)))
         else if strategy p = ''kind_time''
         then (case ex_kind_time ex of
                 None \<Rightarrow> Some (Inl (Err ''kind_time index not available''))
               | Some rd \<Rightarrow> located MergeIter (mk (rd ctx) (build_kind_time_ranges f)))
         else if strategy p = ''intersection''
         then (case ex_author_time ex of
                 None \<Rightarrow> Some (Inl (Err ''author_time index not available''))
               | Some rd1 \<Rightarrow>
                   (case ex_search ex of
                      None \<Rightarrow> Some (Inl (Err ''search index not available''))
                    | Some rd2 \<Rightarrow> located IntersectIter (new_intersection_location_iterator (ex_fuel ex) (ex_ord ex) (ex_ops ex) ctx
                        (rd1 ctx) (build_author_time_ranges f) (rd2 ctx) (build_search_ranges (ex_codes ex) f))))
         else Some (Inl (Err (''strategy '' @ strategy p @ '' does not support location iterator''))))"

section \<open>Result iterators\<close>

record 'i lazy_event_iter =
  le_location_iter :: "'i location_iter"
  le_filter :: query_filter
  le_fully_indexed :: bool
  le_indexes_used :: "string list"
  le_current :: "event option"
  le_is_valid :: bool
  le_closed :: bool
  le_result_count :: int
  le_emitted_count :: int

fun le_advance :: "nat \<Rightarrow> 'i executor \<Rightarrow> go_error option \<Rightarrow> 'i lazy_event_iter \<Rightarrow> (go_error option \<times> 'i lazy_event_iter) option" where
  "le_advance 0 ex ctx it = None"
| "le_advance (Suc k) ex ctx it =
     (let skip = (case loc_next ex ctx (le_location_iter it) of
          None \<Rightarrow> None
        | Some (Some _, li) \<Rightarrow> Some (None, it\<lparr>le_location_iter := li, le_is_valid := False\<rparr>)
        | Some (None, li) \<Rightarrow> le_advance k ex ctx (it\<lparr>le_location_iter := li\<rparr>))
      in if \<not> loc_valid (le_location_iter it) then Some (None, it\<lparr>le_is_valid := False\<rparr>)
         else if ctx \<noteq> None then Some (ctx, it\<lparr>le_is_valid := False\<rparr>)
         else if limit (le_filter it) > 0 \<and> le_result_count it \<ge> limit (le_filter it) then Some (None, it\<lparr>le_is_valid := False\<rparr>)
         else case ex_read ex (lw_loc (loc_value (le_location_iter it))) of
           Inl _ \<Rightarrow> skip
         | Inr ev \<Rightarrow>
             if is_deleted (ev_flags ev) then skip
             else if \<not> le_fully_indexed it \<and> \<not> ex_match ex ev (le_filter it) then skip
             else Some (None, it\<lparr>le_current := Some ev, le_is_valid := True, le_result_count := le_result_count it + 1\<rparr>))"

declare le_advance.simps [simp del]

definition new_lazy_iterator :: "'i executor \<Rightarrow> go_error option \<Rightarrow> 'i location_iter \<Rightarrow> query_filter \<Rightarrow> bool \<Rightarrow> string list \<Rightarrow> 'i lazy_event_iter result option" where
  "new_lazy_iterator ex ctx li f fi used =
     (case le_advance (ex_fuel ex) ex ctx \<lparr>le_location_iter = li, le_filter = f, le_fully_indexed = fi, le_indexes_used = used, le_current = None,
          le_is_valid = False, le_closed = False, le_result_count = 0, le_emitted_count = 0\<rparr> of
        None \<Rightarrow> None
      | Some (Some e, _) \<Rightarrow> Some (Inl e)
      | Some (None, it) \<Rightarrow> Some (Inr it))"

definition le_next :: "'i executor \<Rightarrow> go_error option \<Rightarrow> 'i lazy_event_iter \<Rightarrow> (go_error option \<times> 'i lazy_event_iter) option" where
  "le_next ex ctx it =
     (if le_closed it then Some (Some (Err ''iterator is closed''), it)
      else if le_is_valid it
      then (case loc_next ex ctx (le_location_iter it) of
              None \<Rightarrow> None
            | Some (Some _, li) \<Rightarrow> Some (None, it\<lparr>le_emitted_count := le_emitted_count it + 1, le_location_iter := li, le_is_valid := False\<rparr>)
            | Some (None, li) \<Rightarrow> le_advance (ex_fuel ex) ex ctx (it\<lparr>le_emitted_count := le_emitted_count it + 1, le_location_iter := li\<rparr>))
      else le_advance (ex_fuel ex) ex ctx it)"

definition le_close :: "'i lazy_event_iter \<Rightarrow> 'i lazy_event_iter" where
  "le_close it = (if le_closed it then it
     else it\<lparr>le_closed := True, le_is_valid := False, le_current := None, le_location_iter := loc_close (le_location_iter it)\<rparr>)"

definition le_valid :: "'i lazy_event_iter \<Rightarrow> bool" where
  "le_valid it \<longleftrightarrow> le_is_valid it \<and> \<not> le_closed it"

definition le_event :: "'i lazy_event_iter \<Rightarrow> event option" where
  "le_event it = (if \<not> le_valid it then None else le_current it)"

record eager_iter =
  ei_events :: "event list"
  ei_index :: nat
  ei_count :: int
  ei_indexes_used :: "string list"

datatype 'i result_iter = EagerResult eager_iter | LazyResult "'i lazy_event_iter"

fun ri_valid :: "'i result_iter \<Rightarrow> bool" where
  "ri_valid (EagerResult r) \<longleftrightarrow> ei_index r < length (ei_events r)"
| "ri_valid (LazyResult it) \<longleftrightarrow> le_valid it"

fun ri_event :: "'i result_iter \<Rightarrow> event option" where
  "ri_event (EagerResult r) = (if ei_index r < length (ei_events r) then Some (ei_events r ! ei_index r) else None)"
| "ri_event (LazyResult it) = le_event it"

fun ri_next :: "'i executor \<Rightarrow> go_error option \<Rightarrow> 'i result_iter \<Rightarrow> (go_error option \<times> 'i result_iter) option" where
  "ri_next ex ctx (EagerResult r) =
     Some (None, EagerResult (if ei_index r < length (ei_events r) then r\<lparr>ei_index := ei_index r + 1, ei_count := ei_count r + 1\<rparr> else r))"
| "ri_next ex ctx (LazyResult it) = map_option (\<lambda>(e, it'). (e, LazyResult it')) (le_next ex ctx it)"

fun ri_close :: "'i result_iter \<Rightarrow> 'i result_iter" where
  "ri_close (EagerResult r) = EagerResult r"
| "ri_close (LazyResult it) = LazyResult (le_close it)"

fun ri_count :: "'i result_iter \<Rightarrow> int" where
  "ri_count (EagerResult r) = ei_count r"
| "ri_count (LazyResult it) = le_emitted_count it"

section \<open>Plans\<close>

definition streaming :: "plan \<Rightarrow> bool" where
  "streaming p \<longleftrightarrow> strategy p = ''author_time'' \<or> strategy p = ''search'' \<or> strategy p = ''kind_time'' \<or> strategy p = ''intersection''"

definition execute_plan :: "'i executor \<Rightarrow> go_error option \<Rightarrow> plan \<Rightarrow> 'i result_iter result option" where
  "execute_plan ex ctx p =
     (if strategy p = ''primary''
      then (case get_primary_index_results ex ctx p of
              Inl e \<Rightarrow> Some (Inl e)
            | Inr locs \<Rightarrow>
                let results = concat (map (\<lambda>loc. case ex_read ex loc of
                      Inl _ \<Rightarrow> []
                    | Inr ev \<Rightarrow> if is_deleted (ev_flags ev) then [] else if \<not> fully_indexed p \<and> \<not> ex_match ex ev (plan_filter p) then [] else [ev]) locs)
                in Some (Inr (EagerResult \<lparr>ei_events = results, ei_index = 0, ei_count = 0, ei_indexes_used = [''primary'']\<rparr>)))
      else if streaming p
      then (case get_location_iterator ex ctx p of
              None \<Rightarrow> None
            | Some (Inl e) \<Rightarrow> Some (Inl e)
            | Some (Inr li) \<Rightarrow> map_option (\<lambda>r. case r of Inl e \<Rightarrow> Inl e | Inr it \<Rightarrow> Inr (LazyResult it))
                (new_lazy_iterator ex ctx li (plan_filter p) (fully_indexed p) [strategy p]))
      else if strategy p = ''scan''
      then Some (Inr (EagerResult \<lparr>ei_events = [], ei_index = 0, ei_count = 0, ei_indexes_used = []\<rparr>))
      else Some (Inl (Err (''unknown strategy: '' @ strategy p))))"

text \<open>The two loops of \<open>CountPlan\<close>; an error of the iterator ends them.\<close>

fun count_indexed_loop :: "nat \<Rightarrow> 'i executor \<Rightarrow> go_error option \<Rightarrow> 'i location_iter \<Rightarrow> int \<Rightarrow> int option" where
  "count_indexed_loop 0 ex ctx li cnt = None"
| "count_indexed_loop (Suc k) ex ctx li cnt =
     (if \<not> loc_valid li then Some cnt
      else if cnt + 1 \<ge> 100000 then Some (cnt + 1)
      else case loc_next ex ctx li of
        None \<Rightarrow> None
      | Some (Some _, _) \<Rightarrow> Some (cnt + 1)
      | Some (None, li') \<Rightarrow> count_indexed_loop k ex ctx li' (cnt + 1))"

fun count_filtered_loop :: "nat \<Rightarrow> 'i executor \<Rightarrow> go_error option \<Rightarrow> query_filter \<Rightarrow> 'i location_iter \<Rightarrow> int \<Rightarrow> int \<Rightarrow> int option" where
  "count_filtered_loop 0 ex ctx f li traversed cnt = None"
| "count_filtered_loop (Suc k) ex ctx f li traversed cnt =
     (if \<not> loc_valid li then Some cnt
      else if traversed + 1 > 10000 then Some cnt
      else let cnt' = (case ex_read ex (lw_loc (loc_value li)) of
               Inl _ \<Rightarrow> cnt
             | Inr ev \<Rightarrow> if is_deleted (ev_flags ev) then cnt else if \<not> ex_match ex ev f then cnt else cnt + 1)
        in case loc_next ex ctx li of
             None \<Rightarrow> None
           | Some (Some _, _) \<Rightarrow> Some cnt'
           | Some (None, li') \<Rightarrow> count_filtered_loop k ex ctx f li' (traversed + 1) cnt')"

definition count_plan :: "'i executor \<Rightarrow> go_error option \<Rightarrow> plan \<Rightarrow> int result option" where
  "count_plan ex ctx p =
     (if strategy p = ''primary''
      then Some (case get_primary_index_results ex ctx p of Inl e \<Rightarrow> Inl e | Inr locs \<Rightarrow> Inr (int (length locs)))
      else if streaming p
      then (case get_location_iterator ex ctx p of
              None \<Rightarrow> None
            | Some (Inl e) \<Rightarrow> Some (Inl e)
            | Some (Inr li) \<Rightarrow> map_option Inr
                (if fully_indexed p then count_indexed_loop (ex_fuel ex) ex ctx li 0
                 else count_filtered_loop (ex_fuel ex) ex ctx (plan_filter p) li 0 0))
      else if strategy p = ''scan'' then Some (Inr 0)
      else Some (Inl (Err (''unknown strategy: '' @ strategy p))))"

section \<open>The engine\<close>

definition engine_query :: "'i executor \<Rightarrow> u16 list option \<Rightarrow> go_error option \<Rightarrow> query_filter option \<Rightarrow> 'i result_iter result option" where
  "engine_query ex defaults ctx fo =
     (case compile_plan (ex_codes ex) defaults fo of
        Inl e \<Rightarrow> Some (Inl (wrap_error ''compile query'' e))
      | Inr p \<Rightarrow> map_option (\<lambda>r. case r of Inl e \<Rightarrow> Inl (wrap_error ''execute plan'' e) | Inr it \<Rightarrow> Inr it) (execute_plan ex ctx p))"

fun result_loop :: "nat \<Rightarrow> 'i executor \<Rightarrow> go_error option \<Rightarrow> 'i result_iter \<Rightarrow> event list \<Rightarrow> event list result option" where
  "result_loop 0 ex ctx it events = None"
| "result_loop (Suc k) ex ctx it events =
     (if \<not> ri_valid it then Some (Inr events)
      else let events' = (case ri_event it of None \<Rightarrow> events | Some e \<Rightarrow> events @ [e])
        in case ri_next ex ctx it of
             None \<Rightarrow> None
           | Some (Some e, _) \<Rightarrow> Some (Inl (wrap_error ''iterate results'' e))
           | Some (None, it') \<Rightarrow> result_loop k ex ctx it' events')"

definition engine_query_events :: "'i executor \<Rightarrow> u16 list option \<Rightarrow> go_error option \<Rightarrow> query_filter option \<Rightarrow> event list result option" where
  "engine_query_events ex defaults ctx fo =
     (case engine_query ex defaults ctx fo of
        None \<Rightarrow> None
      | Some (Inl e) \<Rightarrow> Some (Inl e)
      | Some (Inr it) \<Rightarrow> result_loop (ex_fuel ex) ex ctx it [])"

definition engine_count :: "'i executor \<Rightarrow> u16 list option \<Rightarrow> go_error option \<Rightarrow> query_filter option \<Rightarrow> int result option" where
  "engine_count ex defaults ctx fo =
     (case compile_plan (ex_codes ex) defaults fo of
        Inl e \<Rightarrow> Some (Inl (wrap_error ''compile query'' e))
      | Inr p \<Rightarrow> map_option (\<lambda>r. case r of Inl e \<Rightarrow> Inl (wrap_error ''count plan'' e) | Inr c \<Rightarrow> Inr c) (count_plan ex ctx p))"

section \<open>Streams\<close>

text \<open>The locations that an iterator delivers until it ends, or until an advance fails.\<close>

inductive streams :: "'i executor \<Rightarrow> 'i location_iter \<Rightarrow> location_with_time list \<Rightarrow> bool" for ex where
  streams_end: "\<not> loc_valid li \<Longrightarrow> streams ex li []"
| streams_fail: "loc_valid li \<Longrightarrow> loc_next ex None li = Some (Some e, li') \<Longrightarrow> streams ex li [loc_value li]"
| streams_step: "loc_valid li \<Longrightarrow> loc_next ex None li = Some (None, li') \<Longrightarrow> streams ex li' xs \<Longrightarrow> streams ex li (loc_value li # xs)"

inductive_cases streams_cases: "streams ex li xs"

lemma streams_merge: "delivers (ex_fuel ex) (ex_ops ex) m xs \<Longrightarrow> streams ex (MergeIter m) xs"
proof (induction rule: delivers.induct)
  case (delivers_step m m' xs)
  then show ?case using streams_step [of "MergeIter m" ex "MergeIter m'" xs] by simp
qed (simp add: streams_end)

lemma streams_intersect: "isect_delivers (ex_fuel ex) (ex_ord ex) (ex_ops ex) i xs \<Longrightarrow> streams ex (IntersectIter i) xs"
proof (induction rule: isect_delivers.induct)
  case (isect_step i i' xs)
  then show ?case using streams_step [of "IntersectIter i" ex "IntersectIter i'" xs] by simp
qed (simp add: streams_end)

lemma streams_sorted: "streams ex (SortedIter ls k) (drop k ls)"
proof (induction "length ls - k" arbitrary: k)
  case (Suc d)
  then have k: "k < length ls" by simp
  have "streams ex (SortedIter ls (Suc k)) (drop (Suc k) ls)" using Suc by (intro Suc.hyps) simp
  moreover have "drop k ls = ls ! k # drop (Suc k) ls" using k by (simp add: Cons_nth_drop_Suc)
  ultimately show ?case using streams_step [of "SortedIter ls k" ex "SortedIter ls (Suc k)"] k by simp
qed (simp add: streams_end)

lemma streams_Nil: "streams ex li [] \<Longrightarrow> \<not> loc_valid li"
  by (auto elim: streams_cases)

lemma streams_Cons:
  assumes "streams ex li (x # xs)"
  obtains (step) li' where "loc_valid li" "loc_value li = x" "loc_next ex None li = Some (None, li')" "streams ex li' xs"
    | (fail) e li' where "loc_valid li" "loc_value li = x" "loc_next ex None li = Some (Some e, li')" "xs = []"
  using assms by (auto elim: streams_cases)

section \<open>What a query may deliver\<close>

text \<open>The events at a list of locations that a query may deliver, in order, and the cut at the limit.\<close>

definition deliverable :: "(event \<Rightarrow> query_filter \<Rightarrow> bool) \<Rightarrow> (location \<Rightarrow> event result) \<Rightarrow> query_filter \<Rightarrow> bool \<Rightarrow> location list \<Rightarrow> event list" where
  "deliverable mt rd f fi locs =
     concat (map (\<lambda>l. case rd l of Inl _ \<Rightarrow> []
       | Inr e \<Rightarrow> if \<not> is_deleted (ev_flags e) \<and> (fi \<or> mt e f) then [e] else []) locs)"

definition cut :: "int \<Rightarrow> 'a list \<Rightarrow> 'a list" where
  "cut lim xs = (if lim > 0 then take (nat lim) xs else xs)"

text \<open>A count is bounded: a fully indexed plan counts 100000 locations at most, any other reads 10000.\<close>

definition counted :: "(event \<Rightarrow> query_filter \<Rightarrow> bool) \<Rightarrow> (location \<Rightarrow> event result) \<Rightarrow> query_filter \<Rightarrow> bool \<Rightarrow> location list \<Rightarrow> int" where
  "counted mt rd f fi locs = (if fi then min 100000 (int (length locs)) else int (length (deliverable mt rd f False (take 10000 locs))))"

lemma deliverable_simps [simp]:
  "deliverable mt rd f fi [] = []"
  "deliverable mt rd f fi (l # ls) = (case rd l of Inl _ \<Rightarrow> []
       | Inr e \<Rightarrow> if \<not> is_deleted (ev_flags e) \<and> (fi \<or> mt e f) then [e] else []) @ deliverable mt rd f fi ls"
  by (simp_all add: deliverable_def)

section \<open>The lazy iterator\<close>

text \<open>The iterator holds an event and, behind its location, the locations still to come.\<close>

definition le_holds :: "'i executor \<Rightarrow> 'i lazy_event_iter \<Rightarrow> event \<Rightarrow> location_with_time list \<Rightarrow> bool" where
  "le_holds ex it e ys \<longleftrightarrow> le_is_valid it \<and> le_current it = Some e \<and> (\<exists>y. streams ex (le_location_iter it) (y # ys))"

definition le_frame :: "'i lazy_event_iter \<Rightarrow> 'i lazy_event_iter \<Rightarrow> bool" where
  "le_frame it it' \<longleftrightarrow> le_filter it' = le_filter it \<and> le_fully_indexed it' = le_fully_indexed it \<and> le_closed it' = le_closed it"

definition le_after :: "'i executor \<Rightarrow> 'i lazy_event_iter \<Rightarrow> location_with_time list \<Rightarrow> 'i lazy_event_iter \<Rightarrow> bool" where
  "le_after ex it xs it' \<longleftrightarrow> le_frame it it' \<and>
     (let d = \<lambda>xs. deliverable (ex_match ex) (ex_read ex) (le_filter it) (le_fully_indexed it) (map lw_loc xs)
      in if d xs = [] \<or> limit (le_filter it) > 0 \<and> le_result_count it \<ge> limit (le_filter it) then \<not> le_is_valid it'
         else \<exists>ys. le_holds ex it' (hd (d xs)) ys \<and> d ys = tl (d xs) \<and> length ys < length xs \<and> le_result_count it' = le_result_count it + 1)"

lemma le_after_frame [simp]:
  "le_after ex (it\<lparr>le_location_iter := li\<rparr>) xs it' = le_after ex it xs it'"
  "le_after ex (it\<lparr>le_emitted_count := c\<rparr>) xs it' = le_after ex it xs it'"
  by (simp_all add: le_after_def le_frame_def)

lemma le_advance_ok:
  assumes "streams ex (le_location_iter it) xs" "length xs < k"
  shows "\<exists>it'. le_advance k ex None it = Some (None, it') \<and> le_after ex it xs it'"
  using assms
proof (induction k arbitrary: it xs)
  case (Suc k)
  let ?d = "\<lambda>xs. deliverable (ex_match ex) (ex_read ex) (le_filter it) (le_fully_indexed it) (map lw_loc xs)"
  show ?case
  proof (cases xs)
    case Nil
    then have "\<not> loc_valid (le_location_iter it)" using Suc.prems(1) streams_Nil by blast
    then show ?thesis using Nil by (simp add: le_advance.simps le_after_def le_frame_def Let_def)
  next
    case (Cons x zs)
    have v: "loc_valid (le_location_iter it)" "loc_value (le_location_iter it) = x" using Suc.prems(1) Cons by (auto elim: streams_Cons)
    show ?thesis
    proof (cases "limit (le_filter it) > 0 \<and> le_result_count it \<ge> limit (le_filter it)")
      case True
      then show ?thesis using v by (simp add: le_advance.simps le_after_def le_frame_def Let_def)
    next
      case nolim: False
      have adv: "le_advance (Suc k) ex None it =
          (case ?d [x] of
             [] \<Rightarrow> (case loc_next ex None (le_location_iter it) of
                None \<Rightarrow> None
              | Some (Some _, li) \<Rightarrow> Some (None, it\<lparr>le_location_iter := li, le_is_valid := False\<rparr>)
              | Some (None, li) \<Rightarrow> le_advance k ex None (it\<lparr>le_location_iter := li\<rparr>))
           | ev # _ \<Rightarrow> Some (None, it\<lparr>le_current := Some ev, le_is_valid := True, le_result_count := le_result_count it + 1\<rparr>))"
        using v nolim by (auto simp: le_advance.simps Let_def split: sum.split)
      show ?thesis
      proof (cases "?d [x]")
        case (Cons ev es)
        then have d: "?d xs = ev # ?d zs" using \<open>xs = x # zs\<close> by (auto split: sum.splits if_splits)
        let ?it = "it\<lparr>le_current := Some ev, le_is_valid := True, le_result_count := le_result_count it + 1\<rparr>"
        have "le_holds ex ?it ev zs" using Suc.prems(1) \<open>xs = x # zs\<close> by (auto simp: le_holds_def)
        then have "le_after ex it xs ?it" unfolding le_after_def Let_def d using nolim \<open>xs = x # zs\<close> by (auto simp: le_frame_def)
        then show ?thesis using adv Cons by auto
      next
        case Nil
        then have dz: "?d xs = ?d zs" using Cons by simp
        have mono: "le_after ex it xs it'" if "le_after ex it zs it'" for it'
          using that Cons unfolding le_after_def Let_def dz by (auto intro: less_SucI split: if_splits)
        from Suc.prems(1) [unfolded Cons] show ?thesis
        proof (cases rule: streams_Cons)
          case (step li')
          then show ?thesis using Suc.IH [of "it\<lparr>le_location_iter := li'\<rparr>" zs] Suc.prems(2) Cons mono adv Nil by auto
        next
          case (fail e li')
          have "le_after ex it zs (it\<lparr>le_location_iter := li', le_is_valid := False\<rparr>)" using fail(4) by (simp add: le_after_def le_frame_def)
          then show ?thesis using adv Nil fail(3) mono by auto
        qed
      qed
    qed
  qed
qed simp

lemma result_loop_ok:
  fixes ex :: "'i executor" and it :: "'i lazy_event_iter"
  defines "d \<equiv> \<lambda>xs. deliverable (ex_match ex) (ex_read ex) (le_filter it) (le_fully_indexed it) (map lw_loc xs)"
  assumes "le_holds ex it e ys" "\<not> le_closed it" "limit (le_filter it) > 0 \<longrightarrow> le_result_count it \<le> limit (le_filter it)"
    "Suc (length ys) < k" "length ys < ex_fuel ex"
  shows "result_loop k ex None (LazyResult it) acc = Some (Inr (acc @ e #
    (if limit (le_filter it) > 0 then take (nat (limit (le_filter it) - le_result_count it)) (d ys) else d ys)))"
  using assms(2-) unfolding d_def
proof (induction k arbitrary: it e ys acc)
  case (Suc k)
  let ?f = "le_filter it" and ?d = "\<lambda>xs. deliverable (ex_match ex) (ex_read ex) (le_filter it) (le_fully_indexed it) (map lw_loc xs)"
  obtain y where it: "le_is_valid it" "le_current it = Some e" "streams ex (le_location_iter it) (y # ys)" using Suc.prems(1) by (auto simp: le_holds_def)
  have loop: "result_loop (Suc k) ex None (LazyResult it) acc =
      (case le_next ex None it of None \<Rightarrow> None | Some (Some e, _) \<Rightarrow> Some (Inl (wrap_error ''iterate results'' e))
       | Some (None, it') \<Rightarrow> result_loop k ex None (LazyResult it') (acc @ [e]))"
    using it(1,2) Suc.prems(2) by (auto simp: le_valid_def le_event_def split: option.split)
  obtain k' where k: "k = Suc k'" using Suc.prems(4) by (cases k) auto
  have stop: "result_loop k ex None (LazyResult it') (acc @ [e]) = Some (Inr (acc @ [e]))" if "\<not> le_is_valid it'" for it'
    using that by (simp add: k le_valid_def)
  from it(3) show ?case
  proof (cases rule: streams_Cons)
    case (step li')
    let ?it = "it\<lparr>le_emitted_count := le_emitted_count it + 1, le_location_iter := li'\<rparr>"
    obtain it' where a: "le_advance (ex_fuel ex) ex None ?it = Some (None, it')" "le_after ex it ys it'"
      using le_advance_ok [of ex ?it ys "ex_fuel ex"] step(4) Suc.prems(5) by auto
    have fr: "le_frame it it'" using a(2) by (simp add: le_after_def)
    have nx: "le_next ex None it = Some (None, it')" using it(1) Suc.prems(2) step(3) a(1) by (simp add: le_next_def)
    show ?thesis
    proof (cases "?d ys = [] \<or> limit ?f > 0 \<and> le_result_count it \<ge> limit ?f")
      case True
      then have "\<not> le_is_valid it'" using a(2) by (auto simp: le_after_def Let_def)
      then show ?thesis using loop nx stop True by auto
    next
      case False
      then obtain zs where z: "le_holds ex it' (hd (?d ys)) zs" "?d zs = tl (?d ys)" "length zs < length ys" "le_result_count it' = le_result_count it + 1"
        using a(2) unfolding le_after_def Let_def by auto
      have f: "le_filter it' = ?f" "le_fully_indexed it' = le_fully_indexed it" "\<not> le_closed it'" using fr Suc.prems(2) by (simp_all add: le_frame_def)
      obtain e' es where es: "?d ys = e' # es" using False by (cases "?d ys") auto
      have "result_loop k ex None (LazyResult it') (acc @ [e]) = Some (Inr ((acc @ [e]) @ e' # (if limit ?f > 0 then take (nat (limit ?f - le_result_count it - 1)) es else es)))"
      proof -
        have lim: "limit (le_filter it') > 0 \<longrightarrow> le_result_count it' \<le> limit (le_filter it')" using False f(1) z(4) by auto
        show ?thesis using Suc.IH [OF z(1) f(3) lim, of "acc @ [e]"] f z es Suc.prems(4,5) by (simp add: diff_diff_eq)
      qed
      moreover have "nat (limit ?f - le_result_count it) = Suc (nat (limit ?f - le_result_count it - 1))" if "limit ?f > 0" using False that by auto
      ultimately show ?thesis using loop nx es by simp
    qed
  next
    case (fail e1 li')
    then have "\<exists>it'. le_next ex None it = Some (None, it') \<and> \<not> le_is_valid it'" using it(1) Suc.prems(2) by (simp add: le_next_def)
    then show ?thesis using loop stop fail(4) by auto
  qed
qed simp

text \<open>A stream of locations, drained through the lazy iterator.\<close>

lemma lazy_stream:
  assumes "streams ex li xs" "length xs < ex_fuel ex"
  shows "\<exists>it. new_lazy_iterator ex None li f fi used = Some (Inr it) \<and>
    result_loop (ex_fuel ex) ex None (LazyResult it) [] = Some (Inr (cut (limit f) (deliverable (ex_match ex) (ex_read ex) f fi (map lw_loc xs))))"
proof -
  let ?it = "\<lparr>le_location_iter = li, le_filter = f, le_fully_indexed = fi, le_indexes_used = used, le_current = None,
          le_is_valid = False, le_closed = False, le_result_count = 0, le_emitted_count = 0\<rparr>"
  let ?d = "\<lambda>xs. deliverable (ex_match ex) (ex_read ex) f fi (map lw_loc xs)"
  obtain it' where a: "le_advance (ex_fuel ex) ex None ?it = Some (None, it')" "le_after ex ?it xs it'"
    using le_advance_ok [of ex ?it xs "ex_fuel ex"] assms by auto
  have nw: "new_lazy_iterator ex None li f fi used = Some (Inr it')" using a(1) by (simp add: new_lazy_iterator_def)
  obtain n where n: "ex_fuel ex = Suc n" using assms(2) by (cases "ex_fuel ex") auto
  show ?thesis
  proof (cases "?d xs")
    case Nil
    then have "\<not> le_is_valid it'" using a(2) by (simp add: le_after_def)
    then show ?thesis using nw n Nil by (simp add: cut_def le_valid_def)
  next
    case (Cons e es)
    then obtain ys where y: "le_holds ex it' e ys" "?d ys = es" "length ys < length xs" "le_result_count it' = 1" using a(2) by (auto simp: le_after_def Let_def split: if_splits)
    have f: "le_filter it' = f" "le_fully_indexed it' = fi" "\<not> le_closed it'" using a(2) by (simp_all add: le_after_def le_frame_def)
    have "result_loop (ex_fuel ex) ex None (LazyResult it') [] = Some (Inr ([] @ e # (if limit f > 0 then take (nat (limit f - 1)) es else es)))"
      using result_loop_ok [OF y(1), of "ex_fuel ex" "[]"] f y assms(2) by (auto split: if_splits)
    moreover have "cut (limit f) (e # es) = e # (if limit f > 0 then take (nat (limit f - 1)) es else es)"
      by (cases "nat (limit f)") (auto simp: cut_def nat_diff_distrib)
    ultimately show ?thesis using nw Cons by auto
  qed
qed

lemma count_stream:
  assumes "streams ex li xs" "length xs < k"
  shows "0 \<le> c \<Longrightarrow> c < 100000 \<Longrightarrow> count_indexed_loop k ex None li c = Some (min 100000 (c + int (length xs)))"
    "0 \<le> t \<Longrightarrow> t \<le> 10000 \<Longrightarrow> count_filtered_loop k ex None f li t c =
       Some (c + int (length (deliverable (ex_match ex) (ex_read ex) f False (take (nat (10000 - t)) (map lw_loc xs)))))"
proof -
  show "count_indexed_loop k ex None li c = Some (min 100000 (c + int (length xs)))" if "0 \<le> c" "c < 100000"
    using assms that
  proof (induction xs arbitrary: li k c rule: list.induct)
    case Nil
    then show ?case using streams_Nil by (cases k) auto
  next
    case (Cons x xs)
    then obtain k' where k: "k = Suc k'" by (cases k) auto
    from Cons.prems(1) show ?case
    proof (cases rule: streams_Cons)
      case (step li')
      then show ?thesis using Cons.IH [OF step(4), of k' "c + 1"] Cons.prems(2-) k by auto
    qed (use Cons.prems k in auto)
  qed
  show "count_filtered_loop k ex None f li t c =
       Some (c + int (length (deliverable (ex_match ex) (ex_read ex) f False (take (nat (10000 - t)) (map lw_loc xs)))))" if "0 \<le> t" "t \<le> 10000"
    using assms that
  proof (induction xs arbitrary: li k t c rule: list.induct)
    case Nil
    then show ?case using streams_Nil by (cases k) auto
  next
    case (Cons x xs)
    then obtain k' where k: "k = Suc k'" by (cases k) auto
    show ?case
    proof (cases "t + 1 > 10000")
      case True
      have "loc_valid li" using Cons.prems(1) by (auto elim: streams_Cons)
      then show ?thesis using True Cons.prems k by simp
    next
      case False
      then have n: "nat (10000 - t) = Suc (nat (10000 - (t + 1)))" by auto
      from Cons.prems(1) show ?thesis
      proof (cases rule: streams_Cons)
        case (step li')
        note ih = Cons.IH [OF step(4), of k' "t + 1"]
        show ?thesis unfolding n using ih step(1-3) Cons.prems(2-) k False by (auto simp: Let_def split: sum.split)
      next
        case fail
        then show ?thesis unfolding n using Cons.prems(2-) k False by (auto simp: Let_def split: sum.split)
      qed
    qed
  qed
qed

section \<open>Properties\<close>

text \<open>
  C17: The lazy result of a plan, read to its end. Whatever location iterator it is made over, and whether that iterator ends or an advance of it
  fails, the client receives the events that can be read, are not deleted and (unless the plan is fully indexed) match the filter, in the order
  of the locations delivered before, cut at the limit. A failure of the iterator is not reported.
\<close>

theorem lazy_result_spec:
  assumes "streams ex li xs" "length xs < ex_fuel ex"
  shows "\<exists>it. new_lazy_iterator ex None li f fi used = Some (Inr it) \<and>
    result_loop (ex_fuel ex) ex None (LazyResult it) [] = Some (Inr (cut (limit f) (deliverable (ex_match ex) (ex_read ex) f fi (map lw_loc xs))))"
  by (rule lazy_stream [OF assms])

definition demo_executor :: "slice_iterator executor" where
  "demo_executor = \<lparr>ex_fuel = 5, ex_ord = id, ex_ops = slice_ops, ex_read = (\<lambda>l. if loc_offset l = 20 then Inl (Err ''record not found'') else Inr (plain_event 1 (loc_offset l) [])),
     ex_match = (\<lambda>e f. created_at e \<noteq> 30), ex_codes = [], ex_primary = None, ex_author_time = None, ex_search = None, ex_kind_time = None\<rparr>"

theorem lazy_result_spec_witness:
  "\<exists>it. new_lazy_iterator demo_executor None (SortedIter (map (\<lambda>k. \<lparr>lw_loc = \<lparr>segment_id = 0, loc_offset = k\<rparr>, lw_created_at = k\<rparr>) [40, 30, 20, 10]) 0)
      (demo_kind_filter\<lparr>limit := 2\<rparr>) False [] = Some (Inr it) \<and>
    result_loop 5 demo_executor None (LazyResult it) [] = Some (Inr [plain_event 1 40 [], plain_event 1 10 []])"
  using lazy_result_spec [OF streams_sorted [of demo_executor "map (\<lambda>k. \<lparr>lw_loc = \<lparr>segment_id = 0, loc_offset = k\<rparr>, lw_created_at = k\<rparr>) [40, 30, 20, 10]" 0],
      of "demo_kind_filter\<lparr>limit := 2\<rparr>" False "[]"]
  by (auto simp: demo_executor_def demo_kind_filter_def plain_event_def is_deleted_def cut_def)

end
