(* ===== verification/Query_Memory.thy ===== *)
theory Query_Memory
  imports Executor
begin

text \<open>
  Queries over the in-memory indexes: the executor of \<open>src/query/executor.go\<close> on the \<open>BTreeIndex\<close> of \<open>src/index/btree.go\<close>. A plan with
  kinds scans ranges whose keys differ in their time only, so the scans come newest first, and the merge and the intersection deliver the locations of a plan
  without repetition in order of time. With indexes that were filled from the events of the store, kind and author plans return exactly the events
  that match, the most recent first.
\<close>

definition mem_executor ::
  "nat \<Rightarrow> (bucket \<Rightarrow> bucket) \<Rightarrow> (location \<Rightarrow> event result) \<Rightarrow> (event \<Rightarrow> query_filter \<Rightarrow> bool) \<Rightarrow> (bytes \<times> search_type) list \<Rightarrow>
   btree_index \<Rightarrow> btree_index \<Rightarrow> btree_index \<Rightarrow> btree_index \<Rightarrow> slice_iterator executor" where
  "mem_executor n ord rd mt codes prim at se kt =
     \<lparr>ex_fuel = n, ex_ord = ord, ex_ops = slice_ops, ex_read = rd, ex_match = mt, ex_codes = codes,
      ex_primary = Some (\<lambda>ctx. bt_get ctx prim), ex_author_time = Some (\<lambda>ctx. bt_range_desc ctx at),
      ex_search = Some (\<lambda>ctx. bt_range_desc ctx se), ex_kind_time = Some (\<lambda>ctx. bt_range_desc ctx kt)\<rparr>"

section \<open>Ranges of one prefix\<close>

definition times_agree :: "entry set \<Rightarrow> bool" where
  "times_agree es \<longleftrightarrow> (\<forall>e \<in> es. \<forall>e' \<in> es. snd e = snd e' \<longrightarrow> entry_time e = entry_time e')"

definition prefix_range :: "entry set \<Rightarrow> key_range \<Rightarrow> bool" where
  "prefix_range es r \<longleftrightarrow> (\<exists>p. \<forall>e \<in> es. kr_start r \<le> fst e \<and> fst e \<le> kr_end r \<longrightarrow> (\<exists>t. fst e = p @ put_u32 t))"

lemma entry_time_prefix [simp]: "extract_timestamp_from_key (p @ put_u32 t) = t"
  by (simp add: extract_timestamp_from_key_def)

lemma count_list_distinct: "distinct xs \<Longrightarrow> count_list xs x \<le> 1"
  by (induction xs) auto

lemma memory_range_ok:
  assumes inv: "bt_inv i" and agree: "times_agree (set (bt_data i))" and pre: "prefix_range (set (bt_data i)) r"
  defines "es \<equiv> rev (bt_range_list i (kr_start r) (kr_end r))"
  shows "range_ok es" "count_list (map snd es) l \<le> 8" "length es \<le> length (bt_data i)"
proof -
  have s: "set es = {e \<in> set (bt_data i). kr_start r \<le> fst e \<and> fst e \<le> kr_end r}" by (simp add: es_def bt_range_list_set [OF inv])
  obtain p where p: "\<And>e. e \<in> set es \<Longrightarrow> \<exists>t. fst e = p @ put_u32 t" using pre unfolding prefix_range_def s by blast
  have "map fst (bt_range_list i (kr_start r) (kr_end r)) = filter (\<lambda>k. kr_start r \<le> k \<and> k \<le> kr_end r) (sort (map fst (bt_data i)))"
    by (simp add: bt_range_list_def comp_def)
  then have d: "distinct (map fst es)" using inv by (simp add: es_def rev_map [symmetric] bt_inv_def)
  have "sorted (rev (map fst es))" using bt_range_list_sorted by (simp add: es_def rev_map)
  then have "sorted_wrt (\<lambda>a b. fst b \<le> fst a) es" by (simp add: sorted_wrt_rev sorted_wrt_map)
  then have "sorted_wrt (\<lambda>a b. entry_time b \<le> entry_time a) es"
  proof (rule sorted_wrt_mono_rel [rotated])
    fix a b assume ab: "a \<in> set es" "b \<in> set es" "fst b \<le> fst a"
    obtain t u where "fst a = p @ put_u32 t" "fst b = p @ put_u32 u" using p ab(1,2) by blast
    then show "entry_time b \<le> entry_time a" using ab(3) by (simp add: list_le_prefix)
  qed
  then have "newest_first (map stamped es)" by (simp add: newest_first_def sorted_wrt_map stamped_def)
  then show "range_ok es" using d by (simp add: range_ok_def distinct_map)
  have "inj_on snd (set es)"
  proof (rule inj_onI)
    fix a b assume ab: "a \<in> set es" "b \<in> set es" "snd a = snd b"
    obtain t u where k: "fst a = p @ put_u32 t" "fst b = p @ put_u32 u" using p ab(1,2) by blast
    have "entry_time a = entry_time b" using agree ab unfolding times_agree_def s by blast
    then show "a = b" using k ab(3) by (auto intro: prod_eqI)
  qed
  then have "distinct (map snd es)" using d by (simp add: distinct_map)
  from count_list_distinct [OF this, of l] show "count_list (map snd es) l \<le> 8" by simp
  show "length es \<le> length (bt_data i)" using length_filter_le [of _ "sort (map fst (bt_data i))"] by (simp add: es_def bt_range_list_def)
qed

definition range_entries :: "key_range list \<Rightarrow> btree_index \<Rightarrow> entry set" where
  "range_entries rs i = {e \<in> set (bt_data i). in_ranges rs (fst e)}"

lemma stamped_inj:
  assumes "times_agree es" "e \<in> es" "e' \<in> es" "lw_loc (stamped e) = lw_loc (stamped e')"
  shows "stamped e = stamped e'"
proof -
  have "snd e = snd e'" using assms(4) by (simp add: stamped_def)
  moreover have "entry_time e = entry_time e'" using assms(1-3) \<open>snd e = snd e'\<close> unfolding times_agree_def by blast
  ultimately show ?thesis by (simp add: stamped_def)
qed

lemma memory_merge:
  assumes inv: "bt_inv i" and agree: "times_agree (set (bt_data i))" and pre: "\<forall>r \<in> set rs. prefix_range (set (bt_data i)) r"
    and n: "(length rs + 1) * length (bt_data i) < n"
  shows "\<exists>m xs. new_merge_location_iterator n slice_ops None (bt_range_desc None i) rs = Some (Inr m) \<and> delivers n slice_ops m xs \<and>
    newest_first xs \<and> distinct (map lw_loc xs) \<and> set xs = stamped ` range_entries rs i \<and> length xs < n"
proof -
  define it where "it r = (THE x. bt_range_desc None i (kr_start r) (kr_end r) = Inr x)" for r :: key_range
  have r: "bt_range_desc None i (kr_start r) (kr_end r) = Inr (it r) \<and> it_collect (it r) = rev (bt_range_list i (kr_start r) (kr_end r))" for r :: key_range
    using bt_range_drain(2) [of i "kr_start r" "kr_end r"] by (auto simp: drain_def it_def split: sum.splits)
  have its: "concat (map (\<lambda>r. case bt_range_desc None i (kr_start r) (kr_end r) of Inl _ \<Rightarrow> [] | Inr x \<Rightarrow> [x]) rs) = map it rs" using r by (induction rs) auto
  have ok: "\<forall>x \<in> set (map it rs). True \<and> range_ok (it_collect x) \<and> (\<forall>l. count_list (map snd (it_collect x)) l \<le> 8)"
    using r memory_range_ok [OF inv agree] pre by auto
  have len: "length (it_collect (it r)) \<le> length (bt_data i)" if "r \<in> set rs" for r using memory_range_ok(3) [OF inv agree] pre r that by auto
  have "sum_list (map (\<lambda>x. length (it_collect x)) (map it rs)) \<le> length rs * length (bt_data i)"
    using len by (induction rs) (auto simp: add_mono)
  then have lt: "sum_list (map (\<lambda>x. length (it_collect x)) (map it rs)) < n" using n by simp
  from slice.new_merge_ok [of "bt_range_desc None i" rs n, unfolded its, OF ok lt] obtain m xs where
    m: "new_merge_location_iterator n slice_ops None (bt_range_desc None i) rs = Some (Inr m)" "delivers n slice_ops m xs"
    "merged (\<Union>x \<in> set (map it rs). stamped ` set (it_collect x)) {} xs" by blast
  have U: "(\<Union>x \<in> set (map it rs). stamped ` set (it_collect x)) = stamped ` range_entries rs i"
    using r bt_range_list_set [OF inv] by (auto simp: range_entries_def in_ranges_iff)
  have mm: "newest_first xs" "distinct (map lw_loc xs)" "set xs \<subseteq> stamped ` range_entries rs i" "lw_loc ` set xs = lw_loc ` stamped ` range_entries rs i"
    using m(3) unfolding merged_def U by simp_all
  have "stamped e \<in> set xs" if e: "e \<in> range_entries rs i" for e
  proof -
    obtain x where x: "x \<in> set xs" "lw_loc x = lw_loc (stamped e)" using mm(4) e by (metis (no_types, lifting) image_iff)
    then obtain e' where e': "x = stamped e'" "e' \<in> range_entries rs i" using mm(3) by auto
    then have "stamped e' = stamped e" using stamped_inj [OF agree, of e' e] x(2) e by (simp add: range_entries_def)
    then show ?thesis using x(1) e'(1) by simp
  qed
  then have sx: "set xs = stamped ` range_entries rs i" using mm(3) by auto
  have "length xs = card (set xs)" using mm(2) by (simp add: distinct_map distinct_card)
  also have "\<dots> \<le> card (set (bt_data i))" unfolding sx
    by (rule order_trans [OF card_image_le card_mono]) (auto simp: range_entries_def)
  also have "\<dots> \<le> length (bt_data i)" by (rule card_length)
  finally have "length xs < n" using n by simp
  then show ?thesis using m(1,2) mm(1,2) sx by blast
qed

lemma memory_intersection:
  assumes ord: "\<And>b. mset (ord b) = mset b" and inv: "bt_inv i" "bt_inv j" and agree: "times_agree (set (bt_data i) \<union> set (bt_data j))"
    and pre: "\<forall>r \<in> set rs. prefix_range (set (bt_data i)) r" "\<forall>r \<in> set qs. prefix_range (set (bt_data j)) r"
    and n: "(length rs + 1) * length (bt_data i) < n" "(length qs + 1) * length (bt_data j) < n"
  shows "\<exists>it xs. new_intersection_location_iterator n ord slice_ops None (bt_range_desc None i) rs (bt_range_desc None j) qs = Some (Inr it) \<and>
    isect_delivers n ord slice_ops it xs \<and> newest_first xs \<and> distinct (map lw_loc xs) \<and>
    set xs = stamped ` range_entries rs i \<inter> stamped ` range_entries qs j \<and> length xs < n"
proof -
  have ag: "times_agree (set (bt_data i))" "times_agree (set (bt_data j))" using agree by (auto simp: times_agree_def)
  obtain m1 xs where x: "new_merge_location_iterator n slice_ops None (bt_range_desc None i) rs = Some (Inr m1)" "delivers n slice_ops m1 xs"
    "newest_first xs" "distinct (map lw_loc xs)" "set xs = stamped ` range_entries rs i" "length xs < n"
    using memory_merge [OF inv(1) ag(1) pre(1) n(1)] by blast
  obtain m2 ys where y: "new_merge_location_iterator n slice_ops None (bt_range_desc None j) qs = Some (Inr m2)" "delivers n slice_ops m2 ys"
    "newest_first ys" "distinct (map lw_loc ys)" "set ys = stamped ` range_entries qs j" "length ys < n"
    using memory_merge [OF inv(2) ag(2) pre(2) n(2)] by blast
  let ?i = "\<lparr>ii_iter1 = m1, ii_iter2 = m2, ii_pending = [], ii_current = zero_lwt, ii_valid = False, ii_closed = False\<rparr>"
  have "\<forall>a \<in> set xs. \<forall>b \<in> set ys. lw_loc a = lw_loc b \<longrightarrow> a = b"
    unfolding x(5) y(5) by (auto simp: range_entries_def intro!: stamped_inj [OF agree])
  then have "isect_inv n slice_ops ?i [] xs ys" using x y by (simp add: isect_inv_def)
  from isect_drain [OF ord this] obtain it zs where z: "isect_advance n ord slice_ops None ?i = Some (None, it)"
    "isect_delivers n ord slice_ops it zs" "newest_first zs" "distinct (map lw_loc zs)" "set zs = set xs \<inter> set ys" by auto
  have "length zs = card (set zs)" "length xs = card (set xs)" using z(4) x(4) by (simp_all add: distinct_map distinct_card)
  then have "length zs \<le> length xs" using z(5) by (simp add: card_mono)
  then show ?thesis using z x y by (intro exI [of _ it] exI [of _ zs]) (simp add: new_intersection_location_iterator_def)
qed


section \<open>The ranges of a plan\<close>

definition kind_keyed :: "entry set \<Rightarrow> bool" where
  "kind_keyed es \<longleftrightarrow> (\<forall>e \<in> es. \<exists>k t. fst e = build_kind_time_key k t)"

lemma kind_prefix_ranges: "kind_keyed es \<Longrightarrow> r \<in> set (build_kind_time_ranges f) \<Longrightarrow> prefix_range es r"
proof -
  assume k: "kind_keyed es" and "r \<in> set (build_kind_time_ranges f)"
  then obtain k' where r: "r = \<lparr>kr_start = build_kind_time_key k' (since f), kr_end = build_kind_time_key k' (end_time f)\<rparr>"
    by (auto simp: build_kind_time_ranges_def split: if_splits)
  have "\<exists>t. fst e = put_u16 k' @ put_u32 t" if e: "e \<in> es" "kr_start r \<le> fst e" "fst e \<le> kr_end r" for e
  proof -
    obtain k2 t where k2: "fst e = build_kind_time_key k2 t" using k e(1) by (auto simp: kind_keyed_def)
    then have "k2 = k'" using e(2,3) r by (auto simp: build_kind_time_key_def list_le_prefix)
    then show ?thesis using k2 by (auto simp: build_kind_time_key_def)
  qed
  then show ?thesis unfolding prefix_range_def by blast
qed

lemma author_prefix_ranges:
  assumes "author_keyed es" "kinds f \<noteq> []" "\<forall>a \<in> set (authors f). length a = 32" "r \<in> set (build_author_time_ranges f)"
  shows "prefix_range es r"
proof -
  obtain a k where a: "length a = 32" "r = \<lparr>kr_start = build_author_time_key a k (since f), kr_end = build_author_time_key a k (end_time f)\<rparr>"
    using assms(2-4) by (auto simp: build_author_time_ranges_def)
  have "\<exists>t. fst e = (pad_to 32 (take 32 a) @ put_u16 k) @ put_u32 t" if e: "e \<in> es" "kr_start r \<le> fst e" "fst e \<le> kr_end r" for e
  proof -
    obtain pk k2 t where k2: "length pk = 32" "fst e = build_author_time_key pk k2 t" using assms(1) e(1) unfolding author_keyed_def by blast
    then have "pk = a \<and> k2 = k" using author_key_between [OF a(1) k2(1), of k "since f" k2 t "end_time f"] e(2,3) a(2) by simp
    then show ?thesis using k2 by (auto simp: build_author_time_key_def)
  qed
  then show ?thesis unfolding prefix_range_def by blast
qed

lemma search_prefix_ranges:
  assumes "search_keyed es" "r \<in> set (build_search_ranges codes f)"
  shows "prefix_range es r"
proof -
  obtain st w k where r: "r = \<lparr>kr_start = build_search_key k st w (since f), kr_end = build_search_key k st w (end_time f)\<rparr>"
    using assms(2) set_search_ranges by blast
  have "\<exists>t. fst e = ((put_u16 k @ [st, word_of_nat (length (take 255 w))]) @ take 255 w) @ put_u32 t"
    if e: "e \<in> es" "kr_start r \<le> fst e" "fst e \<le> kr_end r" for e
  proof -
    obtain k2 st2 v t where k2: "fst e = build_search_key k2 st2 v t" using assms(1) e(1) unfolding search_keyed_def by blast
    then have b: "k2 = k \<and> st2 = st \<and> take 255 v = take 255 w"
      using search_key_between [of k st w "since f" k2 st2 v t "end_time f"] e(2,3) r by simp
    then show ?thesis using k2 unfolding search_key_split by auto
  qed
  then show ?thesis unfolding prefix_range_def by blast
qed

definition plan_locations :: "(bytes \<times> search_type) list \<Rightarrow> plan \<Rightarrow> btree_index \<Rightarrow> btree_index \<Rightarrow> btree_index \<Rightarrow> location set" where
  "plan_locations codes p at se kt =
     (let f = plan_filter p; A = snd ` range_entries (build_author_time_ranges f) at; S = snd ` range_entries (build_search_ranges codes f) se
      in if strategy p = ''author_time'' then A
         else if strategy p = ''search'' then S
         else if strategy p = ''kind_time'' then snd ` range_entries (build_kind_time_ranges f) kt
         else if strategy p = ''intersection'' then A \<inter> S
         else {})"

definition memory_indexes_ok :: "btree_index \<Rightarrow> btree_index \<Rightarrow> btree_index \<Rightarrow> bool" where
  "memory_indexes_ok at se kt \<longleftrightarrow> bt_inv at \<and> bt_inv se \<and> bt_inv kt \<and>
     author_keyed (set (bt_data at)) \<and> search_keyed (set (bt_data se)) \<and> kind_keyed (set (bt_data kt)) \<and>
     times_agree (set (bt_data at) \<union> set (bt_data se) \<union> set (bt_data kt))"

definition plan_fuel :: "(bytes \<times> search_type) list \<Rightarrow> plan \<Rightarrow> btree_index \<Rightarrow> btree_index \<Rightarrow> btree_index \<Rightarrow> nat" where
  "plan_fuel codes p at se kt =
     (length (build_author_time_ranges (plan_filter p)) + 1) * length (bt_data at) +
     (length (build_search_ranges codes (plan_filter p)) + 1) * length (bt_data se) +
     (length (build_kind_time_ranges (plan_filter p)) + 1) * length (bt_data kt)"

lemma image_stamped: "lw_loc ` stamped ` es = snd ` es"
  by (simp add: image_image stamped_def)

lemma memory_stream:
  fixes rd mt prim
  assumes ix: "memory_indexes_ok at se kt" and f: "kinds (plan_filter p) \<noteq> []" "\<forall>a \<in> set (authors (plan_filter p)). length a = 32"
    and ord: "\<And>b. mset (ord b) = mset b" and n: "plan_fuel codes p at se kt < n" and st: "streaming p"
  defines "ex \<equiv> mem_executor n ord rd mt codes prim at se kt"
  shows "\<exists>li xs. get_location_iterator ex None p = Some (Inr li) \<and> streams ex li xs \<and> newest_first xs \<and> distinct (map lw_loc xs) \<and>
    set xs \<subseteq> stamped ` (set (bt_data at) \<union> set (bt_data se) \<union> set (bt_data kt)) \<and> lw_loc ` set xs = plan_locations codes p at se kt \<and> length xs < n"
proof -
  let ?f = "plan_filter p"
  let ?A = "build_author_time_ranges ?f" and ?S = "build_search_ranges codes ?f" and ?K = "build_kind_time_ranges ?f"
  have ag: "times_agree (set (bt_data at))" "times_agree (set (bt_data se))" "times_agree (set (bt_data kt))" "times_agree (set (bt_data at) \<union> set (bt_data se))"
    and inv: "bt_inv at" "bt_inv se" "bt_inv kt" using ix by (auto simp: memory_indexes_ok_def times_agree_def)
  have pre: "\<forall>r \<in> set ?A. prefix_range (set (bt_data at)) r" "\<forall>r \<in> set ?S. prefix_range (set (bt_data se)) r" "\<forall>r \<in> set ?K. prefix_range (set (bt_data kt)) r"
    using ix f author_prefix_ranges search_prefix_ranges kind_prefix_ranges unfolding memory_indexes_ok_def by blast+
  have n': "(length ?A + 1) * length (bt_data at) < n" "(length ?S + 1) * length (bt_data se) < n" "(length ?K + 1) * length (bt_data kt) < n"
    using n by (simp_all add: plan_fuel_def)
  have sub: "range_entries rs i \<subseteq> set (bt_data i)" for rs i by (auto simp: range_entries_def)
  have fields: "ex_fuel ex = n" "ex_ops ex = slice_ops" "ex_ord ex = ord" "ex_codes ex = codes" by (simp_all add: ex_def mem_executor_def)
  note sm = streams_merge [where ex = ex, unfolded fields] and si = streams_intersect [where ex = ex, unfolded fields]
  consider (a) "strategy p = ''author_time''" | (s) "strategy p = ''search''" | (k) "strategy p = ''kind_time''" | (i) "strategy p = ''intersection''"
    using st by (auto simp: streaming_def)
  then show ?thesis
  proof cases
    case a
    obtain m xs where m: "new_merge_location_iterator n slice_ops None (bt_range_desc None at) ?A = Some (Inr m)" "delivers n slice_ops m xs"
      "newest_first xs" "distinct (map lw_loc xs)" "set xs = stamped ` range_entries ?A at" "length xs < n"
      using memory_merge [OF inv(1) ag(1) pre(1) n'(1)] by blast
    show ?thesis using m sm [OF m(2)] a sub [of ?A at] image_stamped [of "range_entries ?A at"]
      by (intro exI [of _ "MergeIter m"] exI [of _ xs]) (auto simp: get_location_iterator_def ex_def mem_executor_def located_def plan_locations_def Let_def)
  next
    case s
    obtain m xs where m: "new_merge_location_iterator n slice_ops None (bt_range_desc None se) ?S = Some (Inr m)" "delivers n slice_ops m xs"
      "newest_first xs" "distinct (map lw_loc xs)" "set xs = stamped ` range_entries ?S se" "length xs < n"
      using memory_merge [OF inv(2) ag(2) pre(2) n'(2)] by blast
    show ?thesis using m sm [OF m(2)] s sub [of ?S se] image_stamped [of "range_entries ?S se"]
      by (intro exI [of _ "MergeIter m"] exI [of _ xs]) (auto simp: get_location_iterator_def ex_def mem_executor_def located_def plan_locations_def Let_def)
  next
    case k
    obtain m xs where m: "new_merge_location_iterator n slice_ops None (bt_range_desc None kt) ?K = Some (Inr m)" "delivers n slice_ops m xs"
      "newest_first xs" "distinct (map lw_loc xs)" "set xs = stamped ` range_entries ?K kt" "length xs < n"
      using memory_merge [OF inv(3) ag(3) pre(3) n'(3)] by blast
    show ?thesis using m sm [OF m(2)] k sub [of ?K kt] image_stamped [of "range_entries ?K kt"]
      by (intro exI [of _ "MergeIter m"] exI [of _ xs]) (auto simp: get_location_iterator_def ex_def mem_executor_def located_def plan_locations_def Let_def)
  next
    case i
    obtain m xs where m: "new_intersection_location_iterator n ord slice_ops None (bt_range_desc None at) ?A (bt_range_desc None se) ?S = Some (Inr m)"
      "isect_delivers n ord slice_ops m xs" "newest_first xs" "distinct (map lw_loc xs)"
      "set xs = stamped ` range_entries ?A at \<inter> stamped ` range_entries ?S se" "length xs < n"
      using memory_intersection [OF ord inv(1,2) ag(4) pre(1,2) n'(1,2)] by blast
    have "lw_loc ` set xs = snd ` range_entries ?A at \<inter> snd ` range_entries ?S se"
    proof -
      have "inj_on lw_loc (stamped ` (set (bt_data at) \<union> set (bt_data se)))"
        using stamped_inj [OF ag(4)] by (intro inj_onI) blast
      moreover have "stamped ` range_entries ?A at \<subseteq> stamped ` (set (bt_data at) \<union> set (bt_data se))"
        "stamped ` range_entries ?S se \<subseteq> stamped ` (set (bt_data at) \<union> set (bt_data se))" using sub by blast+
      ultimately show ?thesis unfolding m(5) by (subst inj_on_image_Int) (simp_all add: image_stamped)
    qed
    then show ?thesis using m si [OF m(2)] i sub [of ?A at]
      by (intro exI [of _ "IntersectIter m"] exI [of _ xs]) (auto simp: get_location_iterator_def ex_def mem_executor_def located_def plan_locations_def Let_def)
  qed
qed


section \<open>Queries\<close>

lemma compiled_strategy: "compile_plan codes defaults (Some f) = Inr p \<Longrightarrow> streaming p \<or> strategy p = ''scan''"
  by (auto simp: compile_plan_ok choose_plan_def new_plan_def streaming_def Let_def split: if_splits)

lemma streaming_not: "streaming p \<Longrightarrow> strategy p \<noteq> ''primary''" "strategy p = ''scan'' \<Longrightarrow> \<not> streaming p"
  by (auto simp: streaming_def)

lemma memory_query:
  fixes rd mt prim
  assumes c: "compile_plan codes defaults (Some f) = Inr p" and ix: "memory_indexes_ok at se kt"
    and k: "kinds (plan_filter p) \<noteq> []" "\<forall>a \<in> set (authors (plan_filter p)). length a = 32"
    and ord: "\<And>b. mset (ord b) = mset b" and n: "plan_fuel codes p at se kt < n"
  defines "ex \<equiv> mem_executor n ord rd mt codes prim at se kt"
  shows "\<exists>xs. newest_first xs \<and> distinct (map lw_loc xs) \<and> lw_loc ` set xs = plan_locations codes p at se kt \<and>
    set xs \<subseteq> stamped ` (set (bt_data at) \<union> set (bt_data se) \<union> set (bt_data kt)) \<and>
    engine_query_events ex defaults None (Some f) =
      Some (Inr (cut (limit (plan_filter p)) (deliverable mt rd (plan_filter p) (fully_indexed p) (map lw_loc xs)))) \<and>
    engine_count ex defaults None (Some f) = Some (Inr (counted mt rd (plan_filter p) (fully_indexed p) (map lw_loc xs)))"
proof (cases "streaming p")
  case True
  obtain li xs where l: "get_location_iterator ex None p = Some (Inr li)" "streams ex li xs" "newest_first xs" "distinct (map lw_loc xs)"
    "set xs \<subseteq> stamped ` (set (bt_data at) \<union> set (bt_data se) \<union> set (bt_data kt))" "lw_loc ` set xs = plan_locations codes p at se kt" "length xs < n"
    using memory_stream [OF ix k ord n True, of rd mt prim] unfolding ex_def by blast
  have fields: "ex_fuel ex = n" "ex_codes ex = codes" "ex_read ex = rd" "ex_match ex = mt" by (simp_all add: ex_def mem_executor_def)
  obtain it where it: "new_lazy_iterator ex None li (plan_filter p) (fully_indexed p) [strategy p] = Some (Inr it)"
    "result_loop n ex None (LazyResult it) [] = Some (Inr (cut (limit (plan_filter p)) (deliverable mt rd (plan_filter p) (fully_indexed p) (map lw_loc xs))))"
    using lazy_stream [OF l(2), of "plan_filter p" "fully_indexed p" "[strategy p]"] l(7) fields by auto
  have "execute_plan ex None p = Some (Inr (LazyResult it))" using True l(1) it(1) streaming_not(1) [OF True] by (simp add: execute_plan_def)
  moreover have "count_plan ex None p = Some (Inr (counted mt rd (plan_filter p) (fully_indexed p) (map lw_loc xs)))"
    using True l(1) streaming_not(1) [OF True] count_stream(1) [OF l(2,7), of 0] count_stream(2) [OF l(2,7), of 0 "plan_filter p" 0] fields
    by (simp add: count_plan_def counted_def)
  ultimately show ?thesis using l(3-6) it(2) c fields
    by (intro exI [of _ xs]) (simp add: engine_query_events_def engine_query_def engine_count_def)
next
  case False
  then have s: "strategy p = ''scan''" using compiled_strategy [OF c] by simp
  obtain g where "p = choose_plan codes g" using c by (auto simp: compile_plan_ok)
  then have "\<not> fully_indexed p" using s by (auto simp: choose_plan_def new_plan_def Let_def split: if_splits)
  moreover have "0 < n" using n by simp
  then obtain n' where "n = Suc n'" by (cases n) auto
  ultimately show ?thesis using s c False
    by (intro exI [of _ "[]"]) (simp add: engine_query_events_def engine_query_def engine_count_def execute_plan_def count_plan_def
      plan_locations_def newest_first_def cut_def counted_def Let_def ex_def mem_executor_def)
qed

text \<open>
  C8: A query over in-memory indexes whose filter, once normalized, has kinds returns the readable, undeleted and (unless the plan is fully indexed) matching events at the
  locations the plan scans, each location once, the most recent first, cut at the limit. A count over the same filter counts these locations up to 100000 when the
  plan is fully indexed, and otherwise the events it would return from the first 10000 of them.
\<close>

theorem memory_query_newest_first:
  assumes "compile_plan codes defaults (Some f) = Inr p" and "memory_indexes_ok at se kt"
    and "kinds (plan_filter p) \<noteq> []" and "\<forall>a \<in> set (authors (plan_filter p)). length a = 32"
    and "\<And>b. mset (ord b) = mset b" and "plan_fuel codes p at se kt < n"
  shows "\<exists>xs. newest_first xs \<and> distinct (map lw_loc xs) \<and> lw_loc ` set xs = plan_locations codes p at se kt \<and>
    set xs \<subseteq> stamped ` (set (bt_data at) \<union> set (bt_data se) \<union> set (bt_data kt)) \<and>
    engine_query_events (mem_executor n ord rd mt codes prim at se kt) defaults None (Some f) =
      Some (Inr (cut (limit (plan_filter p)) (deliverable mt rd (plan_filter p) (fully_indexed p) (map lw_loc xs)))) \<and>
    engine_count (mem_executor n ord rd mt codes prim at se kt) defaults None (Some f) = Some (Inr (counted mt rd (plan_filter p) (fully_indexed p) (map lw_loc xs)))"
  by (rule memory_query [OF assms])

definition demo_locs :: "location \<times> location" where
  "demo_locs = (\<lparr>segment_id = 0, loc_offset = 64\<rparr>, \<lparr>segment_id = 0, loc_offset = 900\<rparr>)"

definition demo_tag :: "bytes list" where
  "demo_tag = [lit ''e'', lit ''ab'']"

text \<open>Two events of one author, the second with a tag, in the three indexes.\<close>

definition demo_at :: btree_index where
  "demo_at = bt_put (build_author_time_key (replicate 32 2) 1 70) (snd demo_locs)
     (bt_put (build_author_time_key (replicate 32 2) 1 60) (fst demo_locs) new_btree_index)"

definition demo_se :: btree_index where
  "demo_se = bt_put (build_search_key 1 1 (lit ''ab'') 70) (snd demo_locs) new_btree_index"

definition demo_kt :: btree_index where
  "demo_kt = bt_put (build_kind_time_key 1 70) (snd demo_locs) (bt_put (build_kind_time_key 1 60) (fst demo_locs) new_btree_index)"

definition demo_read :: "location \<Rightarrow> event result" where
  "demo_read l = (if l = fst demo_locs then Inr (plain_event 1 60 []) else Inr (plain_event 1 70 [demo_tag]))"

definition demo_author_filter :: query_filter where
  "demo_author_filter = \<lparr>kinds = [1], authors = [replicate 32 2], since = 0, until = 0, limit = 0, ftags = [(lit ''e'', [lit ''ab''])], fsearch = []\<rparr>"

lemma distinct_singleton_list: "distinct xs \<Longrightarrow> set xs = {x} \<Longrightarrow> xs = [x]"
  by (cases xs; cases "tl xs") auto

lemma demo_keys:
  "build_author_time_key pk k t = build_author_time_key pk k t' \<longleftrightarrow> t = t'"
  "build_kind_time_key k t = build_kind_time_key k t' \<longleftrightarrow> t = t'"
  "extract_timestamp_from_key (build_author_time_key pk k t) = t"
  "extract_timestamp_from_key (build_kind_time_key k t) = t"
  "extract_timestamp_from_key (build_search_key k st v t) = t"
  using entry_time_prefix [of "pad_to 32 (take 32 pk) @ put_u16 k" t] entry_time_prefix [of "put_u16 k" t]
    entry_time_prefix [of "(put_u16 k @ [st, word_of_nat (length (take 255 v))]) @ take 255 v" t]
  by (simp_all add: build_author_time_key_def build_kind_time_key_def search_key_split)

lemma demo_indexes: "memory_indexes_ok demo_at demo_se demo_kt"
  "bt_data demo_at = [(build_author_time_key (replicate 32 2) 1 60, fst demo_locs), (build_author_time_key (replicate 32 2) 1 70, snd demo_locs)]"
  "bt_data demo_se = [(build_search_key 1 1 (lit ''ab'') 70, snd demo_locs)]"
  "bt_data demo_kt = [(build_kind_time_key 1 60, fst demo_locs), (build_kind_time_key 1 70, snd demo_locs)]"
proof -
  show d: "bt_data demo_at = [(build_author_time_key (replicate 32 2) 1 60, fst demo_locs), (build_author_time_key (replicate 32 2) 1 70, snd demo_locs)]"
    "bt_data demo_se = [(build_search_key 1 1 (lit ''ab'') 70, snd demo_locs)]"
    "bt_data demo_kt = [(build_kind_time_key 1 60, fst demo_locs), (build_kind_time_key 1 70, snd demo_locs)]"
    by (simp_all add: demo_at_def demo_se_def demo_kt_def bt_put_def new_btree_index_def demo_keys)
  have "author_keyed (set (bt_data demo_at))" unfolding d author_keyed_def using length_replicate by force
  moreover have "search_keyed (set (bt_data demo_se))" "kind_keyed (set (bt_data demo_kt))" unfolding d search_keyed_def kind_keyed_def by auto
  moreover have "times_agree (set (bt_data demo_at) \<union> set (bt_data demo_se) \<union> set (bt_data demo_kt))"
    unfolding d by (auto simp: times_agree_def demo_keys demo_locs_def)
  ultimately show "memory_indexes_ok demo_at demo_se demo_kt" by (simp add: memory_indexes_ok_def bt_inv_def d demo_keys)
qed

theorem memory_query_newest_first_witness:
  "engine_query_events (mem_executor 100 rev demo_read (matches_filter id (=)) demo_codes new_btree_index demo_at demo_se demo_kt) None None (Some demo_author_filter) =
    Some (Inr [plain_event 1 70 [demo_tag]])"
proof -
  obtain p where p: "compile_plan demo_codes None (Some demo_author_filter) = Inr p"
    "fully_indexed p" "strategy p = ''intersection''" "plan_filter p = demo_author_filter"
    by (auto simp: plan_eval demo_author_filter_def demo_codes_def)
  have k: "kinds (plan_filter p) \<noteq> []" "\<forall>a \<in> set (authors (plan_filter p)). length a = 32" by (simp_all add: p(4) demo_author_filter_def)
  have n: "plan_fuel demo_codes p demo_at demo_se demo_kt < 100"
    by (simp add: plan_fuel_def p(4) demo_author_filter_def demo_indexes build_author_time_ranges_def build_search_ranges_def build_kind_time_ranges_def demo_codes_def)
  have loc: "plan_locations demo_codes p demo_at demo_se demo_kt = {snd demo_locs}"
  proof -
    have "in_ranges (build_search_ranges demo_codes demo_author_filter) (build_search_key 1 1 (lit ''ab'') 70)"
      unfolding search_ranges_iff by (simp add: demo_author_filter_def demo_codes_def time_ok_def)
    moreover have "in_ranges (build_author_time_ranges demo_author_filter) (build_author_time_key (replicate 32 2) 1 70)"
      by (simp add: in_ranges_iff build_author_time_ranges_def demo_author_filter_def author_key_between end_time_def)
    ultimately have "(build_author_time_key (replicate 32 2) 1 70, snd demo_locs) \<in> range_entries (build_author_time_ranges demo_author_filter) demo_at"
      "range_entries (build_search_ranges demo_codes demo_author_filter) demo_se = {(build_search_key 1 1 (lit ''ab'') 70, snd demo_locs)}"
      by (auto simp: range_entries_def demo_indexes)
    then show ?thesis by (force simp: plan_locations_def p(3,4) Let_def)
  qed
  have ord: "\<And>b. mset (rev b) = mset (b :: bucket)" by simp
  from memory_query_newest_first [OF p(1) demo_indexes(1) k ord n, of demo_read "matches_filter id (=)" new_btree_index, unfolded loc]
  obtain xs :: "location_with_time list" where xs: "distinct (map lw_loc xs)" "lw_loc ` set xs = {snd demo_locs}"
    "engine_query_events (mem_executor 100 rev demo_read (matches_filter id (=)) demo_codes new_btree_index demo_at demo_se demo_kt) None None (Some demo_author_filter) =
      Some (Inr (cut (limit (plan_filter p)) (deliverable (matches_filter id (=)) demo_read (plan_filter p) (fully_indexed p) (map lw_loc xs))))" by blast
  have "set (map lw_loc xs) = {snd demo_locs}" using xs(2) by simp
  then have "map lw_loc xs = [snd demo_locs]" using xs(1) by (metis distinct_singleton_list)
  then show ?thesis using xs(3) by (simp add: p(2,4) demo_read_def demo_locs_def cut_def demo_author_filter_def plain_event_def is_deleted_def)
qed


text \<open>
  C37: Tags of two names. \<open>Compile\<close> marks a search plan as fully indexed as soon as every tag name of the filter has a search code, although it scans the union
  of their ranges: a query over in-memory indexes returns an undeleted event that has one of the wanted tags and lacks another, so does not match the filter.
\<close>

theorem search_plan_unsound:
  assumes "compile_plan codes defaults (Some f) = Inr p" and "strategy p = ''search''" "kinds (plan_filter p) \<noteq> []" "fsearch (plan_filter p) = []" "limit (plan_filter p) = 0"
    and "\<forall>n \<in> fst ` set (ftags (plan_filter p)). map_of codes n \<noteq> None"
    and "memory_indexes_ok at se kt" and "\<And>b. mset (ord b) = mset b" and "plan_fuel codes p at se kt < n"
    and "(build_search_key (kind e) st v (created_at e), l) \<in> set (bt_data se)" "rd l = Inr e" "\<not> is_deleted (ev_flags e)"
    and "kind e \<in> set (kinds (plan_filter p))" "time_ok (plan_filter p) (created_at e)"
    and "(name, vs) \<in> set (ftags (plan_filter p))" "v \<in> set vs" "map_of codes name = Some st"
    and "(other, ws) \<in> set (ftags (plan_filter p))" "ws \<noteq> []" "\<not> has_tag eqf e other ws"
  shows "\<exists>evs. engine_query_events (mem_executor n ord rd (matches_filter lw eqf) codes prim at se kt) defaults None (Some f) = Some (Inr evs) \<and>
    e \<in> set evs \<and> \<not> matches_filter lw eqf e (plan_filter p)"
proof -
  obtain g where g: "p = choose_plan codes g" using assms(1) by (auto simp: compile_plan_ok)
  have "authors g = []" "fully_indexed p"
    using g assms(2-4,6) choose_plan_search [of codes g] by (force simp: indexable_def list_all_iff)+
  then have au: "\<forall>a \<in> set (authors (plan_filter p)). length a = 32" and fi: "fully_indexed p" using g by simp_all
  obtain xs :: "location_with_time list" where xs: "lw_loc ` set xs = plan_locations codes p at se kt"
    "engine_query_events (mem_executor n ord rd (matches_filter lw eqf) codes prim at se kt) defaults None (Some f) =
      Some (Inr (cut (limit (plan_filter p)) (deliverable (matches_filter lw eqf) rd (plan_filter p) True (map lw_loc xs))))"
    using memory_query [OF assms(1,7,3) au assms(8,9), of rd "matches_filter lw eqf" prim] fi by auto
  have "in_ranges (build_search_ranges codes (plan_filter p)) (build_search_key (kind e) st v (created_at e))"
    unfolding search_ranges_iff using assms(13-17) by blast
  then have "l \<in> plan_locations codes p at se kt" using assms(2,10) by (force simp: plan_locations_def range_entries_def Let_def)
  then have "l \<in> lw_loc ` set xs" using xs(1) by simp
  then obtain x where "x \<in> set xs" "lw_loc x = l" by auto
  then have "e \<in> set (deliverable (matches_filter lw eqf) rd (plan_filter p) True (map lw_loc xs))"
    using assms(11,12) by (auto simp: deliverable_def intro!: bexI [of _ x])
  moreover have "\<not> matches_filter lw eqf e (plan_filter p)" using assms(18-20) by (auto simp: matches_filter_iff)
  ultimately show ?thesis using xs(2) assms(5) by (auto simp: cut_def)
qed

theorem search_plan_unsound_witness:
  "\<exists>f evs. engine_query_events (mem_executor 100 rev demo_read (matches_filter id (=)) demo_codes new_btree_index demo_at demo_se demo_kt) None None (Some f) = Some (Inr evs) \<and>
    plain_event 1 70 [demo_tag] \<in> set evs \<and> \<not> matches_filter id (=) (plain_event 1 70 [demo_tag]) f"
proof -
  let ?f = "(demo_tag_filter [(lit ''e'', [lit ''ab'']), (lit ''p'', [lit ''cd''])])\<lparr>limit := 0\<rparr>"
  obtain p where p: "compile_plan demo_codes None (Some ?f) = Inr p" "strategy p = ''search''" "plan_filter p = ?f"
    by (auto simp: plan_eval demo_tag_filter_def demo_codes_def)
  have n: "plan_fuel demo_codes p demo_at demo_se demo_kt < 100"
    by (simp add: plan_fuel_def p(3) demo_tag_filter_def demo_indexes build_author_time_ranges_def build_search_ranges_def build_kind_time_ranges_def demo_codes_def)
  have ord: "\<And>b. mset (rev b) = mset (b :: bucket)" by simp
  have e: "kind (plain_event 1 70 [demo_tag]) = 1" "created_at (plain_event 1 70 [demo_tag]) = 70" by (simp_all add: plain_event_def)
  have "\<not> has_tag (=) (plain_event 1 70 [demo_tag]) (lit ''p'') [lit ''cd'']" by (simp add: has_tag_iff plain_event_def demo_tag_def lit_def)
  then show ?thesis
    using search_plan_unsound [OF p(1,2), of demo_at demo_se demo_kt rev 100 "plain_event 1 70 [demo_tag]" 1 "lit ''ab''" "snd demo_locs" demo_read
        "lit ''e''" "[lit ''ab'']" "lit ''p''" "[lit ''cd'']" "(=)" id new_btree_index] n ord demo_indexes
    by (auto simp: p(3) e demo_tag_filter_def demo_codes_def lit_def demo_read_def demo_locs_def time_ok_def plain_event_def is_deleted_def)
qed

text \<open>An index that was filled from the events of the store.\<close>

definition indexes_events :: "(location \<Rightarrow> event result) \<Rightarrow> (event \<Rightarrow> bytes) \<Rightarrow> btree_index \<Rightarrow> bool" where
  "indexes_events rd key i \<longleftrightarrow> (\<forall>(k, l) \<in> set (bt_data i). \<exists>e. rd l = Inr e \<and> k = key e \<and> \<not> is_deleted (ev_flags e) \<and> length (pubkey e) = 32)"

lemma indexes_events_read:
  assumes "indexes_events rd key i" "(k, l) \<in> set (bt_data i)"
  obtains e where "rd l = Inr e" "k = key e" "\<not> is_deleted (ev_flags e)" "length (pubkey e) = 32"
  using assms unfolding indexes_events_def by blast

text \<open>
  The locations of a scan, read: when every location bears the time of its event, the events come the most recent first.
\<close>

lemma deliverable_scan:
  assumes xs: "newest_first xs" "\<forall>x \<in> set xs. \<exists>e. rd (lw_loc x) = Inr e \<and> \<not> is_deleted (ev_flags e) \<and> created_at e = lw_created_at x"
  shows "sorted_wrt (\<lambda>a b. created_at b \<le> created_at a) (deliverable mt rd f True (map lw_loc xs))"
    "set (deliverable mt rd f True (map lw_loc xs)) = {e. \<exists>l \<in> lw_loc ` set xs. rd l = Inr e}"
proof -
  define g where "g x = (case rd (lw_loc x) of Inr e \<Rightarrow> e)" for x :: location_with_time
  have g: "rd (lw_loc x) = Inr (g x) \<and> \<not> is_deleted (ev_flags (g x)) \<and> created_at (g x) = lw_created_at x" if "x \<in> set xs" for x
    using xs(2) that by (auto simp: g_def)
  have d: "deliverable mt rd f True (map lw_loc xs) = map g xs" using g by (induction xs) auto
  have "sorted_wrt (\<lambda>a b. created_at (g b) \<le> created_at (g a)) xs" using xs(1) g unfolding newest_first_def by (auto elim!: sorted_wrt_mono_rel [rotated])
  then show "sorted_wrt (\<lambda>a b. created_at b \<le> created_at a) (deliverable mt rd f True (map lw_loc xs))" unfolding d by (simp add: sorted_wrt_map)
  show "set (deliverable mt rd f True (map lw_loc xs)) = {e. \<exists>l \<in> lw_loc ` set xs. rd l = Inr e}" unfolding d using g by force
qed

text \<open>
  C9: Kind plans, and author plans with kinds, over indexes filled from the events of the store: the query returns exactly the indexed events that
  match the filter, the most recent first, and with a limit the most recent ones of them.
\<close>

theorem memory_query_exact:
  assumes c: "compile_plan codes defaults (Some f) = Inr p" and ix: "memory_indexes_ok at se kt"
    and k: "kinds (plan_filter p) \<noteq> []" "\<forall>a \<in> set (authors (plan_filter p)). length a = 32"
    and ord: "\<And>b. mset (ord b) = mset b" and n: "plan_fuel codes p at se kt < n" and fi: "fully_indexed p"
    and st: "strategy p = ''kind_time'' \<and> i = kt \<and> indexes_events rd (\<lambda>e. build_kind_time_key (kind e) (created_at e)) kt \<or>
      strategy p = ''author_time'' \<and> i = at \<and> indexes_events rd (\<lambda>e. build_author_time_key (pubkey e) (kind e) (created_at e)) at"
  shows "\<exists>all. engine_query_events (mem_executor n ord rd (matches_filter lw eqf) codes prim at se kt) defaults None (Some f) =
      Some (Inr (cut (limit (plan_filter p)) all)) \<and>
    sorted_wrt (\<lambda>a b. created_at b \<le> created_at a) all \<and>
    set all = {e. (\<exists>l \<in> snd ` set (bt_data i). rd l = Inr e) \<and> matches_filter lw eqf e (plan_filter p)}"
proof -
  let ?U = "set (bt_data at) \<union> set (bt_data se) \<union> set (bt_data kt)"
  obtain xs where xs: "newest_first xs" "lw_loc ` set xs = plan_locations codes p at se kt" "set xs \<subseteq> stamped ` ?U"
    "engine_query_events (mem_executor n ord rd (matches_filter lw eqf) codes prim at se kt) defaults None (Some f) =
      Some (Inr (cut (limit (plan_filter p)) (deliverable (matches_filter lw eqf) rd (plan_filter p) True (map lw_loc xs))))"
    using memory_query [OF c ix k ord n, of rd "matches_filter lw eqf" prim] fi by auto
  define rs where "rs = (if strategy p = ''kind_time'' then build_kind_time_ranges (plan_filter p) else build_author_time_ranges (plan_filter p))"
  define key where "key = (\<lambda>e :: event. if strategy p = ''kind_time'' then build_kind_time_key (kind e) (created_at e) else build_author_time_key (pubkey e) (kind e) (created_at e))"
  have i: "indexes_events rd key i" "set (bt_data i) \<subseteq> ?U" "plan_locations codes p at se kt = snd ` range_entries rs i"
    using st by (auto simp: key_def rs_def plan_locations_def Let_def)
  have tm: "extract_timestamp_from_key (key e) = created_at e" for e by (simp add: key_def demo_keys)
  have scan: "in_ranges rs (key e) \<longleftrightarrow> matches_filter lw eqf e (plan_filter p)" if "length (pubkey e) = 32" for e
  proof -
    have "plan_scans codes p e \<longleftrightarrow> matches_filter lw eqf e (plan_filter p)" by (rule plan_scans_exact [OF c fi _ k that]) (use st in blast)
    then show ?thesis using st by (auto simp: plan_scans_def author_scan_def kind_scan_def rs_def key_def)
  qed
  have ag: "times_agree ?U" using ix by (simp add: memory_indexes_ok_def)
  have rd: "\<exists>e. rd (lw_loc x) = Inr e \<and> \<not> is_deleted (ev_flags e) \<and> created_at e = lw_created_at x" if x: "x \<in> set xs" for x
  proof -
    have "lw_loc x \<in> snd ` range_entries rs i" using x xs(2) i(3) by blast
    then obtain kk where kk: "(kk, lw_loc x) \<in> set (bt_data i)" by (auto simp: range_entries_def)
    obtain e where e: "rd (lw_loc x) = Inr e" "kk = key e" "\<not> is_deleted (ev_flags e)" using indexes_events_read [OF i(1) kk] by blast
    obtain y where y: "y \<in> ?U" "x = stamped y" using xs(3) x by blast
    have "(kk, lw_loc x) \<in> ?U" "snd y = snd (kk, lw_loc x)" using kk i(2) y(2) by (auto simp: stamped_def)
    then have "entry_time y = entry_time (kk, lw_loc x)" using ag [unfolded times_agree_def] y(1) by blast
    then have "created_at e = lw_created_at x" using e(2) tm y(2) by (simp add: stamped_def)
    then show ?thesis using e(1,3) by blast
  qed
  note d = deliverable_scan [OF xs(1), of rd "matches_filter lw eqf" "plan_filter p", OF ballI, OF rd]
  have "{e. \<exists>l \<in> lw_loc ` set xs. rd l = Inr e} = {e. (\<exists>l \<in> snd ` set (bt_data i). rd l = Inr e) \<and> matches_filter lw eqf e (plan_filter p)}"
  proof -
    have "(\<exists>l \<in> snd ` range_entries rs i. rd l = Inr e) \<longleftrightarrow> (\<exists>l \<in> snd ` set (bt_data i). rd l = Inr e) \<and> matches_filter lw eqf e (plan_filter p)" for e
    proof -
      have "in_ranges rs (fst x) \<longleftrightarrow> matches_filter lw eqf e (plan_filter p)" if x: "x \<in> set (bt_data i)" "rd (snd x) = Inr e" for x
      proof -
        have "(fst x, snd x) \<in> set (bt_data i)" using x(1) by simp
        then obtain e' where "rd (snd x) = Inr e'" "fst x = key e'" "length (pubkey e') = 32" by (rule indexes_events_read [OF i(1)])
        then show ?thesis using x(2) scan by simp
      qed
      then show ?thesis unfolding range_entries_def by blast
    qed
    then show ?thesis unfolding xs(2) i(3) by blast
  qed
  then show ?thesis using xs(4) d
    by (intro exI [of _ "deliverable (matches_filter lw eqf) rd (plan_filter p) True (map lw_loc xs)"] conjI) simp_all
qed

theorem memory_query_exact_witness:
  "\<exists>all. engine_query_events (mem_executor 100 rev demo_read (matches_filter id (=)) demo_codes new_btree_index demo_at demo_se demo_kt) None None (Some demo_kind_filter) =
      Some (Inr all) \<and> plain_event 1 60 [] \<in> set all \<and> sorted_wrt (\<lambda>a b. created_at b \<le> created_at a) all"
proof -
  obtain p where p: "compile_plan demo_codes None (Some demo_kind_filter) = Inr p"
    "fully_indexed p" "strategy p = ''kind_time''" "plan_filter p = demo_kind_filter"
    by (auto simp: plan_eval demo_kind_filter_def)
  have k: "kinds (plan_filter p) \<noteq> []" "\<forall>a \<in> set (authors (plan_filter p)). length a = 32" by (simp_all add: p(4) demo_kind_filter_def)
  have n: "plan_fuel demo_codes p demo_at demo_se demo_kt < 100"
    by (simp add: plan_fuel_def p(4) demo_kind_filter_def demo_indexes build_author_time_ranges_def build_search_ranges_def build_kind_time_ranges_def)
  have "indexes_events demo_read (\<lambda>e. build_kind_time_key (kind e) (created_at e)) demo_kt"
    by (simp add: indexes_events_def demo_indexes demo_read_def demo_locs_def plain_event_def is_deleted_def)
  then have st: "strategy p = ''kind_time'' \<and> demo_kt = demo_kt \<and> indexes_events demo_read (\<lambda>e. build_kind_time_key (kind e) (created_at e)) demo_kt \<or>
      strategy p = ''author_time'' \<and> demo_kt = demo_at \<and> indexes_events demo_read (\<lambda>e. build_author_time_key (pubkey e) (kind e) (created_at e)) demo_at"
    using p(3) by simp
  obtain all where all: "engine_query_events (mem_executor 100 rev demo_read (matches_filter id (=)) demo_codes new_btree_index demo_at demo_se demo_kt) None None (Some demo_kind_filter) =
      Some (Inr (cut (limit (plan_filter p)) all))" "sorted_wrt (\<lambda>a b. created_at b \<le> created_at a) all"
    "set all = {e. (\<exists>l \<in> snd ` set (bt_data demo_kt). demo_read l = Inr e) \<and> matches_filter id (=) e (plan_filter p)}"
    using memory_query_exact [OF p(1) demo_indexes(1) k _ n p(2) st, of rev id "(=)" new_btree_index] by auto
  have "matches_filter id (=) (plain_event 1 60 []) demo_kind_filter" by (simp add: matches_filter_iff demo_kind_filter_def plain_event_def time_ok_def)
  then have "plain_event 1 60 [] \<in> set all" unfolding all(3) p(4) by (auto simp: demo_indexes demo_read_def)
  moreover have "cut (limit (plan_filter p)) all = all" by (simp add: cut_def p(4) demo_kind_filter_def)
  ultimately show ?thesis using all(1,2) by auto
qed

end
