(* ===== verification/Index_Manager.thy ===== *)
theory Index_Manager
  imports Query_Exec Memory_Index
begin

text \<open>
  The index manager of \<open>src/index/manager.go\<close> once its indexes are open: flushing them, and the batches of recovery
  (\<open>InsertRecoveryBatch\<close>, \<open>repairSecondaryIndexes\<close>, \<open>removeRecoveryIndexEntries\<close>). Its four indexes are values of the \<open>Index\<close>
  interface, so the definitions take the operations as an argument (\<open>index_ops\<close>); an iterator over a range is the list of entries it delivers.

  What the manager and the event store rely on of the primary index is stated as locales: it is a map (\<open>primary_map\<close>), with deletion and
  batches (\<open>primary_batch\<close>). Result: a recovery batch gives every event of the batch its last location in the primary index, and leaves the others alone.
\<close>

section \<open>The interface\<close>

record 'x index_ops =
  xo_insert :: "go_error option \<Rightarrow> bytes \<Rightarrow> location \<Rightarrow> 'x \<Rightarrow> go_error option \<times> 'x"
  xo_insert_batch :: "go_error option \<Rightarrow> bytes list \<Rightarrow> location list \<Rightarrow> 'x \<Rightarrow> go_error option \<times> 'x"
  xo_get :: "go_error option \<Rightarrow> bytes \<Rightarrow> 'x \<Rightarrow> (location \<times> bool) result \<times> 'x"
  xo_get_batch :: "go_error option \<Rightarrow> bytes list \<Rightarrow> 'x \<Rightarrow> (location list \<times> bool list) result \<times> 'x"
  xo_delete :: "go_error option \<Rightarrow> bytes \<Rightarrow> location option \<Rightarrow> 'x \<Rightarrow> go_error option \<times> 'x"
  xo_delete_batch :: "go_error option \<Rightarrow> bytes list \<Rightarrow> location option list \<Rightarrow> 'x \<Rightarrow> go_error option \<times> 'x"
  xo_range :: "go_error option \<Rightarrow> bytes \<Rightarrow> bytes \<Rightarrow> 'x \<Rightarrow> entry list result \<times> 'x"
  xo_flush :: "go_error option \<Rightarrow> 'x \<Rightarrow> go_error option \<times> 'x"
  xo_entry_count :: "'x \<Rightarrow> u64"

record 'x index_mgr =
  im_codes :: "(bytes \<times> search_type) list"
  im_primary :: 'x
  im_author_time :: 'x
  im_search :: 'x
  im_kind_time :: 'x

definition author_time_key_of :: "event \<Rightarrow> bytes" where
  "author_time_key_of e = build_author_time_key (pubkey e) (kind e) (created_at e)"

definition kind_time_key_of :: "event \<Rightarrow> bytes" where
  "kind_time_key_of e = build_kind_time_key (kind e) (created_at e)"

definition primary_key_of :: "event \<Rightarrow> bytes" where
  "primary_key_of e = build_primary_key (ev_id e)"

text \<open>Search keys where the code notes a tag as seen before it looks the name up.\<close>

fun search_keys_seen_first :: "(bytes \<times> search_type) list \<Rightarrow> event \<Rightarrow> bytes list \<Rightarrow> bytes list list \<Rightarrow> bytes list" where
  "search_keys_seen_first codes e seen [] = []"
| "search_keys_seen_first codes e seen (tag # ts) =
     (if length tag < 2 then search_keys_seen_first codes e seen ts
      else let tagKey = tag ! 0 @ [0] @ tag ! 1
        in if tagKey \<in> set seen then search_keys_seen_first codes e seen ts
           else case map_of codes (tag ! 0) of
             None \<Rightarrow> search_keys_seen_first codes e (tagKey # seen) ts
           | Some st \<Rightarrow> build_search_key (kind e) st (tag ! 1) (created_at e) # search_keys_seen_first codes e (tagKey # seen) ts)"

section \<open>The manager\<close>

definition im_flush :: "'x index_ops \<Rightarrow> go_error option \<Rightarrow> 'x index_mgr \<Rightarrow> go_error option \<times> 'x index_mgr" where
  "im_flush ops ctx m =
     (if ctx \<noteq> None then (ctx, m)
      else case xo_flush ops ctx (im_primary m) of
        (Some e, x) \<Rightarrow> (Some e, m\<lparr>im_primary := x\<rparr>)
      | (None, x) \<Rightarrow>
          let m1 = m\<lparr>im_primary := x\<rparr>
          in case xo_flush ops ctx (im_author_time m1) of
            (Some e, x) \<Rightarrow> (Some e, m1\<lparr>im_author_time := x\<rparr>)
          | (None, x) \<Rightarrow>
              let m2 = m1\<lparr>im_author_time := x\<rparr>
              in case xo_flush ops ctx (im_search m2) of
                (Some e, x) \<Rightarrow> (Some e, m2\<lparr>im_search := x\<rparr>)
              | (None, x) \<Rightarrow>
                  let m3 = m2\<lparr>im_search := x\<rparr>
                  in case xo_flush ops ctx (im_kind_time m3) of (r, x) \<Rightarrow> (r, m3\<lparr>im_kind_time := x\<rparr>))"

fun delete_keys :: "'x index_ops \<Rightarrow> go_error option \<Rightarrow> location \<Rightarrow> bytes list \<Rightarrow> 'x \<Rightarrow> go_error option \<times> 'x" where
  "delete_keys ops ctx loc [] x = (None, x)"
| "delete_keys ops ctx loc (k # ks) x =
     (case xo_delete ops ctx k (Some loc) x of
        (Some e, x1) \<Rightarrow> (Some (wrap_error ''search delete'' e), x1)
      | (None, x1) \<Rightarrow> delete_keys ops ctx loc ks x1)"

definition remove_recovery_index_entries :: "'x index_ops \<Rightarrow> go_error option \<Rightarrow> event \<Rightarrow> location \<Rightarrow> 'x index_mgr \<Rightarrow> go_error option \<times> 'x index_mgr" where
  "remove_recovery_index_entries ops ctx e loc m =
     (case xo_delete ops ctx (primary_key_of e) None (im_primary m) of
        (Some err, x) \<Rightarrow> (Some (wrap_error ''primary delete'' err), m\<lparr>im_primary := x\<rparr>)
      | (None, x) \<Rightarrow>
          let m1 = m\<lparr>im_primary := x\<rparr>
          in case xo_delete ops ctx (author_time_key_of e) (Some loc) (im_author_time m1) of
            (Some err, x) \<Rightarrow> (Some (wrap_error ''author-time delete'' err), m1\<lparr>im_author_time := x\<rparr>)
          | (None, x) \<Rightarrow>
              let m2 = m1\<lparr>im_author_time := x\<rparr>
              in case xo_delete ops ctx (kind_time_key_of e) (Some loc) (im_kind_time m2) of
                (Some err, x) \<Rightarrow> (Some (wrap_error ''kind-time delete'' err), m2\<lparr>im_kind_time := x\<rparr>)
              | (None, x) \<Rightarrow>
                  let m3 = m2\<lparr>im_kind_time := x\<rparr>
                  in case delete_keys ops ctx loc (search_keys_seen_first (im_codes m) e [] (tags e)) (im_search m3) of
                       (r, x) \<Rightarrow> (r, m3\<lparr>im_search := x\<rparr>))"

text \<open>Of the events with one identifier the last is kept, in the order of the batch.\<close>

fun select_unseen :: "bytes list \<Rightarrow> (event \<times> location) list \<Rightarrow> (event \<times> location) list" where
  "select_unseen seen [] = []"
| "select_unseen seen (p # ps) =
     (if ev_id (fst p) \<in> set seen then select_unseen seen ps else p # select_unseen (ev_id (fst p) # seen) ps)"

definition last_occurrences :: "(event \<times> location) list \<Rightarrow> (event \<times> location) list" where
  "last_occurrences ps = rev (select_unseen [] (rev ps))"

text \<open>The loop over what the primary index has: new events and moved ones are inserted, the others may need repair.\<close>

fun recovery_split ::
  "'x index_ops \<Rightarrow> go_error option \<Rightarrow> ((event \<times> location) \<times> location \<times> bool) list \<Rightarrow> 'x index_mgr \<Rightarrow>
   ((event \<times> location) list \<times> (event \<times> location) list) result \<times> 'x index_mgr" where
  "recovery_split ops ctx [] m = (Inr ([], []), m)"
| "recovery_split ops ctx (((e, l), oldLoc, exists) # ps) m =
     (if exists \<and> oldLoc = l
      then (case recovery_split ops ctx ps m of
              (Inl err, m1) \<Rightarrow> (Inl err, m1)
            | (Inr (us, rs), m1) \<Rightarrow> (Inr (us, (e, l) # rs), m1))
      else case (if exists then remove_recovery_index_entries ops ctx e oldLoc m else (None, m)) of
        (Some err, m1) \<Rightarrow> (Inl (wrap_error ''remove stale recovery entry'' err), m1)
      | (None, m1) \<Rightarrow>
          (case recovery_split ops ctx ps m1 of
             (Inl err, m2) \<Rightarrow> (Inl err, m2)
           | (Inr (us, rs), m2) \<Rightarrow> (Inr ((e, l) # us, rs), m2)))"

text \<open>
  The repair of secondary indexes; errors are logged, and a failing insertion leaves what it inserted.
\<close>

definition repair_author_time :: "'x index_ops \<Rightarrow> go_error option \<Rightarrow> (event \<times> location) list \<Rightarrow> 'x \<Rightarrow> 'x" where
  "repair_author_time ops ctx ps x =
     (let ks = map (author_time_key_of \<circ> fst) ps
      in case xo_get_batch ops ctx ks x of
           (Inl _, x1) \<Rightarrow> x1
         | (Inr (locs, flags), x1) \<Rightarrow>
             let miss = filter (\<lambda>(p, k, old, ex). \<not> ex \<or> old \<noteq> snd p) (zip ps (zip ks (zip locs flags)))
             in if miss = [] then x1
                else snd (xo_insert_batch ops ctx (map (\<lambda>(p, k, _). k) miss) (map (\<lambda>(p, _). snd p) miss) x1))"

text \<open>The keys of an index under which a location is missing, by a scan of each single key.\<close>

fun missing_keys :: "'x index_ops \<Rightarrow> go_error option \<Rightarrow> entry list \<Rightarrow> 'x \<Rightarrow> entry list \<times> 'x" where
  "missing_keys ops ctx [] x = ([], x)"
| "missing_keys ops ctx ((k, l) # es) x =
     (case xo_range ops ctx k k x of
        (Inl _, x1) \<Rightarrow> missing_keys ops ctx es x1
      | (Inr found, x1) \<Rightarrow>
          (case missing_keys ops ctx es x1 of
             (ms, x2) \<Rightarrow> (if l \<in> snd ` set found then ms else (k, l) # ms, x2)))"

definition repair_by_scan :: "'x index_ops \<Rightarrow> go_error option \<Rightarrow> entry list \<Rightarrow> 'x \<Rightarrow> 'x" where
  "repair_by_scan ops ctx es x =
     (case missing_keys ops ctx es x of
        (ms, x1) \<Rightarrow> if ms = [] then x1 else snd (xo_insert_batch ops ctx (map fst ms) (map snd ms) x1))"

definition repair_secondary_indexes :: "'x index_ops \<Rightarrow> go_error option \<Rightarrow> (event \<times> location) list \<Rightarrow> 'x index_mgr \<Rightarrow> 'x index_mgr" where
  "repair_secondary_indexes ops ctx ps m =
     (if ps = [] then m
      else m\<lparr>im_author_time := repair_author_time ops ctx ps (im_author_time m),
             im_kind_time := repair_by_scan ops ctx (map (\<lambda>(e, l). (kind_time_key_of e, l)) ps) (im_kind_time m),
             im_search := repair_by_scan ops ctx
               (concat (map (\<lambda>(e, l). map (\<lambda>k. (k, l)) (search_keys_seen_first (im_codes m) e [] (tags e))) ps)) (im_search m)\<rparr>)"

text \<open>The last part of \<open>InsertRecoveryBatch\<close>: the four batch insertions.\<close>

definition insert_all_indexes :: "'x index_ops \<Rightarrow> go_error option \<Rightarrow> (event \<times> location) list \<Rightarrow> 'x index_mgr \<Rightarrow> go_error option \<times> 'x index_mgr" where
  "insert_all_indexes ops ctx ps m =
     (let locs = map snd ps;
          ses = concat (map (\<lambda>(e, l). map (\<lambda>k. (k, l)) (event_search_keys (im_codes m) e [] (tags e))) ps)
      in case xo_insert_batch ops ctx (map (primary_key_of \<circ> fst) ps) locs (im_primary m) of
        (Some e, x) \<Rightarrow> (Some (wrap_error ''primary index batch insert'' e), m\<lparr>im_primary := x\<rparr>)
      | (None, x) \<Rightarrow>
          let m1 = m\<lparr>im_primary := x\<rparr>
          in case xo_insert_batch ops ctx (map (author_time_key_of \<circ> fst) ps) locs (im_author_time m1) of
            (Some e, x) \<Rightarrow> (Some (wrap_error ''author-time index batch insert'' e), m1\<lparr>im_author_time := x\<rparr>)
          | (None, x) \<Rightarrow>
              let m2 = m1\<lparr>im_author_time := x\<rparr>
              in case xo_insert_batch ops ctx (map (kind_time_key_of \<circ> fst) ps) locs (im_kind_time m2) of
                (Some e, x) \<Rightarrow> (Some (wrap_error ''kind-time index batch insert'' e), m2\<lparr>im_kind_time := x\<rparr>)
              | (None, x) \<Rightarrow>
                  let m3 = m2\<lparr>im_kind_time := x\<rparr>
                  in if ses = [] then (None, m3)
                     else case xo_insert_batch ops ctx (map fst ses) (map snd ses) (im_search m3) of
                       (r, x) \<Rightarrow> (map_option (wrap_error ''search index batch insert'') r, m3\<lparr>im_search := x\<rparr>))"

definition insert_recovery_batch ::
  "'x index_ops \<Rightarrow> go_error option \<Rightarrow> event list \<Rightarrow> location list \<Rightarrow> bool \<Rightarrow> 'x index_mgr \<Rightarrow> go_error option \<times> 'x index_mgr" where
  "insert_recovery_batch ops ctx es ls skipRepair m =
     (if length es \<noteq> length ls then (Some (Err ''events and locations length mismatch''), m)
      else if es = [] then (None, m)
      else let ps = last_occurrences (zip es ls)
        in case xo_get_batch ops ctx (map (primary_key_of \<circ> fst) ps) (im_primary m) of
          (Inl e, x) \<Rightarrow> (Some (wrap_error ''primary recovery lookup'' e), m\<lparr>im_primary := x\<rparr>)
        | (Inr (locs, flags), x) \<Rightarrow>
            (case recovery_split ops ctx (zip ps (zip locs flags)) (m\<lparr>im_primary := x\<rparr>) of
               (Inl e, m1) \<Rightarrow> (Some e, m1)
             | (Inr (us, rs), m1) \<Rightarrow>
                 let m2 = (if skipRepair then m1 else repair_secondary_indexes ops ctx rs m1)
                 in if us = [] then (None, m2) else insert_all_indexes ops ctx us m2))"

section \<open>The primary index as a map\<close>

definition loc_flag :: "location option \<Rightarrow> location \<times> bool" where
  "loc_flag r = (case r of None \<Rightarrow> (zero_location, False) | Some l \<Rightarrow> (l, True))"

lemma primary_key_32 [simp]: "length (ev_id e) = 32 \<Longrightarrow> primary_key_of e = ev_id e"
  by (simp add: primary_key_of_def build_primary_key_def pad_to_def)

lemma select_unseen_facts:
  "distinct (map (ev_id \<circ> fst) (select_unseen seen ps))" "(ev_id \<circ> fst) ` set (select_unseen seen ps) \<inter> set seen = {}"
  "set (select_unseen seen ps) \<subseteq> set ps"
  "map_of (map (\<lambda>(e, l). (ev_id e, l)) (select_unseen seen ps)) k = (if k \<in> set seen then None else map_of (map (\<lambda>(e, l). (ev_id e, l)) ps) k)"
proof (induction ps arbitrary: seen)
  case (Cons p ps)
  { case 1 then show ?case using Cons(1,2) [of "ev_id (fst p) # seen"] Cons(1) by (auto simp: comp_def) }
  { case 2 then show ?case using Cons(2) [of "ev_id (fst p) # seen"] Cons(2) [of seen] by auto }
  { case 3 then show ?case using Cons(3) [of "ev_id (fst p) # seen"] Cons(3) [of seen] by auto }
  { case 4 then show ?case using Cons(4) [of "ev_id (fst p) # seen"] Cons(4) [of seen] by (auto split: prod.splits) }
qed simp_all

lemma last_occurrences_facts:
  "distinct (map (ev_id \<circ> fst) (last_occurrences ps))" "set (last_occurrences ps) \<subseteq> set ps"
  "map_of (rev (map (\<lambda>(e, l). (ev_id e, l)) (last_occurrences ps))) = map_of (rev (map (\<lambda>(e, l). (ev_id e, l)) ps))"
proof -
  show "distinct (map (ev_id \<circ> fst) (last_occurrences ps))" using select_unseen_facts(1) [of "[]" "rev ps"] by (simp add: last_occurrences_def rev_map [symmetric])
  show "set (last_occurrences ps) \<subseteq> set ps" using select_unseen_facts(3) [of "[]" "rev ps"] by (simp add: last_occurrences_def)
  show "map_of (rev (map (\<lambda>(e, l). (ev_id e, l)) (last_occurrences ps))) = map_of (rev (map (\<lambda>(e, l). (ev_id e, l)) ps))"
    using select_unseen_facts(4) [of "[]" "rev ps"] by (intro ext) (simp add: last_occurrences_def rev_map)
qed

lemma distinct_map_of_rev: "distinct (map fst xs) \<Longrightarrow> map_of (rev xs) = map_of xs"
  by (metis distinct_rev map_of_inject_set rev_map set_rev)

definition looked_up :: "(bytes \<rightharpoonup> location) \<Rightarrow> (event \<times> location) list \<Rightarrow> ((event \<times> location) \<times> location \<times> bool) list" where
  "looked_up M ps = map (\<lambda>p. (p, loc_flag (M (primary_key_of (fst p))))) ps"

lemma looked_up_simps [simp]: "looked_up M [] = []" "looked_up M ((e, l) # ps) = ((e, l), loc_flag (M (primary_key_of e))) # looked_up M ps"
  by (simp_all add: looked_up_def)

lemma looked_up_zip:
  "zip ps (zip (map (fst \<circ> loc_flag \<circ> M) (map (primary_key_of \<circ> fst) ps)) (map (snd \<circ> loc_flag \<circ> M) (map (primary_key_of \<circ> fst) ps))) = looked_up M ps"
  by (induction ps) (auto simp: looked_up_def)

locale primary_lookup =
  fixes ops :: "'x index_ops" and holds :: "'x \<Rightarrow> (bytes \<rightharpoonup> location) \<Rightarrow> bool"
  assumes get_law: "holds x m \<Longrightarrow> \<exists>x'. xo_get ops None k x = (Inr (loc_flag (m k)), x') \<and> holds x' m"

text \<open>Deletion may ask for more than that the index holds the map, which a lookup before it must not spoil.\<close>

locale primary_delete = primary_lookup ops holds
  for ops :: "'x index_ops" and holds +
  fixes removable :: "'x \<Rightarrow> (bytes \<rightharpoonup> location) \<Rightarrow> bytes \<Rightarrow> bool"
  assumes get_removable_law: "removable x m k \<Longrightarrow> \<exists>x'. xo_get ops None k x = (Inr (loc_flag (m k)), x') \<and> removable x' m k"
    and remove_law: "removable x m k \<Longrightarrow> \<exists>x'. xo_delete ops None k None x = (None, x') \<and> holds x' (m(k := None))"

locale primary_map = primary_lookup ops holds
  for ops :: "'x index_ops" and holds +
  fixes fits :: "(bytes \<rightharpoonup> location) \<Rightarrow> bytes \<Rightarrow> bool"
  assumes insert_law: "holds x m \<Longrightarrow> m k = None \<Longrightarrow> fits m k \<Longrightarrow> \<exists>x'. xo_insert ops None k l x = (None, x') \<and> holds x' (m(k \<mapsto> l))"
    and flush_law: "holds x m \<Longrightarrow> \<exists>r x'. xo_flush ops None x = (r, x') \<and> holds x' m"

locale primary_batch = primary_map ops holds fits
  for ops :: "'x index_ops" and holds fits +
  assumes delete_law: "holds x m \<Longrightarrow> \<exists>x'. xo_delete ops None k None x = (None, x') \<and> holds x' (m(k := None))"
    and get_batch_law: "holds x m \<Longrightarrow> \<exists>x'. xo_get_batch ops None ks x = (Inr (map (fst \<circ> loc_flag \<circ> m) ks, map (snd \<circ> loc_flag \<circ> m) ks), x') \<and> holds x' m"
    and insert_batch_law: "holds x m \<Longrightarrow> length ks = length ls \<Longrightarrow> \<exists>x'. xo_insert_batch ops None ks ls x = (None, x') \<and> holds x' (m ++ map_of (rev (zip ks ls)))"
    and delete_batch_law: "holds x m \<Longrightarrow> \<exists>x'. xo_delete_batch ops None ks [] x = (None, x') \<and> holds x' (m |` (- set ks))"
    and delete_total: "\<exists>x'. xo_delete ops None k lo x = (None, x')"
    and insert_batch_total: "length ks = length ls \<Longrightarrow> \<exists>x'. xo_insert_batch ops None ks ls x = (None, x')"

begin

lemma remove_entries_ok:
  assumes "holds (im_primary m) M"
  shows "\<exists>m'. remove_recovery_index_entries ops None e l m = (None, m') \<and> holds (im_primary m') (M(primary_key_of e := None)) \<and> im_codes m' = im_codes m"
proof -
  obtain x1 where x1: "xo_delete ops None (primary_key_of e) None (im_primary m) = (None, x1)" "holds x1 (M(primary_key_of e := None))"
    using delete_law [OF assms] by blast
  obtain x2 where x2: "xo_delete ops None (author_time_key_of e) (Some l) (im_author_time m) = (None, x2)" using delete_total by blast
  obtain x3 where x3: "xo_delete ops None (kind_time_key_of e) (Some l) (im_kind_time m) = (None, x3)" using delete_total by blast
  have "\<exists>x'. delete_keys ops None l ks x = (None, x')" for ks x
  proof (induction ks arbitrary: x)
    case (Cons k ks)
    obtain x' where "xo_delete ops None k (Some l) x = (None, x')" using delete_total by blast
    then show ?case using Cons by simp
  qed simp
  then obtain x4 where "delete_keys ops None l (search_keys_seen_first (im_codes m) e [] (tags e)) (im_search m) = (None, x4)" by blast
  then show ?thesis using x1 x2 x3 by (simp add: remove_recovery_index_entries_def Let_def)
qed

lemma recovery_split_ok:
  assumes "holds (im_primary m) M" "distinct (map (primary_key_of \<circ> fst) ps)"
  shows "\<exists>us rs m'. recovery_split ops None (looked_up M ps) m =
      (Inr (us, rs), m') \<and> us = filter (\<lambda>(e, l). M (primary_key_of e) \<noteq> Some l) ps \<and>
    holds (im_primary m') (M |` (- (primary_key_of \<circ> fst) ` set us)) \<and> im_codes m' = im_codes m"
proof -
  have "\<exists>us rs m'. recovery_split ops None (looked_up M ps) m =
      (Inr (us, rs), m') \<and> us = filter (\<lambda>(e, l). M (primary_key_of e) \<noteq> Some l) ps \<and>
    holds (im_primary m') (N |` (- (primary_key_of \<circ> fst) ` set us)) \<and> im_codes m' = im_codes m"
    if "holds (im_primary m) N" "\<forall>p \<in> set ps. N (primary_key_of (fst p)) = M (primary_key_of (fst p))" for N
    using that assms(2)
  proof (induction ps arbitrary: m N)
    case (Cons p ps)
    obtain e l where p: "p = (e, l)" by (cases p)
    let ?k = "primary_key_of e"
    show ?case
    proof (cases "M ?k = Some l")
      case True
      from Cons.IH [OF Cons.prems(1)] Cons.prems(2,3) obtain rs m' where
        "recovery_split ops None (looked_up M ps) m =
          (Inr (filter (\<lambda>(e, l). M (primary_key_of e) \<noteq> Some l) ps, rs), m')"
        "holds (im_primary m') (N |` (- (primary_key_of \<circ> fst) ` set (filter (\<lambda>(e, l). M (primary_key_of e) \<noteq> Some l) ps)))" "im_codes m' = im_codes m" by auto
      then show ?thesis using True p by (simp add: loc_flag_def)
    next
      case False
      define N1 where "N1 = N(?k := None)"
      have "\<exists>m1. (if snd (loc_flag (M ?k)) then remove_recovery_index_entries ops None e (fst (loc_flag (M ?k))) m else (None, m)) = (None, m1) \<and>
          holds (im_primary m1) N1 \<and> im_codes m1 = im_codes m"
      proof (cases "M ?k")
        case None
        then have "N1 = N" using Cons.prems(2) p by (simp add: N1_def fun_upd_idem)
        then show ?thesis using None Cons.prems(1) by (simp add: loc_flag_def)
      next
        case (Some l')
        then show ?thesis using remove_entries_ok [OF Cons.prems(1), of e l'] by (simp add: loc_flag_def N1_def)
      qed
      then obtain m1 where m1: "(if snd (loc_flag (M ?k)) then remove_recovery_index_entries ops None e (fst (loc_flag (M ?k))) m else (None, m)) = (None, m1)"
        "holds (im_primary m1) N1" "im_codes m1 = im_codes m" by blast
      have N1: "\<forall>q \<in> set ps. N1 (primary_key_of (fst q)) = M (primary_key_of (fst q))" using Cons.prems(2,3) p by (force simp: N1_def)
      obtain us rs m' where
        r: "recovery_split ops None (looked_up M ps) m1 =
          (Inr (us, rs), m')" "us = filter (\<lambda>(e, l). M (primary_key_of e) \<noteq> Some l) ps"
        "holds (im_primary m') (N1 |` (- (primary_key_of \<circ> fst) ` set us))" "im_codes m' = im_codes m1"
        using Cons.IH [OF m1(2) N1] Cons.prems(3) by auto
      have "N1 |` (- (primary_key_of \<circ> fst) ` set us) = N |` (- (primary_key_of \<circ> fst) ` set (p # us))"
        by (rule ext) (simp add: N1_def restrict_map_def p)
      moreover have "\<not> (snd (loc_flag (M ?k)) \<and> fst (loc_flag (M ?k)) = l)" using False by (auto simp: loc_flag_def split: option.splits)
      moreover have "recovery_split ops None (looked_up M (p # ps)) m = (Inr ((e, l) # us, rs), m')"
        using calculation(2) r(1) m1(1) p by (cases "loc_flag (M ?k)") auto
      ultimately show ?thesis using r(2-4) m1(3) False p by (intro exI [of _ "p # us"] exI [of _ rs] exI [of _ m']) simp
    qed
  qed (simp add: restrict_map_def)
  from this [OF assms(1)] show ?thesis by simp
qed

lemma insert_all_ok:
  assumes "holds (im_primary m) M"
  shows "\<exists>m'. insert_all_indexes ops None ps m = (None, m') \<and>
    holds (im_primary m') (M ++ map_of (rev (zip (map (primary_key_of \<circ> fst) ps) (map snd ps)))) \<and> im_codes m' = im_codes m"
proof -
  let ?ses = "concat (map (\<lambda>(e, l). map (\<lambda>k. (k, l)) (event_search_keys (im_codes m) e [] (tags e))) ps)"
  obtain x1 where x1: "xo_insert_batch ops None (map (primary_key_of \<circ> fst) ps) (map snd ps) (im_primary m) = (None, x1)"
    "holds x1 (M ++ map_of (rev (zip (map (primary_key_of \<circ> fst) ps) (map snd ps))))"
    using insert_batch_law [OF assms, of "map (primary_key_of \<circ> fst) ps" "map snd ps"] by auto
  obtain x2 where x2: "xo_insert_batch ops None (map (author_time_key_of \<circ> fst) ps) (map snd ps) (im_author_time m) = (None, x2)"
    using insert_batch_total [of "map (author_time_key_of \<circ> fst) ps" "map snd ps"] by auto
  obtain x3 where x3: "xo_insert_batch ops None (map (kind_time_key_of \<circ> fst) ps) (map snd ps) (im_kind_time m) = (None, x3)"
    using insert_batch_total [of "map (kind_time_key_of \<circ> fst) ps" "map snd ps"] by auto
  obtain x4 where x4: "xo_insert_batch ops None (map fst ?ses) (map snd ?ses) (im_search m) = (None, x4)"
    using insert_batch_total [of "map fst ?ses" "map snd ?ses"] by auto
  show ?thesis using x1 x2 x3 x4 by (cases "?ses = []") (simp_all add: insert_all_indexes_def Let_def)
qed

lemma recovery_batch_ok:
  assumes "holds (im_primary m) M" "length es = length ls" "\<forall>e \<in> set es. length (ev_id e) = 32"
  shows "\<exists>m'. insert_recovery_batch ops None es ls skip m = (None, m') \<and> holds (im_primary m') (M ++ map_of (rev (zip (map ev_id es) ls))) \<and>
    im_codes m' = im_codes m"
proof (cases "es = []")
  case True
  then show ?thesis using assms by (simp add: insert_recovery_batch_def)
next
  case False
  define ps where "ps = last_occurrences (zip es ls)"
  have ids: "\<forall>p \<in> set ps. primary_key_of (fst p) = ev_id (fst p)"
    using last_occurrences_facts(2) [of "zip es ls"] assms(3) by (auto simp: ps_def dest!: subsetD set_zip_leftD)
  have d: "distinct (map (primary_key_of \<circ> fst) ps)"
  proof -
    have "map (primary_key_of \<circ> fst) ps = map (ev_id \<circ> fst) ps" using ids by simp
    then show ?thesis using last_occurrences_facts(1) [of "zip es ls"] unfolding ps_def by metis
  qed
  obtain x where x: "xo_get_batch ops None (map (primary_key_of \<circ> fst) ps) (im_primary m) =
      (Inr (map (fst \<circ> loc_flag \<circ> M) (map (primary_key_of \<circ> fst) ps), map (snd \<circ> loc_flag \<circ> M) (map (primary_key_of \<circ> fst) ps)), x)" "holds x M"
    using get_batch_law [OF assms(1)] by blast
  obtain us rs m1 where s: "recovery_split ops None (looked_up M ps) (m\<lparr>im_primary := x\<rparr>) =
      (Inr (us, rs), m1)" "us = filter (\<lambda>(e, l). M (primary_key_of e) \<noteq> Some l) ps"
    "holds (im_primary m1) (M |` (- (primary_key_of \<circ> fst) ` set us))" "im_codes m1 = im_codes m"
    using recovery_split_ok [of "m\<lparr>im_primary := x\<rparr>" M ps] x(2) d by auto
  define m2 where "m2 = (if skip then m1 else repair_secondary_indexes ops None rs m1)"
  have m2: "im_primary m2 = im_primary m1" "im_codes m2 = im_codes m1" by (simp_all add: m2_def repair_secondary_indexes_def)
  have step: "insert_recovery_batch ops None es ls skip m = (if us = [] then (None, m2) else insert_all_indexes ops None us m2)"
    using False assms(2) x(1) s(1) by (simp add: insert_recovery_batch_def ps_def [symmetric] m2_def looked_up_zip [simplified])
  have tgt: "M |` (- (primary_key_of \<circ> fst) ` set us) ++ map_of (rev (zip (map (primary_key_of \<circ> fst) us) (map snd us))) =
      M ++ map_of (rev (zip (map ev_id es) ls))"
  proof -
    let ?kl = "\<lambda>(e, l). (primary_key_of e, l)"
    have z: "zip (map (primary_key_of \<circ> fst) qs) (map snd qs) = map ?kl qs" for qs :: "(event \<times> location) list" by (induction qs) auto
    have eq: "map ?kl ps = map (\<lambda>(e, l). (ev_id e, l)) ps" "zip (map ev_id es) ls = map (\<lambda>(e, l). (ev_id e, l)) (zip es ls)"
      using ids by (auto simp: zip_map1)
    have r: "map_of (rev (zip (map ev_id es) ls)) = map_of (rev (map ?kl ps))"
      unfolding eq by (rule last_occurrences_facts(3) [of "zip es ls", folded ps_def, symmetric])
    have dp: "distinct (map fst (map ?kl ps))" using d by (simp add: comp_def case_prod_unfold)
    have du: "distinct (map fst (map ?kl us))" using dp unfolding s(2) by (simp add: distinct_map_filter comp_def case_prod_unfold distinct_map inj_on_def)
    have "(M |` (- (primary_key_of \<circ> fst) ` set us) ++ map_of (map ?kl us)) k = (M ++ map_of (map ?kl ps)) k" for k
    proof (cases "map_of (map ?kl ps) k")
      case None
      then have "k \<notin> (primary_key_of \<circ> fst) ` set us" "map_of (map ?kl us) k = None" unfolding s(2) by (force simp: map_of_eq_None_iff)+
      then show ?thesis using None by (simp add: map_add_def restrict_map_def)
    next
      case (Some l)
      then have kl: "(k, l) \<in> set (map ?kl ps)" by (rule map_of_SomeD)
      show ?thesis
      proof (cases "M k = Some l")
        case True
        have "k \<notin> (primary_key_of \<circ> fst) ` set us"
        proof
          assume "k \<in> (primary_key_of \<circ> fst) ` set us"
          then obtain l' where l': "(k, l') \<in> set (map ?kl ps)" "M k \<noteq> Some l'" unfolding s(2) by force
          then have "map_of (map ?kl ps) k = Some l'" using dp by (intro map_of_is_SomeI) auto
          then show False using Some True l'(2) by simp
        qed
        moreover have "map_of (map ?kl us) k = None" using calculation by (force simp: map_of_eq_None_iff)
        ultimately show ?thesis using Some True by (simp add: map_add_def restrict_map_def)
      next
        case False
        then have "(k, l) \<in> set (map ?kl us)" using kl unfolding s(2) by force
        then have "map_of (map ?kl us) k = Some l" using du by (intro map_of_is_SomeI)
        then show ?thesis using Some by simp
      qed
    qed
    then show ?thesis unfolding z r distinct_map_of_rev [OF dp] distinct_map_of_rev [OF du] by blast
  qed
  show ?thesis
  proof (cases "us = []")
    case True
    then show ?thesis using step s(3,4) m2 tgt by (simp add: restrict_map_def)
  next
    case False
    have "holds (im_primary m2) (M |` (- (primary_key_of \<circ> fst) ` set us))" using s(3) m2(1) by simp
    from insert_all_ok [OF this, of us] show ?thesis using step False s(4) m2(2) tgt by auto
  qed
qed

end

sublocale primary_batch \<subseteq> primary_delete ops holds "\<lambda>x m _. holds x m"
  by unfold_locales (use get_law delete_law in blast)+

section \<open>The in-memory index\<close>

definition upd :: "'x \<Rightarrow> 'x result \<Rightarrow> go_error option \<times> 'x" where
  "upd x r = (case r of Inl e \<Rightarrow> (Some e, x) | Inr x' \<Rightarrow> (None, x'))"

definition bt_flush :: "go_error option \<Rightarrow> btree_index \<Rightarrow> go_error option \<times> btree_index" where
  "bt_flush ctx i = (ctx, i)"

definition memory_ops :: "btree_index index_ops" where
  "memory_ops = \<lparr>xo_insert = (\<lambda>ctx k l i. upd i (bt_insert ctx i k l)), xo_insert_batch = (\<lambda>ctx ks ls i. upd i (bt_insert_batch ctx i ks ls)),
     xo_get = (\<lambda>ctx k i. (bt_get ctx i k, i)), xo_get_batch = (\<lambda>ctx ks i. (bt_get_batch ctx i ks, i)),
     xo_delete = (\<lambda>ctx k lo i. upd i (bt_delete ctx i k lo)), xo_delete_batch = (\<lambda>ctx ks los i. upd i (bt_delete_batch ctx i ks los)),
     xo_range = (\<lambda>ctx lo hi i. (drain (bt_range ctx i lo hi), i)), xo_flush = bt_flush, xo_entry_count = bt_entry_count\<rparr>"

definition memory_holds :: "btree_index \<Rightarrow> (bytes \<rightharpoonup> location) \<Rightarrow> bool" where
  "memory_holds i M \<longleftrightarrow> bt_inv i \<and> M = map_of (bt_data i)"

lemma bt_lookup_found: "bt_lookup i k = loc_flag (map_of (bt_data i) k)"
  by (simp add: bt_lookup_def loc_flag_def split: option.split)

lemma memory_put: "memory_holds i M \<Longrightarrow> memory_holds (bt_put k l i) (M(k \<mapsto> l))"
  by (simp add: memory_holds_def bt_put_inv) (simp add: bt_put_def AList.update_conv')

lemma memory_puts: "memory_holds i M \<Longrightarrow> memory_holds (fold (\<lambda>(k, v). bt_put k v) es i) (M ++ map_of (rev es))"
proof (induction es arbitrary: i M)
  case (Cons e es)
  obtain k v where e: "e = (k, v)" by (cases e)
  have "memory_holds (fold (\<lambda>(k, v). bt_put k v) es (bt_put k v i)) (M(k \<mapsto> v) ++ map_of (rev es))" using Cons.prems by (intro Cons.IH memory_put)
  moreover have "M(k \<mapsto> v) ++ map_of (rev es) = M ++ map_of (rev (e # es))" by (simp add: e)
  ultimately show ?case by (simp only: e fold_simps prod.case)
qed simp

lemma memory_remove: "memory_holds i M \<Longrightarrow> memory_holds (bt_remove k None i) (M(k := None))"
  by (auto simp: memory_holds_def bt_remove_def bt_inv_def AList.distinct_delete AList.delete_conv' fun_upd_def)

lemma memory_removes: "memory_holds i M \<Longrightarrow> memory_holds (bt_delete_loop ks [] i) (M |` (- set ks))"
proof (induction ks arbitrary: i M)
  case (Cons k ks)
  have "memory_holds (bt_delete_loop ks [] (bt_remove k None i)) (M(k := None) |` (- set ks))" using Cons.prems by (intro Cons.IH memory_remove)
  moreover have "M(k := None) |` (- set ks) = M |` (- set (k # ks))" by (rule ext) (simp add: restrict_map_def)
  ultimately show ?case by simp
qed (simp add: restrict_map_def)

interpretation mem: primary_batch memory_ops memory_holds "\<lambda>_ _. True"
proof
  fix x M k l ks ls lo
  assume h: "memory_holds x M"
  show "\<exists>x'. xo_get memory_ops None k x = (Inr (loc_flag (M k)), x') \<and> memory_holds x' M"
    using h by (simp add: memory_ops_def bt_get_def bt_lookup_found) (simp add: memory_holds_def)
  show "\<exists>x'. xo_insert memory_ops None k l x = (None, x') \<and> memory_holds x' (M(k \<mapsto> l))"
    using memory_put [OF h, of k l] by (simp add: memory_ops_def bt_insert_def upd_def)
  show "\<exists>r x'. xo_flush memory_ops None x = (r, x') \<and> memory_holds x' M" using h by (simp add: memory_ops_def bt_flush_def)
  show "\<exists>x'. xo_delete memory_ops None k None x = (None, x') \<and> memory_holds x' (M(k := None))"
    using memory_remove [OF h, of k] by (simp add: memory_ops_def bt_delete_def upd_def)
  show "\<exists>x'. xo_get_batch memory_ops None ks x = (Inr (map (fst \<circ> loc_flag \<circ> M) ks, map (snd \<circ> loc_flag \<circ> M) ks), x') \<and> memory_holds x' M"
    using h by (simp add: memory_ops_def bt_get_batch_def bt_lookup_found) (simp add: memory_holds_def)
  show "\<exists>x'. xo_insert_batch memory_ops None ks ls x = (None, x') \<and> memory_holds x' (M ++ map_of (rev (zip ks ls)))" if "length ks = length ls"
    using that memory_puts [OF h, of "zip ks ls"] h by (auto simp: memory_ops_def bt_insert_batch_def upd_def)
  show "\<exists>x'. xo_delete_batch memory_ops None ks [] x = (None, x') \<and> memory_holds x' (M |` (- set ks))"
    using memory_removes [OF h, of ks] h by (auto simp: memory_ops_def bt_delete_batch_def upd_def restrict_map_def)
next
  fix x k lo ks and ls :: "location list"
  show "\<exists>x'. xo_delete memory_ops None k lo x = (None, x')" by (simp add: memory_ops_def bt_delete_def upd_def)
  show "\<exists>x'. xo_insert_batch memory_ops None ks ls x = (None, x')" if "length ks = length ls"
    using that by (simp add: memory_ops_def bt_insert_batch_def upd_def)
qed

section \<open>Properties\<close>

text \<open>
  A recovery batch over in-memory indexes succeeds, and the primary index then has, for every event of the batch, the
  location of its last occurrence there, whatever it had before; every other identifier keeps its entry.
\<close>

theorem recovery_batch_primary:
  assumes "bt_inv (im_primary m)" "length es = length ls" "\<forall>e \<in> set es. length (ev_id e) = 32"
  shows "\<exists>m'. insert_recovery_batch memory_ops None es ls skip m = (None, m') \<and> bt_inv (im_primary m') \<and>
    map_of (bt_data (im_primary m')) = map_of (bt_data (im_primary m)) ++ map_of (rev (zip (map ev_id es) ls))"
  using mem.recovery_batch_ok [of m "map_of (bt_data (im_primary m))" es ls skip] assms by (auto simp: memory_holds_def)

theorem recovery_batch_primary_witness:
  "\<exists>m'. insert_recovery_batch memory_ops None [plain_event 1 60 [], plain_event 1 60 []]
      [\<lparr>segment_id = 0, loc_offset = 5\<rparr>, \<lparr>segment_id = 0, loc_offset = 9\<rparr>] True
      \<lparr>im_codes = [], im_primary = new_btree_index, im_author_time = new_btree_index, im_search = new_btree_index, im_kind_time = new_btree_index\<rparr> = (None, m') \<and>
    map_of (bt_data (im_primary m')) (replicate 32 1) = Some \<lparr>segment_id = 0, loc_offset = 9\<rparr>"
  using recovery_batch_primary [of "\<lparr>im_codes = [], im_primary = new_btree_index, im_author_time = new_btree_index, im_search = new_btree_index, im_kind_time = new_btree_index\<rparr>"
      "[plain_event 1 60 [], plain_event 1 60 []]" "[\<lparr>segment_id = 0, loc_offset = 5\<rparr>, \<lparr>segment_id = 0, loc_offset = 9\<rparr>]" True]
  by (force simp: bt_inv_def new_btree_index_def plain_event_def)

end
