(* ===== verification/Serializer.thy ===== *)
theory Serializer
  imports Events
begin

text \<open>
  The TLV event serializer of \<open>src/storage/serializer.go\<close> and the record type of
  \<open>src/storage/interfaces.go\<close>. \<open>serialize\<close> and \<open>deserialize\<close> follow the field order of the
  source; parsing loops over an offset are recursions over the bytes that remain behind it.

  Main results: a serialized record is well formed for its page size (\<open>serialize_rec_wf\<close>),
  deserializing it gives the event back up to the normal form of its tags
  (\<open>serialize_deserialize\<close>), and the inputs on which that normal form is lossy.
\<close>

section \<open>Records\<close>

record rec =
  rec_length :: u32
  rec_flags :: byte
  rec_data :: bytes
  continuation_count :: u16

section \<open>Tags\<close>

text \<open>The inner loop of \<open>serializeTags\<close> over the values of one tag.\<close>

fun serialize_values :: "bytes list \<Rightarrow> bytes result" where
  "serialize_values [] = Inr []"
| "serialize_values (v # vs) =
     (if length v > 65535 then Inl (Err ''tag value too long'')
      else case serialize_values vs of
        Inl e \<Rightarrow> Inl e
      | Inr d \<Rightarrow> Inr (put_u16 (word_of_nat (length v)) @ v @ d))"

text \<open>The type byte: the first byte of the tag name, \<open>'?'\<close> when the name is empty.\<close>

definition tag_type :: "bytes \<Rightarrow> byte" where
  "tag_type name = (case name of [] \<Rightarrow> 63 | c # _ \<Rightarrow> c)"

text \<open>
  The body of the loop over the tags. An empty tag writes nothing. \<open>tag_len\<close> is the length of the
  value count and the values, truncated to 16 bits.
\<close>

definition serialize_tag :: "bytes list \<Rightarrow> bytes result" where
  "serialize_tag tag =
     (case tag of
        [] \<Rightarrow> Inr []
      | name # vals \<Rightarrow>
          if length tag > 255 then Inl (Err ''too many values in tag'')
          else case serialize_values vals of
            Inl e \<Rightarrow> Inl e
          | Inr d \<Rightarrow>
              let body = word_of_nat (length tag - 1) # d
              in Inr (tag_type name # put_u16 (word_of_nat (length body)) @ body))"

fun serialize_tag_list :: "bytes list list \<Rightarrow> bytes result" where
  "serialize_tag_list [] = Inr []"
| "serialize_tag_list (t # ts) =
     (case serialize_tag t of
        Inl e \<Rightarrow> Inl e
      | Inr d \<Rightarrow>
          (case serialize_tag_list ts of Inl e \<Rightarrow> Inl e | Inr ds \<Rightarrow> Inr (d @ ds)))"

definition serialize_tags :: "bytes list list \<Rightarrow> bytes result" where
  "serialize_tags ts =
     (if length ts > 65535 then Inl (Err ''too many tags'')
      else case serialize_tag_list ts of
        Inl e \<Rightarrow> Inl e
      | Inr d \<Rightarrow> Inr (put_u16 (word_of_nat (length ts)) @ d))"

text \<open>Go's \<open>string(b)\<close> of a byte is the UTF-8 encoding of the code point \<open>b\<close>.\<close>

definition rune_string :: "byte \<Rightarrow> bytes" where
  "rune_string b = (if b < 128 then [b] else [192 OR drop_bit 6 b, 128 OR (b AND 63)])"

fun deserialize_values :: "nat \<Rightarrow> bytes \<Rightarrow> bytes list result" where
  "deserialize_values 0 d = Inr []"
| "deserialize_values (Suc n) d =
     (if length d < 2 then Inl (Err ''incomplete value length'')
      else let valLen = unat (get_u16 d); d' = drop 2 d
        in if length d' < valLen then Inl (Err ''value data exceeds bounds'')
           else case deserialize_values n (drop valLen d') of
             Inl e \<Rightarrow> Inl e
           | Inr vs \<Rightarrow> Inr (take valLen d' # vs))"

fun deserialize_tag_list :: "nat \<Rightarrow> bytes \<Rightarrow> bytes list list result" where
  "deserialize_tag_list 0 d = Inr []"
| "deserialize_tag_list (Suc n) d =
     (if length d < 3 then Inl (Err ''incomplete tag header'')
      else let tagType = d ! 0; tagLen = unat (get_u16 (drop 1 d)); d' = drop 3 d
        in if length d' < tagLen then Inl (Err ''tag data exceeds bounds'')
           else let tagData = take tagLen d'; d'' = drop tagLen d'
             in case tagData of
                  [] \<Rightarrow>
                    (case deserialize_tag_list n d'' of
                       Inl e \<Rightarrow> Inl e
                     | Inr ts \<Rightarrow> Inr ([rune_string tagType] # ts))
                | c # vd \<Rightarrow>
                    (case deserialize_values (unat c) vd of
                       Inl e \<Rightarrow> Inl e
                     | Inr vals \<Rightarrow>
                         (case deserialize_tag_list n d'' of
                            Inl e \<Rightarrow> Inl e
                          | Inr ts \<Rightarrow> Inr ((rune_string tagType # vals) # ts))))"

definition deserialize_tags :: "bytes \<Rightarrow> bytes list list result" where
  "deserialize_tags d =
     (if length d < 2 then Inl (Err ''tags data too short'')
      else deserialize_tag_list (unat (get_u16 d)) (drop 2 d))"

section \<open>Events\<close>

text \<open>
  \<open>Serialize\<close>. Sizes are \<open>uint32\<close> and wrap; the buffer has \<open>totalSize\<close> bytes, so a wrapped size
  makes a later write panic. Dividing by a continuation page size of 0 panics.
\<close>

definition serialize :: "u32 \<Rightarrow> event option \<Rightarrow> rec result" where
  "serialize pageSize eo =
     (case eo of
        None \<Rightarrow> Inl (Err ''event is nil'')
      | Some e \<Rightarrow>
        (case wrap_err ''serialize tags'' (serialize_tags (tags e)) of
           Inl x \<Rightarrow> Inl x
         | Inr tagsData \<Rightarrow>
           let contentData = content e;
               baseSize = 148 :: u32;
               size0 = baseSize + word_of_nat (length tagsData) + word_of_nat (length contentData);
               multi = (size0 \<ge> pageSize);
               totalSize = (if multi then size0 + 2 else size0);
               flags = (if multi then set_continued True 0 else 0);
               firstPageData = pageSize - 7;
               remainingData = totalSize - 7 - firstPageData;
               continuationPageData = pageSize - 6;
               count = (if multi
                 then ucast ((remainingData + continuationPageData - 1) div continuationPageData)
                 else 0 :: u16)
           in if multi \<and> continuationPageData = 0 then Inl Panic
              else case fill_buffer (unat totalSize)
                  [put_u32 totalSize, [flags], (if is_continued flags then put_u16 count else []),
                   ev_id e, pubkey e, put_u32 (created_at e), put_u16 (kind e),
                   put_u32 (word_of_nat (length tagsData)), tagsData,
                   put_u32 (word_of_nat (length contentData)), contentData, sig e, [0]] of
                Inl x \<Rightarrow> Inl x
              | Inr data \<Rightarrow>
                  Inr \<lparr>rec_length = totalSize, rec_flags = flags, rec_data = data,
                       continuation_count = count\<rparr>))"

definition deserialize :: "rec option \<Rightarrow> event result" where
  "deserialize ro =
     (case ro of
        None \<Rightarrow> Inl (Err ''record is nil'')
      | Some r \<Rightarrow>
        let data = rec_data r
        in if length data < 148 then Inl (Err ''record too short'')
           else let o0 = (if is_continued (rec_flags r) then 7 else 5);
                    tagsLen = unat (get_u32 (gslice data (o0 + 70) (o0 + 74)));
                    o1 = o0 + 74
             in if o1 + tagsLen > length data then Inl (Err ''tags_len exceeds data bounds'')
                else case wrap_err ''deserialize tags'' (deserialize_tags (gslice data o1 (o1 + tagsLen))) of
                  Inl x \<Rightarrow> Inl x
                | Inr ts \<Rightarrow>
                  let o2 = o1 + tagsLen
                  in if o2 + 4 > length data then Inl (Err ''content_len exceeds data bounds'')
                     else let contentLen = unat (get_u32 (gslice data o2 (o2 + 4))); o3 = o2 + 4
                       in if o3 + contentLen > length data
                          then Inl (Err ''content_len exceeds data bounds'')
                          else let o4 = o3 + contentLen
                            in if o4 + 64 > length data then Inl (Err ''sig exceeds data bounds'')
                               else Inr \<lparr>ev_id = gslice data o0 (o0 + 32),
                                      pubkey = gslice data (o0 + 32) (o0 + 64),
                                      created_at = get_u32 (gslice data (o0 + 64) (o0 + 68)),
                                      kind = get_u16 (gslice data (o0 + 68) (o0 + 70)),
                                      tags = ts,
                                      content = gslice data o3 (o3 + contentLen),
                                      sig = gslice data o4 (o4 + 64),
                                      ev_flags = rec_flags r\<rparr>)"

definition size_hint :: "event \<Rightarrow> u32" where
  "size_hint e =
     148 + sum_list (map (\<lambda>t. 3 + sum_list (map (\<lambda>v. word_of_nat (length v)) t)) (tags e))
       + word_of_nat (length (content e))"

section \<open>Round trip of the tags\<close>

definition norm_tag :: "bytes list \<Rightarrow> bytes list" where
  "norm_tag t = (case t of [] \<Rightarrow> [] | name # vals \<Rightarrow> rune_string (tag_type name) # vals)"

text \<open>The bytes a tag's values occupy, with the count byte.\<close>

definition tag_body_len :: "bytes list \<Rightarrow> nat" where
  "tag_body_len t = 1 + sum_list (map (\<lambda>v. 2 + length v) (tl t))"

definition tags_ok :: "bytes list list \<Rightarrow> bool" where
  "tags_ok ts \<longleftrightarrow> (\<forall>t \<in> set ts. t \<noteq> [] \<and> tag_body_len t \<le> 65535)"

lemma u16_of_nat [simp]: "n \<le> 65535 \<Longrightarrow> unat (word_of_nat n :: u16) = n"
  by (simp add: unat_of_nat)

lemma u32_of_nat: "n < 4294967296 \<Longrightarrow> unat (word_of_nat n :: u32) = n"
  by (simp add: unat_of_nat)

lemma serialize_values_length:
  "serialize_values vs = Inr d \<Longrightarrow> length d = sum_list (map (\<lambda>v. 2 + length v) vs)"
  by (induction vs arbitrary: d) (auto split: if_splits sum.splits)

lemma deserialize_values_serialize:
  "serialize_values vs = Inr d \<Longrightarrow> deserialize_values (length vs) (d @ rest) = Inr vs"
  by (induction vs arbitrary: d) (auto split: if_splits sum.splits)

lemma serialize_tag_shape:
  assumes "serialize_tag t = Inr d" and "t \<noteq> []" and "tag_body_len t \<le> 65535"
  obtains vd where "serialize_values (tl t) = Inr vd" and "length (tl t) < 255"
    and "d = tag_type (hd t) # put_u16 (word_of_nat (tag_body_len t)) @ word_of_nat (length (tl t)) # vd"
    and "tag_body_len t = Suc (length vd)"
proof -
  from assms(1,2) obtain vd where vd: "serialize_values (tl t) = Inr vd" and "length t \<le> 255"
    and d: "d = tag_type (hd t) # put_u16 (word_of_nat (Suc (length vd))) @ word_of_nat (length (tl t)) # vd"
    by (cases t) (auto simp: serialize_tag_def Let_def split: if_splits sum.splits)
  moreover have "tag_body_len t = Suc (length vd)"
    using serialize_values_length [OF vd] by (simp add: tag_body_len_def)
  ultimately show ?thesis using assms(2) by (intro that [OF vd]) (cases t; auto)+
qed

lemma deserialize_tag_list_step:
  assumes "serialize_tag t = Inr d" and "t \<noteq> []" and "tag_body_len t \<le> 65535"
  shows "deserialize_tag_list (Suc n) (d @ rest) =
     (case deserialize_tag_list n rest of Inl e \<Rightarrow> Inl e | Inr ts \<Rightarrow> Inr (norm_tag t # ts))"
proof -
  obtain vd where vd: "serialize_values (tl t) = Inr vd" and lt: "length (tl t) < 255"
    and d: "d = tag_type (hd t) # put_u16 (word_of_nat (tag_body_len t)) @ word_of_nat (length (tl t)) # vd"
    and len: "tag_body_len t = Suc (length vd)"
    using serialize_tag_shape [OF assms] by blast
  have "unat (word_of_nat (length (tl t)) :: byte) = length (tl t)" using lt by (simp add: unat_of_nat)
  moreover obtain name vals where t: "t = name # vals" using assms(2) by (cases t) auto
  moreover have "Suc (length vd) \<le> 65535" using assms(3) len by simp
  ultimately show ?thesis
    using deserialize_values_serialize [OF vd, of "[]"] len
    by (simp add: d t norm_tag_def Let_def del: of_nat_Suc split: sum.split)
qed

text \<open>
  The parser undoes the printer on any list whose tags are not empty and not too long; an empty
  tag is counted by the printer but not written, so the parser runs out of input.
\<close>

lemma deserialize_tag_list_serialize:
  "serialize_tag_list ts = Inr d \<Longrightarrow> tags_ok ts \<Longrightarrow> deserialize_tag_list (length ts) d = Inr (map norm_tag ts)"
proof (induction ts arbitrary: d)
  case (Cons t ts)
  from Cons.prems(1) obtain d1 d2 where d: "serialize_tag t = Inr d1" "serialize_tag_list ts = Inr d2"
    "d = d1 @ d2" by (auto split: sum.splits)
  with Cons show ?case using deserialize_tag_list_step [OF d(1), of "length ts" d2]
    by (auto simp: tags_ok_def simp del: deserialize_tag_list.simps)
qed simp

lemma deserialize_tag_list_short:
  "serialize_tag_list ts = Inr d \<Longrightarrow> tags_ok (filter (\<lambda>t. t \<noteq> []) ts) \<Longrightarrow>
   deserialize_tag_list (length (filter (\<lambda>t. t \<noteq> []) ts) + Suc n) d = Inl (Err ''incomplete tag header'')"
proof (induction ts arbitrary: d)
  case (Cons t ts)
  from Cons.prems(1) obtain d1 d2 where d: "serialize_tag t = Inr d1" "serialize_tag_list ts = Inr d2"
    "d = d1 @ d2" by (auto split: sum.splits)
  show ?case
  proof (cases "t = []")
    case True
    with d Cons show ?thesis by (simp add: serialize_tag_def)
  next
    case False
    with Cons.prems d have "tag_body_len t \<le> 65535" and "tags_ok (filter (\<lambda>t. t \<noteq> []) ts)"
      by (auto simp: tags_ok_def)
    with False Cons.IH [OF d(2)] show ?thesis
      using deserialize_tag_list_step [OF d(1), of "length (filter (\<lambda>t. t \<noteq> []) ts) + Suc n" d2] d(3)
      by (simp del: deserialize_tag_list.simps)
  qed
qed simp

lemma deserialize_serialize_tags:
  "serialize_tags ts = Inr d \<Longrightarrow> tags_ok ts \<Longrightarrow> deserialize_tags d = Inr (map norm_tag ts)"
  by (auto simp: serialize_tags_def deserialize_tags_def deserialize_tag_list_serialize
      split: if_splits sum.splits)

lemma deserialize_serialize_tags_empty_tag:
  assumes "serialize_tags ts = Inr d" and "[] \<in> set ts" and "tags_ok (filter (\<lambda>t. t \<noteq> []) ts)"
  shows "deserialize_tags d = Inl (Err ''incomplete tag header'')"
proof -
  from assms(1) obtain d' where d': "serialize_tag_list ts = Inr d'" "length ts \<le> 65535"
    "d = put_u16 (word_of_nat (length ts)) @ d'"
    by (auto simp: serialize_tags_def split: if_splits sum.splits)
  have "length (filter (\<lambda>t. t \<noteq> []) ts) < length ts"
    using assms(2) by (intro length_filter_less) auto
  then obtain n where "length ts = length (filter (\<lambda>t. t \<noteq> []) ts) + Suc n"
    using less_imp_Suc_add by auto
  then show ?thesis using deserialize_tag_list_short [OF d'(1) assms(3), of n] d'
    by (simp add: deserialize_tags_def del: deserialize_tag_list.simps of_nat_Suc of_nat_add)
qed

text \<open>A tag whose name is one ASCII byte is its own normal form.\<close>

definition tag_canonical :: "bytes list \<Rightarrow> bool" where
  "tag_canonical t \<longleftrightarrow> (case t of [] \<Rightarrow> False | name # _ \<Rightarrow> length name = 1 \<and> hd name < 128)"

lemma norm_tag_canonical: "tag_canonical t \<Longrightarrow> norm_tag t = t"
  by (auto simp: tag_canonical_def norm_tag_def tag_type_def rune_string_def length_Suc_conv split: list.splits)

section \<open>Well-formed records\<close>

text \<open>
  \<open>rec_wf ps r\<close>: the record is laid out as the segment and the scanner expect it with pages of
  \<open>ps\<close> bytes. A record of one page is shorter than a page; a longer one carries its number of
  continuation pages, each of which holds \<open>ps - 6\<close> bytes.
\<close>

definition cont_pages :: "nat \<Rightarrow> nat \<Rightarrow> nat" where
  "cont_pages ps len = (len - 7) div (ps - 6)"

definition rec_wf :: "nat \<Rightarrow> rec \<Rightarrow> bool" where
  "rec_wf ps r \<longleftrightarrow>
     length (rec_data r) = unat (rec_length r) \<and> 148 \<le> length (rec_data r) \<and>
     take 4 (rec_data r) = put_u32 (rec_length r) \<and> rec_data r ! 4 = rec_flags r \<and>
     (if is_continued (rec_flags r)
      then ps + 2 \<le> length (rec_data r) \<and>
        unat (continuation_count r) = cont_pages ps (length (rec_data r)) \<and>
        gslice (rec_data r) 5 7 = put_u16 (continuation_count r)
      else length (rec_data r) < ps \<and> continuation_count r = 0)"

text \<open>The bytes an event needs besides the two of the continuation count.\<close>

definition event_size :: "event \<Rightarrow> bytes \<Rightarrow> nat" where
  "event_size e td = 148 + length td + length (content e)"

text \<open>The serialized bytes of an event: header, then the body that does not depend on the page size.\<close>

definition event_body :: "event \<Rightarrow> bytes \<Rightarrow> bytes" where
  "event_body e td = ev_id e @ pubkey e @ put_u32 (created_at e) @ put_u16 (kind e)
     @ put_u32 (word_of_nat (length td)) @ td @ put_u32 (word_of_nat (length (content e)))
     @ content e @ sig e @ [0]"

lemma length_event_body: "event_wf e \<Longrightarrow> length (event_body e td) = event_size e td - 5"
  by (simp add: event_body_def event_size_def event_wf_def)

lemma fill_event:
  "length (a @ b @ c @ event_body e td) = n \<Longrightarrow>
   fill_buffer n [a, b, c, ev_id e, pubkey e, put_u32 (created_at e), put_u16 (kind e),
     put_u32 (word_of_nat (length td)), td, put_u32 (word_of_nat (length (content e))), content e,
     sig e, [0]] = Inr (a @ b @ c @ event_body e td)"
  by (simp add: fill_buffer_def event_body_def)

definition multi_page :: "u32 \<Rightarrow> event \<Rightarrow> bytes \<Rightarrow> bool" where
  "multi_page ps e td \<longleftrightarrow> unat ps \<le> event_size e td"

definition record_of :: "u32 \<Rightarrow> event \<Rightarrow> bytes \<Rightarrow> rec" where
  "record_of ps e td =
     (let size = (if multi_page ps e td then event_size e td + 2 else event_size e td);
          flags = (if multi_page ps e td then flag_continued else 0);
          count = (if multi_page ps e td then word_of_nat (cont_pages (unat ps) size) else 0)
      in \<lparr>rec_length = word_of_nat size, rec_flags = flags,
          rec_data = put_u32 (word_of_nat size) @ [flags] @ (if multi_page ps e td then put_u16 count else [])
            @ event_body e td,
          continuation_count = count\<rparr>)"

text \<open>While no size wraps, \<open>serialize\<close> computes \<open>record_of\<close>.\<close>

lemma serialize_eq:
  assumes "event_wf e" and "serialize_tags (tags e) = Inr td"
    and "event_size e td + 2 < 2 ^ 32" and "6 < unat ps"
  shows "serialize ps (Some e) = Inr (record_of ps e td)"
proof -
  let ?s0 = "148 + word_of_nat (length td) + word_of_nat (length (content e)) :: u32"
  let ?n = "event_size e td"
  have s0: "?s0 = word_of_nat ?n" by (simp add: event_size_def)
  have un: "unat (word_of_nat ?n :: u32) = ?n" using assms(3) by (simp add: unat_of_nat)
  have un2: "unat (word_of_nat ?n + 2 :: u32) = ?n + 2"
    using assms(3) u32_of_nat [of "?n + 2"] by (simp add: add.commute)
  have multi: "ps \<le> word_of_nat ?n \<longleftrightarrow> multi_page ps e td"
    by (simp add: word_le_nat_alt un multi_page_def)
  have p6: "unat (ps - 6) = unat ps - 6" using assms(4) by (simp add: unat_sub word_le_nat_alt)
  then have nz: "ps - 6 \<noteq> 0" using assms(4) by (metis diff_is_0_eq not_le unat_0)
  have "(word_of_nat ?n + 2 - 7 - (ps - 7) + (ps - 6) - 1 :: u32) = word_of_nat ?n + 2 - 7"
    by (simp add: algebra_simps)
  moreover have "unat (word_of_nat ?n + 2 - 7 :: u32) = ?n + 2 - 7"
    using un2 by (subst unat_sub) (simp_all add: word_le_nat_alt event_size_def)
  ultimately have cnt: "(ucast ((word_of_nat ?n + 2 - 7 - (ps - 7) + (ps - 6) - 1) div (ps - 6)) :: u16)
      = word_of_nat (cont_pages (unat ps) (?n + 2))"
    by (subst of_nat_unat [symmetric]) (simp only: unat_div p6 cont_pages_def)
  have len: "length (event_body e td) = ?n - 5" by (rule length_event_body [OF assms(1)])
  have cont: "is_continued (set_continued True 0)" by simp
  have flag: "set_continued True 0 = flag_continued" by (simp add: set_continued_def)
  have add2: "(word_of_nat (?n + 2) :: u32) = word_of_nat ?n + 2" by simp
  have n5: "?n \<ge> 148" by (simp add: event_size_def)
  show ?thesis
  proof (cases "multi_page ps e td")
    case True
    have fill: "fill_buffer (unat (word_of_nat ?n + 2 :: u32)) [put_u32 (word_of_nat ?n + 2), [flag_continued],
        put_u16 k, ev_id e, pubkey e, put_u32 (created_at e), put_u16 (kind e),
        put_u32 (word_of_nat (length td)), td, put_u32 (word_of_nat (length (content e))), content e,
        sig e, [0]] = Inr (put_u32 (word_of_nat ?n + 2) @ [flag_continued] @ put_u16 k @ event_body e td)" for k
      using len n5 by (intro fill_event) (simp add: un2)
    show ?thesis unfolding serialize_def record_of_def Let_def option.case assms(2)
        wrap_err_simps sum.case s0 multi
      by (simp only: True if_True nz simp_thms if_False cont flag [symmetric] cnt add2 fill [unfolded flag [symmetric]] sum.case)
  next
    case False
    have fill: "fill_buffer (unat (word_of_nat ?n :: u32)) [put_u32 (word_of_nat ?n), [0],
        [], ev_id e, pubkey e, put_u32 (created_at e), put_u16 (kind e),
        put_u32 (word_of_nat (length td)), td, put_u32 (word_of_nat (length (content e))), content e,
        sig e, [0]] = Inr (put_u32 (word_of_nat ?n) @ [0] @ [] @ event_body e td)"
      using len n5 by (intro fill_event) (simp add: un)
    show ?thesis unfolding serialize_def record_of_def Let_def option.case assms(2)
        wrap_err_simps sum.case s0 multi
      by (simp only: False if_False simp_thms is_flag_0 fill sum.case)
  qed
qed

lemma is_continued_flag [simp]: "is_continued flag_continued"
  by (simp add: flag_bits)

lemma record_of_wf:
  assumes "event_wf e" and "event_size e td + 2 < 2 ^ 32"
    and "multi_page ps e td \<Longrightarrow> cont_pages (unat ps) (event_size e td + 2) < 2 ^ 16"
  shows "rec_wf (unat ps) (record_of ps e td)"
proof -
  have n: "148 \<le> event_size e td" by (simp add: event_size_def)
  have u: "unat (word_of_nat (event_size e td + 2) :: u32) = event_size e td + 2"
    "unat (word_of_nat (event_size e td) :: u32) = event_size e td"
    using assms(2) by (auto intro!: u32_of_nat simp del: of_nat_add of_nat_Suc add_2_eq_Suc')
  show ?thesis
    using n assms(3) length_event_body [OF assms(1), of td] u
    by (auto simp: rec_wf_def record_of_def Let_def multi_page_def gslice_def nth_append
        simp del: of_nat_add)
qed

text \<open>Deserializing any record whose data is a header of the right length followed by an event body.\<close>

lemma deserialize_body:
  assumes wf: "event_wf e"
    and len: "length td < 2 ^ 32" "length (content e) < 2 ^ 32"
    and data: "rec_data r = hdr @ event_body e td" "length hdr = (if is_continued (rec_flags r) then 7 else 5)"
  shows "deserialize (Some r) =
     (case wrap_err ''deserialize tags'' (deserialize_tags td) of
        Inl x \<Rightarrow> Inl x | Inr ts \<Rightarrow> Inr (e\<lparr>tags := ts, ev_flags := rec_flags r\<rparr>))"
proof -
  note [simp] = wf [unfolded event_wf_def, THEN conjunct1] wf [unfolded event_wf_def, THEN conjunct2, THEN conjunct1]
    wf [unfolded event_wf_def, THEN conjunct2, THEN conjunct2]
  have u: "unat (word_of_nat (length td) :: u32) = length td"
    "unat (word_of_nat (length (content e)) :: u32) = length (content e)"
    using len by (simp_all add: u32_of_nat)
  let ?o = "length hdr" and ?t = "length td" and ?c = "length (content e)"
  have sl: "gslice (rec_data r) (?o + a) (?o + b) = gslice (event_body e td) a b" for a b
    by (simp add: data(1) gslice_append_right)
  have body: "gslice (event_body e td) 0 32 = ev_id e" "gslice (event_body e td) 32 64 = pubkey e"
    "gslice (event_body e td) 64 68 = put_u32 (created_at e)"
    "gslice (event_body e td) 68 70 = put_u16 (kind e)"
    "gslice (event_body e td) 70 74 = put_u32 (word_of_nat ?t)"
    "gslice (event_body e td) 74 (74 + ?t) = td"
    "gslice (event_body e td) (74 + ?t) (78 + ?t) = put_u32 (word_of_nat ?c)"
    "gslice (event_body e td) (78 + ?t) (78 + (?t + ?c)) = content e"
    "gslice (event_body e td) (78 + (?t + ?c)) (142 + (?t + ?c)) = sig e"
    by (simp_all add: event_body_def gslice_def)
  have "length (rec_data r) = ?o + 143 + ?t + ?c" by (simp add: data(1) event_body_def)
  moreover have "?o \<ge> 5" using data(2) by simp
  ultimately show ?thesis
    using sl [of 0 32] sl [of 32 64] sl [of 64 68] sl [of 68 70] sl [of 70 74] sl [of 74 "74 + ?t"]
      sl [of "74 + ?t" "78 + ?t"] sl [of "78 + ?t" "78 + (?t + ?c)"]
      sl [of "78 + (?t + ?c)" "142 + (?t + ?c)"]
    by (simp add: deserialize_def Let_def data(2) [symmetric] body u add.assoc
        split: sum.split)
qed

lemma deserialize_record_of:
  assumes "event_wf e" and "event_size e td + 2 < 2 ^ 32"
  shows "deserialize (Some (record_of ps e td)) =
     (case wrap_err ''deserialize tags'' (deserialize_tags td) of
        Inl x \<Rightarrow> Inl x
      | Inr ts \<Rightarrow> Inr (e\<lparr>tags := ts, ev_flags := rec_flags (record_of ps e td)\<rparr>))"
  using assms(2)
  by (intro deserialize_body [OF assms(1), where hdr =
        "take (if is_continued (rec_flags (record_of ps e td)) then 7 else 5) (rec_data (record_of ps e td))"])
    (simp_all add: event_size_def record_of_def Let_def)

section \<open>Properties\<close>

text \<open>
  C16: Serializing an event and deserializing the record returns the event, with every tag in its
  normal form (the name cut to the UTF-8 text of its first byte) and the flags of the record. It
  holds for any page size above 6 whenever the tags serialize, no tag is empty, no tag body exceeds
  65535 bytes and the record length fits in 32 bits.
\<close>

theorem serialize_deserialize:
  assumes "event_wf e" and "serialize_tags (tags e) = Inr td" and "tags_ok (tags e)"
    and "event_size e td + 2 < 2 ^ 32" and "6 < unat ps"
  shows "\<exists>r. serialize ps (Some e) = Inr r \<and>
    deserialize (Some r) = Inr (e\<lparr>tags := map norm_tag (tags e), ev_flags := rec_flags r\<rparr>)"
  using serialize_eq [OF assms(1,2,4,5)] deserialize_record_of [OF assms(1,4), of ps]
    deserialize_serialize_tags [OF assms(2,3)] by simp

definition demo_event :: event where
  "demo_event = \<lparr>ev_id = replicate 32 1, pubkey = replicate 32 2, created_at = 1700000000, kind = 1,
     tags = [[lit ''e'', lit ''ab''], [lit ''t'']], content = lit ''hello'', sig = replicate 64 3,
     ev_flags = 0\<rparr>"

lemma demo_event_facts:
  "event_wf demo_event" "tags_ok (tags demo_event)"
  "serialize_tags (tags demo_event) = Inr [0, 2, 101, 0, 5, 1, 0, 2, 97, 98, 116, 0, 1, 0]"
  "event_size demo_event [0, 2, 101, 0, 5, 1, 0, 2, 97, 98, 116, 0, 1, 0] = 167"
  "map norm_tag (tags demo_event) = tags demo_event"
  by (simp_all add: demo_event_def lit_def event_wf_def tags_ok_def tag_body_len_def event_size_def
      serialize_tags_def serialize_tag_def tag_type_def put_eval norm_tag_def rune_string_def)

theorem serialize_deserialize_witness:
  "\<exists>r. serialize 4096 (Some demo_event) = Inr r \<and>
    deserialize (Some r) = Inr (demo_event\<lparr>tags := tags demo_event, ev_flags := rec_flags r\<rparr>)"
  using serialize_deserialize [OF demo_event_facts(1,3,2), of 4096] by (simp add: demo_event_facts)

text \<open>
  C33: A serialized record is well formed: its data is as long as its length field says, carries
  length and flags at the front, is marked as continued exactly when it reaches the page size,
  and then records the number of continuation pages that its length needs.
\<close>

theorem serialize_rec_wf:
  assumes "event_wf e" and "serialize_tags (tags e) = Inr td"
    and "event_size e td + 2 < 2 ^ 32" and "6 < unat ps"
    and "cont_pages (unat ps) (event_size e td + 2) < 2 ^ 16"
  shows "\<exists>r. serialize ps (Some e) = Inr r \<and> rec_wf (unat ps) r \<and>
    (is_continued (rec_flags r) \<longleftrightarrow> unat ps \<le> event_size e td)"
proof -
  have "is_continued (rec_flags (record_of ps e td)) \<longleftrightarrow> unat ps \<le> event_size e td"
    by (simp add: record_of_def Let_def multi_page_def)
  then show ?thesis using serialize_eq [OF assms(1-4)] record_of_wf [OF assms(1,3)] assms(5) by blast
qed

theorem serialize_rec_wf_witness:
  "\<exists>r. serialize 4096 (Some demo_event) = Inr r \<and> rec_wf 4096 r \<and> (is_continued (rec_flags r) \<longleftrightarrow> False)"
  using serialize_rec_wf [OF demo_event_facts(1,3), of 4096] by (simp add: demo_event_facts cont_pages_def)

text \<open>
  An event with an empty tag is accepted by \<open>Serialize\<close> and rejected by \<open>Deserialize\<close>: the tag
  count includes the empty tag, the loop skips it, and the parser runs off the end of the tags.
\<close>

theorem serialize_empty_tag_unreadable:
  assumes "event_wf e" and "serialize_tags (tags e) = Inr td" and "[] \<in> set (tags e)"
    and "tags_ok (filter (\<lambda>t. t \<noteq> []) (tags e))"
    and "event_size e td + 2 < 2 ^ 32" and "6 < unat ps"
  shows "\<exists>r. serialize ps (Some e) = Inr r \<and>
    deserialize (Some r) = Inl (Wrap ''deserialize tags'' (Err ''incomplete tag header''))"
  using serialize_eq [OF assms(1,2,5,6)] deserialize_record_of [OF assms(1,5), of ps]
    deserialize_serialize_tags_empty_tag [OF assms(2,3,4)] by simp

theorem serialize_empty_tag_unreadable_witness:
  "\<exists>r. serialize 4096 (Some (demo_event\<lparr>tags := [[lit ''t''], []]\<rparr>)) = Inr r \<and>
    deserialize (Some r) = Inl (Wrap ''deserialize tags'' (Err ''incomplete tag header''))"
proof -
  let ?e = "demo_event\<lparr>tags := [[lit ''t''], []]\<rparr>" and ?td = "[0, 2, 116, 0, 1, 0] :: bytes"
  have "event_wf ?e" "serialize_tags (tags ?e) = Inr ?td" "[] \<in> set (tags ?e)"
    "tags_ok (filter (\<lambda>t. t \<noteq> []) (tags ?e))" "event_size ?e ?td + 2 < 2 ^ 32"
    by (simp_all add: demo_event_def lit_def event_wf_def tags_ok_def tag_body_len_def event_size_def
      serialize_tags_def serialize_tag_def tag_type_def put_eval)
  then show ?thesis by (rule serialize_empty_tag_unreadable) simp
qed

text \<open>
  The serialized form keeps only the first byte of a tag name: a tag and the tag with its name
  cut to one byte serialize to the same bytes, so names such as "subject" or "relay" are lost.
\<close>

theorem serialize_tag_name_lost:
  "serialize_tag ((c # name) # vals) = serialize_tag ([c] # vals)"
  by (simp add: serialize_tag_def tag_type_def split: sum.split)

text \<open>
  Events whose tag names are single ASCII bytes survive the round trip unchanged except for the
  flags, which are those of the stored record.
\<close>

theorem serialize_canonical_identity:
  assumes "event_wf e" and "serialize_tags (tags e) = Inr td"
    and "\<forall>t \<in> set (tags e). tag_canonical t \<and> tag_body_len t \<le> 65535"
    and "event_size e td + 2 < 2 ^ 32" and "6 < unat ps"
  shows "\<exists>r. serialize ps (Some e) = Inr r \<and> deserialize (Some r) = Inr (e\<lparr>ev_flags := rec_flags r\<rparr>)"
proof -
  have "tags_ok (tags e)" using assms(3) by (auto simp: tags_ok_def tag_canonical_def)
  moreover have "map norm_tag (tags e) = tags e"
    using assms(3) by (simp add: map_idI norm_tag_canonical)
  ultimately show ?thesis
    using serialize_eq [OF assms(1,2,4,5)] deserialize_record_of [OF assms(1,4), of ps]
      deserialize_serialize_tags [OF assms(2)] by simp
qed

theorem serialize_canonical_identity_witness:
  "\<exists>r. serialize 128 (Some demo_event) = Inr r \<and> deserialize (Some r) = Inr (demo_event\<lparr>ev_flags := rec_flags r\<rparr>)"
proof -
  have "\<forall>t \<in> set (tags demo_event). tag_canonical t \<and> tag_body_len t \<le> 65535"
    by (simp add: demo_event_def lit_def tag_canonical_def tag_body_len_def)
  from serialize_canonical_identity [OF demo_event_facts(1,3) this, of 128]
  show ?thesis by (simp add: demo_event_facts)
qed

end
