(* ===== verification/Segment_Layout.thy ===== *)
theory Segment_Layout
  imports Segment
begin

text \<open>
  The layout of records in a segment file and its correctness: page images of records, the
  representation relation \<open>seg_rep\<close> between a segment and the list of records stored in it, and
  the lemmas that creating, appending, reading, updating flags and reopening respect it.
\<close>

section \<open>Page images\<close>

definition cont_page :: "nat \<Rightarrow> bytes \<Rightarrow> bytes" where
  "cont_page P d = pad_to P (put_u32 cont_magic @ put_u16 (word_of_nat (length d)) @ d)"

fun cont_image :: "nat \<Rightarrow> nat \<Rightarrow> bytes \<Rightarrow> bytes" where
  "cont_image P 0 d = []"
| "cont_image P (Suc n) d = cont_page P (take (P - 6) d) @ cont_image P n (drop (P - 6) d)"

definition rec_image :: "nat \<Rightarrow> rec \<Rightarrow> bytes" where
  "rec_image P r =
     (if is_continued (rec_flags r)
      then take P (rec_data r) @ cont_image P (unat (continuation_count r)) (drop P (rec_data r))
      else pad_to P (rec_data r))"

definition rec_span :: "nat \<Rightarrow> rec \<Rightarrow> nat" where
  "rec_span P r = (1 + unat (continuation_count r)) * P"

text \<open>How much of its span a record really writes; the rest of a single page may lie behind the end of the file.\<close>

definition rec_extent :: "nat \<Rightarrow> rec \<Rightarrow> nat" where
  "rec_extent P r = (if is_continued (rec_flags r) then rec_span P r else length (rec_data r))"

definition page_ok :: "nat \<Rightarrow> bool" where
  "page_ok P \<longleftrightarrow> 40 \<le> P \<and> P < 65536"

lemma length_cont_page [simp]: "6 \<le> P \<Longrightarrow> length d \<le> P - 6 \<Longrightarrow> length (cont_page P d) = P"
  by (simp add: cont_page_def)

lemma length_cont_image [simp]: "6 \<le> P \<Longrightarrow> length (cont_image P n d) = n * P"
  by (induction n arbitrary: d) auto

lemma length_rec_image [simp]: "page_ok P \<Longrightarrow> rec_wf P r \<Longrightarrow> length (rec_image P r) = rec_span P r"
  by (auto simp: rec_image_def rec_span_def rec_wf_def page_ok_def)

lemma rec_extent_le: "page_ok P \<Longrightarrow> rec_wf P r \<Longrightarrow> rec_extent P r \<le> rec_span P r"
  by (auto simp: rec_extent_def rec_span_def rec_wf_def)

lemma cont_pages_enough: "6 < P \<Longrightarrow> P + 2 \<le> len \<Longrightarrow> len - P \<le> cont_pages P len * (P - 6)"
proof -
  assume P: "6 < P" and "P + 2 \<le> len"
  have "len - 7 = cont_pages P len * (P - 6) + (len - 7) mod (P - 6)"
    unfolding cont_pages_def by (rule div_mult_mod_eq [symmetric])
  moreover have "(len - 7) mod (P - 6) < P - 6" using P by simp
  ultimately show ?thesis by linarith
qed

section \<open>Writing and reading the continuation pages\<close>

text \<open>The length of the next chunk, as the code computes it.\<close>

definition chunk_len :: "u32 \<Rightarrow> bytes \<Rightarrow> u32 \<Rightarrow> u32" where
  "chunk_len ps data dOff =
     (if ps - 6 > word_of_nat (length data) - dOff then word_of_nat (length data) - dOff else ps - 6)"

lemma unat_chunk_len:
  assumes "length data < 2 ^ 32" and "unat dOff \<le> length data" and "6 < unat ps"
  shows "unat (chunk_len ps data dOff) = min (unat ps - 6) (length data - unat dOff)"
proof -
  have "unat (ps - 6) = unat ps - 6" using assms(3) by (simp add: unat_sub_le)
  moreover have "unat (word_of_nat (length data) - dOff) = length data - unat dOff"
    using assms(1,2) by (subst unat_sub_le) (simp_all add: u32_of_nat)
  ultimately show ?thesis by (simp add: chunk_len_def word_less_nat_alt)
qed

lemma write_cont_pages_image:
  assumes "unat ps = P" and "page_ok P" and "length data < 2 ^ 32"
  shows "unat dOff \<le> length data \<Longrightarrow> length f = unat cOff \<Longrightarrow> unat cOff + n * P < 2 ^ 32 \<Longrightarrow>
    write_cont_pages n ps data dOff cOff f = Inr (f @ cont_image P n (drop (unat dOff) data))"
proof (induction n arbitrary: dOff cOff f)
  case (Suc n)
  let ?k = "chunk_len ps data dOff" and ?d = "drop (unat dOff) data"
  have P: "6 < P" "P < 65536" using assms(2) by (auto simp: page_ok_def)
  have k: "unat ?k = min (P - 6) (length ?d)"
    using unat_chunk_len [OF assms(3) Suc.prems(1)] assms(1) P by simp
  then have uk: "unat (dOff + ?k) = unat dOff + unat ?k"
    using Suc.prems(1) assms(3) by (intro unat_add_small) (auto simp: min_def)
  have dk: "unat (dOff + ?k) \<le> length data" using uk k Suc.prems(1) by simp
  have ck: "(ucast ?k :: u16) = word_of_nat (length (take (P - 6) ?d))"
    using k by (subst of_nat_unat [symmetric]) (simp add: min.commute)
  have chunk: "gslice data (unat dOff) (unat (dOff + ?k)) = take (P - 6) ?d"
    unfolding uk gslice_def k by (simp add: min_def)
  have page: "fill_buffer (unat ps) [put_u32 cont_magic, put_u16 (ucast ?k),
      gslice data (unat dOff) (unat (dOff + ?k))] = Inr (cont_page P (take (P - 6) ?d))"
    unfolding chunk ck using P by (simp add: fill_buffer_def Let_def cont_page_def pad_to_def assms(1))
  have uc: "unat (cOff + ps) = unat cOff + P"
    using Suc.prems(3) assms(1) by (subst unat_add_small) auto
  have next_d: "drop (unat (dOff + ?k)) data = drop (P - 6) ?d"
    unfolding uk k by (cases "P - 6 \<le> length ?d") (simp_all add: add.commute)
  have "write_cont_pages n ps data (dOff + ?k) (cOff + ps) (f @ cont_page P (take (P - 6) ?d)) =
      Inr ((f @ cont_page P (take (P - 6) ?d)) @ cont_image P n (drop (P - 6) ?d))"
    using Suc.prems(2,3) P dk uc Suc.IH [of "dOff + ?k" "f @ cont_page P (take (P - 6) ?d)" "cOff + ps"]
    by (simp add: next_d)
  moreover have "write_at f (cont_page P (take (P - 6) ?d)) (unat cOff) = f @ cont_page P (take (P - 6) ?d)"
    using Suc.prems(2) by (simp add: write_at_end)
  ultimately show ?case using page
    by (simp add: Let_def chunk_len_def [symmetric])
qed simp

lemma cont_page_fields:
  assumes "6 < P" "P < 65536" "length d \<le> P - 6"
  shows "get_u32 (gslice (cont_page P d) 0 4) = cont_magic"
    "get_u16 (gslice (cont_page P d) 4 6) = word_of_nat (length d)"
    "gslice (cont_page P d) 6 (6 + length d) = d"
proof -
  have eq: "cont_page P d = put_u32 cont_magic @ put_u16 (word_of_nat (length d)) @ d @
      replicate (P - 6 - length d) 0"
    using assms by (simp add: cont_page_def pad_to_def)
  show "get_u32 (gslice (cont_page P d) 0 4) = cont_magic"
    "get_u16 (gslice (cont_page P d) 4 6) = word_of_nat (length d)"
    "gslice (cont_page P d) 6 (6 + length d) = d"
    unfolding eq gslice_def by simp_all
qed

lemma read_cont_pages_image:
  assumes "unat ps = P" and "page_ok P"
  shows "length d \<le> n * (P - 6) \<Longrightarrow> unat cOff + n * P \<le> length f \<Longrightarrow> length f < 2 ^ 32 \<Longrightarrow>
    gslice f (unat cOff) (unat cOff + n * P) = cont_image P n d \<Longrightarrow>
    length xs = unat dOff \<Longrightarrow> unat dOff + length d < 2 ^ 32 \<Longrightarrow>
    read_cont_pages msg n f ps (xs @ replicate (length d) 0) dOff cOff =
      Inr (xs @ d, word_of_nat (unat dOff + length d))"
proof (induction n arbitrary: d xs dOff cOff)
  case 0
  then show ?case by simp
next
  case (Suc n)
  let ?c = "take (P - 6) d" and ?d = "drop (P - 6) d"
  have P: "6 < P" "P < 65536" using assms(2) by (auto simp: page_ok_def)
  have lc: "length ?c \<le> P - 6" "length ?c < 65530" using P by auto
  have uc: "unat (cOff + ps) = unat cOff + P"
    using Suc.prems(2,3) assms(1) by (subst unat_add_small) auto
  have split: "gslice f (unat cOff) (unat cOff + P) = cont_page P ?c"
    "gslice f (unat cOff + P) (unat cOff + P + n * P) = cont_image P n ?d"
  proof -
    have eq: "gslice f (unat cOff) (unat cOff + Suc n * P) =
        gslice f (unat cOff) (unat cOff + P) @ gslice f (unat cOff + P) (unat cOff + P + n * P)"
      by (simp add: gslice_def take_add add.commute)
    have len: "length (gslice f (unat cOff) (unat cOff + P)) = length (cont_page P ?c)"
      using Suc.prems(2) P lc by simp
    from Suc.prems(4) [unfolded eq cont_image.simps] len
    show "gslice f (unat cOff) (unat cOff + P) = cont_page P ?c"
      and "gslice f (unat cOff + P) (unat cOff + P + n * P) = cont_image P n ?d"
      by (simp_all only: append_eq_append_conv simp_thms)
  qed
  have page: "read_at f (unat ps) (unat cOff) = Inr (cont_page P ?c)"
    using Suc.prems(2) split(1) assms(1) by (simp add: read_at_def)
  let ?l = "word_of_nat (length ?c) :: u16"
  have ul: "unat ?l = length ?c" using lc by (intro u16_of_nat) simp
  have uw: "unat (ucast ?l :: u32) = length ?c" using ul by simp
  have hi: "unat (6 + ?l) = 6 + length ?c" using lc ul by (subst unat_add_small) simp_all
  have ud: "unat (dOff + ucast ?l) = unat dOff + length ?c"
    using Suc.prems(6) uw by (subst unat_add_small) auto
  have bound: "\<not> dOff + ucast ?l > word_of_nat (length (xs @ replicate (length d) 0))"
    using Suc.prems(5,6) ud by (simp add: word_less_nat_alt u32_of_nat del: of_nat_add)
  have cp: "copy_into (xs @ replicate (length d) 0) (unat dOff) (gslice (cont_page P ?c) 6 (6 + length ?c)) =
      Inr ((xs @ ?c) @ replicate (length ?d) 0)"
    unfolding cont_page_fields(3) [OF P lc(1)] using Suc.prems(5)
    by (subst copy_into_front) (auto simp: min_def)
  have cd: "length ?c + length ?d = length d" by (simp only: length_append [symmetric] append_take_drop_id)
  have tot: "unat (dOff + ucast ?l) + length ?d = unat dOff + length d" unfolding ud using cd by simp
  have "read_cont_pages msg n f ps ((xs @ ?c) @ replicate (length ?d) 0) (dOff + ucast ?l) (cOff + ps) =
      Inr ((xs @ ?c) @ ?d, word_of_nat (unat (dOff + ucast ?l) + length ?d))"
    using Suc.prems(1-3,5,6) split(2) uc ud by (intro Suc.IH, unfold tot) auto
  then show ?case
    using page bound cp lc P unfolding tot
    by (simp add: cont_page_fields [OF P lc(1)] Let_def hi assms(1) del: of_nat_add length_take)
qed

section \<open>The representation relation\<close>

definition rec_offset :: "nat \<Rightarrow> rec list \<Rightarrow> nat \<Rightarrow> nat" where
  "rec_offset P rs i = P + sum_list (map (rec_span P) (take i rs))"

definition record_ok :: "nat \<Rightarrow> rec \<Rightarrow> bool" where
  "record_ok P r \<longleftrightarrow> rec_wf P r \<and> length (rec_data r) \<le> max_record_len"

text \<open>What the segment's bounds guarantee: no offset below \<open>max_size\<close> plus two pages wraps.\<close>

definition seg_bounds :: "file_segment \<Rightarrow> bool" where
  "seg_bounds s \<longleftrightarrow> page_ok (unat (page_size s)) \<and> unat (max_size s) + 2 * unat (page_size s) \<le> 2 ^ 32"

definition header_ok :: "file_segment \<Rightarrow> bytes \<Rightarrow> bool" where
  "header_ok s hdr \<longleftrightarrow> length hdr = unat (page_size s) \<and> get_u32 (gslice hdr 0 4) = seg_magic \<and>
     gslice hdr 20 28 = put_u32 (record_count s) @ put_u32 (next_offset s)"

definition sizes_ok :: "file_segment \<Rightarrow> rec list \<Rightarrow> bool" where
  "sizes_ok s rs \<longleftrightarrow>
     unat (next_offset s) = rec_offset (unat (page_size s)) rs (length rs) \<and>
     length (seg_file s) \<le> unat (current_size s) \<and> unat (current_size s) \<le> unat (next_offset s) \<and>
     unat (next_offset s) < unat (current_size s) + unat (page_size s) \<and>
     unat (page_size s) \<le> length (seg_file s) \<and>
     (\<forall>i < length rs. rec_offset (unat (page_size s)) rs i + rec_extent (unat (page_size s)) (rs ! i)
        \<le> length (seg_file s))"

definition seg_rep :: "file_segment \<Rightarrow> bytes \<Rightarrow> rec list \<Rightarrow> bool" where
  "seg_rep s hdr rs \<longleftrightarrow>
     seg_bounds s \<and> (\<forall>r \<in> set rs. record_ok (unat (page_size s)) r) \<and> header_ok s hdr \<and>
     record_count s = word_of_nat (length rs) \<and> sizes_ok s rs \<and>
     pad_to (unat (next_offset s)) (seg_file s) = hdr @ concat (map (rec_image (unat (page_size s))) rs)"

lemma rec_offset_Nil [simp]: "rec_offset P [] i = P" "rec_offset P rs 0 = P"
  by (simp_all add: rec_offset_def)

lemma rec_offset_snoc:
  "i \<le> length rs \<Longrightarrow> rec_offset P (rs @ xs) i = rec_offset P rs i"
  "rec_offset P (rs @ [r]) (Suc (length rs)) = rec_offset P rs (length rs) + rec_span P r"
  by (simp_all add: rec_offset_def)

lemma rec_offset_Suc: "i < length rs \<Longrightarrow> rec_offset P rs (Suc i) = rec_offset P rs i + rec_span P (rs ! i)"
  by (simp add: rec_offset_def take_Suc_conv_app_nth)

lemma rec_offset_dvd: "P dvd rec_offset P rs i"
proof -
  have "P dvd sum_list (map (rec_span P) xs)" for xs by (induction xs) (auto simp: rec_span_def)
  then show ?thesis by (simp add: rec_offset_def)
qed

lemma rec_offset_mono: "i \<le> j \<Longrightarrow> rec_offset P rs i \<le> rec_offset P rs j"
  by (auto simp: rec_offset_def le_iff_add take_add)

lemma rec_offset_bound:
  "i < length rs \<Longrightarrow> rec_offset P rs i + rec_span P (rs ! i) \<le> rec_offset P rs (length rs)"
  using rec_offset_mono [of "Suc i" "length rs" P rs] by (simp add: rec_offset_Suc)

lemma length_images:
  "page_ok P \<Longrightarrow> \<forall>r \<in> set rs. record_ok P r \<Longrightarrow>
   length (concat (map (rec_image P) rs)) = sum_list (map (rec_span P) rs)"
  by (induction rs) (auto simp: record_ok_def)

text \<open>The bytes of one record inside the whole image.\<close>

lemma gslice_image:
  assumes "page_ok P" and "\<forall>r \<in> set rs. record_ok P r" and "length hdr = P" and "i < length rs"
    and "b \<le> rec_span P (rs ! i)"
  shows "gslice (hdr @ concat (map (rec_image P) rs)) (rec_offset P rs i + a) (rec_offset P rs i + b)
    = gslice (rec_image P (rs ! i)) a b"
proof -
  have rs: "rs = take i rs @ rs ! i # drop (Suc i) rs" using assms(4) by (simp add: id_take_nth_drop)
  let ?pre = "hdr @ concat (map (rec_image P) (take i rs))"
  have pre: "length ?pre = rec_offset P rs i"
    using length_images [OF assms(1), of "take i rs"] assms(2,3)
    by (auto simp: rec_offset_def dest: in_set_takeD)
  have "hdr @ concat (map (rec_image P) rs) =
      ?pre @ rec_image P (rs ! i) @ concat (map (rec_image P) (drop (Suc i) rs))"
    by (subst rs) simp
  moreover have "length (rec_image P (rs ! i)) = rec_span P (rs ! i)"
    using assms(1,2,4) by (simp add: record_ok_def)
  ultimately show ?thesis using assms(5) pre by (simp add: gslice_append_right)
qed

lemma read_at_record:
  assumes "seg_rep s hdr rs" and "i < length rs" and "P = unat (page_size s)"
    and "a + n \<le> rec_extent P (rs ! i)"
  shows "read_at (seg_file s) n (rec_offset P rs i + a) = Inr (gslice (rec_image P (rs ! i)) a (a + n))"
proof -
  have ok: "page_ok P" "\<forall>r \<in> set rs. record_ok P r" "length hdr = P"
    using assms(1,3) by (auto simp: seg_rep_def seg_bounds_def header_ok_def)
  have "rec_offset P rs i + a + n \<le> length (seg_file s)"
    using assms by (force simp: seg_rep_def sizes_ok_def)
  moreover have "a + n \<le> rec_span P (rs ! i)"
    using rec_extent_le [OF ok(1), of "rs ! i"] ok(2) assms(2,4) by (auto simp: record_ok_def)
  ultimately show ?thesis
    using read_at_pad [of "rec_offset P rs i + a" n "seg_file s" "unat (next_offset s)"]
      gslice_image [OF ok assms(2), of "a + n" a] assms(1,3)
    by (simp add: seg_rep_def add.assoc)
qed

section \<open>Reading a stored record\<close>

lemma rec_wf_len_span:
  assumes "page_ok P" and "rec_wf P r"
  shows "length (rec_data r) \<le> rec_extent P r" and "148 \<le> length (rec_data r)"
    and "length (rec_data r) = unat (rec_length r)"
proof -
  have "length (rec_data r) \<le> P + cont_pages P (length (rec_data r)) * P" if "P + 2 \<le> length (rec_data r)"
  proof -
    have "cont_pages P (length (rec_data r)) * (P - 6) \<le> cont_pages P (length (rec_data r)) * P"
      by (rule mult_le_mono2) simp
    moreover have "length (rec_data r) - P \<le> cont_pages P (length (rec_data r)) * (P - 6)"
      using that assms(1) by (intro cont_pages_enough) (auto simp: page_ok_def)
    ultimately show ?thesis by linarith
  qed
  then show "length (rec_data r) \<le> rec_extent P r"
    using assms(2) by (auto simp: rec_extent_def rec_span_def rec_wf_def split: if_splits)
qed (use assms(2) in \<open>auto simp: rec_wf_def\<close>)

lemma rec_image_header:
  assumes "page_ok P" and "rec_wf P r"
  shows "gslice (rec_image P r) 0 7 = take 7 (rec_data r)"
    and "get_u32 (gslice (take 7 (rec_data r)) 0 4) = rec_length r"
    and "take 7 (rec_data r) ! 4 = rec_flags r"
  using assms by (auto simp: rec_image_def rec_wf_def page_ok_def gslice_def pad_to_def min_def)

lemma rec_image_multi:
  assumes "page_ok P" and "rec_wf P r" and "is_continued (rec_flags r)"
  shows "gslice (rec_image P r) 0 P = take P (rec_data r)"
    and "gslice (rec_image P r) P (P + unat (continuation_count r) * P) =
       cont_image P (unat (continuation_count r)) (drop P (rec_data r))"
    and "get_u16 (gslice (take P (rec_data r)) 5 7) = continuation_count r"
proof -
  have P: "40 \<le> P" "P + 2 \<le> length (rec_data r)"
    "gslice (rec_data r) 5 7 = put_u16 (continuation_count r)"
    using assms by (auto simp: page_ok_def rec_wf_def)
  then show "gslice (rec_image P r) 0 P = take P (rec_data r)"
    and "gslice (rec_image P r) P (P + unat (continuation_count r) * P) =
       cont_image P (unat (continuation_count r)) (drop P (rec_data r))"
    using assms(3) by (simp_all add: rec_image_def gslice_def)
  have "gslice (take P (rec_data r)) 5 7 = gslice (rec_data r) 5 7"
    using P(1) by (simp add: gslice_def drop_take min_def)
  then show "get_u16 (gslice (take P (rec_data r)) 5 7) = continuation_count r"
    using P(3) by simp
qed

text \<open>The three steps that reconstruct a continued record: first page, first chunk, continuation pages.\<close>

lemma multi_read_parts:
  assumes rep: "seg_rep s hdr rs" and i: "i < length rs" and P: "P = unat (page_size s)"
    and r: "r = rs ! i" and c: "is_continued (rec_flags r)" and off: "unat off = rec_offset P rs i"
  shows "read_at (seg_file s) P (rec_offset P rs i) = Inr (take P (rec_data r))"
    and "copy_into (gslice (take P (rec_data r)) 0 7 @ replicate (unat (rec_length r) - 7) 0) 7
      (gslice (take P (rec_data r)) 7 P) = Inr (take P (rec_data r) @ replicate (length (rec_data r) - P) 0)"
    and "read_cont_pages msg (unat (continuation_count r)) (seg_file s) (page_size s)
      (take P (rec_data r) @ replicate (length (rec_data r) - P) 0) (page_size s) (off + page_size s) =
      Inr (rec_data r, rec_length r)"
proof -
  let ?d = "rec_data r" and ?n = "unat (continuation_count r)"
  have ok: "page_ok P" "rec_wf P r"
    using rep i P r by (auto simp: seg_rep_def seg_bounds_def record_ok_def)
  have P40: "40 \<le> P" "P < 65536" using ok(1) by (auto simp: page_ok_def)
  have len: "P + 2 \<le> length ?d" "length ?d = unat (rec_length r)" "?n = cont_pages P (length ?d)"
    using ok(2) c by (auto simp: rec_wf_def)
  have ext: "rec_extent P r = P + ?n * P" using c by (simp add: rec_extent_def rec_span_def)
  have inside: "rec_offset P rs i + (P + ?n * P) \<le> length (seg_file s)" "length (seg_file s) < 2 ^ 32"
    using rep i P ext r unat_bounds(3) [of "next_offset s"] by (force simp: seg_rep_def sizes_ok_def)+
  show "read_at (seg_file s) P (rec_offset P rs i) = Inr (take P ?d)"
    using read_at_record [OF rep i P, of 0 P] ext r rec_image_multi(1) [OF ok c] by simp
  have "take P ?d = take 7 ?d @ gslice (take P ?d) 7 P"
    using P40 by (simp add: gslice_def drop_take flip: take_add)
  then show "copy_into (gslice (take P ?d) 0 7 @ replicate (unat (rec_length r) - 7) 0) 7
      (gslice (take P ?d) 7 P) = Inr (take P ?d @ replicate (length ?d - P) 0)"
    using P40 len by (subst copy_into_front) (simp_all add: gslice_def)
  have uo: "unat (off + page_size s) = rec_offset P rs i + P"
    using inside off P by (subst unat_add_small) auto
  have conts: "gslice (seg_file s) (unat (off + page_size s)) (unat (off + page_size s) + ?n * P) =
      cont_image P ?n (drop P ?d)"
    using read_at_record [OF rep i P, of P "?n * P"] ext r rec_image_multi(2) [OF ok c] inside(1)
    by (simp add: read_at_def uo add.assoc)
  have "read_cont_pages msg ?n (seg_file s) (page_size s) (take P ?d @ replicate (length (drop P ?d)) 0)
      (page_size s) (off + page_size s) = Inr (take P ?d @ drop P ?d,
        word_of_nat (unat (page_size s) + length (drop P ?d)))"
    using cont_pages_enough [of P "length ?d"] P40 len inside uo conts ok(1) P
      unat_bounds(3) [of "rec_length r"]
    by (intro read_cont_pages_image [where P = P]) auto
  moreover have "word_of_nat (unat (page_size s) + length (drop P ?d)) = rec_length r"
    using len P by (simp del: of_nat_add)
  ultimately show "read_cont_pages msg ?n (seg_file s) (page_size s)
      (take P ?d @ replicate (length ?d - P) 0) (page_size s) (off + page_size s) = Inr (?d, rec_length r)"
    by simp
qed

lemma stored_record_bounds:
  assumes "seg_rep s hdr rs" and "i < length rs" and "P = unat (page_size s)"
  shows "page_ok P" and "rec_wf P (rs ! i)" and "length (rec_data (rs ! i)) \<le> max_record_len"
    and "rec_offset P rs i + rec_extent P (rs ! i) \<le> length (seg_file s)"
    and "length (seg_file s) \<le> unat (current_size s)" and "unat (current_size s) \<le> unat (next_offset s)"
  using assms by (force simp: seg_rep_def seg_bounds_def record_ok_def sizes_ok_def)+

lemma read_multi_rep:
  assumes rep: "seg_rep s hdr rs" and i: "i < length rs" and P: "P = unat (page_size s)"
    and r: "r = rs ! i" and c: "is_continued (rec_flags r)" and off: "unat off = rec_offset P rs i"
  shows "read_multi_page_record s off (rec_length r) (rec_flags r) = Inr r"
proof -
  note b = stored_record_bounds [OF rep i P, folded r]
  note parts = multi_read_parts [OF rep i P r c off] and wf = rec_wf_len_span [OF b(1,2)]
  have "7 + (page_size s - 7) = page_size s" by simp
  moreover have "40 \<le> P" using b(1) by (simp add: page_ok_def)
  ultimately show ?thesis
    using parts rec_image_multi(3) [OF b(1,2) c] wf b P off
    by (simp add: read_multi_page_record_def Let_def)
qed

lemma seg_read_rep:
  assumes rep: "seg_rep s hdr rs" and i: "i < length rs" and P: "P = unat (page_size s)"
  shows "seg_read s \<lparr>segment_id = seg_id s, loc_offset = word_of_nat (rec_offset P rs i)\<rparr> = Inr (rs ! i)"
proof -
  let ?r = "rs ! i" and ?o = "word_of_nat (rec_offset P rs i) :: u32"
  have ok: "page_ok P" "rec_wf P ?r" "length (rec_data ?r) \<le> max_record_len"
    using rep i P by (auto simp: seg_rep_def seg_bounds_def record_ok_def)
  note wf = rec_wf_len_span [OF ok(1,2)]
  have ext: "rec_offset P rs i + rec_extent P ?r \<le> length (seg_file s)"
    "length (seg_file s) \<le> unat (current_size s)" "length (seg_file s) \<le> unat (next_offset s)"
    using rep i P by (force simp: seg_rep_def sizes_ok_def)+
  have uo: "unat ?o = rec_offset P rs i"
    using ext unat_bounds(3) [of "next_offset s"] by (intro u32_of_nat) linarith
  have hdr: "read_at (seg_file s) 7 (rec_offset P rs i) = Inr (take 7 (rec_data ?r))"
    using read_at_record [OF rep i P, of 0 7] wf rec_image_header(1) [OF ok(1,2)] by simp
  have single: "read_single_page_record s ?o (rec_length ?r) (rec_flags ?r) = Inr ?r"
    if "\<not> is_continued (rec_flags ?r)"
  proof -
    have "gslice (rec_image P ?r) 0 (length (rec_data ?r)) = rec_data ?r"
      using that by (simp add: rec_image_def pad_to_def)
    then have "read_at (seg_file s) (unat (rec_length ?r)) (unat ?o) = Inr (rec_data ?r)"
      using read_at_record [OF rep i P, of 0 "length (rec_data ?r)"] wf uo by simp
    then show ?thesis using wf ext uo that ok(2)
      by (auto simp: read_single_page_record_def rec_wf_def)
  qed
  have "rec_length ?r \<noteq> 0" using wf by auto
  then show ?thesis
    using hdr rec_image_header(2,3) [OF ok(1,2)] wf ext uo ok(3) single
      read_multi_rep [OF rep i P refl _ uo]
    by (simp add: seg_read_def Let_def)
qed

end
