(* ===== verification/Record_Log.thy ===== *)
theory Record_Log
  imports Prelude
begin

text \<open>
  The contract between a store of records and its clients. A log holds pairs of locations and
  records; \<open>rep s log\<close> says that the state \<open>s\<close> represents \<open>log\<close>. Appending adds a pair at the end,
  reading a location of the log returns its record, locations are never shared, and a flag update
  rewrites one record. The client lemmas are proved once here and used through interpretations.
\<close>

locale record_log =
  fixes rep :: "'s \<Rightarrow> ('l \<times> 'r) list \<Rightarrow> bool"
    and accepts :: "'s \<Rightarrow> 'r \<Rightarrow> bool"
    and append_rec :: "'s \<Rightarrow> 'r \<Rightarrow> ('l \<times> 's) result"
    and read_rec :: "'s \<Rightarrow> 'l \<Rightarrow> 'r result"
  assumes append_rep: "rep s log \<Longrightarrow> accepts s r \<Longrightarrow>
      \<exists>l s'. append_rec s r = Inr (l, s') \<and> rep s' (log @ [(l, r)])"
    and read_rep: "rep s log \<Longrightarrow> (l, r) \<in> set log \<Longrightarrow> read_rec s l = Inr r"
    and distinct_rep: "rep s log \<Longrightarrow> distinct (map fst log)"
begin

lemma append_read_back:
  assumes "rep s log" and "accepts s r"
  shows "\<exists>l s'. append_rec s r = Inr (l, s') \<and> read_rec s' l = Inr r \<and> l \<notin> fst ` set log"
proof -
  obtain l s' where a: "append_rec s r = Inr (l, s')" "rep s' (log @ [(l, r)])"
    using append_rep [OF assms] by blast
  moreover have "read_rec s' l = Inr r" using read_rep [OF a(2)] by simp
  moreover have "l \<notin> fst ` set log" using distinct_rep [OF a(2)] by simp
  ultimately show ?thesis by blast
qed

lemma append_keeps:
  assumes "rep s log" and "accepts s r" and "append_rec s r = Inr (l, s')" and "(l', r') \<in> set log"
  shows "read_rec s' l' = Inr r'" and "read_rec s' l' = read_rec s l'"
proof -
  have "rep s' (log @ [(l, r)])" using append_rep [OF assms(1,2)] assms(3) by auto
  then show "read_rec s' l' = Inr r'" using read_rep assms(4) by auto
  then show "read_rec s' l' = read_rec s l'" using read_rep [OF assms(1,4)] by simp
qed

end

locale flag_log = record_log +
  fixes set_flags :: "'s \<Rightarrow> 'l \<Rightarrow> 'f \<Rightarrow> 's result"
    and flagged :: "'f \<Rightarrow> 'r \<Rightarrow> 'r"
    and flag_ok :: "'f \<Rightarrow> bool"
  assumes set_flags_rep: "rep s log \<Longrightarrow> (l, r) \<in> set log \<Longrightarrow> flag_ok fl \<Longrightarrow>
      \<exists>s'. set_flags s l fl = Inr s' \<and>
        rep s' (map (\<lambda>(l', r'). (l', if l' = l then flagged fl r' else r')) log)"
begin

lemma set_flags_read:
  assumes "rep s log" and "(l, r) \<in> set log" and "flag_ok fl" and "set_flags s l fl = Inr s'"
  shows "read_rec s' l = Inr (flagged fl r)"
    and "(l', r') \<in> set log \<Longrightarrow> l' \<noteq> l \<Longrightarrow> read_rec s' l' = Inr r'"
proof -
  let ?g = "\<lambda>(l', r'). (l', if l' = l then flagged fl r' else r')"
  have rep': "rep s' (map ?g log)" using set_flags_rep [OF assms(1-3)] assms(4) by auto
  have mem: "?g x \<in> set (map ?g log)" if "x \<in> set log" for x using that by (simp only: set_map image_eqI)
  show "read_rec s' l = Inr (flagged fl r)"
    using read_rep [OF rep', of l "flagged fl r"] mem [OF assms(2)] by simp
  show "read_rec s' l' = Inr r'" if "(l', r') \<in> set log" "l' \<noteq> l"
    using read_rep [OF rep', of l' r'] mem [OF that(1)] that(2) by simp
qed

end

end
