(* ===== verification/Segment_Ops.thy ===== *)
theory Segment_Ops
  imports Segment_Layout Record_Log
begin

text \<open>
  The operations of a segment preserve the representation relation: creation, append (one record
  or a batch), flag updates and reopening. The locale \<open>record_log\<close> states the contract that the event
  store relies on, and is interpreted on the segment's own operations.
\<close>

section \<open>Creation\<close>

definition fresh_header :: "u64 \<Rightarrow> u32 \<Rightarrow> u32 \<Rightarrow> bytes" where
  "fresh_header now sid ps = pad_to (unat ps) (put_u32 seg_magic @ put_u32 ps @ put_u64 now @ put_u32 sid
     @ put_u32 0 @ put_u32 ps @ put_u32 1 @ put_u64 0)"

definition fresh_segment :: "u64 \<Rightarrow> u32 \<Rightarrow> u32 \<Rightarrow> u64 \<Rightarrow> file_segment" where
  "fresh_segment now sid ps maxSize =
     \<lparr>seg_id = sid, seg_file = fresh_header now sid ps, page_size = ps, max_size = maxSize,
      current_size = ucast ps, next_offset = ps, record_count = 0, is_read_only = False\<rparr>"

lemma new_file_segment_fresh:
  "page_ok (unat ps) \<Longrightarrow> new_file_segment now sid None ps maxSize False = Inr (fresh_segment now sid ps maxSize)"
  "page_ok (unat ps) \<Longrightarrow> new_file_segment now sid (Some []) ps maxSize False = Inr (fresh_segment now sid ps maxSize)"
  by (simp_all add: new_file_segment_def init_header_page_def fill_buffer_def Let_def fresh_segment_def
      fresh_header_def pad_to_def page_ok_def write_at_def)

lemma fresh_header_fields:
  assumes "40 \<le> unat ps"
  shows "length (fresh_header now sid ps) = unat ps"
    and "get_u32 (gslice (fresh_header now sid ps) 0 4) = seg_magic"
    and "gslice (fresh_header now sid ps) 20 28 = put_u32 0 @ put_u32 ps"
  using assms by (simp_all add: fresh_header_def pad_to_def gslice_def)

lemma fresh_segment_rep:
  assumes "page_ok (unat ps)" and "unat maxSize + 2 * unat ps \<le> 2 ^ 32"
  shows "seg_rep (fresh_segment now sid ps maxSize) (fresh_header now sid ps) []"
  using assms fresh_header_fields [of ps now sid]
  by (simp add: seg_rep_def seg_bounds_def header_ok_def sizes_ok_def fresh_segment_def page_ok_def)

section \<open>Append\<close>

text \<open>The state after a record has been written at the next free offset.\<close>

definition extend_segment :: "file_segment \<Rightarrow> rec \<Rightarrow> file_segment" where
  "extend_segment s r =
     (let P = unat (page_size s); N = unat (next_offset s)
      in persist_header (s\<lparr>
           seg_file := pad_to N (seg_file s) @ take (rec_extent P r) (rec_image P r),
           record_count := record_count s + 1,
           next_offset := word_of_nat (N + rec_span P r),
           current_size := word_of_nat (N + rec_span P r)\<rparr>))"

lemma header_write:
  assumes "40 \<le> length hdr"
  shows "gslice (write_at hdr (put_u32 a @ put_u32 b) 20) 20 28 = put_u32 a @ put_u32 b"
    and "gslice (write_at hdr (put_u32 a @ put_u32 b) 20) 0 4 = gslice hdr 0 4"
    and "length (write_at hdr (put_u32 a @ put_u32 b) 20) = length hdr"
  using assms by (simp_all add: write_at_inside gslice_def min_def)

lemma pad_to_take_image:
  assumes "page_ok P" and "rec_wf P r"
  shows "pad_to (rec_span P r) (take (rec_extent P r) (rec_image P r)) = rec_image P r"
  using assms
  by (auto simp: rec_extent_def rec_image_def rec_span_def rec_wf_def pad_to_def page_ok_def)

lemma length_take_image:
  "page_ok P \<Longrightarrow> rec_wf P r \<Longrightarrow> length (take (rec_extent P r) (rec_image P r)) = rec_extent P r"
  using rec_extent_le [of P r] by (simp add: min_def)

lemma write_at_pad:
  "off + length d \<le> length f \<Longrightarrow> pad_to n (write_at f d off) = write_at (pad_to n f) d off"
  by (simp add: pad_to_def write_at_append_left)

lemma extend_segment_rep:
  assumes rep: "seg_rep s hdr rs" and P: "P = unat (page_size s)" and r: "record_ok P r"
    and fits: "unat (next_offset s) + rec_span P r < 2 ^ 32"
  shows "\<exists>hdr'. seg_rep (extend_segment s r) hdr' (rs @ [r])"
proof -
  let ?N = "unat (next_offset s)" and ?N' = "unat (next_offset s) + rec_span P r"
  let ?img = "take (rec_extent P r) (rec_image P r)"
  let ?f = "pad_to ?N (seg_file s) @ ?img"
  let ?w = "put_u32 (record_count s + 1) @ put_u32 (word_of_nat ?N')"
  let ?h = "write_at hdr ?w 20"
  have pok: "page_ok P" and wf: "rec_wf P r" and all: "\<forall>r \<in> set rs. record_ok P r"
    using rep P r by (auto simp: seg_rep_def seg_bounds_def record_ok_def)
  have P40: "40 \<le> P" using pok by (simp add: page_ok_def)
  have sizes: "?N = rec_offset P rs (length rs)" "length (seg_file s) \<le> ?N" "P \<le> length (seg_file s)"
    "\<And>i. i < length rs \<Longrightarrow> rec_offset P rs i + rec_extent P (rs ! i) \<le> length (seg_file s)"
    using rep P by (auto simp: seg_rep_def sizes_ok_def)
  have h: "length hdr = P" "get_u32 (gslice hdr 0 4) = seg_magic"
    using rep P by (auto simp: seg_rep_def header_ok_def)
  have pad: "pad_to ?N (seg_file s) = hdr @ concat (map (rec_image P) rs)"
    using rep P by (simp add: seg_rep_def)
  have u32: "unat (word_of_nat ?N' :: u32) = ?N'" and u64: "unat (word_of_nat ?N' :: u64) = ?N'"
    using fits by (simp_all add: unat_of_nat del: of_nat_add)
  have limg: "length ?img = rec_extent P r" using length_take_image [OF pok wf] .
  have lf: "length ?f = ?N + rec_extent P r" using sizes(2) limg by simp
  have f: "?f = (hdr @ concat (map (rec_image P) rs)) @ ?img" by (simp add: pad)
  have fw: "write_at ?f ?w 20 = ?h @ concat (map (rec_image P) rs) @ ?img"
    unfolding f using P40 h(1) by (simp add: write_at_append_left)
  have "pad_to ?N' (write_at ?f ?w 20) = (?h @ concat (map (rec_image P) rs)) @ pad_to (rec_span P r) ?img"
  proof -
    have "length (?h @ concat (map (rec_image P) rs)) = ?N"
      using arg_cong [OF pad, of length] sizes(2) header_write(3) [of hdr] h(1) P40 by simp
    then show ?thesis unfolding fw append.assoc [symmetric] by (subst pad_to_append) simp_all
  qed
  then have image: "pad_to ?N' (write_at ?f ?w 20) = ?h @ concat (map (rec_image P) (rs @ [r]))"
    by (simp add: pad_to_take_image [OF pok wf])
  have ext: "rec_extent P r \<le> rec_span P r" "rec_span P r < rec_extent P r + P"
    using rec_extent_le [OF pok wf] rec_wf_len_span(2) [OF pok wf] wf P40
    by (auto simp: rec_extent_def rec_span_def rec_wf_def)
  have lw: "length (write_at ?f ?w 20) = ?N + rec_extent P r"
    using lf sizes(2,3) P40 by simp
  let ?s = "extend_segment s r"
  have s: "page_size ?s = page_size s" "max_size ?s = max_size s" "record_count ?s = record_count s + 1"
    "next_offset ?s = word_of_nat ?N'" "current_size ?s = word_of_nat ?N'"
    "seg_file ?s = write_at ?f ?w 20"
    by (simp_all add: extend_segment_def persist_header_def Let_def P del: of_nat_add)
  have "sizes_ok ?s (rs @ [r])"
    unfolding sizes_ok_def s lw P [symmetric] u32 u64
    using ext sizes P40
    by (auto simp: rec_offset_snoc nth_append less_Suc_eq intro: le_trans trans_le_add1)
  moreover have "header_ok ?s ?h"
    using h header_write [of hdr] P40 by (simp add: header_ok_def s P [symmetric] del: of_nat_add)
  ultimately have "seg_rep ?s ?h (rs @ [r])"
    unfolding seg_rep_def s P [symmetric] u32 image using rep P r all
    by (auto simp: seg_rep_def seg_bounds_def s)
  then show ?thesis ..
qed

lemma align_up:
  fixes no ps :: u32
  assumes "unat no = k * unat ps + m" and "0 < m" and "m < unat ps" and "(k + 1) * unat ps < 2 ^ 32"
  shows "no mod ps \<noteq> 0" and "(no div ps + 1) * ps = word_of_nat ((k + 1) * unat ps)"
proof -
  have "unat (no mod ps) = m" using assms(1,3) by (simp add: unat_mod)
  then show "no mod ps \<noteq> 0" using assms(2) by (metis less_irrefl unat_0)
  have "unat (no div ps) = k" using assms(1,3) by (simp add: unat_div)
  then have "no div ps = word_of_nat k" by (metis of_nat_unat ucast_id)
  then show "(no div ps + 1) * ps = word_of_nat ((k + 1) * unat ps)"
    by (simp add: algebra_simps)
qed

lemma write_single_extend:
  assumes rep: "seg_rep s hdr rs" and P: "P = unat (page_size s)" and r: "record_ok P r"
    and fits: "unat (next_offset s) + rec_span P r < 2 ^ 32" and c: "\<not> is_continued (rec_flags r)"
  shows "write_single_page_record s r = extend_segment s r"
proof -
  let ?N = "unat (next_offset s)"
  have wf: "rec_wf P r" "length (rec_data r) < P" "148 \<le> length (rec_data r)" "continuation_count r = 0"
    "length (rec_data r) = unat (rec_length r)"
    using r c by (auto simp: record_ok_def rec_wf_def)
  have span: "rec_span P r = P" using wf(4) by (simp add: rec_span_def)
  obtain k where k: "?N = k * P"
    using rep P rec_offset_dvd [of P rs "length rs"] by (auto simp: seg_rep_def sizes_ok_def mult.commute)
  have un: "unat (next_offset s + rec_length r) = k * P + length (rec_data r)"
    using wf fits span k by (subst unat_add_small) auto
  have al: "(next_offset s + rec_length r) mod page_size s \<noteq> 0"
    "((next_offset s + rec_length r) div page_size s + 1) * page_size s = word_of_nat (?N + P)"
    using align_up [of "next_offset s + rec_length r" k "page_size s" "length (rec_data r)"] un P wf fits span k
    by (simp_all add: algebra_simps)
  have ucast: "(ucast (word_of_nat (?N + P) :: u32) :: u64) = word_of_nat (?N + P)"
    using fits span by (subst of_nat_unat [symmetric]) (simp add: u32_of_nat del: of_nat_add)
  have "length (seg_file s) \<le> ?N" using rep by (auto simp: seg_rep_def sizes_ok_def)
  moreover have "take (rec_extent P r) (rec_image P r) = rec_data r"
    using c by (simp add: rec_extent_def rec_image_def pad_to_def)
  ultimately show ?thesis
    using al ucast unfolding write_single_page_record_def extend_segment_def Let_def P [symmetric] span
    by (simp add: write_at_end del: of_nat_add)
qed

lemma write_multi_extend:
  assumes rep: "seg_rep s hdr rs" and P: "P = unat (page_size s)" and r: "record_ok P r"
    and fits: "unat (next_offset s) + rec_span P r < 2 ^ 32" and c: "is_continued (rec_flags r)"
  shows "write_multi_page_record s r = Inr (extend_segment s r)"
proof -
  let ?N = "unat (next_offset s)" and ?n = "unat (continuation_count r)" and ?d = "rec_data r"
  have pok: "page_ok P" using rep P by (auto simp: seg_rep_def seg_bounds_def)
  then have P40: "40 \<le> P" "P < 65536" by (auto simp: page_ok_def)
  have wf: "P + 2 \<le> length ?d" "length ?d < 2 ^ 32"
    using r c unat_bounds(3) [of "rec_length r"] by (auto simp: record_ok_def rec_wf_def)
  have span: "rec_span P r = P + ?n * P" by (simp add: rec_span_def)
  have lf: "length (seg_file s) \<le> ?N" using rep by (auto simp: seg_rep_def sizes_ok_def)
  have fcl: "\<not> page_size s > word_of_nat (length ?d)"
    using wf P by (simp add: word_less_nat_alt u32_of_nat)
  let ?f = "pad_to ?N (seg_file s) @ take P ?d"
  have first: "write_at (seg_file s) (pad_to P (take P ?d)) ?N = ?f"
    using lf wf by (simp add: write_at_end)
  have uN: "unat (next_offset s + page_size s) = ?N + P"
    using fits span P by (subst unat_add_small) auto
  have "length ?f = ?N + P" using lf wf by simp
  then have conts: "write_cont_pages ?n (page_size s) ?d (page_size s) (next_offset s + page_size s) ?f =
      Inr (?f @ cont_image P ?n (drop P ?d))"
    using write_cont_pages_image [OF P [symmetric] pok wf(2), of "page_size s" ?f "next_offset s + page_size s" ?n]
      wf P uN fits span by simp
  have no: "next_offset s + (1 + ucast (continuation_count r)) * page_size s = word_of_nat (?N + (P + ?n * P))"
    by (simp add: P algebra_simps)
  have ucast: "(ucast (word_of_nat (?N + (P + ?n * P)) :: u32) :: u64) = word_of_nat (?N + (P + ?n * P))"
    using fits span by (subst of_nat_unat [symmetric]) (simp add: u32_of_nat del: of_nat_add of_nat_mult)
  have img: "take (rec_extent P r) (rec_image P r) = take P ?d @ cont_image P ?n (drop P ?d)"
    using c wf P40 by (simp add: rec_extent_def rec_image_def rec_span_def)
  show ?thesis
    unfolding write_multi_page_record_def extend_segment_def Let_def P [symmetric] span img
    using fcl conts by (simp only: if_False first no ucast sum.case append.assoc refl)
      (simp add: P [symmetric] first conts no ucast del: of_nat_add of_nat_mult)
qed

lemma seg_write_extend:
  "seg_rep s hdr rs \<Longrightarrow> record_ok (unat (page_size s)) r \<Longrightarrow>
   unat (next_offset s) + rec_span (unat (page_size s)) r < 2 ^ 32 \<Longrightarrow>
   seg_write s r = Inr (extend_segment s r)"
  using write_single_extend [of s hdr rs "unat (page_size s)" r]
    write_multi_extend [of s hdr rs "unat (page_size s)" r]
  by (simp add: seg_write_def)

text \<open>The bytes \<open>Append\<close> reserves for a record, and when it accepts one.\<close>

definition est_size :: "rec \<Rightarrow> nat" where
  "est_size r = unat (rec_length r) +
     (if is_continued (rec_flags r) then unat (continuation_count r) * 6 else 0)"

lemma unat_estimated_size: "unat (estimated_size r) = est_size r"
proof -
  have "unat (ucast (continuation_count r) * 6 :: u64) = unat (continuation_count r) * 6"
    using unat_bounds(2) [of "continuation_count r"] by (subst unat_mult_lem [THEN iffD1]) simp_all
  then show ?thesis
    using unat_bounds(2) [of "continuation_count r"] unat_bounds(3) [of "rec_length r"]
    by (auto simp: estimated_size_def est_size_def unat_add_small)
qed

lemma seg_full_iff:
  assumes "seg_rep s hdr rs"
  shows "current_size s + estimated_size r > max_size s \<longleftrightarrow>
    unat (current_size s) + est_size r > unat (max_size s)"
proof -
  have "unat (current_size s) < 2 ^ 32"
    using assms unat_bounds(3) [of "next_offset s"] by (auto simp: seg_rep_def sizes_ok_def)
  moreover have "est_size r < 2 ^ 33"
    using unat_bounds(2) [of "continuation_count r"] unat_bounds(3) [of "rec_length r"]
    by (auto simp: est_size_def)
  ultimately show ?thesis
    by (simp add: word_less_nat_alt unat_add_small unat_estimated_size)
qed

lemma span_est_size:
  assumes "page_ok P" and "rec_wf P r"
  shows "rec_span P r \<le> est_size r + P"
proof (cases "is_continued (rec_flags r)")
  case True
  let ?len = "length (rec_data r)"
  have P: "6 \<le> P" using assms(1) by (simp add: page_ok_def)
  have n: "unat (continuation_count r) = (?len - 7) div (P - 6)" "?len = unat (rec_length r)"
    using True assms(2) by (auto simp: rec_wf_def cont_pages_def)
  have "unat (continuation_count r) * (P - 6) \<le> ?len - 7"
    unfolding n by (simp only: div_times_less_eq_dividend)
  moreover have "unat (continuation_count r) * P = unat (continuation_count r) * (P - 6) + unat (continuation_count r) * 6"
    using P by (simp flip: add_mult_distrib2)
  ultimately show ?thesis using True n(2) by (simp add: rec_span_def est_size_def)
next
  case False
  then show ?thesis using assms(2) by (simp add: rec_span_def rec_wf_def)
qed

definition seg_accepts :: "file_segment \<Rightarrow> rec \<Rightarrow> bool" where
  "seg_accepts s r \<longleftrightarrow> \<not> is_read_only s \<and> record_ok (unat (page_size s)) r \<and>
     unat (current_size s) + est_size r \<le> unat (max_size s)"

lemma seg_accepts_span:
  assumes "seg_rep s hdr rs" and "seg_accepts s r"
  shows "unat (next_offset s) + rec_span (unat (page_size s)) r < 2 ^ 32"
proof -
  have "rec_span (unat (page_size s)) r \<le> est_size r + unat (page_size s)"
    using assms by (intro span_est_size) (auto simp: seg_rep_def seg_bounds_def seg_accepts_def record_ok_def)
  moreover have "unat (next_offset s) < unat (current_size s) + unat (page_size s)"
    and "unat (max_size s) + 2 * unat (page_size s) \<le> 2 ^ 32"
    using assms(1) by (auto simp: seg_rep_def sizes_ok_def seg_bounds_def)
  moreover have "unat (current_size s) + est_size r \<le> unat (max_size s)"
    using assms(2) by (simp add: seg_accepts_def)
  ultimately show ?thesis by linarith
qed

lemma seg_append_ok:
  assumes "seg_rep s hdr rs" and "seg_accepts s r"
  shows "seg_append s r = Inr (\<lparr>segment_id = seg_id s, loc_offset = next_offset s\<rparr>, extend_segment s r)"
    and "\<exists>hdr'. seg_rep (extend_segment s r) hdr' (rs @ [r])"
proof -
  have ok: "record_ok (unat (page_size s)) r" using assms(2) by (simp add: seg_accepts_def)
  note span = seg_accepts_span [OF assms]
  show "seg_append s r = Inr (\<lparr>segment_id = seg_id s, loc_offset = next_offset s\<rparr>, extend_segment s r)"
    using seg_write_extend [OF assms(1) ok span] seg_full_iff [OF assms(1), of r] assms(2)
    by (simp add: seg_append_def seg_accepts_def)
  show "\<exists>hdr'. seg_rep (extend_segment s r) hdr' (rs @ [r])"
    by (rule extend_segment_rep [OF assms(1) refl ok span])
qed

lemma extend_segment_frame [simp]:
  "seg_id (extend_segment s r) = seg_id s" "page_size (extend_segment s r) = page_size s"
  "max_size (extend_segment s r) = max_size s" "is_read_only (extend_segment s r) = is_read_only s"
  by (simp_all add: extend_segment_def persist_header_def Let_def)

section \<open>Updating flags\<close>

definition add_rec_flags :: "byte \<Rightarrow> rec \<Rightarrow> rec" where
  "add_rec_flags fl r = r\<lparr>rec_flags := rec_flags r OR fl, rec_data := (rec_data r)[4 := rec_flags r OR fl]\<rparr>"

lemma write_at_byte: "off < length f \<Longrightarrow> write_at f [b] off = f[off := b]"
  by (simp add: write_at_inside upd_conv_take_nth_drop)

lemma add_rec_flags_wf:
  assumes "page_ok P" and "rec_wf P r" and "\<not> is_continued fl"
  shows "rec_wf P (add_rec_flags fl r)" and "rec_image P (add_rec_flags fl r) = (rec_image P r)[4 := rec_flags r OR fl]"
    and "rec_span P (add_rec_flags fl r) = rec_span P r" and "rec_extent P (add_rec_flags fl r) = rec_extent P r"
proof -
  have len: "148 \<le> length (rec_data r)" "40 \<le> P" using assms by (auto simp: rec_wf_def page_ok_def)
  then show "rec_wf P (add_rec_flags fl r)"
    using assms(2,3) by (auto simp: rec_wf_def add_rec_flags_def gslice_def drop_update_swap take_update_swap
      list_update_beyond)
  show "rec_image P (add_rec_flags fl r) = (rec_image P r)[4 := rec_flags r OR fl]"
    using len assms(3)
    by (auto simp: rec_image_def add_rec_flags_def pad_to_def list_update_append take_update_swap)
  show "rec_span P (add_rec_flags fl r) = rec_span P r" "rec_extent P (add_rec_flags fl r) = rec_extent P r"
    using assms(3) by (simp_all add: rec_span_def rec_extent_def add_rec_flags_def)
qed

lemma concat_update:
  assumes "i < length rs" and "length (img (rs ! i)) > k" and "n = length (concat (map img (take i rs)))"
    and "img r' = (img (rs ! i))[k := b]"
  shows "(concat (map img rs))[n + k := b] = concat (map img (rs[i := r']))"
proof -
  have rs: "rs = take i rs @ rs ! i # drop (Suc i) rs" using assms(1) by (simp add: id_take_nth_drop)
  have upd: "rs[i := r'] = take i rs @ r' # drop (Suc i) rs" using assms(1) by (rule upd_conv_take_nth_drop)
  show ?thesis unfolding upd by (subst rs) (simp add: list_update_append assms(2-4))
qed

lemma rec_offset_update:
  "i < length rs \<Longrightarrow> rec_span P r' = rec_span P (rs ! i) \<Longrightarrow> rec_offset P (rs[i := r']) j = rec_offset P rs j"
proof -
  assume i: "i < length rs" and sp: "rec_span P r' = rec_span P (rs ! i)"
  have "map (rec_span P) (rs[i := r']) = map (rec_span P) rs"
    using i sp by (auto simp: map_update list_update_same_conv)
  then show ?thesis by (simp add: rec_offset_def take_map [symmetric])
qed

lemma gslice_single: "k < length xs \<Longrightarrow> gslice xs k (k + 1) = [xs ! k]"
  by (simp add: gslice_def flip: Cons_nth_drop_Suc)

lemma pad_to_update: "k < length f \<Longrightarrow> pad_to n (f[k := b]) = (pad_to n f)[k := b]"
  by (simp add: pad_to_def list_update_append)

lemma rec_image_flag_byte:
  assumes "page_ok P" and "rec_wf P r"
  shows "4 < length (rec_image P r)" and "rec_image P r ! 4 = rec_flags r"
proof -
  show len: "4 < length (rec_image P r)"
    using rec_wf_len_span(1,2) [OF assms] rec_extent_le [OF assms] length_rec_image [OF assms] by simp
  have "gslice (rec_image P r) 0 7 ! 4 = rec_flags r" by (simp add: rec_image_header [OF assms])
  then show "rec_image P r ! 4 = rec_flags r" using len by (simp add: gslice_def)
qed

lemma update_image:
  assumes "page_ok P" and "\<forall>r \<in> set rs. record_ok P r" and "length hdr = P" and "i < length rs"
    and "\<not> is_continued fl"
  shows "(hdr @ concat (map (rec_image P) rs))[rec_offset P rs i + 4 := rec_flags (rs ! i) OR fl] =
    hdr @ concat (map (rec_image P) (rs[i := add_rec_flags fl (rs ! i)]))"
proof -
  have wf: "rec_wf P (rs ! i)" using assms(2,4) by (simp add: record_ok_def)
  have "\<forall>r \<in> set (take i rs). record_ok P r" using assms(2) by (auto dest: in_set_takeD)
  from length_images [OF assms(1) this]
  have n: "rec_offset P rs i - P = length (concat (map (rec_image P) (take i rs)))" "P \<le> rec_offset P rs i"
    by (simp_all add: rec_offset_def)
  have "(concat (map (rec_image P) rs))[rec_offset P rs i - P + 4 := rec_flags (rs ! i) OR fl] =
      concat (map (rec_image P) (rs[i := add_rec_flags fl (rs ! i)]))"
    by (rule concat_update [OF assms(4) rec_image_flag_byte(1) [OF assms(1) wf] n(1)
          add_rec_flags_wf(2) [OF assms(1) wf assms(5)]])
  then show ?thesis using n(2) assms(3) by (simp add: list_update_append)
qed

lemma update_record_flags_rep:
  assumes rep: "seg_rep s hdr rs" and i: "i < length rs" and P: "P = unat (page_size s)"
    and fl: "\<not> is_continued fl" and off: "unat off = rec_offset P rs i"
  shows "\<exists>s'. update_record_flags s off fl = Inr s' \<and> seg_rep s' hdr (rs[i := add_rec_flags fl (rs ! i)])
    \<and> s' = s\<lparr>seg_file := seg_file s'\<rparr>"
proof -
  let ?r = "rs ! i" and ?o = "rec_offset P rs i"
  let ?b = "rec_flags ?r OR fl" and ?rs = "rs[i := add_rec_flags fl (rs ! i)]"
  let ?s = "s\<lparr>seg_file := (seg_file s)[?o + 4 := ?b]\<rparr>"
  have ok: "page_ok P" "rec_wf P ?r" "\<forall>r \<in> set rs. record_ok P r" "length hdr = P"
    using rep i P by (auto simp: seg_rep_def seg_bounds_def record_ok_def header_ok_def)
  note wf = rec_wf_len_span [OF ok(1,2)] and new = add_rec_flags_wf [OF ok(1,2) fl]
  have sizes: "sizes_ok s rs" using rep by (simp add: seg_rep_def)
  then have ext: "?o + rec_extent P ?r \<le> length (seg_file s)" "length (seg_file s) \<le> unat (current_size s)"
    using i P by (force simp: sizes_ok_def)+
  have "read_at (seg_file s) 1 (?o + 4) = Inr [rec_flags ?r]"
    using read_at_record [OF rep i P, of 4 1] wf(1,2) rec_image_flag_byte [OF ok(1,2)]
      gslice_single [of 4 "rec_image P ?r"] by simp
  then have up: "update_record_flags s off fl = Inr ?s"
    using ext wf off by (simp add: update_record_flags_def write_at_byte)
  have image: "pad_to (unat (next_offset s)) (seg_file ?s) = hdr @ concat (map (rec_image P) ?rs)"
    using rep P update_image [OF ok(1,3,4) i fl] ext wf by (simp add: seg_rep_def pad_to_update)
  have "sizes_ok ?s ?rs"
    using sizes P i new(3,4) by (auto simp: sizes_ok_def rec_offset_update nth_list_update)
  moreover have "\<forall>r \<in> set ?rs. record_ok P r"
    using ok(3) i new(1) by (auto simp: record_ok_def add_rec_flags_def dest!: set_update_subset_insert [THEN subsetD])
  ultimately have "seg_rep ?s hdr ?rs"
    using rep P image by (auto simp: seg_rep_def seg_bounds_def header_ok_def)
  with up show ?thesis by auto
qed

section \<open>Reopening\<close>

lemma sizes_ok_reopen:
  assumes rep: "seg_rep s hdr rs" and P: "P = unat (page_size s)"
  shows "unat (next_offset s) < length (seg_file s) + P"
proof (cases rs rule: rev_cases)
  case Nil
  then show ?thesis using rep P by (auto simp: seg_rep_def sizes_ok_def seg_bounds_def page_ok_def)
next
  case (snoc rs' r)
  have ok: "page_ok P" "rec_wf P r"
    using rep P snoc by (auto simp: seg_rep_def seg_bounds_def record_ok_def)
  have "rec_offset P rs (length rs') + rec_extent P r \<le> length (seg_file s)"
    using rep P snoc by (force simp: seg_rep_def sizes_ok_def)
  moreover have "unat (next_offset s) = rec_offset P rs (length rs') + rec_span P r"
    using rep P snoc rec_offset_Suc [of "length rs'" rs P] by (simp add: seg_rep_def sizes_ok_def)
  moreover have "rec_span P r < rec_extent P r + P"
    using ok rec_wf_len_span(2) [OF ok] by (auto simp: rec_extent_def rec_span_def rec_wf_def page_ok_def)
  ultimately show ?thesis by simp
qed

definition reopen_segment :: "u64 \<Rightarrow> file_segment \<Rightarrow> file_segment" where
  "reopen_segment maxSize s =
     s\<lparr>max_size := maxSize, current_size := word_of_nat (length (seg_file s)), is_read_only := False\<rparr>"

lemma reopen_segment_frame [simp]:
  "seg_id (reopen_segment m s) = seg_id s" "page_size (reopen_segment m s) = page_size s"
  "max_size (reopen_segment m s) = m" "is_read_only (reopen_segment m s) = False"
  "next_offset (reopen_segment m s) = next_offset s" "seg_file (reopen_segment m s) = seg_file s"
  by (simp_all add: reopen_segment_def)

lemma reopen_rep:
  assumes rep: "seg_rep s hdr rs" and sz: "unat maxSize + 2 * unat (page_size s) \<le> 2 ^ 32"
  shows "new_file_segment now (seg_id s) (Some (seg_file s)) (page_size s) maxSize False = Inr (reopen_segment maxSize s)"
    and "seg_rep (reopen_segment maxSize s) hdr rs"
    and "unat (current_size (reopen_segment maxSize s)) = length (seg_file s)"
proof -
  let ?P = "unat (page_size s)" and ?f = "seg_file s" and ?s = "reopen_segment maxSize s"
  have ok: "40 \<le> ?P" "length hdr = ?P" "get_u32 (gslice hdr 0 4) = seg_magic" "?P \<le> length ?f"
    "gslice hdr 20 28 = put_u32 (record_count s) @ put_u32 (next_offset s)"
    "pad_to (unat (next_offset s)) ?f = hdr @ concat (map (rec_image ?P) rs)"
    "length ?f \<le> unat (next_offset s)"
    using rep by (auto simp: seg_rep_def seg_bounds_def page_ok_def header_ok_def sizes_ok_def)
  have f: "take 40 ?f = take 40 hdr" using arg_cong [OF ok(6), of "take 40"] ok by (simp add: pad_to_def)
  have sl: "gslice (take 40 hdr) 20 24 = take 4 (gslice hdr 20 28)"
    "gslice (take 40 hdr) 24 28 = drop 4 (gslice hdr 20 28)" "gslice (take 40 hdr) 0 4 = gslice hdr 0 4"
    by (simp_all add: gslice_def drop_take min_def)
  show "new_file_segment now (seg_id s) (Some ?f) (page_size s) maxSize False = Inr ?s"
    using ok f by (cases "?f = []") (simp_all add: new_file_segment_def load_header_def read_at_def sl
        gslice_def [of ?f] Let_def reopen_segment_def)
  show sz64: "unat (current_size ?s) = length ?f"
    using ok(7) unat_bounds(3) [of "next_offset s"] by (simp add: reopen_segment_def unat_of_nat)
  from sz64 show "seg_rep ?s hdr rs"
    using rep sz sizes_ok_reopen [OF rep refl]
    by (auto simp: seg_rep_def seg_bounds_def header_ok_def sizes_ok_def reopen_segment_def)
qed

section \<open>The segment as a record log\<close>

definition rec_loc :: "file_segment \<Rightarrow> rec list \<Rightarrow> nat \<Rightarrow> location" where
  "rec_loc s rs i = \<lparr>segment_id = seg_id s, loc_offset = word_of_nat (rec_offset (unat (page_size s)) rs i)\<rparr>"

definition seg_log :: "file_segment \<Rightarrow> rec list \<Rightarrow> (location \<times> rec) list" where
  "seg_log s rs = map (\<lambda>i. (rec_loc s rs i, rs ! i)) [0..<length rs]"

definition seg_log_rep :: "file_segment \<Rightarrow> (location \<times> rec) list \<Rightarrow> bool" where
  "seg_log_rep s log \<longleftrightarrow> (\<exists>hdr rs. seg_rep s hdr rs \<and> log = seg_log s rs)"

definition seg_set_flags :: "file_segment \<Rightarrow> location \<Rightarrow> byte \<Rightarrow> file_segment result" where
  "seg_set_flags s loc fl = update_record_flags s (loc_offset loc) fl"

lemma rec_offset_less: "0 < P \<Longrightarrow> i < j \<Longrightarrow> j \<le> length rs \<Longrightarrow> rec_offset P rs i < rec_offset P rs j"
proof -
  assume "0 < P" and ij: "i < j" "j \<le> length rs"
  then have "0 < rec_span P (rs ! i)" by (simp add: rec_span_def)
  then have "rec_offset P rs i < rec_offset P rs (Suc i)" using ij by (simp add: rec_offset_Suc)
  also have "\<dots> \<le> rec_offset P rs j" using ij by (intro rec_offset_mono) simp
  finally show ?thesis .
qed

lemma unat_rec_offset:
  assumes "seg_rep s hdr rs" and "i \<le> length rs"
  shows "unat (word_of_nat (rec_offset (unat (page_size s)) rs i) :: u32) = rec_offset (unat (page_size s)) rs i"
  using assms rec_offset_mono [OF assms(2), of "unat (page_size s)" rs] unat_bounds(3) [of "next_offset s"]
  by (intro u32_of_nat) (auto simp: seg_rep_def sizes_ok_def)

lemma rec_loc_inj:
  assumes rep: "seg_rep s hdr rs" and "i < length rs" "j < length rs" and eq: "rec_loc s rs i = rec_loc s rs j"
  shows "i = j"
proof (rule ccontr)
  assume "i \<noteq> j"
  have "0 < unat (page_size s)" using rep by (auto simp: seg_rep_def seg_bounds_def page_ok_def)
  moreover have "unat (loc_offset (rec_loc s rs k)) = rec_offset (unat (page_size s)) rs k" if "k < length rs" for k
    using unat_rec_offset [OF rep less_imp_le [OF that]] by (simp add: rec_loc_def)
  from this [OF assms(2)] this [OF assms(3)]
  have "rec_offset (unat (page_size s)) rs i = rec_offset (unat (page_size s)) rs j" unfolding eq by (rule trans [OF sym])
  ultimately show False using \<open>i \<noteq> j\<close> assms(2,3) rec_offset_less [of "unat (page_size s)" i j rs]
      rec_offset_less [of "unat (page_size s)" j i rs] by (cases "i < j") auto
qed

lemma seg_log_snoc:
  assumes "seg_rep s hdr rs"
  shows "seg_log (extend_segment s r) (rs @ [r]) =
    seg_log s rs @ [(\<lparr>segment_id = seg_id s, loc_offset = next_offset s\<rparr>, r)]"
proof -
  have "word_of_nat (rec_offset (unat (page_size s)) rs (length rs)) = next_offset s"
    using assms by (auto simp: seg_rep_def sizes_ok_def dest: sym)
  then show ?thesis by (simp add: seg_log_def rec_loc_def rec_offset_snoc nth_append)
qed

lemma seg_log_update:
  assumes rep: "seg_rep s hdr rs" and i: "i < length rs"
    and s': "seg_id s' = seg_id s" "page_size s' = page_size s" and fl: "\<not> is_continued fl"
  shows "seg_log s' (rs[i := add_rec_flags fl (rs ! i)]) =
    map (\<lambda>(l', r'). (l', if l' = rec_loc s rs i then add_rec_flags fl r' else r')) (seg_log s rs)"
proof -
  let ?P = "unat (page_size s)"
  have "rec_span ?P (add_rec_flags fl (rs ! i)) = rec_span ?P (rs ! i)"
    by (simp add: rec_span_def add_rec_flags_def)
  then have "rec_loc s' (rs[i := add_rec_flags fl (rs ! i)]) j = rec_loc s rs j" for j
    using s' i by (simp add: rec_loc_def rec_offset_update)
  then show ?thesis
    using i rec_loc_inj [OF rep i] rec_loc_inj [OF rep _ i]
    by (auto simp: seg_log_def nth_list_update)
qed

interpretation seg_store: flag_log seg_log_rep seg_accepts seg_append seg_read seg_set_flags add_rec_flags
  "\<lambda>fl. \<not> is_continued fl"
proof
  fix s log r assume "seg_log_rep s log" and acc: "seg_accepts s r"
  then obtain hdr rs where rep: "seg_rep s hdr rs" and log: "log = seg_log s rs" by (auto simp: seg_log_rep_def)
  from seg_append_ok [OF rep acc] show "\<exists>l s'. seg_append s r = Inr (l, s') \<and> seg_log_rep s' (log @ [(l, r)])"
    by (metis log seg_log_rep_def seg_log_snoc [OF rep])
next
  fix s log l r assume "seg_log_rep s log" and "(l, r) \<in> set log"
  then show "seg_read s l = Inr r"
    by (auto simp: seg_log_rep_def seg_log_def rec_loc_def seg_read_rep)
next
  fix s log assume "seg_log_rep s log"
  then obtain hdr rs where "seg_rep s hdr rs" and log: "log = seg_log s rs" by (auto simp: seg_log_rep_def)
  then show "distinct (map fst log)"
    unfolding log seg_log_def map_map o_def fst_conv distinct_map
    by (auto intro!: inj_onI intro: rec_loc_inj)
next
  fix s log l r fl assume "seg_log_rep s log" and mem: "(l, r) \<in> set log" and fl: "\<not> is_continued fl"
  then obtain hdr rs where rep: "seg_rep s hdr rs" and log: "log = seg_log s rs" by (auto simp: seg_log_rep_def)
  from mem log obtain i where i: "i < length rs" "l = rec_loc s rs i" by (auto simp: seg_log_def)
  obtain s' where s': "update_record_flags s (loc_offset l) fl = Inr s'"
    "seg_rep s' hdr (rs[i := add_rec_flags fl (rs ! i)])" "s' = s\<lparr>seg_file := seg_file s'\<rparr>"
    using update_record_flags_rep [OF rep i(1) refl fl, of "loc_offset l"] unat_rec_offset [OF rep, of i] i
    by (auto simp: rec_loc_def)
  have fr: "seg_id s' = seg_id s" "page_size s' = page_size s"
    using arg_cong [OF s'(3), of seg_id] arg_cong [OF s'(3), of page_size] by simp_all
  show "\<exists>s'. seg_set_flags s l fl = Inr s' \<and>
      seg_log_rep s' (map (\<lambda>(l', r'). (l', if l' = l then add_rec_flags fl r' else r')) log)"
    unfolding log i(2) seg_log_update [OF rep i(1) fr fl, symmetric]
    using s'(1,2) i(2) by (auto simp: seg_set_flags_def seg_log_rep_def)
qed

section \<open>Batches\<close>

text \<open>Appending the records of a list one call at a time, stopping at the first error.\<close>

fun append_each :: "file_segment \<Rightarrow> rec list \<Rightarrow> (location list \<times> file_segment) result" where
  "append_each s [] = Inr ([], s)"
| "append_each s (r # rs) =
     (case seg_append s r of
        Inl e \<Rightarrow> Inl e
      | Inr (l, s') \<Rightarrow>
          (case append_each s' rs of Inl e \<Rightarrow> Inl e | Inr (ls, s'') \<Rightarrow> Inr (l # ls, s'')))"

lemma append_batch_loop_each:
  "append_each s rs = Inr (ls, s') \<Longrightarrow> append_batch_loop s locs rs = (locs @ ls, None, s')"
proof (induction rs arbitrary: s locs ls)
  case (Cons r rs)
  from Cons.prems obtain l s1 ls1 where *: "seg_append s r = Inr (l, s1)" "append_each s1 rs = Inr (ls1, s')"
    "ls = l # ls1" by (auto split: sum.splits prod.splits)
  then have "seg_write s r = Inr s1" "\<not> current_size s + estimated_size r > max_size s"
    "l = \<lparr>segment_id = seg_id s, loc_offset = next_offset s\<rparr>"
    by (auto simp: seg_append_def split: if_splits sum.splits)
  with * Cons.IH [OF *(2)] show ?case by simp
qed simp

section \<open>Properties\<close>

definition demo_record :: rec where
  "demo_record = record_of 4096 demo_event [0, 2, 101, 0, 5, 1, 0, 2, 97, 98, 116, 0, 1, 0]"

definition demo_segment :: file_segment where
  "demo_segment = fresh_segment 0 0 4096 1048576"

lemma demo_record_ok: "record_ok 4096 demo_record" "est_size demo_record = 167"
proof -
  have "rec_wf (unat (4096 :: u32)) demo_record" unfolding demo_record_def
    by (rule record_of_wf) (simp_all add: demo_event_facts multi_page_def)
  moreover have "length (rec_data demo_record) \<le> max_record_len"
    by (simp add: demo_record_def record_of_def multi_page_def demo_event_facts length_event_body max_record_len_def)
  ultimately show "record_ok 4096 demo_record" by (simp add: record_ok_def)
  show "est_size demo_record = 167"
    by (simp add: est_size_def demo_record_def record_of_def multi_page_def demo_event_facts)
qed

lemma demo_segment_rep: "seg_rep demo_segment (fresh_header 0 0 4096) []"
  unfolding demo_segment_def by (rule fresh_segment_rep) (simp_all add: page_ok_def)

lemma demo_accepts: "seg_accepts demo_segment demo_record"
  by (simp add: seg_accepts_def demo_record_ok) (simp add: demo_segment_def fresh_segment_def demo_record_ok)

text \<open>
  A record appended to a segment is read back unchanged at the returned location, every record
  stored before is still read unchanged, and the segment then represents the longer list. This holds
  for records of one page and of many pages.
\<close>

theorem seg_append_read:
  assumes "seg_rep s hdr rs" and "seg_accepts s r"
  shows "\<exists>loc s' hdr'. seg_append s r = Inr (loc, s') \<and> seg_rep s' hdr' (rs @ [r]) \<and> seg_read s' loc = Inr r \<and>
    (\<forall>i < length rs. seg_read s' (rec_loc s rs i) = Inr (rs ! i))"
proof -
  let ?loc = "\<lparr>segment_id = seg_id s, loc_offset = next_offset s\<rparr>"
  have log: "seg_log_rep s (seg_log s rs)" using assms(1) by (auto simp: seg_log_rep_def)
  note ap = seg_append_ok [OF assms]
  have "seg_read (extend_segment s r) ?loc = Inr r"
    using seg_store.append_read_back [OF log assms(2)] ap(1) by auto
  moreover have "seg_read (extend_segment s r) (rec_loc s rs i) = Inr (rs ! i)" if "i < length rs" for i
    using that by (intro seg_store.append_keeps(1) [OF log assms(2) ap(1)]) (auto simp: seg_log_def)
  ultimately show ?thesis using ap by blast
qed

theorem seg_append_read_witness:
  "\<exists>loc s' hdr'. seg_append demo_segment demo_record = Inr (loc, s') \<and> seg_rep s' hdr' [demo_record] \<and>
    seg_read s' loc = Inr demo_record"
  using seg_append_read [OF demo_segment_rep demo_accepts] by auto

text \<open>
  Updating the flags of a stored record (with any flags but the structural continuation bit)
  changes exactly that record: reading it returns the record with the flags added, and every other
  record is read as before.
\<close>

theorem update_record_flags_read:
  assumes "seg_rep s hdr rs" and "i < length rs" and "\<not> is_continued fl"
  shows "\<exists>s'. update_record_flags s (loc_offset (rec_loc s rs i)) fl = Inr s' \<and>
    seg_read s' (rec_loc s rs i) = Inr (add_rec_flags fl (rs ! i)) \<and>
    (\<forall>j < length rs. j \<noteq> i \<longrightarrow> seg_read s' (rec_loc s rs j) = Inr (rs ! j))"
proof -
  have log: "seg_log_rep s (seg_log s rs)" using assms(1) by (auto simp: seg_log_rep_def)
  have mem: "(rec_loc s rs j, rs ! j) \<in> set (seg_log s rs)" if "j < length rs" for j
    using that by (auto simp: seg_log_def)
  obtain s' where s': "seg_set_flags s (rec_loc s rs i) fl = Inr s'"
    using seg_store.set_flags_rep [OF log mem [OF assms(2)] assms(3)] by auto
  note rd = seg_store.set_flags_read [OF log mem [OF assms(2)] assms(3) s']
  have "seg_read s' (rec_loc s rs j) = Inr (rs ! j)" if "j < length rs" "j \<noteq> i" for j
    using that rec_loc_inj [OF assms(1) that(1) assms(2)] by (intro rd(2) mem) auto
  then show ?thesis using rd(1) s' by (auto simp: seg_set_flags_def)
qed

theorem update_record_flags_read_witness:
  "\<exists>s s'. update_record_flags s (loc_offset (rec_loc s [demo_record] 0)) flag_deleted = Inr s' \<and>
    seg_read s' (rec_loc s [demo_record] 0) = Inr (add_rec_flags flag_deleted demo_record)"
proof -
  obtain hdr where "seg_rep (extend_segment demo_segment demo_record) hdr ([] @ [demo_record])"
    using seg_append_ok(2) [OF demo_segment_rep demo_accepts] by blast
  from update_record_flags_read [OF this, of 0 flag_deleted] show ?thesis
    by (auto simp: flag_bits)
qed

text \<open>
  Closing a segment and opening its file again loses nothing: the constructor accepts the file and
  every record is read back as it was stored.
\<close>

theorem reopen_read:
  assumes "seg_rep s hdr rs" and "unat maxSize + 2 * unat (page_size s) \<le> 2 ^ 32"
  shows "\<exists>s'. new_file_segment now (seg_id s) (Some (seg_file s)) (page_size s) maxSize False = Inr s' \<and>
    (\<forall>i < length rs. seg_read s' (rec_loc s rs i) = Inr (rs ! i))"
proof -
  obtain s' where s': "new_file_segment now (seg_id s) (Some (seg_file s)) (page_size s) maxSize False = Inr s'"
    "seg_rep s' hdr rs" "seg_id s' = seg_id s" "page_size s' = page_size s"
    using reopen_rep(1,2) [OF assms] that [of "reopen_segment maxSize s"] by simp
  then have "rec_loc s rs i = rec_loc s' rs i" for i by (simp add: rec_loc_def)
  then show ?thesis using s' seg_read_rep [OF s'(2) _ refl] by (auto simp: rec_loc_def)
qed

theorem reopen_read_witness:
  "\<exists>s s'. new_file_segment 7 0 (Some (seg_file s)) 4096 1048576 False = Inr s' \<and>
    seg_read s' (rec_loc s [demo_record] 0) = Inr demo_record"
proof -
  let ?s = "extend_segment demo_segment demo_record"
  have ds: "seg_id demo_segment = 0" "page_size demo_segment = 4096" by (simp_all add: demo_segment_def fresh_segment_def)
  obtain hdr where "seg_rep ?s hdr ([] @ [demo_record])"
    using seg_append_ok(2) [OF demo_segment_rep demo_accepts] by blast
  from reopen_read [OF this, of 1048576 7] show ?thesis by (auto simp: ds)
qed

text \<open>
  \<open>AppendBatch\<close> agrees with appending the records one by one: whenever the single appends all
  succeed, the batch returns the same locations, no error and the same final segment.
\<close>

theorem append_batch_equiv:
  assumes "append_each s rs = Inr (locs, s')"
  shows "seg_append_batch s rs = (locs, None, s')"
proof (cases rs)
  case Nil
  then show ?thesis using assms by (simp add: seg_append_batch_def)
next
  case (Cons r rs')
  with assms have "\<not> is_read_only s" by (auto simp: seg_append_def split: if_splits)
  then show ?thesis using append_batch_loop_each [OF assms, of "[]"] Cons by (simp add: seg_append_batch_def)
qed

theorem append_batch_equiv_witness:
  "\<exists>locs s'. append_each demo_segment [demo_record] = Inr (locs, s') \<and>
    seg_append_batch demo_segment [demo_record] = (locs, None, s')"
proof -
  have e: "append_each demo_segment [demo_record] =
      Inr ([\<lparr>segment_id = seg_id demo_segment, loc_offset = next_offset demo_segment\<rparr>], extend_segment demo_segment demo_record)"
    by (simp add: seg_append_ok(1) [OF demo_segment_rep demo_accepts])
  from e append_batch_equiv [OF e] show ?thesis by blast
qed

end
