(* ===== verification/Segment_Scanner.thy ===== *)
theory Segment_Scanner
  imports Segment_Ops
begin

text \<open>
  The sequential and the reverse scanner of \<open>src/storage/scanner.go\<close>. A scan loop ends when the
  scanner reports \<open>io.EOF\<close>; since the loop has no bound of its own it takes fuel, and the theorems
  say how much fuel is enough: one unit more than the number of records.

  Results: scanning a segment returns exactly the stored records with their locations in the order
  they were appended; the reverse scanner returns them in reverse order while the file is padded to
  whole pages, and misses the last record when it is not.
\<close>

section \<open>Sequential scanner\<close>

record scanner =
  sc_segment :: file_segment
  sc_offset :: u32
  sc_size :: u64
  sc_page :: u32

definition new_scanner :: "file_segment \<Rightarrow> scanner" where
  "new_scanner s = \<lparr>sc_segment = s, sc_offset = page_size s, sc_size = current_size s, sc_page = page_size s\<rparr>"

definition sc_read_single :: "scanner \<Rightarrow> u32 \<Rightarrow> byte \<Rightarrow> rec result" where
  "sc_read_single c len flags =
     (if unat (sc_offset c) + unat len > unat (sc_size c)
      then Inl (Err ''record exceeds segment size (possible truncation)'')
      else case wrap_err ''read data'' (read_at (seg_file (sc_segment c)) (unat len) (unat (sc_offset c))) of
        Inl e \<Rightarrow> Inl e
      | Inr data \<Rightarrow> Inr \<lparr>rec_length = len, rec_flags = flags, rec_data = data, continuation_count = 0\<rparr>)"

definition sc_read_multi :: "scanner \<Rightarrow> u32 \<Rightarrow> byte \<Rightarrow> rec result" where
  "sc_read_multi c len flags =
     (let ps = sc_page c; f = seg_file (sc_segment c)
      in if unat (sc_offset c) + unat len > unat (sc_size c)
         then Inl (Err ''multi-page record exceeds segment size'')
         else case wrap_err ''read first page'' (read_at f (unat ps) (unat (sc_offset c))) of
           Inl e \<Rightarrow> Inl e
         | Inr firstPage \<Rightarrow>
             if unat len < 7 \<or> unat ps < 7 then Inl Panic
             else let count = get_u16 (gslice firstPage 5 7);
                      full0 = gslice firstPage 0 7 @ replicate (unat len - 7) 0;
                      firstChunkLen = (if ps - 7 > len - 7 then len - 7 else ps - 7)
               in case copy_into full0 7 (gslice firstPage 7 (unat (7 + firstChunkLen))) of
                    Inl e \<Rightarrow> Inl e
                  | Inr full1 \<Rightarrow>
                      (case read_cont_pages ''continuation chunk exceeds record bounds'' (unat count) f ps
                          full1 (7 + firstChunkLen) (sc_offset c + ps) of
                         Inl e \<Rightarrow> Inl e
                       | Inr (full, dataOffset) \<Rightarrow>
                           if dataOffset \<noteq> len then Inl (Err ''incomplete record reconstruction'')
                           else Inr \<lparr>rec_length = len, rec_flags = flags, rec_data = full,
                                     continuation_count = count\<rparr>))"

definition sc_next :: "scanner \<Rightarrow> (rec \<times> location \<times> scanner) result" where
  "sc_next c =
     (let off = sc_offset c; ps = sc_page c
      in if off \<ge> ucast (sc_size c) then Inl EOF
         else case read_at (seg_file (sc_segment c)) 7 (unat off) of
           Inl EOF \<Rightarrow> Inl EOF
         | Inl e \<Rightarrow> Inl (wrap_error ''read record header'' e)
         | Inr header \<Rightarrow>
             let recordLen = get_u32 (gslice header 0 4); recordFlags = header ! 4;
                 loc = \<lparr>segment_id = seg_id (sc_segment c), loc_offset = off\<rparr>
             in if recordLen = 0 then Inl (Err ''invalid record length 0'')
                else if unat recordLen > max_record_len then Inl (Err ''record length exceeds maximum (100MB)'')
                else if unat off + unat recordLen > unat (sc_size c)
                then Inl (Err ''record length exceeds segment size'')
                else if is_continued recordFlags then
                  (case wrap_err ''read multi-page record'' (sc_read_multi c recordLen recordFlags) of
                     Inl e \<Rightarrow> Inl e
                   | Inr r \<Rightarrow>
                       Inr (r, loc, c\<lparr>sc_offset := off + (1 + ucast (continuation_count r)) * ps\<rparr>))
                else
                  (case wrap_err ''read single-page record'' (sc_read_single c recordLen recordFlags) of
                     Inl e \<Rightarrow> Inl e
                   | Inr r \<Rightarrow>
                       let no = off + recordLen;
                           no' = (if no mod ps \<noteq> 0 then (no div ps + 1) * ps else no)
                       in Inr (r, loc, c\<lparr>sc_offset := no'\<rparr>)))"

definition sc_seek :: "u32 \<Rightarrow> scanner \<Rightarrow> scanner" where
  "sc_seek off c = c\<lparr>sc_offset := off\<rparr>"

definition sc_reset :: "scanner \<Rightarrow> scanner" where
  "sc_reset c = c\<lparr>sc_offset := sc_page c\<rparr>"

text \<open>\<open>ScanAll\<close> and \<open>CountRecords\<close>; \<open>None\<close> is running out of fuel.\<close>

fun scan_loop :: "nat \<Rightarrow> scanner \<Rightarrow> bool \<Rightarrow> (rec \<times> location) list \<Rightarrow> (rec \<times> location) list result option" where
  "scan_loop 0 c skip acc = None"
| "scan_loop (Suc n) c skip acc =
     (case sc_next c of
        Inl EOF \<Rightarrow> Some (Inr acc)
      | Inl e \<Rightarrow> Some (Inl (wrap_error ''scan error'' e))
      | Inr (r, loc, c') \<Rightarrow>
          if skip \<and> (is_deleted (rec_flags r) \<or> is_replaced (rec_flags r)) then scan_loop n c' skip acc
          else scan_loop n c' skip (acc @ [(r, loc)]))"

definition scan_all :: "nat \<Rightarrow> file_segment \<Rightarrow> bool \<Rightarrow> (rec \<times> location) list result option" where
  "scan_all fuel s skipDeleted = scan_loop fuel (new_scanner s) skipDeleted []"

fun count_loop :: "nat \<Rightarrow> scanner \<Rightarrow> bool \<Rightarrow> bool \<Rightarrow> nat \<Rightarrow> nat result option" where
  "count_loop 0 c incDel incRep n = None"
| "count_loop (Suc k) c incDel incRep n =
     (case sc_next c of
        Inl EOF \<Rightarrow> Some (Inr n)
      | Inl e \<Rightarrow> Some (Inl (wrap_error ''scan error'' e))
      | Inr (r, loc, c') \<Rightarrow>
          if \<not> incDel \<and> is_deleted (rec_flags r) then count_loop k c' incDel incRep n
          else if \<not> incRep \<and> is_replaced (rec_flags r) then count_loop k c' incDel incRep n
          else count_loop k c' incDel incRep (n + 1))"

definition count_records :: "nat \<Rightarrow> file_segment \<Rightarrow> bool \<Rightarrow> bool \<Rightarrow> nat result option" where
  "count_records fuel s includeDeleted includeReplaced =
     count_loop fuel (new_scanner s) includeDeleted includeReplaced 0"

definition find_record :: "file_segment \<Rightarrow> u32 \<Rightarrow> rec result" where
  "find_record s off = seg_read s \<lparr>segment_id = seg_id s, loc_offset = off\<rparr>"

section \<open>Reverse scanner\<close>

record reverse_scanner =
  rs_segment :: file_segment
  rs_current :: u32
  rs_total :: u32
  rs_page :: u32
  rs_visited :: "u32 list"

definition new_reverse_scanner :: "file_segment \<Rightarrow> reverse_scanner" where
  "new_reverse_scanner s =
     (let total = ucast (current_size s) div page_size s
      in \<lparr>rs_segment = s, rs_current = total - 1, rs_total = total, rs_page = page_size s, rs_visited = []\<rparr>)"

text \<open>
  \<open>Prev\<close> walks down page by page, so the loop is a recursion on the current page number. The pages
  marked by a continued record are the record's own and those behind it.
\<close>

definition mark_visited :: "u32 \<Rightarrow> u16 \<Rightarrow> u32 list" where
  "mark_visited page count = map (\<lambda>i. page + word_of_nat i) [0..<Suc (unat count)]"

fun rs_prev_loop :: "nat \<Rightarrow> reverse_scanner \<Rightarrow> (rec \<times> location) result \<times> reverse_scanner" where
  "rs_prev_loop 0 c = (Inl EOF, c)"
| "rs_prev_loop (Suc p) c =
     (let page = word_of_nat (Suc p) :: u32;
          down = (\<lambda>c. rs_prev_loop p (c\<lparr>rs_current := word_of_nat p\<rparr>));
          off = page * rs_page c
      in if page \<in> set (rs_visited c) then down c
         else case read_at (seg_file (rs_segment c)) 7 (unat off) of
           Inl e \<Rightarrow> down c
         | Inr header \<Rightarrow>
             let recordLen = get_u32 (gslice header 0 4); recordFlags = header ! 4;
                 loc = \<lparr>segment_id = seg_id (rs_segment c), loc_offset = off\<rparr>;
                 sc = \<lparr>sc_segment = rs_segment c, sc_offset = off,
                       sc_size = current_size (rs_segment c), sc_page = rs_page c\<rparr>
             in if recordLen = 0 \<or> unat recordLen > max_record_len then down c
                else if is_continued recordFlags then
                  let c' = c\<lparr>rs_visited := mark_visited page (get_u16 (gslice header 5 7)) @ rs_visited c\<rparr>
                  in case sc_read_multi sc recordLen recordFlags of
                       Inl e \<Rightarrow> if e = Panic then (Inl Panic, c') else down c'
                     | Inr r \<Rightarrow> (Inr (r, loc), c'\<lparr>rs_current := word_of_nat p\<rparr>)
                else
                  let c' = c\<lparr>rs_visited := page # rs_visited c\<rparr>
                  in case sc_read_single sc recordLen recordFlags of
                       Inl e \<Rightarrow> if e = Panic then (Inl Panic, c') else down c'
                     | Inr r \<Rightarrow> (Inr (r, loc), c'\<lparr>rs_current := word_of_nat p\<rparr>))"

definition rs_prev :: "reverse_scanner \<Rightarrow> (rec \<times> location) result \<times> reverse_scanner" where
  "rs_prev c = rs_prev_loop (unat (rs_current c)) c"

definition rs_reset :: "reverse_scanner \<Rightarrow> reverse_scanner" where
  "rs_reset c = c\<lparr>rs_current := rs_total c - 1, rs_visited := []\<rparr>"

section \<open>Scanning a represented segment\<close>

text \<open>A scanner positioned at record \<open>i\<close>.\<close>

definition at_record :: "file_segment \<Rightarrow> rec list \<Rightarrow> nat \<Rightarrow> scanner" where
  "at_record s rs i = (new_scanner s)\<lparr>sc_offset := word_of_nat (rec_offset (unat (page_size s)) rs i)\<rparr>"

lemma at_record_simps [simp]:
  "sc_segment (at_record s rs i) = s" "sc_page (at_record s rs i) = page_size s"
  "sc_size (at_record s rs i) = current_size s"
  "sc_offset (at_record s rs i) = word_of_nat (rec_offset (unat (page_size s)) rs i)"
  by (simp_all add: at_record_def new_scanner_def)

lemma new_scanner_at: "new_scanner s = at_record s rs 0"
  by (simp add: at_record_def new_scanner_def)

lemma sc_read_single_rep:
  assumes rep: "seg_rep s hdr rs" and i: "i < length rs" and nc: "\<not> is_continued (rec_flags (rs ! i))"
    and c: "sc_segment c = s" "sc_size c = current_size s"
      "unat (sc_offset c) = rec_offset (unat (page_size s)) rs i"
  shows "sc_read_single c (rec_length (rs ! i)) (rec_flags (rs ! i)) = Inr (rs ! i)"
proof -
  let ?P = "unat (page_size s)" and ?r = "rs ! i"
  note b = stored_record_bounds [OF rep i refl] and wf = rec_wf_len_span [OF stored_record_bounds(1,2) [OF rep i refl]]
  have "gslice (rec_image ?P ?r) 0 (length (rec_data ?r)) = rec_data ?r"
    using nc by (simp add: rec_image_def pad_to_def)
  then have "read_at (seg_file s) (unat (rec_length ?r)) (rec_offset ?P rs i) = Inr (rec_data ?r)"
    using read_at_record [OF rep i refl, of 0 "length (rec_data ?r)"] wf by simp
  moreover have "continuation_count ?r = 0" using b(2) nc by (simp add: rec_wf_def)
  ultimately show ?thesis using wf b c by (auto simp: sc_read_single_def)
qed

lemma sc_read_multi_rep:
  assumes rep: "seg_rep s hdr rs" and i: "i < length rs" and mc: "is_continued (rec_flags (rs ! i))"
    and c: "sc_segment c = s" "sc_size c = current_size s" "sc_page c = page_size s"
      "unat (sc_offset c) = rec_offset (unat (page_size s)) rs i"
  shows "sc_read_multi c (rec_length (rs ! i)) (rec_flags (rs ! i)) = Inr (rs ! i)"
proof -
  let ?P = "unat (page_size s)" and ?r = "rs ! i"
  note b = stored_record_bounds [OF rep i refl] and wf = rec_wf_len_span [OF stored_record_bounds(1,2) [OF rep i refl]]
  note parts = multi_read_parts [OF rep i refl refl mc c(4)]
  have P: "40 \<le> ?P" "?P + 2 \<le> length (rec_data ?r)" using b(1,2) mc by (auto simp: page_ok_def rec_wf_def)
  then have "\<not> page_size s - 7 > rec_length ?r - 7"
    using wf(3) by (simp add: word_less_nat_alt unat_sub_le)
  moreover have "7 + (page_size s - 7) = page_size s" by simp
  ultimately show ?thesis
    using parts rec_image_multi(3) [OF b(1,2) mc] wf b P c
    by (simp add: sc_read_multi_def Let_def)
qed

lemma stored_header:
  assumes rep: "seg_rep s hdr rs" and i: "i < length rs" and r: "r = rs ! i"
  shows "read_at (seg_file s) 7 (rec_offset (unat (page_size s)) rs i) = Inr (take 7 (rec_data r))"
    and "get_u32 (gslice (take 7 (rec_data r)) 0 4) = rec_length r" and "take 7 (rec_data r) ! 4 = rec_flags r"
    and "rec_length r \<noteq> 0" and "unat (rec_length r) \<le> max_record_len"
    and "rec_offset (unat (page_size s)) rs i + unat (rec_length r) \<le> unat (current_size s)"
proof -
  note b = stored_record_bounds [OF rep i refl, folded r]
  note wf = rec_wf_len_span [OF b(1,2)] and h = rec_image_header [OF b(1,2)]
  show "read_at (seg_file s) 7 (rec_offset (unat (page_size s)) rs i) = Inr (take 7 (rec_data r))"
    using read_at_record [OF rep i refl, of 0 7] wf h(1) r by simp
  show "get_u32 (gslice (take 7 (rec_data r)) 0 4) = rec_length r" "take 7 (rec_data r) ! 4 = rec_flags r"
    by (rule h(2), rule h(3))
  show "rec_length r \<noteq> 0" using wf by auto
  show "unat (rec_length r) \<le> max_record_len"
    "rec_offset (unat (page_size s)) rs i + unat (rec_length r) \<le> unat (current_size s)"
    using wf b by simp_all
qed

lemma next_record_offset:
  assumes rep: "seg_rep s hdr rs" and i: "i < length rs" and r: "r = rs ! i"
    and off: "off = word_of_nat (rec_offset (unat (page_size s)) rs i)"
  shows "is_continued (rec_flags r) \<Longrightarrow> off + (1 + ucast (continuation_count r)) * page_size s =
      word_of_nat (rec_offset (unat (page_size s)) rs (Suc i))"
    and "\<not> is_continued (rec_flags r) \<Longrightarrow> (off + rec_length r) mod page_size s \<noteq> 0 \<and>
      ((off + rec_length r) div page_size s + 1) * page_size s =
      word_of_nat (rec_offset (unat (page_size s)) rs (Suc i))"
proof -
  let ?P = "unat (page_size s)" and ?o = "rec_offset (unat (page_size s)) rs i"
  note b = stored_record_bounds [OF rep i refl, folded r]
  note wf = rec_wf_len_span [OF b(1,2)]
  show "off + (1 + ucast (continuation_count r)) * page_size s = word_of_nat (rec_offset ?P rs (Suc i))"
    using i r by (simp add: off rec_offset_Suc rec_span_def algebra_simps)
  assume nc: "\<not> is_continued (rec_flags r)"
  obtain k where k: "?o = k * ?P" using rec_offset_dvd [of ?P rs i] by (metis dvdE mult.commute)
  have sp: "rec_offset ?P rs (Suc i) = (k + 1) * ?P" and lt: "length (rec_data r) < ?P"
    using b(2) nc k i r by (simp_all add: rec_offset_Suc rec_span_def rec_wf_def)
  have "rec_offset ?P rs (Suc i) \<le> unat (next_offset s)"
    using rep i rec_offset_mono [of "Suc i" "length rs" ?P rs] by (simp add: seg_rep_def sizes_ok_def)
  then have lt32: "(k + 1) * ?P < 2 ^ 32" using sp unat_bounds(3) [of "next_offset s"] by simp
  have uo: "unat off = k * ?P" using unat_rec_offset [OF rep, of i] i k off by simp
  have un: "unat (off + rec_length r) = k * ?P + length (rec_data r)"
    using wf(3) lt lt32 uo by (subst unat_add_small) auto
  have pos: "0 < length (rec_data r)" using wf(2) by linarith
  show "(off + rec_length r) mod page_size s \<noteq> 0 \<and>
      ((off + rec_length r) div page_size s + 1) * page_size s = word_of_nat (rec_offset ?P rs (Suc i))"
    unfolding sp by (intro conjI align_up [OF un pos lt lt32])
qed

lemma ucast_current_size:
  assumes "seg_rep s hdr rs"
  shows "unat (ucast (current_size s) :: u32) = unat (current_size s)"
  using assms unat_bounds(3) [of "next_offset s"]
  by (simp add: unsigned_ucast_eq seg_rep_def sizes_ok_def take_bit_nat_eq_self)

lemma sc_next_record:
  assumes rep: "seg_rep s hdr rs" and i: "i < length rs"
  shows "sc_next (at_record s rs i) = Inr (rs ! i, rec_loc s rs i, at_record s rs (Suc i))"
proof -
  let ?c = "at_record s rs i" and ?r = "rs ! i" and ?o = "rec_offset (unat (page_size s)) rs i"
  have uo: "unat (sc_offset ?c) = ?o" using unat_rec_offset [OF rep, of i] i by simp
  note h = stored_header [OF rep i refl] and nx = next_record_offset [OF rep i refl refl]
  have "148 \<le> unat (rec_length ?r)"
    using rec_wf_len_span [OF stored_record_bounds(1,2) [OF rep i refl]] by simp
  then have "\<not> sc_offset ?c \<ge> ucast (current_size s)"
    using h(6) uo ucast_current_size [OF rep] by (simp add: word_le_nat_alt)
  then show ?thesis
    using h uo nx sc_read_single_rep [OF rep i _ _ _ uo] sc_read_multi_rep [OF rep i _ _ _ _ uo]
    by (simp add: sc_next_def Let_def rec_loc_def at_record_def new_scanner_def)
qed

lemma sc_next_end:
  assumes rep: "seg_rep s hdr rs"
  shows "sc_next (at_record s rs (length rs)) = Inl EOF"
proof -
  have "unat (word_of_nat (rec_offset (unat (page_size s)) rs (length rs)) :: u32) = unat (next_offset s)"
    using unat_rec_offset [OF rep, of "length rs"] rep by (simp add: seg_rep_def sizes_ok_def)
  moreover have "unat (current_size s) \<le> unat (next_offset s)" using rep by (simp add: seg_rep_def sizes_ok_def)
  ultimately show ?thesis using ucast_current_size [OF rep] by (simp add: sc_next_def word_le_nat_alt)
qed

definition live :: "rec \<Rightarrow> bool" where
  "live r \<longleftrightarrow> \<not> is_deleted (rec_flags r) \<and> \<not> is_replaced (rec_flags r)"

lemma scan_loop_rep:
  assumes rep: "seg_rep s hdr rs"
  shows "i \<le> length rs \<Longrightarrow> length rs - i < fuel \<Longrightarrow> scan_loop fuel (at_record s rs i) skip acc =
    Some (Inr (acc @ filter (\<lambda>(r, l). skip \<longrightarrow> live r) (map (\<lambda>j. (rs ! j, rec_loc s rs j)) [i..<length rs])))"
proof (induction fuel arbitrary: i acc)
  case (Suc fuel)
  show ?case
  proof (cases "i = length rs")
    case True
    then show ?thesis by (simp add: sc_next_end [OF rep])
  next
    case False
    with Suc.prems have i: "i < length rs" by simp
    then have "[i..<length rs] = i # [Suc i..<length rs]" by (simp add: upt_conv_Cons)
    then show ?thesis using Suc.IH [of "Suc i"] Suc.prems i
      by (auto simp: sc_next_record [OF rep i] live_def)
  qed
qed simp

lemma count_loop_rep:
  assumes rep: "seg_rep s hdr rs"
  shows "i \<le> length rs \<Longrightarrow> length rs - i < fuel \<Longrightarrow> count_loop fuel (at_record s rs i) incDel incRep n =
    Some (Inr (n + length (filter (\<lambda>r. (incDel \<or> \<not> is_deleted (rec_flags r)) \<and> (incRep \<or> \<not> is_replaced (rec_flags r)))
      (drop i rs))))"
proof (induction fuel arbitrary: i n)
  case (Suc fuel)
  show ?case
  proof (cases "i = length rs")
    case True
    then show ?thesis by (simp add: sc_next_end [OF rep])
  next
    case False
    with Suc.prems have i: "i < length rs" by simp
    then have "drop i rs = rs ! i # drop (Suc i) rs" by (simp add: Cons_nth_drop_Suc)
    then show ?thesis using Suc.IH [of "Suc i"] Suc.prems i by (auto simp: sc_next_record [OF rep i])
  qed
qed simp

section \<open>Reverse scanning\<close>

text \<open>
  The reverse scanner stands just below the page where record \<open>i\<close> would start, and has visited no
  page below it.
\<close>

definition rs_inv :: "file_segment \<Rightarrow> rec list \<Rightarrow> nat \<Rightarrow> reverse_scanner \<Rightarrow> bool" where
  "rs_inv s rs i c \<longleftrightarrow> rs_segment c = s \<and> rs_page c = page_size s \<and>
     unat (rs_current c) + 1 = rec_offset (unat (page_size s)) rs i div unat (page_size s) \<and>
     (\<forall>v \<in> set (rs_visited c). rec_offset (unat (page_size s)) rs i div unat (page_size s) \<le> unat v)"

lemma cont_image_magic:
  "6 < P \<Longrightarrow> j < n \<Longrightarrow> gslice (cont_image P n d) (j * P) (j * P + 4) = put_u32 cont_magic"
proof (induction n arbitrary: j d)
  case (Suc n)
  have lp: "length (cont_page P (take (P - 6) d)) = P" using Suc.prems by simp
  show ?case
  proof (cases j)
    case 0
    then show ?thesis using Suc.prems lp by (simp add: cont_page_def pad_to_def gslice_def)
  next
    case (Suc j')
    then show ?thesis using Suc.IH [of j' "drop (P - 6) d"] Suc.prems lp
      by (simp add: gslice_append_right)
  qed
qed simp

text \<open>A continuation page does not look like a record: its magic number exceeds the record limit.\<close>

lemma read_cont_page_header:
  assumes rep: "seg_rep s hdr rs" and i: "i < length rs" and mc: "is_continued (rec_flags (rs ! i))"
    and j: "0 < j" "j \<le> unat (continuation_count (rs ! i))" and P: "P = unat (page_size s)"
  shows "\<exists>h. read_at (seg_file s) 7 (rec_offset P rs i + j * P) = Inr h \<and> get_u32 (gslice h 0 4) = cont_magic"
proof -
  let ?r = "rs ! i" and ?n = "unat (continuation_count (rs ! i))"
  note b = stored_record_bounds [OF rep i P]
  have P40: "40 \<le> P" "P + 2 \<le> length (rec_data ?r)" using b(1,2) mc by (auto simp: page_ok_def rec_wf_def)
  obtain k where k: "j = Suc k" "k < ?n" using j by (cases j) auto
  have "k * P + P \<le> ?n * P" using k(2) by (metis Suc_leI add.commute mult_Suc mult_le_mono1)
  then have ext: "j * P + 7 \<le> rec_extent P ?r"
    using mc k P40 by (simp add: rec_extent_def rec_span_def)
  then have rd: "read_at (seg_file s) 7 (rec_offset P rs i + j * P) = Inr (gslice (rec_image P ?r) (j * P) (j * P + 7))"
    by (rule read_at_record [OF rep i P])
  have "gslice (rec_image P ?r) (j * P) (j * P + 4) = put_u32 cont_magic"
    using mc k P40 cont_image_magic [of P k ?n "drop P (rec_data ?r)"]
    by (simp add: rec_image_def gslice_append_right)
  moreover have "gslice (gslice (rec_image P ?r) (j * P) (j * P + 7)) 0 4 = gslice (rec_image P ?r) (j * P) (j * P + 4)"
    by (simp add: gslice_def)
  ultimately show ?thesis using rd by simp
qed

lemma rec_offset_page_Suc:
  assumes "i < length rs" and "0 < P"
  shows "rec_offset P rs (Suc i) div P = rec_offset P rs i div P + Suc (unat (continuation_count (rs ! i)))"
proof -
  obtain k where "rec_offset P rs i = k * P" using rec_offset_dvd [of P rs i] by (metis dvdE mult.commute)
  then have "rec_offset P rs (Suc i) = (k + Suc (unat (continuation_count (rs ! i)))) * P"
    using rec_offset_Suc [OF assms(1), of P] by (simp add: rec_span_def algebra_simps)
  then show ?thesis using \<open>rec_offset P rs i = k * P\<close> assms(2) by (simp del: mult_Suc_right add_Suc_right)
qed

lemma page_offset:
  assumes rep: "seg_rep s hdr rs" and i: "i < length rs" and P: "P = unat (page_size s)"
    and j: "j \<le> unat (continuation_count (rs ! i))" and p: "p = rec_offset P rs i div P + j"
  shows "unat (word_of_nat p :: u32) = p" and "unat (word_of_nat p * page_size s) = rec_offset P rs i + j * P"
proof -
  note b = stored_record_bounds [OF rep i P]
  have P0: "0 < P" using b(1) by (simp add: page_ok_def)
  have pP: "p * P = rec_offset P rs i + j * P" using rec_offset_dvd [of P rs i] p by (simp add: algebra_simps)
  have "j * P < rec_span P (rs ! i)" unfolding rec_span_def add_mult_distrib mult_1
    using mult_le_mono1 [OF j, of P] P0 by linarith
  then have "p * P < unat (next_offset s)"
    using rec_offset_bound [OF i, of P] rep P pP by (simp add: seg_rep_def sizes_ok_def)
  then have lt: "p * P < 4294967296" using unat_bounds(3) [of "next_offset s"] by linarith
  moreover have "p \<le> p * P" using P0 by simp
  ultimately have "p < 4294967296" by linarith
  then show up: "unat (word_of_nat p :: u32) = p" by (rule u32_of_nat)
  have "unat (word_of_nat p * page_size s) = p * P" using lt by (simp add: unat_word_ariths up P)
  then show "unat (word_of_nat p * page_size s) = rec_offset P rs i + j * P" using pP by simp
qed

lemma cont_magic_large: "unat cont_magic > max_record_len"
  by (simp add: cont_magic_def max_record_len_def)

lemma rs_prev_skip:
  assumes rep: "seg_rep s hdr rs" and i: "i < length rs" and P: "P = unat (page_size s)"
    and mc: "is_continued (rec_flags (rs ! i))"
    and c: "rs_segment c = s" "rs_page c = page_size s"
      "\<forall>v \<in> set (rs_visited c). rec_offset P rs (Suc i) div P \<le> unat v"
  shows "j \<le> unat (continuation_count (rs ! i)) \<Longrightarrow>
    \<exists>w. rs_prev_loop (rec_offset P rs i div P + j) c = rs_prev_loop (rec_offset P rs i div P) (c\<lparr>rs_current := w\<rparr>)"
  using c
proof (induction j arbitrary: c)
  case 0
  have "c = c\<lparr>rs_current := rs_current c\<rparr>" by simp
  then show ?case by (metis add_0_right)
next
  case (Suc j)
  let ?p = "rec_offset P rs i div P + Suc j" and ?n = "unat (continuation_count (rs ! i))"
  note off = page_offset [OF rep i P Suc.prems(1) refl]
  have P0: "0 < P" using stored_record_bounds(1) [OF rep i P] by (simp add: page_ok_def)
  then have nv: "word_of_nat ?p \<notin> set (rs_visited c)" using Suc.prems(1,4) off(1) rec_offset_page_Suc [OF i P0] by fastforce
  obtain h where h: "read_at (seg_file s) 7 (rec_offset P rs i + Suc j * P) = Inr h" "get_u32 (gslice h 0 4) = cont_magic"
    using read_cont_page_header [OF rep i mc _ Suc.prems(1) P] by auto
  have "rs_prev_loop ?p c = rs_prev_loop (rec_offset P rs i div P + j)
      (c\<lparr>rs_current := word_of_nat (rec_offset P rs i div P + j)\<rparr>)"
    using nv h off(2) Suc.prems(2,3) cont_magic_large
    by (simp add: Let_def del: of_nat_add of_nat_Suc mult_Suc)
  then show ?case using Suc.IH [of "c\<lparr>rs_current := word_of_nat (rec_offset P rs i div P + j)\<rparr>"] Suc.prems by simp
qed

lemma mark_visited_ge:
  assumes rep: "seg_rep s hdr rs" and i: "i < length rs" and P: "P = unat (page_size s)"
    and v: "v \<in> set (mark_visited (word_of_nat (rec_offset P rs i div P)) (continuation_count (rs ! i)))"
  shows "rec_offset P rs i div P \<le> unat v"
proof -
  from v obtain j where "j < Suc (unat (continuation_count (rs ! i)))"
    "v = word_of_nat (rec_offset P rs i div P) + word_of_nat j"
    by (auto simp: mark_visited_def simp del: upt_Suc)
  then have j: "j \<le> unat (continuation_count (rs ! i))" "v = word_of_nat (rec_offset P rs i div P + j)" by simp_all
  then show ?thesis using page_offset(1) [OF rep i P j(1) refl] by simp
qed

lemma rs_prev_hit:
  assumes rep: "seg_rep s hdr rs" and i: "i < length rs" and P: "P = unat (page_size s)"
    and c: "rs_segment c = s" "rs_page c = page_size s" "word_of_nat (rec_offset P rs i div P) \<notin> set (rs_visited c)"
  shows "\<exists>vis. rs_prev_loop (rec_offset P rs i div P) c = (Inr (rs ! i, rec_loc s rs i),
      c\<lparr>rs_visited := vis @ rs_visited c, rs_current := word_of_nat (rec_offset P rs i div P - 1)\<rparr>) \<and>
    (\<forall>v \<in> set vis. rec_offset P rs i div P \<le> unat v)"
proof -
  let ?r = "rs ! i" and ?a = "rec_offset P rs i div P"
  note b = stored_record_bounds [OF rep i P] and off = page_offset [OF rep i P _ refl, of 0, simplified]
  have P0: "0 < P" using b(1) by (simp add: page_ok_def)
  have "P \<le> rec_offset P rs i" by (simp add: rec_offset_def)
  then obtain q where q: "?a = Suc q" using P0 by (metis div_greater_zero_iff gr0_implies_Suc)
  let ?sc = "\<lparr>sc_segment = s, sc_offset = word_of_nat ?a * page_size s, sc_size = current_size s, sc_page = page_size s\<rparr>"
  note h = stored_header [OF rep i refl, folded P]
  have rd: "is_continued (rec_flags ?r) \<Longrightarrow> sc_read_multi ?sc (rec_length ?r) (rec_flags ?r) = Inr ?r"
    "\<not> is_continued (rec_flags ?r) \<Longrightarrow> sc_read_single ?sc (rec_length ?r) (rec_flags ?r) = Inr ?r"
    using sc_read_multi_rep [OF rep i, of ?sc] sc_read_single_rep [OF rep i, of ?sc] off(2) P by simp_all
  have loc: "\<lparr>segment_id = seg_id s, loc_offset = word_of_nat ?a * page_size s\<rparr> = rec_loc s rs i"
    unfolding rec_loc_def using off(2) unat_rec_offset [OF rep less_imp_le [OF i]] P
    by (metis word_unat_eq_iff)
  have cnt: "is_continued (rec_flags ?r) \<Longrightarrow> get_u16 (gslice (take 7 (rec_data ?r)) 5 7) = continuation_count ?r"
    using b(2) by (simp add: rec_wf_def gslice_def drop_take)
  let ?vis = "if is_continued (rec_flags ?r) then mark_visited (word_of_nat ?a) (continuation_count ?r) else [word_of_nat ?a]"
  have "rs_prev_loop ?a c = (Inr (?r, rec_loc s rs i),
      c\<lparr>rs_visited := ?vis @ rs_visited c, rs_current := word_of_nat (?a - 1)\<rparr>)"
    using h(1-5) rd loc cnt c off(2) unfolding q
    by (simp add: Let_def del: of_nat_Suc)
  moreover have "\<forall>v \<in> set ?vis. ?a \<le> unat v" using mark_visited_ge [OF rep i P] off(1) by auto
  ultimately show ?thesis by blast
qed

lemma rs_prev_record:
  assumes rep: "seg_rep s hdr rs" and i: "i < length rs" and inv: "rs_inv s rs (Suc i) c"
  shows "\<exists>c'. rs_prev c = (Inr (rs ! i, rec_loc s rs i), c') \<and> rs_inv s rs i c'"
proof -
  define P where P: "P = unat (page_size s)"
  let ?r = "rs ! i" and ?n = "unat (continuation_count (rs ! i))" and ?a = "rec_offset P rs i div P"
  have c: "rs_segment c = s" "rs_page c = page_size s" "unat (rs_current c) + 1 = rec_offset P rs (Suc i) div P"
    "\<forall>v \<in> set (rs_visited c). rec_offset P rs (Suc i) div P \<le> unat v"
    using inv by (auto simp: rs_inv_def P)
  note b = stored_record_bounds [OF rep i P]
  have P0: "0 < P" using b(1) by (simp add: page_ok_def)
  note up = rec_offset_page_Suc [OF i P0] and ua = page_offset(1) [OF rep i P _ refl, of 0, simplified]
  have cur: "unat (rs_current c) = ?a + ?n" using c(3) up by simp
  have a0: "0 < ?a" using P0 by (simp add: div_greater_zero_iff rec_offset_def)
  obtain w where w: "rs_prev_loop (?a + ?n) c = rs_prev_loop ?a (c\<lparr>rs_current := w\<rparr>)"
  proof (cases "is_continued (rec_flags ?r)")
    case True
    then show ?thesis using rs_prev_skip [OF rep i P True c(1,2,4) order_refl] that by blast
  next
    case False
    then have "?n = 0" using b(2) by (simp add: rec_wf_def)
    then show ?thesis using that [of "rs_current c"] by simp
  qed
  have nv: "word_of_nat ?a \<notin> set (rs_visited (c\<lparr>rs_current := w\<rparr>))" using c(4) ua up by fastforce
  obtain vis where res: "rs_prev_loop ?a (c\<lparr>rs_current := w\<rparr>) = (Inr (?r, rec_loc s rs i),
      c\<lparr>rs_current := w, rs_visited := vis @ rs_visited c, rs_current := word_of_nat (?a - 1)\<rparr>)"
    "\<forall>v \<in> set vis. ?a \<le> unat v"
    using rs_prev_hit [OF rep i P _ _ nv] c(1,2) by auto
  have old: "?a \<le> unat v" if "v \<in> set (rs_visited c)" for v using c(4) that up by fastforce
  have "unat (word_of_nat (?a - 1) :: u32) = ?a - 1"
    using ua unat_bounds(3) [of "word_of_nat ?a"] by (intro u32_of_nat) linarith
  then have "rs_inv s rs i (c\<lparr>rs_current := w, rs_visited := vis @ rs_visited c, rs_current := word_of_nat (?a - 1)\<rparr>)"
    using c(1,2) old res(2) a0 by (auto simp: rs_inv_def P [symmetric])
  then show ?thesis using res(1) w cur by (auto simp: rs_prev_def)
qed

lemma rs_prev_start: "rs_inv s rs 0 c \<Longrightarrow> 0 < unat (page_size s) \<Longrightarrow> rs_prev c = (Inl EOF, c)"
  by (simp add: rs_inv_def rs_prev_def)

text \<open>Calling \<open>Prev\<close> up to \<open>n\<close> times and collecting what it returns.\<close>

fun rs_collect :: "nat \<Rightarrow> reverse_scanner \<Rightarrow> (rec \<times> location) list" where
  "rs_collect 0 c = []"
| "rs_collect (Suc n) c =
     (case rs_prev c of (Inr x, c') \<Rightarrow> x # rs_collect n c' | (Inl e, c') \<Rightarrow> [])"

lemma rs_collect_rep:
  assumes rep: "seg_rep s hdr rs"
  shows "i \<le> length rs \<Longrightarrow> i \<le> n \<Longrightarrow> rs_inv s rs i c \<Longrightarrow>
    rs_collect n c = rev (map (\<lambda>j. (rs ! j, rec_loc s rs j)) [0..<i])"
proof (induction n arbitrary: i c)
  case (Suc n)
  have "0 < unat (page_size s)" using rep by (simp add: seg_rep_def seg_bounds_def page_ok_def)
  then show ?case
  proof (cases i)
    case 0
    then show ?thesis using rs_prev_start [of s rs c] Suc.prems \<open>0 < unat (page_size s)\<close> by simp
  next
    case (Suc j)
    then obtain c' where "rs_prev c = (Inr (rs ! j, rec_loc s rs j), c')" "rs_inv s rs j c'"
      using rs_prev_record [OF rep, of j c] Suc.prems by auto
    then show ?thesis using Suc.IH [of j c'] Suc Suc.prems by simp
  qed
qed simp

lemma new_reverse_scanner_inv:
  assumes rep: "seg_rep s hdr rs" and P: "P = unat (page_size s)"
    and tot: "unat (current_size s) div P = rec_offset P rs i div P"
  shows "rs_inv s rs i (new_reverse_scanner s)"
proof -
  have P0: "0 < P" using rep P by (simp add: seg_rep_def seg_bounds_def page_ok_def)
  let ?t = "ucast (current_size s) div page_size s :: u32"
  have ut: "unat ?t = rec_offset P rs i div P"
    using ucast_current_size [OF rep] tot P by (simp add: unat_div)
  moreover have "1 \<le> rec_offset P rs i div P" using P0 by (simp add: rec_offset_def div_greater_zero_iff Suc_leI)
  ultimately have "unat (?t - 1) + 1 = rec_offset P rs i div P" by (subst unat_sub_le) simp_all
  then show ?thesis by (simp add: rs_inv_def new_reverse_scanner_def Let_def P)
qed

section \<open>Properties\<close>

text \<open>
  C15: \<open>ScanAll\<close> terminates on every well-formed segment and returns exactly the stored records with
  their locations, in the order they were appended; with \<open>skipDeleted\<close> it leaves out those whose
  deleted or replaced flag is set. One unit of fuel more than the number of records is enough.
\<close>

theorem scan_all_complete:
  assumes "seg_rep s hdr rs" and "length rs < fuel"
  shows "scan_all fuel s skip = Some (Inr (filter (\<lambda>(r, l). skip \<longrightarrow> live r)
    (map (\<lambda>j. (rs ! j, rec_loc s rs j)) [0..<length rs])))"
  using scan_loop_rep [OF assms(1), of 0 fuel skip "[]"] assms(2)
  by (simp add: scan_all_def new_scanner_at [of s rs])

lemma demo_filled: "\<exists>hdr. seg_rep (extend_segment demo_segment demo_record) hdr [demo_record]"
  using seg_append_ok(2) [OF demo_segment_rep demo_accepts] by simp

theorem scan_all_complete_witness:
  "\<exists>s. scan_all 2 s False = Some (Inr [(demo_record, rec_loc s [demo_record] 0)])"
proof -
  obtain hdr where "seg_rep (extend_segment demo_segment demo_record) hdr [demo_record]" using demo_filled ..
  from scan_all_complete [OF this, of 2 False] show ?thesis by auto
qed

text \<open>
  \<open>CountRecords\<close> terminates and counts the stored records, leaving out the deleted or the replaced
  ones as its arguments say.
\<close>

theorem count_records_correct:
  assumes "seg_rep s hdr rs" and "length rs < fuel"
  shows "count_records fuel s incDel incRep = Some (Inr (length (filter (\<lambda>r.
    (incDel \<or> \<not> is_deleted (rec_flags r)) \<and> (incRep \<or> \<not> is_replaced (rec_flags r))) rs)))"
  using count_loop_rep [OF assms(1), of 0 fuel incDel incRep 0] assms(2)
  by (simp add: count_records_def new_scanner_at [of s rs])

theorem count_records_correct_witness: "\<exists>s. count_records 2 s True True = Some (Inr 1)"
proof -
  obtain hdr where "seg_rep (extend_segment demo_segment demo_record) hdr [demo_record]" using demo_filled ..
  from count_records_correct [OF this, of 2 True True] show ?thesis by auto
qed

text \<open>
  On a segment whose size is page aligned, which is every segment that has not been reopened,
  the reverse scanner returns all records, last one first, and steps over continuation pages.
\<close>

theorem reverse_scan_complete:
  assumes "seg_rep s hdr rs" and "unat (current_size s) = unat (next_offset s)" and "length rs \<le> n"
  shows "rs_collect n (new_reverse_scanner s) = rev (map (\<lambda>j. (rs ! j, rec_loc s rs j)) [0..<length rs])"
proof -
  have "unat (current_size s) = rec_offset (unat (page_size s)) rs (length rs)"
    using assms(1,2) by (simp add: seg_rep_def sizes_ok_def)
  then show ?thesis
    using new_reverse_scanner_inv [OF assms(1) refl, of "length rs"] rs_collect_rep [OF assms(1) _ assms(3)] by simp
qed

theorem reverse_scan_complete_witness:
  "\<exists>s. rs_collect 5 (new_reverse_scanner s) = [(demo_record, rec_loc s [demo_record] 0)]"
proof -
  let ?s = "extend_segment demo_segment demo_record"
  obtain hdr where rep: "seg_rep ?s hdr [demo_record]" using demo_filled ..
  have "current_size ?s = ucast (next_offset ?s)"
    by (simp add: extend_segment_def persist_header_def Let_def demo_segment_def fresh_segment_def
        rec_span_def demo_record_def record_of_def multi_page_def demo_event_facts)
  then have "unat (current_size ?s) = unat (next_offset ?s)" by simp
  from reverse_scan_complete [OF rep this, of 5] show ?thesis by auto
qed

text \<open>
  After a segment has been reopened its size is the length of the file, and a last record of
  one page ends in the middle of a page. The reverse scanner divides the size by the page size and
  rounds down, so it never sees that record: it returns all records but the last.
\<close>

theorem reverse_scan_misses_last:
  assumes "seg_rep s hdr (rs @ [r])" and "\<not> is_continued (rec_flags r)"
    and "unat (current_size s) < unat (next_offset s)" and "length rs \<le> n"
  shows "rs_collect n (new_reverse_scanner s) = rev (map (\<lambda>j. ((rs @ [r]) ! j, rec_loc s (rs @ [r]) j)) [0..<length rs])"
proof -
  define P where P: "P = unat (page_size s)"
  let ?rs = "rs @ [r]" and ?o = "rec_offset P (rs @ [r]) (length rs)"
  note b = stored_record_bounds [OF assms(1) _ P, of "length rs", simplified]
  have P0: "0 < P" using b(1) by (simp add: page_ok_def)
  have "unat (next_offset s) = ?o + P"
    using assms(1,2) b(2) P by (simp add: seg_rep_def sizes_ok_def rec_offset_snoc rec_span_def rec_wf_def)
  then have "?o \<le> unat (current_size s)" "unat (current_size s) < ?o + P" using b assms(3) by simp_all
  moreover obtain k where "?o = k * P" using rec_offset_dvd [of P ?rs "length rs"] by (metis dvdE mult.commute)
  ultimately have "unat (current_size s) div P = ?o div P"
    using P0 by (simp add: div_nat_eqI mult.commute)
  then show ?thesis
    using new_reverse_scanner_inv [OF assms(1) P, of "length rs"] rs_collect_rep [OF assms(1) _ assms(4)] by simp
qed

theorem reverse_scan_misses_last_witness:
  "\<exists>s hdr. seg_rep s hdr [demo_record] \<and> rs_collect 5 (new_reverse_scanner s) = []"
proof -
  let ?s = "extend_segment demo_segment demo_record"
  obtain hdr where rep: "seg_rep ?s hdr [demo_record]" using demo_filled ..
  obtain s' where s': "seg_rep s' hdr ([] @ [demo_record])" "next_offset s' = next_offset ?s"
    "unat (current_size s') = length (seg_file ?s)"
    using reopen_rep(2,3) [OF rep, of 1048576] that [of "reopen_segment 1048576 ?s"]
    by (auto simp: demo_segment_def fresh_segment_def)
  have d: "\<not> is_continued (rec_flags demo_record)" "length (rec_data demo_record) = 167"
    "continuation_count demo_record = 0"
    by (simp_all add: demo_record_def record_of_def multi_page_def demo_event_facts length_event_body)
  then have "length (seg_file ?s) = 4096 + 167" "unat (next_offset ?s) = 8192"
    by (simp_all add: extend_segment_def persist_header_def Let_def demo_segment_def fresh_segment_def
        fresh_header_def rec_extent_def rec_span_def rec_image_def pad_to_def)
  with s' have "unat (current_size s') < unat (next_offset s')" by simp
  from reverse_scan_misses_last [OF s'(1) d(1) this, of 5] s'(1) show ?thesis by auto
qed

end
