(* ===== verification/Segment_Manager.thy ===== *)
theory Segment_Manager
  imports Segment_Scanner "HOL-Library.AList"
begin

text \<open>
  The set of segments of a store: \<open>FileSegmentManager\<close> of \<open>src/storage/segment.go\<close>. The map from
  ids to open segments is an association list; a directory is the list of its segment files, given
  by id and contents (\<open>None\<close> is a directory that does not exist). Segment files that are open live
  in the segment itself, so \<open>Close\<close> hands the directory back. \<open>Sync\<close> and failing system calls are
  not modelled; files whose name does not parse are not part of a directory.

  \<open>mgr_rep m log\<close> is the contract of \<open>Record_Log\<close> lifted to all segments.
\<close>

section \<open>State and operations\<close>

type_synonym directory = "(u32 \<times> bytes) list"

record segment_manager =
  mgr_page_size :: u32
  mgr_max_size :: u64
  mgr_segments :: "(u32 \<times> file_segment) list"
  mgr_current :: u32

definition new_file_segment_manager :: "u32 \<Rightarrow> u64 \<Rightarrow> segment_manager" where
  "new_file_segment_manager pageSize maxSegmentSize =
     \<lparr>mgr_page_size = pageSize, mgr_max_size = maxSegmentSize, mgr_segments = [], mgr_current = 0\<rparr>"

text \<open>\<open>createSegment\<close> opens the file of an id that is in use and creates it otherwise.\<close>

definition create_segment :: "u64 \<Rightarrow> segment_manager \<Rightarrow> u32 \<Rightarrow> segment_manager result" where
  "create_segment now m sid =
     (case new_file_segment now sid (map_option seg_file (map_of (mgr_segments m) sid))
         (mgr_page_size m) (mgr_max_size m) False of
        Inl e \<Rightarrow> Inl e
      | Inr s \<Rightarrow> Inr (m\<lparr>mgr_segments := AList.update sid s (mgr_segments m)\<rparr>))"

text \<open>The loop of \<open>Open\<close> over the directory, with the largest id seen.\<close>

fun open_files :: "u64 \<Rightarrow> segment_manager \<Rightarrow> u32 \<Rightarrow> directory \<Rightarrow> go_error option \<times> segment_manager \<times> u32" where
  "open_files now m maxID [] = (None, m, maxID)"
| "open_files now m maxID ((sid, f) # fs) =
     (case new_file_segment now sid (Some f) (mgr_page_size m) (mgr_max_size m) False of
        Inl e \<Rightarrow> (Some (wrap_error ''open segment'' e), m, maxID)
      | Inr s \<Rightarrow>
          open_files now (m\<lparr>mgr_segments := AList.update sid s (mgr_segments m)\<rparr>)
            (if sid > maxID then sid else maxID) fs)"

definition mgr_open ::
  "u64 \<Rightarrow> segment_manager \<Rightarrow> directory option \<Rightarrow> bool \<Rightarrow> go_error option \<times> segment_manager" where
  "mgr_open now m dir createIfMissing =
     (case open_files now m 0 (case dir of None \<Rightarrow> [] | Some fs \<Rightarrow> fs) of
        (Some e, m', _) \<Rightarrow> (Some e, m')
      | (None, m', maxID) \<Rightarrow>
          if mgr_segments m' = [] then
            (if dir = None \<and> \<not> createIfMissing
             then (Some (Wrap ''create initial segment'' (Wrap ''open segment file'' (Err ''no such file''))), m')
             else case create_segment now m' 0 of
               Inl e \<Rightarrow> (Some (wrap_error ''create initial segment'' e), m')
             | Inr m'' \<Rightarrow> (None, m''\<lparr>mgr_current := 0\<rparr>))
          else (None, m'\<lparr>mgr_current := maxID\<rparr>))"

definition mgr_current_segment :: "segment_manager \<Rightarrow> file_segment result" where
  "mgr_current_segment m =
     (case map_of (mgr_segments m) (mgr_current m) of
        None \<Rightarrow> Inl (Err ''current segment not found'')
      | Some s \<Rightarrow> Inr s)"

definition rotate_segment :: "u64 \<Rightarrow> segment_manager \<Rightarrow> segment_manager result" where
  "rotate_segment now m =
     (let newID = mgr_current m + 1
      in case wrap_err ''create new segment'' (create_segment now m newID) of
           Inl e \<Rightarrow> Inl e
         | Inr m' \<Rightarrow> Inr (m'\<lparr>mgr_current := newID\<rparr>))"

definition get_segment :: "segment_manager \<Rightarrow> u32 \<Rightarrow> file_segment result" where
  "get_segment m sid =
     (case map_of (mgr_segments m) sid of
        None \<Rightarrow> Inl (Err ''segment not found'')
      | Some s \<Rightarrow> Inr s)"

definition list_segments :: "segment_manager \<Rightarrow> u32 list" where
  "list_segments m = map fst (mgr_segments m)"

definition delete_segment :: "segment_manager \<Rightarrow> u32 \<Rightarrow> segment_manager result" where
  "delete_segment m sid =
     (case map_of (mgr_segments m) sid of
        None \<Rightarrow> Inl (Err ''segment not found'')
      | Some s \<Rightarrow> Inr (m\<lparr>mgr_segments := AList.delete sid (mgr_segments m)\<rparr>))"

definition mgr_close :: "segment_manager \<Rightarrow> directory \<times> segment_manager" where
  "mgr_close m = (map (\<lambda>(sid, s). (sid, seg_file s)) (mgr_segments m), m\<lparr>mgr_segments := []\<rparr>)"

text \<open>Segments are shared by reference: an operation on one is seen through the manager.\<close>

definition put_segment :: "segment_manager \<Rightarrow> u32 \<Rightarrow> file_segment \<Rightarrow> segment_manager" where
  "put_segment m sid s = m\<lparr>mgr_segments := AList.update sid s (mgr_segments m)\<rparr>"

section \<open>The manager as a record log\<close>

definition log_of :: "u32 \<Rightarrow> (location \<times> rec) list \<Rightarrow> (location \<times> rec) list" where
  "log_of sid log = filter (\<lambda>p. segment_id (fst p) = sid) log"

text \<open>What holds of each open segment: its parameters are the manager's, its contents the log's.\<close>

definition seg_of_mgr :: "segment_manager \<Rightarrow> u32 \<Rightarrow> file_segment \<Rightarrow> (location \<times> rec) list \<Rightarrow> bool" where
  "seg_of_mgr m sid s log \<longleftrightarrow>
     sid \<le> mgr_current m \<and> seg_id s = sid \<and> page_size s = mgr_page_size m \<and>
     max_size s = mgr_max_size m \<and> \<not> is_read_only s \<and> seg_log_rep s (log_of sid log)"

definition mgr_bounds :: "segment_manager \<Rightarrow> bool" where
  "mgr_bounds m \<longleftrightarrow> page_ok (unat (mgr_page_size m)) \<and>
     unat (mgr_max_size m) + 2 * unat (mgr_page_size m) \<le> 2 ^ 32"

definition mgr_rep :: "segment_manager \<Rightarrow> (location \<times> rec) list \<Rightarrow> bool" where
  "mgr_rep m log \<longleftrightarrow>
     mgr_bounds m \<and> distinct (map fst (mgr_segments m)) \<and>
     mgr_current m \<in> dom (map_of (mgr_segments m)) \<and>
     (\<forall>sid s. map_of (mgr_segments m) sid = Some s \<longrightarrow> seg_of_mgr m sid s log) \<and>
     (\<forall>p \<in> set log. segment_id (fst p) \<in> dom (map_of (mgr_segments m)))"

lemma log_of_simps [simp]:
  "log_of sid [] = []" "log_of sid (log @ log') = log_of sid log @ log_of sid log'"
  "log_of sid ((l, r) # log) = (if segment_id l = sid then (l, r) # log_of sid log else log_of sid log)"
  "(l, r) \<in> set (log_of sid log) \<longleftrightarrow> (l, r) \<in> set log \<and> segment_id l = sid"
  by (auto simp: log_of_def)

lemma log_of_map:
  "log_of sid (map (\<lambda>(l', r'). (l', f l' r')) log) = map (\<lambda>(l', r'). (l', f l' r')) (log_of sid log)"
  by (induction log) (auto simp: log_of_def)

lemma distinct_log_of: "(\<And>sid. distinct (map fst (log_of sid log))) \<Longrightarrow> distinct (map fst log)"
proof (induction log)
  case (Cons p log)
  obtain l r where p: "p = (l, r)" by (cases p)
  have "distinct (map fst (log_of sid log))" for sid
    using Cons.prems [of sid] p by (auto split: if_splits)
  moreover have "l \<notin> fst ` set log" using Cons.prems [of "segment_id l"] p by (force simp: log_of_def)
  ultimately show ?case using Cons.IH p by simp
qed simp

text \<open>One segment changes, and with it its share of the log.\<close>

lemma put_segment_rep:
  assumes rep: "mgr_rep m log" and s: "seg_of_mgr m sid s log'"
    and dom: "sid \<in> dom (map_of (mgr_segments m))"
    and others: "\<And>i. i \<noteq> sid \<Longrightarrow> log_of i log' = log_of i log"
  shows "mgr_rep (put_segment m sid s) log'"
proof -
  have "segment_id (fst p) \<in> dom (map_of (mgr_segments m))" if "p \<in> set log'" for p
  proof (cases "segment_id (fst p) = sid")
    case False
    from that have "p \<in> set (log_of (segment_id (fst p)) log')" by (simp add: log_of_def)
    then have "p \<in> set log" unfolding others [OF False] by (simp add: log_of_def)
    then show ?thesis using rep by (simp add: mgr_rep_def)
  qed (use dom in simp)
  moreover have "seg_of_mgr m i s' log'" if "i \<noteq> sid" "map_of (mgr_segments m) i = Some s'" for i s'
    using rep that others by (auto simp: mgr_rep_def seg_of_mgr_def)
  ultimately show ?thesis
    using rep s
    by (auto simp: mgr_rep_def mgr_bounds_def put_segment_def AList.update_conv' seg_of_mgr_def AList.distinct_update)
qed

lemma seg_log_rep_fresh:
  assumes "mgr_bounds m"
  shows "seg_log_rep (fresh_segment now sid (mgr_page_size m) (mgr_max_size m)) []"
  using assms fresh_segment_rep by (fastforce simp: mgr_bounds_def seg_log_rep_def seg_log_def)

lemma create_fresh:
  assumes "mgr_bounds m" and "map_of (mgr_segments m) sid = None"
  shows "create_segment now m sid =
    Inr (put_segment m sid (fresh_segment now sid (mgr_page_size m) (mgr_max_size m)))"
  using assms by (simp add: create_segment_def new_file_segment_fresh mgr_bounds_def put_segment_def)

lemma rotate_segment_rep:
  fixes now :: u64
  assumes rep: "mgr_rep m log" and no_wrap: "mgr_current m \<noteq> - 1"
  defines "s \<equiv> fresh_segment now (mgr_current m + 1) (mgr_page_size m) (mgr_max_size m)"
  shows "\<exists>m'. rotate_segment now m = Inr m' \<and> mgr_rep m' log \<and>
    mgr_current m' = mgr_current m + 1 \<and> map_of (mgr_segments m') (mgr_current m') = Some s \<and>
    mgr_page_size m' = mgr_page_size m \<and> mgr_max_size m' = mgr_max_size m"
proof -
  let ?new = "mgr_current m + 1" and ?segs = "mgr_segments m"
  let ?m = "(put_segment m ?new s)\<lparr>mgr_current := ?new\<rparr>"
  have lt: "mgr_current m < ?new" using word_less_plus_1(1) [OF no_wrap] by simp
  have segs: "seg_of_mgr m i s' log" if "map_of ?segs i = Some s'" for i s'
    using rep that by (simp add: mgr_rep_def)
  have b: "mgr_bounds m" using rep by (simp add: mgr_rep_def)
  have new: "map_of ?segs ?new = None"
    using segs [of ?new] lt by (cases "map_of ?segs ?new") (auto simp: seg_of_mgr_def)
  then have "log_of ?new log = []" using rep by (force simp: mgr_rep_def log_of_def filter_empty_conv)
  then have "seg_of_mgr ?m ?new s log"
    using seg_log_rep_fresh [OF b] by (simp add: seg_of_mgr_def s_def put_segment_def) (simp add: fresh_segment_def)
  moreover have "seg_of_mgr ?m i s' log" if "map_of ?segs i = Some s'" for i s'
    using segs [OF that] lt by (auto simp: seg_of_mgr_def put_segment_def)
  ultimately have "mgr_rep ?m log"
    using rep by (auto simp: mgr_rep_def put_segment_def mgr_bounds_def AList.update_conv' AList.distinct_update)
  moreover have "rotate_segment now m = Inr ?m"
    using create_fresh [OF b new, of now] by (simp add: rotate_segment_def s_def Let_def)
  ultimately show ?thesis by (auto simp: put_segment_def AList.update_conv')
qed

lemma mgr_open_fresh:
  assumes "mgr_bounds (new_file_segment_manager ps mx)" and "dir = Some [] \<or> dir = None \<and> create"
  shows "\<exists>m. mgr_open now (new_file_segment_manager ps mx) dir create = (None, m) \<and> mgr_rep m [] \<and>
    mgr_page_size m = ps \<and> mgr_max_size m = mx"
proof -
  let ?n = "new_file_segment_manager ps mx"
  let ?m = "(put_segment ?n 0 (fresh_segment now 0 ps mx))\<lparr>mgr_current := 0\<rparr>"
  have n: "mgr_segments ?n = []" "mgr_page_size ?n = ps" "mgr_max_size ?n = mx"
    by (simp_all add: new_file_segment_manager_def)
  have "mgr_open now ?n dir create = (None, ?m)"
    using create_fresh [OF assms(1), of 0 now] assms(2) n by (auto simp: mgr_open_def)
  moreover have "mgr_rep ?m []"
    using assms(1) seg_log_rep_fresh [OF assms(1)] n
    by (simp add: mgr_rep_def mgr_bounds_def put_segment_def seg_of_mgr_def) (simp add: fresh_segment_def)
  ultimately show ?thesis using n by (auto simp: put_segment_def)
qed

text \<open>
  Opening a directory that holds the files of the segments \<open>segs\<close>, each under its own id, gives
  those segments reopened.
\<close>

definition opened_from :: "directory \<Rightarrow> (u32 \<Rightarrow> file_segment option) \<Rightarrow> segment_manager \<Rightarrow> segment_manager \<Rightarrow> bool" where
  "opened_from fs segs m m' \<longleftrightarrow>
     mgr_page_size m' = mgr_page_size m \<and> mgr_max_size m' = mgr_max_size m \<and>
     distinct (map fst (mgr_segments m')) \<and>
     map_of (mgr_segments m') = override_on (map_of (mgr_segments m))
       (\<lambda>sid. map_option (reopen_segment (mgr_max_size m)) (segs sid)) (fst ` set fs)"

lemma opened_from_Cons:
  assumes "segs sid = Some s" and "sid \<notin> fst ` set fs"
    and "opened_from fs segs
      (m\<lparr>mgr_segments := AList.update sid (reopen_segment (mgr_max_size m) s) (mgr_segments m)\<rparr>) m'"
  shows "opened_from ((sid, f) # fs) segs m m'"
  using assms by (auto simp: opened_from_def AList.update_conv' override_on_def fun_eq_iff)

lemma open_files_reopen:
  assumes "mgr_bounds m" and "distinct (map fst fs)"
    and "\<And>sid f. (sid, f) \<in> set fs \<Longrightarrow> \<exists>s log. segs sid = Some s \<and> f = seg_file s \<and> seg_id s = sid \<and>
      page_size s = mgr_page_size m \<and> seg_log_rep s log"
    and "distinct (map fst (mgr_segments m))"
  shows "\<exists>m' mx'. open_files now m mx fs = (None, m', mx') \<and> opened_from fs segs m m' \<and>
    mx' \<in> insert mx (fst ` set fs) \<and> mx \<le> mx' \<and> (\<forall>sid \<in> fst ` set fs. sid \<le> mx')"
  using assms
proof (induction fs arbitrary: m mx)
  case Nil
  then show ?case by (simp add: opened_from_def)
next
  case (Cons p fs)
  obtain sid f where p: "p = (sid, f)" by (cases p)
  obtain s log where s: "segs sid = Some s" "f = seg_file s" "seg_id s = sid"
    "page_size s = mgr_page_size m" "seg_log_rep s log"
    using Cons.prems(3) [of sid f] p by auto
  let ?s = "reopen_segment (mgr_max_size m) s"
  let ?m = "m\<lparr>mgr_segments := AList.update sid ?s (mgr_segments m)\<rparr>"
  let ?mx = "if sid > mx then sid else mx"
  obtain hdr rs where "seg_rep s hdr rs" using s(5) by (auto simp: seg_log_rep_def)
  then have new: "new_file_segment now sid (Some f) (mgr_page_size m) (mgr_max_size m) False = Inr ?s"
    using reopen_rep(1) [of s hdr rs "mgr_max_size m" now] Cons.prems(1) s by (auto simp: mgr_bounds_def)
  obtain m' mx' where "open_files now ?m ?mx fs = (None, m', mx')" "opened_from fs segs ?m m'"
    "mx' \<in> insert ?mx (fst ` set fs)" "?mx \<le> mx'" "\<forall>i \<in> fst ` set fs. i \<le> mx'"
    using Cons.IH [of ?m ?mx] Cons.prems p by (auto simp: mgr_bounds_def AList.distinct_update)
  moreover have "opened_from (p # fs) segs m m'"
    using opened_from_Cons [of segs sid s fs m m' f] s(1) calculation(2) Cons.prems(2) p by simp
  ultimately show ?case
    using new p by (auto split: if_splits)
qed

lemma seg_log_rep_reopen:
  assumes "seg_log_rep s log" and "unat mx + 2 * unat (page_size s) \<le> 2 ^ 32"
  shows "seg_log_rep (reopen_segment mx s) log"
proof -
  obtain hdr rs where rs: "seg_rep s hdr rs" "log = seg_log s rs" using assms(1) by (auto simp: seg_log_rep_def)
  moreover have "seg_log (reopen_segment mx s) rs = seg_log s rs" by (simp add: seg_log_def rec_loc_def)
  ultimately show ?thesis using reopen_rep(2) [OF rs(1) assms(2)] unfolding seg_log_rep_def by metis
qed

lemma mgr_reopen_rep:
  assumes rep: "mgr_rep m log" and b: "mgr_bounds (new_file_segment_manager (mgr_page_size m) mx)"
    and fs: "distinct (map fst fs)" "set fs = set (fst (mgr_close m))"
  shows "\<exists>m'. mgr_open now (new_file_segment_manager (mgr_page_size m) mx) (Some fs) create = (None, m') \<and>
    mgr_rep m' log \<and> mgr_page_size m' = mgr_page_size m \<and> mgr_max_size m' = mx"
proof -
  let ?n = "new_file_segment_manager (mgr_page_size m) mx" and ?segs = "map_of (mgr_segments m)"
  have n: "mgr_segments ?n = []" "mgr_page_size ?n = mgr_page_size m" "mgr_max_size ?n = mx"
    by (simp_all add: new_file_segment_manager_def)
  have d: "distinct (map fst (mgr_segments m))" using rep by (simp add: mgr_rep_def)
  have mem: "(sid, f) \<in> set fs \<longleftrightarrow> (\<exists>s. ?segs sid = Some s \<and> f = seg_file s)" for sid f
    using fs(2) d by (force simp: mgr_close_def)
  have segs: "seg_of_mgr m sid s log" if "?segs sid = Some s" for sid s
    using rep that by (simp add: mgr_rep_def)
  have files: "\<exists>s log. ?segs sid = Some s \<and> f = seg_file s \<and> seg_id s = sid \<and>
      page_size s = mgr_page_size ?n \<and> seg_log_rep s log" if "(sid, f) \<in> set fs" for sid f
    using that segs mem n(2) by (auto simp: seg_of_mgr_def)
  obtain m' mx' where m': "open_files now ?n 0 fs = (None, m', mx')" "opened_from fs ?segs ?n m'"
    "mx' = 0 \<or> mx' \<in> fst ` set fs" "\<forall>sid \<in> fst ` set fs. sid \<le> mx'"
    using open_files_reopen [OF b fs(1) files, of now 0] n by auto
  then have par: "mgr_page_size m' = mgr_page_size m" "mgr_max_size m' = mx"
    "distinct (map fst (mgr_segments m'))" using n by (simp_all add: opened_from_def)
  have dom: "fst ` set fs = dom ?segs" using mem by force
  then have map': "map_of (mgr_segments m') = (\<lambda>sid. map_option (reopen_segment mx) (?segs sid))"
    using m'(2) n by (auto simp: opened_from_def override_on_def fun_eq_iff)
  have ne: "dom ?segs \<noteq> {}" using rep by (auto simp: mgr_rep_def)
  then have "mgr_segments m' \<noteq> []" using map' by (auto simp: fun_eq_iff)
  then have op: "mgr_open now ?n (Some fs) create = (None, m'\<lparr>mgr_current := mx'\<rparr>)"
    using m'(1) by (simp add: mgr_open_def)
  have cur2: "\<forall>sid \<in> dom ?segs. sid \<le> mx'" using m'(4) unfolding dom .
  obtain i where i: "i \<in> dom ?segs" using ne by blast
  then have "i \<le> mx'" using cur2 by blast
  then have "mx' = 0 \<Longrightarrow> mx' = i" by (simp add: word_le_0_iff)
  then have cur: "mx' \<in> dom ?segs" "\<forall>sid \<in> dom ?segs. sid \<le> mx'"
    using m'(3) i cur2 unfolding dom by blast+
  have "seg_of_mgr (m'\<lparr>mgr_current := mx'\<rparr>) sid (reopen_segment mx s) log" if "?segs sid = Some s" for sid s
    using segs [OF that] cur(2) that b par n seg_log_rep_reopen [of s "log_of sid log" mx]
    by (auto simp: seg_of_mgr_def mgr_bounds_def)
  then have "mgr_rep (m'\<lparr>mgr_current := mx'\<rparr>) log"
    using rep par cur(1) b n map' by (auto simp: mgr_rep_def mgr_bounds_def)
  with op par show ?thesis by auto
qed

end
