(* ===== verification/Event_Store.thy ===== *)
theory Event_Store
  imports Segment_Manager
begin

text \<open>
  The event store over segments: \<open>src/store/eventstore.go\<close>. It serializes events, appends them to
  the current segment, rotates to a new one when the current one is full, and reads events back from
  their locations. The store is interpreted as a record log, so the contract proved for one segment
  holds across rotation, and closing and reopening the store keeps the log.
\<close>

section \<open>State and operations\<close>

record event_store =
  es_page_size :: u32
  es_manager :: "segment_manager option"
  es_is_open :: bool

definition new_event_store :: event_store where
  "new_event_store = \<lparr>es_page_size = 0, es_manager = None, es_is_open = False\<rparr>"

definition page_size_valid :: "u32 \<Rightarrow> bool" where
  "page_size_valid p \<longleftrightarrow> p = 4096 \<or> p = 8192 \<or> p = 16384"

definition es_open ::
  "u64 \<Rightarrow> event_store \<Rightarrow> directory option \<Rightarrow> bool \<Rightarrow> u32 \<Rightarrow> u64 \<Rightarrow> go_error option \<times> event_store" where
  "es_open now st dir createIfMissing pageSize maxSegmentSize =
     (if es_is_open st then (Some (Err ''store already open''), st)
      else if \<not> page_size_valid pageSize then (Some (Err ''invalid page size''), st)
      else let mx = (if maxSegmentSize = 0 then 1073741824 else maxSegmentSize)
        in case mgr_open now (new_file_segment_manager pageSize mx) dir createIfMissing of
             (Some e, m) \<Rightarrow> (Some (wrap_error ''open segment manager'' e),
                st\<lparr>es_page_size := pageSize, es_manager := Some m\<rparr>)
           | (None, m) \<Rightarrow> (None, st\<lparr>es_page_size := pageSize, es_manager := Some m, es_is_open := True\<rparr>))"

text \<open>\<open>Close\<close> also gives the directory it leaves behind.\<close>

definition es_close :: "event_store \<Rightarrow> (directory \<times> event_store) result" where
  "es_close st =
     (if \<not> es_is_open st then Inl (Err ''store not open'')
      else case es_manager st of
        None \<Rightarrow> Inr ([], st\<lparr>es_is_open := False\<rparr>)
      | Some m \<Rightarrow> Inr (fst (mgr_close m), st\<lparr>es_manager := Some (snd (mgr_close m)), es_is_open := False\<rparr>))"

text \<open>The manager as it is when the record is appended: rotated when the current segment is full.\<close>

definition segment_for_write :: "u64 \<Rightarrow> segment_manager \<Rightarrow> segment_manager result" where
  "segment_for_write now m =
     (case wrap_err ''current segment'' (mgr_current_segment m) of
        Inl e \<Rightarrow> Inl e
      | Inr s \<Rightarrow> if seg_is_full s then wrap_err ''rotate segment'' (rotate_segment now m) else Inr m)"

text \<open>
  \<open>WriteRecord\<close>. A failing append leaves a rotation in place, so the state is returned with the
  result.
\<close>

definition write_record :: "u64 \<Rightarrow> event_store \<Rightarrow> rec option \<Rightarrow> location result \<times> event_store" where
  "write_record now st ro =
     (if \<not> es_is_open st then (Inl (Err ''store not open''), st)
      else case (ro, es_manager st) of
        (None, _) \<Rightarrow> (Inl (Err ''record is nil''), st)
      | (Some r, None) \<Rightarrow> (Inl Panic, st)
      | (Some r, Some m) \<Rightarrow>
          (case segment_for_write now m of
             Inl e \<Rightarrow> (Inl e, st)
           | Inr m' \<Rightarrow>
               (case mgr_current_segment m' of
                  Inl e \<Rightarrow> (Inl e, st)
                | Inr s \<Rightarrow>
                    (case wrap_err ''segment append'' (seg_append s r) of
                       Inl e \<Rightarrow> (Inl e, st\<lparr>es_manager := Some m'\<rparr>)
                     | Inr (loc, s') \<Rightarrow>
                         (Inr loc, st\<lparr>es_manager := Some (put_segment m' (mgr_current m') s')\<rparr>)))))"

definition write_event :: "u64 \<Rightarrow> event_store \<Rightarrow> event option \<Rightarrow> location result \<times> event_store" where
  "write_event now st eo =
     (if \<not> es_is_open st then (Inl (Err ''store not open''), st)
      else if eo = None then (Inl (Err ''event is nil''), st)
      else case wrap_err ''serialize'' (serialize (es_page_size st) eo) of
        Inl e \<Rightarrow> (Inl e, st)
      | Inr r \<Rightarrow> write_record now st (Some r))"

text \<open>The first two steps of \<open>ReadEvent\<close>: find the segment and read the record.\<close>

definition read_record :: "event_store \<Rightarrow> location \<Rightarrow> rec result" where
  "read_record st loc =
     (if \<not> es_is_open st then Inl (Err ''store not open'')
      else case es_manager st of
        None \<Rightarrow> Inl Panic
      | Some m \<Rightarrow>
          (case wrap_err ''get segment'' (get_segment m (segment_id loc)) of
             Inl e \<Rightarrow> Inl e
           | Inr s \<Rightarrow> wrap_err ''segment read'' (seg_read s loc)))"

definition read_event :: "event_store \<Rightarrow> location \<Rightarrow> event result" where
  "read_event st loc =
     (case read_record st loc of
        Inl e \<Rightarrow> Inl e
      | Inr r \<Rightarrow> wrap_err ''deserialize'' (deserialize (Some r)))"

definition update_event_flags :: "event_store \<Rightarrow> location \<Rightarrow> byte \<Rightarrow> event_store result" where
  "update_event_flags st loc flags =
     (if \<not> es_is_open st then Inl (Err ''store not open'')
      else case es_manager st of
        None \<Rightarrow> Inl Panic
      | Some m \<Rightarrow>
          (case wrap_err ''get segment'' (get_segment m (segment_id loc)) of
             Inl e \<Rightarrow> Inl e
           | Inr s \<Rightarrow>
               (case wrap_err ''update record flags'' (update_record_flags s (loc_offset loc) flags) of
                  Inl e \<Rightarrow> Inl e
                | Inr s' \<Rightarrow> Inr (st\<lparr>es_manager := Some (put_segment m (segment_id loc) s')\<rparr>))))"

section \<open>The store as a record log\<close>

definition store_rep :: "event_store \<Rightarrow> (location \<times> rec) list \<Rightarrow> bool" where
  "store_rep st log \<longleftrightarrow> es_is_open st \<and>
     (case es_manager st of None \<Rightarrow> False | Some m \<Rightarrow> mgr_rep m log \<and> mgr_page_size m = es_page_size st)"

text \<open>
  A record fits: the current segment has room for it or, when that segment is full, a new segment
  has room and the ids are not exhausted.
\<close>

definition mgr_accepts :: "segment_manager \<Rightarrow> rec \<Rightarrow> bool" where
  "mgr_accepts m r \<longleftrightarrow>
     (case map_of (mgr_segments m) (mgr_current m) of
        None \<Rightarrow> False
      | Some s \<Rightarrow>
          if seg_is_full s
          then mgr_current m \<noteq> - 1 \<and> record_ok (unat (mgr_page_size m)) r \<and>
            unat (mgr_page_size m) + est_size r \<le> unat (mgr_max_size m)
          else seg_accepts s r)"

definition store_accepts :: "event_store \<Rightarrow> rec \<Rightarrow> bool" where
  "store_accepts st r \<longleftrightarrow> (case es_manager st of None \<Rightarrow> False | Some m \<Rightarrow> mgr_accepts m r)"

text \<open>The write as the log's append: an error gives no new state to build on.\<close>

definition store_append :: "u64 \<Rightarrow> event_store \<Rightarrow> rec \<Rightarrow> (location \<times> event_store) result" where
  "store_append now st r =
     (case write_record now st (Some r) of (Inl e, _) \<Rightarrow> Inl e | (Inr l, st') \<Rightarrow> Inr (l, st'))"

lemma fresh_segment_frame [simp]:
  "seg_id (fresh_segment now sid ps mx) = sid" "page_size (fresh_segment now sid ps mx) = ps"
  "max_size (fresh_segment now sid ps mx) = mx" "is_read_only (fresh_segment now sid ps mx) = False"
  "current_size (fresh_segment now sid ps mx) = ucast ps"
  by (simp_all add: fresh_segment_def)

lemma segment_for_write_rep:
  assumes rep: "mgr_rep m log" and acc: "mgr_accepts m r"
  shows "\<exists>m' s. segment_for_write now m = Inr m' \<and> mgr_rep m' log \<and>
    map_of (mgr_segments m') (mgr_current m') = Some s \<and> seg_accepts s r \<and> mgr_page_size m' = mgr_page_size m"
proof -
  obtain s where s: "map_of (mgr_segments m) (mgr_current m) = Some s" using rep by (auto simp: mgr_rep_def)
  show ?thesis
  proof (cases "seg_is_full s")
    case True
    then have "mgr_current m \<noteq> - 1" using acc s by (simp add: mgr_accepts_def)
    from rotate_segment_rep [OF rep this, of now] True s acc show ?thesis
      by (auto simp: segment_for_write_def mgr_current_segment_def mgr_accepts_def seg_accepts_def)
  next
    case False
    then show ?thesis using rep acc s
      by (auto simp: segment_for_write_def mgr_current_segment_def mgr_accepts_def)
  qed
qed

lemma seg_append_location:
  "seg_append s r = Inr (l, s') \<Longrightarrow> segment_id l = seg_id s"
  by (auto simp: seg_append_def split: if_splits sum.splits)

lemma seg_append_frame:
  assumes "seg_log_rep s log" and "seg_accepts s r"
  shows "\<exists>l s'. seg_append s r = Inr (l, s') \<and> seg_log_rep s' (log @ [(l, r)]) \<and> segment_id l = seg_id s \<and>
    seg_id s' = seg_id s \<and> page_size s' = page_size s \<and> max_size s' = max_size s \<and> is_read_only s' = is_read_only s"
proof -
  obtain hdr rs where rs: "seg_rep s hdr rs" using assms(1) by (auto simp: seg_log_rep_def)
  obtain l s' where l: "seg_append s r = Inr (l, s')" "seg_log_rep s' (log @ [(l, r)])"
    using seg_store.append_rep [OF assms] by blast
  moreover have "s' = extend_segment s r" using seg_append_ok(1) [OF rs assms(2)] l(1) by simp
  ultimately show ?thesis by (auto simp: seg_append_location)
qed

lemma store_append_rep:
  assumes rep: "store_rep st log" and acc: "store_accepts st r"
  shows "\<exists>l st'. write_record now st (Some r) = (Inr l, st') \<and> store_rep st' (log @ [(l, r)]) \<and>
    es_page_size st' = es_page_size st"
proof -
  obtain m where m: "es_manager st = Some m" "mgr_rep m log" "mgr_page_size m = es_page_size st" "es_is_open st"
    using rep by (auto simp: store_rep_def split: option.splits)
  have "mgr_accepts m r" using acc m(1) by (simp add: store_accepts_def)
  then obtain m' s where m': "segment_for_write now m = Inr m'" "mgr_rep m' log"
    "map_of (mgr_segments m') (mgr_current m') = Some s" "seg_accepts s r" "mgr_page_size m' = mgr_page_size m"
    using segment_for_write_rep [OF m(2), of r now] by blast
  let ?c = "mgr_current m'"
  have s: "seg_of_mgr m' ?c s log" using m'(2,3) by (simp add: mgr_rep_def)
  then have "seg_log_rep s (log_of ?c log)" by (simp add: seg_of_mgr_def)
  from seg_append_frame [OF this m'(4)] obtain l s' where a: "seg_append s r = Inr (l, s')"
    "seg_log_rep s' (log_of ?c log @ [(l, r)])" "segment_id l = seg_id s"
    "seg_id s' = seg_id s" "page_size s' = page_size s" "max_size s' = max_size s" "is_read_only s' = is_read_only s"
    by blast
  have "mgr_rep (put_segment m' ?c s') (log @ [(l, r)])"
    using s a m'(3) by (intro put_segment_rep [OF m'(2)]) (auto simp: seg_of_mgr_def)
  then show ?thesis
    using m m' a(1) by (auto simp: write_record_def mgr_current_segment_def store_rep_def put_segment_def)
qed

lemma update_flags_frame:
  assumes "seg_log_rep s log" and "(l, r) \<in> set log" and "\<not> is_continued fl"
  shows "\<exists>s'. update_record_flags s (loc_offset l) fl = Inr s' \<and>
    seg_log_rep s' (map (\<lambda>(l', r'). (l', if l' = l then add_rec_flags fl r' else r')) log) \<and>
    seg_id s' = seg_id s \<and> page_size s' = page_size s \<and> max_size s' = max_size s \<and> is_read_only s' = is_read_only s"
proof -
  obtain s' where s': "seg_set_flags s l fl = Inr s'"
    "seg_log_rep s' (map (\<lambda>(l', r'). (l', if l' = l then add_rec_flags fl r' else r')) log)"
    using seg_store.set_flags_rep [OF assms] by blast
  then show ?thesis
    by (auto simp: seg_set_flags_def update_record_flags_def split: if_splits sum.splits)
qed

lemma store_rep_segment:
  assumes "store_rep st log" and "(l, r) \<in> set log"
  shows "\<exists>m s. es_manager st = Some m \<and> es_is_open st \<and> mgr_rep m log \<and> mgr_page_size m = es_page_size st \<and>
    map_of (mgr_segments m) (segment_id l) = Some s \<and> seg_of_mgr m (segment_id l) s log \<and>
    (l, r) \<in> set (log_of (segment_id l) log)"
proof -
  obtain m where m: "es_manager st = Some m" "mgr_rep m log" "mgr_page_size m = es_page_size st" "es_is_open st"
    using assms(1) by (auto simp: store_rep_def split: option.splits)
  moreover obtain s where "map_of (mgr_segments m) (segment_id l) = Some s"
    using m(2) assms(2) by (fastforce simp: mgr_rep_def)
  moreover have "seg_of_mgr m (segment_id l) s log" using calculation by (simp add: mgr_rep_def)
  ultimately show ?thesis using assms(2) by simp
qed

interpretation event_log: flag_log store_rep store_accepts "store_append now" read_record update_event_flags
  add_rec_flags "\<lambda>fl. \<not> is_continued fl" for now
proof
  fix st log r assume "store_rep st log" "store_accepts st r"
  then obtain l st' where "write_record now st (Some r) = (Inr l, st')" "store_rep st' (log @ [(l, r)])"
    using store_append_rep by blast
  then show "\<exists>l s'. store_append now st r = Inr (l, s') \<and> store_rep s' (log @ [(l, r)])"
    by (simp add: store_append_def)
next
  fix st log l r assume "store_rep st log" "(l, r) \<in> set log"
  from store_rep_segment [OF this] obtain m s where "es_manager st = Some m" "es_is_open st"
    "map_of (mgr_segments m) (segment_id l) = Some s" "seg_of_mgr m (segment_id l) s log"
    "(l, r) \<in> set (log_of (segment_id l) log)" by blast
  then show "read_record st l = Inr r"
    using seg_store.read_rep [of s "log_of (segment_id l) log" l r]
    by (simp add: read_record_def get_segment_def seg_of_mgr_def)
next
  fix st log assume "store_rep st log"
  then obtain m where m: "mgr_rep m log" by (auto simp: store_rep_def split: option.splits)
  have "distinct (map fst (log_of i log))" for i
  proof (cases "map_of (mgr_segments m) i")
    case None
    then have "log_of i log = []" using m by (force simp: mgr_rep_def log_of_def filter_empty_conv)
    then show ?thesis by simp
  next
    case (Some s)
    then show ?thesis using m seg_store.distinct_rep [of s "log_of i log"] by (simp add: mgr_rep_def seg_of_mgr_def)
  qed
  then show "distinct (map fst log)" by (rule distinct_log_of)
next
  fix st log l r fl assume "store_rep st log" "(l, r) \<in> set log" and fl: "\<not> is_continued fl"
  from store_rep_segment [OF this(1,2)] obtain m s where m: "es_manager st = Some m" "es_is_open st" "mgr_rep m log"
    "mgr_page_size m = es_page_size st"
    "map_of (mgr_segments m) (segment_id l) = Some s" "seg_of_mgr m (segment_id l) s log"
    "(l, r) \<in> set (log_of (segment_id l) log)" by blast
  let ?g = "\<lambda>(l', r'). (l', if l' = l then add_rec_flags fl r' else r')"
  obtain s' where s': "update_record_flags s (loc_offset l) fl = Inr s'"
    "seg_log_rep s' (map ?g (log_of (segment_id l) log))"
    "seg_id s' = seg_id s" "page_size s' = page_size s" "max_size s' = max_size s" "is_read_only s' = is_read_only s"
    using update_flags_frame [of s "log_of (segment_id l) log" l r fl] m(6,7) fl by (auto simp: seg_of_mgr_def)
  have eq: "log_of i (map ?g log) = map ?g (log_of i log)" for i by (rule log_of_map)
  have "map ?g (log_of i log) = log_of i log" if "i \<noteq> segment_id l" for i
    using that by (intro map_idI) (auto simp: log_of_def)
  then have "mgr_rep (put_segment m (segment_id l) s') (map ?g log)"
    using s' m by (intro put_segment_rep [OF m(3)]) (auto simp: seg_of_mgr_def eq)
  then show "\<exists>st'. update_event_flags st l fl = Inr st' \<and> store_rep st' (map ?g log)"
    using m s'(1) by (simp add: update_event_flags_def get_segment_def store_rep_def put_segment_def)
qed

section \<open>Events\<close>

lemma gslice_update: "k < a \<Longrightarrow> gslice (xs[k := b]) a c = gslice xs a c"
  by (simp add: gslice_def)

lemma deserialize_add_flags:
  assumes "\<not> is_continued fl" and "deserialize (Some r) = Inr e"
  shows "deserialize (Some (add_rec_flags fl r)) = Inr (e\<lparr>ev_flags := ev_flags e OR fl\<rparr>)"
proof -
  have "is_continued (rec_flags r OR fl) = is_continued (rec_flags r)" using assms(1) by (simp add: is_flag_or)
  moreover have "gslice ((rec_data r)[4 := b]) (o0 + a) c = gslice (rec_data r) (o0 + a) c" if "5 \<le> o0" for o0 a b c
    using that by (intro gslice_update) simp
  note this [of 5, simplified] this [of 7, simplified] gslice_update [of 4 5] gslice_update [of 4 7]
  ultimately show ?thesis
    using assms(2) by (cases "is_continued (rec_flags r)")
      (auto simp: deserialize_def add_rec_flags_def Let_def gslice_update split: if_splits sum.splits)
qed

lemma read_event_log: "store_rep st log \<Longrightarrow> (l, r) \<in> set log \<Longrightarrow>
    read_event st l = wrap_err ''deserialize'' (deserialize (Some r))"
  by (simp add: read_event_def event_log.read_rep)

lemma store_page_size: "store_rep st log \<Longrightarrow> page_ok (unat (es_page_size st))"
  by (auto simp: store_rep_def mgr_rep_def mgr_bounds_def split: option.splits)

text \<open>
  C1: Writing an event to an open store that has room for it returns a new location; reading that
  location returns the event with its tags in normal form, and every location written before still
  reads as it did. This covers the rotation to a new segment and records of many pages.
\<close>

theorem write_read_event:
  assumes "store_rep st log" and "event_wf e" and "serialize_tags (tags e) = Inr td" and "tags_ok (tags e)"
    and "event_size e td + 2 < 2 ^ 32" and "store_accepts st (record_of (es_page_size st) e td)"
  shows "\<exists>loc st'. write_event now st (Some e) = (Inr loc, st') \<and>
    read_event st' loc = Inr (e\<lparr>tags := map norm_tag (tags e),
      ev_flags := (if unat (es_page_size st) \<le> event_size e td then flag_continued else 0)\<rparr>) \<and>
    loc \<notin> fst ` set log \<and> (\<forall>l \<in> fst ` set log. read_event st' l = read_event st l)"
proof -
  let ?r = "record_of (es_page_size st) e td"
  have "6 < unat (es_page_size st)" using store_page_size [OF assms(1)] by (simp add: page_ok_def)
  then have ser: "serialize (es_page_size st) (Some e) = Inr ?r" by (rule serialize_eq [OF assms(2,3,5)])
  obtain loc st' where w: "write_record now st (Some ?r) = (Inr loc, st')" "store_rep st' (log @ [(loc, ?r)])"
    using store_append_rep [OF assms(1,6)] by blast
  have "deserialize (Some ?r) = Inr (e\<lparr>tags := map norm_tag (tags e), ev_flags := rec_flags ?r\<rparr>)"
    using deserialize_record_of [OF assms(2,5)] deserialize_serialize_tags [OF assms(3,4)] by simp
  moreover have "rec_flags ?r = (if unat (es_page_size st) \<le> event_size e td then flag_continued else 0)"
    by (simp add: record_of_def Let_def multi_page_def)
  ultimately have "read_event st' loc = Inr (e\<lparr>tags := map norm_tag (tags e),
      ev_flags := (if unat (es_page_size st) \<le> event_size e td then flag_continued else 0)\<rparr>)"
    using read_event_log [OF w(2), of loc ?r] by simp
  moreover have "read_event st' l = read_event st l" if "l \<in> fst ` set log" for l
    using that read_event_log [OF w(2)] read_event_log [OF assms(1)] by fastforce
  moreover have "loc \<notin> fst ` set log" using event_log.distinct_rep [OF w(2)] by simp
  moreover have "write_event now st (Some e) = (Inr loc, st')"
    using assms(1) ser w(1) by (simp add: write_event_def store_rep_def)
  ultimately show ?thesis by blast
qed

definition demo_store :: event_store where
  "demo_store = \<lparr>es_page_size = 4096,
     es_manager = Some \<lparr>mgr_page_size = 4096, mgr_max_size = 1048576, mgr_segments = [(0, demo_segment)], mgr_current = 0\<rparr>,
     es_is_open = True\<rparr>"

lemma demo_store_rep: "store_rep demo_store []" "store_accepts demo_store demo_record"
proof -
  have "seg_log_rep demo_segment []" using demo_segment_rep by (force simp: seg_log_rep_def seg_log_def)
  then show "store_rep demo_store []"
    by (simp add: demo_store_def store_rep_def mgr_rep_def mgr_bounds_def page_ok_def seg_of_mgr_def)
      (simp add: demo_segment_def)
  have "\<not> seg_is_full demo_segment" by (simp add: seg_is_full_def demo_segment_def fresh_segment_def)
  then show "store_accepts demo_store demo_record"
    using demo_accepts by (simp add: demo_store_def store_accepts_def mgr_accepts_def)
qed

theorem write_read_event_witness:
  "\<exists>loc st'. write_event 9 demo_store (Some demo_event) = (Inr loc, st') \<and>
    read_event st' loc = Inr (demo_event\<lparr>tags := tags demo_event, ev_flags := 0\<rparr>)"
proof -
  have "es_page_size demo_store = 4096" by (simp add: demo_store_def)
  then show ?thesis
    using write_read_event [OF demo_store_rep(1) demo_event_facts(1,3,2), of 9] demo_store_rep(2)
    by (simp add: demo_record_def demo_event_facts)
qed

text \<open>
  C18: Updating the flags of a stored event (deletion and replacement marks, not the continuation
  bit) adds exactly those flags to the event read at that location and leaves every other one alone.
\<close>

theorem update_event_flags_read:
  assumes "store_rep st log" and "(l, r) \<in> set log" and "\<not> is_continued fl" and "read_event st l = Inr e"
  shows "\<exists>st'. update_event_flags st l fl = Inr st' \<and>
    read_event st' l = Inr (e\<lparr>ev_flags := ev_flags e OR fl\<rparr>) \<and>
    (\<forall>l' \<in> fst ` set log. l' \<noteq> l \<longrightarrow> read_event st' l' = read_event st l')"
proof -
  obtain st' where u: "update_event_flags st l fl = Inr st'"
    using event_log.set_flags_rep [OF assms(1-3)] by blast
  note rd = event_log.set_flags_read [OF assms(1-3) u]
  have "deserialize (Some r) = Inr e" using assms(4) read_event_log [OF assms(1,2)] by simp
  then have "read_event st' l = Inr (e\<lparr>ev_flags := ev_flags e OR fl\<rparr>)"
    using rd(1) deserialize_add_flags [OF assms(3)] by (simp add: read_event_def)
  moreover have "read_event st' l' = read_event st l'" if "(l', r') \<in> set log" "l' \<noteq> l" for l' r'
    using rd(2) [OF that] event_log.read_rep [OF assms(1) that(1)] by (simp add: read_event_def)
  ultimately show ?thesis using u by fastforce
qed

lemma demo_written:
  "\<exists>loc st. store_rep st [(loc, demo_record)] \<and> es_page_size st = 4096"
  using store_append_rep [OF demo_store_rep, of 0] by (auto simp: demo_store_def)

lemma demo_written_event:
  "deserialize (Some demo_record) = Inr (demo_event\<lparr>tags := tags demo_event, ev_flags := 0\<rparr>)"
  unfolding demo_record_def
  using deserialize_record_of [OF demo_event_facts(1), of "[0, 2, 101, 0, 5, 1, 0, 2, 97, 98, 116, 0, 1, 0]" 4096]
    deserialize_serialize_tags [OF demo_event_facts(3,2)]
  by (simp add: demo_event_facts record_of_def multi_page_def)

theorem update_event_flags_read_witness:
  "\<exists>st loc st'. update_event_flags st loc flag_deleted = Inr st' \<and>
    read_event st' loc = Inr (demo_event\<lparr>tags := tags demo_event, ev_flags := flag_deleted\<rparr>)"
proof -
  obtain loc st where st: "store_rep st [(loc, demo_record)]" using demo_written by blast
  have fl: "\<not> is_continued flag_deleted" by (simp add: is_continued_def flag_deleted_def flag_continued_def)
  have "read_event st loc = Inr (demo_event\<lparr>tags := tags demo_event, ev_flags := 0\<rparr>)"
    using read_event_log [OF st, of loc demo_record] demo_written_event by simp
  from update_event_flags_read [OF st _ fl this, of demo_record] show ?thesis by auto
qed

text \<open>
  C10: Closing a store and opening the directory it left, with the same page size and any maximal
  segment size that offsets can express, gives a store in which every location reads as before.
\<close>

theorem close_open_read:
  assumes "store_rep st log" and "es_close st = Inr (dir, st0)"
    and "distinct (map fst fs)" and "set fs = set dir"
    and "page_size_valid (es_page_size st)" and "unat mx + 2 * unat (es_page_size st) \<le> 2 ^ 32"
  shows "\<exists>st'. es_open now st0 (Some fs) create (es_page_size st) mx = (None, st') \<and> store_rep st' log \<and>
    (\<forall>l \<in> fst ` set log. read_event st' l = read_event st l)"
proof -
  obtain m where m: "es_manager st = Some m" "mgr_rep m log" "mgr_page_size m = es_page_size st" "es_is_open st"
    using assms(1) by (auto simp: store_rep_def split: option.splits)
  let ?mx = "if mx = 0 then 1073741824 else mx"
  have "mgr_bounds (new_file_segment_manager (mgr_page_size m) ?mx)"
    using assms(5,6) m(3) by (auto simp: mgr_bounds_def new_file_segment_manager_def page_size_valid_def page_ok_def)
  moreover have "set fs = set (fst (mgr_close m))" using assms(2,4) m(1,4) by (simp add: es_close_def)
  ultimately obtain m' where m': "mgr_open now (new_file_segment_manager (mgr_page_size m) ?mx) (Some fs) create = (None, m')"
    "mgr_rep m' log" "mgr_page_size m' = mgr_page_size m"
    using mgr_reopen_rep [OF m(2) _ assms(3)] by blast
  let ?st = "st0\<lparr>es_page_size := es_page_size st, es_manager := Some m', es_is_open := True\<rparr>"
  have "\<not> es_is_open st0" using assms(2) m(1,4) by (auto simp: es_close_def)
  then have "es_open now st0 (Some fs) create (es_page_size st) mx = (None, ?st)"
    using m'(1) m(3) assms(5) by (simp add: es_open_def Let_def)
  moreover have rep: "store_rep ?st log" using m' m(3) by (simp add: store_rep_def)
  moreover have "read_event ?st l = read_event st l" if "l \<in> fst ` set log" for l
    using that read_event_log [OF rep] read_event_log [OF assms(1)] by fastforce
  ultimately show ?thesis by blast
qed

theorem close_open_read_witness:
  "\<exists>st dir st0 loc st'. es_close st = Inr (dir, st0) \<and> es_open 9 st0 (Some dir) True 4096 0 = (None, st') \<and>
    read_event st' loc = Inr (demo_event\<lparr>tags := tags demo_event, ev_flags := 0\<rparr>)"
proof -
  obtain loc st where st: "store_rep st [(loc, demo_record)]" "es_page_size st = 4096" using demo_written by blast
  then obtain m where m: "es_manager st = Some m" "mgr_rep m [(loc, demo_record)]" "es_is_open st"
    by (auto simp: store_rep_def split: option.splits)
  obtain dir st0 where c: "es_close st = Inr (dir, st0)" "dir = fst (mgr_close m)"
    using m by (simp add: es_close_def)
  have "map fst dir = map fst (mgr_segments m)" by (simp add: c(2) mgr_close_def case_prod_unfold)
  then have d: "distinct (map fst dir)" using m(2) by (simp add: mgr_rep_def)
  have "read_event st loc = Inr (demo_event\<lparr>tags := tags demo_event, ev_flags := 0\<rparr>)"
    using read_event_log [OF st(1), of loc demo_record] demo_written_event by simp
  then obtain st' where "es_open 9 st0 (Some dir) True 4096 0 = (None, st')"
    "read_event st' loc = Inr (demo_event\<lparr>tags := tags demo_event, ev_flags := 0\<rparr>)"
    using close_open_read [OF st(1) c(1) d refl, of 0 9 True] st(2) by (auto simp: page_size_valid_def)
  with c(1) show ?thesis by blast
qed

text \<open>
  C36: Rotation looks only at whether the current segment has reached its maximal size. A record
  that does not fit into the space left, while the segment is not yet full, is refused with
  \<open>segment full\<close> and the store does not change, so every retry fails the same way; an empty segment
  would have taken the record.
\<close>

theorem write_record_stuck:
  assumes "store_rep st log" and "es_manager st = Some m"
    and "map_of (mgr_segments m) (mgr_current m) = Some s" and "\<not> seg_is_full s"
    and "unat (current_size s) + est_size r > unat (max_size s)"
    and "record_ok (unat (es_page_size st)) r" and "unat (es_page_size st) + est_size r \<le> unat (mgr_max_size m)"
  shows "write_record now st (Some r) = (Inl (Wrap ''segment append'' (Err ''segment full'')), st) \<and>
    seg_accepts (fresh_segment now sid (es_page_size st) (mgr_max_size m)) r"
proof -
  have m: "mgr_rep m log" "es_is_open st" using assms(1,2) by (simp_all add: store_rep_def)
  then have "seg_of_mgr m (mgr_current m) s log" using assms(3) by (simp add: mgr_rep_def)
  then obtain hdr rs where "seg_rep s hdr rs" "\<not> is_read_only s"
    by (auto simp: seg_of_mgr_def seg_log_rep_def)
  then have "seg_append s r = Inl (Err ''segment full'')"
    using seg_full_iff [of s hdr rs r] assms(5) by (simp add: seg_append_def)
  moreover have "st\<lparr>es_manager := Some m\<rparr> = st" using assms(2) by simp
  ultimately show ?thesis
    using assms(2-4,6,7) m(2)
    by (simp add: write_record_def segment_for_write_def mgr_current_segment_def seg_accepts_def)
qed

theorem write_record_stuck_witness:
  "\<exists>st. write_record 9 st (Some demo_record) = (Inl (Wrap ''segment append'' (Err ''segment full'')), st) \<and>
    es_is_open st"
proof -
  let ?fr = "fresh_segment 0 0 4096 8292"
  let ?s = "extend_segment ?fr demo_record"
  let ?m = "\<lparr>mgr_page_size = 4096, mgr_max_size = 8292, mgr_segments = [(0, ?s)], mgr_current = 0\<rparr>"
  let ?st = "\<lparr>es_page_size = 4096, es_manager = Some ?m, es_is_open = True\<rparr>"
  have "seg_rep ?fr (fresh_header 0 0 4096) []" by (rule fresh_segment_rep) (simp_all add: page_ok_def)
  moreover have "seg_accepts ?fr demo_record" by (simp add: seg_accepts_def demo_record_ok)
  ultimately obtain hdr where rep: "seg_rep ?s hdr [demo_record]" using seg_append_ok(2) by fastforce
  let ?log = "seg_log ?s [demo_record]"
  have ids: "\<forall>p \<in> set ?log. segment_id (fst p) = 0" by (simp add: seg_log_def rec_loc_def)
  then have "log_of 0 ?log = ?log" by (simp add: log_of_def)
  with rep have "seg_log_rep ?s (log_of 0 ?log)" by (auto simp: seg_log_rep_def)
  with ids have st: "store_rep ?st ?log"
    by (simp add: store_rep_def mgr_rep_def mgr_bounds_def page_ok_def seg_of_mgr_def)
  have cs: "current_size ?s = 8192"
    by (simp add: extend_segment_def persist_header_def Let_def fresh_segment_def
        rec_span_def demo_record_def record_of_def multi_page_def demo_event_facts)
  then have "\<not> seg_is_full ?s" by (simp add: seg_is_full_def)
  then have "write_record 9 ?st (Some demo_record) = (Inl (Wrap ''segment append'' (Err ''segment full'')), ?st)"
    using write_record_stuck [OF st, of ?m ?s demo_record 9] cs by (simp add: demo_record_ok)
  then show ?thesis by (intro exI [of _ ?st]) simp
qed

end
