(* ===== verification/Checksum.thy ===== *)
theory Checksum
  imports Prelude
begin

text \<open>
  The checksum that index pages and log entries carry: \<open>crc64.Checksum\<close> of Go's standard library
  with the ECMA polynomial in reversed bit order, computed bit by bit. One step of the register is
  injective, so a message in which one byte was altered never has the checksum of the original
  (\<open>crc64_detects_byte\<close>).
\<close>

definition crc64_poly :: u64 where
  "crc64_poly = 0xC96C5795D7870F42"

definition crc64_bit :: "u64 \<Rightarrow> u64" where
  "crc64_bit s = (if odd s then drop_bit 1 s XOR crc64_poly else drop_bit 1 s)"

definition crc64_byte :: "byte \<Rightarrow> u64 \<Rightarrow> u64" where
  "crc64_byte v s = (crc64_bit ^^ 8) (s XOR ucast v)"

definition crc64 :: "bytes \<Rightarrow> u64" where
  "crc64 data = NOT (fold crc64_byte data (NOT 0))"

lemma xor_cancel: "a XOR c = b XOR c \<longleftrightarrow> a = b" for a b c :: u64
proof
  assume "a XOR c = b XOR c"
  then have "(a XOR c) XOR c = (b XOR c) XOR c" by simp
  then show "a = b" by (simp only: xor.assoc xor_self_eq xor.right_neutral)
qed simp

lemma crc64_bit_inj: "inj crc64_bit"
proof (rule injI)
  fix s t assume eq: "crc64_bit s = crc64_bit t"
  have top: "bit (crc64_bit u) 63 \<longleftrightarrow> odd u" for u
  proof -
    have "\<not> bit (drop_bit 1 u) 63" using bit_imp_le_length [of u 64] by (auto simp: bit_drop_bit_eq)
    moreover have "bit crc64_poly 63" by (simp add: crc64_poly_def)
    ultimately show ?thesis by (simp add: crc64_bit_def bit_xor_iff)
  qed
  have odd: "odd s \<longleftrightarrow> odd t" using top [of s] top [of t] eq by simp
  then have dr: "drop_bit 1 s = drop_bit 1 t" using eq by (auto simp: crc64_bit_def xor_cancel split: if_splits)
  show "s = t"
  proof (rule bit_eqI)
    fix n
    show "bit s n \<longleftrightarrow> bit t n"
      using odd arg_cong [OF dr, of "\<lambda>w. bit w (n - 1)"] by (cases n) (auto simp: bit_drop_bit_eq bit_0)
  qed
qed

lemma crc64_byte_inj: "inj (crc64_byte v)"
proof (rule injI)
  fix s t assume "crc64_byte v s = crc64_byte v t"
  then have "s XOR ucast v = t XOR ucast v"
    using inj_fn [OF crc64_bit_inj, of 8] by (auto simp: crc64_byte_def dest: injD)
  then show "s = t" by (simp add: xor_cancel)
qed

lemma crc64_byte_neq: "v \<noteq> w \<Longrightarrow> crc64_byte v s \<noteq> crc64_byte w s"
proof
  assume "v \<noteq> w" "crc64_byte v s = crc64_byte w s"
  then have "s XOR (ucast v) = s XOR (ucast w :: u64)"
    using inj_fn [OF crc64_bit_inj, of 8] by (auto simp: crc64_byte_def dest: injD)
  then have "(ucast v :: u64) = ucast w" by (simp only: xor.commute [of s] xor_cancel)
  from arg_cong [OF this, of unat] have "unat v = unat w" by simp
  with \<open>v \<noteq> w\<close> show False by (simp add: word_unat_eq_iff)
qed

lemma fold_inj: "(\<And>x. inj (f x)) \<Longrightarrow> inj (fold f xs)"
  by (induction xs) (auto intro: inj_compose simp: comp_def [symmetric])

lemma crc64_detects_byte:
  assumes "k < length d" and "b \<noteq> d ! k"
  shows "crc64 (d[k := b]) \<noteq> crc64 d"
proof
  let ?s = "fold crc64_byte (take k d) (NOT 0)"
  assume "crc64 (d[k := b]) = crc64 d"
  then have "NOT (fold crc64_byte (d[k := b]) (NOT 0)) = NOT (fold crc64_byte d (NOT 0))" by (simp add: crc64_def)
  then have "fold crc64_byte (d[k := b]) (NOT 0) = fold crc64_byte d (NOT 0)"
    by (metis bit.double_compl)
  moreover have "fold crc64_byte d (NOT 0) = fold crc64_byte (drop (Suc k) d) (crc64_byte (d ! k) ?s)"
    using assms(1) by (subst id_take_nth_drop [OF assms(1)]) (simp del: take_append)
  moreover have "fold crc64_byte (d[k := b]) (NOT 0) = fold crc64_byte (drop (Suc k) d) (crc64_byte b ?s)"
    using assms(1) by (simp add: upd_conv_take_nth_drop)
  ultimately have "fold crc64_byte (drop (Suc k) d) (crc64_byte b ?s) = fold crc64_byte (drop (Suc k) d) (crc64_byte (d ! k) ?s)"
    by (metis (no_types))
  then have "crc64_byte b ?s = crc64_byte (d ! k) ?s"
    by (rule injD [OF fold_inj [of crc64_byte, OF crc64_byte_inj]])
  then show False using crc64_byte_neq assms(2) by blast
qed

end
