(* ===== verification/Wal_Codec.thy ===== *)
theory Wal_Codec
  imports Checksum
begin

text \<open>
  The byte format of the write-ahead log (\<open>src/wal/file_wal.go\<close>, types in \<open>src/wal/wal.go\<close>): file
  header, entries with their CRC-64, and the three loops that scan one log file from its start. An
  entry that the file ends within stops a scan, an entry with a wrong checksum fails it.

  Results: every scan reads back the entries that were written and stops at a torn tail
  (\<open>scan_last_written\<close>), the iteration bound of the loops is never reached (\<open>scan_never_exceeds\<close>),
  and an altered byte outside the length field is always detected (\<open>wal_corruption_detected\<close>).
\<close>

section \<open>Entries and headers\<close>

record wal_entry =
  en_type :: byte
  en_lsn :: u64
  en_timestamp :: u64
  en_data :: bytes
  en_checksum :: u64

record checkpoint =
  cp_lsn :: u64
  cp_timestamp :: u64
  cp_last_segment :: u32
  cp_compaction :: bytes

definition op_insert :: byte where "op_insert = 1"
definition op_update_flags :: byte where "op_update_flags = 2"
definition op_index_update :: byte where "op_index_update = 3"
definition op_checkpoint :: byte where "op_checkpoint = 4"

definition wal_header_size :: nat where "wal_header_size = 24"
definition wal_magic :: u32 where "wal_magic = 0x574C414F"
definition wal_version :: u64 where "wal_version = 1"
definition wal_max_record_size :: nat where "wal_max_record_size = 104857600"

definition make_checkpoint :: "u64 \<Rightarrow> u64 \<Rightarrow> checkpoint" where
  "make_checkpoint lsn ts = \<lparr>cp_lsn = lsn, cp_timestamp = ts, cp_last_segment = 0, cp_compaction = []\<rparr>"

definition entry_body :: "wal_entry \<Rightarrow> bytes" where
  "entry_body e = en_type e # put_u64 (en_lsn e) @ put_u64 (en_timestamp e) @
     put_u32 (word_of_nat (length (en_data e))) @ en_data e"

definition serialize_entry :: "wal_entry \<Rightarrow> bytes" where
  "serialize_entry e = entry_body e @ put_u64 (crc64 (entry_body e))"

definition wal_header :: "u64 \<Rightarrow> bytes" where
  "wal_header checkpointLSN = put_u32 wal_magic @ put_u64 wal_version @ put_u64 checkpointLSN @ replicate 4 0"

definition read_wal_header_checkpoint :: "bytes \<Rightarrow> u64 result" where
  "read_wal_header_checkpoint file =
     (if length file < wal_header_size then Inl (Wrap ''read header'' EOF)
      else if get_u32 file \<noteq> wal_magic then Inl (Err ''invalid WAL magic'')
      else Inr (get_u64 (drop 12 file)))"

section \<open>Scanning a file\<close>

text \<open>
  One round of a scan: two calls of \<open>io.ReadFull\<close>, which report the end of the file when it holds
  fewer bytes than asked for, and the comparison of checksums.
\<close>

datatype scan_item = Scan_End | Scan_Bad | Scan_Entry wal_entry bytes

definition scan_entry :: "bytes \<Rightarrow> scan_item" where
  "scan_entry bs =
     (if length bs < 21 then Scan_End
      else let dataLen = unat (get_u32 (drop 17 bs)) in
        if length (drop 21 bs) < dataLen + 8 then Scan_End
        else let stored = get_u64 (drop (21 + dataLen) bs) in
          if crc64 (take (21 + dataLen) bs) \<noteq> stored then Scan_Bad
          else Scan_Entry \<lparr>en_type = hd bs, en_lsn = get_u64 (drop 1 bs), en_timestamp = get_u64 (drop 9 bs),
                 en_data = take dataLen (drop 21 bs), en_checksum = stored\<rparr> (drop (21 + dataLen + 8) bs))"

definition max_iterations :: "bytes \<Rightarrow> nat" where
  "max_iterations file = length file div 29 + 100"

fun scan_last_loop ::
  "nat \<Rightarrow> bytes \<Rightarrow> u64 \<Rightarrow> checkpoint option \<Rightarrow> go_error option \<times> u64 \<times> checkpoint option" where
  "scan_last_loop 0 bs lastLSN cp = (Some (Err ''exceeded max iterations''), lastLSN, cp)"
| "scan_last_loop (Suc n) bs lastLSN cp =
     (case scan_entry bs of
        Scan_End \<Rightarrow> (None, lastLSN, cp)
      | Scan_Bad \<Rightarrow> (Some (Err ''checksum mismatch''), lastLSN, cp)
      | Scan_Entry e rest \<Rightarrow>
          scan_last_loop n rest (en_lsn e)
            (if en_type e = op_checkpoint then Some (make_checkpoint (en_lsn e) (en_timestamp e)) else cp))"

definition scan_segment_for_last_entry :: "bytes \<Rightarrow> go_error option \<times> u64 \<times> checkpoint option" where
  "scan_segment_for_last_entry file =
     (case read_wal_header_checkpoint file of
        Inl e \<Rightarrow> (Some e, 0, None)
      | Inr checkpointLSN \<Rightarrow>
          case scan_last_loop (max_iterations file) (drop wal_header_size file) 0 None of
            (Some e, r) \<Rightarrow> (Some e, r)
          | (None, lastLSN, cp) \<Rightarrow>
              (None, lastLSN,
               if cp = None \<and> checkpointLSN > 0 then Some (make_checkpoint checkpointLSN 0) else cp))"

fun scan_first_last_loop :: "nat \<Rightarrow> bytes \<Rightarrow> u64 \<Rightarrow> u64 \<Rightarrow> go_error option \<times> u64 \<times> u64" where
  "scan_first_last_loop 0 bs firstLSN lastLSN = (Some (Err ''exceeded max iterations''), firstLSN, lastLSN)"
| "scan_first_last_loop (Suc n) bs firstLSN lastLSN =
     (case scan_entry bs of
        Scan_End \<Rightarrow> (None, firstLSN, lastLSN)
      | Scan_Bad \<Rightarrow> (Some (Err ''checksum mismatch''), firstLSN, lastLSN)
      | Scan_Entry e rest \<Rightarrow>
          scan_first_last_loop n rest (if firstLSN = 0 then en_lsn e else firstLSN) (en_lsn e))"

definition scan_segment_for_first_last_lsn :: "bytes \<Rightarrow> go_error option \<times> u64 \<times> u64" where
  "scan_segment_for_first_last_lsn file =
     (case read_wal_header_checkpoint file of
        Inl e \<Rightarrow> (Some e, 0, 0)
      | Inr _ \<Rightarrow> scan_first_last_loop (max_iterations file) (drop wal_header_size file) 0 0)"

fun scan_checkpoints_loop :: "nat \<Rightarrow> bytes \<Rightarrow> checkpoint list \<Rightarrow> checkpoint list result" where
  "scan_checkpoints_loop 0 bs cps = Inl (Err ''exceeded max iterations'')"
| "scan_checkpoints_loop (Suc n) bs cps =
     (case scan_entry bs of
        Scan_End \<Rightarrow> Inr cps
      | Scan_Bad \<Rightarrow> Inl (Err ''checksum mismatch'')
      | Scan_Entry e rest \<Rightarrow>
          scan_checkpoints_loop n rest
            (if en_type e = op_checkpoint then cps @ [make_checkpoint (en_lsn e) (en_timestamp e)] else cps))"

definition scan_segment_checkpoints :: "bytes \<Rightarrow> checkpoint list result" where
  "scan_segment_checkpoints file =
     (case read_wal_header_checkpoint file of
        Inl e \<Rightarrow> Inl e
      | Inr _ \<Rightarrow> scan_checkpoints_loop (max_iterations file) (drop wal_header_size file) [])"

section \<open>The entries of a byte string\<close>

lemma scan_entry_consumes: "scan_entry bs = Scan_Entry e rest \<Longrightarrow> length rest + 29 \<le> length bs"
  by (auto simp: scan_entry_def Let_def split: if_splits)

text \<open>What a scan sees: the entries up to the first that is torn or damaged, and whether it was damaged.\<close>

function log_entries :: "bytes \<Rightarrow> wal_entry list \<times> bool" where
  "log_entries bs =
     (case scan_entry bs of
        Scan_End \<Rightarrow> ([], False)
      | Scan_Bad \<Rightarrow> ([], True)
      | Scan_Entry e rest \<Rightarrow> (case log_entries rest of (es, bad) \<Rightarrow> (e # es, bad)))"
  by pat_completeness auto
termination
  by (relation "measure length") (auto dest: scan_entry_consumes)

declare log_entries.simps [simp del]

lemma log_entries_simps:
  "scan_entry bs = Scan_End \<Longrightarrow> log_entries bs = ([], False)"
  "scan_entry bs = Scan_Bad \<Longrightarrow> log_entries bs = ([], True)"
  "scan_entry bs = Scan_Entry e rest \<Longrightarrow> log_entries bs = (case log_entries rest of (es, bad) \<Rightarrow> (e # es, bad))"
  by (simp_all add: log_entries.simps [of bs])

definition is_checkpoint :: "wal_entry \<Rightarrow> bool" where
  "is_checkpoint e \<longleftrightarrow> en_type e = op_checkpoint"

definition entry_checkpoint :: "wal_entry \<Rightarrow> checkpoint" where
  "entry_checkpoint e = make_checkpoint (en_lsn e) (en_timestamp e)"

definition last_lsn :: "u64 \<Rightarrow> wal_entry list \<Rightarrow> u64" where
  "last_lsn d es = (if es = [] then d else en_lsn (last es))"

definition last_checkpoint :: "checkpoint option \<Rightarrow> wal_entry list \<Rightarrow> checkpoint option" where
  "last_checkpoint d es =
     (case filter is_checkpoint es of [] \<Rightarrow> d | cs \<Rightarrow> Some (entry_checkpoint (last cs)))"

definition scan_error :: "bool \<Rightarrow> go_error option" where
  "scan_error bad = (if bad then Some (Err ''checksum mismatch'') else None)"

lemma last_checkpoint_Cons:
  "last_checkpoint d (e # es) = last_checkpoint (if is_checkpoint e then Some (entry_checkpoint e) else d) es"
  by (auto simp: last_checkpoint_def split: list.splits)

lemma last_lsn_Cons: "last_lsn d (e # es) = last_lsn (en_lsn e) es"
  by (simp add: last_lsn_def)

lemma scan_fuel:
  assumes "scan_entry bs = Scan_Entry e rest" "length bs div 29 < Suc n"
  shows "length rest div 29 < n"
  using scan_entry_consumes [OF assms(1)] assms(2) div_le_mono [of "length rest + 29" "length bs" 29] by simp

lemma scan_last_loop_spec:
  "length bs div 29 < n \<Longrightarrow>
   scan_last_loop n bs l c = (case log_entries bs of (es, bad) \<Rightarrow> (scan_error bad, last_lsn l es, last_checkpoint c es))"
proof (induction n bs l c rule: scan_last_loop.induct)
  case (2 n bs l c)
  show ?case
  proof (cases "scan_entry bs")
    case (Scan_Entry e rest)
    then show ?thesis
      using 2(1) [OF Scan_Entry scan_fuel [OF Scan_Entry 2(2)]] log_entries_simps(3) [OF Scan_Entry]
      by (simp add: last_lsn_Cons last_checkpoint_Cons is_checkpoint_def entry_checkpoint_def split: prod.splits)
  qed (simp_all add: log_entries_simps scan_error_def last_lsn_def last_checkpoint_def)
qed simp

lemma scan_checkpoints_loop_spec:
  "length bs div 29 < n \<Longrightarrow>
   scan_checkpoints_loop n bs cps =
     (case log_entries bs of (es, bad) \<Rightarrow>
        if bad then Inl (Err ''checksum mismatch'') else Inr (cps @ map entry_checkpoint (filter is_checkpoint es)))"
proof (induction n bs cps rule: scan_checkpoints_loop.induct)
  case (2 n bs cps)
  show ?case
  proof (cases "scan_entry bs")
    case (Scan_Entry e rest)
    then show ?thesis
      using 2(1) [OF Scan_Entry scan_fuel [OF Scan_Entry 2(2)]] log_entries_simps(3) [OF Scan_Entry]
      by (simp add: is_checkpoint_def [of e] entry_checkpoint_def [of e] split: prod.splits)
  qed (simp_all add: log_entries_simps)
qed simp

lemma scan_first_last_loop_spec:
  "length bs div 29 < n \<Longrightarrow>
   scan_first_last_loop n bs f l =
     (case log_entries bs of (es, bad) \<Rightarrow>
        (scan_error bad, (if f = 0 then (case filter (\<lambda>x. x \<noteq> 0) (map en_lsn es) of [] \<Rightarrow> 0 | x # _ \<Rightarrow> x) else f),
         last_lsn l es))"
proof (induction n bs f l rule: scan_first_last_loop.induct)
  case (2 n bs f l)
  show ?case
  proof (cases "scan_entry bs")
    case (Scan_Entry e rest)
    then show ?thesis
      using 2(1) [OF Scan_Entry scan_fuel [OF Scan_Entry 2(2)]] log_entries_simps(3) [OF Scan_Entry]
      by (simp add: last_lsn_Cons split: prod.splits)
  qed (simp_all add: log_entries_simps scan_error_def last_lsn_def)
qed simp

lemma max_iterations_enough: "length (drop k file) div 29 < max_iterations file"
  using div_le_mono [of "length (drop k file)" "length file" 29] by (simp add: max_iterations_def)

section \<open>What was written is read\<close>

definition entry_ok :: "wal_entry \<Rightarrow> bool" where
  "entry_ok e \<longleftrightarrow> length (en_data e) < 2 ^ 32 \<and> en_checksum e = crc64 (entry_body e)"

text \<open>The entry with the checksum that goes to disk.\<close>

definition sealed :: "wal_entry \<Rightarrow> wal_entry" where
  "sealed e = e\<lparr>en_checksum := crc64 (entry_body e)\<rparr>"

lemma entry_body_sealed [simp]: "entry_body (sealed e) = entry_body e"
  by (simp add: entry_body_def sealed_def)

lemma serialize_sealed [simp]: "serialize_entry (sealed e) = serialize_entry e"
  by (simp add: serialize_entry_def)

lemma length_entry_body: "length (entry_body e) = 21 + length (en_data e)"
  by (simp add: entry_body_def)

lemma length_serialize_entry: "length (serialize_entry e) = 29 + length (en_data e)"
  by (simp add: serialize_entry_def length_entry_body)

lemma entry_body_fields:
  assumes "length (en_data e) < 2 ^ 32"
  shows "hd (entry_body e @ r) = en_type e" "get_u64 (drop 1 (entry_body e @ r)) = en_lsn e"
    "get_u64 (drop 9 (entry_body e @ r)) = en_timestamp e" "unat (get_u32 (drop 17 (entry_body e @ r))) = length (en_data e)"
    "drop 21 (entry_body e @ r) = en_data e @ r"
  using assms by (simp_all add: entry_body_def drop_Cons' unat_of_nat)

lemma scan_entry_serialize:
  assumes "entry_ok e"
  shows "scan_entry (serialize_entry e @ rest) = Scan_Entry e rest"
proof -
  let ?bs = "serialize_entry e @ rest" and ?c = "put_u64 (crc64 (entry_body e)) @ rest"
  have bs: "?bs = entry_body e @ ?c" by (simp add: serialize_entry_def)
  have len: "length (en_data e) < 2 ^ 32" using assms by (simp add: entry_ok_def)
  note f = entry_body_fields [OF len, of ?c, folded bs]
  have "drop (21 + length (en_data e)) ?bs = ?c" "take (21 + length (en_data e)) ?bs = entry_body e"
    "drop (21 + length (en_data e) + 8) ?bs = rest"
    unfolding bs by (simp_all add: length_entry_body)
  then show ?thesis using assms f by (simp add: scan_entry_def Let_def length_serialize_entry entry_ok_def)
qed

text \<open>A proper prefix of an entry is a torn write: a scan stops there as at the end of the file.\<close>

lemma scan_entry_torn:
  assumes "length (en_data e) < 2 ^ 32" "k < length (serialize_entry e)"
  shows "scan_entry (take k (serialize_entry e)) = Scan_End"
proof (cases "k < 21")
  case False
  let ?t = "take k (serialize_entry e)"
  have k: "21 \<le> k" "k < 29 + length (en_data e)" using False assms(2) by (simp_all add: length_serialize_entry)
  have "take 4 (drop 17 ?t) = take 4 (drop 17 (serialize_entry e))" using k by (simp add: drop_take min_def)
  then have "get_u32 (drop 17 ?t) = get_u32 (drop 17 (serialize_entry e))" by (simp add: get_u32_def)
  then have "unat (get_u32 (drop 17 ?t)) = length (en_data e)" 
    using entry_body_fields(4) [OF assms(1), of "put_u64 (crc64 (entry_body e))"] by (simp add: serialize_entry_def)
  moreover have "k - 21 < length (en_data e) + 8" using k by arith
  ultimately show ?thesis using k by (simp add: scan_entry_def Let_def length_serialize_entry)
qed (simp add: scan_entry_def)

lemma log_entries_written:
  assumes "\<forall>e \<in> set es. entry_ok e"
  shows "log_entries (concat (map serialize_entry es) @ tail) = (case log_entries tail of (es', bad) \<Rightarrow> (es @ es', bad))"
  using assms
proof (induction es)
  case (Cons e es)
  then have "scan_entry (serialize_entry e @ concat (map serialize_entry es) @ tail) =
      Scan_Entry e (concat (map serialize_entry es) @ tail)" by (intro scan_entry_serialize) simp
  from log_entries_simps(3) [OF this] show ?case using Cons by (simp split: prod.splits)
qed simp

lemma log_entries_torn:
  "length (en_data e) < 2 ^ 32 \<Longrightarrow> k < length (serialize_entry e) \<Longrightarrow> log_entries (take k (serialize_entry e)) = ([], False)"
  by (rule log_entries_simps(1) [OF scan_entry_torn])

lemma log_entries_Nil [simp]: "log_entries [] = ([], False)"
  by (simp add: log_entries_simps scan_entry_def)

lemma wal_header_facts [simp]:
  "length (wal_header cp) = 24" "read_wal_header_checkpoint (wal_header cp @ bs) = Inr cp"
  "drop wal_header_size (wal_header cp @ bs) = bs"
  by (simp_all add: wal_header_def read_wal_header_checkpoint_def wal_header_size_def)

lemma scan_last_segment:
  fixes cp :: u64
  assumes "\<forall>e \<in> set es. entry_ok e" "entry_ok t" "k < length (serialize_entry t)"
  defines "file \<equiv> wal_header cp @ concat (map serialize_entry es) @ take k (serialize_entry t)"
  shows "scan_segment_for_last_entry file =
    (None, last_lsn 0 es, last_checkpoint (if cp > 0 then Some (make_checkpoint cp 0) else None) es)"
proof -
  have "length (en_data t) < 2 ^ 32" using assms(2) by (simp add: entry_ok_def)
  then have "log_entries (concat (map serialize_entry es) @ take k (serialize_entry t)) = (es, False)"
    using log_entries_written [OF assms(1)] log_entries_torn assms(3) by simp
  then have "log_entries (drop wal_header_size file) = (es, False)" unfolding file_def wal_header_facts .
  then have "scan_last_loop (max_iterations file) (drop wal_header_size file) 0 None =
      (None, last_lsn 0 es, last_checkpoint None es)"
    by (simp add: scan_last_loop_spec [OF max_iterations_enough] scan_error_def)
  moreover have "read_wal_header_checkpoint file = Inr cp" by (simp add: file_def)
  ultimately show ?thesis
    by (auto simp: scan_segment_for_last_entry_def last_checkpoint_def split: list.splits)
qed

lemma scan_altered:
  assumes "entry_ok e" "k < length (serialize_entry e)" "k < 17 \<or> 21 \<le> k" "b \<noteq> serialize_entry e ! k"
  shows "scan_entry ((serialize_entry e)[k := b] @ rest) = Scan_Bad"
proof -
  let ?n = "21 + length (en_data e)" and ?s = "serialize_entry e" and ?s' = "(serialize_entry e)[k := b]"
  have len: "length (en_data e) < 2 ^ 32" using assms(1) by (simp add: entry_ok_def)
  have "take 4 (drop 17 ?s') = take 4 (drop 17 ?s)"
    using assms(3) by (auto simp: drop_update_swap list_update_beyond)
  then have "get_u32 (drop 17 (?s' @ rest)) = get_u32 (drop 17 ?s)"
    by (simp add: get_u32_def length_serialize_entry)
  then have dl: "unat (get_u32 (drop 17 (?s' @ rest))) = length (en_data e)"
    using entry_body_fields(4) [OF len, of "put_u64 (crc64 (entry_body e))"] by (simp add: serialize_entry_def)
  have "crc64 (take ?n ?s') \<noteq> get_u64 (drop ?n ?s')"
  proof (cases "k < ?n")
    case True
    then have "crc64 (take ?n ?s') \<noteq> crc64 (entry_body e)"
      using crc64_detects_byte [of k "entry_body e" b] assms(4)
      by (simp add: serialize_entry_def length_entry_body list_update_append nth_append)
    then show ?thesis using True by (simp add: serialize_entry_def length_entry_body)
  next
    case False
    let ?c = "put_u64 (crc64 (entry_body e))"
    have k: "k - ?n < 8" "b \<noteq> ?c ! (k - ?n)" using False assms(2,4)
      by (auto simp: serialize_entry_def length_entry_body nth_append)
    have s': "?s' = entry_body e @ ?c[k - ?n := b]"
      using False by (simp add: serialize_entry_def length_entry_body list_update_append)
    have "get_u64 (?c[k - ?n := b]) \<noteq> crc64 (entry_body e)"
      using put_get_u64 [of "?c[k - ?n := b]"] k by (metis length_list_update length_put(3) nth_list_update_eq)
    then show ?thesis unfolding s' by (simp add: length_entry_body)
  qed
  then have "crc64 (take ?n (?s' @ rest)) \<noteq> get_u64 (drop ?n (?s' @ rest))"
    by (simp add: get_u64_def length_serialize_entry)
  then show ?thesis using dl by (simp add: scan_entry_def Let_def length_serialize_entry)
qed

section \<open>Properties\<close>

text \<open>
  Recovery of the last position. A log file made of a header, any entries that were written to it
  and a torn tail (a proper prefix of one more entry, possibly empty) is scanned without an error:
  the last LSN is that of the last complete entry, and the checkpoint is the last checkpoint entry,
  or the one of the header when there is none.
\<close>

theorem scan_last_written:
  assumes "\<forall>e \<in> set es. entry_ok e" "entry_ok t" "k < length (serialize_entry t)"
  shows "scan_segment_for_last_entry (wal_header cp @ concat (map serialize_entry es) @ take k (serialize_entry t)) =
    (None, last_lsn 0 es, last_checkpoint (if cp > 0 then Some (make_checkpoint cp 0) else None) es)"
  by (rule scan_last_segment [OF assms])

text \<open>
  C29: The three scan loops never report that they exceeded their bound on the number of rounds, on any
  file contents whatsoever: every round consumes at least 29 bytes.
\<close>

theorem scan_never_exceeds:
  shows "fst (scan_segment_for_last_entry file) \<noteq> Some (Err ''exceeded max iterations'') \<and>
    fst (scan_segment_for_first_last_lsn file) \<noteq> Some (Err ''exceeded max iterations'') \<and>
    scan_segment_checkpoints file \<noteq> Inl (Err ''exceeded max iterations'')"
proof -
  have h: "read_wal_header_checkpoint file \<noteq> Inl (Err ''exceeded max iterations'')"
    by (simp add: read_wal_header_checkpoint_def)
  obtain es bad where le: "log_entries (drop wal_header_size file) = (es, bad)" by fastforce
  have m: "length (drop wal_header_size file) div 29 < max_iterations file" by (rule max_iterations_enough)
  show ?thesis
    using h by (auto simp: scan_segment_for_last_entry_def scan_segment_for_first_last_lsn_def
      scan_segment_checkpoints_def scan_last_loop_spec [OF m] scan_first_last_loop_spec [OF m]
      scan_checkpoints_loop_spec [OF m] le scan_error_def split: sum.splits)
qed

text \<open>
  C30: Damage is detected. Changing one byte of an entry on disk, anywhere but in its four length
  bytes, makes every scan fail at that entry with a checksum mismatch.
\<close>

theorem wal_corruption_detected:
  assumes "entry_ok e" "k < length (serialize_entry e)" "k < 17 \<or> 21 \<le> k" "b \<noteq> serialize_entry e ! k"
  shows "scan_entry ((serialize_entry e)[k := b] @ rest) = Scan_Bad"
  by (rule scan_altered [OF assms])

text \<open>Two entries for the instances below.\<close>

definition demo_entry :: "byte \<Rightarrow> u64 \<Rightarrow> wal_entry" where
  "demo_entry ty lsn = sealed \<lparr>en_type = ty, en_lsn = lsn, en_timestamp = 1700000000, en_data = [1, 2, 3],
     en_checksum = 0\<rparr>"

lemma demo_entry_ok [simp]: "entry_ok (demo_entry ty lsn)"
  by (simp add: entry_ok_def demo_entry_def) (simp add: sealed_def)

lemma demo_entry_simps [simp]: "en_lsn (demo_entry ty lsn) = lsn" "en_type (demo_entry ty lsn) = ty"
  "en_timestamp (demo_entry ty lsn) = 1700000000" "length (serialize_entry (demo_entry ty lsn)) = 32"
  by (simp_all add: demo_entry_def length_serialize_entry) (simp_all add: sealed_def)

theorem scan_last_written_witness:
  "scan_segment_for_last_entry (wal_header 0 @ concat (map serialize_entry [demo_entry 1 7, demo_entry 4 8, demo_entry 1 9])
      @ take 30 (serialize_entry (demo_entry 1 10))) = (None, 9, Some (make_checkpoint 8 1700000000))"
  using scan_last_written [of "[demo_entry 1 7, demo_entry 4 8, demo_entry 1 9]" "demo_entry 1 10" 30 0]
  by (simp add: last_lsn_def last_checkpoint_def is_checkpoint_def entry_checkpoint_def op_checkpoint_def)

theorem wal_corruption_detected_witness:
  "scan_entry ((serialize_entry (demo_entry 1 7))[22 := serialize_entry (demo_entry 1 7) ! 22 + 1]) = Scan_Bad"
  using wal_corruption_detected [of "demo_entry 1 7" 22 "serialize_entry (demo_entry 1 7) ! 22 + 1" "[]"] by simp

end
