(* ===== verification/Simulation.thy ===== *)
theory Simulation
  imports Main
begin

text \<open>
  Refinement of an abstract machine by a concrete one, step by step. \<open>room n s\<close> says that the concrete
  state \<open>s\<close> is well formed and has room for \<open>n\<close> more operations (counters that must not wrap); \<open>grows\<close>
  is a preorder that every step respects.
\<close>

locale bounded_simulation =
  fixes step :: "'op \<Rightarrow> 's \<Rightarrow> 's" and spec :: "'op \<Rightarrow> 'a \<Rightarrow> 'a" and abs :: "'s \<Rightarrow> 'a"
    and room :: "nat \<Rightarrow> 's \<Rightarrow> bool" and grows :: "'s \<Rightarrow> 's \<Rightarrow> bool"
  assumes room_step: "room (Suc n) s \<Longrightarrow> room n (step op s)"
    and step_refines: "room (Suc n) s \<Longrightarrow> abs (step op s) = spec op (abs s)"
    and grows_refl: "grows s s"
    and grows_trans: "grows s t \<Longrightarrow> grows t u \<Longrightarrow> grows s u"
    and grows_step: "room (Suc n) s \<Longrightarrow> grows s (step op s)"
begin

lemma run_refines:
  "room (n + length ops) s \<Longrightarrow>
   room n (fold step ops s) \<and> abs (fold step ops s) = fold spec ops (abs s) \<and> grows s (fold step ops s)"
proof (induction ops arbitrary: s)
  case Nil
  then show ?case by (simp add: grows_refl)
next
  case (Cons op ops)
  then have r: "room (Suc (n + length ops)) s" by simp
  from Cons.IH [OF room_step [OF r]] show ?case
    using step_refines [OF r] grows_step [OF r] grows_trans by fastforce
qed

end

end
