(* ===== verification/Wal_Log.thy ===== *)
theory Wal_Log
  imports Wal_Writer Simulation
begin

text \<open>
  The writer of \<open>src/wal/file_wal.go\<close> over whole runs, and after a crash: any sequence of operations
  refines the abstract log of \<open>Wal_Writer\<close>, LSNs increase, a reopened log continues where the files
  end. Two crash states break this: a fresh segment without entries restarts the LSNs, and a torn
  tail hides the entries that are appended behind it.
\<close>

section \<open>Runs\<close>

definition wal_room :: "nat \<Rightarrow> disk \<times> wal_writer \<Rightarrow> bool" where
  "wal_room n s \<longleftrightarrow> wal_inv (fst s) (snd s) \<and> unat (wr_segment_id (snd s)) + n < 2 ^ 32"

definition wal_grows :: "disk \<times> wal_writer \<Rightarrow> disk \<times> wal_writer \<Rightarrow> bool" where
  "wal_grows s t \<longleftrightarrow> prefix (disk_log (fst s)) (disk_log (fst t)) \<and> wr_cfg (snd t) = wr_cfg (snd s) \<and>
     (sync_mode (wr_cfg (snd s)) = ''always'' \<longrightarrow> wr_buffer (snd s) = [] \<longrightarrow> wr_buffer (snd t) = [])"

lemma wal_room_step:
  assumes "wal_room (Suc n) s"
  shows "wal_room n (wal_step op s) \<and> wal_abs (wal_step op s) = log_step op (wal_abs s) \<and> wal_grows s (wal_step op s)"
proof -
  obtain disk w disk' w' where s: "s = (disk, w)" "wal_step op (disk, w) = (disk', w')" by fastforce
  have r: "wal_inv disk w" "unat (wr_segment_id w) + Suc n < 2 ^ 32" using assms s(1) by (simp_all add: wal_room_def)
  have nw: "wr_segment_id w \<noteq> - 1"
  proof
    assume "wr_segment_id w = - 1"
    then have "unat (wr_segment_id w) = 2 ^ 32 - 1" by (simp add: unsigned_minus_1_eq_mask mask_eq_exp_minus_1)
    then show False using r(2) by simp
  qed
  note ok = wal_step_ok [OF r(1) nw s(2)]
  then have "unat (wr_segment_id w') \<le> Suc (unat (wr_segment_id w))"
    using word_less_plus_1(2) [OF nw] by (auto simp: step_ok_def)
  then show ?thesis using ok r(2) s by (auto simp: step_ok_def wal_room_def wal_grows_def)
qed

interpretation wal: bounded_simulation wal_step log_step wal_abs wal_room wal_grows
proof unfold_locales
  show "wal_grows s t \<Longrightarrow> wal_grows t u \<Longrightarrow> wal_grows s u" for s t u
    by (auto simp: wal_grows_def intro: prefix_order.trans)
qed (use wal_room_step in \<open>auto simp: wal_grows_def\<close>)

section \<open>LSNs\<close>

definition lsns_ok :: "wal_entry list \<times> u64 \<Rightarrow> bool" where
  "lsns_ok s \<longleftrightarrow> sorted_wrt (<) (map en_lsn (fst s)) \<and> (\<forall>e \<in> set (fst s). en_lsn e \<le> snd s)"

fun op_size :: "wal_op \<Rightarrow> nat" where
  "op_size (Op_Write _ _) = 1"
| "op_size (Op_Batch _ es) = length es"
| "op_size (Op_Checkpoint _) = 1"
| "op_size _ = 0"

lemma lsn_next:
  fixes l :: u64
  assumes "unat l + Suc n < 2 ^ 64"
  shows "l < l + 1" "unat (l + 1) = Suc (unat l)"
proof -
  have "l \<noteq> - 1"
  proof
    assume "l = - 1"
    then have "unat l = 2 ^ 64 - 1" by (simp add: unsigned_minus_1_eq_mask mask_eq_exp_minus_1)
    then show False using assms by simp
  qed
  from word_less_plus_1 [OF this] show "l < l + 1" "unat (l + 1) = Suc (unat l)" by auto
qed

lemma lsns_ok_snoc:
  assumes "lsns_ok (log, l)" "l < en_lsn e"
  shows "lsns_ok (log @ [e], en_lsn e)"
  using assms by (auto simp: lsns_ok_def sorted_wrt_append)

lemma lsns_ok_mono: "lsns_ok (log, l) \<Longrightarrow> l \<le> l' \<Longrightarrow> lsns_ok (log, l')"
  by (auto simp: lsns_ok_def)

lemma assign_lsns_order:
  assumes "assign_lsns now l es = (r, l')" "unat l + length es < 2 ^ 64"
  shows "l \<le> l' \<and> unat l' \<le> unat l + length es \<and> (\<forall>es'. r = Inr es' \<longrightarrow> lsns_ok (log, l) \<longrightarrow> lsns_ok (log @ map sealed es', l'))"
  using assms
proof (induction now l es arbitrary: r l' log rule: assign_lsns.induct)
  case (2 now l e es)
  have room: "unat l + Suc (length es) < 2 ^ 64" using 2(3) by simp
  note n = lsn_next [OF room]
  show ?case
  proof (cases "29 + length (en_data (stamp now (l + 1) e)) > wal_max_record_size")
    case True
    then have "r = Inl (Err ''WAL entry too large'')" "l' = l + 1" using 2(2) by (simp_all add: Let_def)
    then show ?thesis using n by (simp add: less_imp_le)
  next
    case False
    obtain r1 l1 where a: "assign_lsns now (l + 1) es = (r1, l1)" by fastforce
    then have r: "r = (case r1 of Inl x \<Rightarrow> Inl x | Inr es1 \<Rightarrow> Inr (stamp now (l + 1) e # es1))" and l': "l' = l1"
      using 2(2) False by (auto simp: Let_def split: sum.splits)
    have room1: "unat (l + 1) + length es < 2 ^ 64" using room n(2) by simp
    have IH: "l + 1 \<le> l' \<and> unat l' \<le> unat (l + 1) + length es \<and>
        (\<forall>es'. r1 = Inr es' \<longrightarrow> lsns_ok (lg, l + 1) \<longrightarrow> lsns_ok (lg @ map sealed es', l'))" for lg
      using 2(1) [OF refl refl _ a room1] False l' by simp
    have "lsns_ok (log @ map sealed es', l')" if res: "r = Inr es'" and ok: "lsns_ok (log, l)" for es'
    proof -
      obtain es1 where r1: "r1 = Inr es1" "es' = stamp now (l + 1) e # es1" using res r by (cases r1) simp_all
      have "lsns_ok (log @ [sealed (stamp now (l + 1) e)], l + 1)"
        using lsns_ok_snoc [OF ok, of "sealed (stamp now (l + 1) e)"] n(1) by (simp add: sealed_def stamp_def)
      then show ?thesis using IH [of "log @ [sealed (stamp now (l + 1) e)]"] r1 by simp
    qed
    then show ?thesis using IH n by (auto intro: less_imp_le order.trans)
  qed
qed auto

lemma log_step_lsns:
  assumes "lsns_ok (log, l)" "unat l + op_size op < 2 ^ 64"
  shows "lsns_ok (log_step op (log, l)) \<and> unat (snd (log_step op (log, l))) \<le> unat l + op_size op"
proof (cases op)
  case (Op_Write now e)
  have n: "l < l + 1" "unat (l + 1) = Suc (unat l)" using lsn_next [of l 0] assms(2) Op_Write by simp_all
  have "lsns_ok (log @ [sealed (stamp now (l + 1) e)], l + 1)"
    using lsns_ok_snoc [OF assms(1), of "sealed (stamp now (l + 1) e)"] n by (simp add: sealed_def stamp_def)
  then show ?thesis using Op_Write n lsns_ok_mono [OF assms(1)] by (simp add: Let_def less_imp_le)
next
  case (Op_Batch now es)
  obtain r l' where a: "assign_lsns now l es = (r, l')" by fastforce
  show ?thesis using assign_lsns_order [OF a, of log] assms Op_Batch a lsns_ok_mono [OF assms(1)] by (cases r) auto
next
  case (Op_Checkpoint now)
  define e where "e = \<lparr>en_type = op_checkpoint, en_lsn = l + 1, en_timestamp = now, en_data = [], en_checksum = 0\<rparr>"
  have n: "l < l + 1" "unat (l + 1) = Suc (unat l)" using lsn_next [of l 0] assms(2) Op_Checkpoint by simp_all
  have "lsns_ok (log @ [sealed e], l + 1)" using lsns_ok_snoc [OF assms(1), of "sealed e"] n by (simp add: sealed_def e_def)
  then show ?thesis using Op_Checkpoint n by (simp add: e_def)
qed (use assms in simp_all)

lemma log_run_lsns:
  "lsns_ok (log, l) \<Longrightarrow> unat l + sum_list (map op_size ops) < 2 ^ 64 \<Longrightarrow> lsns_ok (fold log_step ops (log, l))"
proof (induction ops arbitrary: log l)
  case (Cons op ops)
  obtain log' l' where s: "log_step op (log, l) = (log', l')" by fastforce
  have "lsns_ok (log', l') \<and> unat l' \<le> unat l + op_size op" using log_step_lsns [of log l op] Cons.prems s by simp
  then show ?case using Cons.IH [of log' l'] Cons.prems s by simp
qed simp

section \<open>Opening\<close>

lemma seg_ids_max:
  assumes "names_ok disk" "m \<in> seg_ids disk" "\<forall>i \<in> seg_ids disk. i \<le> m"
  shows "list_wal_segments disk \<noteq> []" "last (list_wal_segments disk) = (m, wal_segment_path m)"
  using sorted_list_split_max [OF finite_seg_ids assms(2,3)] by (simp_all add: list_wal_segments_eq [OF assms(1)])

lemma file_ok_scan:
  assumes "file_ok f"
  obtains cp c where "read_wal_header_checkpoint f = Inr cp" "length f \<noteq> 0"
    "scan_segment_for_last_entry f = (None, last_lsn 0 (file_log f), c)"
proof -
  obtain cp bs where f: "f = wal_header cp @ bs" "entries_bytes bs" using assms by (auto simp: file_ok_def)
  obtain es where es: "bs = concat (map serialize_entry es)" "\<forall>e \<in> set es. entry_ok e" using f(2) by (auto simp: entries_bytes_def)
  have "log_entries (drop wal_header_size f) = (es, False)"
    using log_entries_written [OF es(2), of "[]"] unfolding f(1) es(1) wal_header_facts(3) by simp
  then have "scan_last_loop (max_iterations f) (drop wal_header_size f) 0 None = (None, last_lsn 0 (file_log f), last_checkpoint None es)"
    by (simp add: scan_last_loop_spec [OF max_iterations_enough] scan_error_def file_log_def)
  then show ?thesis using that [of cp] f(1) by (simp add: scan_segment_for_last_entry_def)
qed

lemma wal_open_ok:
  assumes "disk_ok disk" "m \<in> seg_ids disk" "\<forall>i \<in> seg_ids disk. i \<le> m" "wr_buffer w = []"
  obtains w' where "wal_open cfg disk w = (disk, w')" "wal_inv disk w'" "wr_buffer w' = []" "wr_segment_id w' = m"
    "wr_last_lsn w' = last_lsn 0 (file_log (file_of disk (wal_segment_path m)))" "wr_cfg w' = cfg"
proof -
  let ?p = "wal_segment_path m"
  have n: "names_ok disk" and f: "file_ok (file_of disk ?p)" using assms(1,2) by (auto simp: disk_ok_def)
  note seg = seg_ids_max [OF n assms(2,3)]
  obtain cp c where sc: "read_wal_header_checkpoint (file_of disk ?p) = Inr cp" "length (file_of disk ?p) \<noteq> 0"
    "scan_segment_for_last_entry (file_of disk ?p) = (None, last_lsn 0 (file_log (file_of disk ?p)), c)"
    using file_ok_scan [OF f] by blast
  define w' where "w' = w\<lparr>wr_cfg := cfg, wr_file := Some ?p, wr_segment_id := m, wr_segment_path := ?p,
    wr_segment_size := word_of_nat (length (file_of disk ?p)), wr_last_lsn := last_lsn 0 (file_log (file_of disk ?p)),
    wr_checkpoint := if c = None then Some (make_checkpoint cp 0) else c\<rparr>"
  have "wal_open cfg disk w = (disk, w')" using sc by (simp add: wal_open_def seg w'_def Let_def)
  moreover have "wal_inv disk w'" using assms by (simp add: wal_inv_def w'_def)
  ultimately show ?thesis using that assms(4) by (simp add: w'_def)
qed

lemma wal_open_fresh:
  obtains disk w where "wal_open cfg [] new_file_writer = (disk, w)" "wal_inv disk w" "wr_buffer w = []" "disk_log disk = []"
    "wr_last_lsn w = 0" "wr_segment_id w = 0" "wr_cfg w = cfg"
proof -
  have ok: "disk_ok []" "seg_ids [] = {}" by (auto simp: disk_ok_def names_ok_def seg_ids_def)
  have l: "list_wal_segments [] = []" by (simp add: list_wal_segments_def)
  then have log: "disk_log [] = []" by (simp add: disk_log_def)
  note n = append_new [OF ok(1), of 0, unfolded wal_segment_path_0]
  let ?d = "append_file [] wal_base_name (wal_header 0)"
  let ?w = "new_file_writer\<lparr>wr_cfg := cfg, wr_file := Some wal_base_name, wr_segment_id := 0, wr_segment_path := wal_base_name,
    wr_segment_size := 24, wr_last_lsn := 0\<rparr>"
  have "wal_open cfg [] new_file_writer = (?d, ?w)" by (simp add: wal_open_def l file_of_def)
  moreover have "seg_ids ?d = {0}" using seg_ids_append [of "[]" 0 "wal_header 0"] ok(2) by simp
  then have "wal_inv ?d ?w" using n(1,3) ok(2) by (simp add: wal_inv_def new_file_writer_def file_of_append)
  ultimately show ?thesis using that n(2) ok(2) log by (simp add: new_file_writer_def)
qed

section \<open>Properties\<close>

text \<open>
  C2: The write-ahead log refines an append-only sequence. From a well-formed state, any sequence of
  writes, batches, flushes and checkpoints, with the background flusher running anywhere between
  them, leaves a well-formed state whose entries on disk followed by the buffered ones are exactly
  what the abstract log holds: each accepted entry once, in order, under the next LSN. What was on
  disk stays there unchanged, and with sync mode \<open>always\<close> nothing is left in the buffer.
\<close>

theorem wal_run_log:
  assumes "wal_inv disk w" "unat (wr_segment_id w) + length ops < 2 ^ 32"
    "fold wal_step ops (disk, w) = (disk', w')"
  shows "wal_inv disk' w' \<and>
    (disk_log disk' @ pending w', wr_last_lsn w') = fold log_step ops (disk_log disk @ pending w, wr_last_lsn w) \<and>
    prefix (disk_log disk) (disk_log disk') \<and>
    (sync_mode (wr_cfg w) = ''always'' \<longrightarrow> wr_buffer w = [] \<longrightarrow> pending w' = [])"
  using wal.run_refines [of 0 ops "(disk, w)"] assms
  by (auto simp: wal_room_def wal_abs_def wal_grows_def)

text \<open>
  C24: LSNs on disk and in the buffer increase strictly and are at most the writer's counter: whatever is done with such a log,
  they still are, as long as the 64-bit counter does not wrap.
\<close>

theorem wal_lsns_increase:
  assumes "wal_inv disk w" "unat (wr_segment_id w) + length ops < 2 ^ 32"
    "lsns_ok (disk_log disk @ pending w, wr_last_lsn w)" "unat (wr_last_lsn w) + sum_list (map op_size ops) < 2 ^ 64"
    "fold wal_step ops (disk, w) = (disk', w')"
  shows "sorted_wrt (<) (map en_lsn (disk_log disk' @ pending w')) \<and> (\<forall>e \<in> set (disk_log disk' @ pending w'). en_lsn e \<le> wr_last_lsn w')"
proof -
  have "fold log_step ops (disk_log disk @ pending w, wr_last_lsn w) = (disk_log disk' @ pending w', wr_last_lsn w')"
    using wal.run_refines [of 0 ops "(disk, w)"] assms by (simp add: wal_room_def wal_abs_def)
  then show ?thesis using log_run_lsns [OF assms(3,4)] by (simp add: lsns_ok_def)
qed

text \<open>
  C6: Crash and reopen. The buffer is lost, the files are not: a new writer opened on the files of a
  well-formed log keeps all their entries, has nothing buffered, and continues with the LSN of the
  last entry on disk, provided the newest file holds an entry.
\<close>

theorem wal_crash_reopen:
  assumes "wal_inv disk w" "file_log (file_of disk (wr_segment_path w)) \<noteq> []"
  shows "\<exists>w'. wal_open cfg disk new_file_writer = (disk, w') \<and> wal_inv disk w' \<and> pending w' = [] \<and>
    wr_last_lsn w' = en_lsn (last (disk_log disk))"
proof -
  let ?m = "wr_segment_id w" and ?p = "wal_segment_path (wr_segment_id w)"
  have i: "disk_ok disk" "?m \<in> seg_ids disk" "\<forall>i \<in> seg_ids disk. i \<le> ?m" "wr_segment_path w = ?p" "names_ok disk"
    using assms(1) by (auto simp: wal_inv_def disk_ok_def)
  have "disk_log disk = concat (map (\<lambda>i. file_log (file_of disk (wal_segment_path i))) (sorted_list_of_set (seg_ids disk - {?m})))
      @ file_log (file_of disk ?p)"
    using disk_log_eq [OF i(5)] sorted_list_split_max [OF finite_seg_ids i(2,3)] by simp
  then have "last (disk_log disk) = last (file_log (file_of disk ?p))" using assms(2) i(4) by simp
  moreover obtain w' where "wal_open cfg disk new_file_writer = (disk, w')" "wal_inv disk w'" "wr_buffer w' = []"
    "wr_last_lsn w' = last_lsn 0 (file_log (file_of disk ?p))"
    using wal_open_ok [OF i(1-3), of new_file_writer cfg] by (auto simp: new_file_writer_def)
  ultimately show ?thesis using assms(2) i(4) by (auto simp: last_lsn_def)
qed

text \<open>
  After a rotation the new file is empty until the next flush. A crash in between makes the log
  start again at LSN 0 although older files hold entries: the LSNs handed out next repeat theirs.
\<close>

theorem wal_lsn_restarts:
  assumes "wal_inv disk w" "wr_segment_id w \<noteq> - 1" "rotate_locked disk w = (None, disk', w')"
  shows "\<exists>w2. wal_open cfg disk' new_file_writer = (disk', w2) \<and> wr_last_lsn w2 = 0 \<and>
    disk_log disk' = disk_log disk @ pending w"
proof -
  obtain d1 w1 where r: "rotate_locked disk w = (None, d1, w1)" "wal_extends disk w [] d1 w1" "wr_buffer w1 = []"
    "wr_segment_id w1 = wr_segment_id w + 1" by (rule rotate_ok [OF assms(1,2)])
  then have d: "d1 = disk'" "w1 = w'" using assms(3) by simp_all
  have log: "disk_log disk' = disk_log disk @ pending w" using r(2,3) d by (simp add: wal_extends_def)
  have inv: "wal_inv disk' w'" using r(2) d by (simp add: wal_extends_def)
  obtain df wf where fl: "flush_locked disk w = (None, df, wf)" "disk_log df = disk_log disk @ pending w" "wal_inv df wf"
    "wr_segment_id wf = wr_segment_id w" using flush_ok [OF assms(1)] unfolding wal_extends_def by metis
  let ?p = "wal_segment_path (wr_segment_id w + 1)"
  obtain cp where disk': "disk' = append_file df ?p (wal_header cp)"
    using assms(3) fl(4) by (auto simp: rotate_locked_def fl(1) Let_def)
  have "\<forall>i \<in> seg_ids df. i < wr_segment_id w + 1"
    using fl(3,4) word_less_plus_1(1) [OF assms(2)] by (auto simp: wal_inv_def)
  then have "file_of df ?p = []" using append_new(3) fl(3) by (auto simp: wal_inv_def)
  then have "file_of disk' ?p = wal_header cp @ []" by (simp add: disk' file_of_append)
  then have "file_log (file_of disk' ?p) = []" unfolding file_log_def by (simp only: wal_header_facts(3)) simp
  moreover have "disk_ok disk'" "wr_segment_id w + 1 \<in> seg_ids disk'" "\<forall>i \<in> seg_ids disk'. i \<le> wr_segment_id w + 1"
    using inv r(4) d by (auto simp: wal_inv_def)
  then obtain w2 where "wal_open cfg disk' new_file_writer = (disk', w2)" "wr_last_lsn w2 = last_lsn 0 (file_log (file_of disk' ?p))"
    using wal_open_ok [of disk' "wr_segment_id w + 1" new_file_writer cfg] by (auto simp: new_file_writer_def)
  ultimately show ?thesis using log by (simp add: last_lsn_def)
qed

lemma scan_entry_torn_more:
  assumes "length (en_data t) < 2 ^ 32" "21 \<le> k" "k + length new < length (serialize_entry t)"
  shows "scan_entry (take k (serialize_entry t) @ new) = Scan_End"
proof -
  let ?b = "take k (serialize_entry t) @ new"
  have k: "k < length (serialize_entry t)" "length ?b = k + length new" using assms(3) by simp_all
  have "take 4 (drop 17 ?b) = take 4 (drop 17 (serialize_entry t))" using assms(2) k by (simp add: drop_take min_def)
  then have "get_u32 (drop 17 ?b) = get_u32 (drop 17 (serialize_entry t))" by (simp add: get_u32_def)
  then have "unat (get_u32 (drop 17 ?b)) = length (en_data t)"
    using entry_body_fields(4) [OF assms(1), of "put_u64 (crc64 (entry_body t))"] by (simp add: serialize_entry_def)
  moreover have "length (drop 21 ?b) < length (en_data t) + 8" using assms(2,3) by (simp add: length_serialize_entry)
  ultimately show ?thesis using assms(2) k by (simp add: scan_entry_def Let_def)
qed

lemma single_file:
  "names_ok [(wal_base_name, f)]" "list_wal_segments [(wal_base_name, f)] = [(0, wal_base_name)]"
  "disk_log [(wal_base_name, f)] = file_log f"
proof -
  show n: "names_ok [(wal_base_name, f)]" by (simp add: names_ok_def segment_name_id_base)
  have "seg_ids [(wal_base_name, f)] = {0}" by (auto simp: seg_ids_def wal_segment_path_base)
  then show l: "list_wal_segments [(wal_base_name, f)] = [(0, wal_base_name)]" by (simp add: list_wal_segments_eq [OF n])
  show "disk_log [(wal_base_name, f)] = file_log f" by (simp add: disk_log_def l file_of_def)
qed

lemma write_synced:
  assumes "wr_file w = Some p" "max_segment_size (wr_cfg w) = 0" "sync_mode (wr_cfg w) = ''always''" "wr_buffer w = []"
    "29 + length (en_data e) \<le> wal_max_record_size"
  shows "\<exists>w'. wal_write now e disk w =
      (Inr (wr_last_lsn w + 1), append_file disk p (serialize_entry (stamp now (wr_last_lsn w + 1) e)), w') \<and> wr_buffer w' = []"
  using assms by (simp add: wal_write_def append_bytes_def ensure_capacity_def flush_when_def flush_locked_def
    length_serialize_entry stamp_def Let_def)

text \<open>
  C35: A torn tail swallows what follows. When a crash left the first \<open>k\<close> bytes of an entry, its length
  field included, the writer that is opened afterwards appends behind them. A write that it
  acknowledges and syncs is then read as part of the torn entry, as long as it fits there: the
  log still ends before the torn entry.
\<close>

theorem wal_torn_tail_hides:
  fixes cp :: u64
  assumes "\<forall>e \<in> set es. entry_ok e" "entry_ok t" "21 \<le> k"
    "k + 29 + length (en_data e) < length (serialize_entry t)" "29 + length (en_data e) \<le> wal_max_record_size"
  defines "disk \<equiv> [(wal_base_name, wal_header cp @ concat (map serialize_entry es) @ take k (serialize_entry t))]"
  shows "\<exists>w disk' w' lsn. wal_open \<lparr>max_segment_size = 0, sync_mode = ''always'', batch_size_bytes = 0\<rparr> disk new_file_writer
       = (disk, w) \<and> wal_write now e disk w = (Inr lsn, disk', w') \<and> wr_buffer w' = [] \<and> disk_log disk' = es"
proof -
  let ?cfg = "\<lparr>max_segment_size = 0, sync_mode = ''always'', batch_size_bytes = 0\<rparr>"
  define f where "f = wal_header cp @ concat (map serialize_entry es) @ take k (serialize_entry t)"
  have d: "disk = [(wal_base_name, f)]" by (simp add: disk_def f_def)
  have k: "k < length (serialize_entry t)" and lt: "length (en_data t) < 2 ^ 32" using assms(2,4) by (simp_all add: entry_ok_def)
  obtain c where sc: "scan_segment_for_last_entry f = (None, last_lsn 0 es, c)" "read_wal_header_checkpoint f = Inr cp" "f \<noteq> []"
  proof
    show "scan_segment_for_last_entry f = (None, last_lsn 0 es, last_checkpoint (if cp > 0 then Some (make_checkpoint cp 0) else None) es)"
      unfolding f_def by (rule scan_last_segment [OF assms(1,2) k])
    show "read_wal_header_checkpoint f = Inr cp" unfolding f_def by (rule wal_header_facts(2))
    show "f \<noteq> []" unfolding f_def using wal_header_facts(1) [of cp] by (metis append_is_Nil_conv list.size(3) zero_neq_numeral)
  qed
  define w where "w = new_file_writer\<lparr>wr_cfg := ?cfg, wr_file := Some wal_base_name, wr_segment_id := 0,
    wr_segment_path := wal_base_name, wr_segment_size := word_of_nat (length f), wr_last_lsn := last_lsn 0 es,
    wr_checkpoint := if c = None then Some (make_checkpoint cp 0) else c\<rparr>"
  have o: "wal_open ?cfg disk new_file_writer = (disk, w)"
    using sc by (simp add: wal_open_def d single_file(2) file_of_def w_def Let_def)
  let ?data = "serialize_entry (stamp now (wr_last_lsn w + 1) e)"
  obtain w' where wr: "wal_write now e disk w = (Inr (wr_last_lsn w + 1), append_file disk wal_base_name ?data, w')" "wr_buffer w' = []"
    using write_synced [of w wal_base_name e now disk] assms(5) by (auto simp: w_def new_file_writer_def)
  have ap: "append_file disk wal_base_name ?data = [(wal_base_name, f @ ?data)]" by (simp add: d append_file_def file_of_def)
  have "length ?data = 29 + length (en_data e)" by (simp add: length_serialize_entry stamp_def)
  then have "scan_entry (take k (serialize_entry t) @ ?data) = Scan_End" using scan_entry_torn_more [OF lt assms(3)] assms(4) by simp
  then have "log_entries (concat (map serialize_entry es) @ take k (serialize_entry t) @ ?data) = (es, False)"
    using log_entries_written [OF assms(1)] log_entries_simps(1) by simp
  then have "file_log (f @ ?data) = es" unfolding f_def file_log_def append_assoc wal_header_facts(3) by simp
  then show ?thesis using o wr ap single_file(3) by (intro exI [of _ w] exI [of _ w'] exI [of _ "[(wal_base_name, f @ ?data)]"]) simp
qed

section \<open>Instances\<close>

text \<open>A log in one file with one entry, as a writer leaves it.\<close>

definition demo_cfg :: wal_config where
  "demo_cfg = \<lparr>max_segment_size = 64, sync_mode = ''batch'', batch_size_bytes = 4096\<rparr>"

definition demo_disk :: disk where
  "demo_disk = [(wal_base_name, wal_header 0 @ serialize_entry (demo_entry 1 1))]"

definition demo_writer :: wal_writer where
  "demo_writer = \<lparr>wr_cfg = demo_cfg, wr_file = Some wal_base_name, wr_buffer = [], wr_last_lsn = 1, wr_checkpoint = None,
     wr_segment_id = 0, wr_segment_path = wal_base_name, wr_segment_size = 56\<rparr>"

lemma demo_log:
  "file_log (wal_header 0 @ serialize_entry (demo_entry 1 1)) = [demo_entry 1 1]" "disk_log demo_disk = [demo_entry 1 1]"
  "pending demo_writer = []"
proof -
  show f: "file_log (wal_header 0 @ serialize_entry (demo_entry 1 1)) = [demo_entry 1 1]"
    using log_entries_written [of "[demo_entry 1 1]" "[]"] unfolding file_log_def wal_header_facts(3) by simp
  show "disk_log demo_disk = [demo_entry 1 1]" by (simp add: demo_disk_def single_file(3) f)
  show "pending demo_writer = []" by (simp add: demo_writer_def)
qed

lemma demo_inv: "wal_inv demo_disk demo_writer"
proof -
  have ids: "seg_ids demo_disk = {0}" by (auto simp: seg_ids_def wal_segment_path_base demo_disk_def)
  have fo: "file_of demo_disk wal_base_name = wal_header 0 @ serialize_entry (demo_entry 1 1)"
    by (simp add: demo_disk_def file_of_def)
  have "file_ok (wal_header 0 @ serialize_entry (demo_entry 1 1))"
    using entries_bytes_written [of "[demo_entry 1 1]"] by (auto simp: file_ok_def)
  then have "disk_ok demo_disk" using single_file(1) unfolding disk_ok_def ids by (simp add: fo) (simp add: demo_disk_def)
  then show ?thesis by (simp add: wal_inv_def ids fo demo_writer_def)
qed

definition demo_ops :: "wal_op list" where
  "demo_ops = [Op_Write 5 (demo_entry 1 0), Op_Tick, Op_Batch 6 [demo_entry 1 0, demo_entry 2 0], Op_Checkpoint 7, Op_Flush]"

theorem wal_run_log_witness:
  "\<exists>disk' w'. fold wal_step demo_ops (demo_disk, demo_writer) = (disk', w') \<and> wal_inv disk' w' \<and>
    (disk_log disk' @ pending w', wr_last_lsn w') = fold log_step demo_ops ([demo_entry 1 1], 1) \<and>
    prefix [demo_entry 1 1] (disk_log disk')"
proof -
  obtain disk' w' where r: "fold wal_step demo_ops (demo_disk, demo_writer) = (disk', w')" by fastforce
  show ?thesis using wal_run_log [OF demo_inv _ r] r by (auto simp: demo_log demo_ops_def demo_writer_def)
qed

theorem wal_lsns_increase_witness:
  "\<exists>disk' w'. fold wal_step demo_ops (demo_disk, demo_writer) = (disk', w') \<and>
    sorted_wrt (<) (map en_lsn (disk_log disk' @ pending w')) \<and> (\<forall>e \<in> set (disk_log disk' @ pending w'). en_lsn e \<le> wr_last_lsn w')"
proof -
  obtain disk' w' where r: "fold wal_step demo_ops (demo_disk, demo_writer) = (disk', w')" by fastforce
  have "lsns_ok (disk_log demo_disk @ pending demo_writer, wr_last_lsn demo_writer)"
    by (simp add: lsns_ok_def demo_log) (simp add: demo_writer_def)
  from wal_lsns_increase [OF demo_inv _ this _ r] show ?thesis using r by (auto simp: demo_ops_def demo_writer_def)
qed

theorem wal_crash_reopen_witness:
  "\<exists>w'. wal_open demo_cfg demo_disk new_file_writer = (demo_disk, w') \<and> wal_inv demo_disk w' \<and> pending w' = [] \<and> wr_last_lsn w' = 1"
  using wal_crash_reopen [OF demo_inv, of demo_cfg] by (simp add: demo_log) (simp add: demo_writer_def demo_disk_def file_of_def demo_log)

theorem wal_lsn_restarts_witness:
  "\<exists>disk' w2. wal_open demo_cfg disk' new_file_writer = (disk', w2) \<and> wr_last_lsn w2 = 0 \<and> disk_log disk' = [demo_entry 1 1]"
proof -
  have nw: "wr_segment_id demo_writer \<noteq> - 1" by (simp add: demo_writer_def)
  obtain d' w' where r: "rotate_locked demo_disk demo_writer = (None, d', w')" by (rule rotate_ok [OF demo_inv nw])
  show ?thesis using wal_lsn_restarts [OF demo_inv nw r, of demo_cfg] by (auto simp: demo_log)
qed

definition big_entry :: wal_entry where
  "big_entry = sealed \<lparr>en_type = 1, en_lsn = 2, en_timestamp = 1, en_data = replicate 200 0, en_checksum = 0\<rparr>"

lemma big_entry_ok: "entry_ok big_entry" "length (serialize_entry big_entry) = 229"
  by (simp_all add: big_entry_def entry_ok_sealed length_serialize_entry)

definition demo_torn_disk :: disk where
  "demo_torn_disk = [(wal_base_name, wal_header 0 @ concat (map serialize_entry [demo_entry 1 1]) @ take 100 (serialize_entry big_entry))]"

theorem wal_torn_tail_hides_witness:
  "\<exists>disk w disk' w' lsn. wal_open \<lparr>max_segment_size = 0, sync_mode = ''always'', batch_size_bytes = 0\<rparr> disk new_file_writer
      = (disk, w) \<and> wal_write 9 (demo_entry 1 0) disk w = (Inr lsn, disk', w') \<and> wr_buffer w' = [] \<and>
    disk_log disk' = [demo_entry 1 1]"
proof -
  have "length (en_data (demo_entry 1 0)) = 3" using demo_entry_simps(4) [of 1 0] by (simp add: length_serialize_entry)
  then have "\<exists>w disk' w' lsn. wal_open \<lparr>max_segment_size = 0, sync_mode = ''always'', batch_size_bytes = 0\<rparr> demo_torn_disk new_file_writer
      = (demo_torn_disk, w) \<and> wal_write 9 (demo_entry 1 0) demo_torn_disk w = (Inr lsn, disk', w') \<and> wr_buffer w' = [] \<and>
      disk_log disk' = [demo_entry 1 1]"
    unfolding demo_torn_disk_def
    by (intro wal_torn_tail_hides) (simp_all add: big_entry_ok wal_max_record_size_def)
  then show ?thesis by blast
qed

end
