(* ===== verification/Wal_Reader.thy ===== *)
theory Wal_Reader
  imports Wal_Log
begin

text \<open>
  The reader of the write-ahead log: \<open>FileReader\<close> of \<open>src/wal/file_wal.go\<close>, with its growing and
  compacting buffer, over a directory that does not change while it is read. The open file is the
  list of its bytes that were not read yet. The checks that only guard against impossible states of
  a Go slice (length beyond capacity) are left out.

  The loops are total functions: reading terminates on every directory, damaged or not. Main result:
  reading a well-formed log from an LSN on gives exactly its entries from there on, across buffer
  refills and files, and then the end of the log (\<open>wal_read_complete\<close>).
\<close>

section \<open>State and operations\<close>

record wal_reader =
  rd_segments :: "(u32 \<times> bytes) list"
  rd_index :: nat
  rd_rest :: "bytes option"
  rd_buffer :: bytes
  rd_cap :: nat
  rd_offset :: nat
  rd_last_valid :: u64
  rd_pending :: "wal_entry option"

definition new_file_reader :: wal_reader where
  "new_file_reader = \<lparr>rd_segments = [], rd_index = 0, rd_rest = None, rd_buffer = [], rd_cap = 1048576, rd_offset = 0,
     rd_last_valid = 0, rd_pending = None\<rparr>"

definition open_segment :: "disk \<Rightarrow> nat \<Rightarrow> wal_reader \<Rightarrow> go_error option \<times> wal_reader" where
  "open_segment disk i r =
     (if i \<ge> length (rd_segments r) then (Some EOF, r)
      else let r1 = r\<lparr>rd_rest := None\<rparr> in
        case map_of disk (snd (rd_segments r ! i)) of
          None \<Rightarrow> (Some (Wrap ''open WAL file'' (Err ''no such file'')), r1)
        | Some f \<Rightarrow>
            case read_wal_header_checkpoint f of
              Inl e \<Rightarrow> (Some e, r1)
            | Inr _ \<Rightarrow> (None, r1\<lparr>rd_rest := Some (drop wal_header_size f), rd_index := i, rd_buffer := [], rd_offset := 0\<rparr>))"

text \<open>Moving the unread bytes to the front of the buffer, and making room for \<open>n\<close> bytes.\<close>

definition compact :: "bool \<Rightarrow> wal_reader \<Rightarrow> bool \<times> wal_reader" where
  "compact shifted r =
     (if rd_offset r > 0 \<and> rd_offset r < length (rd_buffer r)
      then (True, r\<lparr>rd_buffer := drop (rd_offset r) (rd_buffer r), rd_offset := 0\<rparr>)
      else if rd_offset r \<ge> length (rd_buffer r) then (True, r\<lparr>rd_buffer := [], rd_offset := 0\<rparr>)
      else (shifted, r))"

definition grow :: "nat \<Rightarrow> wal_reader \<Rightarrow> wal_reader" where
  "grow n r = (if rd_cap r < n then r\<lparr>rd_cap := max n (2 * rd_cap r)\<rparr> else r)"

function ensure_loop :: "disk \<Rightarrow> nat \<Rightarrow> bool \<Rightarrow> wal_reader \<Rightarrow> (bool \<times> go_error option) \<times> wal_reader" where
  "ensure_loop disk n shifted r =
     (if length (rd_buffer r) - rd_offset r \<ge> n then ((shifted, None), r)
      else case compact shifted r of (sh, r1) \<Rightarrow>
        let r2 = grow n r1; avail = rd_cap r2 - length (rd_buffer r2) in
        if avail = 0 then ((False, Some (Err ''buffer full'')), r2)
        else case rd_rest r2 of
          None \<Rightarrow> ((sh, Some (Wrap ''read buffer'' (Err ''invalid argument''))), r2)
        | Some rest \<Rightarrow>
            if rest = [] then
              (case open_segment disk (rd_index r2 + 1) r2 of
                 (Some e, r3) \<Rightarrow> ((sh, Some e), r3)
               | (None, r3) \<Rightarrow> ensure_loop disk n sh r3)
            else ensure_loop disk n sh (r2\<lparr>rd_buffer := rd_buffer r2 @ take avail rest, rd_rest := Some (drop avail rest)\<rparr>))"
  by pat_completeness auto

lemma compact_same:
  "compact sh r = (sh', r') \<Longrightarrow> rd_segments r' = rd_segments r \<and> rd_index r' = rd_index r \<and> rd_rest r' = rd_rest r"
  by (auto simp: compact_def split: if_splits)

lemma grow_simps [simp]:
  "rd_segments (grow n r) = rd_segments r" "rd_index (grow n r) = rd_index r" "rd_rest (grow n r) = rd_rest r"
  "rd_buffer (grow n r) = rd_buffer r" "rd_offset (grow n r) = rd_offset r" "rd_pending (grow n r) = rd_pending r"
  by (simp_all add: grow_def)

lemma open_segment_next:
  "open_segment disk i r = (None, r') \<Longrightarrow> rd_segments r' = rd_segments r \<and> rd_index r' = i \<and> i < length (rd_segments r)"
  by (auto simp: open_segment_def Let_def split: if_splits option.splits sum.splits)

termination ensure_loop
proof (relation "measures [\<lambda>(disk, n, sh, r). length (rd_segments r) - rd_index r,
    \<lambda>(disk, n, sh, r). case rd_rest r of None \<Rightarrow> 0 | Some b \<Rightarrow> length b]", goal_cases)
  case 1
  then show ?case by simp
next
  case 2
  then show ?case by (auto dest!: open_segment_next [OF sym] compact_same [OF sym])
next
  case 3
  then show ?case by (auto dest!: compact_same [OF sym] simp: neq_Nil_conv)
qed

declare ensure_loop.simps [simp del]

definition ensure_buffer :: "disk \<Rightarrow> nat \<Rightarrow> wal_reader \<Rightarrow> (bool \<times> go_error option) \<times> wal_reader" where
  "ensure_buffer disk n r = ensure_loop disk n False r"

section \<open>What filling the buffer does\<close>

text \<open>The bytes of the current file that are still to be interpreted.\<close>

definition unread :: "wal_reader \<Rightarrow> bytes" where
  "unread r = drop (rd_offset r) (rd_buffer r) @ (case rd_rest r of None \<Rightarrow> [] | Some b \<Rightarrow> b)"

lemma compact_parts:
  "rd_buffer (snd (compact sh r)) = drop (rd_offset r) (rd_buffer r)"
  "rd_offset (snd (compact sh r)) = 0" "rd_cap (snd (compact sh r)) = rd_cap r"
  "fst (compact sh r) = (sh \<or> rd_offset r > 0 \<or> length (rd_buffer r) \<le> rd_offset r)"
  "rd_pending (snd (compact sh r)) = rd_pending r"
  by (auto simp: compact_def)

lemma compact_facts:
  assumes "compact sh r = (sh', r')"
  shows "rd_buffer r' = drop (rd_offset r) (rd_buffer r)" "rd_offset r' = 0"
    "sh' = (sh \<or> rd_offset r > 0 \<or> length (rd_buffer r) \<le> rd_offset r)" "rd_cap r' = rd_cap r"
    "rd_pending r' = rd_pending r"
proof -
  have "sh' = fst (compact sh r)" "r' = snd (compact sh r)" using assms by simp_all
  then show "rd_buffer r' = drop (rd_offset r) (rd_buffer r)" "rd_offset r' = 0"
    "sh' = (sh \<or> rd_offset r > 0 \<or> length (rd_buffer r) \<le> rd_offset r)" "rd_cap r' = rd_cap r"
    "rd_pending r' = rd_pending r"
    by (simp_all only: compact_parts)
qed

text \<open>The loop, one round at a time.\<close>

lemma ensure_loop_stop: "n \<le> length (rd_buffer r) - rd_offset r \<Longrightarrow> ensure_loop disk n sh r = ((sh, None), r)"
  by (simp add: ensure_loop.simps [of disk n sh r])

lemma ensure_loop_facts:
  assumes "ensure_loop disk n sh r = ((sh', None), r')"
  shows "rd_segments r' = rd_segments r \<and> n \<le> length (rd_buffer r') - rd_offset r' \<and> rd_offset r' \<le> rd_offset r \<and>
    (rd_index r' = rd_index r \<and> unread r' = unread r \<or> rd_index r < rd_index r' \<and> rd_index r' < length (rd_segments r)) \<and>
    (sh' \<longrightarrow> sh \<or> rd_index r < rd_index r' \<or> rd_offset r' = 0 \<and> (rd_offset r > 0 \<or> length (rd_buffer r) \<le> rd_offset r)) \<and>
    (\<not> sh' \<longrightarrow> \<not> sh \<and> rd_offset r' = rd_offset r) \<and>
    (length (rd_buffer r) \<le> rd_offset r \<longrightarrow> 0 < n \<longrightarrow> sh') \<and> (\<not> sh' \<longrightarrow> 0 < n \<longrightarrow> rd_index r' = rd_index r)"
  using assms
proof (induction disk n sh r rule: ensure_loop.induct)
  case (1 disk n sh r)
  show ?case
  proof (cases "n \<le> length (rd_buffer r) - rd_offset r")
    case True
    then show ?thesis using 1(3) by (auto simp: ensure_loop.simps [of disk n sh r])
  next
    case False
    obtain sh1 r1 where c: "compact sh r = (sh1, r1)" by fastforce
    note cf = compact_facts [OF c] and cs = compact_same [OF c]
    let ?r2 = "grow n r1"
    let ?av = "rd_cap ?r2 - length (rd_buffer ?r2)"
    have nz: "?av \<noteq> 0" using 1(3) False c by (auto simp: ensure_loop.simps [of disk n sh r] Let_def)
    obtain rest where rest: "rd_rest ?r2 = Some rest"
      using 1(3) False c nz by (auto simp: ensure_loop.simps [of disk n sh r] Let_def split: option.splits)
    show ?thesis
    proof (cases "rest = []")
      case True
      obtain r3 where o: "open_segment disk (rd_index ?r2 + 1) ?r2 = (None, r3)"
        and e: "ensure_loop disk n sh1 r3 = ((sh', None), r')"
        using 1(3) False c nz rest True
        by (auto simp: ensure_loop.simps [of disk n sh r] Let_def split: prod.splits option.splits)
      have r3: "rd_index r3 = rd_index r + 1" "rd_segments r3 = rd_segments r" "rd_offset r3 = 0" "length (rd_buffer r3) = 0"
        "rd_index r3 < length (rd_segments r)"
        using o cs by (auto simp: open_segment_def Let_def split: if_splits option.splits sum.splits)
      note IH = 1(1) [OF False c [symmetric] refl refl nz rest True o [symmetric] refl e, unfolded r3]
      show ?thesis using IH r3(5) [unfolded r3(1)] cf(3) by linarith
    next
      case ne: False
      define r3 where "r3 = ?r2\<lparr>rd_buffer := rd_buffer ?r2 @ take ?av rest, rd_rest := Some (drop ?av rest)\<rparr>"
      have e: "ensure_loop disk n sh1 r3 = ((sh', None), r')"
        using 1(3) False c nz rest ne by (simp add: ensure_loop.simps [of disk n sh r] Let_def r3_def)
      have r3: "unread r3 = unread r" "rd_index r3 = rd_index r" "rd_segments r3 = rd_segments r" "rd_offset r3 = 0"
        using cf(1,2) cs rest by (simp_all add: unread_def r3_def)
      have "0 < length (rd_buffer r3)" using nz ne by (auto simp: neq_Nil_conv r3_def)
      then have b: "length (rd_buffer r3) \<le> 0 \<longleftrightarrow> False" by simp
      note IH = 1(2) [OF False c [symmetric] refl refl nz rest ne e [unfolded r3_def], folded r3_def, unfolded r3 b]
      show ?thesis using IH cf(3) by auto
    qed
  qed
qed

section \<open>Reading entries\<close>

text \<open>
  The loop of \<open>readNextInternal\<close>. The fields of the header are read before the buffer is filled up to
  the whole entry; when that moved the bytes, the loop starts again. The length checks behind that
  point repeat what \<open>ensureBuffer\<close> guarantees.
\<close>

function read_next :: "disk \<Rightarrow> wal_reader \<Rightarrow> wal_entry result \<times> wal_reader" where
  "read_next disk r =
     (case ensure_buffer disk 21 r of
        ((_, Some e), r1) \<Rightarrow> (Inl e, r1)
      | ((_, None), r1) \<Rightarrow>
          let b = drop (rd_offset r1) (rd_buffer r1); dataLen = unat (get_u32 (drop 17 b)); entrySize = 21 + dataLen + 8 in
          if dataLen > wal_max_record_size then (Inl (Err ''WAL record data length too large''), r1)
          else if rd_offset r1 + entrySize > wal_max_record_size + 1000
          then (Inl (Err ''insane buffer requirement''), r1)
          else (case ensure_buffer disk entrySize r1 of
            ((_, Some e), r2) \<Rightarrow> (Inl e, r2)
          | ((True, None), r2) \<Rightarrow> read_next disk r2
          | ((False, None), r2) \<Rightarrow>
              let off = rd_offset r1 + 21; stored = get_u64 (drop (off + dataLen) (rd_buffer r2)) in
              if crc64 (gslice (rd_buffer r2) (rd_offset r2) (off + dataLen)) \<noteq> stored
              then (Inl (Err ''checksum mismatch''), r2)
              else (Inr \<lparr>en_type = hd b, en_lsn = get_u64 (drop 1 b), en_timestamp = get_u64 (drop 9 b),
                     en_data = gslice (rd_buffer r2) off (off + dataLen), en_checksum = stored\<rparr>,
                    r2\<lparr>rd_offset := off + dataLen + 8, rd_last_valid := get_u64 (drop 1 b)\<rparr>)))"
  by pat_completeness auto

lemmas ensure_buffer_facts = ensure_loop_facts [where sh = False, folded ensure_buffer_def]

definition reader_rel :: "(wal_reader \<times> wal_reader) set" where
  "reader_rel = measures [\<lambda>r. length (rd_segments r) - rd_index r, rd_offset]"

lemma wf_reader_rel: "wf reader_rel"
  unfolding reader_rel_def by (rule wf_measures)

lemma read_again_smaller:
  assumes "ensure_buffer disk 21 r = ((s1, None), r1)" "ensure_buffer disk n r1 = ((True, None), r2)"
  shows "(r2, r) \<in> reader_rel"
  using ensure_buffer_facts [OF assms(1)] ensure_buffer_facts [OF assms(2)] by (auto simp: reader_rel_def)

termination read_next
proof (relation "inv_image reader_rel snd", goal_cases)
  case 1
  show ?case by (rule wf_inv_image [OF wf_reader_rel])
next
  case 2
  then show ?case by (auto intro: read_again_smaller [OF sym sym])
qed

declare read_next.simps [simp del]

definition read_next_internal :: "disk \<Rightarrow> wal_reader \<Rightarrow> wal_entry result \<times> wal_reader" where
  "read_next_internal disk r =
     read_next disk (if rd_offset r > length (rd_buffer r) then r\<lparr>rd_offset := length (rd_buffer r)\<rparr> else r)"

lemma read_next_header:
  assumes "ensure_buffer disk 21 r = ((s1, None), r1)" "b = drop (rd_offset r1) (rd_buffer r1)" "dl = unat (get_u32 (drop 17 b))"
  shows "read_next disk r =
    (if dl > wal_max_record_size then (Inl (Err ''WAL record data length too large''), r1)
     else if rd_offset r1 + (29 + dl) > wal_max_record_size + 1000 then (Inl (Err ''insane buffer requirement''), r1)
     else case ensure_buffer disk (29 + dl) r1 of
       ((sh, Some e), r2) \<Rightarrow> (Inl e, r2)
     | ((sh, None), r2) \<Rightarrow>
         if sh then read_next disk r2
         else let stored = get_u64 (drop (rd_offset r1 + 21 + dl) (rd_buffer r2)) in
           if crc64 (gslice (rd_buffer r2) (rd_offset r2) (rd_offset r1 + 21 + dl)) \<noteq> stored
           then (Inl (Err ''checksum mismatch''), r2)
           else (Inr \<lparr>en_type = hd b, en_lsn = get_u64 (drop 1 b), en_timestamp = get_u64 (drop 9 b),
                  en_data = gslice (rd_buffer r2) (rd_offset r1 + 21) (rd_offset r1 + 21 + dl), en_checksum = stored\<rparr>,
                 r2\<lparr>rd_offset := rd_offset r1 + 21 + dl + 8, rd_last_valid := get_u64 (drop 1 b)\<rparr>))"
proof -
  have "21 + dl + 8 = 29 + dl" by simp
  then show ?thesis unfolding read_next.simps [of disk r] assms(1) Let_def prod.case option.case
    by (simp only: assms(2,3) [symmetric]) (auto split: prod.splits option.splits bool.splits)
qed

text \<open>Every entry that is returned was consumed: the reader moves on.\<close>

lemma read_next_progress:
  assumes "read_next disk r = (Inr e, r')"
  shows "rd_segments r' = rd_segments r \<and> (rd_index r < rd_index r' \<and> rd_index r' < length (rd_segments r) \<or>
    rd_index r' = rd_index r \<and> length (unread r') + 29 \<le> length (unread r))"
  using assms
proof (induction r rule: wf_induct_rule [OF wf_reader_rel])
  case (1 r)
  obtain s1 e1 r1 where e1: "ensure_buffer disk 21 r = ((s1, e1), r1)" by (metis prod.exhaust)
  have n1: "e1 = None" using 1(2) e1 by (cases e1) (simp_all add: read_next.simps [of disk r])
  define dl where "dl = unat (get_u32 (drop 17 (drop (rd_offset r1) (rd_buffer r1))))"
  obtain s2 e2 r2 where e2: "ensure_buffer disk (29 + dl) r1 = ((s2, e2), r2)" by (metis prod.exhaust)
  note rn = read_next_header [OF e1 [unfolded n1] refl dl_def]
  have ok: "\<not> dl > wal_max_record_size" "\<not> rd_offset r1 + (29 + dl) > wal_max_record_size + 1000" "e2 = None"
    using 1(2) unfolding rn e2 by (auto split: if_splits option.splits)
  note f1 = ensure_buffer_facts [OF e1 [unfolded n1]] and f2 = ensure_buffer_facts [OF e2 [unfolded ok(3)]]
  have seg: "rd_segments r2 = rd_segments r"
    and mv: "rd_index r2 = rd_index r \<and> length (unread r2) = length (unread r) \<or> rd_index r < rd_index r2 \<and> rd_index r2 < length (rd_segments r)"
    using f1 f2 by (metis, metis less_trans)
  show ?case
  proof (cases s2)
    case True
    then have "read_next disk r = read_next disk r2" unfolding rn e2 using ok by simp
    moreover have "(r2, r) \<in> reader_rel" using read_again_smaller e1 n1 e2 ok(3) True by simp
    ultimately have "rd_segments r' = rd_segments r2 \<and> (rd_index r2 < rd_index r' \<and> rd_index r' < length (rd_segments r2) \<or>
        rd_index r' = rd_index r2 \<and> length (unread r') + 29 \<le> length (unread r2))" using 1 by simp
    then show ?thesis using mv unfolding seg by linarith
  next
    case False
    then have r': "r' = r2\<lparr>rd_offset := rd_offset r1 + 21 + dl + 8, rd_last_valid := get_u64 (drop 1 (drop (rd_offset r1) (rd_buffer r1)))\<rparr>"
      using 1(2) ok unfolding rn e2 Let_def by (auto split: if_splits)
    have "rd_offset r2 = rd_offset r1" using f2 False by simp
    moreover have "29 + dl \<le> length (rd_buffer r2) - rd_offset r2" using f2 by blast
    ultimately have "length (unread r') + 29 \<le> length (unread r2)" by (simp add: r' unread_def)
    moreover have "rd_segments r' = rd_segments r" "rd_index r' = rd_index r2" by (simp_all add: r' seg)
    ultimately show ?thesis using mv by linarith
  qed
qed

function skip_to :: "disk \<Rightarrow> u64 \<Rightarrow> wal_reader \<Rightarrow> go_error option \<times> wal_reader" where
  "skip_to disk startLSN r =
     (case read_next_internal disk r of
        (Inl e, r') \<Rightarrow> (if e = EOF then None else Some e, r')
      | (Inr en, r') \<Rightarrow>
          if en_lsn en \<ge> startLSN then (None, r'\<lparr>rd_pending := Some en\<rparr>) else skip_to disk startLSN r')"
  by pat_completeness auto
termination
proof (relation "inv_image (measures [\<lambda>r. length (rd_segments r) - rd_index r, \<lambda>r. length (unread r)]) (\<lambda>(d, l, r). r)", goal_cases)
  case 1
  show ?case by (rule wf_inv_image [OF wf_measures])
next
  case (2 disk startLSN r x y en)
  let ?r = "if rd_offset r > length (rd_buffer r) then r\<lparr>rd_offset := length (rd_buffer r)\<rparr> else r"
  have "read_next disk ?r = (Inr en, y)" using 2 by (simp add: read_next_internal_def)
  moreover have "unread ?r = unread r" by (simp add: unread_def)
  ultimately show ?case using read_next_progress [of disk ?r en y] by (auto split: if_splits)
qed

declare skip_to.simps [simp del]

definition reader_open :: "disk \<Rightarrow> u64 \<Rightarrow> wal_reader \<Rightarrow> go_error option \<times> wal_reader" where
  "reader_open disk startLSN r =
     (let segments = list_wal_segments disk in
      if length segments = 0 then (Some (Err ''no WAL segments found''), r)
      else case open_segment disk 0 (r\<lparr>rd_segments := segments, rd_index := 0\<rparr>) of
        (Some e, r1) \<Rightarrow> (Some e, r1)
      | (None, r1) \<Rightarrow>
          let r2 = r1\<lparr>rd_buffer := [], rd_offset := 0, rd_last_valid := 0, rd_pending := None\<rparr>
          in if startLSN > 0 then skip_to disk startLSN r2 else (None, r2))"

definition reader_read :: "disk \<Rightarrow> wal_reader \<Rightarrow> wal_entry result \<times> wal_reader" where
  "reader_read disk r =
     (case rd_pending r of
        Some e \<Rightarrow> (Inr e, r\<lparr>rd_pending := None\<rparr>)
      | None \<Rightarrow> read_next_internal disk r)"

definition reader_close :: "wal_reader \<Rightarrow> wal_reader" where
  "reader_close r = r\<lparr>rd_rest := None\<rparr>"

section \<open>Reading a well-formed log\<close>

text \<open>All entries of the log fit in 32 MiB.\<close>

definition entries_small :: "disk \<Rightarrow> bool" where
  "entries_small disk \<longleftrightarrow> (\<forall>e \<in> set (disk_log disk). 29 + length (en_data e) \<le> 2 ^ 25)"

definition later_log :: "disk \<Rightarrow> wal_reader \<Rightarrow> wal_entry list" where
  "later_log disk r = concat (map (\<lambda>(_, p). file_log (file_of disk p)) (drop (rd_index r + 1) (rd_segments r)))"

definition remaining :: "disk \<Rightarrow> wal_reader \<Rightarrow> wal_entry list" where
  "remaining disk r = fst (log_entries (unread r)) @ later_log disk r"

definition reader_ok :: "disk \<Rightarrow> wal_reader \<Rightarrow> bool" where
  "reader_ok disk r \<longleftrightarrow> disk_ok disk \<and> rd_segments r = list_wal_segments disk \<and> rd_index r < length (rd_segments r) \<and>
     rd_rest r \<noteq> None \<and> rd_offset r \<le> length (rd_buffer r) \<and> length (rd_buffer r) \<le> rd_cap r \<and>
     1048576 \<le> rd_cap r \<and> rd_cap r \<le> 2 ^ 26 \<and> entries_bytes (unread r) \<and>
     (\<forall>e \<in> set (remaining disk r). 29 + length (en_data e) \<le> 2 ^ 25)"

lemma fill_ok:
  assumes "reader_ok disk r" "n \<le> length (unread r)" "n \<le> 2 ^ 25"
  shows "\<exists>sh' r'. ensure_loop disk n sh r = ((sh', None), r') \<and> reader_ok disk r' \<and> unread r' = unread r \<and>
    rd_index r' = rd_index r \<and> rd_pending r' = rd_pending r"
  using assms
proof (induction disk n sh r rule: ensure_loop.induct)
  case (1 disk n sh r)
  show ?case
  proof (cases "n \<le> length (rd_buffer r) - rd_offset r")
    case True
    then show ?thesis using 1(3) by (simp add: ensure_loop_stop)
  next
    case False
    obtain sh1 r1 where c: "compact sh r = (sh1, r1)" by fastforce
    note cf = compact_facts [OF c] and cs = compact_same [OF c]
    let ?r2 = "grow n r1"
    let ?av = "rd_cap ?r2 - length (rd_buffer ?r2)"
    obtain rest where rest: "rd_rest r = Some rest" using 1(3) by (auto simp: reader_ok_def)
    have len: "length (rd_buffer r1) = length (rd_buffer r) - rd_offset r" "length (rd_buffer r1) \<le> rd_cap r"
      using cf(1) 1(3) by (auto simp: reader_ok_def)
    have cap: "n \<le> rd_cap ?r2" "rd_cap r \<le> rd_cap ?r2" "rd_cap ?r2 \<le> 2 ^ 26"
      using 1(3,5) cf(4) by (auto simp: grow_def reader_ok_def)
    have nz: "?av \<noteq> 0" using len(1) cap(1) False by simp
    have ne: "rest \<noteq> []" using False 1(4) rest by (auto simp: unread_def)
    define r3 where "r3 = ?r2\<lparr>rd_buffer := rd_buffer ?r2 @ take ?av rest, rd_rest := Some (drop ?av rest)\<rparr>"
    have step: "ensure_loop disk n sh r = ensure_loop disk n sh1 r3"
      using False c nz rest ne cs by (simp add: ensure_loop.simps [of disk n sh r] Let_def r3_def)
    have u: "unread r3 = unread r" "rd_index r3 = rd_index r" "rd_segments r3 = rd_segments r" "rd_pending r3 = rd_pending r"
      using cf cs rest by (simp_all add: unread_def r3_def)
    then have rem: "remaining disk r3 = remaining disk r" by (simp add: remaining_def later_log_def)
    have "length (rd_buffer r3) \<le> rd_cap r3" using len(2) cap(2) by (simp add: r3_def)
    then have "reader_ok disk r3"
      using 1(3) u rem cap cf(2) unfolding reader_ok_def by (auto simp: r3_def)
    then have "\<exists>sh' r'. ensure_loop disk n sh1 r3 = ((sh', None), r') \<and> reader_ok disk r' \<and> unread r' = unread r3 \<and>
        rd_index r' = rd_index r3 \<and> rd_pending r' = rd_pending r3"
      using 1(2) [OF False c [symmetric] refl refl nz _ ne] 1(4,5) u rest cs by (simp add: r3_def)
    then show ?thesis unfolding step u .
  qed
qed

lemma next_file_ok:
  assumes "reader_ok disk r" "rd_index r + 1 < length (rd_segments r)"
  obtains f where "map_of disk (snd (rd_segments r ! (rd_index r + 1))) = Some f" "file_ok f"
    "later_log disk r = file_log f @ concat (map (\<lambda>(_, p). file_log (file_of disk p)) (drop (rd_index r + 2) (rd_segments r)))"
proof -
  let ?i = "rd_index r + 1"
  have d: "disk_ok disk" "rd_segments r = list_wal_segments disk" using assms(1) by (auto simp: reader_ok_def)
  have n: "names_ok disk" using d(1) by (simp add: disk_ok_def)
  have "rd_segments r ! ?i \<in> set (rd_segments r)" using assms(2) by simp
  then obtain sid where sid: "rd_segments r ! ?i = (sid, wal_segment_path sid)" "sid \<in> seg_ids disk"
    unfolding d(2) list_wal_segments_eq [OF n] by auto
  then obtain f where f: "map_of disk (wal_segment_path sid) = Some f" by (auto simp: seg_ids_def dest: weak_map_of_SomeI)
  then have fo: "file_of disk (wal_segment_path sid) = f" by (simp add: file_of_def)
  have "file_ok f" using d(1) sid(2) fo by (auto simp: disk_ok_def)
  moreover have "drop ?i (rd_segments r) = (sid, wal_segment_path sid) # drop (?i + 1) (rd_segments r)"
    using Cons_nth_drop_Suc [OF assms(2)] sid(1) by simp
  then have "later_log disk r = file_log f @ concat (map (\<lambda>(_, p). file_log (file_of disk p)) (drop (rd_index r + 2) (rd_segments r)))"
    by (simp add: later_log_def fo)
  ultimately show ?thesis using that [of f] f sid(1) by simp
qed

lemma ensure_next_file:
  assumes "reader_ok disk r" "unread r = []"
  shows "rd_index r + 1 \<ge> length (rd_segments r) \<Longrightarrow>
      \<exists>r'. ensure_loop disk 21 sh r = ((True, Some EOF), r') \<and> reader_ok disk r' \<and> remaining disk r' = remaining disk r \<and>
        rd_pending r' = rd_pending r"
    and "rd_index r + 1 < length (rd_segments r) \<Longrightarrow>
      \<exists>r'. ensure_loop disk 21 sh r = ensure_loop disk 21 True r' \<and> reader_ok disk r' \<and> remaining disk r' = remaining disk r \<and>
        rd_index r' = rd_index r + 1 \<and> rd_segments r' = rd_segments r \<and> rd_pending r' = rd_pending r"
proof -
  have rest: "rd_rest r = Some []" and off: "rd_offset r = length (rd_buffer r)"
    using assms by (auto simp: reader_ok_def unread_def split: option.splits)
  define r1 where "r1 = r\<lparr>rd_buffer := [], rd_offset := 0\<rparr>"
  have c: "compact sh r = (True, r1)" using off by (simp add: compact_def r1_def)
  have g: "grow 21 r1 = r1" "rd_cap r1 \<noteq> 0" using assms(1) by (auto simp: grow_def r1_def reader_ok_def)
  have step: "ensure_loop disk 21 sh r =
      (case open_segment disk (rd_index r + 1) r1 of (Some e, r3) \<Rightarrow> ((True, Some e), r3) | (None, r3) \<Rightarrow> ensure_loop disk 21 True r3)"
    using off rest g by (simp add: ensure_loop.simps [of disk 21 sh r] c Let_def) (simp add: r1_def)
  have u: "unread r1 = []" "rd_index r1 = rd_index r" "rd_segments r1 = rd_segments r" "rd_pending r1 = rd_pending r"
    using rest by (simp_all add: unread_def r1_def)
  have rem1: "remaining disk r1 = remaining disk r" using u assms(2) by (simp add: remaining_def later_log_def)
  have ok1: "reader_ok disk r1"
    using assms(1) u rem1 unfolding reader_ok_def assms(2) by (elim conjE) (simp add: r1_def)
  show "\<exists>r'. ensure_loop disk 21 sh r = ((True, Some EOF), r') \<and> reader_ok disk r' \<and> remaining disk r' = remaining disk r \<and>
      rd_pending r' = rd_pending r" if "rd_index r + 1 \<ge> length (rd_segments r)"
    using that step u ok1 rem1 by (simp add: open_segment_def)
  show "\<exists>r'. ensure_loop disk 21 sh r = ensure_loop disk 21 True r' \<and> reader_ok disk r' \<and> remaining disk r' = remaining disk r \<and>
      rd_index r' = rd_index r + 1 \<and> rd_segments r' = rd_segments r \<and> rd_pending r' = rd_pending r"
    if lt: "rd_index r + 1 < length (rd_segments r)"
  proof -
    obtain f where f: "map_of disk (snd (rd_segments r ! (rd_index r + 1))) = Some f" "file_ok f"
      "later_log disk r = file_log f @ concat (map (\<lambda>(_, p). file_log (file_of disk p)) (drop (rd_index r + 2) (rd_segments r)))"
      by (rule next_file_ok [OF assms(1) lt])
    obtain cp bs where h: "f = wal_header cp @ bs" "entries_bytes bs" using f(2) by (auto simp: file_ok_def)
    have fl: "file_log f = fst (log_entries bs)" unfolding h(1) file_log_def wal_header_facts(3) ..
    define r3 where "r3 = r1\<lparr>rd_rest := Some bs, rd_index := rd_index r + 1, rd_buffer := [], rd_offset := 0\<rparr>"
    have o: "open_segment disk (rd_index r + 1) r1 = (None, r3)"
      using lt f(1) u unfolding open_segment_def r3_def Let_def by (simp add: h(1) wal_header_facts(3) del: drop_append)
    have u3: "unread r3 = bs" "rd_index r3 = rd_index r + 1" "rd_segments r3 = rd_segments r" "rd_pending r3 = rd_pending r"
      using u by (simp_all add: unread_def r3_def)
    have rem3: "remaining disk r3 = remaining disk r"
      using f(3) fl assms(2) by (simp add: remaining_def later_log_def u3)
    have "reader_ok disk r3"
      using ok1 h(2) lt u rem1 rem3 unfolding reader_ok_def u3 by (elim conjE) (simp add: r3_def)
    then show ?thesis using step o u3 rem3 by auto
  qed
qed

text \<open>Bytes that hold at least one whole entry.\<close>

lemma entries_bytes_first:
  assumes "entries_bytes bs" "bs \<noteq> []"
  obtains e tail where "bs = serialize_entry e @ tail" "entry_ok e" "entries_bytes tail"
    "fst (log_entries bs) = e # fst (log_entries tail)"
proof -
  obtain es where es: "bs = concat (map serialize_entry es)" "\<forall>e \<in> set es. entry_ok e" using assms(1) by (auto simp: entries_bytes_def)
  then obtain e es' where c: "es = e # es'" using assms(2) by (cases es) auto
  let ?t = "concat (map serialize_entry es')"
  have "fst (log_entries bs) = e # fst (log_entries ?t)"
    using log_entries_written [OF es(2), of "[]"] log_entries_written [of es' "[]"] es c by simp
  then show ?thesis using that [of e ?t] es c entries_bytes_written [of es'] by simp
qed

lemma ensure_header:
  assumes "reader_ok disk r"
  shows "(remaining disk r = [] \<longrightarrow> (\<exists>s r'. ensure_loop disk 21 sh r = ((s, Some EOF), r') \<and> reader_ok disk r' \<and>
      remaining disk r' = [] \<and> rd_pending r' = rd_pending r)) \<and>
    (remaining disk r \<noteq> [] \<longrightarrow> (\<exists>s r'. ensure_loop disk 21 sh r = ((s, None), r') \<and> reader_ok disk r' \<and>
      remaining disk r' = remaining disk r \<and> unread r' \<noteq> [] \<and> rd_pending r' = rd_pending r))"
  using assms
proof (induction "length (rd_segments r) - rd_index r" arbitrary: r sh rule: less_induct)
  case less
  show ?case
  proof (cases "unread r = []")
    case False
    have "entries_bytes (unread r)" using less.prems by (simp add: reader_ok_def)
    then obtain e tail where e: "unread r = serialize_entry e @ tail" "fst (log_entries (unread r)) = e # fst (log_entries tail)"
      using entries_bytes_first False by metis
    then have "21 \<le> length (unread r)" by (simp add: length_serialize_entry)
    then obtain s r' where "ensure_loop disk 21 sh r = ((s, None), r')" "reader_ok disk r'" "unread r' = unread r"
      "rd_index r' = rd_index r" "rd_pending r' = rd_pending r" using fill_ok [OF less.prems, of 21 sh] by auto
    moreover have "rd_segments r' = rd_segments r" using calculation(2) less.prems by (simp add: reader_ok_def)
    ultimately show ?thesis using e(2) False by (simp add: remaining_def later_log_def)
  next
    case True
    show ?thesis
    proof (cases "rd_index r + 1 < length (rd_segments r)")
      case False
      then have "remaining disk r = []" using True by (simp add: remaining_def later_log_def)
      then show ?thesis using ensure_next_file(1) [OF less.prems True, of sh] False by auto
    next
      case lt: True
      obtain r1 where "ensure_loop disk 21 sh r = ensure_loop disk 21 True r1" "reader_ok disk r1" "remaining disk r1 = remaining disk r"
        "rd_index r1 = rd_index r + 1" "rd_segments r1 = rd_segments r" "rd_pending r1 = rd_pending r"
        using ensure_next_file(2) [OF less.prems True lt, of sh] by blast
      then show ?thesis using less.hyps [of r1 True] lt by simp
    qed
  qed
qed

lemma prefix_fields:
  assumes "21 \<le> length b" "b @ x = serialize_entry e @ tail" "entry_ok e"
  shows "hd b = en_type e" "get_u64 (drop 1 b) = en_lsn e" "get_u64 (drop 9 b) = en_timestamp e"
    "unat (get_u32 (drop 17 b)) = length (en_data e)"
proof -
  have len: "length (en_data e) < 2 ^ 32" using assms(3) by (simp add: entry_ok_def)
  let ?c = "put_u64 (crc64 (entry_body e)) @ tail"
  have bx: "b @ x = entry_body e @ ?c" using assms(2) by (simp add: serialize_entry_def)
  note f = entry_body_fields [OF len, of ?c, folded bx]
  show "hd b = en_type e" using f(1) assms(1) by (cases b) auto
  show "get_u64 (drop 1 b) = en_lsn e" "get_u64 (drop 9 b) = en_timestamp e" "unat (get_u32 (drop 17 b)) = length (en_data e)"
    using f(2-4) assms(1) by (simp_all add: get_u64_def get_u32_def)
qed

lemma entry_in_buffer:
  assumes "29 + length (en_data e) \<le> length b" "b @ x = serialize_entry e @ tail" "entry_ok e"
  obtains t where "b = serialize_entry e @ t" "t @ x = tail" "take (21 + length (en_data e)) b = entry_body e"
    "get_u64 (drop (21 + length (en_data e)) b) = en_checksum e" "take (length (en_data e)) (drop 21 b) = en_data e"
    "drop (29 + length (en_data e)) b = t"
proof -
  let ?s = "serialize_entry e"
  have ls: "length ?s = 29 + length (en_data e)" by (rule length_serialize_entry)
  define t where "t = drop (length ?s) b"
  have "take (length ?s) (b @ x) = ?s" using assms(2) by simp
  then have b: "b = ?s @ t" using assms(1) ls t_def by (metis append_take_drop_id take_append take_all_iff append_Nil2 diff_is_0_eq take0)
  have "t @ x = tail" using assms(2) b by simp
  moreover have "take (21 + length (en_data e)) b = entry_body e" "drop (21 + length (en_data e)) b = put_u64 (crc64 (entry_body e)) @ t"
    by (simp_all add: b serialize_entry_def length_entry_body)
  moreover have "drop 21 (entry_body e @ (put_u64 (crc64 (entry_body e)) @ t)) = en_data e @ (put_u64 (crc64 (entry_body e)) @ t)"
    by (rule entry_body_fields(5)) (use assms(3) in \<open>simp add: entry_ok_def\<close>)
  then have "take (length (en_data e)) (drop 21 b) = en_data e"
    unfolding b serialize_entry_def append_assoc by (metis append_eq_conv_conj)
  moreover have "drop (29 + length (en_data e)) b = t" by (simp add: b ls)
  ultimately show ?thesis using that b assms(3) by (simp add: entry_ok_def)
qed

text \<open>The round that returns the entry, once it is in the buffer.\<close>

lemma read_next_buffered:
  assumes "reader_ok disk r2" "unread r2 = serialize_entry e @ tail" "entry_ok e" "entries_bytes tail"
    "29 + length (en_data e) \<le> length (rd_buffer r2) - rd_offset r2" "remaining disk r2 = e # fst (log_entries tail) @ later_log disk r2"
    "ensure_buffer disk 21 r = ((s, None), r1)" "21 \<le> length (rd_buffer r1) - rd_offset r1" "unread r1 = unread r2"
    "rd_offset r1 = rd_offset r2" "ensure_buffer disk (29 + length (en_data e)) r1 = ((False, None), r2)"
    "rd_offset r1 \<le> 2 ^ 26"
  shows "\<exists>r'. read_next disk r = (Inr e, r') \<and> reader_ok disk r' \<and> remaining disk r' = fst (log_entries tail) @ later_log disk r2 \<and>
    rd_pending r' = rd_pending r2"
proof -
  let ?n = "length (en_data e)" and ?b1 = "drop (rd_offset r1) (rd_buffer r1)" and ?b2 = "drop (rd_offset r2) (rd_buffer r2)"
  obtain x1 x2 where x1: "?b1 @ x1 = serialize_entry e @ tail" and x2: "?b2 @ x2 = serialize_entry e @ tail"
    and x2r: "x2 = (case rd_rest r2 of None \<Rightarrow> [] | Some b \<Rightarrow> b)" using assms(2,9) by (simp add: unread_def)
  have l1: "21 \<le> length ?b1" and l2: "29 + ?n \<le> length ?b2" using assms(5,8) by simp_all
  note h = prefix_fields [OF l1 x1 assms(3)]
  obtain t where t: "t @ x2 = tail" "take (21 + ?n) ?b2 = entry_body e" "get_u64 (drop (21 + ?n) ?b2) = en_checksum e"
    "take ?n (drop 21 ?b2) = en_data e" "drop (29 + ?n) ?b2 = t" by (rule entry_in_buffer [OF l2 x2 assms(3)])
  have small: "29 + ?n \<le> 2 ^ 25" using assms(1,6) by (simp add: reader_ok_def)
  define r' where "r' = r2\<lparr>rd_offset := rd_offset r2 + 21 + ?n + 8, rd_last_valid := en_lsn e\<rparr>"
  have "read_next disk r = (Inr e, r')"
    unfolding read_next_header [OF assms(7) refl refl] h assms(11)
    using small assms(3,12) t(2-4) by (simp add: wal_max_record_size_def gslice_def assms(10) r'_def Let_def entry_ok_def add.commute add.left_commute)
  moreover have u: "unread r' = tail"
    using t(1,5) x2r by (simp add: unread_def r'_def add.commute add.left_commute)
  have same: "rd_segments r' = rd_segments r2" "rd_index r' = rd_index r2" "rd_pending r' = rd_pending r2" "rd_rest r' = rd_rest r2"
    "rd_buffer r' = rd_buffer r2" "rd_cap r' = rd_cap r2" "rd_offset r' = rd_offset r2 + (29 + ?n)" by (simp_all add: r'_def)
  have rem: "remaining disk r' = fst (log_entries tail) @ later_log disk r2"
    by (simp add: remaining_def u later_log_def same)
  have "rd_offset r2 + (29 + ?n) \<le> length (rd_buffer r2)" using assms(5) by linarith
  then have "reader_ok disk r'"
    using assms(1,4,6) unfolding reader_ok_def same u rem by auto
  ultimately show ?thesis using rem same(3) by blast
qed

lemma read_next_ok:
  assumes "reader_ok disk r"
  shows "remaining disk r = [] \<Longrightarrow> \<exists>r'. read_next disk r = (Inl EOF, r') \<and> reader_ok disk r' \<and> remaining disk r' = [] \<and> rd_pending r' = rd_pending r"
    and "remaining disk r = e # es \<Longrightarrow> \<exists>r'. read_next disk r = (Inr e, r') \<and> reader_ok disk r' \<and> remaining disk r' = es \<and> rd_pending r' = rd_pending r"
proof -
  note hdr = ensure_header [OF assms, of False, folded ensure_buffer_def]
  show "\<exists>r'. read_next disk r = (Inl EOF, r') \<and> reader_ok disk r' \<and> remaining disk r' = [] \<and> rd_pending r' = rd_pending r"
    if none: "remaining disk r = []"
  proof -
    obtain s r' where "ensure_buffer disk 21 r = ((s, Some EOF), r')" "reader_ok disk r'" "remaining disk r' = []" "rd_pending r' = rd_pending r"
      using hdr none by blast
    then show ?thesis by (simp add: read_next.simps [of disk r])
  qed
  show "\<exists>r'. read_next disk r = (Inr e, r') \<and> reader_ok disk r' \<and> remaining disk r' = es \<and> rd_pending r' = rd_pending r"
    if some: "remaining disk r = e # es"
  proof -
    obtain s r1 where e1: "ensure_buffer disk 21 r = ((s, None), r1)" and ok1: "reader_ok disk r1" and
      rem1: "remaining disk r1 = e # es" and ne: "unread r1 \<noteq> []" and p1: "rd_pending r1 = rd_pending r" using hdr some by auto
    have "entries_bytes (unread r1)" using ok1 by (simp add: reader_ok_def)
    then obtain e' tail where t: "unread r1 = serialize_entry e' @ tail" "entry_ok e'" "entries_bytes tail"
      "fst (log_entries (unread r1)) = e' # fst (log_entries tail)" using entries_bytes_first ne by metis
    have e': "e' = e" and es: "es = fst (log_entries tail) @ later_log disk r1" using rem1 t(4) by (simp_all add: remaining_def)
    let ?n = "29 + length (en_data e)"
    have small: "?n \<le> 2 ^ 25" using ok1 rem1 by (simp add: reader_ok_def)
    have "?n \<le> length (unread r1)" using t(1) e' by (simp add: length_serialize_entry)
    then obtain sh r2 where e2: "ensure_buffer disk ?n r1 = ((sh, None), r2)" and ok2: "reader_ok disk r2" and
      u2: "unread r2 = unread r1" and i2: "rd_index r2 = rd_index r1" and p2: "rd_pending r2 = rd_pending r1"
      using fill_ok [OF ok1 _ small, of False] by (auto simp: ensure_buffer_def)
    note f1 = ensure_buffer_facts [OF e1] and f2 = ensure_buffer_facts [OF e2]
    have b1: "21 \<le> length (rd_buffer r1) - rd_offset r1" and b2: "?n \<le> length (rd_buffer r2) - rd_offset r2"
      and seg: "rd_segments r2 = rd_segments r1" using f1 f2 by blast+
    have late: "later_log disk r2 = later_log disk r1" using i2 seg by (simp add: later_log_def)
    have rem2: "remaining disk r2 = e # fst (log_entries tail) @ later_log disk r2"
      using t(4) u2 late e' by (simp add: remaining_def)
    have o1: "rd_offset r1 \<le> 2 ^ 26" and o2: "rd_offset r2 \<le> 2 ^ 26" using ok1 ok2 by (auto simp: reader_ok_def)
    have ue: "unread r2 = serialize_entry e @ tail" using t(1) u2 e' by simp
    note buffered = read_next_buffered [OF ok2 ue t(2) [unfolded e'] t(3) b2 rem2]
    show ?thesis
    proof (cases sh)
      case False
      then have "rd_offset r1 = rd_offset r2" using f2 by simp
      then show ?thesis using buffered [OF e1 b1 u2 [symmetric] _ _ o1] e2 False es late p1 p2 by simp
    next
      case True
      have b21: "21 \<le> length (rd_buffer r2) - rd_offset r2" using b2 by simp
      have stop: "ensure_buffer disk 21 r2 = ((False, None), r2)" "ensure_buffer disk ?n r2 = ((False, None), r2)"
        using b2 b21 by (simp_all add: ensure_buffer_def ensure_loop_stop)
      have dl: "unat (get_u32 (drop 17 (drop (rd_offset r1) (rd_buffer r1)))) = length (en_data e)"
        using prefix_fields(4) [of "drop (rd_offset r1) (rd_buffer r1)" _ e tail] b1 t(1,2) e' by (simp add: unread_def)
      have "read_next disk r = read_next disk r2"
        unfolding read_next_header [OF e1 refl dl [symmetric]] e2 using True small o1 by (simp add: wal_max_record_size_def)
      then show ?thesis using buffered [OF stop(1) b21 refl refl stop(2) o2] es late p1 p2 by simp
    qed
  qed
qed

lemma read_next_internal_ok: "reader_ok disk r \<Longrightarrow> read_next_internal disk r = read_next disk r"
  by (simp add: read_next_internal_def reader_ok_def)

lemma reader_ok_pending [simp]:
  "reader_ok disk (r\<lparr>rd_pending := p\<rparr>) = reader_ok disk r" "remaining disk (r\<lparr>rd_pending := p\<rparr>) = remaining disk r"
proof -
  have u: "unread (r\<lparr>rd_pending := p\<rparr>) = unread r" by (simp add: unread_def)
  show "remaining disk (r\<lparr>rd_pending := p\<rparr>) = remaining disk r" by (simp add: remaining_def u later_log_def)
  then show "reader_ok disk (r\<lparr>rd_pending := p\<rparr>) = reader_ok disk r" by (simp add: reader_ok_def u)
qed

text \<open>What the caller of \<open>Read\<close> still gets.\<close>

definition upcoming :: "disk \<Rightarrow> wal_reader \<Rightarrow> wal_entry list" where
  "upcoming disk r = (case rd_pending r of None \<Rightarrow> [] | Some e \<Rightarrow> [e]) @ remaining disk r"

lemma reader_read_ok:
  assumes "reader_ok disk r"
  shows "upcoming disk r = [] \<Longrightarrow> \<exists>r'. reader_read disk r = (Inl EOF, r') \<and> reader_ok disk r' \<and> upcoming disk r' = []"
    and "upcoming disk r = e # es \<Longrightarrow> \<exists>r'. reader_read disk r = (Inr e, r') \<and> reader_ok disk r' \<and> upcoming disk r' = es"
  using read_next_ok [OF assms] assms
  by (cases "rd_pending r"; fastforce simp: upcoming_def reader_read_def read_next_internal_ok)+

lemma skip_to_ok:
  assumes "reader_ok disk r" "remaining disk r = es" "rd_pending r = None"
  shows "\<exists>r'. skip_to disk l r = (None, r') \<and> reader_ok disk r' \<and> upcoming disk r' = dropWhile (\<lambda>e. en_lsn e < l) es"
  using assms
proof (induction es arbitrary: r)
  case Nil
  obtain r' where "read_next disk r = (Inl EOF, r')" "reader_ok disk r'" "remaining disk r' = []" "rd_pending r' = rd_pending r"
    using read_next_ok(1) Nil(1,2) by blast
  then show ?case using Nil by (simp add: skip_to.simps [of disk l r] read_next_internal_ok upcoming_def)
next
  case (Cons e es)
  obtain r' where r': "read_next disk r = (Inr e, r')" "reader_ok disk r'" "remaining disk r' = es" "rd_pending r' = rd_pending r"
    using read_next_ok(2) Cons.prems(1,2) by blast
  show ?case
  proof (cases "en_lsn e < l")
    case True
    then have "\<not> l \<le> en_lsn e" by (simp only: not_le)
    then have "skip_to disk l r = skip_to disk l r'"
      using r'(1) Cons.prems(1) by (simp only: skip_to.simps [of disk l r] read_next_internal_ok prod.case sum.case if_False)
    then show ?thesis using Cons.IH [OF r'(2,3)] r'(4) Cons.prems(3) True by simp
  next
    case False
    then show ?thesis using r' Cons.prems(1)
      by (simp add: skip_to.simps [of disk l r] read_next_internal_ok not_less upcoming_def)
  qed
qed

lemma reader_open_ok:
  assumes "disk_ok disk" "seg_ids disk \<noteq> {}" "entries_small disk"
  shows "\<exists>r. reader_open disk l new_file_reader = (None, r) \<and> reader_ok disk r \<and>
    upcoming disk r = dropWhile (\<lambda>e. en_lsn e < l) (disk_log disk)"
proof -
  have n: "names_ok disk" using assms(1) by (simp add: disk_ok_def)
  obtain sid ids where ids: "sorted_list_of_set (seg_ids disk) = sid # ids"
    using assms(2) by (cases "sorted_list_of_set (seg_ids disk)") auto
  then have sid: "sid \<in> seg_ids disk" by (metis finite_seg_ids list.set_intros(1) set_sorted_list_of_set)
  let ?rest = "map (\<lambda>i. (i, wal_segment_path i)) ids"
  have l: "list_wal_segments disk = (sid, wal_segment_path sid) # ?rest" by (simp add: list_wal_segments_eq [OF n] ids)
  obtain f where f: "map_of disk (wal_segment_path sid) = Some f" using sid by (auto simp: seg_ids_def dest: weak_map_of_SomeI)
  then have fo: "file_of disk (wal_segment_path sid) = f" by (simp add: file_of_def)
  then obtain cp bs where h: "f = wal_header cp @ bs" "entries_bytes bs" using assms(1) sid by (auto simp: disk_ok_def file_ok_def)
  define r0 where "r0 = new_file_reader\<lparr>rd_segments := list_wal_segments disk, rd_index := 0, rd_rest := Some bs\<rparr>"
  have "open_segment disk 0 (new_file_reader\<lparr>rd_segments := list_wal_segments disk, rd_index := 0\<rparr>) = (None, r0)"
    unfolding open_segment_def Let_def by (simp add: l f h(1) wal_header_facts(3) r0_def new_file_reader_def del: drop_append)
  then have o: "reader_open disk l new_file_reader = (if l > 0 then skip_to disk l r0 else (None, r0))"
    by (simp add: reader_open_def Let_def) (simp add: l r0_def new_file_reader_def)
  have u: "unread r0 = bs" "rd_pending r0 = None" by (simp_all add: unread_def r0_def new_file_reader_def)
  have "file_log f = fst (log_entries bs)" unfolding h(1) file_log_def wal_header_facts(3) ..
  then have rem: "remaining disk r0 = disk_log disk"
    unfolding remaining_def u by (simp add: later_log_def disk_log_def r0_def l fo)
  have ok: "reader_ok disk r0"
    using assms(1,3) h(2) unfolding reader_ok_def u rem by (simp add: r0_def new_file_reader_def l entries_small_def)
  show ?thesis
  proof (cases "l > 0")
    case True
    then show ?thesis using skip_to_ok [OF ok rem u(2), of l] o by simp
  next
    case False
    then have "l = 0" by (metis word_gt_0)
    then have "dropWhile (\<lambda>e. en_lsn e < l) (disk_log disk) = disk_log disk" by (simp add: dropWhile_eq_self_iff)
    then show ?thesis using False o ok rem u(2) by (simp add: upcoming_def)
  qed
qed

text \<open>Calling \<open>Read\<close> until it fails, at most \<open>n\<close> times: what was read, and the failure.\<close>

fun read_all :: "nat \<Rightarrow> disk \<Rightarrow> wal_reader \<Rightarrow> wal_entry list \<times> go_error option" where
  "read_all 0 disk r = ([], None)"
| "read_all (Suc n) disk r =
     (case reader_read disk r of
        (Inl e, r') \<Rightarrow> ([], Some e)
      | (Inr en, r') \<Rightarrow> (case read_all n disk r' of (es, x) \<Rightarrow> (en # es, x)))"

lemma read_all_ok:
  "reader_ok disk r \<Longrightarrow> upcoming disk r = es \<Longrightarrow> read_all (Suc (length es)) disk r = (es, Some EOF)"
proof (induction es arbitrary: r)
  case Nil
  then show ?case using reader_read_ok(1) [OF Nil(1,2)] by auto
next
  case (Cons e es)
  obtain r' where "reader_read disk r = (Inr e, r')" "reader_ok disk r'" "upcoming disk r' = es"
    using reader_read_ok(2) Cons.prems by blast
  then show ?case using Cons.IH [of r'] by simp
qed

section \<open>Properties\<close>

text \<open>
  C7: Reading the log back. A reader opened at an LSN on well-formed log files, none of whose entries
  exceeds 32 MiB, delivers exactly the entries on disk from the first with that LSN or a later one,
  in order, whatever the files and however the buffer has to be refilled, and then reports the end.
\<close>

theorem wal_read_complete:
  assumes "disk_ok disk" "seg_ids disk \<noteq> {}" "entries_small disk"
  shows "\<exists>r. reader_open disk l new_file_reader = (None, r) \<and>
    read_all (Suc (length (dropWhile (\<lambda>e. en_lsn e < l) (disk_log disk)))) disk r =
      (dropWhile (\<lambda>e. en_lsn e < l) (disk_log disk), Some EOF)"
  using reader_open_ok [OF assms, of l] read_all_ok by blast

theorem wal_read_complete_witness:
  "\<exists>r. reader_open demo_disk 1 new_file_reader = (None, r) \<and> read_all 2 demo_disk r = ([demo_entry 1 1], Some EOF)"
proof -
  have "disk_ok demo_disk" "seg_ids demo_disk \<noteq> {}" using demo_inv by (auto simp: wal_inv_def)
  moreover have "length (en_data (demo_entry 1 1)) = 3" using demo_entry_simps(4) [of 1 1] by (simp add: length_serialize_entry)
  then have "entries_small demo_disk" by (simp add: entries_small_def demo_log)
  ultimately show ?thesis using wal_read_complete [of demo_disk 1] by (simp add: demo_log numeral_2_eq_2)
qed

end
