(* ===== verification/Wal_Replay.thy ===== *)
theory Wal_Replay
  imports Wal_Reader Serializer
begin

text \<open>
  Crash recovery from the log: \<open>src/wal/replay.go\<close>. The \<open>Replayer\<close> of the caller is a record of
  callbacks over a state of the caller's choice; loops carry fuel, and \<open>None\<close> means that it ran out.
  Progress messages are left out.

  Results: replaying a well-formed log calls the replayer once for each entry, in order, and finishes
  (\<open>replay_complete\<close>), an event that was logged being handed over unchanged up to the normal
  form of its tags; but a damaged entry makes a replay that does not stop on
  errors run forever (\<open>replay_diverges\<close>).
\<close>

section \<open>Definitions\<close>

record 's replayer =
  on_insert :: "event \<Rightarrow> location \<Rightarrow> 's \<Rightarrow> go_error option \<times> 's"
  on_update_flags :: "location \<Rightarrow> byte \<Rightarrow> 's \<Rightarrow> go_error option \<times> 's"
  on_index_update :: "bytes \<Rightarrow> bytes \<Rightarrow> 's \<Rightarrow> go_error option \<times> 's"
  on_checkpoint :: "checkpoint \<Rightarrow> 's \<Rightarrow> go_error option \<times> 's"

record replay_stats =
  st_processed :: int
  st_inserts :: int
  st_updates :: int
  st_index_updates :: int
  st_checkpoints :: int
  st_errors :: "go_error list"
  st_last_lsn :: u64

definition empty_stats :: replay_stats where
  "empty_stats = \<lparr>st_processed = 0, st_inserts = 0, st_updates = 0, st_index_updates = 0, st_checkpoints = 0,
     st_errors = [], st_last_lsn = 0\<rparr>"

definition call_back :: "string \<Rightarrow> go_error option \<times> 's \<Rightarrow> go_error option \<times> 's" where
  "call_back name r = (map_option (wrap_error name) (fst r), snd r)"

definition replay_insert :: "'s replayer \<Rightarrow> wal_entry \<Rightarrow> 's \<Rightarrow> go_error option \<times> 's" where
  "replay_insert rp e s =
     (let data = en_data e in
      if length data < 7 then (Some (Err ''insert data too short''), s)
      else let recordFlags = data ! 4;
               r = \<lparr>rec_length = get_u32 data, rec_flags = recordFlags, rec_data = data,
                    continuation_count = (if is_continued recordFlags then get_u16 (drop 5 data) else 0)\<rparr>
        in case deserialize (Some r) of
             Inl x \<Rightarrow> (Some (wrap_error ''deserialize event'' x), s)
           | Inr ev \<Rightarrow> call_back ''replayer.OnInsert'' (on_insert rp ev \<lparr>segment_id = 0, loc_offset = 0\<rparr> s))"

definition replay_update_flags :: "'s replayer \<Rightarrow> wal_entry \<Rightarrow> 's \<Rightarrow> go_error option \<times> 's" where
  "replay_update_flags rp e s =
     (let data = en_data e in
      if length data = 1 then on_update_flags rp \<lparr>segment_id = 0, loc_offset = 0\<rparr> (data ! 0) s
      else if length data < 9 then (Some (Err ''update flags data too short''), s)
      else call_back ''replayer.OnUpdateFlags''
             (on_update_flags rp \<lparr>segment_id = get_u32 data, loc_offset = get_u32 (drop 4 data)\<rparr> (data ! 8) s))"

definition replay_index_update :: "'s replayer \<Rightarrow> wal_entry \<Rightarrow> 's \<Rightarrow> go_error option \<times> 's" where
  "replay_index_update rp e s =
     (let data = en_data e in
      if length data < 8 then (Some (Err ''index update data too short''), s)
      else let keyLen = unat (get_u32 data) in
        if 4 + keyLen > length data then (Some (Err ''invalid key length''), s)
        else let key = gslice data 4 (4 + keyLen) in
          if 4 + keyLen + 4 > length data then (Some (Err ''missing value length''), s)
          else let valueLen = unat (get_u32 (drop (4 + keyLen) data)) in
            if 4 + keyLen + 4 + valueLen > length data then (Some (Err ''invalid value length''), s)
            else call_back ''replayer.OnIndexUpdate''
                   (on_index_update rp key (gslice data (4 + keyLen + 4) (4 + keyLen + 4 + valueLen)) s))"

definition replay_checkpoint :: "'s replayer \<Rightarrow> wal_entry \<Rightarrow> 's \<Rightarrow> go_error option \<times> 's" where
  "replay_checkpoint rp e s =
     call_back ''replayer.OnCheckpoint'' (on_checkpoint rp (make_checkpoint (en_lsn e) (en_timestamp e)) s)"

text \<open>The body of the loop: the switch on the type, and the counters.\<close>

definition process_entry :: "'s replayer \<Rightarrow> wal_entry \<Rightarrow> 's \<Rightarrow> go_error option \<times> 's" where
  "process_entry rp e s =
     (if en_type e = op_insert then replay_insert rp e s
      else if en_type e = op_update_flags then replay_update_flags rp e s
      else if en_type e = op_index_update then replay_index_update rp e s
      else if en_type e = op_checkpoint then replay_checkpoint rp e s
      else (Some (Err ''unknown operation type''), s))"

definition count_entry :: "wal_entry \<Rightarrow> replay_stats \<Rightarrow> replay_stats" where
  "count_entry e st =
     (if en_type e = op_insert then st\<lparr>st_inserts := st_inserts st + 1\<rparr>
      else if en_type e = op_update_flags then st\<lparr>st_updates := st_updates st + 1\<rparr>
      else if en_type e = op_index_update then st\<lparr>st_index_updates := st_index_updates st + 1\<rparr>
      else st\<lparr>st_checkpoints := st_checkpoints st + 1\<rparr>)"

fun replay_loop ::
  "nat \<Rightarrow> disk \<Rightarrow> 's replayer \<Rightarrow> bool \<Rightarrow> wal_reader \<Rightarrow> replay_stats \<Rightarrow> 's \<Rightarrow> (replay_stats \<times> go_error option \<times> 's) option" where
  "replay_loop 0 disk rp stop r st s = None"
| "replay_loop (Suc n) disk rp stop r st s =
     (case reader_read disk r of
        (Inl x, r') \<Rightarrow>
          if x = EOF then Some (st, None, s)
          else if stop then Some (st, Some (wrap_error ''read WAL entry'' x), s)
          else replay_loop n disk rp stop r' (st\<lparr>st_errors := st_errors st @ [wrap_error ''read WAL entry'' x]\<rparr>) s
      | (Inr e, r') \<Rightarrow>
          let st1 = st\<lparr>st_processed := st_processed st + 1, st_last_lsn := en_lsn e\<rparr>
          in case process_entry rp e s of
               (None, s') \<Rightarrow> replay_loop n disk rp stop r' (count_entry e st1) s'
             | (Some x, s') \<Rightarrow>
                 if stop then Some (st1, Some (wrap_error ''replay entry'' x), s')
                 else replay_loop n disk rp stop r' (st1\<lparr>st_errors := st_errors st1 @ [wrap_error ''LSN'' x]\<rparr>) s')"

definition replay_from_reader ::
  "nat \<Rightarrow> disk \<Rightarrow> 's replayer \<Rightarrow> u64 \<Rightarrow> bool \<Rightarrow> 's \<Rightarrow> (replay_stats option \<times> go_error option \<times> 's) option" where
  "replay_from_reader n disk rp startLSN stop s =
     (case reader_open disk startLSN new_file_reader of
        (Some x, r) \<Rightarrow> Some (None, Some (wrap_error ''open WAL reader'' x), s)
      | (None, r) \<Rightarrow> map_option (\<lambda>(st, x, s'). (Some st, x, s')) (replay_loop n disk rp stop r empty_stats s))"

section \<open>Damaged entries\<close>

text \<open>A reader that reported a wrong checksum stands before the same entry and reports it again.\<close>

lemma open_segment_error:
  "open_segment disk i r = (x, r') \<Longrightarrow> rd_pending r' = rd_pending r \<and> x \<noteq> Some (Err ''checksum mismatch'')"
  by (auto simp: open_segment_def Let_def read_wal_header_checkpoint_def split: if_splits option.splits)

lemma ensure_loop_error:
  "ensure_loop disk n sh r = ((sh', x), r') \<Longrightarrow> rd_pending r' = rd_pending r \<and> x \<noteq> Some (Err ''checksum mismatch'')"
proof (induction disk n sh r rule: ensure_loop.induct)
  case (1 disk n sh r)
  show ?case
  proof (cases "n \<le> length (rd_buffer r) - rd_offset r")
    case True
    then show ?thesis using 1(3) by (auto simp: ensure_loop_stop)
  next
    case False
    obtain sh1 r1 where c: "compact sh r = (sh1, r1)" by fastforce
    note p = compact_facts(5) [OF c]
    let ?r2 = "grow n r1"
    let ?av = "rd_cap ?r2 - length (rd_buffer ?r2)"
    have eq: "ensure_loop disk n sh r =
       (if ?av = 0 then ((False, Some (Err ''buffer full'')), ?r2)
        else case rd_rest ?r2 of
          None \<Rightarrow> ((sh1, Some (Wrap ''read buffer'' (Err ''invalid argument''))), ?r2)
        | Some rest \<Rightarrow>
            if rest = [] then
              (case open_segment disk (rd_index ?r2 + 1) ?r2 of
                 (Some e, r3) \<Rightarrow> ((sh1, Some e), r3)
               | (None, r3) \<Rightarrow> ensure_loop disk n sh1 r3)
            else ensure_loop disk n sh1 (?r2\<lparr>rd_buffer := rd_buffer ?r2 @ take ?av rest, rd_rest := Some (drop ?av rest)\<rparr>))"
      using False by (subst ensure_loop.simps) (simp add: c Let_def)
    show ?thesis
    proof (cases "?av = 0 \<or> rd_rest ?r2 = None")
      case True
      then have "r' = ?r2" "x \<noteq> Some (Err ''checksum mismatch'')" using 1(3) unfolding eq by (auto split: if_splits)
      then show ?thesis using p by simp
    next
      case nz: False
      then obtain rest where rest: "rd_rest ?r2 = Some rest" "?av \<noteq> 0" by auto
      show ?thesis
      proof (cases "rest = []")
        case True
        obtain y r3 where o: "open_segment disk (rd_index ?r2 + 1) ?r2 = (y, r3)" by fastforce
        note oe = open_segment_error [OF o]
        show ?thesis
        proof (cases y)
          case None
          then have e: "ensure_loop disk n sh1 r3 = ((sh', x), r')" using 1(3) unfolding eq
            by (simp only: rest(2) if_False rest(1) option.case True simp_thms if_True o prod.case None)
          show ?thesis using 1(1) [OF False c [symmetric] refl refl rest(2,1) True o [symmetric] None e] oe p by simp
        next
          case (Some z)
          then have "x = Some z" "r' = r3" using 1(3) unfolding eq
            by (simp_all only: rest(2) if_False rest(1) option.case True simp_thms if_True o prod.case Some prod.inject)
          then show ?thesis using oe p Some by simp
        qed
      next
        case ne: False
        then have e: "ensure_loop disk n sh1 (?r2\<lparr>rd_buffer := rd_buffer ?r2 @ take ?av rest, rd_rest := Some (drop ?av rest)\<rparr>) = ((sh', x), r')"
          using 1(3) unfolding eq by (simp only: rest(2) if_False rest(1) option.case)
        show ?thesis using 1(2) [OF False c [symmetric] refl refl rest(2,1) ne e] p by simp
      qed
    qed
  qed
qed

lemmas ensure_buffer_error = ensure_loop_error [where sh = False, folded ensure_buffer_def]

lemma checksum_error_sticks:
  assumes "read_next disk r = (Inl (Err ''checksum mismatch''), r')"
  shows "read_next disk r' = (Inl (Err ''checksum mismatch''), r') \<and> rd_offset r' \<le> length (rd_buffer r') \<and> rd_pending r' = rd_pending r"
  using assms
proof (induction r rule: wf_induct_rule [OF wf_reader_rel])
  case (1 r)
  obtain s1 x1 r1 where e1: "ensure_buffer disk 21 r = ((s1, x1), r1)" by (metis prod.exhaust)
  note p1 = ensure_buffer_error [OF e1]
  have n1: "x1 = None" using 1(2) e1 p1 by (cases x1) (simp_all add: read_next.simps [of disk r])
  let ?b1 = "drop (rd_offset r1) (rd_buffer r1)"
  define dl where "dl = unat (get_u32 (drop 17 ?b1))"
  obtain sh x2 r2 where e2: "ensure_buffer disk (29 + dl) r1 = ((sh, x2), r2)" by (metis prod.exhaust)
  note p2 = ensure_buffer_error [OF e2]
  note rn = read_next_header [OF e1 [unfolded n1] refl dl_def]
  have ok: "\<not> dl > wal_max_record_size" "\<not> rd_offset r1 + (29 + dl) > wal_max_record_size + 1000" "x2 = None"
    using 1(2) p2 unfolding rn e2 by (auto split: if_splits option.splits)
  note f1 = ensure_buffer_facts [OF e1 [unfolded n1]] and f2 = ensure_buffer_facts [OF e2 [unfolded ok(3)]]
  show ?case
  proof (cases sh)
    case True
    then have "read_next disk r = read_next disk r2" unfolding rn e2 using ok by simp
    moreover have "(r2, r) \<in> reader_rel" using read_again_smaller e1 n1 e2 ok(3) True by simp
    ultimately show ?thesis using 1 p1 p2 by simp
  next
    case False
    have bad: "crc64 (gslice (rd_buffer r2) (rd_offset r2) (rd_offset r1 + 21 + dl)) \<noteq> get_u64 (drop (rd_offset r1 + 21 + dl) (rd_buffer r2))"
      and r': "r' = r2" using 1(2) ok False unfolding rn e2 Let_def by (auto split: if_splits)
    have off: "rd_offset r2 = rd_offset r1" and room: "29 + dl \<le> length (rd_buffer r2) - rd_offset r2"
      using f2 False by blast+
    have "rd_index r2 = rd_index r1" using f2 False by auto
    then have u: "unread r2 = unread r1" using f2 by auto
    let ?b2 = "drop (rd_offset r2) (rd_buffer r2)"
    have len: "21 \<le> length ?b1" "21 \<le> length ?b2" using f1 room by simp_all
    have "take 21 ?b1 = take 21 (unread r1)" "take 21 ?b2 = take 21 (unread r2)" using len by (simp_all add: unread_def)
    then have "take 21 ?b2 = take 21 ?b1" using u by simp
    then have "drop 17 (take 21 ?b2) = drop 17 (take 21 ?b1)" by (rule arg_cong)
    then have "take 4 (drop 17 ?b2) = take 4 (drop 17 ?b1)" by (simp only: drop_take) simp
    then have dl2: "unat (get_u32 (drop 17 ?b2)) = dl" unfolding dl_def get_u32_def by simp
    have stop: "ensure_buffer disk 21 r2 = ((False, None), r2)" "ensure_buffer disk (29 + dl) r2 = ((False, None), r2)"
      using room by (simp_all add: ensure_buffer_def ensure_loop_stop)
    have "read_next disk r2 = (Inl (Err ''checksum mismatch''), r2)"
      unfolding read_next_header [OF stop(1) refl dl2 [symmetric]] stop(2) using ok bad by (simp add: off Let_def)
    then show ?thesis using r' room p1 p2 by simp
  qed
qed

lemma replay_loop_stuck:
  assumes "read_next disk r = (Inl (Err ''checksum mismatch''), r)" "rd_offset r \<le> length (rd_buffer r)" "rd_pending r = None"
  shows "replay_loop n disk rp False r st s = None"
proof (induction n arbitrary: st)
  case (Suc n)
  have "reader_read disk r = (Inl (Err ''checksum mismatch''), r)" using assms by (simp add: reader_read_def read_next_internal_def)
  then show ?case using Suc by simp
qed simp

section \<open>What is logged is replayed\<close>

lemma replay_insert_serialized:
  assumes "rec_wf ps r" "en_data e = rec_data r" "deserialize (Some r) = Inr ev"
  shows "replay_insert rp e s = call_back ''replayer.OnInsert'' (on_insert rp ev \<lparr>segment_id = 0, loc_offset = 0\<rparr> s)"
proof -
  let ?d = "rec_data r"
  have w: "148 \<le> length ?d" "take 4 ?d = put_u32 (rec_length r)" "?d ! 4 = rec_flags r" using assms(1) by (simp_all add: rec_wf_def)
  have "get_u32 ?d = get_u32 (put_u32 (rec_length r))" unfolding get_u32_def by (simp add: w(2) [symmetric])
  then have len: "get_u32 ?d = rec_length r" by simp
  have cc: "(if is_continued (rec_flags r) then get_u16 (drop 5 ?d) else 0) = continuation_count r"
  proof (cases "is_continued (rec_flags r)")
    case True
    then have "take 2 (drop 5 ?d) = put_u16 (continuation_count r)" using assms(1) by (simp add: rec_wf_def gslice_def)
    then have "get_u16 (drop 5 ?d) = get_u16 (put_u16 (continuation_count r))" unfolding get_u16_def by simp
    then show ?thesis using True by simp
  next
    case False
    then show ?thesis using assms(1) by (simp add: rec_wf_def)
  qed
  have "\<lparr>rec_length = get_u32 ?d, rec_flags = ?d ! 4, rec_data = ?d,
      continuation_count = (if is_continued (?d ! 4) then get_u16 (drop 5 ?d) else 0)\<rparr> = r"
    unfolding w(3) cc len by simp
  then show ?thesis using w(1) assms(3) unfolding replay_insert_def Let_def assms(2) by simp
qed

text \<open>
  The contents of a log by what they mean: an operation and the entry that the writers of the log make of it. An event is read back
  in the form that the segments give it.
\<close>

datatype log_op = Log_Insert event | Log_Flags location byte | Log_Index bytes bytes | Log_Checkpoint

definition stored_form :: "u32 \<Rightarrow> event \<Rightarrow> event" where
  "stored_form ps e = e\<lparr>tags := map norm_tag (tags e),
     ev_flags := (case serialize_tags (tags e) of Inl _ \<Rightarrow> ev_flags e | Inr td \<Rightarrow> if unat ps \<le> event_size e td then flag_continued else 0)\<rparr>"

fun logged :: "u32 \<Rightarrow> log_op \<Rightarrow> wal_entry \<Rightarrow> bool" where
  "logged ps (Log_Insert ev) en \<longleftrightarrow> en_type en = op_insert \<and> event_wf ev \<and> tags_ok (tags ev) \<and>
     (\<exists>td r. serialize_tags (tags ev) = Inr td \<and> event_size ev td + 2 < 2 ^ 32 \<and> cont_pages (unat ps) (event_size ev td + 2) < 2 ^ 16 \<and>
       serialize ps (Some ev) = Inr r \<and> en_data en = rec_data r)"
| "logged ps (Log_Flags loc flags) en \<longleftrightarrow> en_type en = op_update_flags \<and>
     en_data en = put_u32 (segment_id loc) @ put_u32 (loc_offset loc) @ [flags]"
| "logged ps (Log_Index key v) en \<longleftrightarrow> en_type en = op_index_update \<and> length key < 2 ^ 32 \<and> length v < 2 ^ 32 \<and>
     en_data en = put_u32 (word_of_nat (length key)) @ key @ put_u32 (word_of_nat (length v)) @ v"
| "logged ps Log_Checkpoint en \<longleftrightarrow> en_type en = op_checkpoint"

text \<open>The callback for an operation, and the calls for a list of them: what each returns, and the state in the end.\<close>

fun replay_call :: "'s replayer \<Rightarrow> u32 \<Rightarrow> log_op \<Rightarrow> wal_entry \<Rightarrow> 's \<Rightarrow> go_error option \<times> 's" where
  "replay_call rp ps (Log_Insert ev) en = on_insert rp (stored_form ps ev) \<lparr>segment_id = 0, loc_offset = 0\<rparr>"
| "replay_call rp ps (Log_Flags loc flags) en = on_update_flags rp loc flags"
| "replay_call rp ps (Log_Index key v) en = on_index_update rp key v"
| "replay_call rp ps Log_Checkpoint en =
     on_checkpoint rp \<lparr>cp_lsn = en_lsn en, cp_timestamp = en_timestamp en, cp_last_segment = 0, cp_compaction = []\<rparr>"

fun replay_calls :: "'s replayer \<Rightarrow> u32 \<Rightarrow> (log_op \<times> wal_entry) list \<Rightarrow> 's \<Rightarrow> go_error option list \<times> 's" where
  "replay_calls rp ps [] s = ([], s)"
| "replay_calls rp ps ((lo, en) # xs) s =
     (case replay_call rp ps lo en s of (r, s1) \<Rightarrow> (case replay_calls rp ps xs s1 of (rs, s2) \<Rightarrow> (r # rs, s2)))"

fun is_insert :: "log_op \<Rightarrow> bool" where "is_insert (Log_Insert _) = True" | "is_insert _ = False"
fun is_flags :: "log_op \<Rightarrow> bool" where "is_flags (Log_Flags _ _) = True" | "is_flags _ = False"
fun is_index :: "log_op \<Rightarrow> bool" where "is_index (Log_Index _ _) = True" | "is_index _ = False"

definition succeeded :: "(log_op \<Rightarrow> bool) \<Rightarrow> log_op list \<Rightarrow> go_error option list \<Rightarrow> int" where
  "succeeded P los rs = int (length (filter (\<lambda>(lo, r). P lo \<and> r = None) (zip los rs)))"

definition failed :: "go_error option list \<Rightarrow> nat" where
  "failed rs = length (filter (\<lambda>r. r \<noteq> None) rs)"

lemma stored_form_serialized:
  assumes "event_wf ev" "serialize_tags (tags ev) = Inr td" "tags_ok (tags ev)" "event_size ev td + 2 < 2 ^ 32" "6 < unat ps" "serialize ps (Some ev) = Inr r"
  shows "r = record_of ps ev td" "deserialize (Some r) = Inr (stored_form ps ev)"
proof -
  show r: "r = record_of ps ev td" using serialize_eq [OF assms(1,2,4,5)] assms(6) by simp
  show "deserialize (Some r) = Inr (stored_form ps ev)"
    using deserialize_record_of [OF assms(1,4), of ps] deserialize_serialize_tags [OF assms(2,3)] r assms(2)
    by (simp add: stored_form_def record_of_def multi_page_def Let_def)
qed

lemma op_types: "op_insert \<noteq> op_update_flags" "op_insert \<noteq> op_index_update" "op_insert \<noteq> op_checkpoint"
  "op_update_flags \<noteq> op_index_update" "op_update_flags \<noteq> op_checkpoint" "op_index_update \<noteq> op_checkpoint"
  by (simp_all add: op_insert_def op_checkpoint_def op_update_flags_def op_index_update_def)

lemma process_logged:
  assumes "logged ps lo en" "6 < unat ps"
  shows "\<exists>name. process_entry rp en s = call_back name (replay_call rp ps lo en s)"
proof (cases lo)
  case (Log_Insert ev)
  obtain td r where r: "event_wf ev" "serialize_tags (tags ev) = Inr td" "tags_ok (tags ev)" "event_size ev td + 2 < 2 ^ 32"
    "cont_pages (unat ps) (event_size ev td + 2) < 2 ^ 16" "serialize ps (Some ev) = Inr r" "en_data en = rec_data r" "en_type en = op_insert"
    using assms(1) Log_Insert by auto
  note sf = stored_form_serialized [OF r(1-4) assms(2) r(6)]
  have "rec_wf (unat ps) r" using record_of_wf [OF r(1,4)] assms(2) r(5) sf(1) by blast
  from replay_insert_serialized [OF this r(7) sf(2), of rp s] show ?thesis using r(8) Log_Insert by (auto simp: process_entry_def)
next
  case (Log_Flags loc flags)
  have "put_u32 (segment_id loc) @ put_u32 (loc_offset loc) @ [flags] \<noteq> []" "drop 4 (put_u32 (segment_id loc) @ put_u32 (loc_offset loc) @ [flags]) = put_u32 (loc_offset loc) @ [flags]"
    "(put_u32 (segment_id loc) @ put_u32 (loc_offset loc) @ [flags]) ! 8 = flags" by (simp_all add: nth_append)
  then show ?thesis using assms(1) Log_Flags op_types by (cases loc) (auto simp: process_entry_def replay_update_flags_def Let_def)
next
  case (Log_Index key v)
  let ?d = "put_u32 (word_of_nat (length key)) @ key @ put_u32 (word_of_nat (length v)) @ v"
  have d: "unat (get_u32 ?d) = length key" "drop (4 + length key) ?d = put_u32 (word_of_nat (length v)) @ v"
    "gslice ?d 4 (4 + length key) = key" "gslice ?d (4 + length key + 4) (4 + length key + 4 + length v) = v"
    using assms(1) Log_Index by (simp_all add: unat_of_nat take_bit_nat_eq_self gslice_def)
  have "unat (get_u32 (put_u32 (word_of_nat (length v)) @ v)) = length v" using assms(1) Log_Index by (simp add: unat_of_nat take_bit_nat_eq_self)
  then show ?thesis using assms(1) Log_Index op_types d
    by (auto simp: process_entry_def replay_index_update_def Let_def)
next
  case Log_Checkpoint
  then show ?thesis using assms(1) op_types by (auto simp: process_entry_def replay_checkpoint_def make_checkpoint_def)
qed

lemma count_logged:
  assumes "logged ps lo en"
  shows "count_entry en st = st\<lparr>st_inserts := st_inserts st + (if is_insert lo then 1 else 0), st_updates := st_updates st + (if is_flags lo then 1 else 0),
    st_index_updates := st_index_updates st + (if is_index lo then 1 else 0), st_checkpoints := st_checkpoints st + (if lo = Log_Checkpoint then 1 else 0)\<rparr>"
  using assms op_types by (cases lo) (auto simp: count_entry_def)

lemma succeeded_simps [simp]: "succeeded P [] rs = 0" "succeeded P (lo # los) (r # rs) = (if P lo \<and> r = None then 1 else 0) + succeeded P los rs"
  by (simp_all add: succeeded_def)

lemma failed_simps [simp]: "failed [] = 0" "failed (r # rs) = (if r = None then 0 else 1) + failed rs"
  by (simp_all add: failed_def)

lemma replay_loop_calls:
  assumes "list_all2 (logged ps) los es" "6 < unat ps" "reader_ok disk r" "upcoming disk r = es" "replay_calls rp ps (zip los es) s = (rs, s')"
  shows "\<exists>st'. replay_loop (Suc (length es)) disk rp False r st s = Some (st', None, s') \<and> st_processed st' = st_processed st + int (length los) \<and>
    st_inserts st' = st_inserts st + succeeded is_insert los rs \<and> st_updates st' = st_updates st + succeeded is_flags los rs \<and>
    st_index_updates st' = st_index_updates st + succeeded is_index los rs \<and> st_checkpoints st' = st_checkpoints st + succeeded ((=) Log_Checkpoint) los rs \<and>
    length (st_errors st') = length (st_errors st) + failed rs \<and> st_last_lsn st' = (if es = [] then st_last_lsn st else en_lsn (last es))"
  using assms
proof (induction los es arbitrary: r st s rs rule: list_all2_induct)
  case Nil
  then obtain r' where "reader_read disk r = (Inl EOF, r')" using reader_read_ok(1) by blast
  then show ?case using Nil.prems by simp
next
  case (Cons lo los en es)
  obtain r' where r': "reader_read disk r = (Inr en, r')" "reader_ok disk r'" "upcoming disk r' = es"
    using reader_read_ok(2) Cons.prems(2,3) by blast
  obtain x s1 where x: "replay_call rp ps lo en s = (x, s1)" by fastforce
  obtain xs where xs: "replay_calls rp ps (zip los es) s1 = (xs, s')" "rs = x # xs" using Cons.prems(4) x by (auto split: prod.splits)
  obtain name where p: "process_entry rp en s = (map_option (wrap_error name) x, s1)"
    using process_logged [OF Cons.hyps(1) Cons.prems(1), of rp s] x by (auto simp: call_back_def)
  let ?st = "st\<lparr>st_processed := st_processed st + 1, st_last_lsn := en_lsn en\<rparr>"
  define st1 where "st1 = (case x of None \<Rightarrow> count_entry en ?st | Some e \<Rightarrow> ?st\<lparr>st_errors := st_errors ?st @ [wrap_error ''LSN'' (wrap_error name e)]\<rparr>)"
  have step: "replay_loop (Suc (length (en # es))) disk rp False r st s = replay_loop (Suc (length es)) disk rp False r' st1 s1"
    using r'(1) p by (cases x) (simp_all add: st1_def Let_def replay_loop.simps(2) [of "Suc (length es)"] del: replay_loop.simps(2))
  have st1: "st_processed st1 = st_processed st + 1" "st_last_lsn st1 = en_lsn en" "st_inserts st1 = st_inserts st + (if is_insert lo \<and> x = None then 1 else 0)"
    "st_updates st1 = st_updates st + (if is_flags lo \<and> x = None then 1 else 0)" "st_index_updates st1 = st_index_updates st + (if is_index lo \<and> x = None then 1 else 0)"
    "st_checkpoints st1 = st_checkpoints st + (if Log_Checkpoint = lo \<and> x = None then 1 else 0)" "length (st_errors st1) = length (st_errors st) + (if x = None then 0 else 1)"
    using count_logged [OF Cons.hyps(1), of ?st] by (cases x; simp add: st1_def eq_commute)+
  show ?case unfolding step xs(2) using Cons.IH [OF Cons.prems(1) r'(2,3) xs(1), of st1] by (auto simp: st1 simp del: replay_loop.simps)
qed

section \<open>Properties\<close>

text \<open>
  C5: Replaying a well-formed log from an LSN on, in the mode that collects errors, finishes within one round more than there are entries. When the entries
  from there on log insertions, flag updates, index updates and checkpoints, the callbacks are called once for each of them and in order, with the event in the form that it
  is stored in, the location and flags, the key and value, or the checkpoint that was logged, and their state is threaded through. The statistics count the
  entries, the successful callbacks of each kind and the failed ones, which do not stop the replay, and name the last LSN.
\<close>

theorem replay_complete:
  fixes l :: u64
  assumes "disk_ok disk" "seg_ids disk \<noteq> {}" "entries_small disk" and "6 < unat ps"
    and "list_all2 (logged ps) los (dropWhile (\<lambda>e. en_lsn e < l) (disk_log disk))"
    and "replay_calls rp ps (zip los (dropWhile (\<lambda>e. en_lsn e < l) (disk_log disk))) s = (rs, s')"
  shows "\<exists>st. replay_from_reader (Suc (length los)) disk rp l False s = Some (Some st, None, s') \<and>
    st_processed st = int (length los) \<and> st_inserts st = succeeded is_insert los rs \<and> st_updates st = succeeded is_flags los rs \<and>
    st_index_updates st = succeeded is_index los rs \<and> st_checkpoints st = succeeded ((=) Log_Checkpoint) los rs \<and> length (st_errors st) = failed rs \<and>
    (los \<noteq> [] \<longrightarrow> st_last_lsn st = en_lsn (last (dropWhile (\<lambda>e. en_lsn e < l) (disk_log disk))))"
proof -
  let ?es = "dropWhile (\<lambda>e. en_lsn e < l) (disk_log disk)"
  obtain r where r: "reader_open disk l new_file_reader = (None, r)" "reader_ok disk r" "upcoming disk r = ?es"
    using reader_open_ok [OF assms(1-3), of l] by blast
  have len: "length los = length ?es" using assms(5) by (rule list_all2_lengthD)
  then have ne: "los \<noteq> [] \<longleftrightarrow> ?es \<noteq> []" by (metis length_0_conv)
  show ?thesis unfolding ne using replay_loop_calls [OF assms(5,4) r(2,3) assms(6), of empty_stats] r(1) unfolding len [symmetric]
    by (fastforce simp: replay_from_reader_def empty_stats_def simp del: replay_loop.simps)
qed

text \<open>
  C34: A damaged entry makes a replay that collects errors run forever: when the next read reports a
  checksum mismatch, no number of rounds lets the loop return, because the reader never advances
  past the entry.
\<close>

theorem replay_diverges:
  assumes "reader_read disk r = (Inl (Err ''checksum mismatch''), r')"
  shows "\<forall>n. replay_loop n disk rp False r st s = None"
proof
  fix n
  let ?r = "if rd_offset r > length (rd_buffer r) then r\<lparr>rd_offset := length (rd_buffer r)\<rparr> else r"
  have p: "rd_pending r = None" "read_next disk ?r = (Inl (Err ''checksum mismatch''), r')"
    using assms by (auto simp: reader_read_def read_next_internal_def split: option.splits)
  note stuck = checksum_error_sticks [OF p(2)]
  then have s: "read_next disk r' = (Inl (Err ''checksum mismatch''), r')" "rd_offset r' \<le> length (rd_buffer r')" by blast+
  have "rd_pending r' = None" using stuck p(1) by (simp split: if_splits)
  then have none: "replay_loop m disk rp False r' st' s = None" for m st' by (rule replay_loop_stuck [OF s])
  show "replay_loop n disk rp False r st s = None" using assms none by (cases n) simp_all
qed

text \<open>
  An event that was serialized and logged as an insertion is handed to the replayer's \<open>OnInsert\<close> as
  the same event, with its tags in normal form, for every page size.
\<close>

theorem replay_insert_logged:
  assumes "event_wf ev" "serialize_tags (tags ev) = Inr td" "tags_ok (tags ev)" "event_size ev td + 2 < 2 ^ 32"
    "6 < unat ps" "cont_pages (unat ps) (event_size ev td + 2) < 2 ^ 16"
    "serialize ps (Some ev) = Inr r" "en_type e = op_insert" "en_data e = rec_data r"
  shows "process_entry rp e s = call_back ''replayer.OnInsert''
    (on_insert rp (ev\<lparr>tags := map norm_tag (tags ev), ev_flags := rec_flags r\<rparr>) \<lparr>segment_id = 0, loc_offset = 0\<rparr> s)"
proof -
  have r: "r = record_of ps ev td" using serialize_eq [OF assms(1,2,4,5)] assms(7) by simp
  then have wf: "rec_wf (unat ps) r" using record_of_wf [OF assms(1,4)] assms(5,6) by blast
  have des: "deserialize (Some r) = Inr (ev\<lparr>tags := map norm_tag (tags ev), ev_flags := rec_flags r\<rparr>)"
    using deserialize_record_of [OF assms(1,4), of ps] deserialize_serialize_tags [OF assms(2,3)] r by simp
  show ?thesis using replay_insert_serialized [OF wf assms(9) des] assms(8) by (simp add: process_entry_def)
qed

section \<open>Instances\<close>

text \<open>A replayer that collects the entries it is told about.\<close>

definition demo_replayer :: "(event list \<times> checkpoint list) replayer" where
  "demo_replayer = \<lparr>on_insert = \<lambda>ev _ s. (None, (fst s @ [ev], snd s)), on_update_flags = \<lambda>_ _ s. (None, s),
     on_index_update = \<lambda>_ _ s. (None, s), on_checkpoint = \<lambda>c s. (None, (fst s, snd s @ [c]))\<rparr>"

text \<open>A log in one file, with an insertion, the deletion of another event and a checkpoint.\<close>

lemma one_file_log:
  assumes "\<forall>e \<in> set es. entry_ok e"
  defines "disk \<equiv> [(wal_base_name, wal_header 0 @ concat (map serialize_entry es))]"
  shows "disk_ok disk" "seg_ids disk = {0}" "disk_log disk = es"
proof -
  show ids: "seg_ids disk = {0}" by (auto simp: seg_ids_def wal_segment_path_base disk_def)
  have "file_ok (wal_header 0 @ concat (map serialize_entry es))" using entries_bytes_written [OF assms(1)] by (auto simp: file_ok_def)
  then show "disk_ok disk" using single_file(1) unfolding disk_ok_def ids by (simp add: disk_def file_of_def)
  show "disk_log disk = es" using log_entries_written [OF assms(1), of "[]"] unfolding disk_def single_file(3) file_log_def wal_header_facts(3) by simp
qed

definition logged_as :: "byte \<Rightarrow> u64 \<Rightarrow> bytes \<Rightarrow> wal_entry" where
  "logged_as ty lsn d = sealed \<lparr>en_type = ty, en_lsn = lsn, en_timestamp = 5, en_data = d, en_checksum = 0\<rparr>"

lemma logged_as_simps [simp]: "en_type (logged_as ty lsn d) = ty" "en_lsn (logged_as ty lsn d) = lsn" "en_data (logged_as ty lsn d) = d"
  "length d < 2 ^ 32 \<Longrightarrow> entry_ok (logged_as ty lsn d)" "en_timestamp (logged_as ty lsn d) = 5"
  by (simp_all add: logged_as_def entry_ok_sealed) (simp_all add: sealed_def)

definition demo_logged :: "wal_entry list" where
  "demo_logged = [logged_as op_insert 1 (rec_data (record_of 4096 demo_event [0, 2, 101, 0, 5, 1, 0, 2, 97, 98, 116, 0, 1, 0])),
     logged_as op_update_flags 2 (put_u32 0 @ put_u32 64 @ [1]), logged_as op_checkpoint 3 []]"

theorem replay_complete_witness:
  "\<exists>disk st. disk_log disk = demo_logged \<and>
    replay_from_reader 4 disk demo_replayer 0 False ([], []) =
      Some (Some st, None, ([demo_event\<lparr>tags := tags demo_event, ev_flags := 0\<rparr>], [\<lparr>cp_lsn = 3, cp_timestamp = 5, cp_last_segment = 0, cp_compaction = []\<rparr>])) \<and>
    st_processed st = 3 \<and> st_inserts st = 1 \<and> st_updates st = 1 \<and> st_index_updates st = 0 \<and> st_checkpoints st = 1 \<and> st_errors st = [] \<and> st_last_lsn st = 3"
proof -
  let ?los = "[Log_Insert demo_event, Log_Flags \<lparr>segment_id = 0, loc_offset = 64\<rparr> 1, Log_Checkpoint]"
  let ?r = "record_of 4096 demo_event [0, 2, 101, 0, 5, 1, 0, 2, 97, 98, 116, 0, 1, 0]"
  have len: "length (rec_data ?r) = 167" by (simp add: record_of_def demo_event_facts multi_page_def length_event_body)
  obtain disk where d: "disk_ok disk" "seg_ids disk = {0}" "disk_log disk = demo_logged"
    using one_file_log [of demo_logged] len by (auto simp: demo_logged_def)
  have small: "entries_small disk" using len by (simp add: entries_small_def d(3) demo_logged_def)
  have ser: "serialize 4096 (Some demo_event) = Inr ?r" using serialize_eq [OF demo_event_facts(1,3), of 4096] by (simp add: demo_event_facts)
  have dw: "dropWhile (\<lambda>e. en_lsn e < 0) (disk_log disk) = demo_logged" using d(3) by simp
  have lg: "list_all2 (logged 4096) ?los demo_logged" using ser demo_event_facts by (simp add: demo_logged_def cont_pages_def)
  have sf: "stored_form 4096 demo_event = demo_event\<lparr>tags := tags demo_event, ev_flags := 0\<rparr>" by (simp add: stored_form_def demo_event_facts)
  have calls: "replay_calls demo_replayer 4096 (zip ?los demo_logged) ([], []) = ([None, None, None],
      ([demo_event\<lparr>tags := tags demo_event, ev_flags := 0\<rparr>], [\<lparr>cp_lsn = 3, cp_timestamp = 5, cp_last_segment = 0, cp_compaction = []\<rparr>]))"
    by (simp add: demo_logged_def demo_replayer_def sf)
  have four: "Suc (length ?los) = 4" by simp
  from replay_complete [of disk 4096 ?los 0 demo_replayer "([], [])", unfolded dw four, OF d(1) _ small _ lg calls] d(2)
  have "\<exists>st. replay_from_reader 4 disk demo_replayer 0 False ([], []) =
      Some (Some st, None, ([demo_event\<lparr>tags := tags demo_event, ev_flags := 0\<rparr>], [\<lparr>cp_lsn = 3, cp_timestamp = 5, cp_last_segment = 0, cp_compaction = []\<rparr>])) \<and>
    st_processed st = 3 \<and> st_inserts st = 1 \<and> st_updates st = 1 \<and> st_index_updates st = 0 \<and> st_checkpoints st = 1 \<and> st_errors st = [] \<and> st_last_lsn st = 3"
    by (auto simp: demo_logged_def simp del: replay_loop.simps)
  then show ?thesis using d(3) by blast
qed

lemma ensure_fresh:
  assumes "rd_buffer r = []" "rd_offset r = 0" "rd_rest r = Some bs" "length bs \<le> rd_cap r" "n \<le> length bs" "0 < n"
  shows "ensure_loop disk n sh r = ((True, None), r\<lparr>rd_buffer := bs, rd_rest := Some []\<rparr>)"
proof -
  have r: "r\<lparr>rd_buffer := [], rd_offset := 0\<rparr> = r" using assms(1,2) by simp
  have c: "compact sh r = (True, r)" using assms(1,2) by (simp add: compact_def r)
  have "ensure_loop disk n sh r = ensure_loop disk n True (r\<lparr>rd_buffer := bs, rd_rest := Some []\<rparr>)"
    using assms by (subst ensure_loop.simps) (auto simp: c grow_def Let_def)
  then show ?thesis using assms by (simp add: ensure_loop_stop)
qed

lemma read_damaged:
  assumes "rd_buffer r = []" "rd_offset r = 0" "rd_rest r = Some bs" "length bs \<le> rd_cap r" "scan_entry bs = Scan_Bad"
    "rd_cap r \<le> wal_max_record_size" "rd_pending r = None"
  shows "\<exists>r'. reader_read disk r = (Inl (Err ''checksum mismatch''), r')"
proof -
  define dl where "dl = unat (get_u32 (drop 17 bs))"
  have sc: "21 \<le> length bs" "29 + dl \<le> length bs" "crc64 (take (21 + dl) bs) \<noteq> get_u64 (drop (21 + dl) bs)"
    using assms(5) by (auto simp: scan_entry_def Let_def dl_def split: if_splits)
  define r1 where "r1 = r\<lparr>rd_buffer := bs, rd_rest := Some []\<rparr>"
  have e1: "ensure_buffer disk 21 r = ((True, None), r1)"
    unfolding ensure_buffer_def r1_def using assms sc(1) by (intro ensure_fresh) simp_all
  have r1: "rd_offset r1 = 0" "rd_buffer r1 = bs" by (simp_all add: r1_def assms(2))
  have e2: "ensure_buffer disk (29 + dl) r1 = ((False, None), r1)" using sc(2) by (simp add: ensure_buffer_def ensure_loop_stop r1)
  have dl1: "dl = unat (get_u32 (drop 17 (drop (rd_offset r1) (rd_buffer r1))))" by (simp add: dl_def r1)
  have "read_next disk r = (Inl (Err ''checksum mismatch''), r1)"
    unfolding read_next_header [OF e1 refl dl1] e2 using sc assms(4,6) by (simp add: r1 gslice_def Let_def)
  then show ?thesis using assms(1,2,7) by (simp add: reader_read_def read_next_internal_def)
qed

definition damaged_entry :: bytes where
  "damaged_entry = (serialize_entry (demo_entry 1 1))[22 := serialize_entry (demo_entry 1 1) ! 22 + 1]"

definition damaged_disk :: disk where
  "damaged_disk = [(wal_base_name, wal_header 0 @ damaged_entry)]"

definition damaged_reader :: wal_reader where
  "damaged_reader = snd (reader_open damaged_disk 0 new_file_reader)"

theorem replay_diverges_witness:
  "\<forall>n. replay_loop n damaged_disk demo_replayer False damaged_reader empty_stats ([], []) = None"
proof -
  have bad: "scan_entry (damaged_entry @ []) = Scan_Bad"
    unfolding damaged_entry_def by (rule scan_altered) simp_all
  have len: "length damaged_entry = 32" by (simp add: damaged_entry_def)
  have o: "open_segment damaged_disk 0 (new_file_reader\<lparr>rd_segments := [(0, wal_base_name)], rd_index := 0\<rparr>) =
      (None, new_file_reader\<lparr>rd_segments := [(0, wal_base_name)], rd_index := 0, rd_rest := Some damaged_entry\<rparr>)"
    unfolding open_segment_def Let_def
    by (simp add: damaged_disk_def wal_header_facts(3) new_file_reader_def del: drop_append)
  have r: "damaged_reader = new_file_reader\<lparr>rd_segments := [(0, wal_base_name)], rd_index := 0, rd_rest := Some damaged_entry\<rparr>"
    using o unfolding damaged_reader_def reader_open_def Let_def damaged_disk_def single_file(2)
    by (simp add: new_file_reader_def)
  obtain r' where "reader_read damaged_disk damaged_reader = (Inl (Err ''checksum mismatch''), r')"
    using read_damaged [of damaged_reader damaged_entry damaged_disk] bad len
    by (auto simp: r new_file_reader_def wal_max_record_size_def)
  then show ?thesis by (rule replay_diverges)
qed

theorem replay_insert_logged_witness:
  "\<exists>r. serialize 4096 (Some demo_event) = Inr r \<and>
    process_entry demo_replayer \<lparr>en_type = op_insert, en_lsn = 1, en_timestamp = 2, en_data = rec_data r, en_checksum = 0\<rparr> ([], []) =
      call_back ''replayer.OnInsert'' (None, ([demo_event\<lparr>tags := tags demo_event, ev_flags := rec_flags r\<rparr>], []))"
proof -
  obtain r where r: "serialize 4096 (Some demo_event) = Inr r"
    using serialize_eq [OF demo_event_facts(1,3), of 4096] by (simp add: demo_event_facts)
  show ?thesis
    using replay_insert_logged [OF demo_event_facts(1,3,2) _ _ _ r, of "\<lparr>en_type = op_insert, en_lsn = 1, en_timestamp = 2, en_data = rec_data r, en_checksum = 0\<rparr>" demo_replayer "([], [])"] r
    by (simp add: demo_event_facts cont_pages_def demo_replayer_def)
qed

end
