(* ===== verification/Wal_Manager.thy ===== *)
theory Wal_Manager
  imports Wal_Replay
begin

text \<open>
  The manager of the log files, \<open>src/wal/manager.go\<close>, and the validator of single files,
  \<open>src/wal/validator.go\<close>. The directory is passed along as in \<open>Wal_Writer\<close>; the fields of a
  validation error that are only printed (message, data) are reduced to a tag.

  Results: deleting the files before an LSN loses no entry with that LSN or a later one and keeps the
  writer's state well formed; retention by count keeps the newest files; validating a file counts
  its intact entries exactly.
\<close>

section \<open>The manager\<close>

record wal_manager =
  wm_cfg :: wal_config
  wm_writer :: "wal_writer option"
  wm_checkpoints :: "checkpoint list"

definition new_file_manager :: wal_manager where
  "new_file_manager = \<lparr>wm_cfg = \<lparr>max_segment_size = 0, sync_mode = [], batch_size_bytes = 0\<rparr>, wm_writer = None,
     wm_checkpoints = []\<rparr>"

definition wm_open :: "wal_config \<Rightarrow> disk \<Rightarrow> wal_manager \<Rightarrow> go_error option \<times> disk \<times> wal_manager" where
  "wm_open cfg disk m =
     (case wal_open cfg disk new_file_writer of
        (disk', w) \<Rightarrow>
          let m1 = m\<lparr>wm_cfg := cfg, wm_writer := Some w\<rparr>; segments = list_wal_segments disk'
          in if length segments = 0 then (None, disk', m1)
             else case read_wal_header_checkpoint (file_of disk' (snd (last segments))) of
               Inl e \<Rightarrow> (Some e, disk', m1)
             | Inr checkpointLSN \<Rightarrow>
                 if checkpointLSN > 0
                 then (None, disk', m1\<lparr>wm_checkpoints := [make_checkpoint checkpointLSN 0],
                        wm_writer := Some (w\<lparr>wr_checkpoint := Some (make_checkpoint checkpointLSN 0)\<rparr>)\<rparr>)
                 else (None, disk', m1))"

definition wm_reader :: "disk \<Rightarrow> wal_manager \<Rightarrow> wal_reader result" where
  "wm_reader disk m =
     (let startLSN = (if length (wm_checkpoints m) > 0 then cp_lsn (last (wm_checkpoints m)) else 0)
      in case reader_open disk startLSN new_file_reader of
           (Some e, _) \<Rightarrow> Inl e
         | (None, r) \<Rightarrow> Inr r)"

definition wm_last_checkpoint :: "wal_manager \<Rightarrow> checkpoint result" where
  "wm_last_checkpoint m =
     (if length (wm_checkpoints m) = 0 then Inl (Err ''no checkpoints'') else Inr (last (wm_checkpoints m)))"

definition is_active :: "wal_manager \<Rightarrow> u32 \<Rightarrow> bool" where
  "is_active m sid \<longleftrightarrow> (case wm_writer m of None \<Rightarrow> False | Some w \<Rightarrow> sid = wr_segment_id w)"

fun delete_before_loop :: "wal_manager \<Rightarrow> u64 \<Rightarrow> (u32 \<times> bytes) list \<Rightarrow> disk \<Rightarrow> go_error option \<times> disk" where
  "delete_before_loop m beforeLSN [] disk = (None, disk)"
| "delete_before_loop m beforeLSN ((sid, path) # segs) disk =
     (if is_active m sid then delete_before_loop m beforeLSN segs disk
      else case scan_segment_for_last_entry (file_of disk path) of
        (Some e, _) \<Rightarrow> (Some e, disk)
      | (None, lastLSN, _) \<Rightarrow>
          if lastLSN \<ge> beforeLSN then delete_before_loop m beforeLSN segs disk
          else delete_before_loop m beforeLSN segs (AList.delete path disk))"

definition delete_segments_before :: "u64 \<Rightarrow> disk \<Rightarrow> wal_manager \<Rightarrow> go_error option \<times> disk" where
  "delete_segments_before beforeLSN disk m = delete_before_loop m beforeLSN (list_wal_segments disk) disk"

definition cleanup_segments :: "int \<Rightarrow> disk \<Rightarrow> wal_manager \<Rightarrow> disk" where
  "cleanup_segments keep disk m =
     (if keep \<le> 0 then disk
      else let old = filter (\<lambda>(sid, path). \<not> is_active m sid) (list_wal_segments disk)
        in if int (length old) \<le> keep then disk
           else fold (\<lambda>(sid, path). AList.delete path) (take (length old - nat keep) old) disk)"

record wal_stats =
  ws_current_lsn :: u64
  ws_checkpoint_count :: nat
  ws_total_size :: u64
  ws_first_lsn :: u64
  ws_last_checkpoint :: u64

fun stats_loop :: "disk \<Rightarrow> (u32 \<times> bytes) list \<Rightarrow> u64 \<Rightarrow> u64 \<Rightarrow> u64 \<Rightarrow> (u64 \<times> u64 \<times> u64) result" where
  "stats_loop disk [] totalSize firstLSN lastLSN = Inr (totalSize, firstLSN, lastLSN)"
| "stats_loop disk ((sid, path) # segs) totalSize firstLSN lastLSN =
     (case scan_segment_for_first_last_lsn (file_of disk path) of
        (Some e, _) \<Rightarrow> Inl e
      | (None, segFirst, segLast) \<Rightarrow>
          stats_loop disk segs (totalSize + word_of_nat (length (file_of disk path)))
            (if firstLSN = 0 \<and> segFirst \<noteq> 0 then segFirst else firstLSN) (if segLast > lastLSN then segLast else lastLSN))"

definition wm_stats :: "disk \<Rightarrow> wal_manager \<Rightarrow> wal_stats result" where
  "wm_stats disk m =
     (case stats_loop disk (list_wal_segments disk) 0 0 0 of
        Inl e \<Rightarrow> Inl e
      | Inr (totalSize, firstLSN, lastLSN) \<Rightarrow>
          Inr \<lparr>ws_current_lsn = lastLSN, ws_checkpoint_count = length (wm_checkpoints m), ws_total_size = totalSize,
               ws_first_lsn = firstLSN,
               ws_last_checkpoint = (if length (wm_checkpoints m) > 0 then cp_lsn (last (wm_checkpoints m)) else 0)\<rparr>)"

definition wm_close :: "disk \<Rightarrow> wal_manager \<Rightarrow> go_error option \<times> disk \<times> wal_manager" where
  "wm_close disk m =
     (case wm_writer m of
        None \<Rightarrow> (None, disk, m)
      | Some w \<Rightarrow>
          case wal_close disk w of
            (Some e, disk', w') \<Rightarrow> (Some e, disk', m\<lparr>wm_writer := Some w'\<rparr>)
          | (None, disk', w') \<Rightarrow> (None, disk', m\<lparr>wm_writer := None\<rparr>))"

fun scan_all_loop :: "disk \<Rightarrow> (u32 \<times> bytes) list \<Rightarrow> checkpoint list \<Rightarrow> checkpoint list result" where
  "scan_all_loop disk [] cps = Inr cps"
| "scan_all_loop disk ((sid, path) # segs) cps =
     (case scan_segment_checkpoints (file_of disk path) of
        Inl e \<Rightarrow> Inl e
      | Inr cs \<Rightarrow> scan_all_loop disk segs (cps @ cs))"

definition scan_all_checkpoints :: "disk \<Rightarrow> checkpoint list result" where
  "scan_all_checkpoints disk = scan_all_loop disk (list_wal_segments disk) []"

definition replay_from_manager ::
  "nat \<Rightarrow> disk \<Rightarrow> wal_manager \<Rightarrow> 's replayer \<Rightarrow> bool \<Rightarrow> 's \<Rightarrow> (replay_stats option \<times> go_error option \<times> 's) option" where
  "replay_from_manager n disk m rp stop s =
     (case wm_reader disk m of
        Inl x \<Rightarrow> Some (None, Some (wrap_error ''get reader from manager'' x), s)
      | Inr r \<Rightarrow> map_option (\<lambda>(st, x, s'). (Some st, x, s')) (replay_loop n disk rp stop r empty_stats s))"

section \<open>The validator\<close>

datatype validation_message =
  Bad_Magic | Bad_Version | Incomplete_Header | Data_Length | Beyond_File | Checksum_Mismatch

record validation_error =
  ve_lsn :: u64
  ve_offset :: nat
  ve_message :: validation_message

record validation_result =
  vr_size :: nat
  vr_total :: nat
  vr_valid :: nat
  vr_invalid :: nat
  vr_errors :: "validation_error list"
  vr_first_error :: u64
  vr_last_ok :: u64
  vr_header :: bool
  vr_checkpoint :: u64

definition add_error :: "u64 \<Rightarrow> nat \<Rightarrow> validation_message \<Rightarrow> validation_result \<Rightarrow> validation_result" where
  "add_error lsn off msg v = v\<lparr>vr_errors := vr_errors v @ [\<lparr>ve_lsn = lsn, ve_offset = off, ve_message = msg\<rparr>]\<rparr>"

definition add_invalid :: "u64 \<Rightarrow> nat \<Rightarrow> validation_message \<Rightarrow> validation_result \<Rightarrow> validation_result" where
  "add_invalid lsn off msg v =
     add_error lsn off msg (v\<lparr>vr_invalid := vr_invalid v + 1, vr_first_error := lsn\<rparr>)"

text \<open>
  The loop over the entries. \<open>off\<close> is both the running offset and the position of the file; reading at
  or behind the end of the file gives \<open>io.EOF\<close>, and seeking may go behind it.
\<close>

function validate_loop :: "bytes \<Rightarrow> nat \<Rightarrow> validation_result \<Rightarrow> validation_result" where
  "validate_loop file off v =
     (if off \<ge> length file then v
      else let h = take 21 (drop off file) in
        if length h < 21 then add_error 0 off Incomplete_Header v
        else let lsn = get_u64 (drop 1 h); dataLen = unat (get_u32 (drop 17 h));
                 v1 = v\<lparr>vr_total := vr_total v + 1\<rparr>; nxt = off + 21 + dataLen + 8 in
          if dataLen > wal_max_record_size
          then validate_loop file nxt (add_invalid lsn off Data_Length v1)
          else if nxt > length file then add_invalid lsn off Beyond_File v1
          else let d = gslice file (off + 21) nxt; stored = get_u64 (drop dataLen d) in
            if crc64 (h @ take dataLen d) \<noteq> stored
            then validate_loop file nxt (add_invalid lsn off Checksum_Mismatch v1)
            else validate_loop file nxt (v1\<lparr>vr_valid := vr_valid v1 + 1, vr_last_ok := lsn\<rparr>))"
  by pat_completeness auto
termination
  by (relation "measure (\<lambda>(file, off, v). length file - off)") auto

declare validate_loop.simps [simp del]

definition validate_wal_file :: "bytes \<Rightarrow> validation_result result" where
  "validate_wal_file file =
     (let v = \<lparr>vr_size = length file, vr_total = 0, vr_valid = 0, vr_invalid = 0, vr_errors = [], vr_first_error = 0,
               vr_last_ok = 0, vr_header = False, vr_checkpoint = 0\<rparr> in
      if length file = 0 then Inl (Wrap ''failed to read WAL header'' EOF)
      else let h = take 24 (file @ replicate 24 0) in
        if get_u32 h \<noteq> wal_magic then Inr (add_error 0 0 Bad_Magic v)
        else if get_u64 (drop 4 h) \<noteq> wal_version then Inr (add_error 0 4 Bad_Version v)
        else Inr (validate_loop file wal_header_size (v\<lparr>vr_checkpoint := get_u64 (drop 12 h), vr_header := True\<rparr>)))"

definition validate_wal_directory :: "disk \<Rightarrow> (bytes \<times> validation_result) list" where
  "validate_wal_directory disk =
     concat (map (\<lambda>name. if suffix (lit ''.log'') name
       then (case validate_wal_file (file_of disk name) of Inl _ \<Rightarrow> [] | Inr v \<Rightarrow> [(name, v)]) else [])
       (sort (map fst disk)))"

section \<open>Removing files\<close>

definition remove_ids :: "u32 list \<Rightarrow> disk \<Rightarrow> disk" where
  "remove_ids ids disk = fold (\<lambda>i. AList.delete (wal_segment_path i)) ids disk"

lemma remove_ids_filter: "remove_ids ids disk = filter (\<lambda>p. fst p \<notin> wal_segment_path ` set ids) disk"
  by (induction ids arbitrary: disk) (auto simp: remove_ids_def AList.delete_eq intro!: filter_cong)

lemma map_of_filter_keys: "map_of (filter (\<lambda>p. fst p \<notin> S) al) k = (if k \<in> S then None else map_of al k)"
  by (induction al) auto

lemma remove_ids_view:
  "map_of (remove_ids ids disk) p = (if p \<in> wal_segment_path ` set ids then None else map_of disk p) \<and>
   fst ` set (remove_ids ids disk) = fst ` set disk - wal_segment_path ` set ids \<and>
   (distinct (map fst disk) \<longrightarrow> distinct (map fst (remove_ids ids disk)))"
  unfolding remove_ids_filter by (auto simp: map_of_filter_keys distinct_map_filter)

lemma remove_ids_facts:
  shows "seg_ids (remove_ids ids disk) = seg_ids disk - set ids"
    and "file_of (remove_ids ids disk) (wal_segment_path i) = (if i \<in> set ids then [] else file_of disk (wal_segment_path i))"
    and "names_ok disk \<Longrightarrow> names_ok (remove_ids ids disk)"
  using remove_ids_view [of ids disk] by (auto simp: seg_ids_def file_of_def names_ok_def)

lemma remove_ids_ok:
  assumes "disk_ok disk"
  shows "disk_ok (remove_ids ids disk)"
    and "disk_log (remove_ids ids disk) = concat (map (\<lambda>i. file_log (file_of disk (wal_segment_path i)))
      (filter (\<lambda>i. i \<notin> set ids) (sorted_list_of_set (seg_ids disk))))"
proof -
  have n: "names_ok (remove_ids ids disk)" using assms remove_ids_facts(3) by (simp add: disk_ok_def)
  show "disk_ok (remove_ids ids disk)" using assms n by (simp add: disk_ok_def remove_ids_facts)
  have "sorted_list_of_set (seg_ids disk - set ids) = filter (\<lambda>i. i \<notin> set ids) (sorted_list_of_set (seg_ids disk))"
    by (rule sorted_distinct_set_unique) (auto simp: sorted_wrt_filter)
  then show "disk_log (remove_ids ids disk) = concat (map (\<lambda>i. file_log (file_of disk (wal_segment_path i)))
      (filter (\<lambda>i. i \<notin> set ids) (sorted_list_of_set (seg_ids disk))))"
    unfolding disk_log_eq [OF n] remove_ids_facts(1)
    by (auto simp: remove_ids_facts(2) intro!: arg_cong [of _ _ concat])
qed

lemma remove_ids_inv:
  assumes "wal_inv disk w" "wr_segment_id w \<notin> set ids"
  shows "wal_inv (remove_ids ids disk) w"
  using assms remove_ids_ok(1) by (auto simp: wal_inv_def remove_ids_facts)

definition deletable :: "wal_manager \<Rightarrow> u64 \<Rightarrow> disk \<Rightarrow> u32 \<Rightarrow> bool" where
  "deletable m b disk i \<longleftrightarrow> \<not> is_active m i \<and> last_lsn 0 (file_log (file_of disk (wal_segment_path i))) < b"

lemma delete_before_loop_eq:
  assumes "distinct ids" "\<forall>i \<in> set ids. file_ok (file_of disk (wal_segment_path i))"
  shows "delete_before_loop m b (map (\<lambda>i. (i, wal_segment_path i)) ids) disk =
    (None, remove_ids (filter (deletable m b disk) ids) disk)"
  using assms
proof (induction ids arbitrary: disk)
  case (Cons i ids)
  let ?f = "file_of disk (wal_segment_path i)"
  obtain cp c where sc: "scan_segment_for_last_entry ?f = (None, last_lsn 0 (file_log ?f), c)"
    using file_ok_scan [of ?f] Cons.prems(2) by auto
  show ?case
  proof (cases "deletable m b disk i")
    case True
    let ?d = "AList.delete (wal_segment_path i) disk"
    have d: "?d = remove_ids [i] disk" by (simp add: remove_ids_def)
    have same: "file_of ?d (wal_segment_path j) = file_of disk (wal_segment_path j)" if "j \<in> set ids" for j
      using that Cons.prems(1) unfolding d by (auto simp: remove_ids_facts)
    have "filter (deletable m b ?d) ids = filter (deletable m b disk) ids"
      by (rule filter_cong) (auto simp: deletable_def same)
    moreover have "delete_before_loop m b (map (\<lambda>i. (i, wal_segment_path i)) ids) ?d = (None, remove_ids (filter (deletable m b ?d) ids) ?d)"
      using Cons.IH [of ?d] Cons.prems by (auto simp: same)
    moreover have "\<not> is_active m i" "\<not> b \<le> last_lsn 0 (file_log ?f)" using True by (auto simp: deletable_def)
    ultimately show ?thesis using True sc by (simp add: remove_ids_def)
  next
    case False
    then have "is_active m i \<or> b \<le> last_lsn 0 (file_log ?f)" by (auto simp: deletable_def)
    then show ?thesis using False sc Cons by (auto simp: remove_ids_def)
  qed
qed (simp add: remove_ids_def)

lemma cleanup_segments_eq:
  assumes "names_ok disk"
  shows "cleanup_segments keep disk m =
    remove_ids (if keep \<le> 0 then [] else
      (let old = filter (\<lambda>i. \<not> is_active m i) (sorted_list_of_set (seg_ids disk)) in take (length old - nat keep) old)) disk"
proof -
  let ?old = "filter (\<lambda>i. \<not> is_active m i) (sorted_list_of_set (seg_ids disk))"
  have old: "filter (\<lambda>(sid, path). \<not> is_active m sid) (list_wal_segments disk) = map (\<lambda>i. (i, wal_segment_path i)) ?old"
    by (simp add: list_wal_segments_eq [OF assms] filter_map comp_def)
  show ?thesis
    by (auto simp: cleanup_segments_def old Let_def remove_ids_def take_map fold_map comp_def)
qed

lemma sorted_wrt_less_last:
  fixes l :: "'a :: linorder list"
  assumes "sorted_wrt (<) l" "x \<in> set l"
  shows "x \<le> last l"
  using assms by (induction l) (auto intro: less_imp_le)

section \<open>Properties\<close>

text \<open>
  C25: Removing old log files. On a well-formed log whose LSNs increase, deleting the files before an
  LSN succeeds, keeps the writer's state well formed, and loses no entry with that LSN or a later
  one: of these, the log holds the same afterwards, in the same order.
\<close>

theorem delete_before_keeps:
  assumes "wal_inv disk w" "wm_writer m = Some w" "sorted_wrt (<) (map en_lsn (disk_log disk))"
    "delete_segments_before b disk m = (x, disk')"
  shows "x = None \<and> wal_inv disk' w \<and> filter (\<lambda>e. b \<le> en_lsn e) (disk_log disk') = filter (\<lambda>e. b \<le> en_lsn e) (disk_log disk)"
proof -
  let ?ids = "sorted_list_of_set (seg_ids disk)" and ?log = "\<lambda>i. file_log (file_of disk (wal_segment_path i))"
  have d: "disk_ok disk" "names_ok disk" using assms(1) by (auto simp: wal_inv_def disk_ok_def)
  have "delete_before_loop m b (map (\<lambda>i. (i, wal_segment_path i)) ?ids) disk = (None, remove_ids (filter (deletable m b disk) ?ids) disk)"
    by (rule delete_before_loop_eq) (use d(1) in \<open>auto simp: disk_ok_def\<close>)
  then have x: "x = None" "disk' = remove_ids (filter (deletable m b disk) ?ids) disk"
    using assms(4) by (simp_all add: delete_segments_before_def list_wal_segments_eq [OF d(2)])
  have "\<not> deletable m b disk (wr_segment_id w)" using assms(2) by (simp add: deletable_def is_active_def)
  then have inv: "wal_inv disk' w" unfolding x(2) by (intro remove_ids_inv [OF assms(1)]) simp
  have gone: "filter (\<lambda>e. b \<le> en_lsn e) (?log i) = []" if del: "deletable m b disk i" and i: "i \<in> seg_ids disk" for i
  proof (cases "?log i = []")
    case False
    obtain xs ys where "?ids = xs @ i # ys" using i by (metis finite_seg_ids set_sorted_list_of_set split_list)
    then have "disk_log disk = concat (map ?log xs) @ ?log i @ concat (map ?log ys)" by (simp add: disk_log_eq [OF d(2)])
    then have "sorted_wrt (<) (map en_lsn (?log i))" using assms(3) by (simp add: sorted_wrt_append)
    then have "en_lsn e \<le> en_lsn (last (?log i))" if "e \<in> set (?log i)" for e
      using sorted_wrt_less_last [of "map en_lsn (?log i)" "en_lsn e"] that False by (simp add: last_map)
    moreover have "en_lsn (last (?log i)) < b" using del False by (simp add: deletable_def last_lsn_def)
    ultimately show ?thesis by (auto simp: filter_empty_conv dest: leD order.strict_trans1)
  qed simp
  have "filter (\<lambda>e. b \<le> en_lsn e) (concat (map ?log (filter (\<lambda>i. \<not> deletable m b disk i) is))) =
      filter (\<lambda>e. b \<le> en_lsn e) (concat (map ?log is))" if "set is \<subseteq> seg_ids disk" for "is"
    using that by (induction "is") (auto simp: gone)
  moreover have "filter (\<lambda>i. i \<notin> set (filter (deletable m b disk) ?ids)) ?ids = filter (\<lambda>i. \<not> deletable m b disk i) ?ids"
    by (rule filter_cong) auto
  ultimately have "filter (\<lambda>e. b \<le> en_lsn e) (disk_log disk') = filter (\<lambda>e. b \<le> en_lsn e) (disk_log disk)"
    unfolding x(2) remove_ids_ok(2) [OF d(1)] disk_log_eq [OF d(2)] by simp
  then show ?thesis using x(1) inv by blast
qed

text \<open>
  Retention by count removes the oldest files only. Whatever the limit, the log on disk afterwards
  is an end piece of the log before, and the writer's state stays well formed.
\<close>

theorem cleanup_keeps_newest:
  assumes "wal_inv disk w" "wm_writer m = Some w"
  shows "wal_inv (cleanup_segments keep disk m) w \<and> suffix (disk_log (cleanup_segments keep disk m)) (disk_log disk)"
proof -
  let ?a = "wr_segment_id w" and ?log = "\<lambda>i. file_log (file_of disk (wal_segment_path i))"
  have d: "disk_ok disk" "names_ok disk" "?a \<in> seg_ids disk" "\<forall>i \<in> seg_ids disk. i \<le> ?a"
    using assms(1) by (auto simp: wal_inv_def disk_ok_def)
  define old where "old = sorted_list_of_set (seg_ids disk - {?a})"
  have ids: "sorted_list_of_set (seg_ids disk) = old @ [?a]" using sorted_list_split_max [OF finite_seg_ids d(3,4)] by (simp add: old_def)
  have act: "is_active m i \<longleftrightarrow> i = ?a" for i using assms(2) by (simp add: is_active_def)
  have na: "?a \<notin> set old" "distinct old" by (simp_all add: old_def)
  have fe: "filter (\<lambda>i. \<not> is_active m i) (sorted_list_of_set (seg_ids disk)) = old"
    using na(1) unfolding ids by (auto simp: act filter_id_conv)
  define n where "n = (if keep \<le> 0 then 0 else length old - nat keep)"
  have c: "cleanup_segments keep disk m = remove_ids (take n old) disk"
    unfolding cleanup_segments_eq [OF d(2)] fe Let_def by (simp add: n_def)
  have inv: "wal_inv (remove_ids (take n old) disk) w"
    using remove_ids_inv [OF assms(1)] na(1) in_set_takeD by metis
  have drop: "filter (\<lambda>i. i \<notin> set (take n old)) old = drop n old"
  proof -
    have "filter (\<lambda>i. i \<notin> set (take n old)) (take n old) = []" by (simp add: filter_empty_conv)
    moreover have "filter (\<lambda>i. i \<notin> set (take n old)) (drop n old) = drop n old"
      using set_take_disj_set_drop_if_distinct [OF na(2), of n n] by (auto simp: filter_id_conv)
    ultimately show ?thesis by (metis append_Nil append_take_drop_id filter_append)
  qed
  have "disk_log (remove_ids (take n old) disk) = concat (map ?log (drop n old @ [?a]))"
    using na(1) in_set_takeD [of ?a n old] unfolding remove_ids_ok(2) [OF d(1)] ids by (auto simp: drop)
  moreover have "disk_log disk = concat (map ?log (take n old)) @ concat (map ?log (drop n old @ [?a]))"
    unfolding disk_log_eq [OF d(2)] ids by (metis append_assoc append_take_drop_id concat_append map_append)
  ultimately show ?thesis using inv unfolding c by (auto simp: suffix_def)
qed

lemma validate_loop_entry:
  assumes "entry_ok e" "29 + length (en_data e) \<le> wal_max_record_size"
  shows "validate_loop (pre @ serialize_entry e @ post) (length pre) v =
    validate_loop ((pre @ serialize_entry e) @ post) (length (pre @ serialize_entry e))
      (v\<lparr>vr_total := vr_total v + 1, vr_valid := vr_valid v + 1, vr_last_ok := en_lsn e\<rparr>)"
proof -
  let ?f = "pre @ serialize_entry e @ post" and ?n = "length (en_data e)" and ?c = "put_u64 (crc64 (entry_body e)) @ post"
  have len: "length (en_data e) < 2 ^ 32" using assms(1) by (simp add: entry_ok_def)
  have s: "drop (length pre) ?f = entry_body e @ ?c" by (simp add: serialize_entry_def)
  let ?h = "take 21 (entry_body e)"
  have h: "take 21 (drop (length pre) ?f) = ?h" unfolding s by (simp add: length_entry_body)
  have hl: "length ?h = 21" by (simp add: length_entry_body)
  have bx: "?h @ drop 21 (entry_body e) = entry_body e" by simp
  have eb: "?h @ (drop 21 (entry_body e) @ put_u64 (crc64 (entry_body e))) = serialize_entry e @ []" by (simp add: serialize_entry_def)
  have f: "get_u64 (drop 1 ?h) = en_lsn e" "unat (get_u32 (drop 17 ?h)) = ?n"
    using prefix_fields(2,4) [OF _ eb assms(1)] hl by simp_all
  have "gslice ?f (length pre + 21) (length pre + 21 + ?n + 8) = take (?n + 8) (drop 21 (entry_body e @ ?c))"
    unfolding gslice_def s [symmetric] by (simp add: add.commute)
  also have "\<dots> = en_data e @ put_u64 (crc64 (entry_body e))" unfolding entry_body_fields(5) [OF len] by simp
  finally have d: "gslice ?f (length pre + 21) (length pre + 21 + ?n + 8) = en_data e @ put_u64 (crc64 (entry_body e))" .
  have "drop 21 (entry_body e) = en_data e" using entry_body_fields(5) [OF len, of "[]"] by simp
  then have body: "?h @ en_data e = entry_body e" using bx by simp
  have fl: "length ?f = length pre + 29 + ?n + length post" by (simp add: length_serialize_entry)
  show ?thesis
    using assms(2) by (subst validate_loop.simps) (simp only: h Let_def f d hl, simp add: body length_serialize_entry add.commute add.left_commute)
qed

lemma validate_loop_written:
  assumes "\<forall>e \<in> set es. entry_ok e \<and> 29 + length (en_data e) \<le> wal_max_record_size"
  shows "validate_loop (pre @ concat (map serialize_entry es) @ post) (length pre) v =
    validate_loop (pre @ concat (map serialize_entry es) @ post) (length (pre @ concat (map serialize_entry es)))
      (v\<lparr>vr_total := vr_total v + length es, vr_valid := vr_valid v + length es, vr_last_ok := last_lsn (vr_last_ok v) es\<rparr>)"
  using assms
proof (induction es arbitrary: pre v)
  case Nil
  then show ?case by (simp add: last_lsn_def)
next
  case (Cons e es)
  have "validate_loop (pre @ concat (map serialize_entry (e # es)) @ post) (length pre) v =
      validate_loop ((pre @ serialize_entry e) @ concat (map serialize_entry es) @ post) (length (pre @ serialize_entry e))
      (v\<lparr>vr_total := vr_total v + 1, vr_valid := vr_valid v + 1, vr_last_ok := en_lsn e\<rparr>)"
    using validate_loop_entry [of e pre "concat (map serialize_entry es) @ post" v] Cons.prems by simp
  then show ?case using Cons.IH [of "pre @ serialize_entry e"] Cons.prems by (simp add: last_lsn_Cons)
qed

definition empty_validation :: "bytes \<Rightarrow> validation_result" where
  "empty_validation file = \<lparr>vr_size = length file, vr_total = 0, vr_valid = 0, vr_invalid = 0, vr_errors = [],
     vr_first_error = 0, vr_last_ok = 0, vr_header = False, vr_checkpoint = 0\<rparr>"

lemma validate_wal_file_header:
  "validate_wal_file (wal_header cp @ bs) =
     Inr (validate_loop (wal_header cp @ bs) 24 ((empty_validation (wal_header cp @ bs))\<lparr>vr_checkpoint := cp, vr_header := True\<rparr>))"
proof -
  have h: "take 24 (wal_header cp @ bs @ replicate 24 0) = wal_header cp" by simp
  show ?thesis
    unfolding validate_wal_file_def Let_def append_assoc h
    by (simp add: wal_header_size_def empty_validation_def) (simp add: wal_header_def)
qed

text \<open>
  The validator accepts every log file the writer produces: all entries are counted as valid, none
  as invalid, no error is reported, and the last LSN and the checkpoint of the header are returned.
\<close>

theorem validate_written:
  assumes "\<forall>e \<in> set es. entry_ok e \<and> 29 + length (en_data e) \<le> wal_max_record_size"
  shows "validate_wal_file (wal_header cp @ concat (map serialize_entry es)) =
    Inr \<lparr>vr_size = 24 + length (concat (map serialize_entry es)), vr_total = length es, vr_valid = length es, vr_invalid = 0,
         vr_errors = [], vr_first_error = 0, vr_last_ok = last_lsn 0 es, vr_header = True, vr_checkpoint = cp\<rparr>"
  using validate_loop_written [OF assms, of "wal_header cp" "[]"]
  by (simp add: validate_wal_file_header empty_validation_def)
    (simp add: validate_loop.simps [of _ "24 + length (concat (map serialize_entry es))"])

text \<open>One round of the validator at an entry with an altered byte.\<close>

lemma validate_loop_damaged:
  assumes "entry_ok e" "29 + length (en_data e) \<le> wal_max_record_size" "21 \<le> k" "k < length (serialize_entry e)"
    "b \<noteq> serialize_entry e ! k"
  shows "validate_loop (pre @ (serialize_entry e)[k := b] @ post) (length pre) v =
    validate_loop ((pre @ (serialize_entry e)[k := b]) @ post) (length (pre @ (serialize_entry e)[k := b]))
      (add_invalid (en_lsn e) (length pre) Checksum_Mismatch (v\<lparr>vr_total := vr_total v + 1\<rparr>))"
proof -
  let ?s = "(serialize_entry e)[k := b]" and ?n = "length (en_data e)"
  have sl: "length ?s = 29 + ?n" by (simp add: length_serialize_entry)
  have bad: "scan_entry (?s @ post) = Scan_Bad" using scan_altered [OF assms(1,4) _ assms(5)] assms(3) by simp
  have t21: "take 21 ?s = take 21 (serialize_entry e)" using assms(3) by simp
  let ?h = "take 21 ?s"
  have eb: "take 21 (serialize_entry e) @ drop 21 (serialize_entry e) = serialize_entry e @ []" by simp
  have f: "get_u64 (drop 1 ?h) = en_lsn e" "unat (get_u32 (drop 17 ?h)) = ?n"
    using prefix_fields(2,4) [OF _ eb assms(1)] unfolding t21 by (simp_all add: length_serialize_entry)
  have h: "take 21 (drop (length pre) (pre @ ?s @ post)) = ?h" by (simp add: length_serialize_entry)
  have hl: "length ?h = 21" by (simp add: length_serialize_entry)
  have d: "gslice (pre @ ?s @ post) (length pre + 21) (length pre + 21 + ?n + 8) = drop 21 ?s"
    by (simp add: gslice_def length_serialize_entry)
  have u: "unat (get_u32 (drop 17 (?s @ post))) = ?n"
  proof -
    have "take 4 (drop 17 (?s @ post)) = take 4 (drop 17 ?h)" by (simp add: length_serialize_entry drop_take)
    then show ?thesis using f(2) by (simp add: get_u32_def)
  qed
  have "crc64 (take (21 + ?n) (?s @ post)) \<noteq> get_u64 (drop (21 + ?n) (?s @ post))"
    using bad u by (simp add: scan_entry_def Let_def sl split: if_splits)
  moreover have "take (21 + ?n) (?s @ post) = ?h @ take ?n (drop 21 ?s)"
    by (simp add: sl take_add length_serialize_entry)
  moreover have "get_u64 (drop (21 + ?n) (?s @ post)) = get_u64 (drop ?n (drop 21 ?s))"
    by (simp add: get_u64_def sl add.commute length_serialize_entry)
  ultimately have crc: "crc64 (?h @ take ?n (drop 21 ?s)) \<noteq> get_u64 (drop ?n (drop 21 ?s))" by metis
  show ?thesis
    using assms(2) crc by (subst validate_loop.simps) (simp only: h Let_def f d hl, simp add: length_serialize_entry add.commute add.left_commute)
qed

text \<open>
  \<open>FirstErrorAtLSN\<close> of the validator is not the first error: on a file with two damaged entries it
  holds the LSN of the second.
\<close>

theorem validate_first_error_overwritten:
  assumes "entry_ok e1" "entry_ok e2" "29 + length (en_data e1) \<le> wal_max_record_size" "29 + length (en_data e2) \<le> wal_max_record_size"
    "21 \<le> k" "k < length (serialize_entry e1)" "b \<noteq> serialize_entry e1 ! k"
    "21 \<le> j" "j < length (serialize_entry e2)" "c \<noteq> serialize_entry e2 ! j"
  shows "\<exists>v. validate_wal_file (wal_header cp @ (serialize_entry e1)[k := b] @ (serialize_entry e2)[j := c]) = Inr v \<and>
    vr_invalid v = 2 \<and> map ve_lsn (vr_errors v) = [en_lsn e1, en_lsn e2] \<and> vr_first_error v = en_lsn e2"
proof -
  let ?s1 = "(serialize_entry e1)[k := b]" and ?s2 = "(serialize_entry e2)[j := c]"
  let ?v = "(empty_validation (wal_header cp @ ?s1 @ ?s2))\<lparr>vr_checkpoint := cp, vr_header := True\<rparr>"
  note d1 = validate_loop_damaged [OF assms(1,3,5,6,7), of "wal_header cp" ?s2 ?v]
  note d2 = validate_loop_damaged [OF assms(2,4,8,9,10), of "wal_header cp @ ?s1" "[]"]
  show ?thesis
    using d1 d2 by (simp add: validate_wal_file_header)
      (simp add: validate_loop.simps add_invalid_def add_error_def empty_validation_def)
qed

section \<open>Instances\<close>

definition demo_manager :: wal_manager where
  "demo_manager = new_file_manager\<lparr>wm_writer := Some demo_writer\<rparr>"

theorem delete_before_keeps_witness:
  "\<exists>disk'. delete_segments_before 5 demo_disk demo_manager = (None, disk') \<and> wal_inv disk' demo_writer \<and>
    filter (\<lambda>e. 5 \<le> en_lsn e) (disk_log disk') = []"
proof -
  obtain x disk' where r: "delete_segments_before 5 demo_disk demo_manager = (x, disk')" by fastforce
  have "wm_writer demo_manager = Some demo_writer" "sorted_wrt (<) (map en_lsn (disk_log demo_disk))"
    by (simp_all add: demo_manager_def demo_log)
  moreover have "\<not> (5 :: u64) \<le> 1" by (simp add: word_le_nat_alt)
  ultimately show ?thesis using delete_before_keeps [OF demo_inv _ _ r] r by (simp add: demo_log)
qed

theorem cleanup_keeps_newest_witness:
  "wal_inv (cleanup_segments 1 demo_disk demo_manager) demo_writer \<and> suffix (disk_log (cleanup_segments 1 demo_disk demo_manager)) [demo_entry 1 1]"
  using cleanup_keeps_newest [OF demo_inv, of demo_manager 1] by (simp add: demo_log demo_manager_def)

theorem validate_written_witness:
  "\<exists>v. validate_wal_file (wal_header 3 @ concat (map serialize_entry [demo_entry 1 1, demo_entry 2 2])) = Inr v \<and> vr_valid v = 2 \<and> vr_last_ok v = 2"
proof -
  have "length (en_data (demo_entry ty l)) = 3" for ty l using demo_entry_simps(4) [of ty l] by (simp add: length_serialize_entry)
  then show ?thesis using validate_written [of "[demo_entry 1 1, demo_entry 2 2]" 3]
    by (simp add: wal_max_record_size_def last_lsn_def)
qed

theorem validate_first_error_overwritten_witness:
  "\<exists>v. validate_wal_file (wal_header 0 @ (serialize_entry (demo_entry 1 1))[22 := serialize_entry (demo_entry 1 1) ! 22 + 1]
      @ (serialize_entry (demo_entry 1 2))[22 := serialize_entry (demo_entry 1 2) ! 22 + 1]) = Inr v \<and>
    vr_invalid v = 2 \<and> map ve_lsn (vr_errors v) = [1, 2] \<and> vr_first_error v = 2"
proof -
  have "length (en_data (demo_entry ty l)) = 3" for ty l using demo_entry_simps(4) [of ty l] by (simp add: length_serialize_entry)
  then show ?thesis
    using validate_first_error_overwritten [of "demo_entry 1 1" "demo_entry 1 2" 22 "serialize_entry (demo_entry 1 1) ! 22 + 1"
      22 "serialize_entry (demo_entry 1 2) ! 22 + 1" 0]
    by (simp add: wal_max_record_size_def)
qed

end
