(* ===== verification/Store_Facade.thy ===== *)
theory Store_Facade
  imports Index_Manager Event_Store Wal_Manager
begin

text \<open>
  The event store that clients see, \<open>src/eventstore/eventstore_impl.go\<close>: it composes the log, the segments and the four indexes. Modelled here are
  \<open>WriteEvent\<close>, \<open>WriteEvents\<close>, \<open>GetEvent\<close>, \<open>DeleteEvent\<close>, \<open>DeleteEvents\<close>, \<open>Flush\<close>, the known kinds and the checkpoints, with every early return; the context is
  one value for a call, and one clock reading serves a call. Metadata on contexts and log messages are left out, as is the check for
  drifting counts, which only logs. Operations run one at a time.

  The indexes are values of the \<open>Index\<close> interface, as in \<open>Index_Manager\<close>. What holds of the store is proved once for every primary index that is a map,
  and so for the in-memory and the persistent one.
\<close>

section \<open>State\<close>

record 'x nostr_store =
  ns_opened :: bool
  ns_recovering :: bool
  ns_storage :: event_store
  ns_wal :: "(disk \<times> wal_manager) option"
  ns_indexes :: "'x index_mgr"
  ns_known_kinds :: "u16 list"
  ns_checkpoint_every :: int
  ns_checkpoint_count :: int
  ns_last_checkpoint :: u64
  ns_max_retained :: int
  ns_write_batch_size :: int
  ns_cfg_page_size :: u32
  ns_cfg_max_segment :: u64

definition add_kind_if_new :: "u16 \<Rightarrow> 'x nostr_store \<Rightarrow> 'x nostr_store" where
  "add_kind_if_new k s = (if k \<in> set (ns_known_kinds s) then s else s\<lparr>ns_known_kinds := sort (k # ns_known_kinds s)\<rparr>)"

section \<open>The log\<close>

definition log_entry :: "byte \<Rightarrow> bytes \<Rightarrow> wal_entry" where
  "log_entry ty data = \<lparr>en_type = ty, en_lsn = 0, en_timestamp = 0, en_data = data, en_checksum = 0\<rparr>"

definition log_write :: "u64 \<Rightarrow> wal_entry \<Rightarrow> 'x nostr_store \<Rightarrow> go_error option \<times> 'x nostr_store" where
  "log_write now e s =
     (case ns_wal s of
        None \<Rightarrow> (None, s)
      | Some (d, m) \<Rightarrow>
          (case wm_writer m of
             None \<Rightarrow> (Some Panic, s)
           | Some w \<Rightarrow>
               (case wal_write now e d w of
                  (r, d', w') \<Rightarrow> (case r of Inl x \<Rightarrow> Some x | Inr _ \<Rightarrow> None, s\<lparr>ns_wal := Some (d', m\<lparr>wm_writer := Some w'\<rparr>)\<rparr>))))"

definition log_write_batch :: "u64 \<Rightarrow> wal_entry list \<Rightarrow> 'x nostr_store \<Rightarrow> go_error option \<times> 'x nostr_store" where
  "log_write_batch now es s =
     (case ns_wal s of
        None \<Rightarrow> (None, s)
      | Some (d, m) \<Rightarrow>
          (case wm_writer m of
             None \<Rightarrow> (Some Panic, s)
           | Some w \<Rightarrow>
               (case wal_write_batch now es d w of
                  (r, d', w') \<Rightarrow> (case r of Inl x \<Rightarrow> Some x | Inr _ \<Rightarrow> None, s\<lparr>ns_wal := Some (d', m\<lparr>wm_writer := Some w'\<rparr>)\<rparr>))))"

text \<open>Storage flushes change no state of the model, but fail when the store is closed.\<close>

definition store_checkpoint :: "'x index_ops \<Rightarrow> u64 \<Rightarrow> 'x nostr_store \<Rightarrow> 'x nostr_store" where
  "store_checkpoint ops now s =
     (case ns_wal s of
        None \<Rightarrow> s
      | Some (d, m) \<Rightarrow>
          (case wm_writer m of
             None \<Rightarrow> s
           | Some w \<Rightarrow>
               if wr_last_lsn w = 0 \<or> wr_last_lsn w = ns_last_checkpoint s then s
               else case im_flush ops None (ns_indexes s) of
                 (r, im) \<Rightarrow>
                   let s1 = s\<lparr>ns_indexes := im\<rparr>
                   in if r \<noteq> None \<or> \<not> es_is_open (ns_storage s) then s1
                      else case create_checkpoint now d w of
                        (Inl _, d', w') \<Rightarrow> s1\<lparr>ns_wal := Some (d', m\<lparr>wm_writer := Some w'\<rparr>)\<rparr>
                      | (Inr lsn, d', w') \<Rightarrow>
                          let m' = m\<lparr>wm_writer := Some w'\<rparr>
                          in s1\<lparr>ns_last_checkpoint := lsn,
                                ns_wal := Some (if ns_max_retained s > 0 then cleanup_segments (ns_max_retained s) d' m' else d', m')\<rparr>))"

definition note_events_written :: "'x index_ops \<Rightarrow> u64 \<Rightarrow> int \<Rightarrow> 'x nostr_store \<Rightarrow> 'x nostr_store" where
  "note_events_written ops now cnt s =
     (if cnt \<le> 0 \<or> ns_checkpoint_every s \<le> 0 then s
      else let current = ns_checkpoint_count s + cnt
        in if current < ns_checkpoint_every s then s\<lparr>ns_checkpoint_count := current\<rparr>
           else store_checkpoint ops now (s\<lparr>ns_checkpoint_count := 0\<rparr>))"

section \<open>Single events\<close>

text \<open>The secondary indexes of a written event; their errors are only logged.\<close>

definition index_secondary :: "'x index_ops \<Rightarrow> go_error option \<Rightarrow> event \<Rightarrow> location \<Rightarrow> 'x index_mgr \<Rightarrow> 'x index_mgr" where
  "index_secondary ops ctx ev loc im =
     im\<lparr>im_author_time := snd (xo_insert ops ctx (author_time_key_of ev) loc (im_author_time im)),
        im_kind_time := snd (xo_insert ops ctx (kind_time_key_of ev) loc (im_kind_time im)),
        im_search := fold (\<lambda>k x. snd (xo_insert ops ctx k loc x)) (event_search_keys (im_codes im) ev [] (tags ev)) (im_search im)\<rparr>"

definition ns_write_event :: "'x index_ops \<Rightarrow> u64 \<Rightarrow> go_error option \<Rightarrow> event \<Rightarrow> 'x nostr_store \<Rightarrow> location result \<times> 'x nostr_store" where
  "ns_write_event ops now ctx ev s =
     (if \<not> ns_opened s then (Inl (Err ''store not opened''), s)
      else case ctx of
        Some e \<Rightarrow> (Inl e, s)
      | None \<Rightarrow>
          (case xo_get ops ctx (primary_key_of ev) (im_primary (ns_indexes s)) of
             (g, p) \<Rightarrow>
               let s1 = s\<lparr>ns_indexes := (ns_indexes s)\<lparr>im_primary := p\<rparr>\<rparr>
               in case g of
                    Inr (loc, True) \<Rightarrow> (Inr loc, s1)
                  | _ \<Rightarrow>
                      (case wrap_err ''serialize'' (serialize (es_page_size (ns_storage s1)) (Some ev)) of
                         Inl e \<Rightarrow> (Inl e, s1)
                       | Inr r \<Rightarrow>
                           (case log_write now (log_entry op_insert (rec_data r)) s1 of
                              (Some e, s2) \<Rightarrow> (Inl (wrap_error ''wal write'' e), s2)
                            | (None, s2) \<Rightarrow>
                                (case write_record now (ns_storage s2) (Some r) of
                                   (Inl e, st) \<Rightarrow> (Inl (wrap_error ''storage write'' e), s2\<lparr>ns_storage := st\<rparr>)
                                 | (Inr loc, st) \<Rightarrow>
                                     let s3 = s2\<lparr>ns_storage := st\<rparr>
                                     in case xo_insert ops ctx (primary_key_of ev) loc (im_primary (ns_indexes s3)) of
                                          (Some e, p) \<Rightarrow> (Inr loc, s3\<lparr>ns_indexes := (ns_indexes s3)\<lparr>im_primary := p\<rparr>\<rparr>)
                                        | (None, p) \<Rightarrow>
                                            (Inr loc, note_events_written ops now 1 (add_kind_if_new (kind ev)
                                               (s3\<lparr>ns_indexes := index_secondary ops ctx ev loc ((ns_indexes s3)\<lparr>im_primary := p\<rparr>)\<rparr>))))))))"

definition ns_get_event :: "'x index_ops \<Rightarrow> go_error option \<Rightarrow> bytes \<Rightarrow> 'x nostr_store \<Rightarrow> event option result \<times> 'x nostr_store" where
  "ns_get_event ops ctx ident s =
     (if \<not> ns_opened s then (Inl (Err ''store not opened''), s)
      else case ctx of
        Some e \<Rightarrow> (Inl e, s)
      | None \<Rightarrow>
          (case xo_get ops ctx (build_primary_key ident) (im_primary (ns_indexes s)) of
             (g, p) \<Rightarrow>
               let s1 = s\<lparr>ns_indexes := (ns_indexes s)\<lparr>im_primary := p\<rparr>\<rparr>
               in case g of
                    Inl e \<Rightarrow> (Inl (wrap_error ''index lookup'' e), s1)
                  | Inr (loc, exists) \<Rightarrow>
                      if \<not> exists then (Inr None, s1)
                      else case wrap_err ''storage read'' (read_event (ns_storage s1) loc) of
                        Inl e \<Rightarrow> (Inl e, s1)
                      | Inr ev \<Rightarrow> if is_deleted (ev_flags ev) then (Inl (Err ''event has been deleted''), s1) else (Inr (Some ev), s1)))"

definition deletion_entry :: "location \<Rightarrow> wal_entry" where
  "deletion_entry loc = log_entry op_update_flags (put_u32 (segment_id loc) @ put_u32 (loc_offset loc) @ [flag_deleted])"

text \<open>The search keys of a deleted event, without the check for repeated tags.\<close>

definition all_search_keys :: "(bytes \<times> search_type) list \<Rightarrow> event \<Rightarrow> bytes list" where
  "all_search_keys codes ev =
     concat (map (\<lambda>tag. if length tag < 2 then [] else case map_of codes (tag ! 0) of
       None \<Rightarrow> [] | Some st \<Rightarrow> [build_search_key (kind ev) st (tag ! 1) (created_at ev)]) (tags ev))"

definition unindex_secondary :: "'x index_ops \<Rightarrow> go_error option \<Rightarrow> event \<Rightarrow> location \<Rightarrow> 'x index_mgr \<Rightarrow> 'x index_mgr" where
  "unindex_secondary ops ctx ev loc im =
     im\<lparr>im_author_time := snd (xo_delete ops ctx (author_time_key_of ev) (Some loc) (im_author_time im)),
        im_kind_time := snd (xo_delete ops ctx (kind_time_key_of ev) (Some loc) (im_kind_time im)),
        im_search := fold (\<lambda>k x. snd (xo_delete ops ctx k (Some loc) x)) (all_search_keys (im_codes im) ev) (im_search im)\<rparr>"

definition ns_delete_event :: "'x index_ops \<Rightarrow> u64 \<Rightarrow> go_error option \<Rightarrow> bytes \<Rightarrow> 'x nostr_store \<Rightarrow> go_error option \<times> 'x nostr_store" where
  "ns_delete_event ops now ctx ident s =
     (if \<not> ns_opened s then (Some (Err ''store not opened''), s)
      else case ctx of
        Some e \<Rightarrow> (Some e, s)
      | None \<Rightarrow>
          (case xo_get ops ctx (build_primary_key ident) (im_primary (ns_indexes s)) of
             (g, p) \<Rightarrow>
               let s1 = s\<lparr>ns_indexes := (ns_indexes s)\<lparr>im_primary := p\<rparr>\<rparr>
               in case g of
                    Inl e \<Rightarrow> (Some (wrap_error ''primary index lookup'' e), s1)
                  | Inr (loc, exists) \<Rightarrow>
                      if \<not> exists then (Some (Err ''event not found''), s1)
                      else case read_event (ns_storage s1) loc of
                        Inl e \<Rightarrow> (Some (wrap_error ''read event'' e), s1)
                      | Inr ev \<Rightarrow>
                          (case log_write now (deletion_entry loc) s1 of
                             (Some e, s2) \<Rightarrow> (Some (wrap_error ''wal write'' e), s2)
                           | (None, s2) \<Rightarrow>
                               (case update_event_flags (ns_storage s2) loc (set_deleted True 0) of
                                  Inl e \<Rightarrow> (Some (wrap_error ''update event flags'' e), s2)
                                | Inr st \<Rightarrow>
                                    let s3 = s2\<lparr>ns_storage := st\<rparr>
                                    in case xo_delete ops ctx (build_primary_key ident) None (im_primary (ns_indexes s3)) of
                                         (Some e, p) \<Rightarrow> (Some (wrap_error ''primary index delete'' e), s3\<lparr>ns_indexes := (ns_indexes s3)\<lparr>im_primary := p\<rparr>\<rparr>)
                                       | (None, p) \<Rightarrow> (None, s3\<lparr>ns_indexes := unindex_secondary ops ctx ev loc ((ns_indexes s3)\<lparr>im_primary := p\<rparr>)\<rparr>)))))"

definition ns_flush :: "'x index_ops \<Rightarrow> go_error option \<Rightarrow> 'x nostr_store \<Rightarrow> go_error option \<times> 'x nostr_store" where
  "ns_flush ops ctx s =
     (if \<not> ns_opened s then (Some (Err ''store not opened''), s)
      else case ctx of
        Some e \<Rightarrow> (Some e, s)
      | None \<Rightarrow>
          (case (case ns_wal s of
                   None \<Rightarrow> (None, s)
                 | Some (d, m) \<Rightarrow>
                     (case wm_writer m of
                        None \<Rightarrow> (Some Panic, s)
                      | Some w \<Rightarrow> (case wal_flush d w of (r, d', w') \<Rightarrow> (r, s\<lparr>ns_wal := Some (d', m\<lparr>wm_writer := Some w'\<rparr>)\<rparr>)))) of
             (Some e, s1) \<Rightarrow> (Some (wrap_error ''wal flush'' e), s1)
           | (None, s1) \<Rightarrow>
               if \<not> es_is_open (ns_storage s1) then (Some (Wrap ''storage flush'' (Err ''store not open'')), s1)
               else case im_flush ops ctx (ns_indexes s1) of
                 (r, im) \<Rightarrow> (map_option (wrap_error ''index flush'') r, s1\<lparr>ns_indexes := im\<rparr>)))"

section \<open>The log stays ready\<close>

text \<open>The writer is well formed and its segment number can still grow by \<open>k\<close>.\<close>

definition log_ready :: "nat \<Rightarrow> (disk \<times> wal_manager) option \<Rightarrow> bool" where
  "log_ready k x \<longleftrightarrow> (case x of None \<Rightarrow> True | Some (d, m) \<Rightarrow> \<exists>w. wm_writer m = Some w \<and> wal_inv d w \<and> unat (wr_segment_id w) + k < 2 ^ 32)"

lemma log_ready_mono: "log_ready k x \<Longrightarrow> j \<le> k \<Longrightarrow> log_ready j x"
  by (auto simp: log_ready_def split: option.splits)

lemma segment_step:
  assumes "step_ok op d w d' w'" "unat (wr_segment_id w) + Suc k < 2 ^ 32"
  shows "wal_inv d' w' \<and> unat (wr_segment_id w') + k < 2 ^ 32"
proof -
  have "wr_segment_id w' = wr_segment_id w \<or> wr_segment_id w' = wr_segment_id w + 1" "wal_inv d' w'" using assms(1) by (simp_all add: step_ok_def)
  moreover have "unat (wr_segment_id w + 1) = unat (wr_segment_id w) + 1" using assms(2) by (subst unat_plus_simple [THEN iffD1]) (simp_all add: no_olen_add_nat)
  ultimately show ?thesis using assms(2) by auto
qed

lemma segment_not_last: "unat (i :: u32) + Suc k < 2 ^ 32 \<Longrightarrow> i \<noteq> - 1"
  by (auto simp: unsigned_minus_1_eq_mask mask_eq_exp_minus_1)

text \<open>The log of a store, on disk and in the buffer of its writer; that it has grown by an entry, perhaps with checkpoints behind it.\<close>

definition ns_log :: "'x nostr_store \<Rightarrow> wal_entry list" where
  "ns_log s = (case ns_wal s of None \<Rightarrow> [] | Some (d, m) \<Rightarrow> (case wm_writer m of None \<Rightarrow> [] | Some w \<Rightarrow> disk_log d @ pending w))"

definition logged_entry :: "byte \<Rightarrow> bytes \<Rightarrow> 'x nostr_store \<Rightarrow> 'x nostr_store \<Rightarrow> bool" where
  "logged_entry ty data s s' \<longleftrightarrow> ns_wal s \<noteq> None \<longrightarrow>
     (\<exists>en cs. ns_log s' = ns_log s @ en # cs \<and> en_type en = ty \<and> en_data en = data \<and> (\<forall>c \<in> set cs. en_type c = op_checkpoint))"

lemma ns_log_cong: "ns_wal s = ns_wal s' \<Longrightarrow> ns_log s = ns_log s'"
  by (simp add: ns_log_def)

lemma log_write_ok:
  assumes "log_ready (Suc k) (ns_wal s)" "29 + length (en_data e) \<le> wal_max_record_size"
  shows "\<exists>x. log_write now e s = (None, s\<lparr>ns_wal := x\<rparr>) \<and> log_ready k x \<and> logged_entry (en_type e) (en_data e) s (s\<lparr>ns_wal := x\<rparr>) \<and> (x = None \<longleftrightarrow> ns_wal s = None)"
proof (cases "ns_wal s")
  case None
  then show ?thesis by (intro exI [of _ None]) (simp add: log_write_def log_ready_def logged_entry_def)
next
  case (Some x)
  obtain d m where x: "x = (d, m)" by (cases x)
  obtain w where w: "wm_writer m = Some w" "wal_inv d w" "unat (wr_segment_id w) + Suc k < 2 ^ 32" using assms(1) Some x by (auto simp: log_ready_def)
  obtain r d' w' where o: "wal_write now e d w = (r, d', w')" "step_ok (Op_Write now e) d w d' w'" "r = Inr (wr_last_lsn w + 1)"
    using wal_write_ok [OF w(2) segment_not_last [OF w(3)], of now e] assms(2) by metis
  let ?x = "Some (d', m\<lparr>wm_writer := Some w'\<rparr>)" and ?e = "sealed (stamp now (wr_last_lsn w + 1) e)"
  have "disk_log d' @ pending w' = (disk_log d @ pending w) @ [?e]" using o(2) assms(2) by (simp add: step_ok_def wal_abs_def stamp_def)
  then have "logged_entry (en_type e) (en_data e) s (s\<lparr>ns_wal := ?x\<rparr>)"
    using Some x w(1) by (auto simp: logged_entry_def ns_log_def stamp_def sealed_def intro!: exI [of _ ?e] exI [of _ "[]"])
  then show ?thesis using o(1,3) segment_step [OF o(2) w(3)] Some x w(1)
    by (intro exI [of _ ?x]) (simp add: log_write_def log_ready_def)
qed

lemma cleanup_inv:
  assumes "wal_inv d w" "wm_writer m = Some w"
  shows "wal_inv (cleanup_segments n d m) w"
proof -
  have "names_ok d" using assms(1) by (simp add: wal_inv_def disk_ok_def)
  then show ?thesis unfolding cleanup_segments_eq [OF \<open>names_ok d\<close>]
    by (intro remove_ids_inv [OF assms(1)]) (auto simp: Let_def is_active_def assms(2) dest: in_set_takeD)
qed

section \<open>What the store promises\<close>

text \<open>Every entry of the primary index leads to a record of its event.\<close>

definition indexed :: "(bytes \<rightharpoonup> location) \<Rightarrow> (location \<times> rec) list \<Rightarrow> bool" where
  "indexed M log \<longleftrightarrow> (\<forall>ident loc. M ident = Some loc \<longrightarrow> (\<exists>r e. (loc, r) \<in> set log \<and> deserialize (Some r) = Inr e \<and> ev_id e = ident))"

definition ns_ok :: "nat \<Rightarrow> ('x \<Rightarrow> (bytes \<rightharpoonup> location) \<Rightarrow> bool) \<Rightarrow> 'x nostr_store \<Rightarrow> (bytes \<rightharpoonup> location) \<Rightarrow> (location \<times> rec) list \<Rightarrow> bool" where
  "ns_ok k holds s M log \<longleftrightarrow> ns_opened s \<and> store_rep (ns_storage s) log \<and> holds (im_primary (ns_indexes s)) M \<and> indexed M log \<and> log_ready k (ns_wal s)"

lemma indexed_insert:
  assumes "indexed M log" "deserialize (Some r) = Inr e" "ev_id e = ident"
  shows "indexed (M(ident \<mapsto> loc)) (log @ [(loc, r)])"
  using assms by (fastforce simp: indexed_def)

lemma indexed_in_log: "indexed M log \<Longrightarrow> M ident = Some loc \<Longrightarrow> loc \<in> fst ` set log"
  unfolding indexed_def by force

lemma indexed_inj:
  assumes "indexed M log" "distinct (map fst log)" "M a = Some loc" "M b = Some loc"
  shows "a = b"
proof -
  obtain r e r' e' where r: "(loc, r) \<in> set log" "deserialize (Some r) = Inr e" "ev_id e = a" "(loc, r') \<in> set log" "deserialize (Some r') = Inr e'" "ev_id e' = b"
    using assms unfolding indexed_def by metis
  then have "r = r'" using assms(2) by (metis eq_key_imp_eq_value)
  then show ?thesis using r by simp
qed

text \<open>What \<open>GetEvent\<close> answers from the primary map and the segments.\<close>

definition stored_event :: "event_store \<Rightarrow> location option \<Rightarrow> event option result" where
  "stored_event st r = (case r of None \<Rightarrow> Inr None | Some loc \<Rightarrow>
     (case wrap_err ''storage read'' (read_event st loc) of
        Inl e \<Rightarrow> Inl e | Inr ev \<Rightarrow> if is_deleted (ev_flags ev) then Inl (Err ''event has been deleted'') else Inr (Some ev)))"

lemma primary_key_id [simp]: "length ident = 32 \<Longrightarrow> build_primary_key ident = ident"
  by (simp add: build_primary_key_def pad_to_def)

lemma primary_unindexed [simp]:
  "im_primary (index_secondary ops ctx ev loc im) = im_primary im" "im_primary (unindex_secondary ops ctx ev loc im) = im_primary im"
  by (simp_all add: index_secondary_def unindex_secondary_def)

lemma add_kind_frame [simp]:
  "ns_opened (add_kind_if_new k s) = ns_opened s" "ns_storage (add_kind_if_new k s) = ns_storage s"
  "ns_indexes (add_kind_if_new k s) = ns_indexes s" "ns_wal (add_kind_if_new k s) = ns_wal s" "ns_max_retained (add_kind_if_new k s) = ns_max_retained s"
  by (simp_all add: add_kind_if_new_def)

text \<open>A checkpoint flushes the indexes and adds its entry to the log; files are only removed when their number is limited.\<close>

definition im_kept :: "'x index_ops \<Rightarrow> 'x index_mgr \<Rightarrow> 'x index_mgr \<Rightarrow> bool" where
  "im_kept ops im im' \<longleftrightarrow> im' = im \<or> im' = snd (im_flush ops None im)"

definition checkpoints_behind :: "'x nostr_store \<Rightarrow> 'x nostr_store \<Rightarrow> bool" where
  "checkpoints_behind s s' \<longleftrightarrow> (\<exists>cs. ns_log s' = ns_log s @ cs \<and> (\<forall>c \<in> set cs. en_type c = op_checkpoint))"

lemma logged_then_checkpoints:
  assumes "logged_entry ty data s1 s2" "checkpoints_behind s2 s3" "ns_wal s = ns_wal s1"
  shows "logged_entry ty data s s3"
proof (cases "ns_wal s = None")
  case False
  then obtain en cs where "ns_log s2 = ns_log s1 @ en # cs" "en_type en = ty" "en_data en = data" "\<forall>c \<in> set cs. en_type c = op_checkpoint"
    using assms(1,3) by (auto simp: logged_entry_def)
  moreover obtain cs' where "ns_log s3 = ns_log s2 @ cs'" "\<forall>c \<in> set cs'. en_type c = op_checkpoint" using assms(2) by (auto simp: checkpoints_behind_def)
  ultimately show ?thesis using ns_log_cong [OF assms(3)] by (auto simp: logged_entry_def intro!: exI [of _ en] exI [of _ "cs @ cs'"])
qed (simp add: logged_entry_def)

context primary_lookup
begin

lemma get_event_ok:
  assumes "ns_ok k holds s M log" "length ident = 32"
  shows "\<exists>s'. ns_get_event ops None ident s = (stored_event (ns_storage s) (M ident), s') \<and> ns_ok k holds s' M log \<and> ns_storage s' = ns_storage s"
proof -
  obtain p where p: "xo_get ops None ident (im_primary (ns_indexes s)) = (Inr (loc_flag (M ident)), p)" "holds p M"
    using get_law [of "im_primary (ns_indexes s)" M ident] assms(1) by (auto simp: ns_ok_def)
  let ?s = "s\<lparr>ns_indexes := (ns_indexes s)\<lparr>im_primary := p\<rparr>\<rparr>"
  have "ns_get_event ops None ident s = (stored_event (ns_storage s) (M ident), ?s)"
    using assms p(1) by (auto simp: ns_get_event_def ns_ok_def stored_event_def loc_flag_def split: option.split sum.split)
  moreover have "ns_ok k holds ?s M log" using assms(1) p(2) by (simp add: ns_ok_def)
  ultimately show ?thesis by (intro exI [of _ ?s]) simp
qed

end

context primary_map
begin

lemma flush_indexes_ok:
  assumes "holds (im_primary im) M"
  shows "\<exists>r im'. im_flush ops None im = (r, im') \<and> holds (im_primary im') M"
proof -
  obtain r x where x: "xo_flush ops None (im_primary im) = (r, x)" "holds x M" using flush_law [OF assms] by blast
  then show ?thesis by (auto simp: im_flush_def Let_def split: option.split prod.split)
qed

lemma checkpoint_ok:
  assumes "holds (im_primary (ns_indexes s)) M" "log_ready (Suc k) (ns_wal s)"
  shows "\<exists>s'. store_checkpoint ops now s = s' \<and> ns_opened s' = ns_opened s \<and> ns_storage s' = ns_storage s \<and>
    holds (im_primary (ns_indexes s')) M \<and> log_ready k (ns_wal s') \<and> im_kept ops (ns_indexes s) (ns_indexes s') \<and>
    (ns_max_retained s \<le> 0 \<longrightarrow> checkpoints_behind s s')"
proof (cases "ns_wal s")
  case None
  then show ?thesis using assms by (simp add: store_checkpoint_def log_ready_def im_kept_def checkpoints_behind_def)
next
  case (Some x)
  obtain d m where x: "x = (d, m)" by (cases x)
  obtain w where w: "wm_writer m = Some w" "wal_inv d w" "unat (wr_segment_id w) + Suc k < 2 ^ 32" using assms(2) Some x by (auto simp: log_ready_def)
  obtain r im where im: "im_flush ops None (ns_indexes s) = (r, im)" "holds (im_primary im) M" using flush_indexes_ok [OF assms(1)] by blast
  obtain d' w' where c: "create_checkpoint now d w = (Inr (wr_last_lsn w + 1), d', w')" "step_ok (Op_Checkpoint now) d w d' w'"
    using create_checkpoint_ok [OF w(2) segment_not_last [OF w(3)], of now] by metis
  note st = segment_step [OF c(2) w(3)]
  have cl: "wal_inv (cleanup_segments n d' (m\<lparr>wm_writer := Some w'\<rparr>)) w'" for n using st by (intro cleanup_inv) simp_all
  have lr: "log_ready k (ns_wal s)" using log_ready_mono [OF assms(2)] by simp
  have lg: "\<exists>c. en_type c = op_checkpoint \<and> disk_log d' @ pending w' = disk_log d @ pending w @ [c]"
    using c(2) by (auto simp: step_ok_def wal_abs_def sealed_def)
  show ?thesis
  proof (cases "wr_last_lsn w = 0 \<or> wr_last_lsn w = ns_last_checkpoint s \<or> r \<noteq> None \<or> \<not> es_is_open (ns_storage s)")
    case True
    then show ?thesis using Some x w(1) im assms(1) lr
      by (auto simp: store_checkpoint_def im_kept_def checkpoints_behind_def ns_log_def)
  next
    case False
    then show ?thesis using Some x w(1) im c(1) st cl lg
      by (auto simp: store_checkpoint_def log_ready_def Let_def im_kept_def checkpoints_behind_def ns_log_def)
  qed
qed

lemma note_written_ok:
  assumes "holds (im_primary (ns_indexes s)) M" "log_ready (Suc k) (ns_wal s)"
  shows "\<exists>s'. note_events_written ops now n s = s' \<and> ns_opened s' = ns_opened s \<and> ns_storage s' = ns_storage s \<and>
    holds (im_primary (ns_indexes s')) M \<and> log_ready k (ns_wal s') \<and> im_kept ops (ns_indexes s) (ns_indexes s') \<and>
    (ns_max_retained s \<le> 0 \<longrightarrow> checkpoints_behind s s')"
proof -
  have lr: "log_ready k (ns_wal s)" using log_ready_mono [OF assms(2)] by simp
  have cp: "checkpoints_behind (s\<lparr>ns_checkpoint_count := c\<rparr>) s' = checkpoints_behind s s'" "checkpoints_behind s (s\<lparr>ns_checkpoint_count := c\<rparr>)" for c s'
    by (simp_all add: checkpoints_behind_def ns_log_def)
  show ?thesis using checkpoint_ok [of "s\<lparr>ns_checkpoint_count := 0\<rparr>" M k now] assms lr
    by (simp add: note_events_written_def Let_def cp) (simp add: im_kept_def checkpoints_behind_def)
qed

lemma write_event_steps:
  assumes ok: "ns_ok (Suc (Suc k)) holds s M log" and ev: "event_wf e" "serialize_tags (tags e) = Inr td" "event_size e td + 2 < 2 ^ 32" "tags_ok (tags e)"
    and new: "M (ev_id e) = None" "fits M (ev_id e)"
    and acc: "store_accepts (ns_storage s) (record_of (es_page_size (ns_storage s)) e td)"
    and room: "29 + length (rec_data (record_of (es_page_size (ns_storage s)) e td)) \<le> wal_max_record_size"
  shows "\<exists>loc s' q. ns_write_event ops now None e s = (Inr loc, s') \<and>
    ns_ok k holds s' (M(ev_id e \<mapsto> loc)) (log @ [(loc, record_of (es_page_size (ns_storage s)) e td)]) \<and>
    write_record now (ns_storage s) (Some (record_of (es_page_size (ns_storage s)) e td)) = (Inr loc, ns_storage s') \<and>
    im_kept ops (index_secondary ops None e loc ((ns_indexes s)\<lparr>im_primary := q\<rparr>)) (ns_indexes s') \<and>
    (ns_max_retained s \<le> 0 \<longrightarrow> logged_entry op_insert (rec_data (record_of (es_page_size (ns_storage s)) e td)) s s')"
proof -
  let ?r = "record_of (es_page_size (ns_storage s)) e td"
  have id: "primary_key_of e = ev_id e" using ev(1) by (simp add: event_wf_def)
  have s0: "ns_opened s" "store_rep (ns_storage s) log" "holds (im_primary (ns_indexes s)) M" "indexed M log" "log_ready (Suc (Suc k)) (ns_wal s)"
    using ok by (simp_all add: ns_ok_def)
  obtain p where p: "xo_get ops None (ev_id e) (im_primary (ns_indexes s)) = (Inr (zero_location, False), p)" "holds p M"
    using get_law [OF s0(3), of "ev_id e"] new(1) by (auto simp: loc_flag_def)
  define s1 where "s1 = s\<lparr>ns_indexes := (ns_indexes s)\<lparr>im_primary := p\<rparr>\<rparr>"
  have "6 < unat (es_page_size (ns_storage s))" using store_page_size [OF s0(2)] by (simp add: page_ok_def)
  then have ser: "serialize (es_page_size (ns_storage s)) (Some e) = Inr ?r" by (rule serialize_eq [OF ev(1,2,3)])
  have des: "deserialize (Some ?r) = Inr (e\<lparr>tags := map norm_tag (tags e), ev_flags := rec_flags ?r\<rparr>)"
    using deserialize_record_of [OF ev(1,3)] deserialize_serialize_tags [OF ev(2,4)] by simp
  obtain x where x: "log_write now (log_entry op_insert (rec_data ?r)) s1 = (None, s1\<lparr>ns_wal := x\<rparr>)" "log_ready (Suc k) x"
    "logged_entry op_insert (rec_data ?r) s1 (s1\<lparr>ns_wal := x\<rparr>)" "x = None \<longleftrightarrow> ns_wal s1 = None"
    using log_write_ok [of "Suc k" s1 "log_entry op_insert (rec_data ?r)" now] s0(5) room by (auto simp: s1_def log_entry_def)
  obtain loc st where w: "write_record now (ns_storage s) (Some ?r) = (Inr loc, st)" "store_rep st (log @ [(loc, ?r)])"
    using store_append_rep [OF s0(2) acc] by blast
  obtain q where q: "xo_insert ops None (ev_id e) loc p = (None, q)" "holds q (M(ev_id e \<mapsto> loc))" using insert_law [OF p(2) new] by blast
  define s4 where "s4 = add_kind_if_new (kind e) (s1\<lparr>ns_wal := x, ns_storage := st,
    ns_indexes := index_secondary ops None e loc ((ns_indexes s1)\<lparr>im_primary := q\<rparr>)\<rparr>)"
  obtain s5 where s5: "note_events_written ops now 1 s4 = s5" "ns_opened s5 = ns_opened s4" "ns_storage s5 = ns_storage s4"
    "holds (im_primary (ns_indexes s5)) (M(ev_id e \<mapsto> loc))" "log_ready k (ns_wal s5)" "im_kept ops (ns_indexes s4) (ns_indexes s5)"
    "ns_max_retained s4 \<le> 0 \<longrightarrow> checkpoints_behind s4 s5"
    using note_written_ok [of s4 "M(ev_id e \<mapsto> loc)" k now 1] q(2) x(2) by (auto simp: s4_def)
  have "ns_write_event ops now None e s = (Inr loc, s5)"
    using s0(1) id p(1) ser x(1) w(1) q(1) s5(1) by (simp add: ns_write_event_def s1_def s4_def Let_def)
  moreover have "ns_ok k holds s5 (M(ev_id e \<mapsto> loc)) (log @ [(loc, ?r)])"
    using s0(1) s5(2-5) w(2) indexed_insert [OF s0(4) des] by (simp add: ns_ok_def s4_def s1_def)
  moreover have "ns_storage s5 = st" using s5(3) by (simp add: s4_def)
  moreover have "im_kept ops (index_secondary ops None e loc ((ns_indexes s)\<lparr>im_primary := q\<rparr>)) (ns_indexes s5)"
    using s5(6) by (simp add: s4_def s1_def)
  moreover have "logged_entry op_insert (rec_data ?r) s s5" if "ns_max_retained s \<le> 0"
  proof (rule logged_then_checkpoints [OF x(3), of s5])
    show "checkpoints_behind (s1\<lparr>ns_wal := x\<rparr>) s5" using s5(7) that by (simp add: s4_def s1_def checkpoints_behind_def ns_log_def)
  qed (simp_all add: s1_def ns_log_def)
  ultimately show ?thesis using w(1) by blast
qed

lemma write_event_ok:
  assumes "ns_ok (Suc (Suc k)) holds s M log" "event_wf e" "serialize_tags (tags e) = Inr td" "event_size e td + 2 < 2 ^ 32" "tags_ok (tags e)"
    "M (ev_id e) = None" "fits M (ev_id e)" "store_accepts (ns_storage s) (record_of (es_page_size (ns_storage s)) e td)"
    "29 + length (rec_data (record_of (es_page_size (ns_storage s)) e td)) \<le> wal_max_record_size"
  shows "\<exists>loc s'. ns_write_event ops now None e s = (Inr loc, s') \<and>
    ns_ok k holds s' (M(ev_id e \<mapsto> loc)) (log @ [(loc, record_of (es_page_size (ns_storage s)) e td)]) \<and>
    write_record now (ns_storage s) (Some (record_of (es_page_size (ns_storage s)) e td)) = (Inr loc, ns_storage s')"
  using write_event_steps [OF assms] by blast

text \<open>A fresh event is there afterwards, and the others are as they were.\<close>

lemma write_get_ok:
  assumes ok: "ns_ok (Suc (Suc k)) holds s M log" and ev: "event_wf e" "serialize_tags (tags e) = Inr td" "tags_ok (tags e)" "event_size e td + 2 < 2 ^ 32"
    and new: "M (ev_id e) = None" "fits M (ev_id e)"
    and acc: "store_accepts (ns_storage s) (record_of (es_page_size (ns_storage s)) e td)"
    and room: "29 + length (rec_data (record_of (es_page_size (ns_storage s)) e td)) \<le> wal_max_record_size"
  shows "\<exists>loc s' log' q. ns_write_event ops now None e s = (Inr loc, s') \<and> ns_ok k holds s' (M(ev_id e \<mapsto> loc)) log' \<and>
    fst (ns_get_event ops None (ev_id e) s') = Inr (Some (e\<lparr>tags := map norm_tag (tags e),
      ev_flags := (if unat (es_page_size (ns_storage s)) \<le> event_size e td then flag_continued else 0)\<rparr>)) \<and>
    (\<forall>ident. length ident = 32 \<longrightarrow> ident \<noteq> ev_id e \<longrightarrow> fst (ns_get_event ops None ident s') = fst (ns_get_event ops None ident s)) \<and>
    im_kept ops (index_secondary ops None e loc ((ns_indexes s)\<lparr>im_primary := q\<rparr>)) (ns_indexes s') \<and>
    (ns_max_retained s \<le> 0 \<longrightarrow> logged_entry op_insert (rec_data (record_of (es_page_size (ns_storage s)) e td)) s s')"
proof -
  let ?r = "record_of (es_page_size (ns_storage s)) e td"
  obtain loc s' q where w: "ns_write_event ops now None e s = (Inr loc, s')" "ns_ok k holds s' (M(ev_id e \<mapsto> loc)) (log @ [(loc, ?r)])"
    "im_kept ops (index_secondary ops None e loc ((ns_indexes s)\<lparr>im_primary := q\<rparr>)) (ns_indexes s')"
    "ns_max_retained s \<le> 0 \<longrightarrow> logged_entry op_insert (rec_data ?r) s s'"
    using write_event_steps [OF ok ev(1,2,4,3) new acc room, of now] by blast
  have rep: "store_rep (ns_storage s) log" "store_rep (ns_storage s') (log @ [(loc, ?r)])" "indexed M log" using ok w(2) by (simp_all add: ns_ok_def)
  have des: "deserialize (Some ?r) = Inr (e\<lparr>tags := map norm_tag (tags e), ev_flags := rec_flags ?r\<rparr>)"
    using deserialize_record_of [OF ev(1,4)] deserialize_serialize_tags [OF ev(2,3)] by simp
  have fl: "rec_flags ?r = (if unat (es_page_size (ns_storage s)) \<le> event_size e td then flag_continued else 0)"
    by (simp add: record_of_def Let_def multi_page_def)
  have rd: "read_event (ns_storage s') loc = Inr (e\<lparr>tags := map norm_tag (tags e), ev_flags := rec_flags ?r\<rparr>)"
    using read_event_log [OF rep(2), of loc ?r] des by simp
  have nd: "\<not> is_deleted (rec_flags ?r)" by (simp add: fl is_deleted_def flag_continued_def flag_deleted_def)
  have "fst (ns_get_event ops None (ev_id e) s') = stored_event (ns_storage s') (Some loc)"
    using get_event_ok [OF w(2), of "ev_id e"] ev(1) by (auto simp: event_wf_def)
  then have g: "fst (ns_get_event ops None (ev_id e) s') = Inr (Some (e\<lparr>tags := map norm_tag (tags e), ev_flags := rec_flags ?r\<rparr>))"
    using rd nd by (simp add: stored_event_def)
  have "fst (ns_get_event ops None ident s') = fst (ns_get_event ops None ident s)" if i: "length ident = 32" "ident \<noteq> ev_id e" for ident
  proof -
    have "fst (ns_get_event ops None ident s') = stored_event (ns_storage s') (M ident)" "fst (ns_get_event ops None ident s) = stored_event (ns_storage s) (M ident)"
      using get_event_ok [OF w(2) i(1)] get_event_ok [OF ok i(1)] i(2) by auto
    moreover have "read_event (ns_storage s') l = read_event (ns_storage s) l" if "M ident = Some l" for l
    proof -
      have "l \<in> fst ` set log" using indexed_in_log [OF rep(3) that] .
      then show ?thesis using read_event_log [OF rep(2)] read_event_log [OF rep(1)] by fastforce
    qed
    ultimately show ?thesis by (simp add: stored_event_def split: option.split)
  qed
  then show ?thesis using w g fl by (intro exI [of _ loc] exI [of _ s'] exI [of _ "log @ [(loc, ?r)]"] exI [of _ q]) simp
qed

text \<open>An event that is there already is not written again.\<close>

lemma write_duplicate_ok:
  assumes "ns_ok k holds s M log" "length (ev_id e) = 32" "M (ev_id e) = Some loc"
  shows "\<exists>s'. ns_write_event ops now None e s = (Inr loc, s') \<and> ns_ok k holds s' M log \<and> ns_storage s' = ns_storage s \<and> ns_wal s' = ns_wal s"
proof -
  obtain p where p: "xo_get ops None (ev_id e) (im_primary (ns_indexes s)) = (Inr (loc, True), p)" "holds p M"
    using get_law [of "im_primary (ns_indexes s)" M "ev_id e"] assms by (auto simp: ns_ok_def loc_flag_def)
  then show ?thesis using assms by (simp add: ns_write_event_def ns_ok_def Let_def)
qed

end

context primary_delete
begin

lemma delete_event_ok:
  assumes ok: "ns_ok (Suc k) holds s M log" and id: "length ident = 32" "M ident = Some loc" and rm: "removable (im_primary (ns_indexes s)) M ident"
  shows "\<exists>s' log'. ns_delete_event ops now None ident s = (None, s') \<and> ns_ok k holds s' (M(ident := None)) log' \<and>
    fst (ns_get_event ops None ident s') = Inr None \<and>
    (\<exists>e. read_event (ns_storage s') loc = Inr e \<and> is_deleted (ev_flags e)) \<and>
    (\<forall>ident'. length ident' = 32 \<longrightarrow> ident' \<noteq> ident \<longrightarrow> fst (ns_get_event ops None ident' s') = fst (ns_get_event ops None ident' s)) \<and>
    logged_entry op_update_flags (put_u32 (segment_id loc) @ put_u32 (loc_offset loc) @ [flag_deleted]) s s'"
proof -
  let ?fl = "set_deleted True 0"
  have s0: "ns_opened s" "store_rep (ns_storage s) log" "holds (im_primary (ns_indexes s)) M" "indexed M log" "log_ready (Suc k) (ns_wal s)"
    using ok by (simp_all add: ns_ok_def)
  obtain r e where r: "(loc, r) \<in> set log" "deserialize (Some r) = Inr e" "ev_id e = ident" using s0(4) id(2) unfolding indexed_def by blast
  have rd: "read_event (ns_storage s) loc = Inr e" using read_event_log [OF s0(2) r(1)] r(2) by simp
  obtain p where p: "xo_get ops None ident (im_primary (ns_indexes s)) = (Inr (loc, True), p)" "removable p M ident"
    using get_removable_law [OF rm] id(2) by (auto simp: loc_flag_def)
  define s1 where "s1 = s\<lparr>ns_indexes := (ns_indexes s)\<lparr>im_primary := p\<rparr>\<rparr>"
  obtain x where x: "log_write now (deletion_entry loc) s1 = (None, s1\<lparr>ns_wal := x\<rparr>)" "log_ready k x"
    "logged_entry op_update_flags (put_u32 (segment_id loc) @ put_u32 (loc_offset loc) @ [flag_deleted]) s1 (s1\<lparr>ns_wal := x\<rparr>)"
    using log_write_ok [of k s1 "deletion_entry loc" now] s0(5) by (auto simp: s1_def deletion_entry_def log_entry_def wal_max_record_size_def)
  have fl: "\<not> is_continued ?fl" by simp
  let ?log = "map (\<lambda>(l', r'). (l', if l' = loc then add_rec_flags ?fl r' else r')) log"
  obtain st where st: "update_event_flags (ns_storage s) loc ?fl = Inr st" "store_rep st ?log"
    using event_log.set_flags_rep [OF s0(2) r(1) fl] by blast
  obtain q where q: "xo_delete ops None ident None p = (None, q)" "holds q (M(ident := None))" using remove_law [OF p(2)] by blast
  define s3 where "s3 = s1\<lparr>ns_wal := x, ns_storage := st, ns_indexes := unindex_secondary ops None e loc ((ns_indexes s1)\<lparr>im_primary := q\<rparr>)\<rparr>"
  have del: "ns_delete_event ops now None ident s = (None, s3)"
    using s0(1) id(1) p(1) rd x(1) st(1) q(1) by (simp add: ns_delete_event_def s1_def s3_def Let_def)
  have des: "deserialize (Some (add_rec_flags ?fl r')) = Inr (e'\<lparr>ev_flags := ev_flags e' OR ?fl\<rparr>)" if "deserialize (Some r') = Inr e'" for r' e'
    using deserialize_add_flags [OF fl that] .
  have ix: "indexed (M(ident := None)) ?log"
  proof (unfold indexed_def, intro allI impI)
    fix i l assume "(M(ident := None)) i = Some l"
    then have i: "M i = Some l" "i \<noteq> ident" by (auto split: if_splits)
    then obtain r' e' where r': "(l, r') \<in> set log" "deserialize (Some r') = Inr e'" "ev_id e' = i" using s0(4) unfolding indexed_def by blast
    have "(l, if l = loc then add_rec_flags ?fl r' else r') \<in> set ?log" using r'(1) by force
    moreover have "\<exists>e''. deserialize (Some (if l = loc then add_rec_flags ?fl r' else r')) = Inr e'' \<and> ev_id e'' = i" using des [OF r'(2)] r'(2,3) by auto
    ultimately show "\<exists>r e. (l, r) \<in> set ?log \<and> deserialize (Some r) = Inr e \<and> ev_id e = i" by blast
  qed
  have ok3: "ns_ok k holds s3 (M(ident := None)) ?log" using s0(1) st(2) q(2) x(2) ix by (simp add: ns_ok_def s3_def s1_def)
  have "(loc, add_rec_flags ?fl r) \<in> set ?log" using r(1) by force
  then have "read_event (ns_storage s3) loc = Inr (e\<lparr>ev_flags := ev_flags e OR ?fl\<rparr>)"
    using read_event_log [OF st(2)] des [OF r(2)] by (simp add: s3_def)
  moreover have "fst (ns_get_event ops None ident s3) = Inr None" using get_event_ok [OF ok3 id(1)] by (auto simp: stored_event_def)
  moreover have "fst (ns_get_event ops None i s3) = fst (ns_get_event ops None i s)" if i: "length i = 32" "i \<noteq> ident" for i
  proof -
    have "fst (ns_get_event ops None i s3) = stored_event st (M i)" "fst (ns_get_event ops None i s) = stored_event (ns_storage s) (M i)"
      using get_event_ok [OF ok3 i(1)] get_event_ok [OF ok i(1)] i(2) by (auto simp: s3_def)
    moreover have "read_event st l = read_event (ns_storage s) l" if l: "M i = Some l" for l
    proof -
      have "l \<noteq> loc" using indexed_inj [OF s0(4) event_log.distinct_rep [OF s0(2)] l] id(2) i(2) by blast
      moreover obtain r' where r': "(l, r') \<in> set log" using indexed_in_log [OF s0(4) l] by auto
      ultimately have "(l, r') \<in> set ?log" by force
      then show ?thesis using read_event_log [OF st(2)] read_event_log [OF s0(2) r'] by simp
    qed
    ultimately show ?thesis by (simp add: stored_event_def split: option.split)
  qed
  moreover have "logged_entry op_update_flags (put_u32 (segment_id loc) @ put_u32 (loc_offset loc) @ [flag_deleted]) s s3"
    using x(3) by (simp add: logged_entry_def ns_log_def s1_def s3_def)
  ultimately show ?thesis using del ok3 by (intro exI [of _ s3] exI [of _ ?log]) (simp add: is_flag_or)
qed

end

section \<open>Properties\<close>

definition demo_ns :: "btree_index nostr_store" where
  "demo_ns = \<lparr>ns_opened = True, ns_recovering = False, ns_storage = demo_store, ns_wal = None,
     ns_indexes = \<lparr>im_codes = [], im_primary = new_btree_index, im_author_time = new_btree_index, im_search = new_btree_index, im_kind_time = new_btree_index\<rparr>,
     ns_known_kinds = [], ns_checkpoint_every = 1000, ns_checkpoint_count = 0, ns_last_checkpoint = 0, ns_max_retained = 0, ns_write_batch_size = 100,
     ns_cfg_page_size = 4096, ns_cfg_max_segment = 1048576\<rparr>"

lemma demo_ns_ok: "ns_ok k memory_holds demo_ns Map.empty []"
  using demo_store_rep by (simp add: ns_ok_def demo_ns_def indexed_def log_ready_def memory_holds_def new_btree_index_def bt_inv_def)

text \<open>
  Writing a fresh event to a store over in-memory indexes, whose log and segments have room, logs it, stores it and
  indexes it: asked for by its identifier it is returned with its tags in normal form, and every other identifier is answered as before.
\<close>

theorem store_write_get:
  assumes "ns_ok (Suc (Suc k)) memory_holds s M log" and "event_wf e" "serialize_tags (tags e) = Inr td" "tags_ok (tags e)" "event_size e td + 2 < 2 ^ 32"
    and "M (ev_id e) = None" and "store_accepts (ns_storage s) (record_of (es_page_size (ns_storage s)) e td)"
    and "29 + length (rec_data (record_of (es_page_size (ns_storage s)) e td)) \<le> wal_max_record_size"
  shows "\<exists>loc s' log'. ns_write_event memory_ops now None e s = (Inr loc, s') \<and> ns_ok k memory_holds s' (M(ev_id e \<mapsto> loc)) log' \<and>
    fst (ns_get_event memory_ops None (ev_id e) s') = Inr (Some (e\<lparr>tags := map norm_tag (tags e),
      ev_flags := (if unat (es_page_size (ns_storage s)) \<le> event_size e td then flag_continued else 0)\<rparr>)) \<and>
    (\<forall>ident. length ident = 32 \<longrightarrow> ident \<noteq> ev_id e \<longrightarrow>
      fst (ns_get_event memory_ops None ident s') = fst (ns_get_event memory_ops None ident s))"
  using mem.write_get_ok [OF assms(1-6) TrueI assms(7,8)] by blast

lemma demo_ns_fits:
  "store_accepts (ns_storage demo_ns) (record_of (es_page_size (ns_storage demo_ns)) demo_event [0, 2, 101, 0, 5, 1, 0, 2, 97, 98, 116, 0, 1, 0])"
  "29 + length (rec_data (record_of (es_page_size (ns_storage demo_ns)) demo_event [0, 2, 101, 0, 5, 1, 0, 2, 97, 98, 116, 0, 1, 0])) \<le> wal_max_record_size"
  "es_page_size (ns_storage demo_ns) = 4096" "event_size demo_event [0, 2, 101, 0, 5, 1, 0, 2, 97, 98, 116, 0, 1, 0] + 2 < 2 ^ 32"
proof -
  show p: "es_page_size (ns_storage demo_ns) = 4096" by (simp add: demo_ns_def demo_store_def)
  show "store_accepts (ns_storage demo_ns) (record_of (es_page_size (ns_storage demo_ns)) demo_event [0, 2, 101, 0, 5, 1, 0, 2, 97, 98, 116, 0, 1, 0])"
    using demo_store_rep(2) unfolding p by (simp add: demo_ns_def demo_record_def)
  have "length (rec_data demo_record) = 167" by (simp add: demo_record_def record_of_def demo_event_facts multi_page_def length_event_body)
  then show "29 + length (rec_data (record_of (es_page_size (ns_storage demo_ns)) demo_event [0, 2, 101, 0, 5, 1, 0, 2, 97, 98, 116, 0, 1, 0])) \<le> wal_max_record_size"
    unfolding p by (simp add: demo_record_def wal_max_record_size_def)
qed (simp add: demo_event_facts)

theorem store_write_get_witness:
  "\<exists>loc s'. ns_write_event memory_ops 9 None demo_event demo_ns = (Inr loc, s') \<and>
    fst (ns_get_event memory_ops None (ev_id demo_event) s') = Inr (Some (demo_event\<lparr>tags := tags demo_event, ev_flags := 0\<rparr>))"
  using store_write_get [OF demo_ns_ok [of "Suc (Suc 0)"] demo_event_facts(1,3,2) demo_ns_fits(4) refl demo_ns_fits(1,2), of 9]
  unfolding demo_ns_fits(3) by (auto simp: demo_event_facts)

text \<open>
  C22: An event whose identifier the primary index has is not written again: \<open>WriteEvent\<close> answers with the location it has, and
  neither the log nor the segments nor any answer of \<open>GetEvent\<close> changes.
\<close>

theorem store_write_duplicate:
  assumes "ns_ok k memory_holds s M log" "length (ev_id e) = 32" "M (ev_id e) = Some loc"
  shows "\<exists>s'. ns_write_event memory_ops now None e s = (Inr loc, s') \<and> ns_ok k memory_holds s' M log \<and>
    ns_storage s' = ns_storage s \<and> ns_wal s' = ns_wal s"
  using mem.write_duplicate_ok [OF assms] .

lemma demo_ns_written:
  "\<exists>loc s log. ns_ok 1 memory_holds s [ev_id demo_event \<mapsto> loc] log \<and> length (ev_id demo_event) = 32"
proof -
  have "ns_ok (Suc (Suc 1)) memory_holds demo_ns Map.empty []" by (rule demo_ns_ok)
  from mem.write_event_ok [OF this demo_event_facts(1,3) demo_ns_fits(4) demo_event_facts(2) refl TrueI demo_ns_fits(1,2), of 9]
  show ?thesis using demo_event_facts(1) by (auto simp: event_wf_def)
qed

theorem store_write_duplicate_witness:
  "\<exists>s loc s'. ns_write_event memory_ops 9 None demo_event s = (Inr loc, s') \<and> ns_storage s' = ns_storage s"
  using demo_ns_written store_write_duplicate [where e = demo_event and now = 9] by (metis fun_upd_same)

text \<open>
  Deleting a stored event over in-memory indexes logs the deletion, sets the flag of its record and removes its primary entry: its identifier is then not found,
  its record reads as deleted, and every other identifier is answered as before.
\<close>

theorem store_delete_get:
  assumes "ns_ok (Suc k) memory_holds s M log" and "length ident = 32" "M ident = Some loc"
  shows "\<exists>s' log'. ns_delete_event memory_ops now None ident s = (None, s') \<and> ns_ok k memory_holds s' (M(ident := None)) log' \<and>
    fst (ns_get_event memory_ops None ident s') = Inr None \<and>
    (\<exists>e. read_event (ns_storage s') loc = Inr e \<and> is_deleted (ev_flags e)) \<and>
    (\<forall>ident'. length ident' = 32 \<longrightarrow> ident' \<noteq> ident \<longrightarrow>
      fst (ns_get_event memory_ops None ident' s') = fst (ns_get_event memory_ops None ident' s))"
proof -
  have "memory_holds (im_primary (ns_indexes s)) M" using assms(1) by (simp add: ns_ok_def)
  from mem.delete_event_ok [OF assms this] show ?thesis by blast
qed

theorem store_delete_get_witness:
  "\<exists>s s'. ns_delete_event memory_ops 9 None (ev_id demo_event) s = (None, s') \<and> fst (ns_get_event memory_ops None (ev_id demo_event) s') = Inr None"
proof -
  obtain loc s log where s: "ns_ok (Suc 0) memory_holds s [ev_id demo_event \<mapsto> loc] log" "length (ev_id demo_event) = 32" using demo_ns_written by auto
  from store_delete_get [OF this, of loc 9] show ?thesis by auto
qed

text \<open>
  C23: The log is written before anything else: when it refuses the record of a fresh event, \<open>WriteEvent\<close> returns that
  error and neither the segments nor the indexes have changed.
\<close>

theorem store_write_ahead:
  assumes "ns_opened s" "fst (xo_get memory_ops None (primary_key_of e) (im_primary (ns_indexes s))) = Inr (zero_location, False)"
    and "ns_wal s = Some (d, m)" "wm_writer m = Some w" and "serialize (es_page_size (ns_storage s)) (Some e) = Inr r"
    and "fst (wal_write now (log_entry op_insert (rec_data r)) d w) = Inl x"
  shows "\<exists>s'. ns_write_event memory_ops now None e s = (Inl (wrap_error ''wal write'' x), s') \<and>
    ns_storage s' = ns_storage s \<and> ns_indexes s' = ns_indexes s"
  using assms by (cases "wal_write now (log_entry op_insert (rec_data r)) d w")
    (simp add: ns_write_event_def memory_ops_def log_write_def Let_def split: prod.splits)

theorem store_write_ahead_witness:
  "\<exists>s s'. ns_write_event memory_ops 9 None demo_event s = (Inl (Wrap ''wal write'' (Err ''WAL not initialized'')), s') \<and> ns_storage s' = demo_store"
proof -
  let ?s = "demo_ns\<lparr>ns_wal := Some ([], new_file_manager\<lparr>wm_writer := Some new_file_writer\<rparr>)\<rparr>"
  have g: "fst (xo_get memory_ops None (primary_key_of demo_event) (im_primary (ns_indexes ?s))) = Inr (zero_location, False)"
    by (simp add: memory_ops_def demo_ns_def bt_get_def bt_lookup_def new_btree_index_def)
  have "serialize (es_page_size (ns_storage ?s)) (Some demo_event) = Inr (record_of 4096 demo_event [0, 2, 101, 0, 5, 1, 0, 2, 97, 98, 116, 0, 1, 0])"
    using serialize_eq [OF demo_event_facts(1,3) demo_ns_fits(4), of 4096] by (simp add: demo_ns_def demo_store_def)
  from store_write_ahead [OF _ g _ _ this, of "[]" "new_file_manager\<lparr>wm_writer := Some new_file_writer\<rparr>" new_file_writer 9 "Err ''WAL not initialized''"]
  show ?thesis by (auto simp: demo_ns_def wal_write_def new_file_writer_def)
qed

end
