(* ===== verification/Node_Codec.thy ===== *)
theory Node_Codec
  imports Checksum Index_Keys
begin

text \<open>
  The page format of index nodes: \<open>src/index/persist_node.go\<close>. A page holds the node type, the number
  of keys, the entries, for a leaf the sibling links, and a checksum in its last eight bytes. Leaf
  and internal entries differ only in the meaning of the eight bytes behind the key, so one writer
  and one reader of entries serve both, parsing a suffix of the page where the source keeps a
  position.

  Results: a page that was written reads back as the node (\<open>node_round_trip\<close>), a leaf can be written
  exactly when its size fits the page (\<open>leaf_fits_iff\<close>), and no page with one altered byte is accepted
  (\<open>node_corruption_detected\<close>).
\<close>

section \<open>Nodes\<close>

record btree_node =
  node_type :: byte
  node_offset :: u64
  node_keys :: "bytes list"
  node_values :: "location list"
  node_children :: "u64 list"
  node_next :: u64
  node_prev :: u64
  node_dirty :: bool

definition node_type_leaf :: byte where "node_type_leaf = 0"
definition node_type_internal :: byte where "node_type_internal = 1"

definition is_leaf :: "btree_node \<Rightarrow> bool" where
  "is_leaf n \<longleftrightarrow> node_type n = node_type_leaf"

definition leaf_size :: "btree_node \<Rightarrow> nat" where
  "leaf_size n = 1 + 2 + 1 + sum_list (map (\<lambda>k. 2 + length k + 8) (node_keys n)) + (8 + 8 + 8)"

definition internal_size :: "btree_node \<Rightarrow> nat" where
  "internal_size n = 1 + 2 + 1 + (if length (node_children n) > 0 then 8 else 0)
     + sum_list (map (\<lambda>k. 2 + length k + 8) (node_keys n)) + 8"

section \<open>Writing\<close>

text \<open>
  The loop over the entries from position \<open>pos\<close>; \<open>trailer\<close> bytes at the end of the page are reserved.
\<close>

fun write_entries :: "string \<Rightarrow> nat \<Rightarrow> nat \<Rightarrow> nat \<Rightarrow> (bytes \<times> bytes) list \<Rightarrow> bytes result" where
  "write_entries msg ps trailer pos [] = Inr []"
| "write_entries msg ps trailer pos ((key, payload) # es) =
     (if pos + 2 + length key + 8 + trailer > ps then Inl (Err msg)
      else case write_entries msg ps trailer (pos + 2 + length key + 8) es of
        Inl e \<Rightarrow> Inl e
      | Inr d \<Rightarrow> Inr (put_u16 (word_of_nat (length key)) @ key @ payload @ d))"

definition loc_bytes :: "location \<Rightarrow> bytes" where
  "loc_bytes l = put_u32 (segment_id l) @ put_u32 (loc_offset l)"

definition node_header :: "btree_node \<Rightarrow> bytes" where
  "node_header n = node_type n # put_u16 (word_of_nat (length (node_keys n))) @ [0]"

text \<open>The last eight bytes of a page are the checksum of the others.\<close>

definition seal_page :: "bytes \<Rightarrow> bytes" where
  "seal_page d = d @ put_u64 (crc64 d)"

definition serialize_node :: "btree_node \<Rightarrow> u32 \<Rightarrow> bytes result" where
  "serialize_node n pageSize =
     (let ps = unat pageSize; keys = node_keys n
      in if ps < 4 then Inl Panic
         else if is_leaf n then
           (if length (node_values n) \<noteq> length keys then Inl (Err ''leaf node values mismatch'')
            else case write_entries ''leaf node overflow'' ps 24 4 (zip keys (map loc_bytes (node_values n))) of
              Inl e \<Rightarrow> Inl e
            | Inr d \<Rightarrow>
                if ps < 24 then Inl Panic
                else Inr (seal_page (take (ps - 24) (pad_to ps (node_header n @ d))
                       @ put_u64 (node_next n) @ put_u64 (node_prev n))))
         else case node_children n of
           [] \<Rightarrow> Inl (Err ''internal node children mismatch'')
         | c0 # cs \<Rightarrow>
             if length (node_children n) \<noteq> length keys + 1 then Inl (Err ''internal node children mismatch'')
             else if ps < 12 then Inl Panic
             else case write_entries ''internal node overflow'' ps 8 12 (zip keys (map put_u64 cs)) of
               Inl e \<Rightarrow> Inl e
             | Inr d \<Rightarrow> Inr (seal_page (take (ps - 8) (pad_to ps (node_header n @ put_u64 c0 @ d)))))"

section \<open>Reading\<close>

fun read_entries :: "string \<Rightarrow> nat \<Rightarrow> bytes \<Rightarrow> (bytes \<times> bytes) list result" where
  "read_entries msg 0 bs = Inr []"
| "read_entries msg (Suc n) bs =
     (if length bs < 2 then Inl (Err msg)
      else let keyLen = unat (get_u16 bs); bs1 = drop 2 bs
        in if length bs1 < keyLen + 8 then Inl (Err msg)
           else case read_entries msg n (drop (keyLen + 8) bs1) of
             Inl e \<Rightarrow> Inl e
           | Inr es \<Rightarrow> Inr ((take keyLen bs1, gslice bs1 keyLen (keyLen + 8)) # es))"

definition loc_of_bytes :: "bytes \<Rightarrow> location" where
  "loc_of_bytes p = \<lparr>segment_id = get_u32 p, loc_offset = get_u32 (drop 4 p)\<rparr>"

definition deserialize_node :: "u64 \<Rightarrow> u32 \<Rightarrow> bytes \<Rightarrow> btree_node result" where
  "deserialize_node off pageSize buf =
     (let ps = unat pageSize
      in if word_of_nat (length buf) \<noteq> pageSize then Inl (Err ''invalid node page size'')
         else if ps < 8 \<or> length buf < ps then Inl Panic
         else if get_u64 (drop (ps - 8) buf) \<noteq> crc64 (take (ps - 8) buf) then Inl (Err ''node checksum mismatch'')
         else let ty = buf ! 0; keyCount = unat (get_u16 (gslice buf 1 3))
           in if ty = node_type_leaf then
                (case read_entries ''leaf node parse overflow'' keyCount (drop 4 buf) of
                   Inl e \<Rightarrow> Inl e
                 | Inr es \<Rightarrow>
                     if ps < 24 then Inl Panic
                     else Inr \<lparr>node_type = ty, node_offset = off, node_keys = map fst es,
                               node_values = map (loc_of_bytes \<circ> snd) es, node_children = [],
                               node_next = get_u64 (gslice buf (ps - 24) (ps - 16)),
                               node_prev = get_u64 (gslice buf (ps - 16) (ps - 8)), node_dirty = False\<rparr>)
              else if ty \<noteq> node_type_internal then Inl (Err ''unknown node type'')
              else if length buf < 12 then Inl (Err ''internal node parse overflow'')
              else case read_entries ''internal node parse overflow'' keyCount (drop 12 buf) of
                Inl e \<Rightarrow> Inl e
              | Inr es \<Rightarrow>
                  Inr \<lparr>node_type = ty, node_offset = off, node_keys = map fst es, node_values = [],
                       node_children = get_u64 (gslice buf 4 12) # map (get_u64 \<circ> snd) es,
                       node_next = 0, node_prev = 0, node_dirty = False\<rparr>)"

section \<open>Round trip\<close>

definition entries_size :: "bytes list \<Rightarrow> nat" where
  "entries_size ks = sum_list (map (\<lambda>k. 2 + length k + 8) ks)"

lemma entries_size_simps [simp]: "entries_size [] = 0" "entries_size (k # ks) = 2 + length k + 8 + entries_size ks"
  by (simp_all add: entries_size_def)

lemma write_entries_fits:
  "es \<noteq> [] \<Longrightarrow> (\<exists>d. write_entries msg ps tr pos es = Inr d) \<longleftrightarrow>
     pos + entries_size (map fst es) + tr \<le> ps"
proof (induction es arbitrary: pos)
  case (Cons e es)
  obtain k p where e: "e = (k, p)" by (cases e)
  show ?case
  proof (cases "es = []")
    case False
    then show ?thesis
      using Cons.IH [of "pos + 2 + length k + 8"] e by (auto split: sum.splits)
  qed (auto simp: e)
qed simp

lemma write_entries_length:
  "write_entries msg ps tr pos es = Inr d \<Longrightarrow> (\<forall>e \<in> set es. length (snd e) = 8) \<Longrightarrow>
    length d = entries_size (map fst es) \<and> (es \<noteq> [] \<longrightarrow> pos + length d + tr \<le> ps)"
proof (induction es arbitrary: pos d)
  case (Cons e es)
  obtain k p where e: "e = (k, p)" by (cases e)
  with Cons.prems(1) obtain d' where d': "write_entries msg ps tr (pos + 2 + length k + 8) es = Inr d'"
    "d = put_u16 (word_of_nat (length k)) @ k @ p @ d'" "pos + 2 + length k + 8 + tr \<le> ps"
    by (auto split: if_splits sum.splits)
  then show ?case using Cons.IH [OF d'(1)] Cons.prems(2) e by (cases "es = []") auto
qed simp

lemma read_write_entries:
  assumes "write_entries msg ps tr pos es = Inr d" and "\<forall>e \<in> set es. length (snd e) = 8" and "ps \<le> 65536" "0 < tr"
  shows "read_entries msg' (length es) (d @ rest) = Inr es"
  using assms(1,2)
proof (induction es arbitrary: pos d)
  case (Cons e es)
  obtain k p where e: "e = (k, p)" by (cases e)
  with Cons.prems(1) obtain d' where d': "write_entries msg ps tr (pos + 2 + length k + 8) es = Inr d'"
    "d = put_u16 (word_of_nat (length k)) @ k @ p @ d'" "pos + 2 + length k + 8 + tr \<le> ps"
    by (auto split: if_splits sum.splits)
  have "unat (word_of_nat (length k) :: u16) = length k"
    using d'(3) assms(3,4) by (simp add: unat_of_nat)
  then show ?case using Cons.IH [OF d'(1)] Cons.prems(2) d'(2) e by (simp add: gslice_def)
qed simp

lemma length_loc_bytes [simp]: "length (loc_bytes l) = 8"
  by (simp add: loc_bytes_def)

lemma loc_of_loc_bytes [simp]: "loc_of_bytes (loc_bytes l) = l"
  by (simp add: loc_of_bytes_def loc_bytes_def)

lemma seal_page_parts:
  "ps = length d + 8 \<Longrightarrow> drop (ps - 8) (seal_page d) = put_u64 (crc64 d)"
  "ps = length d + 8 \<Longrightarrow> take (ps - 8) (seal_page d) = d" "length (seal_page d) = length d + 8"
  by (simp_all add: seal_page_def)

lemma entries_size_ge: "10 * length ks \<le> entries_size ks"
  by (induction ks) simp_all

text \<open>A node as the tree keeps it: leaves have values and links, internal nodes have children.\<close>

definition node_wf :: "btree_node \<Rightarrow> bool" where
  "node_wf n \<longleftrightarrow>
     (if node_type n = node_type_leaf then node_children n = []
      else node_type n = node_type_internal \<and> node_values n = [] \<and> node_next n = 0 \<and> node_prev n = 0)"

text \<open>
  The page with the entries \<open>es\<close> behind the header and \<open>pre\<close>, zeros up to the trailer \<open>tr\<close>, sealed.
\<close>

lemma page_layout:
  assumes "length hdr = 4" "length hdr + length pre + length d + length tr + 8 \<le> ps"
  shows "take (ps - (length tr + 8)) (pad_to ps (hdr @ pre @ d)) =
    hdr @ pre @ d @ replicate (ps - (length tr + 8) - (4 + length pre + length d)) 0"
  using assms by (simp add: pad_to_def)

lemma deserialize_sealed:
  assumes "length d + 8 = unat ps"
  shows "deserialize_node off ps (seal_page d) =
    (let P = unat ps; buf = seal_page d; ty = buf ! 0; keyCount = unat (get_u16 (gslice buf 1 3))
     in if ty = node_type_leaf then
          (case read_entries ''leaf node parse overflow'' keyCount (drop 4 buf) of
             Inl e \<Rightarrow> Inl e
           | Inr es \<Rightarrow>
               if P < 24 then Inl Panic
               else Inr \<lparr>node_type = ty, node_offset = off, node_keys = map fst es,
                         node_values = map (loc_of_bytes \<circ> snd) es, node_children = [],
                         node_next = get_u64 (gslice buf (P - 24) (P - 16)),
                         node_prev = get_u64 (gslice buf (P - 16) (P - 8)), node_dirty = False\<rparr>)
        else if ty \<noteq> node_type_internal then Inl (Err ''unknown node type'')
        else if length buf < 12 then Inl (Err ''internal node parse overflow'')
        else case read_entries ''internal node parse overflow'' keyCount (drop 12 buf) of
          Inl e \<Rightarrow> Inl e
        | Inr es \<Rightarrow>
            Inr \<lparr>node_type = ty, node_offset = off, node_keys = map fst es, node_values = [],
                 node_children = get_u64 (gslice buf 4 12) # map (get_u64 \<circ> snd) es,
                 node_next = 0, node_prev = 0, node_dirty = False\<rparr>)"
proof -
  have "word_of_nat (length (seal_page d)) = ps" using assms by (simp add: seal_page_parts)
  moreover have "get_u64 (drop (unat ps - 8) (seal_page d)) = crc64 (take (unat ps - 8) (seal_page d))"
    using assms get_put_u64 [of "crc64 d" "[]"] by (simp add: seal_page_def flip: assms)
  ultimately show ?thesis using assms by (simp add: deserialize_node_def seal_page_parts Let_def)
qed

lemma serialize_leaf_round_trip:
  assumes "node_type n = node_type_leaf" "node_children n = []"
    and "serialize_node n ps = Inr buf" and "28 \<le> unat ps" "unat ps \<le> 65536"
  shows "deserialize_node (node_offset n) ps buf = Inr (n\<lparr>node_dirty := False\<rparr>)"
proof -
  let ?P = "unat ps" and ?es = "zip (node_keys n) (map loc_bytes (node_values n))"
  let ?tr = "put_u64 (node_next n) @ put_u64 (node_prev n)"
  have len: "length (node_values n) = length (node_keys n)"
    using assms(1,3,4) by (auto simp: serialize_node_def is_leaf_def Let_def split: if_splits)
  then have ks: "map fst ?es = node_keys n" "length ?es = length (node_keys n)"
    and vs: "map (loc_of_bytes \<circ> snd) ?es = node_values n" "\<forall>e \<in> set ?es. length (snd e) = 8"
    by (auto simp: map_zip_map2 list_eq_iff_nth_eq dest!: set_zip_rightD)
  obtain d where d: "write_entries ''leaf node overflow'' ?P 24 4 ?es = Inr d"
    "buf = seal_page (take (?P - 24) (pad_to ?P (node_header n @ d)) @ ?tr)"
    using assms(1,3,4) len by (auto simp: serialize_node_def is_leaf_def Let_def split: if_splits sum.splits)
  have fit: "4 + length d + 24 \<le> ?P" "length d = entries_size (node_keys n)"
    using write_entries_length [OF d(1) vs(2)] ks assms(4) by (auto simp del: map_fst_zip)
  have "length (node_keys n) < 65536" using entries_size_ge [of "node_keys n"] fit assms(5) by linarith
  then have kc: "unat (word_of_nat (length (node_keys n)) :: u16) = length (node_keys n)" by (simp add: unat_of_nat)
  define body where "body = node_header n @ d @ replicate (?P - 24 - (4 + length d)) 0"
  have hdr: "length (node_header n) = 4" by (simp add: node_header_def)
  have buf: "buf = seal_page (body @ ?tr)" and lb: "length body = ?P - 24"
    using page_layout [OF hdr, of "[]" d ?tr ?P] fit(1) d(2) hdr by (simp_all add: body_def)
  have re: "read_entries msg (length (node_keys n)) (d @ rest) = Inr ?es" for msg rest
    using read_write_entries [OF d(1) vs(2) assms(5)] ks(2) by simp
  have tl: "gslice buf (?P - 24) (?P - 16) = put_u64 (node_next n)" "gslice buf (?P - 16) (?P - 8) = put_u64 (node_prev n)"
    using lb assms(4) by (simp_all add: buf seal_page_def gslice_def)
  have hd: "buf ! 0 = node_type n" "get_u16 (gslice buf 1 3) = word_of_nat (length (node_keys n))"
    "\<exists>rest. drop 4 buf = d @ rest"
    by (simp_all add: buf seal_page_def body_def node_header_def gslice_def)
  obtain rest where rest: "drop 4 buf = d @ rest" using hd(3) by blast
  have "length (body @ ?tr) + 8 = ?P" using lb assms(4) by simp
  from deserialize_sealed [OF this, of "node_offset n"]
  show ?thesis
    unfolding buf [symmetric] Let_def hd(1,2) kc rest re tl
    using assms(1,2,4) ks(1) vs(1) by (simp del: map_fst_zip)
qed

lemma serialize_internal_round_trip:
  assumes "node_wf n" "node_type n \<noteq> node_type_leaf"
    and "serialize_node n ps = Inr buf" and "28 \<le> unat ps" "unat ps \<le> 65536"
  shows "deserialize_node (node_offset n) ps buf = Inr (n\<lparr>node_dirty := False\<rparr>)"
proof -
  have ty: "node_type n = node_type_internal" "node_values n = []" "node_next n = 0" "node_prev n = 0"
    using assms(1,2) by (simp_all add: node_wf_def)
  obtain c0 cs where ch: "node_children n = c0 # cs" "length cs = length (node_keys n)"
    using assms(2-4) by (auto simp: serialize_node_def is_leaf_def Let_def split: if_splits list.splits)
  let ?P = "unat ps" and ?es = "zip (node_keys n) (map put_u64 cs)"
  have ks: "map fst ?es = node_keys n" "length ?es = length (node_keys n)"
    and vs: "map (get_u64 \<circ> snd) ?es = cs" "\<forall>e \<in> set ?es. length (snd e) = 8"
    using ch(2) get_put_u64 [where bs = "[]"] by (auto simp: list_eq_iff_nth_eq dest!: set_zip_rightD)
  obtain d where d: "write_entries ''internal node overflow'' ?P 8 12 ?es = Inr d"
    "buf = seal_page (take (?P - 8) (pad_to ?P (node_header n @ put_u64 c0 @ d)))"
    using assms(2-4) ch by (auto simp: serialize_node_def is_leaf_def Let_def split: if_splits sum.splits)
  have fit: "12 + length d + 8 \<le> ?P" "length d = entries_size (node_keys n)"
    using write_entries_length [OF d(1) vs(2)] ks assms(4) by (auto simp del: map_fst_zip)
  have "length (node_keys n) < 65536" using entries_size_ge [of "node_keys n"] fit assms(5) by linarith
  then have kc: "unat (word_of_nat (length (node_keys n)) :: u16) = length (node_keys n)" by (simp add: unat_of_nat)
  define body where "body = node_header n @ put_u64 c0 @ d @ replicate (?P - 8 - (4 + 8 + length d)) 0"
  have hdr: "length (node_header n) = 4" by (simp add: node_header_def)
  have buf: "buf = seal_page body" and lb: "length body = ?P - 8"
    using page_layout [OF hdr, of "put_u64 c0" d "[]" ?P] fit(1) d(2) hdr by (simp_all add: body_def)
  have re: "read_entries msg (length (node_keys n)) (d @ rest) = Inr ?es" for msg rest
    using read_write_entries [OF d(1) vs(2) assms(5)] ks(2) by simp
  have hd: "buf ! 0 = node_type n" "get_u16 (gslice buf 1 3) = word_of_nat (length (node_keys n))"
    "get_u64 (gslice buf 4 12) = c0" "\<exists>rest. drop 12 buf = d @ rest"
    using get_put_u64 [of c0 "[]"] by (simp_all add: buf seal_page_def body_def node_header_def gslice_def)
  obtain rest where rest: "drop 12 buf = d @ rest" using hd(4) by blast
  have "length body + 8 = ?P" using lb assms(4) by simp
  from deserialize_sealed [OF this, of "node_offset n"]
  show ?thesis
    unfolding buf [symmetric] Let_def hd(1-3) kc rest re
    using assms(2,4) ty ch(1) ks(1) vs(1) by (simp add: buf seal_page_parts lb del: map_fst_zip)
qed

lemma leaf_write_fits:
  assumes "is_leaf n" and "length (node_values n) = length (node_keys n)" and "28 \<le> unat ps"
  shows "(\<exists>buf. serialize_node n ps = Inr buf) \<longleftrightarrow> leaf_size n \<le> unat ps"
proof -
  let ?es = "zip (node_keys n) (map loc_bytes (node_values n))"
  have "map fst ?es = node_keys n" "node_keys n \<noteq> [] \<Longrightarrow> node_values n \<noteq> []" using assms(2) by auto
  then have "(\<exists>d. write_entries ''leaf node overflow'' (unat ps) 24 4 ?es = Inr d) \<longleftrightarrow> leaf_size n \<le> unat ps"
    using write_entries_fits [of ?es "''leaf node overflow''" "unat ps" 24 4] assms(2,3)
    by (cases "node_keys n = []") (auto simp: leaf_size_def entries_size_def)
  moreover have "(\<exists>buf. serialize_node n ps = Inr buf) \<longleftrightarrow>
      (\<exists>d. write_entries ''leaf node overflow'' (unat ps) 24 4 ?es = Inr d)"
    using assms by (auto simp: serialize_node_def Let_def split: sum.splits)
  ultimately show ?thesis by simp
qed

lemma serialize_node_length:
  assumes "serialize_node n ps = Inr buf" and "is_leaf n"
  shows "length buf = unat ps"
  using assms by (auto simp: serialize_node_def Let_def seal_page_parts pad_to_def split: if_splits sum.splits)

definition demo_node :: btree_node where
  "demo_node = \<lparr>node_type = node_type_leaf, node_offset = 8192, node_keys = [[1, 2], [1, 3, 5]],
     node_values = [\<lparr>segment_id = 0, loc_offset = 4096\<rparr>, \<lparr>segment_id = 1, loc_offset = 8192\<rparr>],
     node_children = [], node_next = 12288, node_prev = 0, node_dirty = True\<rparr>"

lemma demo_node_facts:
  "node_wf demo_node" "is_leaf demo_node" "length (node_values demo_node) = length (node_keys demo_node)"
  "leaf_size demo_node = 53" "node_offset demo_node = 8192"
  by (simp_all add: demo_node_def node_wf_def is_leaf_def leaf_size_def)

lemma demo_node_written: "\<exists>buf. serialize_node demo_node 4096 = Inr buf"
  using leaf_write_fits [of demo_node 4096] by (simp add: demo_node_facts)

section \<open>Properties\<close>

text \<open>
  C19: A node that \<open>serializeNode\<close> writes is read back by \<open>deserializeNode\<close> as the same node, for leaf
  and internal nodes and for every page size from 28 bytes to 64 KiB.
\<close>

theorem node_round_trip:
  assumes "node_wf n" and "serialize_node n ps = Inr buf" and "28 \<le> unat ps" and "unat ps \<le> 65536"
  shows "deserialize_node (node_offset n) ps buf = Inr (n\<lparr>node_dirty := False\<rparr>)"
proof (cases "node_type n = node_type_leaf")
  case True
  then show ?thesis using serialize_leaf_round_trip [OF True _ assms(2-4)] assms(1) by (simp add: node_wf_def)
next
  case False
  then show ?thesis using serialize_internal_round_trip [OF assms(1) _ assms(2-4)] by simp
qed

theorem node_round_trip_witness:
  "\<exists>buf. serialize_node demo_node 4096 = Inr buf \<and>
    deserialize_node 8192 4096 buf = Inr (demo_node\<lparr>node_dirty := False\<rparr>)"
proof -
  obtain buf where buf: "serialize_node demo_node 4096 = Inr buf" using demo_node_written ..
  from node_round_trip [OF demo_node_facts(1) this] buf show ?thesis by (simp add: demo_node_facts)
qed

text \<open>
  C31: A leaf whose keys and values match can be written exactly when \<open>leafSize\<close> does not exceed the
  page size, so the split test of the tree is exact.
\<close>

theorem leaf_fits_iff:
  assumes "is_leaf n" and "length (node_values n) = length (node_keys n)" and "28 \<le> unat ps"
  shows "(\<exists>buf. serialize_node n ps = Inr buf) \<longleftrightarrow> leaf_size n \<le> unat ps"
  using assms by (rule leaf_write_fits)

theorem leaf_fits_iff_witness: "\<exists>buf. serialize_node demo_node 4096 = Inr buf"
  using leaf_fits_iff [of demo_node 4096] by (simp add: demo_node_facts)

text \<open>
  C32: A page in which exactly one byte was altered, anywhere in the page, is not accepted: the
  checksum does not match.
\<close>

theorem node_corruption_detected:
  assumes "deserialize_node off ps buf = Inr n" and "length buf = unat ps" and "k < unat ps" and "b \<noteq> buf ! k"
  shows "deserialize_node off ps (buf[k := b]) = Inl (Err ''node checksum mismatch'')"
proof -
  let ?P = "unat ps"
  have ok: "8 \<le> ?P" "get_u64 (drop (?P - 8) buf) = crc64 (take (?P - 8) buf)"
    using assms(1,2) by (auto simp: deserialize_node_def Let_def split: if_splits)
  have "get_u64 (drop (?P - 8) (buf[k := b])) \<noteq> crc64 (take (?P - 8) (buf[k := b]))"
  proof (cases "k < ?P - 8")
    case True
    then have "crc64 (take (?P - 8) (buf[k := b])) \<noteq> crc64 (take (?P - 8) buf)"
      using crc64_detects_byte [of k "take (?P - 8) buf" b] assms(2,4) by (simp add: take_update_swap)
    then show ?thesis using True ok(2) by simp
  next
    case False
    let ?t = "drop (?P - 8) buf"
    have k: "k - (?P - 8) < length ?t" "b \<noteq> ?t ! (k - (?P - 8))" "length ?t = 8" using False assms(2-4) ok(1) by simp_all
    have "drop (?P - 8) (buf[k := b]) = ?t[k - (?P - 8) := b]" using False by (simp add: drop_update_swap)
    moreover have "get_u64 (?t[k - (?P - 8) := b]) \<noteq> get_u64 ?t"
      using put_get_u64 [of ?t] put_get_u64 [of "?t[k - (?P - 8) := b]"] k by (metis length_list_update nth_list_update_eq)
    ultimately show ?thesis using False ok(2) by simp
  qed
  then show ?thesis using assms(2) ok(1) by (simp add: deserialize_node_def)
qed

theorem node_corruption_detected_witness:
  "\<exists>buf. deserialize_node 8192 4096 (buf[17 := buf ! 17 + 1]) = Inl (Err ''node checksum mismatch'')"
proof -
  obtain buf where buf: "serialize_node demo_node 4096 = Inr buf" using demo_node_written ..
  have "deserialize_node 8192 4096 buf = Inr (demo_node\<lparr>node_dirty := False\<rparr>)"
    using serialize_leaf_round_trip [OF _ _ buf] by (simp add: demo_node_def)
  moreover have "length buf = unat (4096 :: u32)" using serialize_node_length [OF buf demo_node_facts(2)] by simp
  ultimately show ?thesis using node_corruption_detected [of 8192 4096 buf _ 17 "buf ! 17 + 1"] by auto
qed

end
