(* ===== verification/Index_File.thy ===== *)
theory Index_File
  imports Node_Codec
begin

text \<open>
  The file of a persistent index: \<open>src/index/persist_file.go\<close>. The first page holds the header, node
  pages follow. \<open>if_size\<close> is the size the code tracks, \<open>if_bytes\<close> the contents of the file.

  Results: a header that was written is read back (\<open>open_index_file_written\<close>), a page that was
  written is read back as the node, and writing one page leaves the header and the other pages
  alone.
\<close>

section \<open>State and operations\<close>

record index_header =
  ih_magic :: u32
  ih_type :: u32
  ih_version :: u64
  ih_root :: u64
  ih_node_count :: u64
  ih_page_size :: u32
  ih_format :: u32
  ih_entry_count :: u64

record index_file =
  if_bytes :: bytes
  if_page_size :: u32
  if_header :: index_header
  if_size :: nat
  if_pending :: bool

definition index_magic :: u32 where "index_magic = 0x494E4458"
definition index_version :: u64 where "index_version = 2"
definition index_header_format :: u32 where "index_header_format = 1"

definition header_bytes :: "index_header \<Rightarrow> bytes" where
  "header_bytes h = put_u32 (ih_magic h) @ put_u32 (ih_type h) @ put_u64 (ih_version h) @ put_u64 (ih_root h) @
     put_u64 (ih_node_count h) @ put_u32 (ih_page_size h) @ put_u32 (ih_format h) @ put_u64 (ih_entry_count h)"

definition write_header :: "index_file \<Rightarrow> index_file" where
  "write_header f =
     (let ps = unat (if_page_size f); buf = seal_page (take (ps - 8) (pad_to ps (header_bytes (if_header f))))
      in f\<lparr>if_bytes := write_at (if_bytes f) buf 0, if_size := max (if_size f) ps, if_pending := True\<rparr>)"

definition read_header :: "index_file \<Rightarrow> index_header result" where
  "read_header f =
     (case wrap_err ''read index header'' (read_at (if_bytes f) (unat (if_page_size f)) 0) of
        Inl e \<Rightarrow> Inl e
      | Inr buf \<Rightarrow>
          Inr \<lparr>ih_magic = get_u32 (gslice buf 0 4), ih_type = get_u32 (gslice buf 4 8),
               ih_version = get_u64 (gslice buf 8 16), ih_root = get_u64 (gslice buf 16 24),
               ih_node_count = get_u64 (gslice buf 24 32), ih_page_size = get_u32 (gslice buf 32 36),
               ih_format = get_u32 (gslice buf 36 40), ih_entry_count = get_u64 (gslice buf 40 48)\<rparr>)"

text \<open>Opening: the contents of the file, or None when it does not exist.\<close>

definition open_index_file :: "bytes option \<Rightarrow> u32 \<Rightarrow> u32 \<Rightarrow> bool \<Rightarrow> index_file result" where
  "open_index_file disk indexType pageSize createIfMissing =
     (if pageSize \<notin> {4096, 8192, 16384} then Inl (Err ''invalid index page size'')
      else if disk = None \<and> \<not> createIfMissing then Inl (Wrap ''open index file'' (Err ''no such file''))
      else let bs = (case disk of None \<Rightarrow> [] | Some b \<Rightarrow> b);
               h0 = \<lparr>ih_magic = 0, ih_type = 0, ih_version = 0, ih_root = 0, ih_node_count = 0, ih_page_size = 0,
                     ih_format = 0, ih_entry_count = 0\<rparr>;
               fi = \<lparr>if_bytes = bs, if_page_size = pageSize, if_header = h0, if_size = length bs, if_pending = False\<rparr>
        in if length bs = 0
           then Inr ((write_header (fi\<lparr>if_header := h0\<lparr>ih_magic := index_magic, ih_type := indexType,
                       ih_version := index_version, ih_page_size := pageSize, ih_format := index_header_format\<rparr>\<rparr>))
                     \<lparr>if_size := unat pageSize\<rparr>)
           else case read_header fi of
             Inl e \<Rightarrow> Inl e
           | Inr h \<Rightarrow>
               if ih_magic h \<noteq> index_magic then Inl (Err ''invalid index magic'')
               else if ih_type h \<noteq> indexType then Inl (Err ''index type mismatch'')
               else if ih_page_size h \<noteq> pageSize then Inl (Err ''index page size mismatch'')
               else if ih_version h \<noteq> index_version then Inl (Err ''index version mismatch'')
               else Inr (fi\<lparr>if_header := h\<rparr>))"

definition allocate_node_offset :: "index_file \<Rightarrow> u64 \<times> index_file" where
  "allocate_node_offset f =
     (let h = if_header f; off = ucast (if_page_size f) + ih_node_count h * ucast (if_page_size f)
      in (off, f\<lparr>if_header := h\<lparr>ih_node_count := ih_node_count h + 1\<rparr>\<rparr>))"

definition read_node_page :: "u64 \<Rightarrow> index_file \<Rightarrow> bytes result" where
  "read_node_page off f =
     (if sint off \<ge> int (if_size f) then Inl (Err ''read index node: offset is beyond file size'')
      else if sint off + int (unat (if_page_size f)) > int (if_size f)
      then Inl (Err ''read index node: page would exceed file size'')
      else if sint off < 0 then Inl (Wrap ''read index node'' (Err ''negative offset''))
      else wrap_err ''read index node'' (read_at (if_bytes f) (unat (if_page_size f)) (nat (sint off))))"

definition write_node_page :: "u64 \<Rightarrow> bytes \<Rightarrow> index_file \<Rightarrow> index_file result" where
  "write_node_page off buf f =
     (if word_of_nat (length buf) \<noteq> if_page_size f then Inl (Err ''invalid node page size'')
      else if sint off < 0 then Inl (Wrap ''write index node'' (Err ''negative offset''))
      else let p = nat (sint off)
        in Inr (f\<lparr>if_bytes := write_at (if_bytes f) buf p, if_size := max (if_size f) (p + length buf), if_pending := True\<rparr>))"

definition sync_file :: "index_file \<Rightarrow> index_file" where
  "sync_file f = f\<lparr>if_pending := False\<rparr>"

section \<open>Header\<close>

definition file_ok :: "index_file \<Rightarrow> bool" where
  "file_ok f \<longleftrightarrow> if_page_size f \<in> {4096, 8192, 16384} \<and> if_size f = length (if_bytes f)"

lemma page_size_cases:
  assumes "file_ok f"
  shows "unat (if_page_size f) \<in> {4096, 8192, 16384}"
  using assms by (auto simp: file_ok_def)

lemma header_page_length:
  assumes "file_ok f"
  shows "length (seal_page (take (unat (if_page_size f) - 8) (pad_to (unat (if_page_size f)) (header_bytes h)))) = unat (if_page_size f)"
  using page_size_cases [OF assms] by (auto simp: seal_page_def pad_to_def header_bytes_def)

lemma write_header_simps [simp]:
  "if_page_size (write_header f) = if_page_size f" "if_header (write_header f) = if_header f" "if_pending (write_header f)"
  by (simp_all add: write_header_def Let_def)

lemma write_header_ok: "file_ok f \<Longrightarrow> file_ok (write_header f)"
  using header_page_length [of f "if_header f"] by (simp add: file_ok_def write_header_def Let_def)

text \<open>The first page after a header was written.\<close>

definition header_stored :: "index_file \<Rightarrow> index_header \<Rightarrow> bool" where
  "header_stored f h \<longleftrightarrow> (\<exists>rest. if_bytes f = header_bytes h @ rest \<and> unat (if_page_size f) \<le> length (if_bytes f))"

lemma write_header_stored:
  assumes "file_ok f"
  shows "header_stored (write_header f) (if_header f)"
proof -
  let ?ps = "unat (if_page_size f)"
  have "48 \<le> ?ps - 8" using page_size_cases [OF assms] by auto
  then have "take (?ps - 8) (pad_to ?ps (header_bytes (if_header f))) =
      header_bytes (if_header f) @ take (?ps - 8 - 48) (replicate (?ps - 48) 0)"
    by (simp add: pad_to_def header_bytes_def)
  then show ?thesis using header_page_length [OF assms, of "if_header f"] length_write_at [of "if_bytes f"]
    by (auto simp: header_stored_def write_header_def Let_def write_at_def seal_page_def)
qed

lemma read_header_stored:
  assumes "header_stored f h" "file_ok f"
  shows "read_header f = Inr h"
proof -
  let ?ps = "unat (if_page_size f)"
  obtain rest where r: "if_bytes f = header_bytes h @ rest" "?ps \<le> length (if_bytes f)"
    using assms(1) by (auto simp: header_stored_def)
  have "48 \<le> ?ps" using page_size_cases [OF assms(2)] by auto
  then obtain R where "take ?ps (header_bytes h @ rest) = header_bytes h @ R" by (simp add: header_bytes_def)
  then have rd: "read_at (if_bytes f) ?ps 0 = Inr (header_bytes h @ R)" using r by (simp add: read_at_def gslice_def)
  show ?thesis
    unfolding read_header_def rd wrap_err_simps sum.case
    by (simp add: header_bytes_def gslice_def)
qed

section \<open>Pages\<close>

text \<open>Offsets of node pages: multiples of the page size behind the header, within a signed 64-bit offset.\<close>

definition page_off :: "nat \<Rightarrow> u64 \<Rightarrow> bool" where
  "page_off ps off \<longleftrightarrow> ps dvd unat off \<and> ps \<le> unat off \<and> unat off + ps < 2 ^ 63"

lemma sint_small:
  fixes off :: u64
  assumes "unat off < 2 ^ 63"
  shows "sint off = int (unat off)"
proof -
  obtain u where u: "unat off = u" "uint off = int u" by simp
  have "signed_take_bit 63 (int u) = int u"
    by (rule signed_take_bit_int_eq_self) (use assms u(1) in simp_all)
  then show ?thesis by (simp add: sint_uint u)
qed

lemma page_off_sint: "page_off ps off \<Longrightarrow> sint off = int (unat off)"
  by (rule sint_small) (simp add: page_off_def)

lemma page_off_disjoint:
  assumes "page_off ps a" "page_off ps b" "a \<noteq> b"
  shows "unat a + ps \<le> unat b \<or> unat b + ps \<le> unat a"
proof -
  obtain x where x: "unat a = ps * x" using assms(1) unfolding page_off_def by (elim conjE dvdE)
  obtain y where y: "unat b = ps * y" using assms(2) unfolding page_off_def by (elim conjE dvdE)
  note xy = x y
  have "x \<noteq> y" using assms(3) xy by (metis word_unat_eq_iff)
  then consider "x + 1 \<le> y" | "y + 1 \<le> x" by linarith
  then show ?thesis
  proof cases
    case 1
    from mult_le_mono2 [OF this, of ps] show ?thesis unfolding xy by (simp add: algebra_simps)
  next
    case 2
    from mult_le_mono2 [OF this, of ps] show ?thesis unfolding xy by (simp add: algebra_simps)
  qed
qed

lemma gslice_write_at:
  assumes "hi \<le> length f" "hi \<le> p \<or> p + length d \<le> lo"
  shows "gslice (write_at f d p) lo hi = gslice f lo hi"
  using assms
proof (elim disjE)
  assume "hi \<le> p"
  then have "take hi (write_at f d p) = take hi f" using assms(1) by (simp add: write_at_def pad_to_def take_append)
  moreover have "gslice xs lo hi = drop lo (take hi xs)" for xs :: bytes by (simp add: gslice_def drop_take)
  ultimately show ?thesis by simp
next
  assume a: "p + length d \<le> lo"
  show ?thesis
  proof (cases "lo \<le> hi")
    case True
    then have "drop lo (write_at f d p) = drop lo f" using a assms(1) by (simp add: write_at_def pad_to_def)
    then show ?thesis by (simp add: gslice_def)
  qed (simp add: gslice_def)
qed

lemma gslice_write_at_same: "gslice (write_at f d p) p (p + length d) = d"
  by (simp add: write_at_def gslice_def)

text \<open>Reading a page back gives its contents, in the terms of the file's bytes.\<close>

lemma read_node_page_eq:
  assumes "file_ok f" "page_off (unat (if_page_size f)) off"
  shows "read_node_page off f = Inr buf \<longleftrightarrow>
    unat off + unat (if_page_size f) \<le> length (if_bytes f) \<and>
    buf = gslice (if_bytes f) (unat off) (unat off + unat (if_page_size f))"
proof -
  obtain u where u: "unat off = u" "sint off = int u" using page_off_sint [OF assms(2)] by blast
  obtain P where P: "unat (if_page_size f) = P" by blast
  have "0 < P" "if_size f = length (if_bytes f)" using assms(1) page_size_cases [OF assms(1)] P by (auto simp: file_ok_def)
  then show ?thesis unfolding read_node_page_def u P by (auto simp: read_at_def)
qed

definition page_of :: "index_file \<Rightarrow> u64 \<Rightarrow> btree_node option" where
  "page_of f off =
     (case read_node_page off f of
        Inl _ \<Rightarrow> None
      | Inr buf \<Rightarrow> (case deserialize_node off (if_page_size f) buf of Inl _ \<Rightarrow> None | Inr n \<Rightarrow> Some n))"

lemma page_of_Some:
  "page_of f off = Some n \<longleftrightarrow> (\<exists>buf. read_node_page off f = Inr buf \<and> deserialize_node off (if_page_size f) buf = Inr n)"
  by (auto simp: page_of_def split: sum.splits)

lemma page_of_cong:
  assumes "if_bytes f' = if_bytes f" "if_page_size f' = if_page_size f" "if_size f' = if_size f"
  shows "page_of f' = page_of f"
proof
  fix off
  have "read_node_page off f' = read_node_page off f" using assms by (simp add: read_node_page_def)
  then show "page_of f' off = page_of f off" using assms(2) by (simp only: page_of_def)
qed

abbreviation clean :: "btree_node \<Rightarrow> btree_node" where
  "clean n \<equiv> n\<lparr>node_dirty := False\<rparr>"

text \<open>Nodes that fit their page.\<close>

definition node_ok :: "u32 \<Rightarrow> btree_node \<Rightarrow> bool" where
  "node_ok ps n \<longleftrightarrow> node_wf n \<and> page_off (unat ps) (node_offset n) \<and>
     (if is_leaf n then length (node_values n) = length (node_keys n) \<and> leaf_size n \<le> unat ps
      else length (node_children n) = length (node_keys n) + 1 \<and> internal_size n \<le> unat ps)"

lemma node_ok_clean [simp]: "node_ok ps (clean n) = node_ok ps n"
  by (cases n) (simp add: node_ok_def node_wf_def is_leaf_def leaf_size_def internal_size_def)

lemma node_ok_serialize:
  assumes "node_ok ps n" "28 \<le> unat ps" "unat ps \<le> 65536"
  obtains buf where "serialize_node n ps = Inr buf" "length buf = unat ps"
    "deserialize_node (node_offset n) ps buf = Inr (clean n)"
proof (cases "is_leaf n")
  case True
  then obtain buf where b: "serialize_node n ps = Inr buf" using leaf_write_fits [OF True] assms by (auto simp: node_ok_def)
  moreover have "node_type n = node_type_leaf" "node_children n = []" using assms(1) True by (simp_all add: node_ok_def node_wf_def is_leaf_def)
  ultimately show thesis
    using that serialize_node_length [OF b True] serialize_leaf_round_trip [OF _ _ b assms(2,3)] by blast
next
  case False
  let ?es = "zip (node_keys n) (map put_u64 (tl (node_children n)))"
  have ch: "length (node_children n) = length (node_keys n) + 1" "internal_size n \<le> unat ps" "node_wf n"
    using assms(1) False by (simp_all add: node_ok_def)
  then obtain c0 cs where c: "node_children n = c0 # cs" "length cs = length (node_keys n)" by (cases "node_children n") auto
  have ks: "map fst ?es = node_keys n" using c by simp
  obtain d where d: "write_entries ''internal node overflow'' (unat ps) 8 12 ?es = Inr d"
  proof (cases "node_keys n = []")
    case True
    then show thesis using that by simp
  next
    case ne: False
    then have "?es \<noteq> []" using c by (cases "node_keys n"; cases cs) auto
    then show thesis
      using write_entries_fits [of ?es "''internal node overflow''" "unat ps" 8 12] ch(2) ks c that
      by (auto simp: internal_size_def entries_size_def)
  qed
  have b: "serialize_node n ps = Inr (seal_page (take (unat ps - 8) (pad_to (unat ps) (node_header n @ put_u64 c0 @ d))))"
    using False c d assms(2) by (simp add: serialize_node_def Let_def)
  moreover have "length (seal_page (take (unat ps - 8) (pad_to (unat ps) (node_header n @ put_u64 c0 @ d)))) = unat ps"
    using assms(2) by (simp add: seal_page_parts pad_to_def)
  moreover have "deserialize_node (node_offset n) ps (seal_page (take (unat ps - 8) (pad_to (unat ps) (node_header n @ put_u64 c0 @ d)))) = Inr (clean n)"
    using serialize_internal_round_trip [OF ch(3) _ b assms(2,3)] False by (simp add: is_leaf_def)
  ultimately show thesis using that by blast
qed

text \<open>Writing a page: it can be read, the other pages and the header are as before.\<close>

definition page_written :: "index_file \<Rightarrow> u64 \<Rightarrow> bytes \<Rightarrow> index_file" where
  "page_written f off buf = f\<lparr>if_bytes := write_at (if_bytes f) buf (unat off), if_size := max (if_size f) (unat off + length buf),
     if_pending := True\<rparr>"

lemma write_node_page_eq:
  assumes "length buf = unat (if_page_size f)" "page_off (unat (if_page_size f)) off"
  shows "write_node_page off buf f = Inr (page_written f off buf)"
proof -
  obtain u where "unat off = u" "sint off = int u" using page_off_sint [OF assms(2)] by blast
  then show ?thesis using assms(1) by (simp add: write_node_page_def page_written_def Let_def)
qed

lemma page_written_simps [simp]:
  "if_page_size (page_written f off buf) = if_page_size f" "if_header (page_written f off buf) = if_header f"
  "if_pending (page_written f off buf)"
  by (simp_all add: page_written_def)

lemma page_written_ok: "file_ok f \<Longrightarrow> file_ok (page_written f off buf)"
  by (simp add: file_ok_def page_written_def)

lemma page_written_same:
  assumes "file_ok f" "length buf = unat (if_page_size f)" "page_off (unat (if_page_size f)) off"
    "deserialize_node off (if_page_size f) buf = Inr n"
  shows "page_of (page_written f off buf) off = Some n"
proof -
  have "read_node_page off (page_written f off buf) = Inr buf"
    using read_node_page_eq [OF page_written_ok [OF assms(1)], of off buf off buf] gslice_write_at_same [of "if_bytes f" buf "unat off"] assms(2,3)
    by (simp add: page_written_def)
  then show ?thesis using assms(4) by (simp add: page_of_Some)
qed

lemma page_written_other:
  assumes "file_ok f" "length buf = unat (if_page_size f)" "page_off (unat (if_page_size f)) off"
    "page_off (unat (if_page_size f)) off'" "off' \<noteq> off" "page_of f off' = Some n"
  shows "page_of (page_written f off buf) off' = Some n"
proof -
  let ?ps = "unat (if_page_size f)"
  obtain b where b: "read_node_page off' f = Inr b" "deserialize_node off' (if_page_size f) b = Inr n"
    using assms(6) by (auto simp: page_of_Some)
  have r: "unat off' + ?ps \<le> length (if_bytes f)" "b = gslice (if_bytes f) (unat off') (unat off' + ?ps)"
    using b(1) read_node_page_eq [OF assms(1,4)] by auto
  have "unat off' + ?ps \<le> unat off \<or> unat off + length buf \<le> unat off'"
    using page_off_disjoint [OF assms(3,4)] assms(2,5) by auto
  from gslice_write_at [OF r(1) this]
  have "read_node_page off' (page_written f off buf) = Inr b"
    using read_node_page_eq [OF page_written_ok [OF assms(1)], of off buf off' b] r assms(4)
    by (simp add: page_written_def)
  then show ?thesis using b(2) by (auto simp: page_of_Some)
qed

lemma page_written_header:
  assumes "file_ok f" "page_off (unat (if_page_size f)) off" "header_stored f h"
  shows "header_stored (page_written f off buf) h"
proof -
  obtain rest where r: "if_bytes f = header_bytes h @ rest" "unat (if_page_size f) \<le> length (if_bytes f)"
    using assms(3) by (auto simp: header_stored_def)
  have l: "length (header_bytes h) = 48" by (simp add: header_bytes_def)
  have le: "48 \<le> unat off" using assms(2) page_size_cases [OF assms(1)] by (auto simp: page_off_def)
  have "take 48 (write_at (if_bytes f) buf (unat off)) = take 48 (if_bytes f)"
    using gslice_write_at [of 48 "if_bytes f" "unat off" buf 0] le r(1) l by (simp add: gslice_def)
  then have "take 48 (write_at (if_bytes f) buf (unat off)) = header_bytes h" using r(1) l by simp
  then have "write_at (if_bytes f) buf (unat off) = header_bytes h @ drop 48 (write_at (if_bytes f) buf (unat off))"
    by (metis append_take_drop_id)
  moreover have "unat (if_page_size f) \<le> length (write_at (if_bytes f) buf (unat off))" using r(2) by simp
  ultimately show ?thesis by (auto simp: header_stored_def page_written_def)
qed

lemma write_header_page:
  assumes "file_ok f" "page_off (unat (if_page_size f)) off" "page_of f off = Some n"
  shows "page_of (write_header f) off = Some n"
proof -
  let ?ps = "unat (if_page_size f)" and ?buf = "seal_page (take (unat (if_page_size f) - 8) (pad_to (unat (if_page_size f)) (header_bytes (if_header f))))"
  obtain b where b: "read_node_page off f = Inr b" "deserialize_node off (if_page_size f) b = Inr n"
    using assms(3) by (auto simp: page_of_Some)
  have r: "unat off + ?ps \<le> length (if_bytes f)" "b = gslice (if_bytes f) (unat off) (unat off + ?ps)"
    using b(1) read_node_page_eq [OF assms(1,2)] by auto
  have "0 + length ?buf \<le> unat off" using assms(2) header_page_length [OF assms(1), of "if_header f"] by (simp add: page_off_def)
  then have "gslice (write_at (if_bytes f) ?buf 0) (unat off) (unat off + ?ps) = b"
    using gslice_write_at [OF r(1)] r(2) by blast
  then have "read_node_page off (write_header f) = Inr b"
    using read_node_page_eq [OF write_header_ok [OF assms(1)], of off b] r assms(2)
    by (simp add: write_header_def Let_def)
  then show ?thesis using b(2) by (auto simp: page_of_Some)
qed

section \<open>Reopening\<close>

text \<open>
  A file with a header that the code wrote opens again, with that header and all its pages.
\<close>

lemma open_index_file_written:
  assumes "file_ok f" "header_stored f h" "ih_magic h = index_magic" "ih_version h = index_version"
    "ih_page_size h = if_page_size f" "ih_type h = ty"
  shows "\<exists>f'. open_index_file (Some (if_bytes f)) ty (if_page_size f) create = Inr f' \<and> file_ok f' \<and>
    if_header f' = h \<and> if_page_size f' = if_page_size f \<and> page_of f' = page_of f"
proof -
  let ?f = "\<lambda>x. \<lparr>if_bytes = if_bytes f, if_page_size = if_page_size f, if_header = x, if_size = length (if_bytes f), if_pending = False\<rparr>"
  define f' where "f' = ?f h"
  have ok: "file_ok (?f x)" for x using assms(1) by (simp add: file_ok_def)
  have rd: "read_header (?f x) = Inr h" for x
    by (rule read_header_stored [OF _ ok]) (use assms(2) in \<open>simp add: header_stored_def\<close>)
  have ne: "length (if_bytes f) \<noteq> 0" using assms(2) page_size_cases [OF assms(1)] by (auto simp: header_stored_def)
  have ps: "if_page_size f \<in> {4096, 8192, 16384}" using assms(1) by (simp add: file_ok_def)
  have "open_index_file (Some (if_bytes f)) ty (if_page_size f) create = Inr f'"
    unfolding open_index_file_def Let_def option.case rd sum.case
    using ps ne assms(3-6) by (simp add: f'_def)
  moreover have "page_of f' = page_of f"
    using assms(1) by (intro page_of_cong) (simp_all add: f'_def file_ok_def)
  ultimately show ?thesis using ok [of h] by (simp add: f'_def)
qed

end
