(* ===== verification/Page_Cache.thy ===== *)
theory Page_Cache
  imports Index_File
begin

text \<open>
  The cache of tree nodes (\<open>src/cache/btree_cache.go\<close>) over an index file, with \<open>loadNode\<close> and the
  other accesses of \<open>src/index/persist_tree.go\<close> to it. The map of entries and the list in order of use
  are one association list here, most recently used first; the cache has one writer, the file of
  its tree. A node of the code is an object shared by the cache and the running operation; here it is
  identified by its offset, which is right as long as the cache holds it: \<open>held\<close> states which nodes
  cannot have been evicted because they were among the last to be used.

  Results: what the tree sees through the cache (\<open>view\<close>) is not changed by loading, evicting and
  flushing, and changed by an update exactly at the updated node, as long as every node in the cache
  fits its page. Flushing makes the file agree with the view.
\<close>

section \<open>The cache\<close>

record cache_entry =
  ce_node :: btree_node
  ce_dirty :: bool

record btree_cache =
  bc_capacity :: nat
  bc_page_size :: u32
  bc_entries :: "(u64 \<times> cache_entry) list"
  bc_dirty_count :: int
  bc_hits :: u64
  bc_misses :: u64
  bc_evictions :: u64

definition cache_capacity :: "int \<Rightarrow> u32 \<Rightarrow> nat" where
  "cache_capacity cacheMB pageSize = nat (max 16 (cacheMB * 1024 * 1024 div uint pageSize))"

definition new_btree_cache :: "u32 \<Rightarrow> int \<Rightarrow> btree_cache" where
  "new_btree_cache pageSize cacheMB = \<lparr>bc_capacity = cache_capacity cacheMB pageSize, bc_page_size = pageSize, bc_entries = [],
     bc_dirty_count = 0, bc_hits = 0, bc_misses = 0, bc_evictions = 0\<rparr>"

definition to_front :: "u64 \<Rightarrow> cache_entry \<Rightarrow> (u64 \<times> cache_entry) list \<Rightarrow> (u64 \<times> cache_entry) list" where
  "to_front off e es = (off, e) # filter (\<lambda>p. fst p \<noteq> off) es"

definition cache_get :: "u64 \<Rightarrow> btree_cache \<Rightarrow> btree_node option \<times> btree_cache" where
  "cache_get off c =
     (case map_of (bc_entries c) off of
        None \<Rightarrow> (None, c\<lparr>bc_misses := bc_misses c + 1\<rparr>)
      | Some e \<Rightarrow> (Some (ce_node e), c\<lparr>bc_hits := bc_hits c + 1, bc_entries := to_front off e (bc_entries c)\<rparr>))"

definition write_node :: "u32 \<Rightarrow> btree_node \<Rightarrow> index_file \<Rightarrow> index_file result" where
  "write_node pageSize n f =
     (case serialize_node n pageSize of
        Inl e \<Rightarrow> Inl e
      | Inr buf \<Rightarrow> write_node_page (node_offset n) buf f)"

definition evict_one :: "index_file \<Rightarrow> btree_cache \<Rightarrow> go_error option \<times> index_file \<times> btree_cache" where
  "evict_one f c =
     (if bc_entries c = [] then (Some (Err ''cache eviction failed''), f, c)
      else let (off, e) = last (bc_entries c);
               c' = c\<lparr>bc_entries := butlast (bc_entries c), bc_evictions := bc_evictions c + 1\<rparr>
        in if ce_dirty e
           then (case write_node (bc_page_size c) (ce_node e) f of
                   Inl x \<Rightarrow> (Some x, f, c)
                 | Inr f' \<Rightarrow> (None, f', c'\<lparr>bc_dirty_count := bc_dirty_count c - 1\<rparr>))
           else (None, f, c'))"

definition cache_put :: "btree_node \<Rightarrow> index_file \<Rightarrow> btree_cache \<Rightarrow> go_error option \<times> index_file \<times> btree_cache" where
  "cache_put n f c =
     (case map_of (bc_entries c) (node_offset n) of
        Some e \<Rightarrow>
          let d = (node_dirty n \<and> \<not> ce_dirty e)
          in (None, f, c\<lparr>bc_entries := to_front (node_offset n) \<lparr>ce_node = n, ce_dirty = ce_dirty e \<or> node_dirty n\<rparr> (bc_entries c),
                         bc_dirty_count := (if d then bc_dirty_count c + 1 else bc_dirty_count c)\<rparr>)
      | None \<Rightarrow>
          (case (if length (bc_entries c) \<ge> bc_capacity c then evict_one f c else (None, f, c)) of
             (Some x, f', c') \<Rightarrow> (Some x, f', c')
           | (None, f', c') \<Rightarrow>
               (None, f', c'\<lparr>bc_entries := (node_offset n, \<lparr>ce_node = n, ce_dirty = node_dirty n\<rparr>) # bc_entries c',
                  bc_dirty_count := (if node_dirty n then bc_dirty_count c' + 1 else bc_dirty_count c')\<rparr>)))"

definition update_entry :: "u64 \<Rightarrow> (cache_entry \<Rightarrow> cache_entry) \<Rightarrow> (u64 \<times> cache_entry) list \<Rightarrow> (u64 \<times> cache_entry) list" where
  "update_entry off g es = map (\<lambda>(a, e). (a, if a = off then g e else e)) es"

definition cache_mark_dirty :: "u64 \<Rightarrow> btree_cache \<Rightarrow> btree_cache" where
  "cache_mark_dirty off c =
     (case map_of (bc_entries c) off of
        None \<Rightarrow> c
      | Some e \<Rightarrow>
          if ce_dirty e then c
          else c\<lparr>bc_entries := update_entry off (\<lambda>e. e\<lparr>ce_dirty := True\<rparr>) (bc_entries c), bc_dirty_count := bc_dirty_count c + 1\<rparr>)"

text \<open>
  Flushing visits the entries of a Go map, in any order; here in the order of use. It stops at the
  first node that cannot be written.
\<close>

fun flush_entries ::
  "u32 \<Rightarrow> (u64 \<times> cache_entry) list \<Rightarrow> index_file \<Rightarrow> (nat \<times> go_error option) \<times> index_file \<times> (u64 \<times> cache_entry) list" where
  "flush_entries ps [] f = ((0, None), f, [])"
| "flush_entries ps ((off, e) # es) f =
     (if \<not> ce_dirty e
      then case flush_entries ps es f of (r, f', es') \<Rightarrow> (r, f', (off, e) # es')
      else case write_node ps (ce_node e) f of
        Inl x \<Rightarrow> ((0, Some x), f, (off, e) # es)
      | Inr f1 \<Rightarrow>
          (case flush_entries ps es f1 of
             ((k, r), f', es') \<Rightarrow> ((k + 1, r), f', (off, \<lparr>ce_node = (ce_node e)\<lparr>node_dirty := False\<rparr>, ce_dirty = False\<rparr>) # es')))"

definition flush_dirty :: "index_file \<Rightarrow> btree_cache \<Rightarrow> (nat \<times> go_error option) \<times> index_file \<times> btree_cache" where
  "flush_dirty f c =
     (case flush_entries (bc_page_size c) (bc_entries c) f of
        ((k, r), f', es) \<Rightarrow> ((k, r), f', c\<lparr>bc_entries := es, bc_dirty_count := bc_dirty_count c - int k\<rparr>))"

fun evict_until :: "nat \<Rightarrow> nat \<Rightarrow> index_file \<Rightarrow> btree_cache \<Rightarrow> (nat \<times> go_error option) \<times> index_file \<times> btree_cache" where
  "evict_until 0 cap f c = ((0, None), f, c)"
| "evict_until (Suc k) cap f c =
     (if length (bc_entries c) \<le> cap then ((0, None), f, c)
      else case evict_one f c of
        (Some x, f', c') \<Rightarrow> ((0, Some x), f', c')
      | (None, f', c') \<Rightarrow> (case evict_until k cap f' c' of ((n, r), f'', c'') \<Rightarrow> ((n + 1, r), f'', c'')))"

definition resize_cache :: "int \<Rightarrow> index_file \<Rightarrow> btree_cache \<Rightarrow> (nat \<times> go_error option) \<times> index_file \<times> btree_cache" where
  "resize_cache newCacheMB f c =
     (let newCapacity = cache_capacity newCacheMB (bc_page_size c)
      in if newCapacity = bc_capacity c then ((0, None), f, c)
         else let c1 = c\<lparr>bc_capacity := newCapacity\<rparr>
           in if newCapacity \<ge> length (bc_entries c) then ((0, None), f, c1)
              else case evict_until (length (bc_entries c)) newCapacity f c1 of
                ((n, None), f', c') \<Rightarrow> ((n, None), f', c')
              | ((n, Some x), f', c') \<Rightarrow> ((n, Some x), f', c'\<lparr>bc_capacity := bc_capacity c\<rparr>))"

definition get_capacity_mb :: "btree_cache \<Rightarrow> nat" where
  "get_capacity_mb c = bc_capacity c * unat (bc_page_size c) div (1024 * 1024)"

section \<open>Trees and their nodes\<close>

record persist_tree =
  pt_file :: index_file
  pt_cache :: btree_cache
  pt_root :: u64
  pt_entry_count :: u64

definition load_node :: "u64 \<Rightarrow> persist_tree \<Rightarrow> btree_node result \<times> persist_tree" where
  "load_node off t =
     (case cache_get off (pt_cache t) of
        (Some n, c) \<Rightarrow> (Inr n, t\<lparr>pt_cache := c\<rparr>)
      | (None, c) \<Rightarrow>
          (case read_node_page off (pt_file t) of
             Inl x \<Rightarrow> (Inl x, t\<lparr>pt_cache := c\<rparr>)
           | Inr buf \<Rightarrow>
               (case deserialize_node off (if_page_size (pt_file t)) buf of
                  Inl x \<Rightarrow> (Inl x, t\<lparr>pt_cache := c\<rparr>)
                | Inr n \<Rightarrow>
                    (case cache_put n (pt_file t) c of
                       (Some x, f', c') \<Rightarrow> (Inl x, t\<lparr>pt_file := f', pt_cache := c'\<rparr>)
                     | (None, f', c') \<Rightarrow> (Inr n, t\<lparr>pt_file := f', pt_cache := c'\<rparr>)))))"

definition put_node :: "btree_node \<Rightarrow> persist_tree \<Rightarrow> go_error option \<times> persist_tree" where
  "put_node n t = (case cache_put n (pt_file t) (pt_cache t) of (x, f', c') \<Rightarrow> (x, t\<lparr>pt_file := f', pt_cache := c'\<rparr>))"

definition mark_dirty :: "u64 \<Rightarrow> persist_tree \<Rightarrow> persist_tree" where
  "mark_dirty off t = t\<lparr>pt_cache := cache_mark_dirty off (pt_cache t)\<rparr>"

text \<open>Assigning to the fields of a node: the object in the cache changes.\<close>

definition set_node :: "btree_node \<Rightarrow> persist_tree \<Rightarrow> persist_tree" where
  "set_node n t = t\<lparr>pt_cache := (pt_cache t)\<lparr>bc_entries := update_entry (node_offset n) (\<lambda>e. e\<lparr>ce_node := n\<rparr>) (bc_entries (pt_cache t))\<rparr>\<rparr>"

definition alloc_node :: "persist_tree \<Rightarrow> u64 \<times> persist_tree" where
  "alloc_node t = (case allocate_node_offset (pt_file t) of (off, f) \<Rightarrow> (off, t\<lparr>pt_file := f\<rparr>))"

definition flush_tree :: "persist_tree \<Rightarrow> go_error option \<times> persist_tree" where
  "flush_tree t =
     (let f = pt_file t; changed = (ih_entry_count (if_header f) \<noteq> pt_entry_count t);
          f1 = f\<lparr>if_header := (if_header f)\<lparr>ih_entry_count := pt_entry_count t\<rparr>\<rparr>
      in case flush_dirty f1 (pt_cache t) of
           ((k, Some x), f2, c) \<Rightarrow> (Some x, t\<lparr>pt_file := f2, pt_cache := c\<rparr>)
         | ((k, None), f2, c) \<Rightarrow>
             if k = 0 \<and> \<not> changed \<and> \<not> if_pending f2 then (None, t\<lparr>pt_file := f2, pt_cache := c\<rparr>)
             else (None, t\<lparr>pt_file := sync_file (write_header f2), pt_cache := c\<rparr>))"

section \<open>What the tree sees\<close>

definition fview :: "index_file \<Rightarrow> btree_cache \<Rightarrow> u64 \<Rightarrow> btree_node option" where
  "fview f c off =
     (if page_off (unat (if_page_size f)) off
      then case map_of (bc_entries c) off of Some e \<Rightarrow> Some (clean (ce_node e)) | None \<Rightarrow> page_of f off
      else None)"

abbreviation view :: "persist_tree \<Rightarrow> u64 \<Rightarrow> btree_node option" where
  "view t \<equiv> fview (pt_file t) (pt_cache t)"

text \<open>
  Well-formed caches: every entry can be written, and agrees with the file unless it is dirty, but for
  the nodes in \<open>X\<close>, on which an operation is at work.
\<close>

definition entry_fits :: "index_file \<Rightarrow> u64 \<Rightarrow> cache_entry \<Rightarrow> bool" where
  "entry_fits f off e \<longleftrightarrow> node_ok (if_page_size f) (ce_node e) \<and> (\<not> ce_dirty e \<longrightarrow> page_of f off = Some (clean (ce_node e)))"

definition cache_ok :: "u64 set \<Rightarrow> index_file \<Rightarrow> btree_cache \<Rightarrow> bool" where
  "cache_ok X f c \<longleftrightarrow> file_ok f \<and> bc_page_size c = if_page_size f \<and> 16 \<le> bc_capacity c \<and>
     length (bc_entries c) \<le> bc_capacity c \<and> distinct (map fst (bc_entries c)) \<and>
     (\<forall>(off, e) \<in> set (bc_entries c). node_offset (ce_node e) = off \<and> page_off (unat (if_page_size f)) off \<and>
        (off \<notin> X \<longrightarrow> entry_fits f off e))"

text \<open>The nodes in \<open>H\<close> are the most recently used ones.\<close>

definition held :: "u64 set \<Rightarrow> btree_cache \<Rightarrow> bool" where
  "held H c \<longleftrightarrow> finite H \<and> card H \<le> length (bc_entries c) \<and> set (take (card H) (map fst (bc_entries c))) = H"

definition same_store :: "index_file \<Rightarrow> btree_cache \<Rightarrow> index_file \<Rightarrow> btree_cache \<Rightarrow> bool" where
  "same_store f c f' c' \<longleftrightarrow> if_header f' = if_header f \<and> if_page_size f' = if_page_size f \<and> bc_capacity c' = bc_capacity c \<and>
     (\<forall>h. header_stored f h \<longrightarrow> header_stored f' h)"

lemma same_store_refl [simp]: "same_store f c f c"
  by (simp add: same_store_def)

lemma same_store_trans: "same_store f c f1 c1 \<Longrightarrow> same_store f1 c1 f2 c2 \<Longrightarrow> same_store f c f2 c2"
  by (simp add: same_store_def)

lemma page_size_bounds:
  assumes "file_ok f"
  shows "28 \<le> unat (if_page_size f)" "unat (if_page_size f) \<le> 65536"
  using page_size_cases [OF assms] by auto

lemma write_node_ok:
  assumes "file_ok f" "node_ok (if_page_size f) n"
  obtains buf where "write_node (if_page_size f) n f = Inr (page_written f (node_offset n) buf)"
    "length buf = unat (if_page_size f)" "page_of (page_written f (node_offset n) buf) (node_offset n) = Some (clean n)"
proof -
  obtain buf where b: "serialize_node n (if_page_size f) = Inr buf" "length buf = unat (if_page_size f)"
    "deserialize_node (node_offset n) (if_page_size f) buf = Inr (clean n)"
    by (rule node_ok_serialize [OF assms(2) page_size_bounds [OF assms(1)]])
  have off: "page_off (unat (if_page_size f)) (node_offset n)" using assms(2) by (simp add: node_ok_def)
  show thesis
    by (rule that [OF _ b(2)])
      (simp_all add: write_node_def b(1) write_node_page_eq [OF b(2) off] page_written_same [OF assms(1) b(2) off b(3)])
qed

lemma held_mono: "held H c \<Longrightarrow> bc_entries c' = bc_entries c \<Longrightarrow> held H c'"
  by (simp add: held_def)

lemma take_front:
  assumes "distinct offs" "set (take (card H) offs) = H" "finite H" "card H \<le> length offs"
  shows "set (take (card (insert x H)) (x # filter (\<lambda>y. y \<noteq> x) offs)) = insert x H"
    and "card (insert x H) \<le> length (x # filter (\<lambda>y. y \<noteq> x) offs)"
proof -
  let ?a = "take (card H) offs" and ?b = "drop (card H) offs"
  have offs: "filter (\<lambda>y. y \<noteq> x) offs = filter (\<lambda>y. y \<noteq> x) ?a @ filter (\<lambda>y. y \<noteq> x) ?b"
    by (metis append_take_drop_id filter_append)
  have la: "length ?a = card H" using assms(4) by simp
  have "set (take (card (insert x H)) (x # filter (\<lambda>y. y \<noteq> x) offs)) = insert x H \<and>
      card (insert x H) \<le> length (x # filter (\<lambda>y. y \<noteq> x) offs)"
  proof (cases "x \<in> H")
    case True
    have "distinct (filter (\<lambda>y. y \<noteq> x) ?a)" using assms(1) by simp
    then have "length (filter (\<lambda>y. y \<noteq> x) ?a) = card (set (filter (\<lambda>y. y \<noteq> x) ?a))" by (simp only: distinct_card)
    moreover have "set (filter (\<lambda>y. y \<noteq> x) ?a) = H - {x}" using assms(2) by auto
    ultimately have l: "length (filter (\<lambda>y. y \<noteq> x) ?a) = card H - 1" using True assms(3) by simp
    have "card H > 0" using True assms(3) card_gt_0_iff by blast
    then obtain k where k: "card H = Suc k" by (cases "card H") auto
    have "take (card H) (x # filter (\<lambda>y. y \<noteq> x) offs) = x # filter (\<lambda>y. y \<noteq> x) ?a"
      unfolding offs k using l k by simp
    moreover have "set (x # filter (\<lambda>y. y \<noteq> x) ?a) = H" using True assms(2) by auto
    moreover have "card H \<le> length (x # filter (\<lambda>y. y \<noteq> x) offs)" unfolding offs using l k by simp
    ultimately show ?thesis using True by (simp add: insert_absorb)
  next
    case False
    then have "filter (\<lambda>y. y \<noteq> x) ?a = ?a" using assms(2) by (intro filter_True) auto
    moreover have "card (insert x H) = Suc (card H)" using False assms(3) by simp
    ultimately show ?thesis using la assms(2) by (simp add: offs)
  qed
  then show "set (take (card (insert x H)) (x # filter (\<lambda>y. y \<noteq> x) offs)) = insert x H"
    and "card (insert x H) \<le> length (x # filter (\<lambda>y. y \<noteq> x) offs)" by blast+
qed

lemma map_fst_to_front: "map fst (to_front off e es) = off # filter (\<lambda>y. y \<noteq> off) (map fst es)"
  by (simp add: to_front_def filter_map o_def)

lemma map_of_to_front: "map_of (to_front off e es) = (map_of es)(off \<mapsto> e)"
proof
  fix x
  show "map_of (to_front off e es) x = ((map_of es)(off \<mapsto> e)) x"
    by (induction es) (auto simp: to_front_def)
qed

lemma held_front:
  assumes "held H c" "distinct (map fst (bc_entries c))" "bc_entries c' = to_front off e (bc_entries c)"
  shows "held (insert off H) c'"
proof -
  have h: "set (take (card H) (map fst (bc_entries c))) = H" "finite H" "card H \<le> length (map fst (bc_entries c))"
    using assms(1) by (simp_all add: held_def)
  have e: "map fst (bc_entries c') = off # filter (\<lambda>y. y \<noteq> off) (map fst (bc_entries c))"
    unfolding assms(3) by (rule map_fst_to_front)
  then have "length (bc_entries c') = length (off # filter (\<lambda>y. y \<noteq> off) (map fst (bc_entries c)))" by (metis length_map)
  then show ?thesis using take_front [OF assms(2) h, of off] h(2) unfolding held_def e by simp
qed

lemma map_leI: "(\<And>a x. m a = Some x \<Longrightarrow> m' a = Some x) \<Longrightarrow> m \<subseteq>\<^sub>m m'"
  by (auto simp: map_le_def dom_def)

lemma map_leD: "m \<subseteq>\<^sub>m m' \<Longrightarrow> m a = Some x \<Longrightarrow> m' a = Some x"
  by (force simp: map_le_def dom_def)

text \<open>Files that hold the pages of another, at the offsets of pages but one.\<close>

definition pages_kept :: "u64 set \<Rightarrow> index_file \<Rightarrow> index_file \<Rightarrow> bool" where
  "pages_kept A f f' \<longleftrightarrow> file_ok f' \<and> if_page_size f' = if_page_size f \<and>
     (\<forall>off n. page_off (unat (if_page_size f)) off \<longrightarrow> off \<notin> A \<longrightarrow> page_of f off = Some n \<longrightarrow> page_of f' off = Some n)"

lemma pages_kept_refl [simp]: "pages_kept A f f \<longleftrightarrow> file_ok f"
  by (simp add: pages_kept_def)

lemma pages_kept_fits:
  "pages_kept A f f' \<Longrightarrow> page_off (unat (if_page_size f)) off \<Longrightarrow> off \<notin> A \<Longrightarrow> entry_fits f off e \<Longrightarrow> entry_fits f' off e"
  by (auto simp: entry_fits_def pages_kept_def)

lemma page_written_kept:
  assumes "file_ok f" "length buf = unat (if_page_size f)" "page_off (unat (if_page_size f)) off"
  shows "pages_kept {off} f (page_written f off buf)" "same_store f c (page_written f off buf) c"
  using page_written_other [OF assms] page_written_header [OF assms(1,3)]
  by (simp_all add: pages_kept_def same_store_def page_written_ok [OF assms(1)])

lemma cache_ok_entry:
  assumes "cache_ok X f c" "(off, e) \<in> set (bc_entries c)"
  shows "node_offset (ce_node e) = off" "page_off (unat (if_page_size f)) off" "off \<notin> X \<Longrightarrow> entry_fits f off e"
  using assms by (auto simp: cache_ok_def)

lemma cache_ok_distinct: "cache_ok X f c \<Longrightarrow> distinct (map fst (bc_entries c))"
  by (simp add: cache_ok_def)

text \<open>
  Replacing the entries: what is left to show for the new cache is that each entry is one of the
  old ones or a good one.
\<close>

lemma cache_okI:
  assumes "cache_ok X f c" "bc_page_size c' = bc_page_size c" "bc_capacity c' = bc_capacity c"
    "length (bc_entries c') \<le> bc_capacity c'" "distinct (map fst (bc_entries c'))"
    "\<And>off e. (off, e) \<in> set (bc_entries c') \<Longrightarrow> node_offset (ce_node e) = off \<and> page_off (unat (if_page_size f)) off \<and>
        (off \<notin> X' \<longrightarrow> entry_fits f off e)"
  shows "cache_ok X' f c'"
  using assms(1-5) by (auto simp: cache_ok_def dest: assms(6))

lemma evict_ok:
  assumes "cache_ok X f c" "bc_entries c = es @ [(off, e)]" "off \<notin> X"
  shows "\<exists>f' c'. evict_one f c = (None, f', c') \<and> cache_ok X f' c' \<and> bc_entries c' = es \<and> same_store f c f' c' \<and>
    fview f c \<subseteq>\<^sub>m fview f' c'"
proof -
  let ?ps = "unat (if_page_size f)"
  have in_es: "(off, e) \<in> set (bc_entries c)" using assms(2) by simp
  note ent = cache_ok_entry [OF assms(1) in_es]
  have fits: "node_ok (if_page_size f) (ce_node e)" "\<not> ce_dirty e \<Longrightarrow> page_of f off = Some (clean (ce_node e))"
    using ent(3) assms(3) by (auto simp: entry_fits_def)
  have fo: "file_ok f" "bc_page_size c = if_page_size f" and d: "distinct (map fst (bc_entries c))" using assms(1) by (auto simp: cache_ok_def)
  have nin: "off \<notin> fst ` set es" using d assms(2) by auto
  have step: "cache_ok X f' c' \<and> fview f c \<subseteq>\<^sub>m fview f' c'"
    if k: "pages_kept {off} f f'" "page_of f' off = Some (clean (ce_node e))" "bc_entries c' = es"
      "bc_capacity c' = bc_capacity c" "bc_page_size c' = bc_page_size c" for f' c'
  proof
    have "(a, x) \<in> set es \<Longrightarrow> a \<noteq> off" for a x using nin by force
    moreover have "(a, x) \<in> set es \<Longrightarrow> (a, x) \<in> set (bc_entries c)" for a x using assms(2) by simp
    ultimately show "cache_ok X f' c'"
      using assms(1,2) k pages_kept_fits [OF k(1)] cache_ok_entry [OF assms(1)] unfolding cache_ok_def
      by (auto simp: pages_kept_def)
    show "fview f c \<subseteq>\<^sub>m fview f' c'"
    proof (rule map_leI)
      fix a x
      assume a: "fview f c a = Some x"
      have "map_of es off = None" using nin by (simp add: map_of_eq_None_iff)
      then show "fview f' c' a = Some x"
        using a k by (cases "a = off") (auto simp: fview_def assms(2) map_add_def pages_kept_def split: if_splits option.splits)
    qed
  qed
  show ?thesis
  proof (cases "ce_dirty e")
    case True
    obtain buf where b: "write_node (if_page_size f) (ce_node e) f = Inr (page_written f off buf)" "length buf = ?ps"
      "page_of (page_written f off buf) off = Some (clean (ce_node e))"
      using write_node_ok [OF fo(1) fits(1)] ent(1) by metis
    let ?c = "c\<lparr>bc_entries := es, bc_evictions := bc_evictions c + 1, bc_dirty_count := bc_dirty_count c - 1\<rparr>"
    have "evict_one f c = (None, page_written f off buf, ?c)" using True b(1) fo(2) assms(2) by (simp add: evict_one_def)
    moreover have "same_store f c (page_written f off buf) ?c"
      using page_written_kept(2) [OF fo(1) b(2) ent(2)] by (simp add: same_store_def)
    ultimately show ?thesis using step [OF page_written_kept(1) [OF fo(1) b(2) ent(2)] b(3), of ?c] by simp
  next
    case False
    let ?c = "c\<lparr>bc_entries := es, bc_evictions := bc_evictions c + 1\<rparr>"
    have "evict_one f c = (None, f, ?c)" using False assms(2) by (simp add: evict_one_def)
    moreover have "same_store f c f ?c" by (simp add: same_store_def)
    ultimately show ?thesis using step [of f ?c] fits(2) False fo(1) by simp
  qed
qed

text \<open>Putting a node into the cache, from either state of it: a node that fits, marked dirty, or one read from its page.\<close>

definition put_good :: "index_file \<Rightarrow> btree_cache \<Rightarrow> btree_node \<Rightarrow> bool" where
  "put_good f c n \<longleftrightarrow> node_ok (if_page_size f) n \<and>
     (node_dirty n \<or> map_of (bc_entries c) (node_offset n) = None \<and> page_of f (node_offset n) = Some n)"

lemma room_ok:
  assumes "cache_ok X f c" "held H c" "X \<subseteq> H" "off \<notin> fst ` set (bc_entries c)" "card (insert off H) \<le> bc_capacity c"
  shows "\<exists>f' c'. (if length (bc_entries c) \<ge> bc_capacity c then evict_one f c else (None, f, c)) = (None, f', c') \<and>
    cache_ok X f' c' \<and> held H c' \<and> same_store f c f' c' \<and> fview f c \<subseteq>\<^sub>m fview f' c' \<and>
    length (bc_entries c') < bc_capacity c \<and> off \<notin> fst ` set (bc_entries c')"
proof (cases "length (bc_entries c) \<ge> bc_capacity c")
  case True
  have h: "finite H" "set (take (card H) (map fst (bc_entries c))) = H" using assms(2) by (simp_all add: held_def)
  have "H \<subseteq> set (map fst (bc_entries c))" using h(2) by (metis set_take_subset)
  then have "off \<notin> H" using assms(4) by auto
  then have c: "card H < bc_capacity c" using assms(5) h(1) by simp
  have cap: "length (bc_entries c) = bc_capacity c" "distinct (map fst (bc_entries c))" using assms(1) True by (auto simp: cache_ok_def)
  then have "bc_entries c \<noteq> []" using c by auto
  then obtain es a e where es: "bc_entries c = es @ [(a, e)]" by (metis append_butlast_last_id surj_pair)
  have le: "card H \<le> length es" using c cap(1) es by simp
  then have H: "set (take (card H) (map fst es)) = H" using h(2) es by simp
  then have "H \<subseteq> set (map fst es)" by (metis set_take_subset)
  then have "a \<notin> H" using cap(2) es by auto
  then have "a \<notin> X" using assms(3) by auto
  from evict_ok [OF assms(1) es this] obtain f' c' where
    "evict_one f c = (None, f', c')" "cache_ok X f' c'" "bc_entries c' = es" "same_store f c f' c'" "fview f c \<subseteq>\<^sub>m fview f' c'"
    by blast
  then show ?thesis using True es H h(1) le cap(1) assms(4) by (auto simp: held_def)
next
  case False
  then show ?thesis using assms by (auto simp: same_store_def)
qed

lemma put_ok:
  assumes "cache_ok X f c" "held H c" "X \<subseteq> H" "put_good f c n" "card (insert (node_offset n) H) \<le> bc_capacity c"
  shows "\<exists>f' c'. cache_put n f c = (None, f', c') \<and> cache_ok (X - {node_offset n}) f' c' \<and> held (insert (node_offset n) H) c' \<and>
    same_store f c f' c' \<and> (fview f c)(node_offset n \<mapsto> clean n) \<subseteq>\<^sub>m fview f' c'"
proof (cases "map_of (bc_entries c) (node_offset n)")
  case (Some e)
  let ?off = "node_offset n"
  define c' where "c' = c\<lparr>bc_entries := to_front ?off \<lparr>ce_node = n, ce_dirty = ce_dirty e \<or> node_dirty n\<rparr> (bc_entries c),
    bc_dirty_count := (if node_dirty n \<and> \<not> ce_dirty e then bc_dirty_count c + 1 else bc_dirty_count c)\<rparr>"
  have put: "cache_put n f c = (None, f, c')" using Some by (simp add: cache_put_def c'_def)
  have nd: "node_dirty n" "node_ok (if_page_size f) n" using assms(4) Some by (auto simp: put_good_def)
  have po: "page_off (unat (if_page_size f)) ?off" using nd(2) by (simp add: node_ok_def)
  have d: "distinct (map fst (bc_entries c))" by (rule cache_ok_distinct [OF assms(1)])
  have mem: "(?off, e) \<in> set (bc_entries c)" using Some by (rule map_of_SomeD)
  have "length (to_front ?off x (bc_entries c)) \<le> length (bc_entries c)" for x
  proof -
    have "length (filter (\<lambda>p. fst p \<noteq> ?off) (bc_entries c)) < length (bc_entries c)" using mem by (intro length_filter_less) auto
    then show ?thesis by (simp add: to_front_def)
  qed
  then have len: "length (bc_entries c') \<le> bc_capacity c" using assms(1) by (simp add: c'_def cache_ok_def) (meson le_trans)
  have ok: "cache_ok (X - {?off}) f c'"
  proof (rule cache_okI [OF assms(1)])
    show "distinct (map fst (bc_entries c'))" using d by (simp add: c'_def map_fst_to_front)
    fix a x
    assume "(a, x) \<in> set (bc_entries c')"
    then consider "a = ?off" "ce_node x = n" "ce_dirty x" | "a \<noteq> ?off" "(a, x) \<in> set (bc_entries c)"
      using nd(1) by (auto simp: c'_def to_front_def)
    then show "node_offset (ce_node x) = a \<and> page_off (unat (if_page_size f)) a \<and> (a \<notin> X - {?off} \<longrightarrow> entry_fits f a x)"
    proof cases
      case 1
      then show ?thesis using po nd by (simp add: entry_fits_def)
    next
      case 2
      then show ?thesis using cache_ok_entry [OF assms(1) 2(2)] by simp
    qed
  qed (use len in \<open>simp_all add: c'_def\<close>)
  have "(fview f c)(?off \<mapsto> clean n) \<subseteq>\<^sub>m fview f c'"
    by (rule map_leI) (auto simp: fview_def c'_def map_of_to_front po split: if_splits)
  moreover have "held (insert ?off H) c'" by (rule held_front [OF assms(2) d]) (simp add: c'_def)
  ultimately show ?thesis using put ok by (auto simp: same_store_def c'_def)
next
  case None
  let ?off = "node_offset n"
  have nin: "?off \<notin> fst ` set (bc_entries c)" using None by (simp add: map_of_eq_None_iff)
  from room_ok [OF assms(1-3) nin assms(5)] obtain f' c1 where room:
    "(if length (bc_entries c) \<ge> bc_capacity c then evict_one f c else (None, f, c)) = (None, f', c1)"
    and ok: "cache_ok X f' c1" "held H c1" "same_store f c f' c1" "fview f c \<subseteq>\<^sub>m fview f' c1"
    and c1: "length (bc_entries c1) < bc_capacity c" "?off \<notin> fst ` set (bc_entries c1)" by blast
  have none: "map_of (bc_entries c1) ?off = None" using c1(2) by (simp add: map_of_eq_None_iff)
  define c' where "c' = c1\<lparr>bc_entries := (?off, \<lparr>ce_node = n, ce_dirty = node_dirty n\<rparr>) # bc_entries c1,
    bc_dirty_count := (if node_dirty n then bc_dirty_count c1 + 1 else bc_dirty_count c1)\<rparr>"
  have put: "cache_put n f c = (None, f', c')" using None room by (simp add: cache_put_def c'_def)
  have ps: "if_page_size f' = if_page_size f" "bc_capacity c1 = bc_capacity c" using ok(3) by (simp_all add: same_store_def)
  have nok: "node_ok (if_page_size f') n" and po: "page_off (unat (if_page_size f')) ?off"
    using assms(4) ps(1) by (auto simp: put_good_def node_ok_def)
  have pg: "page_of f' ?off = Some n \<and> n = clean n" if "\<not> node_dirty n"
  proof -
    have "page_of f ?off = Some n" using that assms(4) by (auto simp: put_good_def)
    then have "fview f c ?off = Some n" using None po ps(1) by (simp add: fview_def)
    then have "fview f' c1 ?off = Some n" by (rule map_leD [OF ok(4)])
    then show ?thesis using none that by (auto simp: fview_def split: if_splits)
  qed
  have d: "distinct (map fst (bc_entries c1))" by (rule cache_ok_distinct [OF ok(1)])
  have "cache_ok (X - {?off}) f' c'"
  proof (rule cache_okI [OF ok(1)])
    fix a x
    assume "(a, x) \<in> set (bc_entries c')"
    then consider "a = ?off" "ce_node x = n" "ce_dirty x = node_dirty n" | "a \<noteq> ?off" "(a, x) \<in> set (bc_entries c1)"
      using c1(2) by (auto simp: c'_def image_iff)
    then show "node_offset (ce_node x) = a \<and> page_off (unat (if_page_size f')) a \<and> (a \<notin> X - {?off} \<longrightarrow> entry_fits f' a x)"
    proof cases
      case 1
      then show ?thesis using po nok pg by (auto simp: entry_fits_def)
    next
      case 2
      then show ?thesis using cache_ok_entry [OF ok(1) 2(2)] by simp
    qed
  qed (use c1 d ps(2) in \<open>simp_all add: c'_def\<close>)
  moreover have "(fview f c)(?off \<mapsto> clean n) \<subseteq>\<^sub>m fview f' c'"
  proof (rule map_leI)
    fix a x
    assume a: "((fview f c)(?off \<mapsto> clean n)) a = Some x"
    then show "fview f' c' a = Some x"
      using map_leD [OF ok(4), of a x] po by (cases "a = ?off") (auto simp: fview_def c'_def split: if_splits)
  qed
  moreover have "held (insert ?off H) c'"
  proof (rule held_front [OF ok(2) d])
    have "filter (\<lambda>p. fst p \<noteq> ?off) (bc_entries c1) = bc_entries c1" using c1(2) by (intro filter_True) force
    then show "bc_entries c' = to_front ?off \<lparr>ce_node = n, ce_dirty = node_dirty n\<rparr> (bc_entries c1)" by (simp add: to_front_def c'_def)
  qed
  moreover have "same_store f c f' c'" using ok(3) by (simp add: same_store_def c'_def)
  ultimately show ?thesis using put by blast
qed

section \<open>The accesses of the tree\<close>

lemma deserialize_node_fields:
  assumes "deserialize_node off ps buf = Inr n"
  shows "node_offset n = off" "\<not> node_dirty n"
  using assms by (auto simp: deserialize_node_def Let_def split: if_splits sum.splits)

definition store_ok :: "u64 set \<Rightarrow> u64 set \<Rightarrow> persist_tree \<Rightarrow> bool" where
  "store_ok X H t \<longleftrightarrow> cache_ok X (pt_file t) (pt_cache t) \<and> held H (pt_cache t) \<and> X \<subseteq> H"

abbreviation pt_page_size :: "persist_tree \<Rightarrow> u32" where
  "pt_page_size t \<equiv> if_page_size (pt_file t)"

abbreviation pt_capacity :: "persist_tree \<Rightarrow> nat" where
  "pt_capacity t \<equiv> bc_capacity (pt_cache t)"

definition same_tree :: "persist_tree \<Rightarrow> persist_tree \<Rightarrow> bool" where
  "same_tree t t' \<longleftrightarrow> same_store (pt_file t) (pt_cache t) (pt_file t') (pt_cache t') \<and> pt_root t' = pt_root t \<and>
     pt_entry_count t' = pt_entry_count t"

lemma same_tree_refl [simp]: "same_tree t t"
  by (simp add: same_tree_def)

lemma same_tree_trans [trans]: "same_tree t t1 \<Longrightarrow> same_tree t1 t2 \<Longrightarrow> same_tree t t2"
  by (auto simp: same_tree_def intro: same_store_trans)

lemma same_treeD:
  assumes "same_tree t t'"
  shows "pt_page_size t' = pt_page_size t" "pt_capacity t' = pt_capacity t" "if_header (pt_file t') = if_header (pt_file t)"
    "pt_root t' = pt_root t" "pt_entry_count t' = pt_entry_count t"
  using assms by (simp_all add: same_tree_def same_store_def)

lemma held_cached:
  assumes "held H c" "off \<in> H"
  obtains e where "map_of (bc_entries c) off = Some e"
proof -
  have "off \<in> set (map fst (bc_entries c))" using assms by (metis held_def in_set_takeD)
  then show thesis using that by (metis map_of_eq_None_iff option.exhaust list.set_map)
qed

lemma load_ok:
  assumes "store_ok X H t" "view t off = Some n" "node_ok (pt_page_size t) n" "card (insert off H) \<le> pt_capacity t"
  shows "\<exists>n' t'. load_node off t = (Inr n', t') \<and> clean n' = n \<and> node_offset n' = off \<and> store_ok X (insert off H) t' \<and> same_tree t t' \<and> view t \<subseteq>\<^sub>m view t'"
proof (cases "map_of (bc_entries (pt_cache t)) off")
  case (Some e)
  let ?c = "(pt_cache t)\<lparr>bc_hits := bc_hits (pt_cache t) + 1, bc_entries := to_front off e (bc_entries (pt_cache t))\<rparr>"
  have s: "cache_ok X (pt_file t) (pt_cache t)" "held H (pt_cache t)" "X \<subseteq> H" using assms(1) by (simp_all add: store_ok_def)
  have d: "distinct (map fst (bc_entries (pt_cache t)))" by (rule cache_ok_distinct [OF s(1)])
  have mem: "(off, e) \<in> set (bc_entries (pt_cache t))" using Some by (rule map_of_SomeD)
  have po: "page_off (unat (pt_page_size t)) off" "n = clean (ce_node e)" using assms(2) Some by (auto simp: fview_def split: if_splits)
  have "length (filter (\<lambda>p. fst p \<noteq> off) (bc_entries (pt_cache t))) < length (bc_entries (pt_cache t))"
    using mem by (intro length_filter_less) auto
  then have len: "length (to_front off e (bc_entries (pt_cache t))) \<le> pt_capacity t" using s(1) by (simp add: to_front_def cache_ok_def)
  have "cache_ok X (pt_file t) ?c"
    by (rule cache_okI [OF s(1)]) (use len d mem cache_ok_entry [OF s(1)] in \<open>auto simp: to_front_def distinct_map_filter\<close>)
  moreover have "held (insert off H) ?c" by (rule held_front [OF s(2) d]) simp
  moreover have "view t \<subseteq>\<^sub>m fview (pt_file t) ?c"
    using Some by (intro map_leI) (auto simp: fview_def map_of_to_front split: if_splits)
  moreover have "load_node off t = (Inr (ce_node e), t\<lparr>pt_cache := ?c\<rparr>)" using Some by (simp add: load_node_def cache_get_def)
  ultimately show ?thesis using s(3) po cache_ok_entry(1) [OF s(1) mem] by (auto simp: store_ok_def same_tree_def same_store_def)
next
  case None
  let ?c = "(pt_cache t)\<lparr>bc_misses := bc_misses (pt_cache t) + 1\<rparr>"
  have s: "cache_ok X (pt_file t) ?c" "held H ?c" "X \<subseteq> H" using assms(1) by (simp_all add: store_ok_def cache_ok_def held_def)
  have po: "page_off (unat (pt_page_size t)) off" and pg: "page_of (pt_file t) off = Some n"
    using assms(2) None by (auto simp: fview_def split: if_splits)
  obtain buf where b: "read_node_page off (pt_file t) = Inr buf" "deserialize_node off (pt_page_size t) buf = Inr n"
    using pg by (auto simp: page_of_Some)
  have nd: "node_offset n = off" "\<not> node_dirty n" using deserialize_node_fields [OF b(2)] by auto
  have "put_good (pt_file t) ?c n" using assms(3) pg None nd by (simp add: put_good_def)
  from put_ok [OF s this] assms(4) nd(1) obtain f' c' where
    p: "cache_put n (pt_file t) ?c = (None, f', c')" "cache_ok (X - {off}) f' c'" "held (insert off H) c'"
      "same_store (pt_file t) ?c f' c'" "(fview (pt_file t) ?c)(off \<mapsto> clean n) \<subseteq>\<^sub>m fview f' c'" by auto
  have cn: "clean n = n" using nd(2) by simp
  have "fview (pt_file t) ?c = view t" by (intro ext) (simp add: fview_def)
  moreover have "(view t)(off \<mapsto> clean n) = view t" using assms(2) cn by (auto simp: fun_upd_idem_iff)
  ultimately have "view t \<subseteq>\<^sub>m fview f' c'" using p(5) by simp
  moreover have "cache_ok X f' c'" using p(2) by (auto simp: cache_ok_def)
  moreover have "load_node off t = (Inr n, t\<lparr>pt_file := f', pt_cache := c'\<rparr>)" using None b p(1) by (simp add: load_node_def cache_get_def)
  ultimately show ?thesis using s(3) p(3,4) cn nd(1) by (auto simp: store_ok_def same_tree_def same_store_def)
qed

lemma update_entry_facts:
  "map fst (update_entry off g es) = map fst es" "length (update_entry off g es) = length es"
  "(a, e) \<in> set (update_entry off g es) \<longleftrightarrow> (\<exists>x. (a, x) \<in> set es \<and> e = (if a = off then g x else x))"
  "map_of (update_entry off g es) a = map_option (\<lambda>e. if a = off then g e else e) (map_of es a)"
proof -
  show "map fst (update_entry off g es) = map fst es" "length (update_entry off g es) = length es"
    by (auto simp: update_entry_def)
  show "(a, e) \<in> set (update_entry off g es) \<longleftrightarrow> (\<exists>x. (a, x) \<in> set es \<and> e = (if a = off then g x else x))"
    by (force simp: update_entry_def)
  show "map_of (update_entry off g es) a = map_option (\<lambda>e. if a = off then g e else e) (map_of es a)"
    by (induction es) (auto simp: update_entry_def)
qed

lemma set_node_ok:
  assumes "store_ok X H t" "node_offset n \<in> H"
  shows "store_ok (insert (node_offset n) X) H (set_node n t)" "same_tree t (set_node n t)"
    "view (set_node n t) = (view t)(node_offset n \<mapsto> clean n)"
proof -
  let ?off = "node_offset n"
  have s: "cache_ok X (pt_file t) (pt_cache t)" "held H (pt_cache t)" "X \<subseteq> H" using assms(1) by (simp_all add: store_ok_def)
  obtain e where e: "map_of (bc_entries (pt_cache t)) ?off = Some e" by (rule held_cached [OF s(2) assms(2)])
  have po: "page_off (unat (pt_page_size t)) ?off" using cache_ok_entry(2) [OF s(1) map_of_SomeD [OF e]] .
  have "cache_ok (insert ?off X) (pt_file t) (pt_cache (set_node n t))"
  proof (rule cache_okI [OF s(1)])
    fix a x
    assume "(a, x) \<in> set (bc_entries (pt_cache (set_node n t)))"
    then obtain y where y: "(a, y) \<in> set (bc_entries (pt_cache t))" "x = (if a = ?off then y\<lparr>ce_node := n\<rparr> else y)"
      by (auto simp: set_node_def update_entry_facts)
    show "node_offset (ce_node x) = a \<and> page_off (unat (pt_page_size t)) a \<and> (a \<notin> insert ?off X \<longrightarrow> entry_fits (pt_file t) a x)"
      using y(2) cache_ok_entry [OF s(1) y(1)] by (cases "a = ?off") simp_all
  qed (use s(1) in \<open>simp_all add: set_node_def update_entry_facts cache_ok_def\<close>)
  then show "store_ok (insert ?off X) H (set_node n t)"
    using s assms(2) by (simp add: store_ok_def set_node_def held_def update_entry_facts)
  show "same_tree t (set_node n t)" by (simp add: same_tree_def same_store_def set_node_def)
  show "view (set_node n t) = (view t)(?off \<mapsto> clean n)"
    using e po by (intro ext) (auto simp: fview_def set_node_def update_entry_facts split: option.splits)
qed

lemma mark_dirty_ok:
  assumes "store_ok X H t" "off \<in> H" "view t off = Some n" "node_ok (pt_page_size t) n"
  shows "store_ok (X - {off}) H (mark_dirty off t)" "same_tree t (mark_dirty off t)" "view (mark_dirty off t) = view t"
proof -
  have s: "cache_ok X (pt_file t) (pt_cache t)" "held H (pt_cache t)" "X \<subseteq> H" using assms(1) by (simp_all add: store_ok_def)
  obtain e where e: "map_of (bc_entries (pt_cache t)) off = Some e" by (rule held_cached [OF s(2) assms(2)])
  have po: "page_off (unat (pt_page_size t)) off" using cache_ok_entry(2) [OF s(1) map_of_SomeD [OF e]] .
  have n: "n = clean (ce_node e)" using assms(3) e po by (simp add: fview_def)
  have nok: "node_ok (pt_page_size t) (ce_node e)" using assms(4) unfolding n by simp
  have d: "distinct (map fst (bc_entries (pt_cache t)))" by (rule cache_ok_distinct [OF s(1)])
  have uniq: "(off, x) \<in> set (bc_entries (pt_cache t)) \<Longrightarrow> x = e" for x using d e by (metis map_of_is_SomeI option.inject)
  show "same_tree t (mark_dirty off t)" using e by (simp add: same_tree_def same_store_def mark_dirty_def cache_mark_dirty_def)
  show "view (mark_dirty off t) = view t"
    using e by (intro ext) (auto simp: fview_def mark_dirty_def cache_mark_dirty_def update_entry_facts split: option.splits)
  have fields: "bc_page_size (cache_mark_dirty off c) = bc_page_size c" "bc_capacity (cache_mark_dirty off c) = bc_capacity c"
    "map fst (bc_entries (cache_mark_dirty off c)) = map fst (bc_entries c)"
    "length (bc_entries (cache_mark_dirty off c)) = length (bc_entries c)" for c
    by (simp_all add: cache_mark_dirty_def update_entry_facts split: option.splits)
  have "cache_ok (X - {off}) (pt_file t) (cache_mark_dirty off (pt_cache t))"
  proof (rule cache_okI [OF s(1)])
    fix a x
    assume x: "(a, x) \<in> set (bc_entries (cache_mark_dirty off (pt_cache t)))"
    have "\<exists>y. (a, y) \<in> set (bc_entries (pt_cache t)) \<and> ce_node x = ce_node y \<and> (if a = off then ce_dirty x else x = y)"
    proof (cases "ce_dirty e")
      case True
      then have "(a, x) \<in> set (bc_entries (pt_cache t))" using x e by (simp add: cache_mark_dirty_def)
      then show ?thesis using uniq True by (intro exI [of _ x]) auto
    next
      case False
      then obtain y where "(a, y) \<in> set (bc_entries (pt_cache t))" "x = (if a = off then y\<lparr>ce_dirty := True\<rparr> else y)"
        using x e by (auto simp: cache_mark_dirty_def update_entry_facts(3))
      then show ?thesis by (intro exI [of _ y]) simp
    qed
    then obtain y where y: "(a, y) \<in> set (bc_entries (pt_cache t))" "ce_node x = ce_node y"
      "if a = off then ce_dirty x else x = y" by blast
    show "node_offset (ce_node x) = a \<and> page_off (unat (pt_page_size t)) a \<and> (a \<notin> X - {off} \<longrightarrow> entry_fits (pt_file t) a x)"
      using y cache_ok_entry [OF s(1) y(1)] nok uniq by (cases "a = off") (auto simp: entry_fits_def)
  qed (use s(1) in \<open>simp_all add: fields cache_ok_def\<close>)
  then show "store_ok (X - {off}) H (mark_dirty off t)" using s by (auto simp: store_ok_def mark_dirty_def held_def fields)
qed

text \<open>There is something to write, in the header or in the pages.\<close>

definition unsynced :: "persist_tree \<Rightarrow> bool" where
  "unsynced t \<longleftrightarrow> if_pending (pt_file t) \<or> (\<exists>p \<in> set (bc_entries (pt_cache t)). ce_dirty (snd p))"

lemma mark_dirty_unsynced:
  assumes "store_ok X H t" "off \<in> H"
  shows "unsynced (mark_dirty off t)"
proof -
  have "held H (pt_cache t)" using assms(1) by (simp add: store_ok_def)
  then obtain e where e: "map_of (bc_entries (pt_cache t)) off = Some e" using assms(2) by (rule held_cached)
  have "(off, e\<lparr>ce_dirty := True\<rparr>) \<in> set (bc_entries (pt_cache (mark_dirty off t)))"
  proof (cases "ce_dirty e")
    case True
    then show ?thesis using e map_of_SomeD [OF e] by (cases e) (simp add: mark_dirty_def cache_mark_dirty_def)
  next
    case False
    then show ?thesis using e map_of_SomeD [OF e] by (auto simp: mark_dirty_def cache_mark_dirty_def update_entry_facts)
  qed
  then show ?thesis unfolding unsynced_def by force
qed

lemma put_node_ok:
  assumes "store_ok X H t" "node_ok (pt_page_size t) n" "node_dirty n" "card (insert (node_offset n) H) \<le> pt_capacity t"
  shows "\<exists>t'. put_node n t = (None, t') \<and> store_ok (X - {node_offset n}) (insert (node_offset n) H) t' \<and> same_tree t t' \<and>
    (view t)(node_offset n \<mapsto> clean n) \<subseteq>\<^sub>m view t'"
proof -
  have s: "cache_ok X (pt_file t) (pt_cache t)" "held H (pt_cache t)" "X \<subseteq> H" using assms(1) by (simp_all add: store_ok_def)
  have "put_good (pt_file t) (pt_cache t) n" using assms(2,3) by (simp add: put_good_def)
  from put_ok [OF s this assms(4)] s(3) show ?thesis by (auto simp: put_node_def store_ok_def same_tree_def)
qed

text \<open>Allocating a page changes the header in memory only.\<close>

lemma alloc_node_ok:
  assumes "alloc_node t = (off, t')"
  shows "off = ucast (pt_page_size t) + ih_node_count (if_header (pt_file t)) * ucast (pt_page_size t)"
    "store_ok X H t' = store_ok X H t" "view t' = view t" "pt_page_size t' = pt_page_size t" "pt_cache t' = pt_cache t"
    "if_header (pt_file t') = (if_header (pt_file t))\<lparr>ih_node_count := ih_node_count (if_header (pt_file t)) + 1\<rparr>"
    "pt_root t' = pt_root t" "pt_entry_count t' = pt_entry_count t" "header_stored (pt_file t') h = header_stored (pt_file t) h"
proof -
  have t': "t' = t\<lparr>pt_file := (pt_file t)\<lparr>if_header := (if_header (pt_file t))\<lparr>ih_node_count := ih_node_count (if_header (pt_file t)) + 1\<rparr>\<rparr>\<rparr>"
    and off: "off = ucast (pt_page_size t) + ih_node_count (if_header (pt_file t)) * ucast (pt_page_size t)"
    using assms by (simp_all add: alloc_node_def allocate_node_offset_def Let_def)
  have p: "page_of (f\<lparr>if_header := x\<rparr>) = page_of f" for f x by (rule page_of_cong) simp_all
  show "off = ucast (pt_page_size t) + ih_node_count (if_header (pt_file t)) * ucast (pt_page_size t)" by (rule off)
  show "store_ok X H t' = store_ok X H t" by (simp add: t' store_ok_def cache_ok_def entry_fits_def file_ok_def p)
  show "view t' = view t" by (intro ext) (simp add: t' fview_def p split: option.split)
  show "pt_page_size t' = pt_page_size t" "pt_cache t' = pt_cache t"
    "if_header (pt_file t') = (if_header (pt_file t))\<lparr>ih_node_count := ih_node_count (if_header (pt_file t)) + 1\<rparr>"
    "pt_root t' = pt_root t" "pt_entry_count t' = pt_entry_count t" "header_stored (pt_file t') h = header_stored (pt_file t) h"
    by (simp_all add: t' header_stored_def)
qed

end
