(* ===== verification/Persist_Tree.thy ===== *)
theory Persist_Tree
  imports Page_Cache
begin

text \<open>
  The B+ tree of the persistent indexes: lookup and insertion of \<open>src/index/persist_tree.go\<close>. A path
  is the list of nodes passed with the index of the child taken, deepest first. Logging and
  the recovery from impossible panics are left out; an index out of range is \<open>Panic\<close>. The lock makes
  every operation one step.
\<close>

section \<open>Searching in a node\<close>

definition lower_bound :: "bytes list \<Rightarrow> bytes \<Rightarrow> nat" where
  "lower_bound keys key = go_search (\<lambda>i. bytes_compare (keys ! i) key \<ge> 0) 0 (length keys)"

definition search_key_index :: "bytes list \<Rightarrow> bytes \<Rightarrow> nat" where
  "search_key_index keys key =
     (let idx = lower_bound keys key
      in if idx < length keys \<and> bytes_compare (keys ! idx) key = 0 then idx + 1 else idx)"

type_synonym tree_path = "(btree_node \<times> nat) list"

fun descend :: "nat \<Rightarrow> bytes \<Rightarrow> btree_node \<Rightarrow> tree_path \<Rightarrow> persist_tree \<Rightarrow> (btree_node \<times> tree_path) result \<times> persist_tree" where
  "descend 0 key node path t =
     (if is_leaf node then (Inr (node, path), t) else (Inl (Err ''btree depth exceeded limit''), t))"
| "descend (Suc d) key node path t =
     (if is_leaf node then (Inr (node, path), t)
      else let idx = search_key_index (node_keys node) key
        in if idx \<ge> length (node_children node) then (Inl Panic, t)
           else case load_node (node_children node ! idx) t of
             (Inl x, t') \<Rightarrow> (Inl x, t')
           | (Inr child, t') \<Rightarrow> descend d key child ((node, idx) # path) t')"

definition max_depth :: nat where "max_depth = 100"

definition find_leaf :: "bytes \<Rightarrow> persist_tree \<Rightarrow> (btree_node \<times> tree_path) result \<times> persist_tree" where
  "find_leaf key t =
     (case load_node (pt_root t) t of
        (Inl x, t') \<Rightarrow> (Inl x, t')
      | (Inr node, t') \<Rightarrow> descend max_depth key node [] t')"

definition pt_get :: "go_error option \<Rightarrow> bytes \<Rightarrow> persist_tree \<Rightarrow> location option result \<times> persist_tree" where
  "pt_get ctx key t =
     (case ctx of
        Some e \<Rightarrow> (Inl e, t)
      | None \<Rightarrow>
          (case find_leaf key t of
             (Inl x, t') \<Rightarrow> (Inl x, t')
           | (Inr (node, _), t') \<Rightarrow>
               let idx = lower_bound (node_keys node) key
               in if idx < length (node_keys node) \<and> bytes_compare (node_keys node ! idx) key = 0
                  then (if idx < length (node_values node) then (Inr (Some (node_values node ! idx)), t') else (Inl Panic, t'))
                  else (Inr None, t')))"

section \<open>Insertion into a node\<close>

text \<open>None: the pair of key and value is in the leaf already.\<close>

definition insert_into_leaf :: "btree_node \<Rightarrow> bytes \<Rightarrow> location \<Rightarrow> btree_node option result" where
  "insert_into_leaf node key val =
     (let keys = node_keys node; vals = node_values node
      in if length keys > 100000 then Inl (Err ''leaf node has too many keys'')
         else if length keys \<noteq> length vals then Inl (Err ''data corruption: leaf node'')
         else let idx = lower_bound keys key
           in if val \<in> snd ` set (takeWhile (\<lambda>e. fst e = key) (drop idx (zip keys vals))) then Inr None
              else Inr (Some (node\<lparr>node_keys := take idx keys @ key # drop idx keys,
                                   node_values := take idx vals @ val # drop idx vals, node_dirty := True\<rparr>)))"

definition insert_into_internal :: "btree_node \<Rightarrow> bytes \<Rightarrow> u64 \<Rightarrow> nat \<Rightarrow> btree_node result" where
  "insert_into_internal node key childOffset pos =
     (let keys = node_keys node; ch = node_children node
      in if length keys > 100000 then Inl (Err ''internal node has too many keys'')
         else if length ch \<noteq> length keys + 1 then Inl (Err ''data corruption: internal node'')
         else if pos > length keys then Inl (Err ''invalid insertPos'')
         else Inr (node\<lparr>node_keys := take pos keys @ key # drop pos keys,
                        node_children := take (pos + 1) ch @ childOffset # drop (pos + 1) ch, node_dirty := True\<rparr>))"

section \<open>Splitting\<close>

text \<open>The first index from \<open>mid\<close> on, but the last one, from which the rest fits.\<close>

function split_point :: "(nat \<Rightarrow> nat) \<Rightarrow> nat \<Rightarrow> nat \<Rightarrow> nat \<Rightarrow> nat" where
  "split_point rest lim n mid = (if mid < n - 1 \<and> rest mid > lim then split_point rest lim n (mid + 1) else mid)"
  by pat_completeness auto
termination
  by (relation "measure (\<lambda>(rest, lim, n, mid). n - mid)") auto

declare split_point.simps [simp del]

text \<open>The link back from the next leaf, when there is one.\<close>

definition relink_next :: "u64 \<Rightarrow> u64 \<Rightarrow> persist_tree \<Rightarrow> go_error option \<times> persist_tree" where
  "relink_next nx off t =
     (if nx \<noteq> 0
      then (case load_node nx t of
              (Inl x, t1) \<Rightarrow> (Some x, t1)
            | (Inr n, t1) \<Rightarrow> (None, mark_dirty (node_offset n) (set_node (n\<lparr>node_prev := off, node_dirty := True\<rparr>) t1)))
      else (None, t))"

definition split_leaf :: "btree_node \<Rightarrow> persist_tree \<Rightarrow> (bytes \<times> btree_node \<times> btree_node) result \<times> persist_tree" where
  "split_leaf node t =
     (let keys = node_keys node; n = length keys; lim = unat (pt_page_size t) - 28;
          mid = split_point (\<lambda>m. entries_size (drop m keys)) lim n (n div 2)
      in if entries_size (take mid keys) > lim \<or> entries_size (drop mid keys) > lim
         then (Inl (Err ''leaf node cannot be split''), t)
         else let (off, t1) = alloc_node t;
                  right = \<lparr>node_type = node_type_leaf, node_offset = off, node_keys = drop mid keys,
                           node_values = drop mid (node_values node), node_children = [], node_next = node_next node,
                           node_prev = node_offset node, node_dirty = True\<rparr>
           in case put_node right t1 of
                (Some x, t2) \<Rightarrow> (Inl x, t2)
              | (None, t2) \<Rightarrow>
                  let node1 = node\<lparr>node_keys := take mid keys, node_values := take mid (node_values node)\<rparr>;
                      t3 = set_node node1 t2
                  in case relink_next (node_next node1) off t3 of
                       (Some x, t5) \<Rightarrow> (Inl x, t5)
                     | (None, t5) \<Rightarrow>
                         let node2 = node1\<lparr>node_next := off, node_dirty := True\<rparr>
                         in case put_node node2 (set_node node2 t5) of
                              (Some x, t6) \<Rightarrow> (Inl x, t6)
                            | (None, t6) \<Rightarrow>
                                (case node_keys right of
                                   [] \<Rightarrow> (Inl Panic, t6)
                                 | k # _ \<Rightarrow> (Inr (k, right, node2), t6)))"

definition split_internal :: "btree_node \<Rightarrow> persist_tree \<Rightarrow> (bytes \<times> btree_node) result \<times> persist_tree" where
  "split_internal node t =
     (let keys = node_keys node; n = length keys; lim = unat (pt_page_size t) - 20;
          mid = split_point (\<lambda>m. entries_size (drop (m + 1) keys)) lim n (n div 2)
      in if n = 0 then (Inl Panic, t)
         else if entries_size (take mid keys) > lim \<or> entries_size (drop (mid + 1) keys) > lim
         then (Inl (Err ''internal node cannot be split''), t)
         else let (off, t1) = alloc_node t;
                  right = \<lparr>node_type = node_type_internal, node_offset = off, node_keys = drop (mid + 1) keys,
                           node_values = [], node_children = drop (mid + 1) (node_children node), node_next = 0,
                           node_prev = 0, node_dirty = True\<rparr>
           in case put_node right t1 of
                (Some x, t2) \<Rightarrow> (Inl x, t2)
              | (None, t2) \<Rightarrow>
                  let node1 = node\<lparr>node_keys := take mid keys, node_children := take (mid + 1) (node_children node), node_dirty := True\<rparr>
                  in case put_node node1 (set_node node1 t2) of
                       (Some x, t3) \<Rightarrow> (Inl x, t3)
                     | (None, t3) \<Rightarrow> (Inr (keys ! mid, right), t3))"

section \<open>Insertion into the tree\<close>

text \<open>Going up: a separator and a new node for each parent, and a new root above the old one.\<close>

fun insert_up :: "bytes \<Rightarrow> btree_node \<Rightarrow> btree_node \<Rightarrow> tree_path \<Rightarrow> persist_tree \<Rightarrow> go_error option \<times> persist_tree" where
  "insert_up splitKey right leaf [] t =
     (let (off, t1) = alloc_node t;
          newRoot = \<lparr>node_type = node_type_internal, node_offset = off, node_keys = [splitKey], node_values = [],
                     node_children = [pt_root t, node_offset right], node_next = 0, node_prev = 0, node_dirty = True\<rparr>
      in case put_node newRoot t1 of
           (Some x, t2) \<Rightarrow> (Some x, t2)
         | (None, t2) \<Rightarrow>
             (case put_node right t2 of
                (Some x, t3) \<Rightarrow> (Some x, t3)
              | (None, t3) \<Rightarrow>
                  (case put_node leaf t3 of
                     (Some x, t4) \<Rightarrow> (Some x, t4)
                   | (None, t4) \<Rightarrow>
                       let f = write_header (pt_file t4)
                       in (None, t4\<lparr>pt_file := f\<lparr>if_header := (if_header f)\<lparr>ih_root := off\<rparr>\<rparr>, pt_root := off\<rparr>))))"
| "insert_up splitKey right leaf ((parent, idx) # path) t =
     (case insert_into_internal parent splitKey (node_offset right) idx of
        Inl x \<Rightarrow> (Some x, t)
      | Inr parent1 \<Rightarrow>
          let t1 = set_node parent1 t; ps = unat (pt_page_size t); sz = internal_size parent1
          in if sz > 10 * ps then (Some (Err ''internal node size exceeds 10x page size''), t1)
             else if sz \<le> ps then (None, mark_dirty (node_offset parent1) t1)
             else case split_internal parent1 t1 of
               (Inl x, t2) \<Rightarrow> (Some x, t2)
             | (Inr (k, r), t2) \<Rightarrow> insert_up k r leaf path t2)"

definition pt_insert :: "go_error option \<Rightarrow> bytes \<Rightarrow> location \<Rightarrow> persist_tree \<Rightarrow> go_error option \<times> persist_tree" where
  "pt_insert ctx key val t =
     (case ctx of
        Some e \<Rightarrow> (Some e, t)
      | None \<Rightarrow>
          (case find_leaf key t of
             (Inl x, t1) \<Rightarrow> (Some x, t1)
           | (Inr (node, path), t1) \<Rightarrow>
               (case insert_into_leaf node key val of
                  Inl x \<Rightarrow> (Some x, t1)
                | Inr None \<Rightarrow> (None, mark_dirty (node_offset node) t1)
                | Inr (Some node1) \<Rightarrow>
                    let t2 = (set_node node1 t1)\<lparr>pt_entry_count := pt_entry_count t1 + 1\<rparr>; ps = unat (pt_page_size t1); sz = leaf_size node1
                    in if sz > 10 * ps then (Some (Err ''leaf node size exceeds 10x page size''), t2)
                       else if sz \<le> ps then (None, mark_dirty (node_offset node1) t2)
                       else case split_leaf node1 t2 of
                         (Inl x, t3) \<Rightarrow> (Some x, t3)
                       | (Inr (k, r, leaf), t3) \<Rightarrow> insert_up k r leaf path t3)))"

end
