(* ===== verification/Tree_Shape.thy ===== *)
theory Tree_Shape
  imports Persist_Tree
begin

text \<open>
  Trees as values, and how the nodes of a store represent them. \<open>items\<close> is the in-order sequence of
  entries and separators: that it is sorted is the whole ordering invariant, and a node that splits
  does not change it but for the separator a leaf puts before its right half. A context (\<open>frame list\<close>)
  is a tree with a hole, innermost frame first, as the path of an insertion sees it.

  With \<open>strict\<close> order a separator is above all keys to its left and the keys are distinct, which is
  what lookups need; without it equal keys may stand on both sides of a separator.
\<close>

section \<open>Trees\<close>

datatype tree = Lf u64 "(bytes \<times> location) list" | Nd u64 "bytes list" "tree list"

datatype item = Sep (ikey: bytes) | Ent (ikey: bytes) (ival: location)

fun toff :: "tree \<Rightarrow> u64" where
  "toff (Lf a es) = a"
| "toff (Nd a ks ts) = a"

fun interleave :: "'a list list \<Rightarrow> 'a list \<Rightarrow> 'a list" where
  "interleave [] ks = []"
| "interleave (x # xs) [] = x"
| "interleave (x # xs) (k # ks) = x @ k # interleave xs ks"

fun items :: "tree \<Rightarrow> item list" where
  "items (Lf a es) = map (\<lambda>(k, v). Ent k v) es"
| "items (Nd a ks ts) = interleave (map items ts) (map Sep ks)"

fun entries :: "tree \<Rightarrow> (bytes \<times> location) list" where
  "entries (Lf a es) = es"
| "entries (Nd a ks ts) = concat (map entries ts)"

fun offs :: "tree \<Rightarrow> u64 list" where
  "offs (Lf a es) = [a]"
| "offs (Nd a ks ts) = a # concat (map offs ts)"

fun leaves :: "tree \<Rightarrow> u64 list" where
  "leaves (Lf a es) = [a]"
| "leaves (Nd a ks ts) = concat (map leaves ts)"

text \<open>Height, page size and filling; only the root may be an empty leaf (\<open>e\<close>), and every internal node has a key.\<close>

fun good :: "bool \<Rightarrow> nat \<Rightarrow> nat \<Rightarrow> tree \<Rightarrow> bool" where
  "good e ps 0 (Lf a es) \<longleftrightarrow> 28 + entries_size (map fst es) \<le> ps \<and> (e \<or> es \<noteq> [])"
| "good e ps (Suc h) (Nd a ks ts) \<longleftrightarrow> length ts = Suc (length ks) \<and> ks \<noteq> [] \<and> 20 + entries_size ks \<le> ps \<and> (\<forall>t \<in> set ts. good False ps h t)"
| "good e ps h t \<longleftrightarrow> False"

definition item_rel :: "bool \<Rightarrow> item \<Rightarrow> item \<Rightarrow> bool" where
  "item_rel strict x y \<longleftrightarrow> ikey x < ikey y \<or> ikey x = ikey y \<and> (strict \<longrightarrow> is_Sep x \<and> \<not> is_Sep y)"

lemma item_rel_trans: "item_rel s x y \<Longrightarrow> item_rel s y z \<Longrightarrow> item_rel s x z"
  by (cases x; cases y; cases z) (auto simp: item_rel_def)

section \<open>Representation by nodes\<close>

definition leaf_node :: "u64 \<Rightarrow> (bytes \<times> location) list \<Rightarrow> u64 \<Rightarrow> u64 \<Rightarrow> btree_node" where
  "leaf_node a es nx pv = \<lparr>node_type = node_type_leaf, node_offset = a, node_keys = map fst es, node_values = map snd es,
     node_children = [], node_next = nx, node_prev = pv, node_dirty = False\<rparr>"

definition int_node :: "u64 \<Rightarrow> bytes list \<Rightarrow> u64 list \<Rightarrow> btree_node" where
  "int_node a ks cs = \<lparr>node_type = node_type_internal, node_offset = a, node_keys = ks, node_values = [],
     node_children = cs, node_next = 0, node_prev = 0, node_dirty = False\<rparr>"

fun tree_at :: "(u64 \<Rightarrow> btree_node option) \<Rightarrow> tree \<Rightarrow> bool" where
  "tree_at V (Lf a es) \<longleftrightarrow> (\<exists>nx pv. V a = Some (leaf_node a es nx pv))"
| "tree_at V (Nd a ks ts) \<longleftrightarrow> V a = Some (int_node a ks (map toff ts)) \<and> (\<forall>t \<in> set ts. tree_at V t)"

text \<open>The chain of leaves: each linked to the next and the previous one, zero at the ends.\<close>

fun chain :: "(u64 \<Rightarrow> btree_node option) \<Rightarrow> u64 \<Rightarrow> u64 list \<Rightarrow> u64 \<Rightarrow> bool" where
  "chain V p [] q \<longleftrightarrow> True"
| "chain V p (x # xs) q \<longleftrightarrow>
     (\<exists>n. V x = Some n \<and> node_prev n = p \<and> node_next n = (case xs of [] \<Rightarrow> q | y # _ \<Rightarrow> y)) \<and> chain V x xs q"

lemma tree_at_mono: "tree_at V t \<Longrightarrow> (\<And>a. a \<in> set (offs t) \<Longrightarrow> V a \<noteq> None \<Longrightarrow> V' a = V a) \<Longrightarrow> tree_at V' t"
proof (induction t)
  case (Nd a ks ts)
  have "tree_at V' x" if x: "x \<in> set ts" for x
    by (rule Nd.IH [OF x]) (use Nd.prems x in auto)
  then show ?case using Nd.prems by auto
next
  case (Lf a es)
  then obtain nx pv where "V a = Some (leaf_node a es nx pv)" by auto
  then show ?case using Lf(2) [of a] by auto
qed

lemma tree_at_le: "tree_at V t \<Longrightarrow> V \<subseteq>\<^sub>m V' \<Longrightarrow> tree_at V' t"
  by (erule tree_at_mono) (auto simp: map_le_def dom_def)

lemma chain_mono: "chain V p xs q \<Longrightarrow> (\<And>a. a \<in> set xs \<Longrightarrow> V a \<noteq> None \<Longrightarrow> V' a = V a) \<Longrightarrow> chain V' p xs q"
  by (induction xs arbitrary: p) auto

lemma chain_le: "chain V p xs q \<Longrightarrow> V \<subseteq>\<^sub>m V' \<Longrightarrow> chain V' p xs q"
  by (erule chain_mono) (auto simp: map_le_def dom_def)

lemma chain_append:
  "chain V p (xs @ y # ys) q \<longleftrightarrow> chain V p xs y \<and> chain V (last (p # xs)) (y # ys) q"
proof (induction xs arbitrary: p)
  case (Cons x xs)
  have "(case xs @ y # ys of [] \<Rightarrow> q | z # _ \<Rightarrow> z) = (case xs of [] \<Rightarrow> y | z # _ \<Rightarrow> z)" by (cases xs) auto
  then show ?case using Cons by (cases xs) auto
qed simp

lemma toff_in_offs [simp]: "toff t \<in> set (offs t)"
  by (cases t) auto

lemma leaves_in_offs: "set (leaves t) \<subseteq> set (offs t)"
  by (induction t) auto

lemma good_leaves: "good e ps h t \<Longrightarrow> leaves t \<noteq> []"
proof (induction e ps h t rule: good.induct)
  case (2 e ps h a ks ts)
  then show ?case by (cases ts) auto
qed auto

section \<open>Contexts\<close>

type_synonym frame = "u64 \<times> (tree \<times> bytes) list \<times> (bytes \<times> tree) list"

definition plug1 :: "frame \<Rightarrow> tree \<Rightarrow> tree" where
  "plug1 f t = (case f of (a, ls, rs) \<Rightarrow> Nd a (map snd ls @ map fst rs) (map fst ls @ t # map snd rs))"

fun plug :: "frame list \<Rightarrow> tree \<Rightarrow> tree" where
  "plug [] t = t"
| "plug (f # fs) t = plug fs (plug1 f t)"

definition pre1 :: "(tree \<Rightarrow> 'a list) \<Rightarrow> (bytes \<Rightarrow> 'a list) \<Rightarrow> (tree \<times> bytes) list \<Rightarrow> 'a list" where
  "pre1 g s ls = concat (map (\<lambda>p. g (fst p) @ s (snd p)) ls)"

definition post1 :: "(tree \<Rightarrow> 'a list) \<Rightarrow> (bytes \<Rightarrow> 'a list) \<Rightarrow> (bytes \<times> tree) list \<Rightarrow> 'a list" where
  "post1 g s rs = concat (map (\<lambda>p. s (fst p) @ g (snd p)) rs)"

text \<open>What stands before and after the hole, for a list that is collected over the tree.\<close>

fun pre :: "(tree \<Rightarrow> 'a list) \<Rightarrow> (bytes \<Rightarrow> 'a list) \<Rightarrow> (u64 \<Rightarrow> 'a list) \<Rightarrow> frame list \<Rightarrow> 'a list" where
  "pre g s r [] = []"
| "pre g s r ((a, ls, rs) # fs) = pre g s r fs @ r a @ pre1 g s ls"

fun post :: "(tree \<Rightarrow> 'a list) \<Rightarrow> (bytes \<Rightarrow> 'a list) \<Rightarrow> frame list \<Rightarrow> 'a list" where
  "post g s [] = []"
| "post g s ((a, ls, rs) # fs) = post1 g s rs @ post g s fs"

abbreviation items_pre :: "frame list \<Rightarrow> item list" where
  "items_pre \<equiv> pre items (\<lambda>k. [Sep k]) (\<lambda>_. [])"
abbreviation items_post :: "frame list \<Rightarrow> item list" where
  "items_post \<equiv> post items (\<lambda>k. [Sep k])"
abbreviation offs_pre :: "frame list \<Rightarrow> u64 list" where
  "offs_pre \<equiv> pre offs (\<lambda>_. []) (\<lambda>a. [a])"
abbreviation offs_post :: "frame list \<Rightarrow> u64 list" where
  "offs_post \<equiv> post offs (\<lambda>_. [])"
abbreviation leaves_pre :: "frame list \<Rightarrow> u64 list" where
  "leaves_pre \<equiv> pre leaves (\<lambda>_. []) (\<lambda>_. [])"
abbreviation leaves_post :: "frame list \<Rightarrow> u64 list" where
  "leaves_post \<equiv> post leaves (\<lambda>_. [])"
abbreviation entries_pre :: "frame list \<Rightarrow> (bytes \<times> location) list" where
  "entries_pre \<equiv> pre entries (\<lambda>_. []) (\<lambda>_. [])"
abbreviation entries_post :: "frame list \<Rightarrow> (bytes \<times> location) list" where
  "entries_post \<equiv> post entries (\<lambda>_. [])"

lemma interleave_frame:
  "interleave (map f ls @ y # map g rs) (map h ls @ map k rs) = concat (map (\<lambda>p. f p @ [h p]) ls) @ y @ concat (map (\<lambda>p. k p # g p) rs)"
proof -
  have "interleave (y # map g rs) (map k rs) = y @ concat (map (\<lambda>p. k p # g p) rs)" by (induction rs arbitrary: y) auto
  then show ?thesis by (induction ls) auto
qed

lemma items_plug1:
  "items (plug1 (a, ls, rs) t) = pre1 items (\<lambda>k. [Sep k]) ls @ items t @ post1 items (\<lambda>k. [Sep k]) rs"
  using interleave_frame [of "\<lambda>p. items (fst p)" ls "items t" "\<lambda>p. items (snd p)" rs "\<lambda>p. Sep (snd p)" "\<lambda>p. Sep (fst p)"]
  by (simp add: plug1_def pre1_def post1_def o_def)

lemma items_plug: "items (plug fs t) = items_pre fs @ items t @ items_post fs"
proof (induction fs arbitrary: t)
  case (Cons f fs)
  obtain a ls rs where "f = (a, ls, rs)" by (cases f) auto
  then show ?case using Cons.IH by (simp add: items_plug1)
qed simp

lemma offs_plug: "offs (plug fs t) = offs_pre fs @ offs t @ offs_post fs"
proof (induction fs arbitrary: t)
  case (Cons f fs)
  obtain a ls rs where f: "f = (a, ls, rs)" by (cases f) auto
  have "offs (plug1 f t) = [a] @ pre1 offs (\<lambda>_. []) ls @ offs t @ post1 offs (\<lambda>_. []) rs"
    by (simp add: plug1_def f pre1_def post1_def o_def)
  then show ?case using Cons.IH f by simp
qed simp

lemma leaves_plug: "leaves (plug fs t) = leaves_pre fs @ leaves t @ leaves_post fs"
proof (induction fs arbitrary: t)
  case (Cons f fs)
  obtain a ls rs where f: "f = (a, ls, rs)" by (cases f) auto
  have "leaves (plug1 f t) = pre1 leaves (\<lambda>_. []) ls @ leaves t @ post1 leaves (\<lambda>_. []) rs"
    by (simp add: plug1_def f pre1_def post1_def o_def)
  then show ?case using Cons.IH f by simp
qed simp

lemma entries_plug: "entries (plug fs t) = entries_pre fs @ entries t @ entries_post fs"
proof (induction fs arbitrary: t)
  case (Cons f fs)
  obtain a ls rs where f: "f = (a, ls, rs)" by (cases f) auto
  have "entries (plug1 f t) = pre1 entries (\<lambda>_. []) ls @ entries t @ post1 entries (\<lambda>_. []) rs"
    by (simp add: plug1_def f pre1_def post1_def o_def)
  then show ?case using Cons.IH f by simp
qed simp

fun frames_at :: "(u64 \<Rightarrow> btree_node option) \<Rightarrow> frame list \<Rightarrow> u64 \<Rightarrow> bool" where
  "frames_at V [] x \<longleftrightarrow> True"
| "frames_at V ((a, ls, rs) # fs) x \<longleftrightarrow>
     V a = Some (int_node a (map snd ls @ map fst rs) (map (toff \<circ> fst) ls @ x # map (toff \<circ> snd) rs)) \<and>
     (\<forall>p \<in> set ls. tree_at V (fst p)) \<and> (\<forall>p \<in> set rs. tree_at V (snd p)) \<and> frames_at V fs a"

fun frames_good :: "nat \<Rightarrow> nat \<Rightarrow> frame list \<Rightarrow> bool" where
  "frames_good ps h [] \<longleftrightarrow> True"
| "frames_good ps h ((a, ls, rs) # fs) \<longleftrightarrow> (ls \<noteq> [] \<or> rs \<noteq> []) \<and> 20 + entries_size (map snd ls @ map fst rs) \<le> ps \<and>
     (\<forall>p \<in> set ls. good False ps h (fst p)) \<and> (\<forall>p \<in> set rs. good False ps h (snd p)) \<and> frames_good ps (Suc h) fs"

lemma tree_at_plug: "tree_at V (plug fs t) \<longleftrightarrow> tree_at V t \<and> frames_at V fs (toff t)"
proof (induction fs arbitrary: t)
  case (Cons f fs)
  obtain a ls rs where "f = (a, ls, rs)" by (cases f) auto
  then show ?case using Cons.IH by (auto simp: plug1_def o_def)
qed simp

lemma good_plug: "good e ps (h + length fs) (plug fs t) \<longleftrightarrow> good (e \<and> fs = []) ps h t \<and> frames_good ps h fs"
proof (induction fs arbitrary: t h)
  case (Cons f fs)
  obtain a ls rs where "f = (a, ls, rs)" by (cases f) auto
  then show ?case using Cons.IH [of "Suc h"] by (auto simp: plug1_def)
qed simp

lemma frames_at_mono:
  "frames_at V fs x \<Longrightarrow> (\<And>a. a \<in> set (offs_pre fs) \<union> set (offs_post fs) \<Longrightarrow> V a \<noteq> None \<Longrightarrow> V' a = V a) \<Longrightarrow> frames_at V' fs x"
proof (induction fs arbitrary: x)
  case (Cons f fs)
  obtain a ls rs where f: "f = (a, ls, rs)" by (cases f) auto
  have "tree_at V' (fst p)" if p: "p \<in> set ls" for p
    by (rule tree_at_mono [where V = V]) (use Cons.prems p in \<open>auto simp: f pre1_def\<close>)
  moreover have "tree_at V' (snd p)" if p: "p \<in> set rs" for p
    by (rule tree_at_mono [where V = V]) (use Cons.prems p in \<open>auto simp: f post1_def\<close>)
  moreover have "frames_at V' fs a" by (rule Cons.IH) (use Cons.prems in \<open>auto simp: f\<close>)
  moreover have "V' a = V a" using Cons.prems by (auto simp: f)
  ultimately show ?case using Cons.prems(1) by (simp add: f)
qed simp

lemma frames_at_le: "frames_at V fs x \<Longrightarrow> V \<subseteq>\<^sub>m V' \<Longrightarrow> frames_at V' fs x"
  by (erule frames_at_mono) (auto simp: map_le_def dom_def)

text \<open>
  A tree, or two halves of one with the separator between them, in a context: everything the store
  has to say about it. The keys are at most 128 bytes, so that a node that outgrows its page can be split.
\<close>

definition hole_items :: "frame list \<Rightarrow> tree list \<Rightarrow> bytes list \<Rightarrow> item list" where
  "hole_items fs ts seps = items_pre fs @ interleave (map items ts) (map Sep seps) @ items_post fs"

definition hole_offs :: "frame list \<Rightarrow> tree list \<Rightarrow> u64 list" where
  "hole_offs fs ts = offs_pre fs @ concat (map offs ts) @ offs_post fs"

definition hole_leaves :: "frame list \<Rightarrow> tree list \<Rightarrow> u64 list" where
  "hole_leaves fs ts = leaves_pre fs @ concat (map leaves ts) @ leaves_post fs"

definition max_key :: nat where "max_key = 128"

definition items_ok :: "bool \<Rightarrow> item list \<Rightarrow> bool" where
  "items_ok s xs \<longleftrightarrow> sorted_wrt (item_rel s) xs \<and> (\<forall>x \<in> set xs. length (ikey x) \<le> max_key)"

definition offs_ok :: "nat \<Rightarrow> nat \<Rightarrow> u64 list \<Rightarrow> bool" where
  "offs_ok ps lim xs \<longleftrightarrow> distinct xs \<and> (\<forall>a \<in> set xs. page_off ps a \<and> unat a < lim)"

definition hole_ok :: "(u64 \<Rightarrow> btree_node option) \<Rightarrow> nat \<Rightarrow> nat \<Rightarrow> bool \<Rightarrow> nat \<Rightarrow> frame list \<Rightarrow> tree list \<Rightarrow> bytes list \<Rightarrow> bool" where
  "hole_ok V ps lim s h fs ts seps \<longleftrightarrow>
     (\<forall>t \<in> set ts. tree_at V t \<and> good (fs = [] \<and> length ts = 1) ps h t) \<and> frames_at V fs (toff (hd ts)) \<and> frames_good ps h fs \<and>
     offs_ok ps lim (hole_offs fs ts) \<and> chain V 0 (hole_leaves fs ts) 0 \<and> items_ok s (hole_items fs ts seps)"

lemma hole_ok_le: "hole_ok V ps lim s h fs ts seps \<Longrightarrow> V \<subseteq>\<^sub>m V' \<Longrightarrow> hole_ok V' ps lim s h fs ts seps"
  by (auto simp: hole_ok_def intro: tree_at_le frames_at_le chain_le)

lemma hole_plug1:
  "hole_offs fs [plug1 f t] = hole_offs (f # fs) [t]" "hole_leaves fs [plug1 f t] = hole_leaves (f # fs) [t]"
  "hole_items fs [plug1 f t] [] = hole_items (f # fs) [t] []"
proof -
  obtain a ls rs where f: "f = (a, ls, rs)" by (cases f) auto
  show "hole_offs fs [plug1 f t] = hole_offs (f # fs) [t]" "hole_leaves fs [plug1 f t] = hole_leaves (f # fs) [t]"
    using offs_plug [of "[f]" t] leaves_plug [of "[f]" t] by (simp_all add: hole_offs_def hole_leaves_def f)
  show "hole_items fs [plug1 f t] [] = hole_items (f # fs) [t] []" by (simp add: hole_items_def f items_plug1)
qed

lemma hole_ok_plug1:
  "hole_ok V ps lim s (Suc h) fs [plug1 f t] [] \<longleftrightarrow> hole_ok V ps lim s h (f # fs) [t] []"
proof -
  obtain a ls rs where f: "f = (a, ls, rs)" by (cases f) auto
  have g: "good e ps (Suc h) (plug1 f t) \<longleftrightarrow> good False ps h t \<and> frames_good ps h [f]" for e
    using good_plug [of e ps h "[f]" t] by simp
  have a: "tree_at V (plug1 f t) \<longleftrightarrow> tree_at V t \<and> frames_at V [f] (toff t)" using tree_at_plug [of V "[f]" t] by simp
  have "toff (plug1 f t) = a" by (simp add: f plug1_def)
  then show ?thesis unfolding hole_ok_def hole_plug1 by (simp add: g a) (auto simp: f)
qed

lemma hole_ok_plug: "hole_ok V ps lim s (h + length fs) [] [plug fs t] [] \<longleftrightarrow> hole_ok V ps lim s h fs [t] []"
proof (induction fs arbitrary: h t)
  case (Cons f fs)
  then show ?case using Cons.IH [of "Suc h" "plug1 f t"] by (simp add: hole_ok_plug1)
qed simp

section \<open>Searching\<close>

lemma interleave_sorted:
  "length xs = Suc (length ks) \<Longrightarrow> set ks \<subseteq> set (interleave xs ks) \<and> (sorted_wrt P (interleave xs ks) \<longrightarrow> sorted_wrt P ks)"
proof (induction xs ks rule: interleave.induct)
  case (3 x xs k ks)
  then show ?case by (auto simp: sorted_wrt_append)
qed auto

lemma lower_bound_sorted:
  assumes "sorted ks"
  shows "lower_bound ks key \<le> length ks" "i < lower_bound ks key \<Longrightarrow> ks ! i < key"
    "lower_bound ks key \<le> i \<Longrightarrow> i < length ks \<Longrightarrow> key \<le> ks ! i"
  using go_search_sorted [OF assms, where h = key] by (simp_all add: lower_bound_def bytes_compare_order)

lemma search_key_index_sorted:
  assumes "sorted_wrt (\<lambda>a b. item_rel s (Sep a) (Sep b)) ks"
  shows "search_key_index ks key \<le> length ks"
    "i < search_key_index ks key \<Longrightarrow> item_rel s (Sep (ks ! i)) (Ent key v)"
    "search_key_index ks key \<le> i \<Longrightarrow> i < length ks \<Longrightarrow> item_rel s (Ent key v) (Sep (ks ! i))"
proof -
  let ?l = "lower_bound ks key" and ?i = "search_key_index ks key"
  have so: "sorted ks" by (rule sorted_wrt_mono_rel [OF _ assms]) (auto simp: item_rel_def)
  note lb = lower_bound_sorted [OF so, where key = key]
  have eq: "?i = (if ?l < length ks \<and> ks ! ?l = key then ?l + 1 else ?l)" by (simp add: search_key_index_def Let_def)
  show "?i \<le> length ks" using lb(1) eq by auto
  show "item_rel s (Sep (ks ! i)) (Ent key v)" if "i < ?i"
    using that lb(2) [of i] eq by (cases "i < ?l") (auto simp: item_rel_def less_Suc_eq split: if_splits)
  show "item_rel s (Ent key v) (Sep (ks ! i))" if i: "?i \<le> i" "i < length ks"
  proof -
    have ge: "key \<le> ks ! i" using lb(3) [of i] i eq by (auto split: if_splits)
    show ?thesis
    proof (cases "key = ks ! i")
      case True
      have "?l < length ks \<and> ks ! ?l = key"
      proof -
        have l: "?l \<le> i" using i(1) eq by (auto split: if_splits)
        then have "?l < length ks" using i(2) by simp
        moreover have "ks ! ?l \<le> ks ! i" using l i(2) so by (simp add: sorted_nth_mono)
        ultimately show ?thesis using lb(3) [of ?l] True by auto
      qed
      then have "?l < i" using i(1) eq by simp
      then have "item_rel s (Sep (ks ! ?l)) (Sep (ks ! i))" using assms i(2) by (simp add: sorted_wrt_iff_nth_less)
      then show ?thesis using True \<open>?l < length ks \<and> ks ! ?l = key\<close> by (auto simp: item_rel_def)
    qed (use ge in \<open>auto simp: item_rel_def\<close>)
  qed
qed

end
