(* ===== verification/Tree_Search.thy ===== *)
theory Tree_Search
  imports Tree_Shape
begin

text \<open>
  Descending from the root to a leaf, and lookup. The nodes that an operation has loaded stay in the
  cache as long as there are no more of them than the cache can hold.
\<close>

section \<open>Descending\<close>

lemma card_insert_Suc: "finite H \<Longrightarrow> card (insert x H) \<le> Suc (card H)"
  by (simp add: card_insert_if)

lemma store_ok_finite: "store_ok X H t \<Longrightarrow> finite H"
  by (simp add: store_ok_def held_def)

lemma clean_fields:
  assumes "clean n = m"
  shows "node_keys n = node_keys m" "node_values n = node_values m" "node_children n = node_children m"
    "node_type n = node_type m" "node_offset n = node_offset m" "node_next n = node_next m" "node_prev n = node_prev m"
    "is_leaf n = is_leaf m" "leaf_size n = leaf_size m" "internal_size n = internal_size m"
  unfolding assms [symmetric] by (cases n; simp add: is_leaf_def leaf_size_def internal_size_def)+

lemma node_fields [simp]:
  "node_keys (leaf_node a es nx pv) = map fst es" "node_values (leaf_node a es nx pv) = map snd es"
  "node_next (leaf_node a es nx pv) = nx" "node_prev (leaf_node a es nx pv) = pv" "node_offset (leaf_node a es nx pv) = a"
  "is_leaf (leaf_node a es nx pv)" "leaf_size (leaf_node a es nx pv) = 28 + entries_size (map fst es)"
  "node_keys (int_node a ks cs) = ks" "node_children (int_node a ks cs) = cs" "node_offset (int_node a ks cs) = a"
  "\<not> is_leaf (int_node a ks cs)" "clean (leaf_node a es nx pv) = leaf_node a es nx pv" "clean (int_node a ks cs) = int_node a ks cs"
  "cs \<noteq> [] \<Longrightarrow> internal_size (int_node a ks cs) = 20 + entries_size ks"
  by (simp_all add: leaf_node_def int_node_def is_leaf_def node_type_leaf_def node_type_internal_def leaf_size_def
      internal_size_def entries_size_def)

lemma node_ok_leaf: "page_off (unat ps) a \<Longrightarrow> 28 + entries_size (map fst es) \<le> unat ps \<Longrightarrow> node_ok ps (leaf_node a es nx pv)"
  by (simp add: node_ok_def node_wf_def) (simp add: leaf_node_def)

lemma node_ok_int:
  "page_off (unat ps) a \<Longrightarrow> length cs = Suc (length ks) \<Longrightarrow> 20 + entries_size ks \<le> unat ps \<Longrightarrow> node_ok ps (int_node a ks cs)"
  by (cases cs) (simp_all add: node_ok_def node_wf_def, simp_all add: int_node_def node_type_leaf_def node_type_internal_def)

text \<open>The root of a tree in the store is a node that fits its page.\<close>

lemma tree_root_ok:
  assumes "tree_at V T" "good e (unat ps) h T" "page_off (unat ps) (toff T)"
  obtains n where "V (toff T) = Some n" "node_ok ps n"
proof (cases T)
  case (Lf a es)
  then obtain nx pv where "V a = Some (leaf_node a es nx pv)" using assms(1) by auto
  then show thesis using that assms Lf by (cases h) (auto intro: node_ok_leaf)
next
  case (Nd a ks ts)
  then have "V a = Some (int_node a ks (map toff ts))" "length (map toff ts) = Suc (length ks)" "20 + entries_size ks \<le> unat ps"
    using assms(1,2) by (cases h; simp)+
  then show thesis using that node_ok_int [of ps a "map toff ts" ks] assms(3) Nd by simp
qed

definition path_ok :: "(u64 \<Rightarrow> btree_node option) \<Rightarrow> frame list \<Rightarrow> tree_path \<Rightarrow> bool" where
  "path_ok V fs path \<longleftrightarrow> list_all2 (\<lambda>f p. V (fst f) = Some (clean (fst p)) \<and> node_offset (fst p) = fst f \<and> snd p = length (fst (snd f))) fs path"

lemma path_ok_le: "path_ok V fs path \<Longrightarrow> V \<subseteq>\<^sub>m V' \<Longrightarrow> path_ok V' fs path"
  by (auto simp: path_ok_def map_leD elim!: list.rel_mono_strong)

text \<open>The frame of the child with a given index.\<close>

lemma frame_at_index:
  assumes "length ts = Suc (length ks)" "i \<le> length ks"
  obtains ls c rs where "Nd a ks ts = plug1 (a, ls, rs) c" "length ls = i" "c = ts ! i" "map snd ls = take i ks" "map fst rs = drop i ks"
proof
  let ?ls = "zip (take i ts) (take i ks)" and ?rs = "zip (drop i ks) (drop (Suc i) ts)"
  have "ts = take i ts @ ts ! i # drop (Suc i) ts" using assms by (simp add: id_take_nth_drop)
  moreover have "map fst ?ls = take i ts" "map snd ?ls = take i ks" "map fst ?rs = drop i ks" "map snd ?rs = drop (Suc i) ts"
    using assms by simp_all
  ultimately show "Nd a ks ts = plug1 (a, ?ls, ?rs) (ts ! i)" unfolding plug1_def by simp
  show "length ?ls = i" "ts ! i = ts ! i" "map snd ?ls = take i ks" "map fst ?rs = drop i ks" using assms by simp_all
qed

text \<open>Where a key belongs: everything before the hole is below it, everything after it above.\<close>

definition hole_for :: "bool \<Rightarrow> bytes \<Rightarrow> frame list \<Rightarrow> bool" where
  "hole_for s key fs \<longleftrightarrow> (\<forall>v. (\<forall>x \<in> set (items_pre fs). item_rel s x (Ent key v)) \<and> (\<forall>x \<in> set (items_post fs). item_rel s (Ent key v) x))"

lemma pre1_below:
  assumes "sorted_wrt (item_rel s) (pre1 items (\<lambda>k. [Sep k]) ls)" "\<forall>p \<in> set ls. item_rel s (Sep (snd p)) y"
  shows "\<forall>x \<in> set (pre1 items (\<lambda>k. [Sep k]) ls). item_rel s x y"
proof
  fix x
  assume x: "x \<in> set (pre1 items (\<lambda>k. [Sep k]) ls)"
  then obtain p where p: "p \<in> set ls" "x \<in> set (items (fst p)) \<or> x = Sep (snd p)" by (auto simp: pre1_def)
  obtain xs ys where "ls = xs @ p # ys" using p(1) by (auto simp: in_set_conv_decomp)
  then have "sorted_wrt (item_rel s) (items (fst p) @ [Sep (snd p)])" using assms(1) by (simp add: pre1_def sorted_wrt_append)
  then have "x \<noteq> Sep (snd p) \<Longrightarrow> item_rel s x (Sep (snd p))" using p(2) by (auto simp: sorted_wrt_append)
  then show "item_rel s x y" using assms(2) p(1) item_rel_trans by blast
qed

lemma post1_above:
  assumes "sorted_wrt (item_rel s) (post1 items (\<lambda>k. [Sep k]) rs)" "\<forall>p \<in> set rs. item_rel s y (Sep (fst p))"
  shows "\<forall>x \<in> set (post1 items (\<lambda>k. [Sep k]) rs). item_rel s y x"
proof
  fix x
  assume x: "x \<in> set (post1 items (\<lambda>k. [Sep k]) rs)"
  then obtain p where p: "p \<in> set rs" "x \<in> set (items (snd p)) \<or> x = Sep (fst p)" by (auto simp: post1_def)
  obtain xs ys where "rs = xs @ p # ys" using p(1) by (auto simp: in_set_conv_decomp)
  then have "sorted_wrt (item_rel s) (Sep (fst p) # items (snd p))" using assms(1) by (simp add: post1_def sorted_wrt_append)
  then have "x \<noteq> Sep (fst p) \<Longrightarrow> item_rel s (Sep (fst p)) x" using p(2) by auto
  then show "item_rel s y x" using assms(2) p(1) item_rel_trans by blast
qed

lemma hole_for_child:
  assumes "hole_ok V ps lim s h ((a, ls, rs) # fs) [c] []" "hole_for s key fs" "length ls = search_key_index (map snd ls @ map fst rs) key"
  shows "hole_for s key ((a, ls, rs) # fs)"
proof -
  let ?ks = "map snd ls @ map fst rs"
  have "items_ok s (items_pre fs @ (pre1 items (\<lambda>k. [Sep k]) ls @ items c @ post1 items (\<lambda>k. [Sep k]) rs) @ items_post fs)"
    using assms(1) by (simp add: hole_ok_def hole_items_def)
  then have so: "sorted_wrt (item_rel s) (pre1 items (\<lambda>k. [Sep k]) ls @ items c @ post1 items (\<lambda>k. [Sep k]) rs)"
    unfolding items_ok_def using sorted_wrt_append by blast
  have "sorted_wrt (item_rel s) (items (plug1 (a, ls, rs) c))" using so by (simp only: items_plug1)
  then have "sorted_wrt (item_rel s) (interleave (map items (map fst ls @ c # map snd rs)) (map Sep ?ks))"
    by (simp add: plug1_def)
  then have "sorted_wrt (item_rel s) (map Sep ?ks)"
    using interleave_sorted [of "map items (map fst ls @ c # map snd rs)" "map Sep ?ks" "item_rel s"] by simp
  then have ks: "sorted_wrt (\<lambda>a b. item_rel s (Sep a) (Sep b)) ?ks" by (simp only: sorted_wrt_map)
  note sk = search_key_index_sorted [OF ks, where key = key, folded assms(3)]
  have l: "item_rel s (Sep (snd p)) (Ent key v)" if p: "p \<in> set ls" for p v
  proof -
    obtain i where "i < length ls" "p = ls ! i" using p by (auto simp: in_set_conv_nth)
    then show ?thesis using sk(2) [of i] by (simp add: nth_append)
  qed
  have r: "item_rel s (Ent key v) (Sep (fst p))" if p: "p \<in> set rs" for p v
  proof -
    obtain i where "i < length rs" "p = rs ! i" using p by (auto simp: in_set_conv_nth)
    then show ?thesis using sk(3) [of "length ls + i"] by (simp add: nth_append)
  qed
  have so1: "sorted_wrt (item_rel s) (pre1 items (\<lambda>k. [Sep k]) ls)" "sorted_wrt (item_rel s) (post1 items (\<lambda>k. [Sep k]) rs)"
    using so unfolding sorted_wrt_append by blast+
  have "\<forall>x \<in> set (pre1 items (\<lambda>k. [Sep k]) ls). item_rel s x (Ent key v)" for v by (rule pre1_below [OF so1(1)]) (use l in blast)
  moreover have "\<forall>x \<in> set (post1 items (\<lambda>k. [Sep k]) rs). item_rel s (Ent key v) x" for v by (rule post1_above [OF so1(2)]) (use r in blast)
  ultimately show ?thesis using assms(2) unfolding hole_for_def by simp blast
qed

text \<open>
  The descent ends at a leaf in whose context the key belongs, with the path of the context.
\<close>

definition found :: "bool \<Rightarrow> nat \<Rightarrow> bytes \<Rightarrow> frame list \<Rightarrow> u64 \<Rightarrow> (bytes \<times> location) list \<Rightarrow> btree_node \<Rightarrow> tree_path \<Rightarrow> u64 set \<Rightarrow> persist_tree \<Rightarrow> bool" where
  "found s lim key fs a es node path H t \<longleftrightarrow>
     hole_ok (view t) (unat (pt_page_size t)) lim s 0 fs [Lf a es] [] \<and> hole_for s key fs \<and>
     view t a = Some (clean node) \<and> node_offset node = a \<and> path_ok (view t) fs path \<and> store_ok {} H t \<and> insert a (fst ` set fs) \<subseteq> H"

lemma descend_ok:
  assumes "hole_ok (view t) (unat (pt_page_size t)) lim s h fs [T] []" "hole_for s key fs" "store_ok {} H t"
    "view t (toff T) = Some (clean node)" "node_offset node = toff T" "path_ok (view t) fs path"
    "insert (toff T) (fst ` set fs) \<subseteq> H" "h \<le> d" "card H + h \<le> pt_capacity t"
  shows "\<exists>leaf path' t' fs' a es H'. descend d key node path t = (Inr (leaf, path'), t') \<and> found s lim key fs' a es leaf path' H' t' \<and>
    plug fs' (Lf a es) = plug fs T \<and> length fs' = length fs + h \<and> card H' \<le> card H + h \<and> same_tree t t' \<and> view t \<subseteq>\<^sub>m view t'"
  using assms
proof (induction h arbitrary: d fs T H node path t)
  case 0
  have g: "good (fs = []) (unat (pt_page_size t)) 0 T" "tree_at (view t) T" using 0(1) by (simp_all add: hole_ok_def)
  then obtain a es where T: "T = Lf a es" by (cases T) simp_all
  obtain nx pv where "view t a = Some (leaf_node a es nx pv)" using g(2) unfolding T by auto
  then have "clean node = leaf_node a es nx pv" using 0(4) by (metis T option.inject toff.simps(1))
  from clean_fields(8) [OF this] have leaf: "is_leaf node" by simp
  have "descend d key node path t = (Inr (node, path), t)" using leaf by (cases d) simp_all
  moreover have "found s lim key fs a es node path H t" using 0 by (simp add: found_def T)
  ultimately show ?case unfolding T
    by (intro exI [of _ node] exI [of _ path] exI [of _ t] exI [of _ fs] exI [of _ a] exI [of _ es] exI [of _ H]) simp
next
  case (Suc h)
  let ?ps = "unat (pt_page_size t)"
  have g: "good (fs = []) ?ps (Suc h) T" "tree_at (view t) T" using Suc.prems(1) by (simp_all add: hole_ok_def)
  then obtain a ks ts where T: "T = Nd a ks ts" by (cases T) simp_all
  obtain d' where d: "d = Suc d'" "h \<le> d'" using Suc.prems(8) by (cases d) auto
  have "view t a = Some (int_node a ks (map toff ts))" using g(2) by (simp add: T)
  then have "clean node = int_node a ks (map toff ts)" using Suc.prems(4) by (metis T option.inject toff.simps(2))
  note nf = clean_fields [OF this, simplified]
  have len: "length ts = Suc (length ks)" using g(1) by (simp add: T)
  let ?i = "search_key_index ks key"
  have "hole_ok (view t) ?ps lim s (Suc h) fs [Nd a ks ts] []" using Suc.prems(1) by (simp add: T)
  moreover have i: "?i \<le> length ks"
  proof -
    have "items_ok s (items_pre fs @ items (Nd a ks ts) @ items_post fs)" using Suc.prems(1) by (simp add: hole_ok_def hole_items_def T)
    then have "sorted_wrt (item_rel s) (interleave (map items ts) (map Sep ks))" unfolding items_ok_def using sorted_wrt_append by (metis items.simps(2))
    then have "sorted_wrt (item_rel s) (map Sep ks)" using interleave_sorted [of "map items ts" "map Sep ks" "item_rel s"] len by simp
    then show ?thesis using search_key_index_sorted(1) by (simp only: sorted_wrt_map)
  qed
  moreover obtain ls c rs where fr: "Nd a ks ts = plug1 (a, ls, rs) c" "length ls = ?i" "c = ts ! ?i" "map snd ls = take ?i ks" "map fst rs = drop ?i ks"
    using frame_at_index [OF len i, of a] by metis
  ultimately have ho: "hole_ok (view t) ?ps lim s h ((a, ls, rs) # fs) [c] []" by (simp only: fr(1) hole_ok_plug1)
  have ks: "map snd ls @ map fst rs = ks" using fr by simp
  have hf: "hole_for s key ((a, ls, rs) # fs)" by (rule hole_for_child [OF ho Suc.prems(2)]) (simp only: ks fr(2))
  have c: "tree_at (view t) c" "good False ?ps h c" "page_off ?ps (toff c)"
    using ho by (auto simp: hole_ok_def offs_ok_def hole_offs_def)
  obtain n where n: "view t (toff c) = Some n" "node_ok (pt_page_size t) n" by (rule tree_root_ok [OF c])
  have fin: "finite H" by (rule store_ok_finite [OF Suc.prems(3)])
  have "card (insert (toff c) H) \<le> pt_capacity t" using card_insert_Suc [OF fin, of "toff c"] Suc.prems(9) by simp
  from load_ok [OF Suc.prems(3) n this] obtain n' t1 where
    l: "load_node (toff c) t = (Inr n', t1)" "clean n' = n" "node_offset n' = toff c" "store_ok {} (insert (toff c) H) t1" "same_tree t t1" "view t \<subseteq>\<^sub>m view t1" by auto
  note st = same_treeD [OF l(5)]
  have dd: "descend d key node path t = descend d' key n' ((node, ?i) # path) t1"
    using nf len i fr(3) l(1) by (simp add: d(1) Let_def nth_map)
  have "path_ok (view t1) ((a, ls, rs) # fs) ((node, ?i) # path)"
    using path_ok_le [OF Suc.prems(6) l(6)] map_leD [OF l(6) Suc.prems(4)] Suc.prems(5) fr(2) by (simp add: path_ok_def T)
  moreover have "insert (toff c) (fst ` set ((a, ls, rs) # fs)) \<subseteq> insert (toff c) H" using Suc.prems(7) by (auto simp: T)
  moreover have "card (insert (toff c) H) + h \<le> pt_capacity t1" using card_insert_Suc [OF fin, of "toff c"] Suc.prems(9) st(2) by simp
  ultimately obtain leaf path' t' fs' b es H' where r:
    "descend d' key n' ((node, ?i) # path) t1 = (Inr (leaf, path'), t')" "found s lim key fs' b es leaf path' H' t'"
    "plug fs' (Lf b es) = plug ((a, ls, rs) # fs) c" "length fs' = length ((a, ls, rs) # fs) + h"
    "card H' \<le> card (insert (toff c) H) + h" "same_tree t1 t'" "view t1 \<subseteq>\<^sub>m view t'"
    using Suc.IH [of t1 "(a, ls, rs) # fs" c "insert (toff c) H" n' "(node, ?i) # path" d'] hole_ok_le [OF ho l(6)] hf l(2-4)
      map_leD [OF l(6) n(1)] d(2) st(1) by auto
  have "view t \<subseteq>\<^sub>m view t'" using l(6) r(7) by (rule map_le_trans)
  moreover have "card H' \<le> card H + Suc h" using r(5) card_insert_Suc [OF fin, of "toff c"] by simp
  ultimately show ?case unfolding dd r(1)
    using r(2-4) same_tree_trans [OF l(5) r(6)]
    by (intro exI [of _ leaf] exI [of _ path'] exI [of _ t'] exI [of _ fs'] exI [of _ b] exI [of _ es] exI [of _ H']) (simp add: T fr(1))
qed

section \<open>The invariant of a tree\<close>

definition tree_lim :: "persist_tree \<Rightarrow> nat" where
  "tree_lim t = unat (pt_page_size t) * Suc (unat (ih_node_count (if_header (pt_file t))))"

text \<open>The store represents the tree \<open>T\<close> of height \<open>h\<close>, with its keys in strict order or not.\<close>

definition pt_inv :: "bool \<Rightarrow> nat \<Rightarrow> tree \<Rightarrow> persist_tree \<Rightarrow> bool" where
  "pt_inv s h T t \<longleftrightarrow> store_ok {} {} t \<and> hole_ok (view t) (unat (pt_page_size t)) (tree_lim t) s h [] [T] [] \<and> pt_root t = toff T"

lemma store_ok_release: "store_ok {} H t \<Longrightarrow> store_ok {} {} t"
  by (simp add: store_ok_def held_def)

lemma same_tree_lim: "same_tree t t' \<Longrightarrow> tree_lim t' = tree_lim t"
  by (simp add: tree_lim_def same_treeD)

lemma pt_inv_same:
  assumes "pt_inv s h T t" "same_tree t t'" "view t \<subseteq>\<^sub>m view t'" "store_ok {} H t'"
  shows "pt_inv s h T t'"
  using assms hole_ok_le [OF _ assms(3)] store_ok_release [OF assms(4)]
  by (simp add: pt_inv_def same_treeD [OF assms(2)] same_tree_lim [OF assms(2)])

lemma find_leaf_ok:
  assumes "pt_inv s h T t" "h \<le> max_depth" "Suc h \<le> pt_capacity t"
  shows "\<exists>leaf path t' fs a es H. find_leaf key t = (Inr (leaf, path), t') \<and> found s (tree_lim t) key fs a es leaf path H t' \<and>
    plug fs (Lf a es) = T \<and> length fs = h \<and> card H \<le> Suc h \<and> same_tree t t' \<and> view t \<subseteq>\<^sub>m view t'"
proof -
  let ?ps = "unat (pt_page_size t)"
  have i: "store_ok {} {} t" "hole_ok (view t) ?ps (tree_lim t) s h [] [T] []" "pt_root t = toff T" using assms(1) by (simp_all add: pt_inv_def)
  have T: "tree_at (view t) T" "good True ?ps h T" "page_off ?ps (toff T)"
    using i(2) by (simp_all add: hole_ok_def offs_ok_def hole_offs_def)
  obtain n where n: "view t (toff T) = Some n" "node_ok (pt_page_size t) n" by (rule tree_root_ok [OF T])
  have "card (insert (toff T) {}) \<le> pt_capacity t" using assms(3) by simp
  from load_ok [OF i(1) n this] obtain n' t1 where
    l: "load_node (toff T) t = (Inr n', t1)" "clean n' = n" "node_offset n' = toff T" "store_ok {} {toff T} t1" "same_tree t t1" "view t \<subseteq>\<^sub>m view t1" by auto
  note st = same_treeD [OF l(5)]
  have "hole_for s key []" by (simp add: hole_for_def)
  moreover have "path_ok (view t1) [] []" by (simp add: path_ok_def)
  moreover have "view t1 (toff T) = Some (clean n')" using map_leD [OF l(6) n(1)] l(2) by simp
  moreover have "card {toff T} + h \<le> pt_capacity t1" using assms(3) st(2) by simp
  moreover have "hole_ok (view t1) (unat (pt_page_size t1)) (tree_lim t) s h [] [T] []" using hole_ok_le [OF i(2) l(6)] st(1) by simp
  ultimately obtain leaf path t' fs a es H where r: "descend max_depth key n' [] t1 = (Inr (leaf, path), t')"
    "found s (tree_lim t) key fs a es leaf path H t'" "plug fs (Lf a es) = T" "length fs = h" "card H \<le> Suc h" "same_tree t1 t'" "view t1 \<subseteq>\<^sub>m view t'"
    using descend_ok [of t1 "tree_lim t" s h "[]" T key "{toff T}" n' "[]" max_depth] l(3,4) assms(2) by auto
  have "find_leaf key t = (Inr (leaf, path), t')" using l(1) r(1) i(3) by (simp add: find_leaf_def)
  moreover have "view t \<subseteq>\<^sub>m view t'" using l(6) r(7) by (rule map_le_trans)
  ultimately show ?thesis using r(2-5) same_tree_trans [OF l(5) r(6)] by blast
qed

section \<open>Entries and items\<close>

definition ents :: "item list \<Rightarrow> (bytes \<times> location) list" where
  "ents xs = map (\<lambda>x. (ikey x, ival x)) (filter (\<lambda>x. \<not> is_Sep x) xs)"

lemma ents_simps [simp]:
  "ents [] = []" "ents (Sep k # xs) = ents xs" "ents (Ent k v # xs) = (k, v) # ents xs" "ents (xs @ ys) = ents xs @ ents ys"
  by (simp_all add: ents_def)

lemma ents_interleave:
  "length xs = Suc (length ks) \<Longrightarrow> ents (interleave xs (map Sep ks)) = concat (map ents xs)"
proof (induction ks arbitrary: xs)
  case Nil
  then show ?case by (cases xs) auto
next
  case (Cons k ks)
  then show ?case by (cases xs) auto
qed

lemma ents_items: "good e ps h t \<Longrightarrow> ents (items t) = entries t"
proof (induction e ps h t rule: good.induct)
  case (1 e ps a es)
  show ?case by (induction es) auto
next
  case (2 e ps h a ks ts)
  then have "map (\<lambda>x. ents (items x)) ts = map entries ts" by auto
  moreover have "length (map items ts) = Suc (length ks)" using 2(2) by simp
  ultimately show ?case using ents_interleave [of "map items ts" ks] by (simp add: o_def del: map_eq_conv)
qed auto

lemma ents_pre1: "\<forall>p \<in> set ls. good False ps h (fst p) \<Longrightarrow> ents (pre1 items (\<lambda>k. [Sep k]) ls) = pre1 entries (\<lambda>_. []) ls"
  by (induction ls) (auto simp: pre1_def ents_items)

lemma ents_post1: "\<forall>p \<in> set rs. good False ps h (snd p) \<Longrightarrow> ents (post1 items (\<lambda>k. [Sep k]) rs) = post1 entries (\<lambda>_. []) rs"
  by (induction rs) (auto simp: post1_def ents_items)

lemma ents_context: "frames_good ps h fs \<Longrightarrow> ents (items_pre fs) = entries_pre fs \<and> ents (items_post fs) = entries_post fs"
proof (induction fs arbitrary: h)
  case (Cons f fs)
  obtain a ls rs where "f = (a, ls, rs)" by (cases f) auto
  then show ?case using Cons.IH [of "Suc h"] Cons.prems ents_pre1 [of ls ps h] ents_post1 [of rs ps h] by simp
qed simp

lemma ents_mem: "(k, v) \<in> set (ents xs) \<longleftrightarrow> Ent k v \<in> set xs"
proof (induction xs)
  case (Cons x xs)
  then show ?case by (cases x) auto
qed simp

text \<open>In the context of a leaf in which a key belongs, no other place has it.\<close>

lemma found_keys:
  assumes "hole_for s key fs" "frames_good ps h fs" "(k, v) \<in> set (entries_pre fs) \<union> set (entries_post fs)"
  shows "(k, v) \<in> set (entries_pre fs) \<Longrightarrow> k \<le> key" "(k, v) \<in> set (entries_post fs) \<Longrightarrow> key \<le> k" "s \<Longrightarrow> k \<noteq> key"
proof -
  have e: "(k, v) \<in> set (entries_pre fs) \<longleftrightarrow> Ent k v \<in> set (items_pre fs)" "(k, v) \<in> set (entries_post fs) \<longleftrightarrow> Ent k v \<in> set (items_post fs)"
    using ents_context [OF assms(2)] ents_mem by metis+
  have r: "Ent k v \<in> set (items_pre fs) \<Longrightarrow> item_rel s (Ent k v) (Ent key v)" "Ent k v \<in> set (items_post fs) \<Longrightarrow> item_rel s (Ent key v) (Ent k v)"
    using assms(1) by (simp_all add: hole_for_def)
  show "(k, v) \<in> set (entries_pre fs) \<Longrightarrow> k \<le> key" "(k, v) \<in> set (entries_post fs) \<Longrightarrow> key \<le> k"
    using r unfolding e by (auto simp: item_rel_def)
  show "s \<Longrightarrow> k \<noteq> key" using r assms(3) unfolding Un_iff e by (auto simp: item_rel_def)
qed

lemma lower_bound_map_of:
  fixes key :: bytes
  assumes "sorted_wrt (<) (map fst es)"
  defines "i \<equiv> lower_bound (map fst es) key"
  shows "map_of es key = (if i < length es \<and> fst (es ! i) = key then Some (snd (es ! i)) else None)"
proof -
  have so: "sorted (map fst es)" "distinct (map fst es)" using assms(1) strict_sorted_iff by blast+
  note lb = lower_bound_sorted [OF so(1), where key = key, folded i_def]
  show ?thesis
  proof (cases "i < length es \<and> fst (es ! i) = key")
    case True
    then have "(key, snd (es ! i)) \<in> set es" by (metis nth_mem prod.collapse)
    then show ?thesis using True so(2) by simp
  next
    case False
    have "key \<noteq> fst (es ! j)" if j: "j < length es" for j
    proof (cases "j < i")
      case True
      then show ?thesis using lb(2) [of j] j by auto
    next
      case nl: False
      have "i < length es" "key \<le> fst (es ! i)" using nl j lb(3) [of i] by auto
      then have "key < fst (es ! i)" using False by auto
      moreover have "fst (es ! i) \<le> fst (es ! j)" using sorted_nth_mono [OF so(1), of i j] nl j by simp
      ultimately show ?thesis by auto
    qed
    then have "map_of es key = None" by (force simp: map_of_eq_None_iff in_set_conv_nth)
    then show ?thesis using False by simp
  qed
qed

lemma items_sorted_keys: "sorted_wrt (item_rel True) (map (\<lambda>(k, v). Ent k v) es) \<Longrightarrow> sorted_wrt (<) (map fst es)"
  by (auto simp: sorted_wrt_map item_rel_def case_prod_beta)

section \<open>Lookup\<close>

lemma get_ok:
  assumes "pt_inv True h T t" "h \<le> max_depth" "Suc h \<le> pt_capacity t"
  shows "\<exists>t'. pt_get None key t = (Inr (map_of (entries T) key), t') \<and> pt_inv True h T t' \<and> same_tree t t'"
proof -
  obtain leaf path t' fs a es H where f: "find_leaf key t = (Inr (leaf, path), t')" "found True (tree_lim t) key fs a es leaf path H t'"
    "plug fs (Lf a es) = T" "same_tree t t'" "view t \<subseteq>\<^sub>m view t'"
    using find_leaf_ok [OF assms, of key] by blast
  have fo: "hole_ok (view t') (unat (pt_page_size t')) (tree_lim t) True 0 fs [Lf a es] []" "hole_for True key fs" "store_ok {} H t'"
    "view t' a = Some (clean leaf)" using f(2) by (simp_all add: found_def)
  have ho: "tree_at (view t') (Lf a es)" "frames_good (unat (pt_page_size t')) 0 fs"
    "items_ok True (items_pre fs @ map (\<lambda>(k, v). Ent k v) es @ items_post fs)"
    using fo(1) by (simp_all add: hole_ok_def hole_items_def)
  then obtain nx pv where "clean leaf = leaf_node a es nx pv" using fo(4) by (metis option.inject tree_at.simps(1))
  from clean_fields [OF this] have nf: "node_keys leaf = map fst es" "node_values leaf = map snd es" by simp_all
  have "sorted_wrt (<) (map fst es)"
    by (rule items_sorted_keys) (use ho(3) in \<open>simp add: items_ok_def sorted_wrt_append\<close>)
  note mo = lower_bound_map_of [OF this, of key]
  have none: "map_of (entries_pre fs) key = None" "map_of (entries_post fs) key = None"
    using found_keys(3) [OF fo(2) ho(2)] by (force simp: map_of_eq_None_iff)+
  have "map_of (entries T) key = map_of es key"
    unfolding f(3) [symmetric] entries_plug using none by (simp add: map_add_def split: option.split)
  then have "pt_get None key t = (Inr (map_of (entries T) key), t')"
    using f(1) nf by (simp add: pt_get_def Let_def mo)
  then show ?thesis using pt_inv_same [OF assms(1) f(4,5) fo(3)] f(4) by blast
qed

end
