(* ===== verification/Tree_Insert.thy ===== *)
theory Tree_Insert
  imports Tree_Search
begin

text \<open>
  Insertion into the tree: the leaf, its split, and the separators on the way up. The result is stated
  on the tree as a value: the new entry stands where its key belongs, all others are as before, and
  the store represents the new tree.
\<close>

section \<open>Sequences of items\<close>

abbreviation ent_items :: "(bytes \<times> location) list \<Rightarrow> item list" where
  "ent_items es \<equiv> map (\<lambda>(k, v). Ent k v) es"

lemma items_ok_insert:
  assumes "items_ok s (xs @ ys)" "\<forall>x \<in> set xs. item_rel s x y" "\<forall>x \<in> set ys. item_rel s y x" "length (ikey y) \<le> max_key"
  shows "items_ok s (xs @ y # ys)"
  using assms by (auto simp: items_ok_def sorted_wrt_append)

text \<open>The separator that a leaf puts before its right half.\<close>

lemma items_ok_separator:
  assumes "items_ok s (xs @ Ent k w # Ent l v # ys)"
  shows "items_ok s (xs @ Ent k w # Sep l # Ent l v # ys)"
proof -
  have r: "item_rel s (Ent k w) (Ent l v)" "\<forall>x \<in> set xs. item_rel s x (Ent k w)" "\<forall>y \<in> set ys. item_rel s (Ent l v) y"
    using assms by (auto simp: items_ok_def sorted_wrt_append)
  have kl: "item_rel s (Ent k w) (Sep l)" using r(1) by (auto simp: item_rel_def)
  have "item_rel s (Sep l) (Ent l v)" by (simp add: item_rel_def)
  moreover have "item_rel s (Sep l) y" if "y \<in> set ys" for y
    using r(3) that by (auto simp: item_rel_def)
  moreover have "item_rel s x (Sep l)" if "x \<in> set xs" for x using r(2) that kl item_rel_trans by blast
  moreover have "items_ok s ((xs @ [Ent k w]) @ Ent l v # ys)" using assms by simp
  moreover have "length l \<le> max_key" using assms by (simp add: items_ok_def)
  ultimately have "items_ok s ((xs @ [Ent k w]) @ Sep l # Ent l v # ys)"
    using kl by (intro items_ok_insert [of s "xs @ [Ent k w]" "Ent l v # ys" "Sep l"]) auto
  then show ?thesis by simp
qed

section \<open>Sizes\<close>

lemma entries_size_append [simp]: "entries_size (xs @ ys) = entries_size xs + entries_size ys"
  by (simp add: entries_size_def)

lemma entries_size_le: "\<forall>k \<in> set ks. length k \<le> max_key \<Longrightarrow> entries_size ks \<le> 138 * length ks"
  by (induction ks) (auto simp: max_key_def)

lemma entries_size_split: "entries_size (take m ks) + entries_size (drop m ks) = entries_size ks"
  by (metis append_take_drop_id entries_size_append)

text \<open>A node that outgrew its page by one key is split in the middle, and both halves fit.\<close>

lemma split_sizes:
  assumes "\<forall>k \<in> set ks. length k \<le> max_key" "lim < entries_size ks" "entries_size ks \<le> lim + 138" "4060 \<le> lim"
  shows "30 \<le> length ks" "entries_size (take (length ks div 2) ks) \<le> lim" "entries_size (drop (length ks div 2) ks) \<le> lim"
    "entries_size (drop (length ks div 2 + 1) ks) \<le> lim"
proof -
  let ?n = "length ks" and ?m = "length ks div 2"
  show n: "30 \<le> ?n" using entries_size_le [OF assms(1)] assms(2,4) by simp
  then have m: "15 \<le> ?m" "15 \<le> ?n - ?m" by linarith+
  have t: "150 \<le> entries_size (take ?m ks)" "150 \<le> entries_size (drop ?m ks)"
    using entries_size_ge [of "take ?m ks"] entries_size_ge [of "drop ?m ks"] m n by simp_all
  show "entries_size (take ?m ks) \<le> lim" "entries_size (drop ?m ks) \<le> lim"
    using entries_size_split [of ?m ks] t assms(3) by linarith+
  moreover have "entries_size (drop (?m + 1) ks) \<le> entries_size (drop ?m ks)"
    using entries_size_split [of 1 "drop ?m ks"] by simp
  ultimately show "entries_size (drop (?m + 1) ks) \<le> lim" by linarith
qed

lemma split_point_id: "rest mid \<le> lim \<Longrightarrow> split_point rest lim n mid = mid"
  by (simp add: split_point.simps)

section \<open>Leaves\<close>

lemma leaf_dup_iff:
  assumes "sorted (map fst es)"
  shows "val \<in> snd ` set (takeWhile (\<lambda>e. fst e = key) (drop (lower_bound (map fst es) key) es)) \<longleftrightarrow> (key, val) \<in> set es"
proof
  let ?i = "lower_bound (map fst es) key"
  show "(key, val) \<in> set es" if d: "val \<in> snd ` set (takeWhile (\<lambda>e. fst e = key) (drop ?i es))"
  proof -
    obtain e where "e \<in> set (takeWhile (\<lambda>e. fst e = key) (drop ?i es))" "val = snd e" using d by blast
    then have "e \<in> set (drop ?i es)" "fst e = key" by (auto dest: set_takeWhileD)
    then have "e \<in> set es" "e = (key, val)" using \<open>val = snd e\<close> by (auto dest: in_set_dropD)
    then show ?thesis by simp
  qed
  show "val \<in> snd ` set (takeWhile (\<lambda>e. fst e = key) (drop ?i es))" if m: "(key, val) \<in> set es"
  proof -
    note lb = lower_bound_sorted [OF assms, where key = key]
    obtain j where j: "j < length es" "es ! j = (key, val)" using m by (auto simp: in_set_conv_nth)
    then have i: "?i \<le> j" using lb(2) [of j] by (cases "j < ?i") auto
    have eq: "fst (es ! l) = key" if l: "?i \<le> l" "l \<le> j" for l
      using lb(3) [of l] sorted_nth_mono [OF assms, of l j] l j by auto
    let ?d = "drop ?i es"
    have "j - ?i < length (takeWhile (\<lambda>e. fst e = key) ?d)"
    proof (rule ccontr)
      assume n: "\<not> j - ?i < length (takeWhile (\<lambda>e. fst e = key) ?d)"
      define w where "w = length (takeWhile (\<lambda>e. fst e = key) ?d)"
      have w: "w < length ?d" "w \<le> j - ?i" using n i j(1) by (simp_all add: w_def)
      then have "fst (?d ! w) \<noteq> key" using nth_length_takeWhile [of "\<lambda>e. fst e = key" ?d] by (simp add: w_def)
      then show False using eq [of "?i + w"] w i by simp
    qed
    then have "takeWhile (\<lambda>e. fst e = key) ?d ! (j - ?i) = (key, val)" "takeWhile (\<lambda>e. fst e = key) ?d ! (j - ?i) \<in> set (takeWhile (\<lambda>e. fst e = key) ?d)"
      using i j by (simp add: takeWhile_nth, intro nth_mem)
    then have "(key, val) \<in> set (takeWhile (\<lambda>e. fst e = key) ?d)" by (simp only:)
    then show ?thesis by force
  qed
qed

definition leaf_ins :: "bytes \<Rightarrow> location \<Rightarrow> (bytes \<times> location) list \<Rightarrow> (bytes \<times> location) list" where
  "leaf_ins key val es = (let i = lower_bound (map fst es) key in take i es @ (key, val) # drop i es)"

lemma insert_into_leaf_eq:
  assumes "clean node = leaf_node a es nx pv" "sorted (map fst es)" "length es \<le> 100000"
  shows "if (key, val) \<in> set es then insert_into_leaf node key val = Inr None
    else \<exists>node1. insert_into_leaf node key val = Inr (Some node1) \<and> clean node1 = leaf_node a (leaf_ins key val es) nx pv \<and> node_dirty node1"
proof -
  note nf = clean_fields [OF assms(1), simplified]
  have z: "zip (map fst es) (map snd es) = es" by (simp add: zip_map_fst_snd)
  let ?i = "lower_bound (map fst es) key"
  let ?n = "node\<lparr>node_keys := take ?i (map fst es) @ key # drop ?i (map fst es),
    node_values := take ?i (map snd es) @ val # drop ?i (map snd es), node_dirty := True\<rparr>"
  have "clean ?n = leaf_node a (leaf_ins key val es) nx pv"
    using nf by (cases node) (simp add: leaf_node_def leaf_ins_def Let_def take_map drop_map)
  moreover have "insert_into_leaf node key val = (if (key, val) \<in> set es then Inr None else Inr (Some ?n))"
    using nf assms(3) leaf_dup_iff [OF assms(2), of val key] by (simp add: insert_into_leaf_def Let_def z)
  ultimately show ?thesis by simp
qed

section \<open>Changing links\<close>

definition relinked :: "btree_node \<Rightarrow> btree_node \<Rightarrow> bool" where
  "relinked n n' \<longleftrightarrow> n' = n \<or> is_leaf n \<and> (\<exists>x y. n' = n\<lparr>node_next := x, node_prev := y\<rparr>)"

lemma relinked_refl [simp]: "relinked n n"
  by (simp add: relinked_def)

lemma relinked_prev: "is_leaf n \<Longrightarrow> relinked n (n\<lparr>node_prev := y\<rparr>)"
proof -
  assume "is_leaf n"
  moreover have "n\<lparr>node_prev := y\<rparr> = n\<lparr>node_next := node_next n, node_prev := y\<rparr>" by simp
  ultimately show ?thesis unfolding relinked_def by blast
qed

lemma relinked_leaf: "relinked (leaf_node a es nx pv) n \<Longrightarrow> \<exists>x y. n = leaf_node a es x y"
  by (auto simp: relinked_def leaf_node_def)

lemma relinked_int: "relinked (int_node a ks cs) n \<Longrightarrow> n = int_node a ks cs"
  by (auto simp: relinked_def)

lemma tree_at_relinked:
  "tree_at V t \<Longrightarrow> (\<And>a n. a \<in> set (offs t) \<Longrightarrow> V a = Some n \<Longrightarrow> \<exists>n'. V' a = Some n' \<and> relinked n n') \<Longrightarrow> tree_at V' t"
proof (induction t)
  case (Lf a es)
  then obtain nx pv where "V a = Some (leaf_node a es nx pv)" by auto
  then show ?case using Lf(2) [of a] relinked_leaf by fastforce
next
  case (Nd a ks ts)
  have "tree_at V' x" if x: "x \<in> set ts" for x
    by (rule Nd.IH [OF x]) (use Nd.prems x in auto)
  moreover have "V a = Some (int_node a ks (map toff ts))" using Nd.prems(1) by simp
  then have "V' a = Some (int_node a ks (map toff ts))" using Nd.prems(2) [of a] relinked_int by fastforce
  ultimately show ?case by simp
qed

lemma frames_at_relinked:
  "frames_at V fs x \<Longrightarrow> (\<And>a n. a \<in> set (offs_pre fs) \<union> set (offs_post fs) \<Longrightarrow> V a = Some n \<Longrightarrow> \<exists>n'. V' a = Some n' \<and> relinked n n') \<Longrightarrow>
   frames_at V' fs x"
proof (induction fs arbitrary: x)
  case (Cons f fs)
  obtain a ls rs where f: "f = (a, ls, rs)" by (cases f) auto
  have "tree_at V' (fst p)" if p: "p \<in> set ls" for p
    by (rule tree_at_relinked [where V = V]) (use Cons.prems p in \<open>auto simp: f pre1_def\<close>)
  moreover have "tree_at V' (snd p)" if p: "p \<in> set rs" for p
    by (rule tree_at_relinked [where V = V]) (use Cons.prems p in \<open>auto simp: f post1_def\<close>)
  moreover have "frames_at V' fs a" by (rule Cons.IH) (use Cons.prems in \<open>auto simp: f\<close>)
  moreover have "V' a = V a" using Cons.prems(1) Cons.prems(2) [of a] relinked_int by (fastforce simp: f)
  ultimately show ?case using Cons.prems(1) by (simp add: f)
qed simp

lemma leaf_in_store:
  "tree_at V t \<Longrightarrow> good e ps h t \<Longrightarrow> b \<in> set (leaves t) \<Longrightarrow> \<exists>es nx pv. V b = Some (leaf_node b es nx pv) \<and> 28 + entries_size (map fst es) \<le> ps"
proof (induction t arbitrary: e h)
  case (Lf a es)
  then show ?case by (cases h) auto
next
  case (Nd a ks ts)
  then obtain t where t: "t \<in> set ts" "b \<in> set (leaves t)" by auto
  obtain h' where "h = Suc h'" using Nd.prems(2) by (cases h) auto
  then show ?case using Nd.IH [OF t(1) _ _ t(2), of False h'] Nd.prems t(1) by auto
qed

lemma chain_links:
  assumes "chain V p (xs @ a # ys) q" "V a = Some n"
  shows "node_prev n = last (p # xs)" "node_next n = (case ys of [] \<Rightarrow> q | y # _ \<Rightarrow> y)"
  using assms by (auto simp: chain_append)

lemma chain_insert:
  assumes "chain V p (xs @ a # ys) q" "distinct (xs @ a # ys)" "V a = Some n" "V' a = Some (n'\<lparr>node_next := r\<rparr>)" "node_prev n' = node_prev n"
    "V' r = Some m" "node_prev m = a" "node_next m = node_next n"
    "\<And>b. b \<in> set xs \<union> set (tl ys) \<Longrightarrow> V' b = V b" "\<And>y l. ys = y # l \<Longrightarrow> \<exists>k. V y = Some k \<and> V' y = Some (k\<lparr>node_prev := r\<rparr>)"
  shows "chain V' p (xs @ a # r # ys) q"
proof -
  have c: "chain V p xs a" "chain V (last (p # xs)) (a # ys) q" using assms(1) by (simp_all only: chain_append)
  have 1: "chain V' p xs a" by (rule chain_mono [OF c(1)]) (use assms(9) in auto)
  have ys: "chain V a ys q" using c(2) by simp
  have "chain V' r ys q"
  proof (cases ys)
    case (Cons y l)
    obtain k where k: "V y = Some k" "V' y = Some (k\<lparr>node_prev := r\<rparr>)" using assms(10) [OF Cons] by blast
    have "chain V' y l q" by (rule chain_mono [where V = V]) (use ys assms(9) Cons in auto)
    then show ?thesis using ys k by (simp add: Cons)
  qed simp
  moreover have "node_next n = (case ys of [] \<Rightarrow> q | y # _ \<Rightarrow> y)" "node_prev n = last (p # xs)"
    using chain_links [OF assms(1,3)] by simp_all
  ultimately show ?thesis using 1 assms(4-8) unfolding chain_append by simp
qed

section \<open>Allocation\<close>

lemma alloc_ok:
  assumes "alloc_node t = (r, t')" "file_ok (pt_file t)" "tree_lim t + unat (pt_page_size t) < 2 ^ 63"
  shows "unat r = tree_lim t" "page_off (unat (pt_page_size t)) r" "tree_lim t' = tree_lim t + unat (pt_page_size t)"
proof -
  let ?ps = "unat (pt_page_size t)" and ?c = "ih_node_count (if_header (pt_file t))"
  have ps: "4096 \<le> ?ps" using page_size_cases [OF assms(2)] by auto
  have lim: "tree_lim t = ?ps + ?ps * unat ?c" by (simp add: tree_lim_def)
  have m: "unat ?c * ?ps < 2 ^ 63" using assms(3) lim by (simp add: mult.commute)
  then have m2: "unat (?c * ucast (pt_page_size t)) = unat ?c * ?ps" by (simp add: unat_word_ariths)
  have "unat (ucast (pt_page_size t) + ?c * ucast (pt_page_size t) :: u64) = ?ps + unat ?c * ?ps"
    using m2 lim assms(3) by (subst unat_add_small) (simp_all add: mult.commute)
  then show u: "unat r = tree_lim t" using alloc_node_ok(1) [OF assms(1)] lim by (simp add: mult.commute)
  show "page_off ?ps r" unfolding page_off_def u using assms(3) lim by simp
  have "unat ?c \<le> unat ?c * ?ps" using ps by simp
  then have "unat ?c < 2 ^ 63" using m by (rule le_less_trans)
  then have "unat (?c + 1) = Suc (unat ?c)" by (subst unat_add_small) simp_all
  then show "tree_lim t' = tree_lim t + ?ps" using alloc_node_ok(4,6) [OF assms(1)] by (simp add: tree_lim_def)
qed

section \<open>Splitting a leaf\<close>

text \<open>
  The link from the next leaf back: it is set to the new leaf, and nothing else changes.
\<close>

lemma relink_next_ok:
  assumes "store_ok {a} H t" "nx = 0 \<or> (\<exists>n. view t nx = Some n \<and> node_ok (pt_page_size t) n \<and> is_leaf n \<and> nx \<noteq> a)"
    "card (insert nx H) \<le> pt_capacity t"
  shows "\<exists>t' H'. relink_next nx r t = (None, t') \<and> store_ok {a} H' t' \<and> H \<subseteq> H' \<and> H' \<subseteq> insert nx H \<and> same_tree t t' \<and>
    (\<forall>b n. b \<noteq> nx \<longrightarrow> view t b = Some n \<longrightarrow> view t' b = Some n) \<and>
    (\<forall>n. nx \<noteq> 0 \<longrightarrow> view t nx = Some n \<longrightarrow> view t' nx = Some (n\<lparr>node_prev := r\<rparr>))"
proof (cases "nx = 0")
  case True
  then show ?thesis using assms(1) by (intro exI [of _ t] exI [of _ H]) (auto simp: relink_next_def)
next
  case False
  then obtain n where n: "view t nx = Some n" "node_ok (pt_page_size t) n" "is_leaf n" "nx \<noteq> a" using assms(2) by blast
  from load_ok [OF assms(1) n(1,2) assms(3)] obtain n' t1 where l: "load_node nx t = (Inr n', t1)" "clean n' = n" "node_offset n' = nx"
    "store_ok {a} (insert nx H) t1" "same_tree t t1" "view t \<subseteq>\<^sub>m view t1" by blast
  define m where "m = n'\<lparr>node_prev := r, node_dirty := True\<rparr>"
  have off: "node_offset m = nx" and cl: "clean m = n\<lparr>node_prev := r\<rparr>" using l(2,3) unfolding m_def by (cases n'; auto)+
  have s: "store_ok {nx, a} (insert nx H) (set_node m t1)" "same_tree t1 (set_node m t1)"
    "view (set_node m t1) = (view t1)(nx \<mapsto> n\<lparr>node_prev := r\<rparr>)"
    using set_node_ok [OF l(4), of m] off cl by auto
  have "node_ok (pt_page_size t) (n\<lparr>node_prev := r\<rparr>)"
    using n(2,3) by (cases n) (simp add: node_ok_def node_wf_def is_leaf_def leaf_size_def)
  then have nok: "node_ok (pt_page_size (set_node m t1)) (n\<lparr>node_prev := r\<rparr>)"
    using same_treeD(1) [OF l(5)] same_treeD(1) [OF s(2)] by simp
  have "view (set_node m t1) nx = Some (n\<lparr>node_prev := r\<rparr>)" using s(3) by simp
  note d = mark_dirty_ok [OF s(1) _ this nok]
  have "{nx, a} - {nx} = {a}" using n(4) by auto
  then have "store_ok {a} (insert nx H) (mark_dirty nx (set_node m t1))" using d(1) by simp
  moreover have "same_tree t (mark_dirty nx (set_node m t1))"
    using l(5) s(2) d(2) by (meson same_tree_trans insertI1)
  moreover have "view (mark_dirty nx (set_node m t1)) = (view t1)(nx \<mapsto> n\<lparr>node_prev := r\<rparr>)" using d(3) s(3) by simp
  moreover have "relink_next nx r t = (None, mark_dirty nx (set_node m t1))" using False l(1,3) by (simp add: relink_next_def m_def)
  ultimately show ?thesis using n(1) map_leD [OF l(6)]
    by (intro exI [of _ "mark_dirty nx (set_node m t1)"] exI [of _ "insert nx H"]) auto
qed

lemma leaves_context: "set (leaves_pre fs) \<subseteq> set (offs_pre fs)" "set (leaves_post fs) \<subseteq> set (offs_post fs)"
proof -
  have "set (leaves_pre fs) \<subseteq> set (offs_pre fs) \<and> set (leaves_post fs) \<subseteq> set (offs_post fs)"
  proof (induction fs)
    case (Cons f fs)
    obtain a ls rs where "f = (a, ls, rs)" by (cases f) auto
    then show ?case using Cons leaves_in_offs by (fastforce simp: pre1_def post1_def)
  qed simp
  then show "set (leaves_pre fs) \<subseteq> set (offs_pre fs)" "set (leaves_post fs) \<subseteq> set (offs_post fs)" by blast+
qed

lemma distinct_concat_sub:
  "(\<And>x. x \<in> set ts \<Longrightarrow> set (f x) \<subseteq> set (g x) \<and> distinct (f x)) \<Longrightarrow> distinct (concat (map g ts)) \<Longrightarrow> distinct (concat (map f ts))"
  by (induction ts) (auto, blast)

lemma distinct_leaves: "distinct (offs t) \<Longrightarrow> distinct (leaves t)"
proof (induction t)
  case (Nd a ks ts)
  have "distinct (leaves x)" if x: "x \<in> set ts" for x
  proof -
    obtain us vs where "ts = us @ x # vs" using x by (auto simp: in_set_conv_decomp)
    then show ?thesis using Nd.IH [OF x] Nd.prems by simp
  qed
  then have "distinct (concat (map leaves ts))" using distinct_concat_sub [of ts leaves offs] leaves_in_offs Nd.prems by simp
  then show ?case by simp
qed simp

lemma in_set_tlD: "x \<in> set (tl xs) \<Longrightarrow> x \<in> set xs"
  by (cases xs) auto

lemma offs_ok_new:
  assumes "offs_ok ps lim (xs @ ys)" "page_off ps r" "unat r = lim" "lim < lim'"
  shows "offs_ok ps lim' (xs @ r # ys)"
proof -
  have "r \<notin> set (xs @ ys)" using assms(1,3) unfolding offs_ok_def by blast
  moreover have "unat x < lim'" if "x \<in> set (xs @ ys)" for x
    using assms(1,4) that unfolding offs_ok_def by (meson less_trans)
  ultimately show ?thesis using assms unfolding offs_ok_def by auto
qed

lemma chain_Some: "chain V p xs q \<Longrightarrow> b \<in> set xs \<Longrightarrow> \<exists>n. V b = Some n"
  by (induction xs arbitrary: p) auto

text \<open>The leaf after the one in the hole.\<close>

lemma next_leaf:
  assumes "hole_ok V ps lim s 0 fs [Lf a es] []" "V a = Some (leaf_node a es nx pv)" "0 < ps"
  obtains "nx = 0" "leaves_post fs = []"
  | l es' x y where "nx \<noteq> 0" "leaves_post fs = nx # l" "V nx = Some (leaf_node nx es' x y)" "28 + entries_size (map fst es') \<le> ps"
      "page_off ps nx" "nx \<noteq> a"
proof -
  have c: "chain V 0 (leaves_pre fs @ a # leaves_post fs) 0" "offs_ok ps lim (offs_pre fs @ a # offs_post fs)"
    using assms(1) by (simp_all add: hole_ok_def hole_leaves_def hole_offs_def)
  have nx: "nx = (case leaves_post fs of [] \<Rightarrow> 0 | y # _ \<Rightarrow> y)" using chain_links(2) [OF c(1) assms(2)] by simp
  show thesis
  proof (cases "leaves_post fs")
    case Nil
    then show thesis using nx that(1) by simp
  next
    case (Cons y l)
    then have y: "nx = y" "y \<in> set (leaves_post fs)" using nx by simp_all
    then have o: "page_off ps nx" "nx \<noteq> a" using c(2) leaves_context(2) [of fs] by (auto simp: offs_ok_def)
    have "unat nx \<noteq> 0" using o(1) assms(3) by (auto simp: page_off_def)
    then have "nx \<noteq> 0" by auto
    moreover have "hole_ok V ps lim s (length fs) [] [plug fs (Lf a es)] []" using assms(1) hole_ok_plug [of V ps lim s 0 fs "Lf a es"] by simp
    then have "tree_at V (plug fs (Lf a es))" "good True ps (length fs) (plug fs (Lf a es))" by (simp_all add: hole_ok_def)
    from leaf_in_store [OF this, of nx] obtain es' x z where
      "V nx = Some (leaf_node nx es' x z)" "28 + entries_size (map fst es') \<le> ps" using y by (auto simp: leaves_plug)
    ultimately show thesis using that(2) [of l es' x z] Cons y(1) o by blast
  qed
qed

text \<open>What a split leaf looks like in the store.\<close>

lemma hole_split_leaf:
  assumes ho: "hole_ok V ps lim s 0 fs [Lf a es] []" and va: "V a = Some (leaf_node a es nx pv)"
    and it: "items_ok s (items_pre fs @ ent_items (esl @ esr) @ items_post fs)" and ne: "esl \<noteq> []" "esr \<noteq> []"
    and sz: "28 + entries_size (map fst esl) \<le> ps" "28 + entries_size (map fst esr) \<le> ps"
    and r: "page_off ps r" "unat r = lim" "lim < lim'" "0 < ps"
    and V': "V' a = Some (leaf_node a esl r pv)" "V' r = Some (leaf_node r esr nx a)"
      "\<And>b n. b \<notin> {a, r, nx} \<Longrightarrow> V b = Some n \<Longrightarrow> V' b = Some n"
      "\<And>n. nx \<noteq> 0 \<Longrightarrow> V nx = Some n \<Longrightarrow> V' nx = Some (n\<lparr>node_prev := r\<rparr>)"
  shows "hole_ok V' ps lim' s 0 fs [Lf a esl, Lf r esr] [fst (hd esr)]"
proof -
  let ?o = "offs_pre fs @ a # offs_post fs"
  have h: "frames_at V fs a" "frames_good ps 0 fs" "offs_ok ps lim ?o" "chain V 0 (leaves_pre fs @ a # leaves_post fs) 0"
    using ho by (simp_all add: hole_ok_def hole_leaves_def hole_offs_def)
  have d: "distinct ?o" and lt: "\<And>b. b \<in> set ?o \<Longrightarrow> page_off ps b \<and> unat b < lim" using h(3) by (auto simp: offs_ok_def)
  have rn: "r \<notin> set ?o" using lt r(2) by blast
  have rel: "\<exists>n'. V' b = Some n' \<and> relinked n n'" if b: "b \<in> set (offs_pre fs) \<union> set (offs_post fs)" and n: "V b = Some n" for b n
  proof (cases "b = nx")
    case True
    have "unat b \<noteq> 0" using lt [of b] b r(4) by (auto simp: page_off_def)
    then have z: "nx \<noteq> 0" using True by auto
    show ?thesis
    proof (rule next_leaf [OF ho va r(4)])
      fix l es' x y
      assume "V nx = Some (leaf_node nx es' x y)"
      then have "is_leaf n" using n True by auto
      then show ?thesis using V'(4) [OF z] n True relinked_prev by blast
    qed (use z in simp)
  next
    case False
    moreover have "b \<noteq> a" "b \<noteq> r" using d b rn by auto
    ultimately show ?thesis using V'(3) [of b n] n by simp
  qed
  have "frames_at V' fs a" by (rule frames_at_relinked [OF h(1) rel])
  moreover have "offs_ok ps lim' (offs_pre fs @ a # r # offs_post fs)"
    using offs_ok_new [of ps lim "offs_pre fs @ [a]" "offs_post fs" r lim'] h(3) r by simp
  moreover have "chain V' 0 (leaves_pre fs @ a # r # leaves_post fs) 0"
  proof (rule chain_insert [OF h(4) _ va])
    show di: "distinct (leaves_pre fs @ a # leaves_post fs)"
      using distinct_leaves [of "plug fs (Lf a es)"] d by (simp add: leaves_plug offs_plug)
    show "V' a = Some ((leaf_node a esl r pv)\<lparr>node_next := r\<rparr>)" using V'(1) by (simp add: leaf_node_def)
    show "V' r = Some (leaf_node r esr nx a)" by (rule V'(2))
    show "V' b = V b" if b: "b \<in> set (leaves_pre fs) \<union> set (tl (leaves_post fs))" for b
    proof -
      have "b \<in> set (leaves_pre fs @ a # leaves_post fs)" using b by (auto dest: in_set_tlD)
      then obtain n where n: "V b = Some n" using chain_Some [OF h(4)] by blast
      have ba: "b \<noteq> a" "b \<noteq> r" using d rn leaves_context [of fs] b by (auto dest: in_set_tlD)
      have "b \<noteq> nx"
      proof (rule next_leaf [OF ho va r(4)])
        assume "nx = 0"
        moreover have "page_off ps b" using lt [of b] b leaves_context [of fs] by (auto dest: in_set_tlD)
        ultimately show ?thesis using r(4) by (auto simp: page_off_def)
      next
        fix l es' x y
        assume "leaves_post fs = nx # l"
        then show ?thesis using distinct_leaves [of "plug fs (Lf a es)"] d b by (auto simp: leaves_plug offs_plug)
      qed
      then show ?thesis using V'(3) [of b n] n ba by simp
    qed
    show "\<exists>k. V y = Some k \<and> V' y = Some (k\<lparr>node_prev := r\<rparr>)" if y: "leaves_post fs = y # l" for y l
    proof (rule next_leaf [OF ho va r(4)])
      fix l es' x z
      assume "nx \<noteq> 0" "leaves_post fs = nx # l" "V nx = Some (leaf_node nx es' x z)"
      then show ?thesis using V'(4) y by auto
    qed (use y in simp)
  qed simp_all
  moreover have "items_ok s (hole_items fs [Lf a esl, Lf r esr] [fst (hd esr)])"
  proof -
    obtain l0 k w where l: "esl = l0 @ [(k, w)]" using ne(1) by (metis rev_exhaust surj_pair)
    obtain k' v r0 where r': "esr = (k', v) # r0" using ne(2) by (metis list.exhaust surj_pair)
    have "items_ok s ((items_pre fs @ ent_items l0) @ Ent k w # Ent k' v # (ent_items r0 @ items_post fs))" using it l r' by simp
    from items_ok_separator [OF this] show ?thesis by (simp add: hole_items_def l r')
  qed
  ultimately show ?thesis using h(2) sz ne V'(1,2) by (simp add: hole_ok_def hole_leaves_def hole_offs_def) blast
qed

text \<open>
  What the operation hands from a split to the parent: the two halves in the store, the objects of the
  right half and of the leaf, and the path, all of them still in the cache.
\<close>

definition header_ok :: "u32 \<Rightarrow> persist_tree \<Rightarrow> bool" where
  "header_ok ty t \<longleftrightarrow> ih_magic (if_header (pt_file t)) = index_magic \<and> ih_version (if_header (pt_file t)) = index_version \<and>
     ih_page_size (if_header (pt_file t)) = pt_page_size t \<and> ih_type (if_header (pt_file t)) = ty \<and> ih_root (if_header (pt_file t)) = pt_root t"

definition evolves :: "persist_tree \<Rightarrow> persist_tree \<Rightarrow> bool" where
  "evolves t t' \<longleftrightarrow> pt_page_size t' = pt_page_size t \<and> pt_capacity t' = pt_capacity t \<and> pt_entry_count t' = pt_entry_count t \<and>
     (\<forall>ty. header_ok ty t \<longrightarrow> header_ok ty t')"

lemma evolves_refl [simp]: "evolves t t"
  by (simp add: evolves_def)

lemma evolves_trans: "evolves t t1 \<Longrightarrow> evolves t1 t2 \<Longrightarrow> evolves t t2"
  by (simp add: evolves_def)

lemma same_tree_evolves: "same_tree t t' \<Longrightarrow> evolves t t'"
  by (simp add: evolves_def header_ok_def same_treeD)

lemma alloc_evolves: "alloc_node t = (off, t') \<Longrightarrow> evolves t t'"
  using alloc_node_ok [of t off t'] by (simp add: evolves_def header_ok_def)

definition going_up ::
  "bool \<Rightarrow> nat \<Rightarrow> frame list \<Rightarrow> tree \<Rightarrow> bytes \<Rightarrow> tree \<Rightarrow> btree_node \<Rightarrow> btree_node \<Rightarrow> tree_path \<Rightarrow> u64 set \<Rightarrow> persist_tree \<Rightarrow> bool" where
  "going_up s h fs T1 sep T2 right leaf path H t \<longleftrightarrow>
     hole_ok (view t) (unat (pt_page_size t)) (tree_lim t) s h fs [T1, T2] [sep] \<and>
     view t (toff T2) = Some (clean right) \<and> node_offset right = toff T2 \<and> node_dirty right \<and>
     view t (node_offset leaf) = Some (clean leaf) \<and> node_dirty leaf \<and> is_leaf leaf \<and> node_ok (pt_page_size t) leaf \<and>
     unat (node_offset leaf) < tree_lim t \<and>
     path_ok (view t) fs path \<and> pt_root t = toff (plug fs T1) \<and>
     store_ok {} H t \<and> insert (toff T2) (insert (node_offset leaf) (fst ` set fs)) \<subseteq> H"

lemma path_ok_mono:
  "path_ok V fs path \<Longrightarrow> (\<And>f n. f \<in> set fs \<Longrightarrow> V (fst f) = Some n \<Longrightarrow> V' (fst f) = Some n) \<Longrightarrow> path_ok V' fs path"
  unfolding path_ok_def by (erule list.rel_mono_strong) auto

lemma frames_int: "frames_at V fs x \<Longrightarrow> f \<in> set fs \<Longrightarrow> \<exists>ks cs. V (fst f) = Some (int_node (fst f) ks cs)"
proof (induction fs arbitrary: x)
  case (Cons g fs)
  obtain a ls rs where "g = (a, ls, rs)" by (cases g) auto
  then show ?case using Cons by (auto, blast)
qed simp

lemma frames_offs: "f \<in> set fs \<Longrightarrow> fst f \<in> set (offs_pre fs)"
  by (induction fs) auto

lemma toff_plug: "toff T = toff T' \<Longrightarrow> toff (plug fs T) = toff (plug fs T')"
proof (induction fs arbitrary: T T')
  case (Cons f fs)
  have "toff (plug1 f T) = toff (plug1 f T')" by (simp add: plug1_def split: prod.split)
  from Cons.IH [OF this] show ?case by simp
qed simp

lemma node_ok_page: "node_ok ps n \<Longrightarrow> page_off (unat ps) (node_offset n)"
  by (simp add: node_ok_def)

text \<open>The halves of a leaf that outgrew its page by one entry.\<close>

lemma split_leaf_halves:
  assumes "\<forall>k \<in> set (map fst es). length k \<le> max_key" "ps < 28 + entries_size (map fst es)" "28 + entries_size (map fst es) \<le> ps + 138" "4096 \<le> ps"
  defines "m \<equiv> length es div 2"
  shows "split_point (\<lambda>m. entries_size (drop m (map fst es))) (ps - 28) (length es) m = m" "take m es \<noteq> []" "drop m es \<noteq> []"
    "28 + entries_size (map fst (take m es)) \<le> ps" "28 + entries_size (map fst (drop m es)) \<le> ps"
proof -
  have "ps - 28 < entries_size (map fst es)" "entries_size (map fst es) \<le> ps - 28 + 138" "4060 \<le> ps - 28" using assms(2-4) by simp_all
  note ss = split_sizes [OF assms(1) this, unfolded length_map, folded m_def]
  show "split_point (\<lambda>m. entries_size (drop m (map fst es))) (ps - 28) (length es) m = m" using ss(3) by (simp add: split_point_id)
  show "take m es \<noteq> []" "drop m es \<noteq> []" using ss(1) by (auto simp: m_def)
  show "28 + entries_size (map fst (take m es)) \<le> ps" "28 + entries_size (map fst (drop m es)) \<le> ps"
    using ss(2,3) assms(4) by (simp_all add: take_map drop_map)
qed

text \<open>The steps on the store: the new leaf is put, the next leaf relinked, the old leaf shortened.\<close>

lemma split_leaf_run:
  fixes es :: "(bytes \<times> location) list"
  defines "m \<equiv> length es div 2"
  assumes st: "store_ok {a} H t" "a \<in> H" "page_off (unat (pt_page_size t)) a" "unat a < tree_lim t" "unat nx < tree_lim t"
    and node: "clean node = leaf_node a es nx pv" "node_offset node = a"
    and nx: "nx = 0 \<or> (\<exists>n. view t nx = Some n \<and> node_ok (pt_page_size t) n \<and> is_leaf n \<and> nx \<noteq> a)"
    and kl: "\<forall>k \<in> set (map fst es). length k \<le> max_key"
    and sz: "unat (pt_page_size t) < 28 + entries_size (map fst es)" "28 + entries_size (map fst es) \<le> unat (pt_page_size t) + 138"
    and cap: "card H + 2 \<le> pt_capacity t" and lim: "tree_lim t + unat (pt_page_size t) < 2 ^ 63"
  shows "\<exists>right leaf t' r H'. split_leaf node t = (Inr (fst (hd (drop m es)), right, leaf), t') \<and>
    clean right = leaf_node r (drop m es) nx a \<and> clean leaf = leaf_node a (take m es) r pv \<and> node_dirty right \<and> node_dirty leaf \<and>
    store_ok {} H' t' \<and> insert r H \<subseteq> H' \<and> card H' \<le> card H + 2 \<and> evolves t t' \<and> pt_root t' = pt_root t \<and>
    unat r = tree_lim t \<and> page_off (unat (pt_page_size t)) r \<and> tree_lim t' = tree_lim t + unat (pt_page_size t) \<and>
    view t' a = Some (clean leaf) \<and> view t' r = Some (clean right) \<and>
    (\<forall>b n. b \<notin> {a, r, nx} \<longrightarrow> view t b = Some n \<longrightarrow> view t' b = Some n) \<and>
    (\<forall>n. nx \<noteq> 0 \<longrightarrow> view t nx = Some n \<longrightarrow> view t' nx = Some (n\<lparr>node_prev := r\<rparr>))"
proof -
  let ?ps = "unat (pt_page_size t)" and ?ks = "map fst es" and ?vs = "map snd es"
  have fok: "file_ok (pt_file t)" using st(1) by (simp add: store_ok_def cache_ok_def)
  have ps: "4096 \<le> ?ps" using page_size_cases [OF fok] by auto
  note hv = split_leaf_halves [OF kl sz ps, folded m_def] and nf = clean_fields [OF node(1), simplified]
  obtain r t1 where al: "alloc_node t = (r, t1)" by fastforce
  note al1 = alloc_ok [OF al fok lim] and al2 = alloc_node_ok [OF al]
  have rn: "r \<noteq> a" "r \<noteq> nx" using st(4,5) al1(1) by auto
  define right where "right = \<lparr>node_type = node_type_leaf, node_offset = r, node_keys = drop m ?ks, node_values = drop m ?vs,
    node_children = [], node_next = nx, node_prev = a, node_dirty = True\<rparr>"
  have R: "clean right = leaf_node r (drop m es) nx a" "node_offset right = r" "node_dirty right"
    by (simp_all add: right_def leaf_node_def drop_map)
  have "node_ok (pt_page_size t) (clean right)" unfolding R(1) using al1(2) hv(5) by (rule node_ok_leaf)
  then have rok: "node_ok (pt_page_size t1) right" using al2(4) by simp
  have fin: "finite H" using st(1) by (rule store_ok_finite)
  have c1: "card (insert r H) \<le> card H + 1" using card_insert_Suc [OF fin, of r] by simp
  have st1: "store_ok {a} H t1" "card (insert (node_offset right) H) \<le> pt_capacity t1" using al2(2,5) st(1) c1 cap R(2) by simp_all
  have ar: "{a} - {r} = {a}" using rn(1) by auto
  from put_node_ok [OF st1(1) rok R(3) st1(2), unfolded R(2) al2(3) ar] obtain t2 where
    t2: "put_node right t1 = (None, t2)" "store_ok {a} (insert r H) t2" "same_tree t1 t2" "(view t)(r \<mapsto> clean right) \<subseteq>\<^sub>m view t2"
    by blast
  define node1 where "node1 = node\<lparr>node_keys := take m ?ks, node_values := take m ?vs\<rparr>"
  have n1: "clean node1 = leaf_node a (take m es) nx pv" "node_offset node1 = a" "node_next node1 = nx"
  proof -
    have "clean node1 = (clean node)\<lparr>node_keys := take m ?ks, node_values := take m ?vs\<rparr>" by (simp add: node1_def)
    then show "clean node1 = leaf_node a (take m es) nx pv" unfolding node(1) by (simp add: leaf_node_def take_map)
  qed (simp_all add: node1_def nf)
  define t3 where "t3 = set_node node1 t2"
  have s3: "store_ok {a} (insert r H) t3" "same_tree t1 t3" "view t3 = (view t2)(a \<mapsto> leaf_node a (take m es) nx pv)"
    using set_node_ok [OF t2(2), of node1, folded t3_def] n1 st(2) same_tree_trans [OF t2(3)] by simp_all
  have old: "view t3 b = Some n" if "b \<notin> {a, r}" "view t b = Some n" for b n using map_leD [OF t2(4), of b n] that by (simp add: s3(3))
  have nx3: "nx = 0 \<or> (\<exists>n. view t3 nx = Some n \<and> node_ok (pt_page_size t3) n \<and> is_leaf n \<and> nx \<noteq> a)"
    using nx old [of nx] rn same_treeD(1) [OF s3(2)] al2(4) by auto
  have c2: "card (insert nx (insert r H)) \<le> card H + 2" using card_insert_Suc [of "insert r H" nx] fin c1 by simp
  then have "card (insert nx (insert r H)) \<le> pt_capacity t3" using cap same_treeD(2) [OF s3(2)] al2(5) by simp
  from relink_next_ok [OF s3(1) nx3 this, of r] obtain t5 H5 where
    t5: "relink_next nx r t3 = (None, t5)" "store_ok {a} H5 t5" "insert r H \<subseteq> H5" "H5 \<subseteq> insert nx (insert r H)" "same_tree t3 t5"
    "\<And>b n. b \<noteq> nx \<Longrightarrow> view t3 b = Some n \<Longrightarrow> view t5 b = Some n"
    "\<And>n. nx \<noteq> 0 \<Longrightarrow> view t3 nx = Some n \<Longrightarrow> view t5 nx = Some (n\<lparr>node_prev := r\<rparr>)" by blast
  have c5: "card H5 \<le> card H + 2" using card_mono [OF _ t5(4)] fin c2 by simp
  define leaf where "leaf = node1\<lparr>node_next := r, node_dirty := True\<rparr>"
  have L: "clean leaf = leaf_node a (take m es) r pv" "node_offset leaf = a" "node_dirty leaf"
  proof -
    have "clean leaf = (clean node1)\<lparr>node_next := r\<rparr>" by (simp add: leaf_def)
    then show "clean leaf = leaf_node a (take m es) r pv" unfolding n1(1) by (simp add: leaf_node_def)
  qed (simp_all add: leaf_def n1)
  have aH: "a \<in> H5" using t5(3) st(2) by auto
  have s6: "store_ok {a} H5 (set_node leaf t5)" "same_tree t1 (set_node leaf t5)" "view (set_node leaf t5) = (view t5)(a \<mapsto> clean leaf)"
    using set_node_ok [OF t5(2), of leaf] L aH same_tree_trans [OF s3(2) same_tree_trans [OF t5(5)]] by simp_all
  note sd = same_treeD [OF s6(2)]
  have "node_ok (pt_page_size t) (clean leaf)" unfolding L(1) using st(3) hv(4) by (rule node_ok_leaf)
  then have lok: "node_ok (pt_page_size (set_node leaf t5)) leaf" using sd(1) al2(4) by simp
  have ah: "insert a H5 = H5" "{a} - {a} = {}" using aH by auto
  have "card (insert (node_offset leaf) H5) \<le> pt_capacity (set_node leaf t5)" using ah L(2) c5 cap sd(2) al2(5) by simp
  from put_node_ok [OF s6(1) lok L(3) this, unfolded L(2) s6(3) ah fun_upd_upd] obtain t6 where
    t6: "put_node leaf (set_node leaf t5) = (None, t6)" "store_ok {} H5 t6" "same_tree (set_node leaf t5) t6" "(view t5)(a \<mapsto> clean leaf) \<subseteq>\<^sub>m view t6"
    by blast
  have st6: "same_tree t1 t6" by (rule same_tree_trans [OF s6(2) t6(3)])
  have nk: "node_keys node = ?ks" "node_values node = ?vs" "node_next node = nx" "length ?ks div 2 = m" using nf by (simp_all add: m_def)
  have fits: "\<not> (entries_size (take m ?ks) > ?ps - 28 \<or> entries_size (drop m ?ks) > ?ps - 28)" using hv(4,5) unfolding take_map drop_map by linarith
  have rk: "node_keys right = fst (hd (drop m es)) # tl (drop m ?ks)" using hv(3) by (cases "drop m es") (simp_all add: right_def drop_map)
  have "split_leaf node t = (Inr (fst (hd (drop m es)), right, leaf), t6)"
    unfolding split_leaf_def Let_def nk hv(1) [folded length_map [of fst es]] if_not_P [OF fits] al prod.case node(2)
      right_def [symmetric] t2(1) option.case node1_def [symmetric] n1(3) t3_def [symmetric] t5(1) leaf_def [symmetric] t6(1) rk list.case ..
  moreover have "evolves t t6" using alloc_evolves [OF al] same_tree_evolves [OF st6] by (rule evolves_trans)
  moreover have "pt_root t6 = pt_root t" using same_treeD(4) [OF st6] al2(7) by simp
  moreover have "tree_lim t6 = tree_lim t + ?ps" using same_tree_lim [OF st6] al1(3) by simp
  moreover have "view t6 a = Some (clean leaf)" using map_leD [OF t6(4), of a] by simp
  moreover have "view t6 r = Some (clean right)"
    using map_leD [OF t6(4), of r] t5(6) [of r] s3(3) map_leD [OF t2(4), of r] rn by simp
  moreover have "view t6 b = Some n" if "b \<notin> {a, r, nx}" "view t b = Some n" for b n
    using map_leD [OF t6(4), of b n] t5(6) [of b n] old [of b n] that by simp
  moreover have "view t6 nx = Some (n\<lparr>node_prev := r\<rparr>)" if "nx \<noteq> 0" "view t nx = Some n" for n
    using map_leD [OF t6(4), of nx] t5(7) [of n] old [of nx n] that nx rn by auto
  ultimately show ?thesis using R L t6(2) t5(3) c5 al1(1,2) by blast
qed

lemma split_leaf_ok:
  assumes ho: "hole_ok V (unat (pt_page_size t)) (tree_lim t) s 0 fs [Lf a es] []" and va: "V a = Some (leaf_node a es nx pv)"
    and vt: "view t = V(a \<mapsto> leaf_node a es' nx pv)" and st: "store_ok {a} H t" "insert a (fst ` set fs) \<subseteq> H"
    and node: "clean node = leaf_node a es' nx pv" "node_offset node = a"
    and it: "items_ok s (items_pre fs @ ent_items es' @ items_post fs)"
    and sz: "unat (pt_page_size t) < 28 + entries_size (map fst es')" "28 + entries_size (map fst es') \<le> unat (pt_page_size t) + 138"
    and cap: "card H + 2 \<le> pt_capacity t" and lim: "tree_lim t + unat (pt_page_size t) < 2 ^ 63"
    and pa: "path_ok V fs path" and root: "pt_root t = toff (plug fs (Lf a es))"
  shows "\<exists>sep right leaf t' r esl esr H'. split_leaf node t = (Inr (sep, right, leaf), t') \<and> esl @ esr = es' \<and>
    going_up s 0 fs (Lf a esl) sep (Lf r esr) right leaf path H' t' \<and> card H' \<le> card H + 2 \<and> evolves t t' \<and>
    tree_lim t' = tree_lim t + unat (pt_page_size t)"
proof -
  let ?ps = "unat (pt_page_size t)"
  have ps: "4096 \<le> ?ps" "0 < ?ps" using st(1) page_size_cases [of "pt_file t"] by (auto simp: store_ok_def cache_ok_def)
  have kl: "\<forall>k \<in> set (map fst es'). length k \<le> max_key" using it by (force simp: items_ok_def)
  have fr: "frames_at V fs a" "offs_ok ?ps (tree_lim t) (offs_pre fs @ a # offs_post fs)" using ho by (simp_all add: hole_ok_def hole_offs_def)
  then have oa: "page_off ?ps a" "unat a < tree_lim t" by (simp_all add: offs_ok_def)
  have nx: "nx = 0 \<or> (\<exists>n. view t nx = Some n \<and> node_ok (pt_page_size t) n \<and> is_leaf n \<and> nx \<noteq> a)" and nxl: "unat nx < tree_lim t"
  proof -
    have "(nx = 0 \<or> (\<exists>n. view t nx = Some n \<and> node_ok (pt_page_size t) n \<and> is_leaf n \<and> nx \<noteq> a)) \<and> unat nx < tree_lim t"
    proof (rule next_leaf [OF ho va ps(2)])
      fix l es2 x y
      assume n: "leaves_post fs = nx # l" "V nx = Some (leaf_node nx es2 x y)" "28 + entries_size (map fst es2) \<le> ?ps" "page_off ?ps nx" "nx \<noteq> a"
      have "nx \<in> set (offs_post fs)" using n(1) leaves_context(2) [of fs] by auto
      then have "unat nx < tree_lim t" using fr(2) by (auto simp: offs_ok_def)
      then show ?thesis using node_ok_leaf [OF n(4,3), of x y] n(2,5) vt by auto
    qed (use oa in auto)
    then show "nx = 0 \<or> (\<exists>n. view t nx = Some n \<and> node_ok (pt_page_size t) n \<and> is_leaf n \<and> nx \<noteq> a)" "unat nx < tree_lim t" by blast+
  qed
  define m where "m = length es' div 2"
  note hv = split_leaf_halves [OF kl sz ps(1), folded m_def]
  have aH: "a \<in> H" using st(2) by simp
  from split_leaf_run [OF st(1) aH oa nxl node nx kl sz cap lim, folded m_def] obtain right leaf t' r H' where
    sp: "split_leaf node t = (Inr (fst (hd (drop m es')), right, leaf), t')"
    and R: "clean right = leaf_node r (drop m es') nx a" "node_dirty right" and L: "clean leaf = leaf_node a (take m es') r pv" "node_dirty leaf"
    and H': "store_ok {} H' t'" "insert r H \<subseteq> H'" "card H' \<le> card H + 2" and ev: "evolves t t'" "pt_root t' = pt_root t"
    and r: "unat r = tree_lim t" "page_off ?ps r" and lim': "tree_lim t' = tree_lim t + ?ps"
    and v: "view t' a = Some (clean leaf)" "view t' r = Some (clean right)"
      "\<And>b n. b \<notin> {a, r, nx} \<Longrightarrow> view t b = Some n \<Longrightarrow> view t' b = Some n"
      "\<And>n. nx \<noteq> 0 \<Longrightarrow> view t nx = Some n \<Longrightarrow> view t' nx = Some (n\<lparr>node_prev := r\<rparr>)" by blast
  have pse: "pt_page_size t' = pt_page_size t" using ev(1) by (simp add: evolves_def)
  have "hole_ok (view t') ?ps (tree_lim t') s 0 fs [Lf a (take m es'), Lf r (drop m es')] [fst (hd (drop m es'))]"
  proof (rule hole_split_leaf [OF ho va _ hv(2-5) r(2,1) _ ps(2)])
    show "items_ok s (items_pre fs @ ent_items (take m es' @ drop m es') @ items_post fs)" using it by simp
    show "tree_lim t < tree_lim t'" using lim' ps(2) by simp
    show "view t' a = Some (leaf_node a (take m es') r pv)" "view t' r = Some (leaf_node r (drop m es') nx a)" using v(1,2) R(1) L(1) by simp_all
    show "view t' b = Some n" if "b \<notin> {a, r, nx}" "V b = Some n" for b n using v(3) [of b n] that vt by simp
    show "view t' nx = Some (n\<lparr>node_prev := r\<rparr>)" if "nx \<noteq> 0" "V nx = Some n" for n using v(4) [of n] that vt nx by auto
  qed
  moreover have "path_ok (view t') fs path"
  proof (rule path_ok_mono [OF pa])
    fix f n
    assume f: "f \<in> set fs" "V (fst f) = Some n"
    then have fo: "fst f \<noteq> a" "unat (fst f) < tree_lim t" "page_off ?ps (fst f)" using frames_offs [OF f(1)] fr(2) by (auto simp: offs_ok_def)
    then have "unat (fst f) \<noteq> 0" using ps(2) by (auto simp: page_off_def)
    then have fz: "fst f \<noteq> 0" by auto
    have "\<not> is_leaf n" using frames_int [OF fr(1) f(1)] f(2) by auto
    then have "fst f \<noteq> nx" using nx f(2) fz vt by auto
    moreover have "fst f \<noteq> r" using fo(2) r(1) by (metis less_irrefl)
    ultimately show "view t' (fst f) = Some n" using v(3) [of "fst f" n] f(2) fo(1) vt by simp
  qed
  moreover have "node_offset leaf = a" "is_leaf leaf" "node_ok (pt_page_size t') leaf" "node_offset right = r"
    using clean_fields(5,8) [OF L(1)] clean_fields(5) [OF R(1)] node_ok_leaf [OF oa(1) hv(4), of r pv, folded L(1)] pse by simp_all
  moreover have "pt_root t' = toff (plug fs (Lf a (take m es')))" using ev(2) root toff_plug [of "Lf a es" "Lf a (take m es')" fs] by simp
  ultimately have "going_up s 0 fs (Lf a (take m es')) (fst (hd (drop m es'))) (Lf r (drop m es')) right leaf path H' t'"
    using v(1,2) R(2) L(2) H'(1,2) st(2) pse oa(2) lim' by (auto simp: going_up_def)
  then show ?thesis using sp H'(3) ev(1) lim' append_take_drop_id [of m es'] by blast
qed

end
