(* ===== verification/Tree_Up.thy ===== *)
theory Tree_Up
  imports Tree_Insert
begin

text \<open>
  The way up: separators into the parents, splits of internal nodes, a new root; and the insertion as a whole.
\<close>

section \<open>A node that may be too wide\<close>

definition wide :: "(u64 \<Rightarrow> btree_node option) \<Rightarrow> nat \<Rightarrow> nat \<Rightarrow> bool \<Rightarrow> nat \<Rightarrow> frame list \<Rightarrow> u64 \<Rightarrow> bytes list \<Rightarrow> tree list \<Rightarrow> bool" where
  "wide V ps lim s h fs a ks ts \<longleftrightarrow> length ts = Suc (length ks) \<and> ks \<noteq> [] \<and> (\<forall>x \<in> set ts. tree_at V x \<and> good False ps h x) \<and>
     frames_at V fs a \<and> frames_good ps (Suc h) fs \<and> offs_ok ps lim (offs_pre fs @ a # concat (map offs ts) @ offs_post fs) \<and>
     chain V 0 (leaves_pre fs @ concat (map leaves ts) @ leaves_post fs) 0 \<and>
     items_ok s (items_pre fs @ interleave (map items ts) (map Sep ks) @ items_post fs)"

lemma wide_of_hole:
  assumes "hole_ok V ps lim s h ((a, ls, rs) # fs) [T1, T2] [sep]"
  shows "wide V ps lim s h fs a (map snd ls @ sep # map fst rs) (map fst ls @ T1 # T2 # map snd rs)"
proof -
  have "interleave (map (items \<circ> fst) ls @ items T1 # map (items \<circ> snd) ((sep, T2) # rs)) (map (Sep \<circ> snd) ls @ map (Sep \<circ> fst) ((sep, T2) # rs)) =
    pre1 items (\<lambda>k. [Sep k]) ls @ items T1 @ Sep sep # items T2 @ post1 items (\<lambda>k. [Sep k]) rs"
    unfolding interleave_frame by (simp add: pre1_def post1_def)
  then show ?thesis using assms
    by (auto simp: hole_ok_def wide_def hole_offs_def hole_leaves_def hole_items_def pre1_def post1_def o_def)
qed

text \<open>The node itself is not looked at.\<close>

lemma wide_mono:
  assumes w: "wide V ps lim s h fs a ks ts" and V': "\<And>b n. b \<noteq> a \<Longrightarrow> unat b < lim \<Longrightarrow> V b = Some n \<Longrightarrow> V' b = Some n"
  shows "wide V' ps lim s h fs a ks ts"
proof -
  have o: "offs_ok ps lim (offs_pre fs @ a # concat (map offs ts) @ offs_post fs)" using w by (simp add: wide_def)
  have same: "V' b = V b" if "b \<in> set (offs_pre fs) \<union> set (concat (map offs ts)) \<union> set (offs_post fs)" "V b \<noteq> None" for b
  proof -
    have "b \<noteq> a" "unat b < lim" using o that(1) unfolding offs_ok_def by auto
    then show ?thesis using V' [of b] that(2) by auto
  qed
  have "tree_at V' x" if "x \<in> set ts" for x
    by (rule tree_at_mono [where V = V]) (use w that same in \<open>auto simp: wide_def\<close>)
  moreover have "frames_at V' fs a" by (rule frames_at_mono [where V = V]) (use w same in \<open>auto simp: wide_def\<close>)
  moreover have "chain V' 0 (leaves_pre fs @ concat (map leaves ts) @ leaves_post fs) 0"
  proof (rule chain_mono [where V = V])
    fix b
    assume b: "b \<in> set (leaves_pre fs @ concat (map leaves ts) @ leaves_post fs)" "V b \<noteq> None"
    then have "b \<in> set (offs_pre fs) \<union> set (concat (map offs ts)) \<union> set (offs_post fs)" using leaves_context [of fs] leaves_in_offs by fastforce
    then show "V' b = V b" using same b(2) by blast
  qed (use w in \<open>simp add: wide_def\<close>)
  ultimately show ?thesis using w by (simp add: wide_def)
qed

lemma wide_node:
  assumes "wide V ps lim s h fs a ks ts" "V a = Some (int_node a ks (map toff ts))" "20 + entries_size ks \<le> ps"
  shows "hole_ok V ps lim s (Suc h) fs [Nd a ks ts] []"
  using assms by (simp add: wide_def hole_ok_def hole_offs_def hole_leaves_def hole_items_def)

lemma interleave_split:
  "length xs = Suc (length ks) \<Longrightarrow> m < length ks \<Longrightarrow>
   interleave (take (Suc m) xs) (take m ks) @ ks ! m # interleave (drop (Suc m) xs) (drop (Suc m) ks) = interleave xs ks"
proof (induction xs ks arbitrary: m rule: interleave.induct)
  case (3 x xs k ks)
  then show ?case by (cases m; cases xs) auto
qed auto

lemma wide_split:
  assumes w: "wide V ps lim s h fs a ks ts" and m: "0 < m" "Suc m < length ks" and r: "page_off ps r" "unat r = lim" "lim < lim'"
    and V: "V a = Some (int_node a (take m ks) (map toff (take (Suc m) ts)))" "V r = Some (int_node r (drop (Suc m) ks) (map toff (drop (Suc m) ts)))"
    and sz: "20 + entries_size (take m ks) \<le> ps" "20 + entries_size (drop (Suc m) ks) \<le> ps"
  shows "hole_ok V ps lim' s (Suc h) fs [Nd a (take m ks) (take (Suc m) ts), Nd r (drop (Suc m) ks) (drop (Suc m) ts)] [ks ! m]"
proof -
  have w': "length ts = Suc (length ks)" "\<And>x. x \<in> set ts \<Longrightarrow> tree_at V x \<and> good False ps h x"
    "frames_at V fs a" "frames_good ps (Suc h) fs" "offs_ok ps lim (offs_pre fs @ a # concat (map offs ts) @ offs_post fs)"
    "chain V 0 (leaves_pre fs @ concat (map leaves ts) @ leaves_post fs) 0"
    "items_ok s (items_pre fs @ interleave (map items ts) (map Sep ks) @ items_post fs)"
    using w by (simp_all add: wide_def)
  have c: "concat (map g (take (Suc m) ts)) @ concat (map g (drop (Suc m) ts)) = concat (map g ts)" for g :: "tree \<Rightarrow> u64 list"
    by (metis append_take_drop_id concat_append map_append)
  have "offs_ok ps lim' ((offs_pre fs @ a # concat (map offs (take (Suc m) ts))) @ r # (concat (map offs (drop (Suc m) ts)) @ offs_post fs))"
    by (rule offs_ok_new [OF _ r]) (use w'(5) c [of offs, symmetric] in simp)
  moreover have "chain V 0 (leaves_pre fs @ concat (map leaves (take (Suc m) ts)) @ concat (map leaves (drop (Suc m) ts)) @ leaves_post fs) 0"
    using w'(6) c [of leaves, symmetric] by simp
  moreover have "items_ok s (items_pre fs @ (interleave (take (Suc m) (map items ts)) (take m (map Sep ks)) @
      map Sep ks ! m # interleave (drop (Suc m) (map items ts)) (drop (Suc m) (map Sep ks))) @ items_post fs)"
    using w'(1,7) m(2) by (subst interleave_split) simp_all
  ultimately show ?thesis using w'(1-4) V sz m
    by (auto simp: hole_ok_def hole_offs_def hole_leaves_def hole_items_def take_map drop_map dest: in_set_takeD in_set_dropD)
qed

section \<open>The operations on internal nodes\<close>

lemma insert_into_internal_eq:
  assumes "clean parent = int_node a (k1 @ k2) (c1 @ x # c2)" "length c1 = length k1" "length c2 = length k2" "length (k1 @ k2) \<le> 100000"
  obtains parent1 where "insert_into_internal parent key off (length k1) = Inr parent1" "node_dirty parent1"
    "clean parent1 = int_node a (k1 @ key # k2) (c1 @ x # off # c2)"
proof
  let ?p = "parent\<lparr>node_keys := k1 @ key # k2, node_children := c1 @ x # off # c2, node_dirty := True\<rparr>"
  have f: "node_keys parent = k1 @ k2" "node_children parent = c1 @ x # c2" using clean_fields(1,3) [OF assms(1)] by simp_all
  show "insert_into_internal parent key off (length k1) = Inr ?p"
    using assms(2-4) by (simp add: insert_into_internal_def Let_def f flip: assms(2))
  have "clean ?p = (clean parent)\<lparr>node_keys := k1 @ key # k2, node_children := c1 @ x # off # c2\<rparr>" by simp
  then show "clean ?p = int_node a (k1 @ key # k2) (c1 @ x # off # c2)" unfolding assms(1) by (simp add: int_node_def)
qed simp

lemma split_internal_run:
  fixes ks :: "bytes list"
  defines "m \<equiv> length ks div 2"
  assumes st: "store_ok {a} H t" "a \<in> H" "page_off (unat (pt_page_size t)) a" "unat a < tree_lim t"
    and node: "clean node = int_node a ks cs" "node_offset node = a" "length cs = Suc (length ks)"
    and kl: "\<forall>k \<in> set ks. length k \<le> max_key"
    and sz: "unat (pt_page_size t) < 20 + entries_size ks" "20 + entries_size ks \<le> unat (pt_page_size t) + 138"
    and cap: "card H + 1 \<le> pt_capacity t" and lim: "tree_lim t + unat (pt_page_size t) < 2 ^ 63"
  shows "\<exists>right t' r. split_internal node t = (Inr (ks ! m, right), t') \<and> 0 < m \<and> Suc m < length ks \<and>
    clean right = int_node r (drop (Suc m) ks) (drop (Suc m) cs) \<and> node_offset right = r \<and> node_dirty right \<and>
    20 + entries_size (take m ks) \<le> unat (pt_page_size t) \<and> 20 + entries_size (drop (Suc m) ks) \<le> unat (pt_page_size t) \<and>
    store_ok {} (insert r H) t' \<and> evolves t t' \<and> pt_root t' = pt_root t \<and>
    unat r = tree_lim t \<and> page_off (unat (pt_page_size t)) r \<and> tree_lim t' = tree_lim t + unat (pt_page_size t) \<and>
    (view t)(r \<mapsto> clean right, a \<mapsto> int_node a (take m ks) (take (Suc m) cs)) \<subseteq>\<^sub>m view t'"
proof -
  let ?ps = "unat (pt_page_size t)"
  have fok: "file_ok (pt_file t)" using st(1) by (simp add: store_ok_def cache_ok_def)
  have ps: "4096 \<le> ?ps" using page_size_cases [OF fok] by auto
  have "?ps - 20 < entries_size ks" "entries_size ks \<le> ?ps - 20 + 138" "4060 \<le> ?ps - 20" using sz ps by simp_all
  note ss = split_sizes [OF kl this, folded m_def]
  have mm: "0 < m" "Suc m < length ks" and m: "m < length ks" and szs: "20 + entries_size (take m ks) \<le> ?ps" "20 + entries_size (drop (Suc m) ks) \<le> ?ps"
    using ss(1,2,4) ps by (simp_all add: m_def)
  have mid: "split_point (\<lambda>m. entries_size (drop (m + 1) ks)) (?ps - 20) (length ks) m = m" using ss(4) by (simp add: split_point_id)
  note nf = clean_fields [OF node(1), simplified]
  obtain r t1 where al: "alloc_node t = (r, t1)" by fastforce
  note al1 = alloc_ok [OF al fok lim] and al2 = alloc_node_ok [OF al]
  have ra: "r \<noteq> a" using st(4) al1(1) by auto
  define right where "right = \<lparr>node_type = node_type_internal, node_offset = r, node_keys = drop (m + 1) ks, node_values = [],
    node_children = drop (m + 1) cs, node_next = 0, node_prev = 0, node_dirty = True\<rparr>"
  have R: "clean right = int_node r (drop (Suc m) ks) (drop (Suc m) cs)" "node_offset right = r" "node_dirty right"
    by (simp_all add: right_def int_node_def)
  have "node_ok (pt_page_size t) (clean right)" unfolding R(1) by (rule node_ok_int [OF al1(2) _ szs(2)]) (use node(3) m in simp)
  then have rok: "node_ok (pt_page_size t1) right" using al2(4) by simp
  have fin: "finite H" using st(1) by (rule store_ok_finite)
  have c1: "card (insert r H) \<le> card H + 1" using card_insert_Suc [OF fin, of r] by simp
  have st1: "store_ok {a} H t1" "card (insert (node_offset right) H) \<le> pt_capacity t1" using al2(2,5) st(1) c1 cap R(2) by simp_all
  have ar: "{a} - {r} = {a}" using ra by auto
  from put_node_ok [OF st1(1) rok R(3) st1(2), unfolded R(2) al2(3) ar] obtain t2 where
    t2: "put_node right t1 = (None, t2)" "store_ok {a} (insert r H) t2" "same_tree t1 t2" "(view t)(r \<mapsto> clean right) \<subseteq>\<^sub>m view t2"
    by blast
  define node1 where "node1 = node\<lparr>node_keys := take m ks, node_children := take (m + 1) cs, node_dirty := True\<rparr>"
  have n1: "clean node1 = int_node a (take m ks) (take (Suc m) cs)" "node_offset node1 = a" "node_dirty node1"
  proof -
    have "clean node1 = (clean node)\<lparr>node_keys := take m ks, node_children := take (m + 1) cs\<rparr>" by (simp add: node1_def)
    then show "clean node1 = int_node a (take m ks) (take (Suc m) cs)" unfolding node(1) by (simp add: int_node_def)
  qed (simp_all add: node1_def node(2))
  have s3: "store_ok {a} (insert r H) (set_node node1 t2)" "same_tree t1 (set_node node1 t2)" "view (set_node node1 t2) = (view t2)(a \<mapsto> clean node1)"
    using set_node_ok [OF t2(2), of node1] n1(2) st(2) same_tree_trans [OF t2(3)] by simp_all
  note sd = same_treeD [OF s3(2)]
  have "node_ok (pt_page_size t) (clean node1)" unfolding n1(1) by (rule node_ok_int [OF st(3) _ szs(1)]) (use node(3) m in simp)
  then have nok: "node_ok (pt_page_size (set_node node1 t2)) node1" using sd(1) al2(4) by simp
  have ah: "insert a (insert r H) = insert r H" "{a} - {a} = {}" using st(2) by auto
  have "card (insert (node_offset node1) (insert r H)) \<le> pt_capacity (set_node node1 t2)" using ah n1(2) c1 cap sd(2) al2(5) by simp
  from put_node_ok [OF s3(1) nok n1(3) this, unfolded n1(2) s3(3) ah fun_upd_upd] obtain t3 where
    t3: "put_node node1 (set_node node1 t2) = (None, t3)" "store_ok {} (insert r H) t3" "same_tree (set_node node1 t2) t3"
      "(view t2)(a \<mapsto> clean node1) \<subseteq>\<^sub>m view t3" by blast
  have st3: "same_tree t1 t3" by (rule same_tree_trans [OF s3(2) t3(3)])
  have nk: "node_keys node = ks" "node_children node = cs" "length ks div 2 = m" using nf by (simp_all add: m_def)
  have fits: "\<not> (entries_size (take m ks) > ?ps - 20 \<or> entries_size (drop (m + 1) ks) > ?ps - 20)" using ss(2,4) by simp
  have n0: "\<not> length ks = 0" using m by (cases ks) simp_all
  have "split_internal node t = (Inr (ks ! m, right), t3)"
    unfolding split_internal_def Let_def nk mid if_not_P [OF fits] if_not_P [OF n0] al prod.case
      right_def [symmetric] t2(1) option.case node1_def [symmetric] t3(1) ..
  moreover have "evolves t t3" using alloc_evolves [OF al] same_tree_evolves [OF st3] by (rule evolves_trans)
  moreover have "pt_root t3 = pt_root t" using same_treeD(4) [OF st3] al2(7) by simp
  moreover have "tree_lim t3 = tree_lim t + ?ps" using same_tree_lim [OF st3] al1(3) by simp
  moreover have "(view t)(r \<mapsto> clean right, a \<mapsto> int_node a (take m ks) (take (Suc m) cs)) \<subseteq>\<^sub>m view t3"
    using map_le_trans [OF map_le_upd [OF t2(4)] t3(4)] n1(1) by simp
  ultimately show ?thesis using R mm szs t3(2) al1(1,2) by blast
qed

section \<open>A new root\<close>

lemma hole_ok_below:
  assumes h: "hole_ok V ps lim s h fs ts seps" and V': "\<And>b n. unat b < lim \<Longrightarrow> V b = Some n \<Longrightarrow> V' b = Some n"
  shows "hole_ok V' ps lim s h fs ts seps"
proof -
  have same: "V' b = V b" if "b \<in> set (hole_offs fs ts)" "V b \<noteq> None" for b
    using h V' [of b] that unfolding hole_ok_def offs_ok_def by auto
  have "tree_at V' x" if "x \<in> set ts" for x
    by (rule tree_at_mono [where V = V]) (use h that same in \<open>auto simp: hole_ok_def hole_offs_def\<close>)
  moreover have "frames_at V' fs (toff (hd ts))"
    by (rule frames_at_mono [where V = V]) (use h same in \<open>auto simp: hole_ok_def hole_offs_def\<close>)
  moreover have "chain V' 0 (hole_leaves fs ts) 0"
  proof (rule chain_mono [where V = V])
    fix b
    assume b: "b \<in> set (hole_leaves fs ts)" "V b \<noteq> None"
    then have "b \<in> set (hole_offs fs ts)" using leaves_context [of fs] leaves_in_offs by (fastforce simp: hole_leaves_def hole_offs_def)
    then show "V' b = V b" using same b(2) by blast
  qed (use h in \<open>simp add: hole_ok_def\<close>)
  ultimately show ?thesis using h by (simp add: hole_ok_def)
qed

lemma hole_new_root:
  assumes "hole_ok V ps lim s h [] [T1, T2] [sep]" "V' r = Some (int_node r [sep] [toff T1, toff T2])"
    "\<And>b n. unat b < lim \<Longrightarrow> V b = Some n \<Longrightarrow> V' b = Some n"
    "page_off ps r" "unat r = lim" "lim < lim'" "158 \<le> ps"
  shows "hole_ok V' ps lim' s (Suc h) [] [Nd r [sep] [T1, T2]] []"
proof -
  have h: "hole_ok V' ps lim s h [] [T1, T2] [sep]" by (rule hole_ok_below [OF assms(1,3)])
  have "length sep \<le> max_key" using h by (simp add: hole_ok_def hole_items_def items_ok_def)
  moreover have "offs_ok ps lim' ([] @ r # (offs T1 @ offs T2))"
    by (rule offs_ok_new [OF _ assms(4-6)]) (use h in \<open>simp add: hole_ok_def hole_offs_def\<close>)
  ultimately show ?thesis using h assms(2,7)
    by (simp add: hole_ok_def hole_offs_def hole_leaves_def hole_items_def max_key_def entries_size_def)
qed

lemma write_header_store_ok:
  fixes h :: index_header and x :: u64
  assumes "store_ok X H t"
  defines "t' \<equiv> t\<lparr>pt_file := (write_header (pt_file t))\<lparr>if_header := h\<rparr>, pt_root := x\<rparr>"
  shows "store_ok X H t'" "view t \<subseteq>\<^sub>m view t'"
proof -
  have c: "cache_ok X (pt_file t) (pt_cache t)" "held H (pt_cache t)" "X \<subseteq> H" using assms(1) by (simp_all add: store_ok_def)
  then have fok: "file_ok (pt_file t)" by (simp add: cache_ok_def)
  have pg: "page_of (pt_file t') = page_of (write_header (pt_file t))" unfolding t'_def by (rule page_of_cong) simp_all
  have ps: "pt_page_size t' = pt_page_size t" by (simp add: t'_def)
  have keep: "page_of (pt_file t') off = Some n" if "page_off (unat (pt_page_size t)) off" "page_of (pt_file t) off = Some n" for off n
    unfolding pg using write_header_page [OF fok that] .
  have fok': "file_ok (pt_file t')" using write_header_ok [OF fok] by (simp add: t'_def file_ok_def)
  have "cache_ok X (pt_file t') (pt_cache t)"
    using c(1) fok' keep unfolding cache_ok_def entry_fits_def ps by (auto simp: split_beta)
  then show "store_ok X H t'" using c by (simp add: store_ok_def t'_def)
  have "pt_cache t' = pt_cache t" by (simp add: t'_def)
  then show "view t \<subseteq>\<^sub>m view t'"
    using keep by (intro map_leI) (auto simp: fview_def ps split: if_splits option.splits)
qed

text \<open>Putting a node again that the store has already.\<close>

lemma put_same_ok:
  assumes "store_ok {} H t" "view t (node_offset n) = Some (clean n)" "node_ok (pt_page_size t) n" "node_dirty n" "node_offset n \<in> H" "card H \<le> pt_capacity t"
  shows "\<exists>t'. put_node n t = (None, t') \<and> store_ok {} H t' \<and> same_tree t t' \<and> view t \<subseteq>\<^sub>m view t'"
proof -
  have h: "insert (node_offset n) H = H" "(view t)(node_offset n \<mapsto> clean n) = view t"
    using assms(2,5) by (auto simp: fun_upd_idem_iff)
  have "card (insert (node_offset n) H) \<le> pt_capacity t" using assms(6) h(1) by simp
  from put_node_ok [OF assms(1,3,4) this, unfolded h empty_Diff] show ?thesis .
qed

definition up_result :: "bool \<Rightarrow> nat \<Rightarrow> nat \<Rightarrow> (bytes \<times> location) list \<Rightarrow> persist_tree \<Rightarrow> persist_tree \<Rightarrow> bool" where
  "up_result s h k es t t' \<longleftrightarrow> (\<exists>h' T'. pt_inv s h' T' t' \<and> h' \<le> h + k \<and> entries T' = es) \<and> evolves t t' \<and> unsynced t' \<and>
     tree_lim t' \<le> tree_lim t + k * unat (pt_page_size t)"

lemma insert_root_ok:
  assumes g: "going_up s h [] T1 sep T2 right leaf [] H t" and cap: "card H + 1 \<le> pt_capacity t" and lim: "tree_lim t + unat (pt_page_size t) < 2 ^ 63"
  shows "\<exists>t'. insert_up sep right leaf [] t = (None, t') \<and> up_result s h 1 (entries T1 @ entries T2) t t'"
proof -
  let ?ps = "unat (pt_page_size t)"
  have ho: "hole_ok (view t) ?ps (tree_lim t) s h [] [T1, T2] [sep]" and st: "store_ok {} H t" and root: "pt_root t = toff T1"
    and R: "view t (toff T2) = Some (clean right)" "node_offset right = toff T2" "node_dirty right" "toff T2 \<in> H"
    and L: "view t (node_offset leaf) = Some (clean leaf)" "node_dirty leaf" "node_ok (pt_page_size t) leaf" "node_offset leaf \<in> H" "unat (node_offset leaf) < tree_lim t"
    using g by (simp_all add: going_up_def)
  have fok: "file_ok (pt_file t)" using st(1) by (simp add: store_ok_def cache_ok_def)
  have ps: "4096 \<le> ?ps" using page_size_cases [OF fok] by auto
  have T2: "tree_at (view t) T2" "good False ?ps h T2" "page_off ?ps (toff T2)"
    using ho by (simp_all add: hole_ok_def offs_ok_def hole_offs_def)
  obtain n2 where "view t (toff T2) = Some n2" "node_ok (pt_page_size t) n2" by (rule tree_root_ok [OF T2])
  then have rok: "node_ok (pt_page_size t) right" using R(1) by (metis node_ok_clean option.inject)
  obtain r t1 where al: "alloc_node t = (r, t1)" by fastforce
  note al1 = alloc_ok [OF al fok lim] and al2 = alloc_node_ok [OF al]
  define new where "new = \<lparr>node_type = node_type_internal, node_offset = r, node_keys = [sep], node_values = [],
    node_children = [pt_root t, node_offset right], node_next = 0, node_prev = 0, node_dirty = True\<rparr>"
  have N: "clean new = int_node r [sep] [toff T1, toff T2]" "node_offset new = r" "node_dirty new"
    by (simp_all add: new_def int_node_def root R(2))
  have "length sep \<le> max_key" using ho by (simp add: hole_ok_def hole_items_def items_ok_def)
  then have sz: "20 + entries_size [sep] \<le> ?ps" using ps by (simp add: entries_size_def max_key_def)
  have "node_ok (pt_page_size t) (clean new)" unfolding N(1) by (rule node_ok_int [OF al1(2) _ sz]) simp
  then have nok: "node_ok (pt_page_size t1) new" using al2(4) by simp
  have fin: "finite H" using st(1) by (rule store_ok_finite)
  have c: "card (insert r H) \<le> pt_capacity t" using card_insert_Suc [OF fin, of r] cap by simp
  have st1: "store_ok {} H t1" "card (insert (node_offset new) H) \<le> pt_capacity t1" using al2(2,5) st(1) c N(2) by simp_all
  from put_node_ok [OF st1(1) nok N(3) st1(2), unfolded N(2) al2(3) empty_Diff] obtain t2 where
    t2: "put_node new t1 = (None, t2)" "store_ok {} (insert r H) t2" "same_tree t1 t2" "(view t)(r \<mapsto> clean new) \<subseteq>\<^sub>m view t2" by blast
  have old: "view t2 b = Some n" if "unat b < tree_lim t" "view t b = Some n" for b n
    using map_leD [OF t2(4), of b n] that al1(1) by (cases "b = r") auto
  have lt2: "unat (toff T2) < tree_lim t" using ho by (simp add: hole_ok_def offs_ok_def hole_offs_def)
  have v2: "view t2 (node_offset right) = Some (clean right)" "view t2 (node_offset leaf) = Some (clean leaf)"
    using old [of "toff T2"] old [of "node_offset leaf"] lt2 R(1,2) L(1,5) by simp_all
  have c2: "card (insert r H) \<le> pt_capacity t2" using c same_treeD(2) [OF t2(3)] al2(5) by simp
  have ok2: "node_ok (pt_page_size t2) right" "node_ok (pt_page_size t2) leaf" using rok L(3) same_treeD(1) [OF t2(3)] al2(4) by simp_all
  have "node_offset right \<in> insert r H" using R(2,4) by simp
  from put_same_ok [OF t2(2) v2(1) ok2(1) R(3) this c2] obtain t3 where
    t3: "put_node right t2 = (None, t3)" "store_ok {} (insert r H) t3" "same_tree t2 t3" "view t2 \<subseteq>\<^sub>m view t3" by blast
  note sd3 = same_treeD [OF t3(3)]
  have "node_offset leaf \<in> insert r H" "card (insert r H) \<le> pt_capacity t3" "node_ok (pt_page_size t3) leaf" using L(4) c2 ok2(2) sd3 by simp_all
  from put_same_ok [OF t3(2) map_leD [OF t3(4) v2(2)] this(3) L(2) this(1,2)] obtain t4 where
    t4: "put_node leaf t3 = (None, t4)" "store_ok {} (insert r H) t4" "same_tree t3 t4" "view t3 \<subseteq>\<^sub>m view t4" by blast
  have s4: "same_tree t1 t4" using t2(3) t3(3) t4(3) by (meson same_tree_trans)
  note sd = same_treeD [OF s4]
  define t5 where "t5 = t4\<lparr>pt_file := (write_header (pt_file t4))\<lparr>if_header := (if_header (pt_file t4))\<lparr>ih_root := r\<rparr>\<rparr>, pt_root := r\<rparr>"
  note w = write_header_store_ok [OF t4(2), where h = "(if_header (pt_file t4))\<lparr>ih_root := r\<rparr>" and x = r, folded t5_def]
  have ps5: "pt_page_size t5 = pt_page_size t" using sd(1) al2(4) by (simp add: t5_def)
  have lim5: "tree_lim t5 = tree_lim t + ?ps" using same_tree_lim [OF s4] al1(3) by (simp add: t5_def tree_lim_def)
  have v5: "view t2 \<subseteq>\<^sub>m view t5" using t3(4) t4(4) w(2) by (meson map_le_trans)
  have "hole_ok (view t5) ?ps (tree_lim t + ?ps) s (Suc h) [] [Nd r [sep] [T1, T2]] []"
  proof (rule hole_new_root [OF ho _ _ al1(2,1)])
    show "view t5 r = Some (int_node r [sep] [toff T1, toff T2])" using map_leD [OF v5] map_leD [OF t2(4), of r] N(1) by simp
    show "view t5 b = Some n" if "unat b < tree_lim t" "view t b = Some n" for b n using old [OF that] map_leD [OF v5] by blast
  qed (use ps in simp_all)
  then have "pt_inv s (Suc h) (Nd r [sep] [T1, T2]) t5"
    using store_ok_release [OF w(1)] ps5 lim5 by (simp add: pt_inv_def) (simp add: t5_def)
  moreover have "evolves t t5"
    using alloc_evolves [OF al] same_tree_evolves [OF s4] by (simp add: evolves_def header_ok_def t5_def)
  moreover have "unsynced t5" by (simp add: t5_def unsynced_def)
  ultimately have "up_result s h 1 (entries T1 @ entries T2) t t5" unfolding up_result_def lim5
    by (intro conjI exI [of _ "Suc h"] exI [of _ "Nd r [sep] [T1, T2]"]) simp_all
  moreover have "insert_up sep right leaf [] t = (None, t5)"
    unfolding insert_up.simps Let_def al prod.case new_def [symmetric] t2(1) option.case t3(1) t4(1) t5_def by simp
  ultimately show ?thesis by blast
qed

section \<open>The way up\<close>

text \<open>The parent with the separator: a node that may be too wide.\<close>

lemma parent_wide:
  assumes g: "going_up s h ((a, ls, rs) # fs) T1 sep T2 right leaf ((parent, idx) # path) H t"
  defines "ks \<equiv> map snd ls @ sep # map fst rs" and "ts \<equiv> map fst ls @ T1 # T2 # map snd rs"
  shows "\<exists>parent1. insert_into_internal parent sep (node_offset right) idx = Inr parent1 \<and> clean parent1 = int_node a ks (map toff ts) \<and>
    node_offset parent1 = a \<and> node_dirty parent1 \<and> internal_size parent1 = 20 + entries_size ks \<and>
    20 + entries_size ks \<le> unat (pt_page_size t) + 138 \<and> (\<forall>k \<in> set ks. length k \<le> max_key) \<and>
    store_ok {a} H (set_node parent1 t) \<and> same_tree t (set_node parent1 t) \<and> view (set_node parent1 t) = (view t)(a \<mapsto> int_node a ks (map toff ts)) \<and>
    wide (view (set_node parent1 t)) (unat (pt_page_size t)) (tree_lim t) s h fs a ks ts"
proof -
  let ?ps = "unat (pt_page_size t)" and ?k1 = "map snd ls" and ?k2 = "map fst rs" and ?c1 = "map (toff \<circ> fst) ls" and ?c2 = "map (toff \<circ> snd) rs"
  have ho: "hole_ok (view t) ?ps (tree_lim t) s h ((a, ls, rs) # fs) [T1, T2] [sep]" and st: "store_ok {} H t" "a \<in> H"
    and R: "node_offset right = toff T2" and pa: "path_ok (view t) ((a, ls, rs) # fs) ((parent, idx) # path)"
    using g by (simp_all add: going_up_def)
  have w: "wide (view t) ?ps (tree_lim t) s h fs a ks ts" unfolding ks_def ts_def by (rule wide_of_hole [OF ho])
  have va: "view t a = Some (int_node a (?k1 @ ?k2) (?c1 @ toff T1 # ?c2))" "20 + entries_size (?k1 @ ?k2) \<le> ?ps"
    using ho by (simp_all add: hole_ok_def)
  have p: "clean parent = int_node a (?k1 @ ?k2) (?c1 @ toff T1 # ?c2)" "node_offset parent = a" "idx = length ?k1"
    using pa va(1) by (simp_all add: path_ok_def)
  have fok: "file_ok (pt_file t)" using st(1) by (simp add: store_ok_def cache_ok_def)
  have "length (?k1 @ ?k2) \<le> ?ps" using entries_size_ge [of "?k1 @ ?k2"] va(2) by simp
  then have "length (?k1 @ ?k2) \<le> 100000" using page_size_cases [OF fok] by auto
  from insert_into_internal_eq [OF p(1) _ _ this, of sep "toff T2"] obtain parent1 where
    p1: "insert_into_internal parent sep (toff T2) (length ?k1) = Inr parent1" "node_dirty parent1"
      "clean parent1 = int_node a ks (map toff ts)" by (auto simp: ks_def ts_def o_def)
  note pf = clean_fields(5,10) [OF p1(3)]
  have kl: "\<forall>k \<in> set ks. length k \<le> max_key"
  proof -
    have "set (map Sep ks) \<subseteq> set (interleave (map items ts) (map Sep ks))"
      using interleave_sorted [of "map items ts" "map Sep ks"] by (simp add: ks_def ts_def)
    moreover have "items_ok s (items_pre fs @ interleave (map items ts) (map Sep ks) @ items_post fs)" using w by (simp add: wide_def)
    ultimately have "length (ikey x) \<le> max_key" if "x \<in> set (map Sep ks)" for x using that unfolding items_ok_def by auto
    from this [of "Sep _"] show ?thesis by simp
  qed
  then have "20 + entries_size ks \<le> ?ps + 138" using va(2) by (simp add: ks_def entries_size_def max_key_def)
  moreover have "node_offset parent1 = a" "internal_size parent1 = 20 + entries_size ks" using pf by (simp_all add: ts_def)
  moreover from this have "store_ok {a} H (set_node parent1 t)" "same_tree t (set_node parent1 t)"
    "view (set_node parent1 t) = (view t)(a \<mapsto> int_node a ks (map toff ts))"
    using set_node_ok [OF st(1), of parent1] st(2) p1(3) by simp_all
  moreover from this(3) have "wide (view (set_node parent1 t)) ?ps (tree_lim t) s h fs a ks ts" by (intro wide_mono [OF w]) simp
  ultimately show ?thesis using p1(2,3) kl p1(1) [folded p(3) R] by blast
qed

lemma up_result_step:
  assumes "up_result s (Suc h) k es t1 t'" "evolves t t1" "tree_lim t1 \<le> tree_lim t + unat (pt_page_size t)"
  shows "up_result s h (Suc k) es t t'"
proof -
  have "pt_page_size t1 = pt_page_size t" using assms(2) by (simp add: evolves_def)
  then show ?thesis using assms evolves_trans [OF assms(2)] unfolding up_result_def by fastforce
qed

lemma insert_fits:
  assumes w: "wide (view t) (unat (pt_page_size t)) (tree_lim t) s h fs a ks ts" and va: "view t a = Some (int_node a ks (map toff ts))"
    and sz: "20 + entries_size ks \<le> unat (pt_page_size t)" and st: "store_ok {a} H t" "a \<in> H" and root: "pt_root t = toff (plug fs (Nd a ks ts))"
  shows "up_result s h (Suc (length fs)) (entries_pre fs @ concat (map entries ts) @ entries_post fs) t (mark_dirty a t)"
proof -
  let ?T = "plug fs (Nd a ks ts)"
  have ho: "hole_ok (view t) (unat (pt_page_size t)) (tree_lim t) s (Suc h) fs [Nd a ks ts] []" by (rule wide_node [OF w va sz])
  have "page_off (unat (pt_page_size t)) a" "length (map toff ts) = Suc (length ks)" using w by (simp_all add: wide_def offs_ok_def)
  note d = mark_dirty_ok [OF st va node_ok_int [OF this sz]]
  have "hole_ok (view t) (unat (pt_page_size t)) (tree_lim t) s (Suc h + length fs) [] [?T] []" using ho unfolding hole_ok_plug .
  then have "pt_inv s (Suc h + length fs) ?T (mark_dirty a t)"
    using d store_ok_release [of H "mark_dirty a t"] root by (simp add: pt_inv_def same_treeD [OF d(2)] same_tree_lim [OF d(2)])
  moreover have "entries ?T = entries_pre fs @ concat (map entries ts) @ entries_post fs" by (simp add: entries_plug)
  ultimately show ?thesis unfolding up_result_def using same_tree_evolves [OF d(2)] same_tree_lim [OF d(2)] mark_dirty_unsynced [OF st]
    by (intro conjI exI [of _ "Suc h + length fs"] exI [of _ ?T]) simp_all
qed

lemma split_going_up:
  assumes w: "wide (view t) (unat (pt_page_size t)) (tree_lim t) s h fs a ks ts" and st: "store_ok {a} H t" "insert a (insert (node_offset leaf) (fst ` set fs)) \<subseteq> H"
    and node: "clean node = int_node a ks (map toff ts)" "node_offset node = a" and root: "pt_root t = toff (plug fs (Nd a ks ts))"
    and kl: "\<forall>k \<in> set ks. length k \<le> max_key"
    and sz: "unat (pt_page_size t) < 20 + entries_size ks" "20 + entries_size ks \<le> unat (pt_page_size t) + 138"
    and cap: "card H + 1 \<le> pt_capacity t" and lim: "tree_lim t + unat (pt_page_size t) < 2 ^ 63"
    and leaf: "view t (node_offset leaf) = Some (clean leaf)" "node_dirty leaf" "is_leaf leaf" "node_ok (pt_page_size t) leaf"
      "unat (node_offset leaf) < tree_lim t" "node_offset leaf \<noteq> a" and pa: "path_ok (view t) fs path"
  shows "\<exists>k r t' T1 T2 H'. split_internal node t = (Inr (k, r), t') \<and> going_up s (Suc h) fs T1 k T2 r leaf path H' t' \<and>
    card H' \<le> card H + 1 \<and> evolves t t' \<and> tree_lim t' = tree_lim t + unat (pt_page_size t) \<and>
    entries T1 @ entries T2 = concat (map entries ts)"
proof -
  let ?ps = "unat (pt_page_size t)" and ?m = "length ks div 2"
  let ?T1 = "Nd a (take ?m ks) (take (Suc ?m) ts)"
  have oa: "page_off ?ps a" "unat a < tree_lim t" and len: "length (map toff ts) = Suc (length ks)" and aH: "a \<in> H"
    using w st(2) by (simp_all add: wide_def offs_ok_def)
  from split_internal_run [OF st(1) aH oa node len kl sz cap lim] obtain right t' r where
    sp: "split_internal node t = (Inr (ks ! ?m, right), t')" "0 < ?m" "Suc ?m < length ks"
    and R: "clean right = int_node r (drop (Suc ?m) ks) (drop (Suc ?m) (map toff ts))" "node_offset right = r" "node_dirty right"
    and szs: "20 + entries_size (take ?m ks) \<le> ?ps" "20 + entries_size (drop (Suc ?m) ks) \<le> ?ps"
    and t': "store_ok {} (insert r H) t'" "evolves t t'" "pt_root t' = pt_root t" and r: "page_off ?ps r" "unat r = tree_lim t"
    and lim': "tree_lim t' = tree_lim t + ?ps"
    and v: "(view t)(r \<mapsto> clean right, a \<mapsto> int_node a (take ?m ks) (take (Suc ?m) (map toff ts))) \<subseteq>\<^sub>m view t'" by blast
  let ?T2 = "Nd r (drop (Suc ?m) ks) (drop (Suc ?m) ts)"
  have pse: "pt_page_size t' = pt_page_size t" using t'(2) by (simp add: evolves_def)
  have ps: "0 < ?ps" using page_size_cases [of "pt_file t"] st(1) by (auto simp: store_ok_def cache_ok_def)
  have ra: "r \<noteq> a" using oa(2) r(2) by auto
  have old: "view t' b = Some n" if "b \<noteq> a" "unat b < tree_lim t" "view t b = Some n" for b n
  proof -
    have "b \<noteq> r" using that(2) r(2) by (metis less_irrefl)
    then show ?thesis using map_leD [OF v, of b n] that by simp
  qed
  have va: "view t' a = Some (int_node a (take ?m ks) (map toff (take (Suc ?m) ts)))" using map_leD [OF v, of a] by (simp add: take_map)
  have vr: "view t' r = Some (int_node r (drop (Suc ?m) ks) (map toff (drop (Suc ?m) ts)))" using map_leD [OF v, of r] ra R(1) by (simp add: drop_map)
  have "wide (view t') ?ps (tree_lim t) s h fs a ks ts" by (rule wide_mono [OF w old])
  from wide_split [OF this sp(2,3) r _ va vr szs, of "tree_lim t'"] lim' ps
  have "hole_ok (view t') ?ps (tree_lim t') s (Suc h) fs [?T1, ?T2] [ks ! ?m]" by simp
  moreover have "path_ok (view t') fs path"
  proof (rule path_ok_mono [OF pa])
    fix f n
    assume f: "f \<in> set fs" "view t (fst f) = Some n"
    then have "fst f \<noteq> a" "unat (fst f) < tree_lim t" using frames_offs [OF f(1)] w by (auto simp: wide_def offs_ok_def)
    then show "view t' (fst f) = Some n" using old f(2) by blast
  qed
  moreover have "view t' (node_offset leaf) = Some (clean leaf)" using old leaf by blast
  moreover have "pt_root t' = toff (plug fs ?T1)" using t'(3) root toff_plug [of "Nd a ks ts" ?T1 fs] by simp
  ultimately have "going_up s (Suc h) fs ?T1 (ks ! ?m) ?T2 right leaf path (insert r H) t'"
    using R leaf t'(1) pse lim' st(2) vr unfolding going_up_def by (auto simp: drop_map)
  moreover have "entries ?T1 @ entries ?T2 = concat (map entries ts)" by (simp flip: concat_append map_append)
  ultimately show ?thesis using sp(1) card_insert_Suc [OF store_ok_finite [OF st(1)], of r] t'(2) lim' by (metis add.commute plus_1_eq_Suc)
qed

lemma insert_up_ok:
  assumes "going_up s h fs T1 sep T2 right leaf path H t" "card H + Suc (length fs) \<le> pt_capacity t"
    "tree_lim t + Suc (length fs) * unat (pt_page_size t) < 2 ^ 63"
  shows "\<exists>t'. insert_up sep right leaf path t = (None, t') \<and>
    up_result s h (Suc (length fs)) (entries_pre fs @ entries T1 @ entries T2 @ entries_post fs) t t'"
  using assms
proof (induction fs arbitrary: h T1 sep T2 right path H t)
  case Nil
  then have "path = []" by (simp add: going_up_def path_ok_def)
  then show ?case using insert_root_ok [of s h T1 sep T2 right leaf H t] Nil by simp
next
  case (Cons f fs)
  obtain a ls rs where f: "f = (a, ls, rs)" by (cases f) auto
  have "path_ok (view t) (f # fs) path" using Cons.prems(1) by (simp add: going_up_def)
  then obtain parent idx path' where path: "path = (parent, idx) # path'" by (cases path) (auto simp: path_ok_def)
  let ?ps = "unat (pt_page_size t)"
  define ks ts where "ks = map snd ls @ sep # map fst rs" and "ts = map fst ls @ T1 # T2 # map snd rs"
  note g = Cons.prems(1) [unfolded f path]
  from parent_wide [OF g, folded ks_def ts_def] obtain parent1 where
    p: "insert_into_internal parent sep (node_offset right) idx = Inr parent1" "clean parent1 = int_node a ks (map toff ts)"
      "node_offset parent1 = a" "node_dirty parent1" "internal_size parent1 = 20 + entries_size ks"
    and sz: "20 + entries_size ks \<le> ?ps + 138" and kl: "\<forall>k \<in> set ks. length k \<le> max_key"
    and s1: "store_ok {a} H (set_node parent1 t)" "same_tree t (set_node parent1 t)" "view (set_node parent1 t) = (view t)(a \<mapsto> int_node a ks (map toff ts))"
    and w: "wide (view (set_node parent1 t)) ?ps (tree_lim t) s h fs a ks ts" by blast
  define t1 where "t1 = set_node parent1 t"
  note s1 = s1 [folded t1_def] and w = w [folded t1_def] and sd = same_treeD [OF s1(2) [folded t1_def]]
  have st: "store_ok {} H t" "a \<in> H" using g by (simp_all add: going_up_def)
  have ps: "4096 \<le> ?ps" using st(1) page_size_cases [of "pt_file t"] by (auto simp: store_ok_def cache_ok_def)
  have oa: "page_off ?ps a" "unat a < tree_lim t" using w by (simp_all add: wide_def offs_ok_def)
  have len: "length ts = Suc (length ks)" by (simp add: ts_def ks_def)
  have ents: "entries_pre (f # fs) @ entries T1 @ entries T2 @ entries_post (f # fs) = entries_pre fs @ concat (map entries ts) @ entries_post fs"
    by (simp add: f ts_def pre1_def post1_def o_def)
  have small: "\<not> 20 + entries_size ks > 10 * ?ps" using sz ps by simp
  have up: "insert_up sep right leaf path t = (if 20 + entries_size ks \<le> ?ps then (None, mark_dirty a t1)
      else case split_internal parent1 t1 of (Inl x, t2) \<Rightarrow> (Some x, t2) | (Inr (k, r), t2) \<Rightarrow> insert_up k r leaf path' t2)"
    unfolding path insert_up.simps p(1) sum.case Let_def t1_def [symmetric] p(3,5) if_not_P [OF small] ..
  have lim1: "tree_lim t1 = tree_lim t" by (rule same_tree_lim [OF s1(2)])
  have root1: "pt_root t1 = toff (plug fs (Nd a ks ts))"
    using g sd(4) toff_plug [of "plug1 (a, ls, rs) T1" "Nd a ks ts" fs] by (simp add: going_up_def plug1_def)
  show ?case
  proof (cases "20 + entries_size ks \<le> ?ps")
    case True
    have "up_result s h (Suc (length fs)) (entries_pre fs @ concat (map entries ts) @ entries_post fs) t1 (mark_dirty a t1)"
      by (rule insert_fits [OF _ _ _ s1(1) st(2) root1]) (use w s1(3) sd(1) lim1 True in simp_all)
    then have "up_result s h (Suc (length (f # fs))) (entries_pre fs @ concat (map entries ts) @ entries_post fs) t (mark_dirty a t1)"
      using same_tree_evolves [OF s1(2)] sd lim1 unfolding up_result_def by (fastforce intro: evolves_trans)
    then show ?thesis using True unfolding up ents by simp
  next
    case False
    have L: "view t (node_offset leaf) = Some (clean leaf)" "node_dirty leaf" "is_leaf leaf" "node_ok (pt_page_size t) leaf"
      "unat (node_offset leaf) < tree_lim t" "insert (node_offset leaf) (fst ` set (f # fs)) \<subseteq> H"
      "frames_at (view t) (f # fs) (toff T1)" using Cons.prems(1) by (simp_all add: going_up_def hole_ok_def)
    obtain ks' cs' where ia: "view t a = Some (int_node a ks' cs')" using frames_int [OF L(7), of f] by (auto simp: f)
    have la: "node_offset leaf \<noteq> a"
    proof
      assume "node_offset leaf = a"
      then have "clean leaf = int_node a ks' cs'" using L(1) ia by simp
      from clean_fields(8) [OF this] show False using L(3) by simp
    qed
    have lf: "view t1 (node_offset leaf) = Some (clean leaf)" using s1(3) la L(1) by simp
    have pa1: "path_ok (view t1) fs path'"
    proof (rule path_ok_mono [where V = "view t"])
      show "path_ok (view t) fs path'" using g by (simp add: going_up_def path_ok_def)
      fix x n
      assume x: "x \<in> set fs" "view t (fst x) = Some n"
      then have "fst x \<noteq> a" using frames_offs [OF x(1)] w by (auto simp: wide_def offs_ok_def)
      then show "view t1 (fst x) = Some n" using x(2) s1(3) by simp
    qed
    have q1: "tree_lim t1 + unat (pt_page_size t1) < 2 ^ 63" "card H + 1 \<le> pt_capacity t1" using Cons.prems(2,3) lim1 sd(1,2) by simp_all
    have q2: "insert a (insert (node_offset leaf) (fst ` set fs)) \<subseteq> H" using L(6) st(2) by simp
    have q3: "wide (view t1) (unat (pt_page_size t1)) (tree_lim t1) s h fs a ks ts" using w lim1 sd(1) by simp
    have q4: "unat (pt_page_size t1) < 20 + entries_size ks" "20 + entries_size ks \<le> unat (pt_page_size t1) + 138" using False sz sd(1) by simp_all
    have q5: "node_ok (pt_page_size t1) leaf" "unat (node_offset leaf) < tree_lim t1" using L(4,5) lim1 sd(1) by simp_all
    from split_going_up [OF q3 s1(1) q2 p(2,3) root1 kl q4 q1(2,1) lf L(2,3) q5 la pa1] obtain k r t2 T1' T2' H' where
      sp: "split_internal parent1 t1 = (Inr (k, r), t2)" "going_up s (Suc h) fs T1' k T2' r leaf path' H' t2" "card H' \<le> card H + 1"
        "evolves t1 t2" "tree_lim t2 = tree_lim t1 + unat (pt_page_size t1)" "entries T1' @ entries T2' = concat (map entries ts)"
      by blast
    have ev: "evolves t t2" using same_tree_evolves [OF s1(2)] sp(4) by (rule evolves_trans)
    have "card H' + Suc (length fs) \<le> pt_capacity t2" "tree_lim t2 + Suc (length fs) * unat (pt_page_size t2) < 2 ^ 63"
      using Cons.prems(2,3) sp(3,5) ev sd(1) lim1 by (simp_all add: evolves_def)
    from Cons.IH [OF sp(2) this] obtain t' where
      "insert_up k r leaf path' t2 = (None, t')" "up_result s (Suc h) (Suc (length fs)) (entries_pre fs @ entries T1' @ entries T2' @ entries_post fs) t2 t'" by blast
    moreover have "tree_lim t2 \<le> tree_lim t + ?ps" using sp(5) sd(1) lim1 by simp
    ultimately show ?thesis using up_result_step [OF _ ev] False sp(1,6) unfolding up ents by (simp flip: append_assoc)
  qed
qed

section \<open>Insertion\<close>

lemma chain_same_links:
  "chain V p xs q \<Longrightarrow> (\<And>b n. b \<in> set xs \<Longrightarrow> V b = Some n \<Longrightarrow> \<exists>n'. V' b = Some n' \<and> node_prev n' = node_prev n \<and> node_next n' = node_next n) \<Longrightarrow>
   chain V' p xs q"
proof (induction xs arbitrary: p)
  case (Cons x xs)
  then obtain n where "V x = Some n" "node_prev n = p" "node_next n = (case xs of [] \<Rightarrow> q | y # _ \<Rightarrow> y)" by auto
  moreover obtain n' where "V' x = Some n'" "node_prev n' = node_prev n" "node_next n' = node_next n"
    using Cons.prems(2) [of x n] calculation(1) by auto
  moreover have "chain V' x xs q" by (rule Cons.IH) (use Cons.prems in auto)
  ultimately show ?case by auto
qed simp

lemma hole_leaf_update:
  assumes ho: "hole_ok V ps lim s 0 fs [Lf a es] []" and va: "V a = Some (leaf_node a es nx pv)"
    and it: "items_ok s (items_pre fs @ ent_items es' @ items_post fs)" and sz: "28 + entries_size (map fst es') \<le> ps" and ne: "es' \<noteq> [] \<or> fs = []"
  shows "hole_ok (V(a \<mapsto> leaf_node a es' nx pv)) ps lim s 0 fs [Lf a es'] []"
proof -
  let ?V = "V(a \<mapsto> leaf_node a es' nx pv)"
  have d: "distinct (offs_pre fs @ a # offs_post fs)" using ho by (simp add: hole_ok_def offs_ok_def hole_offs_def)
  have "frames_at ?V fs a" by (rule frames_at_mono [where V = V]) (use ho d in \<open>auto simp: hole_ok_def\<close>)
  moreover have "chain V 0 (leaves_pre fs @ a # leaves_post fs) 0" using ho by (simp add: hole_ok_def hole_leaves_def)
  then have "chain ?V 0 (leaves_pre fs @ a # leaves_post fs) 0" by (rule chain_same_links) (use va in auto)
  moreover have "\<exists>x y. leaf_node a es' nx pv = leaf_node a es' x y" by blast
  ultimately show ?thesis using ho it sz ne by (auto simp: hole_ok_def hole_leaves_def hole_offs_def hole_items_def)
qed

text \<open>The new entry in the sequence of items: where its key belongs, in the leaf and in the context.\<close>

lemma leaf_ins_items:
  assumes it: "items_ok s (items_pre fs @ ent_items es @ items_post fs)" and hf: "hole_for s key fs" and len: "length key \<le> max_key"
    and new: "s \<Longrightarrow> key \<notin> fst ` set es"
  shows "items_ok s (items_pre fs @ ent_items (leaf_ins key val es) @ items_post fs)"
    "\<exists>A B. es = A @ B \<and> leaf_ins key val es = A @ (key, val) # B \<and> (\<forall>e \<in> set A. fst e \<le> key) \<and> (\<forall>e \<in> set B. key \<le> fst e)"
proof -
  let ?i = "lower_bound (map fst es) key"
  define A B where "A = take ?i es" and "B = drop ?i es"
  have "sorted_wrt (item_rel s) (ent_items es)" using it by (simp add: items_ok_def sorted_wrt_append)
  then have so: "sorted (map fst es)" unfolding sorted_wrt_map by (rule sorted_wrt_mono_rel [rotated]) (auto simp: item_rel_def)
  note lb = lower_bound_sorted [OF so, where key = key]
  have e: "es = A @ B" "leaf_ins key val es = A @ (key, val) # B" by (simp_all add: A_def B_def leaf_ins_def Let_def)
  have lo: "fst x < key" if "x \<in> set A" for x
    using that lb(1,2) unfolding A_def by (auto simp: in_set_conv_nth)
  have hi: "key \<le> fst x" if "x \<in> set B" for x
    using that lb(1,3) unfolding B_def by (auto simp: in_set_conv_nth)
  have hi': "item_rel s (Ent key val) (Ent (fst x) (snd x))" if "x \<in> set B" for x
    using hi [OF that] new that by (auto simp: item_rel_def e(1))
  have "items_ok s ((items_pre fs @ ent_items A) @ Ent key val # (ent_items B @ items_post fs))"
  proof (rule items_ok_insert)
    show "items_ok s ((items_pre fs @ ent_items A) @ ent_items B @ items_post fs)" using it by (simp add: e(1))
    show "\<forall>x \<in> set (items_pre fs @ ent_items A). item_rel s x (Ent key val)"
      using hf lo by (auto simp: hole_for_def item_rel_def)
    show "\<forall>x \<in> set (ent_items B @ items_post fs). item_rel s (Ent key val) x"
      using hf hi' by (auto simp: hole_for_def)
  qed (use len in simp)
  then show "items_ok s (items_pre fs @ ent_items (leaf_ins key val es) @ items_post fs)" by (simp add: e(2))
  show "\<exists>A B. es = A @ B \<and> leaf_ins key val es = A @ (key, val) # B \<and> (\<forall>e \<in> set A. fst e \<le> key) \<and> (\<forall>e \<in> set B. key \<le> fst e)"
    using e lo hi by (intro exI [of _ A] exI [of _ B]) (auto intro: less_imp_le)
qed

text \<open>What an insertion does, on the entries of the tree.\<close>

definition insert_spec :: "bytes \<Rightarrow> location \<Rightarrow> (bytes \<times> location) list \<Rightarrow> u64 \<Rightarrow> (bytes \<times> location) list \<Rightarrow> u64 \<Rightarrow> bool" where
  "insert_spec key val es n es' n' \<longleftrightarrow>
     (key, val) \<in> set es \<and> es' = es \<and> n' = n \<or>
     (\<exists>A B. es = A @ B \<and> es' = A @ (key, val) # B \<and> (\<forall>e \<in> set A. fst e \<le> key) \<and> (\<forall>e \<in> set B. key \<le> fst e)) \<and> n' = n + 1"

definition grown :: "bool \<Rightarrow> nat \<Rightarrow> (bytes \<times> location) list \<Rightarrow> persist_tree \<Rightarrow> persist_tree \<Rightarrow> bool" where
  "grown s h es t t' \<longleftrightarrow> (\<exists>h' T'. pt_inv s h' T' t' \<and> h' \<le> Suc h \<and> entries T' = es) \<and> evolves t t' \<and> unsynced t' \<and>
     tree_lim t' \<le> tree_lim t + (h + 2) * unat (pt_page_size t)"

lemma leaf_insert_ok:
  assumes fo: "found s (tree_lim t) key fs a es leaf path H t" and node: "clean node = leaf_node a es' nx pv" "node_offset node = a"
    and leaf: "clean leaf = leaf_node a es nx pv" and it: "items_ok s (items_pre fs @ ent_items es' @ items_post fs)" "es' \<noteq> []"
    and sz: "28 + entries_size (map fst es') \<le> unat (pt_page_size t) + 138"
    and cap: "card H + length fs + 3 \<le> pt_capacity t" and lim: "tree_lim t + (length fs + 2) * unat (pt_page_size t) < 2 ^ 63"
    and root: "pt_root t = toff (plug fs (Lf a es))"
  defines "t1 \<equiv> (set_node node t)\<lparr>pt_entry_count := pt_entry_count t + 1\<rparr>"
  shows "\<exists>t'. (if leaf_size node \<le> unat (pt_page_size t) then (None, mark_dirty a t1)
      else case split_leaf node t1 of (Inl x, t2) \<Rightarrow> (Some x, t2) | (Inr (k, r, lf), t2) \<Rightarrow> insert_up k r lf path t2) = (None, t') \<and>
    grown s (length fs) (entries_pre fs @ es' @ entries_post fs) t1 t'"
proof -
  let ?ps = "unat (pt_page_size t)"
  have f: "hole_ok (view t) ?ps (tree_lim t) s 0 fs [Lf a es] []" "view t a = Some (leaf_node a es nx pv)" "path_ok (view t) fs path"
    "store_ok {} H t" "insert a (fst ` set fs) \<subseteq> H" using fo leaf by (simp_all add: found_def)
  have aH: "node_offset node \<in> H" using f(5) node(2) by simp
  note sn = set_node_ok [OF f(4) aH, unfolded node]
  have s1: "store_ok {a} H t1" "view t1 = (view t)(a \<mapsto> leaf_node a es' nx pv)" "pt_page_size t1 = pt_page_size t" "pt_capacity t1 = pt_capacity t"
    "tree_lim t1 = tree_lim t" "pt_root t1 = pt_root t"
    using sn same_treeD [OF sn(2)] same_tree_lim [OF sn(2)] by (simp_all add: t1_def store_ok_def tree_lim_def)
  have ls: "leaf_size node = 28 + entries_size (map fst es')" using clean_fields(9) [OF node(1)] by simp
  have oa: "page_off ?ps a" using f(1) by (simp add: hole_ok_def offs_ok_def hole_offs_def)
  show ?thesis
  proof (cases "leaf_size node \<le> ?ps")
    case True
    have fits: "28 + entries_size (map fst es') \<le> ?ps" using True ls by simp
    have v: "view t1 a = Some (leaf_node a es' nx pv)" "node_ok (pt_page_size t1) (leaf_node a es' nx pv)" "a \<in> H"
      using s1(2,3) node_ok_leaf [OF oa fits] f(5) by simp_all
    note d = mark_dirty_ok [OF s1(1) v(3,1,2)]
    have "hole_ok (view t1) ?ps (tree_lim t) s 0 fs [Lf a es'] []" unfolding s1(2) by (rule hole_leaf_update [OF f(1,2) it(1) fits]) (use it(2) in simp)
    then have "hole_ok (view t1) ?ps (tree_lim t) s (length fs) [] [plug fs (Lf a es')] []" using hole_ok_plug [of _ _ _ _ 0 fs] by simp
    moreover have "pt_root t1 = toff (plug fs (Lf a es'))" using s1(6) root toff_plug [of "Lf a es" "Lf a es'" fs] by simp
    ultimately have "pt_inv s (length fs) (plug fs (Lf a es')) (mark_dirty a t1)"
      using d store_ok_release [of H "mark_dirty a t1"] s1 by (simp add: pt_inv_def same_treeD [OF d(2)] same_tree_lim [OF d(2)])
    then have "grown s (length fs) (entries_pre fs @ es' @ entries_post fs) t1 (mark_dirty a t1)" unfolding grown_def
      using same_tree_evolves [OF d(2)] same_tree_lim [OF d(2)] mark_dirty_unsynced [OF s1(1) v(3)] by (intro conjI exI [of _ "length fs"] exI [of _ "plug fs (Lf a es')"]) (simp_all add: entries_plug)
    then show ?thesis using True by simp
  next
    case False
    have over: "unat (pt_page_size t1) < 28 + entries_size (map fst es')" "28 + entries_size (map fst es') \<le> unat (pt_page_size t1) + 138"
      using False ls sz s1(3) by simp_all
    have ho: "hole_ok (view t) (unat (pt_page_size t1)) (tree_lim t1) s 0 fs [Lf a es] []" using f(1) s1(3,5) by simp
    have c1: "card H + 2 \<le> pt_capacity t1" "tree_lim t1 + unat (pt_page_size t1) < 2 ^ 63" "pt_root t1 = toff (plug fs (Lf a es))"
      using cap lim root s1 by simp_all
    from split_leaf_ok [OF ho f(2) s1(2,1) f(5) node it(1) over c1(1,2) f(3) c1(3)] obtain k r lf t2 b esl esr H' where
      sp: "split_leaf node t1 = (Inr (k, r, lf), t2)" "esl @ esr = es'" "going_up s 0 fs (Lf a esl) k (Lf b esr) r lf path H' t2"
        "card H' \<le> card H + 2" "evolves t1 t2" "tree_lim t2 = tree_lim t1 + unat (pt_page_size t1)" by blast
    have ev: "pt_page_size t2 = pt_page_size t" "pt_capacity t2 = pt_capacity t" using sp(5) s1(3,4) by (simp_all add: evolves_def)
    have "card H' + Suc (length fs) \<le> pt_capacity t2" "tree_lim t2 + Suc (length fs) * unat (pt_page_size t2) < 2 ^ 63"
      using cap lim sp(4,6) ev s1 by simp_all
    from insert_up_ok [OF sp(3) this] obtain t' where up: "insert_up k r lf path t2 = (None, t')"
      "up_result s 0 (Suc (length fs)) (entries_pre fs @ entries (Lf a esl) @ entries (Lf b esr) @ entries_post fs) t2 t'" by blast
    then have "grown s (length fs) (entries_pre fs @ es' @ entries_post fs) t1 t'"
      using sp(2,6) ev(1) s1(3) evolves_trans [OF sp(5)] unfolding up_result_def grown_def by (auto, blast)
    then show ?thesis using False sp(1) up(1) by simp
  qed
qed

lemma insert_ok:
  assumes inv: "pt_inv s h T t" and len: "length key \<le> max_key" and new: "s \<Longrightarrow> key \<in> fst ` set (entries T) \<Longrightarrow> (key, val) \<in> set (entries T)"
    and h: "h \<le> max_depth" "2 * h + 4 \<le> pt_capacity t" and lim: "tree_lim t + (h + 2) * unat (pt_page_size t) < 2 ^ 63"
  shows "\<exists>t' h' T'. pt_insert None key val t = (None, t') \<and> pt_inv s h' T' t' \<and> h' \<le> Suc h \<and>
    insert_spec key val (entries T) (pt_entry_count t) (entries T') (pt_entry_count t') \<and>
    pt_page_size t' = pt_page_size t \<and> pt_capacity t' = pt_capacity t \<and> (\<forall>ty. header_ok ty t \<longrightarrow> header_ok ty t') \<and> unsynced t' \<and>
    tree_lim t' \<le> tree_lim t + (h + 2) * unat (pt_page_size t) \<and> (entries T' = entries T \<longrightarrow> tree_lim t' = tree_lim t)"
proof -
  let ?ps = "unat (pt_page_size t)"
  have "Suc h \<le> pt_capacity t" using h(2) by simp
  from find_leaf_ok [OF inv h(1) this, of key] obtain leaf path t1 fs a es H where
    fl: "find_leaf key t = (Inr (leaf, path), t1)" "found s (tree_lim t) key fs a es leaf path H t1" "plug fs (Lf a es) = T" "length fs = h"
      "card H \<le> Suc h" "same_tree t t1" "view t \<subseteq>\<^sub>m view t1" by blast
  note sd = same_treeD [OF fl(6)] and li = same_tree_lim [OF fl(6)]
  have fo: "hole_ok (view t1) ?ps (tree_lim t) s 0 fs [Lf a es] []" "hole_for s key fs" "store_ok {} H t1" "view t1 a = Some (clean leaf)"
    "node_offset leaf = a" "a \<in> H" using fl(2) sd(1) by (simp_all add: found_def)
  have inv1: "pt_inv s h T t1" by (rule pt_inv_same [OF inv fl(6,7) fo(3)])
  have ho: "tree_at (view t1) (Lf a es)" "items_ok s (items_pre fs @ ent_items es @ items_post fs)" "28 + entries_size (map fst es) \<le> ?ps" "page_off ?ps a"
    and fg: "frames_good ?ps 0 fs"
    using fo(1) by (simp_all add: hole_ok_def hole_items_def offs_ok_def hole_offs_def)
  obtain nx pv where leaf: "clean leaf = leaf_node a es nx pv" using ho(1) fo(4) by auto
  have "sorted_wrt (item_rel s) (ent_items es)" using ho(2) by (simp add: items_ok_def sorted_wrt_append)
  then have so: "sorted (map fst es)" unfolding sorted_wrt_map by (rule sorted_wrt_mono_rel [rotated]) (auto simp: item_rel_def)
  have fok: "file_ok (pt_file t1)" using fo(3) by (simp add: store_ok_def cache_ok_def)
  have ps: "4096 \<le> ?ps" "?ps \<le> 16384" using page_size_cases [OF fok] sd(1) by auto
  have "length es \<le> 100000" using entries_size_ge [of "map fst es"] ho(3) ps by simp
  note ii = insert_into_leaf_eq [OF leaf so this, of key val]
  have ent: "entries T = entries_pre fs @ es @ entries_post fs" unfolding fl(3) [symmetric] entries_plug by simp
  show ?thesis
  proof (cases "(key, val) \<in> set es")
    case True
    have v: "view t1 a = Some (leaf_node a es nx pv)" "node_ok (pt_page_size t1) (leaf_node a es nx pv)"
      using fo(4) leaf node_ok_leaf [OF ho(4,3)] sd(1) by simp_all
    note d = mark_dirty_ok [OF fo(3,6) v]
    have "pt_insert None key val t = (None, mark_dirty a t1)" using fl(1) ii True fo(5) by (simp add: pt_insert_def)
    moreover have "pt_inv s h T (mark_dirty a t1)" by (rule pt_inv_same [OF inv1 d(2)]) (use d in \<open>simp_all add: map_le_def\<close>)
    moreover have "same_tree t (mark_dirty a t1)" using fl(6) d(2) by (rule same_tree_trans)
    moreover have "unsynced (mark_dirty a t1)" by (rule mark_dirty_unsynced [OF fo(3,6)])
    ultimately show ?thesis using True ent
      by (intro exI [of _ "mark_dirty a t1"] exI [of _ h] exI [of _ T])
        (simp add: same_treeD [of t "mark_dirty a t1"] same_tree_lim [of t "mark_dirty a t1"] header_ok_def insert_spec_def)
  next
    case False
    then obtain node where node: "insert_into_leaf leaf key val = Inr (Some node)" "clean node = leaf_node a (leaf_ins key val es) nx pv" "node_dirty node"
      using ii by auto
    have no: "node_offset node = a" using clean_fields(5) [OF node(2)] by simp
    have nw: "key \<notin> fst ` set es" if s
    proof
      assume "key \<in> fst ` set es"
      then have "(key, val) \<in> set (entries T)" using new that ent by auto
      then have "(key, val) \<in> set (entries_pre fs) \<union> set (entries_post fs)" using False ent by auto
      then show False using found_keys(3) [OF fo(2) fg] that by blast
    qed
    note li' = leaf_ins_items [OF ho(2) fo(2) len nw, of val]
    define es' where "es' = leaf_ins key val es"
    obtain A B where AB: "es = A @ B" "es' = A @ (key, val) # B" "\<forall>e \<in> set A. fst e \<le> key" "\<forall>e \<in> set B. key \<le> fst e"
      using li'(2) unfolding es'_def by blast
    have sz: "28 + entries_size (map fst es') \<le> unat (pt_page_size t1) + 138"
      using ho(3) len sd(1) unfolding AB by (simp add: entries_size_def max_key_def)
    have ne: "es' \<noteq> []" by (simp add: es'_def leaf_ins_def Let_def)
    have c: "found s (tree_lim t1) key fs a es leaf path H t1" "card H + length fs + 3 \<le> pt_capacity t1"
      "tree_lim t1 + (length fs + 2) * unat (pt_page_size t1) < 2 ^ 63" "pt_root t1 = toff (plug fs (Lf a es))"
      using fl(2,4,5) li h(2) lim sd inv1 fl(3) by (simp_all add: pt_inv_def)
    define t2 where "t2 = (set_node node t1)\<lparr>pt_entry_count := pt_entry_count t1 + 1\<rparr>"
    from leaf_insert_ok [OF c(1) node(2) [folded es'_def] no leaf li'(1) [folded es'_def] ne sz c(2-4), folded t2_def] obtain t' where
      t': "(if leaf_size node \<le> unat (pt_page_size t1) then (None, mark_dirty a t2)
        else case split_leaf node t2 of (Inl x, t2) \<Rightarrow> (Some x, t2) | (Inr (k, r, lf), t2) \<Rightarrow> insert_up k r lf path t2) = (None, t')"
      "grown s (length fs) (entries_pre fs @ es' @ entries_post fs) t2 t'" by blast
    have small: "\<not> leaf_size node > 10 * unat (pt_page_size t1)"
      using clean_fields(9) [OF node(2)] sz ps sd(1) by (simp add: es'_def)
    have "pt_insert None key val t = (None, t')"
      unfolding pt_insert_def option.case fl(1) sum.case prod.case node(1) Let_def t2_def [symmetric] if_not_P [OF small] no by (rule t'(1))
    moreover obtain h' T' where T': "pt_inv s h' T' t'" "h' \<le> Suc h" "entries T' = entries_pre fs @ es' @ entries_post fs" "evolves t2 t'" "unsynced t'"
      "tree_lim t' \<le> tree_lim t2 + (h + 2) * unat (pt_page_size t2)" using t'(2) fl(4) unfolding grown_def by blast
    moreover have t2: "pt_page_size t2 = pt_page_size t" "pt_capacity t2 = pt_capacity t" "tree_lim t2 = tree_lim t"
      "header_ok ty t2 = header_ok ty t" "pt_entry_count t2 = pt_entry_count t + 1" for ty
      using sd li by (simp_all add: t2_def set_node_def tree_lim_def header_ok_def)
    moreover have "insert_spec key val (entries T) (pt_entry_count t) (entries T') (pt_entry_count t')"
    proof -
      have "\<forall>e \<in> set (entries_pre fs @ A). fst e \<le> key" "\<forall>e \<in> set (B @ entries_post fs). key \<le> fst e"
        using found_keys(1,2) [OF fo(2) fg] AB(3,4) by fastforce+
      moreover have "entries T = (entries_pre fs @ A) @ (B @ entries_post fs)" "entries T' = (entries_pre fs @ A) @ (key, val) # (B @ entries_post fs)"
        using ent T'(3) AB(1,2) by simp_all
      moreover have "pt_entry_count t' = pt_entry_count t + 1" using T'(4) t2(5) by (simp add: evolves_def)
      ultimately show ?thesis unfolding insert_spec_def by blast
    qed
    moreover have "entries T' \<noteq> entries T" using T'(3) ent AB(1,2) by simp
    ultimately show ?thesis
      by (intro exI [of _ t'] exI [of _ h'] exI [of _ T']) (simp add: evolves_def)
  qed
qed

end
