(* ===== verification/Tree_Open.thy ===== *)
theory Tree_Open
  imports Tree_Up
begin

text \<open>
  Flushing a tree and opening it again: \<open>flush\<close>, \<open>openBTree\<close> and \<open>countEntriesInTree\<close> of
  \<open>src/index/persist_tree.go\<close>. Counting recurses over the tree without a bound in the code; here it
  has fuel for the depth, and None when the fuel runs out.

  Result: a tree that was changed and flushed opens again from the bytes of its file as the same tree.
\<close>

section \<open>Flushing\<close>

definition clean_entry :: "u64 \<times> cache_entry \<Rightarrow> u64 \<times> cache_entry" where
  "clean_entry p = (fst p, if ce_dirty (snd p) then \<lparr>ce_node = clean (ce_node (snd p)), ce_dirty = False\<rparr> else snd p)"

lemma flush_entries_ok:
  assumes "file_ok f" "distinct (map fst es)"
    "\<And>off e. (off, e) \<in> set es \<Longrightarrow> node_offset (ce_node e) = off \<and> page_off (unat (if_page_size f)) off \<and> entry_fits f off e"
  shows "\<exists>f'. flush_entries (if_page_size f) es f = ((length (filter (\<lambda>p. ce_dirty (snd p)) es), None), f', map clean_entry es) \<and>
    pages_kept (fst ` set es) f f' \<and> same_store f c f' c \<and> (if_pending f \<longrightarrow> if_pending f') \<and> (\<forall>off e. (off, e) \<in> set es \<longrightarrow> page_of f' off = Some (clean (ce_node e)))"
  using assms
proof (induction es arbitrary: f)
  case (Cons p es)
  obtain off e where p: "p = (off, e)" by (cases p)
  let ?ps = "unat (if_page_size f)"
  have e: "node_offset (ce_node e) = off" "page_off ?ps off" "node_ok (if_page_size f) (ce_node e)"
    "\<not> ce_dirty e \<Longrightarrow> page_of f off = Some (clean (ce_node e))"
    using Cons.prems(3) [of off e] by (auto simp: p entry_fits_def)
  have nin: "off \<notin> fst ` set es" using Cons.prems(2) by (auto simp: p)
  have rest: "\<exists>f'. flush_entries (if_page_size f) es f1 = ((length (filter (\<lambda>p. ce_dirty (snd p)) es), None), f', map clean_entry es) \<and>
      pages_kept (fst ` set (p # es)) f f' \<and> same_store f c f' c \<and> (if_pending f \<longrightarrow> if_pending f') \<and> (\<forall>o1 e1. (o1, e1) \<in> set (p # es) \<longrightarrow> page_of f' o1 = Some (clean (ce_node e1)))"
    if k: "pages_kept {off} f f1" "same_store f c f1 c" "page_of f1 off = Some (clean (ce_node e))" "if_pending f \<longrightarrow> if_pending f1" for f1
  proof -
    have ps: "if_page_size f1 = if_page_size f" "file_ok f1" using k(1) by (simp_all add: pages_kept_def)
    have ok: "node_offset (ce_node e1) = o1 \<and> page_off (unat (if_page_size f1)) o1 \<and> entry_fits f1 o1 e1" if "(o1, e1) \<in> set es" for o1 e1
    proof -
      have "o1 \<noteq> off" using nin that by force
      then show ?thesis using Cons.prems(3) [of o1 e1] that pages_kept_fits [OF k(1), of o1 e1] ps(1) by simp
    qed
    have d: "distinct (map fst es)" using Cons.prems(2) by simp
    from Cons.IH [OF ps(2) d ok] obtain f' where f': "flush_entries (if_page_size f1) es f1 = ((length (filter (\<lambda>p. ce_dirty (snd p)) es), None), f', map clean_entry es)"
      "pages_kept (fst ` set es) f1 f'" "same_store f1 c f' c" "if_pending f1 \<longrightarrow> if_pending f'" "\<forall>o1 e1. (o1, e1) \<in> set es \<longrightarrow> page_of f' o1 = Some (clean (ce_node e1))" by blast
    have "page_of f' off = Some (clean (ce_node e))" using f'(2) k(3) e(2) nin ps(1) by (simp add: pages_kept_def)
    moreover have "pages_kept (fst ` set (p # es)) f f'" using k(1) f'(2) by (simp add: pages_kept_def p)
    moreover have "same_store f c f' c" using k(2) f'(3) by (rule same_store_trans)
    ultimately show ?thesis using f'(1,4,5) k(4) ps(1) by (auto simp: p)
  qed
  show ?case
  proof (cases "ce_dirty e")
    case True
    obtain buf where b: "write_node (if_page_size f) (ce_node e) f = Inr (page_written f off buf)" "length buf = ?ps"
      "page_of (page_written f off buf) off = Some (clean (ce_node e))"
      using write_node_ok [OF Cons.prems(1) e(3)] e(1) by metis
    note w = page_written_kept [OF Cons.prems(1) b(2) e(2)]
    from rest [OF w(1) w(2) b(3)] page_written_simps(3) show ?thesis using True b(1) by (auto simp: p clean_entry_def)
  next
    case False
    from rest [of f] Cons.prems(1) e(4) False show ?thesis by (auto simp: p clean_entry_def)
  qed
qed simp

lemma clean_entry_view:
  "map_of (map clean_entry es) off = map_option (\<lambda>e. snd (clean_entry (off, e))) (map_of es off)"
  by (induction es) (auto simp: clean_entry_def)

lemma clean_entry_facts: "map fst (map clean_entry es) = map fst es" "clean (ce_node (snd (clean_entry p))) = clean (ce_node (snd p))"
  "\<not> ce_dirty (snd (clean_entry p))" "node_offset (ce_node (snd (clean_entry p))) = node_offset (ce_node (snd p))"
  by (simp_all add: clean_entry_def)

lemma flush_tree_ok:
  assumes st: "store_ok {} {} t"
  defines "h \<equiv> (if_header (pt_file t))\<lparr>ih_entry_count := pt_entry_count t\<rparr>"
  shows "\<exists>t'. flush_tree t = (None, t') \<and> store_ok {} {} t' \<and> (\<forall>off n. view t off = Some n \<longrightarrow> page_of (pt_file t') off = Some n \<and> view t' off = Some n) \<and>
    pt_page_size t' = pt_page_size t \<and> pt_capacity t' = pt_capacity t \<and> pt_root t' = pt_root t \<and> pt_entry_count t' = pt_entry_count t \<and>
    if_header (pt_file t') = h \<and> (unsynced t \<or> header_stored (pt_file t) h \<longrightarrow> header_stored (pt_file t') h)"
proof -
  let ?f = "pt_file t" and ?c = "pt_cache t"
  have c: "cache_ok {} ?f ?c" using st by (simp add: store_ok_def)
  then have fok: "file_ok ?f" "bc_page_size ?c = if_page_size ?f" and d: "distinct (map fst (bc_entries ?c))" by (simp_all add: cache_ok_def)
  define f1 where "f1 = ?f\<lparr>if_header := h\<rparr>"
  have pg: "page_of f1 = page_of ?f" unfolding f1_def by (rule page_of_cong) simp_all
  have f1: "file_ok f1" "if_page_size f1 = if_page_size ?f" "if_header f1 = h" "if_pending f1 = if_pending ?f" "header_stored f1 h = header_stored ?f h"
    using fok(1) by (simp_all add: f1_def file_ok_def header_stored_def)
  have ok1: "node_offset (ce_node e) = off \<and> page_off (unat (if_page_size f1)) off \<and> entry_fits f1 off e" if "(off, e) \<in> set (bc_entries ?c)" for off e
    using cache_ok_entry [OF c that] f1(2) by (simp add: entry_fits_def pg)
  from flush_entries_ok [OF f1(1) d ok1, where c = ?c] obtain f2 where
    fl: "flush_entries (if_page_size ?f) (bc_entries ?c) f1 = ((length (filter (\<lambda>p. ce_dirty (snd p)) (bc_entries ?c)), None), f2, map clean_entry (bc_entries ?c))"
    "pages_kept (fst ` set (bc_entries ?c)) f1 f2" "same_store f1 ?c f2 ?c" "if_pending ?f \<longrightarrow> if_pending f2"
    "\<And>off e. (off, e) \<in> set (bc_entries ?c) \<Longrightarrow> page_of f2 off = Some (clean (ce_node e))" unfolding f1(2,4) by blast
  have f2: "file_ok f2" "if_page_size f2 = if_page_size ?f" "if_header f2 = h" "header_stored ?f h \<Longrightarrow> header_stored f2 h"
    using fl(2,3) f1 by (simp_all add: pages_kept_def same_store_def)
  have v2: "page_of f2 off = Some n" if "view t off = Some n" for off n
  proof (cases "map_of (bc_entries ?c) off")
    case (Some e)
    then show ?thesis using that fl(5) [OF map_of_SomeD [OF Some]] by (simp add: fview_def split: if_splits)
  next
    case None
    then have "off \<notin> fst ` set (bc_entries ?c)" by (simp add: map_of_eq_None_iff)
    then show ?thesis using that None fl(2) f1(2) pg by (simp add: fview_def pages_kept_def split: if_splits)
  qed
  define k where "k = length (filter (\<lambda>p. ce_dirty (snd p)) (bc_entries ?c))"
  define c' where "c' = ?c\<lparr>bc_entries := map clean_entry (bc_entries ?c), bc_dirty_count := bc_dirty_count ?c - int k\<rparr>"
  have fd: "flush_dirty f1 ?c = ((k, None), f2, c')" using fl(1) fok(2) by (simp add: flush_dirty_def c'_def k_def)
  have main: "store_ok {} {} (t\<lparr>pt_file := F, pt_cache := c'\<rparr>) \<and> (\<forall>off n. view t off = Some n \<longrightarrow> page_of F off = Some n \<and> fview F c' off = Some n)"
    if F: "file_ok F" "if_page_size F = if_page_size ?f" "\<And>off n. page_off (unat (if_page_size ?f)) off \<Longrightarrow> page_of f2 off = Some n \<Longrightarrow> page_of F off = Some n" for F
  proof
    have "cache_ok {} F c'"
    proof -
      have "node_offset (ce_node e) = off \<and> page_off (unat (if_page_size F)) off \<and> entry_fits F off e" if oe: "(off, e) \<in> set (bc_entries c')" for off e
      proof -
        obtain e0 where e0: "(off, e0) \<in> set (bc_entries ?c)" "e = snd (clean_entry (off, e0))" using oe by (auto simp: c'_def clean_entry_def)
        note ce = cache_ok_entry [OF c e0(1)] and cf = clean_entry_facts(2-4) [of "(off, e0)"]
        have "page_of F off = Some (clean (ce_node e))" using F(3) fl(5) [OF e0(1)] ce(2) cf(1) e0(2) by simp
        moreover have "node_ok (if_page_size F) (ce_node e)"
          using ce(3) F(2) cf(1) e0(2) by (metis empty_iff entry_fits_def node_ok_clean snd_conv)
        ultimately show ?thesis using ce cf e0(2) F(2) by (simp add: entry_fits_def)
      qed
      then have "\<forall>(off, e) \<in> set (bc_entries c'). node_offset (ce_node e) = off \<and> page_off (unat (if_page_size F)) off \<and> (off \<notin> {} \<longrightarrow> entry_fits F off e)"
        by blast
      moreover have "bc_page_size c' = if_page_size F" "16 \<le> bc_capacity c'" "length (bc_entries c') \<le> bc_capacity c'" "distinct (map fst (bc_entries c'))"
        using c F(2) d by (simp_all add: c'_def cache_ok_def clean_entry_def o_def)
      ultimately show ?thesis using F(1) unfolding cache_ok_def by blast
    qed
    then show "store_ok {} {} (t\<lparr>pt_file := F, pt_cache := c'\<rparr>)" by (simp add: store_ok_def held_def)
    show "\<forall>off n. view t off = Some n \<longrightarrow> page_of F off = Some n \<and> fview F c' off = Some n"
    proof (intro allI impI)
      fix off n
      assume v: "view t off = Some n"
      then have po: "page_off (unat (if_page_size ?f)) off" by (simp add: fview_def split: if_splits)
      have "page_of F off = Some n" using F(3) [OF po v2 [OF v]] .
      moreover have "fview F c' off = Some n"
        using v po calculation F(2) clean_entry_facts(2) [of "(off, _)"] by (simp add: fview_def c'_def clean_entry_view split: option.splits)
      ultimately show "page_of F off = Some n \<and> fview F c' off = Some n" by blast
    qed
  qed
  let ?changed = "ih_entry_count (if_header ?f) \<noteq> pt_entry_count t"
  show ?thesis
  proof (cases "k = 0 \<and> \<not> ?changed \<and> \<not> if_pending f2")
    case True
    have "flush_tree t = (None, t\<lparr>pt_file := f2, pt_cache := c'\<rparr>)" using True fd by (simp add: flush_tree_def Let_def f1_def h_def)
    moreover have "\<not> unsynced t" using True fl(4) by (auto simp: unsynced_def k_def filter_empty_conv)
    ultimately show ?thesis using main [of f2] f2 by (auto simp: c'_def)
  next
    case False
    define F where "F = sync_file (write_header f2)"
    have "page_of F = page_of (write_header f2)" unfolding F_def by (rule page_of_cong) (simp_all add: sync_file_def)
    then have keep: "page_of F off = Some n" if "page_off (unat (if_page_size ?f)) off" "page_of f2 off = Some n" for off n
      using write_header_page [OF f2(1), of off n] that f2(2) by simp
    have Fp: "file_ok F" "if_page_size F = if_page_size ?f" "if_header F = h" "header_stored F h"
      using write_header_ok [OF f2(1)] f2(2,3) write_header_stored [OF f2(1)] by (simp_all add: F_def sync_file_def file_ok_def header_stored_def)
    have "flush_tree t = (None, t\<lparr>pt_file := F, pt_cache := c'\<rparr>)" using False fd by (auto simp: flush_tree_def Let_def f1_def h_def F_def)
    then show ?thesis using main [OF Fp(1,2) keep] Fp by (auto simp: c'_def)
  qed
qed

section \<open>Counting and opening\<close>

fun count_entries :: "nat \<Rightarrow> u64 list \<Rightarrow> u64 \<Rightarrow> persist_tree \<Rightarrow> (u64 \<times> persist_tree) option"
  and count_node :: "nat \<Rightarrow> u64 \<Rightarrow> u64 \<Rightarrow> persist_tree \<Rightarrow> (u64 \<times> persist_tree) option" where
  "count_entries d [] acc t = Some (acc, t)"
| "count_entries d (off # cs) acc t =
     (case count_node d off acc t of None \<Rightarrow> None | Some (acc1, t1) \<Rightarrow> count_entries d cs acc1 t1)"
| "count_node 0 off acc t = None"
| "count_node (Suc d) off acc t =
     (case load_node off t of
        (Inl x, t1) \<Rightarrow> Some (acc, t1)
      | (Inr n, t1) \<Rightarrow>
          if is_leaf n then Some (acc + word_of_nat (length (node_keys n)), t1)
          else count_entries d (node_children n) acc t1)"

definition count_entries_in_tree :: "nat \<Rightarrow> persist_tree \<Rightarrow> (u64 \<times> persist_tree) option" where
  "count_entries_in_tree d t = (if pt_root t = 0 then Some (0, t) else count_node d (pt_root t) 0 t)"

definition open_btree :: "nat \<Rightarrow> index_file \<Rightarrow> btree_cache \<Rightarrow> persist_tree result option" where
  "open_btree d f c =
     (let t = \<lparr>pt_file = f, pt_cache = c, pt_root = ih_root (if_header f), pt_entry_count = ih_entry_count (if_header f)\<rparr>
      in if pt_root t = 0
         then let (off, t1) = alloc_node t;
                  root = \<lparr>node_type = node_type_leaf, node_offset = off, node_keys = [], node_values = [], node_children = [],
                          node_next = 0, node_prev = 0, node_dirty = True\<rparr>
           in case put_node root t1 of
                (Some x, t2) \<Rightarrow> Some (Inl x)
              | (None, t2) \<Rightarrow>
                  (case flush_tree t2 of
                     (Some x, t3) \<Rightarrow> Some (Inl x)
                   | (None, t3) \<Rightarrow>
                       Some (Inr (t3\<lparr>pt_root := off, pt_file := write_header ((pt_file t3)\<lparr>if_header := (if_header (pt_file t3))\<lparr>ih_root := off\<rparr>\<rparr>)\<rparr>)))
         else if sint (pt_root t) \<ge> int (length (if_bytes f)) then Some (Inl (Err ''index file corrupted: root offset exceeds file size''))
         else if ih_node_count (if_header f) > 0
         then (case count_entries_in_tree d t of
                 None \<Rightarrow> None
               | Some (n, t1) \<Rightarrow> Some (Inr (t1\<lparr>pt_entry_count := n\<rparr>)))
         else Some (Inr t))"

text \<open>Counting a tree: fuel for its height is enough, and the count is the number of its entries.\<close>

definition readable :: "nat \<Rightarrow> nat \<Rightarrow> tree \<Rightarrow> persist_tree \<Rightarrow> bool" where
  "readable h ps X t \<longleftrightarrow> tree_at (view t) X \<and> (\<exists>e. good e ps h X) \<and> (\<forall>a \<in> set (offs X). page_off ps a)"

lemma readable_le: "readable h ps X t \<Longrightarrow> view t \<subseteq>\<^sub>m view t' \<Longrightarrow> readable h ps X t'"
  by (auto simp: readable_def intro: tree_at_le)

definition counted :: "nat \<Rightarrow> u64 \<Rightarrow> persist_tree \<Rightarrow> (u64 \<times> persist_tree) option \<Rightarrow> bool" where
  "counted n acc t r \<longleftrightarrow> (\<exists>t'. r = Some (acc + word_of_nat n, t') \<and> store_ok {} {} t' \<and> same_tree t t' \<and> view t \<subseteq>\<^sub>m view t')"

lemma count_children:
  assumes "\<And>x t acc. x \<in> set ts \<Longrightarrow> store_ok {} {} t \<Longrightarrow> readable h (unat (pt_page_size t)) x t \<Longrightarrow> 1 \<le> pt_capacity t \<Longrightarrow>
      counted (length (entries x)) acc t (count_node d (toff x) acc t)"
    "store_ok {} {} t" "\<forall>x \<in> set ts. readable h (unat (pt_page_size t)) x t" "1 \<le> pt_capacity t"
  shows "counted (length (concat (map entries ts))) acc t (count_entries d (map toff ts) acc t)"
  using assms
proof (induction ts arbitrary: t acc)
  case (Cons x ts)
  obtain t1 where c: "count_node d (toff x) acc t = Some (acc + word_of_nat (length (entries x)), t1)" "store_ok {} {} t1" "same_tree t t1" "view t \<subseteq>\<^sub>m view t1"
    using Cons.prems(1) [of x t acc] Cons.prems(2-4) by (auto simp: counted_def)
  note sd = same_treeD [OF c(3)]
  have "counted (length (concat (map entries ts))) (acc + word_of_nat (length (entries x))) t1
      (count_entries d (map toff ts) (acc + word_of_nat (length (entries x))) t1)"
    by (rule Cons.IH) (use Cons.prems c sd readable_le [OF _ c(4)] in auto)
  then obtain t2 where "count_entries d (map toff ts) (acc + word_of_nat (length (entries x))) t1 =
      Some (acc + word_of_nat (length (entries x)) + word_of_nat (length (concat (map entries ts))), t2)"
    "store_ok {} {} t2" "same_tree t1 t2" "view t1 \<subseteq>\<^sub>m view t2" unfolding counted_def by blast
  then show ?case using c same_tree_trans [OF c(3)] map_le_trans [OF c(4)] by (simp add: counted_def add.assoc)
qed (simp add: counted_def map_le_def)

lemma load_root_ok:
  assumes "store_ok {} {} t" "readable h (unat (pt_page_size t)) X t" "1 \<le> pt_capacity t"
  shows "\<exists>n t'. load_node (toff X) t = (Inr n, t') \<and> view t (toff X) = Some (clean n) \<and> store_ok {} {} t' \<and> same_tree t t' \<and> view t \<subseteq>\<^sub>m view t'"
proof -
  obtain e where r: "tree_at (view t) X" "good e (unat (pt_page_size t)) h X" "page_off (unat (pt_page_size t)) (toff X)"
    using assms(2) by (auto simp: readable_def)
  obtain n where n: "view t (toff X) = Some n" "node_ok (pt_page_size t) n" by (rule tree_root_ok [OF r])
  from load_ok [OF assms(1) n] assms(3) n(1) show ?thesis by (auto dest: store_ok_release)
qed

lemma count_node_ok:
  "store_ok {} {} t \<Longrightarrow> readable h (unat (pt_page_size t)) X t \<Longrightarrow> 1 \<le> pt_capacity t \<Longrightarrow> h < d \<Longrightarrow>
   counted (length (entries X)) acc t (count_node d (toff X) acc t)"
proof (induction h arbitrary: X t acc d)
  case 0
  obtain d' where d: "d = Suc d'" using "0.prems"(4) by (cases d) auto
  obtain a es where X: "X = Lf a es" using "0.prems"(2) by (cases X) (auto simp: readable_def)
  obtain n t' where l: "load_node a t = (Inr n, t')" "view t a = Some (clean n)" "store_ok {} {} t'" "same_tree t t'" "view t \<subseteq>\<^sub>m view t'"
    using load_root_ok [OF "0.prems"(1-3)] by (auto simp: X)
  obtain nx pv where "clean n = leaf_node a es nx pv" using "0.prems"(2) l(2) by (auto simp: readable_def X)
  note nf = clean_fields(1,8) [OF this, simplified]
  then show ?case using l by (simp add: X d counted_def)
next
  case (Suc h)
  obtain d' where d: "d = Suc d'" "h < d'" using Suc.prems(4) by (cases d) auto
  obtain a ks ts where X: "X = Nd a ks ts" using Suc.prems(2) by (cases X) (auto simp: readable_def)
  obtain n t' where l: "load_node a t = (Inr n, t')" "view t a = Some (clean n)" "store_ok {} {} t'" "same_tree t t'" "view t \<subseteq>\<^sub>m view t'"
    using load_root_ok [OF Suc.prems(1-3)] by (auto simp: X)
  have "clean n = int_node a ks (map toff ts)" using Suc.prems(2) l(2) by (simp add: readable_def X)
  note nf = clean_fields(3,8) [OF this, simplified]
  note sd = same_treeD [OF l(4)]
  have "readable h (unat (pt_page_size t')) x t'" if "x \<in> set ts" for x
  proof (rule readable_le [OF _ l(5)])
    show "readable h (unat (pt_page_size t')) x t" using Suc.prems(2) that sd(1) by (auto simp: readable_def X)
  qed
  then have "counted (length (concat (map entries ts))) acc t' (count_entries d' (map toff ts) acc t')"
    using Suc.IH [OF _ _ _ d(2)] l(3) sd(2) Suc.prems(3) by (intro count_children [where h = h]) auto
  then obtain t2 where "count_entries d' (map toff ts) acc t' = Some (acc + word_of_nat (length (concat (map entries ts))), t2)"
    "store_ok {} {} t2" "same_tree t' t2" "view t' \<subseteq>\<^sub>m view t2" unfolding counted_def by blast
  then show ?case using l(1) nf same_tree_trans [OF l(4)] map_le_trans [OF l(5)] by (simp add: X d(1) counted_def)
qed

section \<open>Reopening\<close>

lemma new_cache_ok:
  assumes "file_ok f" "bc_page_size c = if_page_size f" "16 \<le> bc_capacity c" "bc_entries c = []"
  shows "cache_ok {} f c" "held {} c" "page_off (unat (if_page_size f)) off \<Longrightarrow> fview f c off = page_of f off"
  using assms by (simp_all add: cache_ok_def held_def fview_def)

text \<open>
  A flushed tree is opened again from the bytes of its file, with an empty cache: it is the same tree, with the number of
  its entries counted.
\<close>

lemma open_flushed_ok:
  assumes fok: "file_ok (pt_file t)" and ho: "hole_ok V (unat (pt_page_size t)) (tree_lim t) s h [] [T] []" and root: "pt_root t = toff T"
    and hd: "header_ok ty t" "header_stored (pt_file t) (if_header (pt_file t))"
    and pages: "\<And>off n. V off = Some n \<Longrightarrow> page_off (unat (pt_page_size t)) off \<and> page_of (pt_file t) off = Some n"
    and c: "bc_page_size c = pt_page_size t" "16 \<le> bc_capacity c" "bc_entries c = []" and d: "h < d"
  shows "\<exists>f t'. open_index_file (Some (if_bytes (pt_file t))) ty (pt_page_size t) create = Inr f \<and> open_btree d f c = Some (Inr t') \<and> pt_page_size t' = pt_page_size t \<and>
    pt_inv s h T t' \<and> pt_entry_count t' = word_of_nat (length (entries T)) \<and> header_ok ty t' \<and> pt_capacity t' = bc_capacity c \<and> tree_lim t' = tree_lim t \<and> if_page_size f = pt_page_size t"
proof -
  have h: "ih_magic (if_header (pt_file t)) = index_magic" "ih_version (if_header (pt_file t)) = index_version" "ih_page_size (if_header (pt_file t)) = pt_page_size t"
    "ih_type (if_header (pt_file t)) = ty" "ih_root (if_header (pt_file t)) = toff T" using hd(1) root by (simp_all add: header_ok_def)
  obtain f where f: "open_index_file (Some (if_bytes (pt_file t))) ty (pt_page_size t) create = Inr f" "file_ok f" "if_header f = if_header (pt_file t)"
    "if_page_size f = pt_page_size t" "page_of f = page_of (pt_file t)"
    using open_index_file_written [OF fok hd(2) h(1-4)] by blast
  define t0 where "t0 = \<lparr>pt_file = f, pt_cache = c, pt_root = ih_root (if_header f), pt_entry_count = ih_entry_count (if_header f)\<rparr>"
  have t0: "pt_file t0 = f" "pt_cache t0 = c" "pt_root t0 = toff T" "tree_lim t0 = tree_lim t" by (simp_all add: t0_def f(3,4) h(5) tree_lim_def)
  note nc = new_cache_ok [OF f(2) _ c(2,3)]
  have v0: "V \<subseteq>\<^sub>m view t0" using pages nc(3) c(1) f(4,5) by (intro map_leI) (simp add: t0)
  have st0: "store_ok {} {} t0" using nc(1,2) c(1) f(4) by (simp add: store_ok_def t0)
  have inv0: "pt_inv s h T t0" using st0 hole_ok_le [OF ho v0] t0 f(4) by (simp add: pt_inv_def)
  then have ho0: "tree_at (view t0) T" "good True (unat (pt_page_size t0)) h T" "\<forall>a \<in> set (offs T). page_off (unat (pt_page_size t0)) a"
    by (simp_all add: pt_inv_def hole_ok_def hole_offs_def offs_ok_def)
  then have rd: "readable h (unat (pt_page_size t0)) T t0" by (auto simp: readable_def)
  have po: "page_off (unat (if_page_size f)) (toff T)" using ho0(3) by (simp add: t0)
  have "0 < unat (if_page_size f)" using page_size_cases [OF f(2)] by auto
  then have rz: "unat (toff T) \<noteq> 0" using po by (auto simp: page_off_def)
  have "sint (toff T) < int (length (if_bytes f))"
  proof -
    obtain n where "V (toff T) = Some n" using ho by (cases T) (auto simp: hole_ok_def)
    then have "page_of f (toff T) \<noteq> None" using pages f(5) by auto
    then obtain buf where "read_node_page (toff T) f = Inr buf" by (auto simp: page_of_def split: sum.splits)
    then have "unat (toff T) < length (if_bytes f)" using read_node_page_eq [OF f(2) po] \<open>0 < unat (if_page_size f)\<close> by auto
    then show ?thesis using page_off_sint [OF po] by linarith
  qed
  moreover have "toff T \<noteq> 0" using rz by auto
  moreover have nz: "ih_node_count (if_header (pt_file t)) > 0"
  proof (rule ccontr)
    assume "\<not> ih_node_count (if_header (pt_file t)) > 0"
    then have "tree_lim t = unat (pt_page_size t)" by (simp add: tree_lim_def word_gt_0)
    moreover have "unat (toff T) < tree_lim t" using ho by (simp add: hole_ok_def offs_ok_def hole_offs_def)
    ultimately show False using po f(4) by (simp add: page_off_def)
  qed
  moreover have "counted (length (entries T)) 0 t0 (count_node d (toff T) 0 t0)"
    by (rule count_node_ok [OF st0 rd _ d]) (use c(2) t0(2) in simp)
  then obtain t1 where cn: "count_node d (toff T) 0 t0 = Some (word_of_nat (length (entries T)), t1)" "store_ok {} {} t1" "same_tree t0 t1" "view t0 \<subseteq>\<^sub>m view t1"
    by (auto simp: counted_def)
  ultimately have "open_btree d f c = Some (Inr (t1\<lparr>pt_entry_count := word_of_nat (length (entries T))\<rparr>))"
    using t0(3) f(3) unfolding open_btree_def Let_def t0_def [symmetric] by (simp add: count_entries_in_tree_def)
  moreover have "pt_inv s h T t1" by (rule pt_inv_same [OF inv0 cn(3,4,2)])
  moreover have "header_ok ty t1" using same_treeD [OF cn(3)] h f(3,4) t0 by (simp add: header_ok_def)
  moreover have "pt_page_size t1 = pt_page_size t" "pt_capacity t1 = bc_capacity c" "tree_lim t1 = tree_lim t"
    using same_treeD [OF cn(3)] same_tree_lim [OF cn(3)] t0 f(4) by simp_all
  ultimately show ?thesis using f(1,4)
    by (intro exI [of _ f] exI [of _ "t1\<lparr>pt_entry_count := word_of_nat (length (entries T))\<rparr>"]) (simp add: pt_inv_def header_ok_def store_ok_def tree_lim_def)
qed

text \<open>Opening an index whose file does not exist: an empty tree, in the file and in the cache.\<close>

lemma header_set_ok:
  "store_ok X H (t\<lparr>pt_file := (pt_file t)\<lparr>if_header := h\<rparr>\<rparr>) = store_ok X H t" "view (t\<lparr>pt_file := (pt_file t)\<lparr>if_header := h\<rparr>\<rparr>) = view t"
proof -
  have p: "page_of ((pt_file t)\<lparr>if_header := h\<rparr>) = page_of (pt_file t)" by (rule page_of_cong) simp_all
  show "store_ok X H (t\<lparr>pt_file := (pt_file t)\<lparr>if_header := h\<rparr>\<rparr>) = store_ok X H t" by (simp add: store_ok_def cache_ok_def entry_fits_def file_ok_def p)
  show "view (t\<lparr>pt_file := (pt_file t)\<lparr>if_header := h\<rparr>\<rparr>) = view t" by (intro ext) (simp add: fview_def p split: option.split)
qed

lemma write_root_ok:
  fixes r :: u64
  assumes "store_ok {} {} t"
  defines "t' \<equiv> t\<lparr>pt_root := r, pt_file := write_header ((pt_file t)\<lparr>if_header := (if_header (pt_file t))\<lparr>ih_root := r\<rparr>\<rparr>)\<rparr>"
  shows "store_ok {} {} t'" "view t \<subseteq>\<^sub>m view t'" "header_stored (pt_file t') (if_header (pt_file t'))"
proof -
  let ?h = "(if_header (pt_file t))\<lparr>ih_root := r\<rparr>" and ?t = "t\<lparr>pt_file := (pt_file t)\<lparr>if_header := (if_header (pt_file t))\<lparr>ih_root := r\<rparr>\<rparr>\<rparr>"
  have s: "store_ok {} {} ?t" "view ?t = view t" using header_set_ok [where t = t and h = ?h] assms(1) by simp_all
  have e: "?t\<lparr>pt_file := (write_header (pt_file ?t))\<lparr>if_header := ?h\<rparr>, pt_root := r\<rparr> = t'"
    unfolding t'_def write_header_def Let_def by simp
  note w = write_header_store_ok [OF s(1), where h = ?h and x = r, unfolded e s(2)]
  show "store_ok {} {} t'" "view t \<subseteq>\<^sub>m view t'" using w by blast+
  have "file_ok ((pt_file t)\<lparr>if_header := ?h\<rparr>)" using assms(1) by (simp add: store_ok_def cache_ok_def file_ok_def)
  from write_header_stored [OF this] show "header_stored (pt_file t') (if_header (pt_file t'))" by (simp add: t'_def)
qed

lemma create_index_file:
  assumes "ps \<in> {4096, 8192, 16384}"
  obtains f where "open_index_file None ty ps True = Inr f" "file_ok f" "if_page_size f = ps"
    "if_header f = \<lparr>ih_magic = index_magic, ih_type = ty, ih_version = index_version, ih_root = 0, ih_node_count = 0, ih_page_size = ps,
       ih_format = index_header_format, ih_entry_count = 0\<rparr>"
proof -
  define h where "h = \<lparr>ih_magic = index_magic, ih_type = ty, ih_version = index_version, ih_root = 0, ih_node_count = 0, ih_page_size = ps,
       ih_format = index_header_format, ih_entry_count = 0\<rparr>"
  define f0 where "f0 = \<lparr>if_bytes = [], if_page_size = ps, if_header = h, if_size = 0, if_pending = False\<rparr>"
  have ok: "file_ok f0" using assms by (simp add: f0_def file_ok_def)
  let ?f = "(write_header f0)\<lparr>if_size := unat ps\<rparr>"
  have "open_index_file None ty ps True = Inr ?f" using assms by (simp add: open_index_file_def Let_def f0_def h_def)
  moreover have "file_ok ?f" using write_header_ok [OF ok] header_page_length [OF ok] by (simp add: file_ok_def write_header_def Let_def f0_def)
  moreover have "if_page_size ?f = ps" "if_header ?f = h" by (simp_all add: f0_def)
  ultimately show thesis using that unfolding h_def by blast
qed

lemma open_new_ok:
  assumes ps: "ps \<in> {4096, 8192, 16384}" and c: "bc_page_size c = ps" "16 \<le> bc_capacity c" "bc_entries c = []"
  shows "\<exists>f t. open_index_file None ty ps True = Inr f \<and> open_btree d f c = Some (Inr t) \<and> pt_inv s 0 (Lf (ucast ps) []) t \<and>
    header_ok ty t \<and> pt_entry_count t = 0 \<and> pt_page_size t = ps \<and> pt_capacity t = bc_capacity c \<and> tree_lim t = 2 * unat ps \<and> unsynced t"
proof -
  obtain f where f: "open_index_file None ty ps True = Inr f" "file_ok f" "if_page_size f = ps"
    "if_header f = \<lparr>ih_magic = index_magic, ih_type = ty, ih_version = index_version, ih_root = 0, ih_node_count = 0, ih_page_size = ps,
       ih_format = index_header_format, ih_entry_count = 0\<rparr>" by (rule create_index_file [OF ps])
  define t0 where "t0 = \<lparr>pt_file = f, pt_cache = c, pt_root = ih_root (if_header f), pt_entry_count = ih_entry_count (if_header f)\<rparr>"
  have st0: "store_ok {} {} t0" using new_cache_ok(1,2) [OF f(2) _ c(2,3)] c(1) f(3) by (simp add: store_ok_def t0_def)
  have t0: "pt_file t0 = f" "pt_cache t0 = c" "pt_root t0 = 0" "pt_entry_count t0 = 0" "tree_lim t0 = unat ps" by (simp_all add: t0_def f(3,4) tree_lim_def)
  obtain r t1 where al: "alloc_node t0 = (r, t1)" by fastforce
  have pr: "4096 \<le> unat ps" "unat ps \<le> 16384" using ps by auto
  have fok: "file_ok (pt_file t0)" and lim: "tree_lim t0 + unat (pt_page_size t0) < 2 ^ 63" using f(2,3) t0 pr by simp_all
  note al1 = alloc_ok [OF al fok lim] and al2 = alloc_node_ok [OF al]
  have r: "r = ucast ps" "page_off (unat ps) r" "tree_lim t1 = 2 * unat ps" using al1 al2(1) t0 f(3,4) by simp_all
  define root where "root = \<lparr>node_type = node_type_leaf, node_offset = r, node_keys = [], node_values = [], node_children = [],
                          node_next = 0, node_prev = 0, node_dirty = True\<rparr>"
  have R: "clean root = leaf_node r [] 0 0" "node_offset root = r" "node_dirty root" by (simp_all add: root_def leaf_node_def)
  have "node_ok ps (clean root)" unfolding R(1) by (rule node_ok_leaf [OF r(2)]) (use pr in simp)
  then have rok: "node_ok (pt_page_size t1) root" using al2(4) t0(1) f(3) by simp
  have st1: "store_ok {} {} t1" "card (insert (node_offset root) {}) \<le> pt_capacity t1" using st0 al2(2,5) c(2) t0(2) by simp_all
  from put_node_ok [OF st1(1) rok R(3) st1(2), unfolded R(2)] obtain t2 where
    t2: "put_node root t1 = (None, t2)" "store_ok {} {r} t2" "same_tree t1 t2" "(view t1)(r \<mapsto> clean root) \<subseteq>\<^sub>m view t2" by auto
  note sd = same_treeD [OF t2(3)]
  obtain t3 where t3: "flush_tree t2 = (None, t3)" "store_ok {} {} t3" "\<And>off n. view t2 off = Some n \<Longrightarrow> view t3 off = Some n"
    "pt_page_size t3 = pt_page_size t2" "pt_capacity t3 = pt_capacity t2" "pt_entry_count t3 = pt_entry_count t2"
    "if_header (pt_file t3) = (if_header (pt_file t2))\<lparr>ih_entry_count := pt_entry_count t2\<rparr>"
    using flush_tree_ok [OF store_ok_release [OF t2(2)]] by blast
  define t4 where "t4 = t3\<lparr>pt_root := r, pt_file := write_header ((pt_file t3)\<lparr>if_header := (if_header (pt_file t3))\<lparr>ih_root := r\<rparr>\<rparr>)\<rparr>"
  note w = write_root_ok [OF t3(2), of r, folded t4_def]
  have "open_btree d f c = Some (Inr t4)"
    unfolding open_btree_def Let_def t0_def [symmetric] using t0(3) al t2(1) t3(1) by (simp add: root_def t4_def)
  moreover have m: "pt_page_size t4 = ps" "pt_capacity t4 = bc_capacity c" "pt_entry_count t4 = 0" "tree_lim t4 = 2 * unat ps" "pt_root t4 = r" "header_ok ty t4" "unsynced t4"
    using t3(4-7) sd al2 t0 f(3,4) r(3) same_tree_lim [OF t2(3)] by (simp_all add: t4_def tree_lim_def header_ok_def unsynced_def)
  moreover have "view t4 r = Some (leaf_node r [] 0 0)" using map_leD [OF w(2)] t3(3) map_leD [OF t2(4), of r] R(1) by simp
  then have "pt_inv s 0 (Lf r []) t4"
    using w(1) m r(2) pr al1(1) t0(5) by (auto simp: pt_inv_def hole_ok_def hole_offs_def hole_leaves_def hole_items_def items_ok_def offs_ok_def)
  ultimately show ?thesis using f(1) r(1) by blast
qed

end
