(* ===== verification/Tree_Iterator.thy ===== *)
theory Tree_Iterator
  imports Tree_Insert
begin

text \<open>
  Range scans over the chain of leaves: \<open>rangeIter\<close> and \<open>btreeIterator\<close> of \<open>src/index/persist_tree.go\<close>.
  A bound that is nil is None; as a search key it is the empty key. The iterator reads the keys and
  values of its snapshot. The context is asked once, at the beginning; the tree does
  not change while it is scanned.

  Result: over a tree with distinct keys an ascending scan yields exactly the entries from the lower to the
  upper bound, both included, in the order of their keys, and then ends.
\<close>

section \<open>The iterator\<close>

record bt_iter =
  bi_node :: btree_node
  bi_index :: int
  bi_min :: "bytes option"
  bi_max :: "bytes option"
  bi_desc :: bool
  bi_valid :: bool
  bi_next_seen :: "u64 \<Rightarrow> nat"
  bi_prev_seen :: "u64 \<Rightarrow> nat"
  bi_no_progress :: nat
  bi_keys :: "bytes list"
  bi_values :: "location list"

definition update_snapshot :: "bt_iter \<Rightarrow> bt_iter" where
  "update_snapshot it = it\<lparr>bi_keys := node_keys (bi_node it), bi_values := node_values (bi_node it)\<rparr>"

definition bi_is_valid :: "bt_iter \<Rightarrow> bool" where
  "bi_is_valid it \<longleftrightarrow> bi_valid it \<and> 0 \<le> bi_index it \<and> bi_index it < int (length (bi_keys it)) \<and>
     (is_leaf (bi_node it) \<longrightarrow> length (bi_keys it) = length (bi_values it))"

definition zero_loc :: location where
  "zero_loc = \<lparr>segment_id = 0, loc_offset = 0\<rparr>"

definition bi_key :: "bt_iter \<Rightarrow> bytes" where
  "bi_key it = (if bi_is_valid it then bi_keys it ! nat (bi_index it) else [])"

definition bi_value :: "bt_iter \<Rightarrow> location" where
  "bi_value it = (if bi_is_valid it then bi_values it ! nat (bi_index it) else zero_loc)"

definition key_below :: "bytes \<Rightarrow> bytes option \<Rightarrow> bool" where
  "key_below key mn \<longleftrightarrow> (case mn of None \<Rightarrow> False | Some m \<Rightarrow> bytes_compare key m < 0)"

definition key_above :: "bytes \<Rightarrow> bytes option \<Rightarrow> bool" where
  "key_above key mx \<longleftrightarrow> (case mx of None \<Rightarrow> False | Some m \<Rightarrow> bytes_compare key m > 0)"

definition same_position :: "bytes \<Rightarrow> bytes \<Rightarrow> location \<Rightarrow> location \<Rightarrow> bool" where
  "same_position pk ck pl cl \<longleftrightarrow> pk \<noteq> [] \<and> ck \<noteq> [] \<and> bytes_compare pk ck = 0 \<and> segment_id pl = segment_id cl \<and> loc_offset pl = loc_offset cl"

text \<open>One step, in either direction: within the leaf, or to the neighbour.\<close>

definition next_once :: "bt_iter \<Rightarrow> persist_tree \<Rightarrow> (go_error option \<times> bt_iter) \<times> persist_tree" where
  "next_once it t =
     (if \<not> bi_is_valid it then ((None, it\<lparr>bi_no_progress := 0\<rparr>), t)
      else if \<not> bi_desc it
      then let it1 = it\<lparr>bi_index := bi_index it + 1\<rparr>
        in if bi_index it1 < int (length (bi_keys it1))
           then (if key_above (bi_keys it1 ! nat (bi_index it1)) (bi_max it1)
                 then ((None, it1\<lparr>bi_valid := False, bi_no_progress := 0\<rparr>), t)
                 else ((None, it1\<lparr>bi_valid := True\<rparr>), t))
           else let nx = node_next (bi_node it1)
             in if nx \<noteq> 0
                then let it2 = it1\<lparr>bi_next_seen := (bi_next_seen it1)(nx := bi_next_seen it1 nx + 1)\<rparr>
                  in if bi_next_seen it2 nx > 2 then ((None, it2\<lparr>bi_valid := False\<rparr>), t)
                     else case load_node nx t of
                       (Inl x, t1) \<Rightarrow> ((Some x, it2\<lparr>bi_valid := False\<rparr>), t1)
                     | (Inr n, t1) \<Rightarrow>
                         let it3 = update_snapshot (it2\<lparr>bi_node := n, bi_index := 0\<rparr>)
                         in if bi_keys it3 \<noteq> []
                            then (if key_above (bi_keys it3 ! 0) (bi_max it3)
                                  then ((None, it3\<lparr>bi_valid := False, bi_no_progress := 0\<rparr>), t1)
                                  else ((None, it3\<lparr>bi_valid := True\<rparr>), t1))
                            else ((None, it3\<lparr>bi_valid := False, bi_no_progress := 0\<rparr>), t1)
                else ((None, it1\<lparr>bi_valid := False, bi_no_progress := 0\<rparr>), t)
      else let it1 = it\<lparr>bi_index := bi_index it - 1\<rparr>
        in if bi_index it1 \<ge> 0
           then (if key_below (bi_keys it1 ! nat (bi_index it1)) (bi_min it1)
                 then ((None, it1\<lparr>bi_valid := False, bi_no_progress := 0\<rparr>), t)
                 else ((None, it1\<lparr>bi_valid := True\<rparr>), t))
           else let pv = node_prev (bi_node it1)
             in if pv \<noteq> 0
                then let it2 = it1\<lparr>bi_prev_seen := (bi_prev_seen it1)(pv := bi_prev_seen it1 pv + 1)\<rparr>
                  in if bi_prev_seen it2 pv > 2 then ((None, it2\<lparr>bi_valid := False\<rparr>), t)
                     else case load_node pv t of
                       (Inl x, t1) \<Rightarrow> ((Some x, it2\<lparr>bi_valid := False\<rparr>), t1)
                     | (Inr n, t1) \<Rightarrow>
                         let it3 = update_snapshot (it2\<lparr>bi_node := n, bi_index := int (length (node_keys n)) - 1\<rparr>)
                         in if bi_keys it3 \<noteq> []
                            then (if key_below (bi_keys it3 ! nat (bi_index it3)) (bi_min it3)
                                  then ((None, it3\<lparr>bi_valid := False, bi_no_progress := 0\<rparr>), t1)
                                  else ((None, it3\<lparr>bi_valid := True\<rparr>), t1))
                            else ((None, it3\<lparr>bi_valid := False, bi_no_progress := 0\<rparr>), t1)
                else ((None, it1\<lparr>bi_valid := False, bi_no_progress := 0\<rparr>), t))"

fun next_steps :: "nat \<Rightarrow> bytes \<Rightarrow> location \<Rightarrow> bt_iter \<Rightarrow> persist_tree \<Rightarrow> (go_error option \<times> bt_iter) \<times> persist_tree" where
  "next_steps 0 pk pl it t = ((None, it\<lparr>bi_valid := False, bi_no_progress := 0\<rparr>), t)"
| "next_steps (Suc k) pk pl it t =
     (case next_once it t of
        ((Some x, it1), t1) \<Rightarrow> ((Some x, it1), t1)
      | ((None, it1), t1) \<Rightarrow>
          if \<not> bi_is_valid it1 \<or> \<not> same_position pk (bi_key it1) pl (bi_value it1) then ((None, it1\<lparr>bi_no_progress := 0\<rparr>), t1)
          else next_steps k pk pl (it1\<lparr>bi_no_progress := bi_no_progress it1 + 1\<rparr>) t1)"

definition bi_next :: "bt_iter \<Rightarrow> persist_tree \<Rightarrow> (go_error option \<times> bt_iter) \<times> persist_tree" where
  "bi_next it t =
     (if \<not> bi_is_valid it then ((None, it\<lparr>bi_no_progress := 0\<rparr>), t)
      else next_steps 16 (bi_key it) (bi_value it) it t)"

definition bi_prev :: "bt_iter \<Rightarrow> persist_tree \<Rightarrow> (go_error option \<times> bt_iter) \<times> persist_tree" where
  "bi_prev it t = (if \<not> bi_is_valid it \<or> \<not> bi_desc it then ((None, it), t) else
     case next_once it t of ((x, it1), t1) \<Rightarrow> ((x, it1\<lparr>bi_no_progress := bi_no_progress it\<rparr>), t1))"

text \<open>Finding the first entry in range; at most 10000 rounds.\<close>

fun advance_asc :: "nat \<Rightarrow> (u64 \<Rightarrow> nat) \<Rightarrow> bt_iter \<Rightarrow> persist_tree \<Rightarrow> bt_iter \<times> persist_tree" where
  "advance_asc 0 seen it t = (it\<lparr>bi_valid := False\<rparr>, t)"
| "advance_asc (Suc k) seen it t =
     (let n = bi_node it; i = bi_index it
      in if i < 0 \<or> i \<ge> int (length (node_keys n))
         then let nx = node_next n; seen1 = seen(nx := seen nx + 1)
           in if nx = 0 \<or> seen1 nx > 2 then (it\<lparr>bi_valid := False\<rparr>, t)
              else case load_node nx t of
                (Inl x, t1) \<Rightarrow> (it\<lparr>bi_valid := False\<rparr>, t1)
              | (Inr m, t1) \<Rightarrow> advance_asc k seen1 (it\<lparr>bi_node := m, bi_index := 0\<rparr>) t1
         else if is_leaf n \<and> length (node_keys n) \<noteq> length (node_values n) then (it\<lparr>bi_valid := False\<rparr>, t)
         else let key = node_keys n ! nat i
           in if key_below key (bi_min it) then advance_asc k seen (it\<lparr>bi_index := i + 1\<rparr>) t
              else (it\<lparr>bi_valid := \<not> key_above key (bi_max it)\<rparr>, t))"

definition point_query :: "bt_iter \<Rightarrow> bool" where
  "point_query it \<longleftrightarrow> (case bi_min it of None \<Rightarrow> False | Some m \<Rightarrow> bytes_compare m (case bi_max it of None \<Rightarrow> [] | Some x \<Rightarrow> x) = 0)"

fun advance_desc :: "nat \<Rightarrow> nat \<Rightarrow> (u64 \<Rightarrow> nat) \<Rightarrow> bt_iter \<Rightarrow> persist_tree \<Rightarrow> bt_iter \<times> persist_tree" where
  "advance_desc 0 skip seen it t = (it\<lparr>bi_valid := False\<rparr>, t)"
| "advance_desc (Suc k) skip seen it t =
     (let n = bi_node it; i = bi_index it
      in if i < 0 \<or> i \<ge> int (length (node_keys n))
         then let pv = node_prev n; seen1 = seen(pv := seen pv + 1)
           in if skip > 100 \<and> point_query it \<or> pv = 0 \<or> seen1 pv > 2 then (it\<lparr>bi_valid := False\<rparr>, t)
              else case load_node pv t of
                (Inl x, t1) \<Rightarrow> (it\<lparr>bi_valid := False\<rparr>, t1)
              | (Inr m, t1) \<Rightarrow>
                  let it1 = it\<lparr>bi_node := m, bi_index := int (length (node_keys m)) - 1\<rparr>
                  in if node_keys m \<noteq> [] \<and> key_below (last (node_keys m)) (bi_min it) then (it1\<lparr>bi_valid := False\<rparr>, t1)
                     else if node_keys m \<noteq> [] \<and> key_above (hd (node_keys m)) (bi_max it)
                     then advance_desc k (skip + 1) seen1 (it1\<lparr>bi_index := - 1\<rparr>) t1
                     else advance_desc k skip seen1 it1 t1
         else if is_leaf n \<and> length (node_keys n) \<noteq> length (node_values n) then (it\<lparr>bi_valid := False\<rparr>, t)
         else let key = node_keys n ! nat i
           in if key_above key (bi_max it)
              then if skip + 1 > 10 \<and> point_query it
                   then let g = go_search (\<lambda>j. key_above (node_keys n ! j) (bi_max it)) 0 (nat i + 1)
                     in if g > 0
                        then (if \<not> key_above (node_keys n ! (g - 1)) (bi_max it) \<and> \<not> key_below (node_keys n ! (g - 1)) (bi_min it)
                              then (it\<lparr>bi_index := int g - 1, bi_valid := True\<rparr>, t)
                              else advance_desc k 0 seen (it\<lparr>bi_index := int g - 2\<rparr>) t)
                        else advance_desc k (skip + 1) seen (it\<lparr>bi_index := - 1\<rparr>) t
                   else advance_desc k (skip + 1) seen (it\<lparr>bi_index := i - 1\<rparr>) t
              else (it\<lparr>bi_valid := \<not> key_below key (bi_min it)\<rparr>, t))"

definition advance :: "bt_iter \<Rightarrow> persist_tree \<Rightarrow> bt_iter \<times> persist_tree" where
  "advance it t =
     (if bi_desc it then advance_desc 10000 0 (\<lambda>_. 0) it t else advance_asc 10000 (\<lambda>_. 0) it t)"

definition range_iter :: "go_error option \<Rightarrow> bytes option \<Rightarrow> bytes option \<Rightarrow> bool \<Rightarrow> persist_tree \<Rightarrow> bt_iter result \<times> persist_tree" where
  "range_iter ctx mn mx desc t =
     (case ctx of
        Some e \<Rightarrow> (Inl e, t)
      | None \<Rightarrow>
          let mnk = (case mn of None \<Rightarrow> [] | Some k \<Rightarrow> k); mxk = (case mx of None \<Rightarrow> [] | Some k \<Rightarrow> k); key = (if desc then mxk else mnk)
          in case find_leaf key t of
               (Inl x, t1) \<Rightarrow> (Inl x, t1)
             | (Inr (node, _), t1) \<Rightarrow>
                 let i = int (lower_bound (node_keys node) key);
                     it = \<lparr>bi_node = node, bi_index = (if desc then i - 1 else i), bi_min = mn, bi_max = mx, bi_desc = desc,
                           bi_valid = False, bi_next_seen = (\<lambda>_. 0), bi_prev_seen = (\<lambda>_. 0), bi_no_progress = 0,
                           bi_keys = [], bi_values = []\<rparr>
                 in case advance it t1 of (it1, t2) \<Rightarrow> (Inr (update_snapshot it1), t2))"

text \<open>A client's loop: take the entry, go to the next one, until the iterator ends; None when it has not ended after so many steps.\<close>

fun iter_collect :: "nat \<Rightarrow> bt_iter \<Rightarrow> persist_tree \<Rightarrow> (bytes \<times> location) list result option \<times> persist_tree" where
  "iter_collect k it t =
     (if \<not> bi_is_valid it then (Some (Inr []), t)
      else case k of
        0 \<Rightarrow> (None, t)
      | Suc k' \<Rightarrow>
          (case bi_next it t of
             ((Some x, it1), t1) \<Rightarrow> (Some (Inl x), t1)
           | ((None, it1), t1) \<Rightarrow>
               (case iter_collect k' it1 t1 of
                  (Some (Inr es), t2) \<Rightarrow> (Some (Inr ((bi_key it, bi_value it) # es)), t2)
                | r \<Rightarrow> r)))"

declare iter_collect.simps [simp del]

section \<open>The leaves in order\<close>

fun lvs :: "tree \<Rightarrow> (u64 \<times> (bytes \<times> location) list) list" where
  "lvs (Lf a es) = [(a, es)]"
| "lvs (Nd a ks ts) = concat (map lvs ts)"

lemma lvs_leaves: "map fst (lvs T) = leaves T"
proof (induction T)
  case (Nd a ks ts)
  then have "map fst (concat (map lvs ts)) = concat (map leaves ts)" by (induction ts) auto
  then show ?case by simp
qed simp

lemma lvs_entries: "concat (map snd (lvs T)) = entries T"
proof (induction T)
  case (Nd a ks ts)
  then have "concat (map snd (concat (map lvs ts))) = concat (map entries ts)" by (induction ts) auto
  then show ?case by simp
qed simp

lemma lvs_at: "tree_at V T \<Longrightarrow> (b, es) \<in> set (lvs T) \<Longrightarrow> \<exists>nx pv. V b = Some (leaf_node b es nx pv)"
  by (induction T) auto

lemma lvs_good: "good e ps h T \<Longrightarrow> (b, es) \<in> set (lvs T) \<Longrightarrow> 28 + entries_size (map fst es) \<le> ps \<and> (es \<noteq> [] \<or> e \<and> lvs T = [(b, es)])"
proof (induction e ps h T rule: good.induct)
  case (2 e ps h a ks ts)
  then show ?case by auto
qed auto

abbreviation lvs_pre :: "frame list \<Rightarrow> (u64 \<times> (bytes \<times> location) list) list" where
  "lvs_pre \<equiv> pre lvs (\<lambda>_. []) (\<lambda>_. [])"
abbreviation lvs_post :: "frame list \<Rightarrow> (u64 \<times> (bytes \<times> location) list) list" where
  "lvs_post \<equiv> post lvs (\<lambda>_. [])"

lemma lvs_plug: "lvs (plug fs t) = lvs_pre fs @ lvs t @ lvs_post fs"
proof (induction fs arbitrary: t)
  case (Cons f fs)
  obtain a ls rs where f: "f = (a, ls, rs)" by (cases f) auto
  have "lvs (plug1 f t) = pre1 lvs (\<lambda>_. []) ls @ lvs t @ post1 lvs (\<lambda>_. []) rs" by (simp add: plug1_def f pre1_def post1_def o_def)
  then show ?case using Cons.IH f by simp
qed simp

lemma lvs_context: "concat (map snd (lvs_pre fs)) = entries_pre fs" "concat (map snd (lvs_post fs)) = entries_post fs"
proof -
  have "concat (map snd (pre1 lvs (\<lambda>_. []) ls)) = pre1 entries (\<lambda>_. []) ls" for ls
    by (induction ls) (simp_all add: pre1_def lvs_entries)
  moreover have "concat (map snd (post1 lvs (\<lambda>_. []) rs)) = post1 entries (\<lambda>_. []) rs" for rs
    by (induction rs) (simp_all add: post1_def lvs_entries)
  ultimately have "concat (map snd (lvs_pre fs)) = entries_pre fs \<and> concat (map snd (lvs_post fs)) = entries_post fs"
    by (induction fs) auto
  then show "concat (map snd (lvs_pre fs)) = entries_pre fs" "concat (map snd (lvs_post fs)) = entries_post fs" by blast+
qed

text \<open>Where the iterator stands: the leaves before and after, and the index in its leaf.\<close>

definition standing :: "tree \<Rightarrow> (u64 \<times> (bytes \<times> location) list) list \<Rightarrow> u64 \<times> (bytes \<times> location) list \<Rightarrow> (u64 \<times> (bytes \<times> location) list) list \<Rightarrow> btree_node \<Rightarrow> bool" where
  "standing T P l Q n \<longleftrightarrow> lvs T = P @ l # Q \<and>
     clean n = leaf_node (fst l) (snd l) (case Q of [] \<Rightarrow> 0 | q # _ \<Rightarrow> fst q) (last (0 # map fst P))"

text \<open>Going to a neighbour: the leaf is loaded, and the links of the chain are those of the list.\<close>

lemma standing_at:
  assumes "pt_inv s h T t" "lvs T = P @ (b, es) # Q" "view t b = Some (clean n)"
  shows "standing T P (b, es) Q n"
proof -
  have ho: "tree_at (view t) T" "chain (view t) 0 (leaves T) 0"
    using assms(1) by (simp_all add: pt_inv_def hole_ok_def hole_leaves_def)
  obtain nx pv where n: "clean n = leaf_node b es nx pv" using lvs_at [OF ho(1), of b es] assms(2,3) by auto
  have "chain (view t) 0 (map fst P @ b # map fst Q) 0" using ho(2) unfolding lvs_leaves [symmetric] assms(2) by simp
  note c = chain_links [OF this assms(3)]
  have "pv = last (0 # map fst P)" "nx = (case Q of [] \<Rightarrow> 0 | q # _ \<Rightarrow> fst q)"
    using c clean_fields(6,7) [OF n] by (simp_all split: list.splits)
  then show ?thesis using assms(2) n by (simp add: standing_def)
qed

lemma load_leaf_ok:
  assumes inv: "pt_inv s h T t" and l: "lvs T = P @ (b, es) # Q" and cap: "1 \<le> pt_capacity t"
  shows "b \<noteq> 0" "\<exists>n t'. load_node b t = (Inr n, t') \<and> standing T P (b, es) Q n \<and> pt_inv s h T t' \<and> same_tree t t'"
proof -
  let ?ps = "unat (pt_page_size t)"
  have ho: "tree_at (view t) T" "good True ?ps h T" "offs_ok ?ps (tree_lim t) (offs T)" "store_ok {} {} t"
    using inv by (simp_all add: pt_inv_def hole_ok_def hole_offs_def)
  have "b \<in> set (leaves T)" using l unfolding lvs_leaves [symmetric] by simp
  then have po: "page_off ?ps b" using ho(3) leaves_in_offs [of T] by (auto simp: offs_ok_def)
  have "0 < ?ps" using ho(4) page_size_cases [of "pt_file t"] by (auto simp: store_ok_def cache_ok_def)
  then have "unat b \<noteq> 0" using po by (auto simp: page_off_def)
  then show "b \<noteq> 0" by auto
  obtain nx pv where v: "view t b = Some (leaf_node b es nx pv)" using lvs_at [OF ho(1), of b es] l by auto
  have "28 + entries_size (map fst es) \<le> ?ps" using lvs_good [OF ho(2), of b es] l by auto
  from load_ok [OF ho(4) v node_ok_leaf [OF po this]] cap obtain n t' where
    n: "load_node b t = (Inr n, t')" "clean n = leaf_node b es nx pv" "store_ok {} {b} t'" "same_tree t t'" "view t \<subseteq>\<^sub>m view t'" by auto
  have inv': "pt_inv s h T t'" by (rule pt_inv_same [OF inv n(4,5,3)])
  have "view t' b = Some (clean n)" using map_leD [OF n(5) v] n(2) by simp
  from standing_at [OF inv' l this] n(1,4) inv' show "\<exists>n t'. load_node b t = (Inr n, t') \<and> standing T P (b, es) Q n \<and> pt_inv s h T t' \<and> same_tree t t'" by blast
qed

lemma lvs_nonempty: "pt_inv s h T t \<Longrightarrow> lvs T = P @ (b, es) # Q \<Longrightarrow> P \<noteq> [] \<or> Q \<noteq> [] \<Longrightarrow> es \<noteq> []"
  using lvs_good [of True "unat (pt_page_size t)" h T b es] by (cases P; cases Q) (auto simp: pt_inv_def hole_ok_def)

lemma lvs_distinct: "pt_inv s h T t \<Longrightarrow> distinct (map fst (lvs T))"
  using distinct_leaves [of T] by (simp add: lvs_leaves pt_inv_def hole_ok_def offs_ok_def hole_offs_def)

section \<open>Ascending scans\<close>

text \<open>The iterator is at the first entry of \<open>R\<close>, a rest of the tree's entries.\<close>

definition at_rest :: "tree \<Rightarrow> (bytes \<times> location) list \<Rightarrow> bt_iter \<Rightarrow> bool" where
  "at_rest T R it \<longleftrightarrow> bi_valid it \<and> \<not> bi_desc it \<and>
     (\<exists>P l Q i. standing T P l Q (bi_node it) \<and> bi_index it = int i \<and> i < length (snd l) \<and> R = drop i (snd l) @ concat (map snd Q) \<and>
        bi_keys it = map fst (snd l) \<and> bi_values it = map snd (snd l) \<and> (\<forall>q \<in> set Q. bi_next_seen it (fst q) = 0))"

lemma no_progress_irrelevant [simp]:
  "bi_is_valid (it\<lparr>bi_no_progress := k\<rparr>) = bi_is_valid it" "at_rest T R (it\<lparr>bi_no_progress := k\<rparr>) = at_rest T R it"
  by (simp_all add: bi_is_valid_def at_rest_def)

lemma at_restD:
  assumes "at_rest T R it"
  shows "bi_is_valid it" "R \<noteq> []" "bi_key it = fst (hd R)" "bi_value it = snd (hd R)"
proof -
  obtain P l Q i where a: "bi_valid it" "standing T P l Q (bi_node it)" "bi_index it = int i" "i < length (snd l)" "R = drop i (snd l) @ concat (map snd Q)"
    "bi_keys it = map fst (snd l)" "bi_values it = map snd (snd l)" using assms by (auto simp: at_rest_def)
  show v: "bi_is_valid it" using a by (simp add: bi_is_valid_def)
  show "R \<noteq> []" using a by simp
  have "hd R = snd l ! i" using a by (simp add: hd_append hd_drop_conv_nth)
  then show "bi_key it = fst (hd R)" "bi_value it = snd (hd R)" using v a by (simp_all add: bi_key_def bi_value_def)
qed

text \<open>What a step does.\<close>

definition stepped :: "tree \<Rightarrow> (bytes \<times> location) list \<Rightarrow> bt_iter \<Rightarrow> bt_iter \<Rightarrow> bool" where
  "stepped T R it it' \<longleftrightarrow> bi_min it' = bi_min it \<and> bi_max it' = bi_max it \<and>
     (if R = [] \<or> key_above (fst (hd R)) (bi_max it) then \<not> bi_is_valid it' else at_rest T R it')"

lemma next_once_ok:
  assumes inv: "pt_inv s h T t" and cap: "1 \<le> pt_capacity t" and a: "at_rest T R it"
  shows "\<exists>it' t'. next_once it t = ((None, it'), t') \<and> pt_inv s h T t' \<and> same_tree t t' \<and> stepped T (tl R) it it'"
proof -
  obtain P l Q i where v: "bi_valid it" "\<not> bi_desc it" and st: "standing T P l Q (bi_node it)" and i: "bi_index it = int i" "i < length (snd l)"
    and R: "R = drop i (snd l) @ concat (map snd Q)" and k: "bi_keys it = map fst (snd l)" "bi_values it = map snd (snd l)"
    and se: "\<forall>q \<in> set Q. bi_next_seen it (fst q) = 0" using a by (auto simp: at_rest_def)
  note va = at_restD(1) [OF a]
  have tR: "tl R = drop (Suc i) (snd l) @ concat (map snd Q)" using R i(2) by (simp add: drop_Suc tl_drop)
  have lv: "lvs T = P @ l # Q" using st by (simp add: standing_def)
  show ?thesis
  proof (cases "Suc i < length (snd l)")
    case True
    have hd: "hd (tl R) = snd l ! Suc i" "tl R \<noteq> []" using True by (simp_all add: tR hd_append hd_drop_conv_nth)
    define it1 where "it1 = it\<lparr>bi_index := int (Suc i)\<rparr>"
    have "next_once it t = ((None, if key_above (fst (snd l ! Suc i)) (bi_max it) then it1\<lparr>bi_valid := False, bi_no_progress := 0\<rparr> else it1\<lparr>bi_valid := True\<rparr>), t)"
      using va v(2) i(1) k True by (simp add: next_once_def Let_def it1_def nat_add_distrib)
    moreover have "at_rest T (tl R) (it1\<lparr>bi_valid := True\<rparr>)"
      unfolding at_rest_def using v(2) st True tR k se
      by (intro conjI exI [of _ P] exI [of _ l] exI [of _ Q] exI [of _ "Suc i"]) (simp_all add: it1_def)
    ultimately show ?thesis using inv hd by (auto simp: stepped_def bi_is_valid_def it1_def)
  next
    case False
    then have len: "length (snd l) = Suc i" using i(2) by simp
    then have tR': "tl R = concat (map snd Q)" by (simp add: tR)
    show ?thesis
    proof (cases Q)
      case Nil
      have "node_next (bi_node it) = 0" using st Nil clean_fields(6) by (fastforce simp: standing_def)
      then have "next_once it t = ((None, it\<lparr>bi_index := int (Suc i), bi_valid := False, bi_no_progress := 0\<rparr>), t)"
        using va v(2) i(1) k len by (simp add: next_once_def Let_def add.commute)
      then show ?thesis using inv tR' Nil by (auto simp: stepped_def bi_is_valid_def)
    next
      case (Cons q Q')
      obtain b es where q: "q = (b, es)" by (cases q)
      have nx: "node_next (bi_node it) = b" using st clean_fields(6) by (fastforce simp: standing_def Cons q)
      have lv': "lvs T = (P @ [l]) @ (b, es) # Q'" using lv by (simp add: Cons q)
      note ld = load_leaf_ok [OF inv lv' cap]
      obtain n t' where n: "load_node b t = (Inr n, t')" "standing T (P @ [l]) (b, es) Q' n" "pt_inv s h T t'" "same_tree t t'" using ld(2) by blast
      have nk: "node_keys n = map fst es" "node_values n = map snd es"
        using n(2) clean_fields(1,2) [of n] by (simp_all add: standing_def)
      have ne: "es \<noteq> []" using lvs_nonempty [OF inv lv'] by simp
      have df: "\<forall>q \<in> set Q'. fst q \<noteq> b" using lvs_distinct [OF inv] lv' by auto
      define it2 where "it2 = update_snapshot (it\<lparr>bi_next_seen := (bi_next_seen it)(b := 1), bi_node := n, bi_index := 0\<rparr>)"
      have hd: "hd (tl R) = hd es" "tl R \<noteq> []" "tl R = es @ concat (map snd Q')" using ne by (simp_all add: tR' Cons q)
      have "next_once it t = ((None, if key_above (fst (hd es)) (bi_max it) then it2\<lparr>bi_valid := False, bi_no_progress := 0\<rparr> else it2\<lparr>bi_valid := True\<rparr>), t')"
        using va v(2) i(1) k len nx ld(1) n(1) se nk ne by (simp add: next_once_def Let_def it2_def update_snapshot_def Cons q hd_conv_nth)
      moreover have "at_rest T (tl R) (it2\<lparr>bi_valid := True\<rparr>)"
        unfolding at_rest_def using v(2) n(2) ne hd(3) nk se df
        by (intro conjI exI [of _ "P @ [l]"] exI [of _ "(b, es)"] exI [of _ Q'] exI [of _ 0]) (simp_all add: it2_def update_snapshot_def Cons q)
      ultimately show ?thesis using n(3,4) hd(1,2) by (auto simp: stepped_def bi_is_valid_def it2_def update_snapshot_def)
    qed
  qed
qed

lemma bi_next_ok:
  assumes inv: "pt_inv s h T t" and cap: "1 \<le> pt_capacity t" and a: "at_rest T R it" and d: "distinct (map fst R)"
  shows "\<exists>it' t'. bi_next it t = ((None, it'), t') \<and> pt_inv s h T t' \<and> same_tree t t' \<and> stepped T (tl R) it it'"
proof -
  obtain it1 t' where n: "next_once it t = ((None, it1), t')" "pt_inv s h T t'" "same_tree t t'" "stepped T (tl R) it it1"
    using next_once_ok [OF inv cap a] by blast
  have "\<not> same_position (bi_key it) (bi_key it1) (bi_value it) (bi_value it1)" if "bi_is_valid it1"
  proof -
    have r: "tl R \<noteq> []" "at_rest T (tl R) it1" using n(4) that by (auto simp: stepped_def split: if_splits)
    have "fst (hd R) \<noteq> fst (hd (tl R))" using d r(1) at_restD(2) [OF a] by (cases R; cases "tl R") auto
    then show ?thesis using at_restD(3) [OF a] at_restD(3) [OF r(2)] by (simp add: same_position_def)
  qed
  then have "bi_next it t = ((None, it1\<lparr>bi_no_progress := 0\<rparr>), t')"
    using at_restD(1) [OF a] n(1) by (simp add: bi_next_def numeral_eq_Suc)
  moreover have "stepped T (tl R) it (it1\<lparr>bi_no_progress := 0\<rparr>)" using n(4) by (simp add: stepped_def)
  ultimately show ?thesis using n(2,3) by blast
qed

lemma iter_collect_ok:
  assumes "pt_inv s h T t" "1 \<le> pt_capacity t" "at_rest T R it" "distinct (map fst R)" "\<not> key_above (fst (hd R)) (bi_max it)" "length R \<le> k"
  shows "\<exists>t'. iter_collect k it t = (Some (Inr (takeWhile (\<lambda>e. \<not> key_above (fst e) (bi_max it)) R)), t') \<and> pt_inv s h T t' \<and> same_tree t t'"
  using assms
proof (induction R arbitrary: it t k)
  case Nil
  then show ?case using at_restD(2) by blast
next
  case (Cons e R)
  obtain k' where k: "k = Suc k'" "length R \<le> k'" using Cons.prems(6) by (cases k) auto
  obtain it1 t1 where n: "bi_next it t = ((None, it1), t1)" "pt_inv s h T t1" "same_tree t t1" "stepped T R it it1"
    using bi_next_ok [OF Cons.prems(1-4)] by auto
  note a = at_restD [OF Cons.prems(3), simplified]
  show ?case
  proof (cases "R = [] \<or> key_above (fst (hd R)) (bi_max it)")
    case True
    then have "\<not> bi_is_valid it1" "takeWhile (\<lambda>e. \<not> key_above (fst e) (bi_max it)) R = []" using n(4) by (auto simp: stepped_def hd_conv_nth takeWhile_eq_Nil_iff)
    then have "iter_collect k it t = (Some (Inr [e]), t1)"
      using n(1) a by (simp add: k iter_collect.simps [of "Suc _"] iter_collect.simps [of _ it1])
    then show ?thesis using n(2,3) Cons.prems(5) \<open>takeWhile _ R = []\<close> by auto
  next
    case False
    have m: "bi_max it1 = bi_max it" "at_rest T R it1" using n(4) False by (simp_all add: stepped_def)
    have "1 \<le> pt_capacity t1" using Cons.prems(2) same_treeD(2) [OF n(3)] by simp
    from Cons.IH [OF n(2) this m(2)] obtain t' where
      "iter_collect k' it1 t1 = (Some (Inr (takeWhile (\<lambda>e. \<not> key_above (fst e) (bi_max it)) R)), t')" "pt_inv s h T t'" "same_tree t1 t'"
      using Cons.prems(4) False m(1) k(2) by auto
    then show ?thesis using n(1,3) a Cons.prems(5) same_tree_trans [OF n(3)] by (simp add: k iter_collect.simps [of "Suc _"])
  qed
qed

text \<open>Finding the first entry: at the lower bound in the leaf, or at the beginning of the next leaf.\<close>

definition started :: "tree \<Rightarrow> (bytes \<times> location) list \<Rightarrow> bytes option \<Rightarrow> bytes option \<Rightarrow> bt_iter \<Rightarrow> bool" where
  "started T R mn mx it \<longleftrightarrow> bi_min it = mn \<and> bi_max it = mx \<and>
     (if R = [] \<or> key_above (fst (hd R)) mx then \<not> bi_is_valid it else at_rest T R it)"

lemma advance_asc_ok:
  assumes inv: "pt_inv s h T t" and cap: "1 \<le> pt_capacity t" and st: "standing T P l Q (bi_node it)"
    and i: "bi_index it = int i" "i \<le> length (snd l)" and it: "\<not> bi_desc it" "\<And>b. bi_next_seen it b = 0" "\<not> bi_valid it" "bi_keys it = []"
    and lo: "\<forall>e \<in> set (drop i (snd l) @ concat (map snd Q)). \<not> key_below (fst e) (bi_min it)"
  shows "\<exists>it' t'. advance_asc (Suc (Suc k)) (\<lambda>_. 0) it t = (it', t') \<and> pt_inv s h T t' \<and> same_tree t t' \<and>
    started T (drop i (snd l) @ concat (map snd Q)) (bi_min it) (bi_max it) (update_snapshot it')"
proof -
  have lv: "lvs T = P @ l # Q" using st by (simp add: standing_def)
  have nf: "node_keys (bi_node it) = map fst (snd l)" "node_values (bi_node it) = map snd (snd l)" "is_leaf (bi_node it)"
    "node_next (bi_node it) = (case Q of [] \<Rightarrow> 0 | q # _ \<Rightarrow> fst q)"
    using st clean_fields(1,2,6,8) [of "bi_node it"] by (simp_all add: standing_def)
  show ?thesis
  proof (cases "i < length (snd l)")
    case True
    have e: "hd (drop i (snd l) @ concat (map snd Q)) = snd l ! i" "snd l ! i \<in> set (drop i (snd l))"
      using True by (simp_all add: hd_append hd_drop_conv_nth) (metis hd_drop_conv_nth hd_in_set drop_eq_Nil not_le)
    have "advance_asc (Suc (Suc k)) (\<lambda>_. 0) it t = (it\<lparr>bi_valid := \<not> key_above (fst (snd l ! i)) (bi_max it)\<rparr>, t)"
      using True i(1) nf lo e(2) by simp
    moreover have "started T (drop i (snd l) @ concat (map snd Q)) (bi_min it) (bi_max it) (update_snapshot (it\<lparr>bi_valid := \<not> key_above (fst (snd l ! i)) (bi_max it)\<rparr>))"
    proof -
      have "at_rest T (drop i (snd l) @ concat (map snd Q)) (update_snapshot (it\<lparr>bi_valid := True\<rparr>))"
        unfolding at_rest_def using True st i(1) it(1,2) nf
        by (intro conjI exI [of _ P] exI [of _ l] exI [of _ Q] exI [of _ i]) (simp_all add: update_snapshot_def)
      then show ?thesis using True by (simp add: started_def e(1) bi_is_valid_def update_snapshot_def)
    qed
    ultimately show ?thesis using inv by auto
  next
    case False
    then have il: "i = length (snd l)" using i(2) by simp
    show ?thesis
    proof (cases Q)
      case Nil
      then have "advance_asc (Suc (Suc k)) (\<lambda>_. 0) it t = (it\<lparr>bi_valid := False\<rparr>, t)" using il i(1) nf by simp
      then show ?thesis using inv il Nil by (auto simp: started_def bi_is_valid_def update_snapshot_def)
    next
      case (Cons q Q')
      obtain b es where q: "q = (b, es)" by (cases q)
      have lv': "lvs T = (P @ [l]) @ (b, es) # Q'" using lv by (simp add: Cons q)
      note ld = load_leaf_ok [OF inv lv' cap]
      obtain n t' where n: "load_node b t = (Inr n, t')" "standing T (P @ [l]) (b, es) Q' n" "pt_inv s h T t'" "same_tree t t'" using ld(2) by blast
      have nk: "node_keys n = map fst es" "node_values n = map snd es" "is_leaf n" using n(2) clean_fields(1,2,8) [of n] by (simp_all add: standing_def)
      have ne: "es \<noteq> []" using lvs_nonempty [OF inv lv'] by simp
      define it1 where "it1 = it\<lparr>bi_node := n, bi_index := 0, bi_valid := \<not> key_above (fst (hd es)) (bi_max it)\<rparr>"
      have "\<not> key_below (fst (hd es)) (bi_min it)" using lo ne by (simp add: Cons q)
      then have "advance_asc (Suc (Suc k)) (\<lambda>_. 0) it t = (it1, t')"
        using il i(1) nf ld(1) n(1) nk ne by (simp add: Cons q it1_def hd_map hd_conv_nth [symmetric])
      moreover have "started T (es @ concat (map snd Q')) (bi_min it) (bi_max it) (update_snapshot it1)"
      proof -
        have "at_rest T (es @ concat (map snd Q')) (update_snapshot it1)" if "\<not> key_above (fst (hd es)) (bi_max it)"
          unfolding at_rest_def using ne n(2) it(1,2) nk that
          by (intro conjI exI [of _ "P @ [l]"] exI [of _ "(b, es)"] exI [of _ Q'] exI [of _ 0]) (simp_all add: it1_def update_snapshot_def)
        then show ?thesis using ne by (simp add: started_def it1_def bi_is_valid_def update_snapshot_def)
      qed
      ultimately show ?thesis using n(3,4) il by (auto simp: Cons q)
    qed
  qed
qed

lemma takeWhile_sorted: "sorted (map f xs) \<Longrightarrow> (\<And>x y. f x \<le> f y \<Longrightarrow> p y \<Longrightarrow> p x) \<Longrightarrow> takeWhile p xs = filter p xs"
proof (induction xs)
  case (Cons x xs)
  show ?case
  proof (cases "p x")
    case False
    then have "\<not> p y" if "y \<in> set xs" for y using Cons.prems that by auto
    then show ?thesis using False by (auto intro: sym)
  qed (use Cons in auto)
qed simp

lemma ents_sorted: "sorted_wrt (item_rel True) xs \<Longrightarrow> sorted_wrt (<) (map fst (ents xs))"
  unfolding ents_def sorted_wrt_map map_map o_def
  by (rule sorted_wrt_mono_rel [OF _ sorted_wrt_filter]) (auto simp: item_rel_def)

lemma pt_inv_sorted:
  assumes "pt_inv True h T t"
  shows "sorted_wrt (<) (map fst (entries T))"
proof -
  have "good True (unat (pt_page_size t)) h T" "sorted_wrt (item_rel True) (items T)"
    using assms by (simp_all add: pt_inv_def hole_ok_def hole_items_def items_ok_def)
  then show ?thesis using ents_sorted ents_items by metis
qed

lemma key_above_mono: "k \<le> k' \<Longrightarrow> \<not> key_above k' mx \<Longrightarrow> \<not> key_above k mx"
  by (auto simp: key_above_def bytes_compare_order split: option.splits)

text \<open>
  An ascending scan: the iterator exists, and reading it to its end takes at most as many steps as there are entries.
\<close>

definition in_range :: "bytes option \<Rightarrow> bytes option \<Rightarrow> bytes \<times> location \<Rightarrow> bool" where
  "in_range mn mx e \<longleftrightarrow> \<not> key_below (fst e) mn \<and> \<not> key_above (fst e) mx"

lemma range_scan_ok:
  assumes inv: "pt_inv True h T t" and h: "h \<le> max_depth" "Suc h \<le> pt_capacity t"
  shows "\<exists>it t1 t2. range_iter None mn mx False t = (Inr it, t1) \<and>
    iter_collect (length (entries T)) it t1 = (Some (Inr (filter (in_range mn mx) (entries T))), t2) \<and> pt_inv True h T t2 \<and> same_tree t t2"
proof -
  define key where "key = (case mn of None \<Rightarrow> [] | Some k \<Rightarrow> k)"
  obtain leaf path t1 fs a es H where f: "find_leaf key t = (Inr (leaf, path), t1)" "found True (tree_lim t) key fs a es leaf path H t1"
    "plug fs (Lf a es) = T" "same_tree t t1" "view t \<subseteq>\<^sub>m view t1" using find_leaf_ok [OF inv h, of key] by blast
  have fo: "hole_for True key fs" "store_ok {} H t1" "view t1 a = Some (clean leaf)"
    "hole_ok (view t1) (unat (pt_page_size t1)) (tree_lim t) True 0 fs [Lf a es] []" using f(2) by (simp_all add: found_def)
  have fg: "frames_good (unat (pt_page_size t1)) 0 fs" using fo(4) by (simp add: hole_ok_def)
  have inv1: "pt_inv True h T t1" by (rule pt_inv_same [OF inv f(4,5) fo(2)])
  have lv: "lvs T = lvs_pre fs @ (a, es) # lvs_post fs" using lvs_plug [of fs "Lf a es"] f(3) by simp
  note st = standing_at [OF inv1 lv fo(3)]
  define i R where "i = lower_bound (map fst es) key" and "R = drop i es @ concat (map snd (lvs_post fs))"
  have ent: "entries T = (entries_pre fs @ take i es) @ R" unfolding R_def f(3) [symmetric] entries_plug lvs_context by simp
  have so: "sorted_wrt (<) (map fst (entries T))" by (rule pt_inv_sorted [OF inv])
  have sR: "sorted_wrt (<) (map fst R)" using so unfolding ent by (simp add: sorted_wrt_append)
  have "entries T = entries_pre fs @ es @ entries_post fs" unfolding f(3) [symmetric] entries_plug by simp
  then have "sorted_wrt (<) (map fst es)" using so by (simp add: sorted_wrt_append)
  then have se: "sorted (map fst es)" using strict_sorted_iff by blast
  note lb = lower_bound_sorted [OF se, where key = key, folded i_def] and fk = found_keys [OF fo(1) fg]
  have lo: "\<not> key_below (fst e) mn" if "e \<in> set R" for e
  proof -
    have "key \<le> fst e"
    proof (cases "e \<in> set (drop i es)")
      case True
      then obtain j where "j < length es - i" "e = es ! (i + j)" by (auto simp: in_set_conv_nth)
      then show ?thesis using lb(3) [of "i + j"] by simp
    next
      case False
      then have "(fst e, snd e) \<in> set (entries_post fs)" using that by (simp add: R_def lvs_context)
      then show ?thesis using fk(2) [of "fst e" "snd e"] by simp
    qed
    then show ?thesis by (auto simp: key_below_def key_def bytes_compare_order split: option.splits)
  qed
  have up: "mn \<noteq> None \<and> key_below (fst e) mn" if "e \<in> set (entries_pre fs @ take i es)" for e
  proof -
    have "fst e < key"
    proof (cases "e \<in> set (take i es)")
      case True
      then obtain j where "j < i" "j < length es" "e = es ! j" by (auto simp: in_set_conv_nth)
      then show ?thesis using lb(2) [of j] by simp
    next
      case False
      then have "(fst e, snd e) \<in> set (entries_pre fs)" using that by simp
      then show ?thesis using fk(1,3) [of "fst e" "snd e"] by auto
    qed
    then show ?thesis by (auto simp: key_below_def key_def bytes_compare_order split: option.splits)
  qed
  have res: "filter (in_range mn mx) (entries T) = takeWhile (\<lambda>e. \<not> key_above (fst e) mx) R"
  proof -
    have "filter (in_range mn mx) (entries_pre fs @ take i es) = []" using up by (auto simp: in_range_def filter_empty_conv)
    moreover have "filter (in_range mn mx) R = filter (\<lambda>e. \<not> key_above (fst e) mx) R" by (rule filter_cong) (use lo in \<open>auto simp: in_range_def\<close>)
    moreover have "takeWhile (\<lambda>e. \<not> key_above (fst e) mx) R = filter (\<lambda>e. \<not> key_above (fst e) mx) R"
      by (rule takeWhile_sorted [where f = fst]) (use sR key_above_mono in \<open>auto simp: strict_sorted_iff\<close>)
    ultimately show ?thesis unfolding ent by simp
  qed
  define it where "it = \<lparr>bi_node = leaf, bi_index = int i, bi_min = mn, bi_max = mx, bi_desc = False, bi_valid = False, bi_next_seen = (\<lambda>_. 0),
    bi_prev_seen = (\<lambda>_. 0), bi_no_progress = 0, bi_keys = [], bi_values = []\<rparr>"
  have nk: "node_keys leaf = map fst es" using st clean_fields(1) [of leaf] by (simp add: standing_def)
  have cap: "1 \<le> pt_capacity t1" using h(2) same_treeD(2) [OF f(4)] by simp
  have "\<exists>it' t'. advance_asc (Suc (Suc 9998)) (\<lambda>_. 0) it t1 = (it', t') \<and> pt_inv True h T t' \<and> same_tree t1 t' \<and> started T R mn mx (update_snapshot it')"
    using advance_asc_ok [OF inv1 cap, of "lvs_pre fs" "(a, es)" "lvs_post fs" it i 9998] st lb(1) lo by (simp add: it_def R_def del: advance_asc.simps)
  then obtain it' t2 where ad: "advance_asc 10000 (\<lambda>_. 0) it t1 = (it', t2)" "pt_inv True h T t2" "same_tree t1 t2" "started T R mn mx (update_snapshot it')"
    by (auto simp del: advance_asc.simps)
  have "range_iter None mn mx False t = (Inr (update_snapshot it'), t2)"
    using f(1) ad(1) unfolding key_def by (simp add: range_iter_def Let_def advance_def nk it_def i_def key_def del: advance_asc.simps)
  moreover have "\<exists>t3. iter_collect (length (entries T)) (update_snapshot it') t2 = (Some (Inr (takeWhile (\<lambda>e. \<not> key_above (fst e) mx) R)), t3) \<and> pt_inv True h T t3 \<and> same_tree t2 t3"
  proof (cases "R = [] \<or> key_above (fst (hd R)) mx")
    case True
    then have "\<not> bi_is_valid (update_snapshot it')" "takeWhile (\<lambda>e. \<not> key_above (fst e) mx) R = []"
      using ad(4) by (auto simp: started_def takeWhile_eq_Nil_iff)
    then show ?thesis using ad(2) by (simp add: iter_collect.simps [of _ "update_snapshot it'"])
  next
    case False
    then have "at_rest T R (update_snapshot it')" "bi_max (update_snapshot it') = mx" using ad(4) by (simp_all add: started_def)
    moreover have "1 \<le> pt_capacity t2" "length R \<le> length (entries T)" using cap same_treeD(2) [OF ad(3)] by (simp_all add: ent)
    moreover have "distinct (map fst R)" using sR strict_sorted_iff by blast
    ultimately show ?thesis using iter_collect_ok [OF ad(2)] False by metis
  qed
  then obtain t3 where t3: "iter_collect (length (entries T)) (update_snapshot it') t2 = (Some (Inr (filter (in_range mn mx) (entries T))), t3)"
    "pt_inv True h T t3" "same_tree t2 t3" unfolding res by blast
  moreover have "same_tree t t3" using same_tree_trans [OF f(4) same_tree_trans [OF ad(3) t3(3)]] .
  ultimately show ?thesis by blast
qed

end
