(* ===== verification/Tree_Delete.thy ===== *)
theory Tree_Delete
  imports Tree_Up Tree_Iterator
begin

text \<open>
  Deletion: \<open>delete\<close>, \<open>rebalanceAfterDelete\<close>, \<open>findLeafEntryByLocation\<close> and \<open>findPathToLeafOffset\<close> of
  \<open>src/index/persist_tree.go\<close>. The objects that the code changes are handed from step to step here,
  and stored under their offset.

  Results: a key that is not in the tree, or not with the wanted location, leaves the tree as it is; deletion from a leaf that stays
  half full removes exactly the first entry with the key.
\<close>

section \<open>Rebalancing\<close>

definition min_node_size :: "persist_tree \<Rightarrow> nat" where
  "min_node_size t = unat (pt_page_size t) div 2"

definition node_size :: "btree_node \<Rightarrow> nat" where
  "node_size n = (if is_leaf n then leaf_size n else internal_size n)"

definition is_underflow :: "btree_node \<Rightarrow> persist_tree \<Rightarrow> bool" where
  "is_underflow n t \<longleftrightarrow> node_offset n \<noteq> pt_root t \<and> node_size n < min_node_size t"

definition node_sane :: "btree_node \<Rightarrow> bool" where
  "node_sane n \<longleftrightarrow> (if is_leaf n then length (node_keys n) = length (node_values n) else length (node_children n) = length (node_keys n) + 1)"

text \<open>Storing changed objects, first all of the assignments, then the dirty marks.\<close>

definition save_nodes :: "btree_node list \<Rightarrow> persist_tree \<Rightarrow> persist_tree" where
  "save_nodes ns t = foldl (\<lambda>t n. mark_dirty (node_offset n) t) (foldl (\<lambda>t n. set_node n t) t ns) ns"

text \<open>A sibling, when there is one; one that is damaged counts as missing.\<close>

definition load_sibling :: "bool \<Rightarrow> u64 list \<Rightarrow> nat \<Rightarrow> persist_tree \<Rightarrow> btree_node option result \<times> persist_tree" where
  "load_sibling wanted children i t =
     (if \<not> wanted then (Inr None, t)
      else case load_node (children ! i) t of
        (Inl x, t1) \<Rightarrow> (Inl x, t1)
      | (Inr n, t1) \<Rightarrow> (Inr (if node_sane n then Some n else None), t1))"

definition borrow_left_fits :: "nat \<Rightarrow> btree_node \<Rightarrow> btree_node \<Rightarrow> btree_node \<Rightarrow> nat \<Rightarrow> bool" where
  "borrow_left_fits ps parent child left ci \<longleftrightarrow>
     (if is_leaf child
      then node_keys child = [] \<or> internal_size parent + length (last (node_keys left)) \<le> ps + length (hd (node_keys child))
      else internal_size parent + length (last (node_keys left)) \<le> ps + length (node_keys parent ! (ci - 1)))"

definition borrow_left :: "btree_node \<Rightarrow> btree_node \<Rightarrow> btree_node \<Rightarrow> nat \<Rightarrow> (btree_node \<times> btree_node \<times> btree_node) result" where
  "borrow_left parent child left ci =
     (if is_leaf child
      then if length (node_values left) < length (node_keys left) then Inl (Err ''invalid left leaf state before borrow'')
        else let k = last (node_keys left)
          in Inr (left\<lparr>node_keys := butlast (node_keys left), node_values := butlast (node_values left), node_dirty := True\<rparr>,
               child\<lparr>node_keys := k # node_keys child, node_values := last (node_values left) # node_values child, node_dirty := True\<rparr>,
               parent\<lparr>node_keys := (node_keys parent)[ci - 1 := k], node_dirty := True\<rparr>)
      else if node_children left = [] then Inl (Err ''invalid left internal state before borrow'')
      else Inr (left\<lparr>node_keys := butlast (node_keys left), node_children := butlast (node_children left), node_dirty := True\<rparr>,
             child\<lparr>node_keys := node_keys parent ! (ci - 1) # node_keys child, node_children := last (node_children left) # node_children child, node_dirty := True\<rparr>,
             parent\<lparr>node_keys := (node_keys parent)[ci - 1 := last (node_keys left)], node_dirty := True\<rparr>))"

definition borrow_right_fits :: "nat \<Rightarrow> btree_node \<Rightarrow> btree_node \<Rightarrow> btree_node \<Rightarrow> nat \<Rightarrow> bool" where
  "borrow_right_fits ps parent child right ci \<longleftrightarrow>
     (if is_leaf child then internal_size parent + length (node_keys right ! 1) \<le> ps + length (node_keys right ! 0)
      else internal_size parent + length (node_keys right ! 0) \<le> ps + length (node_keys parent ! ci))"

definition borrow_right :: "btree_node \<Rightarrow> btree_node \<Rightarrow> btree_node \<Rightarrow> nat \<Rightarrow> (btree_node \<times> btree_node \<times> btree_node) result" where
  "borrow_right parent child right ci =
     (if is_leaf child
      then if length (node_values right) < length (node_keys right) then Inl (Err ''invalid right leaf state before borrow'')
        else Inr (right\<lparr>node_keys := tl (node_keys right), node_values := tl (node_values right), node_dirty := True\<rparr>,
               child\<lparr>node_keys := node_keys child @ [hd (node_keys right)], node_values := node_values child @ [hd (node_values right)], node_dirty := True\<rparr>,
               parent\<lparr>node_keys := (node_keys parent)[ci := node_keys right ! 1], node_dirty := True\<rparr>)
      else if node_children right = [] then Inl (Err ''invalid right internal state before borrow'')
      else Inr (right\<lparr>node_keys := tl (node_keys right), node_children := tl (node_children right), node_dirty := True\<rparr>,
             child\<lparr>node_keys := node_keys child @ [node_keys parent ! ci], node_children := node_children child @ [hd (node_children right)], node_dirty := True\<rparr>,
             parent\<lparr>node_keys := (node_keys parent)[ci := hd (node_keys right)], node_dirty := True\<rparr>))"

definition remove_at :: "'a list \<Rightarrow> nat \<Rightarrow> 'a list" where
  "remove_at xs i = take i xs @ drop (i + 1) xs"

text \<open>
  Merging \<open>b\<close> into \<open>a\<close>, its left neighbour, with the separator of index \<open>i\<close>: the parent loses it and the child after it.
  A parent has one child more than it has keys, as every node read from a page.
\<close>

definition merge_nodes :: "bool \<Rightarrow> btree_node \<Rightarrow> btree_node \<Rightarrow> btree_node \<Rightarrow> nat \<Rightarrow> persist_tree \<Rightarrow> (btree_node \<times> bool) result \<times> persist_tree" where
  "merge_nodes leaf parent a b i t =
     (let parent1 = parent\<lparr>node_keys := remove_at (node_keys parent) i, node_children := remove_at (node_children parent) (i + 1), node_dirty := True\<rparr>
      in if leaf
         then let a0 = a\<lparr>node_keys := node_keys a @ node_keys b, node_values := node_values a @ node_values b\<rparr>; a1 = a0\<lparr>node_next := node_next b\<rparr>
           in if length (node_keys a0) \<noteq> length (node_values a0) then (Inl (Err ''merge error''), set_node a0 t)
              else case relink_next (node_next b) (node_offset a) (set_node a1 t) of
                (Some x, t1) \<Rightarrow> (Inl x, t1)
              | (None, t1) \<Rightarrow> (Inr (parent1, True), save_nodes [a1\<lparr>node_dirty := True\<rparr>, parent1] t1)
         else let a1 = a\<lparr>node_keys := node_keys a @ node_keys parent ! i # node_keys b, node_children := node_children a @ node_children b, node_dirty := True\<rparr>
           in (Inr (parent1, True), save_nodes [a1, parent1] t))"

definition merge_fits :: "nat \<Rightarrow> btree_node \<Rightarrow> btree_node \<Rightarrow> btree_node \<Rightarrow> nat \<Rightarrow> bool" where
  "merge_fits ps parent a b i \<longleftrightarrow> internal_size a + internal_size b + length (node_keys parent ! i) \<le> ps + 10"

definition try_merge :: "btree_node \<Rightarrow> btree_node \<Rightarrow> btree_node option \<Rightarrow> btree_node option \<Rightarrow> nat \<Rightarrow> persist_tree \<Rightarrow> (btree_node \<times> bool) result \<times> persist_tree" where
  "try_merge parent child left right ci t =
     (let ps = unat (pt_page_size t); leaf = is_leaf child;
          merge_right = (case right of
              Some r \<Rightarrow> if ci < length (node_keys parent) \<and> (leaf \<or> merge_fits ps parent child r ci) then merge_nodes leaf parent child r ci t else (Inr (parent, False), t)
            | None \<Rightarrow> (Inr (parent, False), t))
      in case left of
           Some l \<Rightarrow> if leaf \<or> merge_fits ps parent l child (ci - 1) then merge_nodes leaf parent l child (ci - 1) t else merge_right
         | None \<Rightarrow> merge_right)"

definition lends :: "btree_node \<Rightarrow> persist_tree \<Rightarrow> bool" where
  "lends n t \<longleftrightarrow> node_size n > min_node_size t \<and> length (node_keys n) > 1"

definition try_borrow_right :: "btree_node \<Rightarrow> btree_node \<Rightarrow> btree_node option \<Rightarrow> btree_node option \<Rightarrow> nat \<Rightarrow> persist_tree \<Rightarrow> (btree_node \<times> bool) result \<times> persist_tree" where
  "try_borrow_right parent child left right ci t =
     (case right of
        None \<Rightarrow> try_merge parent child left right ci t
      | Some r \<Rightarrow>
          if lends r t \<and> ci < length (node_keys parent) \<and> borrow_right_fits (unat (pt_page_size t)) parent child r ci
          then (case borrow_right parent child r ci of
                  Inl x \<Rightarrow> (Inl x, t)
                | Inr (r1, c1, p1) \<Rightarrow> (Inr (p1, False), save_nodes [r1, c1, p1] t))
          else try_merge parent child left right ci t)"

definition try_borrow_left :: "btree_node \<Rightarrow> btree_node \<Rightarrow> btree_node option \<Rightarrow> btree_node option \<Rightarrow> nat \<Rightarrow> persist_tree \<Rightarrow> (btree_node \<times> bool) result \<times> persist_tree" where
  "try_borrow_left parent child left right ci t =
     (case left of
        None \<Rightarrow> try_borrow_right parent child left right ci t
      | Some l \<Rightarrow>
          if lends l t \<and> borrow_left_fits (unat (pt_page_size t)) parent child l ci
          then (case borrow_left parent child l ci of
                  Inl x \<Rightarrow> (Inl x, t)
                | Inr (l1, c1, p1) \<Rightarrow> (Inr (p1, False), save_nodes [l1, c1, p1] t))
          else try_borrow_right parent child left right ci t)"

definition rebalance_after_delete :: "btree_node \<Rightarrow> btree_node \<Rightarrow> nat \<Rightarrow> persist_tree \<Rightarrow> (btree_node \<times> bool) result \<times> persist_tree" where
  "rebalance_after_delete parent child ci t =
     (let cs = node_children parent
      in if ci \<ge> length cs \<or> \<not> node_sane child then (Inl (Err ''invalid state entering rebalanceAfterDelete''), t)
         else if \<not> is_underflow child t then (Inr (parent, False), t)
         else case load_sibling (ci > 0) cs (ci - 1) t of
           (Inl x, t1) \<Rightarrow> (Inl x, t1)
         | (Inr left, t1) \<Rightarrow>
             (case load_sibling (ci + 1 < length cs) cs (ci + 1) t1 of
                (Inl x, t2) \<Rightarrow> (Inl x, t2)
              | (Inr right, t2) \<Rightarrow> try_borrow_left parent child left right ci t2))"

section \<open>Finding the entry with a location\<close>

definition matches_at :: "btree_node \<Rightarrow> location \<Rightarrow> nat \<Rightarrow> bool" where
  "matches_at node loc i \<longleftrightarrow> i < length (node_values node) \<and> node_values node ! i = loc"

text \<open>The first match in a run of indexes as long as the keys are the wanted one.\<close>

definition match_in_run :: "btree_node \<Rightarrow> bytes \<Rightarrow> location \<Rightarrow> nat list \<Rightarrow> nat option" where
  "match_in_run node key loc is = find (matches_at node loc) (takeWhile (\<lambda>i. bytes_compare (node_keys node ! i) key = 0) is)"

fun find_forward ::
  "nat \<Rightarrow> (u64 \<Rightarrow> nat) \<Rightarrow> btree_node \<Rightarrow> nat \<Rightarrow> bytes \<Rightarrow> location \<Rightarrow> persist_tree \<Rightarrow> (btree_node \<times> nat) option result \<times> persist_tree" where
  "find_forward 0 seen node idx key loc t = (Inr None, t)"
| "find_forward (Suc hops) seen node idx key loc t =
     (case match_in_run node key loc [idx..<length (node_keys node)] of
        Some i \<Rightarrow> (Inr (Some (node, i)), t)
      | None \<Rightarrow>
          let nx = node_next node; seen1 = seen(nx := seen nx + 1)
          in if nx = 0 then (Inr None, t)
             else if seen1 nx > 2 then (Inl (Err ''btree leaf next-cycle detected''), t)
             else case load_node nx t of
               (Inl x, t1) \<Rightarrow> (Inl x, t1)
             | (Inr n, t1) \<Rightarrow>
                 if \<not> is_leaf n then (Inl (Err ''btree corruption: expected leaf node''), t1)
                 else if node_keys n = [] \<or> bytes_compare (hd (node_keys n)) key \<noteq> 0 then (Inr None, t1)
                 else find_forward hops seen1 n 0 key loc t1)"

fun find_backward ::
  "nat \<Rightarrow> (u64 \<Rightarrow> nat) \<Rightarrow> btree_node \<Rightarrow> bytes \<Rightarrow> location \<Rightarrow> persist_tree \<Rightarrow> (btree_node \<times> nat) option result \<times> persist_tree" where
  "find_backward 0 seen node key loc t = (Inr None, t)"
| "find_backward (Suc hops) seen node key loc t =
     (let pv = node_prev node; seen1 = seen(pv := seen pv + 1)
      in if pv = 0 then (Inr None, t)
         else if seen1 pv > 2 then (Inl (Err ''btree leaf prev-cycle detected''), t)
         else case load_node pv t of
           (Inl x, t1) \<Rightarrow> (Inl x, t1)
         | (Inr n, t1) \<Rightarrow>
             if \<not> is_leaf n then (Inl (Err ''btree corruption: expected leaf node''), t1)
             else if node_keys n = [] \<or> bytes_compare (last (node_keys n)) key \<noteq> 0 then (Inr None, t1)
             else case match_in_run n key loc (rev [0..<length (node_keys n)]) of
               Some i \<Rightarrow> (Inr (Some (n, i)), t1)
             | None \<Rightarrow> find_backward hops seen1 n key loc t1)"

definition find_leaf_entry_by_location ::
  "btree_node \<Rightarrow> nat \<Rightarrow> bytes \<Rightarrow> location \<Rightarrow> persist_tree \<Rightarrow> (btree_node \<times> nat) option result \<times> persist_tree" where
  "find_leaf_entry_by_location node idx key loc t =
     (case find_forward 100000 (\<lambda>_. 0) node idx key loc t of
        (Inr None, t1) \<Rightarrow> find_backward 100000 (\<lambda>_. 0) node key loc t1
      | r \<Rightarrow> r)"

fun find_path_in :: "nat \<Rightarrow> btree_node \<Rightarrow> nat \<Rightarrow> u64 list \<Rightarrow> u64 \<Rightarrow> tree_path \<Rightarrow> persist_tree \<Rightarrow> tree_path option result \<times> persist_tree"
  and find_path_to :: "nat \<Rightarrow> u64 \<Rightarrow> u64 \<Rightarrow> tree_path \<Rightarrow> persist_tree \<Rightarrow> tree_path option result \<times> persist_tree" where
  "find_path_in d node i [] target path t = (Inr None, t)"
| "find_path_in d node i (c # cs) target path t =
     (case find_path_to d c target ((node, i) # path) t of
        (Inr None, t1) \<Rightarrow> find_path_in d node (i + 1) cs target path t1
      | r \<Rightarrow> r)"
| "find_path_to 0 off target path t = (Inl (Err ''btree depth exceeded while searching for leaf''), t)"
| "find_path_to (Suc d) off target path t =
     (case load_node off t of
        (Inl x, t1) \<Rightarrow> (Inl x, t1)
      | (Inr n, t1) \<Rightarrow>
          if is_leaf n then (Inr (if node_offset n = target then Some path else None), t1)
          else find_path_in d n 0 (node_children n) target path t1)"

section \<open>Deletion\<close>

fun delete_up :: "btree_node \<Rightarrow> tree_path \<Rightarrow> persist_tree \<Rightarrow> go_error option \<times> persist_tree" where
  "delete_up child [] t = (None, t)"
| "delete_up child ((parent, ci) # path) t =
     (if \<not> is_underflow child t then (None, t)
      else case rebalance_after_delete parent child ci t of
        (Inl x, t1) \<Rightarrow> (Some x, t1)
      | (Inr (parent1, merged), t1) \<Rightarrow> if merged then delete_up parent1 path t1 else (None, t1))"

definition shrink_root :: "persist_tree \<Rightarrow> go_error option \<times> persist_tree" where
  "shrink_root t =
     (case load_node (pt_root t) t of
        (Inl x, t1) \<Rightarrow> (Some x, t1)
      | (Inr n, t1) \<Rightarrow>
          if \<not> is_leaf n \<and> node_keys n = [] \<and> length (node_children n) = 1
          then let r = hd (node_children n)
            in (None, t1\<lparr>pt_root := r, pt_file := write_header ((pt_file t1)\<lparr>if_header := (if_header (pt_file t1))\<lparr>ih_root := r\<rparr>\<rparr>)\<rparr>)
          else (None, t1))"

text \<open>The separator before a leaf whose first entry is gone: replaced in the parent, when the parent has it.\<close>

definition resep :: "bool \<Rightarrow> bytes list \<Rightarrow> tree_path \<Rightarrow> persist_tree \<Rightarrow> tree_path \<times> persist_tree" where
  "resep fst_gone keys path t =
     (case path of
        (parent, pi) # rest \<Rightarrow>
          if fst_gone \<and> keys \<noteq> [] \<and> pi > 0
          then let parent1 = parent\<lparr>node_keys := (node_keys parent)[pi - 1 := hd keys], node_dirty := True\<rparr>
            in ((parent1, pi) # rest, save_nodes [parent1] t)
          else (path, t)
      | [] \<Rightarrow> (path, t))"

text \<open>Removing the entry with an index from a leaf at the end of a path.\<close>

definition delete_entry :: "btree_node \<Rightarrow> nat \<Rightarrow> tree_path \<Rightarrow> persist_tree \<Rightarrow> go_error option \<times> persist_tree" where
  "delete_entry node idx path t =
     (if length (node_keys node) \<noteq> length (node_values node) then (Some (Err ''data corruption detected before delete''), t)
      else if idx \<ge> length (node_values node) then (Some (Err ''data corruption''), t)
      else let node1 = node\<lparr>node_keys := remove_at (node_keys node) idx, node_values := remove_at (node_values node) idx, node_dirty := True\<rparr>;
               t1 = save_nodes [node1] t;
               t2 = (if pt_entry_count t1 > 0 then t1\<lparr>pt_entry_count := pt_entry_count t1 - 1\<rparr> else t1);
               (path1, t3) = resep (idx = 0) (node_keys node1) path t2
        in case delete_up node1 path1 t3 of
             (Some x, t4) \<Rightarrow> (Some x, t4)
           | (None, t4) \<Rightarrow> shrink_root t4)"

definition pt_delete :: "go_error option \<Rightarrow> bytes \<Rightarrow> location option \<Rightarrow> persist_tree \<Rightarrow> go_error option \<times> persist_tree" where
  "pt_delete ctx key loc t =
     (case ctx of
        Some e \<Rightarrow> (Some e, t)
      | None \<Rightarrow>
          (case find_leaf key t of
             (Inl x, t1) \<Rightarrow> (Some x, t1)
           | (Inr (node, path), t1) \<Rightarrow>
               let idx = lower_bound (node_keys node) key
               in if idx \<ge> length (node_keys node) \<or> bytes_compare (node_keys node ! idx) key \<noteq> 0 then (None, t1)
                  else case loc of
                    None \<Rightarrow> delete_entry node idx path t1
                  | Some l \<Rightarrow>
                      (case find_leaf_entry_by_location node idx key l t1 of
                         (Inl x, t2) \<Rightarrow> (Some x, t2)
                       | (Inr None, t2) \<Rightarrow> (None, t2)
                       | (Inr (Some (n, i)), t2) \<Rightarrow>
                           if node_offset n = node_offset node then delete_entry n i path t2
                           else case find_path_to 129 (pt_root t2) (node_offset n) [] t2 of
                             (Inl x, t3) \<Rightarrow> (Some x, t3)
                           | (Inr p, t3) \<Rightarrow> delete_entry n i (case p of None \<Rightarrow> path | Some [] \<Rightarrow> path | Some q \<Rightarrow> q) t3)))"

section \<open>Nothing to delete\<close>

lemma match_in_run_none:
  assumes "clean n = leaf_node a es nx pv" "(key, l) \<notin> set es" "\<forall>i \<in> set is. i < length es"
  shows "match_in_run n key l is = None"
proof -
  note nf = clean_fields(1,2) [OF assms(1), simplified]
  have "\<not> matches_at n l i" if "i \<in> set (takeWhile (\<lambda>i. bytes_compare (node_keys n ! i) key = 0) is)" for i
  proof -
    have i: "i < length es" "node_keys n ! i = key" using that assms(3) by (auto dest: set_takeWhileD)
    then have "es ! i = (key, snd (es ! i))" using nf by (cases "es ! i") simp
    then show ?thesis using assms(2) i(1) nf nth_mem [OF i(1)] by (auto simp: matches_at_def)
  qed
  then show ?thesis by (auto simp: match_in_run_def find_None_iff)
qed

text \<open>The neighbours of a leaf that has the key do not have it.\<close>

lemma neighbour_keys:
  assumes "pt_inv True h T t" "lvs T = P @ (b, es) # (c, es') # Q" "key \<in> fst ` set es \<or> key \<in> fst ` set es'"
  shows "key \<in> fst ` set es \<Longrightarrow> es' \<noteq> [] \<Longrightarrow> fst (hd es') \<noteq> key" "key \<in> fst ` set es' \<Longrightarrow> es \<noteq> [] \<Longrightarrow> fst (last es) \<noteq> key"
proof -
  have "distinct (map fst (concat (map snd (lvs T))))" using pt_inv_sorted [OF assms(1)] by (simp add: lvs_entries strict_sorted_iff)
  then have d: "fst ` set es \<inter> fst ` set es' = {}" unfolding assms(2) by auto
  show "key \<in> fst ` set es \<Longrightarrow> es' \<noteq> [] \<Longrightarrow> fst (hd es') \<noteq> key" using d hd_in_set [of es'] by blast
  show "key \<in> fst ` set es' \<Longrightarrow> es \<noteq> [] \<Longrightarrow> fst (last es) \<noteq> key" using d last_in_set [of es] by blast
qed

lemma find_by_location_none:
  assumes inv: "pt_inv True h T t" and cap: "1 \<le> pt_capacity t" and st: "standing T P (a, es) Q n"
    and key: "key \<in> fst ` set es" "(key, l) \<notin> set es"
  shows "\<exists>t'. find_leaf_entry_by_location n idx key l t = (Inr None, t') \<and> pt_inv True h T t' \<and> same_tree t t'"
proof -
  have lv: "lvs T = P @ (a, es) # Q" and n: "clean n = leaf_node a es (case Q of [] \<Rightarrow> 0 | q # _ \<Rightarrow> fst q) (last (0 # map fst P))"
    using st by (simp_all add: standing_def)
  note nf = clean_fields(1,6,7) [OF n, simplified]
  have none: "match_in_run n key l [idx..<length (node_keys n)] = None" by (rule match_in_run_none [OF n key(2)]) (simp add: nf)
  have fw: "\<exists>t1. find_forward (Suc k) (\<lambda>_. 0) n idx key l t = (Inr None, t1) \<and> pt_inv True h T t1 \<and> same_tree t t1" for k
  proof (cases Q)
    case Nil
    then show ?thesis using none nf inv by (simp del: upt.simps)
  next
    case (Cons q Q')
    obtain b es' where q: "q = (b, es')" by (cases q)
    have lv': "lvs T = (P @ [(a, es)]) @ (b, es') # Q'" using lv by (simp add: Cons q)
    note ld = load_leaf_ok [OF inv lv' cap]
    obtain m t1 where m: "load_node b t = (Inr m, t1)" "standing T (P @ [(a, es)]) (b, es') Q' m" "pt_inv True h T t1" "same_tree t t1" using ld(2) by blast
    have mk: "node_keys m = map fst es'" "is_leaf m" using m(2) clean_fields(1,8) [of m] by (simp_all add: standing_def)
    have "es' = [] \<or> fst (hd es') \<noteq> key" using neighbour_keys(1) [OF inv, of P a es b es' Q' key] lv key(1) by (auto simp: Cons q)
    then have "find_forward (Suc k) (\<lambda>_. 0) n idx key l t = (Inr None, t1)" using none nf m(1) mk ld(1) by (auto simp: Cons q hd_map)
    then show ?thesis using m(3,4) by blast
  qed
  from fw [of 99999] obtain t1 where f: "find_forward 100000 (\<lambda>_. 0) n idx key l t = (Inr None, t1)" "pt_inv True h T t1" "same_tree t t1"
    by (auto simp del: find_forward.simps)
  have cap1: "1 \<le> pt_capacity t1" using cap same_treeD(2) [OF f(3)] by simp
  have bw: "\<exists>t2. find_backward (Suc k) (\<lambda>_. 0) n key l t1 = (Inr None, t2) \<and> pt_inv True h T t2 \<and> same_tree t1 t2" for k
  proof (cases P rule: rev_cases)
    case Nil
    then show ?thesis using nf f(2) by simp
  next
    case (snoc P' q)
    obtain b es' where q: "q = (b, es')" by (cases q)
    have lv': "lvs T = P' @ (b, es') # ((a, es) # Q)" using lv by (simp add: snoc q)
    note ld = load_leaf_ok [OF f(2) lv' cap1]
    obtain m t2 where m: "load_node b t1 = (Inr m, t2)" "standing T P' (b, es') ((a, es) # Q) m" "pt_inv True h T t2" "same_tree t1 t2" using ld(2) by blast
    have mk: "node_keys m = map fst es'" "is_leaf m" using m(2) clean_fields(1,8) [of m] by (simp_all add: standing_def)
    have "es' = [] \<or> fst (last es') \<noteq> key" using neighbour_keys(2) [OF f(2) lv', of key] key(1) by auto
    then have "find_backward (Suc k) (\<lambda>_. 0) n key l t1 = (Inr None, t2)" using nf m(1) mk ld(1) by (auto simp: snoc q last_map)
    then show ?thesis using m(3,4) by blast
  qed
  from bw [of 99999] obtain t2 where "find_backward 100000 (\<lambda>_. 0) n key l t1 = (Inr None, t2)" "pt_inv True h T t2" "same_tree t1 t2"
    by (auto simp del: find_backward.simps)
  then show ?thesis using f same_tree_trans [OF f(3)] by (simp add: find_leaf_entry_by_location_def del: find_forward.simps find_backward.simps)
qed

text \<open>Where the descent for a key ends: the leaf in the list of leaves, with the index of the lower bound.\<close>

lemma find_leaf_standing:
  assumes inv: "pt_inv True h T t" and h: "h \<le> max_depth" "Suc h \<le> pt_capacity t"
  obtains leaf path t' fs a es H where "find_leaf key t = (Inr (leaf, path), t')" "found True (tree_lim t) key fs a es leaf path H t'"
    "plug fs (Lf a es) = T" "length fs = h" "card H \<le> Suc h" "same_tree t t'" "pt_inv True h T t'" "standing T (lvs_pre fs) (a, es) (lvs_post fs) leaf"
    "sorted_wrt (<) (map fst es)" "entries T = entries_pre fs @ es @ entries_post fs" "key \<notin> fst ` set (entries_pre fs @ entries_post fs)"
proof -
  obtain leaf path t' fs a es H where f: "find_leaf key t = (Inr (leaf, path), t')" "found True (tree_lim t) key fs a es leaf path H t'"
    "plug fs (Lf a es) = T" "length fs = h" "card H \<le> Suc h" "same_tree t t'" "view t \<subseteq>\<^sub>m view t'" using find_leaf_ok [OF inv h, of key] by blast
  have fo: "hole_for True key fs" "store_ok {} H t'" "view t' a = Some (clean leaf)" "frames_good (unat (pt_page_size t')) 0 fs"
    using f(2) by (simp_all add: found_def hole_ok_def)
  have inv1: "pt_inv True h T t'" by (rule pt_inv_same [OF inv f(6,7) fo(2)])
  have "lvs T = lvs_pre fs @ (a, es) # lvs_post fs" using lvs_plug [of fs "Lf a es"] f(3) by simp
  note st = standing_at [OF inv1 this fo(3)]
  have ent: "entries T = entries_pre fs @ es @ entries_post fs" unfolding f(3) [symmetric] entries_plug by simp
  have "sorted_wrt (<) (map fst es)" using pt_inv_sorted [OF inv] unfolding ent by (simp add: sorted_wrt_append)
  moreover have "key \<notin> fst ` set (entries_pre fs @ entries_post fs)" using found_keys(3) [OF fo(1,4)] by force
  ultimately show thesis using that f(1-6) inv1 st ent by blast
qed

text \<open>A key that is not there, or not with that location.\<close>

lemma delete_noop:
  assumes inv: "pt_inv True h T t" and h: "h \<le> max_depth" "Suc h \<le> pt_capacity t"
    and no: "case loc of None \<Rightarrow> key \<notin> fst ` set (entries T) | Some l \<Rightarrow> (key, l) \<notin> set (entries T)"
  shows "\<exists>t'. pt_delete None key loc t = (None, t') \<and> pt_inv True h T t' \<and> same_tree t t'"
proof (rule find_leaf_standing [OF inv h, of key])
  fix leaf path t1 fs a es H
  assume f: "find_leaf key t = (Inr (leaf, path), t1)" "same_tree t t1" "pt_inv True h T t1" "standing T (lvs_pre fs) (a, es) (lvs_post fs) leaf"
    "sorted_wrt (<) (map fst es)" "entries T = entries_pre fs @ es @ entries_post fs"
  have nk: "node_keys leaf = map fst es" using f(4) clean_fields(1) [of leaf] by (simp add: standing_def)
  let ?i = "lower_bound (map fst es) key"
  show ?thesis
  proof (cases "?i < length es \<and> fst (es ! ?i) = key")
    case False
    then have "pt_delete None key loc t = (None, t1)" using f(1) nk by (auto simp: pt_delete_def Let_def)
    then show ?thesis using f(2,3) by blast
  next
    case True
    then have k: "key \<in> fst ` set es" by (metis image_eqI nth_mem)
    then obtain l where l: "loc = Some l" "(key, l) \<notin> set es" using no f(6) by (cases loc) auto
    have "1 \<le> pt_capacity t1" using h(2) same_treeD(2) [OF f(2)] by simp
    from find_by_location_none [OF f(3) this f(4) k l(2)] obtain t2 where
      "find_leaf_entry_by_location leaf ?i key l t1 = (Inr None, t2)" "pt_inv True h T t2" "same_tree t1 t2" by blast
    then show ?thesis using f(1) nk True l(1) same_tree_trans [OF f(2)] by (auto simp: pt_delete_def Let_def)
  qed
qed

section \<open>Deletion from a leaf that stays filled\<close>

lemma save_one_ok:
  assumes st: "store_ok {} H t" and n: "node_offset n \<in> H" "node_ok (pt_page_size t) n"
  shows "store_ok {} H (save_nodes [n] t)" "same_tree t (save_nodes [n] t)" "view (save_nodes [n] t) = (view t)(node_offset n \<mapsto> clean n)" "unsynced (save_nodes [n] t)"
proof -
  have e: "save_nodes [n] t = mark_dirty (node_offset n) (set_node n t)" by (simp add: save_nodes_def)
  note s = set_node_ok [OF st n(1)]
  have v: "view (set_node n t) (node_offset n) = Some (clean n)" using s(3) by simp
  have "node_ok (pt_page_size (set_node n t)) (clean n)" using n(2) same_treeD(1) [OF s(2)] by simp
  note d = mark_dirty_ok [OF s(1) n(1) v this]
  show "store_ok {} H (save_nodes [n] t)" "view (save_nodes [n] t) = (view t)(node_offset n \<mapsto> clean n)"
    unfolding e using d(1,3) s(3) by simp_all
  show "same_tree t (save_nodes [n] t)" unfolding e using s(2) d(2) by (rule same_tree_trans)
  show "unsynced (save_nodes [n] t)" unfolding e by (rule mark_dirty_unsynced [OF s(1) n(1)])
qed

lemma remove_at_facts:
  "i < length xs \<Longrightarrow> length (remove_at xs i) = length xs - 1" "map f (remove_at xs i) = remove_at (map f xs) i"
  "set (remove_at xs i) \<subseteq> set xs"
  by (auto simp: remove_at_def take_map drop_map dest: in_set_takeD in_set_dropD)

lemma remove_at_filter:
  assumes "sorted_wrt (<) (map fst es)" "i < length es" "fst (es ! i) = (key :: bytes)"
  shows "remove_at es i = filter (\<lambda>e. fst e \<noteq> key) es"
proof -
  have e: "es = take i es @ es ! i # drop (i + 1) es" using assms(2) by (simp add: id_take_nth_drop)
  have "sorted_wrt (<) (map fst (take i es @ es ! i # drop (i + 1) es))" using assms(1) e by simp
  then have "\<forall>x \<in> set (take i es). fst x < key" "\<forall>x \<in> set (drop (i + 1) es). key < fst x" using assms(3) by (auto simp: sorted_wrt_append)
  then have "filter (\<lambda>e. fst e \<noteq> key) (take i es) = take i es" "filter (\<lambda>e. fst e \<noteq> key) (drop (i + 1) es) = drop (i + 1) es"
    by (auto intro!: filter_True)
  then have "filter (\<lambda>e. fst e \<noteq> key) (take i es @ es ! i # drop (i + 1) es) = remove_at es i" using assms(3) by (simp add: remove_at_def)
  then show ?thesis using e by metis
qed

text \<open>A separator may be replaced by the new first key behind it.\<close>

lemma hole_sep_update:
  assumes ho: "hole_ok V ps lim s h ((a, ls @ [(X, old)], rs) # fs) [Y] []"
    and it: "items_ok s (hole_items ((a, ls @ [(X, new)], rs) # fs) [Y] [])" and len: "length new \<le> length old"
    and V': "V' = V(a \<mapsto> int_node a ((map snd (ls @ [(X, old)]) @ map fst rs)[length ls := new])
      (map (toff \<circ> fst) (ls @ [(X, old)]) @ toff Y # map (toff \<circ> snd) rs))"
  shows "hole_ok V' ps lim s h ((a, ls @ [(X, new)], rs) # fs) [Y] []"
proof -
  have k: "(map snd (ls @ [(X, old)]) @ map fst rs)[length ls := new] = map snd (ls @ [(X, new)]) @ map fst rs" by (simp add: list_update_append)
  have o: "hole_offs ((a, ls @ [(X, new)], rs) # fs) [Y] = hole_offs ((a, ls @ [(X, old)], rs) # fs) [Y]"
    "hole_leaves ((a, ls @ [(X, new)], rs) # fs) [Y] = hole_leaves ((a, ls @ [(X, old)], rs) # fs) [Y]"
    by (simp_all add: hole_offs_def hole_leaves_def pre1_def)
  have ok: "offs_ok ps lim (hole_offs ((a, ls @ [(X, old)], rs) # fs) [Y])" using ho by (simp add: hole_ok_def)
  then have d: "distinct (offs_pre fs @ a # (pre1 offs (\<lambda>_. []) (ls @ [(X, old)]) @ offs Y @ post1 offs (\<lambda>_. []) rs @ offs_post fs))"
    by (simp add: offs_ok_def hole_offs_def)
  have ne: "V' b = V b" if "b \<noteq> a" for b using that by (simp add: V')
  have tr: "tree_at V' x" if "tree_at V x" "a \<notin> set (offs x)" for x by (rule tree_at_mono [OF that(1)]) (use ne that(2) in metis)
  have fa: "frames_at V ((a, ls @ [(X, old)], rs) # fs) (toff Y)" "tree_at V Y" "good False ps h Y" "frames_good ps h ((a, ls @ [(X, old)], rs) # fs)"
    using ho by (simp_all add: hole_ok_def)
  have ys: "tree_at V' Y" by (rule tr [OF fa(2)]) (use d in auto)
  moreover have "\<forall>p \<in> set (ls @ [(X, new)]). tree_at V' (fst p)" using fa(1) tr d by (auto simp: pre1_def)
  moreover have "\<forall>p \<in> set rs. tree_at V' (snd p)" using fa(1) tr d by (auto simp: post1_def)
  moreover have "frames_at V' fs a"
  proof (rule frames_at_mono [where V = V])
    show "frames_at V fs a" using fa(1) by simp
    show "V' b = V b" if "b \<in> set (offs_pre fs) \<union> set (offs_post fs)" for b
      by (rule ne) (use d that in auto)
  qed
  ultimately have "frames_at V' ((a, ls @ [(X, new)], rs) # fs) (toff Y)" unfolding frames_at.simps V' k by (simp add: o_def)
  moreover have "frames_good ps h ((a, ls @ [(X, new)], rs) # fs)" using fa(4) len by (auto simp: entries_size_def)
  moreover have "chain V' 0 (hole_leaves ((a, ls @ [(X, old)], rs) # fs) [Y]) 0"
  proof (rule chain_mono [where V = V])
    fix b
    assume "b \<in> set (hole_leaves ((a, ls @ [(X, old)], rs) # fs) [Y])"
    then have "b \<in> set (leaves_pre fs) \<union> set (leaves_post fs) \<union> set (pre1 leaves (\<lambda>_. []) (ls @ [(X, old)])) \<union> set (leaves Y) \<union> set (post1 leaves (\<lambda>_. []) rs)"
      by (auto simp: hole_leaves_def)
    moreover have "set (pre1 leaves (\<lambda>_. []) ps) \<subseteq> set (pre1 offs (\<lambda>_. []) ps)" "set (post1 leaves (\<lambda>_. []) qs) \<subseteq> set (post1 offs (\<lambda>_. []) qs)" for ps qs
      using leaves_in_offs by (force simp: pre1_def, force simp: post1_def)
    ultimately have "b \<in> set (offs_pre fs) \<union> set (offs_post fs) \<union> set (pre1 offs (\<lambda>_. []) (ls @ [(X, old)])) \<union> set (offs Y) \<union> set (post1 offs (\<lambda>_. []) rs)"
      using leaves_context [of fs] leaves_in_offs [of Y] by blast
    then have "b \<noteq> a" using d by auto
    then show "V' b = V b" by (rule ne)
  qed (use ho in \<open>simp add: hole_ok_def\<close>)
  ultimately show ?thesis using ok it ys fa(3) unfolding hole_ok_def o by simp
qed

lemma items_ok_remove: "items_ok s (xs @ y # ys) \<Longrightarrow> items_ok s (xs @ ys)"
  by (auto simp: items_ok_def sorted_wrt_append)

lemma items_ok_resep:
  assumes "items_ok True (us @ Sep old # Ent k v # Ent n w # zs)"
  shows "items_ok True (us @ Sep n # Ent n w # zs)"
proof -
  have o: "old \<le> k" "k < n" "\<forall>u \<in> set us. ikey u < old" "\<forall>z \<in> set zs. n < ikey z" "items_ok True (us @ Ent n w # zs)" "length n \<le> max_key"
    using assms by (auto simp: items_ok_def sorted_wrt_append item_rel_def)
  show ?thesis by (rule items_ok_insert [OF o(5)]) (use o in \<open>auto simp: item_rel_def\<close>)
qed

lemma shrink_root_keep:
  assumes inv: "pt_inv s h T t" and cap: "1 \<le> pt_capacity t"
  shows "\<exists>t'. shrink_root t = (None, t') \<and> pt_inv s h T t' \<and> same_tree t t'"
proof -
  have i: "store_ok {} {} t" "tree_at (view t) T" "good True (unat (pt_page_size t)) h T" "page_off (unat (pt_page_size t)) (toff T)" "pt_root t = toff T"
    using inv by (simp_all add: pt_inv_def hole_ok_def offs_ok_def hole_offs_def)
  obtain n where n: "view t (toff T) = Some n" "node_ok (pt_page_size t) n" by (rule tree_root_ok [OF i(2-4)])
  have "card (insert (toff T) {}) \<le> pt_capacity t" using cap by simp
  from load_ok [OF i(1) n this] obtain m t' where l: "load_node (toff T) t = (Inr m, t')" "clean m = n" "store_ok {} {toff T} t'" "same_tree t t'" "view t \<subseteq>\<^sub>m view t'" by blast
  have "is_leaf m \<or> node_keys m \<noteq> []"
  proof (cases T)
    case (Lf a es)
    then show ?thesis using i(2) n(1) clean_fields(8) [OF l(2)] by auto
  next
    case (Nd a ks ts)
    then have "ks \<noteq> []" using i(3) by (cases h) auto
    then show ?thesis using i(2) n(1) clean_fields(1) [OF l(2)] by (auto simp: Nd)
  qed
  then have "shrink_root t = (None, t')" using l(1) i(5) by (auto simp: shrink_root_def)
  then show ?thesis using pt_inv_same [OF inv l(4,5,3)] l(4) by blast
qed

lemma resep_ok:
  assumes ho: "hole_ok (view t) (unat (pt_page_size t)) lim True 0 fs [Lf a es'] []" and pa: "path_ok (view t) fs path"
    and st: "store_ok {} H t" "fst ` set fs \<subseteq> H"
    and it: "g \<Longrightarrow> items_ok True (hole_items fs [Lf a ((key, v) # es')] [])" and un: "\<forall>x \<in> set (hole_items fs [Lf a es'] []). length (ikey x) = L"
  shows "\<exists>path1 t1 fs1. resep g (map fst es') path t = (path1, t1) \<and> hole_ok (view t1) (unat (pt_page_size t)) lim True 0 fs1 [Lf a es'] [] \<and>
    length fs1 = length fs \<and> entries_pre fs1 = entries_pre fs \<and> entries_post fs1 = entries_post fs \<and> toff (plug fs1 (Lf a es')) = toff (plug fs (Lf a es')) \<and>
    store_ok {} H t1 \<and> same_tree t t1 \<and> (path1 = [] \<longleftrightarrow> fs = [])"
proof (cases "g \<and> es' \<noteq> [] \<and> (\<exists>a0 ls p rs fs'. fs = (a0, ls @ [p], rs) # fs')")
  case True
  then obtain a0 ls X old rs fs' where f: "fs = (a0, ls @ [(X, old)], rs) # fs'" and g: g by auto
  obtain new w es2 where es: "es' = (new, w) # es2" using True by (cases es') auto
  obtain parent pi rest where path: "path = (parent, pi) # rest" "clean parent = clean parent" "pi = Suc (length ls)" "node_offset parent = a0"
    "view t a0 = Some (clean parent)" using pa unfolding f path_ok_def by (cases path) auto
  let ?ks = "map snd (ls @ [(X, old)]) @ map fst rs" and ?cs = "map (toff \<circ> fst) (ls @ [(X, old)]) @ a # map (toff \<circ> snd) rs"
  have va: "view t a0 = Some (int_node a0 ?ks ?cs)" "20 + entries_size ?ks \<le> unat (pt_page_size t)" using ho by (simp_all add: hole_ok_def f)
  then have cp: "clean parent = int_node a0 ?ks ?cs" using path(5) by simp
  define parent1 where "parent1 = parent\<lparr>node_keys := (node_keys parent)[pi - 1 := new], node_dirty := True\<rparr>"
  have p1: "clean parent1 = int_node a0 (?ks[length ls := new]) ?cs" "node_offset parent1 = a0"
  proof -
    have "clean parent1 = (clean parent)\<lparr>node_keys := (node_keys (clean parent))[length ls := new]\<rparr>" by (simp add: parent1_def path(3))
    then show "clean parent1 = int_node a0 (?ks[length ls := new]) ?cs" unfolding cp by (simp add: int_node_def)
  qed (simp add: parent1_def path(4))
  have lens: "length old = L" "length new = L" using un by (simp_all add: hole_items_def f pre1_def es)
  have ke: "?ks[length ls := new] = map snd (ls @ [(X, new)]) @ map fst rs" by (simp add: list_update_append)
  have po: "page_off (unat (pt_page_size t)) a0" using ho by (simp add: hole_ok_def offs_ok_def hole_offs_def f)
  have "node_ok (pt_page_size t) (clean parent1)" unfolding p1(1) ke
    by (rule node_ok_int [OF po]) (use va(2) lens in \<open>simp_all add: entries_size_def\<close>)
  then have nok: "node_ok (pt_page_size t) parent1" by simp
  have aH: "node_offset parent1 \<in> H" using st(2) p1(2) by (simp add: f)
  note sv = save_one_ok [OF st(1) aH nok]
  let ?fs1 = "(a0, ls @ [(X, new)], rs) # fs'"
  have "items_ok True ((items_pre fs' @ pre1 items (\<lambda>k. [Sep k]) ls @ items X) @ Sep old # Ent key v # Ent new w # (ent_items es2 @ items_post fs))"
    using it [OF g] by (simp add: hole_items_def f pre1_def es)
  from items_ok_resep [OF this] have it1: "items_ok True (hole_items ?fs1 [Lf a es'] [])" by (simp add: hole_items_def f pre1_def es)
  have ho1: "hole_ok (view t) (unat (pt_page_size t)) lim True 0 ((a0, ls @ [(X, old)], rs) # fs') [Lf a es'] []" using ho by (simp only: f)
  have "hole_ok (view (save_nodes [parent1] t)) (unat (pt_page_size t)) lim True 0 ?fs1 [Lf a es'] []"
    by (rule hole_sep_update [OF ho1 it1]) (use lens in \<open>simp_all add: sv(3) p1\<close>)
  moreover have "resep g (map fst es') path t = ((parent1, pi) # rest, save_nodes [parent1] t)"
    using g by (simp add: resep_def path(1,3) es parent1_def Let_def)
  moreover have "entries_pre ?fs1 = entries_pre fs" "entries_post ?fs1 = entries_post fs" by (simp_all add: f pre1_def)
  moreover have "toff (plug ?fs1 (Lf a es')) = toff (plug fs (Lf a es'))" unfolding f plug.simps by (rule toff_plug) (simp add: plug1_def)
  ultimately show ?thesis using sv(1,2) by (intro exI [of _ "(parent1, pi) # rest"] exI [of _ "save_nodes [parent1] t"] exI [of _ ?fs1]) (simp add: f)
next
  case False
  have "resep g (map fst es') path t = (path, t)"
  proof (cases path)
    case (Cons q rest)
    obtain parent pi where q: "q = (parent, pi)" by (cases q)
    obtain a0 ls rs fs' where f: "fs = (a0, ls, rs) # fs'" "pi = length ls" using pa unfolding path_ok_def Cons q by (cases fs) auto
    have "\<not> (g \<and> es' \<noteq> [] \<and> pi > 0)" using False f by (cases ls rule: rev_cases) auto
    then show ?thesis by (auto simp: resep_def Cons q)
  qed (simp add: resep_def)
  moreover have "path = [] \<longleftrightarrow> fs = []" using pa by (auto simp: path_ok_def)
  ultimately show ?thesis using ho st(1) by (intro exI [of _ path] exI [of _ t] exI [of _ fs]) simp
qed

text \<open>The result of a deletion, before the root is looked at.\<close>

lemma delete_entry_ok:
  assumes fo: "found True (tree_lim t) key fs a es leaf path H t" and i: "i < length es" and root: "pt_root t = toff (plug fs (Lf a es))"
    and un: "\<forall>x \<in> set (hole_items fs [Lf a es] []). length (ikey x) = L"
    and fill: "fs \<noteq> [] \<Longrightarrow> unat (pt_page_size t) div 2 + L + 10 \<le> 28 + entries_size (map fst es)"
    and cap: "1 \<le> pt_capacity t"
  shows "\<exists>t' T'. delete_entry leaf i path t = (None, t') \<and> pt_inv True (length fs) T' t' \<and>
    entries T' = entries_pre fs @ remove_at es i @ entries_post fs \<and>
    pt_entry_count t' = (if pt_entry_count t > 0 then pt_entry_count t - 1 else pt_entry_count t) \<and> pt_capacity t' = pt_capacity t"
proof -
  let ?ps = "unat (pt_page_size t)"
  have f: "hole_ok (view t) ?ps (tree_lim t) True 0 fs [Lf a es] []" "view t a = Some (clean leaf)" "node_offset leaf = a" "path_ok (view t) fs path"
    "store_ok {} H t" "insert a (fst ` set fs) \<subseteq> H" using fo by (simp_all add: found_def)
  obtain nx pv where lf: "clean leaf = leaf_node a es nx pv" using f(1,2) by (auto simp: hole_ok_def)
  note nf = clean_fields(1,2) [OF lf, simplified]
  define es' where "es' = remove_at es i"
  define node where "node = leaf\<lparr>node_keys := remove_at (map fst es) i, node_values := remove_at (map snd es) i, node_dirty := True\<rparr>"
  have n: "clean node = leaf_node a es' nx pv" "node_offset node = a"
  proof -
    have "clean node = (clean leaf)\<lparr>node_keys := remove_at (map fst es) i, node_values := remove_at (map snd es) i\<rparr>" by (simp add: node_def)
    then show "clean node = leaf_node a es' nx pv" unfolding lf by (simp add: leaf_node_def es'_def remove_at_facts)
  qed (simp add: node_def f(3))
  have ei: "es = take i es @ es ! i # drop (i + 1) es" using i by (simp add: id_take_nth_drop)
  have keys: "length (fst (es ! i)) = L"
  proof -
    have "(case es ! i of (k, v) \<Rightarrow> Ent k v) \<in> set (hole_items fs [Lf a es] [])" using i by (simp add: hole_items_def)
    then show ?thesis using un by (cases "es ! i") auto
  qed
  have "entries_size (map fst es) = entries_size (map fst es') + L + 10"
    by (subst ei) (simp add: es'_def remove_at_def keys)
  then have sz: "28 + entries_size (map fst es') \<le> ?ps" "fs \<noteq> [] \<Longrightarrow> ?ps div 2 \<le> 28 + entries_size (map fst es')"
    using f(1) fill by (auto simp: hole_ok_def)
  have po: "page_off ?ps a" using f(1) by (simp add: hole_ok_def offs_ok_def hole_offs_def)
  have psz: "4096 \<le> ?ps" using f(5) page_size_cases [of "pt_file t"] by (auto simp: store_ok_def cache_ok_def)
  have ne: "es' \<noteq> [] \<or> fs = []"
  proof (rule ccontr)
    assume "\<not> ?thesis"
    then show False using sz(2) psz by simp
  qed
  have "items_ok True ((items_pre fs @ ent_items (take i es)) @ (case es ! i of (k, v) \<Rightarrow> Ent k v) # (ent_items (drop (i + 1) es) @ items_post fs))"
  proof -
    have "ent_items es = ent_items (take i es) @ (case es ! i of (k, v) \<Rightarrow> Ent k v) # ent_items (drop (i + 1) es)" by (subst ei) simp
    then show ?thesis using f(1) by (simp add: hole_ok_def hole_items_def)
  qed
  from items_ok_remove [OF this] have it: "items_ok True (items_pre fs @ ent_items es' @ items_post fs)" by (simp add: es'_def remove_at_def)
  define t1 where "t1 = save_nodes [node] t"
  have "node_ok (pt_page_size t) (clean node)" unfolding n(1) by (rule node_ok_leaf [OF po sz(1)])
  then have nok: "node_ok (pt_page_size t) node" by simp
  have aH: "node_offset node \<in> H" using f(6) n(2) by simp
  note sv = save_one_ok [OF f(5) aH nok, folded t1_def, unfolded n]
  define t2 where "t2 = (if pt_entry_count t1 > 0 then t1\<lparr>pt_entry_count := pt_entry_count t1 - 1\<rparr> else t1)"
  have t2: "view t2 = view t1" "store_ok {} H t2" "pt_page_size t2 = pt_page_size t" "pt_root t2 = pt_root t" "tree_lim t2 = tree_lim t" "pt_capacity t2 = pt_capacity t"
    "pt_entry_count t2 = (if pt_entry_count t > 0 then pt_entry_count t - 1 else pt_entry_count t)"
    using sv(1) same_treeD [OF sv(2)] same_tree_lim [OF sv(2)] by (simp_all add: t2_def store_ok_def tree_lim_def)
  have ho2: "hole_ok (view t2) (unat (pt_page_size t2)) (tree_lim t) True 0 fs [Lf a es'] []"
    unfolding t2(1,3) sv(3) using hole_leaf_update [OF f(1) _ it sz(1) ne] f(2) lf by simp
  have d: "distinct (offs_pre fs @ a # offs_post fs)" using f(1) by (simp add: hole_ok_def offs_ok_def hole_offs_def)
  have pa2: "path_ok (view t2) fs path"
  proof (rule path_ok_mono [OF f(4)])
    fix x m
    assume x: "x \<in> set fs" "view t (fst x) = Some m"
    then have "fst x \<noteq> a" using frames_offs [OF x(1)] d by auto
    then show "view t2 (fst x) = Some m" using x(2) by (simp add: t2(1) sv(3))
  qed
  have sub: "set (hole_items fs [Lf a es'] []) \<subseteq> set (hole_items fs [Lf a es] [])"
    using remove_at_facts(3) [of es i] by (auto simp: hole_items_def es'_def)
  have un': "\<forall>x \<in> set (hole_items fs [Lf a es'] []). length (ikey x) = L" using un sub by blast
  have it0: "items_ok True (hole_items fs [Lf a ((fst (es ! 0), snd (es ! 0)) # es')] [])" if "i = 0"
  proof -
    have "(fst (es ! 0), snd (es ! 0)) # es' = es" using that ei i by (simp add: es'_def remove_at_def)
    then show ?thesis using f(1) by (simp only: hole_ok_def)
  qed
  have fH: "fst ` set fs \<subseteq> H" using f(6) by simp
  from resep_ok [OF ho2 pa2 t2(2) fH it0 un'] obtain path1 t3 fs1 where r: "resep (i = 0) (map fst es') path t2 = (path1, t3)"
    "hole_ok (view t3) ?ps (tree_lim t) True 0 fs1 [Lf a es'] []" "length fs1 = length fs" "entries_pre fs1 = entries_pre fs" "entries_post fs1 = entries_post fs"
    "toff (plug fs1 (Lf a es')) = toff (plug fs (Lf a es'))" "store_ok {} H t3" "same_tree t2 t3" "path1 = [] \<longleftrightarrow> fs = []" unfolding t2(3) by blast
  note s3 = same_treeD [OF r(8)]
  have nl: "is_leaf node" "node_keys node = map fst es'" using clean_fields(1,8) [OF n(1)] by simp_all
  have up: "delete_up node path1 t3 = (None, t3)"
  proof (cases path1)
    case (Cons q path2)
    then have "\<not> is_underflow node t3" using sz(2) r(9) nl s3(1) t2(3) by (simp add: is_underflow_def node_size_def leaf_size_def entries_size_def min_node_size_def)
    then show ?thesis by (cases q) (simp add: Cons)
  qed simp
  have "toff (plug fs (Lf a es')) = toff (plug fs (Lf a es))" by (rule toff_plug) simp
  then have inv3: "pt_inv True (length fs) (plug fs1 (Lf a es')) t3"
    using r(2,6,7) hole_ok_plug [of "view t3" ?ps "tree_lim t" True 0 fs1 "Lf a es'"] store_ok_release [OF r(7)] root r(3) s3 t2 same_tree_lim [OF r(8)]
    by (simp add: pt_inv_def)
  have c3: "1 \<le> pt_capacity t3" using cap s3(2) t2(6) by simp
  from shrink_root_keep [OF inv3 c3] obtain t' where t': "shrink_root t3 = (None, t')" "pt_inv True (length fs) (plug fs1 (Lf a es')) t'" "same_tree t3 t'" by blast
  have "delete_entry leaf i path t = (None, t')"
    using i nf nl r(1) [unfolded t2_def] up t'(1)
    by (cases "pt_entry_count t1 > 0") (simp_all add: delete_entry_def Let_def node_def [symmetric] t1_def [symmetric])
  moreover have "entries (plug fs1 (Lf a es')) = entries_pre fs @ es' @ entries_post fs" using r(4,5) by (simp add: entries_plug)
  moreover have "pt_entry_count t' = pt_entry_count t2" "pt_capacity t' = pt_capacity t" using s3 same_treeD [OF t'(3)] t2(6) by simp_all
  ultimately show ?thesis using t'(2) t2(7) unfolding es'_def by metis
qed

text \<open>
  Deletion of an entry that is there, in a tree whose keys all have one length, when the leaf with it stays half full or is the
  root: the wanted location is then found in the leaf where the descent ends.
\<close>

lemma find_by_location_here:
  assumes n: "clean n = leaf_node a es nx pv" and i: "i < length es" "es ! i = (key, v)"
  shows "find_leaf_entry_by_location n i key v t = (Inr (Some (n, i)), t)"
proof -
  note nf = clean_fields(1,2) [OF n, simplified]
  have u: "[i..<length (node_keys n)] = i # [Suc i..<length es]" using i(1) nf(1) by (simp add: upt_conv_Cons)
  have "match_in_run n key v [i..<length (node_keys n)] = Some i" unfolding u using i by (simp add: match_in_run_def matches_at_def nf)
  then have "find_forward (Suc k) (\<lambda>_. 0) n i key v t = (Inr (Some (n, i)), t)" for k by (simp del: upt.simps)
  from this [of 99999] show ?thesis by (simp add: find_leaf_entry_by_location_def del: find_forward.simps)
qed

lemma delete_ok:
  assumes inv: "pt_inv True h T t" and h: "h \<le> max_depth" "Suc h \<le> pt_capacity t"
    and e: "(key, v) \<in> set (entries T)" and loc: "loc = None \<or> loc = Some v"
    and un: "\<forall>x \<in> set (items T). length (ikey x) = L"
    and fill: "0 < h \<Longrightarrow> \<forall>(a, es) \<in> set (lvs T). key \<in> fst ` set es \<longrightarrow> unat (pt_page_size t) div 2 + L + 10 \<le> 28 + entries_size (map fst es)"
  shows "\<exists>t' T'. pt_delete None key loc t = (None, t') \<and> pt_inv True h T' t' \<and> entries T' = filter (\<lambda>e. fst e \<noteq> key) (entries T) \<and>
    pt_entry_count t' = (if pt_entry_count t > 0 then pt_entry_count t - 1 else pt_entry_count t) \<and> pt_capacity t' = pt_capacity t"
proof (rule find_leaf_standing [OF inv h, of key])
  fix leaf path t1 fs a es H
  assume f: "find_leaf key t = (Inr (leaf, path), t1)" "found True (tree_lim t) key fs a es leaf path H t1" "plug fs (Lf a es) = T" "length fs = h"
    "same_tree t t1" "pt_inv True h T t1" "standing T (lvs_pre fs) (a, es) (lvs_post fs) leaf"
    "sorted_wrt (<) (map fst es)" "entries T = entries_pre fs @ es @ entries_post fs" "key \<notin> fst ` set (entries_pre fs @ entries_post fs)"
  let ?i = "lower_bound (map fst es) key"
  have kv: "(key, v) \<in> set es" using e f(9,10) by force
  obtain nx pv where n: "clean leaf = leaf_node a es nx pv" using f(7) by (auto simp: standing_def)
  have nk: "node_keys leaf = map fst es" using clean_fields(1) [OF n] by simp
  obtain i where i: "i < length es" "es ! i = (key, v)" using kv by (auto simp: in_set_conv_nth)
  have ii: "?i = i"
  proof -
    have "map_of es key = Some v" using kv f(8) by (simp add: strict_sorted_iff)
    then have "?i < length es" "fst (es ! ?i) = key" using lower_bound_map_of [OF f(8), of key] by (simp_all split: if_splits)
    then have "map fst es ! ?i = map fst es ! i" using i by simp
    moreover have "distinct (map fst es)" using f(8) by (simp add: strict_sorted_iff)
    ultimately show ?thesis using i(1) \<open>?i < length es\<close> nth_eq_iff_index_eq [of "map fst es"] by (metis length_map)
  qed
  note s1 = same_treeD [OF f(5)]
  have un1: "\<forall>x \<in> set (hole_items fs [Lf a es] []). length (ikey x) = L" using un items_plug [of fs "Lf a es"] f(3) by (simp add: hole_items_def)
  have mem: "(a, es) \<in> set (lvs T)" using f(7) by (simp add: standing_def)
  have fill1: "unat (pt_page_size t1) div 2 + L + 10 \<le> 28 + entries_size (map fst es)" if "fs \<noteq> []"
    using fill that f(4) mem kv s1(1) by force
  have fo: "found True (tree_lim t1) key fs a es leaf path H t1" using f(2) same_tree_lim [OF f(5)] by simp
  have root: "pt_root t1 = toff (plug fs (Lf a es))" using f(3,6) by (simp add: pt_inv_def)
  have cap: "1 \<le> pt_capacity t1" using h(2) s1(2) by simp
  from delete_entry_ok [OF fo i(1) root un1 fill1 cap] obtain t' T' where d: "delete_entry leaf i path t1 = (None, t')" "pt_inv True h T' t'"
    "entries T' = entries_pre fs @ remove_at es i @ entries_post fs"
    "pt_entry_count t' = (if pt_entry_count t1 > 0 then pt_entry_count t1 - 1 else pt_entry_count t1)" "pt_capacity t' = pt_capacity t1" using f(4) by blast
  have "pt_delete None key loc t = (None, t')"
    using loc f(1) nk ii i d(1) find_by_location_here [OF n i] by (auto simp: pt_delete_def Let_def)
  moreover have "entries T' = filter (\<lambda>e. fst e \<noteq> key) (entries T)"
  proof -
    have "remove_at es i = filter (\<lambda>e. fst e \<noteq> key) es" by (rule remove_at_filter [OF f(8) i(1)]) (use i(2) in simp)
    moreover have "filter (\<lambda>e. fst e \<noteq> key) (entries_pre fs) = entries_pre fs" "filter (\<lambda>e. fst e \<noteq> key) (entries_post fs) = entries_post fs"
      using f(10) by (auto intro!: filter_True)
    ultimately show ?thesis using d(3) f(9) by simp
  qed
  ultimately show ?thesis using d(2,4,5) s1(2,5) by metis
qed

end
