(* ===== verification/Persist_Index.thy ===== *)
theory Persist_Index
  imports Tree_Open Tree_Iterator Tree_Delete
begin

text \<open>
  The persistent index: \<open>src/index/persist_index.go\<close>, and the statistics of the tree. The directory of the
  file is there; closing the file cannot fail. The loops of
  \<open>DeleteRange\<close> and of the entry count take fuel.

  What a client of an index relies on is stated once, as the laws of the locale \<open>ordered_index\<close>:
  lookups answer by the entries, insertion adds an entry in order. The batch operations are correct
  for everything that has these laws, and the tree has them for up to \<open>2 ^ 29\<close> entries, when its cache holds 64 pages.
\<close>

section \<open>The operations\<close>

record index_config =
  ic_page_size :: u32
  ic_primary_cache_mb :: int
  ic_author_time_cache_mb :: int
  ic_search_cache_mb :: int
  ic_kind_time_cache_mb :: int

record persist_index =
  px_tree :: persist_tree
  px_closed :: bool

definition index_type_primary :: u32 where "index_type_primary = 1"
definition index_type_author_time :: u32 where "index_type_author_time = 2"
definition index_type_search :: u32 where "index_type_search = 3"
definition index_type_kind_time :: u32 where "index_type_kind_time = 4"

definition err_index_closed :: go_error where "err_index_closed = Err ''index is closed''"

definition cache_mb_for_index_type :: "index_config \<Rightarrow> u32 \<Rightarrow> int" where
  "cache_mb_for_index_type cfg ty =
     (if ty = index_type_primary then ic_primary_cache_mb cfg
      else if ty = index_type_author_time then ic_author_time_cache_mb cfg
      else if ty = index_type_search then ic_search_cache_mb cfg
      else if ty = index_type_kind_time then ic_kind_time_cache_mb cfg
      else 10)"

definition new_persistent_index :: "nat \<Rightarrow> bytes option \<Rightarrow> index_config \<Rightarrow> u32 \<Rightarrow> persist_index result option" where
  "new_persistent_index d disk cfg ty =
     (case open_index_file disk ty (ic_page_size cfg) True of
        Inl x \<Rightarrow> Some (Inl x)
      | Inr f \<Rightarrow>
          let mb = cache_mb_for_index_type cfg ty; mb1 = (if mb \<le> 0 then 10 else mb)
          in case open_btree d f (new_btree_cache (if_page_size f) mb1) of
               None \<Rightarrow> None
             | Some (Inl x) \<Rightarrow> Some (Inl x)
             | Some (Inr t) \<Rightarrow> Some (Inr \<lparr>px_tree = t, px_closed = False\<rparr>))"

definition px_insert :: "go_error option \<Rightarrow> bytes \<Rightarrow> location \<Rightarrow> persist_index \<Rightarrow> go_error option \<times> persist_index" where
  "px_insert ctx key val idx =
     (if px_closed idx then (Some err_index_closed, idx)
      else case pt_insert ctx key val (px_tree idx) of (x, t) \<Rightarrow> (x, idx\<lparr>px_tree := t\<rparr>))"

definition px_get :: "go_error option \<Rightarrow> bytes \<Rightarrow> persist_index \<Rightarrow> location option result \<times> persist_index" where
  "px_get ctx key idx =
     (if px_closed idx then (Inl err_index_closed, idx)
      else case pt_get ctx key (px_tree idx) of (x, t) \<Rightarrow> (x, idx\<lparr>px_tree := t\<rparr>))"

definition px_delete :: "go_error option \<Rightarrow> bytes \<Rightarrow> location option \<Rightarrow> persist_index \<Rightarrow> go_error option \<times> persist_index" where
  "px_delete ctx key loc idx =
     (if px_closed idx then (Some err_index_closed, idx)
      else case pt_delete ctx key loc (px_tree idx) of (x, t) \<Rightarrow> (x, idx\<lparr>px_tree := t\<rparr>))"

text \<open>The loops of the batch operations, over any lookup and any insertion; they stop at the first error.\<close>

fun get_each :: "(bytes \<Rightarrow> 's \<Rightarrow> location option result \<times> 's) \<Rightarrow> bytes list \<Rightarrow> 's \<Rightarrow> location option list result \<times> 's" where
  "get_each get [] s = (Inr [], s)"
| "get_each get (k # ks) s =
     (case get k s of
        (Inl x, s1) \<Rightarrow> (Inl x, s1)
      | (Inr v, s1) \<Rightarrow> (case get_each get ks s1 of (Inl x, s2) \<Rightarrow> (Inl x, s2) | (Inr vs, s2) \<Rightarrow> (Inr (v # vs), s2)))"

fun do_each :: "('a \<Rightarrow> 's \<Rightarrow> go_error option \<times> 's) \<Rightarrow> 'a list \<Rightarrow> 's \<Rightarrow> go_error option \<times> 's" where
  "do_each f [] s = (None, s)"
| "do_each f (a # as) s = (case f a s of (Some x, s1) \<Rightarrow> (Some x, s1) | (None, s1) \<Rightarrow> do_each f as s1)"

definition px_get_batch :: "go_error option \<Rightarrow> bytes list \<Rightarrow> persist_index \<Rightarrow> (location list \<times> bool list) result \<times> persist_index" where
  "px_get_batch ctx keys idx =
     (if px_closed idx then (Inl err_index_closed, idx)
      else case get_each (pt_get ctx) keys (px_tree idx) of
        (Inl x, t) \<Rightarrow> (Inl x, idx\<lparr>px_tree := t\<rparr>)
      | (Inr vs, t) \<Rightarrow> (Inr (map (\<lambda>v. case v of None \<Rightarrow> zero_loc | Some l \<Rightarrow> l) vs, map (\<lambda>v. v \<noteq> None) vs), idx\<lparr>px_tree := t\<rparr>))"

definition px_insert_batch :: "go_error option \<Rightarrow> bytes list \<Rightarrow> location list \<Rightarrow> persist_index \<Rightarrow> go_error option \<times> persist_index" where
  "px_insert_batch ctx keys vals idx =
     (if px_closed idx then (Some err_index_closed, idx)
      else if length keys \<noteq> length vals then (Some (Err ''keys and values length mismatch''), idx)
      else case do_each (\<lambda>(k, v). pt_insert ctx k v) (zip keys vals) (px_tree idx) of (x, t) \<Rightarrow> (x, idx\<lparr>px_tree := t\<rparr>))"

text \<open>A missing list of locations is None; a list may be shorter than that of the keys.\<close>

definition px_delete_batch :: "go_error option \<Rightarrow> bytes list \<Rightarrow> location option list option \<Rightarrow> persist_index \<Rightarrow> go_error option \<times> persist_index" where
  "px_delete_batch ctx keys locs idx =
     (if px_closed idx then (Some err_index_closed, idx)
      else let ls = (case locs of None \<Rightarrow> [] | Some l \<Rightarrow> l); ls1 = map (\<lambda>i. if i < length ls then ls ! i else None) [0..<length keys]
        in case do_each (\<lambda>(k, l). pt_delete ctx k l) (zip keys ls1) (px_tree idx) of (x, t) \<Rightarrow> (x, idx\<lparr>px_tree := t\<rparr>))"

definition px_range :: "go_error option \<Rightarrow> bytes option \<Rightarrow> bytes option \<Rightarrow> bool \<Rightarrow> persist_index \<Rightarrow> bt_iter result \<times> persist_index" where
  "px_range ctx mn mx desc idx =
     (if px_closed idx then (Inl err_index_closed, idx)
      else case range_iter ctx mn mx desc (px_tree idx) of (x, t) \<Rightarrow> (x, idx\<lparr>px_tree := t\<rparr>))"

text \<open>
  Deletion under a running iterator: its keys and values are a snapshot, but its node is the object that deletion changes, as long
  as the cache holds it. None when the iterator has not ended after so many steps.
\<close>

definition follow_node :: "persist_tree \<Rightarrow> bt_iter \<Rightarrow> bt_iter" where
  "follow_node t it = (case map_of (bc_entries (pt_cache t)) (node_offset (bi_node it)) of None \<Rightarrow> it | Some e \<Rightarrow> it\<lparr>bi_node := ce_node e\<rparr>)"

fun delete_each :: "nat \<Rightarrow> go_error option \<Rightarrow> bt_iter \<Rightarrow> persist_tree \<Rightarrow> go_error option option \<times> persist_tree" where
  "delete_each k ctx it t =
     (if \<not> bi_is_valid it then (Some None, t)
      else case k of
        0 \<Rightarrow> (None, t)
      | Suc k' \<Rightarrow>
          (case pt_delete ctx (bi_key it) None t of
             (Some x, t1) \<Rightarrow> (Some (Some x), t1)
           | (None, t1) \<Rightarrow>
               (case bi_next (follow_node t1 it) t1 of
                  ((Some x, it1), t2) \<Rightarrow> (Some (Some x), t2)
                | ((None, it1), t2) \<Rightarrow> delete_each k' ctx it1 t2)))"

declare delete_each.simps [simp del]

definition px_delete_range :: "nat \<Rightarrow> go_error option \<Rightarrow> bytes option \<Rightarrow> bytes option \<Rightarrow> persist_index \<Rightarrow> go_error option option \<times> persist_index" where
  "px_delete_range k ctx mn mx idx =
     (if px_closed idx then (Some (Some err_index_closed), idx)
      else case range_iter ctx mn mx False (px_tree idx) of
        (Inl x, t) \<Rightarrow> (Some (Some x), idx\<lparr>px_tree := t\<rparr>)
      | (Inr it, t) \<Rightarrow> (case delete_each k ctx it t of (r, t1) \<Rightarrow> (r, idx\<lparr>px_tree := t1\<rparr>)))"

definition px_flush :: "go_error option \<Rightarrow> persist_index \<Rightarrow> go_error option \<times> persist_index" where
  "px_flush ctx idx =
     (if px_closed idx then (Some err_index_closed, idx)
      else case ctx of
        Some e \<Rightarrow> (Some e, idx)
      | None \<Rightarrow> (case flush_tree (px_tree idx) of (x, t) \<Rightarrow> (x, idx\<lparr>px_tree := t\<rparr>)))"

definition px_close :: "persist_index \<Rightarrow> go_error option \<times> persist_index" where
  "px_close idx =
     (if px_closed idx then (None, idx)
      else case flush_tree (px_tree idx) of (x, t) \<Rightarrow> (x, idx\<lparr>px_tree := t, px_closed := True\<rparr>))"

fun depth_from :: "nat \<Rightarrow> nat \<Rightarrow> btree_node \<Rightarrow> persist_tree \<Rightarrow> nat \<times> persist_tree" where
  "depth_from 0 depth node t = (depth, t)"
| "depth_from (Suc k) depth node t =
     (if is_leaf node then (depth, t)
      else if depth + 1 > 100 \<or> node_children node = [] then (depth + 1, t)
      else case load_node (hd (node_children node)) t of
        (Inl x, t1) \<Rightarrow> (depth + 1, t1)
      | (Inr n, t1) \<Rightarrow> depth_from k (depth + 1) n t1)"

definition calculate_depth :: "persist_tree \<Rightarrow> nat \<times> persist_tree" where
  "calculate_depth t =
     (if pt_root t = 0 then (0, t)
      else case load_node (pt_root t) t of (Inl x, t1) \<Rightarrow> (0, t1) | (Inr n, t1) \<Rightarrow> depth_from 101 1 n t1)"

record tree_stats =
  ts_entry_count :: u64
  ts_node_count :: nat
  ts_leaf_count :: nat
  ts_depth :: nat

definition px_stats :: "persist_index \<Rightarrow> tree_stats \<times> persist_index" where
  "px_stats idx =
     (let t = px_tree idx; n = unat (ih_node_count (if_header (pt_file t)))
      in case calculate_depth t of
           (d, t1) \<Rightarrow> (\<lparr>ts_entry_count = pt_entry_count t, ts_node_count = n, ts_leaf_count = (n + 1) div 2, ts_depth = d\<rparr>, idx\<lparr>px_tree := t1\<rparr>))"

definition px_verify_entry_count :: "nat \<Rightarrow> persist_index \<Rightarrow> (u64 \<times> u64) result option \<times> persist_index" where
  "px_verify_entry_count d idx =
     (if px_closed idx then (Some (Inl err_index_closed), idx)
      else case px_stats idx of
        (st, idx1) \<Rightarrow>
          (case count_entries_in_tree d (px_tree idx1) of
             None \<Rightarrow> (None, idx1)
           | Some (n, t) \<Rightarrow> (Some (Inr (ts_entry_count st, n)), idx1\<lparr>px_tree := t\<rparr>)))"

definition px_resize_cache :: "int \<Rightarrow> persist_index \<Rightarrow> (nat \<times> go_error option) \<times> persist_index" where
  "px_resize_cache mb idx =
     (if px_closed idx then ((0, Some err_index_closed), idx)
      else case resize_cache mb (pt_file (px_tree idx)) (pt_cache (px_tree idx)) of
        (r, f, c) \<Rightarrow> (r, idx\<lparr>px_tree := (px_tree idx)\<lparr>pt_file := f, pt_cache := c\<rparr>\<rparr>))"

definition px_cache_capacity_mb :: "persist_index \<Rightarrow> nat" where
  "px_cache_capacity_mb idx = (if px_closed idx then 0 else get_capacity_mb (pt_cache (px_tree idx)))"

section \<open>The contract of an index\<close>

text \<open>Insertion alone, and insertion with lookup; \<open>room\<close> bounds the number of entries.\<close>

locale growing_index =
  fixes inv :: "(bytes \<times> location) list \<Rightarrow> 's \<Rightarrow> bool"
    and ins :: "bytes \<Rightarrow> location \<Rightarrow> 's \<Rightarrow> go_error option \<times> 's"
    and key_ok :: "bytes \<Rightarrow> bool"
    and room :: nat
  assumes ins_law: "inv es s \<Longrightarrow> length es < room \<Longrightarrow> key_ok k \<Longrightarrow> k \<notin> fst ` set es \<Longrightarrow>
      \<exists>s' A B. ins k v s = (None, s') \<and> es = A @ B \<and> inv (A @ (k, v) # B) s'"
begin

lemma insert_each_ok:
  "inv es s \<Longrightarrow> length es + length kvs < room \<Longrightarrow> \<forall>p \<in> set kvs. key_ok (fst p) \<Longrightarrow> distinct (map fst kvs) \<Longrightarrow> fst ` set kvs \<inter> fst ` set es = {} \<Longrightarrow>
   \<exists>s' es'. do_each (\<lambda>(k, v). ins k v) kvs s = (None, s') \<and> inv es' s' \<and> length es' = length es + length kvs \<and> map_of es' = map_of es ++ map_of kvs \<and>
     set es' = set es \<union> set kvs"
proof (induction kvs arbitrary: es s)
  case (Cons p kvs)
  obtain k v where p: "p = (k, v)" by (cases p)
  have k: "k \<notin> fst ` set es" "key_ok k" "length es < room" using Cons.prems(2-5) by (auto simp: p)
  obtain s1 A B where 1: "ins k v s = (None, s1)" "es = A @ B" "inv (A @ (k, v) # B) s1" using ins_law [OF Cons.prems(1) k(3,2,1)] by blast
  have mA: "map_of A k = None" using k(1) 1(2) by (auto simp: map_of_eq_None_iff)
  have ent: "map_of (A @ (k, v) # B) = (map_of es)(k \<mapsto> v)" unfolding 1(2) using mA by (intro ext) (simp add: map_add_def split: option.split)
  have kk: "k \<notin> fst ` set kvs" using Cons.prems(4) by (auto simp: p)
  have "fst ` set kvs \<inter> fst ` set (A @ (k, v) # B) = {}" using Cons.prems(5) kk 1(2) by auto
  from Cons.IH [OF 1(3) _ _ _ this] obtain s2 es' where 2: "do_each (\<lambda>(k, v). ins k v) kvs s1 = (None, s2)" "inv es' s2"
    "length es' = length (A @ (k, v) # B) + length kvs" "map_of es' = map_of (A @ (k, v) # B) ++ map_of kvs" "set es' = set (A @ (k, v) # B) \<union> set kvs"
    using Cons.prems(2-4) 1(2) by auto
  have "map_of kvs k = None" using kk by (simp add: map_of_eq_None_iff)
  then have "(map_of es)(k \<mapsto> v) ++ map_of kvs = map_of es ++ map_of (p # kvs)"
    by (intro ext) (simp add: p map_add_def split: option.split)
  then have "map_of es' = map_of es ++ map_of (p # kvs)" using 2(4) ent by simp
  moreover have "do_each (\<lambda>(k, v). ins k v) (p # kvs) s = (None, s2)" using 1(1) 2(1) by (simp add: p)
  moreover have "length es' = length es + length (p # kvs)" "set es' = set es \<union> set (p # kvs)" using 2(3,5) 1(2) by (auto simp: p)
  ultimately show ?case using 2(2) by blast
qed auto

end

locale ordered_index = growing_index inv ins key_ok room
  for inv :: "(bytes \<times> location) list \<Rightarrow> 's \<Rightarrow> bool" and ins key_ok room +
  fixes get :: "bytes \<Rightarrow> 's \<Rightarrow> location option result \<times> 's"
  assumes get_law: "inv es s \<Longrightarrow> length es < room \<Longrightarrow> \<exists>s'. get k s = (Inr (map_of es k), s') \<and> inv es s'"
begin

lemma get_each_ok: "inv es s \<Longrightarrow> length es < room \<Longrightarrow> \<exists>s'. get_each get ks s = (Inr (map (map_of es) ks), s') \<and> inv es s'"
proof (induction ks arbitrary: s)
  case (Cons k ks)
  obtain s1 where 1: "get k s = (Inr (map_of es k), s1)" "inv es s1" using get_law [OF Cons.prems] by blast
  obtain s2 where "get_each get ks s1 = (Inr (map (map_of es) ks), s2)" "inv es s2" using Cons.IH [OF 1(2) Cons.prems(2)] by blast
  then show ?case using 1 by simp
qed simp

end

section \<open>The tree has the contract\<close>

text \<open>Every internal node has two children, so a tree of height \<open>h\<close> has at least \<open>2 ^ h\<close> entries.\<close>

lemma height_bound: "good e ps h T \<Longrightarrow> e \<and> h = 0 \<or> 2 ^ h \<le> length (entries T)"
proof (induction e ps h T rule: good.induct)
  case (1 e ps a es)
  then show ?case by (cases es) auto
next
  case (2 e ps h a ks ts)
  have ge: "2 ^ h \<le> length (entries x)" if "x \<in> set ts" for x using 2 that by auto
  obtain x y zs where ts: "ts = x # y # zs" using 2(2) by (cases ts; cases "tl ts"; cases ks) auto
  then show ?case using ge [of x] ge [of y] by simp
qed simp_all

text \<open>The tree of an index of type \<open>ty\<close> with its entries, under distinct keys or, in a secondary index, under any.\<close>

definition tree_stores :: "bool \<Rightarrow> u32 \<Rightarrow> (bytes \<times> location) list \<Rightarrow> persist_tree \<Rightarrow> bool" where
  "tree_stores s ty es t \<longleftrightarrow> 64 \<le> pt_capacity t \<and> header_ok ty t \<and> tree_lim t \<le> (2 + 31 * length es) * unat (pt_page_size t) \<and>
     (\<exists>h T. pt_inv s h T t \<and> entries T = es)"

definition tree_holds :: "u32 \<Rightarrow> (bytes \<times> location) list \<Rightarrow> persist_tree \<Rightarrow> bool" where
  "tree_holds ty es t \<longleftrightarrow> 64 \<le> pt_capacity t \<and> header_ok ty t \<and> tree_lim t \<le> (2 + 31 * length es) * unat (pt_page_size t) \<and>
     (\<exists>h T. pt_inv True h T t \<and> entries T = es)"

lemma tree_holds_stores: "tree_holds ty es t \<longleftrightarrow> tree_stores True ty es t"
  by (simp add: tree_holds_def tree_stores_def)

lemma tree_stores_bounds:
  assumes "tree_stores s ty es t" "length es < 2 ^ 29"
  obtains h T where "pt_inv s h T t" "entries T = es" "h \<le> 29" "h \<le> max_depth" "2 * h + 4 \<le> pt_capacity t" "Suc h \<le> pt_capacity t"
    "tree_lim t + (h + 2) * unat (pt_page_size t) < 2 ^ 63"
proof -
  obtain h T where T: "pt_inv s h T t" "entries T = es" using assms(1) by (auto simp: tree_stores_def)
  have g: "good True (unat (pt_page_size t)) h T" and fok: "file_ok (pt_file t)"
    using T(1) by (simp_all add: pt_inv_def hole_ok_def store_ok_def cache_ok_def)
  have h: "h < 29"
  proof (rule ccontr)
    assume "\<not> h < 29"
    then have "(2 :: nat) ^ 29 \<le> 2 ^ h" by (intro power_increasing) auto
    then show False using height_bound [OF g] T(2) assms(2) \<open>\<not> h < 29\<close> by simp
  qed
  let ?ps = "unat (pt_page_size t)"
  have ps: "?ps \<le> 16384" using page_size_cases [OF fok] by auto
  have "(h + 2) * ?ps \<le> 31 * ?ps" using h by (intro mult_le_mono1) simp
  then have "tree_lim t + (h + 2) * ?ps \<le> (2 + 31 * length es) * ?ps + 31 * ?ps" using assms(1) unfolding tree_stores_def by linarith
  also have "\<dots> = (33 + 31 * length es) * ?ps" by (simp add: algebra_simps)
  also have "\<dots> \<le> (33 + 31 * 2 ^ 29) * 16384" using ps assms(2) by (intro mult_le_mono) auto
  finally have "tree_lim t + (h + 2) * ?ps < 2 ^ 63" by simp
  then show thesis using that [OF T] h assms(1) by (simp add: tree_stores_def max_depth_def)
qed

lemmas tree_holds_bounds = tree_stores_bounds [where s = True, folded tree_holds_stores]

lemma tree_get_law:
  assumes "tree_holds ty es t" "length es < 2 ^ 29"
  shows "\<exists>t'. pt_get None k t = (Inr (map_of es k), t') \<and> tree_holds ty es t'"
proof (rule tree_holds_bounds [OF assms])
  fix h T
  assume T: "pt_inv True h T t" "entries T = es" "h \<le> max_depth" "Suc h \<le> pt_capacity t"
  obtain t' where t': "pt_get None k t = (Inr (map_of es k), t')" "pt_inv True h T t'" "same_tree t t'"
    using get_ok [OF T(1,3,4), of k] T(2) by blast
  then have "tree_holds ty es t'" using assms(1) T(2) same_treeD [OF t'(3)] same_tree_lim [OF t'(3)]
    by (auto simp: tree_holds_def header_ok_def)
  then show ?thesis using t'(1) by blast
qed

lemma tree_stores_insert:
  assumes "tree_stores s ty es t" "length es < 2 ^ 29" "length k \<le> max_key" "s \<Longrightarrow> k \<in> fst ` set es \<Longrightarrow> (k, v) \<in> set es"
  shows "\<exists>t' es'. pt_insert None k v t = (None, t') \<and> insert_spec k v es (pt_entry_count t) es' (pt_entry_count t') \<and> tree_stores s ty es' t' \<and>
    unsynced t' \<and> pt_page_size t' = pt_page_size t"
proof (rule tree_stores_bounds [OF assms(1,2)])
  fix h T
  assume T: "pt_inv s h T t" "entries T = es" "h \<le> 29" "h \<le> max_depth" "2 * h + 4 \<le> pt_capacity t"
    "tree_lim t + (h + 2) * unat (pt_page_size t) < 2 ^ 63"
  obtain t' h' T' where i: "pt_insert None k v t = (None, t')" "pt_inv s h' T' t'"
    "insert_spec k v es (pt_entry_count t) (entries T') (pt_entry_count t')" "pt_page_size t' = pt_page_size t" "pt_capacity t' = pt_capacity t"
    "\<forall>ty. header_ok ty t \<longrightarrow> header_ok ty t'" "unsynced t'" "tree_lim t' \<le> tree_lim t + (h + 2) * unat (pt_page_size t)"
    "entries T' = es \<longrightarrow> tree_lim t' = tree_lim t"
    using insert_ok [OF T(1) assms(3) _ T(4-6), of v] assms(4) T(2) by auto
  have "tree_lim t' \<le> (2 + 31 * length (entries T')) * unat (pt_page_size t')"
  proof (cases "entries T' = es")
    case True
    then show ?thesis using i(4,9) assms(1) by (simp add: tree_stores_def)
  next
    case False
    then have "length (entries T') = Suc (length es)" using i(3) by (auto simp: insert_spec_def)
    then have "(2 + 31 * length (entries T')) * unat (pt_page_size t') = (2 + 31 * length es) * unat (pt_page_size t) + 31 * unat (pt_page_size t)"
      using i(4) by (simp add: algebra_simps)
    moreover have "(h + 2) * unat (pt_page_size t) \<le> 31 * unat (pt_page_size t)" using T(3) by (intro mult_le_mono1) simp
    ultimately show ?thesis using i(8) assms(1) unfolding tree_stores_def by linarith
  qed
  then have "tree_stores s ty (entries T') t'" using assms(1) i(2,5,6) by (auto simp: tree_stores_def)
  then show ?thesis using i(1,3,4,7) by blast
qed

lemma tree_insert_law:
  assumes "tree_holds ty es t" "length es < 2 ^ 29" "length k \<le> max_key" "k \<notin> fst ` set es"
  shows "\<exists>t' A B. pt_insert None k v t = (None, t') \<and> es = A @ B \<and> tree_holds ty (A @ (k, v) # B) t' \<and> unsynced t' \<and> pt_page_size t' = pt_page_size t"
proof -
  have "(k, v) \<notin> set es" using assms(4) by force
  then show ?thesis using tree_stores_insert [of True ty es t k v] assms unfolding tree_holds_stores by (auto simp: insert_spec_def)
qed

text \<open>The second reading of the contract: after insertions there is something to flush.\<close>

interpretation pt: ordered_index "tree_holds ty" "pt_insert None" "\<lambda>k. length k \<le> max_key" "2 ^ 29" "pt_get None"
proof
  show "\<exists>s' A B. pt_insert None k v s = (None, s') \<and> es = A @ B \<and> tree_holds ty (A @ (k, v) # B) s'"
    if "tree_holds ty es s" "length es < 2 ^ 29" "length k \<le> max_key" "k \<notin> fst ` set es" for es s k v
    using tree_insert_law [OF that] by blast
  show "\<exists>s'. pt_get None k s = (Inr (map_of es k), s') \<and> tree_holds ty es s'" if "tree_holds ty es s" "length es < 2 ^ 29" for es s k
    by (rule tree_get_law [OF that])
qed

interpretation grow: growing_index "\<lambda>es t. tree_holds ty es t \<and> unsynced t \<and> pt_page_size t = ps" "pt_insert None" "\<lambda>k. length k \<le> max_key" "2 ^ 29"
proof
  show "\<exists>s' A B. pt_insert None k v s = (None, s') \<and> es = A @ B \<and> tree_holds ty (A @ (k, v) # B) s' \<and> unsynced s' \<and> pt_page_size s' = ps"
    if "tree_holds ty es s \<and> unsynced s \<and> pt_page_size s = ps" "length es < 2 ^ 29" "length k \<le> max_key" "k \<notin> fst ` set es" for es s k v
    using tree_insert_law [of ty es s k v] that by auto
qed

section \<open>Sessions\<close>

definition index_config_ok :: "index_config \<Rightarrow> bool" where
  "index_config_ok cfg \<longleftrightarrow> ic_page_size cfg \<in> {4096, 8192, 16384}"

lemma cache_capacity_ge:
  assumes "ps \<in> {4096, 8192, 16384}" "1 \<le> mb"
  shows "64 \<le> cache_capacity mb ps"
proof -
  have u: "uint ps \<in> {4096, 8192, 16384}" using assms(1) by auto
  have "1048576 div uint ps \<le> mb * 1024 * 1024 div uint ps" using assms(2) u by (intro zdiv_mono1) auto
  moreover have "64 \<le> 1048576 div uint ps" using u by auto
  ultimately have "64 \<le> max 16 (mb * 1024 * 1024 div uint ps)" by (simp add: le_max_iff_disj)
  from nat_mono [OF this] show ?thesis unfolding cache_capacity_def by simp
qed

lemma new_cache:
  assumes "index_config_ok cfg"
  obtains c where "c = new_btree_cache (ic_page_size cfg) (if cache_mb_for_index_type cfg ty \<le> 0 then 10 else cache_mb_for_index_type cfg ty)"
    "bc_page_size c = ic_page_size cfg" "64 \<le> bc_capacity c" "bc_entries c = []"
proof -
  let ?mb = "if cache_mb_for_index_type cfg ty \<le> 0 then 10 else cache_mb_for_index_type cfg ty"
  have "64 \<le> cache_capacity ?mb (ic_page_size cfg)" by (rule cache_capacity_ge) (use assms in \<open>auto simp: index_config_ok_def\<close>)
  then show thesis using that [of "new_btree_cache (ic_page_size cfg) ?mb"] by (simp add: new_btree_cache_def)
qed

lemma new_index_ok:
  assumes "index_config_ok cfg"
  shows "\<exists>idx. new_persistent_index d None cfg ty = Some (Inr idx) \<and> \<not> px_closed idx \<and> tree_holds ty [] (px_tree idx) \<and> unsynced (px_tree idx) \<and>
    pt_page_size (px_tree idx) = ic_page_size cfg \<and> pt_entry_count (px_tree idx) = 0"
proof -
  obtain c where c: "c = new_btree_cache (ic_page_size cfg) (if cache_mb_for_index_type cfg ty \<le> 0 then 10 else cache_mb_for_index_type cfg ty)"
    "bc_page_size c = ic_page_size cfg" "64 \<le> bc_capacity c" "bc_entries c = []" by (rule new_cache [OF assms])
  have "16 \<le> bc_capacity c" using c(3) by simp
  with open_new_ok [of "ic_page_size cfg" c ty d True] assms c(2,4) obtain f t where
    t: "open_index_file None ty (ic_page_size cfg) True = Inr f" "open_btree d f c = Some (Inr t)" "pt_inv True 0 (Lf (ucast (ic_page_size cfg)) []) t"
      "header_ok ty t" "pt_entry_count t = 0" "pt_page_size t = ic_page_size cfg" "pt_capacity t = bc_capacity c" "tree_lim t = 2 * unat (ic_page_size cfg)" "unsynced t"
    unfolding index_config_ok_def by blast
  have "if_page_size f = ic_page_size cfg" using t(1) assms by (auto simp: open_index_file_def Let_def index_config_ok_def)
  then have "new_persistent_index d None cfg ty = Some (Inr \<lparr>px_tree = t, px_closed = False\<rparr>)"
    using t(1,2) c(1) by (simp add: new_persistent_index_def Let_def)
  moreover have "tree_holds ty [] t" using t c(3) by (force simp: tree_holds_def)
  ultimately show ?thesis using t by simp
qed

lemma insert_batch_ok:
  assumes "\<not> px_closed idx" "tree_holds ty es (px_tree idx)" "unsynced (px_tree idx)" "length es + length kvs < 2 ^ 29"
    "\<forall>p \<in> set kvs. length (fst p) \<le> max_key" "distinct (map fst kvs)" "fst ` set kvs \<inter> fst ` set es = {}"
  shows "\<exists>idx' es'. px_insert_batch None (map fst kvs) (map snd kvs) idx = (None, idx') \<and> \<not> px_closed idx' \<and> tree_holds ty es' (px_tree idx') \<and>
    unsynced (px_tree idx') \<and> pt_page_size (px_tree idx') = pt_page_size (px_tree idx) \<and> length es' = length es + length kvs \<and> map_of es' = map_of es ++ map_of kvs \<and> set es' = set es \<union> set kvs"
proof -
  obtain t es' where "do_each (\<lambda>(k, v). pt_insert None k v) kvs (px_tree idx) = (None, t)" "tree_holds ty es' t \<and> unsynced t \<and> pt_page_size t = pt_page_size (px_tree idx)"
    "length es' = length es + length kvs" "map_of es' = map_of es ++ map_of kvs" "set es' = set es \<union> set kvs"
    using grow.insert_each_ok [of ty es "px_tree idx" "pt_page_size (px_tree idx)" kvs] assms(2-7) by blast
  then show ?thesis using assms(1)
    by (intro exI [of _ "idx\<lparr>px_tree := t\<rparr>"] exI [of _ es']) (simp add: px_insert_batch_def zip_map_fst_snd)
qed

lemma get_batch_ok:
  assumes "\<not> px_closed idx" "tree_holds ty es (px_tree idx)" "length es < 2 ^ 29"
  shows "\<exists>idx'. px_get_batch None ks idx = (Inr (map (\<lambda>k. case map_of es k of None \<Rightarrow> zero_loc | Some l \<Rightarrow> l) ks, map (\<lambda>k. map_of es k \<noteq> None) ks), idx')"
proof -
  obtain t where "get_each (pt_get None) ks (px_tree idx) = (Inr (map (map_of es) ks), t)" using pt.get_each_ok [OF assms(2,3)] by blast
  then show ?thesis using assms(1) by (simp add: px_get_batch_def o_def)
qed

text \<open>Closing writes everything, and opening the file again gives the index back.\<close>

lemma close_reopen_ok:
  assumes "\<not> px_closed idx" "tree_holds ty es (px_tree idx)" "unsynced (px_tree idx)" "length es < 2 ^ 29"
    and cfg: "index_config_ok cfg" "pt_page_size (px_tree idx) = ic_page_size cfg" and d: "29 < d"
  shows "\<exists>idx1 idx2. px_close idx = (None, idx1) \<and> px_closed idx1 \<and>
    new_persistent_index d (Some (if_bytes (pt_file (px_tree idx1)))) cfg ty = Some (Inr idx2) \<and> \<not> px_closed idx2 \<and>
    tree_holds ty es (px_tree idx2) \<and> pt_entry_count (px_tree idx2) = word_of_nat (length es)"
proof (rule tree_holds_bounds [OF assms(2,4)])
  let ?t = "px_tree idx"
  fix h T
  assume T: "pt_inv True h T ?t" "entries T = es" "h \<le> 29"
  have i: "store_ok {} {} ?t" "hole_ok (view ?t) (unat (pt_page_size ?t)) (tree_lim ?t) True h [] [T] []" "pt_root ?t = toff T"
    using T(1) by (simp_all add: pt_inv_def)
  let ?h = "(if_header (pt_file ?t))\<lparr>ih_entry_count := pt_entry_count ?t\<rparr>"
  from flush_tree_ok [OF i(1)] assms(3) obtain t1 where t1: "flush_tree ?t = (None, t1)" "store_ok {} {} t1"
    "\<And>off n. view ?t off = Some n \<Longrightarrow> page_of (pt_file t1) off = Some n \<and> view t1 off = Some n"
    "pt_page_size t1 = pt_page_size ?t" "pt_root t1 = pt_root ?t" "if_header (pt_file t1) = ?h" "header_stored (pt_file t1) ?h" by blast
  have lim: "tree_lim t1 = tree_lim ?t" using t1(4,6) by (simp add: tree_lim_def)
  have fok: "file_ok (pt_file t1)" using t1(2) by (simp add: store_ok_def cache_ok_def)
  have h1: "header_ok ty t1" "header_stored (pt_file t1) (if_header (pt_file t1))" using assms(2) t1(4-7) by (simp_all add: tree_holds_def header_ok_def)
  have pages: "page_off (unat (pt_page_size t1)) off \<and> page_of (pt_file t1) off = Some n" if "view ?t off = Some n" for off n
    using that t1(3) [OF that] t1(4) by (simp add: fview_def split: if_splits)
  obtain c where c: "c = new_btree_cache (ic_page_size cfg) (if cache_mb_for_index_type cfg ty \<le> 0 then 10 else cache_mb_for_index_type cfg ty)"
    "bc_page_size c = ic_page_size cfg" "64 \<le> bc_capacity c" "bc_entries c = []" by (rule new_cache [OF cfg(1)])
  have ho: "hole_ok (view ?t) (unat (pt_page_size t1)) (tree_lim t1) True h [] [T] []" "pt_root t1 = toff T" using i(2,3) t1(4,5) lim by simp_all
  have c': "bc_page_size c = pt_page_size t1" "16 \<le> bc_capacity c" "h < d" using c(2,3) t1(4) cfg(2) T(3) d by simp_all
  from open_flushed_ok [OF fok ho h1 pages c'(1,2) c(4) c'(3), of True] obtain f t2 where
    t2: "open_index_file (Some (if_bytes (pt_file t1))) ty (pt_page_size t1) True = Inr f" "open_btree d f c = Some (Inr t2)" "pt_inv True h T t2"
      "pt_entry_count t2 = word_of_nat (length es)" "header_ok ty t2" "pt_capacity t2 = bc_capacity c" "tree_lim t2 = tree_lim ?t" "if_page_size f = pt_page_size t1" "pt_page_size t2 = pt_page_size t1"
    unfolding lim T(2) by blast
  let ?idx1 = "idx\<lparr>px_tree := t1, px_closed := True\<rparr>" and ?idx2 = "\<lparr>px_tree = t2, px_closed = False\<rparr>"
  have "px_close idx = (None, ?idx1)" using assms(1) t1(1) by (simp add: px_close_def)
  moreover have "new_persistent_index d (Some (if_bytes (pt_file t1))) cfg ty = Some (Inr ?idx2)"
    using t2(1,2,8) c(1) t1(4) cfg(2) by (simp add: new_persistent_index_def Let_def)
  moreover have "tree_holds ty es t2" using assms(2) t2 T(2) c(3) t1(4) unfolding tree_holds_def by auto
  ultimately show ?thesis using t2(4) by (intro exI [of _ ?idx1] exI [of _ ?idx2]) simp
qed

text \<open>
  C3: A whole session of a persistent index, from a file that does not exist: the index is created, any
  batch of fewer than \<open>2 ^ 29\<close> entries with distinct keys of at most 128 bytes goes in, the index is closed,
  the bytes of its file are opened again, and every key then has the location that was inserted, any other key none.
  The number of entries is right as well.
\<close>

theorem persistent_index_session:
  assumes "index_config_ok cfg" "length kvs < 2 ^ 29" "\<forall>p \<in> set kvs. length (fst p) \<le> max_key" "distinct (map fst kvs)" "29 < d"
  shows "\<exists>idx idx1 idx2 idx3 idx4. new_persistent_index d None cfg ty = Some (Inr idx) \<and>
    px_insert_batch None (map fst kvs) (map snd kvs) idx = (None, idx1) \<and> px_close idx1 = (None, idx2) \<and>
    new_persistent_index d (Some (if_bytes (pt_file (px_tree idx2)))) cfg ty = Some (Inr idx3) \<and>
    px_get_batch None ks idx3 = (Inr (map (\<lambda>k. case map_of kvs k of None \<Rightarrow> zero_loc | Some l \<Rightarrow> l) ks, map (\<lambda>k. map_of kvs k \<noteq> None) ks), idx4) \<and>
    pt_entry_count (px_tree idx3) = word_of_nat (length kvs)"
proof -
  obtain idx where i: "new_persistent_index d None cfg ty = Some (Inr idx)" "\<not> px_closed idx" "tree_holds ty [] (px_tree idx)" "unsynced (px_tree idx)"
    "pt_page_size (px_tree idx) = ic_page_size cfg" using new_index_ok [OF assms(1)] by blast
  obtain idx1 es where b: "px_insert_batch None (map fst kvs) (map snd kvs) idx = (None, idx1)" "\<not> px_closed idx1" "tree_holds ty es (px_tree idx1)"
    "unsynced (px_tree idx1)" "pt_page_size (px_tree idx1) = pt_page_size (px_tree idx)" "length es = length kvs" "map_of es = map_of kvs"
    using insert_batch_ok [OF i(2-4), of kvs] assms(2-4) by auto
  have len: "length es < 2 ^ 29" using b(6) assms(2) by simp
  have "pt_page_size (px_tree idx1) = ic_page_size cfg" using b(5) i(5) by simp
  from close_reopen_ok [OF b(2-4) len assms(1) this assms(5)] obtain idx2 idx3 where
    r: "px_close idx1 = (None, idx2)" "new_persistent_index d (Some (if_bytes (pt_file (px_tree idx2)))) cfg ty = Some (Inr idx3)" "\<not> px_closed idx3"
      "tree_holds ty es (px_tree idx3)" "pt_entry_count (px_tree idx3) = word_of_nat (length es)" by blast
  obtain idx4 where "px_get_batch None ks idx3 = (Inr (map (\<lambda>k. case map_of kvs k of None \<Rightarrow> zero_loc | Some l \<Rightarrow> l) ks, map (\<lambda>k. map_of kvs k \<noteq> None) ks), idx4)"
    using get_batch_ok [OF r(3,4) len, of ks] b(7) by auto
  then show ?thesis using i(1) b(1,6) r(1,2,5) by auto
qed

definition demo_config :: index_config where
  "demo_config = \<lparr>ic_page_size = 4096, ic_primary_cache_mb = 1, ic_author_time_cache_mb = 1, ic_search_cache_mb = 1, ic_kind_time_cache_mb = 1\<rparr>"

definition demo_entries :: "(bytes \<times> location) list" where
  "demo_entries = [([2], \<lparr>segment_id = 0, loc_offset = 64\<rparr>), ([1, 7], \<lparr>segment_id = 1, loc_offset = 0\<rparr>)]"

lemma demo_config_ok: "index_config_ok demo_config"
  by (simp add: index_config_ok_def demo_config_def)

theorem persistent_index_session_witness:
  "\<exists>idx idx1 idx2 idx3 idx4. new_persistent_index 30 None demo_config 1 = Some (Inr idx) \<and>
    px_insert_batch None (map fst demo_entries) (map snd demo_entries) idx = (None, idx1) \<and> px_close idx1 = (None, idx2) \<and>
    new_persistent_index 30 (Some (if_bytes (pt_file (px_tree idx2)))) demo_config 1 = Some (Inr idx3) \<and>
    px_get_batch None [[1, 7], [3]] idx3 = (Inr ([\<lparr>segment_id = 1, loc_offset = 0\<rparr>, zero_loc], [True, False]), idx4) \<and>
    pt_entry_count (px_tree idx3) = word_of_nat (length demo_entries)"
  using persistent_index_session [of demo_config demo_entries 30 1 "[[1, 7], [3]]"]
  by (simp add: index_config_ok_def demo_config_def demo_entries_def max_key_def)

text \<open>
  Lookup after insertion, in any state of an open index: the new entry is found under its key, and every other key
  answers as before.
\<close>

theorem index_insert_get:
  assumes "\<not> px_closed idx" "tree_holds ty es (px_tree idx)" "Suc (length es) < 2 ^ 29" "length k \<le> max_key" "k \<notin> fst ` set es"
  shows "\<exists>idx1 idx2. px_insert None k v idx = (None, idx1) \<and> px_get None k' idx1 = (Inr (((map_of es)(k \<mapsto> v)) k'), idx2)"
proof -
  obtain t1 A B where i: "pt_insert None k v (px_tree idx) = (None, t1)" "es = A @ B" "tree_holds ty (A @ (k, v) # B) t1"
    using pt.ins_law [OF assms(2) _ assms(4,5), of v] assms(3) by auto
  have len: "length (A @ (k, v) # B) < 2 ^ 29" using assms(3) i(2) by simp
  obtain t2 where g: "pt_get None k' t1 = (Inr (map_of (A @ (k, v) # B) k'), t2)" using pt.get_law [OF i(3) len] by blast
  have "map_of A k = None" using assms(5) i(2) by (auto simp: map_of_eq_None_iff)
  then have m: "map_of (A @ (k, v) # B) k' = ((map_of es)(k \<mapsto> v)) k'" unfolding i(2) by (simp add: map_add_def split: option.split)
  have "px_insert None k v idx = (None, idx\<lparr>px_tree := t1\<rparr>)" using assms(1) i(1) by (simp add: px_insert_def)
  moreover have "px_get None k' (idx\<lparr>px_tree := t1\<rparr>) = (Inr (((map_of es)(k \<mapsto> v)) k'), idx\<lparr>px_tree := t2\<rparr>)"
    using assms(1) g m by (simp add: px_get_def)
  ultimately show ?thesis by blast
qed

theorem index_insert_get_witness:
  "\<exists>idx idx1 idx2. new_persistent_index 30 None demo_config 1 = Some (Inr idx) \<and>
    px_insert None [5] \<lparr>segment_id = 3, loc_offset = 9\<rparr> idx = (None, idx1) \<and> px_get None [5] idx1 = (Inr (Some \<lparr>segment_id = 3, loc_offset = 9\<rparr>), idx2)"
proof -
  obtain idx where i: "new_persistent_index 30 None demo_config 1 = Some (Inr idx)" "\<not> px_closed idx" "tree_holds 1 [] (px_tree idx)"
    using new_index_ok [OF demo_config_ok, of 30 1] by blast
  from index_insert_get [OF i(2,3), of "[5]" "\<lparr>segment_id = 3, loc_offset = 9\<rparr>" "[5]"] i(1) show ?thesis by (auto simp: max_key_def)
qed

text \<open>
  C12: An ascending range scan of an open index with distinct keys: reading the iterator to its end yields exactly the entries with keys from the
  lower to the upper bound, both included, in the order of their keys; it ends after at most as many
  steps as the index has entries.
\<close>

theorem index_range_scan:
  assumes "\<not> px_closed idx" "tree_holds ty es (px_tree idx)" "length es < 2 ^ 29"
  shows "sorted_wrt (<) (map fst es) \<and> (\<exists>it idx1 t2. px_range None mn mx False idx = (Inr it, idx1) \<and>
    iter_collect (length es) it (px_tree idx1) = (Some (Inr (filter (in_range mn mx) es)), t2) \<and> tree_holds ty es t2)"
proof (rule tree_holds_bounds [OF assms(2,3)])
  fix h T
  assume T: "pt_inv True h T (px_tree idx)" "entries T = es" "h \<le> max_depth" "Suc h \<le> pt_capacity (px_tree idx)"
  obtain it t1 t2 where r: "range_iter None mn mx False (px_tree idx) = (Inr it, t1)"
    "iter_collect (length es) it t1 = (Some (Inr (filter (in_range mn mx) es)), t2)" "pt_inv True h T t2" "same_tree (px_tree idx) t2"
    using range_scan_ok [OF T(1,3,4), of mn mx] T(2) by blast
  have "tree_holds ty es t2" using assms(2) T(2) r(3) same_treeD [OF r(4)] same_tree_lim [OF r(4)] by (auto simp: tree_holds_def header_ok_def)
  moreover have "px_range None mn mx False idx = (Inr it, idx\<lparr>px_tree := t1\<rparr>)" using assms(1) r(1) by (simp add: px_range_def)
  moreover have "sorted_wrt (<) (map fst es)" using pt_inv_sorted [OF T(1)] T(2) by simp
  ultimately show ?thesis using r(2) by (intro conjI exI [of _ it] exI [of _ "idx\<lparr>px_tree := t1\<rparr>"] exI [of _ t2]) simp_all
qed

theorem index_range_scan_witness:
  "\<exists>idx es it idx1 t2. tree_holds 1 es (px_tree idx) \<and> set es = set demo_entries \<and> px_range None (Some [2]) None False idx = (Inr it, idx1) \<and>
    iter_collect 2 it (px_tree idx1) = (Some (Inr (filter (in_range (Some [2]) None) es)), t2)"
proof -
  obtain idx :: persist_index where i: "\<not> px_closed idx" "tree_holds 1 [] (px_tree idx)" "unsynced (px_tree idx)"
    using new_index_ok [OF demo_config_ok, of 30 1] by blast
  obtain idx1 :: persist_index and es where b: "\<not> px_closed idx1" "tree_holds 1 es (px_tree idx1)" "length es = 2" "set es = set demo_entries"
    using insert_batch_ok [OF i, of demo_entries] by (auto simp: demo_entries_def max_key_def)
  have "length es < 2 ^ 29" using b(3) by simp
  from index_range_scan [OF b(1,2) this, of "Some [2]" None] b(3) obtain it idx2 t2 where
    "px_range None (Some [2]) None False idx1 = (Inr it, idx2)" "iter_collect 2 it (px_tree idx2) = (Some (Inr (filter (in_range (Some [2]) None) es)), t2)" by auto
  then show ?thesis using b(2,4) by blast
qed

text \<open>
  C11: Insertion keeps the invariant of the tree, with duplicate keys or without: sorted items under the separators, pages
  that fit, a chain of leaves, distinct pages below the allocation limit. The tree grows by at most one level; its
  entries are those before with the new one between the smaller and the greater keys, and the counter goes up by one, unless the leaf
  had the very pair already.
\<close>

theorem tree_insert_invariant:
  assumes "pt_inv s h T t" "length key \<le> max_key" "s \<Longrightarrow> key \<in> fst ` set (entries T) \<Longrightarrow> (key, val) \<in> set (entries T)"
    "h \<le> max_depth" "2 * h + 4 \<le> pt_capacity t" "tree_lim t + (h + 2) * unat (pt_page_size t) < 2 ^ 63"
  shows "\<exists>t' h' T'. pt_insert None key val t = (None, t') \<and> pt_inv s h' T' t' \<and> h' \<le> Suc h \<and>
    insert_spec key val (entries T) (pt_entry_count t) (entries T') (pt_entry_count t')"
  using insert_ok [OF assms] by blast

theorem tree_insert_invariant_witness:
  "\<exists>t t' h' T'. pt_inv False 0 (Lf 4096 []) t \<and> pt_insert None [9] zero_loc t = (None, t') \<and> pt_inv False h' T' t' \<and> entries T' = [([9], zero_loc)]"
proof -
  obtain t :: persist_tree where t: "pt_inv False 0 (Lf 4096 []) t" "pt_page_size t = 4096" "pt_capacity t = 64" "tree_lim t = 2 * 4096"
    using open_new_ok [of 4096 "\<lparr>bc_capacity = 64, bc_page_size = 4096, bc_entries = [], bc_dirty_count = 0, bc_hits = 0, bc_misses = 0, bc_evictions = 0\<rparr>" 1 1 False]
    by auto
  from tree_insert_invariant [OF t(1), of "[9]" zero_loc] t(2-4) obtain t' h' T' where
    "pt_insert None [9] zero_loc t = (None, t')" "pt_inv False h' T' t'" "insert_spec [9] zero_loc [] (pt_entry_count t) (entries T') (pt_entry_count t')"
    by (auto simp: max_key_def)
  moreover from this(3) have "entries T' = [([9], zero_loc)]" by (simp add: insert_spec_def)
  ultimately show ?thesis using t(1) by blast
qed

text \<open>
  C21: Deletion of a key that the index does not have, or not with the wanted location: no error, and the tree is as it was.
\<close>

theorem index_delete_absent:
  assumes "\<not> px_closed idx" "pt_inv True h T (px_tree idx)" "h \<le> max_depth" "Suc h \<le> pt_capacity (px_tree idx)"
    "case loc of None \<Rightarrow> key \<notin> fst ` set (entries T) | Some l \<Rightarrow> (key, l) \<notin> set (entries T)"
  shows "\<exists>idx'. px_delete None key loc idx = (None, idx') \<and> pt_inv True h T (px_tree idx') \<and>
    pt_entry_count (px_tree idx') = pt_entry_count (px_tree idx)"
proof -
  obtain t' where "pt_delete None key loc (px_tree idx) = (None, t')" "pt_inv True h T t'" "same_tree (px_tree idx) t'"
    using delete_noop [OF assms(2-5)] by blast
  then show ?thesis using assms(1) same_treeD(5) by (intro exI [of _ "idx\<lparr>px_tree := t'\<rparr>"]) (simp add: px_delete_def)
qed

lemma one_entry_index:
  "\<exists>idx :: persist_index. \<exists>a. \<not> px_closed idx \<and> pt_inv True 0 (Lf a [([5], zero_loc)]) (px_tree idx) \<and> 1 \<le> pt_capacity (px_tree idx)"
proof -
  obtain idx :: persist_index where i: "\<not> px_closed idx" "tree_holds 1 [] (px_tree idx)" "unsynced (px_tree idx)"
    using new_index_ok [OF demo_config_ok, of 30 1] by blast
  obtain idx1 :: persist_index and es where b: "\<not> px_closed idx1" "tree_holds 1 es (px_tree idx1)" "length es = 1" "set es = {([5], zero_loc)}"
    using insert_batch_ok [OF i, of "[([5], zero_loc)]"] by (auto simp: max_key_def)
  have es: "es = [([5], zero_loc)]" using b(3,4) by (cases es) auto
  obtain h T where T: "pt_inv True h T (px_tree idx1)" "entries T = es" "Suc h \<le> pt_capacity (px_tree idx1)"
    using tree_holds_bounds [OF b(2)] b(3) by (metis one_less_numeral_iff one_less_power semiring_norm(76) zero_less_numeral)
  have "good True (unat (pt_page_size (px_tree idx1))) h T" using T(1) by (simp add: pt_inv_def hole_ok_def)
  then have "2 ^ h \<le> (1 :: nat)" using height_bound T(2) b(3) by fastforce
  then have "h = 0" using less_exp [of h] by linarith
  then have "\<exists>a. T = Lf a es" using T \<open>good _ _ h T\<close> by (cases T) auto
  then show ?thesis using b(1) T es \<open>h = 0\<close> by auto
qed

theorem index_delete_absent_witness:
  "\<exists>idx idx' a. pt_inv True 0 (Lf a [([5], zero_loc)]) (px_tree idx) \<and> px_delete None [6] None idx = (None, idx') \<and>
    pt_inv True 0 (Lf a [([5], zero_loc)]) (px_tree idx')"
proof -
  obtain idx :: persist_index and a where i: "\<not> px_closed idx" "pt_inv True 0 (Lf a [([5], zero_loc)]) (px_tree idx)" "1 \<le> pt_capacity (px_tree idx)"
    using one_entry_index by blast
  from index_delete_absent [OF i(1,2), of "[6]" None] i(2,3) show ?thesis by auto
qed

text \<open>
  C20: Deletion of an entry that the index has, by its key or by its key and location, in a tree of distinct keys that, with the separators, all have
  one length, and from a leaf that stays half full (or from the root, when that is a leaf): the tree keeps its invariant, has exactly the other entries, and
  the counter goes down by one.
\<close>

theorem index_delete_entry:
  assumes "\<not> px_closed idx" "pt_inv True h T (px_tree idx)" "h \<le> max_depth" "Suc h \<le> pt_capacity (px_tree idx)"
    "(key, v) \<in> set (entries T)" "loc = None \<or> loc = Some v" "\<forall>x \<in> set (items T). length (ikey x) = L"
    "0 < h \<Longrightarrow> \<forall>(a, es) \<in> set (lvs T). key \<in> fst ` set es \<longrightarrow>
      unat (pt_page_size (px_tree idx)) div 2 + L + 10 \<le> 28 + entries_size (map fst es)"
  shows "\<exists>idx' T'. px_delete None key loc idx = (None, idx') \<and> pt_inv True h T' (px_tree idx') \<and>
    entries T' = filter (\<lambda>e. fst e \<noteq> key) (entries T) \<and>
    pt_entry_count (px_tree idx') = (if pt_entry_count (px_tree idx) > 0 then pt_entry_count (px_tree idx) - 1 else pt_entry_count (px_tree idx))"
proof -
  obtain t' T' where "pt_delete None key loc (px_tree idx) = (None, t')" "pt_inv True h T' t'" "entries T' = filter (\<lambda>e. fst e \<noteq> key) (entries T)"
    "pt_entry_count t' = (if pt_entry_count (px_tree idx) > 0 then pt_entry_count (px_tree idx) - 1 else pt_entry_count (px_tree idx))"
    using delete_ok [OF assms(2-8)] by blast
  then show ?thesis using assms(1) by (intro exI [of _ "idx\<lparr>px_tree := t'\<rparr>"] exI [of _ T']) (simp add: px_delete_def)
qed

text \<open>A tree of two leaves with fifty keys each, whose pages are all in the cache.\<close>

definition nth_key :: "nat \<Rightarrow> bytes" where
  "nth_key i = replicate 31 0 @ [word_of_nat i]"

definition key_run :: "nat \<Rightarrow> nat \<Rightarrow> (bytes \<times> location) list" where
  "key_run lo hi = map (\<lambda>i. (nth_key i, zero_loc)) [lo..<hi]"

definition two_leaves :: tree where
  "two_leaves = Nd 12288 [nth_key 50] [Lf 4096 (key_run 0 50), Lf 8192 (key_run 50 100)]"

definition two_leaves_index :: persist_index where
  "two_leaves_index = \<lparr>px_tree = \<lparr>
     pt_file = \<lparr>if_bytes = [], if_page_size = 4096, if_header = \<lparr>ih_magic = index_magic, ih_type = 1, ih_version = index_version, ih_root = 12288,
       ih_node_count = 3, ih_page_size = 4096, ih_format = 0, ih_entry_count = 100\<rparr>, if_size = 0, if_pending = True\<rparr>,
     pt_cache = \<lparr>bc_capacity = 64, bc_page_size = 4096,
       bc_entries = map (\<lambda>n. (node_offset n, \<lparr>ce_node = n, ce_dirty = True\<rparr>))
         [int_node 12288 [nth_key 50] [4096, 8192], leaf_node 4096 (key_run 0 50) 8192 0, leaf_node 8192 (key_run 50 100) 0 4096],
       bc_dirty_count = 3, bc_hits = 0, bc_misses = 0, bc_evictions = 0\<rparr>, pt_root = 12288, pt_entry_count = 100\<rparr>, px_closed = False\<rparr>"

lemma nth_key_less: "i < j \<Longrightarrow> j < 256 \<Longrightarrow> nth_key i < nth_key j"
proof -
  assume "i < j" "j < 256"
  then have "(word_of_nat i :: byte) < word_of_nat j" by (simp add: word_less_nat_alt unat_of_nat)
  moreover have "(ps :: bytes) @ [x] < ps @ [y]" if "x < y" for ps x y using that by (induction ps) auto
  ultimately show ?thesis unfolding nth_key_def by blast
qed

lemma key_run_sorted: "hi \<le> 256 \<Longrightarrow> sorted_wrt (item_rel True) (map (\<lambda>(k, v). Ent k v) (key_run lo hi))"
  by (auto simp: key_run_def sorted_wrt_map item_rel_def intro!: sorted_wrt_mono_rel [OF _ sorted_wrt_upt] nth_key_less)

lemma key_run_size: "entries_size (map fst (key_run lo hi)) = 42 * (hi - lo)"
  by (simp add: entries_size_def key_run_def nth_key_def o_def sum_list_triv)

lemma key_run_item: "x \<in> set (map (\<lambda>(k, v). Ent k v) (key_run lo hi)) \<Longrightarrow> \<exists>i. lo \<le> i \<and> i < hi \<and> x = Ent (nth_key i) zero_loc"
  by (auto simp: key_run_def)

lemma two_leaves_items: "items_ok True (items two_leaves)"
proof -
  let ?A = "map (\<lambda>(k, v). Ent k v) (key_run 0 50)" and ?B = "map (\<lambda>(k, v). Ent k v) (key_run 50 100)" and ?s = "Sep (nth_key 50)"
  have it: "items two_leaves = ?A @ ?s # ?B" by (simp add: two_leaves_def)
  have r: "item_rel True x ?s" "item_rel True x y" if x: "x \<in> set ?A" and y: "y \<in> set ?B" for x y
  proof -
    obtain i j where "i < 50" "x = Ent (nth_key i) zero_loc" "50 \<le> j" "j < 100" "y = Ent (nth_key j) zero_loc"
      using key_run_item [OF x] key_run_item [OF y] by auto
    then show "item_rel True x ?s" "item_rel True x y" using nth_key_less [of i 50] nth_key_less [of i j] by (simp_all add: item_rel_def)
  qed
  have s: "item_rel True ?s y" if y: "y \<in> set ?B" for y
  proof -
    obtain j where "50 \<le> j" "j < 100" "y = Ent (nth_key j) zero_loc" using key_run_item [OF y] by auto
    then show ?thesis using nth_key_less [of 50 j] by (cases "j = 50") (simp_all add: item_rel_def)
  qed
  have B: "Ent (nth_key 50) zero_loc \<in> set ?B" by (force simp: key_run_def)
  have "\<forall>x \<in> set ?A. \<forall>y \<in> set (?s # ?B). item_rel True x y" using r r(1) [OF _ B] by (simp del: set_map)
  moreover have "\<forall>y \<in> set ?B. item_rel True ?s y" using s by blast
  moreover have "sorted_wrt (item_rel True) ?A" "sorted_wrt (item_rel True) ?B" by (rule key_run_sorted, simp)+
  ultimately have "sorted_wrt (item_rel True) (?A @ ?s # ?B)" unfolding sorted_wrt_append sorted_wrt.simps(2) by blast
  moreover have "length (ikey x) \<le> max_key" if "x \<in> set (?A @ ?s # ?B)" for x
  proof -
    from that have "x = ?s \<or> x \<in> set ?A \<or> x \<in> set ?B" by (simp del: set_map)
    then have "\<exists>i. ikey x = nth_key i" using key_run_item [of x 0 50] key_run_item [of x 50 100] by (metis item.sel(1) item.sel(2))
    then show ?thesis by (auto simp: nth_key_def max_key_def)
  qed
  ultimately show ?thesis unfolding items_ok_def it by blast
qed

lemma two_leaves_inv: "pt_inv True 1 two_leaves (px_tree two_leaves_index)"
proof -
  let ?t = "px_tree two_leaves_index"
  have po: "page_off 4096 4096" "page_off 4096 8192" "page_off 4096 12288" by (simp_all add: page_off_def)
  have nok: "node_ok 4096 (int_node 12288 [nth_key 50] [4096, 8192])" "node_ok 4096 (leaf_node 4096 (key_run 0 50) 8192 0)" "node_ok 4096 (leaf_node 8192 (key_run 50 100) 0 4096)"
    using po by (auto intro!: node_ok_leaf node_ok_int simp: key_run_size nth_key_def)
  have off: "node_offset (int_node a ks cs) = a" "node_offset (leaf_node a es nx pv) = a" for a ks cs es nx pv by (simp_all add: int_node_def leaf_node_def)
  have "store_ok {} {} ?t" using nok po
    by (simp add: store_ok_def cache_ok_def held_def file_ok_def entry_fits_def two_leaves_index_def off)
  moreover have v: "view ?t 12288 = Some (int_node 12288 [nth_key 50] [4096, 8192])" "view ?t 4096 = Some (leaf_node 4096 (key_run 0 50) 8192 0)"
    "view ?t 8192 = Some (leaf_node 8192 (key_run 50 100) 0 4096)"
    using po by (simp_all add: fview_def two_leaves_index_def off int_node_def leaf_node_def)
  moreover note two_leaves_items
  moreover have "pt_page_size ?t = 4096" "tree_lim ?t = 16384" "pt_root ?t = 12288" by (simp_all add: two_leaves_index_def tree_lim_def)
  moreover have "key_run 0 50 \<noteq> []" "key_run 50 100 \<noteq> []" "length (nth_key 50) = 32" by (simp_all add: key_run_def nth_key_def)
  moreover have "tree_at (view ?t) two_leaves" using v by (auto simp: two_leaves_def)
  ultimately show ?thesis
    using po key_run_size by (simp add: pt_inv_def hole_ok_def hole_offs_def hole_leaves_def hole_items_def offs_ok_def two_leaves_def leaf_node_def)
qed

theorem index_delete_entry_witness:
  "\<exists>idx' T'. px_delete None (nth_key 50) None two_leaves_index = (None, idx') \<and> pt_inv True 1 T' (px_tree idx') \<and>
    entries T' = key_run 0 50 @ key_run 51 100 \<and> pt_entry_count (px_tree idx') = 99"
proof -
  have c: "\<not> px_closed two_leaves_index" "Suc 1 \<le> pt_capacity (px_tree two_leaves_index)" "pt_page_size (px_tree two_leaves_index) = 4096"
    "pt_entry_count (px_tree two_leaves_index) = 100" by (simp_all add: two_leaves_index_def)
  have e: "(nth_key 50, zero_loc) \<in> set (entries two_leaves)" by (auto simp: two_leaves_def key_run_def)
  have u: "\<forall>x \<in> set (items two_leaves). length (ikey x) = 32" by (auto simp: two_leaves_def key_run_def nth_key_def)
  have fl: "\<forall>(a, es) \<in> set (lvs two_leaves). nth_key 50 \<in> fst ` set es \<longrightarrow> unat (4096 :: u32) div 2 + 32 + 10 \<le> 28 + entries_size (map fst es)"
    by (simp add: two_leaves_def key_run_size)
  have ne: "nth_key i \<noteq> nth_key 50" if "i < 100" "i \<noteq> 50" for i
    using nth_key_less [of i 50] nth_key_less [of 50 i] that by (cases "i < 50") auto
  have "key_run 50 100 = (nth_key 50, zero_loc) # key_run 51 100" by (simp add: key_run_def upt_conv_Cons)
  moreover have "filter (\<lambda>e. fst e \<noteq> nth_key 50) (key_run 0 50) = key_run 0 50" "filter (\<lambda>e. fst e \<noteq> nth_key 50) (key_run 51 100) = key_run 51 100"
    using ne by (auto simp: key_run_def intro!: filter_True)
  ultimately have f: "filter (\<lambda>e. fst e \<noteq> nth_key 50) (entries two_leaves) = key_run 0 50 @ key_run 51 100" by (simp add: two_leaves_def)
  from index_delete_entry [OF c(1) two_leaves_inv _ c(2) e _ u, of None] fl f c(3,4) show ?thesis by (auto simp: max_depth_def)
qed

end
