(* ===== verification/Store_Persistent.thy ===== *)
theory Store_Persistent
  imports Store_Facade Persist_Index
begin

text \<open>
  The event store over persistent indexes, the combination that \<open>Open\<close> builds: the persistent B+ tree as a value of the
  \<open>Index\<close> interface, and the proof that an open primary index is a map in the sense of \<open>primary_map\<close> as long as it has fewer than \<open>2 ^ 29\<close> entries.
  A range is read to its end by as many steps as the index has entries, which is enough for a well formed tree.
\<close>

section \<open>The persistent index behind the interface\<close>

text \<open>The entries that an iterator delivers to a client that goes on until it ends or fails.\<close>

fun iter_entries :: "nat \<Rightarrow> bt_iter \<Rightarrow> persist_tree \<Rightarrow> entry list \<times> persist_tree" where
  "iter_entries k it t =
     (if \<not> bi_is_valid it then ([], t)
      else case k of
        0 \<Rightarrow> ([], t)
      | Suc k' \<Rightarrow>
          (case bi_next it t of
             ((Some _, _), t1) \<Rightarrow> ([(bi_key it, bi_value it)], t1)
           | ((None, it1), t1) \<Rightarrow> (case iter_entries k' it1 t1 of (es, t2) \<Rightarrow> ((bi_key it, bi_value it) # es, t2))))"

declare iter_entries.simps [simp del]

definition persistent_ops :: "persist_index index_ops" where
  "persistent_ops = \<lparr>xo_insert = px_insert, xo_insert_batch = px_insert_batch,
     xo_get = (\<lambda>ctx k i. case px_get ctx k i of (Inl e, i1) \<Rightarrow> (Inl e, i1) | (Inr r, i1) \<Rightarrow> (Inr (loc_flag r), i1)),
     xo_get_batch = px_get_batch,
     xo_delete = px_delete, xo_delete_batch = (\<lambda>ctx ks los. px_delete_batch ctx ks (Some los)),
     xo_range = (\<lambda>ctx lo hi i.
       case px_range ctx (Some lo) (Some hi) False i of
         (Inl e, i1) \<Rightarrow> (Inl e, i1)
       | (Inr it, i1) \<Rightarrow>
           (case iter_entries (unat (pt_entry_count (px_tree i1))) it (px_tree i1) of (es, t) \<Rightarrow> (Inr es, i1\<lparr>px_tree := t\<rparr>))),
     xo_flush = px_flush, xo_entry_count = pt_entry_count \<circ> px_tree\<rparr>"

definition persistent_holds :: "persist_index \<Rightarrow> (bytes \<rightharpoonup> location) \<Rightarrow> bool" where
  "persistent_holds i M \<longleftrightarrow> \<not> px_closed i \<and>
     (\<exists>es. tree_holds index_type_primary es (px_tree i) \<and> distinct (map fst es) \<and> length es < 2 ^ 29 \<and> M = map_of es)"

definition persistent_fits :: "(bytes \<rightharpoonup> location) \<Rightarrow> bytes \<Rightarrow> bool" where
  "persistent_fits M k \<longleftrightarrow> length k \<le> max_key \<and> Suc (card (dom M)) < 2 ^ 29"

lemma tree_stores_flush:
  assumes "tree_stores s ty es t"
  shows "\<exists>t'. flush_tree t = (None, t') \<and> tree_stores s ty es t'"
proof -
  obtain h T where T: "pt_inv s h T t" "entries T = es" using assms by (auto simp: tree_stores_def)
  have i: "store_ok {} {} t" "hole_ok (view t) (unat (pt_page_size t)) (tree_lim t) s h [] [T] []" "pt_root t = toff T" using T(1) by (simp_all add: pt_inv_def)
  from flush_tree_ok [OF i(1)] obtain t1 where t1: "flush_tree t = (None, t1)" "store_ok {} {} t1"
    "\<And>off n. view t off = Some n \<Longrightarrow> view t1 off = Some n" "pt_page_size t1 = pt_page_size t" "pt_capacity t1 = pt_capacity t" "pt_root t1 = pt_root t"
    "pt_entry_count t1 = pt_entry_count t" "if_header (pt_file t1) = (if_header (pt_file t))\<lparr>ih_entry_count := pt_entry_count t\<rparr>" by blast
  have "view t \<subseteq>\<^sub>m view t1" using t1(3) by (auto simp: map_le_def dom_def)
  moreover have lim: "tree_lim t1 = tree_lim t" using t1(4,8) by (simp add: tree_lim_def)
  ultimately have "pt_inv s h T t1" using T(1) hole_ok_le [OF i(2)] t1(2,4-7) by (simp add: pt_inv_def)
  moreover have "header_ok ty t1" using assms t1(4,6,8) by (simp add: tree_stores_def header_ok_def)
  ultimately have "tree_stores s ty es t1" using assms lim t1(4,5) T(2) by (auto simp: tree_stores_def)
  then show ?thesis using t1(1) by blast
qed

lemmas tree_flush_law = tree_stores_flush [where s = True, folded tree_holds_stores]

interpretation pers: primary_map persistent_ops persistent_holds persistent_fits
proof
  fix x M k l
  assume h: "persistent_holds x M"
  then obtain es where es: "\<not> px_closed x" "tree_holds index_type_primary es (px_tree x)" "distinct (map fst es)" "length es < 2 ^ 29" "M = map_of es"
    unfolding persistent_holds_def by blast
  obtain t where t: "pt_get None k (px_tree x) = (Inr (map_of es k), t)" "tree_holds index_type_primary es t" using tree_get_law [OF es(2,4)] by blast
  show "\<exists>x'. xo_get persistent_ops None k x = (Inr (loc_flag (M k)), x') \<and> persistent_holds x' M"
    using es t by (intro exI [of _ "x\<lparr>px_tree := t\<rparr>"]) (auto simp: persistent_ops_def px_get_def persistent_holds_def)
  obtain t' where t': "flush_tree (px_tree x) = (None, t')" "tree_holds index_type_primary es t'" using tree_flush_law [OF es(2)] by blast
  show "\<exists>r x'. xo_flush persistent_ops None x = (r, x') \<and> persistent_holds x' M"
    using es t' by (intro exI [of _ None] exI [of _ "x\<lparr>px_tree := t'\<rparr>"]) (auto simp: persistent_ops_def px_flush_def persistent_holds_def)
  show "\<exists>x'. xo_insert persistent_ops None k l x = (None, x') \<and> persistent_holds x' (M(k \<mapsto> l))" if n: "M k = None" "persistent_fits M k"
  proof -
    have k: "k \<notin> fst ` set es" using n(1) es(5) by (simp add: map_of_eq_None_iff)
    have "card (dom M) = length es" using es(3,5) by (metis distinct_card dom_map_of_conv_image_fst length_map list.set_map)
    then have len: "Suc (length es) < 2 ^ 29" "length k \<le> max_key" using n(2) by (simp_all add: persistent_fits_def)
    obtain t'' A B where i: "pt_insert None k l (px_tree x) = (None, t'')" "es = A @ B" "tree_holds index_type_primary (A @ (k, l) # B) t''"
      using tree_insert_law [OF es(2,4) len(2) k, of l] by blast
    have "map_of A k = None" using k i(2) by (auto simp: map_of_eq_None_iff)
    then have "M(k \<mapsto> l) = map_of (A @ (k, l) # B)" unfolding es(5) i(2) by (intro ext) (simp add: map_add_def split: option.split)
    moreover have "distinct (map fst (A @ (k, l) # B))" "length (A @ (k, l) # B) < 2 ^ 29" using es(3) k i(2) len(1) by auto
    ultimately show ?thesis using i(1,3) es(1)
      by (intro exI [of _ "x\<lparr>px_tree := t''\<rparr>"]) (auto simp: persistent_ops_def px_insert_def persistent_holds_def)
  qed
qed

text \<open>
  Deletion takes an entry out of a leaf that stays half full, or is the root, among keys of one length; what is left is an index that can be read, and
  deleted from again.
\<close>

definition persistent_readable :: "persist_index \<Rightarrow> (bytes \<rightharpoonup> location) \<Rightarrow> bool" where
  "persistent_readable i M \<longleftrightarrow> \<not> px_closed i \<and>
     (\<exists>h T. pt_inv True h T (px_tree i) \<and> h \<le> max_depth \<and> Suc h \<le> pt_capacity (px_tree i) \<and> M = map_of (entries T))"

definition persistent_removable :: "persist_index \<Rightarrow> (bytes \<rightharpoonup> location) \<Rightarrow> bytes \<Rightarrow> bool" where
  "persistent_removable i M k \<longleftrightarrow> \<not> px_closed i \<and> k \<in> dom M \<and>
     (\<exists>h T. pt_inv True h T (px_tree i) \<and> h \<le> max_depth \<and> Suc h \<le> pt_capacity (px_tree i) \<and> M = map_of (entries T) \<and>
        (\<forall>x \<in> set (items T). length (ikey x) = 32) \<and>
        (0 < h \<longrightarrow> (\<forall>(a, es) \<in> set (lvs T). k \<in> fst ` set es \<longrightarrow>
           unat (pt_page_size (px_tree i)) div 2 + 32 + 10 \<le> 28 + entries_size (map fst es))))"

lemma persistent_holds_readable: "persistent_holds i M \<Longrightarrow> persistent_readable i M"
  by (auto simp: persistent_holds_def persistent_readable_def elim!: tree_holds_bounds)

interpretation persd: primary_delete persistent_ops persistent_readable persistent_removable
proof
  fix x M k
  show "\<exists>x'. xo_get persistent_ops None k x = (Inr (loc_flag (M k)), x') \<and> persistent_readable x' M" if rd: "persistent_readable x M"
  proof -
    obtain h T where T: "\<not> px_closed x" "pt_inv True h T (px_tree x)" "h \<le> max_depth" "Suc h \<le> pt_capacity (px_tree x)" "M = map_of (entries T)"
      using rd unfolding persistent_readable_def by blast
    obtain t where t: "pt_get None k (px_tree x) = (Inr (M k), t)" "pt_inv True h T t" "same_tree (px_tree x) t" using get_ok [OF T(2-4)] T(5) by blast
    show ?thesis using T t same_treeD [OF t(3)]
      by (intro exI [of _ "x\<lparr>px_tree := t\<rparr>"]) (auto simp: persistent_ops_def px_get_def persistent_readable_def)
  qed
  assume rm: "persistent_removable x M k"
  then obtain h T where T: "\<not> px_closed x" "pt_inv True h T (px_tree x)" "h \<le> max_depth" "Suc h \<le> pt_capacity (px_tree x)" "M = map_of (entries T)"
    "\<forall>x \<in> set (items T). length (ikey x) = 32" "k \<in> dom M"
    "0 < h \<Longrightarrow> \<forall>(a, es) \<in> set (lvs T). k \<in> fst ` set es \<longrightarrow> unat (pt_page_size (px_tree x)) div 2 + 32 + 10 \<le> 28 + entries_size (map fst es)"
    unfolding persistent_removable_def by blast
  obtain t where t: "pt_get None k (px_tree x) = (Inr (M k), t)" "pt_inv True h T t" "same_tree (px_tree x) t" using get_ok [OF T(2-4)] T(5) by blast
  show "\<exists>x'. xo_get persistent_ops None k x = (Inr (loc_flag (M k)), x') \<and> persistent_removable x' M k"
    using T t same_treeD [OF t(3)]
    by (intro exI [of _ "x\<lparr>px_tree := t\<rparr>"]) (auto simp: persistent_ops_def px_get_def persistent_removable_def intro!: exI [of _ h] exI [of _ T])
  obtain v where "(k, v) \<in> set (entries T)" using T(5,7) by (auto dest: map_of_SomeD)
  from delete_ok [OF T(2-4) this _ T(6,8), of None] obtain t' T' where
    d: "pt_delete None k None (px_tree x) = (None, t')" "pt_inv True h T' t'" "entries T' = filter (\<lambda>e. fst e \<noteq> k) (entries T)" "pt_capacity t' = pt_capacity (px_tree x)" by blast
  have "map_of (filter (\<lambda>e. fst e \<noteq> k) es) = (map_of es)(k := None)" for es :: "(bytes \<times> location) list" by (induction es) auto
  then show "\<exists>x'. xo_delete persistent_ops None k None x = (None, x') \<and> persistent_readable x' (M(k := None))"
    using T d by (intro exI [of _ "x\<lparr>px_tree := t'\<rparr>"]) (auto simp: persistent_ops_def px_delete_def persistent_readable_def intro!: exI [of _ h] exI [of _ T'])
qed

section \<open>Secondary indexes\<close>

text \<open>
  A secondary index is a set of entries, several of them under one key, that grows by insertion and that a flush keeps; the number says
  how many more entries it takes.
\<close>

locale secondary_index =
  fixes ops :: "'x index_ops" and stores :: "'x \<Rightarrow> (bytes \<times> location) set \<Rightarrow> nat \<Rightarrow> bool" and accepts :: "bytes \<Rightarrow> bool"
  assumes put_law: "stores x E (Suc n) \<Longrightarrow> accepts k \<Longrightarrow> \<exists>x'. xo_insert ops None k l x = (None, x') \<and> stores x' (insert (k, l) E) n"
    and flush_keeps_law: "stores x E n \<Longrightarrow> \<exists>r x'. xo_flush ops None x = (r, x') \<and> stores x' E n"
    and stores_less: "stores x E n \<Longrightarrow> m \<le> n \<Longrightarrow> stores x E m"
begin

definition secondary_stores :: "'x index_mgr \<Rightarrow> (bytes \<times> location) set \<Rightarrow> (bytes \<times> location) set \<Rightarrow> (bytes \<times> location) set \<Rightarrow> nat \<Rightarrow> bool" where
  "secondary_stores im A K S n \<longleftrightarrow> stores (im_author_time im) A n \<and> stores (im_kind_time im) K n \<and> stores (im_search im) S n"

lemma put_each_ok:
  "stores x E (length ks + n) \<Longrightarrow> \<forall>k \<in> set ks. accepts k \<Longrightarrow>
   stores (fold (\<lambda>k x. snd (xo_insert ops None k l x)) ks x) (E \<union> (\<lambda>k. (k, l)) ` set ks) n"
proof (induction ks arbitrary: x E)
  case (Cons k ks)
  obtain x1 where x1: "xo_insert ops None k l x = (None, x1)" "stores x1 (insert (k, l) E) (length ks + n)" using put_law [of x E "length ks + n" k l] Cons.prems by auto
  then show ?case using Cons.IH [OF x1(2)] Cons.prems(2) by simp
qed simp

lemma index_secondary_ok:
  assumes "secondary_stores im A K S (length (event_search_keys (im_codes im) e [] (tags e)) + Suc n)"
    and "accepts (author_time_key_of e)" "accepts (kind_time_key_of e)" "\<forall>k \<in> set (event_search_keys (im_codes im) e [] (tags e)). accepts k"
  shows "secondary_stores (index_secondary ops None e loc im) (insert (author_time_key_of e, loc) A) (insert (kind_time_key_of e, loc) K)
    (S \<union> (\<lambda>k. (k, loc)) ` set (event_search_keys (im_codes im) e [] (tags e))) n"
proof -
  let ?ks = "event_search_keys (im_codes im) e [] (tags e)"
  have s: "stores (im_author_time im) A (Suc n)" "stores (im_kind_time im) K (Suc n)" "stores (im_search im) S (length ?ks + n)"
    using assms(1) stores_less [where m = "Suc n"] stores_less [where m = "length ?ks + n"] unfolding secondary_stores_def by auto
  obtain x1 x2 where "xo_insert ops None (author_time_key_of e) loc (im_author_time im) = (None, x1)" "stores x1 (insert (author_time_key_of e, loc) A) n"
    "xo_insert ops None (kind_time_key_of e) loc (im_kind_time im) = (None, x2)" "stores x2 (insert (kind_time_key_of e, loc) K) n"
    using put_law [OF s(1) assms(2)] put_law [OF s(2) assms(3)] by metis
  then show ?thesis using put_each_ok [OF s(3) assms(4), of loc] by (simp add: index_secondary_def secondary_stores_def)
qed

lemma secondary_kept:
  assumes "secondary_stores im A K S n" "im_kept ops im im'"
  shows "secondary_stores im' A K S n"
proof -
  obtain r1 x1 r2 x2 r3 x3 where x: "xo_flush ops None (im_author_time im) = (r1, x1)" "stores x1 A n" "xo_flush ops None (im_kind_time im) = (r2, x2)" "stores x2 K n"
    "xo_flush ops None (im_search im) = (r3, x3)" "stores x3 S n" using assms(1) flush_keeps_law unfolding secondary_stores_def by metis
  show ?thesis using assms x by (auto simp: im_kept_def im_flush_def secondary_stores_def Let_def split: prod.splits option.splits)
qed

end

text \<open>The persistent B+ tree behind a secondary index, with keys of up to 128 bytes.\<close>

definition persistent_stores :: "persist_index \<Rightarrow> (bytes \<times> location) set \<Rightarrow> nat \<Rightarrow> bool" where
  "persistent_stores i E n \<longleftrightarrow> \<not> px_closed i \<and> (\<exists>ty es. tree_stores False ty es (px_tree i) \<and> set es = E \<and> length es + n \<le> 2 ^ 29)"

interpretation sec: secondary_index persistent_ops persistent_stores "\<lambda>k. length k \<le> max_key"
proof
  fix x E n m k l
  show "\<exists>x'. xo_insert persistent_ops None k l x = (None, x') \<and> persistent_stores x' (insert (k, l) E) n"
    if st: "persistent_stores x E (Suc n)" and k: "length k \<le> max_key"
  proof -
    obtain ty es where es: "\<not> px_closed x" "tree_stores False ty es (px_tree x)" "set es = E" "length es + Suc n \<le> 2 ^ 29"
      using st unfolding persistent_stores_def by blast
    obtain t es' where t: "pt_insert None k l (px_tree x) = (None, t)"
      "insert_spec k l es (pt_entry_count (px_tree x)) es' (pt_entry_count t)" "tree_stores False ty es' t"
      using tree_stores_insert [OF es(2) _ k, of l] es(4) by auto
    have "set es' = insert (k, l) (set es)" "length es' \<le> Suc (length es)" using t(2) by (auto simp: insert_spec_def)
    then show ?thesis using es t by (intro exI [of _ "x\<lparr>px_tree := t\<rparr>"]) (auto simp: persistent_ops_def px_insert_def persistent_stores_def intro!: exI [of _ ty] exI [of _ es'])
  qed
  assume h: "persistent_stores x E n"
  then obtain ty es where es: "\<not> px_closed x" "tree_stores False ty es (px_tree x)" "set es = E" "length es + n \<le> 2 ^ 29"
    unfolding persistent_stores_def by blast
  obtain t where "flush_tree (px_tree x) = (None, t)" "tree_stores False ty es t" using tree_stores_flush [OF es(2)] by blast
  then show "\<exists>r x'. xo_flush persistent_ops None x = (r, x') \<and> persistent_stores x' E n"
    using es by (intro exI [of _ None] exI [of _ "x\<lparr>px_tree := t\<rparr>"]) (auto simp: persistent_ops_def px_flush_def persistent_stores_def)
  show "persistent_stores x E m" if "m \<le> n" using es that by (auto simp: persistent_stores_def intro!: exI [of _ ty] exI [of _ es])
qed

text \<open>The entries of an event in the search index: one for each tag with an indexed name and a value.\<close>

definition search_entries :: "(bytes \<times> search_type) list \<Rightarrow> event \<Rightarrow> location \<Rightarrow> (bytes \<times> location) set" where
  "search_entries codes e loc = {(build_search_key (kind e) st (tag ! 1) (created_at e), loc) | tag st.
     tag \<in> set (tags e) \<and> 2 \<le> length tag \<and> map_of codes (tag ! 0) = Some st}"

lemma search_entries_keys:
  assumes "\<forall>n \<in> fst ` set codes. 0 \<notin> set n"
  shows "(\<lambda>k. (k, loc)) ` set (event_search_keys codes e [] (tags e)) = search_entries codes e loc"
  using event_search_keys_sound [of _ codes e "[]" "tags e"] event_search_keys_complete [OF assms, of _ "tags e" _ "[]" e]
  unfolding search_entries_def by fastforce

lemma search_keys_bounds:
  "length (event_search_keys codes e seen ts) \<le> length ts"
  "\<forall>tag \<in> set ts. 2 \<le> length tag \<longrightarrow> map_of codes (tag ! 0) \<noteq> None \<longrightarrow> length (tag ! 1) \<le> 120 \<Longrightarrow>
    k \<in> set (event_search_keys codes e seen ts) \<Longrightarrow> length k \<le> max_key"
proof -
  show "length (event_search_keys codes e seen ts) \<le> length ts"
    by (induction ts arbitrary: seen) (auto simp: Let_def intro: le_SucI split: option.split)
  assume b: "\<forall>tag \<in> set ts. 2 \<le> length tag \<longrightarrow> map_of codes (tag ! 0) \<noteq> None \<longrightarrow> length (tag ! 1) \<le> 120" and "k \<in> set (event_search_keys codes e seen ts)"
  then obtain tag st where "k = build_search_key (kind e) st (tag ! 1) (created_at e)" "tag \<in> set ts" "2 \<le> length tag" "map_of codes (tag ! 0) = Some st"
    using event_search_keys_sound by blast
  then show "length k \<le> max_key" using b by (auto simp: build_search_key_def Let_def max_key_def put_u16_def put_u32_def)
qed

lemma persistent_secondary:
  assumes "sec.secondary_stores im A K S (length (tags e) + Suc n)" "event_wf e"
    and "\<forall>m \<in> fst ` set (im_codes im). 0 \<notin> set m"
    and "\<forall>tag \<in> set (tags e). 2 \<le> length tag \<longrightarrow> map_of (im_codes im) (tag ! 0) \<noteq> None \<longrightarrow> length (tag ! 1) \<le> 120"
    and "im_kept persistent_ops (index_secondary persistent_ops None e loc (im\<lparr>im_primary := q\<rparr>)) im'"
  shows "sec.secondary_stores im' (insert (build_author_time_key (pubkey e) (kind e) (created_at e), loc) A)
    (insert (build_kind_time_key (kind e) (created_at e), loc) K) (S \<union> search_entries (im_codes im) e loc) n"
proof -
  let ?im = "im\<lparr>im_primary := q\<rparr>"
  have "length (event_search_keys (im_codes im) e [] (tags e)) \<le> length (tags e)" by (rule search_keys_bounds)
  then have "sec.secondary_stores ?im A K S (length (event_search_keys (im_codes ?im) e [] (tags e)) + Suc n)"
    using assms(1) unfolding sec.secondary_stores_def by (auto intro: sec.stores_less)
  moreover have "\<forall>k \<in> set (event_search_keys (im_codes ?im) e [] (tags e)). length k \<le> max_key" using search_keys_bounds(2) [OF assms(4)] by simp
  moreover have "length (author_time_key_of e) \<le> max_key" "length (kind_time_key_of e) \<le> max_key"
    using assms(2) by (simp_all add: author_time_key_of_def kind_time_key_of_def build_author_time_key_def build_kind_time_key_def pad_to_def put_u16_def put_u32_def max_key_def event_wf_def)
  ultimately show ?thesis
    using sec.secondary_kept [OF sec.index_secondary_ok assms(5), of A K S n] search_entries_keys [OF assms(3)]
    by (simp add: author_time_key_of_def kind_time_key_of_def)
qed

section \<open>Properties\<close>

text \<open>
  C4: Writing a fresh event over persistent indexes, the store that \<open>Open\<close> builds: the event fits the log and the segments, its indexed tag
  values have at most 120 bytes, and the indexes have room (below \<open>2 ^ 29\<close> entries). Once \<open>WriteEvent\<close> has returned,
  the event is found under its identifier with its tags in normal form, through the B+ tree of the primary index, and every other identifier is
  answered as before; the author-time, kind-time and search indexes have the event's entries, with the location, beside exactly
  those they had; and, unless old log files are removed, the log has grown by an insertion entry with the event's serialization, followed at most by checkpoints.
\<close>

theorem persistent_write_get:
  assumes "ns_ok (Suc (Suc k)) persistent_holds s M log" and "event_wf e" "serialize_tags (tags e) = Inr td" "tags_ok (tags e)" "event_size e td + 2 < 2 ^ 32"
    and "M (ev_id e) = None" "Suc (card (dom M)) < 2 ^ 29" and "store_accepts (ns_storage s) (record_of (es_page_size (ns_storage s)) e td)"
    and "29 + length (rec_data (record_of (es_page_size (ns_storage s)) e td)) \<le> wal_max_record_size"
    and "persistent_stores (im_author_time (ns_indexes s)) A (length (tags e) + Suc n)" "persistent_stores (im_kind_time (ns_indexes s)) K (length (tags e) + Suc n)"
    and "persistent_stores (im_search (ns_indexes s)) S (length (tags e) + Suc n)" and "\<forall>m \<in> fst ` set (im_codes (ns_indexes s)). 0 \<notin> set m"
    and "\<forall>tag \<in> set (tags e). 2 \<le> length tag \<longrightarrow> map_of (im_codes (ns_indexes s)) (tag ! 0) \<noteq> None \<longrightarrow> length (tag ! 1) \<le> 120"
  shows "\<exists>loc s' log'. ns_write_event persistent_ops now None e s = (Inr loc, s') \<and> ns_ok k persistent_holds s' (M(ev_id e \<mapsto> loc)) log' \<and>
    fst (ns_get_event persistent_ops None (ev_id e) s') = Inr (Some (e\<lparr>tags := map norm_tag (tags e),
      ev_flags := (if unat (es_page_size (ns_storage s)) \<le> event_size e td then flag_continued else 0)\<rparr>)) \<and>
    (\<forall>ident. length ident = 32 \<longrightarrow> ident \<noteq> ev_id e \<longrightarrow>
      fst (ns_get_event persistent_ops None ident s') = fst (ns_get_event persistent_ops None ident s)) \<and>
    persistent_stores (im_author_time (ns_indexes s')) (insert (build_author_time_key (pubkey e) (kind e) (created_at e), loc) A) n \<and>
    persistent_stores (im_kind_time (ns_indexes s')) (insert (build_kind_time_key (kind e) (created_at e), loc) K) n \<and>
    persistent_stores (im_search (ns_indexes s')) (S \<union> search_entries (im_codes (ns_indexes s)) e loc) n \<and>
    (ns_max_retained s \<le> 0 \<longrightarrow> logged_entry op_insert (rec_data (record_of (es_page_size (ns_storage s)) e td)) s s')"
proof -
  have "persistent_fits M (ev_id e)" using assms(2,7) by (simp add: persistent_fits_def event_wf_def max_key_def)
  from pers.write_get_ok [OF assms(1-6) this assms(8,9), of now] obtain loc s' log' q where
    w: "ns_write_event persistent_ops now None e s = (Inr loc, s')" "ns_ok k persistent_holds s' (M(ev_id e \<mapsto> loc)) log'"
      "fst (ns_get_event persistent_ops None (ev_id e) s') = Inr (Some (e\<lparr>tags := map norm_tag (tags e),
        ev_flags := (if unat (es_page_size (ns_storage s)) \<le> event_size e td then flag_continued else 0)\<rparr>))"
      "\<forall>ident. length ident = 32 \<longrightarrow> ident \<noteq> ev_id e \<longrightarrow> fst (ns_get_event persistent_ops None ident s') = fst (ns_get_event persistent_ops None ident s)"
      "im_kept persistent_ops (index_secondary persistent_ops None e loc ((ns_indexes s)\<lparr>im_primary := q\<rparr>)) (ns_indexes s')"
      "ns_max_retained s \<le> 0 \<longrightarrow> logged_entry op_insert (rec_data (record_of (es_page_size (ns_storage s)) e td)) s s'" by blast
  have "sec.secondary_stores (ns_indexes s) A K S (length (tags e) + Suc n)" using assms(10-12) by (simp add: sec.secondary_stores_def)
  from persistent_secondary [OF this assms(2,13,14) w(5)] show ?thesis
    using w unfolding sec.secondary_stores_def by (intro exI [of _ loc] exI [of _ s'] exI [of _ log']) blast
qed

definition persistent_ns :: "persist_index \<Rightarrow> persist_index \<Rightarrow> persist_index \<Rightarrow> persist_index \<Rightarrow> persist_index nostr_store" where
  "persistent_ns p a k x = \<lparr>ns_opened = True, ns_recovering = False, ns_storage = demo_store, ns_wal = Some (demo_disk, demo_manager),
     ns_indexes = \<lparr>im_codes = demo_codes, im_primary = p, im_author_time = a, im_search = x, im_kind_time = k\<rparr>,
     ns_known_kinds = [], ns_checkpoint_every = 1000, ns_checkpoint_count = 0, ns_last_checkpoint = 0, ns_max_retained = 0, ns_write_batch_size = 100,
     ns_cfg_page_size = 4096, ns_cfg_max_segment = 1048576\<rparr>"

lemma pt_inv_weaken: "pt_inv True h T t \<Longrightarrow> pt_inv False h T t"
  by (auto simp: pt_inv_def hole_ok_def items_ok_def item_rel_def elim!: sorted_wrt_mono_rel [rotated] split: if_splits)

lemma persistent_ns_ok:
  "\<exists>p a k x. ns_ok (Suc (Suc (Suc 0))) persistent_holds (persistent_ns p a k x) Map.empty [] \<and>
    persistent_stores a {} 3 \<and> persistent_stores k {} 3 \<and> persistent_stores x {} 3"
proof -
  have st: "\<exists>i. persistent_stores i {} 3"
  proof -
    obtain idx :: persist_index where i: "\<not> px_closed idx" "tree_holds index_type_search [] (px_tree idx)" using new_index_ok [OF demo_config_ok, of 30 index_type_search] by blast
    then have "tree_stores False index_type_search [] (px_tree idx)" by (auto simp: tree_holds_def tree_stores_def intro: pt_inv_weaken)
    then show ?thesis using i(1) by (auto simp: persistent_stores_def intro!: exI [of _ idx] exI [of _ index_type_search] exI [of _ "[]"])
  qed
  obtain p :: persist_index where "\<not> px_closed p" "tree_holds index_type_primary [] (px_tree p)" using new_index_ok [OF demo_config_ok, of 30 index_type_primary] by blast
  then have "persistent_holds p Map.empty" by (auto simp: persistent_holds_def)
  then have "ns_ok (Suc (Suc (Suc 0))) persistent_holds (persistent_ns p a k x) Map.empty []" for a k x
    using demo_store_rep(1) demo_inv by (simp add: ns_ok_def persistent_ns_def indexed_def log_ready_def demo_manager_def demo_writer_def)
  then show ?thesis using st by blast
qed

lemma search_entries_demo: "search_entries demo_codes demo_event loc = {(build_search_key 1 1 (lit ''ab'') 1700000000, loc)}"
proof -
  have "(tag \<in> set (tags demo_event) \<and> 2 \<le> length tag \<and> map_of demo_codes (tag ! 0) = Some st) \<longleftrightarrow> tag = [lit ''e'', lit ''ab''] \<and> st = 1" for tag st
    by (auto simp: demo_codes_def demo_event_def lit_def)
  then show ?thesis by (simp add: search_entries_def demo_event_def)
qed

theorem persistent_write_get_witness:
  "\<exists>s loc s'. ns_write_event persistent_ops 9 None demo_event s = (Inr loc, s') \<and>
    fst (ns_get_event persistent_ops None (ev_id demo_event) s') = Inr (Some (demo_event\<lparr>tags := tags demo_event, ev_flags := 0\<rparr>)) \<and>
    persistent_stores (im_author_time (ns_indexes s')) {(build_author_time_key (replicate 32 2) 1 1700000000, loc)} 0 \<and>
    persistent_stores (im_search (ns_indexes s')) {(build_search_key 1 1 (lit ''ab'') 1700000000, loc)} 0 \<and>
    (\<exists>en cs. ns_log s' = [demo_entry 1 1, en] @ cs \<and> en_type en = op_insert)"
proof -
  obtain p a k x where ok: "ns_ok (Suc (Suc (Suc 0))) persistent_holds (persistent_ns p a k x) Map.empty []"
    "persistent_stores a {} 3" "persistent_stores k {} 3" "persistent_stores x {} 3" using persistent_ns_ok by blast
  let ?s = "persistent_ns p a k x"
  have st: "ns_storage ?s = ns_storage demo_ns" "im_author_time (ns_indexes ?s) = a" "im_kind_time (ns_indexes ?s) = k" "im_search (ns_indexes ?s) = x"
    "im_codes (ns_indexes ?s) = demo_codes" "ns_max_retained ?s \<le> 0" "ns_wal ?s \<noteq> None" "ns_log ?s = [demo_entry 1 1]"
    by (simp_all add: persistent_ns_def demo_ns_def ns_log_def demo_manager_def demo_log)
  have len: "3 = length (tags demo_event) + Suc 0" "\<forall>tag \<in> set (tags demo_event). 2 \<le> length tag \<longrightarrow> map_of demo_codes (tag ! 0) \<noteq> None \<longrightarrow> length (tag ! 1) \<le> 120"
    by (simp_all add: demo_event_def lit_def)
  from persistent_write_get [OF ok(1) demo_event_facts(1,3,2) demo_ns_fits(4) refl _ demo_ns_fits(1,2) [folded st(1)],
      unfolded st(2-5), OF _ ok(2-4) [unfolded len(1)] demo_codes_ok(1) len(2), of 9]
  obtain loc s' where w: "ns_write_event persistent_ops 9 None demo_event ?s = (Inr loc, s')"
    "fst (ns_get_event persistent_ops None (ev_id demo_event) s') = Inr (Some (demo_event\<lparr>tags := tags demo_event, ev_flags := 0\<rparr>))"
    "persistent_stores (im_author_time (ns_indexes s')) {(build_author_time_key (replicate 32 2) 1 1700000000, loc)} 0"
    "persistent_stores (im_search (ns_indexes s')) {(build_search_key 1 1 (lit ''ab'') 1700000000, loc)} 0"
    "\<exists>data. logged_entry op_insert data ?s s'"
    using st(6) demo_ns_fits(3) unfolding st(1) search_entries_demo by (auto simp: demo_event_facts) (auto simp: demo_event_def)
  from w(5) st(7,8) have "\<exists>en cs. ns_log s' = [demo_entry 1 1, en] @ cs \<and> en_type en = op_insert" by (auto simp: logged_entry_def)
  then show ?thesis using w(1-4) by blast
qed

text \<open>
  C13: Deleting a stored event over persistent indexes, when its primary entry is in a leaf that stays half full or is the root: \<open>DeleteEvent\<close> logs a
  flag update with the record's location and the deleted flag, sets the flag of the record and removes the primary entry. Afterwards the identifier is not found,
  the record reads as deleted, every other identifier is answered as before, and the primary index can be read and deleted from again.
\<close>

theorem persistent_delete_get:
  assumes "ns_ok (Suc k) persistent_readable s M log" and "length ident = 32" "M ident = Some loc"
    and "persistent_removable (im_primary (ns_indexes s)) M ident"
  shows "\<exists>s' log'. ns_delete_event persistent_ops now None ident s = (None, s') \<and> ns_ok k persistent_readable s' (M(ident := None)) log' \<and>
    fst (ns_get_event persistent_ops None ident s') = Inr None \<and>
    (\<exists>e. read_event (ns_storage s') loc = Inr e \<and> is_deleted (ev_flags e)) \<and>
    (\<forall>ident'. length ident' = 32 \<longrightarrow> ident' \<noteq> ident \<longrightarrow>
      fst (ns_get_event persistent_ops None ident' s') = fst (ns_get_event persistent_ops None ident' s)) \<and>
    logged_entry op_update_flags (put_u32 (segment_id loc) @ put_u32 (loc_offset loc) @ [flag_deleted]) s s'"
  using persd.delete_event_ok [OF assms] .

lemma one_entry_removable:
  assumes "persistent_holds i [k \<mapsto> l]" "length k = 32"
  shows "persistent_removable i [k \<mapsto> l] k"
proof -
  obtain es where es: "\<not> px_closed i" "tree_holds index_type_primary es (px_tree i)" "distinct (map fst es)" "map_of es = [k \<mapsto> l]"
    using assms(1) unfolding persistent_holds_def by metis
  have "set es = {(k, l)}" using map_of_eq_Some_iff [OF es(3), unfolded es(4), symmetric] by (auto split: if_splits)
  moreover have "distinct es" using es(3) by (simp add: distinct_map)
  ultimately have e1: "es = [(k, l)]" by (cases es; cases "tl es") auto
  obtain h T where T: "pt_inv True h T (px_tree i)" "entries T = es" "h \<le> max_depth" "Suc h \<le> pt_capacity (px_tree i)"
    by (rule tree_holds_bounds [OF es(2)]) (use e1 in auto)
  have g: "good True (unat (pt_page_size (px_tree i))) h T" using T(1) by (simp add: pt_inv_def hole_ok_def)
  then have "2 ^ h \<le> (1 :: nat)" using height_bound [OF g] T(2) e1 by fastforce
  then have "h = 0" using less_exp [of h] by linarith
  then obtain a where "T = Lf a es" using T(2) g by (cases T) auto
  then show ?thesis using T es(1) e1 \<open>h = 0\<close> assms(2) by (auto simp: persistent_removable_def intro!: exI [of _ 0] exI [of _ "Lf a es"])
qed

theorem persistent_delete_get_witness:
  "\<exists>s s' en. ns_delete_event persistent_ops 9 None (ev_id demo_event) s = (None, s') \<and> fst (ns_get_event persistent_ops None (ev_id demo_event) s') = Inr None \<and>
    (\<exists>cs. ns_log s' = ns_log s @ en # cs) \<and> en_type en = op_update_flags"
proof -
  obtain p a k x where ok: "ns_ok (Suc (Suc (Suc 0))) persistent_holds (persistent_ns p a k x) Map.empty []" using persistent_ns_ok by blast
  let ?s = "persistent_ns p a k x"
  have st: "ns_storage ?s = ns_storage demo_ns" by (simp add: persistent_ns_def demo_ns_def)
  have id: "length (ev_id demo_event) = 32" using demo_event_facts(1) by (simp add: event_wf_def)
  have "persistent_fits Map.empty (ev_id demo_event)" using id by (simp add: persistent_fits_def max_key_def)
  from pers.write_event_steps [OF ok demo_event_facts(1,3) demo_ns_fits(4) demo_event_facts(2) refl this demo_ns_fits(1,2) [folded st], of 9] obtain loc s1 log1 data where
    s1: "ns_ok (Suc 0) persistent_holds s1 [ev_id demo_event \<mapsto> loc] log1" and lg: "ns_max_retained ?s \<le> 0 \<longrightarrow> logged_entry op_insert data ?s s1" by blast
  have "ns_log s1 \<noteq> []" using lg by (auto simp: logged_entry_def persistent_ns_def)
  then have wal: "ns_wal s1 \<noteq> None" by (cases "ns_wal s1") (simp_all add: ns_log_def)
  have "ns_ok (Suc 0) persistent_readable s1 [ev_id demo_event \<mapsto> loc] log1" "persistent_removable (im_primary (ns_indexes s1)) [ev_id demo_event \<mapsto> loc] (ev_id demo_event)"
    using s1 one_entry_removable [OF _ id] by (auto simp: ns_ok_def intro: persistent_holds_readable)
  from persistent_delete_get [OF this(1) id _ this(2), of loc 9] wal show ?thesis by (auto simp: logged_entry_def)
qed

end
