(* ===== verification/Store_Rebuild.thy ===== *)
theory Store_Rebuild
  imports Store_Facade "HOL-Library.Multiset"
begin

text \<open>
  Rebuilding the indexes from the segments: \<open>rebuildIndexesFromSegments\<close> and \<open>rebuildIndexesFromSegmentsParallel\<close> of
  \<open>src/eventstore/eventstore_impl.go\<close>. Each worker scans whole segments and sends what it finds to one channel; the order in which the
  events of several workers arrive is the argument \<open>mix\<close>. Closing the index manager, deleting its files and opening it again gives the argument \<open>reopened\<close>.
  The context is not cancelled. The scan of a segment takes fuel, as skipping a page can wrap around.

  Result: when no two live records have the same identifier, the primary index then has exactly the live events, whatever the order of arrival.
\<close>

section \<open>The scan\<close>

fun recover_segment :: "nat \<Rightarrow> scanner \<Rightarrow> (event \<times> location) list result option" where
  "recover_segment 0 sc = None"
| "recover_segment (Suc n) sc =
     (case sc_next sc of
        Inl e \<Rightarrow>
          if e = EOF then Some (Inr [])
          else if e = Panic then Some (Inl Panic)
          else recover_segment n (sc_seek ((sc_offset sc div sc_page sc + 1) * sc_page sc) sc)
      | Inr (r, loc, sc') \<Rightarrow>
          if is_deleted (rec_flags r) \<or> is_replaced (rec_flags r) then recover_segment n sc'
          else case deserialize (Some r) of
            Inl _ \<Rightarrow> recover_segment n sc'
          | Inr ev \<Rightarrow> map_option (map_sum id (\<lambda>ps. (ev, loc) # ps)) (recover_segment n sc'))"

definition scan_worker :: "nat \<Rightarrow> event_store \<Rightarrow> u32 \<Rightarrow> (event \<times> location) list result option" where
  "scan_worker n st sid =
     (case es_manager st of
        None \<Rightarrow> Some (Inl Panic)
      | Some m \<Rightarrow>
          (case get_segment m sid of
             Inl _ \<Rightarrow> Some (Inr [])
           | Inr seg \<Rightarrow> recover_segment n (new_scanner seg)))"

fun all_scans :: "(event \<times> location) list result option list \<Rightarrow> (event \<times> location) list list result option" where
  "all_scans [] = Some (Inr [])"
| "all_scans (x # xs) =
     (case x of
        None \<Rightarrow> None
      | Some (Inl e) \<Rightarrow> Some (Inl e)
      | Some (Inr ps) \<Rightarrow> map_option (map_sum id (\<lambda>pss. ps # pss)) (all_scans xs))"

section \<open>The batches\<close>

function insert_batches :: "'x index_ops \<Rightarrow> nat \<Rightarrow> (event \<times> location) list \<Rightarrow> 'x index_mgr \<Rightarrow> go_error option \<times> 'x index_mgr" where
  "insert_batches ops b ps im =
     (if b = 0 \<or> length ps < b
      then (if ps = [] then (None, im)
            else case insert_recovery_batch ops None (map fst ps) (map snd ps) True im of
              (r, im1) \<Rightarrow> (map_option (wrap_error ''final batch index insert failed'') r, im1))
      else case insert_recovery_batch ops None (map fst (take b ps)) (map snd (take b ps)) True im of
        (Some e, im1) \<Rightarrow> (Some (wrap_error ''batch insert failed during rebuild'' e), im1)
      | (None, im1) \<Rightarrow> insert_batches ops b (drop b ps) im1)"
  by pat_completeness auto
termination
  by (relation "measure (\<lambda>(ops, b, ps, im). length ps)") auto

declare insert_batches.simps [simp del]

definition rebuild_batch_size :: nat where "rebuild_batch_size = 5000"

definition rebuild_parallel ::
  "'x index_ops \<Rightarrow> ((event \<times> location) list list \<Rightarrow> (event \<times> location) list) \<Rightarrow> nat \<Rightarrow> u32 list \<Rightarrow> 'x nostr_store \<Rightarrow>
   (go_error option \<times> 'x nostr_store) option" where
  "rebuild_parallel ops mix n sids s =
     (case all_scans (map (scan_worker n (ns_storage s)) sids) of
        None \<Rightarrow> None
      | Some (Inl e) \<Rightarrow> Some (Some e, s)
      | Some (Inr pss) \<Rightarrow>
          (case insert_batches ops rebuild_batch_size (mix pss) (ns_indexes s) of
             (Some e, im) \<Rightarrow> Some (Some e, s\<lparr>ns_indexes := im\<rparr>)
           | (None, im) \<Rightarrow> Some (None, s\<lparr>ns_indexes := snd (im_flush ops None im)\<rparr>)))"

definition rebuild_indexes_from_segments ::
  "'x index_ops \<Rightarrow> ((event \<times> location) list list \<Rightarrow> (event \<times> location) list) \<Rightarrow> nat \<Rightarrow> 'x index_mgr result \<Rightarrow> 'x nostr_store \<Rightarrow>
   (go_error option \<times> 'x nostr_store) option" where
  "rebuild_indexes_from_segments ops mix n reopened s =
     (case es_manager (ns_storage s) of
        None \<Rightarrow> Some (Some Panic, s)
      | Some m \<Rightarrow>
          if list_segments m = [] then Some (None, s)
          else case reopened of
            Inl e \<Rightarrow> Some (Some (wrap_error ''reopen index manager'' e), s)
          | Inr im \<Rightarrow> rebuild_parallel ops mix n (list_segments m) (s\<lparr>ns_indexes := im\<rparr>))"

section \<open>What the scans find\<close>

definition live_events :: "(location \<times> rec) list \<Rightarrow> (event \<times> location) list" where
  "live_events log = concat (map (\<lambda>(l, r). if \<not> live r then [] else case deserialize (Some r) of Inl _ \<Rightarrow> [] | Inr e \<Rightarrow> [(e, l)]) log)"

lemma live_events_simps [simp]: "live_events [] = []" "live_events (a @ b) = live_events a @ live_events b"
  by (simp_all add: live_events_def)

lemma live_events_iff: "(e, l) \<in> set (live_events log) \<longleftrightarrow> (\<exists>r. (l, r) \<in> set log \<and> live r \<and> deserialize (Some r) = Inr e)"
  by (force simp: live_events_def split: sum.splits)

lemma deserialize_facts: "deserialize (Some r) = Inr e \<Longrightarrow> length (ev_id e) = 32 \<and> ev_flags e = rec_flags r"
  by (clarsimp simp: deserialize_def Let_def length_gslice split: if_split_asm sum.split_asm)

lemma live_event_facts: "(e, l) \<in> set (live_events log) \<Longrightarrow> length (ev_id e) = 32 \<and> \<not> is_deleted (ev_flags e)"
  unfolding live_events_iff live_def by (metis deserialize_facts)

lemma recover_segment_rep:
  assumes rep: "seg_rep s hdr rs"
  shows "i \<le> length rs \<Longrightarrow> length rs - i < n \<Longrightarrow>
    recover_segment n (at_record s rs i) = Some (Inr (live_events (map (\<lambda>j. (rec_loc s rs j, rs ! j)) [i..<length rs])))"
proof (induction n arbitrary: i)
  case (Suc n)
  show ?case
  proof (cases "i = length rs")
    case True
    then show ?thesis by (simp add: sc_next_end [OF rep])
  next
    case False
    with Suc.prems have i: "i < length rs" by simp
    then have u: "[i..<length rs] = i # [Suc i..<length rs]" by (simp add: upt_conv_Cons)
    show ?thesis unfolding u using Suc.IH [of "Suc i"] Suc.prems i
      by (auto simp: sc_next_record [OF rep i] live_def live_events_def split: sum.splits)
  qed
qed simp

lemma scan_worker_rep:
  assumes "store_rep st log" "es_manager st = Some m" "sid \<in> set (list_segments m)" "length log < n"
  shows "scan_worker n st sid = Some (Inr (live_events (log_of sid log)))"
proof -
  have rep: "mgr_rep m log" using assms(1,2) by (simp add: store_rep_def)
  have "sid \<in> fst ` set (mgr_segments m)" using assms(3) by (simp add: list_segments_def)
  then obtain s where s: "map_of (mgr_segments m) sid = Some s" by (metis domD dom_map_of_conv_image_fst)
  then have "seg_of_mgr m sid s log" using rep by (simp add: mgr_rep_def)
  then obtain hdr rs where rs: "seg_rep s hdr rs" "log_of sid log = seg_log s rs" by (auto simp: seg_of_mgr_def seg_log_rep_def)
  have "length (log_of sid log) \<le> length log" by (simp add: log_of_def)
  moreover have sn: "rs = map snd (seg_log s rs)" by (rule nth_equalityI) (simp_all add: seg_log_def)
  ultimately have len: "length rs < n" using assms(4) rs(2) by (metis le_less_trans length_map)
  show ?thesis using recover_segment_rep [OF rs(1), of 0 n] len s assms(2) rs(2)
    by (simp add: scan_worker_def get_segment_def new_scanner_at [of s rs] seg_log_def)
qed

lemma all_scans_Inr: "all_scans (map (\<lambda>x. Some (Inr (f x))) xs) = Some (Inr (map f xs))"
  by (induction xs) simp_all

text \<open>The segments share the records out.\<close>

lemma live_events_split:
  assumes "distinct sids" "\<forall>p \<in> set log. segment_id (fst p) \<in> set sids"
  shows "mset (concat (map (\<lambda>sid. live_events (log_of sid log)) sids)) = mset (live_events log)"
  using assms(2)
proof (induction log)
  case Nil
  show ?case by (induction sids) simp_all
next
  case (Cons p log)
  obtain l r where p: "p = (l, r)" by (cases p)
  have eq: "mset (live_events (log_of sid (p # log))) = (if sid = segment_id l then mset (live_events [p]) else {#}) + mset (live_events (log_of sid log))" for sid
    using live_events_simps(2) [of "[p]" "log_of sid log"] p by auto
  have "mset (concat (map (\<lambda>sid. live_events (log_of sid (p # log))) ids)) =
      (if segment_id l \<in> set ids then mset (live_events [p]) else {#}) + mset (concat (map (\<lambda>sid. live_events (log_of sid log)) ids))" if "distinct ids" for ids
    using that by (induction ids) (auto simp: eq)
  then show ?case using Cons assms(1) p live_events_simps(2) [of "[p]" log] by simp
qed

context primary_batch
begin

lemma insert_batches_ok:
  assumes "holds (im_primary im) M" "\<forall>p \<in> set ps. length (ev_id (fst p)) = 32"
  shows "\<exists>im'. insert_batches ops b ps im = (None, im') \<and> holds (im_primary im') (M ++ map_of (rev (map (\<lambda>(e, l). (ev_id e, l)) ps)))"
  using assms
proof (induction "length ps" arbitrary: ps im M rule: less_induct)
  case less
  have z: "zip (map ev_id (map fst qs)) (map snd qs) = map (\<lambda>(e, l). (ev_id e, l)) qs" for qs :: "(event \<times> location) list" by (induction qs) auto
  have step: "\<exists>im'. insert_recovery_batch ops None (map fst qs) (map snd qs) True im = (None, im') \<and>
      holds (im_primary im') (M ++ map_of (rev (map (\<lambda>(e, l). (ev_id e, l)) qs)))" if "set qs \<subseteq> set ps" for qs
    using recovery_batch_ok [OF less.prems(1), of "map fst qs" "map snd qs" True] less.prems(2) that unfolding z by auto
  show ?case
  proof (cases "b = 0 \<or> length ps < b")
    case True
    then have "insert_batches ops b ps im = (if ps = [] then (None, im) else case insert_recovery_batch ops None (map fst ps) (map snd ps) True im of
        (r, im1) \<Rightarrow> (map_option (wrap_error ''final batch index insert failed'') r, im1))" unfolding insert_batches.simps [of ops b ps im] by simp
    then show ?thesis using step [of ps] less.prems(1) by auto
  next
    case False
    obtain im1 where im1: "insert_recovery_batch ops None (map fst (take b ps)) (map snd (take b ps)) True im = (None, im1)"
      "holds (im_primary im1) (M ++ map_of (rev (map (\<lambda>(e, l). (ev_id e, l)) (take b ps))))" using step [of "take b ps"] by (auto dest: in_set_takeD)
    have "insert_batches ops b ps im = insert_batches ops b (drop b ps) im1"
      unfolding insert_batches.simps [of ops b ps im] using False im1(1) by auto
    moreover have "length (drop b ps) < length ps" "\<forall>p \<in> set (drop b ps). length (ev_id (fst p)) = 32" using False less.prems(2) by (auto dest: in_set_dropD)
    then have "\<exists>im'. insert_batches ops b (drop b ps) im1 = (None, im') \<and>
      holds (im_primary im') ((M ++ map_of (rev (map (\<lambda>(e, l). (ev_id e, l)) (take b ps)))) ++ map_of (rev (map (\<lambda>(e, l). (ev_id e, l)) (drop b ps))))"
      using less.hyps [OF _ im1(2)] by simp
    moreover have "(M ++ map_of (rev (map (\<lambda>(e, l). (ev_id e, l)) (take b ps)))) ++ map_of (rev (map (\<lambda>(e, l). (ev_id e, l)) (drop b ps))) =
        M ++ map_of (rev (map (\<lambda>(e, l). (ev_id e, l)) ps))"
    proof -
      have "rev (map (\<lambda>(e, l). (ev_id e, l)) ps) = rev (map (\<lambda>(e, l). (ev_id e, l)) (drop b ps)) @ rev (map (\<lambda>(e, l). (ev_id e, l)) (take b ps))"
        by (metis append_take_drop_id map_append rev_append)
      then show ?thesis by (simp only: map_of_append map_add_assoc)
    qed
    ultimately show ?thesis by simp
  qed
qed

text \<open>A rebuild gives the live events to an empty primary index.\<close>

lemma rebuild_ok:
  assumes rep: "store_rep (ns_storage s) log" "es_manager (ns_storage s) = Some m" and n: "length log < n"
    and ids: "distinct (map (ev_id \<circ> fst) (live_events log))"
    and mix: "\<And>pss. mset (mix pss) = mset (concat pss)" and im: "holds (im_primary im) Map.empty" and ne: "mgr_segments m \<noteq> []"
  shows "\<exists>s' M. rebuild_indexes_from_segments ops mix n (Inr im) s = Some (None, s') \<and> ns_storage s' = ns_storage s \<and> ns_opened s' = ns_opened s \<and> ns_wal s' = ns_wal s \<and>
    holds (im_primary (ns_indexes s')) M \<and> (\<forall>ident l. M ident = Some l \<longleftrightarrow> (\<exists>e. (e, l) \<in> set (live_events log) \<and> ev_id e = ident))"
proof -
  let ?s = "s\<lparr>ns_indexes := im\<rparr>"
  have mr: "mgr_rep m log" using rep by (simp add: store_rep_def)
  define pss where "pss = map (\<lambda>sid. live_events (log_of sid log)) (list_segments m)"
  have "map (scan_worker n (ns_storage s)) (list_segments m) = map (\<lambda>sid. Some (Inr (live_events (log_of sid log)))) (list_segments m)"
    using scan_worker_rep [OF rep _ n] by simp
  then have scans: "all_scans (map (scan_worker n (ns_storage ?s)) (list_segments m)) = Some (Inr pss)"
    using all_scans_Inr [of "\<lambda>sid. live_events (log_of sid log)"] unfolding pss_def by (simp del: map_eq_conv)
  have "mset (concat pss) = mset (live_events log)" unfolding pss_def
    using mr by (intro live_events_split) (auto simp: mgr_rep_def list_segments_def dom_map_of_conv_image_fst)
  then have ms: "mset (mix pss) = mset (live_events log)" using mix by simp
  then have st: "set (mix pss) = set (live_events log)" by (metis set_mset_mset)
  define kl where "kl = map (\<lambda>(e, l). (ev_id e, l)) (mix pss)"
  have "mset (map (ev_id \<circ> fst) (mix pss)) = mset (map (ev_id \<circ> fst) (live_events log))" using ms by simp
  from mset_eq_imp_distinct_iff [OF this] have "distinct (map (ev_id \<circ> fst) (mix pss))" using ids by simp
  moreover have "map fst kl = map (ev_id \<circ> fst) (mix pss)" unfolding kl_def by auto
  ultimately have d: "distinct (map fst kl)" by simp
  have "\<forall>p \<in> set (mix pss). length (ev_id (fst p)) = 32" unfolding st using live_event_facts by auto
  from insert_batches_ok [OF im this, of rebuild_batch_size] obtain im1 where
    im1: "insert_batches ops rebuild_batch_size (mix pss) im = (None, im1)" "holds (im_primary im1) (map_of kl)"
    unfolding kl_def [symmetric] using distinct_map_of_rev [OF d] by auto
  obtain r im2 where im2: "im_flush ops None im1 = (r, im2)" "holds (im_primary im2) (map_of kl)" using flush_indexes_ok [OF im1(2)] by blast
  have "rebuild_indexes_from_segments ops mix n (Inr im) s = Some (None, s\<lparr>ns_indexes := im2\<rparr>)"
    using rep(2) ne scans im1(1) im2(1) by (simp add: rebuild_indexes_from_segments_def rebuild_parallel_def list_segments_def)
  moreover have "map_of kl ident = Some l \<longleftrightarrow> (\<exists>e. (e, l) \<in> set (live_events log) \<and> ev_id e = ident)" for ident l
    unfolding map_of_eq_Some_iff [OF d] using st by (force simp: kl_def)
  ultimately show ?thesis using im2(2) by (intro exI [of _ "s\<lparr>ns_indexes := im2\<rparr>"] exI [of _ "map_of kl"]) simp
qed

end

section \<open>Properties\<close>



end
