(* ===== verification/Store_Batch.thy ===== *)
theory Store_Batch
  imports Store_Facade
begin

text \<open>
  Batches of the event store, \<open>src/eventstore/eventstore_impl.go\<close>: \<open>WriteEvents\<close> with its sub-batches, \<open>writeEventsBatch\<close>, and
  \<open>DeleteEvents\<close>. The loop that appends records and rotates segments takes fuel; enough fuel is given when every record fits an empty segment.
\<close>

section \<open>Writing\<close>

text \<open>Events that are neither indexed nor earlier in the batch, with their positions.\<close>

fun unique_events :: "bytes list \<Rightarrow> nat \<Rightarrow> (event \<times> bool) list \<Rightarrow> (nat \<times> event) list" where
  "unique_events seen i [] = []"
| "unique_events seen i ((e, exists) # ps) =
     (if exists then unique_events seen (i + 1) ps
      else if ev_id e \<in> set seen then unique_events seen (i + 1) ps
      else (i, e) # unique_events (ev_id e # seen) (i + 1) ps)"

fun serialize_all :: "u32 \<Rightarrow> event list \<Rightarrow> rec list result" where
  "serialize_all ps [] = Inr []"
| "serialize_all ps (e # es) =
     (case wrap_err ''serialize event'' (serialize ps (Some e)) of
        Inl x \<Rightarrow> Inl x
      | Inr r \<Rightarrow> (case serialize_all ps es of Inl x \<Rightarrow> Inl x | Inr rs \<Rightarrow> Inr (r # rs)))"

fun error_text :: "go_error \<Rightarrow> string" where
  "error_text EOF = ''EOF''"
| "error_text (Err s) = s"
| "error_text (Wrap m e) = m @ '': '' @ error_text e"
| "error_text Panic = []"

definition mentions_full :: "go_error \<Rightarrow> bool" where
  "mentions_full e \<longleftrightarrow> sublist ''segment full'' (error_text e)"

definition required_bytes :: "u32 \<Rightarrow> rec \<Rightarrow> nat" where
  "required_bytes ps r = unat ps * (1 + (1 + (if is_continued (rec_flags r) then unat (continuation_count r) else 0)))"

fun append_records :: "nat \<Rightarrow> u64 \<Rightarrow> u32 \<Rightarrow> u64 \<Rightarrow> rec list \<Rightarrow> location list \<Rightarrow> event_store \<Rightarrow> (location list result \<times> event_store) option" where
  "append_records 0 now ps mx rs stored st = None"
| "append_records (Suc k) now ps mx rs stored st =
     (if rs = [] then Some (Inr stored, st)
      else case es_manager st of
        None \<Rightarrow> Some (Inl Panic, st)
      | Some m \<Rightarrow>
          (case wrap_err ''get current segment'' (mgr_current_segment m) of
             Inl e \<Rightarrow> Some (Inl e, st)
           | Inr seg \<Rightarrow>
               (case (if seg_is_full seg then wrap_err ''rotate segment'' (rotate_segment now m) else Inr m) of
                  Inl e \<Rightarrow> Some (Inl e, st)
                | Inr m1 \<Rightarrow>
                    (case mgr_current_segment m1 of
                       Inl e \<Rightarrow> Some (Inl e, st)
                     | Inr seg1 \<Rightarrow>
                         (case seg_append_batch seg1 rs of
                            (locs, err, seg2) \<Rightarrow>
                              let m2 = put_segment m1 (mgr_current m1) seg2; st2 = st\<lparr>es_manager := Some m2\<rparr>; stored2 = stored @ locs
                              in case err of
                                   None \<Rightarrow> Some (Inr stored2, st2)
                                 | Some e \<Rightarrow>
                                     if \<not> mentions_full e then Some (Inl (wrap_error ''storage batch append'' e), st2)
                                     else if locs \<noteq> [] then append_records k now ps mx (drop (length locs) rs) stored2 st2
                                     else if required_bytes ps (hd rs) > unat mx then Some (Inl (Err ''record too large for segment''), st2)
                                     else case rotate_segment now m2 of
                                       Inl e \<Rightarrow> Some (Inl (wrap_error ''rotate segment'' e), st2)
                                     | Inr m3 \<Rightarrow> append_records k now ps mx rs stored2 (st\<lparr>es_manager := Some m3\<rparr>))))))"

declare append_records.simps [simp del]

text \<open>After a failed batch insertion the primary index is asked for every key.\<close>

fun inserted_events :: "'x index_ops \<Rightarrow> go_error option \<Rightarrow> (event \<times> location) list \<Rightarrow> 'x \<Rightarrow> (event \<times> location) list \<times> 'x" where
  "inserted_events ops ctx [] x = ([], x)"
| "inserted_events ops ctx (p # ps) x =
     (case xo_get ops ctx (primary_key_of (fst p)) x of
        (g, x1) \<Rightarrow> (case inserted_events ops ctx ps x1 of
          (qs, x2) \<Rightarrow> (case g of Inr (_, True) \<Rightarrow> p # qs | _ \<Rightarrow> qs, x2)))"

fun ghost_cleanup :: "'x index_ops \<Rightarrow> go_error option \<Rightarrow> (event \<times> location) list \<Rightarrow> 'x index_mgr \<Rightarrow> 'x index_mgr" where
  "ghost_cleanup ops ctx [] im = im"
| "ghost_cleanup ops ctx ((e, l) # ps) im =
     (case xo_get ops ctx (primary_key_of e) (im_primary im) of
        (g, x) \<Rightarrow>
          let im1 = im\<lparr>im_primary := x\<rparr>
          in ghost_cleanup ops ctx ps (case g of
               Inr (_, False) \<Rightarrow> im1\<lparr>im_author_time := snd (xo_delete ops ctx (author_time_key_of e) (Some l) (im_author_time im1)),
                                     im_kind_time := snd (xo_delete ops ctx (kind_time_key_of e) (Some l) (im_kind_time im1))\<rparr>
             | _ \<Rightarrow> im1))"

definition index_batch :: "'x index_ops \<Rightarrow> u64 \<Rightarrow> go_error option \<Rightarrow> (event \<times> location) list \<Rightarrow> 'x nostr_store \<Rightarrow> 'x nostr_store" where
  "index_batch ops now ctx ps s =
     (let im = ns_indexes s
      in case xo_insert_batch ops ctx (map (primary_key_of \<circ> fst) ps) (map snd ps) (im_primary im) of
           (err, x) \<Rightarrow>
             (case (if err = None then (ps, x) else inserted_events ops ctx ps x) of
                (qs, x1) \<Rightarrow>
                  let im1 = im\<lparr>im_primary := x1\<rparr>
                  in if qs = [] then s\<lparr>ns_indexes := im1\<rparr>
                     else let locs = map snd qs;
                              ses = concat (map (\<lambda>(e, l). map (\<lambda>k. (k, l)) (event_search_keys (im_codes im) e [] (tags e))) qs);
                              im2 = im1\<lparr>im_author_time := snd (xo_insert_batch ops ctx (map (author_time_key_of \<circ> fst) qs) locs (im_author_time im1)),
                                        im_kind_time := snd (xo_insert_batch ops ctx (map (kind_time_key_of \<circ> fst) qs) locs (im_kind_time im1)),
                                        im_search := (if ses = [] then im_search im1 else snd (xo_insert_batch ops ctx (map fst ses) (map snd ses) (im_search im1)))\<rparr>;
                              s1 = s\<lparr>ns_indexes := ghost_cleanup ops ctx qs im2\<rparr>
                          in note_events_written ops now (int (length qs)) (fold (add_kind_if_new \<circ> kind \<circ> fst) qs s1)))"

definition ns_write_batch :: "'x index_ops \<Rightarrow> nat \<Rightarrow> u64 \<Rightarrow> go_error option \<Rightarrow> event list \<Rightarrow> 'x nostr_store \<Rightarrow> (location list result \<times> 'x nostr_store) option" where
  "ns_write_batch ops n now ctx es s =
     (if es = [] then Some (Inr [], s)
      else let ps = (if ns_cfg_page_size s = 0 then 4096 else ns_cfg_page_size s);
               mx = (if ns_cfg_max_segment s = 0 then 1073741824 else ns_cfg_max_segment s)
        in case xo_get_batch ops ctx (map primary_key_of es) (im_primary (ns_indexes s)) of
             (g, x) \<Rightarrow>
               let s1 = s\<lparr>ns_indexes := (ns_indexes s)\<lparr>im_primary := x\<rparr>\<rparr>
               in case g of
                    Inl e \<Rightarrow> Some (Inl (wrap_error ''batch duplicate check'' e), s1)
                  | Inr (_, flags) \<Rightarrow>
                      let us = unique_events [] 0 (zip es flags)
                      in if us = [] then Some (Inr (replicate (length es) zero_location), s1)
                         else case serialize_all (es_page_size (ns_storage s1)) (map snd us) of
                           Inl e \<Rightarrow> Some (Inl e, s1)
                         | Inr rs \<Rightarrow>
                             (case log_write_batch now (map (\<lambda>r. log_entry op_insert (rec_data r)) rs) s1 of
                                (Some e, s2) \<Rightarrow> Some (Inl (wrap_error ''wal batch write'' e), s2)
                              | (None, s2) \<Rightarrow>
                                  (case append_records n now ps mx rs [] (ns_storage s2) of
                                     None \<Rightarrow> None
                                   | Some (Inl e, st) \<Rightarrow> Some (Inl e, s2\<lparr>ns_storage := st\<rparr>)
                                   | Some (Inr stored, st) \<Rightarrow>
                                       Some (Inr (fold (\<lambda>((i, _), l) ls. ls[i := l]) (zip us stored) (replicate (length es) zero_location)),
                                             index_batch ops now ctx (zip (map snd us) stored) (s2\<lparr>ns_storage := st\<rparr>)))))"

function write_chunks ::
  "'x index_ops \<Rightarrow> nat \<Rightarrow> u64 \<Rightarrow> go_error option \<Rightarrow> nat \<Rightarrow> event list \<Rightarrow> location list \<Rightarrow> 'x nostr_store \<Rightarrow> ((location list \<times> go_error option) \<times> 'x nostr_store) option" where
  "write_chunks ops n now ctx b es acc s =
     (if es = [] \<or> b = 0 then Some ((acc, None), s)
      else case ns_write_batch ops n now ctx (take b es) s of
        None \<Rightarrow> None
      | Some (Inl e, s1) \<Rightarrow> Some ((acc, Some (wrap_error ''sub-batch'' e)), s1)
      | Some (Inr ls, s1) \<Rightarrow> write_chunks ops n now ctx b (drop b es) (acc @ ls) s1)"
  by pat_completeness auto
termination
  by (relation "measure (\<lambda>(ops, n, now, ctx, b, es, acc, s). length es)") (auto simp: neq_Nil_conv)

declare write_chunks.simps [simp del]

definition ns_write_events ::
  "'x index_ops \<Rightarrow> nat \<Rightarrow> u64 \<Rightarrow> go_error option \<Rightarrow> event list \<Rightarrow> 'x nostr_store \<Rightarrow> ((location list \<times> go_error option) \<times> 'x nostr_store) option" where
  "ns_write_events ops n now ctx es s =
     (if \<not> ns_opened s then Some (([], Some (Err ''store not opened'')), s)
      else if ns_recovering s then Some (([], Some (Err ''store is recovering indexes, please wait'')), s)
      else if ctx \<noteq> None then Some (([], ctx), s)
      else if es = [] then Some (([], None), s)
      else write_chunks ops n now ctx (if ns_write_batch_size s \<le> 0 then 500 else nat (ns_write_batch_size s)) es [] s)"

section \<open>Deleting\<close>

text \<open>The events that are indexed and can be read, with their locations and keys.\<close>

fun readable_events :: "event_store \<Rightarrow> (bytes \<times> location \<times> bool) list \<Rightarrow> (event \<times> location \<times> bytes) list" where
  "readable_events st [] = []"
| "readable_events st ((k, l, exists) # ps) =
     (if \<not> exists then readable_events st ps
      else case read_event st l of Inl _ \<Rightarrow> readable_events st ps | Inr e \<Rightarrow> (e, l, k) # readable_events st ps)"

definition mark_deleted :: "location list \<Rightarrow> event_store \<Rightarrow> event_store" where
  "mark_deleted ls st = fold (\<lambda>l st. case update_event_flags st l (set_deleted True 0) of Inl _ \<Rightarrow> st | Inr st1 \<Rightarrow> st1) ls st"

definition ns_delete_events :: "'x index_ops \<Rightarrow> u64 \<Rightarrow> go_error option \<Rightarrow> bytes list \<Rightarrow> 'x nostr_store \<Rightarrow> go_error option \<times> 'x nostr_store" where
  "ns_delete_events ops now ctx ids s =
     (if \<not> ns_opened s then (Some (Err ''store not opened''), s)
      else if ctx \<noteq> None then (ctx, s)
      else if ids = [] then (None, s)
      else let ks = map build_primary_key ids
        in case xo_get_batch ops ctx ks (im_primary (ns_indexes s)) of
             (g, x) \<Rightarrow>
               let s1 = s\<lparr>ns_indexes := (ns_indexes s)\<lparr>im_primary := x\<rparr>\<rparr>
               in case g of
                    Inl e \<Rightarrow> (Some (wrap_error ''batch primary index lookup'' e), s1)
                  | Inr (locs, flags) \<Rightarrow>
                      let ps = readable_events (ns_storage s1) (zip ks (zip locs flags))
                      in if ps = [] then (Some (Err ''no valid events found to delete''), s1)
                         else case log_write_batch now (map (\<lambda>(_, l, _). deletion_entry l) ps) s1 of
                           (Some e, s2) \<Rightarrow> (Some (wrap_error ''batch wal write'' e), s2)
                         | (None, s2) \<Rightarrow>
                             let im = ns_indexes s2; los = map (\<lambda>(_, l, _). Some l) ps;
                                 ses = concat (map (\<lambda>(e, l, _). map (\<lambda>k. (k, Some l)) (search_keys_seen_first (im_codes im) e [] (tags e))) ps)
                             in (None, s2\<lparr>ns_storage := mark_deleted (map (\<lambda>(_, l, _). l) ps) (ns_storage s2),
                                   ns_indexes := im\<lparr>im_primary := snd (xo_delete_batch ops ctx (map (\<lambda>(_, _, k). k) ps) [] (im_primary im)),
                                     im_author_time := snd (xo_delete_batch ops ctx (map (\<lambda>(e, _). author_time_key_of e) ps) los (im_author_time im)),
                                     im_kind_time := snd (xo_delete_batch ops ctx (map (\<lambda>(e, _). kind_time_key_of e) ps) los (im_kind_time im)),
                                     im_search := snd (xo_delete_batch ops ctx (map fst ses) (map snd ses) (im_search im))\<rparr>\<rparr>))"

section \<open>The log takes the batch\<close>

lemma assign_lsns_total: "\<forall>e \<in> set es. 29 + length (en_data e) \<le> wal_max_record_size \<Longrightarrow> \<exists>es' l. assign_lsns now lsn es = (Inr es', l)"
proof (induction es arbitrary: lsn)
  case (Cons e es)
  then obtain es' l where "assign_lsns now (lsn + 1) es = (Inr es', l)" by fastforce
  then show ?case using Cons.prems by (simp add: Let_def stamp_def)
qed simp

lemma wal_batch_total:
  assumes "wal_inv d w" "wr_segment_id w \<noteq> - 1" "\<forall>e \<in> set es. 29 + length (en_data e) \<le> wal_max_record_size"
  shows "\<exists>ls d' w'. wal_write_batch now es d w = (Inr ls, d', w') \<and> step_ok (Op_Batch now es) d w d' w'"
proof -
  obtain r d' w' where r: "wal_write_batch now es d w = (r, d', w')" "step_ok (Op_Batch now es) d w d' w'"
    using wal_write_batch_ok [OF assms(1,2)] by blast
  obtain es' l where al: "assign_lsns now (wr_last_lsn w) es = (Inr es', l)" using assign_lsns_total [OF assms(3)] by blast
  have ok: "\<forall>x \<in> set (map sealed es'). entry_ok x" using assign_lsns_data [OF al] entry_ok_sealed by auto
  have bytes: "concat (map serialize_entry (map sealed es')) = concat (map serialize_entry es')" by (simp add: comp_def)
  have inv: "wal_inv d (w\<lparr>wr_last_lsn := l\<rparr>)" "wr_segment_id (w\<lparr>wr_last_lsn := l\<rparr>) \<noteq> - 1" using assms by simp_all
  obtain d1 w1 where "append_bytes (concat (map serialize_entry es')) d (w\<lparr>wr_last_lsn := l\<rparr>) = (None, d1, w1)"
    using append_bytes_ok [OF inv ok, unfolded bytes] by blast
  moreover have "wr_file w \<noteq> None" using assms(1) by (simp add: wal_inv_def)
  ultimately have "\<exists>ls. r = Inr ls" using r(1) al by (auto simp: wal_write_batch_def split: if_splits)
  then show ?thesis using r by blast
qed

lemma log_write_batch_ok:
  assumes "log_ready (Suc k) (ns_wal s)" "\<forall>e \<in> set es. 29 + length (en_data e) \<le> wal_max_record_size"
  shows "\<exists>x. log_write_batch now es s = (None, s\<lparr>ns_wal := x\<rparr>) \<and> log_ready k x"
proof (cases "ns_wal s")
  case None
  then show ?thesis by (intro exI [of _ None]) (simp add: log_write_batch_def log_ready_def)
next
  case (Some x)
  obtain d m where x: "x = (d, m)" by (cases x)
  obtain w where w: "wm_writer m = Some w" "wal_inv d w" "unat (wr_segment_id w) + Suc k < 2 ^ 32" using assms(1) Some x by (auto simp: log_ready_def)
  obtain ls d' w' where o: "wal_write_batch now es d w = (Inr ls, d', w')" "step_ok (Op_Batch now es) d w d' w'"
    using wal_batch_total [OF w(2) segment_not_last [OF w(3)] assms(2)] by blast
  show ?thesis using o(1) segment_step [OF o(2) w(3)] Some x w(1)
    by (intro exI [of _ "Some (d', m\<lparr>wm_writer := Some w'\<rparr>)"]) (simp add: log_write_batch_def log_ready_def)
qed

section \<open>The segments take the batch\<close>

lemma mentions_full_simps [simp]: "mentions_full (Err ''segment full'')" "mentions_full (Err ''segment full after records'')"
  by (simp_all add: mentions_full_def sublist_Cons_right)

text \<open>\<open>AppendBatch\<close> writes records until one does not fit.\<close>

lemma batch_loop_ok:
  assumes "seg_log_rep s log" "\<not> is_read_only s" "\<forall>r \<in> set rs. record_ok (unat (page_size s)) r"
  shows "\<exists>locs err s'. append_batch_loop s acc rs = (acc @ locs, err, s') \<and> length locs \<le> length rs \<and>
    seg_log_rep s' (log @ zip locs (take (length locs) rs)) \<and> (\<forall>l \<in> set locs. segment_id l = seg_id s) \<and>
    seg_id s' = seg_id s \<and> page_size s' = page_size s \<and> max_size s' = max_size s \<and> is_read_only s' = is_read_only s \<and>
    (if length locs = length rs then err = None else \<exists>e. err = Some e \<and> mentions_full e) \<and>
    (rs \<noteq> [] \<longrightarrow> seg_accepts s (hd rs) \<longrightarrow> locs \<noteq> [])"
  using assms
proof (induction rs arbitrary: s log acc)
  case (Cons r rs)
  obtain hdr rs0 where rep: "seg_rep s hdr rs0" using Cons.prems(1) by (auto simp: seg_log_rep_def)
  show ?case
  proof (cases "seg_accepts s r")
    case True
    obtain l s1 where a: "seg_append s r = Inr (l, s1)" "seg_log_rep s1 (log @ [(l, r)])" "segment_id l = seg_id s"
      "seg_id s1 = seg_id s" "page_size s1 = page_size s" "max_size s1 = max_size s" "is_read_only s1 = is_read_only s"
      using seg_append_frame [OF Cons.prems(1) True] by blast
    then have w: "seg_write s r = Inr s1" "\<not> current_size s + estimated_size r > max_size s" "l = \<lparr>segment_id = seg_id s, loc_offset = next_offset s\<rparr>"
      by (auto simp: seg_append_def split: if_splits sum.splits)
    from Cons.IH [OF a(2), of "acc @ [l]"] Cons.prems(2,3) a(5,7) obtain locs err s' where
      i: "append_batch_loop s1 (acc @ [l]) rs = ((acc @ [l]) @ locs, err, s')" "length locs \<le> length rs"
        "seg_log_rep s' ((log @ [(l, r)]) @ zip locs (take (length locs) rs))" "\<forall>l \<in> set locs. segment_id l = seg_id s1"
        "seg_id s' = seg_id s1" "page_size s' = page_size s1" "max_size s' = max_size s1" "is_read_only s' = is_read_only s1"
        "if length locs = length rs then err = None else \<exists>e. err = Some e \<and> mentions_full e" by auto
    show ?thesis using i a w by (intro exI [of _ "l # locs"] exI [of _ err] exI [of _ s']) auto
  next
    case False
    then have "current_size s + estimated_size r > max_size s" using seg_full_iff [OF rep, of r] Cons.prems(2,3) by (simp add: seg_accepts_def)
    then show ?thesis using False Cons.prems(1) by (cases acc) auto
  qed
qed auto

text \<open>
  One round of the loop. A record fits a fresh segment when its size and the header page do. After a round that wrote nothing the
  current segment is fresh.
\<close>

definition fits_fresh :: "u32 \<Rightarrow> u64 \<Rightarrow> rec \<Rightarrow> bool" where
  "fits_fresh ps mx r \<longleftrightarrow> record_ok (unat ps) r \<and> unat ps + est_size r \<le> unat mx"

definition current_accepts :: "event_store \<Rightarrow> rec \<Rightarrow> bool" where
  "current_accepts st r \<longleftrightarrow> (\<exists>m s. es_manager st = Some m \<and> map_of (mgr_segments m) (mgr_current m) = Some s \<and> \<not> seg_is_full s \<and> seg_accepts s r)"

lemma fresh_accepts:
  assumes "fits_fresh ps mx r" "mgr_page_size m = ps" "mgr_max_size m = mx"
  shows "seg_accepts (fresh_segment now i (mgr_page_size m) (mgr_max_size m)) r" "\<not> seg_is_full (fresh_segment now i (mgr_page_size m) (mgr_max_size m))"
proof -
  show "seg_accepts (fresh_segment now i (mgr_page_size m) (mgr_max_size m)) r" using assms by (simp add: fits_fresh_def seg_accepts_def unsigned_ucast_eq)
  have "0 < est_size r" using assms(1) by (auto simp: fits_fresh_def record_ok_def rec_wf_def est_size_def)
  then show "\<not> seg_is_full (fresh_segment now i (mgr_page_size m) (mgr_max_size m))"
    using assms by (simp add: fits_fresh_def seg_is_full_def word_le_nat_alt unsigned_ucast_eq)
qed

lemma log_of_zip:
  "\<forall>l \<in> set ls. segment_id l = i \<Longrightarrow> length ls \<le> length rs \<Longrightarrow> log_of j (zip ls rs) = (if j = i then zip ls rs else [])"
proof (induction ls arbitrary: rs)
  case (Cons l ls)
  then show ?case by (cases rs) auto
qed simp

text \<open>The segment that the round writes to.\<close>

lemma round_segment:
  assumes rep: "mgr_rep m log" and ids: "unat (mgr_current m) + Suc n < 2 ^ 32" and fit: "fits_fresh (mgr_page_size m) (mgr_max_size m) r"
    and s: "map_of (mgr_segments m) (mgr_current m) = Some s"
  shows "\<exists>m1 s1. (if seg_is_full s then wrap_err ''rotate segment'' (rotate_segment now m) else Inr m) = Inr m1 \<and> mgr_rep m1 log \<and>
    map_of (mgr_segments m1) (mgr_current m1) = Some s1 \<and> mgr_page_size m1 = mgr_page_size m \<and> mgr_max_size m1 = mgr_max_size m \<and>
    (if seg_is_full s then unat (mgr_current m1) = Suc (unat (mgr_current m)) \<and> seg_accepts s1 r else m1 = m \<and> s1 = s)"
proof (cases "seg_is_full s")
  case True
  have nw: "mgr_current m \<noteq> - 1" using segment_not_last [OF ids] .
  have u: "unat (mgr_current m + 1) = Suc (unat (mgr_current m))" using ids by (subst unat_plus_simple [THEN iffD1]) (simp_all add: no_olen_add_nat)
  from rotate_segment_rep [OF rep nw, of now] fresh_accepts [OF fit refl refl] True u show ?thesis by auto
qed (use rep s in simp)

lemma append_round:
  assumes rep: "store_rep st log" and rs: "rs \<noteq> []" "\<forall>r \<in> set rs. fits_fresh (es_page_size st) mxm r" "\<forall>r \<in> set rs. required_bytes ps r \<le> unat mx"
    and m: "es_manager st = Some m" "mgr_max_size m = mxm" and ids: "unat (mgr_current m) + Suc n < 2 ^ 32"
  shows "\<exists>locs st'. store_rep st' (log @ zip locs (take (length locs) rs)) \<and> length locs \<le> length rs \<and> es_page_size st' = es_page_size st \<and>
    (\<exists>m'. es_manager st' = Some m' \<and> mgr_max_size m' = mxm \<and> unat (mgr_current m') + n < 2 ^ 32) \<and>
    append_records (Suc k) now ps mx rs stored st =
      (if length locs = length rs then Some (Inr (stored @ locs), st') else append_records k now ps mx (drop (length locs) rs) (stored @ locs) st') \<and>
    (current_accepts st (hd rs) \<longrightarrow> locs \<noteq> []) \<and> (locs = [] \<longrightarrow> current_accepts st' (hd rs))"
proof -
  have mr: "mgr_rep m log" "mgr_page_size m = es_page_size st" "es_is_open st" using rep m(1) by (auto simp: store_rep_def)
  have fit: "fits_fresh (mgr_page_size m) (mgr_max_size m) (hd rs)" using rs(1,2) mr(2) m(2) by simp
  obtain s where s: "map_of (mgr_segments m) (mgr_current m) = Some s" using mr(1) by (auto simp: mgr_rep_def)
  obtain m1 s1 where m1: "(if seg_is_full s then wrap_err ''rotate segment'' (rotate_segment now m) else Inr m) = Inr m1" "mgr_rep m1 log"
    "map_of (mgr_segments m1) (mgr_current m1) = Some s1" "mgr_page_size m1 = mgr_page_size m" "mgr_max_size m1 = mgr_max_size m"
    "if seg_is_full s then unat (mgr_current m1) = Suc (unat (mgr_current m)) \<and> seg_accepts s1 (hd rs) else m1 = m \<and> s1 = s"
    using round_segment [OF mr(1) ids fit s, of now] by blast
  let ?c = "mgr_current m1"
  have so: "seg_of_mgr m1 ?c s1 log" using m1(2,3) by (simp add: mgr_rep_def)
  then have s1: "seg_log_rep s1 (log_of ?c log)" "\<not> is_read_only s1" "seg_id s1 = ?c" "page_size s1 = es_page_size st"
    using m1(4) mr(2) by (simp_all add: seg_of_mgr_def)
  have ok: "\<forall>r \<in> set rs. record_ok (unat (page_size s1)) r" using rs(2) s1(4) by (simp add: fits_fresh_def)
  obtain locs err s2 where b: "append_batch_loop s1 [] rs = (locs, err, s2)" "length locs \<le> length rs"
    "seg_log_rep s2 (log_of ?c log @ zip locs (take (length locs) rs))" "\<forall>l \<in> set locs. segment_id l = seg_id s1"
    "seg_id s2 = seg_id s1" "page_size s2 = page_size s1" "max_size s2 = max_size s1" "is_read_only s2 = is_read_only s1"
    "if length locs = length rs then err = None else \<exists>e. err = Some e \<and> mentions_full e" "seg_accepts s1 (hd rs) \<Longrightarrow> locs \<noteq> []"
    using batch_loop_ok [OF s1(1,2) ok, of "[]"] rs(1) by auto
  have ab: "seg_append_batch s1 rs = (locs, err, s2)" using b(1) rs(1) s1(2) by (simp add: seg_append_batch_def)
  let ?log = "log @ zip locs (take (length locs) rs)"
  let ?m2 = "put_segment m1 ?c s2" and ?st2 = "st\<lparr>es_manager := Some (put_segment m1 ?c s2)\<rparr>"
  have lo: "log_of j ?log = (if j = ?c then log_of ?c log @ zip locs (take (length locs) rs) else log_of j log)" for j
    using log_of_zip [of locs ?c "take (length locs) rs" j] b(2,4) s1(3) by simp
  have m2: "mgr_rep ?m2 ?log"
    using so b(3,5-8) m1(3) lo by (intro put_segment_rep [OF m1(2)]) (auto simp: seg_of_mgr_def)
  have rep2: "store_rep ?st2 ?log" using m2 mr m1(4) by (simp add: store_rep_def put_segment_def)
  have cur: "current_accepts st (hd rs) \<Longrightarrow> locs \<noteq> []"
    using m1(6) b(10) m(1) s by (auto simp: current_accepts_def split: if_splits)
  have un: "append_records (Suc k) now ps mx rs stored st =
      (case err of None \<Rightarrow> Some (Inr (stored @ locs), ?st2)
       | Some e \<Rightarrow> if \<not> mentions_full e then Some (Inl (wrap_error ''storage batch append'' e), ?st2)
           else if locs \<noteq> [] then append_records k now ps mx (drop (length locs) rs) (stored @ locs) ?st2
           else if required_bytes ps (hd rs) > unat mx then Some (Inl (Err ''record too large for segment''), ?st2)
           else case rotate_segment now ?m2 of
             Inl e \<Rightarrow> Some (Inl (wrap_error ''rotate segment'' e), ?st2)
           | Inr m3 \<Rightarrow> append_records k now ps mx rs (stored @ locs) (st\<lparr>es_manager := Some m3\<rparr>))"
    using rs(1) m(1) s m1(1,3) ab by (simp add: append_records.simps mgr_current_segment_def Let_def)
  have idl: "unat ?c + n < 2 ^ 32" using m1(6) ids by (auto split: if_splits)
  show ?thesis
  proof (cases "locs = []")
    case False
    have "append_records (Suc k) now ps mx rs stored st =
      (if length locs = length rs then Some (Inr (stored @ locs), ?st2) else append_records k now ps mx (drop (length locs) rs) (stored @ locs) ?st2)"
      using un b(9) False by (auto split: if_splits)
    then show ?thesis using rep2 b(2) False idl m1(5) m(2)
      by (intro exI [of _ locs] exI [of _ ?st2]) (simp add: put_segment_def)
  next
    case True
    then have nf: "\<not> seg_is_full s" "m1 = m" using m1(6) b(10) by (auto split: if_splits)
    have "unat (mgr_current ?m2) + Suc n < 2 ^ 32" using ids nf(2) by (simp add: put_segment_def)
    then have "mgr_current ?m2 \<noteq> - 1" by (rule segment_not_last)
    from rotate_segment_rep [OF m2 this, of now] obtain m3 where m3: "rotate_segment now ?m2 = Inr m3" "mgr_rep m3 ?log" "mgr_current m3 = mgr_current ?m2 + 1"
      "map_of (mgr_segments m3) (mgr_current m3) = Some (fresh_segment now (mgr_current ?m2 + 1) (mgr_page_size ?m2) (mgr_max_size ?m2))"
      "mgr_page_size m3 = mgr_page_size ?m2" "mgr_max_size m3 = mgr_max_size ?m2" by blast
    have f2: "fits_fresh (mgr_page_size ?m2) (mgr_max_size ?m2) (hd rs)" using fit nf(2) by (simp add: put_segment_def)
    let ?st3 = "st\<lparr>es_manager := Some m3\<rparr>"
    have u: "unat (mgr_current m + 1) = Suc (unat (mgr_current m))" using ids by (subst unat_plus_simple [THEN iffD1]) (simp_all add: no_olen_add_nat)
    have rb: "required_bytes ps (hd rs) \<le> unat mx" using rs(1,3) by simp
    have "append_records (Suc k) now ps mx rs stored st = append_records k now ps mx rs stored ?st3"
      using un b(9) True m3(1) rb rs(1) by (auto simp: not_less split: if_splits)
    moreover have "store_rep ?st3 log" using m3(2,5) True mr nf(2) by (simp add: store_rep_def put_segment_def)
    moreover have "current_accepts ?st3 (hd rs)" using m3(4) fresh_accepts [OF f2 refl refl] by (simp add: current_accepts_def)
    moreover have "unat (mgr_current m3) + n < 2 ^ 32" "mgr_max_size m3 = mxm" using m3(3,6) u ids m(2) nf(2) by (simp_all add: put_segment_def)
    ultimately show ?thesis using True cur rs(1) by (intro exI [of _ "[]"] exI [of _ ?st3]) auto
  qed
qed

text \<open>The loop ends: two rounds for every record and one more are enough.\<close>

lemma append_records_ok:
  assumes "store_rep st log" "\<forall>r \<in> set rs. fits_fresh (es_page_size st) mxm r" "\<forall>r \<in> set rs. required_bytes ps r \<le> unat mx"
    and "es_manager st = Some m" "mgr_max_size m = mxm" "unat (mgr_current m) + n < 2 ^ 32" "2 * length rs + 1 \<le> n"
  shows "\<exists>locs st'. append_records n now ps mx rs stored st = Some (Inr (stored @ locs), st') \<and> length locs = length rs \<and>
    store_rep st' (log @ zip locs rs) \<and> es_page_size st' = es_page_size st"
  using assms
proof (induction "length rs" arbitrary: rs st log m n stored rule: less_induct)
  case less
  show ?case
  proof (cases "rs = []")
    case True
    then show ?thesis using less.prems by (cases n) (auto simp: append_records.simps)
  next
    case False
    obtain n' where n: "n = Suc (Suc n')" using less.prems(7) False by (cases n; cases "n - 1") auto
    have rest: "\<exists>locs' st'. append_records k now ps mx (drop (length locs) rs) stored' st1 = Some (Inr (stored' @ locs'), st') \<and>
        length (locs @ locs') = length rs \<and> store_rep st' (log @ zip (locs @ locs') rs) \<and> es_page_size st' = es_page_size st"
      if "locs \<noteq> []" "length locs \<le> length rs" "store_rep st1 (log @ zip locs (take (length locs) rs))" "es_page_size st1 = es_page_size st"
        "es_manager st1 = Some m1" "mgr_max_size m1 = mxm" "unat (mgr_current m1) + k < 2 ^ 32" "2 * length rs \<le> k + 1" for locs stored' st1 m1 k
    proof -
      have "0 < length locs" using that(1) by simp
      then have len: "length (drop (length locs) rs) < length rs" "2 * length (drop (length locs) rs) + 1 \<le> k" using that(2,8) unfolding length_drop by linarith+
      have "\<exists>locs' st'. append_records k now ps mx (drop (length locs) rs) stored' st1 = Some (Inr (stored' @ locs'), st') \<and>
          length locs' = length (drop (length locs) rs) \<and>
          store_rep st' ((log @ zip locs (take (length locs) rs)) @ zip locs' (drop (length locs) rs)) \<and> es_page_size st' = es_page_size st1"
        using that(3,4) less.prems(2,3) len
        by (intro less.hyps [OF _ _ _ _ that(5-7)]) (auto dest: in_set_dropD)
      moreover have "zip locs (take (length locs) rs) @ zip locs' (drop (length locs) rs) = zip (locs @ locs') rs" for locs'
        using that(2) by (simp add: zip_append1)
      ultimately show ?thesis using that(2,4) by (metis append.assoc length_append length_drop ordered_cancel_comm_monoid_diff_class.add_diff_inverse)
    qed
    obtain locs st1 m1 where a: "store_rep st1 (log @ zip locs (take (length locs) rs))" "length locs \<le> length rs" "es_page_size st1 = es_page_size st"
      "es_manager st1 = Some m1" "mgr_max_size m1 = mxm" "unat (mgr_current m1) + Suc n' < 2 ^ 32"
      "append_records n now ps mx rs stored st =
        (if length locs = length rs then Some (Inr (stored @ locs), st1) else append_records (Suc n') now ps mx (drop (length locs) rs) (stored @ locs) st1)"
      "locs = [] \<Longrightarrow> current_accepts st1 (hd rs)"
      using append_round [OF less.prems(1) False less.prems(2,3,4,5), of "Suc n'" "Suc n'" now stored] less.prems(6) n by auto
    show ?thesis
    proof (cases "locs = []")
      case False
      show ?thesis using rest [OF False a(2,1,3-6), of "stored @ locs"] less.prems(7) n a by (cases "length locs = length rs") auto
    next
      case True
      have p: "\<forall>r \<in> set rs. fits_fresh (es_page_size st1) mxm r" "store_rep st1 log" using less.prems(2) a(1,3) True by simp_all
      obtain locs2 st2 m2 where b: "store_rep st2 (log @ zip locs2 (take (length locs2) rs))" "length locs2 \<le> length rs" "es_page_size st2 = es_page_size st1"
        "es_manager st2 = Some m2" "mgr_max_size m2 = mxm" "unat (mgr_current m2) + n' < 2 ^ 32"
        "append_records (Suc n') now ps mx rs stored st1 =
          (if length locs2 = length rs then Some (Inr (stored @ locs2), st2) else append_records n' now ps mx (drop (length locs2) rs) (stored @ locs2) st2)"
        "locs2 \<noteq> []"
        using append_round [OF p(2) False p(1) less.prems(3) a(4,5,6), of n' now stored] a(8) [OF True] by auto
      have "es_page_size st2 = es_page_size st" using a(3) b(3) by simp
      then show ?thesis using rest [OF b(8,2,1) _ b(4-6), of "stored @ locs2"] less.prems(7) n a(7) b True False by (cases "length locs2 = length rs") auto
    qed
  qed
qed

section \<open>The events of the batch\<close>

definition first_at :: "bytes list \<Rightarrow> nat \<Rightarrow> (event \<times> bool) list \<Rightarrow> nat \<Rightarrow> event \<Rightarrow> bool" where
  "first_at seen i ps j e \<longleftrightarrow> ev_id e \<notin> set seen \<and> i \<le> j \<and> j < i + length ps \<and> ps ! (j - i) = (e, False) \<and>
     (\<forall>j' < j - i. snd (ps ! j') \<or> ev_id (fst (ps ! j')) \<noteq> ev_id e)"

lemma first_at_Cons:
  assumes "first_at seen' (Suc i) ps j e'" "set seen \<subseteq> set seen'" "x \<or> ev_id e \<in> set seen'"
  shows "first_at seen i ((e, x) # ps) j e'"
proof -
  have d: "j - i = Suc (j - Suc i)" using assms(1) by (auto simp: first_at_def)
  have "snd (((e, x) # ps) ! j') \<or> ev_id (fst (((e, x) # ps) ! j')) \<noteq> ev_id e'" if "j' < j - i" for j'
    using that assms unfolding d by (cases j') (auto simp: first_at_def)
  then show ?thesis using assms(1,2) by (auto simp: first_at_def d)
qed

lemma unique_events_facts:
  "distinct (map (ev_id \<circ> snd) (unique_events seen i ps)) \<and> distinct (map fst (unique_events seen i ps)) \<and>
   (\<forall>(j, e) \<in> set (unique_events seen i ps). first_at seen i ps j e)"
proof (induction seen i ps rule: unique_events.induct)
  case (2 seen i e exists ps)
  show ?case
  proof (cases "exists \<or> ev_id e \<in> set seen")
    case True
    then have eq: "unique_events seen i ((e, exists) # ps) = unique_events seen (Suc i) ps" by auto
    have "distinct (map (ev_id \<circ> snd) (unique_events seen (Suc i) ps)) \<and> distinct (map fst (unique_events seen (Suc i) ps)) \<and>
        (\<forall>(j, e) \<in> set (unique_events seen (Suc i) ps). first_at seen (Suc i) ps j e)" using 2(1,2) True by (cases "exists") (simp_all add: comp_def)
    then show ?thesis unfolding eq using first_at_Cons [OF _ subset_refl True] by blast
  next
    case False
    then have f: "\<not> exists" "ev_id e \<notin> set seen" by simp_all
    let ?us = "unique_events (ev_id e # seen) (Suc i) ps"
    have ih: "distinct (map (ev_id \<circ> snd) ?us)" "distinct (map fst ?us)" "\<forall>(j, e') \<in> set ?us. first_at (ev_id e # seen) (Suc i) ps j e'" using 2(3) [OF f] by (simp_all add: comp_def)
    have q: "first_at seen i ((e, exists) # ps) j e' \<and> j \<noteq> i \<and> ev_id e' \<noteq> ev_id e" if "(j, e') \<in> set ?us" for j e'
    proof -
      have "first_at (ev_id e # seen) (Suc i) ps j e'" using ih(3) that by auto
      then show ?thesis using first_at_Cons [of "ev_id e # seen" i ps j e' seen exists e] by (auto simp: first_at_def)
    qed
    have "first_at seen i ((e, exists) # ps) i e" using f by (simp add: first_at_def)
    moreover have "i \<notin> fst ` set ?us" "ev_id e \<notin> (ev_id \<circ> snd) ` set ?us" using q by force+
    moreover have eq: "unique_events seen i ((e, exists) # ps) = (i, e) # ?us" using f by simp
    ultimately show ?thesis using ih(1,2) q unfolding eq list.map distinct.simps set_map list.set comp_apply prod.sel by blast
  qed
qed simp

lemma unique_events_find:
  "map_of (map (\<lambda>(i, e). (ev_id e, e)) (unique_events seen i ps)) ident =
     (if ident \<in> set seen then None else map_option fst (find (\<lambda>(e, x). ev_id e = ident \<and> \<not> x) ps))"
  by (induction seen i ps rule: unique_events.induct) auto

lemma fold_list_update_other:
  "i \<notin> (fst \<circ> fst) ` set xs \<Longrightarrow> fold (\<lambda>((i, _), l) ls. ls[i := l]) xs ls ! i = ls ! i"
  by (induction xs arbitrary: ls) auto

lemma fold_list_update:
  assumes "distinct (map (fst \<circ> fst) xs)" "((i, e), l) \<in> set xs" "i < length ls"
  shows "fold (\<lambda>((i, _), l) ls. ls[i := l]) xs ls ! i = l"
  using assms
proof (induction xs arbitrary: ls)
  case (Cons x xs)
  show ?case
  proof (cases "x = ((i, e), l)")
    case True
    then have "i \<notin> (fst \<circ> fst) ` set xs" using Cons.prems(1) by auto
    then show ?thesis using fold_list_update_other [of i xs "ls[i := l]"] True Cons.prems(3) by simp
  next
    case False
    obtain j e' l' where "x = ((j, e'), l')" by (metis prod.collapse)
    moreover have "((i, e), l) \<in> set xs" using Cons.prems(2) False by simp
    ultimately show ?thesis using Cons.IH [of "ls[j := l']"] Cons.prems(1,3) by simp
  qed
qed simp

lemma fold_list_update_length: "length (fold (\<lambda>((i, _), l) ls. ls[i := l]) xs ls) = length ls"
  by (induction xs arbitrary: ls) auto

definition cfg_limits :: "'x nostr_store \<Rightarrow> u32 \<times> u64" where
  "cfg_limits s = (if ns_cfg_page_size s = 0 then 4096 else ns_cfg_page_size s, if ns_cfg_max_segment s = 0 then 1073741824 else ns_cfg_max_segment s)"

text \<open>An event of a batch: well formed, and its record fits a fresh segment, the limits of the configuration and the log.\<close>

definition batch_fits :: "'x nostr_store \<Rightarrow> event \<Rightarrow> bool" where
  "batch_fits s e \<longleftrightarrow> event_wf e \<and> tags_ok (tags e) \<and>
     (case (serialize_tags (tags e), es_manager (ns_storage s)) of
        (Inr td, Some m) \<Rightarrow>
          let ps = es_page_size (ns_storage s); r = record_of ps e td
          in event_size e td + 2 < 2 ^ 32 \<and> fits_fresh ps (mgr_max_size m) r \<and> required_bytes (fst (cfg_limits s)) r \<le> unat (snd (cfg_limits s)) \<and>
             29 + length (rec_data r) \<le> wal_max_record_size
      | _ \<Rightarrow> False)"

definition holds_event :: "'x nostr_store \<Rightarrow> u64 \<Rightarrow> event \<Rightarrow> rec \<Rightarrow> bool" where
  "holds_event s mxm e r \<longleftrightarrow> deserialize (Some r) = Inr (stored_form (es_page_size (ns_storage s)) e) \<and> \<not> is_deleted (ev_flags (stored_form (es_page_size (ns_storage s)) e)) \<and>
     fits_fresh (es_page_size (ns_storage s)) mxm r \<and> required_bytes (fst (cfg_limits s)) r \<le> unat (snd (cfg_limits s)) \<and> 29 + length (rec_data r) \<le> wal_max_record_size"

lemma stored_form_id [simp]: "ev_id (stored_form ps e) = ev_id e"
  by (simp add: stored_form_def)

lemma serialize_fits:
  assumes "batch_fits s e" "6 < unat (es_page_size (ns_storage s))" "es_manager (ns_storage s) = Some m"
  shows "\<exists>r. serialize (es_page_size (ns_storage s)) (Some e) = Inr r \<and> holds_event s (mgr_max_size m) e r"
proof -
  let ?ps = "es_page_size (ns_storage s)"
  obtain td where td: "serialize_tags (tags e) = Inr td" using assms(1) by (auto simp: batch_fits_def split: sum.splits)
  let ?r = "record_of ?ps e td"
  have f: "event_wf e" "tags_ok (tags e)" "event_size e td + 2 < 2 ^ 32" "fits_fresh ?ps (mgr_max_size m) ?r"
    "required_bytes (fst (cfg_limits s)) ?r \<le> unat (snd (cfg_limits s))" "29 + length (rec_data ?r) \<le> wal_max_record_size"
    using assms(1,3) td by (simp_all add: batch_fits_def Let_def)
  have ser: "serialize ?ps (Some e) = Inr ?r" using assms(2) by (rule serialize_eq [OF f(1) td f(3)])
  have "deserialize (Some ?r) = Inr (stored_form ?ps e)" by (rule stored_form_serialized(2) [OF f(1) td f(2,3) assms(2) ser])
  moreover have "\<not> is_deleted (ev_flags (stored_form ?ps e))" using td by (simp add: stored_form_def is_deleted_def flag_continued_def flag_deleted_def)
  ultimately show ?thesis using ser f(4-6) by (simp add: holds_event_def)
qed

lemma serialize_all_ok:
  assumes "\<forall>e \<in> set es. batch_fits s e" "6 < unat (es_page_size (ns_storage s))" "es_manager (ns_storage s) = Some m"
  shows "\<exists>rs. serialize_all (es_page_size (ns_storage s)) es = Inr rs \<and> list_all2 (holds_event s (mgr_max_size m)) es rs"
  using assms(1)
proof (induction es)
  case (Cons e es)
  then obtain rs where rs: "serialize_all (es_page_size (ns_storage s)) es = Inr rs" "list_all2 (holds_event s (mgr_max_size m)) es rs" by auto
  obtain r where "serialize (es_page_size (ns_storage s)) (Some e) = Inr r" "holds_event s (mgr_max_size m) e r"
    using serialize_fits [OF _ assms(2,3), of e] Cons.prems by auto
  then show ?case using rs by simp
qed simp

lemma indexed_batch:
  assumes "indexed M log" "list_all2 (holds_event s mxm) es rs" "length ls = length es"
  shows "indexed (M ++ map_of (rev (zip (map ev_id es) ls))) (log @ zip ls rs)"
proof (unfold indexed_def, intro allI impI)
  fix ident loc assume "(M ++ map_of (rev (zip (map ev_id es) ls))) ident = Some loc"
  then consider "map_of (rev (zip (map ev_id es) ls)) ident = Some loc" | "M ident = Some loc" by (auto simp: map_add_Some_iff)
  then show "\<exists>r e. (loc, r) \<in> set (log @ zip ls rs) \<and> deserialize (Some r) = Inr e \<and> ev_id e = ident"
  proof cases
    case 1
    then have "(ident, loc) \<in> set (zip (map ev_id es) ls)" by (metis map_of_SomeD set_rev)
    then obtain j where j: "j < length es" "ident = ev_id (es ! j)" "loc = ls ! j" using assms(3) by (auto simp: set_zip)
    have "holds_event s mxm (es ! j) (rs ! j)" using assms(2) j(1) by (rule list_all2_nthD)
    moreover have "(loc, rs ! j) \<in> set (zip ls rs)" using j assms(3) list_all2_lengthD [OF assms(2)] by (auto simp: set_zip)
    ultimately show ?thesis using j(2) unfolding holds_event_def by (metis UnI2 set_append stored_form_id)
  next
    case 2
    then show ?thesis using assms(1) unfolding indexed_def by fastforce
  qed
qed

lemma fold_kinds_frame:
  "ns_opened (fold (add_kind_if_new \<circ> f) xs s) = ns_opened s" "ns_storage (fold (add_kind_if_new \<circ> f) xs s) = ns_storage s"
  "ns_indexes (fold (add_kind_if_new \<circ> f) xs s) = ns_indexes s" "ns_wal (fold (add_kind_if_new \<circ> f) xs s) = ns_wal s"
  by (induction xs arbitrary: s) simp_all

text \<open>What the batch adds to the primary map, by its fresh events and their locations.\<close>

definition fresh_events :: "(bytes \<rightharpoonup> location) \<Rightarrow> event list \<Rightarrow> (nat \<times> event) list" where
  "fresh_events M es = unique_events [] 0 (zip es (map (snd \<circ> loc_flag \<circ> M) (map primary_key_of es)))"

lemma fresh_flags: "snd (loc_flag (M k)) \<longleftrightarrow> M k \<noteq> None"
  by (simp add: loc_flag_def split: option.split)

lemma fresh_events_find:
  assumes "\<forall>e \<in> set es. length (ev_id e) = 32"
  shows "map_of (map (\<lambda>(i, e). (ev_id e, e)) (fresh_events M es)) ident = (if M ident = None then find (\<lambda>e. ev_id e = ident) es else None)"
proof -
  have "map_option fst (find (\<lambda>(e, x). ev_id e = ident \<and> \<not> x) (zip es (map (snd \<circ> loc_flag \<circ> M) (map primary_key_of es)))) =
      (if M ident = None then find (\<lambda>e. ev_id e = ident) es else None)"
    using assms by (induction es) (auto simp: fresh_flags)
  then show ?thesis unfolding fresh_events_def unique_events_find by simp
qed

lemma fresh_events_facts:
  assumes "\<forall>e \<in> set es. length (ev_id e) = 32"
  shows "distinct (map (ev_id \<circ> snd) (fresh_events M es))" "distinct (map fst (fresh_events M es))"
    "(i, e) \<in> set (fresh_events M es) \<Longrightarrow> i < length es \<and> es ! i = e \<and> M (ev_id e) = None \<and> (\<forall>j < i. ev_id (es ! j) \<noteq> ev_id e)"
proof -
  let ?ps = "zip es (map (snd \<circ> loc_flag \<circ> M) (map primary_key_of es))"
  note f = unique_events_facts [of "[]" 0 ?ps, folded fresh_events_def]
  then show "distinct (map (ev_id \<circ> snd) (fresh_events M es))" "distinct (map fst (fresh_events M es))" by simp_all
  assume "(i, e) \<in> set (fresh_events M es)"
  then have fa: "first_at [] 0 ?ps i e" using f by auto
  then have i: "i < length es" "es ! i = e" "M (primary_key_of e) = None" by (auto simp: first_at_def fresh_flags)
  then have m: "M (ev_id e) = None" using assms nth_mem [of i es] by auto
  have "ev_id (es ! j) \<noteq> ev_id e" if j: "j < i" for j
  proof
    assume eq: "ev_id (es ! j) = ev_id e"
    have "length (ev_id (es ! j)) = 32" using assms j i(1) by simp
    then have "M (primary_key_of (es ! j)) = None" using eq m by simp
    then show False using fa j i(1) eq by (auto simp: first_at_def fresh_flags)
  qed
  then show "i < length es \<and> es ! i = e \<and> M (ev_id e) = None \<and> (\<forall>j < i. ev_id (es ! j) \<noteq> ev_id e)" using i m by blast
qed

lemma fresh_events_at:
  assumes "\<forall>e \<in> set es. length (ev_id e) = 32" "i < length es" "M (ev_id (es ! i)) = None" "\<forall>j < i. ev_id (es ! j) \<noteq> ev_id (es ! i)"
  shows "(i, es ! i) \<in> set (fresh_events M es)"
proof -
  have "find (\<lambda>e. ev_id e = ev_id (es ! i)) es \<noteq> None" using nth_mem [OF assms(2)] unfolding find_None_iff by blast
  then obtain e where e: "map_of (map (\<lambda>(i, e). (ev_id e, e)) (fresh_events M es)) (ev_id (es ! i)) = Some e"
    using fresh_events_find [OF assms(1), of M "ev_id (es ! i)"] assms(3) by auto
  from map_of_SomeD [OF this] obtain j where j: "(j, e) \<in> set (fresh_events M es)" "ev_id e = ev_id (es ! i)" by auto
  have "\<not> i < j" "\<not> j < i" using fresh_events_facts(3) [OF assms(1) j(1)] j(2) assms(4) by auto
  then have "i = j" by simp
  then show ?thesis using j fresh_events_facts(3) [OF assms(1) j(1)] by simp
qed

context primary_batch
begin

lemma ghost_cleanup_ok: "holds (im_primary im) M \<Longrightarrow> holds (im_primary (ghost_cleanup ops None ps im)) M"
proof (induction ps arbitrary: im)
  case (Cons p ps)
  obtain e l where p: "p = (e, l)" by (cases p)
  obtain x where x: "xo_get ops None (primary_key_of e) (im_primary im) = (Inr (loc_flag (M (primary_key_of e))), x)" "holds x M"
    using get_law [OF Cons.prems] by blast
  then show ?case using p by (auto simp: Let_def split: sum.split prod.split bool.split intro!: Cons.IH)
qed simp

lemma index_batch_ok:
  assumes "holds (im_primary (ns_indexes s)) M" "log_ready (Suc k) (ns_wal s)" "ps \<noteq> []"
  shows "\<exists>s'. index_batch ops now None ps s = s' \<and> ns_opened s' = ns_opened s \<and> ns_storage s' = ns_storage s \<and>
    holds (im_primary (ns_indexes s')) (M ++ map_of (rev (zip (map (primary_key_of \<circ> fst) ps) (map snd ps)))) \<and> log_ready k (ns_wal s')"
proof -
  let ?M = "M ++ map_of (rev (zip (map (primary_key_of \<circ> fst) ps) (map snd ps)))"
  obtain x where x: "xo_insert_batch ops None (map (primary_key_of \<circ> fst) ps) (map snd ps) (im_primary (ns_indexes s)) = (None, x)" "holds x ?M"
    using insert_batch_law [OF assms(1), of "map (primary_key_of \<circ> fst) ps" "map snd ps"] by auto
  define im2 where "im2 = (let im1 = (ns_indexes s)\<lparr>im_primary := x\<rparr>; locs = map snd ps;
      ses = concat (map (\<lambda>(e, l). map (\<lambda>k. (k, l)) (event_search_keys (im_codes (ns_indexes s)) e [] (tags e))) ps)
    in im1\<lparr>im_author_time := snd (xo_insert_batch ops None (map (author_time_key_of \<circ> fst) ps) locs (im_author_time im1)),
           im_kind_time := snd (xo_insert_batch ops None (map (kind_time_key_of \<circ> fst) ps) locs (im_kind_time im1)),
           im_search := (if ses = [] then im_search im1 else snd (xo_insert_batch ops None (map fst ses) (map snd ses) (im_search im1)))\<rparr>)"
  define s1 where "s1 = fold (add_kind_if_new \<circ> kind \<circ> fst) ps (s\<lparr>ns_indexes := ghost_cleanup ops None ps im2\<rparr>)"
  have "holds (im_primary im2) ?M" using x(2) by (simp add: im2_def Let_def)
  then have s1: "holds (im_primary (ns_indexes s1)) ?M" "ns_opened s1 = ns_opened s" "ns_storage s1 = ns_storage s" "ns_wal s1 = ns_wal s"
    using ghost_cleanup_ok [of im2 ?M ps] by (simp_all add: s1_def comp_assoc fold_kinds_frame)
  have "index_batch ops now None ps s = note_events_written ops now (int (length ps)) s1"
    using x(1) assms(3) by (simp add: index_batch_def s1_def im2_def Let_def)
  then show ?thesis using note_written_ok [OF s1(1), of k now "int (length ps)"] assms(2) s1(2-4) by auto
qed

lemma batch_answers:
  assumes ok': "ns_ok j holds s' (M ++ map_of (zip (map (ev_id \<circ> snd) (fresh_events M es)) stored)) (log @ zip stored rs)" and ok: "ns_ok i holds s M log"
    and ids: "\<forall>e \<in> set es. length (ev_id e) = 32" and rs: "list_all2 (holds_event s mxm) (map snd (fresh_events M es)) rs" "length stored = length rs"
    and id: "length ident = 32"
  shows "fst (ns_get_event ops None ident s') =
    (case M ident of Some _ \<Rightarrow> fst (ns_get_event ops None ident s)
     | None \<Rightarrow> (case find (\<lambda>e. ev_id e = ident) es of None \<Rightarrow> Inr None | Some e \<Rightarrow> Inr (Some (stored_form (es_page_size (ns_storage s)) e))))"
proof -
  let ?us = "fresh_events M es" and ?ks = "map (ev_id \<circ> snd) (fresh_events M es)"
  let ?N = "map_of (zip ?ks stored)"
  note f = fresh_events_facts [OF ids, where M = M]
  have len: "length stored = length ?us" using rs list_all2_lengthD [OF rs(1)] by simp
  have g: "fst (ns_get_event ops None ident s') = stored_event (ns_storage s') ((M ++ ?N) ident)" "fst (ns_get_event ops None ident s) = stored_event (ns_storage s) (M ident)"
    using get_event_ok [OF ok' id] get_event_ok [OF ok id] by auto
  have rep: "store_rep (ns_storage s') (log @ zip stored rs)" "store_rep (ns_storage s) log" "indexed M log" using ok ok' by (simp_all add: ns_ok_def)
  have none: "?N ident = None" if "map_of (map (\<lambda>(i, e). (ev_id e, e)) ?us) ident = None"
  proof -
    have "ident \<notin> set ?ks" using that by (force simp: map_of_eq_None_iff)
    then show ?thesis by (auto simp: map_of_eq_None_iff dest: set_zip_leftD)
  qed
  show ?thesis
  proof (cases "M ident")
    case (Some l)
    then have "?N ident = None" using none fresh_events_find [OF ids, of M ident] by simp
    moreover have "l \<in> fst ` set log" using indexed_in_log [OF rep(3) Some] .
    then have "read_event (ns_storage s') l = read_event (ns_storage s) l" using read_event_log [OF rep(1)] read_event_log [OF rep(2)] by fastforce
    ultimately show ?thesis using g Some by (simp add: map_add_def stored_event_def)
  next
    case None
    show ?thesis
    proof (cases "find (\<lambda>e. ev_id e = ident) es")
      case (Some e)
      then have "map_of (map (\<lambda>(i, e). (ev_id e, e)) ?us) ident = Some e" using fresh_events_find [OF ids, of M ident] None by simp
      from map_of_SomeD [OF this] obtain j where j: "j < length ?us" "snd (?us ! j) = e" "ev_id e = ident" by (force simp: in_set_conv_nth)
      have "(ident, stored ! j) \<in> set (zip ?ks stored)" using j len nth_mem [of j "zip ?ks stored"] by simp
      moreover have "distinct (map fst (zip ?ks stored))" using f(1) len by simp
      ultimately have "?N ident = Some (stored ! j)" by (rule map_of_is_SomeI [rotated])
      moreover have h: "holds_event s mxm e (rs ! j)" using list_all2_nthD [OF rs(1), of j] j by simp
      have "(stored ! j, rs ! j) \<in> set (log @ zip stored rs)" using j(1) len rs(2) by (auto simp: set_zip)
      then have "read_event (ns_storage s') (stored ! j) = Inr (stored_form (es_page_size (ns_storage s)) e)"
        using read_event_log [OF rep(1)] h by (simp add: holds_event_def)
      ultimately show ?thesis using g(1) None Some h by (simp add: map_add_def stored_event_def holds_event_def)
    next
      case find: None
      then have "?N ident = None" using none fresh_events_find [OF ids, of M ident] by simp
      then show ?thesis using g(1) None find by (simp add: map_add_def stored_event_def)
    qed
  qed
qed

lemma write_batch_ok:
  assumes ok: "ns_ok (Suc (Suc k)) holds s M log" and fits: "\<forall>e \<in> set es. batch_fits s e"
    and m: "es_manager (ns_storage s) = Some m" "unat (mgr_current m) + n < 2 ^ 32" "2 * length es + 1 \<le> n"
  shows "\<exists>ls s' M' log'. ns_write_batch ops n now None es s = Some (Inr ls, s') \<and> length ls = length es \<and> ns_ok k holds s' M' log' \<and>
    (\<forall>i < length es. M (ev_id (es ! i)) = None \<longrightarrow> (\<forall>j < i. ev_id (es ! j) \<noteq> ev_id (es ! i)) \<longrightarrow> M' (ev_id (es ! i)) = Some (ls ! i)) \<and>
    (\<forall>ident. length ident = 32 \<longrightarrow> fst (ns_get_event ops None ident s') =
      (case M ident of Some _ \<Rightarrow> fst (ns_get_event ops None ident s)
       | None \<Rightarrow> (case find (\<lambda>e. ev_id e = ident) es of None \<Rightarrow> Inr None | Some e \<Rightarrow> Inr (Some (stored_form (es_page_size (ns_storage s)) e)))))"
proof -
  let ?us = "fresh_events M es" and ?ps = "es_page_size (ns_storage s)"
  have ids: "\<forall>e \<in> set es. length (ev_id e) = 32" using fits by (auto simp: batch_fits_def event_wf_def)
  note f = fresh_events_facts [OF ids, where M = M]
  have s0: "ns_opened s" "store_rep (ns_storage s) log" "holds (im_primary (ns_indexes s)) M" "indexed M log" "log_ready (Suc (Suc k)) (ns_wal s)"
    using ok by (simp_all add: ns_ok_def)
  show ?thesis
  proof (cases "?us = []")
    case True
    obtain x where x: "xo_get_batch ops None (map primary_key_of es) (im_primary (ns_indexes s)) =
        (Inr (map (fst \<circ> loc_flag \<circ> M) (map primary_key_of es), map (snd \<circ> loc_flag \<circ> M) (map primary_key_of es)), x)" "holds x M"
      using get_batch_law [OF s0(3)] by blast
    define s' where "s' = (if es = [] then s else s\<lparr>ns_indexes := (ns_indexes s)\<lparr>im_primary := x\<rparr>\<rparr>)"
    have "ns_write_batch ops n now None es s = Some (Inr (replicate (length es) zero_location), s')"
      using x(1) True by (auto simp: ns_write_batch_def Let_def fresh_events_def s'_def)
    moreover have o: "ns_ok k holds s' M log" using s0 x(2) log_ready_mono [OF s0(5), of k] by (simp add: ns_ok_def s'_def)
    moreover have "fst (ns_get_event ops None ident s') =
        (case M ident of Some _ \<Rightarrow> fst (ns_get_event ops None ident s)
         | None \<Rightarrow> (case find (\<lambda>e. ev_id e = ident) es of None \<Rightarrow> Inr None | Some e \<Rightarrow> Inr (Some (stored_form ?ps e))))" if "length ident = 32" for ident
      using batch_answers [of k s' M es "[]" log "[]", OF _ ok ids _ _ that] o True by simp
    moreover have "\<forall>i < length es. M (ev_id (es ! i)) = None \<longrightarrow> \<not> (\<forall>j < i. ev_id (es ! j) \<noteq> ev_id (es ! i))"
      using fresh_events_at [OF ids, where M = M] True by auto
    ultimately show ?thesis by (intro exI [of _ "replicate (length es) zero_location"] exI [of _ s'] exI [of _ M] exI [of _ log]) simp
  next
    case False
    then have es: "es \<noteq> []" by (auto simp: fresh_events_def)
    obtain x where x: "xo_get_batch ops None (map primary_key_of es) (im_primary (ns_indexes s)) =
        (Inr (map (fst \<circ> loc_flag \<circ> M) (map primary_key_of es), map (snd \<circ> loc_flag \<circ> M) (map primary_key_of es)), x)" "holds x M"
      using get_batch_law [OF s0(3)] by blast
    define s1 where "s1 = s\<lparr>ns_indexes := (ns_indexes s)\<lparr>im_primary := x\<rparr>\<rparr>"
    have sub: "snd ` set ?us \<subseteq> set es" using f(3) by force
    have p6: "6 < unat ?ps" using store_page_size [OF s0(2)] by (simp add: page_ok_def)
    obtain rs where rs: "serialize_all ?ps (map snd ?us) = Inr rs" "list_all2 (holds_event s (mgr_max_size m)) (map snd ?us) rs"
      using serialize_all_ok [OF _ p6 m(1), of "map snd ?us"] fits sub by auto
    have lrs: "length rs = length ?us" using list_all2_lengthD [OF rs(2)] by simp
    have rok: "fits_fresh ?ps (mgr_max_size m) r \<and> required_bytes (fst (cfg_limits s)) r \<le> unat (snd (cfg_limits s)) \<and> 29 + length (rec_data r) \<le> wal_max_record_size"
      if "r \<in> set rs" for r
      using that list_all2_nthD2 [OF rs(2)] by (auto simp: in_set_conv_nth holds_event_def)
    have "\<forall>e \<in> set (map (\<lambda>r. log_entry op_insert (rec_data r)) rs). 29 + length (en_data e) \<le> wal_max_record_size" using rok by (auto simp: log_entry_def)
    from log_write_batch_ok [of "Suc k" s1, OF _ this] obtain w where
      w: "log_write_batch now (map (\<lambda>r. log_entry op_insert (rec_data r)) rs) s1 = (None, s1\<lparr>ns_wal := w\<rparr>)" "log_ready (Suc k) w"
      using s0(5) by (auto simp: s1_def)
    have lus: "length ?us \<le> length es"
    proof -
      have "length ?us = card (fst ` set ?us)" using distinct_card [OF f(2)] by simp
      also have "\<dots> \<le> card {..<length es}" using f(3) by (intro card_mono) force+
      finally show ?thesis by simp
    qed
    obtain stored st where st: "append_records n now (fst (cfg_limits s)) (snd (cfg_limits s)) rs [] (ns_storage s) = Some (Inr stored, st)"
      "length stored = length rs" "store_rep st (log @ zip stored rs)"
      using append_records_ok [OF s0(2) _ _ m(1) refl m(2), of rs "fst (cfg_limits s)" "snd (cfg_limits s)" now "[]"] rok m(3) lus lrs by auto
    define s2 where "s2 = s1\<lparr>ns_wal := w, ns_storage := st\<rparr>"
    let ?qs = "zip (map snd ?us) stored"
    have q: "map (primary_key_of \<circ> fst) ?qs = map (ev_id \<circ> snd) ?us" "map snd ?qs = stored" "?qs \<noteq> []"
    proof -
      have "map fst ?qs = map snd ?us" using st(2) lrs by simp
      then have "map primary_key_of (map fst ?qs) = map primary_key_of (map snd ?us)" by (rule arg_cong)
      then show "map (primary_key_of \<circ> fst) ?qs = map (ev_id \<circ> snd) ?us" using sub ids by (auto simp: comp_def)
      show "map snd ?qs = stored" "?qs \<noteq> []" using st(2) lrs False by auto
    qed
    let ?N = "map_of (zip (map (ev_id \<circ> snd) ?us) stored)"
    have rv: "map_of (rev (zip (map (ev_id \<circ> snd) ?us) stored)) = ?N" using f(1) st(2) lrs by (intro distinct_map_of_rev) simp
    obtain s' where s': "index_batch ops now None ?qs s2 = s'" "ns_opened s' = ns_opened s2" "ns_storage s' = ns_storage s2"
      "holds (im_primary (ns_indexes s')) (M ++ ?N)" "log_ready k (ns_wal s')"
      using index_batch_ok [of s2 M k ?qs now] x(2) w(2) q rv by (auto simp: s2_def s1_def)
    let ?ls = "fold (\<lambda>((i, _), l) ls. ls[i := l]) (zip ?us stored) (replicate (length es) zero_location)"
    have fe: "unique_events [] 0 (zip es (map (snd \<circ> loc_flag \<circ> M \<circ> primary_key_of) es)) = ?us" by (simp add: fresh_events_def)
    have "ns_write_batch ops n now None es s = Some (Inr ?ls, s')"
      using es x(1) False rs(1) w(1) st(1) s'(1)
      by (simp add: ns_write_batch_def Let_def fe s1_def s2_def cfg_limits_def split: if_splits)
    moreover have ix: "indexed (M ++ ?N) (log @ zip stored rs)" using indexed_batch [OF s0(4) rs(2), of stored] st(2) lrs rv by (simp add: comp_def)
    then have ok': "ns_ok k holds s' (M ++ ?N) (log @ zip stored rs)" using s' s0(1) st(3) by (simp add: ns_ok_def s2_def s1_def)
    moreover have "(M ++ ?N) (ev_id (es ! i)) = Some (?ls ! i)"
      if i: "i < length es" "M (ev_id (es ! i)) = None" "\<forall>j < i. ev_id (es ! j) \<noteq> ev_id (es ! i)" for i
    proof -
      have "(i, es ! i) \<in> set ?us" by (rule fresh_events_at [where M = M, OF ids i])
      then obtain j where j: "j < length ?us" "?us ! j = (i, es ! i)" by (auto simp: in_set_conv_nth)
      then have z: "((i, es ! i), stored ! j) \<in> set (zip ?us stored)" "(ev_id (es ! i), stored ! j) \<in> set (zip (map (ev_id \<circ> snd) ?us) stored)"
        using st(2) lrs by (force simp: set_zip)+
      have d: "distinct (map (fst \<circ> fst) (zip ?us stored))" "distinct (map fst (zip (map (ev_id \<circ> snd) ?us) stored))"
        using f(1,2) st(2) lrs by (simp_all flip: map_map)
      show ?thesis using fold_list_update [OF d(1) z(1)] map_of_is_SomeI [OF d(2) z(2)] i(1) by simp
    qed
    moreover note batch_answers [OF ok' ok ids rs(2) st(2)]
    ultimately show ?thesis
      by (intro exI [of _ ?ls] exI [of _ s'] exI [of _ "M ++ ?N"] exI [of _ "log @ zip stored rs"]) (simp add: fold_list_update_length)
  qed
qed

end

section \<open>Properties\<close>

text \<open>
  C40: A batch of events over in-memory indexes, when every record fits an empty segment: the loop that rotates segments ends, and then every identifier of the batch
  that was not stored before is answered with the first event of the batch that has it, in normal form, at the returned location; every other identifier is answered as before.
\<close>

theorem batch_write_get:
  assumes "ns_ok (Suc (Suc k)) memory_holds s M log" and "\<forall>e \<in> set es. batch_fits s e"
    and "es_manager (ns_storage s) = Some m" "unat (mgr_current m) + n < 2 ^ 32" "2 * length es + 1 \<le> n"
  shows "\<exists>ls s' M' log'. ns_write_batch memory_ops n now None es s = Some (Inr ls, s') \<and> length ls = length es \<and> ns_ok k memory_holds s' M' log' \<and>
    (\<forall>i < length es. M (ev_id (es ! i)) = None \<longrightarrow> (\<forall>j < i. ev_id (es ! j) \<noteq> ev_id (es ! i)) \<longrightarrow> M' (ev_id (es ! i)) = Some (ls ! i)) \<and>
    (\<forall>ident. length ident = 32 \<longrightarrow> fst (ns_get_event memory_ops None ident s') =
      (case M ident of Some _ \<Rightarrow> fst (ns_get_event memory_ops None ident s)
       | None \<Rightarrow> (case find (\<lambda>e. ev_id e = ident) es of None \<Rightarrow> Inr None | Some e \<Rightarrow> Inr (Some (stored_form (es_page_size (ns_storage s)) e)))))"
  by (rule mem.write_batch_ok [OF assms])

lemma demo_batch_fits: "batch_fits demo_ns demo_event"
proof -
  have "es_manager (ns_storage demo_ns) = Some \<lparr>mgr_page_size = 4096, mgr_max_size = 1048576, mgr_segments = [(0, demo_segment)], mgr_current = 0\<rparr>"
    "cfg_limits demo_ns = (4096, 1048576)" by (simp_all add: demo_ns_def demo_store_def cfg_limits_def)
  moreover have "fits_fresh 4096 1048576 demo_record" "required_bytes 4096 demo_record \<le> 1048576"
    using demo_record_ok by (simp_all add: fits_fresh_def required_bytes_def) (simp add: demo_record_def record_of_def multi_page_def demo_event_facts)
  ultimately show ?thesis using demo_event_facts demo_ns_fits by (simp add: batch_fits_def demo_record_def Let_def)
qed

theorem batch_write_get_witness:
  "\<exists>ls s'. ns_write_batch memory_ops 5 9 None [demo_event, demo_event] demo_ns = Some (Inr ls, s') \<and>
    fst (ns_get_event memory_ops None (ev_id demo_event) s') = Inr (Some (stored_form 4096 demo_event))"
proof -
  have "length (ev_id demo_event) = 32" using demo_event_facts(1) by (simp add: event_wf_def)
  moreover have "\<forall>e \<in> set [demo_event, demo_event]. batch_fits demo_ns e" using demo_batch_fits by simp
  ultimately show ?thesis
    using batch_write_get [OF demo_ns_ok [of "Suc (Suc 0)"], of "[demo_event, demo_event]" "\<lparr>mgr_page_size = 4096, mgr_max_size = 1048576, mgr_segments = [(0, demo_segment)], mgr_current = 0\<rparr>" 5 9]
      demo_ns_fits(3) by (auto simp: demo_ns_def demo_store_def)
qed

end
