(* ===== verification/Store_Recovery.thy ===== *)
theory Store_Recovery
  imports Store_Rebuild Store_Batch "HOL-Library.AList"
begin

text \<open>
  Recovery of the event store from its log: \<open>recoverFromWAL\<close>, \<open>replayWALFromCheckpoint\<close>, \<open>findLocationsForEvents\<close> and the replayers
  \<open>walRecoveryReplayer\<close> and \<open>indexReplayer\<close> of \<open>src/eventstore/eventstore_impl.go\<close>. A first pass over the log collects the inserted events by
  identifier and the deletions, and sets the logged flags in the segments; then the events are located, or written again, and indexed; the deletions are applied
  to the indexes at the end. Go visits the entries of a map in any order, which is the argument \<open>ord\<close>, one order for each of the loops. The directory of the log is set whenever
  there is a log. Statistics of the last recovery are left out.

  Result: a replay of insertions makes every logged event readable by its identifier, and keeps the answers for the others.
\<close>

section \<open>The first pass\<close>

record collector =
  rc_storage :: event_store
  rc_events :: "(bytes \<times> event) list"
  rc_deletions :: "(event \<times> location) list"

definition collect_insert :: "event \<Rightarrow> location \<Rightarrow> collector \<Rightarrow> go_error option \<times> collector" where
  "collect_insert ev loc c = (None, c\<lparr>rc_events := AList.update (ev_id ev) ev (rc_events c)\<rparr>)"

definition collect_update_flags :: "location \<Rightarrow> byte \<Rightarrow> collector \<Rightarrow> go_error option \<times> collector" where
  "collect_update_flags loc flags c =
     (let c1 = (if is_deleted flags
                then case read_event (rc_storage c) loc of Inl _ \<Rightarrow> c | Inr ev \<Rightarrow> c\<lparr>rc_deletions := rc_deletions c @ [(ev, loc)]\<rparr>
                else c)
      in case update_event_flags (rc_storage c1) loc flags of
           Inl e \<Rightarrow> (Some e, c1)
         | Inr st \<Rightarrow> (None, c1\<lparr>rc_storage := st\<rparr>))"

definition recovery_replayer :: "collector replayer" where
  "recovery_replayer = \<lparr>on_insert = collect_insert, on_update_flags = collect_update_flags,
     on_index_update = (\<lambda>_ _ c. (None, c)), on_checkpoint = (\<lambda>_ c. (None, c))\<rparr>"

section \<open>Locations\<close>

text \<open>The primary index is asked for every event; those it does not have, or fails for, stay pending.\<close>

fun lookup_locations :: "'x index_ops \<Rightarrow> (bytes \<times> event) list \<Rightarrow> 'x \<Rightarrow> ((bytes \<times> location) list \<times> (bytes \<times> event) list) \<times> 'x" where
  "lookup_locations ops [] x = (([], []), x)"
| "lookup_locations ops (p # ps) x =
     (case xo_get ops None (build_primary_key (fst p)) x of
        (g, x1) \<Rightarrow> (case lookup_locations ops ps x1 of
          ((ls, qs), x2) \<Rightarrow> (case g of Inr (loc, True) \<Rightarrow> ((fst p, loc) # ls, qs) | _ \<Rightarrow> (ls, p # qs), x2)))"

fun rewrite_events :: "u64 \<Rightarrow> (bytes \<times> event) list \<Rightarrow> event_store \<Rightarrow> (bytes \<times> location) list result \<times> event_store" where
  "rewrite_events now [] st = (Inr [], st)"
| "rewrite_events now ((ident, ev) # ps) st =
     (case serialize (es_page_size st) (Some ev) of
        Inl e \<Rightarrow> if e = Panic then (Inl Panic, st) else rewrite_events now ps st
      | Inr r \<Rightarrow>
          (case write_record now st (Some r) of
             (Inl e, st1) \<Rightarrow> (Inl (wrap_error ''re-write event to storage'' e), st1)
           | (Inr loc, st1) \<Rightarrow>
               (case rewrite_events now ps st1 of
                  (Inl e, st2) \<Rightarrow> (Inl e, st2)
                | (Inr ls, st2) \<Rightarrow> (Inr ((ident, loc) # ls), st2))))"

definition find_locations_for_events ::
  "'x index_ops \<Rightarrow> (nat \<Rightarrow> (bytes \<times> event) list \<Rightarrow> (bytes \<times> event) list) \<Rightarrow> u64 \<Rightarrow> (bytes \<times> event) list \<Rightarrow> 'x nostr_store \<Rightarrow>
   (bytes \<times> location) list result \<times> 'x nostr_store" where
  "find_locations_for_events ops ord now events s =
     (if events = [] then (Inr [], s)
      else case lookup_locations ops (ord 0 events) (im_primary (ns_indexes s)) of
        ((ls, rest), x) \<Rightarrow>
          let s1 = s\<lparr>ns_indexes := (ns_indexes s)\<lparr>im_primary := x\<rparr>\<rparr>
          in if rest = [] then (Inr ls, s1)
             else case rewrite_events now (ord 1 rest) (ns_storage s1) of
               (Inl e, st) \<Rightarrow> (Inl e, s1\<lparr>ns_storage := st\<rparr>)
             | (Inr ls', st) \<Rightarrow> (Inr (ls @ ls'), s1\<lparr>ns_storage := st\<rparr>))"

section \<open>The second pass\<close>

definition replay_on_insert :: "'x index_ops \<Rightarrow> event \<Rightarrow> location \<Rightarrow> 'x index_mgr \<Rightarrow> go_error option \<times> 'x index_mgr" where
  "replay_on_insert ops ev loc im =
     (case xo_insert ops None (primary_key_of ev) loc (im_primary im) of
        (Some e, x) \<Rightarrow> (Some (wrap_error ''primary index insert'' e), im\<lparr>im_primary := x\<rparr>)
      | (None, x) \<Rightarrow>
          let im1 = im\<lparr>im_primary := x\<rparr>
          in case xo_insert ops None (author_time_key_of ev) loc (im_author_time im1) of
            (Some e, x) \<Rightarrow> (Some (wrap_error ''author-time index insert'' e), im1\<lparr>im_author_time := x\<rparr>)
          | (None, x) \<Rightarrow>
              let im2 = im1\<lparr>im_author_time := x\<rparr>
              in case xo_insert ops None (kind_time_key_of ev) loc (im_kind_time im2) of
                (Some e, x) \<Rightarrow> (Some (wrap_error ''kind-time index insert'' e), im2\<lparr>im_kind_time := x\<rparr>)
              | (None, x) \<Rightarrow>
                  (None, im2\<lparr>im_kind_time := x,
                     im_search := fold (\<lambda>k x. snd (xo_insert ops None k loc x)) (event_search_keys (im_codes im) ev [] (tags ev)) (im_search im2)\<rparr>))"

definition replay_delete :: "'x index_ops \<Rightarrow> event \<Rightarrow> location \<Rightarrow> 'x index_mgr \<Rightarrow> 'x index_mgr" where
  "replay_delete ops ev loc im =
     unindex_secondary ops None ev loc (im\<lparr>im_primary := snd (xo_delete ops None (primary_key_of ev) None (im_primary im))\<rparr>)"

fun apply_inserts :: "'x index_ops \<Rightarrow> (bytes \<times> location) list \<Rightarrow> (bytes \<times> event) list \<Rightarrow> 'x index_mgr \<Rightarrow> go_error option \<times> 'x index_mgr" where
  "apply_inserts ops locs [] im = (None, im)"
| "apply_inserts ops locs ((ident, ev) # ps) im =
     (case map_of locs ident of
        None \<Rightarrow> apply_inserts ops locs ps im
      | Some loc \<Rightarrow>
          (case replay_on_insert ops ev loc im of
             (Some e, im1) \<Rightarrow> (Some (wrap_error ''apply WAL insert'' e), im1)
           | (None, im1) \<Rightarrow> apply_inserts ops locs ps im1))"

definition apply_collected ::
  "'x index_ops \<Rightarrow> (nat \<Rightarrow> (bytes \<times> event) list \<Rightarrow> (bytes \<times> event) list) \<Rightarrow> u64 \<Rightarrow> (bytes \<times> event) list \<Rightarrow> (event \<times> location) list \<Rightarrow>
   'x nostr_store \<Rightarrow> go_error option \<times> 'x nostr_store" where
  "apply_collected ops ord now events deletions s =
     (if events = [] \<and> deletions = [] then (None, s)
      else case find_locations_for_events ops ord now events s of
        (Inl e, s1) \<Rightarrow> (Some (wrap_error ''resolve locations for WAL entries'' e), s1)
      | (Inr locs, s1) \<Rightarrow>
          (case apply_inserts ops locs (ord 2 events) (ns_indexes s1) of
             (Some e, im) \<Rightarrow> (Some e, s1\<lparr>ns_indexes := im\<rparr>)
           | (None, im) \<Rightarrow> (None, s1\<lparr>ns_indexes := fold (\<lambda>(ev, loc). replay_delete ops ev loc) deletions im\<rparr>)))"

definition replay_start :: "wal_manager \<Rightarrow> u64" where
  "replay_start m = (case wm_last_checkpoint m of Inl _ \<Rightarrow> 0 | Inr c \<Rightarrow> if cp_lsn c > 0 then cp_lsn c + 1 else 0)"

definition replay_wal_from_checkpoint ::
  "'x index_ops \<Rightarrow> nat \<Rightarrow> (nat \<Rightarrow> (bytes \<times> event) list \<Rightarrow> (bytes \<times> event) list) \<Rightarrow> u64 \<Rightarrow> 'x nostr_store \<Rightarrow>
   (go_error option \<times> 'x nostr_store) option" where
  "replay_wal_from_checkpoint ops n ord now s =
     (case ns_wal s of
        None \<Rightarrow> Some (Some Panic, s)
      | Some (d, m) \<Rightarrow>
          (case replay_from_reader n d recovery_replayer (replay_start m) True \<lparr>rc_storage = ns_storage s, rc_events = [], rc_deletions = []\<rparr> of
             None \<Rightarrow> None
           | Some (_, Some e, c) \<Rightarrow> Some (Some (wrap_error ''replay WAL from LSN'' e), s\<lparr>ns_storage := rc_storage c\<rparr>)
           | Some (_, None, c) \<Rightarrow> Some (apply_collected ops ord now (rc_events c) (rc_deletions c) (s\<lparr>ns_storage := rc_storage c\<rparr>))))"

definition recover_from_wal ::
  "'x index_ops \<Rightarrow> ((event \<times> location) list list \<Rightarrow> (event \<times> location) list) \<Rightarrow> (nat \<Rightarrow> (bytes \<times> event) list \<Rightarrow> (bytes \<times> event) list) \<Rightarrow>
   nat \<Rightarrow> u64 \<Rightarrow> 'x index_mgr result \<Rightarrow> bool \<Rightarrow> bool \<Rightarrow> 'x nostr_store \<Rightarrow> (go_error option \<times> 'x nostr_store) option" where
  "recover_from_wal ops mix ord n now reopened indexFilesInvalidated indexDirtyOnStart s =
     (let rebuild = (\<lambda>s. map_option (\<lambda>(r, s'). (map_option (wrap_error ''rebuild indexes from segments'') r, s')) (rebuild_indexes_from_segments ops mix n reopened s))
      in if ns_wal s = None then (if indexFilesInvalidated then rebuild s else Some (None, s))
         else if indexFilesInvalidated then rebuild s
         else if indexDirtyOnStart
         then (case replay_wal_from_checkpoint ops n ord now s of
                 None \<Rightarrow> None
               | Some (None, s1) \<Rightarrow> Some (None, s1)
               | Some (Some e, s1) \<Rightarrow> if e = Panic then Some (Some e, s1) else rebuild s1)
         else Some (None, s))"

section \<open>Events that can be written again\<close>

definition storable :: "u32 \<Rightarrow> event \<Rightarrow> bool" where
  "storable ps e \<longleftrightarrow> event_wf e \<and> tags_ok (tags e) \<and> (case serialize_tags (tags e) of Inl _ \<Rightarrow> False | Inr td \<Rightarrow> event_size e td + 2 < 2 ^ 32)"

definition event_record :: "u32 \<Rightarrow> event \<Rightarrow> rec" where
  "event_record ps e = record_of ps e (case serialize_tags (tags e) of Inl _ \<Rightarrow> [] | Inr td \<Rightarrow> td)"

lemma storable_record:
  assumes "storable ps e" "6 < unat ps"
  shows "serialize ps (Some e) = Inr (event_record ps e)" "deserialize (Some (event_record ps e)) = Inr (stored_form ps e)"
    "\<not> is_deleted (ev_flags (stored_form ps e))"
proof -
  obtain td where td: "serialize_tags (tags e) = Inr td" "event_wf e" "tags_ok (tags e)" "event_size e td + 2 < 2 ^ 32"
    using assms(1) by (auto simp: storable_def split: sum.splits)
  have ser: "serialize ps (Some e) = Inr (record_of ps e td)" using assms(2) by (rule serialize_eq [OF td(2,1,4)])
  then show "serialize ps (Some e) = Inr (event_record ps e)" by (simp add: event_record_def td(1))
  show "deserialize (Some (event_record ps e)) = Inr (stored_form ps e)"
    using stored_form_serialized(2) [OF td(2,1,3,4) assms(2) ser] by (simp add: event_record_def td(1))
  show "\<not> is_deleted (ev_flags (stored_form ps e))"
    using td(1) by (simp add: stored_form_def is_deleted_def flag_continued_def flag_deleted_def)
qed

text \<open>The segments take one record after the other.\<close>

fun accepts_all :: "u64 \<Rightarrow> event_store \<Rightarrow> rec list \<Rightarrow> bool" where
  "accepts_all now st [] \<longleftrightarrow> True"
| "accepts_all now st (r # rs) \<longleftrightarrow> store_accepts st r \<and> accepts_all now (snd (write_record now st (Some r))) rs"

definition storable_map :: "'x nostr_store \<Rightarrow> (bytes \<times> event) list \<Rightarrow> bool" where
  "storable_map s events \<longleftrightarrow> distinct (map fst events) \<and> (\<forall>p \<in> set events. ev_id (snd p) = fst p \<and> storable (es_page_size (ns_storage s)) (snd p))"

definition room_for :: "u64 \<Rightarrow> 'x nostr_store \<Rightarrow> (bytes \<times> event) list \<Rightarrow> bool" where
  "room_for now s events \<longleftrightarrow> (\<forall>ps. distinct ps \<longrightarrow> set ps \<subseteq> set events \<longrightarrow>
     accepts_all now (ns_storage s) (map (event_record (es_page_size (ns_storage s)) \<circ> snd) ps))"

lemma rewrite_events_ok:
  assumes "store_rep st log" "\<forall>p \<in> set ps. storable (es_page_size st) (snd p)" "accepts_all now st (map (event_record (es_page_size st) \<circ> snd) ps)"
  shows "\<exists>ls st'. rewrite_events now ps st = (Inr (zip (map fst ps) ls), st') \<and> length ls = length ps \<and>
    store_rep st' (log @ zip ls (map (event_record (es_page_size st) \<circ> snd) ps)) \<and> es_page_size st' = es_page_size st"
  using assms
proof (induction ps arbitrary: st log)
  case (Cons p ps)
  obtain ident e where p: "p = (ident, e)" by (cases p)
  let ?r = "event_record (es_page_size st) e"
  have "6 < unat (es_page_size st)" using store_page_size [OF Cons.prems(1)] by (simp add: page_ok_def)
  then have ser: "serialize (es_page_size st) (Some e) = Inr ?r" using storable_record(1) Cons.prems(2) p by simp
  obtain l st1 where w: "write_record now st (Some ?r) = (Inr l, st1)" "store_rep st1 (log @ [(l, ?r)])" "es_page_size st1 = es_page_size st"
    using store_append_rep [OF Cons.prems(1), of ?r now] Cons.prems(3) p by auto
  have "\<forall>q \<in> set ps. storable (es_page_size st1) (snd q)" "accepts_all now st1 (map (event_record (es_page_size st1) \<circ> snd) ps)"
    using Cons.prems(2,3) p w(1,3) by (auto simp: comp_def)
  from Cons.IH [OF w(2) this, unfolded w(3)] obtain ls st' where
    "rewrite_events now ps st1 = (Inr (zip (map fst ps) ls), st')" "length ls = length ps"
    "store_rep st' ((log @ [(l, ?r)]) @ zip ls (map (event_record (es_page_size st) \<circ> snd) ps))" "es_page_size st' = es_page_size st" by blast
  then show ?case using ser w(1) p by (intro exI [of _ "l # ls"] exI [of _ st']) (simp add: comp_def)
qed simp

section \<open>Indexes that take a key again\<close>

locale primary_upsert = primary_batch ops holds fits
  for ops :: "'x index_ops" and holds fits +
  assumes upsert_law: "holds x m \<Longrightarrow> \<exists>x'. xo_insert ops None k l x = (None, x') \<and> holds x' (m(k \<mapsto> l))"
    and insert_total: "\<exists>x'. xo_insert ops None k l x = (None, x')"

begin

lemma lookup_locations_ok:
  assumes "holds x M" "\<forall>p \<in> set ps. length (fst p) = 32"
  shows "\<exists>ls x'. lookup_locations ops ps x = ((ls, filter (\<lambda>p. M (fst p) = None) ps), x') \<and> holds x' M \<and>
    map_of ls = M |` (fst ` set ps)"
  using assms
proof (induction ps arbitrary: x)
  case (Cons p ps)
  obtain x1 where x1: "xo_get ops None (fst p) x = (Inr (loc_flag (M (fst p))), x1)" "holds x1 M" using get_law [OF Cons.prems(1)] by blast
  obtain ls x2 where x2: "lookup_locations ops ps x1 = ((ls, filter (\<lambda>p. M (fst p) = None) ps), x2)" "holds x2 M" "map_of ls = M |` (fst ` set ps)"
    using Cons.IH [OF x1(2)] Cons.prems(2) by auto
  show ?case using x1(1) x2 Cons.prems(2) by (cases "M (fst p)") (auto simp: loc_flag_def fun_eq_iff restrict_map_def)
qed (simp add: restrict_map_def fun_eq_iff)

lemma replay_insert_ok:
  assumes "holds (im_primary im) M" "length (ev_id e) = 32"
  shows "\<exists>im'. replay_on_insert ops e l im = (None, im') \<and> holds (im_primary im') (M(ev_id e \<mapsto> l))"
proof -
  obtain x1 where x1: "xo_insert ops None (ev_id e) l (im_primary im) = (None, x1)" "holds x1 (M(ev_id e \<mapsto> l))" using upsert_law [OF assms(1)] by blast
  obtain x2 where x2: "xo_insert ops None (author_time_key_of e) l (im_author_time im) = (None, x2)" using insert_total by blast
  obtain x3 where x3: "xo_insert ops None (kind_time_key_of e) l (im_kind_time im) = (None, x3)" using insert_total by blast
  show ?thesis using x1 x2 x3 assms(2) by (simp add: replay_on_insert_def Let_def)
qed

lemma apply_inserts_ok:
  assumes "holds (im_primary im) M" "\<forall>p \<in> set ps. ev_id (snd p) = fst p \<and> length (fst p) = 32"
  shows "\<exists>im'. apply_inserts ops locs ps im = (None, im') \<and> holds (im_primary im') (M ++ (map_of locs |` (fst ` set ps)))"
  using assms
proof (induction ps arbitrary: im M)
  case Nil
  then show ?case by simp
next
  case (Cons p ps)
  obtain ident e where p: "p = (ident, e)" "ev_id e = ident" "length ident = 32" using Cons.prems(2) by (cases p) auto
  show ?case
  proof (cases "map_of locs ident")
    case None
    then have "map_of locs |` (fst ` set (p # ps)) = map_of locs |` (fst ` set ps)" by (auto simp: p(1) restrict_map_def fun_eq_iff)
    then show ?thesis using Cons.IH [OF Cons.prems(1)] Cons.prems(2) None p(1) by simp
  next
    case (Some l)
    obtain im1 where im1: "replay_on_insert ops e l im = (None, im1)" "holds (im_primary im1) (M(ident \<mapsto> l))"
      using replay_insert_ok [OF Cons.prems(1), of e l] p(2,3) by auto
    have "M(ident \<mapsto> l) ++ (map_of locs |` (fst ` set ps)) = M ++ (map_of locs |` (fst ` set (p # ps)))"
      using Some by (auto simp: p(1) map_add_def restrict_map_def fun_eq_iff split: option.splits)
    moreover have "\<exists>im'. apply_inserts ops locs ps im1 = (None, im') \<and> holds (im_primary im') (M(ident \<mapsto> l) ++ (map_of locs |` (fst ` set ps)))"
      using Cons.prems(2) by (intro Cons.IH [OF im1(2)]) simp
    ultimately show ?thesis using Some p(1) im1(1) by (simp del: fun_upd_apply)
  qed
qed

text \<open>Every event gets a location: the one it has, or one where it was written again.\<close>

lemma find_locations_ok:
  assumes rep: "store_rep (ns_storage s) log" and h: "holds (im_primary (ns_indexes s)) M"
    and ev: "distinct (map fst events)" "\<forall>p \<in> set events. ev_id (snd p) = fst p \<and> storable (es_page_size (ns_storage s)) (snd p)"
    and ord: "\<And>i ps. mset (ord i ps) = mset ps"
    and acc: "\<And>ps. distinct ps \<Longrightarrow> set ps \<subseteq> set events \<Longrightarrow> accepts_all now (ns_storage s) (map (event_record (es_page_size (ns_storage s)) \<circ> snd) ps)"
  shows "\<exists>locs st x new. find_locations_for_events ops ord now events s = (Inr locs, s\<lparr>ns_storage := st, ns_indexes := (ns_indexes s)\<lparr>im_primary := x\<rparr>\<rparr>) \<and>
    store_rep st (log @ new) \<and> es_page_size st = es_page_size (ns_storage s) \<and> holds x M \<and>
    (\<forall>p \<in> set events. \<exists>l. map_of locs (fst p) = Some l \<and>
      (M (fst p) = Some l \<or> M (fst p) = None \<and> (l, event_record (es_page_size (ns_storage s)) (snd p)) \<in> set new))"
proof -
  let ?ps = "es_page_size (ns_storage s)"
  have st: "set (ord i ps) = set ps" "distinct (ord i ps) = distinct ps" for i ps
    using ord [of i ps] by (metis set_mset_mset, metis mset_eq_imp_distinct_iff)
  have len: "\<forall>p \<in> set (ord 0 events). length (fst p) = 32" using ev(2) st(1) by (auto simp: storable_def event_wf_def)
  obtain ls x where x: "lookup_locations ops (ord 0 events) (im_primary (ns_indexes s)) = ((ls, filter (\<lambda>p. M (fst p) = None) (ord 0 events)), x)" "holds x M"
    "map_of ls = M |` (fst ` set events)" using lookup_locations_ok [OF h len] st(1) by auto
  define rest where "rest = filter (\<lambda>p. M (fst p) = None) (ord 0 events)"
  have sr: "set rest = {p \<in> set events. M (fst p) = None}" "distinct rest" using st ev(1) by (auto simp: rest_def distinct_map)
  have "\<exists>ks st. rewrite_events now (ord 1 rest) (ns_storage s) = (Inr (zip (map fst (ord 1 rest)) ks), st) \<and> length ks = length (ord 1 rest) \<and>
      store_rep st (log @ zip ks (map (event_record ?ps \<circ> snd) (ord 1 rest))) \<and> es_page_size st = ?ps"
    using ev(2) sr st acc by (intro rewrite_events_ok [OF rep]) auto
  then obtain ks st' where w: "rewrite_events now (ord 1 rest) (ns_storage s) = (Inr (zip (map fst (ord 1 rest)) ks), st')" "length ks = length (ord 1 rest)"
    "store_rep st' (log @ zip ks (map (event_record ?ps \<circ> snd) (ord 1 rest)))" "es_page_size st' = ?ps" by blast
  let ?new = "zip ks (map (event_record ?ps \<circ> snd) (ord 1 rest))"
  have "find_locations_for_events ops ord now events s =
      (Inr (ls @ zip (map fst (ord 1 rest)) ks), s\<lparr>ns_storage := st', ns_indexes := (ns_indexes s)\<lparr>im_primary := x\<rparr>\<rparr>)"
  proof (cases "events = []")
    case True
    then have "ord 0 events = []" "rest = []" using st(1) [of 0 events] sr(1) by simp_all
    moreover have "ord 1 [] = []" using st(1) [of 1 "[]"] by simp
    ultimately show ?thesis using True x(1) w(1) by (simp add: find_locations_for_events_def)
  next
    case False
    show ?thesis
    proof (cases "rest = []")
      case True
      moreover have "ord 1 [] = []" using st(1) [of 1 "[]"] by simp
      ultimately show ?thesis using False x(1) w(1) by (simp add: find_locations_for_events_def flip: rest_def)
    qed (use False x(1) w(1) in \<open>simp add: find_locations_for_events_def flip: rest_def\<close>)
  qed
  moreover have "\<exists>l. map_of (ls @ zip (map fst (ord 1 rest)) ks) (fst p) = Some l \<and> (M (fst p) = Some l \<or> M (fst p) = None \<and> (l, event_record ?ps (snd p)) \<in> set ?new)"
    if p: "p \<in> set events" for p
  proof (cases "M (fst p)")
    case None
    then have "p \<in> set (ord 1 rest)" using p sr(1) st(1) by simp
    then obtain j where j: "j < length ks" "ord 1 rest ! j = p" unfolding in_set_conv_nth w(2) by blast
    have "distinct (map fst (ord 1 rest))" using ev(1) sr st by (auto simp: distinct_map intro: inj_on_subset)
    then have "map_of (zip (map fst (ord 1 rest)) ks) (fst p) = Some (ks ! j)" using j w(2) by (auto simp: in_set_conv_nth intro!: map_of_is_SomeI)
    moreover have "(ks ! j, event_record ?ps (snd p)) \<in> set ?new" using j w(2) by (auto simp: in_set_conv_nth)
    moreover have "map_of ls (fst p) = None" using x(3) None by (simp add: restrict_map_def)
    ultimately show ?thesis using None by (simp add: map_add_def)
  next
    case (Some l)
    have "M (fst q) = None" if "q \<in> set (ord 1 rest)" for q using that sr(1) st(1) by simp
    then have "fst p \<notin> fst ` set (ord 1 rest)" using Some by force
    then have "map_of (zip (map fst (ord 1 rest)) ks) (fst p) = None" by (auto simp: map_of_eq_None_iff dest: set_zip_leftD)
    then show ?thesis using Some x(3) p by (simp add: map_add_def)
  qed
  ultimately show ?thesis using w(3,4) x(2)
    by (intro exI [of _ "ls @ zip (map fst (ord 1 rest)) ks"] exI [of _ st'] exI [of _ x] exI [of _ ?new]) simp
qed

text \<open>The store answers for them afterwards, and for the others as before.\<close>

lemma apply_collected_ok:
  assumes ok: "ns_ok k holds (s\<lparr>ns_opened := True\<rparr>) M log" and ev: "storable_map s events" "room_for now s events"
    and ord: "\<And>i ps. mset (ord i ps) = mset ps"
  shows "\<exists>s' M' log'. apply_collected ops ord now events [] s = (None, s') \<and> ns_ok k holds (s'\<lparr>ns_opened := True\<rparr>) M' log' \<and>
    (\<forall>p \<in> set events. M (fst p) = None \<longrightarrow>
      fst (ns_get_event ops None (fst p) (s'\<lparr>ns_opened := True\<rparr>)) = Inr (Some (stored_form (es_page_size (ns_storage s)) (snd p)))) \<and>
    (\<forall>ident. length ident = 32 \<longrightarrow> M ident \<noteq> None \<or> ident \<notin> fst ` set events \<longrightarrow>
      fst (ns_get_event ops None ident (s'\<lparr>ns_opened := True\<rparr>)) = fst (ns_get_event ops None ident (s\<lparr>ns_opened := True\<rparr>)))"
proof (cases "events = []")
  case True
  then show ?thesis using ok by (intro exI [of _ s] exI [of _ M] exI [of _ log]) (simp add: apply_collected_def)
next
  case False
  let ?ps = "es_page_size (ns_storage s)"
  have s0: "store_rep (ns_storage s) log" "holds (im_primary (ns_indexes s)) M" "indexed M log" "log_ready k (ns_wal s)" using ok by (simp_all add: ns_ok_def)
  have page: "6 < unat ?ps" using store_page_size [OF s0(1)] by (simp add: page_ok_def)
  have ids: "\<forall>p \<in> set events. ev_id (snd p) = fst p \<and> length (fst p) = 32" using ev(1) by (auto simp: storable_map_def storable_def event_wf_def)
  obtain locs st x new where f: "find_locations_for_events ops ord now events s = (Inr locs, s\<lparr>ns_storage := st, ns_indexes := (ns_indexes s)\<lparr>im_primary := x\<rparr>\<rparr>)"
    "store_rep st (log @ new)" "es_page_size st = ?ps" "holds x M"
    "\<forall>p \<in> set events. \<exists>l. map_of locs (fst p) = Some l \<and> (M (fst p) = Some l \<or> M (fst p) = None \<and> (l, event_record ?ps (snd p)) \<in> set new)"
    using find_locations_ok [OF s0(1,2), of events ord now] ev ord unfolding storable_map_def room_for_def by blast
  have so: "set (ord 2 events) = set events" using ord [of 2 events] by (metis set_mset_mset)
  define M' where "M' = M ++ (map_of locs |` (fst ` set events))"
  obtain im where im: "apply_inserts ops locs (ord 2 events) ((ns_indexes s)\<lparr>im_primary := x\<rparr>) = (None, im)" "holds (im_primary im) M'"
    using apply_inserts_ok [of "(ns_indexes s)\<lparr>im_primary := x\<rparr>" M "ord 2 events" locs] f(4) ids unfolding so M'_def by auto
  have new: "\<exists>l. M' (fst p) = Some l \<and> (l, event_record ?ps (snd p)) \<in> set new" if "p \<in> set events" "M (fst p) = None" for p
    using f(5) that by (fastforce simp: M'_def map_add_def)
  have old: "M' ident = M ident" if "M ident \<noteq> None \<or> ident \<notin> fst ` set events" for ident
    using f(5) that by (fastforce simp: M'_def map_add_def restrict_map_def)
  have des: "deserialize (Some (event_record ?ps (snd p))) = Inr (stored_form ?ps (snd p)) \<and> \<not> is_deleted (ev_flags (stored_form ?ps (snd p)))" if "p \<in> set events" for p
    using storable_record(2,3) [OF _ page, of "snd p"] ev(1) that by (auto simp: storable_map_def)
  have ix: "indexed M' (log @ new)"
  proof (unfold indexed_def, intro allI impI)
    fix i l assume l: "M' i = Some l"
    show "\<exists>r e. (l, r) \<in> set (log @ new) \<and> deserialize (Some r) = Inr e \<and> ev_id e = i"
    proof (cases "M i \<noteq> None \<or> i \<notin> fst ` set events")
      case True
      then show ?thesis using old [OF True] l s0(3) unfolding indexed_def set_append by (metis UnI1)
    next
      case False
      then obtain p where p: "p \<in> set events" "fst p = i" "M (fst p) = None" by auto
      then obtain l' where "M' i = Some l'" "(l', event_record ?ps (snd p)) \<in> set new" using new by blast
      then show ?thesis using des [OF p(1)] ids p(1,2) l by (intro exI [of _ "event_record ?ps (snd p)"] exI [of _ "stored_form ?ps (snd p)"]) simp
    qed
  qed
  define s' where "s' = s\<lparr>ns_storage := st, ns_indexes := im\<rparr>"
  have ok': "ns_ok k holds (s'\<lparr>ns_opened := True\<rparr>) M' (log @ new)" using f(2) im(2) ix s0(4) by (simp add: ns_ok_def s'_def)
  have "apply_collected ops ord now events [] s = (None, s')" using False f(1) im(1) by (simp add: apply_collected_def s'_def)
  moreover have "fst (ns_get_event ops None (fst p) (s'\<lparr>ns_opened := True\<rparr>)) = Inr (Some (stored_form ?ps (snd p)))" if p: "p \<in> set events" "M (fst p) = None" for p
  proof -
    obtain l where l: "M' (fst p) = Some l" "(l, event_record ?ps (snd p)) \<in> set new" using new [OF p] by blast
    have "read_event st l = Inr (stored_form ?ps (snd p))" using read_event_log [OF f(2), of l "event_record ?ps (snd p)"] l(2) des [OF p(1)] by simp
    then show ?thesis using get_event_ok [OF ok', of "fst p"] ids p(1) l(1) des [OF p(1)] by (auto simp: stored_event_def s'_def)
  qed
  moreover have "fst (ns_get_event ops None ident (s'\<lparr>ns_opened := True\<rparr>)) = fst (ns_get_event ops None ident (s\<lparr>ns_opened := True\<rparr>))"
    if i: "length ident = 32" "M ident \<noteq> None \<or> ident \<notin> fst ` set events" for ident
  proof -
    have "fst (ns_get_event ops None ident (s'\<lparr>ns_opened := True\<rparr>)) = stored_event st (M ident)"
      "fst (ns_get_event ops None ident (s\<lparr>ns_opened := True\<rparr>)) = stored_event (ns_storage s) (M ident)"
      using get_event_ok [OF ok' i(1)] get_event_ok [OF ok i(1)] old [OF i(2)] by (auto simp: s'_def)
    moreover have "read_event st l = read_event (ns_storage s) l" if l: "M ident = Some l" for l
    proof -
      obtain r where "(l, r) \<in> set log" using indexed_in_log [OF s0(3) l] by auto
      then show ?thesis using read_event_log [OF f(2), of l r] read_event_log [OF s0(1)] by simp
    qed
    ultimately show ?thesis by (simp add: stored_event_def split: option.split)
  qed
  ultimately show ?thesis using ok' by blast
qed

end

interpretation memu: primary_upsert memory_ops memory_holds "\<lambda>_ _. True"
proof
  fix x M k l
  show "\<exists>x'. xo_insert memory_ops None k l x = (None, x') \<and> memory_holds x' (M(k \<mapsto> l))" if "memory_holds x M"
    using memory_put [OF that, of k l] by (simp add: memory_ops_def bt_insert_def upd_def)
  show "\<exists>x'. xo_insert memory_ops None k l x = (None, x')" by (simp add: memory_ops_def bt_insert_def upd_def)
qed

section \<open>A log of insertions\<close>

definition inserted :: "log_op list \<Rightarrow> event list" where
  "inserted los = List.map_filter (\<lambda>lo. case lo of Log_Insert e \<Rightarrow> Some e | _ \<Rightarrow> None) los"

definition last_versions :: "event list \<Rightarrow> (bytes \<times> event) list" where
  "last_versions es = fold (\<lambda>e. AList.update (ev_id e) e) es []"

lemma last_versions_map:
  fixes es :: "event list"
  shows "map_of (fold (\<lambda>e. AList.update (ev_id e) e) es m) ident = (case find (\<lambda>e. ev_id e = ident) (rev es) of None \<Rightarrow> map_of m ident | Some e \<Rightarrow> Some e)"
proof (induction es arbitrary: m)
  case (Cons e es)
  have "find P (xs @ [x]) = (case find P xs of None \<Rightarrow> if P x then Some x else None | Some y \<Rightarrow> Some y)" for P and xs :: "event list" and x by (induction xs) auto
  then show ?case using Cons.IH by (simp add: update_conv' split: option.split)
qed simp

lemma last_versions_facts:
  "distinct (map fst (last_versions es))" "p \<in> set (last_versions es) \<Longrightarrow> snd p \<in> set es \<and> fst p = ev_id (snd p)"
  "map_of (last_versions es) ident = find (\<lambda>e. ev_id e = ident) (rev es)"
proof -
  have "distinct (map fst m) \<Longrightarrow> distinct (map fst (fold (\<lambda>e. AList.update (ev_id e) e) es m))" for m :: "(bytes \<times> event) list"
    by (induction es arbitrary: m) (auto intro: distinct_update)
  then show d: "distinct (map fst (last_versions es))" by (simp add: last_versions_def)
  show m: "map_of (last_versions es) ident = find (\<lambda>e. ev_id e = ident) (rev es)" for ident
    by (simp add: last_versions_def last_versions_map split: option.split)
  show "snd p \<in> set es \<and> fst p = ev_id (snd p)" if "p \<in> set (last_versions es)"
  proof -
    have "find (\<lambda>e. ev_id e = fst p) (rev es) = Some (snd p)" using m [of "fst p"] map_of_is_SomeI [OF d, of "fst p" "snd p"] that by simp
    then show ?thesis by (auto simp: find_Some_iff) (metis nth_mem set_rev length_rev)
  qed
qed

text \<open>The collector sees the events in the form that the log gives them.\<close>

definition collect :: "u32 \<Rightarrow> log_op \<Rightarrow> collector \<Rightarrow> collector" where
  "collect ps lo c = (case lo of Log_Insert e \<Rightarrow> c\<lparr>rc_events := AList.update (ev_id e) (stored_form ps e) (rc_events c)\<rparr> | _ \<Rightarrow> c)"

lemma fold_collect:
  "fold (collect ps) los c = c\<lparr>rc_events := fold (\<lambda>e. AList.update (ev_id e) e) (map (stored_form ps) (inserted los)) (rc_events c)\<rparr>"
  by (induction los arbitrary: c) (auto simp: collect_def inserted_def List.map_filter_simps split: log_op.splits)

lemma replay_collects:
  assumes "list_all2 (logged ps) los es" "6 < unat ps" "\<forall>lo \<in> set los. is_insert lo \<or> lo = Log_Checkpoint" "reader_ok disk r" "upcoming disk r = es"
  shows "\<exists>st'. replay_loop (Suc (length es)) disk recovery_replayer stop r st c = Some (st', None, fold (collect ps) los c)"
  using assms
proof (induction los es arbitrary: r st c rule: list_all2_induct)
  case Nil
  then obtain r' where "reader_read disk r = (Inl EOF, r')" using reader_read_ok(1) by blast
  then show ?case by simp
next
  case (Cons lo los en es)
  obtain r' where r': "reader_read disk r = (Inr en, r')" "reader_ok disk r'" "upcoming disk r' = es"
    using reader_read_ok(2) Cons.prems(3,4) by blast
  have "lo = Log_Checkpoint \<or> (\<exists>e. lo = Log_Insert e)" using Cons.prems(2) by (cases lo) auto
  then have "replay_call recovery_replayer ps lo en c = (None, collect ps lo c)" by (auto simp: recovery_replayer_def collect_insert_def collect_def)
  then have "process_entry recovery_replayer en c = (None, collect ps lo c)"
    using process_logged [OF Cons.hyps(1) Cons.prems(1), of recovery_replayer c] by (auto simp: call_back_def)
  then show ?case using r'(1) Cons.IH [OF Cons.prems(1) _ r'(2,3)] Cons.prems(2) by (simp add: Let_def)
qed

lemma serialize_tags_norm: "serialize_tags ts = Inr td \<Longrightarrow> \<exists>td'. serialize_tags (map norm_tag ts) = Inr td' \<and> length td' = length td"
proof -
  have one: "\<exists>d'. serialize_tag (norm_tag t) = Inr d' \<and> length d' = length d" if "serialize_tag t = Inr d" for t d
    using that by (cases t) (auto simp: serialize_tag_def norm_tag_def Let_def split: if_splits sum.splits)
  have "\<exists>d'. serialize_tag_list (map norm_tag ts) = Inr d' \<and> length d' = length d" if "serialize_tag_list ts = Inr d" for d
    using that
  proof (induction ts arbitrary: d rule: list.induct)
    case (Cons t ts)
    obtain d1 d2 where d: "serialize_tag t = Inr d1" "serialize_tag_list ts = Inr d2" "d = d1 @ d2" using Cons.prems by (auto split: sum.splits)
    obtain e1 e2 where "serialize_tag (norm_tag t) = Inr e1" "length e1 = length d1" "serialize_tag_list (map norm_tag ts) = Inr e2" "length e2 = length d2"
      using one [OF d(1)] Cons.IH [OF d(2)] by blast
    then show ?case using d(3) by simp
  qed simp
  then show "serialize_tags ts = Inr td \<Longrightarrow> \<exists>td'. serialize_tags (map norm_tag ts) = Inr td' \<and> length td' = length td"
    by (fastforce simp: serialize_tags_def split: if_splits sum.splits)
qed

lemma storable_again: "storable ps e \<Longrightarrow> storable ps (stored_form ps e)"
proof -
  assume "storable ps e"
  then obtain td where td: "serialize_tags (tags e) = Inr td" "event_wf e" "tags_ok (tags e)" "event_size e td + 2 < 2 ^ 32"
    by (auto simp: storable_def split: sum.splits)
  have "tl (norm_tag t) = tl t" "norm_tag t = [] \<longleftrightarrow> t = []" for t by (auto simp: norm_tag_def split: list.split)
  then have "tags_ok (map norm_tag (tags e))" using td(3) by (simp add: tags_ok_def tag_body_len_def)
  moreover obtain td' where "serialize_tags (map norm_tag (tags e)) = Inr td'" "length td' = length td" using serialize_tags_norm [OF td(1)] by blast
  ultimately show ?thesis using td(2,4) by (simp add: storable_def stored_form_def event_wf_def event_size_def)
qed

section \<open>Properties\<close>

text \<open>
  C38: Recovery by replay, over in-memory indexes: when the log from the last checkpoint on holds insertions and checkpoints, and the segments have room for
  them, \<open>replayWALFromCheckpoint\<close> returns without error in whatever order Go walks its maps. Then an identifier that the primary index had is answered as before; another is answered
  with the last event logged under it, written again from the form that the log gave it, or not found when there is none.
\<close>

theorem replay_recovers_inserts:
  assumes "ns_ok k memory_holds (s\<lparr>ns_opened := True\<rparr>) M log" and "ns_wal s = Some (d, m)" "disk_ok d" "seg_ids d \<noteq> {}" "entries_small d"
    and "list_all2 (logged (es_page_size (ns_storage s))) los (dropWhile (\<lambda>e. en_lsn e < replay_start m) (disk_log d))"
    and "\<forall>lo \<in> set los. is_insert lo \<or> lo = Log_Checkpoint"
    and "room_for now s (last_versions (map (stored_form (es_page_size (ns_storage s))) (inserted los)))" and "\<forall>i ps. mset (ord i ps) = mset ps"
  shows "\<exists>s' M' log'. replay_wal_from_checkpoint memory_ops (Suc (length los)) ord now s = Some (None, s') \<and>
    ns_ok k memory_holds (s'\<lparr>ns_opened := True\<rparr>) M' log' \<and>
    (\<forall>ident. length ident = 32 \<longrightarrow> fst (ns_get_event memory_ops None ident (s'\<lparr>ns_opened := True\<rparr>)) =
      (case M ident of Some _ \<Rightarrow> fst (ns_get_event memory_ops None ident (s\<lparr>ns_opened := True\<rparr>))
       | None \<Rightarrow> (case find (\<lambda>e. ev_id e = ident) (rev (inserted los)) of None \<Rightarrow> Inr None
         | Some e \<Rightarrow> Inr (Some (stored_form (es_page_size (ns_storage s)) (stored_form (es_page_size (ns_storage s)) e))))))"
proof -
  let ?ps = "es_page_size (ns_storage s)" and ?evs = "map (stored_form (es_page_size (ns_storage s))) (inserted los)"
  have "store_rep (ns_storage s) log" using assms(1) by (simp add: ns_ok_def)
  then have page: "6 < unat ?ps" using store_page_size by (fastforce simp: page_ok_def)
  obtain r where r: "reader_open d (replay_start m) new_file_reader = (None, r)" "reader_ok d r"
    "upcoming d r = dropWhile (\<lambda>e. en_lsn e < replay_start m) (disk_log d)" using reader_open_ok [OF assms(3-5)] by blast
  let ?c = "\<lparr>rc_storage = ns_storage s, rc_events = [], rc_deletions = []\<rparr>"
  obtain st where st: "replay_loop (Suc (length los)) d recovery_replayer True r empty_stats ?c = Some (st, None, fold (collect ?ps) los ?c)"
    using replay_collects [OF assms(6) page assms(7) r(2,3), of True empty_stats ?c] list_all2_lengthD [OF assms(6)] by auto
  have "fold (collect ?ps) los ?c = ?c\<lparr>rc_events := last_versions ?evs\<rparr>" by (simp add: fold_collect last_versions_def)
  then have run: "replay_wal_from_checkpoint memory_ops (Suc (length los)) ord now s = Some (apply_collected memory_ops ord now (last_versions ?evs) [] s)"
    using st r(1) assms(2) by (simp add: replay_wal_from_checkpoint_def replay_from_reader_def)
  have "storable ?ps e" if "e \<in> set (inserted los)" for e
  proof -
    have "Log_Insert e \<in> set los" using that by (auto simp: inserted_def map_filter_def split: log_op.splits)
    then obtain en where "logged ?ps (Log_Insert e) en" using assms(6) by (metis list_all2_conv_all_nth in_set_conv_nth)
    then show ?thesis by (auto simp: storable_def)
  qed
  then have sm: "storable_map s (last_versions ?evs)" using last_versions_facts(1) storable_again by (auto simp: storable_map_def dest!: last_versions_facts(2))
  from memu.apply_collected_ok [OF assms(1) sm assms(8), of ord] assms(9) obtain s' M' log' where
    s': "apply_collected memory_ops ord now (last_versions ?evs) [] s = (None, s')" "ns_ok k memory_holds (s'\<lparr>ns_opened := True\<rparr>) M' log'"
    "\<forall>p \<in> set (last_versions ?evs). M (fst p) = None \<longrightarrow> fst (ns_get_event memory_ops None (fst p) (s'\<lparr>ns_opened := True\<rparr>)) = Inr (Some (stored_form ?ps (snd p)))"
    "\<forall>ident. length ident = 32 \<longrightarrow> M ident \<noteq> None \<or> ident \<notin> fst ` set (last_versions ?evs) \<longrightarrow>
      fst (ns_get_event memory_ops None ident (s'\<lparr>ns_opened := True\<rparr>)) = fst (ns_get_event memory_ops None ident (s\<lparr>ns_opened := True\<rparr>))" by blast
  have look: "map_of (last_versions ?evs) ident = map_option (stored_form ?ps) (find (\<lambda>e. ev_id e = ident) (rev (inserted los)))" for ident
  proof -
    have "find (\<lambda>e. ev_id e = ident) (map (stored_form ?ps) es) = map_option (stored_form ?ps) (find (\<lambda>e. ev_id e = ident) es)" for es by (induction es) auto
    then show ?thesis unfolding last_versions_facts(3) rev_map by blast
  qed
  have "fst (ns_get_event memory_ops None ident (s'\<lparr>ns_opened := True\<rparr>)) =
      (case M ident of Some _ \<Rightarrow> fst (ns_get_event memory_ops None ident (s\<lparr>ns_opened := True\<rparr>))
       | None \<Rightarrow> (case find (\<lambda>e. ev_id e = ident) (rev (inserted los)) of None \<Rightarrow> Inr None | Some e \<Rightarrow> Inr (Some (stored_form ?ps (stored_form ?ps e)))))"
    if i: "length ident = 32" for ident
  proof (cases "M ident")
    case (Some l)
    then show ?thesis using s'(4) i by simp
  next
    case None
    have "fst (ns_get_event memory_ops None ident (s\<lparr>ns_opened := True\<rparr>)) = Inr None" using mem.get_event_ok [OF assms(1) i] None by (auto simp: stored_event_def)
    then show ?thesis using None s'(3,4) i look [of ident]
      by (cases "find (\<lambda>e. ev_id e = ident) (rev (inserted los))") (auto simp: map_of_eq_None_iff dest!: map_of_SomeD)
  qed
  then show ?thesis using run s'(1,2) by auto
qed

theorem replay_recovers_inserts_witness:
  "\<exists>s s'. replay_wal_from_checkpoint memory_ops 2 (\<lambda>_ ps. ps) 9 s = Some (None, s') \<and>
    fst (ns_get_event memory_ops None (ev_id demo_event) (s'\<lparr>ns_opened := True\<rparr>)) = Inr (Some (demo_event\<lparr>tags := tags demo_event, ev_flags := 0\<rparr>))"
proof -
  let ?r = "record_of 4096 demo_event [0, 2, 101, 0, 5, 1, 0, 2, 97, 98, 116, 0, 1, 0]" and ?e = "demo_event\<lparr>tags := tags demo_event, ev_flags := 0\<rparr>"
  let ?en = "logged_as op_insert 1 (rec_data ?r)"
  have len: "length (rec_data ?r) = 167" by (simp add: record_of_def demo_event_facts multi_page_def length_event_body)
  obtain d where d: "disk_ok d" "seg_ids d = {0}" "disk_log d = [?en]" using one_file_log [of "[?en]"] len by auto
  obtain w where w: "wal_inv d w" "wr_segment_id w = 0" using wal_open_ok [of d 0 new_file_writer demo_cfg] d(1,2) by (auto simp: new_file_writer_def)
  define s where "s = demo_ns\<lparr>ns_wal := Some (d, new_file_manager\<lparr>wm_writer := Some w\<rparr>)\<rparr>"
  have ps: "es_page_size (ns_storage s) = 4096" "ns_storage s = demo_store" by (simp_all add: s_def demo_ns_def demo_store_def)
  have c5: "length (content demo_event) = 5" by (simp add: demo_event_def lit_def)
  then have sf: "stored_form 4096 demo_event = ?e" "stored_form 4096 ?e = ?e" "ev_id ?e = ev_id demo_event" by (simp_all add: stored_form_def demo_event_facts(3,5) event_size_def)
  have small: "entries_small d" using len by (simp add: entries_small_def d(3))
  have ser: "serialize 4096 (Some demo_event) = Inr ?r" using serialize_eq [OF demo_event_facts(1,3), of 4096] by (simp add: demo_event_facts)
  have lg: "list_all2 (logged 4096) [Log_Insert demo_event] [?en]" using ser demo_event_facts by (simp add: cont_pages_def)
  have st: "replay_start (new_file_manager\<lparr>wm_writer := Some w\<rparr>) = 0" by (simp add: replay_start_def wm_last_checkpoint_def new_file_manager_def)
  have ok: "ns_ok 0 memory_holds (s\<lparr>ns_opened := True\<rparr>) Map.empty []" using demo_ns_ok [of 0] w by (simp add: ns_ok_def s_def log_ready_def demo_ns_def)
  have er: "event_record 4096 ?e = demo_record" by (simp add: event_record_def demo_event_facts demo_record_def record_of_def event_size_def multi_page_def event_body_def Let_def)
  have room: "room_for 9 s (last_versions (map (stored_form 4096) (inserted [Log_Insert demo_event])))"
  proof (unfold room_for_def, intro allI impI)
    fix ps assume p: "distinct ps" "set ps \<subseteq> set (last_versions (map (stored_form 4096) (inserted [Log_Insert demo_event])))"
    then have "ps = [] \<or> ps = [(ev_id demo_event, ?e)]"
      by (cases ps; cases "tl ps") (auto simp: last_versions_def inserted_def List.map_filter_simps sf)
    then show "accepts_all 9 (ns_storage s) (map (event_record (es_page_size (ns_storage s)) \<circ> snd) ps)" using demo_store_rep(2) er ps by auto
  qed
  have id: "length (ev_id demo_event) = 32" using demo_event_facts(1) by (simp add: event_wf_def)
  have two: "Suc (length [Log_Insert demo_event]) = 2" by simp
  from replay_recovers_inserts [of 0 s Map.empty "[]" d "new_file_manager\<lparr>wm_writer := Some w\<rparr>" "[Log_Insert demo_event]" 9 "\<lambda>_ ps. ps", unfolded st ps(1) d(3) two, OF ok _ d(1) _ small _ _ room]
  obtain s' where s': "replay_wal_from_checkpoint memory_ops 2 (\<lambda>_ ps. ps) 9 s = Some (None, s')"
    "\<forall>ident. length ident = 32 \<longrightarrow> fst (ns_get_event memory_ops None ident (s'\<lparr>ns_opened := True\<rparr>)) =
      (case find (\<lambda>e. ev_id e = ident) [demo_event] of None \<Rightarrow> Inr None | Some e \<Rightarrow> Inr (Some (stored_form 4096 (stored_form 4096 e))))"
    using lg d(2) by (auto simp: s_def inserted_def List.map_filter_simps)
  have "fst (ns_get_event memory_ops None (ev_id demo_event) (s'\<lparr>ns_opened := True\<rparr>)) = Inr (Some ?e)" using s'(2) [rule_format, OF id] sf by simp
  then show ?thesis using s'(1) by blast
qed

end
