(* ===== verification/Linked_List.thy ===== *)
theory Linked_List
  imports Main
begin

text \<open>
  The doubly linked recency list that both caches of \<open>src/cache/cache.go\<close> thread through their
  items: \<open>moveToFront\<close> and \<open>removeItem\<close>, which \<open>lruCache\<close> and \<open>memoryCache\<close> have in identical form.
  Items live in a heap, a function from addresses to items; pointers are optional addresses and
  updates go through the heap as the assignments of the source do.

  \<open>dll h xs hd tl\<close> says that the pointers \<open>hd\<close> and \<open>tl\<close> delimit a well-formed list of the addresses
  \<open>xs\<close>. The lemmas show what the two operations do to \<open>xs\<close> and that they touch no other item's
  key and payload.
\<close>

section \<open>Items and pointer operations\<close>

type_synonym addr = nat

record ('k, 'v) cache_item =
  ci_key :: 'k
  ci_val :: 'v
  ci_prev :: "addr option"
  ci_next :: "addr option"

record ('k, 'v) recency =
  heap :: "addr \<Rightarrow> ('k, 'v) cache_item"
  head_ptr :: "addr option"
  tail_ptr :: "addr option"

definition set_next :: "addr option \<Rightarrow> addr option \<Rightarrow> ('k, 'v) recency \<Rightarrow> ('k, 'v) recency" where
  "set_next p n s = (case p of None \<Rightarrow> s
     | Some a \<Rightarrow> s\<lparr>heap := (heap s)(a := (heap s a)\<lparr>ci_next := n\<rparr>)\<rparr>)"

definition set_prev :: "addr option \<Rightarrow> addr option \<Rightarrow> ('k, 'v) recency \<Rightarrow> ('k, 'v) recency" where
  "set_prev n p s = (case n of None \<Rightarrow> s
     | Some a \<Rightarrow> s\<lparr>heap := (heap s)(a := (heap s a)\<lparr>ci_prev := p\<rparr>)\<rparr>)"

text \<open>The first two statements of both operations join the neighbours of the item.\<close>

definition unlink :: "addr \<Rightarrow> ('k, 'v) recency \<Rightarrow> ('k, 'v) recency" where
  "unlink a s = (let s1 = set_next (ci_prev (heap s a)) (ci_next (heap s a)) s
     in set_prev (ci_next (heap s1 a)) (ci_prev (heap s1 a)) s1)"

text \<open>The rest of \<open>moveToFront\<close>: the item becomes the head, and the tail of an empty list.\<close>

definition link_front :: "addr \<Rightarrow> ('k, 'v) recency \<Rightarrow> ('k, 'v) recency" where
  "link_front a s =
     (let s1 = set_prev (Some a) None s;
          s2 = set_next (Some a) (head_ptr s1) s1;
          s3 = set_prev (head_ptr s2) (Some a) s2;
          s4 = s3\<lparr>head_ptr := Some a\<rparr>
      in if tail_ptr s4 = None then s4\<lparr>tail_ptr := Some a\<rparr> else s4)"

definition move_to_front :: "addr \<Rightarrow> ('k, 'v) recency \<Rightarrow> ('k, 'v) recency" where
  "move_to_front a s =
     (if head_ptr s = Some a then s
      else let s1 = unlink a s;
               s2 = (if tail_ptr s1 = Some a then s1\<lparr>tail_ptr := ci_prev (heap s1 a)\<rparr> else s1)
           in link_front a s2)"

definition remove_item :: "addr \<Rightarrow> ('k, 'v) recency \<Rightarrow> ('k, 'v) recency" where
  "remove_item a s =
     (let s2 = unlink a s;
          s3 = (if head_ptr s2 = Some a then s2\<lparr>head_ptr := ci_next (heap s2 a)\<rparr> else s2)
      in if tail_ptr s3 = Some a then s3\<lparr>tail_ptr := ci_prev (heap s3 a)\<rparr> else s3)"

section \<open>Well-formed lists\<close>

definition first_of :: "addr option \<Rightarrow> addr list \<Rightarrow> addr option" where
  "first_of n xs = (case xs of [] \<Rightarrow> n | x # _ \<Rightarrow> Some x)"

definition last_of :: "addr option \<Rightarrow> addr list \<Rightarrow> addr option" where
  "last_of p xs = (if xs = [] then p else Some (last xs))"

fun dlseg :: "(addr \<Rightarrow> ('k, 'v) cache_item) \<Rightarrow> addr option \<Rightarrow> addr list \<Rightarrow> addr option \<Rightarrow> bool" where
  "dlseg h p [] n = True"
| "dlseg h p (a # as) n \<longleftrightarrow> ci_prev (h a) = p \<and> ci_next (h a) = first_of n as \<and> dlseg h (Some a) as n"

definition dll :: "('k, 'v) recency \<Rightarrow> addr list \<Rightarrow> bool" where
  "dll s xs \<longleftrightarrow> distinct xs \<and> dlseg (heap s) None xs None \<and>
     head_ptr s = first_of None xs \<and> tail_ptr s = last_of None xs"

lemma first_of_simps [simp]: "first_of n [] = n" "first_of n (x # xs) = Some x"
  by (simp_all add: first_of_def)

lemma last_of_simps [simp]: "last_of p [] = p" "last_of p (xs @ [x]) = Some x" "last_of p (x # xs) = last_of (Some x) xs"
  by (simp_all add: last_of_def)

lemma last_of_Some [simp]: "\<exists>y. last_of (Some w) xs = Some y"
  by (simp add: last_of_def)

lemma last_of_append [simp]: "last_of p (xs @ ys) = last_of (last_of p xs) ys"
  by (simp add: last_of_def)

lemma first_of_append [simp]: "first_of n (xs @ ys) = first_of (first_of n ys) xs"
  by (cases xs) simp_all

lemma dlseg_append: "dlseg h p (xs @ ys) n \<longleftrightarrow> dlseg h p xs (first_of n ys) \<and> dlseg h (last_of p xs) ys n"
  by (induction xs arbitrary: p) auto

lemma dlseg_cong: "(\<And>a. a \<in> set xs \<Longrightarrow> h' a = h a) \<Longrightarrow> dlseg h' p xs n \<longleftrightarrow> dlseg h p xs n"
  by (induction xs arbitrary: p) auto

text \<open>Redirecting the pointers at the two ends of a segment.\<close>

lemma dlseg_set_last_next:
  assumes "dlseg h p (xs @ [a]) n" and "distinct (xs @ [a])"
  shows "dlseg (h(a := (h a)\<lparr>ci_next := n'\<rparr>)) p (xs @ [a]) n'"
proof -
  have "dlseg (h(a := (h a)\<lparr>ci_next := n'\<rparr>)) p xs (Some a) \<longleftrightarrow> dlseg h p xs (Some a)"
    using assms(2) by (intro dlseg_cong) auto
  then show ?thesis using assms(1) by (simp add: dlseg_append)
qed

lemma dlseg_set_first_prev:
  assumes "dlseg h p (a # xs) n" and "distinct (a # xs)"
  shows "dlseg (h(a := (h a)\<lparr>ci_prev := p'\<rparr>)) p' (a # xs) n"
proof -
  have "dlseg (h(a := (h a)\<lparr>ci_prev := p'\<rparr>)) (Some a) xs n \<longleftrightarrow> dlseg h (Some a) xs n"
    using assms(2) by (intro dlseg_cong) auto
  then show ?thesis using assms(1) by simp
qed

lemma set_next_frame [simp]:
  "head_ptr (set_next p n s) = head_ptr s" "tail_ptr (set_next p n s) = tail_ptr s"
  "head_ptr (set_prev p n s) = head_ptr s" "tail_ptr (set_prev p n s) = tail_ptr s"
  "ci_key (heap (set_next p n s) b) = ci_key (heap s b)" "ci_val (heap (set_next p n s) b) = ci_val (heap s b)"
  "ci_key (heap (set_prev p n s) b) = ci_key (heap s b)" "ci_val (heap (set_prev p n s) b) = ci_val (heap s b)"
  by (auto simp: set_next_def set_prev_def split: option.split)

lemma set_next_heap: "p \<noteq> Some b \<Longrightarrow> heap (set_next p n s) b = heap s b"
  "p \<noteq> Some b \<Longrightarrow> heap (set_prev p n s) b = heap s b"
  by (auto simp: set_next_def set_prev_def split: option.split)

lemma unlink_dll:
  assumes "distinct (ys @ a # zs)" and "dlseg (heap s) None (ys @ a # zs) None"
  shows "dlseg (heap (unlink a s)) None (ys @ zs) None" and "heap (unlink a s) a = heap s a"
    and "ci_prev (heap s a) = last_of None ys" and "ci_next (heap s a) = first_of None zs"
proof -
  let ?p = "last_of None ys" and ?n = "first_of None zs"
  let ?s1 = "set_next ?p ?n s"
  have d: "dlseg (heap s) None ys (Some a)" "dlseg (heap s) (Some a) zs None"
    and pn: "ci_prev (heap s a) = ?p" "ci_next (heap s a) = ?n"
    using assms(2) by (simp_all add: dlseg_append)
  then show "ci_prev (heap s a) = last_of None ys" "ci_next (heap s a) = first_of None zs" by simp_all
  have pa: "?p \<noteq> Some a" using assms(1) by (auto simp: last_of_def)
  have na: "?n \<noteq> Some a" using assms(1) by (cases zs) auto
  have pz: "?p \<noteq> Some b" if "b \<in> set zs" for b using that assms(1) last_in_set [of ys]
    by (auto simp: last_of_def disjoint_iff)
  have ny: "?n \<noteq> Some b" if "b \<in> set ys" for b using that assms(1) by (cases zs) auto
  have s1a: "heap ?s1 a = heap s a" using pa by (simp add: set_next_heap)
  have un: "unlink a s = set_prev ?n ?p ?s1" by (simp add: unlink_def pn s1a)
  then show "heap (unlink a s) a = heap s a" using na s1a by (simp add: set_next_heap)
  have ys1: "dlseg (heap ?s1) None ys ?n"
  proof (cases ys rule: rev_cases)
    case (snoc ys' y)
    then show ?thesis
      using dlseg_set_last_next [of "heap s" None ys' y "Some a" ?n] d(1) assms(1) by (simp add: set_next_def)
  qed simp
  have zs1: "dlseg (heap ?s1) (Some a) zs None"
    using d(2) by (subst dlseg_cong [of zs "heap ?s1" "heap s"]) (simp_all add: set_next_heap pz)
  have "dlseg (heap (set_prev ?n ?p ?s1)) None ys ?n"
    using ys1 by (subst dlseg_cong [of ys _ "heap ?s1"]) (simp_all add: set_next_heap ny)
  moreover have "dlseg (heap (set_prev ?n ?p ?s1)) ?p zs None"
  proof (cases zs)
    case (Cons z zs')
    then show ?thesis
      using dlseg_set_first_prev [of "heap ?s1" "Some a" z zs' None ?p] zs1 assms(1) by (simp add: set_prev_def)
  qed simp
  ultimately show "dlseg (heap (unlink a s)) None (ys @ zs) None" by (simp add: un dlseg_append)
qed

lemma unlink_frame [simp]:
  "head_ptr (unlink a s) = head_ptr s" "tail_ptr (unlink a s) = tail_ptr s"
  "ci_key (heap (unlink a s) b) = ci_key (heap s b)" "ci_val (heap (unlink a s) b) = ci_val (heap s b)"
  by (simp_all add: unlink_def Let_def)

lemma remove_item_dll:
  assumes "dll s (ys @ a # zs)"
  shows "dll (remove_item a s) (ys @ zs)"
    and "ci_key (heap (remove_item a s) b) = ci_key (heap s b)"
    and "ci_val (heap (remove_item a s) b) = ci_val (heap s b)"
proof -
  note u = unlink_dll [of ys a zs s]
  have d: "distinct (ys @ a # zs)" "dlseg (heap s) None (ys @ a # zs) None"
    "head_ptr s = first_of None (ys @ a # zs)" "tail_ptr s = last_of None (ys @ a # zs)"
    using assms by (simp_all add: dll_def)
  have r: "remove_item a s = (unlink a s)\<lparr>head_ptr := (if head_ptr s = Some a then ci_next (heap s a) else head_ptr s),
      tail_ptr := (if tail_ptr s = Some a then ci_prev (heap s a) else tail_ptr s)\<rparr>"
    using u(2) [OF d(1,2)] by (simp add: remove_item_def Let_def)
  have hd: "head_ptr s = Some a \<longleftrightarrow> ys = []" using d(1,3) by (cases ys) auto
  have tl: "tail_ptr s = Some a \<longleftrightarrow> zs = []" using d(1,4) by (cases zs rule: rev_cases) auto
  show "dll (remove_item a s) (ys @ zs)"
  proof -
    have "first_of None (ys @ zs) = (if ys = [] then first_of None zs else head_ptr s)"
      using d(3) by (cases ys) simp_all
    moreover have "last_of None (ys @ zs) = (if zs = [] then last_of None ys else tail_ptr s)"
      using d(4) by (cases zs rule: rev_cases) simp_all
    ultimately show ?thesis using d(1) u [OF d(1,2)] hd tl unfolding r dll_def by auto
  qed
  show "ci_key (heap (remove_item a s) b) = ci_key (heap s b)" "ci_val (heap (remove_item a s) b) = ci_val (heap s b)"
    unfolding r by simp_all
qed

lemma link_front_dll:
  assumes "dll s ws" and "a \<notin> set ws"
  shows "dll (link_front a s) (a # ws)"
proof -
  let ?h1 = "(heap s)(a := (heap s a)\<lparr>ci_prev := None, ci_next := head_ptr s\<rparr>)"
  have d: "distinct ws" "dlseg (heap s) None ws None" "head_ptr s = first_of None ws" "tail_ptr s = last_of None ws"
    using assms(1) by (simp_all add: dll_def)
  have h1: "dlseg ?h1 None ws None" using d(2) assms(2) by (subst dlseg_cong [of ws ?h1 "heap s"]) auto
  show ?thesis
  proof (cases ws)
    case Nil
    then show ?thesis using d by (simp add: link_front_def set_prev_def set_next_def dll_def Let_def)
  next
    case (Cons w ws')
    have "w \<noteq> a" using assms(2) Cons by auto
    moreover from dlseg_set_first_prev [of ?h1 None w ws' None "Some a"] h1 d(1) Cons
    have "dlseg (?h1(w := (?h1 w)\<lparr>ci_prev := Some a\<rparr>)) (Some a) ws None" by simp
    ultimately show ?thesis
      using d Cons assms(2) by (simp add: link_front_def set_prev_def set_next_def dll_def Let_def fun_upd_twist)
  qed
qed

lemma link_front_frame [simp]:
  "ci_key (heap (link_front a s) b) = ci_key (heap s b)" "ci_val (heap (link_front a s) b) = ci_val (heap s b)"
  by (simp_all add: link_front_def Let_def)

lemma move_to_front_frame [simp]:
  "ci_key (heap (move_to_front a s) b) = ci_key (heap s b)" "ci_val (heap (move_to_front a s) b) = ci_val (heap s b)"
  by (simp_all add: move_to_front_def Let_def)

lemma move_to_front_dll:
  assumes "dll s (ys @ a # zs)"
  shows "dll (move_to_front a s) (a # ys @ zs)"
proof -
  have d: "distinct (ys @ a # zs)" "dlseg (heap s) None (ys @ a # zs) None"
    "head_ptr s = first_of None (ys @ a # zs)" "tail_ptr s = last_of None (ys @ a # zs)"
    using assms by (simp_all add: dll_def)
  note u = unlink_dll [OF d(1,2)]
  show ?thesis
  proof (cases "ys = []")
    case True
    then show ?thesis using assms d(3) by (simp add: move_to_front_def)
  next
    case False
    then have hd: "head_ptr s \<noteq> Some a" "head_ptr s = first_of None (ys @ zs)" using d(1,3) by (cases ys; auto)+
    have tl: "tail_ptr s = Some a \<longleftrightarrow> zs = []" using d(1,4) by (cases zs rule: rev_cases) auto
    let ?s2 = "if tail_ptr s = Some a then (unlink a s)\<lparr>tail_ptr := ci_prev (heap s a)\<rparr> else unlink a s"
    have "last_of None (ys @ zs) = (if zs = [] then last_of None ys else tail_ptr s)"
      using d(4) by (cases zs rule: rev_cases) simp_all
    then have "dll ?s2 (ys @ zs)" using d(1) u hd tl by (auto simp: dll_def)
    moreover have "a \<notin> set (ys @ zs)" using d(1) by auto
    ultimately have "dll (link_front a ?s2) (a # ys @ zs)" by (rule link_front_dll)
    then show ?thesis using hd(1) u(2) by (cases "tail_ptr s = Some a") (simp_all add: move_to_front_def Let_def)
  qed
qed

text \<open>A new item, whose pointers are nil, is linked at the front.\<close>

lemma move_to_front_new:
  assumes "dll s ws" and "a \<notin> set ws" and "ci_prev (heap s a) = None" "ci_next (heap s a) = None"
  shows "dll (move_to_front a s) (a # ws)"
proof -
  have "head_ptr s \<noteq> Some a" "tail_ptr s \<noteq> Some a"
    using assms(1,2) last_in_set [of ws] by (cases ws; auto simp: dll_def last_of_def split: if_splits)+
  moreover have "unlink a s = s" using assms(3,4) by (simp add: unlink_def set_next_def set_prev_def)
  ultimately show ?thesis using link_front_dll [OF assms(1,2)] by (simp add: move_to_front_def)
qed

end
