(* ===== verification/Lru_Cache.thy ===== *)
theory Lru_Cache
  imports Linked_List Prelude "HOL-Library.AList"
begin

text \<open>
  The count-bounded cache of \<open>src/cache/cache.go\<close>: \<open>lruCache\<close> over the linked recency list. Its map
  from keys to items holds addresses; a new item gets a fresh address.

  \<open>lru_rep c xs\<close> says that the cache holds the pairs \<open>xs\<close>, most recently used first. Every operation
  refines the corresponding operation on that list (\<open>lru_refines\<close>), and through the contract
  \<open>cache_contract\<close> a lookup after a store returns the stored value.
\<close>

section \<open>The list a cache stands for\<close>

definition drop_key :: "'k \<Rightarrow> ('k \<times> 'v) list \<Rightarrow> ('k \<times> 'v) list" where
  "drop_key k xs = filter (\<lambda>p. fst p \<noteq> k) xs"

definition touch :: "'k \<Rightarrow> ('k \<times> 'v) list \<Rightarrow> ('k \<times> 'v) list" where
  "touch k xs = (case map_of xs k of None \<Rightarrow> xs | Some v \<Rightarrow> (k, v) # drop_key k xs)"

lemma map_of_drop_key: "map_of (drop_key k xs) k' = (if k' = k then None else map_of xs k')"
  by (induction xs) (auto simp: drop_key_def)

locale cache_contract =
  fixes rep :: "'s \<Rightarrow> ('k \<times> 'v) list \<Rightarrow> bool"
    and get :: "'k \<Rightarrow> 's \<Rightarrow> 'v option \<times> 's"
    and put :: "'k \<Rightarrow> 'v \<Rightarrow> 's \<Rightarrow> 's"
    and accepts :: "'s \<Rightarrow> 'v \<Rightarrow> bool"
  assumes get_law: "rep s xs \<Longrightarrow> fst (get k s) = map_of xs k \<and> rep (snd (get k s)) (touch k xs)"
    and put_law: "rep s xs \<Longrightarrow> accepts s v \<Longrightarrow>
      \<exists>n. 0 < n \<and> rep (put k v s) (take n ((k, v) # drop_key k xs))"
begin

lemma put_get:
  assumes "rep s xs" and "accepts s v"
  shows "fst (get k (put k v s)) = Some v"
proof -
  obtain n where "0 < n" "rep (put k v s) (take n ((k, v) # drop_key k xs))" using put_law [OF assms] by blast
  then show ?thesis using get_law [of "put k v s" _ k] by (cases n) auto
qed

text \<open>A lookup never returns a stale value: another key keeps its value or has been evicted.\<close>

lemma put_get_other:
  assumes "rep s xs" and "accepts s v" and "k' \<noteq> k"
  shows "fst (get k' (put k v s)) \<in> {None, fst (get k' s)}"
proof -
  obtain n where n: "0 < n" "rep (put k v s) (take n ((k, v) # drop_key k xs))" using put_law [OF assms(1,2)] by blast
  have "map_of (take n ys) k' = None \<or> map_of (take n ys) k' = map_of ys k'" for ys :: "('k \<times> 'v) list"
  proof (induction ys arbitrary: n)
    case (Cons y ys)
    then show ?case by (cases n) auto
  qed simp
  then show ?thesis
    using get_law [OF n(2), of k'] get_law [OF assms(1), of k'] map_of_drop_key [of k xs k'] assms(3)
    by (metis insertCI map_of_Cons_code(2))
qed

end

section \<open>State and operations\<close>

record ('k, 'v) lru_cache =
  lc_capacity :: nat
  lc_items :: "('k \<times> addr) list"
  lc_list :: "('k, 'v) recency"
  lc_fresh :: addr
  lc_hits :: u64
  lc_misses :: u64
  lc_evictions :: u64

definition empty_recency :: "(addr \<Rightarrow> ('k, 'v) cache_item) \<Rightarrow> ('k, 'v) recency" where
  "empty_recency h = \<lparr>heap = h, head_ptr = None, tail_ptr = None\<rparr>"

definition new_lru_cache :: "(addr \<Rightarrow> ('k, 'v) cache_item) \<Rightarrow> int \<Rightarrow> ('k, 'v) lru_cache result" where
  "new_lru_cache h items =
     (if items \<le> 0 then Inl (Err ''invalid cache capacity'')
      else Inr \<lparr>lc_capacity = nat items, lc_items = [], lc_list = empty_recency h, lc_fresh = 0,
        lc_hits = 0, lc_misses = 0, lc_evictions = 0\<rparr>)"

definition lru_get :: "'k \<Rightarrow> ('k, 'v) lru_cache \<Rightarrow> 'v option \<times> ('k, 'v) lru_cache" where
  "lru_get k c =
     (case map_of (lc_items c) k of
        None \<Rightarrow> (None, c\<lparr>lc_misses := lc_misses c + 1\<rparr>)
      | Some a \<Rightarrow>
          let l = move_to_front a (lc_list c)
          in (Some (ci_val (heap l a)), c\<lparr>lc_list := l, lc_hits := lc_hits c + 1\<rparr>))"

definition lru_evict :: "('k, 'v) lru_cache \<Rightarrow> ('k, 'v) lru_cache" where
  "lru_evict c =
     (case tail_ptr (lc_list c) of
        None \<Rightarrow> c
      | Some t \<Rightarrow>
          let l = remove_item t (lc_list c)
          in c\<lparr>lc_list := l, lc_items := AList.delete (ci_key (heap l t)) (lc_items c), lc_evictions := lc_evictions c + 1\<rparr>)"

definition lru_set :: "'k \<Rightarrow> 'v \<Rightarrow> ('k, 'v) lru_cache \<Rightarrow> ('k, 'v) lru_cache" where
  "lru_set k v c =
     (case map_of (lc_items c) k of
        Some a \<Rightarrow>
          let l = (lc_list c)\<lparr>heap := (heap (lc_list c))(a := (heap (lc_list c) a)\<lparr>ci_val := v\<rparr>)\<rparr>
          in c\<lparr>lc_list := move_to_front a l\<rparr>
      | None \<Rightarrow>
          let a = lc_fresh c;
              l = (lc_list c)\<lparr>heap := (heap (lc_list c))(a := \<lparr>ci_key = k, ci_val = v, ci_prev = None, ci_next = None\<rparr>)\<rparr>;
              c1 = c\<lparr>lc_fresh := a + 1, lc_items := AList.update k a (lc_items c), lc_list := move_to_front a l\<rparr>
          in if length (lc_items c1) > lc_capacity c1 then lru_evict c1 else c1)"

definition lru_delete :: "'k \<Rightarrow> ('k, 'v) lru_cache \<Rightarrow> ('k, 'v) lru_cache" where
  "lru_delete k c =
     (case map_of (lc_items c) k of
        None \<Rightarrow> c
      | Some a \<Rightarrow> c\<lparr>lc_list := remove_item a (lc_list c), lc_items := AList.delete k (lc_items c)\<rparr>)"

definition lru_clear :: "('k, 'v) lru_cache \<Rightarrow> ('k, 'v) lru_cache" where
  "lru_clear c = c\<lparr>lc_items := [], lc_list := (lc_list c)\<lparr>head_ptr := None, tail_ptr := None\<rparr>\<rparr>"

definition lru_size :: "('k, 'v) lru_cache \<Rightarrow> nat" where
  "lru_size c = length (lc_items c)"

section \<open>Refinement\<close>

text \<open>
  The addresses \<open>as\<close> of a recency list with their keys and payloads; the map of the cache lists
  exactly these.
\<close>

definition item_pairs :: "('k, 'v) recency \<Rightarrow> addr list \<Rightarrow> ('k \<times> 'v) list" where
  "item_pairs l as = map (\<lambda>a. (ci_key (heap l a), ci_val (heap l a))) as"

definition index_ok :: "('k \<times> addr) list \<Rightarrow> ('k, 'v) recency \<Rightarrow> addr list \<Rightarrow> bool" where
  "index_ok items l as \<longleftrightarrow> distinct (map fst items) \<and> distinct (map (ci_key \<circ> heap l) as) \<and>
     set items = (\<lambda>a. (ci_key (heap l a), a)) ` set as"

definition lru_rep :: "('k, 'v) lru_cache \<Rightarrow> ('k \<times> 'v) list \<Rightarrow> bool" where
  "lru_rep c xs \<longleftrightarrow> (\<exists>as. dll (lc_list c) as \<and> index_ok (lc_items c) (lc_list c) as \<and>
     xs = item_pairs (lc_list c) as \<and> (\<forall>a \<in> set as. a < lc_fresh c) \<and>
     length xs \<le> lc_capacity c \<and> 0 < lc_capacity c)"

lemma index_ok_lookup:
  assumes "index_ok items l as"
  shows "map_of items k = Some a \<longleftrightarrow> a \<in> set as \<and> ci_key (heap l a) = k"
    and "map_of items k = None \<longleftrightarrow> k \<notin> (ci_key \<circ> heap l) ` set as"
proof -
  have d: "distinct (map fst items)" "set items = (\<lambda>a. (ci_key (heap l a), a)) ` set as"
    using assms by (simp_all add: index_ok_def)
  show "map_of items k = Some a \<longleftrightarrow> a \<in> set as \<and> ci_key (heap l a) = k"
    using map_of_eq_Some_iff [OF d(1)] d(2) by auto
  have "fst ` set items = (ci_key \<circ> heap l) ` set as" unfolding d(2) by (simp add: image_image)
  then show "map_of items k = None \<longleftrightarrow> k \<notin> (ci_key \<circ> heap l) ` set as" by (simp add: map_of_eq_None_iff)
qed

lemma index_ok_length:
  assumes "index_ok items l as"
  shows "length items = length as"
proof -
  have d: "distinct items" "distinct as" "inj_on (\<lambda>a. (ci_key (heap l a), a)) (set as)"
    using assms by (auto simp: index_ok_def distinct_map inj_on_def)
  have "length items = card (set items)" using d(1) by (simp add: distinct_card)
  also have "\<dots> = card (set as)" using assms d(3) by (simp add: index_ok_def card_image)
  finally show ?thesis using d(2) by (simp add: distinct_card)
qed

lemma index_ok_cong:
  assumes "index_ok items l as" and "set as' = set as" and "length as' = length as"
    and "\<And>a. ci_key (heap l' a) = ci_key (heap l a)"
  shows "index_ok items l' as'"
proof -
  have keys: "ci_key \<circ> heap l' = ci_key \<circ> heap l" using assms(4) by (simp add: fun_eq_iff)
  have d: "distinct (map fst items)" "set items = (\<lambda>a. (ci_key (heap l a), a)) ` set as"
    "distinct (map (ci_key \<circ> heap l) as)" using assms(1) by (simp_all add: index_ok_def)
  then have "distinct as" "inj_on (ci_key \<circ> heap l) (set as)" by (simp_all add: distinct_map)
  note d = d(1,2) this
  then have "distinct as'" using assms(2,3) by (metis card_distinct distinct_card)
  then show ?thesis unfolding index_ok_def keys using d(1,2,4) assms(2,4) by (simp add: distinct_map [of _ as'])
qed

lemma index_ok_delete:
  assumes "index_ok items l (ys @ a # zs)" and "\<And>b. ci_key (heap l' b) = ci_key (heap l b)"
  shows "index_ok (AList.delete (ci_key (heap l a)) items) l' (ys @ zs)"
proof -
  have keys: "ci_key \<circ> heap l' = ci_key \<circ> heap l" using assms(2) by (simp add: fun_eq_iff)
  have "distinct (map (ci_key \<circ> heap l) (ys @ a # zs))" "set items = (\<lambda>b. (ci_key (heap l b), b)) ` set (ys @ a # zs)"
    "distinct (map fst items)" using assms(1) by (simp_all add: index_ok_def)
  then show ?thesis
    unfolding index_ok_def keys assms(2) by (auto simp: AList.delete_eq distinct_map_filter image_iff)
qed

lemma map_of_item_pairs:
  assumes "distinct (map (ci_key \<circ> heap l) as)"
  shows "a \<in> set as \<Longrightarrow> map_of (item_pairs l as) (ci_key (heap l a)) = Some (ci_val (heap l a))"
    and "k \<notin> (ci_key \<circ> heap l) ` set as \<Longrightarrow> map_of (item_pairs l as) k = None"
proof -
  have "map fst (item_pairs l as) = map (ci_key \<circ> heap l) as" by (simp add: item_pairs_def)
  then have d: "distinct (map fst (item_pairs l as))" using assms by simp
  show "a \<in> set as \<Longrightarrow> map_of (item_pairs l as) (ci_key (heap l a)) = Some (ci_val (heap l a))"
    using map_of_eq_Some_iff [OF d] by (simp add: item_pairs_def)
  show "k \<notin> (ci_key \<circ> heap l) ` set as \<Longrightarrow> map_of (item_pairs l as) k = None"
    by (auto simp: map_of_eq_None_iff item_pairs_def)
qed

lemma drop_key_pairs:
  assumes "distinct (map (ci_key \<circ> heap l) (ys @ a # zs))"
  shows "drop_key (ci_key (heap l a)) (item_pairs l (ys @ a # zs)) = item_pairs l (ys @ zs)"
proof -
  have "\<forall>b \<in> set (ys @ zs). ci_key (heap l b) \<noteq> ci_key (heap l a)" using assms by (auto simp: image_iff)
  then show ?thesis by (simp add: drop_key_def item_pairs_def filter_map o_def)
qed

lemma drop_key_absent: "k \<notin> (ci_key \<circ> heap l) ` set as \<Longrightarrow> drop_key k (item_pairs l as) = item_pairs l as"
  by (auto simp: drop_key_def item_pairs_def filter_id_conv)

lemma item_pairs_cong:
  "(\<And>a. a \<in> set as \<Longrightarrow> ci_key (heap l' a) = ci_key (heap l a) \<and> ci_val (heap l' a) = ci_val (heap l a)) \<Longrightarrow>
    item_pairs l' as = item_pairs l as"
  by (simp add: item_pairs_def)

lemma dll_distinct: "dll l as \<Longrightarrow> distinct as"
  by (simp add: dll_def)

lemma lru_get_rep:
  assumes "lru_rep c xs"
  shows "fst (lru_get k c) = map_of xs k \<and> lru_rep (snd (lru_get k c)) (touch k xs)"
proof -
  obtain as where as: "dll (lc_list c) as" "index_ok (lc_items c) (lc_list c) as"
    "xs = item_pairs (lc_list c) as" "\<forall>a \<in> set as. a < lc_fresh c" "length xs \<le> lc_capacity c" "0 < lc_capacity c"
    using assms by (auto simp: lru_rep_def)
  have dk: "distinct (map (ci_key \<circ> heap (lc_list c)) as)" using as(2) by (simp add: index_ok_def)
  show ?thesis
  proof (cases "map_of (lc_items c) k")
    case None
    then have "map_of xs k = None" using as(3) map_of_item_pairs(2) [OF dk] index_ok_lookup(2) [OF as(2)] by simp
    moreover have "lru_rep (c\<lparr>lc_misses := lc_misses c + 1\<rparr>) xs" using as by (auto simp: lru_rep_def)
    ultimately show ?thesis using None by (simp add: lru_get_def touch_def)
  next
    case (Some a)
    then have a: "a \<in> set as" "ci_key (heap (lc_list c) a) = k" using index_ok_lookup(1) [OF as(2)] by simp_all
    then obtain ys zs where sp: "as = ys @ a # zs" by (meson split_list)
    let ?l = "move_to_front a (lc_list c)"
    have dll: "dll ?l (a # ys @ zs)" using move_to_front_dll as(1) sp by blast
    have v: "map_of xs k = Some (ci_val (heap (lc_list c) a))"
      using map_of_item_pairs(1) [OF dk a(1)] a(2) as(3) by simp
    have "touch k xs = (k, ci_val (heap (lc_list c) a)) # item_pairs (lc_list c) (ys @ zs)"
      using v drop_key_pairs [of "lc_list c" ys a zs] dk sp a(2) as(3) by (simp add: touch_def)
    also have "\<dots> = item_pairs ?l (a # ys @ zs)" using a(2) by (simp add: item_pairs_def)
    finally have "touch k xs = item_pairs ?l (a # ys @ zs)" .
    moreover have "index_ok (lc_items c) ?l (a # ys @ zs)"
      using as(2) sp by (intro index_ok_cong [OF as(2)]) auto
    moreover have "length (item_pairs ?l (a # ys @ zs)) = length xs" using as(3) sp by (simp add: item_pairs_def)
    ultimately have "lru_rep (c\<lparr>lc_list := ?l, lc_hits := lc_hits c + 1\<rparr>) (touch k xs)"
      using dll as(4-6) sp unfolding lru_rep_def by (intro exI [of _ "a # ys @ zs"]) auto
    then show ?thesis using Some v by (simp add: lru_get_def Let_def)
  qed
qed

text \<open>The parts of the invariant that do not bound the number of items.\<close>

definition lru_parts :: "('k, 'v) lru_cache \<Rightarrow> addr list \<Rightarrow> bool" where
  "lru_parts c as \<longleftrightarrow> dll (lc_list c) as \<and> index_ok (lc_items c) (lc_list c) as \<and> (\<forall>a \<in> set as. a < lc_fresh c)"

lemma lru_evict_parts:
  assumes "lru_parts c (as @ [t])"
  shows "lru_parts (lru_evict c) as \<and> item_pairs (lc_list (lru_evict c)) as = item_pairs (lc_list c) as \<and>
    lc_capacity (lru_evict c) = lc_capacity c"
proof -
  let ?l = "remove_item t (lc_list c)"
  have p: "dll (lc_list c) (as @ [t])" "index_ok (lc_items c) (lc_list c) (as @ [t])" "\<forall>a \<in> set (as @ [t]). a < lc_fresh c"
    using assms by (simp_all add: lru_parts_def)
  then have "tail_ptr (lc_list c) = Some t" by (simp add: dll_def)
  moreover note r = remove_item_dll [of "lc_list c" as t "[]", OF p(1)]
  moreover have "index_ok (AList.delete (ci_key (heap (lc_list c) t)) (lc_items c)) ?l as"
    using index_ok_delete [of "lc_items c" "lc_list c" as t "[]" ?l] p(2) r(2) by simp
  moreover have "item_pairs ?l as = item_pairs (lc_list c) as" using r(2,3) by (intro item_pairs_cong) simp
  ultimately show ?thesis using p(3) by (simp add: lru_evict_def lru_parts_def Let_def)
qed

lemma new_item_dll:
  assumes "dll l as" and "a \<notin> set as"
  shows "dll (l\<lparr>heap := (heap l)(a := i)\<rparr>) as"
proof -
  have "dlseg ((heap l)(a := i)) None as None \<longleftrightarrow> dlseg (heap l) None as None"
    using assms(2) by (intro dlseg_cong) auto
  then show ?thesis using assms(1) by (simp add: dll_def)
qed

lemma alist_update_new: "k \<notin> fst ` set xs \<Longrightarrow> AList.update k v xs = xs @ [(k, v)]"
  by (induction xs) auto

lemma lru_insert_parts:
  fixes c :: "('k, 'v) lru_cache" and v :: 'v
  assumes "lru_parts c as" and "map_of (lc_items c) k = None"
  defines "a \<equiv> lc_fresh c"
  defines "l \<equiv> (lc_list c)\<lparr>heap := (heap (lc_list c))(a := \<lparr>ci_key = k, ci_val = v, ci_prev = None, ci_next = None\<rparr>)\<rparr>"
  defines "c1 \<equiv> c\<lparr>lc_fresh := a + 1, lc_items := AList.update k a (lc_items c), lc_list := move_to_front a l\<rparr>"
  shows "lru_parts c1 (a # as)" and "item_pairs (lc_list c1) (a # as) = (k, v) # item_pairs (lc_list c) as"
proof -
  have p: "dll (lc_list c) as" "index_ok (lc_items c) (lc_list c) as" "\<forall>b \<in> set as. b < a"
    using assms(1) by (simp_all add: lru_parts_def a_def)
  have na: "a \<notin> set as" using p(3) by auto
  have "dll l as" unfolding l_def by (rule new_item_dll [OF p(1) na])
  then have dll: "dll (move_to_front a l) (a # as)" using na by (rule move_to_front_new) (simp_all add: l_def)
  have k: "k \<notin> (ci_key \<circ> heap (lc_list c)) ` set as" using index_ok_lookup(2) [OF p(2)] assms(2) by simp
  have same: "heap l b = heap (lc_list c) b" if "b \<in> set as" for b using na that by (auto simp: l_def)
  have items: "AList.update k a (lc_items c) = lc_items c @ [(k, a)]"
    using assms(2) by (intro alist_update_new) (simp add: map_of_eq_None_iff)
  show "item_pairs (lc_list c1) (a # as) = (k, v) # item_pairs (lc_list c) as"
    using same by (simp add: c1_def item_pairs_def l_def)
  let ?key = "\<lambda>b. ci_key (heap (move_to_front a l) b)"
  have key: "?key a = k" "\<And>b. b \<in> set as \<Longrightarrow> ?key b = ci_key (heap (lc_list c) b)" using same by (simp_all add: l_def)
  then have "map ?key as = map (ci_key \<circ> heap (lc_list c)) as"
    "(\<lambda>b. (?key b, b)) ` set as = (\<lambda>b. (ci_key (heap (lc_list c) b), b)) ` set as" "k \<notin> ?key ` set as"
    using k by (auto simp: image_iff)
  then have "index_ok (lc_items c @ [(k, a)]) (move_to_front a l) (a # as)"
    using p(2) assms(2) key(1) by (simp add: index_ok_def map_of_eq_None_iff o_def cong: map_cong)
  then show "lru_parts c1 (a # as)" using dll p(3) items by (auto simp: lru_parts_def c1_def)
qed

lemma item_pairs_Cons_snoc:
  "item_pairs l (as @ [t]) = item_pairs l as @ [(ci_key (heap l t), ci_val (heap l t))]"
  "length (item_pairs l as) = length as"
  by (simp_all add: item_pairs_def)

lemma lru_rep_parts:
  "lru_rep c xs \<longleftrightarrow> (\<exists>as. lru_parts c as \<and> xs = item_pairs (lc_list c) as) \<and> length xs \<le> lc_capacity c \<and> 0 < lc_capacity c"
  by (auto simp: lru_rep_def lru_parts_def)

lemma lru_set_new:
  assumes "lru_rep c xs" and "map_of (lc_items c) k = None"
  shows "lru_rep (lru_set k v c) (take (lc_capacity c) ((k, v) # xs)) \<and> drop_key k xs = xs"
proof -
  obtain as where as: "lru_parts c as" "xs = item_pairs (lc_list c) as" "length xs \<le> lc_capacity c" "0 < lc_capacity c"
    using assms(1) by (auto simp: lru_rep_parts)
  let ?a = "lc_fresh c"
  let ?l = "(lc_list c)\<lparr>heap := (heap (lc_list c))(?a := \<lparr>ci_key = k, ci_val = v, ci_prev = None, ci_next = None\<rparr>)\<rparr>"
  let ?c = "c\<lparr>lc_fresh := ?a + 1, lc_items := AList.update k ?a (lc_items c), lc_list := move_to_front ?a ?l\<rparr>"
  note ins = lru_insert_parts [OF as(1) assms(2), of v]
  have set: "lru_set k v c = (if length (lc_items ?c) > lc_capacity c then lru_evict ?c else ?c)"
    using assms(2) by (simp add: lru_set_def Let_def)
  have len: "length (lc_items ?c) = Suc (length xs)"
    using index_ok_length [of "lc_items ?c" "lc_list ?c" "?a # as"] ins(1) as(2) by (simp add: lru_parts_def item_pairs_Cons_snoc)
  have "drop_key k xs = xs"
    using as(1,2) assms(2) by (auto simp: lru_parts_def index_ok_lookup(2) intro!: drop_key_absent)
  moreover have "lru_rep (lru_set k v c) (take (lc_capacity c) ((k, v) # xs))"
  proof (cases "length xs < lc_capacity c")
    case True
    then have "lru_set k v c = ?c" using set len by simp
    then show ?thesis using True ins as(2,4) by (auto simp: lru_rep_parts)
  next
    case False
    then have full: "length xs = lc_capacity c" using as(3) by simp
    obtain bs t where bs: "?a # as = bs @ [t]" by (metis append_butlast_last_id list.distinct(1))
    note ev = lru_evict_parts [of ?c bs t, folded bs, OF ins(1)]
    have "(k, v) # xs = item_pairs (lc_list ?c) bs @ [(ci_key (heap (lc_list ?c) t), ci_val (heap (lc_list ?c) t))]"
      using ins(2) as(2) bs by (simp only: item_pairs_Cons_snoc)
    moreover have "length bs = lc_capacity c" using arg_cong [OF bs, of length] full as(2) by (simp add: item_pairs_Cons_snoc)
    ultimately have "take (lc_capacity c) ((k, v) # xs) = item_pairs (lc_list ?c) bs" by (simp add: item_pairs_Cons_snoc)
    moreover have "lru_set k v c = lru_evict ?c" using set len full by simp
    ultimately show ?thesis using ev as(4) \<open>length bs = _\<close> by (auto simp: lru_rep_parts item_pairs_Cons_snoc)
  qed
  ultimately show ?thesis by simp
qed

lemma lru_set_old:
  assumes "lru_rep c xs" and "map_of (lc_items c) k = Some a"
  shows "lru_rep (lru_set k v c) (take (lc_capacity c) ((k, v) # drop_key k xs))"
proof -
  obtain as where as: "lru_parts c as" "xs = item_pairs (lc_list c) as" "length xs \<le> lc_capacity c" "0 < lc_capacity c"
    using assms(1) by (auto simp: lru_rep_parts)
  then have p: "dll (lc_list c) as" "index_ok (lc_items c) (lc_list c) as" by (simp_all add: lru_parts_def)
  have a: "a \<in> set as" "ci_key (heap (lc_list c) a) = k" using assms(2) index_ok_lookup(1) [OF p(2)] by simp_all
  then obtain ys zs where sp: "as = ys @ a # zs" by (meson split_list)
  let ?l = "(lc_list c)\<lparr>heap := (heap (lc_list c))(a := (heap (lc_list c) a)\<lparr>ci_val := v\<rparr>)\<rparr>"
  have key: "ci_key (heap ?l b) = ci_key (heap (lc_list c) b)" for b by simp
  have "dlseg (heap ?l) p bs n \<longleftrightarrow> dlseg (heap (lc_list c)) p bs n" for p bs n
    by (induction bs arbitrary: p) auto
  then have "dll ?l as" using p(1) by (simp add: dll_def)
  then have dll: "dll (move_to_front a ?l) (a # ys @ zs)" using move_to_front_dll sp by blast
  have idx: "index_ok (lc_items c) (move_to_front a ?l) (a # ys @ zs)"
    using sp by (intro index_ok_cong [OF p(2)]) auto
  have dk: "distinct (map (ci_key \<circ> heap (lc_list c)) (ys @ a # zs))" using p(2) sp by (simp add: index_ok_def)
  then have na: "a \<notin> set (ys @ zs)" by (auto simp: distinct_map)
  have "item_pairs (move_to_front a ?l) (a # ys @ zs) = (k, v) # item_pairs (lc_list c) (ys @ zs)"
    using a(2) na by (auto simp: item_pairs_def)
  also have "\<dots> = (k, v) # drop_key k xs" using drop_key_pairs [OF dk] a(2) as(2) sp by simp
  finally have eq: "item_pairs (move_to_front a ?l) (a # ys @ zs) = (k, v) # drop_key k xs" .
  have "length ((k, v) # drop_key k xs) = length xs"
    using arg_cong [OF eq, of length] as(2) sp by (simp add: item_pairs_Cons_snoc)
  then have "take (lc_capacity c) ((k, v) # drop_key k xs) = (k, v) # drop_key k xs" using as(3) by (intro take_all) simp
  moreover have "lru_set k v c = c\<lparr>lc_list := move_to_front a ?l\<rparr>" using assms(2) by (simp add: lru_set_def Let_def)
  moreover have "lru_parts (c\<lparr>lc_list := move_to_front a ?l\<rparr>) (a # ys @ zs)"
    using dll idx as(1) sp by (auto simp: lru_parts_def)
  ultimately show ?thesis using eq as(3,4) \<open>length _ = length xs\<close> by (auto simp: lru_rep_parts)
qed

lemma lru_delete_rep:
  assumes "lru_rep c xs"
  shows "lru_rep (lru_delete k c) (drop_key k xs)"
proof -
  obtain as where as: "lru_parts c as" "xs = item_pairs (lc_list c) as" "length xs \<le> lc_capacity c" "0 < lc_capacity c"
    using assms(1) by (auto simp: lru_rep_parts)
  then have p: "dll (lc_list c) as" "index_ok (lc_items c) (lc_list c) as" by (simp_all add: lru_parts_def)
  show ?thesis
  proof (cases "map_of (lc_items c) k")
    case None
    then have "drop_key k xs = xs" using index_ok_lookup(2) [OF p(2)] as(2) by (simp add: drop_key_absent)
    then show ?thesis using None assms by (simp add: lru_delete_def)
  next
    case (Some a)
    then have a: "a \<in> set as" "ci_key (heap (lc_list c) a) = k" using index_ok_lookup(1) [OF p(2)] by simp_all
    then obtain ys zs where sp: "as = ys @ a # zs" by (meson split_list)
    let ?l = "remove_item a (lc_list c)"
    note r = remove_item_dll [of "lc_list c" ys a zs, folded sp, OF p(1)]
    have "distinct (map (ci_key \<circ> heap (lc_list c)) (ys @ a # zs))" using p(2) sp by (simp add: index_ok_def)
    then have "drop_key k xs = item_pairs (lc_list c) (ys @ zs)" using drop_key_pairs a(2) as(2) sp by blast
    also have "\<dots> = item_pairs ?l (ys @ zs)" using r(2,3) by (simp add: item_pairs_def)
    finally have eq: "drop_key k xs = item_pairs ?l (ys @ zs)" .
    have "index_ok (AList.delete k (lc_items c)) ?l (ys @ zs)"
      using index_ok_delete [of "lc_items c" "lc_list c" ys a zs ?l] p(2) sp r(2) a(2) by simp
    then have "lru_parts (lru_delete k c) (ys @ zs)" "lc_list (lru_delete k c) = ?l" "lc_capacity (lru_delete k c) = lc_capacity c"
      using Some r(1) as(1) sp by (auto simp: lru_parts_def lru_delete_def)
    moreover have "length (drop_key k xs) \<le> length xs" by (simp add: drop_key_def)
    ultimately show ?thesis using eq as(3,4) by (auto simp: lru_rep_parts)
  qed
qed

lemma lru_clear_rep: "lru_rep c xs \<Longrightarrow> lru_rep (lru_clear c) []"
  by (auto simp: lru_rep_def lru_clear_def dll_def index_ok_def item_pairs_def)

interpretation lru: cache_contract lru_rep lru_get lru_set "\<lambda>c v. True"
proof
  fix s :: "('a, 'b) lru_cache" and xs k
  assume "lru_rep s xs"
  then show "fst (lru_get k s) = map_of xs k \<and> lru_rep (snd (lru_get k s)) (touch k xs)" by (rule lru_get_rep)
next
  fix s :: "('a, 'b) lru_cache" and xs k v
  assume rep: "lru_rep s xs"
  then have "0 < lc_capacity s" by (simp add: lru_rep_parts)
  moreover have "lru_rep (lru_set k v s) (take (lc_capacity s) ((k, v) # drop_key k xs))"
    using lru_set_new [OF rep, of k v] lru_set_old [OF rep, of k _ v] by (cases "map_of (lc_items s) k") simp_all
  ultimately show "\<exists>n. 0 < n \<and> lru_rep (lru_set k v s) (take n ((k, v) # drop_key k xs))" by blast
qed

lemma lru_set_rep:
  "lru_rep c xs \<Longrightarrow> lru_rep (lru_set k v c) (take (lc_capacity c) ((k, v) # drop_key k xs))"
  using lru_set_new [of c xs k v] lru_set_old [of c xs k _ v] by (cases "map_of (lc_items c) k") simp_all

lemma lru_new_rep: "0 < n \<Longrightarrow> \<exists>c. new_lru_cache h n = Inr c \<and> lru_rep c [] \<and> lc_capacity c = nat n"
  by (simp add: new_lru_cache_def lru_rep_def empty_recency_def dll_def index_ok_def item_pairs_def)

section \<open>Properties\<close>

text \<open>
  C14: The pointer operations of the cache refine a list of pairs, most recently used first: a lookup
  returns the pair's value and moves it to the front, a store puts the pair in front and drops what
  exceeds the capacity from the end, a deletion removes the pair, and the size never exceeds the
  capacity.
\<close>

theorem lru_operations_refine:
  assumes "lru_rep c xs"
  shows "fst (lru_get k c) = map_of xs k \<and> lru_rep (snd (lru_get k c)) (touch k xs) \<and>
    lru_rep (lru_set k v c) (take (lc_capacity c) ((k, v) # drop_key k xs)) \<and>
    lru_rep (lru_delete k c) (drop_key k xs) \<and> lru_rep (lru_clear c) [] \<and>
    lru_size c = length xs \<and> lru_size c \<le> lc_capacity c"
proof -
  obtain as where "lru_parts c as" "xs = item_pairs (lc_list c) as" "length xs \<le> lc_capacity c"
    using assms by (auto simp: lru_rep_parts)
  then have "lru_size c = length xs" "length xs \<le> lc_capacity c"
    using index_ok_length [of "lc_items c" "lc_list c" as] by (simp_all add: lru_size_def lru_parts_def item_pairs_Cons_snoc)
  then show ?thesis
    using lru_get_rep [OF assms] lru_set_rep [OF assms] lru_delete_rep [OF assms] lru_clear_rep [OF assms] by simp
qed

theorem lru_operations_refine_witness:
  "\<exists>c :: (nat, nat) lru_cache. lru_rep (lru_set 1 10 c) [(1, 10)] \<and> lru_size c = 0"
proof -
  obtain c :: "(nat, nat) lru_cache" where c: "lru_rep c []" "lc_capacity c = 2"
    using lru_new_rep [of 2 "\<lambda>_. \<lparr>ci_key = 0, ci_val = 0, ci_prev = None, ci_next = None\<rparr>"] by auto
  from lru_operations_refine [OF c(1), of 1 10] c(2) show ?thesis by (auto simp: drop_key_def)
qed

text \<open>
  A lookup after a store returns the stored value, and a lookup of another key returns the value
  it had or nothing.
\<close>

theorem lru_set_get:
  assumes "lru_rep c xs"
  shows "fst (lru_get k (lru_set k v c)) = Some v \<and>
    (k' \<noteq> k \<longrightarrow> fst (lru_get k' (lru_set k v c)) \<in> {None, fst (lru_get k' c)})"
  using lru.put_get [OF assms] lru.put_get_other [OF assms] by blast

theorem lru_set_get_witness:
  "\<exists>c :: (nat, nat) lru_cache. fst (lru_get 3 (lru_set 3 30 c)) = Some 30"
proof -
  obtain c :: "(nat, nat) lru_cache" where "lru_rep c []"
    using lru_new_rep [of 2 "\<lambda>_. \<lparr>ci_key = 0, ci_val = 0, ci_prev = None, ci_next = None\<rparr>"] by auto
  from lru_set_get [OF this, of 3 30] show ?thesis by blast
qed

end
