(* ===== verification/Hash_Ring.thy ===== *)
theory Hash_Ring
  imports Prelude "HOL-Library.AList" "HOL-Library.Multiset" "HOL-Library.List_Lexorder"
begin

text \<open>
  Consistent hashing: \<open>src/shard/hash_ring.go\<close>. The ring is a map from hashes to node names and the
  sorted list of all hashes ever added. \<open>sha\<close> stands for \<open>sha256.Sum256\<close>: every result holds for any
  hash function.

  Results: \<open>GetNode\<close> returns the owner of the next hash on the ring (\<open>get_node_successor\<close>); adding a
  node moves keys only to that node, removing one moves only its own keys, provided no two virtual
  nodes share a hash; and a node that was added twice leaves hashes without an owner behind when it
  is removed.
\<close>

section \<open>State and operations\<close>

record hash_ring =
  hr_nodes :: "(u32 \<times> bytes) list"
  hr_hashes :: "u32 list"
  hr_virtual :: nat

definition new_hash_ring :: "int \<Rightarrow> hash_ring" where
  "new_hash_ring virtualNodes =
     \<lparr>hr_nodes = [], hr_hashes = [], hr_virtual = nat (if virtualNodes \<le> 0 then 150 else virtualNodes)\<rparr>"

text \<open>\<open>fmt.Sprintf("%s#%d", nodeID, i)\<close>.\<close>

definition virtual_key :: "bytes \<Rightarrow> nat \<Rightarrow> bytes" where
  "virtual_key nodeID i = nodeID @ lit ''#'' @ decimal i"

definition hash_key :: "(bytes \<Rightarrow> bytes) \<Rightarrow> bytes \<Rightarrow> u32" where
  "hash_key sha key = get_u32 (take 4 (sha key))"

definition add_node :: "(bytes \<Rightarrow> bytes) \<Rightarrow> bytes \<Rightarrow> hash_ring \<Rightarrow> hash_ring" where
  "add_node sha nodeID r =
     (let hs = map (\<lambda>i. hash_key sha (virtual_key nodeID i)) [0..<hr_virtual r]
      in r\<lparr>hr_nodes := fold (\<lambda>h nds. AList.update h nodeID nds) hs (hr_nodes r),
           hr_hashes := sort (hr_hashes r @ hs)\<rparr>)"

text \<open>Reading a Go map at an absent key gives the empty string.\<close>

definition node_at :: "(u32 \<times> bytes) list \<Rightarrow> u32 \<Rightarrow> bytes" where
  "node_at nds h = (case map_of nds h of None \<Rightarrow> [] | Some n \<Rightarrow> n)"

fun remove_loop :: "bytes \<Rightarrow> u32 list \<Rightarrow> (u32 \<times> bytes) list \<Rightarrow> u32 list \<times> (u32 \<times> bytes) list" where
  "remove_loop nodeID [] nds = ([], nds)"
| "remove_loop nodeID (h # hs) nds =
     (if node_at nds h \<noteq> nodeID
      then (case remove_loop nodeID hs nds of (ks, nds') \<Rightarrow> (h # ks, nds'))
      else remove_loop nodeID hs (AList.delete h nds))"

definition remove_node :: "bytes \<Rightarrow> hash_ring \<Rightarrow> hash_ring" where
  "remove_node nodeID r =
     (case remove_loop nodeID (hr_hashes r) (hr_nodes r) of
        (ks, nds) \<Rightarrow> r\<lparr>hr_hashes := ks, hr_nodes := nds\<rparr>)"

definition get_node :: "(bytes \<Rightarrow> bytes) \<Rightarrow> hash_ring \<Rightarrow> bytes \<Rightarrow> bytes result" where
  "get_node sha r key =
     (if length (hr_hashes r) = 0 then Inl (Err ''hash ring is empty'')
      else let hs = hr_hashes r; h = hash_key sha key;
               idx = go_search (\<lambda>i. hs ! i \<ge> h) 0 (length hs);
               idx' = (if idx = length hs then 0 else idx)
        in Inr (node_at (hr_nodes r) (hs ! idx')))"

definition get_nodes :: "hash_ring \<Rightarrow> bytes list" where
  "get_nodes r = sort (remdups (map snd (hr_nodes r)))"

definition get_node_count :: "hash_ring \<Rightarrow> nat" where
  "get_node_count r = length (remdups (map snd (hr_nodes r)))"

definition get_distribution :: "(bytes \<Rightarrow> bytes) \<Rightarrow> hash_ring \<Rightarrow> bytes list \<Rightarrow> (bytes \<times> nat) list" where
  "get_distribution sha r ks =
     fold (\<lambda>key d. case get_node sha r key of
         Inl _ \<Rightarrow> d
       | Inr n \<Rightarrow> AList.update n ((case map_of d n of None \<Rightarrow> 0 | Some c \<Rightarrow> c) + 1) d) ks []"

record ring_stats =
  rs_physical :: nat
  rs_virtual :: nat
  rs_total :: nat

definition get_stats :: "hash_ring \<Rightarrow> ring_stats" where
  "get_stats r = \<lparr>rs_physical = length (remdups (map snd (hr_nodes r))), rs_virtual = hr_virtual r,
     rs_total = length (hr_hashes r)\<rparr>"

section \<open>The ring as a circle\<close>

text \<open>The hash that follows \<open>h\<close> on the circle: the one at the least distance, modulo \<open>2^32\<close>.\<close>

definition clockwise :: "u32 set \<Rightarrow> u32 \<Rightarrow> u32" where
  "clockwise A h = h + Min ((\<lambda>x. x - h) ` A)"

lemma clockwise_eqI:
  assumes "finite A" "x \<in> A" "\<And>y. y \<in> A \<Longrightarrow> x - h \<le> y - h"
  shows "clockwise A h = x"
proof -
  have "Min ((\<lambda>x. x - h) ` A) = x - h" using assms by (intro Min_eqI) auto
  then show ?thesis by (simp add: clockwise_def)
qed

lemma clockwise_minimal:
  assumes "finite A" "A \<noteq> {}"
  shows "clockwise A h \<in> A" and "y \<in> A \<Longrightarrow> clockwise A h - h \<le> y - h"
proof -
  obtain x where x: "x \<in> A" "Min ((\<lambda>x. x - h) ` A) = x - h"
    using Min_in [of "(\<lambda>x. x - h) ` A"] assms by fastforce
  then have "clockwise A h = x" by (simp add: clockwise_def)
  then show "clockwise A h \<in> A" using x by simp
  show "clockwise A h - h \<le> y - h" if "y \<in> A"
    using \<open>clockwise A h = x\<close> x(2) Min_le [of "(\<lambda>x. x - h) ` A" "y - h"] assms that by simp
qed

lemma clockwise_subset:
  assumes "finite A" "A' \<subseteq> A" "clockwise A h \<in> A'"
  shows "clockwise A' h = clockwise A h"
proof (rule clockwise_eqI)
  show "finite A'" using assms finite_subset by blast
  show "clockwise A h - h \<le> y - h" if "y \<in> A'" for y
    using clockwise_minimal(2) [OF assms(1)] assms(2) that by blast
qed (rule assms(3))

lemma word_circle:
  fixes h x y :: u32
  shows "h \<le> x \<Longrightarrow> x \<le> y \<Longrightarrow> x - h \<le> y - h" and "h \<le> x \<Longrightarrow> y < h \<Longrightarrow> x - h \<le> y - h"
    and "x < h \<Longrightarrow> y < h \<Longrightarrow> x \<le> y \<Longrightarrow> x - h \<le> y - h"
proof -
  have "unat x < 2 ^ 32" "unat h < 2 ^ 32" using unat_bounds(3) [of x] unat_bounds(3) [of h] by simp_all
  then show "h \<le> x \<Longrightarrow> x \<le> y \<Longrightarrow> x - h \<le> y - h" "h \<le> x \<Longrightarrow> y < h \<Longrightarrow> x - h \<le> y - h"
    "x < h \<Longrightarrow> y < h \<Longrightarrow> x \<le> y \<Longrightarrow> x - h \<le> y - h"
    unfolding word_le_nat_alt word_less_nat_alt unat_sub_if' by (auto split: if_splits)
qed

lemma count_list_sort [simp]: "count_list (sort xs) x = count_list xs x"
  by (simp flip: count_mset)

lemma clockwise_search:
  fixes h :: u32
  assumes "sorted hs" "hs \<noteq> []"
  defines "k \<equiv> go_search (\<lambda>i. h \<le> hs ! i) 0 (length hs)"
  shows "clockwise (set hs) h = hs ! (if k = length hs then 0 else k)"
proof (rule clockwise_eqI)
  note s = go_search_sorted [OF assms(1), where h = h, folded k_def]
  show "hs ! (if k = length hs then 0 else k) \<in> set hs" using s(1) assms(2) by auto
  fix y assume "y \<in> set hs"
  then obtain i where i: "i < length hs" "y = hs ! i" by (auto simp: in_set_conv_nth)
  show "hs ! (if k = length hs then 0 else k) - h \<le> y - h"
  proof (cases "k = length hs")
    case True
    have "hs ! 0 \<le> y" using sorted_nth_mono [OF assms(1), of 0 i] i by simp
    moreover have "hs ! 0 < h" "y < h" using s(2) [of 0] s(2) [of i] i True assms(2) by auto
    ultimately show ?thesis using True word_circle(3) by simp
  next
    case False
    then have k: "k < length hs" "h \<le> hs ! k" using s(1,3) by auto
    show ?thesis
    proof (cases "i < k")
      case True
      then show ?thesis using s(2) [of i] i k word_circle(2) by simp
    next
      case False
      then show ?thesis using sorted_nth_mono [OF assms(1), of k i] i k word_circle(1) by simp
    qed
  qed
qed simp

section \<open>The invariant\<close>

text \<open>The hash list is sorted, without repetition, and lists exactly the hashes that have an owner.\<close>

definition ring_ok :: "hash_ring \<Rightarrow> bool" where
  "ring_ok r \<longleftrightarrow> sorted (hr_hashes r) \<and> distinct (hr_hashes r) \<and> set (hr_hashes r) = dom (map_of (hr_nodes r))"

definition node_hashes :: "(bytes \<Rightarrow> bytes) \<Rightarrow> bytes \<Rightarrow> hash_ring \<Rightarrow> u32 list" where
  "node_hashes sha nodeID r = map (\<lambda>i. hash_key sha (virtual_key nodeID i)) [0..<hr_virtual r]"

lemma map_of_fold_update:
  "map_of (fold (\<lambda>h nds. AList.update h n nds) hs nds) x = (if x \<in> set hs then Some n else map_of nds x)"
  by (induction hs arbitrary: nds) (auto simp: update_conv')

lemma add_node_view:
  shows "hr_hashes (add_node sha n r) = sort (hr_hashes r @ node_hashes sha n r)"
    and "map_of (hr_nodes (add_node sha n r)) =
      (\<lambda>x. if x \<in> set (node_hashes sha n r) then Some n else map_of (hr_nodes r) x)"
  by (simp_all add: add_node_def node_hashes_def Let_def map_of_fold_update fun_eq_iff)

lemma node_at_delete: "node_at (AList.delete h nds) x = (if x = h then [] else node_at nds x)"
  by (simp add: node_at_def delete_conv')

text \<open>One occurrence of every hash of the node goes; a second occurrence stays, without an owner.\<close>

lemma remove_loop_nodes:
  assumes "remove_loop n hs nds = (ks, nds')"
  shows "map_of nds' = (\<lambda>x. if x \<in> set hs \<and> node_at nds x = n then None else map_of nds x)"
  using assms
proof (induction n hs nds arbitrary: ks nds' rule: remove_loop.induct)
  case (2 n h hs nds)
  show ?case
  proof (cases "node_at nds h \<noteq> n")
    case True
    then show ?thesis using 2 by (auto simp: fun_eq_iff split: prod.splits)
  next
    case False
    then have "map_of nds' = (\<lambda>x. if x \<in> set hs \<and> node_at (AList.delete h nds) x = n then None
        else map_of (AList.delete h nds) x)" using 2 by simp
    then show ?thesis using False by (auto simp: fun_eq_iff node_at_delete delete_conv')
  qed
qed simp

lemma remove_loop_hashes:
  assumes "remove_loop n hs nds = (ks, nds')" "n \<noteq> []"
  shows "count_list ks x = count_list hs x - (if node_at nds x = n then 1 else 0)"
  using assms
proof (induction n hs nds arbitrary: ks nds' rule: remove_loop.induct)
  case (2 n h hs nds)
  show ?case
  proof (cases "node_at nds h \<noteq> n")
    case True
    then obtain ks1 where r: "remove_loop n hs nds = (ks1, nds')" "ks = h # ks1"
      using 2(3) by (auto split: prod.splits)
    show ?thesis using 2(1) [OF True r(1) 2(4)] True r(2) by auto
  next
    case False
    then have r: "remove_loop n hs (AList.delete h nds) = (ks, nds')" using 2(3) by simp
    show ?thesis using 2(2) [OF _ r 2(4)] False 2(4) by (auto simp: node_at_delete)
  qed
qed simp

lemma remove_loop_distinct:
  "distinct hs \<Longrightarrow> fst (remove_loop n hs nds) = filter (\<lambda>h. node_at nds h \<noteq> n) hs"
proof (induction n hs nds rule: remove_loop.induct)
  case (2 n h hs nds)
  have "filter (\<lambda>x. node_at (AList.delete h nds) x \<noteq> n) hs = filter (\<lambda>x. node_at nds x \<noteq> n) hs"
    using 2(3) by (intro filter_cong) (auto simp: node_at_delete)
  then show ?case using 2 by (auto split: prod.splits)
qed simp

lemma remove_node_view:
  assumes "distinct (hr_hashes r)"
  shows "hr_hashes (remove_node n r) = filter (\<lambda>h. node_at (hr_nodes r) h \<noteq> n) (hr_hashes r)"
    and "map_of (hr_nodes (remove_node n r)) =
      (\<lambda>x. if x \<in> set (hr_hashes r) \<and> node_at (hr_nodes r) x = n then None else map_of (hr_nodes r) x)"
  using remove_loop_distinct [OF assms, of n "hr_nodes r"] remove_loop_nodes [of n "hr_hashes r" "hr_nodes r"]
  by (auto simp: remove_node_def split: prod.splits)

lemma ring_ok_new [simp]: "ring_ok (new_hash_ring v)"
  by (simp add: ring_ok_def new_hash_ring_def)

lemma ring_ok_add:
  assumes "ring_ok r" "distinct (node_hashes sha n r)" "set (node_hashes sha n r) \<inter> set (hr_hashes r) = {}"
  shows "ring_ok (add_node sha n r)"
  using assms by (auto simp: ring_ok_def add_node_view dom_def split: if_splits)

lemma ring_ok_remove:
  assumes "ring_ok r"
  shows "ring_ok (remove_node n r)"
  using assms by (auto simp: ring_ok_def remove_node_view sorted_wrt_filter dom_def split: if_splits)

lemma get_node_clockwise:
  assumes "sorted (hr_hashes r)" "hr_hashes r \<noteq> []"
  shows "get_node sha r key = Inr (node_at (hr_nodes r) (clockwise (set (hr_hashes r)) (hash_key sha key)))"
  using assms by (simp add: get_node_def Let_def clockwise_search [OF assms])

section \<open>Properties\<close>

text \<open>
  Consistent hashing, lookup. On a ring whose hash list is sorted and not empty, \<open>GetNode\<close> returns
  without error the node registered for a hash of the ring that no other hash of the ring precedes on
  the circle, starting from the hash of the key: the distance \<open>x - hash\<close> modulo \<open>2^32\<close> is least.
\<close>

theorem get_node_successor:
  assumes "ring_ok r" "hr_hashes r \<noteq> []"
  shows "\<exists>x \<in> set (hr_hashes r). get_node sha r key = Inr (node_at (hr_nodes r) x) \<and>
    map_of (hr_nodes r) x \<noteq> None \<and> (\<forall>y \<in> set (hr_hashes r). x - hash_key sha key \<le> y - hash_key sha key)"
proof -
  let ?h = "hash_key sha key" and ?A = "set (hr_hashes r)"
  have "clockwise ?A ?h \<in> ?A" "\<forall>y \<in> ?A. clockwise ?A ?h - ?h \<le> y - ?h"
    using clockwise_minimal [of ?A] assms(2) by auto
  moreover have "map_of (hr_nodes r) (clockwise ?A ?h) \<noteq> None" using calculation(1) assms(1) by (auto simp: ring_ok_def)
  ultimately show ?thesis using get_node_clockwise assms by (auto simp: ring_ok_def)
qed

text \<open>
  C26: Consistent hashing, growth. Adding a node whose virtual hashes are fresh keeps the ring
  well formed, and every key either stays with its node or moves to the new one: no key moves between
  two old nodes.
\<close>

theorem add_node_moves_to_new:
  assumes "ring_ok r" "hr_hashes r \<noteq> []" "distinct (node_hashes sha n r)"
    "set (node_hashes sha n r) \<inter> set (hr_hashes r) = {}"
  shows "ring_ok (add_node sha n r) \<and>
    (get_node sha (add_node sha n r) key = get_node sha r key \<or> get_node sha (add_node sha n r) key = Inr n)"
proof -
  let ?h = "hash_key sha key" and ?A = "set (hr_hashes r)" and ?B = "set (node_hashes sha n r)"
  have ok: "ring_ok (add_node sha n r)" using ring_ok_add assms by blast
  have set: "set (hr_hashes (add_node sha n r)) = ?A \<union> ?B" by (simp add: add_node_view)
  then have g: "get_node sha (add_node sha n r) key = Inr (node_at (hr_nodes (add_node sha n r)) (clockwise (?A \<union> ?B) ?h))"
    using get_node_clockwise [of "add_node sha n r" sha key] ok assms(2)
    by (metis Un_empty ring_ok_def set_empty)
  have "clockwise (?A \<union> ?B) ?h \<in> ?A \<union> ?B" using clockwise_minimal(1) [of "?A \<union> ?B"] assms(2) by simp
  then consider "clockwise (?A \<union> ?B) ?h \<in> ?B" | "clockwise (?A \<union> ?B) ?h \<in> ?A" "clockwise (?A \<union> ?B) ?h \<notin> ?B" by blast
  then show ?thesis
  proof cases
    case 1
    then show ?thesis using g ok by (simp add: node_at_def add_node_view)
  next
    case 2
    have "clockwise ?A ?h = clockwise (?A \<union> ?B) ?h" using 2(1) by (intro clockwise_subset) auto
    then have "get_node sha (add_node sha n r) key = get_node sha r key"
      using g 2(2) get_node_clockwise [of r sha key] assms by (auto simp: ring_ok_def node_at_def add_node_view)
    then show ?thesis using ok by simp
  qed
qed

text \<open>
  C27: Consistent hashing, shrinking. Removing a node keeps the ring well formed and moves only the
  keys that node had: every key of another node keeps its node.
\<close>

theorem remove_node_keeps_others:
  assumes "ring_ok r" "get_node sha r key = Inr m" "m \<noteq> n"
  shows "ring_ok (remove_node n r) \<and> get_node sha (remove_node n r) key = Inr m"
proof -
  let ?h = "hash_key sha key" and ?A = "set (hr_hashes r)" and ?A' = "set (hr_hashes (remove_node n r))"
  have ne: "hr_hashes r \<noteq> []" using assms(2) by (auto simp: get_node_def)
  have ok: "ring_ok (remove_node n r)" using ring_ok_remove assms(1) by blast
  have m: "m = node_at (hr_nodes r) (clockwise ?A ?h)"
    using get_node_clockwise [of r sha key] assms ne by (auto simp: ring_ok_def)
  have A': "?A' = {x \<in> ?A. node_at (hr_nodes r) x \<noteq> n}" using assms(1) by (auto simp: ring_ok_def remove_node_view)
  have cin: "clockwise ?A ?h \<in> ?A'" using clockwise_minimal(1) [of ?A ?h] ne m assms(3) A' by auto
  have c: "clockwise ?A' ?h = clockwise ?A ?h" using cin A' by (intro clockwise_subset) auto
  have "get_node sha (remove_node n r) key = Inr (node_at (hr_nodes (remove_node n r)) (clockwise ?A ?h))"
    using get_node_clockwise [of "remove_node n r" sha key] ok cin unfolding c [symmetric] ring_ok_def by force
  moreover have "node_at (hr_nodes (remove_node n r)) (clockwise ?A ?h) = m"
    using m assms(1,3) by (auto simp: ring_ok_def remove_node_view node_at_def)
  ultimately show ?thesis using ok by simp
qed

text \<open>
  A node that is registered twice and then removed leaves its hashes on the ring without an owner:
  \<open>GetNode\<close> answers the empty node name without an error, for every key, although no node is left.
\<close>

theorem remove_after_double_add:
  fixes sha :: "bytes \<Rightarrow> bytes" and v :: int
  assumes "n \<noteq> []"
  defines "r \<equiv> remove_node n (add_node sha n (add_node sha n (new_hash_ring v)))"
  shows "get_nodes r = [] \<and> get_node sha r key = Inr []"
proof -
  let ?hs = "node_hashes sha n (new_hash_ring v)"
  let ?r2 = "add_node sha n (add_node sha n (new_hash_ring v))"
  have nh: "node_hashes sha n (add_node sha n (new_hash_ring v)) = ?hs" by (simp add: node_hashes_def add_node_def Let_def)
  have new0: "hr_hashes (new_hash_ring v) = []" "hr_nodes (new_hash_ring v) = []" by (simp_all add: new_hash_ring_def)
  have hs: "hr_hashes ?r2 = sort (sort ?hs @ ?hs)" and
    nds: "map_of (hr_nodes ?r2) = (\<lambda>x. if x \<in> set ?hs then Some n else None)"
    by (auto simp: add_node_view nh new0 fun_eq_iff)
  obtain ks nds' where r: "remove_loop n (hr_hashes ?r2) (hr_nodes ?r2) = (ks, nds')" by fastforce
  then have rr: "hr_hashes r = ks" "hr_nodes r = nds'" by (simp_all add: r_def remove_node_def)
  have "map_of nds' = Map.empty" using remove_loop_nodes [OF r] by (auto simp: hs nds node_at_def fun_eq_iff)
  then have e: "hr_nodes r = []" using rr by simp
  have "?hs \<noteq> []" by (simp add: node_hashes_def new_hash_ring_def)
  then obtain x where x: "x \<in> set ?hs" by (cases ?hs) auto
  have "count_list ks x = 2 * count_list ?hs x - 1"
    using remove_loop_hashes [OF r assms(1), of x] x by (simp add: hs nds node_at_def count_list_append)
  moreover have "0 < count_list ?hs x" using x count_list_0_iff [of ?hs x] by auto
  ultimately have "x \<in> set ks" using count_list_0_iff [of ks x] by auto
  then have "hr_hashes r \<noteq> []" using rr by auto
  then show ?thesis using e by (simp add: get_nodes_def get_node_def Let_def node_at_def)
qed

text \<open>Two nodes with two virtual nodes each, a hash function that is injective on their names.\<close>

definition demo_sha :: "bytes \<Rightarrow> bytes" where
  "demo_sha k = k @ replicate 28 0"

definition demo_ring :: hash_ring where
  "demo_ring = add_node demo_sha (lit ''n1'') (new_hash_ring 2)"

lemmas demo_ring_eval = demo_ring_def demo_sha_def add_node_def new_hash_ring_def hash_key_def virtual_key_def lit_def
  decimal.simps upt_rec get_u32_def ring_ok_def node_hashes_def

lemma demo_ring_ok: "ring_ok demo_ring" "hr_hashes demo_ring \<noteq> []"
  "distinct (node_hashes demo_sha (lit ''n2'') demo_ring)"
  "set (node_hashes demo_sha (lit ''n2'') demo_ring) \<inter> set (hr_hashes demo_ring) = {}"
  "get_node demo_sha demo_ring (lit ''key1'') = Inr (lit ''n1'')"
  by (simp_all add: demo_ring_eval get_node_def node_at_def Let_def go_search.simps)

theorem get_node_successor_witness:
  "\<exists>x \<in> set (hr_hashes demo_ring). get_node demo_sha demo_ring (lit ''key1'') = Inr (node_at (hr_nodes demo_ring) x) \<and>
    map_of (hr_nodes demo_ring) x \<noteq> None \<and>
    (\<forall>y \<in> set (hr_hashes demo_ring). x - hash_key demo_sha (lit ''key1'') \<le> y - hash_key demo_sha (lit ''key1''))"
  by (rule get_node_successor [OF demo_ring_ok(1,2)])

theorem add_node_moves_to_new_witness:
  "ring_ok (add_node demo_sha (lit ''n2'') demo_ring) \<and>
    (get_node demo_sha (add_node demo_sha (lit ''n2'') demo_ring) (lit ''key1'') = get_node demo_sha demo_ring (lit ''key1'') \<or>
     get_node demo_sha (add_node demo_sha (lit ''n2'') demo_ring) (lit ''key1'') = Inr (lit ''n2''))"
  by (rule add_node_moves_to_new [OF demo_ring_ok(1-4)])

theorem remove_node_keeps_others_witness:
  "ring_ok (remove_node (lit ''n2'') demo_ring) \<and>
    get_node demo_sha (remove_node (lit ''n2'') demo_ring) (lit ''key1'') = Inr (lit ''n1'')"
  by (rule remove_node_keeps_others [OF demo_ring_ok(1,5)]) (simp add: lit_def)

theorem remove_after_double_add_witness:
  "get_nodes (remove_node (lit ''n1'') (add_node demo_sha (lit ''n1'') (add_node demo_sha (lit ''n1'') (new_hash_ring 2)))) = [] \<and>
   get_node demo_sha (remove_node (lit ''n1'') (add_node demo_sha (lit ''n1'') (add_node demo_sha (lit ''n1'') (new_hash_ring 2))))
     (lit ''key1'') = Inr []"
  by (rule remove_after_double_add) (simp add: lit_def)

end
