(* ===== verification/Spec2Isabelle.thy ===== *)
theory Spec2Isabelle
  imports Query_Memory Store_Persistent Store_Recovery Lru_Cache Hash_Ring
begin

text \<open>
  A verification of the Nostr event store (Go, \<open>src/src/\<close>).

  \<^bold>\<open>The program.\<close> Events are serialized (\<open>storage/serializer.go\<close>) into records, which are appended to
  page-structured segment files (\<open>storage/segment.go\<close>, read back by \<open>storage/scanner.go\<close>) through a store
  that rotates the files (\<open>store/eventstore.go\<close>). Every change is first logged (\<open>wal/\<close>) and replayed after
  a crash. Indexes map keys made of kind, author, tag value and time (\<open>index/index.go\<close>) to record
  locations, in memory (\<open>index/btree.go\<close>) or in a B+ tree on the pages of a file (\<open>index/persist_index.go\<close>,
  \<open>persist_tree.go\<close>, \<open>persist_file.go\<close>, \<open>persist_node.go\<close>), behind a cache of its nodes (\<open>cache/btree_cache.go\<close>). A query filter is
  compiled to a plan (\<open>query/compiler.go\<close>) that scans key ranges, merges them by time and reads the events lazily
  (\<open>query/executor.go\<close>). The event store that clients see (\<open>eventstore/eventstore_impl.go\<close>) writes an event to the log, then to the
  segments, then to the four indexes of its manager (\<open>index/manager.go\<close>). Values and tree nodes are cached (\<open>cache/cache.go\<close>), and shards are chosen by a
  consistent hash ring (\<open>shard/hash_ring.go\<close>).

  \<^bold>\<open>The theories.\<close> Each opens with the source it models; the definitions carry the names of the code.

  \<^item> \<open>Prelude\<close>: bytes, big-endian integers, Go slices and errors, decimal numerals.
  \<^item> \<open>Events\<close>, \<open>Serializer\<close>: events, flags, filters and the byte format of records. An event survives
    serialization with its tags in normal form; records are well formed for their page size; an empty
    tag makes a record unreadable.
  \<^item> \<open>Segment\<close>, \<open>Segment_Layout\<close>, \<open>Record_Log\<close>, \<open>Segment_Ops\<close>: a segment over the bytes of its file.
    The layout theory relates these bytes to the list of records, the locale of \<open>Record_Log\<close> states
    what a log of records promises, and appending, reading, updating flags and reopening are
    shown to implement it.
  \<^item> \<open>Segment_Scanner\<close>: forward and reverse scans return exactly the records, with the case in
    which the reverse scan misses one.
  \<^item> \<open>Segment_Manager\<close>, \<open>Event_Store\<close>: the files of a directory, rotation, and the store on top of
    them, with round trips across writing, flag updates, closing and reopening.
  \<^item> \<open>Index_Keys\<close>, \<open>Range_Index\<close>, \<open>Memory_Index\<close>: key formats and their order; the index wrappers are
    proved once against a locale of ordered indexes, which the in-memory index interprets.
  \<^item> \<open>Checksum\<close>, \<open>Node_Codec\<close>: CRC-64 and the format of tree pages: round trip, size bound, and
    detection of damage.
  \<^item> \<open>Index_File\<close>, \<open>Page_Cache\<close>: the index file with its header page, and the cache with dirty entries and
    eviction. What the tree sees through the cache is changed by an update alone, and flushing makes
    the file agree with it.
  \<^item> \<open>Persist_Tree\<close>, \<open>Tree_Shape\<close>, \<open>Tree_Search\<close>, \<open>Tree_Insert\<close>, \<open>Tree_Up\<close>: search and insertion with the
    splits of leaves and internal nodes; an abstract tree with its items in order, how it lies in
    the pages, trees with a hole for the path of an operation, and the proofs that lookups answer by
    the entries and insertion adds one and keeps the invariant.
  \<^item> \<open>Tree_Iterator\<close>, \<open>Tree_Open\<close>, \<open>Tree_Delete\<close>, \<open>Persist_Index\<close>: range scans, flush and reopening, deletion with
    rebalancing, and the index on top; a whole session of an index from creation to reopening.
  \<^item> \<open>Query_Filter\<close>, \<open>Query_Exec\<close>: matching and normal form of filters, choice of
    the plan, and the key ranges of a plan against matching, where \<open>plan_scans\<close> says which events have a key between the inclusive ends of a range, as the in-memory
    index reads it; with plans that are marked fully indexed and scan events the filter does not match.
  \<^item> \<open>Go_Heap\<close>, \<open>Merge_Iterator\<close>, \<open>Intersection_Iterator\<close>, \<open>Executor\<close>, \<open>Query_Memory\<close>: the heap of the standard
    library, the merge of key ranges and the intersection of two merges over any index iterator, lazy delivery over any location iterator, also one that
    fails, the execution of plans and the engine; a query over in-memory indexes terminates and returns the events it should, the newest first, cut at the limit, and a search
    over tags of two names returns events that do not match.
  \<^item> \<open>Index_Manager\<close>: the \<open>Index\<close> interface as a record of operations, the manager and its recovery batches over it, and the locales that say what is
    relied on of a primary index; the in-memory index interprets them.
  \<^item> \<open>Store_Facade\<close>, \<open>Store_Batch\<close>, \<open>Store_Persistent\<close>: the event store over any indexes: an event that was written is found, one that was deleted is
    not, and others stay as they were; the log is written first. Proved once against the locales, and obtained for the in-memory and the persistent index; over the persistent indexes
    the entries of the three secondary indexes and the entry of the log after a write are shown too, and deletion is shown for leaves of the primary index that stay half full. Batches are
    shown over in-memory indexes.
  \<^item> \<open>Store_Rebuild\<close>, \<open>Store_Recovery\<close>: rebuilding the indexes from the segments, in any order of arrival, and replay of the log after the last checkpoint; over in-memory
    indexes both leave a store that answers for the live, or the logged, events.
  \<^item> \<open>Linked_List\<close>, \<open>Lru_Cache\<close>: the pointer structure of the cache on an explicit heap, refining a
    list in order of last use.
  \<^item> \<open>Hash_Ring\<close>: adding a node moves keys only to it, removing one moves only its keys.
  \<^item> \<open>Simulation\<close>, \<open>Wal_Codec\<close>, \<open>Wal_Writer\<close>, \<open>Wal_Log\<close>: the write-ahead log: format and scans, the
    buffered writer with its background flusher as a step of its own, and the refinement of an
    append-only sequence over any interleaving; crash and reopen.
  \<^item> \<open>Wal_Reader\<close>, \<open>Wal_Replay\<close>, \<open>Wal_Manager\<close>: the buffered reader returns the log from any LSN on;
    replay calls back for every logged operation, in order and with the logged data, and counts what succeeded; deleting old files keeps the entries that are still needed;
    the validator.

  \<^bold>\<open>State, errors and files.\<close> Structures of the code are records, passed and returned explicitly. A
  file is the list of its bytes and a directory an association list from names to files, in the
  order of the directory listing. An operation that can fail returns an error of type \<open>go_error\<close>, whose constructors
  keep the chain of wrapped messages without their formatted values; a Go panic is an error of its
  own. Machine integers have their width wherever the code can reach it.

  \<^bold>\<open>Termination.\<close> Loops are total functions with a measure where they end on every input (reader,
  validator, tree pages). The record scans and the log scans take the number of rounds as fuel: the former at least the
  number of records plus one, the latter the bound that the code itself computes, which is shown to be
  never reached. Replay takes fuel because it need not end: one round more than there are entries
  is enough on a well-formed log, and no number is enough after a checksum mismatch. The scan of a segment during a rebuild takes more rounds than the
  segments have records. The batch write takes fuel for the loop that rotates segments: two rounds per event and one more are enough. The merge and the intersection of scans take fuel,
  since an index iterator need not end: more rounds than the ranges have entries are enough. The count of the entries of a tree takes its
  depth as fuel, since the code follows damaged child pointers without bound: 30 is enough for a tree with fewer than \<open>2 ^ 29\<close> entries.

  \<^bold>\<open>Bounds.\<close> The theorems on the persistent index ask for keys of at most 128 bytes (the keys of the primary, author and kind
  indexes have 32, 38 and 6 bytes, a search key has 8 more than its tag value; a tag value may have up to 255 bytes, and with keys of
  some 200 bytes beside very short ones the split of a leaf can fail), for fewer than \<open>2 ^ 29\<close> entries and for a cache of at
  least 64 pages: the nodes that an operation holds are then never evicted under it, as a path has at most 30 nodes. Deletion is
  proved for leaves that stay half full.

  \<^bold>\<open>Arguments.\<close> The order in which Go visits a map and in which parallel scans deliver, the index manager that is opened after its files were deleted, SHA-256 of the hash ring, case folding and substring search of the query filter, and the
  callbacks of a replayer are arguments of the definitions.

  \<^bold>\<open>Not modelled.\<close> Failing system calls other than reads past the end of a file; locks and goroutines other
  than the flusher of the log; logging and metrics. A node cache shared by several trees. Opening and closing the event store, index
  partitions, the package \<open>recovery/\<close> and compaction. Network access, configuration and generated code stay outside.
\<close>

end
